(* ===== verification/Prelude.thy ===== *)
theory Prelude
  imports Main "HOL-Library.Word" "HOL-Library.Monad_Syntax" "HOL-Library.Signed_Division"
begin

text \<open>
  Shared notions of the development: the panic monad (an \<open>option\<close> whose \<open>None\<close> is a
  Rust panic), the range of the machine integer \<open>i128\<close> that carries every abstract number,
  the collections of unfolding rules the component theories fill, and the generic lemmas
  on options, lists and bits that several components use.

  A debug assertion and an arithmetic overflow check panic in a debug build only.  They
  are modelled as panics, so a theorem that an operation returns \<open>Some\<close> result holds of
  the debug build and of the release build, which compute the same there.
\<close>

unbundle bit_operations_syntax

subsection \<open>Collections of unfolding rules\<close>

named_theorems num_defs \<open>operations of arith/number.rs\<close>
named_theorems ext_defs \<open>operations of arith/extended_number.rs\<close>
named_theorems itv_defs \<open>operations of crab/interval.rs\<close>
named_theorems panic_simps \<open>rewriting of the panic monad\<close>

subsection \<open>The panic monad\<close>

definition assert_that :: "bool \<Rightarrow> unit option" where
  "assert_that b = (if b then Some () else None)"

lemma assert_that_simps [simp]:
  "assert_that True = Some ()" "assert_that False = None"
  by (simp_all add: assert_that_def)

lemma assert_that_Some [panic_simps]: "assert_that b = Some u \<longleftrightarrow> b"
  by (simp add: assert_that_def)

lemma bind_Some_conv [panic_simps]:
  "Option.bind m f = Some r \<longleftrightarrow> (\<exists>x. m = Some x \<and> f x = Some r)"
  by (cases m) auto

lemma bind_SomeE:
  assumes "Option.bind x f = Some r"
  obtains y where "x = Some y" "f y = Some r"
  using assms by (cases x) auto

lemma if_Some_conv [panic_simps]:
  "(if b then x else None) = Some r \<longleftrightarrow> b \<and> x = Some r"
  "(if b then None else x) = Some r \<longleftrightarrow> \<not> b \<and> x = Some r"
  by auto

subsection \<open>The range of i128\<close>

definition in_i128 :: "int \<Rightarrow> bool" where
  "in_i128 x \<longleftrightarrow> - (2 ^ 127) \<le> x \<and> x < 2 ^ 127"

definition chk_i128 :: "int \<Rightarrow> int option" where
  "chk_i128 x = (if in_i128 x then Some x else None)"

lemma chk_i128_Some [panic_simps]: "chk_i128 x = Some y \<longleftrightarrow> y = x \<and> in_i128 x"
  by (auto simp: chk_i128_def)

lemma chk_i128_ok: "in_i128 x \<Longrightarrow> chk_i128 x = Some x"
  by (simp add: chk_i128_def)

lemma in_i128_small: "- (2 ^ 126) \<le> x \<Longrightarrow> x \<le> 2 ^ 126 \<Longrightarrow> in_i128 x"
  by (simp add: in_i128_def)

subsection \<open>Iterator minimum and maximum\<close>

fun iter_min :: "'a::linorder list \<Rightarrow> 'a option" where
  "iter_min [] = None"
| "iter_min (x # xs) = Some (fold min xs x)"

fun iter_max :: "'a::linorder list \<Rightarrow> 'a option" where
  "iter_max [] = None"
| "iter_max (x # xs) = Some (fold max xs x)"

subsection \<open>Bits of integers\<close>

lemma and_mask_eq_take_bit: "(n::int) AND (2 ^ w - 1) = take_bit w n"
  by (simp add: take_bit_eq_mask mask_eq_exp_minus_1)

lemma take_bit_and_sign_bit:
  assumes "0 < w"
  shows "take_bit w (n::int) AND 2 ^ (w - 1) = 0 \<longleftrightarrow> \<not> bit n (w - 1)"
  using assms by (simp add: and_exp_eq_0_iff_not_bit bit_take_bit_iff)

lemma take_bit_range: "0 \<le> take_bit w (n::int) \<and> take_bit w n < 2 ^ w"
  by simp

lemma take_bit_negative:
  assumes "- (2 ^ w) \<le> (n::int)" "n < 0"
  shows "take_bit w n = n + 2 ^ w"
proof -
  have "take_bit w n = (n + 2 ^ w) mod 2 ^ w" by (simp add: take_bit_eq_mod)
  also have "\<dots> = n + 2 ^ w" using assms by (intro mod_pos_pos_trivial) auto
  finally show ?thesis .
qed

lemma signed_take_bit_alt:
  assumes "0 < w"
  shows "signed_take_bit (w - 1) (n::int) =
    (if take_bit w n \<ge> 2 ^ (w - 1) then take_bit w n - 2 ^ w else take_bit w n)"
proof -
  have w: "Suc (w - 1) = w" using assms by simp
  have bit: "bit n (w - 1) \<longleftrightarrow> take_bit w n \<ge> 2 ^ (w - 1)"
  proof -
    have "take_bit w n = take_bit (w - 1) n + (if bit n (w - 1) then 2 ^ (w - 1) else 0)"
      using take_bit_Suc_from_most [of "w - 1" n] w by (simp add: push_bit_eq_mult of_bool_def)
    moreover have "0 \<le> take_bit (w - 1) n" "take_bit (w - 1) n < 2 ^ (w - 1)" by simp_all
    ultimately show ?thesis by (cases "bit n (w - 1)") (simp_all add: not_le)
  qed
  show ?thesis
    unfolding signed_take_bit_eq_take_bit_minus w bit by (simp add: of_bool_def)
qed

end
