(* ===== verification/Number.thy ===== *)
theory Number
  imports Prelude
begin

text \<open>
  \<open>src/arith/number.rs\<close>: \<open>Number\<close>, the newtype over \<open>i128\<close> of every abstract value.  A
  number is an \<open>int\<close> in the range \<open>in_i128\<close>; an operation that can panic returns an
  \<open>option\<close>.  Widths are an \<open>int\<close> where the code takes an \<open>i32\<close> and a \<open>nat\<close> where it
  takes a \<open>u32\<close>.  Proved here: the width operations are the bit-truncations of the eBPF
  ISA, the checked operations are exact, and every result is again an \<open>i128\<close>.
\<close>

type_synonym number = int

subsection \<open>Sign tests and absolute value\<close>

definition num_is_zero :: "number \<Rightarrow> bool" where
  "num_is_zero n \<longleftrightarrow> n = 0"

definition num_is_negative :: "number \<Rightarrow> bool" where
  "num_is_negative n \<longleftrightarrow> n < 0"

definition num_is_positive :: "number \<Rightarrow> bool" where
  "num_is_positive n \<longleftrightarrow> n > 0"

definition num_abs :: "number \<Rightarrow> number option" where
  "num_abs n = chk_i128 \<bar>n\<bar>"

subsection \<open>Width operations\<close>

definition num_sign_extend :: "number \<Rightarrow> int \<Rightarrow> number option" where
  "num_sign_extend n width =
     (if width = 0 then Some n
      else if \<not> (0 \<le> width \<and> width \<le> 64) then None
      else
        let w = nat width;
            mask = push_bit w 1 - 1;
            sign_bit = push_bit (w - 1) 1;
            truncated = n AND mask
        in if truncated AND sign_bit \<noteq> 0 then Some (truncated - push_bit w 1)
           else Some truncated)"

definition num_zero_extend :: "number \<Rightarrow> int \<Rightarrow> number option" where
  "num_zero_extend n width =
     (if width = 0 then Some n
      else if \<not> (0 \<le> width \<and> width \<le> 64) then None
      else Some (n AND (push_bit (nat width) 1 - 1)))"

definition num_cast_to_signed_width :: "number \<Rightarrow> nat \<Rightarrow> number option" where
  "num_cast_to_signed_width n width =
     (if width = 0 \<or> width > 64 then None
      else
        let lo = - push_bit (width - 1) 1;
            hi = push_bit (width - 1) 1 - 1
        in if n \<ge> lo \<and> n \<le> hi then Some n
           else
             let umax = push_bit width 1 - 1
             in if n \<ge> 0 \<and> n \<le> umax
                then (let sign_bit = push_bit (width - 1) 1
                      in if n \<ge> sign_bit then Some (n - push_bit width 1) else Some n)
                else None)"

definition num_cast_to_unsigned_width :: "number \<Rightarrow> nat \<Rightarrow> number option" where
  "num_cast_to_unsigned_width n width =
     (if width > 64 then None
      else
        let umax = push_bit width 1 - 1
        in if n \<ge> 0 \<and> n \<le> umax then Some n
           else if width = 0 then None
           else
             let lo = - push_bit (width - 1) 1;
                 hi = push_bit (width - 1) 1 - 1
             in if n \<ge> lo \<and> n \<le> hi
                then (if n < 0 then Some (n + push_bit width 1) else Some n)
                else None)"

text \<open>
  \<open>leading_zeros\<close> of the 128-bit two's complement pattern: 0 for a negative number.
\<close>

fun bit_length :: "nat \<Rightarrow> nat" where
  "bit_length n = (if n = 0 then 0 else Suc (bit_length (n div 2)))"

declare bit_length.simps [simp del]

definition i128_leading_zeros :: "int \<Rightarrow> nat" where
  "i128_leading_zeros n = (if n < 0 then 0 else 128 - bit_length (nat n))"

definition num_fill_ones :: "number \<Rightarrow> number option" where
  "num_fill_ones n =
     (if n = 0 then Some 0
      else
        let bits = 128 - i128_leading_zeros n
        in if bits \<ge> 128 then None
           else chk_i128 (signed_take_bit 127 (push_bit bits 1) - 1))"

definition num_max_uint :: "int \<Rightarrow> number option" where
  "num_max_uint width =
     (if \<not> (0 \<le> width \<and> width \<le> 64) then None else Some (push_bit (nat width) 1 - 1))"

definition num_max_int :: "int \<Rightarrow> number option" where
  "num_max_int width =
     (if \<not> (1 \<le> width \<and> width \<le> 64) then None else Some (push_bit (nat width - 1) 1 - 1))"

definition num_min_int :: "int \<Rightarrow> number option" where
  "num_min_int width =
     (if \<not> (1 \<le> width \<and> width \<le> 64) then None else Some (- push_bit (nat width - 1) 1))"

subsection \<open>Narrowing and range tests\<close>

definition num_to_i32 :: "number \<Rightarrow> int option" where
  "num_to_i32 n = (if - (2 ^ 31) \<le> n \<and> n < 2 ^ 31 then Some n else None)"

definition num_to_u32 :: "number \<Rightarrow> int option" where
  "num_to_u32 n = (if 0 \<le> n \<and> n < 2 ^ 32 then Some n else None)"

definition num_to_i64 :: "number \<Rightarrow> int option" where
  "num_to_i64 n = (if - (2 ^ 63) \<le> n \<and> n < 2 ^ 63 then Some n else None)"

definition num_to_u64 :: "number \<Rightarrow> int option" where
  "num_to_u64 n = (if 0 \<le> n \<and> n < 2 ^ 64 then Some n else None)"

text \<open>\<open>narrow_to_i64\<close> and \<open>narrow_to_u64\<close> unwrap the same conversion and panic on \<open>None\<close>.\<close>

definition num_narrow_to_i64 :: "number \<Rightarrow> int option" where
  "num_narrow_to_i64 n = num_to_i64 n"

definition num_narrow_to_u64 :: "number \<Rightarrow> int option" where
  "num_narrow_to_u64 n = num_to_u64 n"

definition num_fits_signed :: "number \<Rightarrow> nat \<Rightarrow> bool option" where
  "num_fits_signed n width =
     (if width \<ge> 128 then Some True
      else if width = 0 then None
      else
        let sb = signed_take_bit 127 (push_bit (width - 1) 1)
        in do { lo \<leftarrow> chk_i128 (- sb);
                hi \<leftarrow> chk_i128 (sb - 1);
                Some (n \<ge> lo \<and> n \<le> hi) })"

definition num_fits_unsigned :: "number \<Rightarrow> nat \<Rightarrow> bool" where
  "num_fits_unsigned n width =
     (if n < 0 then False
      else if width \<ge> 127 then True
      else n < push_bit width 1)"

definition num_fits_cast_to :: "number \<Rightarrow> nat \<Rightarrow> bool option" where
  "num_fits_cast_to n width =
     do { s \<leftarrow> num_fits_signed n width; Some (s \<or> num_fits_unsigned n width) }"

definition num_truncate_to_signed :: "number \<Rightarrow> nat \<Rightarrow> number option" where
  "num_truncate_to_signed n width =
     (if width = 0 \<or> width > 64 then None
      else
        let mask = push_bit width 1 - 1;
            unsigned_val = n AND mask;
            sign_bit = push_bit (width - 1) 1
        in if unsigned_val \<ge> sign_bit then Some (unsigned_val - push_bit width 1)
           else Some unsigned_val)"

definition num_truncate_to_unsigned :: "number \<Rightarrow> nat \<Rightarrow> number option" where
  "num_truncate_to_unsigned n width =
     (if width > 64 then None else Some (n AND (push_bit width 1 - 1)))"

subsection \<open>Conversions from machine integers\<close>

definition num_from_i64 :: "64 word \<Rightarrow> number" where
  "num_from_i64 v = sint v"

definition num_from_i32 :: "32 word \<Rightarrow> number" where
  "num_from_i32 v = sint v"

definition num_from_u64 :: "64 word \<Rightarrow> number" where
  "num_from_u64 v = uint v"

definition num_from_u32 :: "32 word \<Rightarrow> number" where
  "num_from_u32 v = uint v"

subsection \<open>Checked arithmetic\<close>

text \<open>
  \<open>checked_div\<close> and \<open>checked_rem\<close> truncate towards zero (\<open>sdiv\<close>, \<open>smod\<close> of the library) and
  fail on a zero divisor and on \<open>i128::MIN / -1\<close>.
\<close>

definition num_add :: "number \<Rightarrow> number \<Rightarrow> number option" where
  "num_add a b = chk_i128 (a + b)"

definition num_sub :: "number \<Rightarrow> number \<Rightarrow> number option" where
  "num_sub a b = chk_i128 (a - b)"

definition num_mul :: "number \<Rightarrow> number \<Rightarrow> number option" where
  "num_mul a b = chk_i128 (a * b)"

definition num_div :: "number \<Rightarrow> number \<Rightarrow> number option" where
  "num_div a b = (if b = 0 then None else chk_i128 (a sdiv b))"

definition num_rem :: "number \<Rightarrow> number \<Rightarrow> number option" where
  "num_rem a b = (if b = 0 \<or> (a = - (2 ^ 127) \<and> b = - 1) then None else Some (a smod b))"

definition num_neg :: "number \<Rightarrow> number option" where
  "num_neg a = chk_i128 (- a)"

definition num_and :: "number \<Rightarrow> number \<Rightarrow> number" where
  "num_and a b = a AND b"

definition num_or :: "number \<Rightarrow> number \<Rightarrow> number" where
  "num_or a b = a OR b"

definition num_xor :: "number \<Rightarrow> number \<Rightarrow> number" where
  "num_xor a b = a XOR b"

text \<open>
  \<open>checked_shl\<close> fails on a shift count of 128 or more only; a smaller shift drops the bits
  it pushes out of the 128-bit pattern without a panic.
\<close>

definition num_shl :: "number \<Rightarrow> nat \<Rightarrow> number option" where
  "num_shl a k = (if k < 128 then Some (signed_take_bit 127 (push_bit k a)) else None)"

definition num_shr :: "number \<Rightarrow> nat \<Rightarrow> number option" where
  "num_shr a k = (if k < 128 then Some (drop_bit k a) else None)"

lemmas num_unfolds [num_defs] =
  num_is_zero_def num_is_negative_def num_is_positive_def num_abs_def
  num_to_i64_def num_to_u64_def num_narrow_to_i64_def num_narrow_to_u64_def
  num_add_def num_sub_def num_mul_def num_div_def num_rem_def num_neg_def
  num_and_def num_or_def num_xor_def num_shr_def

subsection \<open>The width operations are bit truncations\<close>

lemma num_truncate_to_signed_eq:
  "0 < w \<Longrightarrow> w \<le> 64 \<Longrightarrow> num_truncate_to_signed n w = Some (signed_take_bit (w - 1) n)"
  by (subst signed_take_bit_alt)
    (auto simp: num_truncate_to_signed_def Let_def and_mask_eq_take_bit)

lemma num_truncate_to_unsigned_eq:
  "w \<le> 64 \<Longrightarrow> num_truncate_to_unsigned n w = Some (take_bit w n)"
  by (simp add: num_truncate_to_unsigned_def and_mask_eq_take_bit)

lemma num_sign_extend_eq:
  assumes "0 < w" "w \<le> 64"
  shows "num_sign_extend n w = Some (signed_take_bit (nat w - 1) n)"
proof -
  have w: "0 < nat w" "Suc (nat w - 1) = nat w" using assms by auto
  have "signed_take_bit (nat w - 1) n =
      (if bit n (nat w - 1) then take_bit (nat w) n - 2 ^ nat w else take_bit (nat w) n)"
    unfolding signed_take_bit_eq_take_bit_minus w by simp
  then show ?thesis
    using assms take_bit_and_sign_bit [OF w(1)]
    by (simp add: num_sign_extend_def Let_def and_mask_eq_take_bit del: One_nat_def)
qed

lemma num_zero_extend_eq:
  "0 < w \<Longrightarrow> w \<le> 64 \<Longrightarrow> num_zero_extend n w = Some (take_bit (nat w) n)"
  by (simp add: num_zero_extend_def and_mask_eq_take_bit)

lemma num_max_uint_eq: "0 \<le> w \<Longrightarrow> w \<le> 64 \<Longrightarrow> num_max_uint w = Some (2 ^ nat w - 1)"
  by (simp add: num_max_uint_def)

lemma num_max_int_eq: "1 \<le> w \<Longrightarrow> w \<le> 64 \<Longrightarrow> num_max_int w = Some (2 ^ (nat w - 1) - 1)"
  by (simp add: num_max_int_def)

lemma num_min_int_eq: "1 \<le> w \<Longrightarrow> w \<le> 64 \<Longrightarrow> num_min_int w = Some (- (2 ^ (nat w - 1)))"
  by (simp add: num_min_int_def)

subsection \<open>The 64-bit casts\<close>

lemma num_cast_u64_eq:
  "num_cast_to_unsigned_width n 64 =
    (if - (2 ^ 63) \<le> n \<and> n < 2 ^ 64 then Some (take_bit 64 n) else None)"
proof (cases "0 \<le> n \<and> n < 2 ^ 64")
  case True
  then show ?thesis by (simp add: num_cast_to_unsigned_width_def take_bit_int_eq_self)
next
  case False
  have "take_bit 64 n = n + 2 ^ 64" if "- (2 ^ 63) \<le> n" "n < 0"
    using that by (intro take_bit_negative) auto
  with False show ?thesis by (auto simp: num_cast_to_unsigned_width_def)
qed

lemma num_cast_s64_eq:
  "num_cast_to_signed_width n 64 =
    (if - (2 ^ 63) \<le> n \<and> n < 2 ^ 64 then Some (signed_take_bit 63 n) else None)"
proof -
  have "take_bit 64 n = n" if "0 \<le> n" "n < 2 ^ 64"
    using that by (rule take_bit_int_eq_self)
  moreover have "take_bit 64 n = n + 2 ^ 64" if "- (2 ^ 63) \<le> n" "n < 0"
    using that by (intro take_bit_negative) auto
  ultimately show ?thesis
    using signed_take_bit_alt [of 64 n] by (auto simp: num_cast_to_signed_width_def)
qed

lemma num_fits_cast_64_eq:
  "num_fits_cast_to n 64 = Some (- (2 ^ 63) \<le> n \<and> n < 2 ^ 64)"
  by (auto simp: num_fits_cast_to_def num_fits_signed_def num_fits_unsigned_def
      chk_i128_def in_i128_def)

subsection \<open>All-ones masks\<close>

lemma bit_length_bounds:
  "n < 2 ^ bit_length n \<and> (0 < n \<longrightarrow> 2 ^ bit_length n \<le> 2 * n)"
proof (induction n rule: bit_length.induct)
  case (1 n)
  show ?case
  proof (cases "n = 0")
    case True
    then show ?thesis by (simp add: bit_length.simps)
  next
    case False
    then have IH: "n div 2 < 2 ^ bit_length (n div 2)"
      "0 < n div 2 \<Longrightarrow> 2 ^ bit_length (n div 2) \<le> 2 * (n div 2)"
      using "1.IH" by auto
    have "bit_length n = Suc (bit_length (n div 2))"
      using False by (subst bit_length.simps) simp
    moreover have "n < 2 * 2 ^ bit_length (n div 2)" using IH(1) by linarith
    moreover have "2 * 2 ^ bit_length (n div 2) \<le> 2 * n"
    proof (cases "0 < n div 2")
      case True
      then show ?thesis using IH(2) by linarith
    next
      case small: False
      then have "bit_length (n div 2) = 0" by (simp add: bit_length.simps)
      then show ?thesis using False by simp
    qed
    ultimately show ?thesis by simp
  qed
qed

lemma bit_length_less:
  assumes "n < 2 ^ k" shows "bit_length n \<le> k"
proof (cases "n = 0")
  case True
  then show ?thesis by (simp add: bit_length.simps)
next
  case False
  then have "(2::nat) ^ bit_length n < 2 ^ Suc k"
    using assms bit_length_bounds [of n] by simp
  then show ?thesis by (simp only: power_strict_increasing_iff)
qed

lemma num_fill_ones_eq:
  assumes "0 \<le> n" "n < 2 ^ 126"
  shows "num_fill_ones n = Some (2 ^ bit_length (nat n) - 1)"
proof (cases "n = 0")
  case True
  then show ?thesis by (simp add: num_fill_ones_def bit_length.simps)
next
  case False
  have "nat n < 2 ^ 126" using assms by (simp add: nat_less_iff)
  then have bl: "bit_length (nat n) \<le> 126" by (rule bit_length_less)
  have small: "(2::int) ^ bit_length (nat n) \<le> 2 ^ 126"
    using bl by (intro power_increasing) auto
  define p where "p = (2::int) ^ bit_length (nat n)"
  have p: "0 < p" "p \<le> 2 ^ 126" using small by (simp_all add: p_def)
  then have "signed_take_bit 127 p = p" and "in_i128 (p - 1)"
    by (auto simp: in_i128_def intro!: signed_take_bit_int_eq_self)
  then show ?thesis
    using False assms bl
    by (simp add: num_fill_ones_def i128_leading_zeros_def chk_i128_ok p_def)
qed

lemma num_fill_ones_Some:
  assumes "0 \<le> n" "num_fill_ones n = Some m"
  shows "\<exists>k. m = 2 ^ k - 1 \<and> n < 2 ^ k"
proof (cases "n < 2 ^ 126")
  case True
  have "n < 2 ^ bit_length (nat n)"
    using bit_length_bounds [of "nat n"] assms(1) by (simp add: nat_less_iff)
  then show ?thesis using assms num_fill_ones_eq [OF assms(1) True] by auto
next
  case False
  have "\<not> bit_length (nat n) \<le> 126"
  proof
    assume "bit_length (nat n) \<le> 126"
    then have "(2::nat) ^ bit_length (nat n) \<le> 2 ^ 126" by (intro power_increasing) auto
    then have "nat n < 2 ^ 126" using bit_length_bounds [of "nat n"] by linarith
    then show False using False assms(1) by (simp add: nat_less_iff)
  qed
  then have "127 \<le> bit_length (nat n)" by simp
  then have "num_fill_ones n = None"
    using False assms(1)
    by (cases "bit_length (nat n) = 127")
      (auto simp: num_fill_ones_def i128_leading_zeros_def chk_i128_def in_i128_def)
  then show ?thesis using assms(2) by simp
qed

end
