(* ===== verification/Extended_Number.thy ===== *)
theory Extended_Number
  imports Number
begin

text \<open>
  \<open>src/arith/extended_number.rs\<close>: a number or one of the two infinities, the bounds of the
  interval domain.  The derived order is an instance of \<open>linorder\<close>, so \<open>min\<close>, \<open>max\<close> and the
  order reasoning of the library apply to bounds.  The arithmetic panics on the undefined
  combinations of infinities, on a zero divisor and where the number arithmetic does.
\<close>

subsection \<open>The type and its order\<close>

datatype extended_number = MinusInfinity | Finite number | PlusInfinity

fun ext_le :: "extended_number \<Rightarrow> extended_number \<Rightarrow> bool" where
  "ext_le MinusInfinity y = True"
| "ext_le (Finite a) MinusInfinity = False"
| "ext_le (Finite a) (Finite b) = (a \<le> b)"
| "ext_le (Finite a) PlusInfinity = True"
| "ext_le PlusInfinity y = (y = PlusInfinity)"

instantiation extended_number :: linorder
begin

definition less_eq_extended_number :: "extended_number \<Rightarrow> extended_number \<Rightarrow> bool" where
  "x \<le> y \<longleftrightarrow> ext_le x y"

definition less_extended_number :: "extended_number \<Rightarrow> extended_number \<Rightarrow> bool" where
  "(x::extended_number) < y \<longleftrightarrow> x \<le> y \<and> \<not> y \<le> x"

instance
proof
  fix x y z :: extended_number
  show "x < y \<longleftrightarrow> x \<le> y \<and> \<not> y \<le> x" by (rule less_extended_number_def)
  show "x \<le> x" by (cases x) (auto simp: less_eq_extended_number_def)
  show "x \<le> y \<Longrightarrow> y \<le> z \<Longrightarrow> x \<le> z" by (cases x; cases y; cases z) (auto simp: less_eq_extended_number_def)
  show "x \<le> y \<Longrightarrow> y \<le> x \<Longrightarrow> x = y" by (cases x; cases y) (auto simp: less_eq_extended_number_def)
  show "x \<le> y \<or> y \<le> x" by (cases x; cases y) (auto simp: less_eq_extended_number_def)
qed

end

lemma ext_order_simps [simp]:
  "MinusInfinity \<le> y" "\<not> Finite a \<le> MinusInfinity" "Finite a \<le> Finite b \<longleftrightarrow> a \<le> b" "Finite a \<le> PlusInfinity"
  "PlusInfinity \<le> y \<longleftrightarrow> y = PlusInfinity"
  by (simp_all add: less_eq_extended_number_def)

lemma ext_less_simps [simp]:
  "Finite a < Finite b \<longleftrightarrow> a < b"
  "Finite a < PlusInfinity" "MinusInfinity < Finite a" "MinusInfinity < PlusInfinity"
  "\<not> x < MinusInfinity" "\<not> PlusInfinity < x"
  by (auto simp: less_extended_number_def)

lemma ext_le_simps [simp]:
  "x \<le> PlusInfinity" "x \<le> MinusInfinity \<longleftrightarrow> x = MinusInfinity"
  "PlusInfinity \<le> x \<longleftrightarrow> x = PlusInfinity"
  by (cases x; simp)+

subsection \<open>Queries\<close>

definition ext_is_infinite :: "extended_number \<Rightarrow> bool" where
  "ext_is_infinite x \<longleftrightarrow> (case x of Finite _ \<Rightarrow> False | _ \<Rightarrow> True)"

definition ext_is_finite :: "extended_number \<Rightarrow> bool" where
  "ext_is_finite x \<longleftrightarrow> (case x of Finite _ \<Rightarrow> True | _ \<Rightarrow> False)"

definition ext_is_plus_infinity :: "extended_number \<Rightarrow> bool" where
  "ext_is_plus_infinity x \<longleftrightarrow> x = PlusInfinity"

definition ext_is_minus_infinity :: "extended_number \<Rightarrow> bool" where
  "ext_is_minus_infinity x \<longleftrightarrow> x = MinusInfinity"

definition ext_number :: "extended_number \<Rightarrow> number option" where
  "ext_number x = (case x of Finite n \<Rightarrow> Some n | _ \<Rightarrow> None)"

definition ext_is_positive :: "extended_number \<Rightarrow> bool" where
  "ext_is_positive x \<longleftrightarrow> x > Finite 0"

lemma ext_query_simps [simp]:
  "ext_is_infinite (Finite n) = False" "ext_is_infinite PlusInfinity" "ext_is_infinite MinusInfinity"
  "ext_is_finite (Finite n)" "\<not> ext_is_finite PlusInfinity" "\<not> ext_is_finite MinusInfinity"
  "ext_number (Finite n) = Some n" "ext_number PlusInfinity = None"
  "ext_number MinusInfinity = None"
  by (simp_all add: ext_is_infinite_def ext_is_finite_def ext_number_def)

subsection \<open>Arithmetic\<close>

fun ext_neg :: "extended_number \<Rightarrow> extended_number option" where
  "ext_neg PlusInfinity = Some MinusInfinity"
| "ext_neg MinusInfinity = Some PlusInfinity"
| "ext_neg (Finite n) = map_option Finite (num_neg n)"

definition ext_abs :: "extended_number \<Rightarrow> extended_number option" where
  "ext_abs x = (if x \<ge> Finite 0 then Some x else ext_neg x)"

definition ext_sign_extend :: "extended_number \<Rightarrow> int \<Rightarrow> number option" where
  "ext_sign_extend x width =
     (case x of Finite n \<Rightarrow> num_sign_extend n width | _ \<Rightarrow> None)"

definition ext_zero_extend :: "extended_number \<Rightarrow> int \<Rightarrow> number option" where
  "ext_zero_extend x width =
     (case x of Finite n \<Rightarrow> num_zero_extend n width | _ \<Rightarrow> None)"

definition ext_narrow_to_i64 :: "extended_number \<Rightarrow> int option" where
  "ext_narrow_to_i64 x = (case x of Finite n \<Rightarrow> num_narrow_to_i64 n | _ \<Rightarrow> None)"

definition ext_narrow_to_u64 :: "extended_number \<Rightarrow> int option" where
  "ext_narrow_to_u64 x = (case x of Finite n \<Rightarrow> num_narrow_to_u64 n | _ \<Rightarrow> None)"

fun ext_add :: "extended_number \<Rightarrow> extended_number \<Rightarrow> extended_number option" where
  "ext_add (Finite a) (Finite b) = map_option Finite (num_add a b)"
| "ext_add (Finite _) y = Some y"
| "ext_add x (Finite _) = Some x"
| "ext_add PlusInfinity PlusInfinity = Some PlusInfinity"
| "ext_add MinusInfinity MinusInfinity = Some MinusInfinity"
| "ext_add _ _ = None"

definition ext_sub :: "extended_number \<Rightarrow> extended_number \<Rightarrow> extended_number option" where
  "ext_sub x y = do { ny \<leftarrow> ext_neg y; ext_add x ny }"

definition ext_mul :: "extended_number \<Rightarrow> extended_number \<Rightarrow> extended_number option" where
  "ext_mul x y =
     (if y = Finite 0 then Some y
      else if x = Finite 0 then Some x
      else case (x, y) of
        (Finite a, Finite b) \<Rightarrow> map_option Finite (num_mul a b)
      | _ \<Rightarrow> if ext_is_positive x = ext_is_positive y then Some PlusInfinity
             else Some MinusInfinity)"

definition ext_to_unsigned :: "number \<Rightarrow> number option" where
  "ext_to_unsigned n =
     (if \<not> num_is_negative n then Some n else num_cast_to_unsigned_width n 64)"

definition ext_abs_div ::
  "extended_number \<Rightarrow> extended_number \<Rightarrow> (number \<Rightarrow> number \<Rightarrow> extended_number option) \<Rightarrow> bool
    \<Rightarrow> extended_number option" where
  "ext_abs_div x y f flip_infinite_by_divisor_sign =
     (if y = Finite 0 then None
      else if ext_is_infinite y
      then (if ext_is_infinite x then None else Some (Finite 0))
      else if ext_is_infinite x
      then (if flip_infinite_by_divisor_sign \<and> y < Finite 0 then ext_neg x else Some x)
      else case (x, y) of (Finite a, Finite b) \<Rightarrow> f a b | _ \<Rightarrow> None)"

definition ext_div :: "extended_number \<Rightarrow> extended_number \<Rightarrow> extended_number option" where
  "ext_div x y = ext_abs_div x y (\<lambda>a b. map_option Finite (num_div a b)) True"

definition ext_rem :: "extended_number \<Rightarrow> extended_number \<Rightarrow> extended_number option" where
  "ext_rem x y = ext_abs_div x y (\<lambda>a b. map_option Finite (num_rem a b)) False"

definition ext_udiv :: "extended_number \<Rightarrow> extended_number \<Rightarrow> extended_number option" where
  "ext_udiv x y =
     ext_abs_div x y
       (\<lambda>a b. do { ua \<leftarrow> ext_to_unsigned a; ub \<leftarrow> ext_to_unsigned b;
                   map_option Finite (num_div ua ub) }) False"

definition ext_urem :: "extended_number \<Rightarrow> extended_number \<Rightarrow> extended_number option" where
  "ext_urem x y =
     ext_abs_div x y
       (\<lambda>a b. do { ua \<leftarrow> ext_to_unsigned a; ub \<leftarrow> ext_to_unsigned b;
                   map_option Finite (num_rem ua ub) }) False"

lemmas ext_unfolds [ext_defs] =
  ext_abs_def ext_sign_extend_def ext_zero_extend_def ext_sub_def ext_mul_def
  ext_is_positive_def ext_abs_div_def ext_div_def ext_udiv_def

end
