(* ===== verification/Interval.thy ===== *)
theory Interval
  imports Extended_Number
begin

text \<open>
  \<open>src/crab/interval.rs\<close>: the interval abstract domain.  \<open>itv_gamma\<close> is the set of numbers
  an interval stands for; the transfer functions are translated with every panic of the
  code, and the theory \<open>Interval_Soundness\<close> proves that their results cover the concrete
  operation.  Bottom is any interval whose lower bound exceeds its upper bound.
\<close>

type_synonym bound = extended_number

record interval =
  itv_lb :: bound
  itv_ub :: bound

subsection \<open>Construction and queries\<close>

definition itv_bottom :: interval where
  "itv_bottom = \<lparr>itv_lb = Finite 0, itv_ub = Finite (- 1)\<rparr>"

definition itv_top :: interval where
  "itv_top = \<lparr>itv_lb = MinusInfinity, itv_ub = PlusInfinity\<rparr>"

definition itv_new :: "bound \<Rightarrow> bound \<Rightarrow> interval" where
  "itv_new lb ub = (if lb > ub then itv_bottom else \<lparr>itv_lb = lb, itv_ub = ub\<rparr>)"

definition itv_from_i64_pair :: "64 word \<Rightarrow> 64 word \<Rightarrow> interval" where
  "itv_from_i64_pair lb ub =
     (if sint lb > sint ub then itv_bottom
      else \<lparr>itv_lb = Finite (num_from_i64 lb), itv_ub = Finite (num_from_i64 ub)\<rparr>)"

definition itv_from_number :: "number \<Rightarrow> interval" where
  "itv_from_number n = (let b = Finite n in \<lparr>itv_lb = b, itv_ub = b\<rparr>)"

definition itv_from_number_pair :: "number \<Rightarrow> number \<Rightarrow> interval" where
  "itv_from_number_pair lb ub = itv_new (Finite lb) (Finite ub)"

definition itv_is_bottom :: "interval \<Rightarrow> bool" where
  "itv_is_bottom a \<longleftrightarrow> itv_lb a > itv_ub a"

definition itv_is_top :: "interval \<Rightarrow> bool" where
  "itv_is_top a \<longleftrightarrow> ext_is_infinite (itv_lb a) \<and> ext_is_infinite (itv_ub a)"

definition itv_is_singleton :: "interval \<Rightarrow> bool" where
  "itv_is_singleton a \<longleftrightarrow> itv_lb a = itv_ub a"

definition itv_singleton :: "interval \<Rightarrow> number option" where
  "itv_singleton a = (if itv_is_singleton a then ext_number (itv_lb a) else None)"

definition itv_contains :: "interval \<Rightarrow> number \<Rightarrow> bool" where
  "itv_contains a n =
     (if itv_is_bottom a then False
      else let b = Finite n in itv_lb a \<le> b \<and> b \<le> itv_ub a)"

definition itv_pair_number :: "interval \<Rightarrow> (number \<times> number) option" where
  "itv_pair_number a =
     do { l \<leftarrow> ext_number (itv_lb a); u \<leftarrow> ext_number (itv_ub a); Some (l, u) }"

definition itv_finite_size :: "interval \<Rightarrow> number option option" where
  "itv_finite_size a = do { diff \<leftarrow> ext_sub (itv_ub a) (itv_lb a); Some (ext_number diff) }"

definition itv_size :: "interval \<Rightarrow> bound option" where
  "itv_size a =
     (if itv_is_bottom a then Some (Finite 0)
      else do { d \<leftarrow> ext_sub (itv_ub a) (itv_lb a); ext_add d (Finite 1) })"

definition itv_equal :: "interval \<Rightarrow> interval \<Rightarrow> bool" where
  "itv_equal a b =
     (if itv_is_bottom a then itv_is_bottom b
      else itv_lb a = itv_lb b \<and> itv_ub a = itv_ub b)"

subsection \<open>Lattice operations\<close>

definition itv_is_included_in :: "interval \<Rightarrow> interval \<Rightarrow> bool" where
  "itv_is_included_in a x =
     (if itv_is_bottom a then True
      else if itv_is_bottom x then False
      else itv_lb x \<le> itv_lb a \<and> itv_ub a \<le> itv_ub x)"

definition itv_join :: "interval \<Rightarrow> interval \<Rightarrow> interval" where
  "itv_join a x =
     (if itv_is_bottom a then x
      else if itv_is_bottom x then a
      else itv_new (min (itv_lb a) (itv_lb x)) (max (itv_ub a) (itv_ub x)))"

definition itv_meet :: "interval \<Rightarrow> interval \<Rightarrow> interval" where
  "itv_meet a x =
     (if itv_is_bottom a \<or> itv_is_bottom x then itv_bottom
      else itv_new (max (itv_lb a) (itv_lb x)) (min (itv_ub a) (itv_ub x)))"

definition itv_widen :: "interval \<Rightarrow> interval \<Rightarrow> interval" where
  "itv_widen a x =
     (if itv_is_bottom a then x
      else if itv_is_bottom x then a
      else
        let new_lb = (if itv_lb x < itv_lb a then MinusInfinity else itv_lb a);
            new_ub = (if itv_ub a < itv_ub x then PlusInfinity else itv_ub a)
        in \<lparr>itv_lb = new_lb, itv_ub = new_ub\<rparr>)"

definition itv_narrow :: "interval \<Rightarrow> interval \<Rightarrow> interval" where
  "itv_narrow a x =
     (if itv_is_bottom a \<or> itv_is_bottom x then itv_bottom
      else
        let new_lb = (if ext_is_infinite (itv_lb a) \<and> ext_is_finite (itv_lb x)
                      then itv_lb x else itv_lb a);
            new_ub = (if ext_is_infinite (itv_ub a) \<and> ext_is_finite (itv_ub x)
                      then itv_ub x else itv_ub a)
        in \<lparr>itv_lb = new_lb, itv_ub = new_ub\<rparr>)"

subsection \<open>Addition, negation, subtraction, multiplication\<close>

definition itv_add :: "interval \<Rightarrow> interval \<Rightarrow> interval option" where
  "itv_add a x =
     (if itv_is_bottom a \<or> itv_is_bottom x then Some itv_bottom
      else do { l \<leftarrow> ext_add (itv_lb a) (itv_lb x);
                u \<leftarrow> ext_add (itv_ub a) (itv_ub x);
                Some (itv_new l u) })"

definition itv_negate :: "interval \<Rightarrow> interval option" where
  "itv_negate a =
     (if itv_is_bottom a then Some itv_bottom
      else do { l \<leftarrow> ext_neg (itv_ub a); u \<leftarrow> ext_neg (itv_lb a); Some (itv_new l u) })"

definition itv_sub :: "interval \<Rightarrow> interval \<Rightarrow> interval option" where
  "itv_sub a x =
     (if itv_is_bottom a \<or> itv_is_bottom x then Some itv_bottom
      else do { l \<leftarrow> ext_sub (itv_lb a) (itv_ub x);
                u \<leftarrow> ext_sub (itv_ub a) (itv_lb x);
                Some (itv_new l u) })"

definition itv_corners ::
  "(bound \<Rightarrow> bound \<Rightarrow> bound option) \<Rightarrow> interval \<Rightarrow> interval \<Rightarrow> interval option" where
  "itv_corners f a x =
     do { p1 \<leftarrow> f (itv_lb a) (itv_lb x);
          p2 \<leftarrow> f (itv_lb a) (itv_ub x);
          p3 \<leftarrow> f (itv_ub a) (itv_lb x);
          p4 \<leftarrow> f (itv_ub a) (itv_ub x);
          clb \<leftarrow> iter_min [p1, p2, p3, p4];
          cub \<leftarrow> iter_max [p1, p2, p3, p4];
          Some (itv_new clb cub) }"

definition itv_mul :: "interval \<Rightarrow> interval \<Rightarrow> interval option" where
  "itv_mul a x =
     (if itv_is_bottom a \<or> itv_is_bottom x then Some itv_bottom
      else itv_corners ext_mul a x)"

subsection \<open>Splitting an operand at zero\<close>

definition itv_halves_excluding_zero :: "interval \<Rightarrow> interval \<times> interval" where
  "itv_halves_excluding_zero x =
     (itv_new (itv_lb x) (Finite (- 1)), itv_new (Finite 1) (itv_ub x))"

definition try_split_divisor_at_zero ::
  "interval \<Rightarrow> interval \<Rightarrow> (interval \<Rightarrow> interval \<Rightarrow> interval option) \<Rightarrow> interval
    \<Rightarrow> interval option option" where
  "try_split_divisor_at_zero dividend divisor f zero_join =
     (if \<not> itv_contains divisor 0 then Some None
      else
        let (lo, hi) = itv_halves_excluding_zero divisor
        in do { r1 \<leftarrow> f dividend lo;
                r2 \<leftarrow> f dividend hi;
                Some (Some (itv_join (itv_join r1 r2) zero_join)) })"

definition try_split_dividend_at_zero ::
  "interval \<Rightarrow> interval \<Rightarrow> (interval \<Rightarrow> interval \<Rightarrow> interval option) \<Rightarrow> interval
    \<Rightarrow> interval option option" where
  "try_split_dividend_at_zero dividend divisor f zero_join =
     (if \<not> itv_contains dividend 0 then Some None
      else
        let (lo, hi) = itv_halves_excluding_zero dividend
        in do { r1 \<leftarrow> f lo divisor;
                r2 \<leftarrow> f hi divisor;
                Some (Some (itv_join (itv_join r1 r2) zero_join)) })"

text \<open>
  The divisions call themselves on the halves through these two functions; the congruence
  rules tell the termination proofs which calls they make.
\<close>

lemma try_split_divisor_cong [fundef_cong]:
  assumes "a = a'" "x = x'" "z = z'"
    and "\<And>y. itv_contains x' 0 \<Longrightarrow> y = fst (itv_halves_excluding_zero x') \<or>
      y = snd (itv_halves_excluding_zero x') \<Longrightarrow> f a' y = g a' y"
  shows "try_split_divisor_at_zero a x f z = try_split_divisor_at_zero a' x' g z'"
  using assms by (auto simp: try_split_divisor_at_zero_def itv_halves_excluding_zero_def)

lemma try_split_dividend_cong [fundef_cong]:
  assumes "a = a'" "x = x'" "z = z'"
    and "\<And>b. itv_contains a' 0 \<Longrightarrow> b = fst (itv_halves_excluding_zero a') \<or>
      b = snd (itv_halves_excluding_zero a') \<Longrightarrow> f b x' = g b x'"
  shows "try_split_dividend_at_zero a x f z = try_split_dividend_at_zero a' x' g z'"
  using assms by (auto simp: try_split_dividend_at_zero_def itv_halves_excluding_zero_def)

lemma halves_no_zero [simp]:
  "\<not> itv_contains (fst (itv_halves_excluding_zero x)) 0"
  "\<not> itv_contains (snd (itv_halves_excluding_zero x)) 0"
  by (auto simp: itv_halves_excluding_zero_def itv_contains_def itv_new_def itv_bottom_def)

lemma try_split_divisor_None:
  "try_split_divisor_at_zero a x f z = Some None \<Longrightarrow> \<not> itv_contains x 0"
  by (auto simp: try_split_divisor_at_zero_def panic_simps split: if_splits prod.splits)

lemma try_split_dividend_None:
  "try_split_dividend_at_zero a x f z = Some None \<Longrightarrow> \<not> itv_contains a 0"
  by (auto simp: try_split_dividend_at_zero_def panic_simps split: if_splits prod.splits)

subsection \<open>Signed division\<close>

definition divide_bound_by_negative_singleton :: "bound \<Rightarrow> number \<Rightarrow> bound option" where
  "divide_bound_by_negative_singleton b divisor =
     (if \<not> divisor < 0 then None
      else if ext_is_infinite b then ext_neg b
      else ext_div b (Finite divisor))"

definition itv_div_by_singleton :: "interval \<Rightarrow> number \<Rightarrow> interval option" where
  "itv_div_by_singleton a c =
     (if c = 1 then Some a
      else if c > 0
      then do { l \<leftarrow> ext_div (itv_lb a) (Finite c);
                u \<leftarrow> ext_div (itv_ub a) (Finite c);
                Some (itv_new l u) }
      else if c < 0
      then do { l \<leftarrow> divide_bound_by_negative_singleton (itv_ub a) c;
                u \<leftarrow> divide_bound_by_negative_singleton (itv_lb a) c;
                Some (itv_new l u) }
      else Some (itv_from_number 0))"

definition signed_div_tail ::
  "interval \<Rightarrow> interval \<Rightarrow> (interval \<Rightarrow> interval \<Rightarrow> interval option) \<Rightarrow> interval
    \<Rightarrow> interval option" where
  "signed_div_tail a x f zero_join =
     do { s \<leftarrow> try_split_divisor_at_zero a x f zero_join;
          case s of Some r \<Rightarrow> Some r
          | None \<Rightarrow>
            do { t \<leftarrow> try_split_dividend_at_zero a x f zero_join;
                 case t of Some r \<Rightarrow> Some r
                 | None \<Rightarrow> itv_corners ext_div a x } }"

lemma signed_div_tail_cong [fundef_cong]:
  assumes "a = a'" "x = x'" "z = z'"
    and "\<And>b y. itv_contains x' 0 \<and> b = a' \<and> (y = fst (itv_halves_excluding_zero x') \<or>
        y = snd (itv_halves_excluding_zero x')) \<or>
      \<not> itv_contains x' 0 \<and> itv_contains a' 0 \<and> y = x' \<and>
        (b = fst (itv_halves_excluding_zero a') \<or> b = snd (itv_halves_excluding_zero a')) \<Longrightarrow>
      f b y = g b y"
  shows "signed_div_tail a x f z = signed_div_tail a' x' g z'"
proof -
  have 1: "try_split_divisor_at_zero a x f z = try_split_divisor_at_zero a' x' g z'"
    using assms by (intro try_split_divisor_cong) auto
  have 2: "try_split_dividend_at_zero a x f z = try_split_dividend_at_zero a' x' g z'"
    if "try_split_divisor_at_zero a' x' g z' = Some None"
    using assms try_split_divisor_None [OF that] by (intro try_split_dividend_cong) auto
  show ?thesis
    unfolding signed_div_tail_def 1 using 2
    by (auto intro!: Option.bind_cong split: option.split simp: assms(1,2))
qed

definition split_measure :: "interval \<times> interval \<Rightarrow> nat" where
  "split_measure p =
     (if itv_contains (snd p) 0 then 2 else 0) + (if itv_contains (fst p) 0 then 1 else 0)"

function itv_div :: "interval \<Rightarrow> interval \<Rightarrow> interval option" where
  "itv_div a x =
     (if itv_is_bottom a \<or> itv_is_bottom x then Some itv_bottom
      else case itv_singleton x of
        Some c \<Rightarrow> itv_div_by_singleton a c
      | None \<Rightarrow> signed_div_tail a x itv_div (itv_from_number 0))"
  by pat_completeness auto
termination
  by (relation "measure split_measure") (auto simp: split_measure_def)

function itv_sdiv :: "interval \<Rightarrow> interval \<Rightarrow> interval option" where
  "itv_sdiv a x =
     (if itv_is_bottom a \<or> itv_is_bottom x then Some itv_bottom
      else case Option.bind (itv_singleton x) num_to_i64 of
        Some c \<Rightarrow> itv_div_by_singleton a c
      | None \<Rightarrow> signed_div_tail a x itv_sdiv (itv_from_number 0))"
  by pat_completeness auto
termination
  by (relation "measure split_measure") (auto simp: split_measure_def)

subsection \<open>Unsigned division\<close>

definition make_dividend_when_both_nonzero :: "interval \<Rightarrow> interval \<Rightarrow> interval option" where
  "make_dividend_when_both_nonzero dividend divisor =
     (let zero = Finite 0
      in if itv_ub dividend \<ge> zero then Some dividend
         else if itv_ub divisor < zero
         then do { s \<leftarrow> itv_add dividend divisor; itv_add s (itv_from_number 1) }
         else do { s \<leftarrow> itv_add dividend (itv_from_number 1); itv_sub s divisor })"

definition itv_udiv_by_singleton :: "interval \<Rightarrow> number \<Rightarrow> interval option" where
  "itv_udiv_by_singleton a n =
     do { c \<leftarrow> num_cast_to_unsigned_width n 64;
          if c = 1 then Some a
          else if c > 0
          then do { l \<leftarrow> ext_udiv (itv_lb a) (Finite c);
                    u \<leftarrow> ext_udiv (itv_ub a) (Finite c);
                    Some (itv_new l u) }
          else Some (itv_from_number 0) }"

definition singleton_fits_cast_64 :: "interval \<Rightarrow> number option option" where
  "singleton_fits_cast_64 x =
     (case itv_singleton x of
        None \<Rightarrow> Some None
      | Some n \<Rightarrow> do { b \<leftarrow> num_fits_cast_to n 64; Some (if b then Some n else None) })"

function itv_udiv :: "interval \<Rightarrow> interval \<Rightarrow> interval option" where
  "itv_udiv a x =
     (if itv_is_bottom a \<or> itv_is_bottom x then Some itv_bottom
      else do { k \<leftarrow> singleton_fits_cast_64 x;
        case k of
          Some n \<Rightarrow> itv_udiv_by_singleton a n
        | None \<Rightarrow>
          do { s \<leftarrow> try_split_divisor_at_zero a x itv_udiv (itv_from_number 0);
               case s of Some r \<Rightarrow> Some r
               | None \<Rightarrow>
                 do { t \<leftarrow> try_split_dividend_at_zero a x itv_udiv (itv_from_number 0);
                      case t of Some r \<Rightarrow> Some r
                      | None \<Rightarrow>
                        do { d \<leftarrow> make_dividend_when_both_nonzero a x;
                             itv_corners ext_udiv d x } } } })"
  by pat_completeness auto
termination
  by (relation "measure split_measure")
    (auto simp: split_measure_def dest: try_split_divisor_None)

subsection \<open>Remainders\<close>

definition srem_finite_divisor :: "interval \<Rightarrow> number \<Rightarrow> number \<Rightarrow> interval option" where
  "srem_finite_divisor a xlb xub =
     do { xlb_abs \<leftarrow> num_abs xlb;
          xub_abs \<leftarrow> num_abs xub;
          let (min_divisor, max_divisor) =
            (if xlb_abs \<le> xub_abs then (xlb_abs, xub_abs) else (xub_abs, xlb_abs));
          neg_lb \<leftarrow> (if itv_ub a < Finite min_divisor then ext_neg (itv_lb a)
                    else Some PlusInfinity);
          if itv_ub a < Finite min_divisor \<and> neg_lb < Finite min_divisor then Some a
          else do {
            max_d_minus_1 \<leftarrow> num_sub max_divisor 1;
            if itv_lb a < Finite 0
            then do { neg_m \<leftarrow> num_neg max_d_minus_1;
                      if itv_ub a > Finite 0
                      then Some (itv_new (Finite neg_m) (Finite max_d_minus_1))
                      else Some (itv_new (Finite neg_m) (Finite 0)) }
            else Some (itv_new (Finite 0) (Finite max_d_minus_1)) } }"

function itv_srem :: "interval \<Rightarrow> interval \<Rightarrow> interval option" where
  "itv_srem a x =
     (if itv_is_bottom a \<or> itv_is_bottom x then Some itv_bottom
      else case (itv_singleton a, itv_singleton x) of
        (Some dividend, Some divisor) \<Rightarrow>
          if num_is_zero divisor then Some (itv_from_number dividend)
          else do { r \<leftarrow> num_rem dividend divisor; Some (itv_from_number r) }
      | _ \<Rightarrow>
        do { s \<leftarrow> try_split_divisor_at_zero a x itv_srem a;
             case s of Some r \<Rightarrow> Some r
             | None \<Rightarrow>
               if ext_is_finite (itv_ub x) \<and> ext_is_finite (itv_lb x)
               then do { p \<leftarrow> itv_pair_number x; srem_finite_divisor a (fst p) (snd p) }
               else Some (itv_join a (itv_from_number 0)) })"
  by pat_completeness auto
termination
  by (relation "measure split_measure") (auto simp: split_measure_def)

text \<open>
  \<open>urem\<close> of two singletons that both fit a 64-bit integer is computed on \<open>u64\<close>; the inner
  \<open>None\<close> is the case that falls through.
\<close>

definition urem_singletons :: "interval \<Rightarrow> interval \<Rightarrow> interval option option" where
  "urem_singletons a x =
     (case (itv_singleton a, itv_singleton x) of
        (Some dividend, Some divisor) \<Rightarrow>
          do { f1 \<leftarrow> num_fits_cast_to dividend 64;
               f2 \<leftarrow> num_fits_cast_to divisor 64;
               if f1 \<and> f2
               then if num_is_zero divisor then Some (Some (itv_from_number dividend))
                    else do { dv \<leftarrow> Option.bind (num_cast_to_unsigned_width dividend 64) num_narrow_to_u64;
                              ds \<leftarrow> Option.bind (num_cast_to_unsigned_width divisor 64) num_narrow_to_u64;
                              Some (Some (itv_from_number (dv mod ds))) }
               else Some None }
      | _ \<Rightarrow> Some None)"

definition urem_no_zero :: "interval \<Rightarrow> interval \<Rightarrow> interval option" where
  "urem_no_zero a x =
     (if ext_is_infinite (itv_lb x) \<or> ext_is_infinite (itv_ub x)
      then (if itv_ub a < Finite 0 then Some itv_top
            else do { s \<leftarrow> itv_sub a (itv_from_number 1);
                      Some (itv_join s (itv_from_number 0)) })
      else do {
        keep \<leftarrow> (if ext_is_finite (itv_ub a)
                 then do { u \<leftarrow> ext_number (itv_ub a);
                           self_ub_u64 \<leftarrow> num_cast_to_unsigned_width u 64;
                           l \<leftarrow> ext_number (itv_lb x);
                           x_lb_u64 \<leftarrow> num_cast_to_unsigned_width l 64;
                           Some (self_ub_u64 < x_lb_u64) }
                 else Some False);
        if keep then Some a
        else do { u \<leftarrow> ext_number (itv_ub x);
                  max_divisor \<leftarrow> num_cast_to_unsigned_width u 64;
                  m \<leftarrow> num_sub max_divisor 1;
                  Some (itv_new (Finite 0) (Finite m)) } })"

function itv_urem :: "interval \<Rightarrow> interval \<Rightarrow> interval option" where
  "itv_urem a x =
     (if itv_is_bottom a \<or> itv_is_bottom x then Some itv_bottom
      else do { k \<leftarrow> urem_singletons a x;
        case k of Some r \<Rightarrow> Some r
        | None \<Rightarrow>
          do { s \<leftarrow> try_split_divisor_at_zero a x itv_urem a;
               case s of Some r \<Rightarrow> Some r
               | None \<Rightarrow>
                 do { t \<leftarrow> try_split_dividend_at_zero a x itv_urem a;
                      case t of Some r \<Rightarrow> Some r
                      | None \<Rightarrow> urem_no_zero a x } } })"
  by pat_completeness auto
termination
  by (relation "measure split_measure")
    (auto simp: split_measure_def dest: try_split_divisor_None)

declare itv_div.simps [simp del] itv_sdiv.simps [simp del] itv_udiv.simps [simp del]
  itv_srem.simps [simp del] itv_urem.simps [simp del]

subsection \<open>Common ranges\<close>

definition itv_signed_int :: "int \<Rightarrow> interval option" where
  "itv_signed_int width =
     do { l \<leftarrow> num_min_int width; u \<leftarrow> num_max_int width;
          Some (itv_new (Finite l) (Finite u)) }"

definition itv_unsigned_int :: "int \<Rightarrow> interval option" where
  "itv_unsigned_int width =
     do { u \<leftarrow> num_max_uint width; Some (itv_new (Finite 0) (Finite u)) }"

definition itv_nonnegative :: "int \<Rightarrow> interval option" where
  "itv_nonnegative width =
     do { u \<leftarrow> num_max_int width; Some (itv_new (Finite 0) (Finite u)) }"

definition itv_negative :: "int \<Rightarrow> interval option" where
  "itv_negative width =
     do { l \<leftarrow> num_min_int width; Some (itv_new (Finite l) (Finite (- 1))) }"

definition itv_unsigned_high :: "int \<Rightarrow> interval option" where
  "itv_unsigned_high width =
     do { m \<leftarrow> num_max_int width; l \<leftarrow> num_add m 1; u \<leftarrow> num_max_uint width;
          Some (itv_new (Finite l) (Finite u)) }"

subsection \<open>Sign and zero extension\<close>

definition itv_extend_to ::
  "(bound \<Rightarrow> number option) \<Rightarrow> interval \<Rightarrow> interval \<Rightarrow> interval option" where
  "itv_extend_to f full_range a =
     do { sa \<leftarrow> itv_size a;
          sf \<leftarrow> itv_size full_range;
          if sa < sf
          then do { l \<leftarrow> f (itv_lb a);
                    u \<leftarrow> f (itv_ub a);
                    let extended = itv_new (Finite l) (Finite u);
                    if \<not> itv_is_bottom extended then Some extended else Some full_range }
          else Some full_range }"

definition itv_sign_extend :: "interval \<Rightarrow> int \<Rightarrow> interval option" where
  "itv_sign_extend a width =
     (if width \<le> 0 then None
      else do { full_range \<leftarrow> itv_signed_int width;
                itv_extend_to (\<lambda>b. ext_sign_extend b width) full_range a })"

definition itv_zero_extend :: "interval \<Rightarrow> int \<Rightarrow> interval option" where
  "itv_zero_extend a width =
     (if width \<le> 0 then None
      else do { full_range \<leftarrow> itv_unsigned_int width;
                itv_extend_to (\<lambda>b. ext_zero_extend b width) full_range a })"

definition itv_truncate_to_signed :: "interval \<Rightarrow> int \<Rightarrow> interval option" where
  "itv_truncate_to_signed a width = itv_sign_extend a width"

definition itv_truncate_to_unsigned :: "interval \<Rightarrow> int \<Rightarrow> interval option" where
  "itv_truncate_to_unsigned a width = itv_zero_extend a width"

subsection \<open>Bitwise operations\<close>

text \<open>An operand with a negative lower bound is read as an unsigned 64-bit value first.\<close>

definition itv_as_unsigned :: "interval \<Rightarrow> interval option" where
  "itv_as_unsigned a =
     (if \<not> itv_is_top a \<and> itv_lb a < Finite 0 then itv_zero_extend a 64 else Some a)"

definition and_constant_mask :: "interval \<Rightarrow> interval \<Rightarrow> interval option option" where
  "and_constant_mask left right =
     (case itv_singleton right of
        None \<Rightarrow> Some None
      | Some r \<Rightarrow>
        do { m64 \<leftarrow> num_max_uint 64;
             m32 \<leftarrow> num_max_uint 32;
             m16 \<leftarrow> num_max_uint 16;
             m8 \<leftarrow> num_max_uint 8;
             if r = m64 then map_option Some (itv_truncate_to_unsigned left 64)
             else if r = m32 then map_option Some (itv_zero_extend left 32)
             else if r = m16 then map_option Some (itv_zero_extend left 16)
             else if r = m8 then map_option Some (itv_zero_extend left 8)
             else Some None })"

definition and_ranges :: "interval \<Rightarrow> interval \<Rightarrow> interval option" where
  "and_ranges left right =
     (if itv_contains right (2 ^ 64 - 1)
      then do { t \<leftarrow> itv_truncate_to_unsigned left 64;
                Some (itv_new (Finite 0) (itv_ub t)) }
      else if \<not> itv_is_top left \<and> \<not> itv_is_top right
      then Some (itv_new (Finite 0) (min (itv_ub left) (itv_ub right)))
      else if \<not> itv_is_top right then Some (itv_new (Finite 0) (itv_ub right))
      else if \<not> itv_is_top left then Some (itv_new (Finite 0) (itv_ub left))
      else Some itv_top)"

definition itv_bitwise_and :: "interval \<Rightarrow> interval \<Rightarrow> interval option" where
  "itv_bitwise_and a x =
     (if itv_is_bottom a \<or> itv_is_bottom x then Some itv_bottom
      else do {
        left \<leftarrow> itv_as_unsigned a;
        right \<leftarrow> itv_as_unsigned x;
        assert_that (itv_is_top left \<or> itv_lb left \<ge> Finite 0);
        assert_that (itv_is_top right \<or> itv_lb right \<ge> Finite 0);
        if itv_equal left (itv_from_number 0) \<or> itv_equal right (itv_from_number 0)
        then Some (itv_from_number 0)
        else case (itv_singleton right, itv_singleton left) of
          (Some r, Some l) \<Rightarrow> Some (itv_from_number (num_and l r))
        | _ \<Rightarrow> do { m \<leftarrow> and_constant_mask left right;
                    case m of Some r \<Rightarrow> Some r | None \<Rightarrow> and_ranges left right } })"

definition itv_mask_value :: "interval \<Rightarrow> int \<Rightarrow> interval option" where
  "itv_mask_value a width =
     (if width > 0 \<and> width < 64
      then itv_bitwise_and a (itv_from_number (push_bit (nat width) 1 - 1))
      else Some a)"

definition itv_mask_shift_count :: "interval \<Rightarrow> int \<Rightarrow> interval option" where
  "itv_mask_shift_count a width =
     (if width > 0 then itv_bitwise_and a (itv_from_number (width - 1)) else Some a)"

definition itv_bitwise_or :: "interval \<Rightarrow> interval \<Rightarrow> interval option" where
  "itv_bitwise_or a x =
     (if itv_is_bottom a \<or> itv_is_bottom x then Some itv_bottom
      else case (itv_singleton a, itv_singleton x) of
        (Some l, Some r) \<Rightarrow> Some (itv_from_number (num_or l r))
      | _ \<Rightarrow>
        let zero = Finite 0
        in if itv_lb a \<ge> zero \<and> itv_lb x \<ge> zero
           then (case (ext_number (itv_ub a), ext_number (itv_ub x)) of
                   (Some left_ub, Some right_ub) \<Rightarrow>
                     do { m \<leftarrow> num_fill_ones (max left_ub right_ub);
                          Some (itv_new (Finite 0) (Finite m)) }
                 | _ \<Rightarrow> Some (itv_new (Finite 0) PlusInfinity))
           else Some itv_top)"

definition itv_bitwise_xor :: "interval \<Rightarrow> interval \<Rightarrow> interval option" where
  "itv_bitwise_xor a x =
     (if itv_is_bottom a \<or> itv_is_bottom x then Some itv_bottom
      else case (itv_singleton a, itv_singleton x) of
        (Some l, Some r) \<Rightarrow> Some (itv_from_number (num_xor l r))
      | _ \<Rightarrow> itv_bitwise_or a x)"

subsection \<open>Shifts\<close>

function shift_factor_loop :: "number \<Rightarrow> number \<Rightarrow> number \<Rightarrow> number option" where
  "shift_factor_loop k i factor =
     (if k > i
      then do { factor' \<leftarrow> num_mul factor 2;
                i' \<leftarrow> num_add i 1;
                shift_factor_loop k i' factor' }
      else Some factor)"
  by pat_completeness auto
termination
  by (relation "measure (\<lambda>(k, i, f). nat (k - i))")
    (auto simp: num_add_def panic_simps)

declare shift_factor_loop.simps [simp del]

definition shift_to_power_of_two :: "interval \<Rightarrow> number option option" where
  "shift_to_power_of_two x =
     (case itv_singleton x of
        None \<Rightarrow> Some None
      | Some k \<Rightarrow>
        if k < 0 then Some None
        else if k > 128 then Some None
        else map_option Some (shift_factor_loop k 0 1))"

definition itv_shl :: "interval \<Rightarrow> interval \<Rightarrow> interval option" where
  "itv_shl a x =
     (if itv_is_bottom a \<or> itv_is_bottom x then Some itv_bottom
      else do { p \<leftarrow> shift_to_power_of_two x;
                case p of Some factor \<Rightarrow> itv_mul a (itv_from_number factor)
                | None \<Rightarrow> Some itv_top })"

definition itv_lshr :: "interval \<Rightarrow> interval \<Rightarrow> interval option" where
  "itv_lshr a x =
     (if itv_is_bottom a \<or> itv_is_bottom x then Some itv_bottom
      else case itv_singleton x of
        Some shift \<Rightarrow>
          if num_is_positive shift \<and> itv_lb a \<ge> Finite 0 \<and> ext_is_finite (itv_ub a)
          then do { p \<leftarrow> itv_pair_number a;
                    s \<leftarrow> num_narrow_to_u64 shift;
                    let shift_u32 = nat (take_bit 32 s);
                    l \<leftarrow> num_shr (fst p) shift_u32;
                    u \<leftarrow> num_shr (snd p) shift_u32;
                    Some (itv_from_number_pair l u) }
          else Some itv_top
      | None \<Rightarrow> Some itv_top)"

definition itv_ashr :: "interval \<Rightarrow> interval \<Rightarrow> interval option" where
  "itv_ashr a x =
     (if itv_is_bottom a \<or> itv_is_bottom x then Some itv_bottom
      else do { p \<leftarrow> shift_to_power_of_two x;
                case p of Some factor \<Rightarrow> itv_div a (itv_from_number factor)
                | None \<Rightarrow> Some itv_top })"

end
