(* ===== verification/Interval_Arith.thy ===== *)
theory Interval_Arith
  imports Interval
begin

text \<open>
  The concretisation \<open>itv_gamma\<close> of an interval and the soundness of the lattice operations
  and of the linear arithmetic of \<open>src/crab/interval.rs\<close> (addition, negation, subtraction,
  multiplication, both signed divisions) with respect to it.  The products and quotients are
  handled through the corner rule \<open>corners_sound\<close>: the four corners are bounds of an
  operation that is monotone or antitone in each argument.
\<close>

subsection \<open>Concretisation\<close>

definition itv_gamma :: "interval \<Rightarrow> int set" where
  "itv_gamma a = {n. itv_lb a \<le> Finite n \<and> Finite n \<le> itv_ub a}"

lemma gamma_new: "n \<in> itv_gamma (itv_new l u) \<longleftrightarrow> l \<le> Finite n \<and> Finite n \<le> u"
  by (auto simp: itv_gamma_def itv_new_def itv_bottom_def not_le dest: order_trans)

lemma gamma_bottom [simp]: "itv_is_bottom a \<Longrightarrow> itv_gamma a = {}"
  by (auto simp: itv_gamma_def itv_is_bottom_def)

lemma gamma_nonempty: "n \<in> itv_gamma a \<Longrightarrow> \<not> itv_is_bottom a"
  by auto

lemma gamma_bottom_iv [simp]: "itv_gamma itv_bottom = {}"
  by (auto simp: itv_gamma_def itv_bottom_def)

lemma gamma_top [simp]: "itv_gamma itv_top = UNIV"
  by (auto simp: itv_gamma_def itv_top_def)

lemma gamma_from_number [simp]: "itv_gamma (itv_from_number n) = {n}"
  by (auto simp: itv_gamma_def itv_from_number_def Let_def)

lemma gamma_contains: "itv_contains a n \<longleftrightarrow> n \<in> itv_gamma a"
  by (auto simp: itv_contains_def itv_gamma_def itv_is_bottom_def not_less Let_def dest: order_trans)

lemma ext_number_Some: "ext_number x = Some n \<longleftrightarrow> x = Finite n"
  by (cases x) auto

lemma gamma_singleton: "itv_singleton a = Some c \<Longrightarrow> itv_gamma a = {c}"
  by (auto simp: itv_singleton_def itv_is_singleton_def itv_gamma_def ext_number_Some split: if_splits)

lemma gamma_join: "itv_gamma a \<union> itv_gamma x \<subseteq> itv_gamma (itv_join a x)"
  by (auto simp: itv_join_def gamma_new) (auto simp: itv_gamma_def min_le_iff_disj le_max_iff_disj)

lemma gamma_meet: "itv_gamma (itv_meet a x) = itv_gamma a \<inter> itv_gamma x"
  by (auto simp: itv_meet_def gamma_new) (auto simp: itv_gamma_def)

lemma gamma_widen: "itv_gamma a \<union> itv_gamma x \<subseteq> itv_gamma (itv_widen a x)"
  by (auto simp: itv_widen_def Let_def)
    (auto simp: itv_gamma_def not_less dest: order_trans intro: order_trans less_imp_le)

lemma gamma_narrow: "itv_gamma a \<inter> itv_gamma x \<subseteq> itv_gamma (itv_narrow a x)"
  by (auto simp: itv_narrow_def Let_def) (auto simp: itv_gamma_def)

lemma gamma_included:
  assumes "itv_is_included_in a x"
  shows "itv_gamma a \<subseteq> itv_gamma x"
proof
  fix n assume n: "n \<in> itv_gamma a"
  from gamma_nonempty [OF n] assms have "itv_lb x \<le> itv_lb a" "itv_ub a \<le> itv_ub x"
    by (auto simp: itv_is_included_in_def split: if_splits)
  with n show "n \<in> itv_gamma x" by (auto simp: itv_gamma_def intro: order_trans)
qed

subsection \<open>Addition and subtraction\<close>

lemma ext_add_le:
  "ext_add p q = Some l \<Longrightarrow> p \<le> Finite n \<Longrightarrow> q \<le> Finite m \<Longrightarrow> l \<le> Finite (n + m)"
  by (cases "(p, q)" rule: ext_add.cases) (auto simp: num_add_def panic_simps)

lemma ext_add_ge:
  "ext_add p q = Some l \<Longrightarrow> Finite n \<le> p \<Longrightarrow> Finite m \<le> q \<Longrightarrow> Finite (n + m) \<le> l"
  by (cases "(p, q)" rule: ext_add.cases) (auto simp: num_add_def panic_simps)

lemma add_sound:
  assumes "n \<in> itv_gamma a" "m \<in> itv_gamma x" "itv_add a x = Some r"
  shows "n + m \<in> itv_gamma r"
  using assms gamma_nonempty [OF assms(1)] gamma_nonempty [OF assms(2)]
  by (auto simp: itv_add_def panic_simps gamma_new intro!: ext_add_le ext_add_ge)
    (auto simp: itv_gamma_def)

lemma neg_le: "ext_neg p = Some l \<Longrightarrow> Finite n \<le> p \<longleftrightarrow> l \<le> Finite (- n)"
  by (cases p rule: ext_neg.cases) (auto simp: num_neg_def panic_simps)

lemma neg_ge: "ext_neg p = Some l \<Longrightarrow> p \<le> Finite n \<longleftrightarrow> Finite (- n) \<le> l"
  by (cases p rule: ext_neg.cases) (auto simp: num_neg_def panic_simps)

lemma negate_sound:
  assumes "n \<in> itv_gamma a" "itv_negate a = Some r"
  shows "- n \<in> itv_gamma r"
  using assms gamma_nonempty [OF assms(1)]
  by (auto simp: itv_negate_def panic_simps gamma_new)
    (auto simp: itv_gamma_def neg_le neg_ge)

lemma ext_sub_le:
  "ext_sub p q = Some l \<Longrightarrow> p \<le> Finite n \<Longrightarrow> Finite m \<le> q \<Longrightarrow> l \<le> Finite (n - m)"
  using ext_add_le [of p _ l n "- m"] by (auto simp: ext_sub_def panic_simps neg_le)

lemma ext_sub_ge:
  "ext_sub p q = Some l \<Longrightarrow> Finite n \<le> p \<Longrightarrow> q \<le> Finite m \<Longrightarrow> Finite (n - m) \<le> l"
  using ext_add_ge [of p _ l n "- m"] by (auto simp: ext_sub_def panic_simps neg_ge)

lemma sub_sound:
  assumes "n \<in> itv_gamma a" "m \<in> itv_gamma x" "itv_sub a x = Some r"
  shows "n - m \<in> itv_gamma r"
  using assms gamma_nonempty [OF assms(1)] gamma_nonempty [OF assms(2)]
  by (auto simp: itv_sub_def panic_simps gamma_new intro!: ext_sub_le ext_sub_ge)
    (auto simp: itv_gamma_def)

subsection \<open>Multiplication\<close>

text \<open>The product of bounds without the overflow check.\<close>

definition ext_times :: "bound \<Rightarrow> bound \<Rightarrow> bound" where
  "ext_times x y =
     (if y = Finite 0 \<or> x = Finite 0 then Finite 0
      else case (x, y) of (Finite a, Finite b) \<Rightarrow> Finite (a * b)
      | _ \<Rightarrow> if (x > Finite 0) = (y > Finite 0) then PlusInfinity else MinusInfinity)"

lemma ext_mul_times: "ext_mul x y = Some r \<Longrightarrow> r = ext_times x y"
  by (auto simp: ext_mul_def ext_times_def ext_is_positive_def num_mul_def panic_simps
      split: if_splits extended_number.splits)

lemma ext_times_commute: "ext_times x y = ext_times y x"
  by (cases x; cases y) (auto simp: ext_times_def)

lemma ext_times_mono: "Finite 0 \<le> z \<Longrightarrow> y \<le> y' \<Longrightarrow> ext_times z y \<le> ext_times z y'"
  by (cases z; cases y; cases y') (auto simp: ext_times_def mult_left_mono mult_le_0_iff)

lemma ext_times_antimono: "z \<le> Finite 0 \<Longrightarrow> y \<le> y' \<Longrightarrow> ext_times z y' \<le> ext_times z y"
  by (cases z; cases y; cases y') (auto simp: ext_times_def mult_left_mono_neg mult_le_0_iff zero_le_mult_iff)

lemma ext_times_between:
  assumes "m \<le> y" "y \<le> v"
  shows "ext_times z m \<le> ext_times z y \<or> ext_times z v \<le> ext_times z y"
    and "ext_times z y \<le> ext_times z m \<or> ext_times z y \<le> ext_times z v"
  using ext_times_mono [of z] ext_times_antimono [of z] assms by (meson linear)+

text \<open>The corner rule: an operation that is bounded by the values at the corners.\<close>

lemma corners_sound:
  assumes "itv_corners f a x = Some r"
    and lo: "\<And>p1 p2 p3 p4. f (itv_lb a) (itv_lb x) = Some p1 \<Longrightarrow> f (itv_lb a) (itv_ub x) = Some p2 \<Longrightarrow>
      f (itv_ub a) (itv_lb x) = Some p3 \<Longrightarrow> f (itv_ub a) (itv_ub x) = Some p4 \<Longrightarrow>
      (p1 \<le> Finite k \<or> p2 \<le> Finite k \<or> p3 \<le> Finite k \<or> p4 \<le> Finite k) \<and>
      (Finite k \<le> p1 \<or> Finite k \<le> p2 \<or> Finite k \<le> p3 \<or> Finite k \<le> p4)"
  shows "k \<in> itv_gamma r"
  using assms(1) lo
  by (force simp: itv_corners_def panic_simps gamma_new min_le_iff_disj le_max_iff_disj)

lemma mul_sound:
  assumes "n \<in> itv_gamma a" "m \<in> itv_gamma x" "itv_mul a x = Some r"
  shows "n * m \<in> itv_gamma r"
proof -
  have c: "itv_corners ext_mul a x = Some r"
    using assms gamma_nonempty [OF assms(1)] gamma_nonempty [OF assms(2)]
    by (auto simp: itv_mul_def)
  have a: "itv_lb a \<le> Finite n" "Finite n \<le> itv_ub a" and x: "itv_lb x \<le> Finite m" "Finite m \<le> itv_ub x"
    using assms by (auto simp: itv_gamma_def)
  have prod: "Finite (n * m) = ext_times (Finite n) (Finite m)" by (auto simp: ext_times_def)
  show ?thesis
    using c
  proof (rule corners_sound)
    fix p1 p2 p3 p4
    assume p: "ext_mul (itv_lb a) (itv_lb x) = Some p1" "ext_mul (itv_lb a) (itv_ub x) = Some p2"
      "ext_mul (itv_ub a) (itv_lb x) = Some p3" "ext_mul (itv_ub a) (itv_ub x) = Some p4"
    note p' = p [THEN ext_mul_times]
    show "(p1 \<le> Finite (n * m) \<or> p2 \<le> Finite (n * m) \<or> p3 \<le> Finite (n * m) \<or> p4 \<le> Finite (n * m)) \<and>
      (Finite (n * m) \<le> p1 \<or> Finite (n * m) \<le> p2 \<or> Finite (n * m) \<le> p3 \<or> Finite (n * m) \<le> p4)"
      unfolding p' prod
      using ext_times_between [OF a, of "Finite m"] ext_times_between [OF x, of "itv_lb a"]
        ext_times_between [OF x, of "itv_ub a"]
      by (smt (verit) ext_times_commute order_trans)
  qed
qed

subsection \<open>Signed division\<close>

lemma sdiv_nonneg: "0 \<le> (a::int) \<Longrightarrow> 0 \<le> m \<Longrightarrow> a sdiv m = a div m"
  by (auto simp: signed_divide_int_def sgn_if)

lemma sdiv_minus1: "a sdiv m = - ((- a) sdiv (m::int))"
  by (simp add: signed_divide_int_def)

lemma sdiv_minus2: "a sdiv m = - (a sdiv (- (m::int)))"
  by (simp add: signed_divide_int_def)

lemma sdiv_sign_pos: "0 \<le> (a::int) \<Longrightarrow> 0 \<le> m \<Longrightarrow> 0 \<le> a sdiv m"
  by (cases "m = 0") (auto simp: sdiv_nonneg pos_imp_zdiv_nonneg_iff)

lemma sdiv_sign_neg: "(a::int) \<le> 0 \<Longrightarrow> 0 \<le> m \<Longrightarrow> a sdiv m \<le> 0"
  using sdiv_sign_pos [of "- a" m] sdiv_minus1 [of a m] by linarith

lemma sdiv_mono:
  assumes "(a::int) \<le> b" "0 < m"
  shows "a sdiv m \<le> b sdiv m"
proof -
  consider "0 \<le> a" | "a < 0" "0 \<le> b" | "b < 0" by linarith
  then show ?thesis
  proof cases
    case 1
    then show ?thesis using assms by (simp add: sdiv_nonneg zdiv_mono1)
  next
    case 2
    then show ?thesis using assms sdiv_sign_neg [of a m] sdiv_sign_pos [of b m] by linarith
  next
    case 3
    have "(- b) div m \<le> (- a) div m" using assms by (intro zdiv_mono1) auto
    moreover have "(- b) sdiv m = (- b) div m" "(- a) sdiv m = (- a) div m"
      using assms 3 by (auto intro!: sdiv_nonneg simp del: minus_sdiv_eq)
    ultimately show ?thesis using sdiv_minus1 [of a m] sdiv_minus1 [of b m] by linarith
  qed
qed

lemma sdiv_antimono:
  assumes "(a::int) \<le> b" "m < 0"
  shows "b sdiv m \<le> a sdiv m"
  using sdiv_mono [of a b "- m"] assms sdiv_minus2 [of a m] sdiv_minus2 [of b m] by linarith

lemma sdiv_divisor_pos1:
  assumes "0 < m" "m \<le> (v::int)" "0 \<le> a"
  shows "a sdiv v \<le> a sdiv m"
  using assms by (simp add: sdiv_nonneg zdiv_mono2)

lemma sdiv_divisor_pos2:
  assumes "0 < m" "m \<le> (v::int)" "a \<le> 0"
  shows "a sdiv m \<le> a sdiv v"
  using sdiv_divisor_pos1 [of m v "- a"] assms sdiv_minus1 [of a m] sdiv_minus1 [of a v] by linarith

lemma sdiv_divisor_neg1:
  assumes "m \<le> v" "(v::int) < 0" "0 \<le> a"
  shows "a sdiv v \<le> a sdiv m"
  using sdiv_divisor_pos1 [of "- v" "- m" a] assms sdiv_minus2 [of a m] sdiv_minus2 [of a v]
  by linarith

lemma sdiv_divisor_neg2:
  assumes "m \<le> v" "(v::int) < 0" "a \<le> 0"
  shows "a sdiv m \<le> a sdiv v"
  using sdiv_divisor_pos2 [of "- v" "- m" a] assms sdiv_minus2 [of a m] sdiv_minus2 [of a v]
  by linarith

lemma sdiv_sign_divisor_neg:
  assumes "(m::int) \<le> 0"
  shows "0 \<le> a \<Longrightarrow> a sdiv m \<le> 0" "a \<le> 0 \<Longrightarrow> 0 \<le> a sdiv m"
  using sdiv_sign_pos [of a "- m"] sdiv_sign_neg [of a "- m"] assms sdiv_minus2 [of a m]
  by linarith+

text \<open>The quotient of bounds without the panics.\<close>

definition ext_quot :: "bound \<Rightarrow> bound \<Rightarrow> bound" where
  "ext_quot x y =
     (case (x, y) of
        (Finite a, Finite b) \<Rightarrow> Finite (a sdiv b)
      | (Finite a, _) \<Rightarrow> Finite 0
      | (PlusInfinity, Finite b) \<Rightarrow> (if b < 0 then MinusInfinity else PlusInfinity)
      | (MinusInfinity, Finite b) \<Rightarrow> (if b < 0 then PlusInfinity else MinusInfinity)
      | _ \<Rightarrow> Finite 0)"

lemma ext_div_quot:
  "ext_div x y = Some r \<Longrightarrow> r = ext_quot x y \<and> (ext_is_finite x \<or> ext_is_finite y)"
  by (cases x; cases y)
    (auto simp: ext_div_def ext_abs_div_def ext_quot_def num_div_def panic_simps split: if_splits)

lemma ext_quot_dividend:
  assumes "l \<le> Finite n" "Finite n \<le> u" "m \<noteq> 0"
  shows "ext_quot l (Finite m) \<le> Finite (n sdiv m) \<or> ext_quot u (Finite m) \<le> Finite (n sdiv m)"
    and "Finite (n sdiv m) \<le> ext_quot l (Finite m) \<or> Finite (n sdiv m) \<le> ext_quot u (Finite m)"
  using assms sdiv_mono [of _ _ m] sdiv_antimono [of _ _ m]
  by (cases l; cases u; cases "m < 0"; auto simp: ext_quot_def not_less)+

lemma ext_quot_divisor:
  assumes "q \<le> Finite m" "Finite m \<le> v" "Finite 0 < q \<or> v < Finite 0"
    "ext_is_finite z \<or> ext_is_finite q" "ext_is_finite z \<or> ext_is_finite v"
  shows "ext_quot z q \<le> ext_quot z (Finite m) \<or> ext_quot z v \<le> ext_quot z (Finite m)"
    and "ext_quot z (Finite m) \<le> ext_quot z q \<or> ext_quot z (Finite m) \<le> ext_quot z v"
proof -
  have fin: "(a sdiv q' \<le> a sdiv m \<or> a sdiv v' \<le> a sdiv m) \<and>
      (a sdiv m \<le> a sdiv q' \<or> a sdiv m \<le> a sdiv v')"
    if "q' \<le> m" "m \<le> v'" "0 < q' \<or> v' < 0" for a q' v'
    using that sdiv_divisor_pos1 [of q' m a] sdiv_divisor_pos1 [of m v' a]
      sdiv_divisor_neg1 [of q' m a] sdiv_divisor_neg1 [of m v' a]
      sdiv_divisor_pos2 [of q' m a] sdiv_divisor_pos2 [of m v' a]
      sdiv_divisor_neg2 [of q' m a] sdiv_divisor_neg2 [of m v' a]
    by (cases "0 \<le> a") auto
  have up: "(a sdiv q' \<le> a sdiv m \<or> 0 \<le> a sdiv m) \<and> (a sdiv m \<le> a sdiv q' \<or> a sdiv m \<le> 0)"
    if "q' \<le> m" "0 < q'" for a q'
    using that sdiv_divisor_pos1 [of q' m a] sdiv_divisor_pos2 [of q' m a]
      sdiv_sign_pos [of a m] sdiv_sign_neg [of a m] by (cases "0 \<le> a") auto
  have down: "(0 \<le> a sdiv m \<or> a sdiv v' \<le> a sdiv m) \<and> (a sdiv m \<le> 0 \<or> a sdiv m \<le> a sdiv v')"
    if "m \<le> v'" "v' < 0" for a v'
    using that sdiv_divisor_neg1 [of m v' a] sdiv_divisor_neg2 [of m v' a]
      sdiv_sign_divisor_neg [of m a] by (cases "0 \<le> a") auto
  show "ext_quot z q \<le> ext_quot z (Finite m) \<or> ext_quot z v \<le> ext_quot z (Finite m)"
    using assms fin up down by (cases z; cases q; cases v) (auto simp: ext_quot_def ext_query_simps)
  show "ext_quot z (Finite m) \<le> ext_quot z q \<or> ext_quot z (Finite m) \<le> ext_quot z v"
    using assms fin up down by (cases z; cases q; cases v) (auto simp: ext_quot_def ext_query_simps)
qed


lemma ext_quot_mono_le:
  "0 < c \<Longrightarrow> p \<le> Finite n \<Longrightarrow> ext_quot p (Finite c) \<le> Finite (n sdiv c)"
  "0 < c \<Longrightarrow> Finite n \<le> p \<Longrightarrow> Finite (n sdiv c) \<le> ext_quot p (Finite c)"
  "c < 0 \<Longrightarrow> Finite n \<le> p \<Longrightarrow> ext_quot p (Finite c) \<le> Finite (n sdiv c)"
  "c < 0 \<Longrightarrow> p \<le> Finite n \<Longrightarrow> Finite (n sdiv c) \<le> ext_quot p (Finite c)"
  by (cases p; simp add: ext_quot_def sdiv_mono sdiv_antimono)+

lemma divide_bound_quot:
  "divide_bound_by_negative_singleton b c = Some r \<Longrightarrow> c < 0 \<and> r = ext_quot b (Finite c)"
  by (cases b)
    (auto simp: divide_bound_by_negative_singleton_def ext_query_simps ext_quot_def panic_simps
      dest!: ext_div_quot split: if_splits)

lemma sdiv_1: "n sdiv (1::int) = n"
  by (simp add: signed_divide_int_def sgn_if)

lemma div_by_singleton_sound:
  assumes "n \<in> itv_gamma a" "itv_div_by_singleton a c = Some r"
  shows "(if c = 0 then 0 else n sdiv c) \<in> itv_gamma r"
proof -
  have a: "itv_lb a \<le> Finite n" "Finite n \<le> itv_ub a" using assms by (auto simp: itv_gamma_def)
  consider "c = 0" | "c = 1" | "0 < c" "c \<noteq> 1" | "c < 0" by linarith
  then show ?thesis
  proof cases
    case 3
    then have "r = itv_new (ext_quot (itv_lb a) (Finite c)) (ext_quot (itv_ub a) (Finite c))"
      using assms(2) by (auto simp: itv_div_by_singleton_def panic_simps dest!: ext_div_quot)
    then show ?thesis using 3 a by (simp add: gamma_new ext_quot_mono_le)
  next
    case 4
    then have "r = itv_new (ext_quot (itv_ub a) (Finite c)) (ext_quot (itv_lb a) (Finite c))"
      using assms(2) by (auto simp: itv_div_by_singleton_def panic_simps dest!: divide_bound_quot)
    then show ?thesis using 4 a by (simp add: gamma_new ext_quot_mono_le)
  qed (use assms in \<open>auto simp: itv_div_by_singleton_def sdiv_1\<close>)
qed

lemma gamma_halves:
  "m \<in> itv_gamma x \<Longrightarrow> m < 0 \<Longrightarrow> m \<in> itv_gamma (fst (itv_halves_excluding_zero x))"
  "m \<in> itv_gamma x \<Longrightarrow> 0 < m \<Longrightarrow> m \<in> itv_gamma (snd (itv_halves_excluding_zero x))"
  by (auto simp: itv_halves_excluding_zero_def gamma_new) (auto simp: itv_gamma_def)

lemma split_divisor_sound:
  assumes "try_split_divisor_at_zero a x f z = Some (Some r)" "m \<in> itv_gamma x"
    and f: "\<And>y s. itv_contains x 0 \<Longrightarrow> y = fst (itv_halves_excluding_zero x) \<or> y = snd (itv_halves_excluding_zero x) \<Longrightarrow>
      m \<in> itv_gamma y \<Longrightarrow> f a y = Some s \<Longrightarrow> k \<in> itv_gamma s"
    and z: "m = 0 \<Longrightarrow> k \<in> itv_gamma z"
  shows "k \<in> itv_gamma r"
proof -
  have z0: "itv_contains x 0" using assms(1) by (auto simp: try_split_divisor_at_zero_def split: if_splits)
  obtain r1 r2 where r: "f a (fst (itv_halves_excluding_zero x)) = Some r1"
      "f a (snd (itv_halves_excluding_zero x)) = Some r2" "r = itv_join (itv_join r1 r2) z"
    using assms(1)
    by (auto simp: try_split_divisor_at_zero_def panic_simps split: if_splits prod.splits)
  have "k \<in> itv_gamma r1 \<or> k \<in> itv_gamma r2 \<or> k \<in> itv_gamma z"
    using r f [OF z0] z gamma_halves [OF assms(2)] by (cases m "0 :: int" rule: linorder_cases) auto
  then show ?thesis
    using gamma_join [of r1 r2] gamma_join [of "itv_join r1 r2" z] r(3) by blast
qed

lemma split_dividend_sound:
  assumes "try_split_dividend_at_zero a x f z = Some (Some r)" "n \<in> itv_gamma a"
    and f: "\<And>b s. itv_contains a 0 \<Longrightarrow> b = fst (itv_halves_excluding_zero a) \<or> b = snd (itv_halves_excluding_zero a) \<Longrightarrow>
      n \<in> itv_gamma b \<Longrightarrow> f b x = Some s \<Longrightarrow> k \<in> itv_gamma s"
    and z: "n = 0 \<Longrightarrow> k \<in> itv_gamma z"
  shows "k \<in> itv_gamma r"
proof -
  have z0: "itv_contains a 0" using assms(1) by (auto simp: try_split_dividend_at_zero_def split: if_splits)
  obtain r1 r2 where r: "f (fst (itv_halves_excluding_zero a)) x = Some r1"
      "f (snd (itv_halves_excluding_zero a)) x = Some r2" "r = itv_join (itv_join r1 r2) z"
    using assms(1)
    by (auto simp: try_split_dividend_at_zero_def panic_simps split: if_splits prod.splits)
  have "k \<in> itv_gamma r1 \<or> k \<in> itv_gamma r2 \<or> k \<in> itv_gamma z"
    using r f [OF z0] z gamma_halves [OF assms(2)] by (cases n "0 :: int" rule: linorder_cases) auto
  then show ?thesis
    using gamma_join [of r1 r2] gamma_join [of "itv_join r1 r2" z] r(3) by blast
qed

lemma no_zero_sign:
  assumes "\<not> itv_contains x 0" "m \<in> itv_gamma x"
  shows "Finite 0 < itv_lb x \<or> itv_ub x < Finite 0"
  using assms gamma_nonempty [OF assms(2)] by (auto simp: itv_contains_def Let_def not_le)

lemma div_corners_sound:
  assumes "n \<in> itv_gamma a" "m \<in> itv_gamma x" "\<not> itv_contains x 0"
    "itv_corners ext_div a x = Some r"
  shows "n sdiv m \<in> itv_gamma r"
  using assms(4)
proof (rule corners_sound)
  fix p1 p2 p3 p4
  assume "ext_div (itv_lb a) (itv_lb x) = Some p1" "ext_div (itv_lb a) (itv_ub x) = Some p2"
      "ext_div (itv_ub a) (itv_lb x) = Some p3" "ext_div (itv_ub a) (itv_ub x) = Some p4"
  note p = this [THEN ext_div_quot]
  have a: "itv_lb a \<le> Finite n" "Finite n \<le> itv_ub a" and x: "itv_lb x \<le> Finite m" "Finite m \<le> itv_ub x"
    using assms by (auto simp: itv_gamma_def)
  note sg = no_zero_sign [OF assms(3,2)]
  have "m \<noteq> 0" using assms by (auto simp: gamma_contains)
  note k = ext_quot_dividend [OF a this] ext_quot_divisor [OF x sg, of "itv_lb a"]
    ext_quot_divisor [OF x sg, of "itv_ub a"]
  show "(p1 \<le> Finite (n sdiv m) \<or> p2 \<le> Finite (n sdiv m) \<or> p3 \<le> Finite (n sdiv m) \<or> p4 \<le> Finite (n sdiv m)) \<and>
      (Finite (n sdiv m) \<le> p1 \<or> Finite (n sdiv m) \<le> p2 \<or> Finite (n sdiv m) \<le> p3 \<or> Finite (n sdiv m) \<le> p4)"
    using k p by (meson order_trans)
qed

text \<open>The recursion of the divisions: on the halves of the divisor, then of the dividend.\<close>

lemma split_induct [case_names split]:
  assumes "\<And>a x. (\<And>y. itv_contains x 0 \<Longrightarrow>
        y = fst (itv_halves_excluding_zero x) \<or> y = snd (itv_halves_excluding_zero x) \<Longrightarrow> P a y) \<Longrightarrow>
      (\<And>b. \<not> itv_contains x 0 \<Longrightarrow> itv_contains a 0 \<Longrightarrow>
        b = fst (itv_halves_excluding_zero a) \<or> b = snd (itv_halves_excluding_zero a) \<Longrightarrow> P b x) \<Longrightarrow> P a x"
  shows "P a x"
proof (induction "split_measure (a, x)" arbitrary: a x rule: less_induct)
  case less
  show ?case by (rule assms) (rule less; auto simp: split_measure_def)+
qed

text \<open>Division of the target machine: a zero divisor gives zero.\<close>

definition div_at :: "int \<Rightarrow> int \<Rightarrow> int" where
  "div_at n m = (if m = 0 then 0 else n sdiv m)"

lemma signed_div_tail_sound:
  assumes r: "signed_div_tail a x f (itv_from_number 0) = Some r"
    and nm: "n \<in> itv_gamma a" "m \<in> itv_gamma x"
    and f: "\<And>b y s. itv_contains x 0 \<and> b = a \<and> (y = fst (itv_halves_excluding_zero x) \<or>
        y = snd (itv_halves_excluding_zero x)) \<or>
      \<not> itv_contains x 0 \<and> itv_contains a 0 \<and> y = x \<and>
        (b = fst (itv_halves_excluding_zero a) \<or> b = snd (itv_halves_excluding_zero a)) \<Longrightarrow>
      n \<in> itv_gamma b \<Longrightarrow> m \<in> itv_gamma y \<Longrightarrow> f b y = Some s \<Longrightarrow> div_at n m \<in> itv_gamma s"
  shows "div_at n m \<in> itv_gamma r"
proof -
  consider
    (divisor) "try_split_divisor_at_zero a x f (itv_from_number 0) = Some (Some r)" "itv_contains x 0"
    | (dividend) "\<not> itv_contains x 0" "itv_contains a 0"
      "try_split_dividend_at_zero a x f (itv_from_number 0) = Some (Some r)"
    | (tail) "\<not> itv_contains x 0" "itv_corners ext_div a x = Some r"
    using r by (auto simp: signed_div_tail_def panic_simps try_split_divisor_at_zero_def
        try_split_dividend_at_zero_def split: option.splits if_splits prod.splits)
  then show ?thesis
  proof cases
    case divisor
    then show ?thesis
      using split_divisor_sound [OF divisor(1) nm(2), of "div_at n m"] f nm
      by (auto simp: div_at_def)
  next
    case dividend
    then show ?thesis
      using split_dividend_sound [OF dividend(3) nm(1), of "div_at n m"] f nm
      by (auto simp: div_at_def)
  next
    case tail
    then have "m \<noteq> 0" using nm by (auto simp: gamma_contains)
    then show ?thesis using div_corners_sound [OF nm tail] by (simp add: div_at_def)
  qed
qed

lemma div_sound:
  assumes "n \<in> itv_gamma a" "m \<in> itv_gamma x" "itv_div a x = Some r"
  shows "div_at n m \<in> itv_gamma r"
  using assms
proof (induction a x arbitrary: r rule: split_induct)
  case (split a x)
  note nb = gamma_nonempty [OF split.prems(1)] gamma_nonempty [OF split.prems(2)]
  show ?case
  proof (cases "itv_singleton x")
    case (Some c)
    then have "itv_div_by_singleton a c = Some r" "m = c"
      using split.prems nb gamma_singleton [OF Some] by (auto simp: itv_div.simps [of a x])
    then show ?thesis using div_by_singleton_sound [OF split.prems(1)] by (simp add: div_at_def)
  next
    case None
    then have t: "signed_div_tail a x itv_div (itv_from_number 0) = Some r"
      using split.prems nb by (simp add: itv_div.simps [of a x])
    show ?thesis
      by (rule signed_div_tail_sound [OF t split.prems(1,2)]) (use split.IH in blast)
  qed
qed

lemma sdiv_sound:
  assumes "n \<in> itv_gamma a" "m \<in> itv_gamma x" "itv_sdiv a x = Some r"
  shows "div_at n m \<in> itv_gamma r"
  using assms
proof (induction a x arbitrary: r rule: split_induct)
  case (split a x)
  note nb = gamma_nonempty [OF split.prems(1)] gamma_nonempty [OF split.prems(2)]
  show ?case
  proof (cases "Option.bind (itv_singleton x) num_to_i64")
    case (Some c)
    then obtain "itv_singleton x = Some c"
      by (auto simp: Option.bind_eq_Some_conv num_to_i64_def split: if_splits)
    then have "itv_div_by_singleton a c = Some r" "m = c"
      using split.prems nb Some gamma_singleton by (auto simp: itv_sdiv.simps [of a x])
    then show ?thesis using div_by_singleton_sound [OF split.prems(1)] by (simp add: div_at_def)
  next
    case None
    then have t: "signed_div_tail a x itv_sdiv (itv_from_number 0) = Some r"
      using split.prems nb by (simp add: itv_sdiv.simps [of a x])
    show ?thesis
      by (rule signed_div_tail_sound [OF t split.prems(1,2)]) (use split.IH in blast)
  qed
qed

end
