(* ===== verification/Interval_Rem.thy ===== *)
theory Interval_Rem
  imports Interval_Arith
begin

text \<open>
  Soundness of the remaining divisions of \<open>src/crab/interval.rs\<close>: the signed remainder on all
  intervals, the unsigned division and remainder on intervals of unsigned 64-bit values.
\<close>

subsection \<open>Remainders\<close>

lemma smod_bounds:
  assumes "(m::int) \<noteq> 0"
  shows "\<bar>n smod m\<bar> < \<bar>m\<bar>" "0 \<le> n \<Longrightarrow> 0 \<le> n smod m \<and> n smod m \<le> n"
    "n \<le> 0 \<Longrightarrow> n \<le> n smod m \<and> n smod m \<le> 0"
proof -
  have e: "n smod m = sgn n * (\<bar>n\<bar> mod \<bar>m\<bar>)" by (simp add: signed_modulo_int_def)
  have b: "0 \<le> \<bar>n\<bar> mod \<bar>m\<bar>" "\<bar>n\<bar> mod \<bar>m\<bar> < \<bar>m\<bar>" "\<bar>n\<bar> mod \<bar>m\<bar> \<le> \<bar>n\<bar>"
    using assms by (auto simp: zmod_le_nonneg_dividend)
  show "\<bar>n smod m\<bar> < \<bar>m\<bar>" "0 \<le> n \<Longrightarrow> 0 \<le> n smod m \<and> n smod m \<le> n"
    "n \<le> 0 \<Longrightarrow> n \<le> n smod m \<and> n smod m \<le> 0"
    using b unfolding e by (auto simp: sgn_if)
qed

lemma smod_small: "\<bar>n\<bar> < \<bar>m\<bar> \<Longrightarrow> n smod m = (n::int)"
  by (auto simp: signed_modulo_int_def sgn_if)

lemma gamma_convex: "p \<in> itv_gamma r \<Longrightarrow> q \<in> itv_gamma r \<Longrightarrow> p \<le> k \<Longrightarrow> k \<le> q \<Longrightarrow> k \<in> itv_gamma r"
  by (auto simp: itv_gamma_def intro: order_trans [where y = "Finite p"] order_trans [where y = "Finite q"])

lemma gamma_join_zero:
  assumes "n \<in> itv_gamma a" "0 \<le> k \<and> k \<le> n \<or> n \<le> k \<and> k \<le> 0"
  shows "k \<in> itv_gamma (itv_join a (itv_from_number 0))"
proof -
  have "n \<in> itv_gamma (itv_join a (itv_from_number 0))" "0 \<in> itv_gamma (itv_join a (itv_from_number 0))"
    using gamma_join [of a "itv_from_number 0"] assms by auto
  then show ?thesis using assms gamma_convex by metis
qed

lemma srem_finite_divisor_sound:
  assumes "n \<in> itv_gamma a" "l \<le> m" "m \<le> u" "0 < l \<or> u < 0"
    "srem_finite_divisor a l u = Some r"
  shows "n smod m \<in> itv_gamma r"
proof -
  define lo where "lo = min \<bar>l\<bar> \<bar>u\<bar>"
  define hi where "hi = max \<bar>l\<bar> \<bar>u\<bar>"
  have lohi: "(if \<bar>l\<bar> \<le> \<bar>u\<bar> then (\<bar>l\<bar>, \<bar>u\<bar>) else (\<bar>u\<bar>, \<bar>l\<bar>)) = (lo, hi)" by (auto simp: lo_def hi_def)
  have m: "lo \<le> \<bar>m\<bar>" "\<bar>m\<bar> \<le> hi" "m \<noteq> 0" using assms by (auto simp: lo_def hi_def)
  note sb = smod_bounds [OF m(3), of n]
  have n: "itv_lb a \<le> Finite n" "Finite n \<le> itv_ub a" using assms(1) by (auto simp: itv_gamma_def)
  have abs: "num_abs l = Some la \<Longrightarrow> la = \<bar>l\<bar>" "num_abs u = Some la \<Longrightarrow> la = \<bar>u\<bar>" for la
    by (auto simp: num_abs_def panic_simps)
  obtain neg_lb where neg: "(if itv_ub a < Finite lo then ext_neg (itv_lb a) else Some PlusInfinity) = Some neg_lb"
    and r: "(if itv_ub a < Finite lo \<and> neg_lb < Finite lo then Some a
          else do {
            max_d_minus_1 \<leftarrow> num_sub hi 1;
            if itv_lb a < Finite 0
            then do { neg_m \<leftarrow> num_neg max_d_minus_1;
                      if itv_ub a > Finite 0
                      then Some (itv_new (Finite neg_m) (Finite max_d_minus_1))
                      else Some (itv_new (Finite neg_m) (Finite 0)) }
            else Some (itv_new (Finite 0) (Finite max_d_minus_1)) }) = Some r"
    using assms(5) unfolding srem_finite_divisor_def Option.bind_eq_Some_conv
    by (auto dest!: abs simp: lohi simp del: if_Some_conv split del: if_split elim!: bind_SomeE)
  show ?thesis
  proof (cases "itv_ub a < Finite lo \<and> neg_lb < Finite lo")
    case True
    then have "Finite (- n) \<le> neg_lb" using neg n(1) neg_ge by auto
    then have "- n < lo" "n < lo"
      using True n(2) order_le_less_trans [of "Finite (- n)" neg_lb "Finite lo"]
        order_le_less_trans [of "Finite n" "itv_ub a" "Finite lo"] by auto
    then have "\<bar>n\<bar> < lo" by (simp add: abs_less_iff)
    then have "n smod m = n" using smod_small [of n m] m by simp
    then show ?thesis using True r assms(1) by simp
  next
    case False
    then show ?thesis
      using r sb m n
      by (auto simp: num_sub_def num_neg_def panic_simps gamma_new not_less split: if_splits
          dest: order_trans [of "Finite 0" _ "Finite n"] order_trans [of "Finite n" _ "Finite 0"])
  qed
qed

lemma srem_sound:
  assumes "n \<in> itv_gamma a" "m \<in> itv_gamma x" "itv_srem a x = Some r"
  shows "(if m = 0 then n else n smod m) \<in> itv_gamma r"
  using assms
proof (induction a x arbitrary: r rule: split_induct)
  case (split a x)
  note nb = gamma_nonempty [OF split.prems(1)] gamma_nonempty [OF split.prems(2)]
  show ?case
  proof (cases "\<exists>dd dv. itv_singleton a = Some dd \<and> itv_singleton x = Some dv")
    case True
    then obtain dd dv where s: "itv_singleton a = Some dd" "itv_singleton x = Some dv" by auto
    then have "n = dd" "m = dv" using split.prems by (auto dest!: gamma_singleton)
    then show ?thesis
      using split.prems nb s
      by (auto simp: itv_srem.simps [of a x] num_is_zero_def num_rem_def panic_simps split: if_splits)
  next
    case False
    then obtain s where s: "try_split_divisor_at_zero a x itv_srem a = Some s"
      and r: "(case s of Some r \<Rightarrow> Some r
             | None \<Rightarrow>
               if ext_is_finite (itv_ub x) \<and> ext_is_finite (itv_lb x)
               then do { p \<leftarrow> itv_pair_number x; srem_finite_divisor a (fst p) (snd p) }
               else Some (itv_join a (itv_from_number 0))) = Some r"
      using split.prems(3) nb unfolding itv_srem.simps [of a x]
      by (cases "itv_singleton a"; cases "itv_singleton x") (auto simp: Option.bind_eq_Some_conv)
    show ?thesis
    proof (cases s)
      case (Some r')
      then have "try_split_divisor_at_zero a x itv_srem a = Some (Some r)" using s r by simp
      then show ?thesis
      proof (rule split_divisor_sound [OF _ split.prems(2)])
        fix y s'
        assume "itv_contains x 0"
          "y = fst (itv_halves_excluding_zero x) \<or> y = snd (itv_halves_excluding_zero x)"
          "m \<in> itv_gamma y" "itv_srem a y = Some s'"
        then show "(if m = 0 then n else n smod m) \<in> itv_gamma s'"
          using split.IH(1) split.prems(1) by blast
      qed (use split.prems in auto)
    next
      case None
      then have nz: "\<not> itv_contains x 0" using s try_split_divisor_None by simp
      then have "m \<noteq> 0" using split.prems(2) by (auto simp: gamma_contains)
      show ?thesis
      proof (cases "ext_is_finite (itv_ub x) \<and> ext_is_finite (itv_lb x)")
        case True
        then obtain l u where lu: "itv_lb x = Finite l" "itv_ub x = Finite u"
          by (cases "itv_lb x"; cases "itv_ub x") auto
        then have "srem_finite_divisor a l u = Some r"
          using r None by (simp add: itv_pair_number_def)
        then show ?thesis
          using srem_finite_divisor_sound [OF split.prems(1), of l m u r] \<open>m \<noteq> 0\<close> split.prems(2)
            no_zero_sign [OF nz split.prems(2)] lu
          by (simp add: itv_gamma_def)
      next
        case False
        then have "r = itv_join a (itv_from_number 0)" using r None by auto
        then show ?thesis
          using gamma_join_zero [OF split.prems(1), of "n smod m"] smod_bounds [OF \<open>m \<noteq> 0\<close>, of n] \<open>m \<noteq> 0\<close>
          by (cases "0 \<le> n") auto
      qed
    qed
  qed
qed

subsection \<open>Unsigned division and remainder\<close>

text \<open>Intervals of unsigned 64-bit values.\<close>

definition itv_u64 :: "interval \<Rightarrow> bool" where
  "itv_u64 a \<longleftrightarrow> Finite 0 \<le> itv_lb a \<and> itv_ub a \<le> Finite (2 ^ 64 - 1)"

lemma u64_gamma: "itv_u64 a \<Longrightarrow> n \<in> itv_gamma a \<Longrightarrow> 0 \<le> n \<and> n < 2 ^ 64"
  unfolding itv_u64_def itv_gamma_def
  by (cases "itv_lb a"; cases "itv_ub a") auto

lemma u64_bounds:
  assumes "itv_u64 a" "n \<in> itv_gamma a"
  obtains l u where "itv_lb a = Finite l" "itv_ub a = Finite u" "0 \<le> l" "l \<le> n" "n \<le> u" "u < 2 ^ 64"
  using assms unfolding itv_u64_def itv_gamma_def
  by (cases "itv_lb a"; cases "itv_ub a") auto

lemma u64_halves:
  "itv_u64 x \<Longrightarrow> itv_u64 (fst (itv_halves_excluding_zero x))"
  "itv_u64 x \<Longrightarrow> itv_u64 (snd (itv_halves_excluding_zero x))"
  unfolding itv_u64_def itv_halves_excluding_zero_def itv_new_def itv_bottom_def
  by (cases "itv_lb x"; cases "itv_ub x"; auto)+

lemma num_cast_u64_self: "0 \<le> n \<Longrightarrow> n < 2 ^ 64 \<Longrightarrow> num_cast_to_unsigned_width n 64 = Some n"
  by (simp add: num_cast_u64_eq take_bit_int_eq_self)

lemma ext_udiv_quot:
  "ext_udiv x y = Some r \<Longrightarrow> Finite 0 \<le> x \<Longrightarrow> Finite 0 \<le> y \<Longrightarrow>
    r = ext_quot x y \<and> (ext_is_finite x \<or> ext_is_finite y)"
  by (cases x; cases y)
    (auto simp: ext_udiv_def ext_abs_div_def ext_quot_def num_div_def panic_simps ext_to_unsigned_def
      num_is_negative_def split: if_splits)

lemma udiv_by_singleton_sound:
  assumes "n \<in> itv_gamma a" "itv_u64 a" "0 \<le> c" "c < 2 ^ 64" "itv_udiv_by_singleton a c = Some r"
  shows "n div c \<in> itv_gamma r"
proof -
  obtain l u where a: "itv_lb a = Finite l" "itv_ub a = Finite u" "0 \<le> l" "l \<le> n" "n \<le> u"
    using u64_bounds [OF assms(2,1)] by blast
  show ?thesis
    using a assms
    by (auto simp: itv_udiv_by_singleton_def num_cast_u64_self panic_simps gamma_new
        ext_udiv_def ext_abs_div_def ext_to_unsigned_def num_is_negative_def num_div_def
        sdiv_nonneg zdiv_mono1 split: if_splits)
qed

lemma udiv_corners_sound:
  assumes "n \<in> itv_gamma a" "m \<in> itv_gamma x" "itv_u64 a" "itv_u64 x" "\<not> itv_contains x 0"
    "itv_corners ext_udiv a x = Some r"
  shows "n div m \<in> itv_gamma r"
  using assms(6)
proof (rule corners_sound)
  obtain l u where a: "itv_lb a = Finite l" "itv_ub a = Finite u" "0 \<le> l" "l \<le> n" "n \<le> u"
    using u64_bounds [OF assms(3,1)] by blast
  obtain q v where x: "itv_lb x = Finite q" "itv_ub x = Finite v" "0 \<le> q" "q \<le> m" "m \<le> v"
    using u64_bounds [OF assms(4,2)] by blast
  have q: "0 < q" using no_zero_sign [OF assms(5,2)] x by auto
  have lo: "l div v \<le> n div m" and hi: "n div m \<le> u div q"
    using a x q order_trans [OF zdiv_mono2 [of l m v] zdiv_mono1 [of l n m]]
      order_trans [OF zdiv_mono1 [of n u m] zdiv_mono2 [of u q m]] by auto
  fix p1 p2 p3 p4
  assume p: "ext_udiv (itv_lb a) (itv_lb x) = Some p1" "ext_udiv (itv_lb a) (itv_ub x) = Some p2"
      "ext_udiv (itv_ub a) (itv_lb x) = Some p3" "ext_udiv (itv_ub a) (itv_ub x) = Some p4"
  have "p2 = Finite (l div v)"
    using ext_udiv_quot [OF p(2)] a x q by (simp add: ext_quot_def sdiv_nonneg)
  moreover have "p3 = Finite (u div q)"
    using ext_udiv_quot [OF p(3)] a x q by (simp add: ext_quot_def sdiv_nonneg)
  ultimately show "(p1 \<le> Finite (n div m) \<or> p2 \<le> Finite (n div m) \<or> p3 \<le> Finite (n div m) \<or> p4 \<le> Finite (n div m)) \<and>
      (Finite (n div m) \<le> p1 \<or> Finite (n div m) \<le> p2 \<or> Finite (n div m) \<le> p3 \<or> Finite (n div m) \<le> p4)"
    using lo hi by simp
qed

lemma udiv_sound:
  assumes "n \<in> itv_gamma a" "m \<in> itv_gamma x" "itv_u64 a" "itv_u64 x" "itv_udiv a x = Some r"
  shows "n div m \<in> itv_gamma r"
  using assms
proof (induction a x arbitrary: r rule: split_induct)
  case (split a x)
  note nb = gamma_nonempty [OF split.prems(1)] gamma_nonempty [OF split.prems(2)]
  obtain k where k: "singleton_fits_cast_64 x = Some k"
    using split.prems(5) nb by (auto simp: itv_udiv.simps [of a x] elim!: bind_SomeE)
  show ?case
  proof (cases k)
    case (Some c)
    then have c: "itv_singleton x = Some c"
      using k by (auto simp: singleton_fits_cast_64_def panic_simps split: option.splits if_splits)
    then have "m = c" using split.prems(2) gamma_singleton by auto
    then show ?thesis
      using split.prems nb k Some u64_gamma [OF split.prems(4,2)]
      by (auto simp: itv_udiv.simps [of a x] intro!: udiv_by_singleton_sound)
  next
    case None
    then consider
      (divisor) "try_split_divisor_at_zero a x itv_udiv (itv_from_number 0) = Some (Some r)"
      | (dividend) "\<not> itv_contains x 0"
        "try_split_dividend_at_zero a x itv_udiv (itv_from_number 0) = Some (Some r)"
      | (tail) d where "\<not> itv_contains x 0" "make_dividend_when_both_nonzero a x = Some d"
         "itv_corners ext_udiv d x = Some r"
      using split.prems(5) nb k unfolding itv_udiv.simps [of a x]
      by (auto simp: try_split_divisor_None elim!: bind_SomeE split: option.splits)
    then show ?thesis
    proof cases
      case divisor
      then show ?thesis
      proof (rule split_divisor_sound [OF _ split.prems(2)])
        fix y s
        assume "itv_contains x 0"
          "y = fst (itv_halves_excluding_zero x) \<or> y = snd (itv_halves_excluding_zero x)"
          "m \<in> itv_gamma y" "itv_udiv a y = Some s"
        then show "n div m \<in> itv_gamma s"
          using split.IH(1) split.prems(1,3,4) u64_halves by blast
      qed simp
    next
      case dividend
      from dividend(2) show ?thesis
      proof (rule split_dividend_sound [OF _ split.prems(1)])
        fix b s
        assume "itv_contains a 0"
          "b = fst (itv_halves_excluding_zero a) \<or> b = snd (itv_halves_excluding_zero a)"
          "n \<in> itv_gamma b" "itv_udiv b x = Some s"
        then show "n div m \<in> itv_gamma s"
          using split.IH(2) dividend(1) split.prems(2,3,4) u64_halves by blast
      qed simp
    next
      case tail
      obtain u where "itv_ub a = Finite u" "0 \<le> u"
        using u64_bounds [OF split.prems(3,1)] by (metis order_trans)
      then have "d = a"
        using tail(2) by (simp add: make_dividend_when_both_nonzero_def)
      show ?thesis
        using udiv_corners_sound [OF split.prems(1-4) tail(1), of r] tail(3) \<open>d = a\<close> by simp
    qed
  qed
qed

lemma urem_no_zero_sound:
  assumes "n \<in> itv_gamma a" "m \<in> itv_gamma x" "itv_u64 a" "itv_u64 x" "m \<noteq> 0"
    "urem_no_zero a x = Some r"
  shows "n mod m \<in> itv_gamma r"
proof -
  obtain l u where a: "itv_lb a = Finite l" "itv_ub a = Finite u" "0 \<le> l" "l \<le> n" "n \<le> u" "u < 2 ^ 64"
    using u64_bounds [OF assms(3,1)] by blast
  obtain q v where x: "itv_lb x = Finite q" "itv_ub x = Finite v" "0 \<le> q" "q \<le> m" "m \<le> v" "v < 2 ^ 64"
    using u64_bounds [OF assms(4,2)] by blast
  have m: "0 \<le> n mod m" "n mod m < m" "n < m \<Longrightarrow> n mod m = n"
    using a x assms(5) by (auto simp: mod_pos_pos_trivial)
  have "num_cast_to_unsigned_width u 64 = Some u" "num_cast_to_unsigned_width q 64 = Some q"
    "num_cast_to_unsigned_width v 64 = Some v"
    using a x by (auto intro!: num_cast_u64_self)
  then have "(u < q \<and> r = a) \<or> r = itv_new (Finite 0) (Finite (v - 1))"
    using assms(6) a x
    by (auto simp: urem_no_zero_def num_sub_def panic_simps split: if_splits)
  then show ?thesis using assms(1) m a x by (auto simp: gamma_new)
qed

lemma urem_sound:
  assumes "n \<in> itv_gamma a" "m \<in> itv_gamma x" "itv_u64 a" "itv_u64 x" "itv_urem a x = Some r"
  shows "n mod m \<in> itv_gamma r"
  using assms
proof (induction a x arbitrary: r rule: split_induct)
  case (split a x)
  note nb = gamma_nonempty [OF split.prems(1)] gamma_nonempty [OF split.prems(2)]
  note range = u64_gamma [OF split.prems(3,1)] u64_gamma [OF split.prems(4,2)]
  obtain k where k: "urem_singletons a x = Some k"
    using split.prems(5) nb by (auto simp: itv_urem.simps [of a x] elim!: bind_SomeE)
  show ?case
  proof (cases k)
    case (Some r')
    then obtain dd dv where s: "itv_singleton a = Some dd" "itv_singleton x = Some dv"
      using k by (auto simp: urem_singletons_def split: option.splits)
    have "n = dd" "m = dv" using gamma_singleton [OF s(1)] gamma_singleton [OF s(2)] split.prems by auto
    moreover have "urem_singletons a x = Some (Some r)"
      using split.prems(5) k Some nb by (simp add: itv_urem.simps [of a x])
    ultimately show ?thesis
      using s range
      by (auto simp: urem_singletons_def num_fits_cast_64_eq num_cast_u64_self num_is_zero_def
          num_narrow_to_u64_def num_to_u64_def split: if_splits)
  next
    case None
    then consider
      (divisor) "try_split_divisor_at_zero a x itv_urem a = Some (Some r)"
      | (dividend) "\<not> itv_contains x 0" "try_split_dividend_at_zero a x itv_urem a = Some (Some r)"
      | (tail) "\<not> itv_contains x 0" "urem_no_zero a x = Some r"
      using split.prems(5) nb k unfolding itv_urem.simps [of a x]
      by (auto simp: try_split_divisor_None elim!: bind_SomeE split: option.splits)
    then show ?thesis
    proof cases
      case divisor
      then show ?thesis
      proof (rule split_divisor_sound [OF _ split.prems(2)])
        fix y s
        assume "itv_contains x 0"
          "y = fst (itv_halves_excluding_zero x) \<or> y = snd (itv_halves_excluding_zero x)"
          "m \<in> itv_gamma y" "itv_urem a y = Some s"
        then show "n mod m \<in> itv_gamma s"
          using split.IH(1) split.prems(1,3,4) u64_halves by blast
      qed (use split.prems in simp)
    next
      case dividend
      from dividend(2) show ?thesis
      proof (rule split_dividend_sound [OF _ split.prems(1)])
        fix b s
        assume "itv_contains a 0"
          "b = fst (itv_halves_excluding_zero a) \<or> b = snd (itv_halves_excluding_zero a)"
          "n \<in> itv_gamma b" "itv_urem b x = Some s"
        then show "n mod m \<in> itv_gamma s"
          using split.IH(2) dividend(1) split.prems(2,3,4) u64_halves by blast
      qed (use split.prems in simp)
    next
      case tail
      have "m \<noteq> 0" using tail(1) split.prems(2) by (auto simp: gamma_contains)
      show ?thesis by (rule urem_no_zero_sound [OF split.prems(1-4) \<open>m \<noteq> 0\<close> tail(2)])
    qed
  qed
qed

end
