(* ===== verification/Interval_Bits.thy ===== *)
theory Interval_Bits
  imports Interval_Rem
begin

text \<open>
  Soundness of the extensions, bitwise operations and shifts of \<open>src/crab/interval.rs\<close>, then
  what the fixpoint iteration relies on: the order decides inclusion, widening stabilises, and
  the arithmetic does not panic on 64-bit operands.
\<close>


subsection \<open>Sign and zero extension\<close>

lemma itv_size_finite:
  assumes "n \<in> itv_gamma a" "itv_size a = Some s" "s < Finite k"
  obtains l u where "itv_lb a = Finite l" "itv_ub a = Finite u" "u - l + 1 < k"
  using assms gamma_nonempty [OF assms(1)]
  by (cases "itv_lb a"; cases "itv_ub a")
    (auto simp: itv_size_def itv_gamma_def ext_sub_def num_neg_def num_add_def panic_simps)

lemma mod_window:
  assumes "(0::int) < M" "l \<le> n" "n \<le> u" "u - l < M" "l mod M \<le> u mod M"
  shows "l mod M \<le> n mod M \<and> n mod M \<le> u mod M"
proof -
  have le: "l div M \<le> n div M" "n div M \<le> u div M" using assms by (auto intro: zdiv_mono1)
  have "u div M \<le> l div M"
  proof (rule ccontr)
    assume "\<not> u div M \<le> l div M"
    then have "M * (l div M + 1) \<le> M * (u div M)" using assms(1) by (intro mult_left_mono) auto
    then have "M \<le> M * (u div M) - M * (l div M)" by (simp add: distrib_left)
    then show False
      using assms(4,5) mult_div_mod_eq [of M u] mult_div_mod_eq [of M l] by linarith
  qed
  then have "l div M = n div M" "u div M = n div M" using le by auto
  then show ?thesis
    using assms(2,3) mult_div_mod_eq [of M u] mult_div_mod_eq [of M l] mult_div_mod_eq [of M n]
    by (metis add_le_cancel_left)
qed

lemma extend_to_sound:
  assumes "n \<in> itv_gamma a" "itv_extend_to f full a = Some r"
    and full: "\<And>k. g k \<in> itv_gamma full" "itv_size full = Some (Finite M)"
    and f: "\<And>k. f (Finite k) = Some (g k)"
    and window: "\<And>l u. l \<le> n \<Longrightarrow> n \<le> u \<Longrightarrow> u - l < M \<Longrightarrow> g l \<le> g u \<Longrightarrow> g l \<le> g n \<and> g n \<le> g u"
  shows "g n \<in> itv_gamma r"
proof -
  obtain sa where sa: "itv_size a = Some sa" using assms(2) by (auto simp: itv_extend_to_def elim!: bind_SomeE)
  show ?thesis
  proof (cases "sa < Finite M")
    case False
    then have "r = full" using assms(2) full(2) sa by (simp add: itv_extend_to_def)
    then show ?thesis using full(1) by simp
  next
    case True
    obtain l u where a: "itv_lb a = Finite l" "itv_ub a = Finite u" "u - l + 1 < M"
      by (rule itv_size_finite [OF assms(1) sa True])
    have ln: "l \<le> n" "n \<le> u" using a assms(1) by (auto simp: itv_gamma_def)
    let ?e = "itv_new (Finite (g l)) (Finite (g u))"
    have r: "r = (if \<not> itv_is_bottom ?e then ?e else full)"
      using assms(2) full(2) sa True a f by (simp add: itv_extend_to_def Let_def split: if_splits)
    have "g l \<le> g u" if "\<not> itv_is_bottom ?e"
      using that by (auto simp: itv_new_def itv_is_bottom_def itv_bottom_def split: if_splits)
    then show ?thesis using r full(1) window [OF ln] a(3) by (auto simp: gamma_new)
  qed
qed

lemma zero_extend_sound:
  assumes "n \<in> itv_gamma a" "itv_zero_extend a w = Some r" "w \<le> 64"
  shows "take_bit (nat w) n \<in> itv_gamma r"
proof -
  have w: "0 < w" using assms(2) by (auto simp: itv_zero_extend_def split: if_splits)
  have "(2::int) ^ nat w \<le> 2 ^ 64" using assms(3) by (intro power_increasing) auto
  then have p: "(0::int) < 2 ^ nat w" "(2::int) ^ nat w \<le> 2 ^ 64" "\<not> (2::int) ^ nat w < 1"
    by (simp_all add: not_less)
  let ?full = "itv_new (Finite 0) (Finite (2 ^ nat w - 1))"
  have e: "itv_extend_to (\<lambda>b. ext_zero_extend b w) ?full a = Some r"
    using assms w by (simp add: itv_zero_extend_def itv_unsigned_int_def num_max_uint_eq)
  show ?thesis
  proof (rule extend_to_sound [OF assms(1) e, where M = "2 ^ nat w" and g = "take_bit (nat w)"])
    show "itv_size ?full = Some (Finite (2 ^ nat w))"
      using p by (simp add: itv_size_def itv_is_bottom_def itv_new_def ext_sub_def num_neg_def
          num_add_def chk_i128_def in_i128_def)
    show "take_bit (nat w) k \<in> itv_gamma ?full" for k :: int
      using take_bit_range [of "nat w" k] by (auto simp: gamma_new)
    show "ext_zero_extend (Finite k) w = Some (take_bit (nat w) k)" for k
      using w assms(3) by (simp add: ext_zero_extend_def num_zero_extend_eq)
    show "take_bit (nat w) l \<le> take_bit (nat w) n \<and> take_bit (nat w) n \<le> take_bit (nat w) u"
      if "l \<le> n" "n \<le> u" "u - l < 2 ^ nat w" "take_bit (nat w) l \<le> take_bit (nat w) u" for l u
      using mod_window [OF p(1) that(1-3)] that(4) by (simp add: take_bit_eq_mod)
  qed
qed

lemma signed_take_bit_shift:
  "signed_take_bit w (n::int) = (n + 2 ^ w) mod 2 ^ Suc w - 2 ^ w"
  by (simp add: signed_take_bit_eq_take_bit_shift take_bit_eq_mod)

lemma sign_extend_sound:
  assumes "n \<in> itv_gamma a" "itv_sign_extend a w = Some r" "w \<le> 64"
  shows "signed_take_bit (nat w - 1) n \<in> itv_gamma r"
proof -
  have w: "0 < w" using assms(2) by (auto simp: itv_sign_extend_def split: if_splits)
  define v where "v = nat w - 1"
  have v: "nat w = Suc v" "v \<le> 63" using w assms(3) by (auto simp: v_def)
  have "(2::int) ^ v \<le> 2 ^ 63" using v by (intro power_increasing) auto
  then have p: "(0::int) < 2 ^ Suc v" "(0::int) < 2 ^ v" "(2::int) ^ v \<le> 2 ^ 63" by simp_all
  then have p2: "\<not> 2 * (2::int) ^ v < 1" using one_le_power [of "2::int" v] by linarith
  let ?full = "itv_new (Finite (- (2 ^ v))) (Finite (2 ^ v - 1))"
  have e: "itv_extend_to (\<lambda>b. ext_sign_extend b w) ?full a = Some r"
    using assms w by (simp add: itv_sign_extend_def itv_signed_int_def num_max_int_eq num_min_int_eq v_def)
  have "signed_take_bit v n \<in> itv_gamma r"
  proof (rule extend_to_sound [OF assms(1) e, where M = "2 ^ Suc v" and g = "signed_take_bit v"])
    show "itv_size ?full = Some (Finite (2 ^ Suc v))"
      using p p2 by (simp add: itv_size_def itv_is_bottom_def itv_new_def ext_sub_def num_neg_def
          num_add_def chk_i128_def in_i128_def)
    show "signed_take_bit v k \<in> itv_gamma ?full" for k :: int
      using signed_take_bit_int_less_exp [of v k] signed_take_bit_int_greater_eq_minus_exp [of v k]
      by (auto simp: gamma_new)
    show "ext_sign_extend (Finite k) w = Some (signed_take_bit v k)" for k
      using w assms(3) by (simp add: ext_sign_extend_def num_sign_extend_eq v_def)
    show "signed_take_bit v l \<le> signed_take_bit v n \<and> signed_take_bit v n \<le> signed_take_bit v u"
      if "l \<le> n" "n \<le> u" "u - l < 2 ^ Suc v" "signed_take_bit v l \<le> signed_take_bit v u" for l u
      using mod_window [OF p(1), of "l + 2 ^ v" "n + 2 ^ v" "u + 2 ^ v"] that
      by (simp add: signed_take_bit_shift)
  qed
  then show ?thesis by (simp add: v_def)
qed

subsection \<open>Bitwise operations\<close>

lemma gamma_top_iff: "n \<in> itv_gamma a \<Longrightarrow> itv_is_top a \<Longrightarrow> k \<in> itv_gamma a"
  by (cases "itv_lb a"; cases "itv_ub a") (auto simp: itv_gamma_def itv_is_top_def)

lemma as_unsigned_sound:
  assumes "n \<in> itv_gamma a" "itv_as_unsigned a = Some r" "n < 2 ^ 64"
  shows "take_bit 64 n \<in> itv_gamma r"
proof (cases "\<not> itv_is_top a \<and> itv_lb a < Finite 0")
  case True
  then have "itv_zero_extend a 64 = Some r" using assms(2) by (simp add: itv_as_unsigned_def)
  from zero_extend_sound [OF assms(1) this] show ?thesis by simp
next
  case False
  then have r: "r = a" using assms(2) by (simp add: itv_as_unsigned_def split: if_splits)
  show ?thesis
  proof (cases "itv_is_top a")
    case False
    then have "Finite 0 \<le> itv_lb a" using \<open>\<not> (\<not> itv_is_top a \<and> itv_lb a < Finite 0)\<close> by simp
    then have "0 \<le> n" using assms(1) by (cases "itv_lb a") (auto simp: itv_gamma_def)
    then have "take_bit 64 n = n" using assms(3) by (intro take_bit_int_eq_self) auto
    then show ?thesis using r assms(1) by simp
  qed (use r assms(1) gamma_top_iff in blast)
qed

lemma take_bit_idem_less: "0 \<le> n \<Longrightarrow> n < 2 ^ k \<Longrightarrow> take_bit k (n::int) = n"
  by (rule take_bit_int_eq_self) auto

lemma gamma_upper: "n \<in> itv_gamma a \<Longrightarrow> k \<le> n \<Longrightarrow> Finite k \<le> itv_ub a"
  by (auto simp: itv_gamma_def intro: order_trans [of _ "Finite n"])

lemma and_constant_mask_sound:
  assumes "n \<in> itv_gamma a" "m \<in> itv_gamma x" "and_constant_mask a x = Some (Some r)"
  shows "n AND m \<in> itv_gamma r"
proof -
  obtain c where c: "itv_singleton x = Some c"
    using assms(3) by (auto simp: and_constant_mask_def split: option.splits)
  have "m = c" using assms(2) gamma_singleton [OF c] by auto
  then consider "m = 2 ^ 64 - 1" "itv_zero_extend a (int 64) = Some r"
    | "m = 2 ^ 32 - 1" "itv_zero_extend a (int 32) = Some r"
    | "m = 2 ^ 16 - 1" "itv_zero_extend a (int 16) = Some r"
    | "m = 2 ^ 8 - 1" "itv_zero_extend a (int 8) = Some r"
    using assms(3) c
    by (auto simp: and_constant_mask_def num_max_uint_eq itv_truncate_to_unsigned_def split: if_splits)
  then obtain w where w: "m = 2 ^ w - 1" "int w \<le> 64" "itv_zero_extend a (int w) = Some r"
  proof cases
    case 1 then show ?thesis using that [of 64] by simp
  next
    case 2 then show ?thesis using that [of 32] by simp
  next
    case 3 then show ?thesis using that [of 16] by simp
  next
    case 4 then show ?thesis using that [of 8] by simp
  qed
  show ?thesis
    using zero_extend_sound [OF assms(1) w(3,2)] w(1) by (simp add: and_mask_eq_take_bit)
qed

lemma and_ranges_sound:
  assumes "n \<in> itv_gamma a" "m \<in> itv_gamma x" "0 \<le> n" "n < 2 ^ 64" "0 \<le> m" "and_ranges a x = Some r"
  shows "n AND m \<in> itv_gamma r"
proof -
  have le: "0 \<le> n AND m" "n AND m \<le> n" "n AND m \<le> m" using assms by (auto simp: AND_upper1 AND_upper2)
  show ?thesis
  proof (cases "itv_contains x (2 ^ 64 - 1)")
    case True
    then obtain t where t: "itv_zero_extend a 64 = Some t" "r = itv_new (Finite 0) (itv_ub t)"
      using assms(6) by (auto simp: and_ranges_def itv_truncate_to_unsigned_def panic_simps)
    have "n \<in> itv_gamma t"
      using zero_extend_sound [OF assms(1) t(1)] assms by (simp add: take_bit_idem_less)
    then show ?thesis using t(2) le gamma_upper by (simp add: gamma_new)
  next
    case False
    then show ?thesis
      using assms(6) le gamma_upper [OF assms(1)] gamma_upper [OF assms(2)]
      by (auto simp: and_ranges_def gamma_new split: if_splits)
  qed
qed

lemma gamma_equal: "itv_equal a x \<Longrightarrow> n \<in> itv_gamma a \<Longrightarrow> n \<in> itv_gamma x"
  by (auto simp: itv_equal_def itv_gamma_def itv_is_bottom_def split: if_splits)

lemma bitwise_and_sound:
  assumes "n \<in> itv_gamma a" "m \<in> itv_gamma x" "n < 2 ^ 64" "m < 2 ^ 64" "itv_bitwise_and a x = Some r"
  shows "take_bit 64 n AND take_bit 64 m \<in> itv_gamma r"
proof -
  obtain left right where u: "itv_as_unsigned a = Some left" "itv_as_unsigned x = Some right"
    and e: "(if itv_equal left (itv_from_number 0) \<or> itv_equal right (itv_from_number 0)
        then Some (itv_from_number 0)
        else case (itv_singleton right, itv_singleton left) of
          (Some r, Some l) \<Rightarrow> Some (itv_from_number (num_and l r))
        | _ \<Rightarrow> do { m \<leftarrow> and_constant_mask left right;
                    case m of Some r \<Rightarrow> Some r | None \<Rightarrow> and_ranges left right }) = Some r"
    using assms(5) gamma_nonempty [OF assms(1)] gamma_nonempty [OF assms(2)]
    unfolding itv_bitwise_and_def by (auto elim!: bind_SomeE split del: if_split)
  have g: "take_bit 64 n \<in> itv_gamma left" "take_bit 64 m \<in> itv_gamma right"
    using as_unsigned_sound assms u by auto
  show ?thesis
  proof (cases "itv_equal left (itv_from_number 0) \<or> itv_equal right (itv_from_number 0)")
    case True
    then have "take_bit 64 n = 0 \<or> take_bit 64 m = 0"
      using g gamma_equal by (metis gamma_from_number singletonD)
    then show ?thesis using True e by auto
  next
    case False
    then consider l k where "itv_singleton left = Some l" "itv_singleton right = Some k"
        "r = itv_from_number (l AND k)"
      | "and_constant_mask left right = Some (Some r)"
      | "and_ranges left right = Some r"
      using e by (cases "itv_singleton right"; cases "itv_singleton left")
        (auto simp: num_and_def panic_simps split: option.splits)
    then show ?thesis
    proof cases
      case 1
      then show ?thesis using g gamma_singleton by fastforce
    next
      case 2
      show ?thesis by (rule and_constant_mask_sound [OF g 2])
    next
      case 3
      show ?thesis
        by (rule and_ranges_sound [OF g _ _ _ 3]) (use take_bit_range [of 64] in auto)
    qed
  qed
qed

lemma gamma_lb: "n \<in> itv_gamma a \<Longrightarrow> Finite 0 \<le> itv_lb a \<Longrightarrow> 0 \<le> n"
  by (cases "itv_lb a") (auto simp: itv_gamma_def)

lemma bitwise_or_range:
  assumes "n \<in> itv_gamma a" "m \<in> itv_gamma x" "itv_bitwise_or a x = Some r"
    "itv_singleton a = None \<or> itv_singleton x = None"
    and f: "\<And>n m k. 0 \<le> n \<Longrightarrow> n < 2 ^ k \<Longrightarrow> 0 \<le> m \<Longrightarrow> m < 2 ^ k \<Longrightarrow> 0 \<le> f n m \<and> f n m < (2::int) ^ k"
  shows "f n m \<in> itv_gamma r"
proof (cases "Finite 0 \<le> itv_lb a \<and> Finite 0 \<le> itv_lb x")
  case False
  then have "r = itv_top"
    using assms(3,4) gamma_nonempty [OF assms(1)] gamma_nonempty [OF assms(2)]
    by (cases "itv_singleton a"; cases "itv_singleton x") (auto simp: itv_bitwise_or_def)
  then show ?thesis by simp
next
  case True
  then have nm: "0 \<le> n" "0 \<le> m" using assms gamma_lb by auto
  have "j < 2 ^ nat j" if "0 \<le> j" for j :: int
  proof -
    have "int (nat j) < int (2 ^ nat j)" by (simp only: of_nat_less_iff less_exp)
    then show ?thesis using that by simp
  qed
  then have "n + m < 2 ^ nat (n + m)" using nm by auto
  then have "0 \<le> f n m" using f [of n "nat (n + m)" m] nm by linarith
  consider u v k where "itv_ub a = Finite u" "itv_ub x = Finite v" "num_fill_ones (max u v) = Some k"
      "r = itv_new (Finite 0) (Finite k)"
    | "r = itv_new (Finite 0) PlusInfinity"
    using assms(3,4) True gamma_nonempty [OF assms(1)] gamma_nonempty [OF assms(2)]
    by (cases "itv_singleton a"; cases "itv_singleton x"; cases "itv_ub a"; cases "itv_ub x")
      (auto simp: itv_bitwise_or_def panic_simps)
  then show ?thesis
  proof cases
    case 1
    have uv: "n \<le> u" "m \<le> v" using 1 assms(1,2) by (auto simp: itv_gamma_def)
    obtain j where "k = 2 ^ j - 1" "max u v < 2 ^ j"
      using num_fill_ones_Some [of "max u v" k] 1(3) uv nm by (auto simp: le_max_iff_disj)
    then show ?thesis using f [of n j m] nm uv 1 by (auto simp: gamma_new)
  next
    case 2
    then show ?thesis using \<open>0 \<le> f n m\<close> by (simp add: gamma_new)
  qed
qed

lemma bitwise_or_sound:
  assumes "n \<in> itv_gamma a" "m \<in> itv_gamma x" "itv_bitwise_or a x = Some r"
  shows "n OR m \<in> itv_gamma r"
proof (cases "itv_singleton a = None \<or> itv_singleton x = None")
  case True
  show ?thesis
    by (rule bitwise_or_range [OF assms True]) (auto simp: OR_upper)
next
  case False
  then obtain l k where s: "itv_singleton a = Some l" "itv_singleton x = Some k" by auto
  then have "n = l" "m = k" using assms gamma_singleton by blast+
  then show ?thesis
    using assms s gamma_nonempty [OF assms(1)] gamma_nonempty [OF assms(2)]
    by (auto simp: itv_bitwise_or_def num_or_def)
qed

lemma bitwise_xor_sound:
  assumes "n \<in> itv_gamma a" "m \<in> itv_gamma x" "itv_bitwise_xor a x = Some r"
  shows "n XOR m \<in> itv_gamma r"
proof (cases "itv_singleton a = None \<or> itv_singleton x = None")
  case True
  then have "itv_bitwise_or a x = Some r"
    using assms(3) gamma_nonempty [OF assms(1)] gamma_nonempty [OF assms(2)]
    by (auto simp: itv_bitwise_xor_def split: option.splits)
  from bitwise_or_range [OF assms(1,2) this True, of "(XOR)"] show ?thesis
    by (auto simp: XOR_upper)
next
  case False
  then obtain l k where s: "itv_singleton a = Some l" "itv_singleton x = Some k" by auto
  then have "n = l" "m = k" using assms gamma_singleton by blast+
  then show ?thesis
    using assms s gamma_nonempty [OF assms(1)] gamma_nonempty [OF assms(2)]
    by (auto simp: itv_bitwise_xor_def num_xor_def)
qed

subsection \<open>Shifts\<close>

lemma shift_factor_loop_eq:
  "i \<le> k \<Longrightarrow> shift_factor_loop k i f = Some r \<Longrightarrow> r = f * 2 ^ nat (k - i)"
proof (induction k i f rule: shift_factor_loop.induct)
  case (1 k i f)
  show ?case
  proof (cases "k > i")
    case True
    then obtain "shift_factor_loop k (i + 1) (f * 2) = Some r"
      using "1.prems" by (auto simp: shift_factor_loop.simps [of k i f] num_mul_def num_add_def panic_simps)
    moreover have "num_mul f 2 = Some (f * 2)" "num_add i 1 = Some (i + 1)"
      using "1.prems" True
      by (auto simp: shift_factor_loop.simps [of k i f] num_mul_def num_add_def panic_simps)
    ultimately have "r = f * 2 * 2 ^ nat (k - (i + 1))" using "1.IH" True by simp
    moreover have "nat (k - i) = Suc (nat (k - (i + 1)))" using True by simp
    ultimately show ?thesis by (simp del: diff_add_eq_diff_diff_swap)
  next
    case False
    then have "i = k" using "1.prems"(1) by simp
    then show ?thesis using "1.prems" by (simp add: shift_factor_loop.simps [of k k f])
  qed
qed

lemma shift_to_power_of_two_sound:
  assumes "shift_to_power_of_two x = Some (Some f)" "m \<in> itv_gamma x"
  shows "0 \<le> m \<and> f = 2 ^ nat m"
proof -
  obtain k where k: "itv_singleton x = Some k" "\<not> k < 0" "shift_factor_loop k 0 1 = Some f"
    using assms(1) by (auto simp: shift_to_power_of_two_def split: option.splits if_splits)
  then show ?thesis
    using gamma_singleton [OF k(1)] assms(2) shift_factor_loop_eq [of 0 k 1 f] by auto
qed

lemma shl_sound:
  assumes "n \<in> itv_gamma a" "m \<in> itv_gamma x" "itv_shl a x = Some r"
  shows "push_bit (nat m) n \<in> itv_gamma r"
proof -
  obtain p where p: "shift_to_power_of_two x = Some p"
    and r: "(case p of Some factor \<Rightarrow> itv_mul a (itv_from_number factor) | None \<Rightarrow> Some itv_top) = Some r"
    using assms(3) gamma_nonempty [OF assms(1)] gamma_nonempty [OF assms(2)]
    by (auto simp: itv_shl_def elim: bind_SomeE)
  show ?thesis
  proof (cases p)
    case None
    then show ?thesis using r by auto
  next
    case (Some f)
    then have "f = 2 ^ nat m" using shift_to_power_of_two_sound p assms(2) by auto
    then show ?thesis
      using mul_sound [OF assms(1), of f "itv_from_number f" r] r Some by (simp add: push_bit_eq_mult)
  qed
qed

lemma ashr_sound:
  assumes "n \<in> itv_gamma a" "m \<in> itv_gamma x" "itv_ashr a x = Some r"
  shows "n sdiv 2 ^ nat m \<in> itv_gamma r"
proof -
  obtain p where p: "shift_to_power_of_two x = Some p"
    and r: "(case p of Some factor \<Rightarrow> itv_div a (itv_from_number factor) | None \<Rightarrow> Some itv_top) = Some r"
    using assms(3) gamma_nonempty [OF assms(1)] gamma_nonempty [OF assms(2)]
    by (auto simp: itv_ashr_def elim: bind_SomeE)
  show ?thesis
  proof (cases p)
    case None
    then show ?thesis using r by auto
  next
    case (Some f)
    then have "f = 2 ^ nat m" using shift_to_power_of_two_sound p assms(2) by auto
    then show ?thesis
      using div_sound [OF assms(1), of f "itv_from_number f" r] r Some by (simp add: div_at_def)
  qed
qed

lemma lshr_sound:
  assumes "n \<in> itv_gamma a" "m \<in> itv_gamma x" "m < 2 ^ 32" "itv_lshr a x = Some r"
  shows "drop_bit (nat m) n \<in> itv_gamma r"
proof (cases "\<exists>s. itv_singleton x = Some s \<and> 0 < s \<and> itv_lb a \<ge> Finite 0 \<and> ext_is_finite (itv_ub a)")
  case False
  then have "r = itv_top"
    using assms(4) gamma_nonempty [OF assms(1)] gamma_nonempty [OF assms(2)]
    by (auto simp: itv_lshr_def num_is_positive_def split: option.splits)
  then show ?thesis by simp
next
  case True
  then obtain s where s: "itv_singleton x = Some s" "0 < s" "itv_lb a \<ge> Finite 0" "ext_is_finite (itv_ub a)"
    by blast
  have m: "m = s" using gamma_singleton [OF s(1)] assms(2) by auto
  obtain l u where a: "itv_lb a = Finite l" "itv_ub a = Finite u" "l \<le> n" "n \<le> u"
    using s assms(1) by (cases "itv_lb a"; cases "itv_ub a") (auto simp: itv_gamma_def)
  have t: "take_bit 32 m = m" using m s(2) assms(3) by (intro take_bit_idem_less) auto
  have "r = itv_from_number_pair (drop_bit (nat m) l) (drop_bit (nat m) u)"
    using assms(4) gamma_nonempty [OF assms(1)] gamma_nonempty [OF assms(2)] s a m t
    by (auto simp: itv_lshr_def num_is_positive_def itv_pair_number_def num_narrow_to_u64_def
        num_to_u64_def num_shr_def panic_simps Let_def split: if_splits)
  then show ?thesis
    using a by (auto simp: itv_from_number_pair_def gamma_new drop_bit_eq_div intro: zdiv_mono1)
qed


subsection \<open>Widening\<close>

text \<open>The number of bounds that widening can still give up.\<close>

definition itv_rank :: "interval \<Rightarrow> nat" where
  "itv_rank a =
     (if itv_is_bottom a then 3
      else (if ext_is_finite (itv_lb a) then 1 else 0) + (if ext_is_finite (itv_ub a) then 1 else 0))"

definition itv_regular :: "interval \<Rightarrow> bool" where
  "itv_regular a \<longleftrightarrow> itv_lb a \<noteq> PlusInfinity \<and> itv_ub a \<noteq> MinusInfinity"

lemma widen_rank:
  assumes "itv_regular a" "itv_regular x"
  shows "itv_regular (itv_widen a x) \<and>
    (itv_equal (itv_widen a x) a \<or> itv_rank (itv_widen a x) < itv_rank a)"
  using assms
  by (cases "itv_lb a"; cases "itv_ub a"; cases "itv_lb x"; cases "itv_ub x")
    (auto simp: itv_widen_def itv_rank_def itv_is_bottom_def itv_equal_def itv_regular_def Let_def)

lemma widen_extrapolates:
  "\<not> itv_is_bottom a \<Longrightarrow> \<not> itv_is_bottom x \<Longrightarrow>
    itv_lb (itv_widen a x) \<in> {itv_lb a, MinusInfinity} \<and> itv_ub (itv_widen a x) \<in> {itv_ub a, PlusInfinity}"
  by (auto simp: itv_widen_def Let_def)

fun widen_chain :: "(nat \<Rightarrow> interval) \<Rightarrow> nat \<Rightarrow> interval" where
  "widen_chain f 0 = f 0"
| "widen_chain f (Suc i) = itv_widen (widen_chain f i) (f (Suc i))"

lemma widen_chain_rank:
  assumes "\<And>i. itv_regular (f i)"
  shows "itv_regular (widen_chain f n) \<and>
    card {i. i < n \<and> \<not> itv_equal (widen_chain f (Suc i)) (widen_chain f i)} + itv_rank (widen_chain f n) \<le> 3"
proof (induction n)
  case 0
  then show ?case using assms by (simp add: itv_rank_def)
next
  case (Suc n)
  let ?S = "\<lambda>n. {i. i < n \<and> \<not> itv_equal (widen_chain f (Suc i)) (widen_chain f i)}"
  note w = widen_rank [of "widen_chain f n" "f (Suc n)"] Suc assms [of "Suc n"]
  have fin: "finite (?S n)" "n \<notin> ?S n" by auto
  have rk: "itv_equal p q \<Longrightarrow> itv_rank p = itv_rank q" for p q
    by (auto simp: itv_equal_def itv_rank_def itv_is_bottom_def split: if_splits)
  show ?case
  proof (cases "itv_equal (widen_chain f (Suc n)) (widen_chain f n)")
    case True
    then have "?S (Suc n) = ?S n" by (auto simp: less_Suc_eq simp del: widen_chain.simps)
    then show ?thesis using w rk [OF True] by simp
  next
    case False
    then have "?S (Suc n) = insert n (?S n)" by (auto simp: less_Suc_eq simp del: widen_chain.simps)
    then have "card (?S (Suc n)) = Suc (card (?S n))" using fin by (simp del: widen_chain.simps)
    then show ?thesis using w False by simp
  qed
qed

subsection \<open>Absence of panics\<close>

definition itv_within :: "int \<Rightarrow> interval \<Rightarrow> bool" where
  "itv_within M a \<longleftrightarrow> itv_regular a \<and>
     (\<forall>n \<in> {itv_lb a, itv_ub a}. case n of Finite k \<Rightarrow> - M \<le> k \<and> k \<le> M | _ \<Rightarrow> True)"

lemma add_total: "itv_within (2 ^ 125) a \<Longrightarrow> itv_within (2 ^ 125) x \<Longrightarrow> itv_add a x \<noteq> None"
  by (cases "itv_lb a"; cases "itv_ub a"; cases "itv_lb x"; cases "itv_ub x")
    (auto simp: itv_within_def itv_regular_def itv_add_def num_add_def chk_i128_def in_i128_def)

lemma sub_total: "itv_within (2 ^ 125) a \<Longrightarrow> itv_within (2 ^ 125) x \<Longrightarrow> itv_sub a x \<noteq> None"
  by (cases "itv_lb a"; cases "itv_ub a"; cases "itv_lb x"; cases "itv_ub x")
    (auto simp: itv_within_def itv_regular_def itv_sub_def ext_sub_def num_add_def num_neg_def chk_i128_def in_i128_def)

lemma mul_in_i128:
  assumes "\<bar>a::int\<bar> \<le> 2 ^ 63" "\<bar>b\<bar> \<le> 2 ^ 63"
  shows "in_i128 (a * b)"
proof -
  have "\<bar>a * b\<bar> \<le> 2 ^ 63 * 2 ^ 63" unfolding abs_mult using assms by (intro mult_mono) auto
  then show ?thesis by (auto simp: in_i128_def)
qed

lemma ext_mul_total:
  assumes "case x of Finite k \<Rightarrow> \<bar>k\<bar> \<le> 2 ^ 63 | _ \<Rightarrow> True" "case y of Finite k \<Rightarrow> \<bar>k\<bar> \<le> 2 ^ 63 | _ \<Rightarrow> True"
  shows "\<exists>z. ext_mul x y = Some z"
  using assms mul_in_i128 by (cases x; cases y) (auto simp: ext_mul_def num_mul_def chk_i128_ok)

lemma corners_total:
  assumes "\<And>p q. p \<in> {itv_lb a, itv_ub a} \<Longrightarrow> q \<in> {itv_lb x, itv_ub x} \<Longrightarrow> \<exists>z. f p q = Some z"
  shows "\<exists>r. itv_corners f a x = Some r"
proof -
  obtain p1 p2 p3 p4 where "f (itv_lb a) (itv_lb x) = Some p1" "f (itv_lb a) (itv_ub x) = Some p2"
      "f (itv_ub a) (itv_lb x) = Some p3" "f (itv_ub a) (itv_ub x) = Some p4"
    using assms [of "itv_lb a" "itv_lb x"] assms [of "itv_lb a" "itv_ub x"]
      assms [of "itv_ub a" "itv_lb x"] assms [of "itv_ub a" "itv_ub x"] by auto
  then show ?thesis by (simp add: itv_corners_def)
qed

lemma mul_total:
  assumes "itv_within (2 ^ 63) a" "itv_within (2 ^ 63) x"
  shows "itv_mul a x \<noteq> None"
proof -
  have "\<exists>z. ext_mul p q = Some z" if "p \<in> {itv_lb a, itv_ub a}" "q \<in> {itv_lb x, itv_ub x}" for p q
    using that assms
    by (intro ext_mul_total) (auto simp: itv_within_def abs_le_iff split: extended_number.splits)
  from corners_total [OF this] show ?thesis by (auto simp: itv_mul_def)
qed

subsection \<open>The order\<close>

lemma gamma_unbounded:
  assumes "itv_regular a" "\<not> itv_is_bottom a"
  shows "itv_lb a = MinusInfinity \<Longrightarrow> \<exists>n\<in>itv_gamma a. n < k"
    and "itv_ub a = PlusInfinity \<Longrightarrow> \<exists>n\<in>itv_gamma a. k < n"
proof -
  show "\<exists>n\<in>itv_gamma a. n < k" if l: "itv_lb a = MinusInfinity"
  proof (cases "itv_ub a")
    case (Finite u)
    then show ?thesis using l by (intro bexI [of _ "min (k - 1) u"]) (auto simp: itv_gamma_def)
  next
    case PlusInfinity
    then show ?thesis using l by (intro bexI [of _ "k - 1"]) (auto simp: itv_gamma_def)
  qed (use assms in \<open>simp add: itv_regular_def\<close>)
  show "\<exists>n\<in>itv_gamma a. k < n" if u: "itv_ub a = PlusInfinity"
  proof (cases "itv_lb a")
    case (Finite l)
    then show ?thesis using u by (intro bexI [of _ "max (k + 1) l"]) (auto simp: itv_gamma_def)
  next
    case MinusInfinity
    then show ?thesis using u by (intro bexI [of _ "k + 1"]) (auto simp: itv_gamma_def)
  qed (use assms in \<open>simp add: itv_regular_def\<close>)
qed

lemma gamma_lower_bound: "n \<in> itv_gamma x \<Longrightarrow> itv_lb x \<noteq> PlusInfinity \<and> (itv_lb x = Finite q \<longrightarrow> q \<le> n)"
  by (auto simp: itv_gamma_def)

lemma gamma_upper_bound: "n \<in> itv_gamma x \<Longrightarrow> itv_ub x \<noteq> MinusInfinity \<and> (itv_ub x = Finite q \<longrightarrow> n \<le> q)"
  by (auto simp: itv_gamma_def)

lemma included_iff:
  assumes "itv_regular a"
  shows "itv_is_included_in a x \<longleftrightarrow> itv_gamma a \<subseteq> itv_gamma x"
proof
  assume sub: "itv_gamma a \<subseteq> itv_gamma x"
  show "itv_is_included_in a x"
  proof (cases "itv_is_bottom a")
    case True
    then show ?thesis by (simp add: itv_is_included_in_def)
  next
    case nb: False
    have lb: "itv_lb x \<le> itv_lb a"
    proof (cases "itv_lb a")
      case MinusInfinity
      have "itv_lb x = MinusInfinity"
      proof (rule ccontr)
        assume *: "itv_lb x \<noteq> MinusInfinity"
        obtain n where "n \<in> itv_gamma x" "n < (case itv_lb x of Finite q \<Rightarrow> q | _ \<Rightarrow> 0)"
          using gamma_unbounded(1) [OF assms nb MinusInfinity] sub by blast
        then show False using * gamma_lower_bound [of n x] by (cases "itv_lb x") auto
      qed
      then show ?thesis by simp
    next
      case (Finite l)
      then have "l \<in> itv_gamma a" using nb by (auto simp: itv_gamma_def itv_is_bottom_def not_less)
      then show ?thesis using sub Finite by (auto simp: itv_gamma_def)
    qed (use assms in \<open>simp add: itv_regular_def\<close>)
    have ub: "itv_ub a \<le> itv_ub x"
    proof (cases "itv_ub a")
      case PlusInfinity
      have "itv_ub x = PlusInfinity"
      proof (rule ccontr)
        assume *: "itv_ub x \<noteq> PlusInfinity"
        obtain n where "n \<in> itv_gamma x" "(case itv_ub x of Finite q \<Rightarrow> q | _ \<Rightarrow> 0) < n"
          using gamma_unbounded(2) [OF assms nb PlusInfinity] sub by blast
        then show False using * gamma_upper_bound [of n x] by (cases "itv_ub x") auto
      qed
      then show ?thesis by simp
    next
      case (Finite u)
      then have "u \<in> itv_gamma a" using nb by (auto simp: itv_gamma_def itv_is_bottom_def not_less)
      then show ?thesis using sub Finite by (auto simp: itv_gamma_def)
    qed (use assms in \<open>simp add: itv_regular_def\<close>)
    have "itv_lb a \<le> itv_ub a" using nb by (simp add: itv_is_bottom_def not_less)
    then have "\<not> itv_is_bottom x" using lb ub by (auto simp: itv_is_bottom_def not_less)
    then show ?thesis using nb lb ub by (simp add: itv_is_included_in_def)
  qed
qed (rule gamma_included)

lemma join_least:
  "itv_is_included_in a y \<Longrightarrow> itv_is_included_in x y \<Longrightarrow> itv_is_included_in (itv_join a x) y"
  by (auto simp: itv_is_included_in_def itv_join_def itv_new_def itv_is_bottom_def itv_bottom_def)

end
