(* ===== verification/Abstract_Domain.thy ===== *)
theory Abstract_Domain
  imports Prelude
begin

text \<open>
  The interface of the abstract domains of \<open>src/crab/\<close>: what the fixpoint iterator and the
  composite domains rely on when they compare, join, widen and meet abstract values.  Every
  domain of the model interprets it on its own operations; the lemmas proved here are about
  the iteration to a post-fixpoint and hold for all of them.
\<close>

locale abstract_domain =
  fixes gamma :: "'a \<Rightarrow> 'c set"
    and leq :: "'a \<Rightarrow> 'a \<Rightarrow> bool"
    and join :: "'a \<Rightarrow> 'a \<Rightarrow> 'a"
    and widen :: "'a \<Rightarrow> 'a \<Rightarrow> 'a"
  assumes leq_sound: "leq a b \<Longrightarrow> gamma a \<subseteq> gamma b"
    and join_sound: "gamma a \<union> gamma b \<subseteq> gamma (join a b)"
    and widen_sound: "gamma a \<union> gamma b \<subseteq> gamma (widen a b)"
begin

lemma fold_join_sound: "gamma a \<union> (\<Union>b\<in>set bs. gamma b) \<subseteq> gamma (fold join bs a)"
proof (induction bs arbitrary: a)
  case (Cons b bs)
  have "gamma a \<union> gamma b \<subseteq> gamma (join b a)" using join_sound [of b a] by blast
  moreover have "gamma (join b a) \<union> (\<Union>b\<in>set bs. gamma b) \<subseteq> gamma (fold join bs (join b a))"
    by (rule Cons.IH)
  ultimately show ?case by auto
qed simp

lemma fold_widen_sound: "gamma a \<union> (\<Union>b\<in>set bs. gamma b) \<subseteq> gamma (fold (\<lambda>b a. widen a b) bs a)"
proof (induction bs arbitrary: a)
  case (Cons b bs)
  have "gamma (widen a b) \<union> (\<Union>b\<in>set bs. gamma b) \<subseteq> gamma (fold (\<lambda>b a. widen a b) bs (widen a b))"
    by (rule Cons.IH)
  then show ?case using widen_sound [of a b] by auto
qed simp

text \<open>A post-fixpoint of a sound transformer covers everything the concrete step reaches.\<close>

lemma post_fixpoint_sound:
  assumes "S \<subseteq> gamma x" "\<And>c d. c \<in> gamma x \<Longrightarrow> step c d \<Longrightarrow> d \<in> gamma (F x)" "leq (F x) x"
    and "s \<in> S" "step\<^sup>*\<^sup>* s t"
  shows "t \<in> gamma x"
  using assms(5)
proof induction
  case base
  then show ?case using assms(1,4) by blast
next
  case (step t u)
  then show ?case using assms(2,3) leq_sound by blast
qed

end

locale meet_domain = abstract_domain +
  fixes meet :: "'a \<Rightarrow> 'a \<Rightarrow> 'a"
  assumes meet_sound: "gamma a \<inter> gamma b \<subseteq> gamma (meet a b)"
begin

lemma fold_meet_sound: "gamma a \<inter> (\<Inter>b\<in>set bs. gamma b) \<subseteq> gamma (fold meet bs a)"
proof (induction bs arbitrary: a)
  case (Cons b bs)
  have "gamma (meet b a) \<inter> (\<Inter>b\<in>set bs. gamma b) \<subseteq> gamma (fold meet bs (meet b a))"
    by (rule Cons.IH)
  then show ?case using meet_sound [of b a] by auto
qed simp

end

end
