(* ===== verification/Interval_Soundness.thy ===== *)
theory Interval_Soundness
  imports Interval_Bits Abstract_Domain
begin

text \<open>
  The interval domain as an instance of the domain interface, and its correctness properties.
\<close>

interpretation itv: meet_domain itv_gamma itv_is_included_in itv_join itv_widen itv_meet
  by unfold_locales (use gamma_included gamma_join gamma_widen gamma_meet in \<open>blast+\<close>)

text \<open>C14: The linear arithmetic of intervals is sound: whenever addition, subtraction,
  negation and multiplication return, the result contains the concrete value for every choice
  of values in the operands.\<close>

theorem interval_linear_sound:
  assumes "n \<in> itv_gamma a" "m \<in> itv_gamma x"
  shows "(itv_add a x = Some r \<longrightarrow> n + m \<in> itv_gamma r) \<and>
    (itv_sub a x = Some r \<longrightarrow> n - m \<in> itv_gamma r) \<and>
    (itv_negate a = Some r \<longrightarrow> - n \<in> itv_gamma r) \<and>
    (itv_mul a x = Some r \<longrightarrow> n * m \<in> itv_gamma r)"
  using assms add_sound sub_sound negate_sound mul_sound by blast

theorem interval_linear_sound_witness:
  "3 \<in> itv_gamma (itv_new (Finite (- 2)) (Finite 5)) \<and> - 4 \<in> itv_gamma (itv_new MinusInfinity (Finite 1)) \<and>
   3 * - 4 \<in> itv_gamma (itv_new MinusInfinity PlusInfinity)"
proof -
  have 1: "3 \<in> itv_gamma (itv_new (Finite (- 2)) (Finite 5))" by (simp add: gamma_new)
  have 2: "- 4 \<in> itv_gamma (itv_new MinusInfinity (Finite 1))" by (simp add: gamma_new)
  have "itv_mul (itv_new (Finite (- 2)) (Finite 5)) (itv_new MinusInfinity (Finite 1)) =
      Some (itv_new MinusInfinity PlusInfinity)" by code_simp
  with 1 2 interval_linear_sound [OF 1 2] show ?thesis by blast
qed

text \<open>C15: Signed division and remainder are sound on all intervals: the results contain the
  truncated quotient and remainder, with the target's convention that dividing by zero gives
  zero and leaves the dividend.\<close>

theorem interval_signed_division_sound:
  assumes "n \<in> itv_gamma a" "m \<in> itv_gamma x"
  shows "(itv_div a x = Some r \<longrightarrow> (if m = 0 then 0 else n sdiv m) \<in> itv_gamma r) \<and>
    (itv_sdiv a x = Some r \<longrightarrow> (if m = 0 then 0 else n sdiv m) \<in> itv_gamma r) \<and>
    (itv_srem a x = Some r \<longrightarrow> (if m = 0 then n else n smod m) \<in> itv_gamma r)"
  using div_sound [OF assms] sdiv_sound [OF assms] srem_sound [OF assms] by (auto simp: div_at_def)

theorem interval_signed_division_sound_witness:
  "- 7 \<in> itv_gamma (itv_new (Finite (- 9)) (Finite 5)) \<and> 2 \<in> itv_gamma (itv_new (Finite (- 1)) (Finite 3)) \<and>
   - 7 sdiv 2 \<in> itv_gamma (itv_new (Finite (- 9)) (Finite 9))"
proof -
  have 1: "- 7 \<in> itv_gamma (itv_new (Finite (- 9)) (Finite 5))" by (simp add: gamma_new)
  have 2: "2 \<in> itv_gamma (itv_new (Finite (- 1)) (Finite 3))" by (simp add: gamma_new)
  have "itv_sdiv (itv_new (Finite (- 9)) (Finite 5)) (itv_new (Finite (- 1)) (Finite 3)) =
      Some (itv_new (Finite (- 9)) (Finite 9))" by code_simp
  with 1 2 interval_signed_division_sound [OF 1 2] show ?thesis by auto
qed

text \<open>C18: Unsigned division and remainder are sound on intervals of unsigned 64-bit values
  (HOL division by zero gives zero and its remainder the dividend, as the target does).\<close>

theorem interval_unsigned_division_sound:
  assumes "n \<in> itv_gamma a" "m \<in> itv_gamma x" "itv_u64 a" "itv_u64 x"
  shows "(itv_udiv a x = Some r \<longrightarrow> n div m \<in> itv_gamma r) \<and>
    (itv_urem a x = Some r \<longrightarrow> n mod m \<in> itv_gamma r)"
  using udiv_sound [OF assms] urem_sound [OF assms] by blast

theorem interval_unsigned_division_sound_witness:
  "itv_u64 (itv_new (Finite 0) (Finite 100)) \<and> itv_u64 (itv_new (Finite 0) (Finite 7)) \<and>
   50 mod 7 \<in> itv_gamma (itv_new (Finite 0) (Finite 100))"
proof -
  have 1: "50 \<in> itv_gamma (itv_new (Finite 0) (Finite 100))" by (simp add: gamma_new)
  have 2: "7 \<in> itv_gamma (itv_new (Finite 0) (Finite 7))" by (simp add: gamma_new)
  have 3: "itv_u64 (itv_new (Finite 0) (Finite 100))" "itv_u64 (itv_new (Finite 0) (Finite 7))"
    by (simp_all add: itv_u64_def itv_new_def)
  have "itv_urem (itv_new (Finite 0) (Finite 100)) (itv_new (Finite 0) (Finite 7)) =
      Some (itv_new (Finite 0) (Finite 100))" by code_simp
  with 3 interval_unsigned_division_sound [OF 1 2 3] show ?thesis by blast
qed

text \<open>By a divisor without an upper bound the remainder loses the largest dividend: 6 modulo 7 is 6.\<close>

lemma urem_unbounded_divisor:
  "itv_urem (itv_new (Finite 5) (Finite 6)) (itv_new (Finite 2) PlusInfinity) = Some (itv_new (Finite 0) (Finite 5))"
  by code_simp

text \<open>C16: The bitwise operations are sound. For operands below 2^64 (a negative one is read modulo
  2^64), the result of AND contains the AND of the two unsigned 64-bit values; the results of OR and
  XOR contain the OR and the XOR of the operands as two's complement integers, whatever their size.\<close>

theorem interval_bitwise_sound:
  assumes "n \<in> itv_gamma a" "m \<in> itv_gamma x"
  shows "(n < 2 ^ 64 \<longrightarrow> m < 2 ^ 64 \<longrightarrow> itv_bitwise_and a x = Some r \<longrightarrow>
      take_bit 64 n AND take_bit 64 m \<in> itv_gamma r) \<and>
    (itv_bitwise_or a x = Some r \<longrightarrow> n OR m \<in> itv_gamma r) \<and>
    (itv_bitwise_xor a x = Some r \<longrightarrow> n XOR m \<in> itv_gamma r)"
  using assms bitwise_and_sound bitwise_or_sound bitwise_xor_sound by blast

theorem interval_bitwise_sound_witness:
  "\<exists>r1 r2 r3. itv_bitwise_and (itv_new (Finite (- 1)) (Finite 6)) (itv_new (Finite 0) (Finite 9)) = Some r1 \<and>
     take_bit 64 (- 1) AND take_bit 64 8 \<in> itv_gamma r1 \<and>
   itv_bitwise_or (itv_new (Finite 1) (Finite 6)) (itv_new (Finite 0) (Finite 9)) = Some r2 \<and> 5 OR 8 \<in> itv_gamma r2 \<and>
   itv_bitwise_xor (itv_new (Finite 1) (Finite 6)) (itv_new (Finite 0) (Finite 9)) = Some r3 \<and> 5 XOR 8 \<in> itv_gamma r3"
proof -
  have 0: "- 1 \<in> itv_gamma (itv_new (Finite (- 1)) (Finite 6))" by (simp add: gamma_new)
  have 1: "5 \<in> itv_gamma (itv_new (Finite 1) (Finite 6))" by (simp add: gamma_new)
  have 2: "8 \<in> itv_gamma (itv_new (Finite 0) (Finite 9))" by (simp add: gamma_new)
  have "\<not> Option.is_none (itv_bitwise_and (itv_new (Finite (- 1)) (Finite 6)) (itv_new (Finite 0) (Finite 9)))"
    "\<not> Option.is_none (itv_bitwise_or (itv_new (Finite 1) (Finite 6)) (itv_new (Finite 0) (Finite 9)))"
    "\<not> Option.is_none (itv_bitwise_xor (itv_new (Finite 1) (Finite 6)) (itv_new (Finite 0) (Finite 9)))"
    by code_simp+
  moreover have "(- 1 :: int) < 2 ^ 64" "(8 :: int) < 2 ^ 64" by simp_all
  ultimately show ?thesis
    using interval_bitwise_sound [OF 0 2] interval_bitwise_sound [OF 1 2]
    unfolding Option.is_none_def not_None_eq by blast
qed

lemma sdiv_power_drop_bit:
  "n sdiv 2 ^ k = drop_bit k n + (if 0 \<le> n \<or> 2 ^ k dvd n then 0 else 1)" for n :: int
proof -
  have p: "(2 :: int) ^ k > 0" by simp
  show ?thesis
  proof (cases "0 \<le> n")
    case True
    then show ?thesis by (simp add: signed_divide_int_def drop_bit_eq_div sgn_if abs_if)
  next
    case False
    then have "n sdiv 2 ^ k = - (- n div 2 ^ k)" using p
      by (simp add: signed_divide_int_def sgn_if abs_if)
    then show ?thesis using False by (simp add: drop_bit_eq_div zdiv_zminus1_eq_if dvd_eq_mod_eq_0)
  qed
qed

text \<open>C17: The shifts and the extensions are sound. Shift left multiplies by the power of two. The
  logical shift right, for a shift amount below 2^32, drops bits. The arithmetic shift right contains
  the quotient by the power of two truncated towards zero; this is the shifted value, rounded down,
  for a value that is not negative or that the power of two divides, and one more than it for the
  other negative values. Sign and zero extension give the truncated two's complement value at every
  width up to 64.\<close>

theorem interval_shift_extend_sound:
  assumes "n \<in> itv_gamma a" "m \<in> itv_gamma x"
  shows "(itv_shl a x = Some r \<longrightarrow> push_bit (nat m) n \<in> itv_gamma r) \<and>
    (m < 2 ^ 32 \<longrightarrow> itv_lshr a x = Some r \<longrightarrow> drop_bit (nat m) n \<in> itv_gamma r) \<and>
    (itv_ashr a x = Some r \<longrightarrow> n sdiv 2 ^ nat m \<in> itv_gamma r \<and>
      n sdiv 2 ^ nat m = drop_bit (nat m) n + (if 0 \<le> n \<or> 2 ^ nat m dvd n then 0 else 1)) \<and>
    (w \<le> 64 \<longrightarrow> itv_sign_extend a w = Some r \<longrightarrow> signed_take_bit (nat w - 1) n \<in> itv_gamma r) \<and>
    (w \<le> 64 \<longrightarrow> itv_zero_extend a w = Some r \<longrightarrow> take_bit (nat w) n \<in> itv_gamma r)"
  using shl_sound [OF assms] lshr_sound [OF assms] ashr_sound [OF assms] sdiv_power_drop_bit [of n "nat m"]
    sign_extend_sound [OF assms(1)] zero_extend_sound [OF assms(1)] by simp

theorem interval_shift_extend_sound_witness:
  "\<exists>r1 r2 r3 r4. itv_shl (itv_new (Finite 1) (Finite 6)) (itv_from_number 2) = Some r1 \<and> push_bit 2 5 \<in> itv_gamma r1 \<and>
   itv_lshr (itv_new (Finite 1) (Finite 6)) (itv_from_number 2) = Some r2 \<and> drop_bit 2 5 \<in> itv_gamma r2 \<and>
   itv_ashr (itv_new (Finite 1) (Finite 6)) (itv_from_number 2) = Some r3 \<and> 5 sdiv 4 \<in> itv_gamma r3 \<and>
   itv_sign_extend (itv_new (Finite 1) (Finite 6)) 8 = Some r4 \<and> signed_take_bit 7 5 \<in> itv_gamma r4"
proof -
  have 1: "5 \<in> itv_gamma (itv_new (Finite 1) (Finite 6))" by (simp add: gamma_new)
  have 2: "2 \<in> itv_gamma (itv_from_number 2)" by simp
  have n: "nat 2 = 2" "nat 8 - 1 = 7" "(2::int) ^ 2 = 4" "(2::int) < 2 ^ 32" "(8::int) \<le> 64" by simp_all
  have "\<not> Option.is_none (itv_shl (itv_new (Finite 1) (Finite 6)) (itv_from_number 2))"
    "\<not> Option.is_none (itv_lshr (itv_new (Finite 1) (Finite 6)) (itv_from_number 2))"
    "\<not> Option.is_none (itv_ashr (itv_new (Finite 1) (Finite 6)) (itv_from_number 2))"
    "\<not> Option.is_none (itv_sign_extend (itv_new (Finite 1) (Finite 6)) 8)"
    by code_simp+
  then show ?thesis
    using interval_shift_extend_sound [OF 1 2, where w = 8, unfolded n(1-3)] n(4,5)
    unfolding Option.is_none_def not_None_eq by blast
qed

text \<open>C21: For a regular interval on the left (its lower bound is not plus infinity and its upper
  bound is not minus infinity), the order of the interval
  domain decides inclusion, meet is the intersection, join is the least interval that covers both,
  and widening and narrowing are sound.\<close>

theorem interval_lattice:
  assumes "itv_regular a"
  shows "(itv_is_included_in a x \<longleftrightarrow> itv_gamma a \<subseteq> itv_gamma x) \<and>
    itv_gamma (itv_meet a x) = itv_gamma a \<inter> itv_gamma x \<and>
    itv_gamma a \<union> itv_gamma x \<subseteq> itv_gamma (itv_join a x) \<and>
    (itv_is_included_in a y \<longrightarrow> itv_is_included_in x y \<longrightarrow> itv_is_included_in (itv_join a x) y) \<and>
    itv_gamma a \<union> itv_gamma x \<subseteq> itv_gamma (itv_widen a x) \<and>
    itv_gamma a \<inter> itv_gamma x \<subseteq> itv_gamma (itv_narrow a x)"
  by (intro conjI impI included_iff [OF assms] gamma_meet itv.join_sound itv.widen_sound
      gamma_narrow join_least)

theorem interval_lattice_witness:
  "itv_regular (itv_new (Finite 1) PlusInfinity) \<and>
   \<not> itv_gamma (itv_new (Finite 1) PlusInfinity) \<subseteq> itv_gamma (itv_new (Finite 1) (Finite 9))"
proof -
  have r: "itv_regular (itv_new (Finite 1) PlusInfinity)" by (simp add: itv_regular_def itv_new_def)
  have "\<not> itv_is_included_in (itv_new (Finite 1) PlusInfinity) (itv_new (Finite 1) (Finite 9))"
    by code_simp
  with r interval_lattice [OF r] show ?thesis by blast
qed

text \<open>C22: Widening terminates: along any sequence of regular intervals the widened value
  changes at most three times, whatever the sequence.\<close>

theorem interval_widening_stabilises:
  assumes "\<And>i. itv_regular (f i)"
  shows "card {i. i < n \<and> \<not> itv_equal (widen_chain f (Suc i)) (widen_chain f i)} \<le> 3"
  using widen_chain_rank [of f n] assms by simp

theorem interval_widening_stabilises_witness:
  "card {i. i < 100 \<and> \<not> itv_equal (widen_chain (\<lambda>i. itv_new (Finite 0) (Finite (int i))) (Suc i))
     (widen_chain (\<lambda>i. itv_new (Finite 0) (Finite (int i))) i)} \<le> 3"
proof -
  have r: "itv_regular (itv_new (Finite 0) (Finite (int i)))" for i
    by (simp add: itv_regular_def itv_new_def itv_bottom_def)
  with interval_widening_stabilises [of "\<lambda>i. itv_new (Finite 0) (Finite (int i))" 100] show ?thesis
    by blast
qed

lemma unsigned_product_overflows:
  "itv_mul (itv_new (Finite 0) (Finite (2 ^ 64 - 1))) (itv_new (Finite 0) (Finite (2 ^ 64 - 1))) = None"
  by code_simp


text \<open>C23: Addition, subtraction and multiplication of regular intervals whose finite bounds are
  between -2^63 and 2^63 never panic: neither the checked 128-bit arithmetic overflows nor a sum of
  opposite infinities is reached. Products of unsigned 64-bit bounds are outside this range, and
  they can overflow.\<close>

theorem interval_arith_no_panic:
  assumes "itv_within (2 ^ 63) a" "itv_within (2 ^ 63) x"
  shows "itv_add a x \<noteq> None \<and> itv_sub a x \<noteq> None \<and> itv_mul a x \<noteq> None"
proof -
  have "itv_within (2 ^ 125) a" "itv_within (2 ^ 125) x"
    using assms by (auto simp: itv_within_def split: extended_number.splits)
  then show ?thesis using add_total sub_total mul_total assms by blast
qed

theorem interval_arith_no_panic_witness:
  "itv_within (2 ^ 63) (itv_new (Finite (- (2 ^ 63))) PlusInfinity) \<and>
   itv_mul (itv_new (Finite (- (2 ^ 63))) PlusInfinity) (itv_new (Finite (- (2 ^ 63))) PlusInfinity) \<noteq> None"
proof -
  have w: "itv_within (2 ^ 63) (itv_new (Finite (- (2 ^ 63))) PlusInfinity)"
    by (simp add: itv_within_def itv_regular_def itv_new_def)
  from interval_arith_no_panic [OF w w] w show ?thesis by blast
qed

end
