(* ===== verification/Linear.thy ===== *)
theory Linear
  imports Number Btree
begin

text \<open>
  \<open>src/arith/variable.rs\<close>, \<open>src/arith/linear_expression.rs\<close> and
  \<open>src/arith/linear_constraint.rs\<close>: linear expressions over typed variables with checked
  coefficients, and constraints \<open>expression <kind> 0\<close>.
\<close>

subsection \<open>Expressions\<close>

text \<open>A \<open>Variable\<close> is its identifier; equality and order are those of the identifier.\<close>

type_synonym variable = nat

record linear_expression =
  constant_term :: number
  variable_terms :: "(variable, number) btree"

definition coefficient_of :: "linear_expression \<Rightarrow> variable \<Rightarrow> number" where
  "coefficient_of e v = (case map_of (variable_terms e) v of Some c \<Rightarrow> c | None \<Rightarrow> 0)"

definition lin_is_constant :: "linear_expression \<Rightarrow> bool" where
  "lin_is_constant e \<longleftrightarrow> variable_terms e = []"

fun scale_terms :: "number \<Rightarrow> (variable \<times> number) list \<Rightarrow> (variable \<times> number) list option" where
  "scale_terms k [] = Some []"
| "scale_terms k ((v, c) # ts) =
     do { c' \<leftarrow> num_mul c k; ts' \<leftarrow> scale_terms k ts; Some ((v, c') # ts') }"

definition lin_multiply :: "linear_expression \<Rightarrow> number \<Rightarrow> linear_expression option" where
  "lin_multiply e k =
     do { ts \<leftarrow> scale_terms k (variable_terms e);
          c \<leftarrow> num_mul (constant_term e) k;
          Some \<lparr>constant_term = c, variable_terms = ts\<rparr> }"

definition lin_plus_constant :: "linear_expression \<Rightarrow> number \<Rightarrow> linear_expression option" where
  "lin_plus_constant e k =
     do { c \<leftarrow> num_add (constant_term e) k;
          Some \<lparr>constant_term = c, variable_terms = variable_terms e\<rparr> }"

definition store_coefficient :: "variable \<Rightarrow> number \<Rightarrow> (variable, number) btree \<Rightarrow> (variable, number) btree" where
  "store_coefficient v c ts = (if num_is_zero c then bt_remove v ts else bt_insert v c ts)"

text \<open>The loop of \<open>plus\<close> and \<open>subtract\<close>: the coefficients are read from the unchanged \<open>self\<close>.\<close>

fun combine_terms ::
  "(number \<Rightarrow> number \<Rightarrow> number option) \<Rightarrow> linear_expression \<Rightarrow> (variable \<times> number) list \<Rightarrow>
    (variable, number) btree \<Rightarrow> (variable, number) btree option" where
  "combine_terms f e [] acc = Some acc"
| "combine_terms f e ((v, c) # ts) acc =
     do { c' \<leftarrow> f (coefficient_of e v) c;
          combine_terms f e ts (store_coefficient v c' acc) }"

definition lin_plus :: "linear_expression \<Rightarrow> linear_expression \<Rightarrow> linear_expression option" where
  "lin_plus e e' =
     do { ts \<leftarrow> combine_terms num_add e (variable_terms e') (variable_terms e);
          c \<leftarrow> num_add (constant_term e) (constant_term e');
          Some \<lparr>constant_term = c, variable_terms = ts\<rparr> }"

definition lin_negate :: "linear_expression \<Rightarrow> linear_expression option" where
  "lin_negate e = lin_multiply e (- 1)"

definition lin_subtract_constant :: "linear_expression \<Rightarrow> number \<Rightarrow> linear_expression option" where
  "lin_subtract_constant e k =
     do { c \<leftarrow> num_sub (constant_term e) k;
          Some \<lparr>constant_term = c, variable_terms = variable_terms e\<rparr> }"

definition lin_subtract_variable :: "linear_expression \<Rightarrow> variable \<Rightarrow> linear_expression option" where
  "lin_subtract_variable e v =
     do { c \<leftarrow> num_sub (coefficient_of e v) 1;
          Some \<lparr>constant_term = constant_term e,
                variable_terms = store_coefficient v c (variable_terms e)\<rparr> }"

definition lin_subtract :: "linear_expression \<Rightarrow> linear_expression \<Rightarrow> linear_expression option" where
  "lin_subtract e e' =
     do { ts \<leftarrow> combine_terms num_sub e (variable_terms e') (variable_terms e);
          c \<leftarrow> num_sub (constant_term e) (constant_term e');
          Some \<lparr>constant_term = c, variable_terms = ts\<rparr> }"

definition lin_from_number :: "number \<Rightarrow> linear_expression" where
  "lin_from_number n = \<lparr>constant_term = n, variable_terms = []\<rparr>"

definition lin_from_variable :: "variable \<Rightarrow> linear_expression" where
  "lin_from_variable v = \<lparr>constant_term = 0, variable_terms = bt_insert v 1 []\<rparr>"

definition lin_term :: "number \<Rightarrow> variable \<Rightarrow> linear_expression" where
  "lin_term c v =
     \<lparr>constant_term = 0, variable_terms = (if \<not> num_is_zero c then bt_insert v c [] else [])\<rparr>"

subsection \<open>Constraints\<close>

datatype constraint_kind = EqualsZero | LessThanOrEqualsZero | LessThanZero | NotZero

record linear_constraint =
  lc_expression :: linear_expression
  lc_kind :: constraint_kind

definition lc_new :: "linear_expression \<Rightarrow> constraint_kind \<Rightarrow> linear_constraint" where
  "lc_new e k = \<lparr>lc_expression = e, lc_kind = k\<rparr>"

definition lc_true_const :: linear_constraint where
  "lc_true_const = lc_new (lin_from_number 0) EqualsZero"

definition lc_false_const :: linear_constraint where
  "lc_false_const = lc_new (lin_from_number 0) NotZero"

definition lc_is_tautology :: "linear_constraint \<Rightarrow> bool" where
  "lc_is_tautology c =
     (if \<not> lin_is_constant (lc_expression c) then False
      else let k = constant_term (lc_expression c)
        in case lc_kind c of
            EqualsZero \<Rightarrow> num_is_zero k
          | LessThanOrEqualsZero \<Rightarrow> \<not> num_is_positive k
          | LessThanZero \<Rightarrow> num_is_negative k
          | NotZero \<Rightarrow> \<not> num_is_zero k)"

definition lc_is_contradiction :: "linear_constraint \<Rightarrow> bool" where
  "lc_is_contradiction c =
     (if \<not> lin_is_constant (lc_expression c) then False else \<not> lc_is_tautology c)"

definition lc_negate :: "linear_constraint \<Rightarrow> linear_constraint option" where
  "lc_negate c =
     (case lc_kind c of
        NotZero \<Rightarrow> Some (lc_new (lc_expression c) EqualsZero)
      | EqualsZero \<Rightarrow> Some (lc_new (lc_expression c) NotZero)
      | LessThanZero \<Rightarrow>
          do { e \<leftarrow> lin_negate (lc_expression c); Some (lc_new e LessThanOrEqualsZero) }
      | LessThanOrEqualsZero \<Rightarrow>
          do { e \<leftarrow> lin_negate (lc_expression c); Some (lc_new e LessThanZero) })"

definition lc_leq :: "linear_expression \<Rightarrow> linear_expression \<Rightarrow> linear_constraint option" where
  "lc_leq e1 e2 = do { d \<leftarrow> lin_subtract e1 e2; Some (lc_new d LessThanOrEqualsZero) }"

definition lc_lt :: "linear_expression \<Rightarrow> linear_expression \<Rightarrow> linear_constraint option" where
  "lc_lt e1 e2 = do { d \<leftarrow> lin_subtract e1 e2; Some (lc_new d LessThanZero) }"

definition lc_geq :: "linear_expression \<Rightarrow> linear_expression \<Rightarrow> linear_constraint option" where
  "lc_geq e1 e2 = lc_leq e2 e1"

definition lc_gt :: "linear_expression \<Rightarrow> linear_expression \<Rightarrow> linear_constraint option" where
  "lc_gt e1 e2 = lc_lt e2 e1"

definition lc_eq :: "variable \<Rightarrow> variable \<Rightarrow> linear_constraint option" where
  "lc_eq a b =
     do { d \<leftarrow> lin_subtract (lin_from_variable a) (lin_from_variable b); Some (lc_new d EqualsZero) }"

definition lc_neq :: "variable \<Rightarrow> variable \<Rightarrow> linear_constraint option" where
  "lc_neq a b =
     do { d \<leftarrow> lin_subtract (lin_from_variable a) (lin_from_variable b); Some (lc_new d NotZero) }"

definition lc_expr_eq :: "linear_expression \<Rightarrow> linear_expression \<Rightarrow> linear_constraint option" where
  "lc_expr_eq e1 e2 = do { d \<leftarrow> lin_subtract e1 e2; Some (lc_new d EqualsZero) }"

definition lc_expr_neq :: "linear_expression \<Rightarrow> linear_expression \<Rightarrow> linear_constraint option" where
  "lc_expr_neq e1 e2 = do { d \<leftarrow> lin_subtract e1 e2; Some (lc_new d NotZero) }"

subsection \<open>What expressions and constraints mean\<close>

definition eval_terms :: "(variable \<Rightarrow> int) \<Rightarrow> (variable \<times> number) list \<Rightarrow> int" where
  "eval_terms s ts = (\<Sum>(v, c)\<leftarrow>ts. c * s v)"

definition lin_eval :: "(variable \<Rightarrow> int) \<Rightarrow> linear_expression \<Rightarrow> int" where
  "lin_eval s e = constant_term e + eval_terms s (variable_terms e)"

definition lin_wf :: "linear_expression \<Rightarrow> bool" where
  "lin_wf e \<longleftrightarrow> bt_ok (variable_terms e)"

definition lin_no_zero :: "linear_expression \<Rightarrow> bool" where
  "lin_no_zero e \<longleftrightarrow> (\<forall>p\<in>set (variable_terms e). snd p \<noteq> 0)"

fun zero_holds :: "constraint_kind \<Rightarrow> int \<Rightarrow> bool" where
  "zero_holds EqualsZero k \<longleftrightarrow> k = 0"
| "zero_holds LessThanOrEqualsZero k \<longleftrightarrow> k \<le> 0"
| "zero_holds LessThanZero k \<longleftrightarrow> k < 0"
| "zero_holds NotZero k \<longleftrightarrow> k \<noteq> 0"

definition lc_holds :: "(variable \<Rightarrow> int) \<Rightarrow> linear_constraint \<Rightarrow> bool" where
  "lc_holds s c \<longleftrightarrow> zero_holds (lc_kind c) (lin_eval s (lc_expression c))"

definition terms_coeff :: "(variable, number) btree \<Rightarrow> variable \<Rightarrow> number" where
  "terms_coeff ts v = (case map_of ts v of Some c \<Rightarrow> c | None \<Rightarrow> 0)"

lemma eval_terms_simps [simp]:
  "eval_terms s [] = 0" "eval_terms s ((v, c) # ts) = c * s v + eval_terms s ts"
  by (simp_all add: eval_terms_def)

lemma terms_coeff_absent: "v \<notin> fst ` set ts \<Longrightarrow> terms_coeff ts v = 0"
  by (auto simp: terms_coeff_def map_of_eq_None_iff [symmetric])

lemma remove_absent: "v \<notin> fst ` set ts \<Longrightarrow> bt_remove v ts = ts"
  by (auto simp: bt_remove_def intro!: filter_True)

lemma eval_remove:
  "bt_ok ts \<Longrightarrow> eval_terms s (bt_remove v ts) = eval_terms s ts - terms_coeff ts v * s v"
proof (induction ts)
  case (Cons p ts)
  obtain u c where p: "p = (u, c)" by (cases p)
  have u: "u \<notin> fst ` set ts" using Cons.prems bt_notin [of p ts] p by simp
  show ?case
  proof (cases "u = v")
    case True
    then show ?thesis using u p remove_absent [of v ts] by (simp add: bt_remove_def terms_coeff_def)
  next
    case False
    then have "terms_coeff (p # ts) v = terms_coeff ts v" using p by (simp add: terms_coeff_def)
    then show ?thesis using Cons p False by (simp add: bt_remove_def)
  qed
qed (simp add: bt_remove_def terms_coeff_def)

lemma eval_insert:
  "bt_ok ts \<Longrightarrow> eval_terms s (bt_insert v c ts) = eval_terms s ts + (c - terms_coeff ts v) * s v"
proof (induction v c ts rule: bt_insert.induct)
  case (2 v c u d ts)
  have "v < u \<Longrightarrow> v \<notin> fst ` set ((u, d) # ts)" using "2.prems" by fastforce
  then have "v < u \<Longrightarrow> terms_coeff ((u, d) # ts) v = 0" by (rule terms_coeff_absent)
  moreover have "u < v \<Longrightarrow> terms_coeff ((u, d) # ts) v = terms_coeff ts v"
    by (simp add: terms_coeff_def)
  moreover have "terms_coeff ((v, d) # ts) v = d" by (simp add: terms_coeff_def)
  ultimately show ?case using 2 by (auto simp: algebra_simps)
qed (simp add: terms_coeff_def)

lemma eval_store:
  "bt_ok ts \<Longrightarrow> eval_terms s (store_coefficient v c ts) = eval_terms s ts + (c - terms_coeff ts v) * s v"
  by (simp add: store_coefficient_def num_is_zero_def eval_remove eval_insert)

lemma store_ok [simp]: "bt_ok ts \<Longrightarrow> bt_ok (store_coefficient v c ts)"
  by (simp add: store_coefficient_def)

lemma terms_coeff_store:
  "bt_ok ts \<Longrightarrow> terms_coeff (store_coefficient v c ts) u = (if u = v then c else terms_coeff ts u)"
  by (simp add: store_coefficient_def terms_coeff_def num_is_zero_def)

lemma store_no_zero:
  "\<forall>p\<in>set ts. snd p \<noteq> 0 \<Longrightarrow> \<forall>p\<in>set (store_coefficient v c ts). snd p \<noteq> 0"
  using set_bt_insert [of v c ts]
  by (auto simp: store_coefficient_def num_is_zero_def bt_remove_def)

lemma combine_terms_eval:
  assumes "combine_terms f e ts acc = Some r" "bt_ok acc" "distinct (map fst ts)"
    and "\<And>v. v \<in> fst ` set ts \<Longrightarrow> terms_coeff acc v = coefficient_of e v"
    and "\<And>a b d. f a b = Some d \<Longrightarrow> d = a + g * b"
  shows "bt_ok r \<and> eval_terms s r = eval_terms s acc + g * eval_terms s ts \<and>
    ((\<forall>p\<in>set acc. snd p \<noteq> 0) \<longrightarrow> (\<forall>p\<in>set r. snd p \<noteq> 0))"
  using assms
proof (induction f e ts acc rule: combine_terms.induct)
  case (2 f' e v c ts acc)
  from "2.prems" obtain d where d: "f' (coefficient_of e v) c = Some d"
      "combine_terms f' e ts (store_coefficient v d acc) = Some r" by (auto elim: bind_SomeE)
  have IH: "bt_ok r \<and> eval_terms s r = eval_terms s (store_coefficient v d acc) + g * eval_terms s ts \<and>
      ((\<forall>p\<in>set (store_coefficient v d acc). snd p \<noteq> 0) \<longrightarrow> (\<forall>p\<in>set r. snd p \<noteq> 0))"
    using "2.prems" d by (intro "2.IH") (auto simp: terms_coeff_store)
  have "d = coefficient_of e v + g * c" using "2.prems"(5) d(1) by blast
  then show ?case
    using IH "2.prems" store_no_zero [of acc v d] by (simp add: eval_store algebra_simps)
qed simp

lemma lin_coeff: "coefficient_of e = terms_coeff (variable_terms e)"
  by (simp add: fun_eq_iff coefficient_of_def terms_coeff_def)

lemma combine_eval:
  assumes "combine_terms f e (variable_terms e') (variable_terms e) = Some ts" "lin_wf e" "lin_wf e'"
    "\<And>a b d. f a b = Some d \<Longrightarrow> d = a + g * b"
  shows "bt_ok ts \<and>
    eval_terms s ts = eval_terms s (variable_terms e) + g * eval_terms s (variable_terms e') \<and>
    (lin_no_zero e \<longrightarrow> (\<forall>p\<in>set ts. snd p \<noteq> 0))"
  using combine_terms_eval [OF assms(1), of g s] assms
  by (simp add: lin_wf_def bt_ok_distinct lin_no_zero_def lin_coeff)

lemma lin_plus_eval:
  assumes "lin_plus e e' = Some r" "lin_wf e" "lin_wf e'"
  shows "lin_wf r \<and> lin_eval s r = lin_eval s e + lin_eval s e' \<and> (lin_no_zero e \<longrightarrow> lin_no_zero r)"
proof -
  obtain ts where t: "combine_terms num_add e (variable_terms e') (variable_terms e) = Some ts"
      "r = \<lparr>constant_term = constant_term e + constant_term e', variable_terms = ts\<rparr>"
    using assms(1) by (auto simp: lin_plus_def num_add_def panic_simps)
  from combine_eval [OF t(1) assms(2,3), of 1 s] t(2) show ?thesis
    by (auto simp: lin_wf_def lin_eval_def lin_no_zero_def num_add_def panic_simps)
qed

lemma lin_subtract_eval:
  assumes "lin_subtract e e' = Some r" "lin_wf e" "lin_wf e'"
  shows "lin_wf r \<and> lin_eval s r = lin_eval s e - lin_eval s e' \<and> (lin_no_zero e \<longrightarrow> lin_no_zero r)"
proof -
  obtain ts where t: "combine_terms num_sub e (variable_terms e') (variable_terms e) = Some ts"
      "r = \<lparr>constant_term = constant_term e - constant_term e', variable_terms = ts\<rparr>"
    using assms(1) by (auto simp: lin_subtract_def num_sub_def panic_simps)
  from combine_eval [OF t(1) assms(2,3), of "- 1" s] t(2) show ?thesis
    by (auto simp: lin_wf_def lin_eval_def lin_no_zero_def num_sub_def panic_simps)
qed

lemma scale_terms_eval:
  assumes "scale_terms k ts = Some ts'"
  shows "map fst ts' = map fst ts" "eval_terms s ts' = k * eval_terms s ts"
    "k \<noteq> 0 \<Longrightarrow> \<forall>p\<in>set ts. snd p \<noteq> 0 \<Longrightarrow> \<forall>p\<in>set ts'. snd p \<noteq> 0"
proof -
  have *: "map fst ts' = map fst ts \<and> eval_terms s ts' = k * eval_terms s ts \<and>
      map snd ts' = map ((*) k) (map snd ts)"
    using assms
    by (induction k ts arbitrary: ts' rule: scale_terms.induct)
      (auto simp: num_mul_def panic_simps algebra_simps)
  then show "map fst ts' = map fst ts" "eval_terms s ts' = k * eval_terms s ts" by auto
  have "set (map snd ts') = (*) k ` set (map snd ts)" using * by (metis set_map)
  then have im: "snd ` set ts' = (*) k ` snd ` set ts" by simp
  show "\<forall>p\<in>set ts'. snd p \<noteq> 0" if k: "k \<noteq> 0" and z: "\<forall>p\<in>set ts. snd p \<noteq> 0"
  proof
    fix p assume "p \<in> set ts'"
    then have "snd p \<in> (*) k ` snd ` set ts" using im by blast
    then show "snd p \<noteq> 0" using k z by auto
  qed
qed

lemma lin_multiply_eval:
  assumes "lin_multiply e k = Some r" "lin_wf e"
  shows "lin_wf r \<and> lin_eval s r = k * lin_eval s e \<and> (k \<noteq> 0 \<longrightarrow> lin_no_zero e \<longrightarrow> lin_no_zero r)"
proof -
  obtain ts where t: "scale_terms k (variable_terms e) = Some ts"
      "r = \<lparr>constant_term = constant_term e * k, variable_terms = ts\<rparr>"
    using assms(1) by (auto simp: lin_multiply_def num_mul_def panic_simps)
  then show ?thesis
    using scale_terms_eval(1,3) [OF t(1)] scale_terms_eval(2) [OF t(1), of s] assms(2)
    by (simp add: lin_wf_def bt_ok_def lin_eval_def lin_no_zero_def algebra_simps)
qed

lemma lin_leaf_eval [simp]:
  "lin_eval s (lin_from_number n) = n" "lin_eval s (lin_from_variable v) = s v"
  "lin_eval s (lin_term c v) = c * s v"
  "lin_wf (lin_from_number n)" "lin_wf (lin_from_variable v)" "lin_wf (lin_term c v)"
  by (simp_all add: lin_eval_def lin_wf_def lin_from_number_def lin_from_variable_def lin_term_def
      num_is_zero_def)

text \<open>The operations on linear expressions compute the value they stand for, keep the terms
  sorted without duplicates, and (but for a multiplication by zero) store no zero coefficient.\<close>

theorem linear_expression_ops:
  assumes "lin_wf e" "lin_wf e'"
  shows "(lin_plus e e' = Some r \<longrightarrow> lin_wf r \<and> lin_eval s r = lin_eval s e + lin_eval s e' \<and>
      (lin_no_zero e \<longrightarrow> lin_no_zero r)) \<and>
    (lin_subtract e e' = Some r \<longrightarrow> lin_wf r \<and> lin_eval s r = lin_eval s e - lin_eval s e' \<and>
      (lin_no_zero e \<longrightarrow> lin_no_zero r)) \<and>
    (lin_multiply e k = Some r \<longrightarrow> lin_wf r \<and> lin_eval s r = k * lin_eval s e \<and>
      (k \<noteq> 0 \<longrightarrow> lin_no_zero e \<longrightarrow> lin_no_zero r)) \<and>
    (lin_negate e = Some r \<longrightarrow> lin_wf r \<and> lin_eval s r = - lin_eval s e) \<and>
    (lin_plus_constant e k = Some r \<longrightarrow> lin_wf r \<and> lin_eval s r = lin_eval s e + k) \<and>
    (lin_subtract_constant e k = Some r \<longrightarrow> lin_wf r \<and> lin_eval s r = lin_eval s e - k) \<and>
    (lin_subtract_variable e v = Some r \<longrightarrow> lin_wf r \<and> lin_eval s r = lin_eval s e - s v)"
proof (intro conjI [OF impI [OF lin_plus_eval]] conjI [OF impI [OF lin_subtract_eval]]
    conjI [OF impI [OF lin_multiply_eval]] conjI impI)
  assume "lin_negate e = Some r"
  then show "lin_wf r" "lin_eval s r = - lin_eval s e"
    using lin_multiply_eval [of e "- 1" r s] assms(1) by (simp_all add: lin_negate_def)
next
  assume "lin_subtract_variable e v = Some r"
  then have "r = \<lparr>constant_term = constant_term e,
      variable_terms = store_coefficient v (coefficient_of e v - 1) (variable_terms e)\<rparr>"
    by (auto simp: lin_subtract_variable_def num_sub_def panic_simps)
  then show "lin_wf r" "lin_eval s r = lin_eval s e - s v"
    using assms(1) by (simp_all add: lin_wf_def lin_eval_def eval_store lin_coeff)
qed (use assms in \<open>auto simp: lin_plus_constant_def lin_subtract_constant_def
    num_add_def num_sub_def panic_simps lin_wf_def lin_eval_def\<close>)

theorem linear_expression_ops_witness:
  "lin_wf (lin_term 3 1) \<and> lin_wf (lin_from_variable 2) \<and>
   lin_eval (\<lambda>v. if v = 1 then 5 else 7) \<lparr>constant_term = 0, variable_terms = [(1, 3), (2, - 1)]\<rparr> = 3 * 5 - 7"
proof -
  have w: "lin_wf (lin_term 3 1)" "lin_wf (lin_from_variable 2)" by simp_all
  have "lin_subtract (lin_term 3 1) (lin_from_variable 2) =
      Some \<lparr>constant_term = 0, variable_terms = [(1, 3), (2, - 1)]\<rparr>" by code_simp
  with w linear_expression_ops [OF w, of _ "\<lambda>v. if v = 1 then 5 else 7"] show ?thesis by simp
qed

lemma lc_subtract_holds:
  assumes "do { d \<leftarrow> lin_subtract e1 e2; Some (lc_new d k) } = Some c" "lin_wf e1" "lin_wf e2"
  shows "lc_holds s c \<longleftrightarrow> zero_holds k (lin_eval s e1 - lin_eval s e2)"
  using assms lin_subtract_eval [of e1 e2 _ s]
  by (auto simp: lc_holds_def lc_new_def panic_simps)

text \<open>Negating a constraint complements it, a tautology holds everywhere, a contradiction
  nowhere, a constant constraint is one of the two, and the comparison builders mean the
  comparison they are named after.\<close>

theorem linear_constraint_meaning:
  assumes "lin_wf (lc_expression c)" "lin_wf e1" "lin_wf e2"
  shows "(lc_negate c = Some c' \<longrightarrow> lc_holds s c' = (\<not> lc_holds s c)) \<and>
    (lc_is_tautology c \<longrightarrow> lc_holds s c) \<and> (lc_is_contradiction c \<longrightarrow> \<not> lc_holds s c) \<and>
    (lin_is_constant (lc_expression c) \<longrightarrow> lc_is_tautology c \<or> lc_is_contradiction c) \<and>
    (lc_leq e1 e2 = Some c' \<longrightarrow> lc_holds s c' = (lin_eval s e1 \<le> lin_eval s e2)) \<and>
    (lc_lt e1 e2 = Some c' \<longrightarrow> lc_holds s c' = (lin_eval s e1 < lin_eval s e2)) \<and>
    (lc_geq e1 e2 = Some c' \<longrightarrow> lc_holds s c' = (lin_eval s e1 \<ge> lin_eval s e2)) \<and>
    (lc_gt e1 e2 = Some c' \<longrightarrow> lc_holds s c' = (lin_eval s e1 > lin_eval s e2)) \<and>
    (lc_expr_eq e1 e2 = Some c' \<longrightarrow> lc_holds s c' = (lin_eval s e1 = lin_eval s e2)) \<and>
    (lc_expr_neq e1 e2 = Some c' \<longrightarrow> lc_holds s c' = (lin_eval s e1 \<noteq> lin_eval s e2)) \<and>
    (lc_eq a b = Some c' \<longrightarrow> lc_holds s c' = (s a = s b)) \<and>
    (lc_neq a b = Some c' \<longrightarrow> lc_holds s c' = (s a \<noteq> s b))"
proof -
  have neg: "lc_holds s c' = (\<not> lc_holds s c)" if "lc_negate c = Some c'"
    using that assms(1) lin_multiply_eval [of "lc_expression c" "- 1" _ s]
    by (auto simp: lc_negate_def lin_negate_def lc_holds_def lc_new_def panic_simps
        split: constraint_kind.splits)
  have const: "lin_eval s (lc_expression c) = constant_term (lc_expression c)"
    if "lin_is_constant (lc_expression c)"
    using that by (simp add: lin_is_constant_def lin_eval_def)
  have taut: "lc_is_tautology c = lc_holds s c" if "lin_is_constant (lc_expression c)"
    using that const [OF that]
    by (cases "lc_kind c") (simp_all add: lc_is_tautology_def lc_holds_def num_is_zero_def
        num_is_negative_def num_is_positive_def not_less)
  have nc: "\<not> lc_is_tautology c" "\<not> lc_is_contradiction c" if "\<not> lin_is_constant (lc_expression c)"
    using that by (simp_all add: lc_is_tautology_def lc_is_contradiction_def)
  have leaf: "lin_wf (lin_from_variable a)" "lin_wf (lin_from_variable b)" by simp_all
  show ?thesis
    using neg taut nc lc_subtract_holds [OF _ assms(2,3), of _ c' s]
      lc_subtract_holds [OF _ assms(3,2), of _ c' s] lc_subtract_holds [OF _ leaf, of _ c' s]
    by (auto simp: lc_is_contradiction_def lc_leq_def lc_lt_def lc_geq_def lc_gt_def lc_expr_eq_def
        lc_expr_neq_def lc_eq_def lc_neq_def)
qed

theorem linear_constraint_meaning_witness:
  "lin_wf (lin_from_variable 1) \<and> lin_wf (lin_from_number 10) \<and>
   lc_holds (\<lambda>v. 4) (lc_new \<lparr>constant_term = - 10, variable_terms = [(1, 1)]\<rparr> LessThanOrEqualsZero)"
proof -
  have w: "lin_wf (lin_from_variable 1)" "lin_wf (lin_from_number 10)" by simp_all
  have t: "lin_wf (lc_expression lc_true_const)" by (simp add: lc_true_const_def lc_new_def)
  have "lc_leq (lin_from_variable 1) (lin_from_number 10) =
      Some (lc_new \<lparr>constant_term = - 10, variable_terms = [(1, 1)]\<rparr> LessThanOrEqualsZero)" by code_simp
  with w linear_constraint_meaning [OF t w, of _ "\<lambda>v. 4"] show ?thesis by simp
qed

end
