(* ===== verification/Isa.thy ===== *)
theory Isa
  imports Prelude
begin

text \<open>
  \<open>src/spec/vm_isa.rs\<close>: the fields of an eBPF instruction, the opcode constants and the
  conversions between fields and enumerations.  Bytes are \<open>8 word\<close>, the signed \<open>i16\<close> and
  \<open>i32\<close> fields are \<open>16 word\<close> and \<open>32 word\<close> read with \<open>sint\<close>.
\<close>

subsection \<open>Opcode fields\<close>

abbreviation INST_CLS_MASK :: "8 word" where "INST_CLS_MASK \<equiv> 0x07"
abbreviation INST_CLS_LD :: "8 word" where "INST_CLS_LD \<equiv> 0x00"
abbreviation INST_CLS_LDX :: "8 word" where "INST_CLS_LDX \<equiv> 0x01"
abbreviation INST_CLS_ST :: "8 word" where "INST_CLS_ST \<equiv> 0x02"
abbreviation INST_CLS_STX :: "8 word" where "INST_CLS_STX \<equiv> 0x03"
abbreviation INST_CLS_ALU :: "8 word" where "INST_CLS_ALU \<equiv> 0x04"
abbreviation INST_CLS_JMP :: "8 word" where "INST_CLS_JMP \<equiv> 0x05"
abbreviation INST_CLS_JMP32 :: "8 word" where "INST_CLS_JMP32 \<equiv> 0x06"
abbreviation INST_CLS_ALU64 :: "8 word" where "INST_CLS_ALU64 \<equiv> 0x07"

abbreviation INST_SRC_IMM :: "8 word" where "INST_SRC_IMM \<equiv> 0x00"
abbreviation INST_SRC_REG :: "8 word" where "INST_SRC_REG \<equiv> 0x08"

abbreviation INST_END_LE :: "8 word" where "INST_END_LE \<equiv> 0x00"
abbreviation INST_END_BE :: "8 word" where "INST_END_BE \<equiv> 0x08"

abbreviation INST_SIZE_W :: "8 word" where "INST_SIZE_W \<equiv> 0x00"
abbreviation INST_SIZE_H :: "8 word" where "INST_SIZE_H \<equiv> 0x08"
abbreviation INST_SIZE_B :: "8 word" where "INST_SIZE_B \<equiv> 0x10"
abbreviation INST_SIZE_DW :: "8 word" where "INST_SIZE_DW \<equiv> 0x18"
abbreviation INST_SIZE_MASK :: "8 word" where "INST_SIZE_MASK \<equiv> 0x18"

abbreviation INST_MODE_MASK :: "8 word" where "INST_MODE_MASK \<equiv> 0xe0"
abbreviation INST_MODE_IMM :: "8 word" where "INST_MODE_IMM \<equiv> 0x00"
abbreviation INST_MODE_ABS :: "8 word" where "INST_MODE_ABS \<equiv> 0x20"
abbreviation INST_MODE_IND :: "8 word" where "INST_MODE_IND \<equiv> 0x40"
abbreviation INST_MODE_MEM :: "8 word" where "INST_MODE_MEM \<equiv> 0x60"
abbreviation INST_MODE_MEMSX :: "8 word" where "INST_MODE_MEMSX \<equiv> 0x80"
abbreviation INST_MODE_ATOMIC :: "8 word" where "INST_MODE_ATOMIC \<equiv> 0xc0"

definition INST_OP_LDDW_IMM :: "8 word" where
  "INST_OP_LDDW_IMM = INST_CLS_LD OR INST_SRC_IMM OR INST_SIZE_DW"

abbreviation INST_FETCH :: "8 word" where "INST_FETCH \<equiv> 0x1"
abbreviation INST_JA :: "8 word" where "INST_JA \<equiv> 0x0"
abbreviation INST_CALL :: "8 word" where "INST_CALL \<equiv> 0x8"
abbreviation INST_EXIT :: "8 word" where "INST_EXIT \<equiv> 0x9"

definition INST_OP_JA32 :: "8 word" where
  "INST_OP_JA32 = push_bit 4 INST_JA OR INST_CLS_JMP32"

definition INST_OP_JA16 :: "8 word" where
  "INST_OP_JA16 = push_bit 4 INST_JA OR INST_CLS_JMP"

definition INST_OP_CALL :: "8 word" where
  "INST_OP_CALL = push_bit 4 INST_CALL OR INST_SRC_IMM OR INST_CLS_JMP"

definition INST_OP_CALLX :: "8 word" where
  "INST_OP_CALLX = push_bit 4 INST_CALL OR INST_SRC_REG OR INST_CLS_JMP"

definition INST_OP_EXIT :: "8 word" where
  "INST_OP_EXIT = push_bit 4 INST_EXIT OR INST_CLS_JMP"

abbreviation INST_CALL_STATIC_HELPER :: "8 word" where "INST_CALL_STATIC_HELPER \<equiv> 0x0"
abbreviation INST_CALL_LOCAL :: "8 word" where "INST_CALL_LOCAL \<equiv> 0x1"
abbreviation INST_CALL_BTF_HELPER :: "8 word" where "INST_CALL_BTF_HELPER \<equiv> 0x2"

abbreviation INST_ALU_OP_ADD :: "8 word" where "INST_ALU_OP_ADD \<equiv> 0x00"
abbreviation INST_ALU_OP_SUB :: "8 word" where "INST_ALU_OP_SUB \<equiv> 0x10"
abbreviation INST_ALU_OP_MUL :: "8 word" where "INST_ALU_OP_MUL \<equiv> 0x20"
abbreviation INST_ALU_OP_DIV :: "8 word" where "INST_ALU_OP_DIV \<equiv> 0x30"
abbreviation INST_ALU_OP_OR :: "8 word" where "INST_ALU_OP_OR \<equiv> 0x40"
abbreviation INST_ALU_OP_AND :: "8 word" where "INST_ALU_OP_AND \<equiv> 0x50"
abbreviation INST_ALU_OP_LSH :: "8 word" where "INST_ALU_OP_LSH \<equiv> 0x60"
abbreviation INST_ALU_OP_RSH :: "8 word" where "INST_ALU_OP_RSH \<equiv> 0x70"
abbreviation INST_ALU_OP_NEG :: "8 word" where "INST_ALU_OP_NEG \<equiv> 0x80"
abbreviation INST_ALU_OP_MOD :: "8 word" where "INST_ALU_OP_MOD \<equiv> 0x90"
abbreviation INST_ALU_OP_XOR :: "8 word" where "INST_ALU_OP_XOR \<equiv> 0xa0"
abbreviation INST_ALU_OP_MOV :: "8 word" where "INST_ALU_OP_MOV \<equiv> 0xb0"
abbreviation INST_ALU_OP_ARSH :: "8 word" where "INST_ALU_OP_ARSH \<equiv> 0xc0"
abbreviation INST_ALU_OP_END :: "8 word" where "INST_ALU_OP_END \<equiv> 0xd0"
abbreviation INST_ALU_OP_MASK :: "8 word" where "INST_ALU_OP_MASK \<equiv> 0xf0"

abbreviation INST_LD_MODE_IMM :: "8 word" where "INST_LD_MODE_IMM \<equiv> 0x0"
abbreviation INST_LD_MODE_MAP_FD :: "8 word" where "INST_LD_MODE_MAP_FD \<equiv> 0x1"
abbreviation INST_LD_MODE_MAP_VALUE :: "8 word" where "INST_LD_MODE_MAP_VALUE \<equiv> 0x2"
abbreviation INST_LD_MODE_VARIABLE_ADDR :: "8 word" where "INST_LD_MODE_VARIABLE_ADDR \<equiv> 0x3"
abbreviation INST_LD_MODE_CODE_ADDR :: "8 word" where "INST_LD_MODE_CODE_ADDR \<equiv> 0x4"
abbreviation INST_LD_MODE_MAP_BY_IDX :: "8 word" where "INST_LD_MODE_MAP_BY_IDX \<equiv> 0x5"
abbreviation INST_LD_MODE_MAP_VALUE_BY_IDX :: "8 word" where
  "INST_LD_MODE_MAP_VALUE_BY_IDX \<equiv> 0x6"

subsection \<open>Instruction classes and operations\<close>

datatype instruction_class = Cls_LD | Cls_LDX | Cls_ST | Cls_STX | Cls_ALU | Cls_JMP | Cls_JMP32 | Cls_ALU64

definition class_from_opcode :: "8 word \<Rightarrow> instruction_class option" where
  "class_from_opcode opcode =
     (let c = opcode AND INST_CLS_MASK
      in if c = 0x00 then Some Cls_LD
         else if c = 0x01 then Some Cls_LDX
         else if c = 0x02 then Some Cls_ST
         else if c = 0x03 then Some Cls_STX
         else if c = 0x04 then Some Cls_ALU
         else if c = 0x05 then Some Cls_JMP
         else if c = 0x06 then Some Cls_JMP32
         else if c = 0x07 then Some Cls_ALU64
         else None)"

datatype jmp_op =
  J_JA | J_JEQ | J_JGT | J_JGE | J_JSET | J_JNE | J_JSGT | J_JSGE | J_CALL | J_EXIT
  | J_JLT | J_JLE | J_JSLT | J_JSLE

definition jmp_op_from_opcode :: "8 word \<Rightarrow> jmp_op option" where
  "jmp_op_from_opcode opcode =
     (let n = drop_bit 4 opcode AND 0xF
      in if n = 0x0 then Some J_JA
         else if n = 0x1 then Some J_JEQ
         else if n = 0x2 then Some J_JGT
         else if n = 0x3 then Some J_JGE
         else if n = 0x4 then Some J_JSET
         else if n = 0x5 then Some J_JNE
         else if n = 0x6 then Some J_JSGT
         else if n = 0x7 then Some J_JSGE
         else if n = 0x8 then Some J_CALL
         else if n = 0x9 then Some J_EXIT
         else if n = 0xa then Some J_JLT
         else if n = 0xb then Some J_JLE
         else if n = 0xc then Some J_JSLT
         else if n = 0xd then Some J_JSLE
         else None)"

datatype alu_op =
  Alu_ADD | Alu_SUB | Alu_MUL | Alu_DIV | Alu_OR | Alu_AND | Alu_LSH | Alu_RSH | Alu_NEG
  | Alu_MOD | Alu_XOR | Alu_MOV | Alu_ARSH | Alu_END

definition alu_op_from_opcode :: "8 word \<Rightarrow> alu_op option" where
  "alu_op_from_opcode opcode =
     (let n = opcode AND INST_ALU_OP_MASK
      in if n = INST_ALU_OP_ADD then Some Alu_ADD
         else if n = INST_ALU_OP_SUB then Some Alu_SUB
         else if n = INST_ALU_OP_MUL then Some Alu_MUL
         else if n = INST_ALU_OP_DIV then Some Alu_DIV
         else if n = INST_ALU_OP_OR then Some Alu_OR
         else if n = INST_ALU_OP_AND then Some Alu_AND
         else if n = INST_ALU_OP_LSH then Some Alu_LSH
         else if n = INST_ALU_OP_RSH then Some Alu_RSH
         else if n = INST_ALU_OP_NEG then Some Alu_NEG
         else if n = INST_ALU_OP_MOD then Some Alu_MOD
         else if n = INST_ALU_OP_XOR then Some Alu_XOR
         else if n = INST_ALU_OP_MOV then Some Alu_MOV
         else if n = INST_ALU_OP_ARSH then Some Alu_ARSH
         else if n = INST_ALU_OP_END then Some Alu_END
         else None)"

subsection \<open>Instructions\<close>

text \<open>A register operand is its number.\<close>

type_synonym reg = "8 word"

abbreviation R0_RETURN_VALUE :: reg where "R0_RETURN_VALUE \<equiv> 0"
abbreviation R1_ARG :: reg where "R1_ARG \<equiv> 1"
abbreviation R5_ARG :: reg where "R5_ARG \<equiv> 5"
abbreviation R6 :: reg where "R6 \<equiv> 6"
abbreviation R10_STACK_POINTER :: reg where "R10_STACK_POINTER \<equiv> 10"
abbreviation R11_ATOMIC_SCRATCH :: reg where "R11_ATOMIC_SCRATCH \<equiv> 11"

record ebpf_inst =
  opcode :: "8 word"
  dst_src :: "8 word"
  inst_offset :: "16 word"
  inst_imm :: "32 word"

definition inst_dst :: "ebpf_inst \<Rightarrow> reg" where
  "inst_dst i = dst_src i AND 0x0f"

definition inst_src :: "ebpf_inst \<Rightarrow> reg" where
  "inst_src i = drop_bit 4 (dst_src i) AND 0x0f"

definition dst_raw :: "ebpf_inst \<Rightarrow> 8 word" where
  "dst_raw i = dst_src i AND 0x0f"

definition src_raw :: "ebpf_inst \<Rightarrow> 8 word" where
  "src_raw i = drop_bit 4 (dst_src i) AND 0x0f"

definition set_src :: "8 word \<Rightarrow> ebpf_inst \<Rightarrow> ebpf_inst" where
  "set_src s i = i\<lparr>dst_src := (dst_src i AND 0x0f) OR push_bit 4 (s AND 0x0f)\<rparr>"

definition set_dst :: "8 word \<Rightarrow> ebpf_inst \<Rightarrow> ebpf_inst" where
  "set_dst d i = i\<lparr>dst_src := (dst_src i AND 0xf0) OR (d AND 0x0f)\<rparr>"

definition inst_new :: "8 word \<Rightarrow> 8 word \<Rightarrow> 8 word \<Rightarrow> 16 word \<Rightarrow> 32 word \<Rightarrow> ebpf_inst" where
  "inst_new op d s off im =
     \<lparr>opcode = op, dst_src = (d AND 0x0f) OR push_bit 4 (s AND 0x0f), inst_offset = off, inst_imm = im\<rparr>"

subsection \<open>Wide immediates\<close>

definition imm_merge :: "32 word \<Rightarrow> 32 word \<Rightarrow> 64 word" where
  "imm_merge im next_imm = push_bit 32 (scast next_imm) OR ucast im"

record split_result =
  lo :: "32 word"
  hi :: "32 word"

definition imm_split :: "64 word \<Rightarrow> split_result" where
  "imm_split v = \<lparr>lo = ucast v, hi = ucast (drop_bit 32 v)\<rparr>"

subsection \<open>Access sizes\<close>

datatype access_size = Byte | Half | Word | DWord

text \<open>\<open>None\<close> is the \<open>unreachable!\<close> of the code.\<close>

definition access_size_from_opcode :: "8 word \<Rightarrow> access_size option" where
  "access_size_from_opcode op =
     (let s = op AND INST_SIZE_MASK
      in if s = INST_SIZE_B then Some Byte
         else if s = INST_SIZE_H then Some Half
         else if s = INST_SIZE_W then Some Word
         else if s = INST_SIZE_DW then Some DWord
         else None)"

fun access_size_to_opcode :: "access_size \<Rightarrow> 8 word" where
  "access_size_to_opcode Byte = INST_SIZE_B"
| "access_size_to_opcode Half = INST_SIZE_H"
| "access_size_to_opcode Word = INST_SIZE_W"
| "access_size_to_opcode DWord = INST_SIZE_DW"

fun access_size_bytes :: "access_size \<Rightarrow> int" where
  "access_size_bytes Byte = 1"
| "access_size_bytes Half = 2"
| "access_size_bytes Word = 4"
| "access_size_bytes DWord = 8"

end
