(* ===== verification/Formatting.thy ===== *)
theory Formatting
  imports Prelude
begin

text \<open>
  The number formats of Rust's \<open>format!\<close> that the error messages and the printed domains use:
  \<open>{}\<close> of an integer and \<open>{:x}\<close> of a byte.
\<close>

definition digit_char :: "nat \<Rightarrow> char" where
  "digit_char d = (if d < 10 then char_of (48 + d) else char_of (87 + d))"

fun nat_string :: "nat \<Rightarrow> string" where
  "nat_string n =
     (if n < 10 then [digit_char n] else nat_string (n div 10) @ [digit_char (n mod 10)])"

declare nat_string.simps [simp del]

definition int_string :: "int \<Rightarrow> string" where
  "int_string k = (if k < 0 then ''-'' @ nat_string (nat (- k)) else nat_string (nat k))"

definition hex_u8 :: "8 word \<Rightarrow> string" where
  "hex_u8 b =
     (let n = unat b
      in if n < 16 then [digit_char n] else [digit_char (n div 16), digit_char (n mod 16)])"

fun join_strings :: "string \<Rightarrow> string list \<Rightarrow> string" where
  "join_strings sep [] = ''''"
| "join_strings sep [s] = s"
| "join_strings sep (s # t # ts) = s @ sep @ join_strings sep (t # ts)"

end
