(* ===== verification/Type_Encoding.thy ===== *)
theory Type_Encoding
  imports Formatting Abstract_Domain
begin

text \<open>
  \<open>src/crab/type_encoding.rs\<close>: the kinds of data tracked per register, the eBPF type
  encodings, the 16-bit sets of encodings and the type groups of the assertions.
\<close>

subsection \<open>Data kinds\<close>

datatype data_kind =
  Types | Svalues | Uvalues | CtxOffsets | MapFds | MapFdPrograms_kind | PacketOffsets
  | SharedOffsets | StackOffsets | SharedRegionSizes | StackNumericSizes | SocketOffsets
  | BtfIdOffsets | AllocMemOffsets | AllocMemSizes

definition all_kinds :: "data_kind list" where
  "all_kinds = [Types, Svalues, Uvalues, CtxOffsets, MapFds, MapFdPrograms_kind, PacketOffsets,
    SharedOffsets, StackOffsets, SharedRegionSizes, StackNumericSizes, SocketOffsets,
    BtfIdOffsets, AllocMemOffsets, AllocMemSizes]"

fun kind_index :: "data_kind \<Rightarrow> nat" where
  "kind_index Types = 0"
| "kind_index Svalues = 1"
| "kind_index Uvalues = 2"
| "kind_index CtxOffsets = 3"
| "kind_index MapFds = 4"
| "kind_index MapFdPrograms_kind = 5"
| "kind_index PacketOffsets = 6"
| "kind_index SharedOffsets = 7"
| "kind_index StackOffsets = 8"
| "kind_index SharedRegionSizes = 9"
| "kind_index StackNumericSizes = 10"
| "kind_index SocketOffsets = 11"
| "kind_index BtfIdOffsets = 12"
| "kind_index AllocMemOffsets = 13"
| "kind_index AllocMemSizes = 14"

fun name_of :: "data_kind \<Rightarrow> string" where
  "name_of Types = ''type''"
| "name_of Svalues = ''svalue''"
| "name_of Uvalues = ''uvalue''"
| "name_of CtxOffsets = ''ctx_offset''"
| "name_of MapFds = ''map_fd''"
| "name_of MapFdPrograms_kind = ''map_fd_programs''"
| "name_of PacketOffsets = ''packet_offset''"
| "name_of SharedOffsets = ''shared_offset''"
| "name_of StackOffsets = ''stack_offset''"
| "name_of SharedRegionSizes = ''shared_region_size''"
| "name_of StackNumericSizes = ''stack_numeric_size''"
| "name_of SocketOffsets = ''socket_offset''"
| "name_of BtfIdOffsets = ''btf_id_offset''"
| "name_of AllocMemOffsets = ''alloc_mem_offset''"
| "name_of AllocMemSizes = ''alloc_mem_size''"

definition regkind :: "string \<Rightarrow> data_kind option" where
  "regkind s =
     (if s = ''type'' then Some Types
      else if s = ''svalue'' then Some Svalues
      else if s = ''uvalue'' then Some Uvalues
      else if s = ''ctx_offset'' then Some CtxOffsets
      else if s = ''map_fd'' then Some MapFds
      else if s = ''map_fd_programs'' then Some MapFdPrograms_kind
      else if s = ''packet_offset'' then Some PacketOffsets
      else if s = ''shared_offset'' then Some SharedOffsets
      else if s = ''stack_offset'' then Some StackOffsets
      else if s = ''shared_region_size'' then Some SharedRegionSizes
      else if s = ''stack_numeric_size'' then Some StackNumericSizes
      else if s = ''socket_offset'' then Some SocketOffsets
      else if s = ''btf_id_offset'' then Some BtfIdOffsets
      else if s = ''alloc_mem_offset'' then Some AllocMemOffsets
      else if s = ''alloc_mem_size'' then Some AllocMemSizes
      else None)"

text \<open>\<open>None\<close> is a failed \<open>assert!\<close>.\<close>

definition iterate_kinds :: "data_kind \<Rightarrow> data_kind \<Rightarrow> data_kind list option" where
  "iterate_kinds lb ub =
     do { assert_that (kind_index lb \<le> kind_index ub);
          assert_that (kind_index ub < length all_kinds);
          Some (take (Suc (kind_index ub) - kind_index lb) (drop (kind_index lb) all_kinds)) }"

subsection \<open>Type encodings\<close>

datatype type_encoding =
  TUninit | TMapPrograms | TMap | TNum | TCtx | TPacket | TStack | TShared | TSocket | TBtfId
  | TAllocMem | TFunc

definition all_type_encodings :: "type_encoding list" where
  "all_type_encodings = [TUninit, TMapPrograms, TMap, TNum, TCtx, TPacket, TStack, TShared,
    TSocket, TBtfId, TAllocMem, TFunc]"

definition NUM_TYPE_ENCODINGS :: nat where
  "NUM_TYPE_ENCODINGS = 12"

fun type_to_bit :: "type_encoding \<Rightarrow> nat" where
  "type_to_bit TUninit = 0"
| "type_to_bit TMapPrograms = 1"
| "type_to_bit TMap = 2"
| "type_to_bit TNum = 3"
| "type_to_bit TCtx = 4"
| "type_to_bit TPacket = 5"
| "type_to_bit TStack = 6"
| "type_to_bit TShared = 7"
| "type_to_bit TSocket = 8"
| "type_to_bit TBtfId = 9"
| "type_to_bit TAllocMem = 10"
| "type_to_bit TFunc = 11"

fun type_encoding_string :: "type_encoding \<Rightarrow> string" where
  "type_encoding_string TUninit = ''uninit''"
| "type_encoding_string TMapPrograms = ''map_fd_programs''"
| "type_encoding_string TMap = ''map_fd''"
| "type_encoding_string TNum = ''number''"
| "type_encoding_string TCtx = ''ctx''"
| "type_encoding_string TPacket = ''packet''"
| "type_encoding_string TStack = ''stack''"
| "type_encoding_string TShared = ''shared''"
| "type_encoding_string TSocket = ''socket''"
| "type_encoding_string TBtfId = ''btf_id''"
| "type_encoding_string TAllocMem = ''alloc_mem''"
| "type_encoding_string TFunc = ''func''"

definition string_to_type_encoding :: "string \<Rightarrow> type_encoding option" where
  "string_to_type_encoding s =
     (if s = ''uninit'' then Some TUninit
      else if s = ''map_fd_programs'' then Some TMapPrograms
      else if s = ''map_fd'' then Some TMap
      else if s = ''number'' then Some TNum
      else if s = ''ctx'' then Some TCtx
      else if s = ''packet'' then Some TPacket
      else if s = ''stack'' then Some TStack
      else if s = ''shared'' then Some TShared
      else if s = ''socket'' then Some TSocket
      else if s = ''btf_id'' then Some TBtfId
      else if s = ''alloc_mem'' then Some TAllocMem
      else if s = ''func'' then Some TFunc
      else None)"

definition int_to_type_encoding :: "int \<Rightarrow> type_encoding option" where
  "int_to_type_encoding v =
     (if v = 0 then Some TUninit
      else if v = 1 then Some TMapPrograms
      else if v = 2 then Some TMap
      else if v = 3 then Some TNum
      else if v = 4 then Some TCtx
      else if v = 5 then Some TPacket
      else if v = 6 then Some TStack
      else if v = 7 then Some TShared
      else if v = 8 then Some TSocket
      else if v = 9 then Some TBtfId
      else if v = 10 then Some TAllocMem
      else if v = 11 then Some TFunc
      else None)"

definition typeset_to_string :: "type_encoding list \<Rightarrow> string" where
  "typeset_to_string items =
     ''{'' @ join_strings '', '' (map type_encoding_string items) @ ''}''"

subsection \<open>Sets of type encodings\<close>

type_synonym type_set = "16 word"

definition ts_empty :: type_set where
  "ts_empty = 0"

definition ts_all :: type_set where
  "ts_all = push_bit NUM_TYPE_ENCODINGS 1 - 1"

definition ts_singleton :: "type_encoding \<Rightarrow> type_set" where
  "ts_singleton te = push_bit (type_to_bit te) 1"

fun ts_of_loop :: "type_encoding list \<Rightarrow> type_set \<Rightarrow> type_set" where
  "ts_of_loop [] bits = bits"
| "ts_of_loop (t # ts) bits = ts_of_loop ts (bits OR push_bit (type_to_bit t) 1)"

definition ts_of :: "type_encoding list \<Rightarrow> type_set" where
  "ts_of types = ts_of_loop types 0"

definition ts_is_empty :: "type_set \<Rightarrow> bool" where
  "ts_is_empty s \<longleftrightarrow> s = 0"

definition ts_is_singleton :: "type_set \<Rightarrow> bool" where
  "ts_is_singleton s \<longleftrightarrow> s \<noteq> 0 \<and> s AND (s - 1) = 0"

definition ts_contains :: "type_set \<Rightarrow> type_encoding \<Rightarrow> bool" where
  "ts_contains s te \<longleftrightarrow> s AND push_bit (type_to_bit te) 1 \<noteq> 0"

definition ts_union :: "type_set \<Rightarrow> type_set \<Rightarrow> type_set" where
  "ts_union s t = s OR t"

definition ts_intersect :: "type_set \<Rightarrow> type_set \<Rightarrow> type_set" where
  "ts_intersect s t = s AND t"

definition ts_remove :: "type_set \<Rightarrow> type_encoding \<Rightarrow> type_set" where
  "ts_remove s te = s AND NOT (push_bit (type_to_bit te) 1)"

definition ts_is_subset_of :: "type_set \<Rightarrow> type_set \<Rightarrow> bool" where
  "ts_is_subset_of s t \<longleftrightarrow> s AND NOT t = 0"

definition count_ones :: "16 word \<Rightarrow> nat" where
  "count_ones s = length (filter (bit s) [0..<16])"

fun trailing_zeros_from :: "nat \<Rightarrow> 16 word \<Rightarrow> nat \<Rightarrow> nat" where
  "trailing_zeros_from i s 0 = i"
| "trailing_zeros_from i s (Suc n) = (if bit s i then i else trailing_zeros_from (Suc i) s n)"

definition trailing_zeros :: "16 word \<Rightarrow> nat" where
  "trailing_zeros s = trailing_zeros_from 0 s 16"

definition ts_len :: "type_set \<Rightarrow> nat" where
  "ts_len s = count_ones s"

definition ts_as_singleton :: "type_set \<Rightarrow> type_encoding option" where
  "ts_as_singleton s =
     (if ts_is_singleton s then int_to_type_encoding (int (trailing_zeros s)) else None)"

text \<open>One step of the iterator: the lowest element and the remaining bits.\<close>

definition ts_iter_next :: "type_set \<Rightarrow> type_encoding option \<times> type_set" where
  "ts_iter_next s =
     (if s = 0 then (None, s)
      else (int_to_type_encoding (int (trailing_zeros s)), s AND (s - 1)))"

text \<open>Collecting the iterator: every step clears a bit, so sixteen steps exhaust it.\<close>

fun ts_collect :: "nat \<Rightarrow> type_set \<Rightarrow> type_encoding list" where
  "ts_collect 0 s = []"
| "ts_collect (Suc n) s =
     (case ts_iter_next s of (None, _) \<Rightarrow> [] | (Some t, s') \<Rightarrow> t # ts_collect n s')"

definition ts_iter :: "type_set \<Rightarrow> type_encoding list" where
  "ts_iter s = ts_collect 16 s"

definition ts_string :: "type_set \<Rightarrow> string" where
  "ts_string s =
     (let items = ts_iter s
      in case items of
           [] \<Rightarrow> ''{}''
         | [t] \<Rightarrow> type_encoding_string t
         | _ \<Rightarrow> typeset_to_string items)"

definition TS_NUM :: type_set where "TS_NUM = ts_singleton TNum"
definition TS_MAP :: type_set where "TS_MAP = ts_singleton TMap"
definition TS_POINTER :: type_set where "TS_POINTER = ts_of [TCtx, TPacket, TStack, TShared]"
definition TS_SINGLETON_PTR :: type_set where "TS_SINGLETON_PTR = ts_of [TCtx, TPacket, TStack]"
definition TS_MEM :: type_set where "TS_MEM = ts_of [TPacket, TStack, TShared]"
definition TS_DEREFERENCEABLE :: type_set where
  "TS_DEREFERENCEABLE = ts_of [TCtx, TPacket, TStack, TShared, TSocket, TAllocMem]"

subsection \<open>Type groups\<close>

datatype type_group =
  TG_Number | TG_MapFd | TG_Ctx | TG_CtxOrNum | TG_Packet | TG_Stack | TG_StackOrNum
  | TG_Shared | TG_MapFdPrograms | TG_Mem | TG_MemOrNum | TG_Dereferenceable | TG_Pointer
  | TG_PtrOrNum | TG_StackOrPacket | TG_SingletonPtr | TG_Socket | TG_BtfId | TG_AllocMem | TG_Func

definition tg_is_singleton_type :: "type_group \<Rightarrow> bool" where
  "tg_is_singleton_type g \<longleftrightarrow>
     g \<in> {TG_Number, TG_MapFd, TG_Ctx, TG_Packet, TG_Stack, TG_Shared, TG_MapFdPrograms,
          TG_Socket, TG_BtfId, TG_AllocMem, TG_Func}"

fun tg_to_typeset :: "type_group \<Rightarrow> type_set" where
  "tg_to_typeset TG_Number = ts_singleton TNum"
| "tg_to_typeset TG_MapFd = ts_singleton TMap"
| "tg_to_typeset TG_Ctx = ts_singleton TCtx"
| "tg_to_typeset TG_Packet = ts_singleton TPacket"
| "tg_to_typeset TG_Stack = ts_singleton TStack"
| "tg_to_typeset TG_Shared = ts_singleton TShared"
| "tg_to_typeset TG_MapFdPrograms = ts_singleton TMapPrograms"
| "tg_to_typeset TG_Socket = ts_singleton TSocket"
| "tg_to_typeset TG_BtfId = ts_singleton TBtfId"
| "tg_to_typeset TG_AllocMem = ts_singleton TAllocMem"
| "tg_to_typeset TG_Func = ts_singleton TFunc"
| "tg_to_typeset TG_CtxOrNum = ts_of [TNum, TCtx]"
| "tg_to_typeset TG_StackOrNum = ts_of [TNum, TStack]"
| "tg_to_typeset TG_Mem = TS_MEM"
| "tg_to_typeset TG_MemOrNum = ts_union TS_MEM TS_NUM"
| "tg_to_typeset TG_Dereferenceable = TS_DEREFERENCEABLE"
| "tg_to_typeset TG_Pointer = TS_POINTER"
| "tg_to_typeset TG_PtrOrNum = ts_union TS_POINTER TS_NUM"
| "tg_to_typeset TG_StackOrPacket = ts_of [TStack, TPacket]"
| "tg_to_typeset TG_SingletonPtr = TS_SINGLETON_PTR"

fun tg_string :: "type_group \<Rightarrow> string" where
  "tg_string TG_Number = ''number''"
| "tg_string TG_MapFd = ''map_fd''"
| "tg_string TG_Ctx = ''ctx''"
| "tg_string TG_Packet = ''packet''"
| "tg_string TG_Stack = ''stack''"
| "tg_string TG_Shared = ''shared''"
| "tg_string TG_MapFdPrograms = ''map_fd_programs''"
| "tg_string TG_Socket = ''socket''"
| "tg_string TG_BtfId = ''btf_id''"
| "tg_string TG_AllocMem = ''alloc_mem''"
| "tg_string TG_Func = ''func''"
| "tg_string TG_CtxOrNum = typeset_to_string [TNum, TCtx]"
| "tg_string TG_StackOrNum = typeset_to_string [TNum, TStack]"
| "tg_string TG_Mem = typeset_to_string [TStack, TPacket, TShared]"
| "tg_string TG_MemOrNum = typeset_to_string [TNum, TStack, TPacket, TShared]"
| "tg_string TG_Dereferenceable =
     typeset_to_string [TCtx, TStack, TPacket, TShared, TSocket, TAllocMem]"
| "tg_string TG_Pointer = typeset_to_string [TCtx, TStack, TPacket, TShared]"
| "tg_string TG_PtrOrNum = typeset_to_string [TNum, TCtx, TStack, TPacket, TShared]"
| "tg_string TG_StackOrPacket = typeset_to_string [TStack, TPacket]"
| "tg_string TG_SingletonPtr = typeset_to_string [TCtx, TStack, TPacket]"

subsection \<open>Type sets are the sets of their encodings\<close>


definition ts_gamma :: "type_set \<Rightarrow> type_encoding set" where
  "ts_gamma s = {t. ts_contains s t}"

lemma ts_contains_bit: "ts_contains s t \<longleftrightarrow> bit s (type_to_bit t)"
proof -
  have "type_to_bit t < 16" by (cases t) auto
  then show ?thesis
    by (simp add: ts_contains_def and_exp_eq_0_iff_not_bit push_bit_of_1)
qed

lemma type_to_bit_inj: "type_to_bit t = type_to_bit u \<longleftrightarrow> t = u"
  by (cases t; cases u) auto

lemma ts_of_loop_bit: "bit (ts_of_loop ts b) n \<longleftrightarrow> bit b n \<or> (\<exists>t\<in>set ts. type_to_bit t = n)"
proof (induction ts b rule: ts_of_loop.induct)
  case (2 t ts b)
  have "type_to_bit t < 16" by (cases t) auto
  then show ?case using 2 by (auto simp: bit_simps)
qed simp

lemma gamma_ops:
  "ts_gamma ts_empty = {}" "ts_gamma ts_all = UNIV" "ts_gamma (ts_singleton t) = {t}"
  "ts_gamma (ts_of ts) = set ts" "ts_gamma (ts_union a b) = ts_gamma a \<union> ts_gamma b"
  "ts_gamma (ts_intersect a b) = ts_gamma a \<inter> ts_gamma b"
  "ts_gamma (ts_remove a t) = ts_gamma a - {t}"
proof -
  have b: "type_to_bit t < 12" for t by (cases t) auto
  note b' = less_trans [OF b, of 16 , simplified]
  have m: "ts_all = mask 12" by (simp add: ts_all_def NUM_TYPE_ENCODINGS_def mask_eq_exp_minus_1)
  show "ts_gamma ts_empty = {}" "ts_gamma ts_all = UNIV" "ts_gamma (ts_singleton t) = {t}"
  "ts_gamma (ts_of ts) = set ts" "ts_gamma (ts_union a b) = ts_gamma a \<union> ts_gamma b"
  "ts_gamma (ts_intersect a b) = ts_gamma a \<inter> ts_gamma b"
  "ts_gamma (ts_remove a t) = ts_gamma a - {t}"
   using b' b by (auto simp: ts_gamma_def ts_contains_bit ts_empty_def m ts_singleton_def ts_of_def
     ts_of_loop_bit ts_union_def ts_intersect_def ts_remove_def bit_simps type_to_bit_inj)
qed


lemma bit_double_int:
  "bit (2 * z + 1) (Suc j) = bit (z :: int) j" "bit (2 * z) (Suc j) = bit z j"
  "bit (2 * z + 1) 0" "\<not> bit (2 * z) 0"
  by (simp_all add: bit_Suc bit_0)

lemma clear_lowest_int:
  "bit (x::int) l \<Longrightarrow> \<forall>i<l. \<not> bit x i \<Longrightarrow> bit (x AND (x - 1)) i \<longleftrightarrow> bit x i \<and> i \<noteq> l"
proof (induction l arbitrary: x i)
  case 0
  then have "odd x" by (simp add: bit_0)
  then obtain y where y: "x = 2 * y + 1" by (elim oddE)
  have m: "x - 1 = 2 * y" using y by simp
  show ?case unfolding m unfolding y bit_and_iff by (cases i) (simp_all only: bit_double_int, simp_all)
next
  case (Suc l)
  then have "even x" by (auto simp: bit_0)
  then obtain y where y: "x = 2 * y" by (elim evenE)
  have m: "x - 1 = 2 * (y - 1) + 1" using y by simp
  have "\<forall>i<l. \<not> bit y i" using Suc.prems(2) bit_double_int(2) [of y] by (metis Suc_mono y)
  moreover have "bit y l" using Suc.prems(1) bit_double_int(2) [of y] by (simp only: y)
  ultimately have *: "bit (y AND (y - 1)) j \<longleftrightarrow> bit y j \<and> j \<noteq> l" for j by (rule Suc.IH [rotated])
  show ?case
    unfolding m unfolding y bit_and_iff
    using * by (cases i) (simp_all only: bit_double_int bit_and_iff, simp_all)
qed

lemma trailing_zeros_from:
  assumes "bit (s::16 word) j" "i \<le> j" "j < i + n" "\<forall>k<i. \<not> bit s k"
  shows "bit s (trailing_zeros_from i s n) \<and> (\<forall>k<trailing_zeros_from i s n. \<not> bit s k)"
  using assms
proof (induction i s n rule: trailing_zeros_from.induct)
  case (2 i s n)
  show ?case
  proof (cases "bit s i")
    case False
    then have "i \<noteq> j" using 2 by auto
    then show ?thesis using 2 False by (auto simp: less_Suc_eq)
  qed (use 2 in auto)
qed simp

lemma trailing_zeros_lowest:
  assumes "s \<noteq> 0"
  shows "bit s (trailing_zeros s)" "\<And>k. k < trailing_zeros s \<Longrightarrow> \<not> bit s k" "trailing_zeros s < 16"
proof -
  obtain j where j: "bit s j" using assms by (auto simp: bit_eq_iff)
  then have "j < 16" using bit_imp_le_length [of s j] by simp
  then show *: "bit s (trailing_zeros s)" and "\<And>k. k < trailing_zeros s \<Longrightarrow> \<not> bit s k"
    using trailing_zeros_from [of s j 0 16] j by (auto simp: trailing_zeros_def)
  show "trailing_zeros s < 16" using * bit_imp_le_length [of s] by simp
qed

lemma clear_lowest:
  assumes "s \<noteq> 0"
  shows "bit (s AND (s - 1)) i \<longleftrightarrow> bit s i \<and> i \<noteq> trailing_zeros s"
proof -
  have u: "uint (s - 1) = uint s - 1"
    using assms by (metis uint_minus_simple_alt word_less_1 word_not_simps(1) linorder_not_le uint_1 word_le_sub1 uint_sub_lem)
  have "bit (uint s AND (uint s - 1)) i \<longleftrightarrow> bit (uint s) i \<and> i \<noteq> trailing_zeros s"
    by (rule clear_lowest_int) (use trailing_zeros_lowest [OF assms] in \<open>auto simp: bit_uint_iff\<close>)
  then have "bit (uint (s AND (s - 1))) i \<longleftrightarrow> bit (uint s) i \<and> i \<noteq> trailing_zeros s"
    by (simp add: u [symmetric] uint_and)
  then show ?thesis using bit_imp_le_length [of s i] by (auto simp: bit_uint_iff bit_and_iff)
qed


text \<open>A set is valid when it has no bit beyond the encodings.\<close>

definition ts_valid :: "type_set \<Rightarrow> bool" where
  "ts_valid s \<longleftrightarrow> s AND ts_all = s"

lemma valid_bit: "ts_valid s \<longleftrightarrow> (\<forall>i. bit s i \<longrightarrow> i < 12)"
proof -
  have "ts_all = mask 12" by (simp add: ts_all_def NUM_TYPE_ENCODINGS_def mask_eq_exp_minus_1)
  then show ?thesis using bit_imp_le_length [of s]
    by (auto simp: ts_valid_def bit_eq_iff bit_mask_iff bit_and_iff)
qed

lemma int_to_type_bit: "int_to_type_encoding (int i) = Some t \<longleftrightarrow> type_to_bit t = i"
  by (cases t) (auto simp: int_to_type_encoding_def split: if_splits)

lemma bit_type: "i < 12 \<Longrightarrow> \<exists>t. type_to_bit t = i"
proof -
  have "i < 12 \<Longrightarrow> i \<in> type_to_bit ` set all_type_encodings"
    by (simp add: all_type_encodings_def) presburger
  then show "i < 12 \<Longrightarrow> \<exists>t. type_to_bit t = i" by auto
qed

lemma gamma_image: "ts_valid s \<Longrightarrow> {i. bit s i} = type_to_bit ` ts_gamma s"
  using bit_type by (auto simp: valid_bit ts_gamma_def ts_contains_bit)

lemma lowest_type:
  assumes "ts_valid s" "s \<noteq> 0"
  obtains t where "type_to_bit t = trailing_zeros s" "t \<in> ts_gamma s"
    "int_to_type_encoding (int (trailing_zeros s)) = Some t"
    "ts_gamma (s AND (s - 1)) = ts_gamma s - {t}" "ts_valid (s AND (s - 1))"
proof -
  have "trailing_zeros s < 12" using trailing_zeros_lowest(1) [OF assms(2)] assms(1) by (simp add: valid_bit)
  then obtain t where t: "type_to_bit t = trailing_zeros s" using bit_type by blast
  show thesis
  proof
    show "type_to_bit t = trailing_zeros s" by (rule t)
    show "t \<in> ts_gamma s" using trailing_zeros_lowest(1) [OF assms(2)] t by (simp add: ts_gamma_def ts_contains_bit)
    show "int_to_type_encoding (int (trailing_zeros s)) = Some t" using t by (simp add: int_to_type_bit)
    show "ts_gamma (s AND (s - 1)) = ts_gamma s - {t}"
      unfolding ts_gamma_def ts_contains_bit clear_lowest [OF assms(2)] t [symmetric] type_to_bit_inj
      by auto
    show "ts_valid (s AND (s - 1))" using assms(1) by (simp add: valid_bit clear_lowest [OF assms(2)])
  qed
qed

lemma gamma_empty: "ts_valid s \<Longrightarrow> ts_gamma s = {} \<longleftrightarrow> s = 0"
proof -
  assume "ts_valid s"
  then have "(\<forall>i. \<not> bit s i) \<longleftrightarrow> ts_gamma s = {}" using gamma_image [of s] by auto
  moreover have "s = 0 \<longleftrightarrow> (\<forall>i. \<not> bit s i)"
    using bit_imp_le_length [of s] by (auto simp: bit_eq_iff)
  ultimately show ?thesis by blast
qed

lemma subset_gamma:
  assumes "ts_valid s"
  shows "ts_is_subset_of s t \<longleftrightarrow> ts_gamma s \<subseteq> ts_gamma t"
proof -
  have "ts_is_subset_of s t \<longleftrightarrow> (\<forall>i. bit s i \<longrightarrow> bit t i)"
    using bit_imp_le_length [of s] by (auto simp: ts_is_subset_of_def bit_eq_iff bit_simps)
  also have "\<dots> \<longleftrightarrow> ts_gamma s \<subseteq> ts_gamma t"
  proof
    assume "ts_gamma s \<subseteq> ts_gamma t"
    then have "type_to_bit ` ts_gamma s \<subseteq> {i. bit t i}" by (auto simp: ts_gamma_def ts_contains_bit)
    then show "\<forall>i. bit s i \<longrightarrow> bit t i" using gamma_image [OF assms] by blast
  qed (auto simp: ts_gamma_def ts_contains_bit)
  finally show ?thesis .
qed

lemma UNIV_type_encodings: "UNIV = set all_type_encodings"
proof
  show "UNIV \<subseteq> set all_type_encodings"
  proof
    fix t show "t \<in> set all_type_encodings" by (cases t) (simp_all add: all_type_encodings_def)
  qed
qed simp

lemma finite_type_encodings: "finite (S :: type_encoding set)"
  by (metis UNIV_type_encodings List.finite_set finite_subset subset_UNIV)

lemma collect_gamma:
  "ts_valid s \<Longrightarrow> card (ts_gamma s) \<le> n \<Longrightarrow>
    set (ts_collect n s) = ts_gamma s \<and> length (ts_collect n s) = card (ts_gamma s)"
proof (induction n arbitrary: s)
  case 0
  then show ?case using finite_type_encodings by auto
next
  case (Suc n s)
  show ?case
  proof (cases "s = 0")
    case True
    then show ?thesis using gamma_empty [OF Suc.prems(1)] by (simp add: ts_iter_next_def)
  next
    case False
    obtain t where t: "t \<in> ts_gamma s" "int_to_type_encoding (int (trailing_zeros s)) = Some t"
      "ts_gamma (s AND (s - 1)) = ts_gamma s - {t}" "ts_valid (s AND (s - 1))"
      using lowest_type [OF Suc.prems(1) False] by metis
    have nx: "ts_collect (Suc n) s = t # ts_collect n (s AND (s - 1))"
      using False t(2) by (simp add: ts_iter_next_def)
    have c: "Suc (card (ts_gamma s - {t})) = card (ts_gamma s)"
      by (rule card_Suc_Diff1 [OF finite_type_encodings t(1)])
    then have "card (ts_gamma (s AND (s - 1))) \<le> n"
      unfolding t(3) using Suc.prems(2) by linarith
    then have IH: "set (ts_collect n (s AND (s - 1))) = ts_gamma s - {t}"
      "length (ts_collect n (s AND (s - 1))) = card (ts_gamma s - {t})"
      using Suc.IH [OF t(4)] unfolding t(3) by blast+
    have "set (ts_collect (Suc n) s) = ts_gamma s" unfolding nx list.set IH using t(1) by blast
    moreover have "length (ts_collect (Suc n) s) = card (ts_gamma s)"
      unfolding nx list.size IH c [symmetric] by simp
    ultimately show ?thesis by blast
  qed
qed

lemma singleton_gamma:
  assumes "ts_valid s"
  shows "ts_is_singleton s \<longleftrightarrow> (\<exists>t. ts_gamma s = {t})"
    and "ts_as_singleton s = Some t \<longleftrightarrow> ts_gamma s = {t}"
proof -
  have *: "ts_is_singleton s \<and> int_to_type_encoding (int (trailing_zeros s)) = Some t \<longleftrightarrow> ts_gamma s = {t}" for t
  proof (cases "s = 0")
    case True
    then show ?thesis using gamma_empty [OF assms] by (simp add: ts_is_singleton_def)
  next
    case False
    obtain u where u: "u \<in> ts_gamma s" "int_to_type_encoding (int (trailing_zeros s)) = Some u"
      "ts_gamma (s AND (s - 1)) = ts_gamma s - {u}" "ts_valid (s AND (s - 1))"
      using lowest_type [OF assms False] by metis
    then show ?thesis using False gamma_empty [OF u(4)] by (auto simp: ts_is_singleton_def)
  qed
  then show "ts_as_singleton s = Some t \<longleftrightarrow> ts_gamma s = {t}"
    by (auto simp: ts_as_singleton_def)
  show "ts_is_singleton s \<longleftrightarrow> (\<exists>t. ts_gamma s = {t})"
  proof
    assume a: "ts_is_singleton s"
    then have "s \<noteq> 0" by (simp add: ts_is_singleton_def)
    then obtain u where "int_to_type_encoding (int (trailing_zeros s)) = Some u"
      using lowest_type [OF assms] by metis
    then show "\<exists>t. ts_gamma s = {t}" using a * by blast
  qed (use * in blast)
qed

lemma len_gamma:
  assumes "ts_valid s"
  shows "ts_len s = card (ts_gamma s)"
proof -
  have "ts_len s = card (set (filter (bit s) [0..<16]))"
    by (simp add: ts_len_def count_ones_def distinct_card del: set_filter)
  also have "set (filter (bit s) [0..<16]) = {i. bit s i}"
    using bit_imp_le_length [of s] by auto
  also have "\<dots> = type_to_bit ` ts_gamma s" by (rule gamma_image [OF assms])
  also have "card \<dots> = card (ts_gamma s)"
    by (rule card_image) (simp add: inj_on_def type_to_bit_inj)
  finally show ?thesis .
qed

interpretation ts: meet_domain ts_gamma ts_is_subset_of ts_union ts_union ts_intersect
proof
  show "ts_gamma a \<subseteq> ts_gamma b" if "ts_is_subset_of a b" for a b
  proof
    fix t assume "t \<in> ts_gamma a"
    then have a: "bit a (type_to_bit t)" by (simp add: ts_gamma_def ts_contains_bit)
    have "bit (a AND NOT b) (type_to_bit t) = False" using that by (simp add: ts_is_subset_of_def)
    then have "bit b (type_to_bit t)"
      using a bit_imp_le_length [OF a] by (simp add: bit_and_iff bit_not_iff)
    then show "t \<in> ts_gamma b" by (simp add: ts_gamma_def ts_contains_bit)
  qed
qed (auto simp: gamma_ops)

lemma type_group_gamma: "tg_is_singleton_type g \<longleftrightarrow> (\<exists>t. ts_gamma (tg_to_typeset g) = {t})"
  by (cases g)
    (auto simp: tg_is_singleton_type_def gamma_ops TS_NUM_def TS_MEM_def TS_POINTER_def
      TS_SINGLETON_PTR_def TS_DEREFERENCEABLE_def)

text \<open>A type set is exactly the set of its encodings: every bit operation is the set
  operation it is named after, the subset test decides inclusion, the cardinality, the singleton
  query and the iterator agree with the set, and a type group is a singleton type exactly when
  its type set has one element.\<close>

theorem type_set_algebra:
  assumes "ts_valid s"
  shows "ts_gamma (ts_union s t) = ts_gamma s \<union> ts_gamma t \<and>
    ts_gamma (ts_intersect s t) = ts_gamma s \<inter> ts_gamma t \<and>
    ts_gamma (ts_remove s e) = ts_gamma s - {e} \<and>
    ts_gamma (ts_of es) = set es \<and> ts_gamma ts_all = UNIV \<and>
    ts_is_subset_of s t = (ts_gamma s \<subseteq> ts_gamma t) \<and>
    ts_is_empty s = (ts_gamma s = {}) \<and> ts_len s = card (ts_gamma s) \<and>
    (ts_as_singleton s = Some e) = (ts_gamma s = {e}) \<and>
    ts_is_singleton s = (\<exists>e. ts_gamma s = {e}) \<and>
    set (ts_iter s) = ts_gamma s \<and> distinct (ts_iter s) \<and>
    tg_is_singleton_type g = (\<exists>e. ts_gamma (tg_to_typeset g) = {e})"
proof -
  have "type_to_bit ` ts_gamma s \<subseteq> {..<12}"
    using assms by (auto simp: valid_bit ts_gamma_def ts_contains_bit)
  then have "card (type_to_bit ` ts_gamma s) \<le> card {..<12::nat}" by (intro card_mono) auto
  moreover have "card (type_to_bit ` ts_gamma s) = card (ts_gamma s)"
    by (rule card_image) (simp add: inj_on_def type_to_bit_inj)
  ultimately have "card (ts_gamma s) \<le> 16" by simp
  from collect_gamma [OF assms this]
  have it: "set (ts_iter s) = ts_gamma s" "distinct (ts_iter s)"
    by (auto simp: ts_iter_def intro: card_distinct)
  show ?thesis
    by (intro conjI gamma_ops subset_gamma assms len_gamma singleton_gamma it type_group_gamma)
      (simp add: ts_is_empty_def gamma_empty [OF assms])
qed

theorem type_set_algebra_witness:
  "ts_valid TS_POINTER \<and> ts_len TS_POINTER = 4 \<and> set (ts_iter TS_POINTER) = {TCtx, TPacket, TStack, TShared}"
proof -
  have v: "ts_valid TS_POINTER" by code_simp
  have g: "ts_gamma TS_POINTER = {TCtx, TPacket, TStack, TShared}"
    unfolding TS_POINTER_def gamma_ops by auto
  from type_set_algebra [OF v] v show ?thesis unfolding g by auto
qed

text \<open>The textual and numeric forms of the encodings and of the data kinds round-trip: a
  form is accepted exactly when it is the form of the value that is returned.\<close>

theorem type_encoding_roundtrip:
  "(string_to_type_encoding s = Some t) = (s = type_encoding_string t) \<and>
   (int_to_type_encoding v = Some t) = (v = int (type_to_bit t)) \<and>
   (regkind s = Some k) = (s = name_of k) \<and>
   iterate_kinds k l = (if kind_index k \<le> kind_index l
     then Some (filter (\<lambda>j. kind_index k \<le> kind_index j \<and> kind_index j \<le> kind_index l) all_kinds)
     else None)"
proof (intro conjI)
  show "(string_to_type_encoding s = Some t) = (s = type_encoding_string t)"
    by (cases t) (auto simp: string_to_type_encoding_def)
  show "(int_to_type_encoding v = Some t) = (v = int (type_to_bit t))"
    by (cases t) (auto simp: int_to_type_encoding_def)
  show "(regkind s = Some k) = (s = name_of k)"
    by (cases k) (auto simp: regkind_def)
  show "iterate_kinds k l = (if kind_index k \<le> kind_index l
     then Some (filter (\<lambda>j. kind_index k \<le> kind_index j \<and> kind_index j \<le> kind_index l) all_kinds)
     else None)"
    by (cases k; cases l) (simp_all add: iterate_kinds_def all_kinds_def)
qed

end
