(* ===== verification/Syntax.thy ===== *)
theory Syntax
  imports Isa Type_Encoding
begin

text \<open>
  \<open>src/ir/syntax.rs\<close> and \<open>src/cfg/label.rs\<close>: the instructions of the intermediate
  representation, the labels of the control-flow graph and the safety assertions.
\<close>

subsection \<open>Labels\<close>

record label =
  stack_frame_prefix :: string
  label_from :: int
  label_to :: int
  special_label :: string

definition label_entry :: label where
  "label_entry = \<lparr>stack_frame_prefix = [], label_from = - 1, label_to = - 1, special_label = []\<rparr>"

definition label_exit :: label where
  "label_exit =
     \<lparr>stack_frame_prefix = [], label_from = 2 ^ 31 - 1, label_to = 2 ^ 31 - 1, special_label = []\<rparr>"

definition label_new :: "int \<Rightarrow> label" where
  "label_new index =
     \<lparr>stack_frame_prefix = [], label_from = index, label_to = - 1, special_label = []\<rparr>"

definition label_new_with_to :: "int \<Rightarrow> int \<Rightarrow> label" where
  "label_new_with_to index t =
     \<lparr>stack_frame_prefix = [], label_from = index, label_to = t, special_label = []\<rparr>"

definition label_new_full :: "int \<Rightarrow> int \<Rightarrow> string \<Rightarrow> label" where
  "label_new_full index t prefix =
     \<lparr>stack_frame_prefix = prefix, label_from = index, label_to = t, special_label = []\<rparr>"

definition label_make_jump :: "label \<Rightarrow> label \<Rightarrow> label" where
  "label_make_jump src tgt =
     \<lparr>stack_frame_prefix = stack_frame_prefix tgt, label_from = label_from src,
      label_to = label_from tgt, special_label = []\<rparr>"

definition label_make_increment_counter :: "label \<Rightarrow> label" where
  "label_make_increment_counter l =
     \<lparr>stack_frame_prefix = stack_frame_prefix l, label_from = label_from l, label_to = label_to l,
      special_label = ''counter''\<rparr>"

definition label_isjump :: "label \<Rightarrow> bool" where
  "label_isjump l \<longleftrightarrow> label_to l \<noteq> - 1"

definition call_stack_depth :: "label \<Rightarrow> int" where
  "call_stack_depth l =
     (if stack_frame_prefix l = [] then 1
      else 2 + int (length (filter (\<lambda>c. c = CHR ''/'') (stack_frame_prefix l))))"

definition label_string :: "label \<Rightarrow> string" where
  "label_string l =
     (if l = label_entry then ''entry''
      else if l = label_exit then ''exit''
      else (if stack_frame_prefix l \<noteq> [] then stack_frame_prefix l @ ''/'' else [])
        @ int_string (label_from l)
        @ (if label_to l \<noteq> - 1 then '':'' @ int_string (label_to l) else [])
        @ (if special_label l \<noteq> [] then '' ('' @ special_label l @ '')'' else []))"

definition fits_i16 :: "int \<Rightarrow> bool" where
  "fits_i16 k \<longleftrightarrow> - (2 ^ 15) \<le> k \<and> k \<le> 2 ^ 15 - 1"

definition label_to_offset16 :: "nat \<Rightarrow> label \<Rightarrow> int" where
  "label_to_offset16 pc l =
     (let off = label_from l - int pc - 1 in if fits_i16 off then off else 0)"

definition label_to_offset32 :: "nat \<Rightarrow> label \<Rightarrow> int" where
  "label_to_offset32 pc l =
     (let off = label_from l - int pc - 1
      in if fits_i16 off then 0 else signed_take_bit 31 off)"

subsection \<open>Operations\<close>

datatype bin_op =
  MOV | ADD | SUB | MUL | UDIV | UMOD | OR_op | AND_op | LSH | RSH | ARSH | XOR_op | SDIV | SMOD
  | MOVSX8 | MOVSX16 | MOVSX32

datatype un_op = BE16 | BE32 | BE64 | LE16 | LE32 | LE64 | SWAP16 | SWAP32 | SWAP64 | NEG

datatype condition_op = EQ_c | NE_c | SET_c | NSET_c | LT_c | LE_c | GT_c | GE_c | SLT_c | SLE_c | SGT_c | SGE_c

datatype atomic_op = A_ADD | A_OR | A_AND | A_XOR | A_XCHG | A_CMPXCHG

fun atomic_op_code :: "atomic_op \<Rightarrow> 32 word" where
  "atomic_op_code A_ADD = 0x00"
| "atomic_op_code A_OR = 0x40"
| "atomic_op_code A_AND = 0x50"
| "atomic_op_code A_XOR = 0xa0"
| "atomic_op_code A_XCHG = 0xe0"
| "atomic_op_code A_CMPXCHG = 0xf0"

datatype operand = Imm "64 word" | Reg reg

subsection \<open>Instructions\<close>

record bin_ins =
  bin_op :: bin_op
  bin_dst :: reg
  bin_v :: operand
  bin_is64 :: bool
  bin_lddw :: bool

datatype pseudo_address_kind = VariableAddr | CodeAddr | MapByIdx | MapValueByIdx

record condition =
  cond_op :: condition_op
  cond_left :: reg
  cond_right :: operand
  cond_is64 :: bool

datatype arg_single_kind =
  AS_MapFd | AS_MapFdPrograms | AS_PtrToMapKey | AS_PtrToMapValue | AS_PtrToCtx | AS_PtrToStack
  | AS_PtrToFunc | AS_Anything | AS_PtrToSocket | AS_PtrToBtfId | AS_PtrToAllocMem
  | AS_PtrToSpinLock | AS_PtrToTimer | AS_ConstSizeOrZero | AS_PtrToWritableLong | AS_PtrToWritableInt

record arg_single =
  as_kind :: arg_single_kind
  as_or_null :: bool
  as_reg :: reg

datatype arg_pair_kind = AP_PtrToReadableMem | AP_PtrToWritableMem

record arg_pair =
  ap_kind :: arg_pair_kind
  ap_or_null :: bool
  ap_mem :: reg
  ap_size :: reg
  ap_can_be_zero :: bool

datatype call_kind = Helper | Kfunc | Builtin

record call_contract =
  singles :: "arg_single list"
  pairs :: "arg_pair list"
  return_ptr_type :: "type_encoding option"
  return_nullable :: bool
  is_map_lookup :: bool
  reallocate_packet :: bool
  alloc_size_reg :: "reg option"
  zero_args_mask :: "8 word"
  allowed_map_types :: "64 word"

definition contract_default :: call_contract where
  "contract_default =
     \<lparr>singles = [], pairs = [], return_ptr_type = None, return_nullable = False,
      is_map_lookup = False, reallocate_packet = False, alloc_size_reg = None,
      zero_args_mask = 0, allowed_map_types = 0\<rparr>"

record call =
  call_func :: "32 word"
  call_kind :: call_kind
  call_module :: "16 word"
  call_name :: string
  is_supported :: bool
  unsupported_reason :: string
  contract :: call_contract
  call_prefix :: string

text \<open>Equality of calls is the equality of their identity.\<close>

definition call_eq :: "call \<Rightarrow> call \<Rightarrow> bool" where
  "call_eq a b \<longleftrightarrow>
     call_func a = call_func b \<and> call_kind a = call_kind b \<and> call_module a = call_module b"

record deref =
  deref_width :: access_size
  deref_basereg :: reg
  deref_offset :: int

record mem_ins =
  mem_access :: deref
  mem_value :: operand
  mem_is_load :: bool
  mem_is_signed :: bool

record packet_ins =
  pkt_width :: access_size
  pkt_offset :: "32 word"
  pkt_regoffset :: "reg option"

record atomic_ins =
  at_op :: atomic_op
  at_fetch :: bool
  at_access :: deref
  at_valreg :: reg

datatype instruction =
    Undefined "32 word"
  | Bin bin_ins
  | Unary un_op reg bool
  | LoadMapFd reg "32 word"
  | LoadMapAddress reg "32 word" "32 word"
  | LoadPseudo reg pseudo_address_kind "32 word" "32 word"
  | Call call
  | CallLocal label string
  | Callx reg
  | CallBtf "32 word" "16 word"
  | Exit string
  | Jmp "condition option" label
  | Mem mem_ins
  | Packet packet_ins
  | Atomic atomic_ins
  | Assume condition bool
  | IncrementLoopCounter label

record btf_line_info =
  file_name :: string
  source_line :: string
  line_number :: "32 word"
  column_number :: "32 word"

type_synonym labeled_instruction = "label \<times> instruction \<times> btf_line_info option"
type_synonym instruction_seq = "labeled_instruction list"

subsection \<open>Assertions\<close>

datatype access_type = Compare | Read | Write

datatype assertion =
    Comparable reg reg bool
  | Addable reg reg
  | ValidDivisor reg bool bool
  | ValidAccess int reg int operand bool access_type
  | ValidStore reg reg
  | ValidSize reg bool
  | ValidMapKeyValue reg reg bool
  | ValidCallbackTarget reg
  | TypeConstraint reg type_group
  | FuncConstraint reg
  | ZeroCtxOffset reg bool
  | BoundedLoopCount label
  | ValidArgZero reg
  | ValidMapType reg "64 word" string

definition BOUNDED_LOOP_LIMIT :: int where
  "BOUNDED_LOOP_LIMIT = 100000"

text \<open>A branch offset is encoded in exactly one of the two fields: the 16-bit and the 32-bit
  forms add up to the distance to the target, the 16-bit form fits its field, and the wide form
  is used only when the narrow one cannot represent the distance.\<close>

theorem label_offset_encoding:
  assumes "0 \<le> label_from l" "label_from l < 2 ^ 31" "pc < 2 ^ 31 - 1"
  shows "label_to_offset16 pc l + label_to_offset32 pc l = label_from l - int pc - 1 \<and>
    fits_i16 (label_to_offset16 pc l) \<and>
    (label_to_offset32 pc l = 0 \<or> \<not> fits_i16 (label_to_offset32 pc l))"
proof -
  have "signed_take_bit 31 (label_from l - int pc - 1) = label_from l - int pc - 1"
    using assms by (intro signed_take_bit_int_eq_self) auto
  then show ?thesis by (auto simp: label_to_offset16_def label_to_offset32_def Let_def fits_i16_def)
qed

theorem label_offset_encoding_witness:
  "label_to_offset16 3 (label_new 40000) + label_to_offset32 3 (label_new 40000) = 39996"
  using label_offset_encoding [of "label_new 40000" 3] by (simp add: label_new_def)

end
