(* ===== verification/Call_Proto.thy ===== *)
theory Call_Proto
  imports Syntax
begin

text \<open>
  \<open>src/ir/call_proto.rs\<close>, \<open>src/ir/arg_kind.rs\<close>, the prototype types of
  \<open>src/spec/ebpf_base.rs\<close> and \<open>make_call_result\<close> of \<open>src/ir/unmarshal.rs\<close>: turning a helper
  prototype into the contract of a call.
\<close>

datatype ebpf_return_type =
  RT_Integer | RT_PtrToMapValueOrNull | RT_IntegerOrNoReturnIfSucceed | RT_Unsupported
  | RT_PtrToSockCommonOrNull | RT_PtrToSocketOrNull | RT_PtrToTcpSocketOrNull
  | RT_PtrToAllocMemOrNull | RT_PtrToBtfIdOrNull | RT_PtrToMemOrBtfIdOrNull | RT_PtrToBtfId
  | RT_PtrToMemOrBtfId

datatype ebpf_argument_type =
  DontCare | Anything | ConstSize | ConstSizeOrZero | PtrToCtx | PtrToMap | PtrToMapOfPrograms
  | PtrToMapKey | PtrToMapValue | PtrToReadableMem | PtrToReadableMemOrNull | PtrToWritableMem
  | PtrToStack | PtrToStackOrNull | PtrToCtxOrNull | PtrToWritableMemOrNull
  | PtrToBtfIdSockCommon | PtrToSpinLock | PtrToSockCommon | PtrToBtfId | PtrToLong | PtrToInt
  | PtrToConstStr | PtrToFunc | ConstAllocSizeOrZero | PtrToAllocMem | PtrToTimer
  | PtrToPercpuBtfId | PtrToReadonlyMem | PtrToReadonlyMemOrNull | PtrToUninitMapValue
  | ConstPtrToMap | Unsupported

subsection \<open>Argument kinds\<close>

definition to_arg_single_kind :: "ebpf_argument_type \<Rightarrow> arg_single_kind option" where
  "to_arg_single_kind t =
     (case t of
        Anything \<Rightarrow> Some AS_Anything
      | PtrToStack \<Rightarrow> Some AS_PtrToStack
      | PtrToStackOrNull \<Rightarrow> Some AS_PtrToStack
      | PtrToMap \<Rightarrow> Some AS_MapFd
      | ConstPtrToMap \<Rightarrow> Some AS_MapFd
      | PtrToMapOfPrograms \<Rightarrow> Some AS_MapFdPrograms
      | PtrToMapKey \<Rightarrow> Some AS_PtrToMapKey
      | PtrToMapValue \<Rightarrow> Some AS_PtrToMapValue
      | PtrToUninitMapValue \<Rightarrow> Some AS_PtrToMapValue
      | PtrToCtx \<Rightarrow> Some AS_PtrToCtx
      | PtrToCtxOrNull \<Rightarrow> Some AS_PtrToCtx
      | PtrToFunc \<Rightarrow> Some AS_PtrToFunc
      | _ \<Rightarrow> None)"

definition to_arg_pair_kind :: "ebpf_argument_type \<Rightarrow> arg_pair_kind option" where
  "to_arg_pair_kind t =
     (case t of
        PtrToReadableMem \<Rightarrow> Some AP_PtrToReadableMem
      | PtrToReadableMemOrNull \<Rightarrow> Some AP_PtrToReadableMem
      | PtrToReadonlyMem \<Rightarrow> Some AP_PtrToReadableMem
      | PtrToReadonlyMemOrNull \<Rightarrow> Some AP_PtrToReadableMem
      | PtrToWritableMem \<Rightarrow> Some AP_PtrToWritableMem
      | PtrToWritableMemOrNull \<Rightarrow> Some AP_PtrToWritableMem
      | _ \<Rightarrow> None)"

subsection \<open>Return types and arguments\<close>

datatype return_type_outcome = RT_Ok | RT_Unavailable

definition set_return :: "type_encoding \<Rightarrow> bool \<Rightarrow> call_contract \<Rightarrow> call_contract" where
  "set_return t n c = c\<lparr>return_ptr_type := Some t, return_nullable := n\<rparr>"

definition apply_return_type ::
  "call_contract \<Rightarrow> ebpf_return_type \<Rightarrow> return_type_outcome \<times> call_contract" where
  "apply_return_type c ret =
     (if ret \<in> {RT_Integer, RT_PtrToMapValueOrNull, RT_IntegerOrNoReturnIfSucceed} then (RT_Ok, c)
      else if ret \<in> {RT_PtrToSockCommonOrNull, RT_PtrToSocketOrNull, RT_PtrToTcpSocketOrNull}
      then (RT_Ok, set_return TSocket True c)
      else if ret = RT_PtrToAllocMemOrNull then (RT_Ok, set_return TAllocMem True c)
      else if ret \<in> {RT_PtrToBtfIdOrNull, RT_PtrToMemOrBtfIdOrNull}
      then (RT_Ok, set_return TBtfId True c)
      else if ret \<in> {RT_PtrToBtfId, RT_PtrToMemOrBtfId} then (RT_Ok, set_return TBtfId False c)
      else (RT_Unavailable, c))"

datatype arg_outcome = Single | Pair | Stop | Unavailable | MismatchedSize

definition padded_args :: "ebpf_argument_type list \<Rightarrow> ebpf_argument_type list" where
  "padded_args argument_type = DontCare # argument_type @ [DontCare]"

definition push_single :: "arg_single_kind \<Rightarrow> bool \<Rightarrow> nat \<Rightarrow> call_contract \<Rightarrow> call_contract" where
  "push_single k n i c =
     c\<lparr>singles := singles c @ [\<lparr>as_kind = k, as_or_null = n, as_reg = word_of_nat i\<rparr>]\<rparr>"

definition push_pair :: "arg_pair_kind \<Rightarrow> bool \<Rightarrow> nat \<Rightarrow> bool \<Rightarrow> call_contract \<Rightarrow> call_contract" where
  "push_pair k n i z c =
     c\<lparr>pairs := pairs c @ [\<lparr>ap_kind = k, ap_or_null = n, ap_mem = word_of_nat i,
         ap_size = word_of_nat (i + 1), ap_can_be_zero = z\<rparr>]\<rparr>"

definition or_default :: "'a \<Rightarrow> 'a option \<Rightarrow> 'a" where
  "or_default d x = (case x of Some y \<Rightarrow> y | None \<Rightarrow> d)"

definition process_arg ::
  "call_contract \<Rightarrow> ebpf_argument_type list \<Rightarrow> nat \<Rightarrow> arg_outcome \<times> call_contract" where
  "process_arg c args i =
     (let arg = args ! i
      in if arg = Unsupported then (Unavailable, c)
         else if arg = DontCare then (Stop, c)
         else if arg \<in> {Anything, PtrToMap, ConstPtrToMap, PtrToMapOfPrograms, PtrToMapKey,
             PtrToMapValue, PtrToUninitMapValue, PtrToStack, PtrToCtx, PtrToFunc}
         then (Single, push_single (or_default AS_Anything (to_arg_single_kind arg)) False i c)
         else if arg \<in> {PtrToStackOrNull, PtrToCtxOrNull}
         then (Single, push_single (or_default AS_Anything (to_arg_single_kind arg)) True i c)
         else if arg \<in> {PtrToBtfIdSockCommon, PtrToSockCommon}
         then (Single, push_single AS_PtrToSocket False i c)
         else if arg \<in> {PtrToBtfId, PtrToPercpuBtfId}
         then (Single, push_single AS_PtrToBtfId False i c)
         else if arg = PtrToAllocMem then (Single, push_single AS_PtrToAllocMem False i c)
         else if arg = PtrToSpinLock then (Single, push_single AS_PtrToSpinLock False i c)
         else if arg = PtrToTimer then (Single, push_single AS_PtrToTimer False i c)
         else if arg = ConstAllocSizeOrZero
         then (Single, push_single AS_ConstSizeOrZero False i
                 (c\<lparr>alloc_size_reg := Some (word_of_nat i)\<rparr>))
         else if arg = PtrToLong then (Single, push_single AS_PtrToWritableLong False i c)
         else if arg = PtrToInt then (Single, push_single AS_PtrToWritableInt False i c)
         else if arg = PtrToConstStr then (Unavailable, c)
         else if arg \<in> {ConstSize, ConstSizeOrZero} then (MismatchedSize, c)
         else
           let next_arg = args ! (i + 1)
           in if next_arg \<noteq> ConstSize \<and> next_arg \<noteq> ConstSizeOrZero then (MismatchedSize, c)
              else
                let can_be_zero = (next_arg = ConstSizeOrZero);
                    or_null = (arg \<in> {PtrToReadableMemOrNull, PtrToReadonlyMemOrNull,
                                      PtrToWritableMemOrNull})
                in (Pair, push_pair (or_default AP_PtrToReadableMem (to_arg_pair_kind arg))
                            or_null i can_be_zero c))"

subsection \<open>Helper prototypes and calls\<close>

record helper_prototype =
  proto_name :: string
  proto_return_type :: ebpf_return_type
  proto_argument_type :: "ebpf_argument_type list"
  proto_reallocate_packet :: bool
  proto_zero_args_mask :: "8 word"
  proto_allowed_map_types :: "64 word"

definition mark_unsupported :: "string \<Rightarrow> call \<Rightarrow> call" where
  "mark_unsupported why c = c\<lparr>is_supported := False, unsupported_reason := why\<rparr>"

text \<open>The loop over the arguments: \<open>Inl\<close> is the early return with the unsupported call.\<close>

function make_call_args :: "string \<Rightarrow> ebpf_argument_type list \<Rightarrow> nat \<Rightarrow> call \<Rightarrow> call" where
  "make_call_args name args i res =
     (if i < length args - 1
      then case process_arg (contract res) args i of
          (Single, c) \<Rightarrow> make_call_args name args (i + 1) (res\<lparr>contract := c\<rparr>)
        | (Pair, c) \<Rightarrow> make_call_args name args (i + 2) (res\<lparr>contract := c\<rparr>)
        | (Stop, c) \<Rightarrow> res\<lparr>contract := c\<rparr>
        | (Unavailable, c) \<Rightarrow>
            mark_unsupported (''helper argument type is unavailable on this platform: '' @ name)
              (res\<lparr>contract := c\<rparr>)
        | (MismatchedSize, c) \<Rightarrow>
            mark_unsupported
              (''mismatched EBPF_ARGUMENT_TYPE_PTR_TO* and EBPF_ARGUMENT_TYPE_CONST_SIZE: '' @ name)
              (res\<lparr>contract := c\<rparr>)
      else res)"
  by pat_completeness auto
termination
  by (relation "measure (\<lambda>(name, args, i, res). length args - i)") auto

declare make_call_args.simps [simp del]

definition make_call_result ::
  "32 word \<Rightarrow> (32 word \<Rightarrow> helper_prototype option) \<Rightarrow> string + call" where
  "make_call_result im try_get_helper_prototype =
     (case try_get_helper_prototype im of
        None \<Rightarrow> Inl (''bad helper function id '' @ int_string (sint im))
      | Some proto \<Rightarrow>
          let res = \<lparr>call_func = im, call_kind = Helper, call_module = 0,
                call_name = proto_name proto, is_supported = True, unsupported_reason = [],
                contract = contract_default
                  \<lparr>is_map_lookup := (proto_return_type proto = RT_PtrToMapValueOrNull),
                   reallocate_packet := proto_reallocate_packet proto,
                   zero_args_mask := proto_zero_args_mask proto,
                   allowed_map_types := proto_allowed_map_types proto\<rparr>,
                call_prefix = []\<rparr>
          in case apply_return_type (contract res) (proto_return_type proto) of
               (RT_Unavailable, c) \<Rightarrow>
                 Inr (mark_unsupported
                   (''helper prototype is unavailable on this platform: '' @ proto_name proto)
                   (res\<lparr>contract := c\<rparr>))
             | (RT_Ok, c) \<Rightarrow>
                 Inr (make_call_args (proto_name proto) (padded_args (proto_argument_type proto)) 1
                   (res\<lparr>contract := c\<rparr>)))"

subsection \<open>The registers of a contract\<close>

definition pair_regs :: "arg_pair list \<Rightarrow> reg list" where
  "pair_regs ps = concat (map (\<lambda>p. [ap_mem p, ap_size p]) ps)"

definition contract_regs :: "call_contract \<Rightarrow> reg list" where
  "contract_regs c = map as_reg (singles c) @ pair_regs (pairs c)"

text \<open>The arguments before position \<open>i\<close> have been consumed, each by one entry.\<close>

definition contract_upto :: "nat \<Rightarrow> call_contract \<Rightarrow> bool" where
  "contract_upto i c \<longleftrightarrow>
     distinct (contract_regs c) \<and> set (contract_regs c) = word_of_nat ` {1..<i} \<and>
     (\<forall>p\<in>set (pairs c). ap_size p = ap_mem p + 1) \<and>
     (\<forall>r. alloc_size_reg c = Some r \<longrightarrow> r \<in> set (map as_reg (singles c)))"

lemma process_arg_cases:
  assumes "process_arg c args i = (res, c')"
  shows "(res = Single \<longrightarrow> (\<exists>k n. c' = push_single k n i c \<or>
      c' = push_single k n i (c\<lparr>alloc_size_reg := Some (word_of_nat i)\<rparr>))) \<and>
    (res = Pair \<longrightarrow> (\<exists>k n z. c' = push_pair k n i z c) \<and> args ! (i + 1) \<noteq> DontCare) \<and>
    (res \<in> {Stop, Unavailable, MismatchedSize} \<longrightarrow> c' = c)"
  using assms by (cases "args ! i") (auto simp: process_arg_def Let_def split: if_splits)

lemma small_reg_inj: "i \<le> 6 \<Longrightarrow> j \<le> 6 \<Longrightarrow> (word_of_nat i :: reg) = word_of_nat j \<longleftrightarrow> i = j"
  by (simp add: word_of_nat_eq_iff take_bit_nat_eq_self)

lemma fresh_reg: "i \<le> 6 \<Longrightarrow> (word_of_nat i :: reg) \<notin> word_of_nat ` {1..<i}"
proof
  assume "i \<le> 6" "(word_of_nat i :: reg) \<in> word_of_nat ` {1..<i}"
  then obtain j where "1 \<le> j" "j < i" "(word_of_nat i :: reg) = word_of_nat j" by auto
  then show False using small_reg_inj [of i j] \<open>i \<le> 6\<close> by simp
qed

lemma push_single_upto:
  assumes "contract_upto i c" "1 \<le> i" "i \<le> 5"
  shows "contract_upto (i + 1) (push_single k n i c)"
    "contract_upto (i + 1) (push_single k n i (c\<lparr>alloc_size_reg := Some (word_of_nat i)\<rparr>))"
proof -
  have r: "{1..<i + 1} = insert i {1..<i}" using assms(2) by auto
  have f: "(word_of_nat i :: reg) \<notin> set (contract_regs c)"
    using assms fresh_reg [of i] by (simp add: contract_upto_def)
  show "contract_upto (i + 1) (push_single k n i c)"
    "contract_upto (i + 1) (push_single k n i (c\<lparr>alloc_size_reg := Some (word_of_nat i)\<rparr>))"
    using assms(1) f unfolding contract_upto_def r
    by (auto simp: push_single_def contract_regs_def)
qed

lemma push_pair_upto:
  assumes "contract_upto i c" "1 \<le> i" "i \<le> 4"
  shows "contract_upto (i + 2) (push_pair k n i z c)"
proof -
  have r: "{1..<i + 2} = insert i (insert (i + 1) {1..<i})" using assms(2) by auto
  have "(word_of_nat (i + 1) :: reg) \<notin> word_of_nat ` {1..<i + 1}" using assms fresh_reg [of "i + 1"] by simp
  then have f: "(word_of_nat i :: reg) \<notin> set (contract_regs c)"
    "(word_of_nat (i + 1) :: reg) \<notin> set (contract_regs c)"
    "(word_of_nat i :: reg) \<noteq> word_of_nat (i + 1)"
    using assms fresh_reg [of i] small_reg_inj [of i "i + 1"] by (auto simp: contract_upto_def)
  have e: "contract_regs (push_pair k n i z c) = contract_regs c @ [word_of_nat i, word_of_nat (i + 1)]"
    by (simp add: push_pair_def contract_regs_def pair_regs_def)
  have "distinct (contract_regs (push_pair k n i z c))"
    using assms(1) f unfolding e by (simp add: contract_upto_def del: of_nat_add)
  moreover have "set (contract_regs (push_pair k n i z c)) = word_of_nat ` {1..<i + 2}"
    using assms(1) unfolding e r by (auto simp: contract_upto_def)
  moreover have "(\<forall>p\<in>set (pairs (push_pair k n i z c)). ap_size p = ap_mem p + 1) \<and>
      (\<forall>r. alloc_size_reg (push_pair k n i z c) = Some r \<longrightarrow>
        r \<in> set (map as_reg (singles (push_pair k n i z c))))"
    using assms(1) by (simp add: contract_upto_def push_pair_def)
  ultimately show ?thesis by (simp add: contract_upto_def)
qed

lemma make_call_args_upto:
  assumes "contract_upto i (contract res)" "1 \<le> i" "i \<le> 6" "length args = 7" "args ! 6 = DontCare"
  shows "\<exists>j\<le>6. contract_upto j (contract (make_call_args name args i res))"
  using assms
proof (induction name args i res rule: make_call_args.induct)
  case (1 name args i res)
  show ?case
  proof (cases "i < 6")
    case False
    then have "make_call_args name args i res = res"
      using "1.prems"(4) by (simp add: make_call_args.simps [of name args i res])
    then show ?thesis using "1.prems"(1,3) by auto
  next
    case True
    obtain out c where p: "process_arg (contract res) args i = (out, c)" by (cases "process_arg (contract res) args i")
    note pc = process_arg_cases [OF p]
    show ?thesis
    proof (cases out)
      case Single
      have u: "contract_upto (i + 1) c"
        using pc Single push_single_upto [OF "1.prems"(1,2)] True by auto
      have "\<exists>j\<le>6. contract_upto j (contract (make_call_args name args (i + 1) (res\<lparr>contract := c\<rparr>)))"
        by (rule "1.IH"(1)) (use "1.prems" True Single p u in auto)
      then show ?thesis
        using True p Single "1.prems"(4) by (simp add: make_call_args.simps [of name args i res])
    next
      case Pair
      then have "i \<noteq> 5" using pc "1.prems"(5) by auto
      then have i: "i \<le> 4" using True by simp
      have u: "contract_upto (i + 2) c"
        using pc Pair push_pair_upto [OF "1.prems"(1,2) i] by auto
      have "\<exists>j\<le>6. contract_upto j (contract (make_call_args name args (i + 2) (res\<lparr>contract := c\<rparr>)))"
        by (rule "1.IH"(2)) (use "1.prems" True Pair p u i in auto)
      then show ?thesis
        using True p Pair "1.prems"(4) by (simp add: make_call_args.simps [of name args i res])
    qed (use pc True p "1.prems" in
      \<open>auto simp: make_call_args.simps [of name args i res] mark_unsupported_def
        intro!: exI [of _ i]\<close>)
  qed
qed

lemma make_call_result_upto:
  assumes "try_get im = Some proto" "length (proto_argument_type proto) = 5"
  shows "\<exists>c j. make_call_result im try_get = Inr c \<and> j \<le> 6 \<and> call_func c = im \<and> contract_upto j (contract c)"
proof -
  have start: "contract_upto 1 c" if "singles c = []" "pairs c = []" "alloc_size_reg c = None" for c
    using that by (simp add: contract_upto_def contract_regs_def pair_regs_def)
  define base where "base = contract_default
      \<lparr>is_map_lookup := (proto_return_type proto = RT_PtrToMapValueOrNull),
       reallocate_packet := proto_reallocate_packet proto,
       zero_args_mask := proto_zero_args_mask proto,
       allowed_map_types := proto_allowed_map_types proto\<rparr>"
  obtain out c0 where rt: "apply_return_type base (proto_return_type proto) = (out, c0)" by fastforce
  have "singles c0 = [] \<and> pairs c0 = [] \<and> alloc_size_reg c0 = None"
    using rt by (auto simp: apply_return_type_def base_def contract_default_def set_return_def split: if_splits)
  then have up: "contract_upto 1 c0" using start by blast
  have func: "call_func (make_call_args name args i res) = call_func res" for name args i res
    by (induction name args i res rule: make_call_args.induct)
      (auto simp: make_call_args.simps mark_unsupported_def split: arg_outcome.splits prod.splits)
  have len: "length (padded_args (proto_argument_type proto)) = 7"
    "padded_args (proto_argument_type proto) ! 6 = DontCare"
    using assms(2) by (simp_all add: padded_args_def nth_append)
  show ?thesis
  proof (cases out)
    case RT_Ok
    then show ?thesis
      using assms(1) rt make_call_args_upto [OF _ _ _ len, of 1] up
      by (simp add: make_call_result_def base_def func)
  next
    case RT_Unavailable
    then show ?thesis
      using assms(1) rt up
      by (auto simp: make_call_result_def base_def mark_unsupported_def intro!: exI [of _ 1])
  qed
qed

text \<open>C35: Resolving a helper with a prototype of five arguments always returns a call; its
  contract names each of the argument registers r1..rk exactly once for some k of at most 5, the
  pairs in adjacent registers, and an allocation size register, where there is one, is the register
  of one of its single arguments.\<close>

theorem make_call_contract:
  assumes "try_get im = Some proto" "length (proto_argument_type proto) = 5"
  shows "\<exists>c k. make_call_result im try_get = Inr c \<and> k \<le> 5 \<and> call_func c = im \<and>
    distinct (contract_regs (contract c)) \<and>
    set (contract_regs (contract c)) = word_of_nat ` {1..k} \<and>
    (\<forall>p\<in>set (pairs (contract c)). ap_size p = ap_mem p + 1) \<and>
    (\<forall>r. alloc_size_reg (contract c) = Some r \<longrightarrow> r \<in> set (map as_reg (singles (contract c))))"
proof -
  obtain c j where c: "make_call_result im try_get = Inr c" "j \<le> 6" "call_func c = im"
    "contract_upto j (contract c)" using make_call_result_upto [of try_get, OF assms] by blast
  have "{1..<j} = {1..j - 1}" by auto
  then show ?thesis using c by (intro exI [of _ c] exI [of _ "j - 1"]) (auto simp: contract_upto_def)
qed

definition sample_proto :: helper_prototype where
  "sample_proto = \<lparr>proto_name = ''map_lookup_elem'', proto_return_type = RT_PtrToMapValueOrNull,
     proto_argument_type = [PtrToMap, PtrToReadableMem, ConstSize, DontCare, DontCare],
     proto_reallocate_packet = False, proto_zero_args_mask = 0, proto_allowed_map_types = 0\<rparr>"

theorem make_call_contract_witness:
  "\<exists>c. make_call_result 1 (\<lambda>_. Some sample_proto) = Inr c \<and> is_supported c \<and> call_func c = 1"
proof -
  have s: "case make_call_result 1 (\<lambda>_. Some sample_proto) of Inr c \<Rightarrow> is_supported c | Inl _ \<Rightarrow> False" by code_simp
  have "length (proto_argument_type sample_proto) = 5" by code_simp
  from make_call_contract [OF refl this, of 1] s show ?thesis by auto
qed

end
