(* ===== verification/Config.thy ===== *)
theory Config
  imports Formatting
begin

text \<open>
  \<open>src/spec/config.rs\<close>: the verifier options and their validation.  The \<open>i32\<close> fields are
  integers; the products are checked, \<open>None\<close> standing for an overflow panic.
\<close>

record verbosity_options =
  simplify :: bool
  print_invariants :: bool
  print_failures :: bool
  print_line_info :: bool
  dump_btf_types_json :: bool
  collect_instruction_deps :: bool
  compact_slice :: bool

definition verbosity_default :: verbosity_options where
  "verbosity_default =
     \<lparr>simplify = True, print_invariants = False, print_failures = False, print_line_info = False,
      dump_btf_types_json = False, collect_instruction_deps = False, compact_slice = False\<rparr>"

record runtime_config =
  strict :: bool
  allow_division_by_zero :: bool
  setup_constraints :: bool
  big_endian :: bool
  check_for_termination :: bool
  subprogram_stack_size :: int
  max_call_stack_frames :: int
  max_packet_size :: int

abbreviation DEFAULT_SUBPROGRAM_STACK_SIZE :: int where "DEFAULT_SUBPROGRAM_STACK_SIZE \<equiv> 512"
abbreviation DEFAULT_MAX_CALL_STACK_FRAMES :: int where "DEFAULT_MAX_CALL_STACK_FRAMES \<equiv> 8"
abbreviation DEFAULT_MAX_PACKET_SIZE :: int where "DEFAULT_MAX_PACKET_SIZE \<equiv> 0xffff"
abbreviation MAX_SUBPROGRAM_STACK_SIZE :: int where "MAX_SUBPROGRAM_STACK_SIZE \<equiv> 1024 * 1024"
abbreviation MAX_CALL_STACK_FRAMES_LIMIT :: int where "MAX_CALL_STACK_FRAMES_LIMIT \<equiv> 128"
abbreviation MAX_PACKET_SIZE_LIMIT :: int where "MAX_PACKET_SIZE_LIMIT \<equiv> 1073741824"

definition chk_i32 :: "int \<Rightarrow> int option" where
  "chk_i32 x = (if - (2 ^ 31) \<le> x \<and> x < 2 ^ 31 then Some x else None)"

definition total_stack_size :: "runtime_config \<Rightarrow> int option" where
  "total_stack_size c = chk_i32 (max_call_stack_frames c * subprogram_stack_size c)"

definition ptr_max :: "runtime_config \<Rightarrow> int" where
  "ptr_max c = (2 ^ 31 - 1) - max_packet_size c"

definition range_message :: "string \<Rightarrow> int \<Rightarrow> int \<Rightarrow> string" where
  "range_message what limit got =
     what @ '' must be in [1, '' @ int_string limit @ ''], got '' @ int_string got"

definition runtime_validate :: "runtime_config \<Rightarrow> string + unit" where
  "runtime_validate c =
     (if subprogram_stack_size c \<le> 0 \<or> subprogram_stack_size c > MAX_SUBPROGRAM_STACK_SIZE
      then Inl (range_message ''subprogram_stack_size'' MAX_SUBPROGRAM_STACK_SIZE
                 (subprogram_stack_size c))
      else if max_call_stack_frames c \<le> 0 \<or> max_call_stack_frames c > MAX_CALL_STACK_FRAMES_LIMIT
      then Inl (range_message ''max_call_stack_frames'' MAX_CALL_STACK_FRAMES_LIMIT
                 (max_call_stack_frames c))
      else if max_packet_size c \<le> 0 \<or> max_packet_size c > MAX_PACKET_SIZE_LIMIT
      then Inl (range_message ''max_packet_size'' MAX_PACKET_SIZE_LIMIT (max_packet_size c))
      else Inr ())"

definition runtime_default :: runtime_config where
  "runtime_default =
     \<lparr>strict = False, allow_division_by_zero = True, setup_constraints = True, big_endian = False,
      check_for_termination = False, subprogram_stack_size = DEFAULT_SUBPROGRAM_STACK_SIZE,
      max_call_stack_frames = DEFAULT_MAX_CALL_STACK_FRAMES,
      max_packet_size = DEFAULT_MAX_PACKET_SIZE\<rparr>"

record verifier_options =
  runtime :: runtime_config
  verbosity_opts :: verbosity_options
  must_have_exit :: bool
  mock_map_fds :: bool

definition options_default :: verifier_options where
  "options_default =
     \<lparr>runtime = runtime_default, verbosity_opts = verbosity_default, must_have_exit = True,
      mock_map_fds = False\<rparr>"

definition options_validate :: "verifier_options \<Rightarrow> string + unit" where
  "options_validate opts = runtime_validate (runtime opts)"

lemma chk_i32_positive: "0 < x \<Longrightarrow> x \<le> 2 ^ 27 \<Longrightarrow> chk_i32 x = Some x"
  by (simp add: chk_i32_def)

text \<open>Options that validate have a total stack size that the 32-bit product can hold and a
  positive pointer bound, and the default options validate.\<close>

theorem validated_options_bounds:
  assumes "options_validate opts = Inr ()"
  shows "(\<exists>t. total_stack_size (runtime opts) = Some t \<and> 0 < t \<and> t \<le> 128 * 2 ^ 20) \<and>
    2 ^ 30 \<le> ptr_max (runtime opts) + 1 \<and> ptr_max (runtime opts) < 2 ^ 31 - 1"
proof -
  define s where "s = subprogram_stack_size (runtime opts)"
  define f where "f = max_call_stack_frames (runtime opts)"
  have b: "0 < s" "s \<le> 2 ^ 20" "0 < f" "f \<le> 128" "0 < max_packet_size (runtime opts)"
      "max_packet_size (runtime opts) \<le> 2 ^ 30"
    using assms by (auto simp: options_validate_def runtime_validate_def s_def f_def split: if_splits)
  have "f * s \<le> 128 * 2 ^ 20" using b by (intro mult_mono) auto
  moreover have "0 < f * s" using b by simp
  ultimately have "total_stack_size (runtime opts) = Some (f * s)" "0 < f * s" "f * s \<le> 128 * 2 ^ 20"
    using chk_i32_positive [of "f * s"] by (simp_all add: total_stack_size_def f_def s_def)
  then show ?thesis using b by (auto simp: ptr_max_def)
qed

theorem validated_options_bounds_witness:
  "options_validate options_default = Inr () \<and> total_stack_size (runtime options_default) = Some 4096"
proof -
  have v: "options_validate options_default = Inr ()" by code_simp
  have "total_stack_size (runtime options_default) = Some 4096" by code_simp
  with validated_options_bounds [OF v] v show ?thesis by blast
qed

end
