(* ===== verification/Unmarshal.thy ===== *)
theory Unmarshal
  imports Call_Proto Config
begin

text \<open>
  \<open>src/ir/unmarshal.rs\<close>: the decoder from eBPF instructions to the intermediate
  representation.  Every error return of the code is an \<open>Err\<close>, every \<open>unreachable!\<close> or panic
  is \<open>Panic\<close>.  The notes the decoder collects are threaded through as a list of lists, since
  they survive an error.  The platform and the program information are parameters.
\<close>

subsection \<open>Errors, notes and parameters\<close>

datatype unmarshal_error =
    InvalidInstruction nat string
  | ZeroLengthProgram
  | InvalidOptions string

datatype 'a outcome = Ok 'a | Err unmarshal_error | Panic

definition unmarshal_error_string :: "unmarshal_error \<Rightarrow> string" where
  "unmarshal_error_string e =
     (case e of
        InvalidInstruction pc msg \<Rightarrow> nat_string pc @ '': '' @ msg
      | ZeroLengthProgram \<Rightarrow> ''Zero length programs are not allowed''
      | InvalidOptions msg \<Rightarrow> ''Invalid verifier options: '' @ msg)"

definition invalid :: "nat \<Rightarrow> string \<Rightarrow> 'a outcome" where
  "invalid pc msg = Err (InvalidInstruction pc msg)"

definition invalid_opcode :: "nat \<Rightarrow> string \<Rightarrow> 8 word \<Rightarrow> 'a outcome" where
  "invalid_opcode pc msg op = Err (InvalidInstruction pc (msg @ '' op 0x'' @ hex_u8 op))"

type_synonym note_log = "string list list"

definition add_note :: "string \<Rightarrow> note_log \<Rightarrow> note_log" where
  "add_note what ns = (if ns = [] then ns else butlast ns @ [last ns @ [what]])"

definition note_next_pc :: "note_log \<Rightarrow> note_log" where
  "note_next_pc ns = ns @ [[]]"

record platform =
  get_builtin_call :: "32 word \<Rightarrow> call option"
  try_get_helper_prototype :: "32 word \<Rightarrow> helper_prototype option"
  is_helper_usable :: "32 word \<Rightarrow> bool"

record program_info =
  line_info :: "nat \<Rightarrow> btf_line_info option"
  builtin_call_offsets :: "nat list"

subsection \<open>Small conversions\<close>

definition get_mem_is_load :: "8 word \<Rightarrow> bool option" where
  "get_mem_is_load op =
     (let c = op AND INST_CLS_MASK
      in if c = INST_CLS_LD \<or> c = INST_CLS_LDX then Some True
         else if c = INST_CLS_ST \<or> c = INST_CLS_STX then Some False
         else None)"

definition sign_extend_imm :: "32 word \<Rightarrow> 64 word" where
  "sign_extend_imm im = scast im"

fun jmp_op_to_cond :: "jmp_op \<Rightarrow> condition_op" where
  "jmp_op_to_cond J_JA = EQ_c"
| "jmp_op_to_cond J_JEQ = EQ_c"
| "jmp_op_to_cond J_JGT = GT_c"
| "jmp_op_to_cond J_JGE = GE_c"
| "jmp_op_to_cond J_JSET = SET_c"
| "jmp_op_to_cond J_JNE = NE_c"
| "jmp_op_to_cond J_JSGT = SGT_c"
| "jmp_op_to_cond J_JSGE = SGE_c"
| "jmp_op_to_cond J_CALL = EQ_c"
| "jmp_op_to_cond J_EXIT = EQ_c"
| "jmp_op_to_cond J_JLT = LT_c"
| "jmp_op_to_cond J_JLE = LE_c"
| "jmp_op_to_cond J_JSLT = SLT_c"
| "jmp_op_to_cond J_JSLE = SLE_c"

subsection \<open>ALU instructions\<close>

text \<open>\<open>Inr\<close> is a binary operation (the inner \<open>Ok\<close> of the code), \<open>Inl\<close> a unary one.\<close>

definition alu_end_op :: "nat \<Rightarrow> ebpf_inst \<Rightarrow> (un_op + bin_op) outcome" where
  "alu_end_op pc i =
     (if src_raw i \<noteq> 0 then invalid_opcode pc ''bad instruction'' (opcode i)
      else if opcode i AND INST_CLS_MASK = INST_CLS_ALU64
      then (if opcode i AND INST_END_BE \<noteq> 0 then invalid_opcode pc ''bad instruction'' (opcode i)
            else if inst_imm i = 16 then Ok (Inl SWAP16)
            else if inst_imm i = 32 then Ok (Inl SWAP32)
            else if inst_imm i = 64 then Ok (Inl SWAP64)
            else invalid pc ''unsupported immediate'')
      else if inst_imm i = 16 then Ok (Inl (if opcode i AND INST_END_BE \<noteq> 0 then BE16 else LE16))
      else if inst_imm i = 32 then Ok (Inl (if opcode i AND INST_END_BE \<noteq> 0 then BE32 else LE32))
      else if inst_imm i = 64 then Ok (Inl (if opcode i AND INST_END_BE \<noteq> 0 then BE64 else LE64))
      else invalid pc ''unsupported immediate'')"

definition alu_neg_op :: "nat \<Rightarrow> ebpf_inst \<Rightarrow> (un_op + bin_op) outcome" where
  "alu_neg_op pc i =
     (if opcode i AND INST_SRC_REG \<noteq> 0 \<or> src_raw i \<noteq> 0
      then invalid_opcode pc ''bad instruction'' (opcode i)
      else if inst_imm i \<noteq> 0 then invalid_opcode pc ''nonzero imm for'' (opcode i)
      else Ok (Inl NEG))"

definition alu_mov_op :: "nat \<Rightarrow> ebpf_inst \<Rightarrow> (un_op + bin_op) outcome" where
  "alu_mov_op pc i =
     (if sint (inst_offset i) > 0 \<and> opcode i AND INST_SRC_REG = 0
      then invalid_opcode pc ''nonzero offset for'' (opcode i)
      else if inst_offset i = 0 then Ok (Inr MOV)
      else if inst_offset i = 8 then Ok (Inr MOVSX8)
      else if inst_offset i = 16 then Ok (Inr MOVSX16)
      else if inst_offset i = 32 then Ok (Inr MOVSX32)
      else invalid_opcode pc ''invalid offset for'' (opcode i))"

definition alu_div_op :: "nat \<Rightarrow> ebpf_inst \<Rightarrow> bin_op \<Rightarrow> bin_op \<Rightarrow> (un_op + bin_op) outcome" where
  "alu_div_op pc i unsigned_op signed_op =
     (if inst_offset i = 0 then Ok (Inr unsigned_op)
      else if inst_offset i = 1 then Ok (Inr signed_op)
      else invalid_opcode pc ''invalid offset for'' (opcode i))"

definition get_alu_op ::
  "nat \<Rightarrow> ebpf_inst \<Rightarrow> note_log \<Rightarrow> (un_op + bin_op) outcome \<times> note_log" where
  "get_alu_op pc i ns =
     (case alu_op_from_opcode (opcode i) of
        None \<Rightarrow> (invalid_opcode pc ''bad instruction'' (opcode i), ns)
      | Some aop \<Rightarrow>
          (case aop of
             Alu_DIV \<Rightarrow> (alu_div_op pc i UDIV SDIV, ns)
           | Alu_MOD \<Rightarrow> (alu_div_op pc i UMOD SMOD, ns)
           | Alu_MOV \<Rightarrow> (alu_mov_op pc i, ns)
           | _ \<Rightarrow>
             if inst_offset i \<noteq> 0 then (invalid_opcode pc ''nonzero offset for'' (opcode i), ns)
             else (case aop of
                 Alu_ADD \<Rightarrow> (Ok (Inr ADD), ns)
               | Alu_SUB \<Rightarrow> (Ok (Inr SUB), ns)
               | Alu_MUL \<Rightarrow> (Ok (Inr MUL), ns)
               | Alu_OR \<Rightarrow> (Ok (Inr OR_op), ns)
               | Alu_AND \<Rightarrow> (Ok (Inr AND_op), ns)
               | Alu_LSH \<Rightarrow> (Ok (Inr LSH), ns)
               | Alu_RSH \<Rightarrow> (Ok (Inr RSH), ns)
               | Alu_NEG \<Rightarrow> (alu_neg_op pc i, ns)
               | Alu_XOR \<Rightarrow> (Ok (Inr XOR_op), ns)
               | Alu_ARSH \<Rightarrow>
                   (Ok (Inr ARSH),
                    if opcode i AND INST_CLS_MASK = INST_CLS_ALU
                    then add_note ''arsh32 is not allowed'' ns else ns)
               | Alu_END \<Rightarrow> (alu_end_op pc i, ns)
               | _ \<Rightarrow> (Panic, ns))))"

definition alu_operand :: "nat \<Rightarrow> ebpf_inst \<Rightarrow> operand outcome" where
  "alu_operand pc i =
     (if opcode i AND INST_SRC_REG \<noteq> 0
      then (if inst_imm i \<noteq> 0 then invalid_opcode pc ''nonzero imm for'' (opcode i)
            else Ok (Reg (inst_src i)))
      else if src_raw i \<noteq> 0 then invalid_opcode pc ''bad instruction'' (opcode i)
      else Ok (Imm (sign_extend_imm (inst_imm i))))"

definition make_alu_op ::
  "nat \<Rightarrow> ebpf_inst \<Rightarrow> verifier_options \<Rightarrow> note_log \<Rightarrow> instruction outcome \<times> note_log" where
  "make_alu_op pc i opts ns =
     (let is64 = (opcode i AND INST_CLS_MASK = INST_CLS_ALU64)
      in if inst_dst i = R10_STACK_POINTER then (invalid pc ''invalid target r10'', ns)
         else if inst_dst i > R10_STACK_POINTER \<or> inst_src i > R10_STACK_POINTER
         then (invalid pc ''bad register'', ns)
         else case get_alu_op pc i ns of
             (Err e, ns') \<Rightarrow> (Err e, ns')
           | (Panic, ns') \<Rightarrow> (Panic, ns')
           | (Ok (Inl op), ns') \<Rightarrow> (Ok (Unary op (inst_dst i) is64), ns')
           | (Ok (Inr op), ns') \<Rightarrow>
             (case alu_operand pc i of
                Err e \<Rightarrow> (Err e, ns')
              | Panic \<Rightarrow> (Panic, ns')
              | Ok v \<Rightarrow>
                (Ok (Bin \<lparr>bin_op = op, bin_dst = inst_dst i, bin_v = v, bin_is64 = is64,
                     bin_lddw = False\<rparr>),
                 if \<not> allow_division_by_zero (runtime opts) \<and> (op = UDIV \<or> op = UMOD) \<and> v = Imm 0
                 then add_note ''division by zero'' ns' else ns')))"

subsection \<open>Memory instructions\<close>

definition mem_packet_abs :: "nat \<Rightarrow> ebpf_inst \<Rightarrow> access_size \<Rightarrow> bool \<Rightarrow> instruction outcome" where
  "mem_packet_abs pc i width is_ld =
     (if \<not> is_ld \<or> width = DWord then invalid_opcode pc ''bad instruction'' (opcode i)
      else if dst_raw i \<noteq> 0 then invalid_opcode pc ''nonzero dst for register'' (opcode i)
      else if src_raw i > 0 then invalid_opcode pc ''bad instruction'' (opcode i)
      else if inst_offset i \<noteq> 0 then invalid_opcode pc ''nonzero offset for'' (opcode i)
      else Ok (Packet \<lparr>pkt_width = width, pkt_offset = inst_imm i, pkt_regoffset = None\<rparr>))"

definition mem_packet_ind :: "nat \<Rightarrow> ebpf_inst \<Rightarrow> access_size \<Rightarrow> bool \<Rightarrow> instruction outcome" where
  "mem_packet_ind pc i width is_ld =
     (if \<not> is_ld \<or> width = DWord then invalid_opcode pc ''bad instruction'' (opcode i)
      else if dst_raw i \<noteq> 0 then invalid_opcode pc ''nonzero dst for register'' (opcode i)
      else if inst_src i > R10_STACK_POINTER then invalid pc ''bad register''
      else if inst_offset i \<noteq> 0 then invalid_opcode pc ''nonzero offset for'' (opcode i)
      else Ok (Packet \<lparr>pkt_width = width, pkt_offset = inst_imm i,
                  pkt_regoffset = Some (inst_src i)\<rparr>))"

definition mem_plain :: "nat \<Rightarrow> ebpf_inst \<Rightarrow> access_size \<Rightarrow> bool \<Rightarrow> instruction outcome" where
  "mem_plain pc i width is_ld =
     (if is_ld then invalid_opcode pc ''bad instruction'' (opcode i)
      else case get_mem_is_load (opcode i) of
        None \<Rightarrow> Panic
      | Some is_load \<Rightarrow>
        if is_load \<and> inst_dst i = R10_STACK_POINTER then invalid pc ''cannot modify r10''
        else
          let is_imm = (opcode i AND 1 = 0)
          in if is_imm \<and> src_raw i \<noteq> 0 then invalid_opcode pc ''bad instruction'' (opcode i)
             else if \<not> is_imm \<and> inst_imm i \<noteq> 0
             then invalid_opcode pc ''nonzero imm for'' (opcode i)
             else
               let basereg = (if is_load then inst_src i else inst_dst i)
               in Ok (Mem \<lparr>mem_access = \<lparr>deref_width = width, deref_basereg = basereg,
                        deref_offset = sint (inst_offset i)\<rparr>,
                      mem_value = (if is_load then Reg (inst_dst i)
                        else if is_imm then Imm (sign_extend_imm (inst_imm i))
                        else Reg (inst_src i)),
                      mem_is_load = is_load, mem_is_signed = False\<rparr>))"

definition mem_sign_extending ::
  "int \<Rightarrow> nat \<Rightarrow> ebpf_inst \<Rightarrow> access_size \<Rightarrow> note_log \<Rightarrow> instruction outcome \<times> note_log" where
  "mem_sign_extending stack_size pc i width ns =
     (if opcode i AND INST_CLS_MASK \<noteq> INST_CLS_LDX \<or> width = DWord
      then (invalid_opcode pc ''bad instruction'' (opcode i), ns)
      else if inst_dst i = R10_STACK_POINTER then (invalid pc ''cannot modify r10'', ns)
      else if inst_imm i \<noteq> 0 then (invalid_opcode pc ''nonzero imm for'' (opcode i), ns)
      else
        (Ok (Mem \<lparr>mem_access = \<lparr>deref_width = width, deref_basereg = inst_src i,
               deref_offset = sint (inst_offset i)\<rparr>,
             mem_value = Reg (inst_dst i), mem_is_load = True, mem_is_signed = True\<rparr>),
         if inst_src i = R10_STACK_POINTER \<and>
           (sint (inst_offset i) + access_size_bytes width > 0 \<or> sint (inst_offset i) < - stack_size)
         then add_note ''Stack access out of bounds'' ns else ns))"

text \<open>
  The mask is \<open>!INST_FETCH as i32\<close>: the complement is taken on the byte and then widened, so
  it is \<open>0xfe\<close> and not \<open>!1\<close> on 32 bits.
\<close>

definition atomic_operation :: "nat \<Rightarrow> 32 word \<Rightarrow> atomic_op outcome" where
  "atomic_operation pc im =
     (let x = im AND ucast (NOT INST_FETCH); fetch = (im AND ucast INST_FETCH \<noteq> 0)
      in if x = atomic_op_code A_ADD then Ok A_ADD
         else if x = atomic_op_code A_OR then Ok A_OR
         else if x = atomic_op_code A_AND then Ok A_AND
         else if x = atomic_op_code A_XOR then Ok A_XOR
         else if x = atomic_op_code A_XCHG
         then (if \<not> fetch then invalid pc ''unsupported immediate'' else Ok A_XCHG)
         else if x = atomic_op_code A_CMPXCHG
         then (if \<not> fetch then invalid pc ''unsupported immediate'' else Ok A_CMPXCHG)
         else invalid pc ''unsupported immediate'')"

definition mem_atomic :: "nat \<Rightarrow> ebpf_inst \<Rightarrow> access_size \<Rightarrow> instruction outcome" where
  "mem_atomic pc i width =
     (if opcode i AND INST_CLS_MASK \<noteq> INST_CLS_STX \<or>
        (opcode i AND INST_SIZE_MASK \<noteq> INST_SIZE_W \<and> opcode i AND INST_SIZE_MASK \<noteq> INST_SIZE_DW)
      then invalid_opcode pc ''bad instruction'' (opcode i)
      else case atomic_operation pc (inst_imm i) of
          Err e \<Rightarrow> Err e
        | Panic \<Rightarrow> Panic
        | Ok op \<Rightarrow>
          Ok (Atomic \<lparr>at_op = op, at_fetch = (inst_imm i AND ucast INST_FETCH \<noteq> 0),
                at_access = \<lparr>deref_width = width, deref_basereg = inst_dst i,
                  deref_offset = sint (inst_offset i)\<rparr>,
                at_valreg = inst_src i\<rparr>))"

definition make_mem_op ::
  "int \<Rightarrow> nat \<Rightarrow> ebpf_inst \<Rightarrow> note_log \<Rightarrow> instruction outcome \<times> note_log" where
  "make_mem_op stack_size pc i ns =
     (if inst_dst i > R10_STACK_POINTER \<or> inst_src i > R10_STACK_POINTER
      then (invalid pc ''bad register'', ns)
      else case access_size_from_opcode (opcode i) of
        None \<Rightarrow> (Panic, ns)
      | Some width \<Rightarrow>
        let is_ld = (opcode i AND INST_CLS_MASK = INST_CLS_LD); mode = opcode i AND INST_MODE_MASK
        in if mode = INST_MODE_IMM then (invalid_opcode pc ''bad instruction'' (opcode i), ns)
           else if mode = INST_MODE_ABS then (mem_packet_abs pc i width is_ld, ns)
           else if mode = INST_MODE_IND then (mem_packet_ind pc i width is_ld, ns)
           else if mode = INST_MODE_MEM then (mem_plain pc i width is_ld, ns)
           else if mode = INST_MODE_MEMSX then mem_sign_extending stack_size pc i width ns
           else if mode = INST_MODE_ATOMIC then (mem_atomic pc i width, ns)
           else (invalid_opcode pc ''bad instruction'' (opcode i), ns))"

subsection \<open>Wide loads\<close>

definition lddw_pseudo ::
  "nat \<Rightarrow> ebpf_inst \<Rightarrow> ebpf_inst \<Rightarrow> 32 word \<Rightarrow> pseudo_address_kind \<Rightarrow> instruction outcome" where
  "lddw_pseudo pc i nxt next_imm k =
     (if inst_imm nxt \<noteq> 0 then invalid pc ''lddw uses reserved fields''
      else Ok (LoadPseudo (inst_dst i) k (inst_imm i) next_imm))"

definition make_lddw ::
  "nat \<Rightarrow> ebpf_inst \<Rightarrow> 32 word \<Rightarrow> ebpf_inst list \<Rightarrow> instruction outcome" where
  "make_lddw pc i next_imm insts =
     (if pc \<ge> length insts - 1 then invalid pc ''incomplete lddw''
      else
        let nxt = insts ! (pc + 1); mode = src_raw i
        in if opcode nxt \<noteq> 0 \<or> dst_raw nxt \<noteq> 0 \<or> src_raw nxt \<noteq> 0 \<or> inst_offset nxt \<noteq> 0
           then invalid pc ''invalid lddw''
           else if inst_offset i \<noteq> 0 then invalid_opcode pc ''nonzero offset for'' (opcode i)
           else if inst_dst i > R10_STACK_POINTER then invalid pc ''bad register''
           else if mode = INST_LD_MODE_IMM
           then Ok (Bin \<lparr>bin_op = MOV, bin_dst = inst_dst i,
                  bin_v = Imm (imm_merge (inst_imm i) next_imm), bin_is64 = True, bin_lddw = True\<rparr>)
           else if mode = INST_LD_MODE_MAP_FD
           then (if inst_imm nxt \<noteq> 0 then invalid pc ''lddw uses reserved fields''
                 else Ok (LoadMapFd (inst_dst i) (inst_imm i)))
           else if mode = INST_LD_MODE_MAP_VALUE
           then Ok (LoadMapAddress (inst_dst i) (inst_imm i) next_imm)
           else if mode = INST_LD_MODE_VARIABLE_ADDR then lddw_pseudo pc i nxt next_imm VariableAddr
           else if mode = INST_LD_MODE_CODE_ADDR then lddw_pseudo pc i nxt next_imm CodeAddr
           else if mode = INST_LD_MODE_MAP_BY_IDX then lddw_pseudo pc i nxt next_imm MapByIdx
           else if mode = INST_LD_MODE_MAP_VALUE_BY_IDX
           then Ok (LoadPseudo (inst_dst i) MapValueByIdx (inst_imm i) next_imm)
           else invalid_opcode pc ''bad instruction'' (opcode i))"

subsection \<open>Jumps and calls\<close>

definition unavailable_call :: "32 word \<Rightarrow> string \<Rightarrow> call" where
  "unavailable_call im name =
     \<lparr>call_func = im, call_kind = Helper, call_module = 0, call_name = name,
      is_supported = False,
      unsupported_reason = ''helper function is unavailable on this platform'',
      contract = contract_default, call_prefix = []\<rparr>"

text \<open>The target is computed on \<open>isize\<close> and converted to \<open>usize\<close>: a negative one wraps around.\<close>

definition jump_target :: "nat \<Rightarrow> int \<Rightarrow> nat" where
  "jump_target pc off = nat ((int pc + 1 + off) mod 2 ^ 64)"

definition pc_label :: "nat \<Rightarrow> label" where
  "pc_label pc = label_new (signed_take_bit 31 (int pc))"

definition make_call_local :: "nat \<Rightarrow> ebpf_inst \<Rightarrow> ebpf_inst list \<Rightarrow> instruction outcome" where
  "make_call_local pc i insts =
     (if inst_offset i \<noteq> 0 then invalid_opcode pc ''nonzero offset for'' (opcode i)
      else if opcode i AND INST_SRC_REG \<noteq> 0 then invalid_opcode pc ''bad instruction'' (opcode i)
      else if dst_raw i \<noteq> 0 then invalid_opcode pc ''nonzero dst for register'' (opcode i)
      else
        let target = jump_target pc (sint (inst_imm i))
        in if target \<ge> length insts then invalid pc ''jump out of bounds''
           else Ok (CallLocal (pc_label target) []))"

definition make_callx :: "nat \<Rightarrow> ebpf_inst \<Rightarrow> instruction outcome" where
  "make_callx pc i =
     (if src_raw i \<noteq> 0 then invalid_opcode pc ''bad instruction'' (opcode i)
      else if inst_offset i \<noteq> 0 then invalid_opcode pc ''nonzero offset for'' (opcode i)
      else if inst_dst i > R10_STACK_POINTER then invalid pc ''bad register''
      else if inst_imm i \<noteq> 0
      then (if dst_raw i > 0 then invalid_opcode pc ''nonzero imm for'' (opcode i)
            else if sint (inst_imm i) < 0 \<or> sint (inst_imm i) > 10 then invalid pc ''bad register''
            else Ok (Callx (ucast (inst_imm i))))
      else Ok (Callx (inst_dst i)))"

definition make_call :: "platform \<Rightarrow> 32 word \<Rightarrow> call outcome" where
  "make_call plat im =
     (case make_call_result im (try_get_helper_prototype plat) of Inl _ \<Rightarrow> Panic | Inr c \<Rightarrow> Ok c)"

definition make_static_call ::
  "program_info \<Rightarrow> platform \<Rightarrow> nat \<Rightarrow> ebpf_inst \<Rightarrow> instruction outcome" where
  "make_static_call info plat pc i =
     (if dst_raw i \<noteq> 0 then invalid_opcode pc ''nonzero dst for register'' (opcode i)
      else if inst_offset i \<noteq> 0 then invalid_opcode pc ''nonzero offset for'' (opcode i)
      else
        let im = inst_imm i; id_name = int_string (sint im)
        in if pc \<in> set (builtin_call_offsets info)
           then (case get_builtin_call plat im of
                   Some c \<Rightarrow> Ok (Call c)
                 | None \<Rightarrow> Ok (Call (unavailable_call im id_name)))
           else if \<not> is_helper_usable plat im
           then Ok (Call (unavailable_call im
                  (case try_get_helper_prototype plat im of
                     Some p \<Rightarrow> proto_name p | None \<Rightarrow> id_name)))
           else case make_call plat im of
               Ok c \<Rightarrow> Ok (Call c)
             | Err e \<Rightarrow> Err e
             | Panic \<Rightarrow> Panic)"

definition make_call_ins ::
  "program_info \<Rightarrow> platform \<Rightarrow> nat \<Rightarrow> ebpf_inst \<Rightarrow> ebpf_inst list \<Rightarrow> instruction outcome" where
  "make_call_ins info plat pc i insts =
     (if opcode i AND INST_CLS_MASK \<noteq> INST_CLS_JMP
      then invalid_opcode pc ''bad instruction'' (opcode i)
      else if src_raw i > INST_CALL_BTF_HELPER then invalid_opcode pc ''bad instruction'' (opcode i)
      else if src_raw i = INST_CALL_LOCAL then make_call_local pc i insts
      else if opcode i AND INST_SRC_REG \<noteq> 0 then make_callx pc i
      else if src_raw i = INST_CALL_BTF_HELPER
      then (if dst_raw i \<noteq> 0 then invalid_opcode pc ''nonzero dst for register'' (opcode i)
            else if sint (inst_offset i) < 0
            then invalid_opcode pc ''negative module for'' (opcode i)
            else Ok (CallBtf (inst_imm i) (inst_offset i)))
      else make_static_call info plat pc i)"

definition make_exit :: "nat \<Rightarrow> ebpf_inst \<Rightarrow> instruction outcome" where
  "make_exit pc i =
     (if opcode i AND INST_CLS_MASK \<noteq> INST_CLS_JMP \<or> opcode i AND INST_SRC_REG \<noteq> 0
      then invalid_opcode pc ''bad instruction'' (opcode i)
      else if src_raw i \<noteq> 0 then invalid_opcode pc ''bad instruction'' (opcode i)
      else if dst_raw i \<noteq> 0 then invalid_opcode pc ''nonzero dst for register'' (opcode i)
      else if inst_imm i \<noteq> 0 then invalid_opcode pc ''nonzero imm for'' (opcode i)
      else if inst_offset i \<noteq> 0 then invalid_opcode pc ''nonzero offset for'' (opcode i)
      else Ok (Exit []))"

definition make_goto :: "nat \<Rightarrow> ebpf_inst \<Rightarrow> ebpf_inst list \<Rightarrow> instruction outcome" where
  "make_goto pc i insts =
     (let cls = opcode i AND INST_CLS_MASK
      in if cls \<noteq> INST_CLS_JMP \<and> cls \<noteq> INST_CLS_JMP32
         then invalid_opcode pc ''bad instruction'' (opcode i)
         else if opcode i AND INST_SRC_REG \<noteq> 0 then invalid_opcode pc ''bad instruction'' (opcode i)
         else if cls = INST_CLS_JMP \<and> inst_imm i \<noteq> 0
         then invalid_opcode pc ''nonzero imm for'' (opcode i)
         else if cls = INST_CLS_JMP32 \<and> inst_offset i \<noteq> 0
         then invalid_opcode pc ''nonzero offset for'' (opcode i)
         else if dst_raw i \<noteq> 0 then invalid_opcode pc ''nonzero dst for register'' (opcode i)
         else if src_raw i \<noteq> 0 then invalid_opcode pc ''bad instruction'' (opcode i)
         else
           let off = (if opcode i = INST_OP_JA32 then sint (inst_imm i) else sint (inst_offset i));
               target = jump_target pc off
           in if target \<ge> length insts then invalid pc ''jump out of bounds''
              else Ok (Jmp None (pc_label target)))"

definition make_conditional ::
  "nat \<Rightarrow> ebpf_inst \<Rightarrow> ebpf_inst list \<Rightarrow> jmp_op \<Rightarrow> instruction outcome" where
  "make_conditional pc i insts jop =
     (let is64 = (opcode i AND INST_CLS_MASK = INST_CLS_JMP); is_reg = (opcode i AND INST_SRC_REG \<noteq> 0)
      in if \<not> is_reg \<and> src_raw i \<noteq> 0 then invalid_opcode pc ''bad instruction'' (opcode i)
         else if is_reg \<and> inst_imm i \<noteq> 0 then invalid_opcode pc ''nonzero imm for'' (opcode i)
         else
           let target = jump_target pc (sint (inst_offset i))
           in if target \<ge> length insts then invalid pc ''jump out of bounds''
              else if inst_dst i > R10_STACK_POINTER then invalid pc ''bad register''
              else if is_reg \<and> inst_src i > R10_STACK_POINTER then invalid pc ''bad register''
              else Ok (Jmp (Some \<lparr>cond_op = jmp_op_to_cond jop, cond_left = inst_dst i,
                       cond_right = (if is_reg then Reg (inst_src i)
                                     else Imm (sign_extend_imm (inst_imm i))),
                       cond_is64 = is64\<rparr>) (pc_label target)))"

definition make_jmp ::
  "program_info \<Rightarrow> platform \<Rightarrow> nat \<Rightarrow> ebpf_inst \<Rightarrow> ebpf_inst list \<Rightarrow> instruction outcome" where
  "make_jmp info plat pc i insts =
     (case jmp_op_from_opcode (opcode i) of
        None \<Rightarrow> invalid_opcode pc ''bad instruction'' (opcode i)
      | Some J_CALL \<Rightarrow> make_call_ins info plat pc i insts
      | Some J_EXIT \<Rightarrow> make_exit pc i
      | Some J_JA \<Rightarrow> make_goto pc i insts
      | Some jop \<Rightarrow> make_conditional pc i insts jop)"

subsection \<open>The decoder loop\<close>

text \<open>
  The peephole merge of a 64-bit shift left by 32 followed by a shift right by 32 of the same
  register; the flag says whether the next instruction is skipped.
\<close>

definition peephole ::
  "nat \<Rightarrow> ebpf_inst list \<Rightarrow> verifier_options \<Rightarrow> instruction \<Rightarrow> note_log \<Rightarrow>
    (instruction \<times> bool) outcome \<times> note_log" where
  "peephole pc insts opts ins ns =
     (case ins of
        Bin b \<Rightarrow>
          if pc < length insts - 1 \<and> bin_op b = LSH \<and> bin_v b = Imm 32 \<and> bin_is64 b
          then
            let nxt = insts ! (pc + 1)
            in if class_from_opcode (opcode nxt) = Some Cls_ALU64
               then case make_alu_op (pc + 1) nxt opts ns of
                   (Ok (Bin nb), ns') \<Rightarrow>
                     if bin_dst nb = bin_dst b \<and> bin_v nb = Imm 32 \<and> bin_is64 nb
                     then if bin_op nb = RSH
                       then (Ok (Bin \<lparr>bin_op = MOV, bin_dst = bin_dst b, bin_v = Reg (bin_dst b),
                               bin_is64 = False, bin_lddw = False\<rparr>, True), ns')
                       else if bin_op nb = ARSH
                       then (Ok (Bin \<lparr>bin_op = MOVSX32, bin_dst = bin_dst b, bin_v = Reg (bin_dst b),
                               bin_is64 = True, bin_lddw = False\<rparr>, True), ns')
                       else (Ok (ins, False), ns')
                     else (Ok (ins, False), ns')
                 | (Panic, ns') \<Rightarrow> (Panic, ns')
                 | (_, ns') \<Rightarrow> (Ok (ins, False), ns')
               else (Ok (ins, False), ns)
          else (Ok (ins, False), ns)
      | _ \<Rightarrow> (Ok (ins, False), ns))"

record unmarshal_env =
  env_insts :: "ebpf_inst list"
  env_info :: program_info
  env_platform :: platform
  env_options :: verifier_options

definition no_skip :: "instruction outcome \<times> note_log \<Rightarrow> (instruction \<times> bool) outcome \<times> note_log" where
  "no_skip r = (case r of (Ok x, ns) \<Rightarrow> (Ok (x, False), ns) | (Err e, ns) \<Rightarrow> (Err e, ns) | (Panic, ns) \<Rightarrow> (Panic, ns))"

text \<open>The body of the loop up to the new instruction and whether to skip the next one.\<close>

definition decode_at :: "unmarshal_env \<Rightarrow> nat \<Rightarrow> note_log \<Rightarrow> (instruction \<times> bool) outcome \<times> note_log" where
  "decode_at env pc ns =
     (let insts = env_insts env; i = insts ! pc; opts = env_options env;
          stack_size = subprogram_stack_size (runtime opts)
      in case class_from_opcode (opcode i) of
           Some Cls_LD \<Rightarrow>
             if opcode i = INST_OP_LDDW_IMM
             then let next_imm = (if pc < length insts - 1 then inst_imm (insts ! (pc + 1)) else 0)
               in (case make_lddw pc i next_imm insts of
                     Ok x \<Rightarrow> (Ok (x, True), ns) | Err e \<Rightarrow> (Err e, ns) | Panic \<Rightarrow> (Panic, ns))
             else no_skip (make_mem_op stack_size pc i ns)
         | Some Cls_LDX \<Rightarrow> no_skip (make_mem_op stack_size pc i ns)
         | Some Cls_ST \<Rightarrow> no_skip (make_mem_op stack_size pc i ns)
         | Some Cls_STX \<Rightarrow> no_skip (make_mem_op stack_size pc i ns)
         | Some Cls_JMP \<Rightarrow> no_skip (make_jmp (env_info env) (env_platform env) pc i insts, ns)
         | Some Cls_JMP32 \<Rightarrow> no_skip (make_jmp (env_info env) (env_platform env) pc i insts, ns)
         | Some _ \<Rightarrow>
             (case make_alu_op pc i opts ns of
                (Ok ins, ns') \<Rightarrow> peephole pc insts opts ins ns'
              | (Err e, ns') \<Rightarrow> (Err e, ns')
              | (Panic, ns') \<Rightarrow> (Panic, ns'))
         | None \<Rightarrow> (invalid_opcode pc ''invalid class'' (opcode i AND INST_CLS_MASK), ns))"

fun falls_through :: "instruction \<Rightarrow> bool" where
  "falls_through (Exit _) = False"
| "falls_through (Jmp None _) = False"
| "falls_through _ = True"

fun is_exit :: "instruction \<Rightarrow> bool" where
  "is_exit (Exit _) = True"
| "is_exit _ = False"

function unmarshal_loop ::
  "unmarshal_env \<Rightarrow> nat \<Rightarrow> nat \<Rightarrow> instruction_seq \<Rightarrow> note_log \<Rightarrow> instruction_seq outcome \<times> note_log" where
  "unmarshal_loop env pc exit_count prog ns =
     (if pc < length (env_insts env)
      then case decode_at env pc ns of
          (Err e, ns1) \<Rightarrow> (Err e, ns1)
        | (Panic, ns1) \<Rightarrow> (Panic, ns1)
        | (Ok (ins, skip), ns1) \<Rightarrow>
          let ns2 = (if pc = length (env_insts env) - 1 \<and> falls_through ins
                     then add_note ''fallthrough in last instruction'' ns1 else ns1);
              li = (if print_line_info (verbosity_opts (env_options env))
                    then line_info (env_info env) pc else None);
              ns3 = note_next_pc ns2
          in unmarshal_loop env (if skip then pc + 2 else pc + 1)
               (if is_exit ins then exit_count + 1 else exit_count)
               (prog @ [(pc_label pc, ins, li)])
               (if skip then note_next_pc ns3 else ns3)
      else (Ok prog, if exit_count = 0 then add_note ''no exit instruction'' ns else ns))"
  by pat_completeness auto
termination
  by (relation "measure (\<lambda>(env, pc, ec, prog, ns). length (env_insts env) - pc)") auto

declare unmarshal_loop.simps [simp del]

definition unmarshal :: "unmarshal_env \<Rightarrow> note_log \<Rightarrow> instruction_seq outcome \<times> note_log" where
  "unmarshal env ns =
     (case options_validate (env_options env) of
        Inl msg \<Rightarrow> (Err (InvalidOptions msg), ns)
      | Inr _ \<Rightarrow>
        if env_insts env = [] then (Err ZeroLengthProgram, ns)
        else unmarshal_loop env 0 0 [] (note_next_pc ns))"

end
