(* ===== verification/Unmarshal_Lemmas.thy ===== *)
theory Unmarshal_Lemmas
  imports Unmarshal
begin

text \<open>
  Lemmas about the decoder: the registers of a decoded instruction, the targets of jumps, the
  absence of panics, the shape of the decoded sequence and the effect of the peephole merge.
\<close>

subsection \<open>Registers\<close>

fun operand_regs :: "operand \<Rightarrow> reg list" where
  "operand_regs (Imm _) = []"
| "operand_regs (Reg r) = [r]"

fun ins_regs :: "instruction \<Rightarrow> reg list" where
  "ins_regs (Bin b) = bin_dst b # operand_regs (bin_v b)"
| "ins_regs (Unary _ d _) = [d]"
| "ins_regs (LoadMapFd d _) = [d]"
| "ins_regs (LoadMapAddress d _ _) = [d]"
| "ins_regs (LoadPseudo d _ _ _) = [d]"
| "ins_regs (Callx r) = [r]"
| "ins_regs (Jmp (Some c) _) = cond_left c # operand_regs (cond_right c)"
| "ins_regs (Mem m) = deref_basereg (mem_access m) # operand_regs (mem_value m)"
| "ins_regs (Packet p) = (case pkt_regoffset p of Some r \<Rightarrow> [r] | None \<Rightarrow> [])"
| "ins_regs (Atomic a) = [deref_basereg (at_access a), at_valreg a]"
| "ins_regs _ = []"

text \<open>The general registers an instruction overwrites; a call overwrites \<open>r0\<close> (and the
  argument registers), a compare-and-exchange \<open>r0\<close>, another fetching atomic operation its value
  register.\<close>

fun written_regs :: "instruction \<Rightarrow> reg list" where
  "written_regs (Bin b) = [bin_dst b]"
| "written_regs (Unary _ d _) = [d]"
| "written_regs (LoadMapFd d _) = [d]"
| "written_regs (LoadMapAddress d _ _) = [d]"
| "written_regs (LoadPseudo d _ _ _) = [d]"
| "written_regs (Mem m) = (if mem_is_load m then operand_regs (mem_value m) else [])"
| "written_regs (Atomic a) =
     (if \<not> at_fetch a then [] else if at_op a = A_CMPXCHG then [0] else [at_valreg a])"
| "written_regs (Packet _) = [0, 1, 2, 3, 4, 5]"
| "written_regs (Call _) = [0, 1, 2, 3, 4, 5]"
| "written_regs (Callx _) = [0, 1, 2, 3, 4, 5]"
| "written_regs (CallBtf _ _) = [0, 1, 2, 3, 4, 5]"
| "written_regs _ = []"

text \<open>The instructions whose destination the decoder does not compare with \<open>r10\<close>: the wide loads
  and the fetching atomic operations.\<close>

fun unchecked_dst :: "instruction \<Rightarrow> bool" where
  "unchecked_dst (Bin b) = bin_lddw b"
| "unchecked_dst (LoadMapFd _ _) = True"
| "unchecked_dst (LoadMapAddress _ _ _) = True"
| "unchecked_dst (LoadPseudo _ _ _ _) = True"
| "unchecked_dst (Atomic a) = at_fetch a"
| "unchecked_dst _ = False"

definition regs_ok :: "instruction \<Rightarrow> bool" where
  "regs_ok ins \<longleftrightarrow> (\<forall>r\<in>set (ins_regs ins). r \<le> R10_STACK_POINTER) \<and>
     (R10_STACK_POINTER \<in> set (written_regs ins) \<longrightarrow> unchecked_dst ins)"

lemma alu_operand_regs: "alu_operand pc i = Ok v \<Longrightarrow> set (operand_regs v) \<subseteq> {inst_src i}"
  by (auto simp: alu_operand_def invalid_opcode_def split: if_splits)

lemma make_alu_op_regs:
  assumes "make_alu_op pc i opts ns = (Ok ins, ns')"
  shows "regs_ok ins"
proof -
  have d: "inst_dst i < 10" "inst_src i \<le> 10"
    using assms by (auto simp: make_alu_op_def Let_def invalid_def not_less split: if_splits)
  then show ?thesis
    using assms
    by (auto simp: make_alu_op_def Let_def invalid_def regs_ok_def not_less
        dest!: alu_operand_regs split: if_splits outcome.splits sum.splits prod.splits)
qed

lemma make_mem_op_regs:
  assumes "make_mem_op st pc i ns = (Ok ins, ns')"
  shows "regs_ok ins"
proof -
  have d: "inst_dst i \<le> 10" "inst_src i \<le> 10"
    using assms by (auto simp: make_mem_op_def invalid_def not_less split: if_splits)
  then show ?thesis
    using assms
    by (auto simp: make_mem_op_def Let_def invalid_def invalid_opcode_def regs_ok_def
        mem_packet_abs_def mem_packet_ind_def mem_plain_def mem_sign_extending_def mem_atomic_def
        split: if_splits option.splits outcome.splits)
qed

lemma make_lddw_regs: "make_lddw pc i n insts = Ok ins \<Longrightarrow> regs_ok ins"
  by (auto simp: make_lddw_def lddw_pseudo_def Let_def invalid_def invalid_opcode_def regs_ok_def
      not_less split: if_splits)

lemma callx_imm_reg:
  assumes "0 \<le> sint (x::32 word)" "sint x \<le> 10"
  shows "(ucast x :: reg) \<le> 10"
proof -
  have "k \<in> {0, 1, 2, 3, 4, 5, 6, 7, 8, 9, 10}" if "0 \<le> k" "k \<le> 10" for k :: int
    using that by simp presburger
  then have "sint x \<in> {0, 1, 2, 3, 4, 5, 6, 7, 8, 9, 10}" using assms .
  moreover have "x = word_of_int (sint x)" by simp
  ultimately have "x \<in> word_of_int ` {0, 1, 2, 3, 4, 5, 6, 7, 8, 9, 10}" by blast
  then show ?thesis by auto
qed

lemma make_jmp_regs: "make_jmp info plat pc i insts = Ok ins \<Longrightarrow> regs_ok ins"
  by (auto simp: make_jmp_def make_call_ins_def make_call_local_def make_callx_def make_static_call_def
      make_exit_def make_goto_def make_conditional_def Let_def invalid_def invalid_opcode_def
      regs_ok_def not_less callx_imm_reg split: if_splits option.splits jmp_op.splits outcome.splits)

lemma peephole_regs:
  "regs_ok ins \<Longrightarrow> \<forall>b. ins = Bin b \<longrightarrow> \<not> bin_lddw b \<Longrightarrow>
    peephole pc insts opts ins ns = (Ok (ins', skip), ns') \<Longrightarrow> regs_ok ins'"
  by (cases ins)
    (auto simp: peephole_def Let_def regs_ok_def split: if_splits outcome.splits instruction.splits prod.splits)

lemma make_alu_op_form:
  "make_alu_op pc i opts ns = (Ok ins, ns') \<Longrightarrow>
    (\<exists>b. ins = Bin b \<and> \<not> bin_lddw b) \<or> (\<exists>op d w. ins = Unary op d w)"
  by (auto simp: make_alu_op_def Let_def invalid_def split: if_splits outcome.splits sum.splits prod.splits)

lemma no_skip_Ok: "no_skip r = (Ok (x, b), ns') \<longleftrightarrow> r = (Ok x, ns') \<and> \<not> b"
  by (auto simp: no_skip_def split: prod.splits outcome.splits)

lemma decode_at_cases:
  assumes "decode_at env pc ns = (Ok (ins, skip), ns')"
  shows "(\<exists>n. make_lddw pc (env_insts env ! pc) n (env_insts env) = Ok ins \<and> skip) \<or>
    (\<exists>st. make_mem_op st pc (env_insts env ! pc) ns = (Ok ins, ns') \<and> \<not> skip) \<or>
    (make_jmp (env_info env) (env_platform env) pc (env_insts env ! pc) (env_insts env) = Ok ins \<and> \<not> skip) \<or>
    (\<exists>ins1 ns1. make_alu_op pc (env_insts env ! pc) (env_options env) ns = (Ok ins1, ns1) \<and>
      peephole pc (env_insts env) (env_options env) ins1 ns1 = (Ok (ins, skip), ns'))"
  using assms
  by (auto simp: decode_at_def Let_def no_skip_Ok invalid_opcode_def
      split: option.splits instruction_class.splits if_splits outcome.splits prod.splits)

lemma decode_at_regs:
  assumes "decode_at env pc ns = (Ok (ins, skip), ns')"
  shows "regs_ok ins"
  using decode_at_cases [OF assms]
proof (elim disjE exE conjE)
  fix ins1 ns1
  assume m: "make_alu_op pc (env_insts env ! pc) (env_options env) ns = (Ok ins1, ns1)"
    and p: "peephole pc (env_insts env) (env_options env) ins1 ns1 = (Ok (ins, skip), ns')"
  from m have "\<forall>b. ins1 = Bin b \<longrightarrow> \<not> bin_lddw b" using make_alu_op_form by fastforce
  then show ?thesis using peephole_regs [OF make_alu_op_regs [OF m]] p by blast
qed (use make_lddw_regs make_mem_op_regs make_jmp_regs in blast)+

subsection \<open>Jump targets\<close>

fun target_ok :: "nat \<Rightarrow> instruction \<Rightarrow> bool" where
  "target_ok n (Jmp _ l) = (\<exists>t<n. l = pc_label t)"
| "target_ok n (CallLocal l _) = (\<exists>t<n. l = pc_label t)"
| "target_ok n _ = True"

lemma make_jmp_target: "make_jmp info plat pc i insts = Ok ins \<Longrightarrow> target_ok (length insts) ins"
  by (auto simp: make_jmp_def make_call_ins_def make_call_local_def make_callx_def make_static_call_def
      make_exit_def make_goto_def make_conditional_def Let_def invalid_def invalid_opcode_def
      not_le split: if_splits option.splits jmp_op.splits outcome.splits)

lemma make_lddw_target: "make_lddw pc i n insts = Ok ins \<Longrightarrow> target_ok k ins"
  by (auto simp: make_lddw_def lddw_pseudo_def Let_def invalid_def invalid_opcode_def split: if_splits)

lemma make_mem_op_target: "make_mem_op st pc i ns = (Ok ins, ns') \<Longrightarrow> target_ok k ins"
  by (auto simp: make_mem_op_def Let_def invalid_def invalid_opcode_def
        mem_packet_abs_def mem_packet_ind_def mem_plain_def mem_sign_extending_def mem_atomic_def
        split: if_splits option.splits outcome.splits)

lemma peephole_target: "target_ok k ins \<Longrightarrow> peephole pc insts opts ins ns = (Ok (ins', skip), ns') \<Longrightarrow> target_ok k ins'"
  by (cases ins)
    (auto simp: peephole_def Let_def split: if_splits outcome.splits instruction.splits prod.splits)

lemma decode_at_target:
  assumes "decode_at env pc ns = (Ok (ins, skip), ns')"
  shows "target_ok (length (env_insts env)) ins"
  using decode_at_cases [OF assms]
proof (elim disjE exE conjE)
  fix ins1 ns1
  assume "make_alu_op pc (env_insts env ! pc) (env_options env) ns = (Ok ins1, ns1)"
    "peephole pc (env_insts env) (env_options env) ins1 ns1 = (Ok (ins, skip), ns')"
  moreover from this(1) have "target_ok (length (env_insts env)) ins1" using make_alu_op_form by fastforce
  ultimately show ?thesis using peephole_target by blast
qed (use make_lddw_target make_mem_op_target make_jmp_target in blast)+

subsection \<open>No panic\<close>

lemma and_7_cases: "(x::8 word) AND 7 \<in> {0, 1, 2, 3, 4, 5, 6, 7}"
proof -
  have "unat (x AND 7) \<le> 7" using word_and_le1 [of x 7] by (simp add: word_le_nat_alt)
  then have "unat (x AND 7) \<in> {0, 1, 2, 3, 4, 5, 6, 7}" by auto
  then show ?thesis by (auto simp: word_unat_eq_iff)
qed

lemma and_24_cases: "(x::8 word) AND 24 \<in> {0, 8, 16, 24}"
proof -
  have m: "(x AND 24) AND 7 = 0" by (simp add: and.assoc)
  have "unat (x AND 24) \<le> 24" using word_and_le1 [of x 24] by (simp add: word_le_nat_alt)
  then have "unat (x AND 24) \<in> set [0..<25]" by simp
  moreover have "x AND 24 = word_of_nat (unat (x AND 24))" by simp
  ultimately have "x AND 24 \<in> word_of_nat ` set [0..<25]" by (metis image_eqI)
  then have "x AND 24 \<in> set (map word_of_nat [0..<25])" by simp
  then show ?thesis using m by (auto simp: upt_rec)
qed

lemma class_total: "class_from_opcode x \<noteq> None"
  using and_7_cases [of x] by (auto simp: class_from_opcode_def)

lemma access_size_total: "access_size_from_opcode x \<noteq> None"
  using and_24_cases [of x] by (auto simp: access_size_from_opcode_def Let_def)

definition panics :: "'a outcome \<times> note_log \<Rightarrow> bool" where
  "panics r \<longleftrightarrow> fst r = Panic"

lemma outcome_simps [simp]:
  "invalid pc m \<noteq> Panic" "invalid_opcode pc m c \<noteq> Panic"
  by (simp_all add: invalid_def invalid_opcode_def)

lemma alu_no_panic:
  "alu_div_op pc i u s \<noteq> Panic" "alu_mov_op pc i \<noteq> Panic" "alu_neg_op pc i \<noteq> Panic"
  "alu_end_op pc i \<noteq> Panic" "alu_operand pc i \<noteq> Panic"
  by (simp_all add: alu_div_op_def alu_mov_op_def alu_neg_op_def alu_end_op_def alu_operand_def)

lemma get_alu_op_no_panic: "fst (get_alu_op pc i ns) \<noteq> Panic"
  by (simp add: get_alu_op_def alu_no_panic split: option.split alu_op.split)

lemma make_alu_op_no_panic: "\<not> panics (make_alu_op pc i opts ns)"
  using get_alu_op_no_panic [of pc i ns] alu_no_panic(5) [of pc i]
  by (auto simp: panics_def make_alu_op_def Let_def split: outcome.splits sum.splits prod.splits)

lemma class_load_store:
  "class_from_opcode x \<in> {Some Cls_LD, Some Cls_LDX, Some Cls_ST, Some Cls_STX} \<longleftrightarrow> get_mem_is_load x \<noteq> None"
  using and_7_cases [of x] by (auto simp: class_from_opcode_def get_mem_is_load_def)

lemma mem_no_panic:
  "mem_packet_abs pc i w ld \<noteq> Panic" "mem_packet_ind pc i w ld \<noteq> Panic" "mem_atomic pc i w \<noteq> Panic"
  "fst (mem_sign_extending st pc i w ns) \<noteq> Panic"
  "get_mem_is_load (opcode i) \<noteq> None \<Longrightarrow> mem_plain pc i w ld \<noteq> Panic"
proof -
  have "atomic_operation pc im \<noteq> Panic" for im by (simp add: atomic_operation_def Let_def)
  then show "mem_atomic pc i w \<noteq> Panic" by (simp add: mem_atomic_def split: outcome.split)
qed (auto simp: mem_packet_abs_def mem_packet_ind_def mem_sign_extending_def mem_plain_def Let_def split: if_splits)

lemma make_mem_op_no_panic:
  assumes "get_mem_is_load (opcode i) \<noteq> None"
  shows "\<not> panics (make_mem_op st pc i ns)"
  using access_size_total [of "opcode i"] mem_no_panic assms
  by (auto simp: panics_def make_mem_op_def Let_def split: option.split)

lemma make_lddw_no_panic: "make_lddw pc i n insts \<noteq> Panic"
  by (auto simp: make_lddw_def lddw_pseudo_def Let_def invalid_def invalid_opcode_def split: if_splits)

definition platform_coherent :: "platform \<Rightarrow> bool" where
  "platform_coherent plat \<longleftrightarrow> (\<forall>im. is_helper_usable plat im \<longrightarrow> try_get_helper_prototype plat im \<noteq> None)"

lemma make_call_no_panic:
  "try_get_helper_prototype plat im \<noteq> None \<Longrightarrow> make_call plat im \<noteq> Panic"
  by (auto simp: make_call_def make_call_result_def Let_def split: prod.splits return_type_outcome.splits)

lemma make_static_call_no_panic:
  assumes "platform_coherent plat"
  shows "make_static_call info plat pc i \<noteq> Panic"
  using assms make_call_no_panic [of plat "inst_imm i"]
  by (auto simp: platform_coherent_def make_static_call_def Let_def split: option.splits outcome.splits)

lemma jump_no_panic:
  "make_call_local pc i insts \<noteq> Panic" "make_callx pc i \<noteq> Panic" "make_exit pc i \<noteq> Panic"
  "make_goto pc i insts \<noteq> Panic" "make_conditional pc i insts j \<noteq> Panic"
  by (simp_all add: make_call_local_def make_callx_def make_exit_def make_goto_def
      make_conditional_def Let_def)

lemma make_jmp_no_panic:
  "platform_coherent plat \<Longrightarrow> make_jmp info plat pc i insts \<noteq> Panic"
  by (simp add: make_jmp_def make_call_ins_def jump_no_panic make_static_call_no_panic
      split: option.split jmp_op.split)

lemma peephole_no_panic: "\<not> panics (peephole pc insts opts ins ns)"
  using make_alu_op_no_panic [of "pc + 1" "insts ! (pc + 1)" opts ns]
  by (auto simp: panics_def peephole_def Let_def split: instruction.splits outcome.splits prod.splits)

lemma no_skip_panic: "panics (no_skip r) \<longleftrightarrow> panics r"
  by (auto simp: panics_def no_skip_def split: prod.splits outcome.splits)


lemma decode_at_no_panic:
  assumes "platform_coherent (env_platform env)"
  shows "\<not> panics (decode_at env pc ns)"
proof -
  let ?i = "env_insts env ! pc"
  have mem: "\<not> panics (make_mem_op st pc ?i ns)"
    if "class_from_opcode (opcode ?i) \<in> {Some Cls_LD, Some Cls_LDX, Some Cls_ST, Some Cls_STX}" for st
    using that make_mem_op_no_panic class_load_store by blast
  have alu: "panics (case make_alu_op pc ?i opts ns of
                (Ok ins, ns') \<Rightarrow> peephole pc (env_insts env) opts ins ns'
              | (Err e, ns') \<Rightarrow> (Err e, ns')
              | (Panic, ns') \<Rightarrow> (Panic, ns')) = False" for opts
    using make_alu_op_no_panic [of pc ?i opts ns] peephole_no_panic
    by (auto simp: panics_def split: outcome.splits prod.splits)
  have jmp: "\<not> panics (no_skip (make_jmp info (env_platform env) pc ?i insts, ns))" for info insts
    using make_jmp_no_panic [OF assms] by (simp add: no_skip_panic) (simp add: panics_def)
  have lddw: "\<not> panics (case make_lddw pc ?i n insts of
                     Ok x \<Rightarrow> (Ok (x, True), ns) | Err e \<Rightarrow> (Err e, ns) | Panic \<Rightarrow> (Panic, ns))" for n insts
    using make_lddw_no_panic [of pc ?i n insts] by (auto simp: panics_def split: outcome.splits)
  show ?thesis
    using mem alu jmp lddw class_total [of "opcode ?i"]
    by (auto simp: decode_at_def Let_def no_skip_panic split: option.split instruction_class.split)
qed

text \<open>One iteration of the loop, and the induction over the remaining instructions.\<close>

definition step_notes :: "unmarshal_env \<Rightarrow> nat \<Rightarrow> instruction \<Rightarrow> bool \<Rightarrow> note_log \<Rightarrow> note_log" where
  "step_notes env pc ins skip ns =
     (let ns2 = note_next_pc (if pc = length (env_insts env) - 1 \<and> falls_through ins
          then add_note ''fallthrough in last instruction'' ns else ns)
      in if skip then note_next_pc ns2 else ns2)"

definition step_entry :: "unmarshal_env \<Rightarrow> nat \<Rightarrow> instruction \<Rightarrow> labeled_instruction" where
  "step_entry env pc ins =
     (pc_label pc, ins, if print_line_info (verbosity_opts (env_options env))
        then line_info (env_info env) pc else None)"

lemma unmarshal_loop_step:
  "pc < length (env_insts env) \<Longrightarrow> unmarshal_loop env pc ec prog ns =
    (case decode_at env pc ns of
       (Err e, ns1) \<Rightarrow> (Err e, ns1)
     | (Panic, ns1) \<Rightarrow> (Panic, ns1)
     | (Ok (ins, skip), ns1) \<Rightarrow>
         unmarshal_loop env (if skip then pc + 2 else pc + 1) (if is_exit ins then ec + 1 else ec)
           (prog @ [step_entry env pc ins]) (step_notes env pc ins skip ns1))"
  by (subst unmarshal_loop.simps)
    (auto simp: step_notes_def step_entry_def Let_def split: outcome.split prod.split)

lemma unmarshal_loop_end:
  "\<not> pc < length (env_insts env) \<Longrightarrow> unmarshal_loop env pc ec prog ns =
    (Ok prog, if ec = 0 then add_note ''no exit instruction'' ns else ns)"
  by (simp add: unmarshal_loop.simps [of env pc ec prog ns])

lemma unmarshal_loop_no_panic:
  assumes "platform_coherent (env_platform env)"
  shows "\<not> panics (unmarshal_loop env pc ec prog ns)"
proof (induction "length (env_insts env) - pc" arbitrary: pc ec prog ns rule: less_induct)
  case less
  show ?case
  proof (cases "pc < length (env_insts env)")
    case False
    then show ?thesis by (simp add: unmarshal_loop_end panics_def)
  next
    case True
    have IH: "\<not> panics (unmarshal_loop env (if skip then pc + 2 else pc + 1) ec' prog' ns')" for skip ec' prog' ns'
      by (rule less) (use True in auto)
    have "fst (decode_at env pc ns) \<noteq> Panic"
      using decode_at_no_panic [OF assms, of pc ns] by (simp add: panics_def)
    then show ?thesis
      unfolding unmarshal_loop_step [OF True]
      using IH by (cases "decode_at env pc ns"; cases "fst (decode_at env pc ns)") (auto simp: panics_def)
  qed
qed

subsection \<open>Errors of the decoder\<close>

text \<open>The outcome of one step does not depend on the notes logged so far.\<close>

lemma get_alu_op_outcome: "fst (get_alu_op pc i ns) = fst (get_alu_op pc i [])"
  by (simp add: get_alu_op_def split: option.split alu_op.split)

lemma make_alu_op_outcome: "fst (make_alu_op pc i opts ns) = fst (make_alu_op pc i opts [])"
  using get_alu_op_outcome [of pc i ns]
  by (cases "get_alu_op pc i ns"; cases "get_alu_op pc i []")
    (auto simp: make_alu_op_def Let_def split: outcome.splits sum.splits)

lemma make_mem_op_outcome: "fst (make_mem_op st pc i ns) = fst (make_mem_op st pc i [])"
  by (simp add: make_mem_op_def mem_plain_def mem_sign_extending_def Let_def split: option.split)

lemma peephole_outcome: "fst (peephole pc insts opts ins ns) = fst (peephole pc insts opts ins [])"
proof -
  let ?i = "insts ! (pc + 1)"
  have "fst (make_alu_op (pc + 1) ?i opts ns) = fst (make_alu_op (pc + 1) ?i opts [])"
    by (rule make_alu_op_outcome)
  then show ?thesis
    by (cases "make_alu_op (pc + 1) ?i opts ns"; cases "make_alu_op (pc + 1) ?i opts []"; cases ins)
      (auto simp: peephole_def Let_def split: outcome.splits instruction.splits)
qed

lemma no_skip_outcome: "fst r = fst r' \<Longrightarrow> fst (no_skip r) = fst (no_skip r')"
  by (cases r; cases r') (auto simp: no_skip_def split: outcome.splits)

lemma alu_step_outcome:
  "fst (case make_alu_op pc i opts ns of
       (Ok ins, ns') \<Rightarrow> peephole pc insts opts ins ns'
     | (Err e, ns') \<Rightarrow> (Err e, ns') | (Panic, ns') \<Rightarrow> (Panic, ns')) =
   (case fst (make_alu_op pc i opts []) of
       Ok ins \<Rightarrow> fst (peephole pc insts opts ins []) | Err e \<Rightarrow> Err e | Panic \<Rightarrow> Panic)"
  using make_alu_op_outcome [of pc i opts ns] peephole_outcome [of pc insts opts]
  by (cases "make_alu_op pc i opts ns") (auto split: outcome.splits)

lemma no_skip_pair_outcome: "fst (no_skip (r, ns)) = fst (no_skip (r, []))"
  by (rule no_skip_outcome) simp

lemma lddw_step_outcome:
  "fst (case r of Ok x \<Rightarrow> (Ok (x, True), ns) | Err e \<Rightarrow> (Err e, ns) | Panic \<Rightarrow> (Panic, ns)) =
   fst (case r of Ok x \<Rightarrow> (Ok (x, True), []) | Err e \<Rightarrow> (Err e, []) | Panic \<Rightarrow> (Panic, []))"
  by (cases r) auto

lemma decode_at_outcome: "fst (decode_at env pc ns) = fst (decode_at env pc [])"
proof -
  note m = no_skip_outcome [OF make_mem_op_outcome, of _ _ _ ns]
    no_skip_pair_outcome [where ns = ns] alu_step_outcome lddw_step_outcome [where ns = ns]
  show ?thesis
  proof (cases "class_from_opcode (opcode (env_insts env ! pc))")
    case None
    then show ?thesis by (simp add: decode_at_def)
  next
    case (Some c)
    then show ?thesis by (cases c) (simp_all add: decode_at_def Let_def m)
  qed
qed

text \<open>The slots the decoder reaches from a slot: each decoded step moves on by one slot, or by two
  where it consumed the second half of a wide load or a merged shift.\<close>

inductive reaches_slot :: "unmarshal_env \<Rightarrow> nat \<Rightarrow> nat \<Rightarrow> bool" for env where
  reaches_here: "reaches_slot env pc pc"
| reaches_step: "pc < length (env_insts env) \<Longrightarrow> fst (decode_at env pc []) = Ok (ins, skip) \<Longrightarrow>
    reaches_slot env (if skip then pc + 2 else pc + 1) q \<Longrightarrow> reaches_slot env pc q"

inductive_cases reaches_slotE: "reaches_slot env pc q"

lemma reaches_slot_ok:
  assumes "pc < length (env_insts env)" "fst (decode_at env pc []) = Ok (ins, skip)"
  shows "reaches_slot env pc q \<longleftrightarrow> q = pc \<or> reaches_slot env (if skip then pc + 2 else pc + 1) q"
  using assms by (auto intro: reaches_slot.intros elim: reaches_slotE)

lemma unmarshal_loop_error:
  "fst (unmarshal_loop env pc ec prog ns) = Err e \<longleftrightarrow>
    (\<exists>q < length (env_insts env). reaches_slot env pc q \<and> fst (decode_at env q []) = Err e)"
proof (induction "length (env_insts env) - pc" arbitrary: pc ec prog ns rule: less_induct)
  case less
  show ?case
  proof (cases "pc < length (env_insts env)")
    case False
    then have "reaches_slot env pc q \<longleftrightarrow> q = pc" for q by (auto intro: reaches_here elim: reaches_slotE)
    then show ?thesis using False by (simp add: unmarshal_loop_end)
  next
    case True
    obtain r ns1 where d: "decode_at env pc ns = (r, ns1)" by (cases "decode_at env pc ns")
    then have d0: "fst (decode_at env pc []) = r" using decode_at_outcome [of env pc ns] by simp
    show ?thesis
    proof (cases r)
      case (Ok x)
      then obtain ins skip where r: "r = Ok (ins, skip)" by (cases x) auto
      have "fst (unmarshal_loop env pc ec prog ns) = Err e \<longleftrightarrow>
          (\<exists>q < length (env_insts env). reaches_slot env (if skip then pc + 2 else pc + 1) q \<and>
            fst (decode_at env q []) = Err e)"
        using True by (simp add: unmarshal_loop_step [OF True] d r less)
      then show ?thesis using reaches_slot_ok [OF True] d0 r by auto
    next
      case (Err e')
      then show ?thesis using True d d0
        by (auto simp: unmarshal_loop_step [OF True] intro: reaches_here elim: reaches_slotE)
    next
      case Panic
      then show ?thesis using True d d0
        by (auto simp: unmarshal_loop_step [OF True] elim: reaches_slotE)
    qed
  qed
qed

subsection \<open>The decoded sequence\<close>

lemma add_note_length [simp]: "length (add_note w ns) = length ns"
  by (auto simp: add_note_def)

lemma make_alu_op_notes: "length (snd (make_alu_op pc i opts ns)) = length ns"
proof -
  have "length (snd (get_alu_op pc i ns)) = length ns"
    by (simp add: get_alu_op_def split: option.split alu_op.split)
  then show ?thesis
    by (auto simp: make_alu_op_def Let_def split: outcome.splits sum.splits prod.splits)
qed

lemma make_mem_op_notes: "length (snd (make_mem_op st pc i ns)) = length ns"
  by (auto simp: make_mem_op_def mem_sign_extending_def Let_def split: option.split)

lemma peephole_notes: "length (snd (peephole pc insts opts ins ns)) = length ns"
  using make_alu_op_notes [of "pc + 1" "insts ! (pc + 1)" opts ns]
  by (auto simp: peephole_def Let_def split: instruction.splits outcome.splits prod.splits)

lemma no_skip_notes: "snd (no_skip r) = snd r"
  by (auto simp: no_skip_def split: prod.splits outcome.splits)

lemma decode_at_notes: "length (snd (decode_at env pc ns)) = length ns"
proof -
  have "length (snd (case make_alu_op pc i opts ns of
                (Ok ins, ns') \<Rightarrow> peephole pc insts opts ins ns'
              | (Err e, ns') \<Rightarrow> (Err e, ns')
              | (Panic, ns') \<Rightarrow> (Panic, ns'))) = length ns" for i opts insts
    using make_alu_op_notes [of pc i opts ns] peephole_notes
    by (auto split: outcome.splits prod.splits)
  then show ?thesis
    using make_mem_op_notes
    by (auto simp: decode_at_def Let_def no_skip_notes split: option.split instruction_class.split outcome.split)
qed

lemma skip_bound:
  assumes "decode_at env pc ns = (Ok (ins, True), ns')"
  shows "pc + 1 < length (env_insts env)"
  using decode_at_cases [OF assms]
proof (elim disjE exE conjE)
  fix n assume "make_lddw pc (env_insts env ! pc) n (env_insts env) = Ok ins"
  then show ?thesis by (auto simp: make_lddw_def invalid_def split: if_splits)
next
  fix ins1 ns1
  assume "peephole pc (env_insts env) (env_options env) ins1 ns1 = (Ok (ins, True), ns')"
  then show ?thesis
    by (auto simp: peephole_def Let_def split: instruction.splits if_splits outcome.splits prod.splits)
qed auto

text \<open>The declarative reading of the loop: decoding the instructions from \<open>pc\<close> on.\<close>

inductive decoded :: "unmarshal_env \<Rightarrow> nat \<Rightarrow> instruction_seq \<Rightarrow> bool" for env where
  decoded_end: "length (env_insts env) \<le> pc \<Longrightarrow> decoded env pc []"
| decoded_step: "pc < length (env_insts env) \<Longrightarrow> decode_at env pc ns = (Ok (ins, skip), ns') \<Longrightarrow>
    decoded env (if skip then pc + 2 else pc + 1) rest \<Longrightarrow>
    decoded env pc (step_entry env pc ins # rest)"

lemma unmarshal_loop_spec:
  assumes "unmarshal_loop env pc ec prog ns = (Ok prog', ns')" "pc \<le> length (env_insts env)"
  shows "\<exists>rest. prog' = prog @ rest \<and> decoded env pc rest \<and>
    length ns' = length ns + (length (env_insts env) - pc)"
  using assms
proof (induction "length (env_insts env) - pc" arbitrary: pc ec prog ns rule: less_induct)
  case less
  show ?case
  proof (cases "pc < length (env_insts env)")
    case False
    then show ?thesis
      using less.prems by (auto simp: unmarshal_loop_end split: if_splits intro: decoded_end)
  next
    case True
    obtain ins skip ns1 where d: "decode_at env pc ns = (Ok (ins, skip), ns1)"
      using less.prems(1) unfolding unmarshal_loop_step [OF True]
      by (auto split: outcome.splits prod.splits)
    let ?pc = "if skip then pc + 2 else pc + 1"
    have b: "?pc \<le> length (env_insts env)" using True d skip_bound [of env pc ns ins ns1] by auto
    have eq: "unmarshal_loop env ?pc (if is_exit ins then ec + 1 else ec)
        (prog @ [step_entry env pc ins]) (step_notes env pc ins skip ns1) = (Ok prog', ns')"
      using less.prems(1) d unfolding unmarshal_loop_step [OF True] by simp
    have "length (env_insts env) - ?pc < length (env_insts env) - pc" using True by auto
    from less.hyps [OF this eq b] obtain rest where
      rest: "prog' = (prog @ [step_entry env pc ins]) @ rest" "decoded env ?pc rest"
        "length ns' = length (step_notes env pc ins skip ns1) + (length (env_insts env) - ?pc)" by blast
    have "length ns1 = length ns" using decode_at_notes [of env pc ns] d by simp
    then have "length (step_notes env pc ins skip ns1) = length ns + (if skip then 2 else 1)"
      by (simp add: step_notes_def note_next_pc_def Let_def)
    then have "length (step_notes env pc ins skip ns1) + (length (env_insts env) - ?pc) =
        length ns + (length (env_insts env) - pc)"
      using b by (cases skip) auto
    moreover have "decoded env pc (step_entry env pc ins # rest)"
      by (rule decoded_step [OF True d rest(2)])
    ultimately show ?thesis using rest by auto
  qed
qed

lemma unmarshal_spec:
  assumes "unmarshal env ns = (Ok prog, ns')"
  shows "decoded env 0 prog \<and> length ns' = length ns + length (env_insts env) + 1 \<and> env_insts env \<noteq> []"
proof -
  have ne: "env_insts env \<noteq> []" and l: "unmarshal_loop env 0 0 [] (note_next_pc ns) = (Ok prog, ns')"
    using assms by (auto simp: unmarshal_def split: sum.splits if_splits)
  from unmarshal_loop_spec [OF l] ne show ?thesis by (auto simp: note_next_pc_def)
qed

text \<open>Instructions of a decoded sequence and the positions they come from.\<close>

lemma decoded_positions:
  assumes "decoded env pc prog"
  shows "\<exists>pcs. map fst prog = map pc_label pcs \<and> sorted_wrt (<) pcs \<and>
    set pcs \<subseteq> {pc..<length (env_insts env)} \<and> (pc < length (env_insts env) \<longrightarrow> pc \<in> set pcs)"
  using assms
proof induction
  case (decoded_step pc ns ins skip ns' rest)
  then obtain pcs where p: "map fst rest = map pc_label pcs" "sorted_wrt (<) pcs"
      "set pcs \<subseteq> {(if skip then pc + 2 else pc + 1)..<length (env_insts env)}" by blast
  show ?case
    by (rule exI [of _ "pc # pcs"]) (use p decoded_step(1) in \<open>auto simp: step_entry_def split: if_splits\<close>)
qed auto

lemma decoded_instructions:
  "decoded env pc prog \<Longrightarrow> e \<in> set prog \<Longrightarrow>
    regs_ok (fst (snd e)) \<and> target_ok (length (env_insts env)) (fst (snd e))"
  by (induction rule: decoded.induct) (auto simp: step_entry_def dest: decode_at_regs decode_at_target)


subsection \<open>The peephole merge\<close>

text \<open>The effect of the shifts and moves the merge is about, on 64-bit registers.\<close>

fun operand_value :: "(reg \<Rightarrow> 64 word) \<Rightarrow> operand \<Rightarrow> 64 word" where
  "operand_value rs (Imm v) = v"
| "operand_value rs (Reg r) = rs r"

definition alu_value :: "bin_op \<Rightarrow> bool \<Rightarrow> 64 word \<Rightarrow> 64 word \<Rightarrow> 64 word option" where
  "alu_value op is64 x v =
     (if op = LSH \<and> is64 then Some (push_bit (unat (v AND 63)) x)
      else if op = RSH \<and> is64 then Some (drop_bit (unat (v AND 63)) x)
      else if op = ARSH \<and> is64 then Some (signed_drop_bit (unat (v AND 63)) x)
      else if op = MOV then Some (if is64 then v else take_bit 32 v)
      else if op = MOVSX32 \<and> is64 then Some (signed_take_bit 31 v)
      else None)"

definition exec_bin :: "bin_ins \<Rightarrow> (reg \<Rightarrow> 64 word) \<Rightarrow> (reg \<Rightarrow> 64 word) option" where
  "exec_bin b rs =
     do { y \<leftarrow> alu_value (bin_op b) (bin_is64 b) (rs (bin_dst b)) (operand_value rs (bin_v b));
          Some (rs(bin_dst b := y)) }"

lemma shift_pair_logical: "drop_bit 32 (push_bit 32 (x::64 word)) = take_bit 32 x"
  by (rule bit_word_eqI) (auto simp: bit_simps)

lemma shift_pair_arith: "signed_drop_bit 32 (push_bit 32 (x::64 word)) = signed_take_bit 31 x"
proof (rule bit_word_eqI)
  fix n :: nat
  show "bit (signed_drop_bit 32 (push_bit 32 x)) n \<longleftrightarrow> bit (signed_take_bit 31 x) n" if "n < LENGTH(64)"
    using that by (cases "n = 31") (auto simp: bit_simps bit_signed_drop_bit_iff min_def)
qed

lemma peephole_equiv:
  assumes "peephole pc insts opts ins ns = (Ok (ins', True), ns')"
  shows "\<exists>b m nb. ins = Bin b \<and> ins' = Bin m \<and>
    make_alu_op (pc + 1) (insts ! (pc + 1)) opts ns = (Ok (Bin nb), ns') \<and>
    (\<forall>rs. exec_bin m rs = Option.bind (exec_bin b rs) (exec_bin nb))"
proof (cases ins)
  case (Bin b)
  let ?mk = "make_alu_op (pc + 1) (insts ! (pc + 1)) opts ns"
  have g: "bin_op b = LSH" "bin_v b = Imm 32" "bin_is64 b"
    and r: "(case ?mk of
                   (Ok (Bin nb), ns') \<Rightarrow>
                     if bin_dst nb = bin_dst b \<and> bin_v nb = Imm 32 \<and> bin_is64 nb
                     then if bin_op nb = RSH
                       then (Ok (Bin \<lparr>bin_op = MOV, bin_dst = bin_dst b, bin_v = Reg (bin_dst b),
                               bin_is64 = False, bin_lddw = False\<rparr>, True), ns')
                       else if bin_op nb = ARSH
                       then (Ok (Bin \<lparr>bin_op = MOVSX32, bin_dst = bin_dst b, bin_v = Reg (bin_dst b),
                               bin_is64 = True, bin_lddw = False\<rparr>, True), ns')
                       else (Ok (ins, False), ns')
                     else (Ok (ins, False), ns')
                 | (Panic, ns') \<Rightarrow> (Panic, ns')
                 | (_, ns') \<Rightarrow> (Ok (ins, False), ns')) = (Ok (ins', True), ns')"
    using assms Bin by (auto simp: peephole_def Let_def split: if_splits)
  obtain nb where nb: "?mk = (Ok (Bin nb), ns')"
    and c: "bin_dst nb = bin_dst b" "bin_v nb = Imm 32" "bin_is64 nb"
    and m: "(bin_op nb = RSH \<and> ins' = Bin \<lparr>bin_op = MOV, bin_dst = bin_dst b, bin_v = Reg (bin_dst b),
                               bin_is64 = False, bin_lddw = False\<rparr>) \<or>
            (bin_op nb = ARSH \<and> ins' = Bin \<lparr>bin_op = MOVSX32, bin_dst = bin_dst b, bin_v = Reg (bin_dst b),
                               bin_is64 = True, bin_lddw = False\<rparr>)"
  proof (cases ?mk)
    case (Pair o1 ns1)
    then show ?thesis using r that by (cases o1; cases "case o1 of Ok i \<Rightarrow> i | _ \<Rightarrow> ins") (auto split: if_splits)
  qed
  have "exec_bin m' rs = Option.bind (exec_bin b rs) (exec_bin nb)" if "ins' = Bin m'" for m' rs
    using m that g c by (auto simp: exec_bin_def alu_value_def shift_pair_logical shift_pair_arith)
  then show ?thesis using m nb Bin by blast
qed (use assms in \<open>auto simp: peephole_def\<close>)

end
