(* ===== verification/Marshal.thy ===== *)
theory Marshal
  imports Syntax
begin

text \<open>
  \<open>src/ir/marshal.rs\<close>: the encoding helpers that invert the decoder.  They take the numeric
  discriminant of an operation; \<open>None\<close> is their \<open>unreachable!\<close>.
\<close>

fun bin_op_code :: "bin_op \<Rightarrow> 8 word" where
  "bin_op_code MOV = 0"
| "bin_op_code ADD = 1"
| "bin_op_code SUB = 2"
| "bin_op_code MUL = 3"
| "bin_op_code UDIV = 4"
| "bin_op_code UMOD = 5"
| "bin_op_code OR_op = 6"
| "bin_op_code AND_op = 7"
| "bin_op_code LSH = 8"
| "bin_op_code RSH = 9"
| "bin_op_code ARSH = 10"
| "bin_op_code XOR_op = 11"
| "bin_op_code SDIV = 12"
| "bin_op_code SMOD = 13"
| "bin_op_code MOVSX8 = 14"
| "bin_op_code MOVSX16 = 15"
| "bin_op_code MOVSX32 = 16"

fun un_op_code :: "un_op \<Rightarrow> 8 word" where
  "un_op_code BE16 = 0"
| "un_op_code BE32 = 1"
| "un_op_code BE64 = 2"
| "un_op_code LE16 = 3"
| "un_op_code LE32 = 4"
| "un_op_code LE64 = 5"
| "un_op_code SWAP16 = 6"
| "un_op_code SWAP32 = 7"
| "un_op_code SWAP64 = 8"
| "un_op_code NEG = 9"

fun condition_op_code :: "condition_op \<Rightarrow> 8 word" where
  "condition_op_code EQ_c = 0"
| "condition_op_code NE_c = 1"
| "condition_op_code SET_c = 2"
| "condition_op_code NSET_c = 3"
| "condition_op_code LT_c = 4"
| "condition_op_code LE_c = 5"
| "condition_op_code GT_c = 6"
| "condition_op_code GE_c = 7"
| "condition_op_code SLT_c = 8"
| "condition_op_code SLE_c = 9"
| "condition_op_code SGT_c = 10"
| "condition_op_code SGE_c = 11"

definition marshal_condition_op :: "8 word \<Rightarrow> 8 word option" where
  "marshal_condition_op v =
     (if v = condition_op_code EQ_c then Some 0x1
      else if v = condition_op_code GT_c then Some 0x2
      else if v = condition_op_code GE_c then Some 0x3
      else if v = condition_op_code SET_c then Some 0x4
      else if v = condition_op_code NSET_c then None
      else if v = condition_op_code NE_c then Some 0x5
      else if v = condition_op_code SGT_c then Some 0x6
      else if v = condition_op_code SGE_c then Some 0x7
      else if v = condition_op_code LT_c then Some 0xa
      else if v = condition_op_code LE_c then Some 0xb
      else if v = condition_op_code SLT_c then Some 0xc
      else if v = condition_op_code SLE_c then Some 0xd
      else None)"

definition marshal_bin_op :: "8 word \<Rightarrow> 8 word option" where
  "marshal_bin_op v =
     (if v = bin_op_code ADD then Some 0x0
      else if v = bin_op_code SUB then Some 0x1
      else if v = bin_op_code MUL then Some 0x2
      else if v = bin_op_code SDIV \<or> v = bin_op_code UDIV then Some 0x3
      else if v = bin_op_code OR_op then Some 0x4
      else if v = bin_op_code AND_op then Some 0x5
      else if v = bin_op_code LSH then Some 0x6
      else if v = bin_op_code RSH then Some 0x7
      else if v = bin_op_code SMOD \<or> v = bin_op_code UMOD then Some 0x9
      else if v = bin_op_code XOR_op then Some 0xa
      else if v = bin_op_code MOV \<or> v = bin_op_code MOVSX8 \<or> v = bin_op_code MOVSX16 \<or>
        v = bin_op_code MOVSX32 then Some 0xb
      else if v = bin_op_code ARSH then Some 0xc
      else None)"

definition marshal_bin_op_offset :: "8 word \<Rightarrow> 16 word" where
  "marshal_bin_op_offset v =
     (if v = bin_op_code SDIV \<or> v = bin_op_code SMOD then 1
      else if v = bin_op_code MOVSX8 then 8
      else if v = bin_op_code MOVSX16 then 16
      else if v = bin_op_code MOVSX32 then 32
      else 0)"

definition marshal_imm_endian :: "8 word \<Rightarrow> 8 word option" where
  "marshal_imm_endian v =
     (if v = un_op_code NEG then None
      else if v = un_op_code BE16 \<or> v = un_op_code LE16 \<or> v = un_op_code SWAP16 then Some 16
      else if v = un_op_code BE32 \<or> v = un_op_code LE32 \<or> v = un_op_code SWAP32 then Some 32
      else if v = un_op_code BE64 \<or> v = un_op_code LE64 \<or> v = un_op_code SWAP64 then Some 64
      else None)"

end
