(* ===== verification/Decoder.thy ===== *)
theory Decoder
  imports Unmarshal_Lemmas Marshal
begin

text \<open>
  The properties of the decoder of \<open>src/ir/unmarshal.rs\<close> with the encoding helpers of
  \<open>src/ir/marshal.rs\<close>: what a decoded program looks like, that the decoder returns an error
  value instead of panicking, that the peephole merge preserves the meaning of the two shifts,
  and that ALU instructions round trip through the encoding.
\<close>

subsection \<open>Encoding binary operations\<close>

text \<open>Encoding a binary operation with the marshalling helpers.\<close>

definition encode_bin :: "bin_ins \<Rightarrow> ebpf_inst option" where
  "encode_bin b =
     do { nib \<leftarrow> marshal_bin_op (bin_op_code (bin_op b));
          let cls = (if bin_is64 b then INST_CLS_ALU64 else INST_CLS_ALU);
          let off = marshal_bin_op_offset (bin_op_code (bin_op b));
          Some (case bin_v b of
              Reg r \<Rightarrow> inst_new (push_bit 4 nib OR INST_SRC_REG OR cls) (bin_dst b) r off 0
            | Imm v \<Rightarrow> inst_new (push_bit 4 nib OR INST_SRC_IMM OR cls) (bin_dst b) 0 off (ucast v)) }"

lemma opcode_parts: "(x::8 word) = (x AND 0xf0) OR (x AND 8) OR (x AND 7)"
proof -
  have "(x AND 0xf0) OR (x AND 8) OR (x AND 7) = x AND (0xf0 OR 8 OR 7)"
    by (simp only: bit.conj_disj_distrib)
  also have "(0xf0 OR 8 OR 7 :: 8 word) = -1" by simp
  finally show ?thesis by simp
qed

lemma byte_15_mask: "(15::8 word) = mask 4" by (simp add: mask_eq_exp_minus_1)

lemma dst_src_parts: "(x AND 0x0f) OR push_bit 4 (drop_bit 4 x AND 0x0f) = (x::8 word)"
  unfolding byte_15_mask by (rule bit_word_eqI) (auto simp: bit_simps)

lemma small_nibble: "(x::8 word) AND 15 = x" if "x \<le> 15"
proof -
  have "unat x \<le> 15" using that by (simp add: word_le_nat_alt)
  then have "take_bit 4 (unat x) = unat x" by (simp add: take_bit_nat_eq_self_iff)
  then have "unat (take_bit 4 x) = unat x" by (simp add: unsigned_take_bit_eq)
  then have "take_bit 4 x = x" by (simp only: word_unat_eq_iff)
  then show ?thesis unfolding byte_15_mask by (simp only: take_bit_eq_mask)
qed

lemma nibble_fields:
  assumes "d \<le> (15::8 word)" "s \<le> 15"
  shows "((d AND 0x0f) OR push_bit 4 (s AND 0x0f)) AND 0x0f = d"
    "drop_bit 4 ((d AND 0x0f) OR push_bit 4 (s AND 0x0f)) AND 0x0f = s"
proof -
  have "((d AND 0x0f) OR push_bit 4 (s AND 0x0f)) AND 0x0f = d AND 0x0f"
    unfolding byte_15_mask by (rule bit_word_eqI) (auto simp: bit_simps)
  then show "((d AND 0x0f) OR push_bit 4 (s AND 0x0f)) AND 0x0f = d" using small_nibble assms by simp
  have "drop_bit 4 ((d AND 0x0f) OR push_bit 4 (s AND 0x0f)) AND 0x0f = s AND 0x0f"
    unfolding byte_15_mask by (rule bit_word_eqI) (auto simp: bit_simps)
  then show "drop_bit 4 ((d AND 0x0f) OR push_bit 4 (s AND 0x0f)) AND 0x0f = s"
    using small_nibble assms by simp
qed

lemma operand_ucast: "ucast (sign_extend_imm x) = (x::32 word)"
  unfolding sign_extend_imm_def by (rule bit_word_eqI) (auto simp: bit_simps bit_signed_iff)


definition bin_encodable :: "bin_ins \<Rightarrow> bool" where
  "bin_encodable b \<longleftrightarrow> bin_dst b < R10_STACK_POINTER \<and> \<not> bin_lddw b \<and>
     (case bin_v b of
        Reg r \<Rightarrow> r \<le> R10_STACK_POINTER
      | Imm v \<Rightarrow> bin_op b \<notin> {MOVSX8, MOVSX16, MOVSX32} \<and> v = sign_extend_imm (ucast v))"

lemma and_8_cases: "(x::8 word) AND 8 = 0 \<or> x AND 8 = 8"
proof -
  have "(x AND 24) AND 8 = x AND 8" by (simp add: and.assoc)
  then show ?thesis using and_24_cases [of x] by auto
qed

lemma alu_op_bits:
  "alu_op_from_opcode x = Some a \<Longrightarrow> x AND 0xf0 = (case a of
     Alu_ADD \<Rightarrow> 0 | Alu_SUB \<Rightarrow> 0x10 | Alu_MUL \<Rightarrow> 0x20 | Alu_DIV \<Rightarrow> 0x30 | Alu_OR \<Rightarrow> 0x40 | Alu_AND \<Rightarrow> 0x50
   | Alu_LSH \<Rightarrow> 0x60 | Alu_RSH \<Rightarrow> 0x70 | Alu_NEG \<Rightarrow> 0x80 | Alu_MOD \<Rightarrow> 0x90 | Alu_XOR \<Rightarrow> 0xa0 | Alu_MOV \<Rightarrow> 0xb0
   | Alu_ARSH \<Rightarrow> 0xc0 | Alu_END \<Rightarrow> 0xd0)"
  by (auto simp: alu_op_from_opcode_def Let_def split: if_splits)

lemma get_alu_op_binary:
  assumes "fst (get_alu_op pc i ns) = Ok (Inr op)"
  shows "\<exists>nib. marshal_bin_op (bin_op_code op) = Some nib \<and> push_bit 4 nib = opcode i AND 0xf0 \<and>
    marshal_bin_op_offset (bin_op_code op) = inst_offset i \<and>
    (op \<in> {MOVSX8, MOVSX16, MOVSX32} \<longrightarrow> opcode i AND 8 \<noteq> 0)"
  using assms
  by (auto simp: get_alu_op_def alu_div_op_def alu_mov_op_def alu_neg_op_def alu_end_op_def invalid_def
      invalid_opcode_def marshal_bin_op_def marshal_bin_op_offset_def alu_op_bits
      split: option.splits alu_op.splits if_splits)

lemma make_alu_op_bin:
  assumes "fst (make_alu_op pc i opts ns) = Ok (Bin b)"
  shows "inst_dst i < 10 \<and> inst_src i \<le> 10 \<and> bin_dst b = inst_dst i \<and> \<not> bin_lddw b \<and>
    bin_is64 b = (opcode i AND 7 = 7) \<and> fst (get_alu_op pc i ns) = Ok (Inr (bin_op b)) \<and>
    alu_operand pc i = Ok (bin_v b)"
  using assms
  by (auto simp: make_alu_op_def Let_def invalid_def not_less
      split: if_splits outcome.splits sum.splits prod.splits)

lemma bin_decode_encode:
  assumes "fst (make_alu_op pc i opts ns) = Ok (Bin b)" "opcode i AND 7 = 4 \<or> opcode i AND 7 = 7"
  shows "bin_encodable b \<and> encode_bin b = Some i"
proof -
  note f = make_alu_op_bin [OF assms(1)]
  obtain nib where nib: "marshal_bin_op (bin_op_code (bin_op b)) = Some nib"
    "push_bit 4 nib = opcode i AND 0xf0" "marshal_bin_op_offset (bin_op_code (bin_op b)) = inst_offset i"
    "bin_op b \<in> {MOVSX8, MOVSX16, MOVSX32} \<longrightarrow> opcode i AND 8 \<noteq> 0"
    using get_alu_op_binary f by blast
  have cls: "(if bin_is64 b then 7 else 4) = opcode i AND 7" using assms(2) f by auto
  have ds: "(inst_dst i AND 15) OR push_bit 4 (inst_src i AND 15) = dst_src i"
    using dst_src_parts [of "dst_src i"] by (simp add: inst_dst_def inst_src_def and.assoc)
  have op: "(opcode i AND 0xf0) OR (opcode i AND 8) OR (opcode i AND 7) = opcode i"
    using opcode_parts by metis
  show ?thesis
  proof (cases "opcode i AND 8 = 0")
    case True
    then have v: "bin_v b = Imm (sign_extend_imm (inst_imm i))" and s: "src_raw i = 0"
      using f by (auto simp: alu_operand_def invalid_opcode_def split: if_splits)
    have "inst_src i = 0" using s by (simp add: inst_src_def src_raw_def)
    then show ?thesis
      using f nib cls ds op True v
      by (simp add: bin_encodable_def encode_bin_def inst_new_def operand_ucast)
  next
    case False
    then have v: "bin_v b = Reg (inst_src i)" and s: "inst_imm i = 0" and e: "opcode i AND 8 = 8"
      using f and_8_cases [of "opcode i"] by (auto simp: alu_operand_def invalid_opcode_def split: if_splits)
    show ?thesis
      using f nib cls ds op e v s
      by (simp add: bin_encodable_def encode_bin_def inst_new_def)
  qed
qed

lemma inst_new_fields:
  assumes "d \<le> 15" "s \<le> 15"
  shows "inst_dst (inst_new opc d s off im) = d" "inst_src (inst_new opc d s off im) = s"
    "src_raw (inst_new opc d s off im) = s" "opcode (inst_new opc d s off im) = opc"
    "inst_offset (inst_new opc d s off im) = off" "inst_imm (inst_new opc d s off im) = im"
  unfolding inst_new_def inst_dst_def inst_src_def src_raw_def ebpf_inst.simps
  by (rule nibble_fields [OF assms] refl)+

lemma make_alu_op_bin_intro:
  assumes "inst_dst i < 10" "inst_src i \<le> 10" "fst (get_alu_op pc i ns) = Ok (Inr (bin_op b))"
    "alu_operand pc i = Ok (bin_v b)" "bin_dst b = inst_dst i" "\<not> bin_lddw b"
    "bin_is64 b = (opcode i AND 7 = 7)"
  shows "fst (make_alu_op pc i opts ns) = Ok (Bin b)"
proof -
  obtain ns' where g: "get_alu_op pc i ns = (Ok (Inr (bin_op b)), ns')"
    using assms(3) by (cases "get_alu_op pc i ns") auto
  show ?thesis
    using assms g by (cases b) (auto simp: make_alu_op_def Let_def)
qed

lemma get_alu_op_code:
  assumes n: "marshal_bin_op (bin_op_code op) = Some nib" and src: "src \<in> {0, 8}" and cls: "cls \<in> {4, 7}"
    and i: "opcode i = push_bit 4 nib OR src OR cls" "inst_offset i = marshal_bin_op_offset (bin_op_code op)"
    and sx: "op \<in> {MOVSX8, MOVSX16, MOVSX32} \<Longrightarrow> src = 8"
  shows "fst (get_alu_op pc i ns) = Ok (Inr op)"
proof -
  have hi: "(push_bit 4 nib OR src OR cls) AND 240 = push_bit 4 nib AND 240"
    using src cls by (auto simp: bit.conj_disj_distrib2)
  have lo: "op \<in> {MOVSX8, MOVSX16, MOVSX32} \<Longrightarrow> (push_bit 4 nib OR src OR cls) AND 8 \<noteq> 0"
    using sx by (auto simp: bit.conj_disj_distrib2)
  have a: "alu_op_from_opcode (opcode i) = alu_op_from_opcode (push_bit 4 nib)"
    unfolding alu_op_from_opcode_def i(1) hi ..
  show ?thesis
    unfolding get_alu_op_def a
    using n i(2) lo
    by (cases op)
      (auto simp: marshal_bin_op_def marshal_bin_op_offset_def alu_op_from_opcode_def
        alu_div_op_def alu_mov_op_def Let_def i(1))
qed

lemma opcode_low_bits:
  assumes "marshal_bin_op (bin_op_code op) = Some nib"
  shows "(push_bit 4 nib OR 8 OR cls) AND 8 = 8" "(push_bit 4 nib OR 4) AND 8 = 0" "(push_bit 4 nib OR 7) AND 8 = 0"
    "(push_bit 4 nib OR 8 OR 7) AND 7 = 7" "(push_bit 4 nib OR 8 OR 4) AND 7 = 4"
    "(push_bit 4 nib OR 7) AND 7 = 7" "(push_bit 4 nib OR 4) AND 7 = 4"
proof -
  have "push_bit 4 nib AND 8 = 0" "push_bit 4 nib AND 7 = 0"
    using assms by (cases op; auto simp: marshal_bin_op_def)+
  then show "(push_bit 4 nib OR 8 OR cls) AND 8 = 8" "(push_bit 4 nib OR 4) AND 8 = 0" "(push_bit 4 nib OR 7) AND 8 = 0"
    "(push_bit 4 nib OR 8 OR 7) AND 7 = 7" "(push_bit 4 nib OR 8 OR 4) AND 7 = 4"
    "(push_bit 4 nib OR 7) AND 7 = 7" "(push_bit 4 nib OR 4) AND 7 = 4"
    by (simp_all add: bit.conj_disj_distrib2)
qed

lemma bin_encode_decode:
  assumes "bin_encodable b" "encode_bin b = Some i"
  shows "fst (make_alu_op pc i opts ns) = Ok (Bin b) \<and> (opcode i AND 7 = 4 \<or> opcode i AND 7 = 7)"
proof -
  let ?op = "bin_op b" and ?cls = "if bin_is64 b then 7 else 4 :: 8 word"
  obtain nib where nib: "marshal_bin_op (bin_op_code ?op) = Some nib"
    using assms(2) by (auto simp: encode_bin_def bind_eq_Some_conv)
  note low = opcode_low_bits [OF nib]
  have le: "bin_dst b \<le> 15" "bin_dst b < 10" "\<not> bin_lddw b"
    using assms(1) by (auto simp: bin_encodable_def word_less_nat_alt word_le_nat_alt)
  show ?thesis
  proof (cases "bin_v b")
    case (Reg r)
    then have r: "r \<le> 15" "r \<le> 10" using assms(1) by (auto simp: bin_encodable_def word_le_nat_alt)
    have i: "i = inst_new (push_bit 4 nib OR 8 OR ?cls) (bin_dst b) r
        (marshal_bin_op_offset (bin_op_code ?op)) 0"
      using assms(2) Reg nib by (simp add: encode_bin_def)
    note f = inst_new_fields [OF le(1) r(1), of "push_bit 4 nib OR 8 OR ?cls"
        "marshal_bin_op_offset (bin_op_code ?op)" 0, folded i]
    have g: "fst (get_alu_op pc i ns) = Ok (Inr ?op)"
      by (rule get_alu_op_code [OF nib, of 8 ?cls]) (simp_all add: f)
    have v: "alu_operand pc i = Ok (bin_v b)" using f low Reg by (simp add: alu_operand_def)
    show ?thesis
      by (rule conjI, rule make_alu_op_bin_intro [OF _ _ g v]) (use f low le r in auto)
  next
    case (Imm v)
    have i: "i = inst_new (push_bit 4 nib OR 0 OR ?cls) (bin_dst b) 0
        (marshal_bin_op_offset (bin_op_code ?op)) (ucast v)"
      using assms(2) Imm nib by (simp add: encode_bin_def)
    have v: "v = sign_extend_imm (ucast v)" "?op \<notin> {MOVSX8, MOVSX16, MOVSX32}"
      using assms(1) Imm by (auto simp: bin_encodable_def)
    have "(0::8 word) \<le> 15" by simp
    note f = inst_new_fields [OF le(1) this, of "push_bit 4 nib OR 0 OR ?cls"
        "marshal_bin_op_offset (bin_op_code ?op)" "ucast v", folded i]
    have g: "fst (get_alu_op pc i ns) = Ok (Inr ?op)"
      by (rule get_alu_op_code [OF nib, of 0 ?cls]) (use f v in auto)
    have w: "alu_operand pc i = Ok (bin_v b)" using f low Imm v(1) by (simp add: alu_operand_def)
    show ?thesis
      by (rule conjI, rule make_alu_op_bin_intro [OF _ _ g w]) (use f low le in auto)
  qed
qed

subsection \<open>Jump targets\<close>

lemma jump_target_exact:
  assumes "jump_target pc off < n" "n < 2 ^ 31" "pc < n" "- (2 ^ 31) \<le> off" "off < 2 ^ 31"
  shows "0 \<le> int pc + 1 + off \<and> int (jump_target pc off) = int pc + 1 + off"
proof (cases "0 \<le> int pc + 1 + off")
  case True
  then have "(int pc + 1 + off) mod 2 ^ 64 = int pc + 1 + off"
    using assms by (intro mod_pos_pos_trivial) auto
  then show ?thesis using True by (simp add: jump_target_def)
next
  case False
  have "(int pc + 1 + off + 2 ^ 64) mod 2 ^ 64 = int pc + 1 + off + 2 ^ 64"
    using assms False by (intro mod_pos_pos_trivial) auto
  then have "(int pc + 1 + off) mod 2 ^ 64 = int pc + 1 + off + 2 ^ 64" by (simp only: mod_add_self2)
  then have "int (jump_target pc off) = int pc + 1 + off + 2 ^ 64"
    unfolding jump_target_def using assms False by simp
  moreover have "int pc + 1 + off + 2 ^ 64 \<ge> 2 ^ 64 - 2 ^ 31" using assms by simp
  moreover have "int (jump_target pc off) < 2 ^ 31" using assms(1,2) by (simp add: order_less_trans)
  ultimately show ?thesis by simp
qed

lemma sint_bounds_32: "- (2 ^ 31) \<le> sint (x::32 word)" "sint x < 2 ^ 31"
  using sint_greater_eq [of x] sint_less [of x] by simp_all

lemma sint_bounds_16: "- (2 ^ 31) \<le> sint (x::16 word)" "sint x < 2 ^ 31"
  using sint_greater_eq [of x] sint_less [of x] by simp_all

definition decoded_offset :: "ebpf_inst \<Rightarrow> int" where
  "decoded_offset i =
     (if jmp_op_from_opcode (opcode i) = Some J_CALL \<or> opcode i = INST_OP_JA32
      then sint (inst_imm i) else sint (inst_offset i))"

lemma decoded_offset_bounds: "- (2 ^ 31) \<le> decoded_offset i" "decoded_offset i < 2 ^ 31"
  using sint_bounds_32 sint_bounds_16 by (simp_all add: decoded_offset_def)

lemma ja32_is_ja: "opcode i = INST_OP_JA32 \<Longrightarrow> jmp_op_from_opcode (opcode i) = Some J_JA"
  by (simp add: INST_OP_JA32_def jmp_op_from_opcode_def)

lemma make_jmp_label:
  assumes "make_jmp info plat pc i insts = Ok ins" "ins = Jmp c l \<or> ins = CallLocal l p"
  shows "l = pc_label (jump_target pc (decoded_offset i)) \<and> jump_target pc (decoded_offset i) < length insts"
  using assms ja32_is_ja [of i]
  by (auto simp: make_jmp_def make_call_ins_def make_call_local_def make_callx_def make_static_call_def
      make_exit_def make_goto_def make_conditional_def Let_def invalid_def invalid_opcode_def
      decoded_offset_def not_le split: if_splits option.splits jmp_op.splits outcome.splits)

subsection \<open>Properties\<close>

text \<open>A program that loads 0 into \<open>r0\<close> and exits, and a platform without helpers.\<close>

definition plain_env :: "ebpf_inst list \<Rightarrow> unmarshal_env" where
  "plain_env insts =
     \<lparr>env_insts = insts,
      env_info = \<lparr>line_info = (\<lambda>_. None), builtin_call_offsets = []\<rparr>,
      env_platform = \<lparr>get_builtin_call = (\<lambda>_. None), try_get_helper_prototype = (\<lambda>_. None),
        is_helper_usable = (\<lambda>_. False)\<rparr>,
      env_options = options_default\<rparr>"

definition two_insts :: "ebpf_inst list" where
  "two_insts = [inst_new 0xb7 0 0 0 0, inst_new 0x95 0 0 0 0]"

text \<open>The decoder accepts a wide load into \<open>r10\<close>.\<close>

lemma lddw_of_r10_accepted:
  "fst (unmarshal (plain_env [inst_new 0x18 10 0 0 1, inst_new 0 0 0 0 0]) []) =
     Ok [(pc_label 0, Bin \<lparr>bin_op = MOV, bin_dst = 10, bin_v = Imm 1, bin_is64 = True, bin_lddw = True\<rparr>, None)]"
  by code_simp

text \<open>C2: A decoded program is well formed. Its labels are the positions of distinct slots in
  increasing order, starting with slot 0; every register an instruction names is at most \<open>r10\<close>; an
  instruction that overwrites \<open>r10\<close> is a wide load (any form of \<open>lddw\<close>) or a fetching atomic
  operation, the two kinds whose destination the decoder does not compare with \<open>r10\<close>; every jump
  and local call targets a slot of the program; and the notes have one list per slot.\<close>

theorem decoded_program_well_formed:
  assumes "unmarshal env ns = (Ok prog, ns')"
  shows "(\<exists>pcs. map fst prog = map pc_label (0 # pcs) \<and> sorted_wrt (<) (0 # pcs) \<and>
      set pcs \<subseteq> {1..<length (env_insts env)}) \<and>
    list_all (\<lambda>e. regs_ok (fst (snd e)) \<and> target_ok (length (env_insts env)) (fst (snd e))) prog \<and>
    length ns' = length ns + length (env_insts env) + 1"
proof -
  have d: "decoded env 0 prog" and l: "length ns' = length ns + length (env_insts env) + 1"
    and ne: "env_insts env \<noteq> []" using unmarshal_spec [OF assms] by auto
  from decoded_positions [OF d] obtain pcs where p: "map fst prog = map pc_label pcs" "sorted_wrt (<) pcs"
    "set pcs \<subseteq> {0..<length (env_insts env)}" "0 \<in> set pcs" using ne by auto
  then obtain k ks where k: "pcs = k # ks" by (cases pcs) auto
  have "k = 0" using p(2,4) k by auto
  then have "map fst prog = map pc_label (0 # ks) \<and> sorted_wrt (<) (0 # ks) \<and> set ks \<subseteq> {1..<length (env_insts env)}"
    using p k by (fastforce simp: Suc_le_eq)
  then show ?thesis using l decoded_instructions [OF d] by (auto simp: list_all_iff)
qed

lemma two_insts_unmarshal:
  "unmarshal (plain_env two_insts) [] =
     (Ok [(pc_label 0, Bin \<lparr>bin_op = MOV, bin_dst = 0, bin_v = Imm 0, bin_is64 = True, bin_lddw = False\<rparr>, None),
          (pc_label 1, Exit [], None)], [[], [], []])"
  by code_simp

theorem decoded_program_well_formed_witness:
  "regs_ok (Exit []) \<and> target_ok 2 (Exit [])"
  using decoded_program_well_formed [OF two_insts_unmarshal] by (simp add: plain_env_def two_insts_def)

text \<open>C30: With a platform whose usable helpers have prototypes the decoder never panics. Invalid
  options and the empty program are reported as such; otherwise the decoder reports an error
  exactly when one of the slots it reaches from slot 0 cannot be decoded, and it reports the error
  of that slot.\<close>

theorem unmarshal_returns:
  assumes "platform_coherent (env_platform env)"
  shows "fst (unmarshal env ns) \<noteq> Panic \<and>
    (\<forall>m. options_validate (env_options env) = Inl m \<longrightarrow> unmarshal env ns = (Err (InvalidOptions m), ns)) \<and>
    (options_validate (env_options env) = Inr () \<and> env_insts env = [] \<longrightarrow>
      unmarshal env ns = (Err ZeroLengthProgram, ns)) \<and>
    (options_validate (env_options env) = Inr () \<and> env_insts env \<noteq> [] \<longrightarrow>
      (\<forall>e. fst (unmarshal env ns) = Err e \<longleftrightarrow>
        (\<exists>pc < length (env_insts env). reaches_slot env 0 pc \<and> fst (decode_at env pc []) = Err e)))"
  using unmarshal_loop_no_panic [OF assms]
  by (auto simp: unmarshal_def panics_def unmarshal_loop_error split: sum.split)

definition r10_write_insts :: "ebpf_inst list" where
  "r10_write_insts = [inst_new 0xb7 0 0 0 0, inst_new 0xb7 10 0 0 0]"

theorem unmarshal_returns_witness:
  "fst (unmarshal (plain_env r10_write_insts) []) = Err (InvalidInstruction 1 ''invalid target r10'')"
proof -
  let ?env = "plain_env r10_write_insts"
  have p: "platform_coherent (env_platform ?env)"
    by (simp add: platform_coherent_def plain_env_def)
  have v: "options_validate (env_options ?env) = Inr ()" and n: "env_insts ?env \<noteq> []"
    and l: "1 < length (env_insts ?env)"
    by code_simp+
  have s0: "fst (decode_at ?env 0 []) =
      Ok (Bin \<lparr>bin_op = MOV, bin_dst = 0, bin_v = Imm 0, bin_is64 = True, bin_lddw = False\<rparr>, False)"
    by code_simp
  have s1: "fst (decode_at ?env 1 []) = Err (InvalidInstruction 1 ''invalid target r10'')" by code_simp
  have "reaches_slot ?env 0 1"
    using reaches_step [OF _ s0] l n reaches_here [of ?env 1] by simp
  then show ?thesis using unmarshal_returns [OF p, of "[]"] v n l s1 by blast
qed

text \<open>C31: The merge of a 64-bit shift left by 32 and a shift right by 32 preserves the meaning:
  on every register state the one instruction has the effect of the two it replaces.\<close>

theorem peephole_preserves_meaning:
  assumes "peephole pc insts opts (Bin b) ns = (Ok (Bin m, True), ns')"
  shows "\<exists>nb. make_alu_op (pc + 1) (insts ! (pc + 1)) opts ns = (Ok (Bin nb), ns') \<and>
    (\<forall>rs. exec_bin m rs = Option.bind (exec_bin b rs) (exec_bin nb) \<and> exec_bin m rs \<noteq> None)"
proof -
  have "exec_bin m rs \<noteq> None" for rs
    using assms by (auto simp: peephole_def Let_def exec_bin_def alu_value_def
      split: if_splits outcome.splits instruction.splits prod.splits)
  then show ?thesis using peephole_equiv [OF assms] by blast
qed

definition shift_pair :: "ebpf_inst list" where
  "shift_pair = [inst_new 0x67 3 0 0 32, inst_new 0xc7 3 0 0 32]"

theorem peephole_preserves_meaning_witness:
  "\<exists>nb. make_alu_op 1 (shift_pair ! 1) options_default [] = (Ok (Bin nb), []) \<and>
    (\<forall>rs. exec_bin \<lparr>bin_op = MOVSX32, bin_dst = 3, bin_v = Reg 3, bin_is64 = True, bin_lddw = False\<rparr> rs =
      Option.bind (exec_bin \<lparr>bin_op = LSH, bin_dst = 3, bin_v = Imm 32, bin_is64 = True, bin_lddw = False\<rparr> rs)
        (exec_bin nb))"
proof -
  have "peephole 0 shift_pair options_default
      (Bin \<lparr>bin_op = LSH, bin_dst = 3, bin_v = Imm 32, bin_is64 = True, bin_lddw = False\<rparr>) [] =
    (Ok (Bin \<lparr>bin_op = MOVSX32, bin_dst = 3, bin_v = Reg 3, bin_is64 = True, bin_lddw = False\<rparr>, True), [])"
    by code_simp
  from peephole_preserves_meaning [OF this] show ?thesis by auto
qed

text \<open>C34: ALU instructions round trip: an instruction of an ALU class decodes to a binary
  operation exactly when that operation is encodable and the encoding helpers give the
  instruction back.\<close>

theorem alu_encoding_roundtrip:
  "(fst (make_alu_op pc i opts ns) = Ok (Bin b) \<and> (opcode i AND 7 = 4 \<or> opcode i AND 7 = 7)) =
   (bin_encodable b \<and> encode_bin b = Some i)"
  using bin_decode_encode bin_encode_decode by blast

text \<open>C38: Jump targets are exact: a jump or local call of a program with fewer than \<open>2^31\<close> slots
  goes to the slot after the instruction plus its offset, computed without wrap-around, and that
  slot is in the program.\<close>

theorem jump_targets_exact:
  assumes "make_jmp info plat pc i insts = Ok ins" "ins = Jmp c l \<or> ins = CallLocal l p"
    "pc < length insts" "length insts < 2 ^ 31"
  shows "0 \<le> int pc + 1 + decoded_offset i \<and> int pc + 1 + decoded_offset i < int (length insts) \<and>
    l = pc_label (nat (int pc + 1 + decoded_offset i))"
proof -
  from make_jmp_label [OF assms(1,2)] have l: "l = pc_label (jump_target pc (decoded_offset i))"
    "jump_target pc (decoded_offset i) < length insts" by auto
  from jump_target_exact [OF l(2) assms(4) assms(3) decoded_offset_bounds]
  have "0 \<le> int pc + 1 + decoded_offset i" "int (jump_target pc (decoded_offset i)) = int pc + 1 + decoded_offset i"
    by auto
  then show ?thesis using l by (metis nat_int of_nat_less_iff)
qed

definition back_jump :: "ebpf_inst list" where
  "back_jump = [inst_new 0xb7 0 0 0 0, inst_new 0x05 0 0 (- 2) 0]"

theorem jump_targets_exact_witness: "(1::int) + 1 + decoded_offset (back_jump ! 1) = 0"
proof -
  have j: "make_jmp (env_info (plain_env [])) (env_platform (plain_env [])) 1 (back_jump ! 1) back_jump =
      Ok (Jmp None (pc_label 0))" by code_simp
  have o: "decoded_offset (back_jump ! 1) = - 2" by code_simp
  show ?thesis
    using jump_targets_exact [OF j, of None "pc_label 0" "[]"] o by (simp add: back_jump_def)
qed

lemma low_byte_only: "((im::32 word) OR push_bit 8 x) AND ucast (y::8 word) = im AND ucast y"
  by (rule bit_word_eqI) (auto simp: bit_simps dest: bit_imp_le_length)

text \<open>The mask of the atomic operations only clears the fetch bit of the low byte, so
  immediates outside the documented encodings are accepted: the upper 24 bits do not matter.\<close>

theorem atomic_immediate_upper_bits_ignored:
  "atomic_operation pc (im OR push_bit 8 x) = atomic_operation pc im"
  unfolding atomic_operation_def low_byte_only by (rule refl)

end
