(* ===== verification/Union_Find.thy ===== *)
theory Union_Find
  imports Prelude
begin

text \<open>
  \<open>src/crab/dsu.rs\<close>: the union-find structure that tracks must-equality between type
  variables.  \<open>None\<close> is an index out of range or a loop that does not return; for a
  well-formed structure every operation returns.
\<close>

subsection \<open>The structure\<close>

record dsu =
  dsu_parent :: "nat list"
  dsu_rank :: "nat list"

definition dsu_new :: "nat \<Rightarrow> dsu" where
  "dsu_new n = \<lparr>dsu_parent = [0..<n], dsu_rank = replicate n 0\<rparr>"

definition dsu_len :: "dsu \<Rightarrow> nat" where
  "dsu_len d = length (dsu_parent d)"

partial_function (option) find_compress :: "nat list \<Rightarrow> nat \<Rightarrow> (nat list \<times> nat) option" where
  "find_compress p x =
     (if x < length p
      then if p ! x \<noteq> x
        then Option.bind (find_compress p (p ! x)) (\<lambda>(p', r). Some (p'[x := r], r))
        else Some (p, x)
      else None)"

definition dsu_find :: "dsu \<Rightarrow> nat \<Rightarrow> (dsu \<times> nat) option" where
  "dsu_find d x =
     do { (p, r) \<leftarrow> find_compress (dsu_parent d) x; Some (d\<lparr>dsu_parent := p\<rparr>, r) }"

partial_function (option) find_const_loop :: "nat list \<Rightarrow> nat \<Rightarrow> nat option" where
  "find_const_loop p cur =
     (if cur < length p
      then if p ! cur \<noteq> cur then find_const_loop p (p ! cur) else Some cur
      else None)"

definition dsu_find_const :: "dsu \<Rightarrow> nat \<Rightarrow> nat option" where
  "dsu_find_const d x = find_const_loop (dsu_parent d) x"

definition dsu_link :: "dsu \<Rightarrow> nat \<Rightarrow> nat \<Rightarrow> (dsu \<times> nat) option" where
  "dsu_link d rx ry =
     (if rx = ry then Some (d, rx)
      else if rx < length (dsu_rank d) \<and> ry < length (dsu_rank d) \<and> rx < dsu_len d \<and> ry < dsu_len d
      then Some
        (if dsu_rank d ! rx < dsu_rank d ! ry
         then (d\<lparr>dsu_parent := (dsu_parent d)[rx := ry]\<rparr>, ry)
         else if dsu_rank d ! rx > dsu_rank d ! ry
         then (d\<lparr>dsu_parent := (dsu_parent d)[ry := rx]\<rparr>, rx)
         else (d\<lparr>dsu_parent := (dsu_parent d)[ry := rx],
                 dsu_rank := (dsu_rank d)[rx := dsu_rank d ! rx + 1]\<rparr>, rx))
      else None)"

definition dsu_union :: "dsu \<Rightarrow> nat \<Rightarrow> nat \<Rightarrow> (dsu \<times> nat) option" where
  "dsu_union d x y =
     do { (d1, rx) \<leftarrow> dsu_find d x; (d2, ry) \<leftarrow> dsu_find d1 y; dsu_link d2 rx ry }"

definition dsu_same_set :: "dsu \<Rightarrow> nat \<Rightarrow> nat \<Rightarrow> bool option" where
  "dsu_same_set d x y =
     do { rx \<leftarrow> dsu_find_const d x; ry \<leftarrow> dsu_find_const d y; Some (rx = ry) }"

definition dsu_push :: "dsu \<Rightarrow> dsu \<times> nat" where
  "dsu_push d =
     (d\<lparr>dsu_parent := dsu_parent d @ [dsu_len d], dsu_rank := dsu_rank d @ [0]\<rparr>, dsu_len d)"

subsection \<open>Well-formed structures\<close>

text \<open>Ranks grow strictly along parent links, so that the links form a forest.\<close>

definition forest :: "nat list \<Rightarrow> nat list \<Rightarrow> bool" where
  "forest p rk \<longleftrightarrow> length rk = length p \<and>
     (\<forall>x<length p. p ! x < length p \<and> (p ! x \<noteq> x \<longrightarrow> rk ! x < rk ! (p ! x)))"

definition dsu_ok :: "dsu \<Rightarrow> bool" where
  "dsu_ok d \<longleftrightarrow> forest (dsu_parent d) (dsu_rank d)"

lemma forestD:
  assumes "forest p rk" "x < length p"
  shows "p ! x < length p" "p ! x \<noteq> x \<Longrightarrow> rk ! x < rk ! (p ! x)" "length rk = length p"
  using assms by (auto simp: forest_def)

definition root :: "nat list \<Rightarrow> nat \<Rightarrow> nat" where
  "root p x = the (find_const_loop p x)"

text \<open>The ranks are bounded, which gives the induction along the links.\<close>

lemma forest_induct [consumes 2, case_names top link]:
  assumes "forest p rk" "x < length p"
    and "\<And>x. x < length p \<Longrightarrow> p ! x = x \<Longrightarrow> P x"
    and "\<And>x. x < length p \<Longrightarrow> p ! x \<noteq> x \<Longrightarrow> P (p ! x) \<Longrightarrow> P x"
  shows "P x"
  using assms(2)
proof (induction "Max (set rk) - rk ! x" arbitrary: x rule: less_induct)
  case less
  show ?case
  proof (cases "p ! x = x")
    case False
    note f = forestD [OF assms(1) less.prems]
    have "rk ! (p ! x) \<le> Max (set rk)" using f by (intro Max_ge) (auto simp: in_set_conv_nth)
    then have "Max (set rk) - rk ! (p ! x) < Max (set rk) - rk ! x" using f(2) [OF False] by linarith
    then show ?thesis using less.hyps f(1) assms(4) less.prems False by blast
  qed (use assms(3) less.prems in blast)
qed

lemma find_const_step:
  "x < length p \<Longrightarrow> p ! x = x \<Longrightarrow> find_const_loop p x = Some x"
  "x < length p \<Longrightarrow> p ! x \<noteq> x \<Longrightarrow> find_const_loop p x = find_const_loop p (p ! x)"
  unfolding find_const_loop.simps [of p x] by simp_all

lemma root_simps:
  "x < length p \<Longrightarrow> p ! x = x \<Longrightarrow> root p x = x"
  "x < length p \<Longrightarrow> p ! x \<noteq> x \<Longrightarrow> root p x = root p (p ! x)"
  unfolding root_def by (drule (1) find_const_step(1), simp) (drule (1) find_const_step(2), simp)

lemma find_const_total:
  assumes "forest p rk" "x < length p"
  shows "find_const_loop p x = Some (root p x)"
  using assms
proof (induction rule: forest_induct)
  case (top x)
  then show ?case by (simp only: root_simps(1) find_const_step(1))
next
  case (link x)
  show ?case
    unfolding find_const_step(2) [OF link(1,2)] root_simps(2) [OF link(1,2)] by (rule link(3))
qed

lemma root_fixed:
  assumes "forest p rk" "x < length p"
  shows "root p x < length p" "p ! root p x = root p x"
  using assms(1) assms(2)
proof (induction rule: forest_induct)
  case (link x)
  { case 1 show ?case unfolding root_simps(2) [OF link(1,2)] by (rule link(3)) }
  { case 2 show ?case unfolding root_simps(2) [OF link(1,2)] by (rule link(4)) }
qed (simp_all only: root_simps)

lemma root_idem: "forest p rk \<Longrightarrow> x < length p \<Longrightarrow> root p (root p x) = root p x"
  using root_fixed root_simps(1) by blast

lemma rank_le_root:
  assumes "forest p rk" "x < length p" "root p x \<noteq> x"
  shows "rk ! x < rk ! root p x"
  using assms
proof (induction rule: forest_induct)
  case (top x)
  then show ?case using root_simps(1) by blast
next
  case (link x)
  have lt: "rk ! x < rk ! (p ! x)" by (rule forestD(2) [OF assms(1) link(1,2)])
  show ?case
    unfolding root_simps(2) [OF link(1,2)]
    by (cases "root p (p ! x) = p ! x") (use lt link(3) in simp_all)
qed

text \<open>Redirecting a link to the root keeps every root.\<close>

lemma compress_step:
  assumes f: "forest p rk" and x: "x < length p"
  shows "forest (p[x := root p x]) rk"
    and "y < length p \<Longrightarrow> root (p[x := root p x]) y = root p y"
proof -
  let ?p = "p[x := root p x]"
  have rx: "root p x < length p" "p ! root p x = root p x" using root_fixed [OF f x] .
  show g: "forest ?p rk"
    unfolding forest_def
  proof (intro conjI allI impI)
    fix y assume y: "y < length ?p"
    show "?p ! y < length ?p" using rx y forestD(1) [OF f, of y] by (cases "y = x") simp_all
    show "rk ! y < rk ! (?p ! y)" if "?p ! y \<noteq> y"
      using rank_le_root [OF f x] forestD(2) [OF f, of y] that y by (cases "y = x") simp_all
  qed (simp add: forestD(3) [OF f x])
  show "root ?p y = root p y" if "y < length p"
    using f that
  proof (induction y rule: forest_induct)
    case (top y)
    then have "?p ! y = y" using x root_simps(1) [of x p] by (cases "y = x") simp_all
    then show ?case using top root_simps(1) [of y ?p] root_simps(1) [of y p] by simp
  next
    case (link y)
    show ?case
    proof (cases "y = x")
      case True
      have "?p ! root p x = root p x" using rx x by (cases "root p x = x") simp_all
      then have r: "root ?p (root p x) = root p x" using root_simps(1) [of "root p x" ?p] rx by simp
      show ?thesis
      proof (cases "root p x = x")
        case False
        then have "root ?p x = root ?p (?p ! x)" by (intro root_simps(2)) (use x in simp_all)
        then show ?thesis using True r x by simp
      qed (use r True in simp)
    next
      case False
      then have "root ?p y = root ?p (p ! y)" using root_simps(2) [of y ?p] link by simp
      also have "\<dots> = root p (p ! y)" by (rule link)
      also have "\<dots> = root p y" using root_simps(2) link by simp
      finally show ?thesis .
    qed
  qed
qed

lemma find_compress_step:
  "x < length p \<Longrightarrow> p ! x = x \<Longrightarrow> find_compress p x = Some (p, x)"
  "x < length p \<Longrightarrow> p ! x \<noteq> x \<Longrightarrow>
    find_compress p x = Option.bind (find_compress p (p ! x)) (\<lambda>(p', r). Some (p'[x := r], r))"
  unfolding find_compress.simps [of p x] by simp_all

lemma find_compress_spec:
  assumes "forest p rk" "x < length p"
  shows "\<exists>p'. find_compress p x = Some (p', root p x) \<and> forest p' rk \<and> length p' = length p \<and>
    (\<forall>y<length p. root p' y = root p y)"
  using assms
proof (induction rule: forest_induct)
  case (top x)
  show ?case using find_compress_step(1) [OF top] root_simps(1) [OF top] assms(1) by simp
next
  case (link x)
  then obtain p' where p': "find_compress p (p ! x) = Some (p', root p (p ! x))" "forest p' rk"
    "length p' = length p" "\<And>y. y < length p \<Longrightarrow> root p' y = root p y" by blast
  have r: "root p (p ! x) = root p x" using root_simps(2) [OF link(1,2)] by simp
  have c: "find_compress p x = Some (p'[x := root p x], root p x)"
    unfolding find_compress_step(2) [OF link(1,2)] p'(1) r by simp
  have x': "x < length p'" using p'(3) link(1) by simp
  have e: "root p' x = root p x" by (rule p'(4) [OF link(1)])
  note s = compress_step [OF p'(2) x', unfolded e]
  show ?case using c s p'(3,4) by simp
qed

subsection \<open>The operations\<close>

lemma dsu_new_ok: "dsu_ok (dsu_new n)" "dsu_len (dsu_new n) = n"
  by (simp_all add: dsu_ok_def forest_def dsu_new_def dsu_len_def)

lemma dsu_new_rep: "x < n \<Longrightarrow> dsu_find_const (dsu_new n) x = Some x"
  by (simp add: dsu_find_const_def dsu_new_def find_const_step(1))

lemma dsu_rep:
  assumes "dsu_ok d" "x < dsu_len d"
  shows "dsu_find_const d x = Some (root (dsu_parent d) x)"
    "root (dsu_parent d) x < dsu_len d"
    "dsu_find_const d (root (dsu_parent d) x) = Some (root (dsu_parent d) x)"
proof -
  have f: "forest (dsu_parent d) (dsu_rank d)" "x < length (dsu_parent d)"
    using assms by (simp_all add: dsu_ok_def dsu_len_def)
  show "dsu_find_const d x = Some (root (dsu_parent d) x)" "root (dsu_parent d) x < dsu_len d"
    using find_const_total [OF f] root_fixed [OF f] by (simp_all add: dsu_find_const_def dsu_len_def)
  show "dsu_find_const d (root (dsu_parent d) x) = Some (root (dsu_parent d) x)"
    unfolding dsu_find_const_def using root_fixed [OF f] by (rule find_const_step)
qed

lemma dsu_find_spec:
  assumes "dsu_ok d" "x < dsu_len d"
  shows "\<exists>d'. dsu_find d x = Some (d', root (dsu_parent d) x) \<and> dsu_ok d' \<and> dsu_len d' = dsu_len d \<and>
    dsu_rank d' = dsu_rank d \<and> (\<forall>y<dsu_len d. root (dsu_parent d') y = root (dsu_parent d) y)"
proof -
  have f: "forest (dsu_parent d) (dsu_rank d)" "x < length (dsu_parent d)"
    using assms by (simp_all add: dsu_ok_def dsu_len_def)
  from find_compress_spec [OF f] obtain p' where
    "find_compress (dsu_parent d) x = Some (p', root (dsu_parent d) x)" "forest p' (dsu_rank d)"
    "length p' = length (dsu_parent d)" "\<forall>y<length (dsu_parent d). root p' y = root (dsu_parent d) y" by blast
  then show ?thesis
    by (intro exI [of _ "d\<lparr>dsu_parent := p'\<rparr>"]) (simp add: dsu_find_def dsu_ok_def dsu_len_def)
qed

lemma link_roots:
  assumes f: "forest p rk" and a: "a < length p" "p ! a = a" and b: "b < length p" "p ! b = b" "a \<noteq> b"
    and g: "forest (p[a := b]) rk'" and z: "z < length p"
  shows "root (p[a := b]) z = (if root p z = a then b else root p z)"
  using f z
proof (induction rule: forest_induct)
  case (top z)
  show ?case
  proof (cases "z = a")
    case True
    have "root (p[a := b]) b = b" by (rule root_simps(1)) (use a b in simp_all)
    moreover have "root (p[a := b]) a = root (p[a := b]) (p[a := b] ! a)"
      by (rule root_simps(2)) (use a b in simp_all)
    ultimately show ?thesis using True a root_simps(1) [OF a] by simp
  next
    case False
    then have "root (p[a := b]) z = z" by (intro root_simps(1)) (use top in simp_all)
    then show ?thesis using root_simps(1) [OF top] False by simp
  qed
next
  case (link z)
  then have ne: "z \<noteq> a" using a by auto
  have "root (p[a := b]) z = root (p[a := b]) (p ! z)"
    using root_simps(2) [of z "p[a := b]"] link(1,2) ne by simp
  then show ?case using link(3) root_simps(2) [OF link(1,2)] by simp
qed

lemma dsu_link_spec:
  assumes d: "dsu_ok d" and a: "a < dsu_len d" "dsu_parent d ! a = a"
    and b: "b < dsu_len d" "dsu_parent d ! b = b"
  shows "\<exists>d' r. dsu_link d a b = Some (d', r) \<and> r \<in> {a, b} \<and> dsu_ok d' \<and> dsu_len d' = dsu_len d \<and>
    (\<forall>z<dsu_len d. root (dsu_parent d') z =
      (if root (dsu_parent d) z \<in> {a, b} then r else root (dsu_parent d) z))"
proof -
  define p where "p = dsu_parent d"
  define rk where "rk = dsu_rank d"
  have f: "forest p rk" and l: "length rk = length p" and a': "a < length p" "p ! a = a"
    and b': "b < length p" "p ! b = b"
    using d a b by (auto simp: dsu_ok_def dsu_len_def p_def rk_def forest_def)
  have lt: "forest (p[a := b]) rk" if "rk ! a < rk ! b"
    using f a' b' that by (auto simp: forest_def nth_list_update)
  have gt: "forest (p[b := a]) rk" if "rk ! b < rk ! a"
    using f a' b' that by (auto simp: forest_def nth_list_update)
  have eq: "forest (p[b := a]) (rk[a := rk ! a + 1])" if "rk ! a = rk ! b" "a \<noteq> b"
    unfolding forest_def
  proof (intro conjI allI impI)
    fix z assume z: "z < length (p[b := a])"
    show "p[b := a] ! z < length (p[b := a])"
      using forestD(1) [OF f, of z] z a' by (cases "z = b") simp_all
    show "rk[a := rk ! a + 1] ! z < rk[a := rk ! a + 1] ! (p[b := a] ! z)" if "p[b := a] ! z \<noteq> z"
    proof (cases "z = b")
      case False
      then have "z \<noteq> a" "rk ! z < rk ! (p ! z)" using that a' z forestD(2) [OF f, of z] by auto
      then show ?thesis using False l a' z by (cases "p ! z = a") simp_all
    qed (use that b' a' l \<open>rk ! a = rk ! b\<close> \<open>a \<noteq> b\<close> in simp)
  qed (simp add: l)
  consider "a = b" | "a \<noteq> b" "rk ! a < rk ! b" | "a \<noteq> b" "rk ! b < rk ! a" | "a \<noteq> b" "rk ! a = rk ! b"
    by linarith
  then show ?thesis
  proof cases
    case 1
    then show ?thesis using d by (intro exI [of _ d] exI [of _ a]) (auto simp: dsu_link_def)
  next
    case 2
    then show ?thesis
      using link_roots [OF f a' b' 2(1) lt] lt a' b' l
      by (intro exI [of _ "d\<lparr>dsu_parent := p[a := b]\<rparr>"] exI [of _ b])
        (auto simp: dsu_link_def dsu_ok_def dsu_len_def p_def rk_def)
  next
    case 3
    then show ?thesis
      using link_roots [OF f b' a' _ gt] gt a' b' l
      by (intro exI [of _ "d\<lparr>dsu_parent := p[b := a]\<rparr>"] exI [of _ a])
        (auto simp: dsu_link_def dsu_ok_def dsu_len_def p_def rk_def)
  next
    case 4
    then show ?thesis
      using link_roots [OF f b' a' _ eq] eq a' b' l
      by (intro exI [of _ "d\<lparr>dsu_parent := p[b := a], dsu_rank := rk[a := rk ! a + 1]\<rparr>"] exI [of _ a])
        (auto simp: dsu_link_def dsu_ok_def dsu_len_def p_def rk_def)
  qed
qed

lemma dsu_union_spec:
  assumes d: "dsu_ok d" and x: "x < dsu_len d" and y: "y < dsu_len d"
  shows "\<exists>d' r. dsu_union d x y = Some (d', r) \<and> Some r \<in> {dsu_find_const d x, dsu_find_const d y} \<and>
    dsu_ok d' \<and> dsu_len d' = dsu_len d \<and>
    (\<forall>z<dsu_len d. dsu_find_const d' z =
      (if dsu_find_const d z \<in> {dsu_find_const d x, dsu_find_const d y} then Some r else dsu_find_const d z))"
proof -
  let ?r = "root (dsu_parent d)"
  obtain d1 where d1: "dsu_find d x = Some (d1, ?r x)" "dsu_ok d1" "dsu_len d1 = dsu_len d"
    "\<forall>z<dsu_len d. root (dsu_parent d1) z = ?r z" using dsu_find_spec [OF d x] by blast
  have y1: "y < dsu_len d1" using y d1(3) by simp
  obtain d2 where d2: "dsu_find d1 y = Some (d2, ?r y)" "dsu_ok d2" "dsu_len d2 = dsu_len d"
    "\<forall>z<dsu_len d. root (dsu_parent d2) z = ?r z"
    using dsu_find_spec [OF d1(2) y1] d1(3,4) y by auto
  have f2: "forest (dsu_parent d2) (dsu_rank d2)" using d2(2) by (simp add: dsu_ok_def)
  have top: "?r z < dsu_len d2 \<and> dsu_parent d2 ! ?r z = ?r z" if "z < dsu_len d" for z
    using root_fixed [OF f2, of z] d2(3,4) that by (auto simp: dsu_len_def)
  obtain d' r where d': "dsu_link d2 (?r x) (?r y) = Some (d', r)" "dsu_ok d'" "dsu_len d' = dsu_len d"
    and r: "r \<in> {?r x, ?r y}" and d'': "\<forall>z<dsu_len d. root (dsu_parent d') z = (if ?r z \<in> {?r x, ?r y} then r else ?r z)"
    using dsu_link_spec [OF d2(2), of "?r x" "?r y"] top [OF x] top [OF y] d2(3,4) by auto
  have "dsu_union d x y = Some (d', r)" using d1(1) d2(1) d'(1) by (simp add: dsu_union_def)
  moreover have "dsu_find_const d' z =
      (if dsu_find_const d z \<in> {dsu_find_const d x, dsu_find_const d y} then Some r else dsu_find_const d z)"
    if "z < dsu_len d" for z
    using dsu_rep(1) [OF d'(2), of z] dsu_rep(1) [OF d that] dsu_rep(1) [OF d x] dsu_rep(1) [OF d y]
      d'(3) d'' that by simp
  moreover have "Some r \<in> {dsu_find_const d x, dsu_find_const d y}"
    using r dsu_rep(1) [OF d x] dsu_rep(1) [OF d y] by simp
  ultimately show ?thesis using d'(2,3) by blast
qed

lemma dsu_push_spec:
  assumes d: "dsu_ok d"
  shows "dsu_ok (fst (dsu_push d))" "dsu_len (fst (dsu_push d)) = dsu_len d + 1"
    "snd (dsu_push d) = dsu_len d"
    "dsu_find_const (fst (dsu_push d)) (dsu_len d) = Some (dsu_len d)"
    "x < dsu_len d \<Longrightarrow> dsu_find_const (fst (dsu_push d)) x = dsu_find_const d x"
proof -
  let ?p = "dsu_parent d @ [dsu_len d]"
  have f: "forest (dsu_parent d) (dsu_rank d)" using d by (simp add: dsu_ok_def)
  show "dsu_ok (fst (dsu_push d))"
    using f by (auto simp: dsu_push_def dsu_ok_def forest_def dsu_len_def nth_append less_Suc_eq)
  show "dsu_len (fst (dsu_push d)) = dsu_len d + 1" "snd (dsu_push d) = dsu_len d"
    by (simp_all add: dsu_push_def dsu_len_def)
  show "dsu_find_const (fst (dsu_push d)) (dsu_len d) = Some (dsu_len d)"
    by (simp add: dsu_push_def dsu_find_const_def dsu_len_def find_const_step(1))
  have "find_const_loop ?p x = find_const_loop (dsu_parent d) x" if "x < length (dsu_parent d)"
    using f that
  proof (induction rule: forest_induct)
    case (top x)
    then show ?case using find_const_step(1) [of x ?p] find_const_step(1) [OF top] by (simp add: nth_append)
  next
    case (link x)
    then show ?case
      using find_const_step(2) [of x ?p] find_const_step(2) [OF link(1,2)] by (simp add: nth_append)
  qed
  then show "x < dsu_len d \<Longrightarrow> dsu_find_const (fst (dsu_push d)) x = dsu_find_const d x"
    by (simp add: dsu_push_def dsu_find_const_def dsu_len_def)
qed

subsection \<open>The interface of a union-find structure\<close>

fun merge_all :: "('s \<Rightarrow> nat \<Rightarrow> nat \<Rightarrow> ('s \<times> nat) option) \<Rightarrow> (nat \<times> nat) list \<Rightarrow> 's \<Rightarrow> 's option" where
  "merge_all u [] s = Some s"
| "merge_all u ((x, y) # ps) s = do { (s', r) \<leftarrow> u s x y; merge_all u ps s' }"

definition partition_of :: "nat \<Rightarrow> (nat \<Rightarrow> nat option) \<Rightarrow> (nat \<times> nat) set" where
  "partition_of n f = {(a, b). a < n \<and> b < n \<and> f a = f b}"

locale union_find =
  fixes ok :: "'s \<Rightarrow> bool"
    and size :: "'s \<Rightarrow> nat"
    and rep :: "'s \<Rightarrow> nat \<Rightarrow> nat option"
    and merge :: "'s \<Rightarrow> nat \<Rightarrow> nat \<Rightarrow> ('s \<times> nat) option"
  assumes rep_total: "ok s \<Longrightarrow> x < size s \<Longrightarrow> \<exists>r. rep s x = Some r \<and> r < size s \<and> rep s r = Some r"
    and merge_spec: "ok s \<Longrightarrow> x < size s \<Longrightarrow> y < size s \<Longrightarrow>
      \<exists>s' r. merge s x y = Some (s', r) \<and> Some r \<in> {rep s x, rep s y} \<and> ok s' \<and> size s' = size s \<and>
        (\<forall>z < size s. rep s' z = (if rep s z \<in> {rep s x, rep s y} then Some r else rep s z))"
begin

lemma merge_partition:
  assumes s: "ok s" and x: "x < size s" and y: "y < size s"
  obtains s' r where "merge s x y = Some (s', r)" "ok s'" "size s' = size s"
    "partition_of (size s) (rep s') = partition_of (size s) (rep s) \<union>
      {(a, b). a < size s \<and> b < size s \<and> rep s a \<in> {rep s x, rep s y} \<and> rep s b \<in> {rep s x, rep s y}}"
proof -
  obtain s' r where m: "merge s x y = Some (s', r)" "Some r \<in> {rep s x, rep s y}" "ok s'" "size s' = size s"
    and r: "\<And>z. z < size s \<Longrightarrow> rep s' z = (if rep s z \<in> {rep s x, rep s y} then Some r else rep s z)"
    using merge_spec [OF s x y] by blast
  have "partition_of (size s) (rep s') = partition_of (size s) (rep s) \<union>
      {(a, b). a < size s \<and> b < size s \<and> rep s a \<in> {rep s x, rep s y} \<and> rep s b \<in> {rep s x, rep s y}}"
  proof (rule set_eqI, rule prod.induct)
    fix a b
    define C where "C = {rep s x, rep s y}"
    have c: "Some r \<in> C" "z < size s \<Longrightarrow> rep s' z = (if rep s z \<in> C then Some r else rep s z)" for z
      using m(2) r unfolding C_def by blast+
    have "rep s' a = rep s' b \<longleftrightarrow> rep s a = rep s b \<or> rep s a \<in> C \<and> rep s b \<in> C"
      if "a < size s" "b < size s"
      unfolding c(2) [OF that(1)] c(2) [OF that(2)] using c(1) by (metis (full_types))
    then show "(a, b) \<in> partition_of (size s) (rep s') \<longleftrightarrow> (a, b) \<in> partition_of (size s) (rep s) \<union>
      {(a, b). a < size s \<and> b < size s \<and> rep s a \<in> {rep s x, rep s y} \<and> rep s b \<in> {rep s x, rep s y}}"
      unfolding C_def [symmetric] partition_of_def by blast
  qed
  then show ?thesis using that m by blast
qed

text \<open>Merging a list of pairs gives the least equivalence that contains the initial one and
  the pairs.\<close>

lemma merge_all_closure:
  assumes "ok s" "\<And>x y. (x, y) \<in> set ps \<Longrightarrow> x < size s \<and> y < size s"
  shows "\<exists>s'. merge_all merge ps s = Some s' \<and> ok s' \<and> size s' = size s \<and>
    (\<forall>a < size s. \<forall>b < size s. rep s' a = rep s' b \<longleftrightarrow>
      (a, b) \<in> (partition_of (size s) (rep s) \<union> set ps \<union> (set ps)\<inverse>)\<^sup>*)"
  using assms
proof (induction ps arbitrary: s)
  case Nil
  let ?R = "partition_of (size s) (rep s)"
  have "(a, b) \<in> ?R" if "(a, b) \<in> ?R\<^sup>*" "a < size s" for a b
    using that by (induction rule: rtrancl_induct) (auto simp: partition_of_def)
  then have "rep s a = rep s b \<longleftrightarrow> (a, b) \<in> ?R\<^sup>*" if "a < size s" "b < size s" for a b
    using that by (metis (mono_tags, lifting) case_prodD case_prodI mem_Collect_eq partition_of_def r_into_rtrancl)
  then show ?case using Nil by simp
next
  case (Cons p ps)
  obtain x y where p: "p = (x, y)" by (cases p)
  have x: "x < size s" and y: "y < size s" using Cons.prems(2) [of x y] p by auto
  obtain s1 r where m: "merge s x y = Some (s1, r)" "ok s1" "size s1 = size s"
    and R1: "partition_of (size s) (rep s1) = partition_of (size s) (rep s) \<union>
      {(a, b). a < size s \<and> b < size s \<and> rep s a \<in> {rep s x, rep s y} \<and> rep s b \<in> {rep s x, rep s y}}"
    by (rule merge_partition [OF Cons.prems(1) x y])
  let ?R = "partition_of (size s) (rep s)" and ?R1 = "partition_of (size s) (rep s1)"
  let ?E = "?R \<union> set (p # ps) \<union> (set (p # ps))\<inverse>" and ?E1 = "?R1 \<union> set ps \<union> (set ps)\<inverse>"
  have xy: "(x, y) \<in> ?E\<^sup>*" "(y, x) \<in> ?E\<^sup>*" using p by auto
  have cls: "(a, x) \<in> ?E\<^sup>* \<and> (x, a) \<in> ?E\<^sup>*" if a: "a < size s" "rep s a \<in> {rep s x, rep s y}" for a
  proof (cases "rep s a = rep s x")
    case True
    then have "(a, x) \<in> ?E" "(x, a) \<in> ?E" using a x by (simp_all add: partition_of_def)
    then show ?thesis by blast
  next
    case False
    then have "(a, y) \<in> ?E" "(y, a) \<in> ?E" using a y by (simp_all add: partition_of_def)
    then show ?thesis using xy by (meson converse_rtrancl_into_rtrancl rtrancl_into_rtrancl)
  qed
  have R1E: "?R1 \<subseteq> ?E\<^sup>*"
  proof
    fix ab assume ab: "ab \<in> ?R1"
    obtain a b where e: "ab = (a, b)" by (cases ab)
    consider "(a, b) \<in> ?R" | "a < size s" "b < size s" "rep s a \<in> {rep s x, rep s y}" "rep s b \<in> {rep s x, rep s y}"
      using ab unfolding R1 e by auto
    then show "ab \<in> ?E\<^sup>*"
    proof cases
      case 1
      then show ?thesis unfolding e by blast
    next
      case 2
      then show ?thesis unfolding e using cls [of a] cls [of b] by (meson rtrancl_trans)
    qed
  qed
  have "(x, y) \<in> ?R1" "(y, x) \<in> ?R1" unfolding R1 using x y by auto
  then have "?E \<subseteq> ?E1" unfolding R1 using p by auto
  moreover have "?E1 \<subseteq> ?E\<^sup>*" using R1E by auto
  ultimately have eq: "?E1\<^sup>* = ?E\<^sup>*" by (metis rtrancl_subset)
  have "x' < size s1 \<and> y' < size s1" if "(x', y') \<in> set ps" for x' y'
    using Cons.prems(2) [of x' y'] that m(3) by simp
  from Cons.IH [OF m(2) this] obtain s' where "merge_all merge ps s1 = Some s'" "ok s'" "size s' = size s"
    "\<forall>a < size s. \<forall>b < size s. rep s' a = rep s' b \<longleftrightarrow> (a, b) \<in> ?E1\<^sup>*"
    unfolding m(3) by blast
  then show ?case using m(1) p eq by auto
qed

end

interpretation dsu_uf: union_find dsu_ok dsu_len dsu_find_const dsu_union
proof
  show "\<exists>r. dsu_find_const d x = Some r \<and> r < dsu_len d \<and> dsu_find_const d r = Some r"
    if "dsu_ok d" "x < dsu_len d" for d x
    using dsu_rep [OF that] by blast
qed (rule dsu_union_spec)

subsection \<open>Properties\<close>

text \<open>On a well-formed union-find structure every operation returns and keeps the structure
  well formed: finding with path compression gives the representative the pure search gives and
  changes no representative, union makes the two classes one and leaves the others alone, and
  adding an element adds a singleton.\<close>

theorem dsu_operations:
  assumes "dsu_ok d" "x < dsu_len d" "y < dsu_len d"
  shows "(\<exists>d' r. dsu_find d x = Some (d', r) \<and> dsu_ok d' \<and> dsu_find_const d x = Some r \<and>
      (\<forall>z<dsu_len d. dsu_find_const d' z = dsu_find_const d z)) \<and>
    (\<exists>d' r. dsu_union d x y = Some (d', r) \<and> dsu_ok d' \<and>
      (\<forall>z<dsu_len d. dsu_find_const d' z =
        (if dsu_find_const d z \<in> {dsu_find_const d x, dsu_find_const d y} then Some r else dsu_find_const d z))) \<and>
    dsu_ok (fst (dsu_push d)) \<and> dsu_find_const (fst (dsu_push d)) x = dsu_find_const d x \<and>
    dsu_find_const (fst (dsu_push d)) (snd (dsu_push d)) = Some (snd (dsu_push d))"
proof -
  obtain d' where d': "dsu_find d x = Some (d', root (dsu_parent d) x)" "dsu_ok d'" "dsu_len d' = dsu_len d"
    "\<forall>z<dsu_len d. root (dsu_parent d') z = root (dsu_parent d) z"
    using dsu_find_spec [OF assms(1,2)] by blast
  have "dsu_find_const d' z = dsu_find_const d z" if "z < dsu_len d" for z
    using dsu_rep(1) [OF d'(2), of z] dsu_rep(1) [OF assms(1) that] d' that by simp
  then have "\<exists>d' r. dsu_find d x = Some (d', r) \<and> dsu_ok d' \<and> dsu_find_const d x = Some r \<and>
      (\<forall>z<dsu_len d. dsu_find_const d' z = dsu_find_const d z)"
    using d' dsu_rep(1) [OF assms(1,2)] by blast
  then show ?thesis using dsu_union_spec [OF assms] dsu_push_spec [OF assms(1)] assms(2) by auto
qed

lemma dsu_new_3_ok: "dsu_ok (dsu_new 3)" "1 < dsu_len (dsu_new 3)" "2 < dsu_len (dsu_new 3)"
  by (simp_all add: dsu_new_ok)

theorem dsu_operations_witness:
  "\<exists>d' r. dsu_union (dsu_new 3) 1 2 = Some (d', r) \<and> dsu_find_const d' 2 = Some r"
proof -
  from dsu_operations [OF dsu_new_3_ok] obtain d' r where
    u: "dsu_union (dsu_new 3) 1 2 = Some (d', r)" and
    z: "\<forall>z<dsu_len (dsu_new 3). dsu_find_const d' z =
        (if dsu_find_const (dsu_new 3) z \<in> {dsu_find_const (dsu_new 3) 1, dsu_find_const (dsu_new 3) 2}
         then Some r else dsu_find_const (dsu_new 3) z)" by blast
  have "dsu_find_const d' 2 = Some r" using spec [OF z, of 2] dsu_new_3_ok(3) by simp
  then show ?thesis using u by blast
qed

text \<open>C33: A union-find structure built by a sequence of unions decides the least equivalence
  relation that contains the unions: two elements are in the same set exactly when a chain of
  them connects the two.\<close>

theorem dsu_decides_closure:
  assumes "\<And>x y. (x, y) \<in> set ps \<Longrightarrow> x < n \<and> y < n"
  shows "\<exists>d. merge_all dsu_union ps (dsu_new n) = Some d \<and>
    (\<forall>a<n. \<forall>b<n. dsu_same_set d a b = Some ((a, b) \<in> (set ps \<union> (set ps)\<inverse>)\<^sup>*))"
proof -
  have id: "partition_of n (dsu_find_const (dsu_new n)) \<subseteq> Id"
    by (auto simp: partition_of_def dsu_new_rep)
  then have "(partition_of n (dsu_find_const (dsu_new n)) \<union> set ps \<union> (set ps)\<inverse>)\<^sup>* = (set ps \<union> (set ps)\<inverse>)\<^sup>*"
    by (intro rtrancl_subset) (auto simp: Un_assoc)
  then obtain d where d: "merge_all dsu_union ps (dsu_new n) = Some d" "dsu_ok d" "dsu_len d = n"
    "\<forall>a<n. \<forall>b<n. dsu_find_const d a = dsu_find_const d b \<longleftrightarrow> (a, b) \<in> (set ps \<union> (set ps)\<inverse>)\<^sup>*"
    using dsu_uf.merge_all_closure [of "dsu_new n" ps] assms unfolding dsu_new_ok(2) using dsu_new_ok(1) by auto
  have "dsu_same_set d a b = Some ((a, b) \<in> (set ps \<union> (set ps)\<inverse>)\<^sup>*)" if "a < n" "b < n" for a b
  proof -
    have "dsu_find_const d a = dsu_find_const d b \<longleftrightarrow> (a, b) \<in> (set ps \<union> (set ps)\<inverse>)\<^sup>*"
      using d(4) that by blast
    then show ?thesis
      using dsu_rep(1) [OF d(2), of a] dsu_rep(1) [OF d(2), of b] d(3) that by (simp add: dsu_same_set_def)
  qed
  then show ?thesis using d(1) by blast
qed

theorem dsu_decides_closure_witness:
  "\<exists>d. merge_all dsu_union [(0, 1), (2, 1)] (dsu_new 4) = Some d \<and> dsu_same_set d 0 2 = Some True"
proof -
  have r: "x < 4 \<and> y < 4" if "(x, y) \<in> set [(0, 1), (2, 1)]" for x y :: nat using that by auto
  have "(0::nat, 2) \<in> (set [(0, 1), (2, 1)] \<union> (set [(0, 1), (2, 1)])\<inverse>)\<^sup>*"
    by (rule converse_rtrancl_into_rtrancl [of _ 1], simp, rule r_into_rtrancl, simp)
  then show ?thesis using dsu_decides_closure [of "[(0, 1), (2, 1)]" 4, OF r] by fastforce
qed

end
