(* ===== verification/Label_Order.thy ===== *)
theory Label_Order
  imports Syntax "HOL-Library.Char_ord" "HOL-Library.List_Lexorder" "HOL-Library.Product_Lexorder"
begin

text \<open>
  The derived order of labels (\<open>src/cfg/label.rs\<close>): lexicographic in the prefix, the two
  positions and the special name.  It is the iteration order of every map and set of labels.
\<close>

definition label_key :: "'a label_scheme \<Rightarrow> string \<times> int \<times> int \<times> string \<times> 'a" where
  "label_key l = (stack_frame_prefix l, label_from l, label_to l, special_label l, label.more l)"

lemma label_key_inj: "label_key a = label_key b \<longleftrightarrow> a = b"
  by (cases a; cases b) (auto simp: label_key_def)

instantiation label_ext :: (linorder) linorder
begin

definition less_eq_label_ext :: "'a label_scheme \<Rightarrow> 'a label_scheme \<Rightarrow> bool" where
  "less_eq_label_ext a b \<longleftrightarrow> label_key a \<le> label_key b"

definition less_label_ext :: "'a label_scheme \<Rightarrow> 'a label_scheme \<Rightarrow> bool" where
  "less_label_ext a b \<longleftrightarrow> label_key a < label_key b"

instance
proof
  fix a b c :: "'a label_scheme"
  show "a < b \<longleftrightarrow> a \<le> b \<and> \<not> b \<le> a" "a \<le> a" "a \<le> b \<or> b \<le> a"
    by (auto simp: less_eq_label_ext_def less_label_ext_def)
  show "a \<le> c" if "a \<le> b" "b \<le> c"
    using that unfolding less_eq_label_ext_def by (rule order.trans)
  show "a = b" if "a \<le> b" "b \<le> a"
    using that unfolding less_eq_label_ext_def by (metis antisym label_key_inj)
qed

end

lemma entry_neq_exit [simp]: "label_entry \<noteq> label_exit" "label_exit \<noteq> label_entry"
  by (simp_all add: label_entry_def label_exit_def)

lemma label_new_less: "label_new i < label_new j \<longleftrightarrow> i < j"
  by (simp add: less_label_ext_def label_key_def label_new_def)

end
