(* ===== verification/Bset.thy ===== *)
theory Bset
  imports Btree
begin

text \<open>
  \<open>BTreeSet\<close> of the Rust standard library as the model uses it: a strictly increasing list,
  so that iteration is in order.  Insertion returns whether the element was new, as the code's
  \<open>insert\<close> does.
\<close>

type_synonym 'k bset = "'k list"

fun bs_insert :: "'k::linorder \<Rightarrow> 'k bset \<Rightarrow> 'k bset" where
  "bs_insert k [] = [k]"
| "bs_insert k (x # xs) = (if k < x then k # x # xs else if k = x then x # xs else x # bs_insert k xs)"

definition bs_remove :: "'k \<Rightarrow> 'k bset \<Rightarrow> 'k bset" where
  "bs_remove k xs = filter (\<lambda>x. x \<noteq> k) xs"

abbreviation bs_ok :: "'k::linorder bset \<Rightarrow> bool" where
  "bs_ok xs \<equiv> sorted_wrt (<) xs"

lemma set_bs_insert [simp]: "set (bs_insert k xs) = insert k (set xs)"
  by (induction k xs rule: bs_insert.induct) auto

lemma set_bs_remove [simp]: "set (bs_remove k xs) = set xs - {k}"
  by (auto simp: bs_remove_def)

lemma bs_ok_insert [simp]: "bs_ok xs \<Longrightarrow> bs_ok (bs_insert k xs)"
  by (induction k xs rule: bs_insert.induct) auto

lemma bs_ok_remove [simp]: "bs_ok xs \<Longrightarrow> bs_ok (bs_remove k xs)"
  unfolding bs_remove_def by (rule sorted_wrt_filter)

lemma bs_ok_distinct: "bs_ok xs \<Longrightarrow> distinct xs"
  by (induction xs) auto

lemma bs_eqI: "bs_ok xs \<Longrightarrow> bs_ok ys \<Longrightarrow> set xs = set ys \<Longrightarrow> xs = ys"
  by (rule strict_sorted_equal)

lemma bs_insert_absorb: "bs_ok xs \<Longrightarrow> k \<in> set xs \<Longrightarrow> bs_insert k xs = xs"
  by (rule bs_eqI) auto

end
