(* ===== verification/Cfg.thy ===== *)
theory Cfg
  imports Label_Order Bset
begin

text \<open>
  \<open>src/cfg/graph.rs\<close>: the control-flow graph, its construction and its basic blocks.  A missing
  label and a failed assertion panic, so the operations return an \<open>option\<close>.
\<close>

subsection \<open>The graph\<close>

record adjacent =
  adj_parents :: "label bset"
  adj_children :: "label bset"

type_synonym cfg = "(label, adjacent) btree"

definition adjacent_new :: adjacent where
  "adjacent_new = \<lparr>adj_parents = [], adj_children = []\<rparr>"

definition cfg_new :: cfg where
  "cfg_new = bt_insert label_exit adjacent_new (bt_insert label_entry adjacent_new [])"

definition get_node :: "cfg \<Rightarrow> label \<Rightarrow> adjacent option" where
  "get_node g l = map_of g l"

definition children_of :: "cfg \<Rightarrow> label \<Rightarrow> label bset option" where
  "children_of g l = map_option adj_children (get_node g l)"

definition parents_of :: "cfg \<Rightarrow> label \<Rightarrow> label bset option" where
  "parents_of g l = map_option adj_parents (get_node g l)"

definition cfg_labels :: "cfg \<Rightarrow> label list" where
  "cfg_labels g = map fst g"

definition cfg_size :: "cfg \<Rightarrow> nat" where
  "cfg_size g = length g"

definition cfg_contains :: "cfg \<Rightarrow> label \<Rightarrow> bool" where
  "cfg_contains g l \<longleftrightarrow> map_of g l \<noteq> None"

definition get_child :: "cfg \<Rightarrow> label \<Rightarrow> label option" where
  "get_child g l =
     do { cs \<leftarrow> children_of g l; assert_that (length cs = 1); Some (hd cs) }"

definition get_parent :: "cfg \<Rightarrow> label \<Rightarrow> label option" where
  "get_parent g l =
     do { ps \<leftarrow> parents_of g l; assert_that (length ps = 1); Some (hd ps) }"

definition in_degree :: "cfg \<Rightarrow> label \<Rightarrow> nat option" where
  "in_degree g l = map_option length (parents_of g l)"

definition out_degree :: "cfg \<Rightarrow> label \<Rightarrow> nat option" where
  "out_degree g l = map_option length (children_of g l)"

definition num_siblings :: "cfg \<Rightarrow> label \<Rightarrow> nat option" where
  "num_siblings g l = do { p \<leftarrow> get_parent g l; out_degree g p }"

definition cfg_insert :: "label \<Rightarrow> cfg \<Rightarrow> cfg option" where
  "cfg_insert l g =
     do { assert_that (\<not> cfg_contains g l); Some (bt_insert l adjacent_new g) }"

text \<open>The mutable access to a node: the update is written back under the same key.\<close>

definition update_node :: "label \<Rightarrow> (adjacent \<Rightarrow> adjacent) \<Rightarrow> cfg \<Rightarrow> cfg option" where
  "update_node l f g = do { n \<leftarrow> get_node g l; Some (bt_insert l (f n) g) }"

definition add_child :: "label \<Rightarrow> label \<Rightarrow> cfg \<Rightarrow> cfg option" where
  "add_child a b g =
     do { assert_that (b \<noteq> label_entry);
          assert_that (a \<noteq> label_exit);
          g1 \<leftarrow> update_node a (adj_children_update (bs_insert b)) g;
          update_node b (adj_parents_update (bs_insert a)) g1 }"

definition remove_child :: "label \<Rightarrow> label \<Rightarrow> cfg \<Rightarrow> cfg option" where
  "remove_child a b g =
     do { g1 \<leftarrow> update_node a (adj_children_update (bs_remove b)) g;
          update_node b (adj_parents_update (bs_remove a)) g1 }"

fun unlink_parents :: "label \<Rightarrow> label list \<Rightarrow> cfg \<Rightarrow> cfg option" where
  "unlink_parents p [] g = Some g"
| "unlink_parents p (c # cs) g =
     do { g1 \<leftarrow> update_node c (adj_parents_update (bs_remove p)) g; unlink_parents p cs g1 }"

fun relink_children :: "label \<Rightarrow> label \<Rightarrow> label list \<Rightarrow> cfg \<Rightarrow> cfg option" where
  "relink_children p n [] g = Some g"
| "relink_children p n (c # cs) g =
     do { g1 \<leftarrow> add_child p n g; g2 \<leftarrow> add_child n c g1; relink_children p n cs g2 }"

definition insert_after :: "label \<Rightarrow> label \<Rightarrow> cfg \<Rightarrow> cfg option" where
  "insert_after prev new g =
     do { assert_that (prev \<noteq> new);
          cs \<leftarrow> children_of g prev;
          g1 \<leftarrow> update_node prev (adj_children_update (\<lambda>_. [])) g;
          g2 \<leftarrow> unlink_parents prev cs g1;
          g3 \<leftarrow> cfg_insert new g2;
          relink_children prev new cs g3 }"

subsection \<open>Construction from an adjacency list\<close>

definition insert_missing :: "label \<Rightarrow> cfg \<Rightarrow> cfg option" where
  "insert_missing l g =
     (if l \<noteq> label_entry \<and> l \<noteq> label_exit \<and> \<not> cfg_contains g l then cfg_insert l g else Some g)"

fun insert_all :: "label list \<Rightarrow> cfg \<Rightarrow> cfg option" where
  "insert_all [] g = Some g"
| "insert_all (l # ls) g = do { g1 \<leftarrow> insert_missing l g; insert_all ls g1 }"

fun add_children :: "label \<Rightarrow> label list \<Rightarrow> cfg \<Rightarrow> cfg option" where
  "add_children l [] g = Some g"
| "add_children l (c # cs) g = do { g1 \<leftarrow> add_child l c g; add_children l cs g1 }"

fun insert_nodes :: "(label \<times> label list) list \<Rightarrow> cfg \<Rightarrow> cfg option" where
  "insert_nodes [] g = Some g"
| "insert_nodes ((l, cs) # adj) g = do { g1 \<leftarrow> insert_all (l # cs) g; insert_nodes adj g1 }"

fun insert_edges :: "(label \<times> label list) list \<Rightarrow> cfg \<Rightarrow> cfg option" where
  "insert_edges [] g = Some g"
| "insert_edges ((l, cs) # adj) g = do { g1 \<leftarrow> add_children l cs g; insert_edges adj g1 }"

definition cfg_from_adjacency_list :: "(label \<times> label list) list \<Rightarrow> cfg option" where
  "cfg_from_adjacency_list adj = do { g \<leftarrow> insert_nodes adj cfg_new; insert_edges adj g }"

subsection \<open>The edges and the invariant\<close>

definition cfg_edges :: "cfg \<Rightarrow> (label \<times> label) set" where
  "cfg_edges g = {(a, b). \<exists>n. map_of g a = Some n \<and> b \<in> set (adj_children n)}"

definition cfg_back_edges :: "cfg \<Rightarrow> (label \<times> label) set" where
  "cfg_back_edges g = {(a, b). \<exists>n. map_of g b = Some n \<and> a \<in> set (adj_parents n)}"

definition nodes_ok :: "cfg \<Rightarrow> bool" where
  "nodes_ok g \<longleftrightarrow> bt_ok g \<and>
     (\<forall>l n. map_of g l = Some n \<longrightarrow> bs_ok (adj_parents n) \<and> bs_ok (adj_children n))"

definition cfg_ok :: "cfg \<Rightarrow> bool" where
  "cfg_ok g \<longleftrightarrow> nodes_ok g \<and> label_entry \<in> dom (map_of g) \<and> label_exit \<in> dom (map_of g) \<and>
     cfg_edges g = cfg_back_edges g \<and>
     (\<forall>(a, b)\<in>cfg_edges g. a \<noteq> label_exit \<and> b \<noteq> label_entry)"

lemma cfg_edges_dom:
  assumes "cfg_ok g" "(a, b) \<in> cfg_edges g"
  shows "a \<in> dom (map_of g)" "b \<in> dom (map_of g)"
proof -
  show "a \<in> dom (map_of g)" using assms(2) by (auto simp: cfg_edges_def)
  have "(a, b) \<in> cfg_back_edges g" using assms by (simp add: cfg_ok_def)
  then show "b \<in> dom (map_of g)" by (auto simp: cfg_back_edges_def)
qed

lemma update_node_spec:
  assumes "nodes_ok g" "update_node l f g = Some g'"
    "\<And>n. bs_ok (adj_parents n) \<Longrightarrow> bs_ok (adj_children n) \<Longrightarrow> bs_ok (adj_parents (f n)) \<and> bs_ok (adj_children (f n))"
  shows "nodes_ok g'" "dom (map_of g') = dom (map_of g)"
    "map_of g' = (map_of g)(l := map_option f (map_of g l))" "map_of g l \<noteq> None"
proof -
  obtain n where n: "map_of g l = Some n" "g' = bt_insert l (f n) g"
    using assms(2) by (auto simp: update_node_def get_node_def bind_eq_Some_conv)
  have m: "map_of g' = (map_of g)(l \<mapsto> f n)" using assms(1) n by (simp add: nodes_ok_def)
  then show "map_of g' = (map_of g)(l := map_option f (map_of g l))" "map_of g l \<noteq> None"
    "dom (map_of g') = dom (map_of g)" using n by auto
  show "nodes_ok g'"
    using assms(1,3) n m by (auto simp: nodes_ok_def split: if_splits)
qed

lemma update_node_total: "map_of g l \<noteq> None \<Longrightarrow> update_node l f g \<noteq> None"
  by (auto simp: update_node_def get_node_def)

lemma bs_ok_updates:
  "\<forall>xs. bs_ok xs \<longrightarrow> bs_ok (bs_insert (k::label) xs)" "\<forall>xs. bs_ok xs \<longrightarrow> bs_ok (bs_remove (k::label) xs)"
  "\<forall>xs. bs_ok xs \<longrightarrow> bs_ok ((\<lambda>_. [] :: label list) xs)"
  by simp_all

lemma update_children_edges:
  assumes "nodes_ok g" "update_node a (adj_children_update f) g = Some g'"
    "\<forall>xs. bs_ok xs \<longrightarrow> bs_ok (f xs)"
  shows "nodes_ok g'" "dom (map_of g') = dom (map_of g)" "cfg_back_edges g' = cfg_back_edges g"
    "cfg_edges g' = {(x, y) \<in> cfg_edges g. x \<noteq> a} \<union>
      {(a, y) | y n. map_of g a = Some n \<and> y \<in> set (f (adj_children n))}"
proof -
  note u = update_node_spec [OF assms(1,2)]
  show "nodes_ok g'" "dom (map_of g') = dom (map_of g)" by (rule u(1,2), use assms(3) in simp)+
  have m: "map_of g' = (map_of g)(a := map_option (adj_children_update f) (map_of g a))"
    using u(3) assms(3) by simp
  show "cfg_back_edges g' = cfg_back_edges g"
    unfolding cfg_back_edges_def m by (auto split: if_splits)
  show "cfg_edges g' = {(x, y) \<in> cfg_edges g. x \<noteq> a} \<union>
      {(a, y) | y n. map_of g a = Some n \<and> y \<in> set (f (adj_children n))}"
    unfolding cfg_edges_def m by (auto split: if_splits)
qed

lemma update_parents_edges:
  assumes "nodes_ok g" "update_node b (adj_parents_update f) g = Some g'"
    "\<forall>xs. bs_ok xs \<longrightarrow> bs_ok (f xs)"
  shows "nodes_ok g'" "dom (map_of g') = dom (map_of g)" "cfg_edges g' = cfg_edges g"
    "cfg_back_edges g' = {(x, y) \<in> cfg_back_edges g. y \<noteq> b} \<union>
      {(x, b) | x n. map_of g b = Some n \<and> x \<in> set (f (adj_parents n))}"
proof -
  note u = update_node_spec [OF assms(1,2)]
  show "nodes_ok g'" "dom (map_of g') = dom (map_of g)" by (rule u(1,2), use assms(3) in simp)+
  have m: "map_of g' = (map_of g)(b := map_option (adj_parents_update f) (map_of g b))"
    using u(3) assms(3) by simp
  show "cfg_edges g' = cfg_edges g"
    unfolding cfg_edges_def m by (auto split: if_splits)
  show "cfg_back_edges g' = {(x, y) \<in> cfg_back_edges g. y \<noteq> b} \<union>
      {(x, b) | x n. map_of g b = Some n \<and> x \<in> set (f (adj_parents n))}"
    unfolding cfg_back_edges_def m by (auto split: if_splits)
qed

lemma node_edges:
  "{(a, y) | y n. map_of g a = Some n \<and> y \<in> set (adj_children n)} = {(x, y) \<in> cfg_edges g. x = a}"
  "{(x, b) | x n. map_of g b = Some n \<and> x \<in> set (adj_parents n)} = {(x, y) \<in> cfg_back_edges g. y = b}"
  by (auto simp: cfg_edges_def cfg_back_edges_def)

subsection \<open>The operations keep the invariant\<close>

lemma cfg_new_ok: "cfg_ok cfg_new" "cfg_edges cfg_new = {}"
proof -
  have m: "map_of cfg_new = [label_entry \<mapsto> adjacent_new, label_exit \<mapsto> adjacent_new]"
    by (auto simp: cfg_new_def)
  have "bt_ok cfg_new" unfolding cfg_new_def by (intro bt_ok_insert) simp
  then show "cfg_ok cfg_new" "cfg_edges cfg_new = {}"
    by (auto simp: cfg_ok_def nodes_ok_def cfg_edges_def cfg_back_edges_def m adjacent_new_def split: if_splits)
qed

lemma add_child_spec:
  assumes ok: "cfg_ok g" and r: "add_child a b g = Some g'"
  shows "cfg_ok g'" "cfg_edges g' = insert (a, b) (cfg_edges g)" "dom (map_of g') = dom (map_of g)"
proof -
  obtain g1 where g1: "update_node a (adj_children_update (bs_insert b)) g = Some g1"
    and g2: "update_node b (adj_parents_update (bs_insert a)) g1 = Some g'"
    and ne: "b \<noteq> label_entry" "a \<noteq> label_exit"
    using r by (auto simp: add_child_def panic_simps)
  have n: "nodes_ok g" using ok by (simp add: cfg_ok_def)
  note u1 = update_children_edges [OF n g1 bs_ok_updates(1)]
  note u2 = update_parents_edges [OF u1(1) g2 bs_ok_updates(1)]
  have a: "map_of g a \<noteq> None" and b: "map_of g1 b \<noteq> None"
    using g1 g2 by (auto simp: update_node_def get_node_def bind_eq_Some_conv)
  have e: "cfg_edges g' = insert (a, b) (cfg_edges g)"
    unfolding u2(3) u1(4) using a by (auto simp: cfg_edges_def)
  have be: "cfg_back_edges g' = insert (a, b) (cfg_back_edges g1)"
    unfolding u2(4) using b by (auto simp: cfg_back_edges_def)
  show "cfg_edges g' = insert (a, b) (cfg_edges g)" by (rule e)
  show "dom (map_of g') = dom (map_of g)" using u1(2) u2(2) by simp
  show "cfg_ok g'"
    using ok u2(1) e be u1(2,3) u2(2) ne unfolding cfg_ok_def by auto
qed

lemma add_child_total:
  assumes "cfg_ok g" "a \<in> dom (map_of g)" "b \<in> dom (map_of g)" "b \<noteq> label_entry" "a \<noteq> label_exit"
  shows "add_child a b g \<noteq> None"
proof -
  have n: "nodes_ok g" using assms(1) by (simp add: cfg_ok_def)
  obtain g1 where g1: "update_node a (adj_children_update (bs_insert b)) g = Some g1"
    using update_node_total [of g a] assms(2) by blast
  have "b \<in> dom (map_of g1)" using update_children_edges(2) [OF n g1 bs_ok_updates(1)] assms(3) by simp
  then have "update_node b (adj_parents_update (bs_insert a)) g1 \<noteq> None"
    using update_node_total [of g1 b] by blast
  then show ?thesis using g1 assms(4,5) by (simp add: add_child_def)
qed

lemma remove_child_spec:
  assumes ok: "cfg_ok g" and r: "remove_child a b g = Some g'"
  shows "cfg_ok g'" "cfg_edges g' = cfg_edges g - {(a, b)}" "dom (map_of g') = dom (map_of g)"
proof -
  obtain g1 where g1: "update_node a (adj_children_update (bs_remove b)) g = Some g1"
    and g2: "update_node b (adj_parents_update (bs_remove a)) g1 = Some g'"
    using r by (auto simp: remove_child_def panic_simps)
  have n: "nodes_ok g" using ok by (simp add: cfg_ok_def)
  note u1 = update_children_edges [OF n g1 bs_ok_updates(2)]
  note u2 = update_parents_edges [OF u1(1) g2 bs_ok_updates(2)]
  have e: "cfg_edges g' = cfg_edges g - {(a, b)}"
    unfolding u2(3) u1(4) by (auto simp: cfg_edges_def)
  have be: "cfg_back_edges g' = cfg_back_edges g1 - {(a, b)}"
    unfolding u2(4) by (auto simp: cfg_back_edges_def)
  show "cfg_edges g' = cfg_edges g - {(a, b)}" by (rule e)
  show "dom (map_of g') = dom (map_of g)" using u1(2) u2(2) by simp
  show "cfg_ok g'"
    using ok u2(1) e be u1(2,3) u2(2) unfolding cfg_ok_def by auto
qed

lemma cfg_insert_spec:
  assumes ok: "cfg_ok g" and r: "cfg_insert l g = Some g'"
  shows "cfg_ok g'" "cfg_edges g' = cfg_edges g" "dom (map_of g') = insert l (dom (map_of g))"
proof -
  have l: "map_of g l = None" and g': "g' = bt_insert l adjacent_new g"
    using r by (auto simp: cfg_insert_def cfg_contains_def panic_simps)
  have m: "map_of g' = (map_of g)(l \<mapsto> adjacent_new)" using ok g' by (simp add: cfg_ok_def nodes_ok_def)
  have e: "cfg_edges g' = cfg_edges g" "cfg_back_edges g' = cfg_back_edges g"
    unfolding cfg_edges_def cfg_back_edges_def m using l by (auto simp: adjacent_new_def split: if_splits)
  have "nodes_ok g'"
    using ok g' m by (auto simp: cfg_ok_def nodes_ok_def adjacent_new_def split: if_splits)
  then show "cfg_ok g'" using ok e m unfolding cfg_ok_def by auto
  show "cfg_edges g' = cfg_edges g" "dom (map_of g') = insert l (dom (map_of g))" using e m by auto
qed

lemma unlink_parents_spec:
  assumes "nodes_ok g" "unlink_parents p cs g = Some g'"
  shows "nodes_ok g' \<and> cfg_edges g' = cfg_edges g \<and> dom (map_of g') = dom (map_of g) \<and>
    cfg_back_edges g' = cfg_back_edges g - {(p, c) | c. c \<in> set cs}"
  using assms
proof (induction cs arbitrary: g)
  case (Cons c cs)
  then obtain g1 where g1: "update_node c (adj_parents_update (bs_remove p)) g = Some g1"
    and r: "unlink_parents p cs g1 = Some g'" by (auto simp: panic_simps)
  note u = update_parents_edges [OF Cons.prems(1) g1 bs_ok_updates(2)]
  have "cfg_back_edges g1 = cfg_back_edges g - {(p, c)}"
    unfolding u(4) by (auto simp: cfg_back_edges_def)
  then show ?case using Cons.IH [OF u(1) r] u by auto
qed auto

lemma unlink_parents_total:
  "nodes_ok g \<Longrightarrow> set cs \<subseteq> dom (map_of g) \<Longrightarrow> unlink_parents p cs g \<noteq> None"
proof (induction cs arbitrary: g)
  case (Cons c cs)
  have "update_node c (adj_parents_update (bs_remove p)) g \<noteq> None"
    using Cons.prems update_node_total [of g c] by (auto simp: dom_def)
  then obtain g1 where g1: "update_node c (adj_parents_update (bs_remove p)) g = Some g1" by blast
  note u = update_parents_edges [OF Cons.prems(1) g1 bs_ok_updates(2)]
  show ?case using Cons.IH [OF u(1)] Cons.prems(2) u(2) g1 by simp
qed simp

lemma relink_children_spec:
  assumes "cfg_ok g" "relink_children p n cs g = Some g'"
  shows "cfg_ok g' \<and> dom (map_of g') = dom (map_of g) \<and>
    cfg_edges g' = cfg_edges g \<union> {(p, n) | c. c \<in> set cs} \<union> {(n, c) | c. c \<in> set cs}"
  using assms
proof (induction cs arbitrary: g)
  case (Cons c cs)
  then obtain g1 g2 where g1: "add_child p n g = Some g1" and g2: "add_child n c g1 = Some g2"
    and r: "relink_children p n cs g2 = Some g'" by (auto simp: panic_simps)
  note u1 = add_child_spec [OF Cons.prems(1) g1]
  note u2 = add_child_spec [OF u1(1) g2]
  show ?case using Cons.IH [OF u2(1) r] u1 u2 by auto
qed auto

lemma relink_children_total:
  assumes "cfg_ok g" "p \<in> dom (map_of g)" "n \<in> dom (map_of g)" "set cs \<subseteq> dom (map_of g)"
    "n \<noteq> label_entry" "n \<noteq> label_exit" "p \<noteq> label_exit \<or> cs = []" "label_entry \<notin> set cs"
  shows "relink_children p n cs g \<noteq> None"
  using assms
proof (induction cs arbitrary: g)
  case (Cons c cs)
  have "add_child p n g \<noteq> None" using Cons.prems by (intro add_child_total) auto
  then obtain g1 where g1: "add_child p n g = Some g1" by blast
  note u1 = add_child_spec [OF Cons.prems(1) g1]
  have "add_child n c g1 \<noteq> None" using Cons.prems u1 by (intro add_child_total) auto
  then obtain g2 where g2: "add_child n c g1 = Some g2" by blast
  note u2 = add_child_spec [OF u1(1) g2]
  have "relink_children p n cs g2 \<noteq> None"
    using Cons.prems u1 u2 by (intro Cons.IH) auto
  then show ?case using g1 g2 by simp
qed simp

lemma insert_after_spec:
  assumes ok: "cfg_ok g" and r: "insert_after prev new g = Some g'"
  shows "cfg_ok g'" "dom (map_of g') = insert new (dom (map_of g))"
    "cfg_edges g' = {(a, b) \<in> cfg_edges g. a \<noteq> prev} \<union> {(prev, new) | c. (prev, c) \<in> cfg_edges g} \<union>
      {(new, c) | c. (prev, c) \<in> cfg_edges g}"
proof -
  obtain n g1 g2 g3 where n: "map_of g prev = Some n"
    and g1: "update_node prev (adj_children_update (\<lambda>_. [])) g = Some g1"
    and g2: "unlink_parents prev (adj_children n) g1 = Some g2"
    and g3: "cfg_insert new g2 = Some g3"
    and g4: "relink_children prev new (adj_children n) g3 = Some g'"
    using r by (auto simp: insert_after_def children_of_def get_node_def panic_simps)
  have nok: "nodes_ok g" and sym: "cfg_edges g = cfg_back_edges g" using ok by (auto simp: cfg_ok_def)
  note u1 = update_children_edges [OF nok g1 bs_ok_updates(3)]
  note u2 = unlink_parents_spec [OF u1(1) g2]
  have cs: "c \<in> set (adj_children n) \<longleftrightarrow> (prev, c) \<in> cfg_edges g" for c
    using n by (auto simp: cfg_edges_def)
  have e2: "cfg_edges g2 = {(x, y) \<in> cfg_edges g. x \<noteq> prev}" using u2 u1(4) by simp
  have b2: "cfg_back_edges g2 = {(x, y) \<in> cfg_edges g. x \<noteq> prev}"
    using u2 u1(3) sym cs by auto
  have d2: "dom (map_of g2) = dom (map_of g)" using u1(2) u2 by simp
  have ok2: "cfg_ok g2"
    using ok e2 b2 d2 u2 unfolding cfg_ok_def by auto
  note u3 = cfg_insert_spec [OF ok2 g3]
  note u4 = relink_children_spec [OF u3(1) g4]
  show "cfg_ok g'" "dom (map_of g') = insert new (dom (map_of g))" using u4 u3 d2 by auto
  show "cfg_edges g' = {(a, b) \<in> cfg_edges g. a \<noteq> prev} \<union> {(prev, new) | c. (prev, c) \<in> cfg_edges g} \<union>
      {(new, c) | c. (prev, c) \<in> cfg_edges g}"
    using u4 u3(2) e2 cs by simp
qed

lemma insert_after_total:
  assumes ok: "cfg_ok g" and p: "prev \<in> dom (map_of g)" and n: "new \<notin> dom (map_of g)"
  shows "insert_after prev new g \<noteq> None"
proof -
  obtain k where k: "map_of g prev = Some k" using p by auto
  let ?cs = "adj_children k"
  have nok: "nodes_ok g" and sym: "cfg_edges g = cfg_back_edges g" using ok by (auto simp: cfg_ok_def)
  have cs: "c \<in> set ?cs \<longleftrightarrow> (prev, c) \<in> cfg_edges g" for c using k by (auto simp: cfg_edges_def)
  obtain g1 where g1: "update_node prev (adj_children_update (\<lambda>_. [])) g = Some g1"
    using update_node_total k by blast
  note u1 = update_children_edges [OF nok g1 bs_ok_updates(3)]
  have sub: "set ?cs \<subseteq> dom (map_of g)" using cs cfg_edges_dom(2) [OF ok] by blast
  then obtain g2 where g2: "unlink_parents prev ?cs g1 = Some g2"
    using unlink_parents_total [OF u1(1)] u1(2) by (metis not_Some_eq)
  note u2 = unlink_parents_spec [OF u1(1) g2]
  have e: "cfg_edges g2 = {(x, y) \<in> cfg_edges g. x \<noteq> prev}" using u2 u1(4) by simp
  have b2: "cfg_back_edges g2 = {(x, y) \<in> cfg_edges g. x \<noteq> prev}" using u2 u1(3) sym cs by auto
  have e2: "cfg_edges g2 = {(x, y) \<in> cfg_edges g. x \<noteq> prev}" "cfg_back_edges g2 = cfg_edges g2"
    using e b2 by simp_all
  have d2: "dom (map_of g2) = dom (map_of g)" using u1(2) u2 by simp
  have ok2: "cfg_ok g2" using ok e2 d2 u2 unfolding cfg_ok_def by auto
  obtain g3 where g3: "cfg_insert new g2 = Some g3"
    using n d2 by (cases "map_of g2 new") (auto simp: cfg_insert_def cfg_contains_def)
  note u3 = cfg_insert_spec [OF ok2 g3]
  have ne: "new \<noteq> label_entry" "new \<noteq> label_exit" using n ok by (auto simp: cfg_ok_def)
  have ends: "a \<noteq> label_exit \<and> b \<noteq> label_entry" if "(a, b) \<in> cfg_edges g" for a b
    using ok that by (auto simp: cfg_ok_def)
  have "prev \<noteq> label_exit \<or> ?cs = []" using ends cs by (cases ?cs) auto
  moreover have "label_entry \<notin> set ?cs" using ends cs by blast
  ultimately have "relink_children prev new ?cs g3 \<noteq> None"
    using u3 d2 p sub ne by (intro relink_children_total) auto
  moreover have "prev \<noteq> new" using p n by auto
  ultimately show ?thesis
    using g1 g2 g3 k by (auto simp: insert_after_def children_of_def get_node_def)
qed

subsection \<open>Graphs built from an adjacency list\<close>

lemma insert_missing_spec:
  assumes "cfg_ok g"
  shows "\<exists>g'. insert_missing l g = Some g' \<and> cfg_ok g' \<and> cfg_edges g' = cfg_edges g \<and>
    dom (map_of g') = insert l (dom (map_of g))"
proof (cases "l \<noteq> label_entry \<and> l \<noteq> label_exit \<and> \<not> cfg_contains g l")
  case True
  then obtain g' where g': "cfg_insert l g = Some g'" by (simp add: cfg_insert_def)
  then show ?thesis using True cfg_insert_spec [OF assms g'] by (simp add: insert_missing_def)
next
  case False
  then have "l \<in> dom (map_of g)" using assms by (auto simp: cfg_ok_def cfg_contains_def)
  then show ?thesis using False assms by (auto simp: insert_missing_def)
qed

lemma insert_all_spec:
  "cfg_ok g \<Longrightarrow> \<exists>g'. insert_all ls g = Some g' \<and> cfg_ok g' \<and> cfg_edges g' = cfg_edges g \<and>
    dom (map_of g') = set ls \<union> dom (map_of g)"
proof (induction ls arbitrary: g)
  case (Cons l ls)
  then obtain g1 where g1: "insert_missing l g = Some g1" "cfg_ok g1" "cfg_edges g1 = cfg_edges g"
    "dom (map_of g1) = insert l (dom (map_of g))"
    using insert_missing_spec [OF Cons.prems] by blast
  obtain g' where "insert_all ls g1 = Some g'" "cfg_ok g'" "cfg_edges g' = cfg_edges g1"
    "dom (map_of g') = set ls \<union> dom (map_of g1)" using Cons.IH [OF g1(2)] by blast
  then show ?case using g1 by simp
qed simp

lemma insert_nodes_spec:
  "cfg_ok g \<Longrightarrow> \<exists>g'. insert_nodes adj g = Some g' \<and> cfg_ok g' \<and> cfg_edges g' = cfg_edges g \<and>
    dom (map_of g') = (\<Union>(l, cs)\<in>set adj. insert l (set cs)) \<union> dom (map_of g)"
proof (induction adj arbitrary: g)
  case (Cons p adj)
  obtain l cs where p: "p = (l, cs)" by (cases p)
  obtain g1 where g1: "insert_all (l # cs) g = Some g1" "cfg_ok g1" "cfg_edges g1 = cfg_edges g"
    "dom (map_of g1) = set (l # cs) \<union> dom (map_of g)" using insert_all_spec [OF Cons.prems] by blast
  show ?case using Cons.IH [OF g1(2)] g1 p by (auto simp del: insert_all.simps)
qed simp

lemma add_children_spec:
  "cfg_ok g \<Longrightarrow> l \<in> dom (map_of g) \<Longrightarrow> set cs \<subseteq> dom (map_of g) \<Longrightarrow> label_entry \<notin> set cs \<Longrightarrow>
    l \<noteq> label_exit \<or> cs = [] \<Longrightarrow>
    \<exists>g'. add_children l cs g = Some g' \<and> cfg_ok g' \<and> cfg_edges g' = cfg_edges g \<union> {l} \<times> set cs \<and>
      dom (map_of g') = dom (map_of g)"
proof (induction cs arbitrary: g)
  case (Cons c cs)
  have "add_child l c g \<noteq> None" by (rule add_child_total) (use Cons.prems in auto)
  then obtain g1 where g1: "add_child l c g = Some g1" by blast
  note u = add_child_spec [OF Cons.prems(1) g1]
  show ?case using Cons.IH [OF u(1)] Cons.prems u g1 by auto
qed simp

definition adjacency_edges :: "(label \<times> label list) list \<Rightarrow> (label \<times> label) set" where
  "adjacency_edges adj = {(l, c). \<exists>cs. (l, cs) \<in> set adj \<and> c \<in> set cs}"

lemma insert_edges_spec:
  "cfg_ok g \<Longrightarrow> (\<And>l cs. (l, cs) \<in> set adj \<Longrightarrow> l \<in> dom (map_of g) \<and> set cs \<subseteq> dom (map_of g) \<and>
      label_entry \<notin> set cs \<and> (l \<noteq> label_exit \<or> cs = [])) \<Longrightarrow>
    \<exists>g'. insert_edges adj g = Some g' \<and> cfg_ok g' \<and> cfg_edges g' = cfg_edges g \<union> adjacency_edges adj"
proof (induction adj arbitrary: g)
  case (Cons p adj)
  obtain l cs where p: "p = (l, cs)" by (cases p)
  then have c: "l \<in> dom (map_of g)" "set cs \<subseteq> dom (map_of g)" "label_entry \<notin> set cs" "l \<noteq> label_exit \<or> cs = []"
    using Cons.prems(2) [of l cs] by auto
  obtain g1 where g1: "add_children l cs g = Some g1" "cfg_ok g1"
    "cfg_edges g1 = cfg_edges g \<union> {l} \<times> set cs" "dom (map_of g1) = dom (map_of g)"
    using add_children_spec [OF Cons.prems(1) c] by blast
  have "\<exists>g'. insert_edges adj g1 = Some g' \<and> cfg_ok g' \<and> cfg_edges g' = cfg_edges g1 \<union> adjacency_edges adj"
    by (rule Cons.IH [OF g1(2)]) (use Cons.prems(2) g1(4) in auto)
  then show ?case using g1 p by (auto simp: adjacency_edges_def)
qed (simp add: adjacency_edges_def)

subsection \<open>Basic blocks\<close>

type_synonym basic_block = "label list"

text \<open>A set of blocks is ordered by first labels; inserting a block whose first label is
  present changes nothing.\<close>

fun block_insert :: "basic_block \<Rightarrow> basic_block list \<Rightarrow> basic_block list" where
  "block_insert b [] = [b]"
| "block_insert b (c # cs) =
     (if hd b < hd c then b # c # cs else if hd b = hd c then c # cs else c # block_insert b cs)"

fun plain_blocks :: "label list \<Rightarrow> basic_block list \<Rightarrow> basic_block list" where
  "plain_blocks [] res = res"
| "plain_blocks (l # ls) res =
     plain_blocks ls (if l \<noteq> label_entry \<and> l \<noteq> label_exit then block_insert [l] res else res)"

lemma in_degree_dom: "in_degree g l = Some k \<Longrightarrow> l \<in> set (cfg_labels g)"
  by (auto simp: in_degree_def parents_of_def get_node_def cfg_labels_def dest: map_of_SomeD intro: image_eqI [rotated])

text \<open>The \<open>while\<close> loop that extends a block; each step sees a new label of the graph.\<close>

function grow_block :: "cfg \<Rightarrow> basic_block \<Rightarrow> label \<Rightarrow> label bset \<Rightarrow> (basic_block \<times> label bset) option" where
  "grow_block g bb current seen =
     (case out_degree g current of
        None \<Rightarrow> None
      | Some d \<Rightarrow>
        if d \<noteq> 1 then Some (bb, seen)
        else (case get_child g (last bb) of
            None \<Rightarrow> None
          | Some nxt \<Rightarrow>
            if nxt \<in> set seen \<or> nxt = label_exit then Some (bb, seen)
            else (case in_degree g nxt of
                None \<Rightarrow> None
              | Some k \<Rightarrow>
                if k \<noteq> 1 then Some (bb, seen)
                else grow_block g ((if hd bb = label_entry then [] else bb) @ [nxt]) nxt (bs_insert nxt seen))))"
  by pat_completeness auto
termination
proof (relation "measure (\<lambda>(g, bb, current, seen). card (set (cfg_labels g) - set seen))")
  fix g bb current seen d nxt k
  assume "in_degree g nxt = Some k" "\<not> (nxt \<in> set seen \<or> nxt = label_exit)"
  then have "nxt \<in> set (cfg_labels g) - set seen" using in_degree_dom by blast
  then have "set (cfg_labels g) - set (bs_insert nxt seen) \<subset> set (cfg_labels g) - set seen" by auto
  then show "((g, (if hd bb = label_entry then [] else bb) @ [nxt], nxt, bs_insert nxt seen), g, bb, current, seen)
      \<in> measure (\<lambda>(g, bb, current, seen). card (set (cfg_labels g) - set seen))"
    by (simp add: psubset_card_mono)
qed simp

declare grow_block.simps [simp del]

definition mergeable :: "cfg \<Rightarrow> label \<Rightarrow> bool option" where
  "mergeable g l =
     do { k \<leftarrow> in_degree g l;
          if k = 1 then do { s \<leftarrow> num_siblings g l; Some (s = 1) } else Some False }"

fun collect_loop :: "cfg \<Rightarrow> label list \<Rightarrow> label bset \<Rightarrow> basic_block list \<Rightarrow> basic_block list option" where
  "collect_loop g [] seen res = Some res"
| "collect_loop g (l # ls) seen res =
     (if l \<in> set seen then collect_loop g ls seen res
      else do { m \<leftarrow> mergeable g l;
                if m then collect_loop g ls (bs_insert l seen) res
                else do { (bb, seen') \<leftarrow> grow_block g [l] l (bs_insert l seen);
                          collect_loop g ls seen' (block_insert bb res) } })"

definition collect_basic_blocks :: "cfg \<Rightarrow> bool \<Rightarrow> basic_block list option" where
  "collect_basic_blocks g simplify =
     (if \<not> simplify then Some (plain_blocks (cfg_labels g) [])
      else collect_loop g (cfg_labels g) [] [])"

text \<open>Consecutive labels of a block are linked by the only edge out of the first and into the
  second.\<close>

definition single_edge :: "cfg \<Rightarrow> label \<Rightarrow> label \<Rightarrow> bool" where
  "single_edge g a b \<longleftrightarrow> children_of g a = Some [b] \<and> parents_of g b = Some [a]"

definition is_chain :: "cfg \<Rightarrow> label list \<Rightarrow> bool" where
  "is_chain g xs \<longleftrightarrow> successively (single_edge g) xs"

lemma degrees_total:
  assumes "l \<in> dom (map_of g)"
  obtains cs ps where "children_of g l = Some cs" "parents_of g l = Some ps"
    "out_degree g l = Some (length cs)" "in_degree g l = Some (length ps)"
    "map_of g l = Some \<lparr>adj_parents = ps, adj_children = cs\<rparr>"
proof -
  obtain n where "map_of g l = Some n" using assms by auto
  then show ?thesis
    using that [of "adj_children n" "adj_parents n"]
    by (simp add: children_of_def parents_of_def out_degree_def in_degree_def get_node_def)
qed

lemma single_child:
  assumes "out_degree g a = Some 1" "get_child g a = Some b"
  shows "children_of g a = Some [b]"
  using assms
  by (auto simp: out_degree_def get_child_def panic_simps length_Suc_conv)

lemma single_child_total: "out_degree g a = Some 1 \<Longrightarrow> get_child g a \<noteq> None"
  by (auto simp: out_degree_def get_child_def)

lemma chain_link:
  assumes ok: "cfg_ok g" and a: "children_of g a = Some [b]" and b: "in_degree g b = Some 1"
  shows "single_edge g a b"
proof -
  obtain n where n: "map_of g a = Some n" "adj_children n = [b]"
    using a by (auto simp: children_of_def get_node_def)
  then have "(a, b) \<in> cfg_edges g" by (auto simp: cfg_edges_def)
  then have "(a, b) \<in> cfg_back_edges g" using ok by (simp add: cfg_ok_def)
  then obtain k where k: "map_of g b = Some k" "a \<in> set (adj_parents k)" by (auto simp: cfg_back_edges_def)
  moreover have "length (adj_parents k) = 1" using b k(1) by (simp add: in_degree_def parents_of_def get_node_def)
  ultimately have "adj_parents k = [a]" by (auto simp: length_Suc_conv)
  then show ?thesis using a k by (simp add: single_edge_def parents_of_def get_node_def)
qed

lemma grow_block_spec:
  assumes "cfg_ok g" "bb \<noteq> []" "last bb = cur" "cur \<in> dom (map_of g)" "is_chain g bb" "distinct bb"
    "set bb \<subseteq> set seen"
  shows "\<exists>bb' seen'. grow_block g bb cur seen = Some (bb', seen') \<and> bb' \<noteq> [] \<and> is_chain g bb' \<and> distinct bb' \<and>
    set seen \<subseteq> set seen' \<and> set bb' \<subseteq> set bb \<union> (set seen' - set seen) \<and>
    set seen' \<subseteq> set seen \<union> dom (map_of g)"
  using assms(2-)
proof (induction "card (set (cfg_labels g) - set seen)" arbitrary: bb cur seen rule: less_induct)
  case less
  note step = grow_block.simps [of g bb cur seen]
  obtain cs ps where cs: "children_of g cur = Some cs" "out_degree g cur = Some (length cs)"
    using degrees_total [OF less.prems(3)] by metis
  show ?case
  proof (cases "length cs = 1")
    case False
    then show ?thesis using less.prems cs by (subst step) auto
  next
    case True
    then obtain nxt where nxt: "get_child g cur = Some nxt"
      using single_child_total [of g cur] cs by auto
    have ch: "children_of g cur = Some [nxt]" using single_child [OF _ nxt] cs True by simp
    have "(cur, nxt) \<in> cfg_edges g"
      using ch by (auto simp: cfg_edges_def children_of_def get_node_def)
    then have nd: "nxt \<in> dom (map_of g)" using cfg_edges_dom(2) [OF assms(1)] by blast
    obtain k where k: "in_degree g nxt = Some k" using degrees_total [OF nd] by metis
    show ?thesis
    proof (cases "nxt \<in> set seen \<or> nxt = label_exit \<or> k \<noteq> 1")
      case stop: True
      then have "grow_block g bb cur seen = Some (bb, seen)"
        using True nxt k cs less.prems(2) by (subst step) auto
      then show ?thesis using less.prems by auto
    next
      case False
      let ?bb = "(if hd bb = label_entry then [] else bb) @ [nxt]" and ?seen = "bs_insert nxt seen"
      have eq: "grow_block g bb cur seen = grow_block g ?bb nxt ?seen"
        using True False nxt k cs less.prems(2) by (subst step) simp
      have link: "single_edge g cur nxt" using chain_link [OF assms(1) ch] k False by simp
      have "nxt \<in> set (cfg_labels g) - set seen" using in_degree_dom [OF k] False by blast
      then have lt: "card (set (cfg_labels g) - set ?seen) < card (set (cfg_labels g) - set seen)"
        by (intro psubset_card_mono) auto
      have c: "is_chain g ?bb"
        using less.prems(1,2,4) link by (auto simp: is_chain_def successively_append_iff)
      have d: "distinct ?bb" using less.prems(5,6) False by auto
      have "\<exists>bb' seen'. grow_block g ?bb nxt ?seen = Some (bb', seen') \<and> bb' \<noteq> [] \<and> is_chain g bb' \<and> distinct bb' \<and>
          set ?seen \<subseteq> set seen' \<and> set bb' \<subseteq> set ?bb \<union> (set seen' - set ?seen) \<and>
          set seen' \<subseteq> set ?seen \<union> dom (map_of g)"
        by (rule less.hyps [OF lt _ _ nd c d]) (use less.prems(6) in auto)
      then obtain bb' seen' where r: "grow_block g ?bb nxt ?seen = Some (bb', seen')" "bb' \<noteq> []" "is_chain g bb'"
        "distinct bb'" "set ?seen \<subseteq> set seen'" "set bb' \<subseteq> set ?bb \<union> (set seen' - set ?seen)"
        "set seen' \<subseteq> set ?seen \<union> dom (map_of g)" by blast
      have "set bb' \<subseteq> set bb \<union> (set seen' - set seen)"
      proof
        fix x assume "x \<in> set bb'"
        then have "x \<in> set ?bb \<or> x \<in> set seen' - set ?seen" using r(6) by blast
        then show "x \<in> set bb \<union> (set seen' - set seen)" using r(5) False by (auto split: if_splits)
      qed
      then show ?thesis using r eq nd by auto
    qed
  qed
qed

lemma block_insert_new:
  "hd b \<notin> hd ` set res \<Longrightarrow> set (block_insert b res) = insert b (set res)"
  by (induction b res rule: block_insert.induct) auto

definition blocks_ok :: "cfg \<Rightarrow> label set \<Rightarrow> basic_block list \<Rightarrow> bool" where
  "blocks_ok g S res \<longleftrightarrow>
     (\<forall>b\<in>set res. b \<noteq> [] \<and> is_chain g b \<and> distinct b \<and> set b \<subseteq> S) \<and>
     (\<forall>b\<in>set res. \<forall>c\<in>set res. b \<noteq> c \<longrightarrow> set b \<inter> set c = {})"

lemma blocks_ok_mono: "blocks_ok g S res \<Longrightarrow> S \<subseteq> T \<Longrightarrow> blocks_ok g T res"
  unfolding blocks_ok_def by (meson order_trans)

lemma blocks_ok_insert:
  assumes "blocks_ok g S res" "b \<noteq> []" "is_chain g b" "distinct b" "set b \<inter> S = {}" "set b \<subseteq> T" "S \<subseteq> T"
  shows "blocks_ok g T (block_insert b res)" "set (block_insert b res) = insert b (set res)"
proof -
  have "hd b \<notin> hd ` set res"
  proof
    assume "hd b \<in> hd ` set res"
    then obtain c where c: "c \<in> set res" "hd b = hd c" by auto
    then have "c \<noteq> []" "set c \<subseteq> S" using assms(1) by (auto simp: blocks_ok_def)
    then have "hd c \<in> S" using hd_in_set by blast
    then show False using c(2) assms(5) hd_in_set [OF assms(2)] by auto
  qed
  then show s: "set (block_insert b res) = insert b (set res)" by (rule block_insert_new)
  show "blocks_ok g T (block_insert b res)"
    using assms unfolding blocks_ok_def s by (auto 4 4)
qed

lemma collect_loop_spec:
  assumes ok: "cfg_ok g"
  shows "blocks_ok g (set seen) res \<Longrightarrow> set ls \<subseteq> dom (map_of g) \<Longrightarrow>
    \<exists>bs T. collect_loop g ls seen res = Some bs \<and> blocks_ok g T bs"
proof (induction ls arbitrary: seen res)
  case (Cons l ls)
  show ?case
  proof (cases "l \<in> set seen")
    case True
    then show ?thesis using Cons by simp
  next
    case False
    have ld: "l \<in> dom (map_of g)" using Cons.prems(2) by simp
    obtain cs ps where n: "in_degree g l = Some (length ps)" "parents_of g l = Some ps"
      using degrees_total [OF ld] by metis
    have "mergeable g l \<noteq> None"
    proof (cases "length ps = 1")
      case True
      then obtain p where p: "ps = [p]" by (auto simp: length_Suc_conv)
      then have "(p, l) \<in> cfg_back_edges g" using n by (auto simp: cfg_back_edges_def parents_of_def get_node_def)
      then have "p \<in> dom (map_of g)" using ok cfg_edges_dom(1) [OF ok] by (simp add: cfg_ok_def)
      then obtain k where "out_degree g p = Some k" using degrees_total by metis
      then show ?thesis using n p by (simp add: mergeable_def num_siblings_def get_parent_def)
    qed (use n in \<open>simp add: mergeable_def\<close>)
    then obtain m where m: "mergeable g l = Some m" by blast
    have base: "blocks_ok g (set (bs_insert l seen)) res"
      by (rule blocks_ok_mono [OF Cons.prems(1)]) auto
    show ?thesis
    proof (cases m)
      case True
      then show ?thesis using Cons.IH [OF base] Cons.prems(2) m False by simp
    next
      case nm: False
      obtain bb seen' where g: "grow_block g [l] l (bs_insert l seen) = Some (bb, seen')" "bb \<noteq> []" "is_chain g bb"
        "distinct bb" "set (bs_insert l seen) \<subseteq> set seen'"
        "set bb \<subseteq> set [l] \<union> (set seen' - set (bs_insert l seen))"
        using grow_block_spec [OF ok, of "[l]" l "bs_insert l seen"] ld by (auto simp: is_chain_def)
      have "blocks_ok g (set seen') (block_insert bb res)"
        by (rule blocks_ok_insert(1) [OF Cons.prems(1) g(2-4)]) (use g(5,6) False in auto)
      then have "\<exists>bs T. collect_loop g ls seen' (block_insert bb res) = Some bs \<and> blocks_ok g T bs"
        by (rule Cons.IH) (use Cons.prems(2) in simp)
      then show ?thesis using m nm g(1) False by simp
    qed
  qed
qed auto

subsection \<open>Properties\<close>

text \<open>C32: The operations on the control-flow graph keep the invariant that children and parents
  mirror each other, that all of them are nodes and that entry and exit are a source and a sink,
  and change the edges as documented: adding and removing an edge adds and removes exactly that
  edge, and inserting a label after another splices it into all the outgoing edges.\<close>

theorem cfg_operations:
  assumes "cfg_ok g"
  shows "(add_child a b g = Some g1 \<longrightarrow> cfg_ok g1 \<and> cfg_edges g1 = insert (a, b) (cfg_edges g)) \<and>
    (remove_child a b g = Some g2 \<longrightarrow> cfg_ok g2 \<and> cfg_edges g2 = cfg_edges g - {(a, b)}) \<and>
    (cfg_insert n g = Some g3 \<longrightarrow> cfg_ok g3 \<and> cfg_edges g3 = cfg_edges g) \<and>
    (a \<in> dom (map_of g) \<and> n \<notin> dom (map_of g) \<longrightarrow>
      (\<exists>g4. insert_after a n g = Some g4 \<and> cfg_ok g4 \<and>
        cfg_edges g4 = {(x, y) \<in> cfg_edges g. x \<noteq> a} \<union> {(a, n) | c. (a, c) \<in> cfg_edges g} \<union>
          {(n, c) | c. (a, c) \<in> cfg_edges g}))"
proof -
  have "\<exists>g4. insert_after a n g = Some g4 \<and> cfg_ok g4 \<and>
        cfg_edges g4 = {(x, y) \<in> cfg_edges g. x \<noteq> a} \<union> {(a, n) | c. (a, c) \<in> cfg_edges g} \<union>
          {(n, c) | c. (a, c) \<in> cfg_edges g}"
    if d: "a \<in> dom (map_of g)" "n \<notin> dom (map_of g)"
  proof -
    obtain g4 where g4: "insert_after a n g = Some g4" using insert_after_total [OF assms d] by blast
    then show ?thesis using insert_after_spec [OF assms g4] by blast
  qed
  moreover have "add_child a b g = Some g1 \<longrightarrow> cfg_ok g1 \<and> cfg_edges g1 = insert (a, b) (cfg_edges g)"
    using add_child_spec [OF assms] by simp
  moreover have "remove_child a b g = Some g2 \<longrightarrow> cfg_ok g2 \<and> cfg_edges g2 = cfg_edges g - {(a, b)}"
    using remove_child_spec [OF assms] by simp
  moreover have "cfg_insert n g = Some g3 \<longrightarrow> cfg_ok g3 \<and> cfg_edges g3 = cfg_edges g"
    using cfg_insert_spec [OF assms] by simp
  ultimately show ?thesis by simp
qed

text \<open>The graph of an entry, two labels and an exit.\<close>

definition line_adjacency :: "(label \<times> label list) list" where
  "line_adjacency =
     [(label_entry, [label_new 1]), (label_new 1, [label_new 2]), (label_new 2, [label_exit])]"

theorem cfg_operations_witness:
  "\<exists>g4. insert_after label_entry (label_new 1) cfg_new = Some g4 \<and> cfg_ok g4 \<and> cfg_edges g4 = {}"
proof -
  have d: "label_entry \<in> dom (map_of cfg_new)" "label_new 1 \<notin> dom (map_of cfg_new)"
    by (auto simp: cfg_new_def label_new_def label_entry_def label_exit_def)
  show ?thesis using cfg_operations [OF cfg_new_ok(1), where a = label_entry and n = "label_new 1"] d cfg_new_ok(2) by auto
qed

lemma adjacency_list_ok:
  assumes "\<And>l cs. (l, cs) \<in> set adj \<Longrightarrow> label_entry \<notin> set cs \<and> (l \<noteq> label_exit \<or> cs = [])"
  shows "\<exists>g. cfg_from_adjacency_list adj = Some g \<and> cfg_ok g \<and> cfg_edges g = adjacency_edges adj"
proof -
  obtain g where g: "insert_nodes adj cfg_new = Some g" "cfg_ok g" "cfg_edges g = {}"
    "dom (map_of g) = (\<Union>(l, cs)\<in>set adj. insert l (set cs)) \<union> dom (map_of cfg_new)"
    using insert_nodes_spec [OF cfg_new_ok(1)] cfg_new_ok(2) by metis
  have "\<exists>g'. insert_edges adj g = Some g' \<and> cfg_ok g' \<and> cfg_edges g' = cfg_edges g \<union> adjacency_edges adj"
  proof (rule insert_edges_spec [OF g(2)])
    fix l cs assume a: "(l, cs) \<in> set adj"
    then have "insert l (set cs) \<subseteq> dom (map_of g)" unfolding g(4) by blast
    then show "l \<in> dom (map_of g) \<and> set cs \<subseteq> dom (map_of g) \<and> label_entry \<notin> set cs \<and> (l \<noteq> label_exit \<or> cs = [])"
      using assms [OF a] by blast
  qed
  then show ?thesis using g(1,3) by (simp add: cfg_from_adjacency_list_def)
qed

text \<open>An adjacency list that gives no edge into the entry and none out of the exit always
  builds a graph that satisfies the invariant and has exactly the listed edges.\<close>

theorem cfg_from_adjacency_list_spec:
  assumes "\<And>l cs. (l, cs) \<in> set adj \<Longrightarrow> label_entry \<notin> set cs \<and> (l \<noteq> label_exit \<or> cs = [])"
  shows "\<exists>g. cfg_from_adjacency_list adj = Some g \<and> cfg_ok g \<and> cfg_edges g = adjacency_edges adj"
  using assms by (rule adjacency_list_ok)

lemma line_adjacency_ok:
  "(l, cs) \<in> set line_adjacency \<Longrightarrow> label_entry \<notin> set cs \<and> (l \<noteq> label_exit \<or> cs = [])"
  by (auto simp: line_adjacency_def label_new_def label_entry_def label_exit_def)

theorem cfg_from_adjacency_list_spec_witness:
  "\<exists>g. cfg_from_adjacency_list line_adjacency = Some g \<and> (label_new 1, label_new 2) \<in> cfg_edges g"
proof -
  obtain g where "cfg_from_adjacency_list line_adjacency = Some g" "cfg_edges g = adjacency_edges line_adjacency"
    using cfg_from_adjacency_list_spec [OF line_adjacency_ok] by blast
  then show ?thesis by (auto simp: adjacency_edges_def line_adjacency_def)
qed

text \<open>Collecting basic blocks of a well-formed graph always returns. Merged blocks are
  disjoint chains: inside a block each label has the next one as its only child and is its only
  parent.\<close>

theorem basic_blocks_are_chains:
  assumes "cfg_ok g"
  shows "\<exists>bs. collect_basic_blocks g True = Some bs \<and>
    (\<forall>b\<in>set bs. b \<noteq> [] \<and> is_chain g b \<and> distinct b) \<and>
    (\<forall>b\<in>set bs. \<forall>c\<in>set bs. b \<noteq> c \<longrightarrow> set b \<inter> set c = {})"
proof -
  have "blocks_ok g (set []) []" by (simp add: blocks_ok_def)
  moreover have "set (cfg_labels g) \<subseteq> dom (map_of g)"
    by (simp add: cfg_labels_def dom_map_of_conv_image_fst)
  ultimately obtain bs T where "collect_loop g (cfg_labels g) [] [] = Some bs" "blocks_ok g T bs"
    using collect_loop_spec [OF assms, of "[]" "[]" "cfg_labels g"] by blast
  then show ?thesis unfolding collect_basic_blocks_def blocks_ok_def by simp
qed

theorem basic_blocks_are_chains_witness:
  "\<exists>g bs. cfg_from_adjacency_list line_adjacency = Some g \<and> collect_basic_blocks g True = Some bs"
proof -
  have "\<exists>g. cfg_from_adjacency_list line_adjacency = Some g \<and> cfg_ok g \<and>
      cfg_edges g = adjacency_edges line_adjacency"
    by (rule adjacency_list_ok) (rule line_adjacency_ok)
  then obtain g where g: "cfg_from_adjacency_list line_adjacency = Some g" "cfg_ok g" by (elim exE conjE)
  obtain bs where "collect_basic_blocks g True = Some bs" using basic_blocks_are_chains [OF g(2)] by (elim exE conjE)
  then show ?thesis using g(1) by (intro exI conjI)
qed

text \<open>Merging can lose labels: a label whose only parent comes later in the label order and
  is no child of it is skipped and in no block, as in the graph where 3 and 4 jump to 5 and 5
  jumps back to 2.\<close>

theorem basic_blocks_lose_label:
  "map_option concat (Option.bind (cfg_from_adjacency_list
      [(label_entry, [label_new 1]), (label_new 1, [label_new 3, label_new 4]),
       (label_new 3, [label_new 5]), (label_new 4, [label_new 5]), (label_new 5, [label_new 2]),
       (label_new 2, [label_exit])]) (\<lambda>g. collect_basic_blocks g True)) =
   Some [label_new 1, label_new 3, label_new 4, label_new 5]"
  by code_simp

end
