(* ===== verification/Wto.thy ===== *)
theory Wto
  imports Cfg "HOL-Library.Sublist"
begin

text \<open>
  \<open>src/cfg/wto.rs\<close>: weak topological orderings and their iterative construction.  Components are
  stored in reverse order, as in the code.  The shared cycles of the code are a table of component
  lists with the index of the containing cycle.
\<close>

subsection \<open>Components\<close>

datatype component = WtoLabel label | WtoCycle "component list"

fun cycle_head :: "component list \<Rightarrow> label option" where
  "cycle_head cs = (if cs = [] then None else (case last cs of WtoLabel l \<Rightarrow> Some l | WtoCycle _ \<Rightarrow> None))"

declare cycle_head.simps [simp del]

lemma cycle_head_rev: "cycle_head (body @ [WtoLabel h]) = Some h"
  by (simp add: cycle_head.simps)

lemma cycle_head_Some: "cycle_head cs = Some h \<longleftrightarrow> (\<exists>body. cs = body @ [WtoLabel h])"
proof
  assume "cycle_head cs = Some h"
  then have "cs \<noteq> []" "last cs = WtoLabel h"
    by (auto simp: cycle_head.simps split: if_splits component.splits)
  then show "\<exists>body. cs = body @ [WtoLabel h]" by (metis append_butlast_last_id)
qed (auto simp: cycle_head_rev)

definition component_cycles :: "component list \<Rightarrow> component list list" where
  "component_cycles cs = concat (map (\<lambda>c. case c of WtoLabel _ \<Rightarrow> [] | WtoCycle d \<Rightarrow> [d]) cs)"

lemma size_component_cycles: "sum_list (map (size_list size) (component_cycles cs)) \<le> size_list size cs"
  by (induction cs) (auto simp: component_cycles_def split: component.splits)

lemma length_component_cycles: "length (component_cycles cs) \<le> length cs"
  by (induction cs) (auto simp: component_cycles_def split: component.splits)

text \<open>The work stack holds its top first; a stored list is the reverse of the iteration order, so
  pushing the components of a cycle puts the stored list on top.\<close>

function loop_heads :: "component list list \<Rightarrow> label list option" where
  "loop_heads [] = Some []"
| "loop_heads (c # stack) =
     do { h \<leftarrow> cycle_head c; hs \<leftarrow> loop_heads (component_cycles c @ stack); Some (h # hs) }"
  by pat_completeness auto
termination
proof (relation "measure (\<lambda>st. sum_list (map (\<lambda>c. Suc (size_list size c)) st))")
  fix c stack h
  have "sum_list (map (\<lambda>c. Suc (size_list size c)) (component_cycles c)) \<le> size_list size (c :: component list)"
  proof (induction c)
    case (Cons a c)
    then show ?case by (cases a) (auto simp: component_cycles_def)
  qed (simp add: component_cycles_def)
  then show "(component_cycles c @ stack, c # stack) \<in> measure (\<lambda>st. sum_list (map (\<lambda>c. Suc (size_list size c)) st))"
    by simp
qed simp

function member_loop :: "label \<Rightarrow> component list \<Rightarrow> bool option" where
  "member_loop l [] = Some False"
| "member_loop l (WtoLabel k # stack) = (if k = l then Some True else member_loop l stack)"
| "member_loop l (WtoCycle cs # stack) =
     do { h \<leftarrow> cycle_head cs; if h = l then Some True else member_loop l (cs @ stack) }"
  by pat_completeness auto
termination
  by (relation "measure (\<lambda>(l, st). size_list size st)") auto

definition is_component_member :: "label \<Rightarrow> component \<Rightarrow> bool option" where
  "is_component_member l c = member_loop l [c]"

subsection \<open>Nestings\<close>

type_synonym head_list = "label list"

definition is_superset_of :: "head_list \<Rightarrow> head_list \<Rightarrow> bool" where
  "is_superset_of a b \<longleftrightarrow>
     length b < length a \<and> (\<forall>i\<in>{0..<length b}. a ! (length a - 1 - i) = b ! (length b - 1 - i))"

record wto =
  wto_components :: "component list"
  wto_cycles :: "(component list \<times> nat option) list"
  containing_cycle :: "(label, nat) btree"
  wto_nesting :: "(label, head_list) btree"

definition nth_opt :: "'a list \<Rightarrow> nat \<Rightarrow> 'a option" where
  "nth_opt xs i = (if i < length xs then Some (xs ! i) else None)"

text \<open>The outer option is a panic, the inner one the result.\<close>

definition wto_head :: "wto \<Rightarrow> label \<Rightarrow> label option option" where
  "wto_head w l =
     (case map_of (containing_cycle w) l of
        None \<Rightarrow> Some None
      | Some i \<Rightarrow>
        do { (cs, par) \<leftarrow> nth_opt (wto_cycles w) i;
             first \<leftarrow> cycle_head cs;
             if first \<noteq> l then Some (Some first)
             else (case par of
                 None \<Rightarrow> Some None
               | Some j \<Rightarrow> do { (ps, _) \<leftarrow> nth_opt (wto_cycles w) j; h \<leftarrow> cycle_head ps; Some (Some h) }) })"

partial_function (option) heads_loop :: "wto \<Rightarrow> label option \<Rightarrow> label list \<Rightarrow> label list option" where
  "heads_loop w h heads =
     (case h of
        None \<Rightarrow> Some heads
      | Some l \<Rightarrow> Option.bind (wto_head w l) (\<lambda>h'. heads_loop w h' (heads @ [l])))"

definition collect_heads :: "wto \<Rightarrow> label \<Rightarrow> label list option" where
  "collect_heads w l = do { h \<leftarrow> wto_head w l; heads_loop w h [] }"

definition nesting :: "wto \<Rightarrow> label \<Rightarrow> head_list option" where
  "nesting w l = map_of (wto_nesting w) l"

definition outermost_head :: "head_list \<Rightarrow> label option" where
  "outermost_head n = (if n = [] then None else Some (last n))"

definition wto_loop_heads :: "wto \<Rightarrow> label list option" where
  "wto_loop_heads w = loop_heads (component_cycles (wto_components w))"

subsection \<open>The builder\<close>

definition DFN_INF :: int where
  "DFN_INF = 2 ^ 31 - 1"

record vertex_data =
  vd_dfn :: int
  vd_head_dfn :: int

datatype builder_component = BLabel label | BCycleIdx nat

datatype visit_kind = PushSuccessors | StartVisit | ContinueVisit

record visit_task =
  task_type :: visit_kind
  task_vertex :: label
  target_cycle :: "nat option"
  task_containing :: "nat option"

record builder =
  b_data :: "(label, vertex_data) btree"
  b_num :: int
  b_stack :: "label list"
  b_top :: "builder_component list"
  b_cycles :: "(builder_component list \<times> nat option) list"
  b_containing :: "(label, nat) btree"

definition dfn_of :: "builder \<Rightarrow> label \<Rightarrow> int option" where
  "dfn_of b l = map_option vd_dfn (map_of (b_data b) l)"

definition set_vertex :: "label \<Rightarrow> (vertex_data \<Rightarrow> vertex_data) \<Rightarrow> builder \<Rightarrow> builder option" where
  "set_vertex l f b =
     do { d \<leftarrow> map_of (b_data b) l; Some (b\<lparr>b_data := bt_insert l (f d) (b_data b)\<rparr>) }"

definition push_component :: "nat option \<Rightarrow> builder_component \<Rightarrow> builder \<Rightarrow> builder option" where
  "push_component target c b =
     (case target of
        None \<Rightarrow> Some (b\<lparr>b_top := b_top b @ [c]\<rparr>)
      | Some i \<Rightarrow>
        do { (cs, par) \<leftarrow> nth_opt (b_cycles b) i;
             Some (b\<lparr>b_cycles := (b_cycles b)[i := (cs @ [c], par)]\<rparr>) })"

fun enqueue_loop :: "builder \<Rightarrow> nat option \<Rightarrow> nat option \<Rightarrow> label list \<Rightarrow> visit_task list \<Rightarrow> visit_task list option" where
  "enqueue_loop b tc cc [] vs = Some vs"
| "enqueue_loop b tc cc (s # ss) vs =
     do { d \<leftarrow> dfn_of b s;
          enqueue_loop b tc cc ss
            (if d = 0
             then \<lparr>task_type = PushSuccessors, task_vertex = s, target_cycle = tc, task_containing = cc\<rparr> # vs
             else vs) }"

definition enqueue_unvisited_succs ::
  "cfg \<Rightarrow> builder \<Rightarrow> label \<Rightarrow> nat option \<Rightarrow> nat option \<Rightarrow> visit_task list \<Rightarrow> visit_task list option" where
  "enqueue_unvisited_succs g b v tc cc vs =
     do { cs \<leftarrow> children_of g v; enqueue_loop b tc cc (rev cs) vs }"

definition push_successors ::
  "cfg \<Rightarrow> builder \<Rightarrow> visit_task list \<Rightarrow> label \<Rightarrow> nat option \<Rightarrow> nat option \<Rightarrow> (builder \<times> visit_task list) option" where
  "push_successors g b vs v tc cc =
     do { d \<leftarrow> dfn_of b v;
          if d \<noteq> 0 then Some (b, vs)
          else do { assert_that (b_num b + 1 < 2 ^ 31);
                    let n = b_num b + 1;
                    b1 \<leftarrow> set_vertex v (\<lambda>d. d\<lparr>vd_dfn := n\<rparr>) (b\<lparr>b_num := n\<rparr>);
                    let b2 = b1\<lparr>b_stack := v # b_stack b1\<rparr>;
                    let t = \<lparr>task_type = StartVisit, task_vertex = v, target_cycle = tc, task_containing = cc\<rparr>;
                    vs' \<leftarrow> enqueue_unvisited_succs g b2 v tc cc (t # vs);
                    Some (b2, vs') } }"

fun min_head :: "builder \<Rightarrow> label list \<Rightarrow> int \<times> bool \<Rightarrow> (int \<times> bool) option" where
  "min_head b [] r = Some r"
| "min_head b (s # ss) (head_dfn, is_loop) =
     do { d \<leftarrow> map_of (b_data b) s;
          let m = (if vd_head_dfn d \<noteq> 0 \<and> vd_dfn d \<noteq> DFN_INF then vd_head_dfn d else vd_dfn d);
          min_head b ss (if m \<le> head_dfn then (m, True) else (head_dfn, is_loop)) }"

fun pop_until :: "label \<Rightarrow> label \<Rightarrow> label list \<Rightarrow> builder \<Rightarrow> builder option" where
  "pop_until v element stack b =
     (if element = v then Some (b\<lparr>b_stack := stack\<rparr>)
      else do { b1 \<leftarrow> set_vertex element (\<lambda>d. d\<lparr>vd_dfn := 0\<rparr>) b;
                b2 \<leftarrow> set_vertex element (\<lambda>d. d\<lparr>vd_head_dfn := 0\<rparr>) b1;
                (case stack of [] \<Rightarrow> None | e # es \<Rightarrow> pop_until v e es b2) })"

declare pop_until.simps [simp del]

definition start_visit ::
  "cfg \<Rightarrow> builder \<Rightarrow> visit_task list \<Rightarrow> label \<Rightarrow> nat option \<Rightarrow> nat option \<Rightarrow> (builder \<times> visit_task list) option" where
  "start_visit g b vs v tc cc =
     do { vertex_dfn \<leftarrow> dfn_of b v;
          cs \<leftarrow> children_of g v;
          (head_dfn, is_loop) \<leftarrow> min_head b cs (vertex_dfn, False);
          if head_dfn = vertex_dfn
          then do { b1 \<leftarrow> set_vertex v (\<lambda>d. d\<lparr>vd_dfn := DFN_INF\<rparr>) b;
                    (case b_stack b1 of
                       [] \<Rightarrow> None
                     | e # es \<Rightarrow>
                       if is_loop
                       then do { b2 \<leftarrow> pop_until v e es b1;
                                 b3 \<leftarrow> set_vertex v (\<lambda>d. d\<lparr>vd_head_dfn := head_dfn\<rparr>) b2;
                                 let idx = length (b_cycles b3);
                                 let b4 = b3\<lparr>b_cycles := b_cycles b3 @ [([], cc)]\<rparr>;
                                 let t = \<lparr>task_type = ContinueVisit, task_vertex = v, target_cycle = tc,
                                   task_containing = Some idx\<rparr>;
                                 vs' \<leftarrow> enqueue_unvisited_succs g b4 v (Some idx) (Some idx) (t # vs);
                                 Some (b4, vs') }
                       else do { b2 \<leftarrow> push_component tc (BLabel v) (b1\<lparr>b_stack := es\<rparr>);
                                 let b3 = (case cc of None \<Rightarrow> b2
                                   | Some i \<Rightarrow> b2\<lparr>b_containing := bt_insert v i (b_containing b2)\<rparr>);
                                 b4 \<leftarrow> set_vertex v (\<lambda>d. d\<lparr>vd_head_dfn := head_dfn\<rparr>) b3;
                                 Some (b4, vs) }) }
          else do { b1 \<leftarrow> set_vertex v (\<lambda>d. d\<lparr>vd_head_dfn := head_dfn\<rparr>) b; Some (b1, vs) } }"

definition continue_visit :: "builder \<Rightarrow> label \<Rightarrow> nat option \<Rightarrow> nat option \<Rightarrow> builder option" where
  "continue_visit b v tc cc =
     do { idx \<leftarrow> cc;
          b1 \<leftarrow> push_component (Some idx) (BLabel v) b;
          b2 \<leftarrow> push_component tc (BCycleIdx idx) b1;
          Some (b2\<lparr>b_containing := bt_insert v idx (b_containing b2)\<rparr>) }"

definition visit_step :: "cfg \<Rightarrow> visit_task \<Rightarrow> builder \<Rightarrow> visit_task list \<Rightarrow> (builder \<times> visit_task list) option" where
  "visit_step g t b vs =
     (case task_type t of
        PushSuccessors \<Rightarrow> push_successors g b vs (task_vertex t) (target_cycle t) (task_containing t)
      | StartVisit \<Rightarrow> start_visit g b vs (task_vertex t) (target_cycle t) (task_containing t)
      | ContinueVisit \<Rightarrow>
          do { b' \<leftarrow> continue_visit b (task_vertex t) (target_cycle t) (task_containing t); Some (b', vs) })"

partial_function (option) visit_loop :: "cfg \<Rightarrow> builder \<Rightarrow> visit_task list \<Rightarrow> builder option" where
  "visit_loop g b vs =
     (case vs of
        [] \<Rightarrow> Some b
      | t # vs' \<Rightarrow> Option.bind (visit_step g t b vs') (\<lambda>(b', vs''). visit_loop g b' vs''))"

declare visit_loop.simps [code] heads_loop.simps [code]

text \<open>Child cycles have higher indices than their parents, so the table is built from the end.\<close>

fun convert_components :: "nat \<Rightarrow> component list list \<Rightarrow> builder_component list \<Rightarrow> component list option" where
  "convert_components i built [] = Some []"
| "convert_components i built (BLabel l # cs) =
     do { r \<leftarrow> convert_components i built cs; Some (WtoLabel l # r) }"
| "convert_components i built (BCycleIdx j # cs) =
     do { d \<leftarrow> (if j < i then None else nth_opt built (j - i));
          r \<leftarrow> convert_components i built cs; Some (WtoCycle d # r) }"

fun build_cycles :: "nat \<Rightarrow> (builder_component list \<times> nat option) list \<Rightarrow> component list list option" where
  "build_cycles i [] = Some []"
| "build_cycles i ((bcs, par) # rest) =
     do { built \<leftarrow> build_cycles (Suc i) rest;
          cs \<leftarrow> convert_components (Suc i) built bcs;
          Some (cs # built) }"

fun collect_nestings :: "wto \<Rightarrow> label list \<Rightarrow> (label, head_list) btree option" where
  "collect_nestings w [] = Some []"
| "collect_nestings w (l # ls) =
     do { n \<leftarrow> collect_heads w l; ns \<leftarrow> collect_nestings w ls; Some (bt_insert l n ns) }"

definition finalize :: "builder \<Rightarrow> wto option" where
  "finalize b =
     do { built \<leftarrow> build_cycles 0 (b_cycles b);
          assert_that (\<forall>p\<in>set (b_cycles b). case snd p of None \<Rightarrow> True | Some j \<Rightarrow> j < length built);
          top \<leftarrow> convert_components 0 built (b_top b);
          assert_that (\<forall>p\<in>set (b_containing b). snd p < length built);
          let w = \<lparr>wto_components = top, wto_cycles = zip built (map snd (b_cycles b)),
            containing_cycle = b_containing b, wto_nesting = []\<rparr>;
          ns \<leftarrow> collect_nestings w (map fst (b_data b));
          Some (w\<lparr>wto_nesting := ns\<rparr>) }"

definition builder_init :: "cfg \<Rightarrow> builder" where
  "builder_init g =
     \<lparr>b_data = map (\<lambda>l. (l, \<lparr>vd_dfn = 0, vd_head_dfn = 0\<rparr>)) (cfg_labels g), b_num = 0, b_stack = [],
      b_top = [], b_cycles = [], b_containing = []\<rparr>"

definition wto_new :: "cfg \<Rightarrow> wto option" where
  "wto_new g =
     do { b \<leftarrow> visit_loop g (builder_init g)
            [\<lparr>task_type = PushSuccessors, task_vertex = label_entry, target_cycle = None,
              task_containing = None\<rparr>];
          finalize b }"

subsection \<open>The queries\<close>

text \<open>The labels of a component, and the heads of its cycles; \<open>headed\<close> says that every cycle has a
  label at its head, which the code asserts.\<close>

fun component_nodes :: "component \<Rightarrow> label list" where
  "component_nodes (WtoLabel l) = [l]"
| "component_nodes (WtoCycle cs) = concat (map component_nodes cs)"

abbreviation nodes_of :: "component list \<Rightarrow> label list" where
  "nodes_of cs \<equiv> concat (map component_nodes cs)"

fun headed :: "component \<Rightarrow> bool" where
  "headed (WtoLabel l) = True"
| "headed (WtoCycle cs) \<longleftrightarrow> cycle_head cs \<noteq> None \<and> (\<forall>c\<in>set cs. headed c)"

fun heads_of :: "component \<Rightarrow> label list" where
  "heads_of (WtoLabel l) = []"
| "heads_of (WtoCycle cs) = the (cycle_head cs) # concat (map heads_of cs)"

lemma is_superset_of_iff: "is_superset_of a b \<longleftrightarrow> strict_suffix b a"
proof
  assume s: "strict_suffix b a"
  then obtain c where a: "a = c @ b" "c \<noteq> []" by (auto simp: strict_suffix_def suffix_def)
  have "a ! (length a - 1 - i) = b ! (length b - 1 - i)" if "i < length b" for i
    using that a(1) by (simp add: nth_append)
  then show "is_superset_of a b" using a by (auto simp: is_superset_of_def)
next
  assume s: "is_superset_of a b"
  let ?n = "length a - length b"
  have l: "length b < length a" using s by (simp add: is_superset_of_def)
  have "drop ?n a = b"
  proof (rule nth_equalityI)
    show "length (drop ?n a) = length b" using l by simp
    fix j assume "j < length (drop ?n a)"
    then have j: "j < length b" using l by simp
    then have "a ! (length a - 1 - (length b - 1 - j)) = b ! (length b - 1 - (length b - 1 - j))"
      using s unfolding is_superset_of_def by fastforce
    moreover have "length b - 1 - (length b - 1 - j) = j" "length a - 1 - (length b - 1 - j) = ?n + j"
      using j l by simp_all
    ultimately show "drop ?n a ! j = b ! j" using l j by simp
  qed
  then have "suffix b a" by (metis suffix_drop)
  then show "strict_suffix b a" using l by (auto simp: strict_suffix_def)
qed

lemma member_loop_nodes:
  "\<forall>c\<in>set stack. headed c \<Longrightarrow> member_loop l stack = Some (l \<in> set (nodes_of stack))"
proof (induction l stack rule: member_loop.induct)
  case (3 l cs stack)
  then obtain h where h: "cycle_head cs = Some h" by auto
  then have "h \<in> set (nodes_of cs)" by (auto simp: cycle_head_Some)
  then show ?case using 3 h by auto
qed auto

lemma component_cycles_heads:
  "concat (map (\<lambda>d. heads_of (WtoCycle d)) (component_cycles cs)) = concat (map heads_of cs)"
  by (induction cs) (auto simp: component_cycles_def split: component.splits)

lemma headed_cycles: "\<forall>c\<in>set cs. headed c \<Longrightarrow> d \<in> set (component_cycles cs) \<Longrightarrow> headed (WtoCycle d)"
  by (auto simp: component_cycles_def split: component.splits)

lemma loop_heads_all:
  "\<forall>d\<in>set stack. headed (WtoCycle d) \<Longrightarrow>
    loop_heads stack = Some (concat (map (\<lambda>d. heads_of (WtoCycle d)) stack))"
proof (induction stack rule: loop_heads.induct)
  case (2 c stack)
  then obtain h where h: "cycle_head c = Some h" by auto
  have "\<forall>d\<in>set (component_cycles c @ stack). headed (WtoCycle d)"
    using 2(2) headed_cycles [of c] by auto
  then have "loop_heads (component_cycles c @ stack) =
      Some (concat (map (\<lambda>d. heads_of (WtoCycle d)) (component_cycles c @ stack)))"
    using 2(1) [OF h] by blast
  then show ?case using h component_cycles_heads [of c] by simp
qed simp

text \<open>The queries of an ordering whose cycles have heads: a nesting is a superset of another
  exactly when the other is its proper suffix, membership finds exactly the labels of a component
  with all components nested in it, and the loop heads are those of all cycles at any depth, each as
  often as it occurs.\<close>

theorem wto_queries:
  assumes "\<forall>c\<in>set (wto_components w). headed c" and "headed c"
  shows "(is_superset_of a b \<longleftrightarrow> strict_suffix b a) \<and>
    is_component_member l c = Some (l \<in> set (component_nodes c)) \<and>
    wto_loop_heads w = Some (concat (map heads_of (wto_components w)))"
proof (intro conjI)
  show "is_superset_of a b \<longleftrightarrow> strict_suffix b a" by (rule is_superset_of_iff)
  show "is_component_member l c = Some (l \<in> set (component_nodes c))"
    using assms(2) by (simp add: is_component_member_def member_loop_nodes)
  have "\<forall>d\<in>set (component_cycles (wto_components w)). headed (WtoCycle d)"
    using headed_cycles [OF assms(1)] by blast
  then show "wto_loop_heads w = Some (concat (map heads_of (wto_components w)))"
    using loop_heads_all component_cycles_heads by (simp add: wto_loop_heads_def)
qed

definition two_loops :: wto where
  "two_loops =
     \<lparr>wto_components = [WtoCycle [WtoCycle [WtoLabel (label_new 3), WtoLabel (label_new 2)], WtoLabel (label_new 1)],
        WtoLabel label_entry],
      wto_cycles = [], containing_cycle = [], wto_nesting = []\<rparr>"

theorem wto_queries_witness:
  "is_superset_of [label_new 2, label_new 1] [label_new 1] \<and>
    is_component_member (label_new 3) (hd (wto_components two_loops)) = Some True \<and>
    wto_loop_heads two_loops = Some [label_new 1, label_new 2]"
proof -
  have "\<forall>c\<in>set (wto_components two_loops). headed c" "headed (hd (wto_components two_loops))"
    by (simp_all add: two_loops_def cycle_head.simps)
  note q = wto_queries [OF this, of "[label_new 2, label_new 1]" "[label_new 1]" "label_new 3"]
  show ?thesis using q by (simp add: two_loops_def cycle_head.simps strict_suffix_def suffix_def)
qed

end
