(* ===== verification/Wto_Search.thy ===== *)
theory Wto_Search
  imports Wto
begin

text \<open>
  The search of the iterative builder in \<open>src/cfg/wto.rs\<close>: what one visit, and the visits of a list of
  successors, do to the numbers, the heads and the stack.  A vertex is unvisited (number 0), on the
  stack, or done (number \<open>DFN_INF\<close>); a vertex of the stack whose visit is over has a head, the number
  of a vertex below it that it can reach along the stack.
\<close>

subsection \<open>The state of a vertex\<close>

definition dfn :: "builder \<Rightarrow> label \<Rightarrow> int" where
  "dfn b l = vd_dfn (the (map_of (b_data b) l))"

definition head_dfn :: "builder \<Rightarrow> label \<Rightarrow> int" where
  "head_dfn b l = vd_head_dfn (the (map_of (b_data b) l))"

definition known :: "builder \<Rightarrow> label set" where
  "known b = dom (map_of (b_data b))"

definition white :: "builder \<Rightarrow> label set" where
  "white b = {l \<in> known b. dfn b l = 0}"

definition finished :: "builder \<Rightarrow> label set" where
  "finished b = {l \<in> known b. dfn b l = DFN_INF}"

text \<open>What \<open>start_visit\<close> reads of a successor.\<close>

definition low :: "builder \<Rightarrow> label \<Rightarrow> int" where
  "low b s = (if head_dfn b s \<noteq> 0 \<and> dfn b s \<noteq> DFN_INF then head_dfn b s else dfn b s)"

lemma DFN_INF_pos [simp]: "0 < DFN_INF" "DFN_INF \<noteq> 0" "0 \<noteq> DFN_INF"
  by (simp_all add: DFN_INF_def)

lemma known_data: "l \<in> known b \<Longrightarrow> map_of (b_data b) l = Some \<lparr>vd_dfn = dfn b l, vd_head_dfn = head_dfn b l\<rparr>"
  by (auto simp: known_def dfn_def head_dfn_def)

lemma dfn_of_known: "l \<in> known b \<Longrightarrow> dfn_of b l = Some (dfn b l)"
  by (simp add: dfn_of_def known_data)

lemma set_vertex_known:
  "l \<in> known b \<Longrightarrow> set_vertex l f b =
    Some (b\<lparr>b_data := bt_insert l (f \<lparr>vd_dfn = dfn b l, vd_head_dfn = head_dfn b l\<rparr>) (b_data b)\<rparr>)"
  by (simp add: set_vertex_def known_data)

text \<open>Two states that agree on the data of a vertex.\<close>

lemma same_data:
  assumes "map_of (b_data b') l = map_of (b_data b) l"
  shows "dfn b' l = dfn b l" "head_dfn b' l = head_dfn b l" "low b' l = low b l"
    "l \<in> known b' \<longleftrightarrow> l \<in> known b" "l \<in> white b' \<longleftrightarrow> l \<in> white b" "l \<in> finished b' \<longleftrightarrow> l \<in> finished b"
  using assms by (simp_all add: dfn_def head_dfn_def low_def known_def white_def finished_def domIff)

subsection \<open>The invariant of the search\<close>

definition stack_edges :: "cfg \<Rightarrow> label set \<Rightarrow> (label \<times> label) set" where
  "stack_edges g S = {(a, c) \<in> cfg_edges g. a \<in> S}"

definition search_ok :: "cfg \<Rightarrow> builder \<Rightarrow> bool" where
  "search_ok g b \<longleftrightarrow> bt_ok (b_data b) \<and> known b = dom (map_of g) \<and>
     set (b_stack b) = known b - white b - finished b \<and>
     sorted_wrt (\<lambda>x y. dfn b y < dfn b x) (b_stack b) \<and>
     0 \<le> b_num b \<and> b_num b < DFN_INF \<and>
     (\<forall>l\<in>set (b_stack b). 1 \<le> dfn b l \<and> dfn b l \<le> b_num b) \<and>
     (\<forall>l\<in>white b. head_dfn b l = 0) \<and>
     (\<forall>l\<in>set (b_stack b). head_dfn b l \<noteq> 0 \<longrightarrow>
       (\<exists>x\<in>set (b_stack b). dfn b x = head_dfn b l \<and> head_dfn b l < dfn b l \<and>
         (l, x) \<in> (stack_edges g (set (b_stack b)))\<^sup>+))"

lemma search_okD:
  assumes "search_ok g b"
  shows "bt_ok (b_data b)" "known b = dom (map_of g)" "set (b_stack b) = known b - white b - finished b"
    "sorted_wrt (\<lambda>x y. dfn b y < dfn b x) (b_stack b)" "0 \<le> b_num b" "b_num b < DFN_INF"
    "\<And>l. l \<in> set (b_stack b) \<Longrightarrow> 1 \<le> dfn b l \<and> dfn b l \<le> b_num b"
    "\<And>l. l \<in> white b \<Longrightarrow> head_dfn b l = 0"
    "\<And>l. l \<in> set (b_stack b) \<Longrightarrow> head_dfn b l \<noteq> 0 \<Longrightarrow> \<exists>x\<in>set (b_stack b). dfn b x = head_dfn b l \<and>
      head_dfn b l < dfn b l \<and> (l, x) \<in> (stack_edges g (set (b_stack b)))\<^sup>+"
  using assms unfolding search_ok_def by blast+

lemma search_ok_distinct: "search_ok g b \<Longrightarrow> distinct (b_stack b)"
proof -
  assume "search_ok g b"
  have "distinct xs" if "sorted_wrt (\<lambda>x y. dfn b y < dfn b x) xs" for xs
    using that by (induction xs) auto
  then show "distinct (b_stack b)" using search_okD(4) [OF \<open>search_ok g b\<close>] .
qed

lemma stack_inj:
  assumes "search_ok g b" "x \<in> set (b_stack b)" "y \<in> set (b_stack b)" "dfn b x = dfn b y"
  shows "x = y"
proof -
  have "sorted_wrt (\<lambda>x y. dfn b y < dfn b x) xs \<Longrightarrow> x \<in> set xs \<Longrightarrow> y \<in> set xs \<Longrightarrow> dfn b x = dfn b y \<Longrightarrow> x = y" for xs
    by (induction xs) auto
  from this [OF search_okD(4) [OF assms(1)] assms(2-4)] show ?thesis .
qed

lemma stack_edges_mono: "S \<subseteq> T \<Longrightarrow> (stack_edges g S)\<^sup>+ \<subseteq> (stack_edges g T)\<^sup>+"
  by (rule subrelI, erule trancl_mono) (auto simp: stack_edges_def)

lemma finite_known: "finite (known b)"
  by (simp add: known_def finite_dom_map_of)

lemma white_known: "white b \<subseteq> known b"
  by (auto simp: white_def)

lemma finite_white [simp]: "finite (white b)"
  using finite_subset [OF white_known finite_known] .

subsection \<open>The task loop\<close>

definition runs :: "cfg \<Rightarrow> builder \<Rightarrow> visit_task list \<Rightarrow> builder \<Rightarrow> bool" where
  "runs g b ts b' \<longleftrightarrow> (\<forall>vs. visit_loop g b (ts @ vs) = visit_loop g b' vs)"

lemma runs_Nil [simp]: "runs g b [] b"
  by (simp add: runs_def)

lemma runs_append: "runs g b ts b1 \<Longrightarrow> runs g b1 us b2 \<Longrightarrow> runs g b (ts @ us) b2"
  by (simp add: runs_def)

lemma runs_step:
  assumes "\<And>vs. visit_step g t b vs = Some (b1, ts @ vs)" "runs g b1 ts b'"
  shows "runs g b [t] b'"
  using assms unfolding runs_def by (simp add: visit_loop.simps [of g b "t # _"])

lemma runs_result: "runs g b ts b' \<Longrightarrow> visit_loop g b ts = Some b'"
  using visit_loop.simps [of g b' "[]"] unfolding runs_def by (metis append_Nil2 list.simps(4))

abbreviation push_task :: "nat option \<Rightarrow> label \<Rightarrow> visit_task" where
  "push_task t s \<equiv> \<lparr>task_type = PushSuccessors, task_vertex = s, target_cycle = t, task_containing = t\<rparr>"

abbreviation visit_task :: "nat option \<Rightarrow> label \<Rightarrow> visit_task" where
  "visit_task t s \<equiv> \<lparr>task_type = StartVisit, task_vertex = s, target_cycle = t, task_containing = t\<rparr>"

lemma enqueue_loop_spec:
  "set ss \<subseteq> known b \<Longrightarrow>
    enqueue_loop b t t ss vs = Some (map (push_task t) (rev (filter (\<lambda>s. dfn b s = 0) ss)) @ vs)"
  by (induction ss arbitrary: vs) (auto simp: dfn_of_known)

lemma enqueue_spec:
  assumes "children_of g v = Some cs" "set cs \<subseteq> known b"
  shows "enqueue_unvisited_succs g b v t t vs = Some (map (push_task t) (filter (\<lambda>s. dfn b s = 0) cs) @ vs)"
  using assms by (simp add: enqueue_unvisited_succs_def enqueue_loop_spec rev_filter)

lemma children_spec:
  assumes "cfg_ok g" "v \<in> dom (map_of g)"
  shows "\<exists>cs. children_of g v = Some cs \<and> set cs \<subseteq> dom (map_of g) \<and> (\<forall>c. (v, c) \<in> cfg_edges g \<longleftrightarrow> c \<in> set cs)"
proof -
  obtain n where n: "map_of g v = Some n" using assms(2) by auto
  then have e: "(v, c) \<in> cfg_edges g \<longleftrightarrow> c \<in> set (adj_children n)" for c by (simp add: cfg_edges_def)
  then have "set (adj_children n) \<subseteq> dom (map_of g)" using cfg_edges_dom(2) [OF assms(1)] by blast
  then show ?thesis using n e by (auto simp: children_of_def get_node_def)
qed

lemma min_head_spec:
  assumes "set ss \<subseteq> known b"
  shows "\<exists>h' lp'. min_head b ss (h, lp) = Some (h', lp') \<and> h' \<le> h \<and> (\<forall>s\<in>set ss. h' \<le> low b s) \<and>
    (h' = h \<or> (\<exists>s\<in>set ss. low b s = h')) \<and> (lp' \<longleftrightarrow> lp \<or> (\<exists>s\<in>set ss. low b s \<le> h))"
  using assms
proof (induction ss arbitrary: h lp)
  case (Cons s ss)
  have s: "map_of (b_data b) s = Some \<lparr>vd_dfn = dfn b s, vd_head_dfn = head_dfn b s\<rparr>"
    using Cons.prems by (intro known_data) simp
  define r where "r = (if low b s \<le> h then (low b s, True) else (h, lp))"
  have e: "min_head b (s # ss) (h, lp) = min_head b ss r" using s by (simp add: low_def r_def)
  obtain h1 lp1 where r: "r = (h1, lp1)" by (cases r)
  obtain h' lp' where i: "min_head b ss (h1, lp1) = Some (h', lp')" "h' \<le> h1" "\<forall>s\<in>set ss. h' \<le> low b s"
    "h' = h1 \<or> (\<exists>s\<in>set ss. low b s = h')" "lp' \<longleftrightarrow> lp1 \<or> (\<exists>s\<in>set ss. low b s \<le> h1)"
    using Cons.IH [of h1 lp1] Cons.prems by auto
  have r1: "h1 = min h (low b s)" "lp1 \<longleftrightarrow> lp \<or> low b s \<le> h" using r by (auto simp: r_def split: if_splits)
  show ?case
  proof (intro exI conjI)
    show "min_head b (s # ss) (h, lp) = Some (h', lp')" using e r i(1) by simp
    show "lp' = (lp \<or> (\<exists>s\<in>set (s # ss). low b s \<le> h))" using i(5) r1 by (auto simp: min_def split: if_splits)
    show "h' = h \<or> (\<exists>s\<in>set (s # ss). low b s = h')" using i(4) r1(1) by (auto simp: min_def split: if_splits)
  qed (use i(2,3) r1(1) in auto)
qed simp

lemma pop_until_spec:
  assumes "e # es = xs @ v # rest" "v \<notin> set xs" "set xs \<subseteq> known b" "bt_ok (b_data b)"
  shows "\<exists>m. pop_until v e es b = Some (b\<lparr>b_data := m, b_stack := rest\<rparr>) \<and> bt_ok m \<and>
    map_of m = (\<lambda>l. if l \<in> set xs then Some \<lparr>vd_dfn = 0, vd_head_dfn = 0\<rparr> else map_of (b_data b) l)"
  using assms
proof (induction xs arbitrary: e es b)
  case Nil
  moreover have "b\<lparr>b_data := b_data b, b_stack := rest\<rparr> = b\<lparr>b_stack := rest\<rparr>" by simp
  ultimately show ?case by (intro exI [of _ "b_data b"]) (simp add: pop_until.simps [of v v rest b])
next
  case (Cons x xs)
  then have e: "e = x" "es = xs @ v # rest" "e \<noteq> v" "x \<in> known b" by auto
  obtain e' es' where es: "es = e' # es'" using e(2) by (cases "xs @ v # rest") auto
  let ?m1 = "bt_insert x \<lparr>vd_dfn = 0, vd_head_dfn = head_dfn b x\<rparr> (b_data b)"
  let ?b1 = "b\<lparr>b_data := ?m1\<rparr>"
  let ?m2 = "bt_insert x \<lparr>vd_dfn = 0, vd_head_dfn = 0\<rparr> ?m1"
  let ?b2 = "b\<lparr>b_data := ?m2\<rparr>"
  have k1: "x \<in> known ?b1" "dfn ?b1 x = 0" "head_dfn ?b1 x = head_dfn b x"
    using Cons.prems(4) by (simp_all add: known_def dfn_def head_dfn_def)
  have "set_vertex x (\<lambda>d. d\<lparr>vd_dfn := 0\<rparr>) b = Some ?b1" using e(4) by (simp add: set_vertex_known)
  moreover have "set_vertex x (\<lambda>d. d\<lparr>vd_head_dfn := 0\<rparr>) ?b1 = Some ?b2" using k1 by (simp add: set_vertex_known)
  ultimately have step: "pop_until v e es b = pop_until v e' es' ?b2"
    using e(1,3) es by (simp add: pop_until.simps [of v x "e' # es'" b])
  have m2: "bt_ok ?m2" "map_of ?m2 = (map_of (b_data b))(x \<mapsto> \<lparr>vd_dfn = 0, vd_head_dfn = 0\<rparr>)"
    using Cons.prems(4) by simp_all
  have "set xs \<subseteq> known ?b2" using Cons.prems(3) m2 by (auto simp: known_def)
  then obtain m where m: "pop_until v e' es' ?b2 = Some (?b2\<lparr>b_data := m, b_stack := rest\<rparr>)" "bt_ok m"
    "map_of m = (\<lambda>l. if l \<in> set xs then Some \<lparr>vd_dfn = 0, vd_head_dfn = 0\<rparr> else map_of (b_data ?b2) l)"
    using Cons.IH [of e' es' ?b2] es e(2) Cons.prems(2) m2(1) by auto
  show ?case using step m m2(2) by (intro exI [of _ m]) (auto simp: fun_eq_iff)
qed

subsection \<open>What a visit does\<close>

definition tri :: "nat \<Rightarrow> nat" where
  "tri n = n * (n + 1) div 2"

lemma tri_simps [simp]: "tri 0 = 0" "tri (Suc n) = tri n + Suc n"
  by (simp_all add: tri_def)

lemma tri_add: "tri m + tri n \<le> tri (m + n)"
  by (induction n) auto

lemma tri_ge: "n \<le> tri n"
  by (induction n) auto

lemma tri_mono: "m \<le> n \<Longrightarrow> tri m \<le> tri n"
  using tri_add [of m "n - m"] by simp

text \<open>The visits of \<open>ss\<close> took the vertices \<open>N\<close> from unvisited to done and put \<open>seg\<close> on the stack.\<close>

definition searched :: "cfg \<Rightarrow> builder \<Rightarrow> label list \<Rightarrow> builder \<Rightarrow> label set \<Rightarrow> label list \<Rightarrow> bool" where
  "searched g b ss b' N seg \<longleftrightarrow> search_ok g b' \<and> b_stack b' = seg @ b_stack b \<and>
     N \<union> set seg \<subseteq> white b \<and> N \<inter> set seg = {} \<and> white b' = white b - (N \<union> set seg) \<and> N \<subseteq> finished b' \<and>
     (\<forall>l. l \<notin> N \<union> set seg \<longrightarrow> map_of (b_data b') l = map_of (b_data b) l) \<and>
     (\<forall>a c. (a, c) \<in> cfg_edges g \<longrightarrow> a \<in> N \<longrightarrow> c \<in> finished b') \<and>
     (\<forall>a c. (a, c) \<in> cfg_edges g \<longrightarrow> a \<in> set seg \<longrightarrow> c \<notin> white b') \<and>
     (\<forall>a c. (a, c) \<in> cfg_edges g \<longrightarrow> a \<in> set seg \<longrightarrow> c \<in> set (b_stack b) \<longrightarrow>
       (\<exists>s\<in>set ss \<inter> set seg. head_dfn b' s \<le> dfn b c)) \<and>
     (\<forall>l\<in>set seg. head_dfn b' l \<noteq> 0) \<and>
     (seg \<noteq> [] \<longrightarrow> (\<exists>s\<in>set ss \<inter> set seg. \<exists>x\<in>set (b_stack b). head_dfn b' s = dfn b x)) \<and>
     (\<forall>l\<in>N \<union> set seg. \<exists>s\<in>set ss \<inter> (N \<union> set seg). (s, l) \<in> (Restr (cfg_edges g) (N \<union> set seg))\<^sup>*) \<and>
     b_num b \<le> b_num b' \<and> b_num b' \<le> b_num b + int (length seg + tri (card N)) \<and>
     set ss \<inter> white b' = {}"

lemma searchedD:
  assumes "searched g b ss b' N seg"
  shows "search_ok g b'" "b_stack b' = seg @ b_stack b" "N \<union> set seg \<subseteq> white b" "N \<inter> set seg = {}"
    "white b' = white b - (N \<union> set seg)" "N \<subseteq> finished b'"
    "\<And>l. l \<notin> N \<union> set seg \<Longrightarrow> map_of (b_data b') l = map_of (b_data b) l"
    "\<And>a c. (a, c) \<in> cfg_edges g \<Longrightarrow> a \<in> N \<Longrightarrow> c \<in> finished b'"
    "\<And>a c. (a, c) \<in> cfg_edges g \<Longrightarrow> a \<in> set seg \<Longrightarrow> c \<notin> white b'"
    "\<And>a c. (a, c) \<in> cfg_edges g \<Longrightarrow> a \<in> set seg \<Longrightarrow> c \<in> set (b_stack b) \<Longrightarrow>
      \<exists>s\<in>set ss \<inter> set seg. head_dfn b' s \<le> dfn b c"
    "\<And>l. l \<in> set seg \<Longrightarrow> head_dfn b' l \<noteq> 0"
    "seg \<noteq> [] \<Longrightarrow> \<exists>s\<in>set ss \<inter> set seg. \<exists>x\<in>set (b_stack b). head_dfn b' s = dfn b x"
    "\<And>l. l \<in> N \<union> set seg \<Longrightarrow> \<exists>s\<in>set ss \<inter> (N \<union> set seg). (s, l) \<in> (Restr (cfg_edges g) (N \<union> set seg))\<^sup>*"
    "b_num b \<le> b_num b'" "b_num b' \<le> b_num b + int (length seg + tri (card N))"
    "set ss \<inter> white b' = {}"
  using assms unfolding searched_def by blast+

lemma white_not_stack: "search_ok g b \<Longrightarrow> l \<in> white b \<Longrightarrow> l \<notin> set (b_stack b)"
  using search_okD(3) by blast

lemma stack_same:
  assumes "search_ok g b" "searched g b ss b' N seg" "l \<in> set (b_stack b)"
  shows "map_of (b_data b') l = map_of (b_data b) l" "dfn b' l = dfn b l" "head_dfn b' l = head_dfn b l"
proof -
  have "l \<notin> N \<union> set seg" using searchedD(3) [OF assms(2)] white_not_stack [OF assms(1)] assms(3) by blast
  then show *: "map_of (b_data b') l = map_of (b_data b) l" using searchedD(7) [OF assms(2)] by blast
  show "dfn b' l = dfn b l" "head_dfn b' l = head_dfn b l" using same_data [OF *] by blast+
qed

lemma finished_grows:
  assumes "searched g b ss b' N seg"
  shows "finished b' = finished b \<union> N"
proof -
  note S = searchedD [OF assms]
  have w: "finished b \<inter> white b = {}" by (auto simp: finished_def white_def)
  have "set seg \<subseteq> set (b_stack b')" using S(2) by auto
  then have "finished b' \<inter> set seg = {}" using search_okD(3) [OF S(1)] by blast
  moreover have "l \<in> finished b' \<longleftrightarrow> l \<in> finished b" if "l \<notin> N \<union> set seg" for l
    using same_data(6) S(7) [OF that] by blast
  ultimately show ?thesis using S(3,6) w by blast
qed

lemma searched_none:
  assumes "search_ok g b" "set ss \<inter> white b = {}"
  shows "searched g b ss b {} []"
  using assms unfolding searched_def by simp

lemma searched_append:
  assumes b: "search_ok g b" and 1: "searched g b ss1 b1 N1 seg1" and 2: "searched g b1 ss2 b2 N2 seg2"
  shows "searched g b (ss1 @ ss2) b2 (N1 \<union> N2) (seg2 @ seg1)"
proof -
  note A = searchedD [OF 1] and B = searchedD [OF 2]
  let ?M = "(N1 \<union> N2) \<union> set (seg2 @ seg1)"
  have fin: "finite N1" "finite N2" using finite_subset [of _ "white b"] finite_subset [of _ "white b1"] A(3) B(3) by auto
  have dis: "N2 \<union> set seg2 \<subseteq> white b - (N1 \<union> set seg1)" using B(3) A(5) by simp
  have card: "card (N1 \<union> N2) = card N1 + card N2" by (rule card_Un_disjoint [OF fin]) (use dis in blast)
  have keep: "map_of (b_data b2) l = map_of (b_data b1) l" if "l \<in> N1 \<union> set seg1" for l
    using B(7) that dis by blast
  have stack1: "set (b_stack b) \<subseteq> set (b_stack b1)" using A(2) by auto
  have tri: "tri (card N1) + tri (card N2) \<le> tri (card (N1 \<union> N2))" unfolding card by (rule tri_add)
  have restr: "(Restr (cfg_edges g) M)\<^sup>* \<subseteq> (Restr (cfg_edges g) ?M)\<^sup>*" if "M \<subseteq> ?M" for M
    by (rule rtrancl_mono) (use that in blast)
  show ?thesis
    unfolding searched_def
  proof (intro conjI allI impI ballI)
    show "search_ok g b2" by (rule B(1))
    show "b_stack b2 = (seg2 @ seg1) @ b_stack b" using A(2) B(2) by simp
    show "?M \<subseteq> white b" using A(3) dis by auto
    show "(N1 \<union> N2) \<inter> set (seg2 @ seg1) = {}" using A(4) B(4) dis by auto
    show "white b2 = white b - ?M" using A(5) B(5) by auto
    show "N1 \<union> N2 \<subseteq> finished b2" using A(6) B(6) finished_grows [OF 2] by blast
    show "map_of (b_data b2) l = map_of (b_data b) l" if "l \<notin> ?M" for l
      using A(7) [of l] B(7) [of l] that by simp
    fix a c assume e: "(a, c) \<in> cfg_edges g"
    show "c \<in> finished b2" if "a \<in> N1 \<union> N2"
      using A(8) [OF e] B(8) [OF e] that finished_grows [OF 2] by blast
    show "c \<notin> white b2" if "a \<in> set (seg2 @ seg1)"
      using A(9) [OF e] B(9) [OF e] that B(5) by auto
    show "\<exists>s\<in>set (ss1 @ ss2) \<inter> set (seg2 @ seg1). head_dfn b2 s \<le> dfn b c"
      if "a \<in> set (seg2 @ seg1)" and c: "c \<in> set (b_stack b)"
    proof (cases "a \<in> set seg1")
      case True
      then obtain s where s: "s \<in> set ss1 \<inter> set seg1" "head_dfn b1 s \<le> dfn b c" using A(10) [OF e] c by blast
      then have "head_dfn b2 s = head_dfn b1 s" using same_data(2) keep by blast
      then show ?thesis using s by (intro bexI [of _ s]) auto
    next
      case False
      then have a2: "a \<in> set seg2" and c1: "c \<in> set (b_stack b1)" using that(1) c stack1 by auto
      obtain s where "s \<in> set ss2 \<inter> set seg2" "head_dfn b2 s \<le> dfn b1 c"
        using B(10) [OF e a2 c1] by blast
      then show ?thesis using stack_same(2) [OF b 1 c] by (intro bexI [of _ s]) auto
    qed
  next
    fix l assume l: "l \<in> set (seg2 @ seg1)"
    show "head_dfn b2 l \<noteq> 0"
    proof (cases "l \<in> set seg2")
      case False
      then have l1: "l \<in> set seg1" using l by simp
      have "head_dfn b2 l = head_dfn b1 l" by (rule same_data(2), rule keep) (use l1 in simp)
      then show ?thesis using A(11) [OF l1] by simp
    qed (rule B(11))
  next
    assume "seg2 @ seg1 \<noteq> []"
    show "\<exists>s\<in>set (ss1 @ ss2) \<inter> set (seg2 @ seg1). \<exists>x\<in>set (b_stack b). head_dfn b2 s = dfn b x"
    proof (cases "seg1 = []")
      case True
      then have "seg2 \<noteq> []" "b_stack b1 = b_stack b" using \<open>seg2 @ seg1 \<noteq> []\<close> A(2) by auto
      then obtain s x where "s \<in> set ss2 \<inter> set seg2" "x \<in> set (b_stack b)" "head_dfn b2 s = dfn b1 x" using B(12) by auto
      then show ?thesis using stack_same(2) [OF b 1, of x] by (intro bexI [of _ s] bexI [of _ x]) auto
    next
      case False
      then obtain s x where s: "s \<in> set ss1 \<inter> set seg1" "x \<in> set (b_stack b)" "head_dfn b1 s = dfn b x" using A(12) by blast
      then have "head_dfn b2 s = head_dfn b1 s" using same_data(2) keep by blast
      then show ?thesis using s by (intro bexI [of _ s] bexI [of _ x]) auto
    qed
  next
    fix l assume l: "l \<in> ?M"
    show "\<exists>s\<in>set (ss1 @ ss2) \<inter> ?M. (s, l) \<in> (Restr (cfg_edges g) ?M)\<^sup>*"
    proof (cases "l \<in> N1 \<union> set seg1")
      case True
      from A(13) [OF this] obtain s where "s \<in> set ss1 \<inter> (N1 \<union> set seg1)"
        "(s, l) \<in> (Restr (cfg_edges g) (N1 \<union> set seg1))\<^sup>*" by blast
      then show ?thesis using restr [of "N1 \<union> set seg1"] by (intro bexI [of _ s]) auto
    next
      case False
      then have "l \<in> N2 \<union> set seg2" using l by auto
      from B(13) [OF this] obtain s where "s \<in> set ss2 \<inter> (N2 \<union> set seg2)"
        "(s, l) \<in> (Restr (cfg_edges g) (N2 \<union> set seg2))\<^sup>*" by blast
      then show ?thesis using restr [of "N2 \<union> set seg2"] by (intro bexI [of _ s]) auto
    qed
  next
    show "b_num b \<le> b_num b2" using A(14) B(14) by simp
    show "b_num b2 \<le> b_num b + int (length (seg2 @ seg1) + tri (card (N1 \<union> N2)))" using A(15) B(15) tri by simp
    show "set (ss1 @ ss2) \<inter> white b2 = {}" using A(16) B(16) B(5) by auto
  qed
qed

subsection \<open>The first step of a visit\<close>

definition pushed :: "label \<Rightarrow> builder \<Rightarrow> builder" where
  "pushed v b = b\<lparr>b_num := b_num b + 1, b_data := bt_insert v \<lparr>vd_dfn = b_num b + 1, vd_head_dfn = 0\<rparr> (b_data b),
     b_stack := v # b_stack b\<rparr>"

lemma pushed_data:
  assumes "search_ok g b"
  shows "map_of (b_data (pushed v b)) = (map_of (b_data b))(v \<mapsto> \<lparr>vd_dfn = b_num b + 1, vd_head_dfn = 0\<rparr>)"
  using search_okD(1) [OF assms] by (simp add: pushed_def)

lemma pushed_spec:
  assumes b: "search_ok g b" and v: "v \<in> white b" and n: "b_num b + 1 < DFN_INF"
  shows "search_ok g (pushed v b)" "white (pushed v b) = white b - {v}" "finished (pushed v b) = finished b"
    "dfn (pushed v b) v = b_num b + 1"
proof -
  note B = search_okD [OF b]
  let ?p = "pushed v b"
  have m: "map_of (b_data ?p) l = (if l = v then Some \<lparr>vd_dfn = b_num b + 1, vd_head_dfn = 0\<rparr> else map_of (b_data b) l)" for l
    using pushed_data [OF b] by simp
  have "v \<in> known b" using v white_known by blast
  then have k: "known ?p = known b" using m by (auto simp: known_def domIff split: if_splits)
  show dv: "dfn ?p v = b_num b + 1" by (simp add: dfn_def m)
  have hv: "head_dfn ?p v = 0" by (simp add: head_dfn_def m)
  have other: "dfn ?p l = dfn b l" "head_dfn ?p l = head_dfn b l" if "l \<noteq> v" for l
    using same_data(1,2) [of ?p l b] m that by auto
  have vk: "v \<in> known b" "dfn b v = 0" using v by (auto simp: white_def)
  show w: "white ?p = white b - {v}"
  proof (rule set_eqI)
    show "l \<in> white ?p \<longleftrightarrow> l \<in> white b - {v}" for l
      using k dv other [of l] B(5) by (cases "l = v") (auto simp: white_def)
  qed
  have vf: "v \<notin> finished b" using vk by (simp add: finished_def)
  show f: "finished ?p = finished b"
  proof (rule set_eqI)
    show "l \<in> finished ?p \<longleftrightarrow> l \<in> finished b" for l
      using k dv other [of l] n vk by (cases "l = v") (auto simp: finished_def)
  qed
  have vs: "v \<notin> set (b_stack b)" using v white_not_stack [OF b] by blast
  have st: "b_stack ?p = v # b_stack b" "b_num ?p = b_num b + 1" by (simp_all add: pushed_def)
  have on: "dfn ?p l = dfn b l" "head_dfn ?p l = head_dfn b l" if "l \<in> set (b_stack b)" for l
    using other [of l] that vs by (cases "l = v"; simp)+
  show "search_ok g ?p"
    unfolding search_ok_def st
  proof (intro conjI ballI impI)
    show "bt_ok (b_data ?p)" using B(1) by (simp add: pushed_def)
    show "known ?p = dom (map_of g)" using k B(2) by simp
    show "set (v # b_stack b) = known ?p - white ?p - finished ?p" using w f k B(3) vk vf v by auto
    have "sorted_wrt (\<lambda>x y. dfn ?p y < dfn ?p x) (b_stack b)"
      by (rule sorted_wrt_mono_rel [OF _ B(4)]) (simp add: on)
    then show "sorted_wrt (\<lambda>x y. dfn ?p y < dfn ?p x) (v # b_stack b)" using dv on B(7) by fastforce
    show "0 \<le> b_num b + 1" "b_num b + 1 < DFN_INF" using B(5) n by simp_all
    show "1 \<le> dfn ?p l" "dfn ?p l \<le> b_num b + 1" if "l \<in> set (v # b_stack b)" for l
      using that dv on B(7) [of l] B(5) by auto
    show "head_dfn ?p l = 0" if "l \<in> white ?p" for l using that w other B(8) by auto
    fix l assume l: "l \<in> set (v # b_stack b)" "head_dfn ?p l \<noteq> 0"
    then have ls: "l \<in> set (b_stack b)" using hv by auto
    then obtain x where x: "x \<in> set (b_stack b)" "dfn b x = head_dfn b l" "head_dfn b l < dfn b l"
      "(l, x) \<in> (stack_edges g (set (b_stack b)))\<^sup>+" using B(9) [OF ls] l(2) on [OF ls] by auto
    then show "\<exists>x\<in>set (v # b_stack b). dfn ?p x = head_dfn ?p l \<and> head_dfn ?p l < dfn ?p l \<and>
        (l, x) \<in> (stack_edges g (set (v # b_stack b)))\<^sup>+"
      using stack_edges_mono [of "set (b_stack b)" "set (v # b_stack b)" g] on ls by (intro bexI [of _ x]) auto
  qed
qed

subsection \<open>After the successors\<close>

lemma low_le_dfn: "search_ok g b \<Longrightarrow> l \<in> set (b_stack b) \<Longrightarrow> low b l \<le> dfn b l"
  using search_okD(9) [of g b l] by (auto simp: low_def)

lemma low_finished: "l \<in> finished b \<Longrightarrow> low b l = DFN_INF"
  by (simp add: low_def finished_def)

lemma low_head: "l \<in> set (b_stack b) \<Longrightarrow> search_ok g b \<Longrightarrow> head_dfn b l \<noteq> 0 \<Longrightarrow> low b l = head_dfn b l"
  using search_okD(3) [of g b] by (auto simp: low_def finished_def)

lemma vertex_cases:
  assumes "search_ok g b" "l \<in> dom (map_of g)"
  obtains "l \<in> white b" | "l \<in> finished b" | "l \<in> set (b_stack b)"
  using search_okD(2,3) [OF assms(1)] assms(2) by blast

text \<open>The visits of the successors of \<open>v\<close> are over.\<close>

definition settled :: "cfg \<Rightarrow> label \<Rightarrow> builder \<Rightarrow> label list \<Rightarrow> builder \<Rightarrow> label set \<Rightarrow> label list \<Rightarrow> bool" where
  "settled g v b ss b1 N1 seg1 \<longleftrightarrow> cfg_ok g \<and> search_ok g b \<and> v \<in> white b \<and> b_num b + 1 < DFN_INF \<and>
     searched g (pushed v b) ss b1 N1 seg1 \<and> (\<forall>s\<in>set ss. (v, s) \<in> cfg_edges g) \<and>
     (\<forall>c. (v, c) \<in> cfg_edges g \<longrightarrow> c \<notin> white b1)"

lemma settledD:
  assumes "settled g v b ss b1 N1 seg1"
  shows "search_ok g b" "v \<in> white b" "b_num b + 1 < DFN_INF" "searched g (pushed v b) ss b1 N1 seg1"
    "\<And>s. s \<in> set ss \<Longrightarrow> (v, s) \<in> cfg_edges g"
    "\<And>a c. (a, c) \<in> cfg_edges g \<Longrightarrow> c \<in> dom (map_of g)" "\<And>c. (v, c) \<in> cfg_edges g \<Longrightarrow> c \<notin> white b1"
  using assms cfg_edges_dom(2) [of g] unfolding settled_def by blast+

lemma settled_facts:
  assumes "settled g v b ss b1 N1 seg1"
  shows "search_ok g (pushed v b)" "b_stack b1 = seg1 @ v # b_stack b" "dfn b1 v = b_num b + 1" "head_dfn b1 v = 0"
    "N1 \<union> set seg1 \<subseteq> white b - {v}" "white b1 = white b - {v} - (N1 \<union> set seg1)" "finished b1 = finished b \<union> N1"
    "\<And>x. x \<in> set (b_stack b) \<Longrightarrow> map_of (b_data b1) x = map_of (b_data b) x"
    "\<And>x. x \<in> set (b_stack b) \<Longrightarrow> dfn b1 x = dfn b x \<and> head_dfn b1 x = head_dfn b x \<and> dfn b x < dfn b1 v"
    "\<And>x. x \<in> set seg1 \<Longrightarrow> dfn b1 v < dfn b1 x" "v \<notin> finished b1" "v \<notin> N1 \<union> set seg1"
    "\<And>l. l \<notin> insert v (N1 \<union> set seg1) \<Longrightarrow> map_of (b_data b1) l = map_of (b_data b) l"
proof -
  note V = settledD [OF assms]
  note P = pushed_spec [OF V(1-3)] and C = searchedD [OF V(4)]
  show p: "search_ok g (pushed v b)" by (rule P(1))
  show st: "b_stack b1 = seg1 @ v # b_stack b" using C(2) by (simp add: pushed_def)
  have st0: "b_stack (pushed v b) = v # b_stack b" by (simp add: pushed_def)
  show dv: "dfn b1 v = b_num b + 1" using stack_same(2) [OF p V(4), of v] P(4) st0 by simp
  show hv: "head_dfn b1 v = 0"
    using stack_same(3) [OF p V(4), of v] st0 pushed_data [OF V(1), of v] by (simp add: head_dfn_def)
  show sub: "N1 \<union> set seg1 \<subseteq> white b - {v}" using C(3) P(2) by simp
  then show "v \<notin> N1 \<union> set seg1" by blast
  show "white b1 = white b - {v} - (N1 \<union> set seg1)" using C(5) P(2) by simp
  show f: "finished b1 = finished b \<union> N1" using finished_grows [OF V(4)] P(3) by simp
  have vs: "v \<notin> set (b_stack b)" by (rule white_not_stack [OF V(1,2)])
  show same: "map_of (b_data b1) x = map_of (b_data b) x" if "x \<in> set (b_stack b)" for x
    using stack_same(1) [OF p V(4), of x] that st0 pushed_data [OF V(1), of v] vs by auto
  show "dfn b1 x = dfn b x \<and> head_dfn b1 x = head_dfn b x \<and> dfn b x < dfn b1 v" if "x \<in> set (b_stack b)" for x
    using same_data(1,2) [OF same [OF that]] search_okD(7) [OF V(1) that] dv by simp
  show "dfn b1 v < dfn b1 x" if "x \<in> set seg1" for x
    using search_okD(4) [OF C(1)] that st by (auto simp: sorted_wrt_append)
  show "v \<notin> finished b1" using dv V(3) by (simp add: finished_def)
  show "map_of (b_data b1) l = map_of (b_data b) l" if "l \<notin> insert v (N1 \<union> set seg1)" for l
    using C(7) [of l] that pushed_data [OF V(1), of v] by auto
qed

text \<open>Every vertex the successors led to is reached from \<open>v\<close>.\<close>

lemma settled_reach:
  assumes "settled g v b ss b1 N1 seg1" "M = insert v (N1 \<union> set seg1)" "l \<in> M"
  shows "(v, l) \<in> (Restr (cfg_edges g) M)\<^sup>*"
proof (cases "l = v")
  case False
  note V = settledD [OF assms(1)]
  obtain s where s: "s \<in> set ss \<inter> (N1 \<union> set seg1)" "(s, l) \<in> (Restr (cfg_edges g) (N1 \<union> set seg1))\<^sup>*"
    using searchedD(13) [OF V(4), of l] assms(2,3) False by blast
  have "(Restr (cfg_edges g) (N1 \<union> set seg1))\<^sup>* \<subseteq> (Restr (cfg_edges g) M)\<^sup>*"
    by (rule rtrancl_mono) (use assms(2) in blast)
  moreover have "(v, s) \<in> Restr (cfg_edges g) M" using V(5) s(1) assms(2) by blast
  ultimately show ?thesis using s(2) by (meson converse_rtrancl_into_rtrancl subsetD)
qed simp

text \<open>If no successor has a smaller number, only the own segment of \<open>v\<close> and finished vertices are reached.\<close>

lemma settled_root:
  assumes v: "settled g v b ss b1 N1 seg1" and low: "\<And>c. (v, c) \<in> cfg_edges g \<Longrightarrow> dfn b1 v \<le> low b1 c"
    and e: "(a, c) \<in> cfg_edges g" "a \<in> insert v (set seg1)"
  shows "c \<in> finished b1 \<union> insert v (set seg1)"
proof -
  note V = settledD [OF v] and F = settled_facts [OF v]
  note C = searchedD [OF V(4)]
  have nw: "c \<notin> white b1" using e V(7) C(9) by blast
  have ns: "c \<notin> set (b_stack b)"
  proof
    assume cs: "c \<in> set (b_stack b)"
    then have c1: "c \<in> set (b_stack b1)" "dfn b1 c < dfn b1 v" using F(2,9) by auto
    show False
    proof (cases "a = v")
      case True
      then show False using low [of c] e(1) low_le_dfn [OF C(1) c1(1)] c1(2) by simp
    next
      case False
      then have "a \<in> set seg1" using e(2) by simp
      moreover have "c \<in> set (b_stack (pushed v b))" using cs by (simp add: pushed_def)
      ultimately obtain s where s: "s \<in> set ss \<inter> set seg1" "head_dfn b1 s \<le> dfn (pushed v b) c"
        using C(10) [OF e(1)] by blast
      have "dfn (pushed v b) c = dfn b1 c" using stack_same(2) [OF F(1) V(4), of c] cs by (simp add: pushed_def)
      moreover have "low b1 s = head_dfn b1 s" using s(1) F(2) C(1) C(11) by (intro low_head) auto
      ultimately show False using low [OF V(5)] s c1(2) by fastforce
    qed
  qed
  have "c \<in> dom (map_of g)" by (rule V(6) [OF e(1)])
  then show ?thesis using vertex_cases [OF C(1)] nw ns F(2) by auto
qed

subsection \<open>A vertex that stays on the stack\<close>

lemma visit_stays:
  assumes v: "settled g v b ss b1 N1 seg1" and h: "h < dfn b1 v" "\<And>c. (v, c) \<in> cfg_edges g \<Longrightarrow> h \<le> low b1 c"
    and s: "(v, s) \<in> cfg_edges g" "low b1 s = h"
    and b': "bt_ok (b_data b')" "map_of (b_data b') = (map_of (b_data b1))(v \<mapsto> \<lparr>vd_dfn = dfn b1 v, vd_head_dfn = h\<rparr>)"
      "b_stack b' = b_stack b1" "b_num b' = b_num b1"
  shows "searched g b [v] b' N1 (seg1 @ [v])"
proof -
  note V = settledD [OF v] and F = settled_facts [OF v]
  note C = searchedD [OF V(4)] and B1 = search_okD [OF searchedD(1) [OF V(4)]]
  have vk: "v \<in> known b1" using F(2) B1(3) by auto
  have k: "known b' = known b1" using vk by (auto simp: known_def b'(2) split: if_splits)
  have d: "dfn b' l = dfn b1 l" for l by (simp add: dfn_def b'(2))
  have hv: "head_dfn b' v = h" by (simp add: head_dfn_def b'(2))
  have ho: "head_dfn b' l = head_dfn b1 l" if "l \<noteq> v" for l using that by (simp add: head_dfn_def b'(2))
  have w: "white b' = white b1" "finished b' = finished b1" using k d by (simp_all add: white_def finished_def)
  let ?E = "stack_edges g (set (b_stack b1))"
  have v1: "v \<in> set (b_stack b1)" using F(2) by simp
  have s1: "s \<in> set (b_stack b1)"
  proof -
    have "s \<notin> finished b1" using h(1) s(2) low_finished [of s b1] B1(6) B1(7) [OF v1] by fastforce
    then show ?thesis using vertex_cases [OF C(1) V(6) [OF s(1)]] V(7) [OF s(1)] by blast
  qed
  have vs: "(v, s) \<in> ?E" using s(1) v1 by (simp add: stack_edges_def)
  have "\<exists>x\<in>set (b_stack b1). dfn b1 x = h \<and> (v, x) \<in> ?E\<^sup>+"
  proof (cases "head_dfn b1 s = 0")
    case True
    then have "dfn b1 s = h" using s(2) by (simp add: low_def)
    then show ?thesis using s1 vs by blast
  next
    case False
    then have "head_dfn b1 s = h" using s(2) low_head [OF s1 C(1)] by simp
    then obtain x where "x \<in> set (b_stack b1)" "dfn b1 x = h" "(s, x) \<in> ?E\<^sup>+" using B1(9) [OF s1 False] by auto
    moreover from this have "(v, x) \<in> ?E\<^sup>+" using trancl_into_trancl2 [OF vs] by blast
    ultimately show ?thesis by blast
  qed
  then obtain x where x: "x \<in> set (b_stack b1)" "dfn b1 x = h" "(v, x) \<in> ?E\<^sup>+" by blast
  have xb: "x \<in> set (b_stack b)" using x(1,2) F(2) F(10) [of x] h(1) by fastforce
  have h0: "h \<noteq> 0" using B1(7) [OF x(1)] x(2) by simp
  have ok: "search_ok g b'"
    unfolding search_ok_def b'(3,4) w k
  proof (intro conjI ballI impI)
    show "bt_ok (b_data b')" by (rule b'(1))
    show "sorted_wrt (\<lambda>x y. dfn b' y < dfn b' x) (b_stack b1)" using B1(4) by (simp add: d)
    show "head_dfn b' l = 0" if "l \<in> white b1" for l
      using that B1(8) [OF that] ho [of l] v1 B1(3) by (cases "l = v") auto
    fix l assume l: "l \<in> set (b_stack b1)" "head_dfn b' l \<noteq> 0"
    show "\<exists>x\<in>set (b_stack b1). dfn b' x = head_dfn b' l \<and> head_dfn b' l < dfn b' l \<and> (l, x) \<in> ?E\<^sup>+"
      using x h(1) hv ho [of l] B1(9) [OF l(1)] l(2) by (cases "l = v") (auto simp: d)
  qed (use B1 d in auto)
  let ?M = "insert v (N1 \<union> set seg1)"
  have M: "N1 \<union> set (seg1 @ [v]) = ?M" by auto
  show ?thesis
    unfolding searched_def M
  proof (intro conjI allI impI ballI)
    show "search_ok g b'" by (rule ok)
    show "b_stack b' = (seg1 @ [v]) @ b_stack b" using b'(3) F(2) by simp
    show "?M \<subseteq> white b" using F(5) V(2) by blast
    show "N1 \<inter> set (seg1 @ [v]) = {}" using C(4) F(12) by auto
    show "white b' = white b - ?M" using w F(6) by blast
    show "N1 \<subseteq> finished b'" using w(2) C(6) by simp
    show "map_of (b_data b') l = map_of (b_data b) l" if "l \<notin> ?M" for l
      using F(13) [OF that] that b'(2) by auto
    fix a c assume e: "(a, c) \<in> cfg_edges g"
    show "c \<in> finished b'" if "a \<in> N1" using C(8) [OF e that] w(2) by simp
    show "c \<notin> white b'" if "a \<in> set (seg1 @ [v])" using that e C(9) V(7) w(1) by auto
    assume a: "a \<in> set (seg1 @ [v])" and c: "c \<in> set (b_stack b)"
    have c1: "c \<in> set (b_stack b1)" "dfn b1 c = dfn b c" using c F(2,9) by auto
    have "h \<le> dfn b c"
    proof (cases "a = v")
      case True
      then show ?thesis using h(2) e low_le_dfn [OF C(1) c1(1)] c1(2) by fastforce
    next
      case False
      then have "a \<in> set seg1" using a by simp
      moreover have cp: "c \<in> set (b_stack (pushed v b))" using c by (simp add: pushed_def)
      ultimately obtain t where t: "t \<in> set ss \<inter> set seg1" "head_dfn b1 t \<le> dfn (pushed v b) c"
        using C(10) [OF e] by blast
      have "dfn (pushed v b) c = dfn b1 c" using stack_same(2) [OF F(1) V(4) cp] by simp
      moreover have "low b1 t = head_dfn b1 t" using t(1) F(2) C(1) C(11) by (intro low_head) auto
      ultimately show ?thesis using h(2) [OF V(5)] t c1(2) by fastforce
    qed
    then show "\<exists>s\<in>set [v] \<inter> set (seg1 @ [v]). head_dfn b' s \<le> dfn b c" using hv by simp
  next
    show "head_dfn b' l \<noteq> 0" if "l \<in> set (seg1 @ [v])" for l
      using that C(11) [of l] ho [of l] hv h0 by (cases "l = v") auto
    show "\<exists>s\<in>set [v] \<inter> set (seg1 @ [v]). \<exists>x\<in>set (b_stack b). head_dfn b' s = dfn b x"
      using hv x(2) xb F(9) [OF xb] by (intro bexI [of _ v] bexI [of _ x]) auto
    show "\<exists>s\<in>set [v] \<inter> ?M. (s, l) \<in> (Restr (cfg_edges g) ?M)\<^sup>*" if "l \<in> ?M" for l
      using settled_reach [OF v refl that] by simp
    show "b_num b \<le> b_num b'" "b_num b' \<le> b_num b + int (length (seg1 @ [v]) + tri (card N1))"
      using C(14,15) b'(4) by (simp_all add: pushed_def)
    show "set [v] \<inter> white b' = {}" using w F(6) by auto
  qed
qed

subsection \<open>A vertex that is done at once\<close>

lemma visit_no_segment:
  assumes v: "settled g v b ss b1 N1 seg1" and low: "\<And>c. (v, c) \<in> cfg_edges g \<Longrightarrow> dfn b1 v < low b1 c"
  shows "seg1 = []"
proof (rule ccontr)
  note V = settledD [OF v] and F = settled_facts [OF v]
  note C = searchedD [OF V(4)]
  assume "seg1 \<noteq> []"
  then obtain s x where s: "s \<in> set ss \<inter> set seg1" "x \<in> set (b_stack (pushed v b))" "head_dfn b1 s = dfn (pushed v b) x"
    using C(12) by blast
  have "dfn (pushed v b) x = dfn b1 x" using stack_same(2) [OF F(1) V(4) s(2)] by simp
  moreover have "dfn b1 x \<le> dfn b1 v" using s(2) F(9) [of x] by (auto simp: pushed_def)
  moreover have "low b1 s = head_dfn b1 s" using s(1) F(2) C(1) C(11) by (intro low_head) auto
  ultimately show False using low [OF V(5)] s by fastforce
qed

lemma visit_done:
  assumes v: "settled g v b ss b1 N1 seg1" and low: "\<And>c. (v, c) \<in> cfg_edges g \<Longrightarrow> dfn b1 v < low b1 c"
    and b': "bt_ok (b_data b')" "map_of (b_data b') = (map_of (b_data b1))(v \<mapsto> \<lparr>vd_dfn = DFN_INF, vd_head_dfn = h\<rparr>)"
      "b_stack b' = b_stack b" "b_num b' = b_num b1"
  shows "searched g b [v] b' (insert v N1) []"
proof -
  note V = settledD [OF v] and F = settled_facts [OF v]
  note C = searchedD [OF V(4)] and B1 = search_okD [OF searchedD(1) [OF V(4)]] and B = search_okD [OF V(1)]
  have seg: "seg1 = []" by (rule visit_no_segment [OF v low])
  have vk: "v \<in> known b1" using F(2) B1(3) by auto
  have k: "known b' = known b1" using vk by (auto simp: known_def b'(2) split: if_splits)
  have dv: "dfn b' v = DFN_INF" by (simp add: dfn_def b'(2))
  have other: "map_of (b_data b') l = map_of (b_data b1) l" if "l \<noteq> v" for l using that by (simp add: b'(2))
  have w: "white b' = white b1" 
  proof (rule set_eqI)
    show "l \<in> white b' \<longleftrightarrow> l \<in> white b1" for l
      using same_data(5) [OF other, of l] dv F(3) B(5) by (cases "l = v") (auto simp: white_def)
  qed
  have f: "finished b' = insert v (finished b1)"
  proof (rule set_eqI)
    show "l \<in> finished b' \<longleftrightarrow> l \<in> insert v (finished b1)" for l
      using same_data(6) [OF other, of l] dv k vk by (cases "l = v") (auto simp: finished_def)
  qed
  have vs: "v \<notin> set (b_stack b)" by (rule white_not_stack [OF V(1,2)])
  have on: "dfn b' x = dfn b x" "head_dfn b' x = head_dfn b x" if "x \<in> set (b_stack b)" for x
    using same_data(1,2) [OF other, of x] F(9) [OF that] that vs by metis+
  have ok: "search_ok g b'"
    unfolding search_ok_def b'(3,4)
  proof (intro conjI ballI impI)
    show "set (b_stack b) = known b' - white b' - finished b'"
      using B1(3) F(2) seg w f k vs by auto
    show "sorted_wrt (\<lambda>x y. dfn b' y < dfn b' x) (b_stack b)"
      by (rule sorted_wrt_mono_rel [OF _ B(4)]) (simp add: on)
    show "head_dfn b' l = 0" if "l \<in> white b'" for l
      using that B1(8) [of l] same_data(2) [OF other, of l] w F(6) by (cases "l = v") auto
    show "1 \<le> dfn b' l" "dfn b' l \<le> b_num b1" if "l \<in> set (b_stack b)" for l
      using B(7) [OF that] on [OF that] C(14) by (simp_all add: pushed_def)
    fix l assume l: "l \<in> set (b_stack b)" "head_dfn b' l \<noteq> 0"
    then show "\<exists>x\<in>set (b_stack b). dfn b' x = head_dfn b' l \<and> head_dfn b' l < dfn b' l \<and>
        (l, x) \<in> (stack_edges g (set (b_stack b)))\<^sup>+"
      using B(9) [OF l(1)] on by auto
  qed (use B1 k b'(1) in auto)
  let ?M = "insert v N1"
  have reach: "c \<in> finished b1" if "(v, c) \<in> cfg_edges g" for c
  proof -
    have "c \<in> finished b1 \<union> insert v (set seg1)" using settled_root [OF v _ that] low by fastforce
    moreover have "c \<noteq> v" using low [OF that] low_le_dfn [OF C(1), of v] F(2) by auto
    ultimately show ?thesis using seg by simp
  qed
  have "finite N1" using F(5) finite_subset [OF _ finite_white] by blast
  then have card: "card ?M = Suc (card N1)" using F(12) by simp
  show ?thesis
    unfolding searched_def
  proof (intro conjI allI impI ballI)
    show "search_ok g b'" by (rule ok)
    show "?M \<union> set [] \<subseteq> white b" using F(5) V(2) by auto
    show "white b' = white b - (?M \<union> set [])" using w F(6) seg by auto
    show "?M \<subseteq> finished b'" using f F(7) by blast
    show "map_of (b_data b') l = map_of (b_data b) l" if "l \<notin> ?M \<union> set []" for l
      using F(13) [of l] other [of l] that seg by simp
    fix a c assume e: "(a, c) \<in> cfg_edges g"
    show "c \<in> finished b'" if "a \<in> ?M" using that C(8) [OF e] reach e f by blast
  next
    show "\<exists>s\<in>set [v] \<inter> (?M \<union> set []). (s, l) \<in> (Restr (cfg_edges g) (?M \<union> set []))\<^sup>*" if "l \<in> ?M \<union> set []" for l
      using settled_reach [OF v _ , of ?M l] that seg by simp
    show "b_num b \<le> b_num b'" "b_num b' \<le> b_num b + int (length [] + tri (card ?M))"
      using C(14,15) b'(4) card seg by (simp_all add: pushed_def)
    show "set [v] \<inter> white b' = {}" using w F(6) by auto
  qed (use b'(3) in auto)
qed

subsection \<open>The head of a loop\<close>

text \<open>The segment of \<open>v\<close> is unvisited again, and \<open>v\<close> is done.\<close>

definition reopened :: "label \<Rightarrow> int \<Rightarrow> builder \<Rightarrow> builder \<Rightarrow> label list \<Rightarrow> builder \<Rightarrow> bool" where
  "reopened v h b b1 seg1 b4 \<longleftrightarrow> bt_ok (b_data b4) \<and> b_stack b4 = b_stack b \<and> b_num b4 = b_num b1 \<and>
     (\<forall>l. map_of (b_data b4) l =
       (if l = v then Some \<lparr>vd_dfn = DFN_INF, vd_head_dfn = h\<rparr>
        else if l \<in> set seg1 then Some \<lparr>vd_dfn = 0, vd_head_dfn = 0\<rparr> else map_of (b_data b1) l))"

lemma reopened_spec:
  assumes v: "settled g v b ss b1 N1 seg1" and r: "reopened v h b b1 seg1 b4"
  shows "search_ok g b4" "white b4 = white b1 \<union> set seg1" "finished b4 = insert v (finished b1)"
proof -
  note V = settledD [OF v] and F = settled_facts [OF v]
  note C = searchedD [OF V(4)] and B1 = search_okD [OF searchedD(1) [OF V(4)]] and B = search_okD [OF V(1)]
  have R: "bt_ok (b_data b4)" "b_stack b4 = b_stack b" "b_num b4 = b_num b1"
    "\<And>l. map_of (b_data b4) l =
       (if l = v then Some \<lparr>vd_dfn = DFN_INF, vd_head_dfn = h\<rparr>
        else if l \<in> set seg1 then Some \<lparr>vd_dfn = 0, vd_head_dfn = 0\<rparr> else map_of (b_data b1) l)"
    using r unfolding reopened_def by blast+
  have sk: "insert v (set seg1) \<subseteq> known b1" using F(2) B1(3) by auto
  then have k: "known b4 = known b1" by (auto simp: known_def R(4) domIff split: if_splits)
  have dv: "dfn b4 v = DFN_INF" by (simp add: dfn_def R(4))
  have ds: "dfn b4 l = 0" "head_dfn b4 l = 0" if "l \<in> set seg1" for l
    using that F(12) by (auto simp: dfn_def head_dfn_def R(4))
  have other: "map_of (b_data b4) l = map_of (b_data b1) l" if "l \<notin> insert v (set seg1)" for l
    using that by (simp add: R(4))
  show w: "white b4 = white b1 \<union> set seg1"
  proof (rule set_eqI)
    fix l
    show "l \<in> white b4 \<longleftrightarrow> l \<in> white b1 \<union> set seg1"
    proof (cases "l \<in> insert v (set seg1)")
      case True
      then show ?thesis using dv ds k sk F(6,12) by (auto simp: white_def)
    qed (use same_data(5) [OF other] in blast)
  qed
  show f: "finished b4 = insert v (finished b1)"
  proof (rule set_eqI)
    fix l
    have "set seg1 \<inter> finished b1 = {}" using F(2) B1(3) by auto
    then show "l \<in> finished b4 \<longleftrightarrow> l \<in> insert v (finished b1)"
      using dv ds [of l] k sk same_data(6) [OF other, of l] by (cases "l \<in> insert v (set seg1)") (auto simp: finished_def)
  qed
  have vs: "set (b_stack b) \<inter> insert v (set seg1) = {}" using search_ok_distinct [OF C(1)] F(2) by auto
  have on: "dfn b4 x = dfn b x" "head_dfn b4 x = head_dfn b x" if "x \<in> set (b_stack b)" for x
    using same_data(1,2) [OF other, of x] F(9) [OF that] that vs by auto
  show "search_ok g b4"
    unfolding search_ok_def R(2,3)
  proof (intro conjI ballI impI)
    show "set (b_stack b) = known b4 - white b4 - finished b4"
      using B1(3) F(2) w f k vs by auto
    show "sorted_wrt (\<lambda>x y. dfn b4 y < dfn b4 x) (b_stack b)"
      by (rule sorted_wrt_mono_rel [OF _ B(4)]) (simp add: on)
    show "head_dfn b4 l = 0" if "l \<in> white b4" for l
      using that B1(8) [of l] same_data(2) [OF other, of l] ds [of l] w F(6) by (cases "l \<in> set seg1") auto
    show "1 \<le> dfn b4 l" "dfn b4 l \<le> b_num b1" if "l \<in> set (b_stack b)" for l
      using B(7) [OF that] on [OF that] C(14) by (simp_all add: pushed_def)
    fix l assume l: "l \<in> set (b_stack b)" "head_dfn b4 l \<noteq> 0"
    then show "\<exists>x\<in>set (b_stack b). dfn b4 x = head_dfn b4 l \<and> head_dfn b4 l < dfn b4 l \<and>
        (l, x) \<in> (stack_edges g (set (b_stack b)))\<^sup>+"
      using B(9) [OF l(1)] on by auto
  qed (use B1 k R(1) in auto)
qed

text \<open>A path along the stack that starts in the segment of a loop head stays in it.\<close>

lemma body_path:
  assumes p: "(s, x) \<in> (stack_edges g (seg5 \<union> S))\<^sup>+" and s: "s \<in> seg1"
    and closed: "\<And>a c. (a, c) \<in> cfg_edges g \<Longrightarrow> a \<in> seg1 \<Longrightarrow> c \<in> done \<union> insert v seg1"
    and dis: "(done \<union> insert v seg1) \<inter> S = {}" "(insert v done) \<inter> seg5 = {}"
  shows "x \<notin> S"
proof -
  have "y \<in> done \<union> insert v seg1" if "(s, y) \<in> (stack_edges g (seg5 \<union> S))\<^sup>+" for y
    using that
  proof (induction rule: trancl_induct)
    case (base y)
    then show ?case using closed s by (auto simp: stack_edges_def)
  next
    case (step y z)
    have "y \<in> seg5 \<union> S" "(y, z) \<in> cfg_edges g" using step(2) by (auto simp: stack_edges_def)
    moreover then have "y \<in> seg1" using step(3) dis by blast
    ultimately show ?case using closed by blast
  qed
  then show ?thesis using p dis by blast
qed

lemma restr_rtrancl_induct:
  assumes "(s, l) \<in> (Restr E M)\<^sup>*" "P s" "\<And>y z. P y \<Longrightarrow> y \<in> M \<Longrightarrow> z \<in> M \<Longrightarrow> (y, z) \<in> E \<Longrightarrow> P z"
  shows "P l"
  using assms(1) by (induction rule: rtrancl_induct) (use assms(2,3) in auto)

lemma visit_loop_body:
  assumes v: "settled g v b ss b1 N1 seg1" and low: "\<And>c. (v, c) \<in> cfg_edges g \<Longrightarrow> dfn b1 v \<le> low b1 c"
    and r: "reopened v h b b1 seg1 b4"
    and body: "searched g b4 ss4 b5 N5 seg5" and ss4: "\<And>s. s \<in> set ss4 \<Longrightarrow> (v, s) \<in> cfg_edges g"
    and all: "\<And>c. (v, c) \<in> cfg_edges g \<Longrightarrow> c \<notin> white b5"
  shows "seg5 = []" "N5 = set seg1"
proof -
  note V = settledD [OF v] and F = settled_facts [OF v] and R = reopened_spec [OF v r]
  note C = searchedD [OF V(4)] and D = searchedD [OF body] and B1 = search_okD [OF searchedD(1) [OF V(4)]]
  have st4: "b_stack b4 = b_stack b" using r by (simp add: reopened_def)
  have w4: "N5 \<union> set seg5 \<subseteq> white b1 \<union> set seg1" using D(3) R(2) by simp
  note root = settled_root [OF v low]
  have disj: "finished b1 \<inter> white b1 = {}" "v \<notin> white b1" "v \<notin> set seg1" "finished b1 \<inter> set seg1 = {}"
    "set (b_stack b) \<inter> finished b1 = {}" "set (b_stack b) \<inter> insert v (set seg1) = {}" "set seg1 \<inter> white b1 = {}"
  proof -
    show "finished b1 \<inter> white b1 = {}" by (auto simp: finished_def white_def)
    show "v \<notin> white b1" using F(6) by blast
    show "v \<notin> set seg1" using F(12) by blast
    show "set seg1 \<inter> white b1 = {}" using F(6) by blast
    have "set (b_stack b1) \<inter> finished b1 = {}" using B1(3) by blast
    then show "finished b1 \<inter> set seg1 = {}" "set (b_stack b) \<inter> finished b1 = {}" using F(2) by auto
    show "set (b_stack b) \<inter> insert v (set seg1) = {}" using search_ok_distinct [OF C(1)] F(2) by auto
  qed
  have succ: "s \<in> set seg1" if "s \<in> set ss4" "s \<in> N5 \<union> set seg5" for s
    using ss4 [OF that(1)] V(7) that(2) w4 by blast
  show seg: "seg5 = []"
  proof (rule ccontr)
    assume "seg5 \<noteq> []"
    then obtain s x where s: "s \<in> set ss4 \<inter> set seg5" "x \<in> set (b_stack b)" "head_dfn b5 s = dfn b4 x"
      using D(12) st4 by auto
    have ne: "head_dfn b5 s \<noteq> 0" using D(11) s(1) by blast
    have s5: "s \<in> set (b_stack b5)" using s(1) D(2) by simp
    obtain y where y: "y \<in> set (b_stack b5)" "dfn b5 y = head_dfn b5 s"
      "(s, y) \<in> (stack_edges g (set seg5 \<union> set (b_stack b)))\<^sup>+"
      using search_okD(9) [OF D(1) s5 ne] D(2) st4 by auto
    have x5: "x \<in> set (b_stack b5)" "dfn b5 x = dfn b4 x"
      using s(2) D(2) st4 stack_same(2) [OF R(1) body, of x] by auto
    have inj: "x = y" by (rule stack_inj [OF D(1) x5(1) y(1)]) (use x5(2) y(2) s(3) in simp)
    have "s \<in> set seg1" using succ s(1) by blast
    have "y \<notin> set (b_stack b)"
    proof (rule body_path [OF y(3) \<open>s \<in> set seg1\<close>, of "finished b1" v])
      show "c \<in> finished b1 \<union> insert v (set seg1)" if "(a, c) \<in> cfg_edges g" "a \<in> set seg1" for a c
        using root [OF _ that(1)] that(2) by blast
      show "(finished b1 \<union> insert v (set seg1)) \<inter> set (b_stack b) = {}" using disj by blast
      show "insert v (finished b1) \<inter> set seg5 = {}" using w4 disj by blast
    qed
    then show False using inj s(2) by simp
  qed
  show "N5 = set seg1"
  proof
    show "N5 \<subseteq> set seg1"
    proof
      fix l assume l: "l \<in> N5"
      then obtain s where s: "s \<in> set ss4 \<inter> N5" "(s, l) \<in> (Restr (cfg_edges g) N5)\<^sup>*" using D(13) [of l] seg by auto
      show "l \<in> set seg1"
      proof (rule restr_rtrancl_induct [OF s(2)])
        show "s \<in> set seg1" using succ s(1) by blast
        show "z \<in> set seg1" if "y \<in> set seg1" "z \<in> N5" "(y, z) \<in> cfg_edges g" for y z
          using root [OF _ that(3)] that(1,2) w4 disj by blast
      qed
    qed
    show "set seg1 \<subseteq> N5"
    proof
      fix l assume l: "l \<in> set seg1"
      then obtain s where s: "s \<in> set ss \<inter> (N1 \<union> set seg1)" "(s, l) \<in> (Restr (cfg_edges g) (N1 \<union> set seg1))\<^sup>*"
        using C(13) by blast
      have white5: "y \<in> N5" if "y \<in> set seg1" "y \<notin> white b5" for y
        using that D(5) R(2) seg by auto
      have n1: "z \<in> N1" if "y \<in> N1" "z \<in> N1 \<union> set seg1" "(y, z) \<in> cfg_edges g" for y z
        using C(8) [OF that(3,1)] that(2) disj(4) by blast
      have n5: "z \<notin> white b5" if "y \<in> N5" "(y, z) \<in> cfg_edges g" for y z
        using D(8) [OF that(2,1)] by (auto simp: finished_def white_def)
      have "l \<in> N1 \<union> N5"
      proof (rule restr_rtrancl_induct [OF s(2)])
        show "s \<in> N1 \<union> N5" using s(1) white5 all V(5) by blast
        show "z \<in> N1 \<union> N5" if "y \<in> N1 \<union> N5" "z \<in> N1 \<union> set seg1" "(y, z) \<in> cfg_edges g" for y z
          using that n1 n5 white5 by blast
      qed
      then show "l \<in> N5" using l C(4) by blast
    qed
  qed
qed

text \<open>The head of a loop has an edge into it.\<close>

lemma loop_edge:
  assumes v: "settled g v b ss b1 N1 seg1" and low: "\<And>c. (v, c) \<in> cfg_edges g \<Longrightarrow> dfn b1 v \<le> low b1 c"
    and e: "(v, c) \<in> cfg_edges g" "low b1 c \<le> dfn b1 v"
  shows "\<exists>a. (a, v) \<in> cfg_edges g"
proof -
  note V = settledD [OF v] and F = settled_facts [OF v]
  note C = searchedD [OF V(4)]
  have c: "c \<in> finished b1 \<union> insert v (set seg1)" by (rule settled_root [OF v low e(1)]) simp_all
  have "c \<notin> finished b1" using low_finished [of c b1] e(2) F(3) V(3) by auto
  then consider "c = v" | "c \<in> set seg1" using c by blast
  then show ?thesis
  proof cases
    case 2
    have cs: "c \<in> set (b_stack b1)" "v \<in> set (b_stack b1)" using 2 F(2) by simp_all
    have h: "head_dfn b1 c \<noteq> 0" using C(11) 2 by blast
    then have "head_dfn b1 c = dfn b1 v" using low_head [OF cs(1) C(1) h] low [OF e(1)] e(2) by simp
    then obtain x where x: "x \<in> set (b_stack b1)" "dfn b1 x = dfn b1 v" "(c, x) \<in> (stack_edges g (set (b_stack b1)))\<^sup>+"
      using search_okD(9) [OF C(1) cs(1) h] by auto
    have "x = v" by (rule stack_inj [OF C(1) x(1) cs(2) x(2)])
    then show ?thesis using x(3) by (auto simp: stack_edges_def elim: tranclE)
  qed (use e(1) in blast)
qed

lemma visit_loop_done:
  assumes v: "settled g v b ss b1 N1 seg1" and low: "\<And>c. (v, c) \<in> cfg_edges g \<Longrightarrow> dfn b1 v \<le> low b1 c"
    and r: "reopened v h b b1 seg1 b4" and body: "searched g b4 ss4 b5 (set seg1) []"
    and b': "b_data b' = b_data b5" "b_stack b' = b_stack b5" "b_num b' = b_num b5"
  shows "searched g b [v] b' (insert v (N1 \<union> set seg1)) []"
proof -
  note V = settledD [OF v] and F = settled_facts [OF v] and R = reopened_spec [OF v r]
  note C = searchedD [OF V(4)] and D = searchedD [OF body]
  have st4: "b_stack b4 = b_stack b" "b_num b4 = b_num b1" "\<And>l. l \<notin> insert v (set seg1) \<Longrightarrow> map_of (b_data b4) l = map_of (b_data b1) l"
    using r by (simp_all add: reopened_def)
  have cong: "dfn b' = dfn b5" "head_dfn b' = head_dfn b5" "white b' = white b5" "finished b' = finished b5" "known b' = known b5"
    using b'(1) unfolding fun_eq_iff dfn_def head_dfn_def white_def finished_def known_def by simp_all
  have ok: "search_ok g b'" using D(1) unfolding search_ok_def cong b' .
  have f5: "finished b5 = insert v (finished b1) \<union> set seg1" using finished_grows [OF body] R(3) by simp
  let ?M = "insert v (N1 \<union> set seg1)"
  have fin: "finite N1" using F(5) finite_subset [OF _ finite_white] by blast
  have card: "card ?M = Suc (card N1 + card (set seg1))"
    using F(12) fin C(4) by (simp add: card_Un_disjoint)
  have len: "card (set seg1) = length seg1"
    using search_ok_distinct [OF C(1)] F(2) by (simp add: distinct_card)
  have tri: "length seg1 + Suc (tri (card N1) + tri (length seg1)) \<le> tri (card ?M)"
    using tri_add [of "card N1" "Suc (length seg1)"] unfolding card len by simp
  show ?thesis
    unfolding searched_def cong b'
  proof (intro conjI allI impI ballI)
    show "search_ok g b'" by (rule ok)
    show "b_stack b5 = [] @ b_stack b" using D(2) st4 by simp
    show "?M \<union> set [] \<subseteq> white b" using F(5) V(2) by auto
    have "v \<notin> white b1" "N1 \<inter> white b1 = {}" using F(6) by auto
    then show "white b5 = white b - (?M \<union> set [])" using D(5) R(2) F(6) by auto
    show "?M \<subseteq> finished b5" using f5 F(7) by blast
    show "map_of (b_data b5) l = map_of (b_data b) l" if "l \<notin> ?M \<union> set []" for l
      using F(13) [of l] D(7) [of l] st4(3) [of l] that by simp
    fix a c assume e: "(a, c) \<in> cfg_edges g"
    show "c \<in> finished b5" if "a \<in> ?M" using that C(8) [OF e] settled_root [OF v low e] f5 by blast
  next
    show "\<exists>s\<in>set [v] \<inter> (?M \<union> set []). (s, l) \<in> (Restr (cfg_edges g) (?M \<union> set []))\<^sup>*" if "l \<in> ?M \<union> set []" for l
      using settled_reach [OF v refl] that by simp
    show "b_num b \<le> b_num b5" using C(14) D(14) st4 by (simp add: pushed_def)
    show "b_num b5 \<le> b_num b + int (length [] + tri (card ?M))"
      using C(15) D(15) st4 tri len by (simp add: pushed_def)
    have "v \<notin> white b1" using F(6) by blast
    then show "set [v] \<inter> white b5 = {}" using D(5) R(2) F(12) by auto
  qed (use b' in auto)
qed

end
