(* ===== verification/Fwd_Analyzer.thy ===== *)
theory Fwd_Analyzer
  imports Wto Interval
begin

text \<open>
  \<open>src/fwd_analyzer.rs\<close>: the forward fixpoint iteration over a weak topological ordering, with
  widening and narrowing.  The abstract domain (\<open>src/crab/ebpf_domain.rs\<close> with its transformer
  and checker) is a record of operations; an operation that takes the variable registry threads
  it, and \<open>None\<close> is a panic.
\<close>

subsection \<open>The domain, the program and the result\<close>

record verification_error =
  ve_message :: string
  ve_label :: "label option"

record ('d, 'r, 'x) domain_ops =
  d_bottom :: 'd
  d_is_bottom :: "'d \<Rightarrow> bool"
  d_included :: "'d \<Rightarrow> 'd \<Rightarrow> 'r \<Rightarrow> (bool \<times> 'r) option"
  d_join_assign :: "'d \<Rightarrow> 'd \<Rightarrow> 'r \<Rightarrow> ('d \<times> 'r) option"
  d_join :: "'d \<Rightarrow> 'd \<Rightarrow> 'r \<Rightarrow> ('d \<times> 'r) option"
  d_widen :: "'d \<Rightarrow> 'd \<Rightarrow> bool \<Rightarrow> 'r \<Rightarrow> ('d \<times> 'r) option"
  d_meet :: "'d \<Rightarrow> 'd \<Rightarrow> 'd option"
  d_narrow :: "'d \<Rightarrow> 'd \<Rightarrow> 'd option"
  d_check :: "'d \<Rightarrow> assertion \<Rightarrow> label \<Rightarrow> 'r \<Rightarrow> (verification_error option \<times> 'r) option"
  d_transform :: "'d \<Rightarrow> instruction \<Rightarrow> 'r \<Rightarrow> ((verification_error + 'd) \<times> 'r) option"
  d_deps :: "instruction \<Rightarrow> 'd \<Rightarrow> 'r \<Rightarrow> ('x \<times> 'r) option"
  d_init_counter :: "'d \<Rightarrow> label \<Rightarrow> 'r \<Rightarrow> ('d \<times> 'r) option"
  d_loop_bound :: "'d \<Rightarrow> 'r \<Rightarrow> (extended_number \<times> 'r) option"
  d_r0 :: "'d \<Rightarrow> 'r \<Rightarrow> (interval \<times> 'r) option"

record program =
  prog_cfg :: cfg
  instruction_at :: "label \<Rightarrow> instruction option"
  assertions_at :: "label \<Rightarrow> assertion list option"

record ('d, 'x) invariant_pair =
  inv_pre :: 'd
  inv_error :: "verification_error option"
  inv_post :: 'd
  inv_deps :: "'x option"

text \<open>The state of the iterator: the result map and its failure flag, the registry and the flag
  that skips components until the entry is met.\<close>

record ('d, 'r, 'x) analyzer =
  invariants :: "(label, ('d, 'x) invariant_pair) btree"
  failed :: bool
  registry :: 'r
  skip :: bool

record ('d, 'r, 'x) analysis_env =
  dom_ops :: "('d, 'r, 'x) domain_ops"
  env_prog :: program
  env_wto :: wto
  collect_deps :: bool

record ('d, 'r, 'x) analysis_result =
  result_invariants :: "(label, ('d, 'x) invariant_pair) btree"
  result_failed :: bool
  max_loop_count :: int
  max_call_depth :: int
  exit_value :: interval

abbreviation env_cfg :: "('d, 'r, 'x) analysis_env \<Rightarrow> cfg" where
  "env_cfg E \<equiv> prog_cfg (env_prog E)"

subsection \<open>Extrapolation and refinement\<close>

abbreviation WIDENING_DELAY :: nat where "WIDENING_DELAY \<equiv> 2"
abbreviation DESCENDING_ITERATIONS :: nat where "DESCENDING_ITERATIONS \<equiv> 2000000"

definition extrapolate :: "('d, 'r, 'x) domain_ops \<Rightarrow> 'd \<Rightarrow> 'd \<Rightarrow> nat \<Rightarrow> 'r \<Rightarrow> ('d \<times> 'r) option" where
  "extrapolate D before after iteration r =
     (if iteration < WIDENING_DELAY then d_join D before after r
      else d_widen D before after (iteration = WIDENING_DELAY) r)"

definition refine :: "('d, 'r, 'x) domain_ops \<Rightarrow> 'd \<Rightarrow> 'd \<Rightarrow> nat \<Rightarrow> 'd option" where
  "refine D before after iteration =
     (if iteration = 1 then d_meet D before after else d_narrow D before after)"

subsection \<open>Access to the invariants\<close>

definition update_pair ::
  "label \<Rightarrow> (('d, 'x) invariant_pair \<Rightarrow> ('d, 'x) invariant_pair) \<Rightarrow> ('d, 'r, 'x) analyzer \<Rightarrow> ('d, 'r, 'x) analyzer" where
  "update_pair l f st =
     (case map_of (invariants st) l of
        None \<Rightarrow> st
      | Some p \<Rightarrow> st\<lparr>invariants := bt_insert l (f p) (invariants st)\<rparr>)"

definition has_error :: "label \<Rightarrow> ('d, 'r, 'x) analyzer \<Rightarrow> bool" where
  "has_error l st \<longleftrightarrow> (case map_of (invariants st) l of None \<Rightarrow> False | Some p \<Rightarrow> inv_error p \<noteq> None)"

definition set_error :: "label \<Rightarrow> verification_error \<Rightarrow> ('d, 'r, 'x) analyzer \<Rightarrow> ('d, 'r, 'x) analyzer" where
  "set_error l e st = update_pair l (inv_error_update (\<lambda>_. Some e)) (st\<lparr>failed := True\<rparr>)"

definition set_pre :: "label \<Rightarrow> 'd \<Rightarrow> ('d, 'r, 'x) analyzer \<Rightarrow> ('d, 'r, 'x) analyzer" where
  "set_pre l v st = update_pair l (inv_pre_update (\<lambda>_. v)) st"

definition get_pre :: "('d, 'r, 'x) analysis_env \<Rightarrow> label \<Rightarrow> ('d, 'r, 'x) analyzer \<Rightarrow> 'd" where
  "get_pre E l st =
     (case map_of (invariants st) l of None \<Rightarrow> d_bottom (dom_ops E) | Some p \<Rightarrow> inv_pre p)"

subsection \<open>Checking and transforming a label\<close>

fun check_assertions ::
  "('d, 'r, 'x) domain_ops \<Rightarrow> 'd \<Rightarrow> label \<Rightarrow> assertion list \<Rightarrow> 'r \<Rightarrow> (verification_error option \<times> 'r) option" where
  "check_assertions D pre l [] r = Some (None, r)"
| "check_assertions D pre l (a # as) r =
     do { (e, r1) \<leftarrow> d_check D pre a l r;
          (case e of None \<Rightarrow> check_assertions D pre l as r1 | Some e \<Rightarrow> Some (Some e, r1)) }"

fun is_loop_counter :: "instruction \<Rightarrow> bool" where
  "is_loop_counter (IncrementLoopCounter _) = True"
| "is_loop_counter _ = False"

definition record_deps ::
  "('d, 'r, 'x) analysis_env \<Rightarrow> label \<Rightarrow> instruction \<Rightarrow> 'd \<Rightarrow> ('d, 'r, 'x) analyzer \<Rightarrow> ('d, 'r, 'x) analyzer option" where
  "record_deps E l ins pre st =
     (if collect_deps E
      then do { (x, r) \<leftarrow> d_deps (dom_ops E) ins pre (registry st);
                Some (update_pair l (inv_deps_update (\<lambda>_. Some x)) (st\<lparr>registry := r\<rparr>)) }
      else Some st)"

definition transform_label ::
  "('d, 'r, 'x) analysis_env \<Rightarrow> label \<Rightarrow> instruction \<Rightarrow> 'd \<Rightarrow> ('d, 'r, 'x) analyzer \<Rightarrow> ('d, 'r, 'x) analyzer option" where
  "transform_label E l ins pre st =
     do { (res, r) \<leftarrow> d_transform (dom_ops E) pre ins (registry st);
          let st1 = st\<lparr>registry := r\<rparr>;
          Some (case res of
              Inl e \<Rightarrow> set_error l (e\<lparr>ve_label := Some l\<rparr>) st1
            | Inr post \<Rightarrow> update_pair l (inv_post_update (\<lambda>_. post)) st1) }"

definition transform_to_post ::
  "('d, 'r, 'x) analysis_env \<Rightarrow> label \<Rightarrow> 'd \<Rightarrow> ('d, 'r, 'x) analyzer \<Rightarrow> ('d, 'r, 'x) analyzer option" where
  "transform_to_post E l pre st =
     do { ins \<leftarrow> instruction_at (env_prog E) l;
          st1 \<leftarrow> record_deps E l ins pre st;
          if is_loop_counter ins then transform_label E l ins pre st1
          else if has_error l st1 then Some st1
          else do { as \<leftarrow> assertions_at (env_prog E) l;
                    (e, r) \<leftarrow> check_assertions (dom_ops E) pre l as (registry st1);
                    let st2 = st1\<lparr>registry := r\<rparr>;
                    (case e of
                       Some e \<Rightarrow> Some (set_error l e st2)
                     | None \<Rightarrow> transform_label E l ins pre st2) } }"

fun join_posts ::
  "('d, 'r, 'x) domain_ops \<Rightarrow> (label, ('d, 'x) invariant_pair) btree \<Rightarrow> label list \<Rightarrow> 'd \<Rightarrow> 'r \<Rightarrow> ('d \<times> 'r) option" where
  "join_posts D m [] res r = Some (res, r)"
| "join_posts D m (p # ps) res r =
     (case map_of m p of
        None \<Rightarrow> join_posts D m ps res r
      | Some pair \<Rightarrow> do { (res1, r1) \<leftarrow> d_join_assign D res (inv_post pair) r; join_posts D m ps res1 r1 })"

definition join_all_prevs ::
  "('d, 'r, 'x) analysis_env \<Rightarrow> label \<Rightarrow> ('d, 'r, 'x) analyzer \<Rightarrow> ('d \<times> ('d, 'r, 'x) analyzer) option" where
  "join_all_prevs E l st =
     (if l = label_entry then Some (get_pre E l st, st)
      else do { ps \<leftarrow> parents_of (env_cfg E) l;
                (res, r) \<leftarrow> join_posts (dom_ops E) (invariants st) ps (d_bottom (dom_ops E)) (registry st);
                Some (res, st\<lparr>registry := r\<rparr>) })"

subsection \<open>Nodes and cycles\<close>

definition process_node ::
  "('d, 'r, 'x) analysis_env \<Rightarrow> label \<Rightarrow> ('d, 'r, 'x) analyzer \<Rightarrow> ('d, 'r, 'x) analyzer option" where
  "process_node E l st =
     (let st1 = (if skip st \<and> l = label_entry then st\<lparr>skip := False\<rparr> else st)
      in if skip st1 then Some st1
         else do { (pre, st2) \<leftarrow> join_all_prevs E l st1;
                   transform_to_post E l pre (set_pre l pre st2) })"

text \<open>The components of a cycle come with the function that visits them.\<close>

fun visit_cycle_body :: "label \<Rightarrow> (component \<times> ('s \<Rightarrow> 's option)) list \<Rightarrow> 's \<Rightarrow> 's option" where
  "visit_cycle_body h [] st = Some st"
| "visit_cycle_body h ((c, visit) # cs) st =
     (if c = WtoLabel h then visit_cycle_body h cs st
      else do { st1 \<leftarrow> visit st; visit_cycle_body h cs st1 })"

definition head_pass ::
  "('d, 'r, 'x) analysis_env \<Rightarrow> label \<Rightarrow> (('d, 'r, 'x) analyzer \<Rightarrow> ('d, 'r, 'x) analyzer option) \<Rightarrow> 'd \<Rightarrow>
    ('d, 'r, 'x) analyzer \<Rightarrow> ('d \<times> ('d, 'r, 'x) analyzer) option" where
  "head_pass E h body cur st =
     do { st1 \<leftarrow> transform_to_post E h cur st; st2 \<leftarrow> body st1; join_all_prevs E h st2 }"

text \<open>The iteration counter is an \<open>u32\<close>, and running out of it panics.\<close>

function ascend ::
  "('d, 'r, 'x) analysis_env \<Rightarrow> label \<Rightarrow> (('d, 'r, 'x) analyzer \<Rightarrow> ('d, 'r, 'x) analyzer option) \<Rightarrow> nat \<Rightarrow> 'd \<Rightarrow>
    ('d, 'r, 'x) analyzer \<Rightarrow> ('d \<times> ('d, 'r, 'x) analyzer) option" where
  "ascend E h body iteration cur st =
     (if iteration \<ge> 2 ^ 32 - 1 then None
      else (case head_pass E h body cur (set_pre h cur st) of
          None \<Rightarrow> None
        | Some (new_pre, st1) \<Rightarrow>
          (case d_included (dom_ops E) new_pre cur (registry st1) of
             None \<Rightarrow> None
           | Some (inc, r) \<Rightarrow>
             if inc then Some (new_pre, set_pre h new_pre (st1\<lparr>registry := r\<rparr>))
             else (case extrapolate (dom_ops E) cur new_pre iteration r of
                 None \<Rightarrow> None
               | Some (cur', r') \<Rightarrow> ascend E h body (iteration + 1) cur' (st1\<lparr>registry := r'\<rparr>)))))"
  by pat_completeness auto
termination
  by (relation "measure (\<lambda>(E, h, body, iteration, cur, st). 2 ^ 32 - iteration)") auto

declare ascend.simps [simp del]

function descend ::
  "('d, 'r, 'x) analysis_env \<Rightarrow> label \<Rightarrow> (('d, 'r, 'x) analyzer \<Rightarrow> ('d, 'r, 'x) analyzer option) \<Rightarrow> nat \<Rightarrow> 'd \<Rightarrow>
    ('d, 'r, 'x) analyzer \<Rightarrow> ('d, 'r, 'x) analyzer option" where
  "descend E h body iteration cur st =
     (case head_pass E h body cur st of
        None \<Rightarrow> None
      | Some (new_pre, st1) \<Rightarrow>
        (case d_included (dom_ops E) cur new_pre (registry st1) of
           None \<Rightarrow> None
         | Some (inc, r) \<Rightarrow>
           if inc then Some (st1\<lparr>registry := r\<rparr>)
           else if iteration > DESCENDING_ITERATIONS then Some (st1\<lparr>registry := r\<rparr>)
           else (case refine (dom_ops E) cur new_pre iteration of
               None \<Rightarrow> None
             | Some refined \<Rightarrow>
               (case d_included (dom_ops E) cur refined r of
                  None \<Rightarrow> None
                | Some (fixed, r') \<Rightarrow>
                  (let st2 = set_pre h refined (st1\<lparr>registry := r'\<rparr>)
                   in if fixed then Some st2 else descend E h body (iteration + 1) refined st2)))))"
  by pat_completeness auto
termination
  by (relation "measure (\<lambda>(E, h, body, iteration, cur, st). DESCENDING_ITERATIONS + 1 - iteration)") auto

declare descend.simps [simp del]

text \<open>For execution the two bounds are compared as binary numbers.\<close>

lemma ascend_code [code]:
  "ascend E h body iteration cur st =
     (if int iteration \<ge> 4294967295 then None
      else (case head_pass E h body cur (set_pre h cur st) of
          None \<Rightarrow> None
        | Some (new_pre, st1) \<Rightarrow>
          (case d_included (dom_ops E) new_pre cur (registry st1) of
             None \<Rightarrow> None
           | Some (inc, r) \<Rightarrow>
             if inc then Some (new_pre, set_pre h new_pre (st1\<lparr>registry := r\<rparr>))
             else (case extrapolate (dom_ops E) cur new_pre iteration r of
                 None \<Rightarrow> None
               | Some (cur', r') \<Rightarrow> ascend E h body (iteration + 1) cur' (st1\<lparr>registry := r'\<rparr>)))))"
proof -
  have e: "(int iteration \<ge> 4294967295) = (iteration \<ge> 2 ^ 32 - 1)" by simp
  show ?thesis unfolding e by (rule ascend.simps)
qed

lemma descend_code [code]:
  "descend E h body iteration cur st =
     (case head_pass E h body cur st of
        None \<Rightarrow> None
      | Some (new_pre, st1) \<Rightarrow>
        (case d_included (dom_ops E) cur new_pre (registry st1) of
           None \<Rightarrow> None
         | Some (inc, r) \<Rightarrow>
           if inc then Some (st1\<lparr>registry := r\<rparr>)
           else if int iteration > 2000000 then Some (st1\<lparr>registry := r\<rparr>)
           else (case refine (dom_ops E) cur new_pre iteration of
               None \<Rightarrow> None
             | Some refined \<Rightarrow>
               (case d_included (dom_ops E) cur refined r of
                  None \<Rightarrow> None
                | Some (fixed, r') \<Rightarrow>
                  (let st2 = set_pre h refined (st1\<lparr>registry := r'\<rparr>)
                   in if fixed then Some st2 else descend E h body (iteration + 1) refined st2)))))"
proof -
  have e: "(int iteration > 2000000) = (iteration > DESCENDING_ITERATIONS)" by presburger
  show ?thesis unfolding e by (rule descend.simps)
qed

text \<open>The initial value of a cycle joins the posts of the parents outside the cycle.\<close>

fun outside_parents :: "wto \<Rightarrow> head_list \<Rightarrow> label list \<Rightarrow> label list option" where
  "outside_parents w n [] = Some []"
| "outside_parents w n (p # ps) =
     do { k \<leftarrow> nesting w p; qs \<leftarrow> outside_parents w n ps;
          Some (if is_superset_of k n then qs else p # qs) }"

definition cycle_entry ::
  "('d, 'r, 'x) analysis_env \<Rightarrow> label \<Rightarrow> bool \<Rightarrow> ('d, 'r, 'x) analyzer \<Rightarrow> ('d \<times> ('d, 'r, 'x) analyzer) option" where
  "cycle_entry E h entry_in st =
     (if entry_in then Some (get_pre E label_entry st, st)
      else do { n \<leftarrow> nesting (env_wto E) h;
                ps \<leftarrow> parents_of (env_cfg E) h;
                qs \<leftarrow> outside_parents (env_wto E) n ps;
                (res, r) \<leftarrow> join_posts (dom_ops E) (invariants st) qs (d_bottom (dom_ops E)) (registry st);
                Some (res, st\<lparr>registry := r\<rparr>) })"

definition process_cycle ::
  "('d, 'r, 'x) analysis_env \<Rightarrow> component list \<Rightarrow>
    (component \<times> (('d, 'r, 'x) analyzer \<Rightarrow> ('d, 'r, 'x) analyzer option)) list \<Rightarrow>
    ('d, 'r, 'x) analyzer \<Rightarrow> ('d, 'r, 'x) analyzer option" where
  "process_cycle E cs visits st =
     do { h \<leftarrow> cycle_head cs;
          entry_in \<leftarrow> (if skip st then is_component_member label_entry (WtoCycle cs) else Some False);
          let st0 = (if skip st then st\<lparr>skip := \<not> entry_in\<rparr> else st);
          if skip st0 then Some st0
          else do { (cur, st1) \<leftarrow> cycle_entry E h entry_in st0;
                    let body = visit_cycle_body h (rev visits);
                    (cur', st2) \<leftarrow> ascend E h body 1 cur st1;
                    descend E h body 1 cur' st2 } }"

fun visit_component ::
  "('d, 'r, 'x) analysis_env \<Rightarrow> component \<Rightarrow> ('d, 'r, 'x) analyzer \<Rightarrow> ('d, 'r, 'x) analyzer option" where
  "visit_component E (WtoLabel l) st = process_node E l st"
| "visit_component E (WtoCycle cs) st = process_cycle E cs (map (\<lambda>c. (c, visit_component E c)) cs) st"

fun visit_components ::
  "('d, 'r, 'x) analysis_env \<Rightarrow> component list \<Rightarrow> ('d, 'r, 'x) analyzer \<Rightarrow> ('d, 'r, 'x) analyzer option" where
  "visit_components E [] st = Some st"
| "visit_components E (c # cs) st = do { st1 \<leftarrow> visit_component E c st; visit_components E cs st1 }"

subsection \<open>Loop bounds and call depth\<close>

definition check_loop_bound ::
  "('d, 'r, 'x) analysis_env \<Rightarrow> label \<Rightarrow> 'd \<Rightarrow> 'r \<Rightarrow> (verification_error option \<times> 'r) option" where
  "check_loop_bound E l pre r =
     do { ins \<leftarrow> instruction_at (env_prog E) l;
          if is_loop_counter ins
          then do { as \<leftarrow> assertions_at (env_prog E) l;
                    assert_that (length as = 1);
                    d_check (dom_ops E) pre (hd as) l r }
          else Some (None, r) }"

fun termination_errors ::
  "('d, 'r, 'x) analysis_env \<Rightarrow> label list \<Rightarrow> ('d, 'r, 'x) analyzer \<Rightarrow> ('d, 'r, 'x) analyzer option" where
  "termination_errors E [] st = Some st"
| "termination_errors E (l # ls) st =
     do { p \<leftarrow> map_of (invariants st) l;
          (e, r) \<leftarrow> check_loop_bound E l (inv_pre p) (registry st);
          let st1 = st\<lparr>registry := r\<rparr>;
          termination_errors E ls (case e of None \<Rightarrow> st1 | Some e \<Rightarrow> set_error l e st1) }"

definition find_termination_errors ::
  "('d, 'r, 'x) analysis_env \<Rightarrow> ('d, 'r, 'x) analyzer \<Rightarrow> ('d, 'r, 'x) analyzer option" where
  "find_termination_errors E st =
     termination_errors E
       (map fst (filter (\<lambda>p. \<not> d_is_bottom (dom_ops E) (inv_pre (snd p))) (invariants st))) st"

fun max_bound ::
  "('d, 'r, 'x) domain_ops \<Rightarrow> (label \<times> ('d, 'x) invariant_pair) list \<Rightarrow> extended_number \<Rightarrow> 'r \<Rightarrow>
    (extended_number \<times> 'r) option" where
  "max_bound D [] m r = Some (m, r)"
| "max_bound D ((l, p) # ps) m r =
     do { (ub, r1) \<leftarrow> d_loop_bound D (inv_post p) r; max_bound D ps (if m < ub then ub else m) r1 }"

definition clamp_loop_count :: "extended_number \<Rightarrow> int" where
  "clamp_loop_count m =
     (case ext_number m of
        None \<Rightarrow> 2 ^ 31 - 1
      | Some n \<Rightarrow>
        (case num_to_i64 n of
           None \<Rightarrow> 2 ^ 31 - 1
         | Some v \<Rightarrow> if - (2 ^ 31) \<le> v \<and> v \<le> 2 ^ 31 - 1 then v else 2 ^ 31 - 1))"

text \<open>The depth-first search over the graph; the worklist holds its top first.\<close>

function call_depth_loop :: "cfg \<Rightarrow> label list \<Rightarrow> label bset \<Rightarrow> int \<Rightarrow> int option" where
  "call_depth_loop g [] visited m = Some m"
| "call_depth_loop g (l # work) visited m =
     (if l \<in> set visited then call_depth_loop g work visited m
      else (case children_of g l of
          None \<Rightarrow> None
        | Some cs \<Rightarrow>
          call_depth_loop g (rev cs @ work) (bs_insert l visited) (max m (call_stack_depth l - 1))))"
  by pat_completeness auto
termination
proof (relation "(\<lambda>(g, work, visited, m). card (set (cfg_labels g) - set visited)) <*mlex*>
    measure (\<lambda>(g, work, visited, m). length work)")
  show "wf ((\<lambda>(g, work, visited, m). card (set (cfg_labels g) - set visited)) <*mlex*>
    measure (\<lambda>(g, work, visited, m). length work))" by (intro wf_mlex) simp
  show "((g, work, visited, m), g, l # work, visited, m)
      \<in> (\<lambda>(g, work, visited, m). card (set (cfg_labels g) - set visited)) <*mlex*>
        measure (\<lambda>(g, work, visited, m). length work)"
    if "l \<in> set visited" for g l work visited and m :: int
    by (rule mlex_leq) simp_all
  fix g l work visited cs and m :: int
  assume "l \<notin> set visited" "children_of g l = Some cs"
  moreover from this(2) have "l \<in> set (cfg_labels g)"
    by (auto simp: children_of_def get_node_def cfg_labels_def dest: map_of_SomeD intro: image_eqI [rotated])
  ultimately have "set (cfg_labels g) - set (bs_insert l visited) \<subset> set (cfg_labels g) - set visited" by auto
  then have "card (set (cfg_labels g) - set (bs_insert l visited)) < card (set (cfg_labels g) - set visited)"
    by (intro psubset_card_mono) auto
  then show "((g, rev cs @ work, bs_insert l visited, max m (call_stack_depth l - 1)), g, l # work, visited, m)
      \<in> (\<lambda>(g, work, visited, m). card (set (cfg_labels g) - set visited)) <*mlex*>
        measure (\<lambda>(g, work, visited, m). length work)"
    by (intro mlex_less) simp
qed

definition max_call_depth_of :: "cfg \<Rightarrow> int option" where
  "max_call_depth_of g = call_depth_loop g [label_entry] [] 0"

subsection \<open>The analysis\<close>

definition initial_pair :: "('d, 'r, 'x) domain_ops \<Rightarrow> ('d, 'x) invariant_pair" where
  "initial_pair D =
     \<lparr>inv_pre = d_bottom D, inv_error = None, inv_post = d_bottom D, inv_deps = None\<rparr>"

definition analyzer_new :: "('d, 'r, 'x) domain_ops \<Rightarrow> cfg \<Rightarrow> 'r \<Rightarrow> ('d, 'r, 'x) analyzer" where
  "analyzer_new D g r =
     \<lparr>invariants = map (\<lambda>l. (l, initial_pair D)) (cfg_labels g), failed = False, registry = r,
      skip = True\<rparr>"

fun init_counters ::
  "('d, 'r, 'x) domain_ops \<Rightarrow> label list \<Rightarrow> 'd \<Rightarrow> 'r \<Rightarrow> ('d \<times> 'r) option" where
  "init_counters D [] entry r = Some (entry, r)"
| "init_counters D (l # ls) entry r =
     do { (entry1, r1) \<leftarrow> d_init_counter D entry l r; init_counters D ls entry1 r1 }"

definition entry_state ::
  "('d, 'r, 'x) analysis_env \<Rightarrow> bool \<Rightarrow> 'd \<Rightarrow> 'r \<Rightarrow> ('d \<times> 'r) option" where
  "entry_state E check_termination entry r =
     (if check_termination
      then do { hs \<leftarrow> wto_loop_heads (env_wto E); init_counters (dom_ops E) hs entry r }
      else Some (entry, r))"

definition loop_count ::
  "('d, 'r, 'x) analysis_env \<Rightarrow> ('d, 'r, 'x) analyzer \<Rightarrow> (int \<times> 'r) option" where
  "loop_count E st =
     do { (m, r) \<leftarrow> max_bound (dom_ops E) (invariants st) (Finite 0) (registry st);
          Some (clamp_loop_count m, r) }"

definition finish_analysis ::
  "('d, 'r, 'x) analysis_env \<Rightarrow> bool \<Rightarrow> int \<Rightarrow> ('d, 'r, 'x) analyzer \<Rightarrow> (('d, 'r, 'x) analysis_result \<times> 'r) option" where
  "finish_analysis E check_termination depth st =
     do { (count, st1) \<leftarrow>
            (if \<not> failed st \<and> check_termination
             then do { st1 \<leftarrow> find_termination_errors E st;
                       if failed st1 then Some (0, st1)
                       else do { (c, r) \<leftarrow> loop_count E st1; Some (c, st1\<lparr>registry := r\<rparr>) } }
             else Some (0, st));
          (ev, r) \<leftarrow> (case map_of (invariants st1) label_exit of
              Some p \<Rightarrow> d_r0 (dom_ops E) (inv_post p) (registry st1)
            | None \<Rightarrow> Some (itv_top, registry st1));
          Some (\<lparr>result_invariants = invariants st1, result_failed = failed st1, max_loop_count = count,
                 max_call_depth = depth, exit_value = ev\<rparr>, r) }"

text \<open>\<open>run\<close> with the ordering built from the graph of the program.\<close>

definition run_analysis ::
  "('d, 'r, 'x) analysis_env \<Rightarrow> bool \<Rightarrow> 'd \<Rightarrow> 'r \<Rightarrow> (('d, 'r, 'x) analysis_result \<times> 'r) option" where
  "run_analysis E check_termination entry r =
     do { depth \<leftarrow> max_call_depth_of (env_cfg E);
          (entry', r1) \<leftarrow> entry_state E check_termination entry r;
          let st = set_pre label_entry entry' (analyzer_new (dom_ops E) (env_cfg E) r1);
          st1 \<leftarrow> visit_components E (rev (wto_components (env_wto E))) st;
          finish_analysis E check_termination depth st1 }"

definition run_program ::
  "('d, 'r, 'x) domain_ops \<Rightarrow> program \<Rightarrow> bool \<Rightarrow> bool \<Rightarrow> 'd \<Rightarrow> 'r \<Rightarrow> (('d, 'r, 'x) analysis_result \<times> 'r) option" where
  "run_program D P deps check_termination entry r =
     do { w \<leftarrow> wto_new (prog_cfg P);
          run_analysis \<lparr>dom_ops = D, env_prog = P, env_wto = w, collect_deps = deps\<rparr> check_termination entry r }"

end
