(* ===== verification/Fwd_Soundness.thy ===== *)
theory Fwd_Soundness
  imports Fwd_Analyzer
begin

text \<open>
  Soundness of the fixpoint iteration of \<open>src/fwd_analyzer.rs\<close>.  An abstract domain is sound
  when its operations over-approximate sets of concrete states (the locale \<open>sound_domain\<close>); the
  laws ask nothing of widening and of the extrapolating join, and no monotonicity: the iterator
  rests on its inclusion test only.  Every visit of a component then computes invariants that
  contain all states the component can reach from its inputs, and the run contains all states
  the program can reach.
\<close>

subsection \<open>What a step of the iterator leaves alone\<close>

definition analyzer_ok :: "('d, 'r, 'x) analyzer \<Rightarrow> bool" where
  "analyzer_ok st \<longleftrightarrow> bt_ok (invariants st) \<and>
     (\<forall>l p. map_of (invariants st) l = Some p \<longrightarrow> inv_error p \<noteq> None \<longrightarrow> failed st)"

definition frame :: "label set \<Rightarrow> ('d, 'r, 'x) analyzer \<Rightarrow> ('d, 'r, 'x) analyzer \<Rightarrow> bool" where
  "frame C st st' \<longleftrightarrow> analyzer_ok st' \<and> dom (map_of (invariants st')) = dom (map_of (invariants st)) \<and>
     (\<forall>l. l \<notin> C \<longrightarrow> map_of (invariants st') l = map_of (invariants st) l) \<and>
     (failed st \<longrightarrow> failed st') \<and> skip st' = skip st \<and> (\<forall>l. has_error l st \<longrightarrow> has_error l st') \<and>
     (C \<subseteq> dom (map_of (invariants st)) \<longrightarrow> failed st' \<longrightarrow> failed st \<or> (\<exists>l. has_error l st'))"

lemma frame_refl: "analyzer_ok st \<Longrightarrow> frame C st st"
  by (simp add: frame_def)

lemma frame_trans: "frame C st st1 \<Longrightarrow> frame C st1 st2 \<Longrightarrow> frame C st st2"
  by (simp add: frame_def) blast

lemma frame_mono: "frame C st st' \<Longrightarrow> C \<subseteq> C' \<Longrightarrow> frame C' st st'"
  by (auto simp: frame_def)

lemma frame_ok: "frame C st st' \<Longrightarrow> analyzer_ok st'"
  by (simp add: frame_def)

lemma frame_chain: "frame C st st1 \<Longrightarrow> (analyzer_ok st1 \<Longrightarrow> frame C st1 st2) \<Longrightarrow> frame C st st2"
  using frame_trans frame_ok by blast

lemma frame_registry: "analyzer_ok st \<Longrightarrow> frame C st (st\<lparr>registry := r\<rparr>)"
  by (simp add: frame_def analyzer_ok_def has_error_def)

lemma frame_update_pair:
  assumes "analyzer_ok st" "\<forall>p. inv_error (f p) = inv_error p"
  shows "frame {l} st (update_pair l f st)"
proof (cases "map_of (invariants st) l")
  case None
  then show ?thesis using assms(1) by (simp add: update_pair_def frame_refl)
next
  case (Some p)
  then have m: "map_of (invariants (update_pair l f st)) = (map_of (invariants st))(l \<mapsto> f p)"
    and e: "bt_ok (invariants (update_pair l f st))" "failed (update_pair l f st) = failed st"
      "skip (update_pair l f st) = skip st"
    using assms(1) by (simp_all add: update_pair_def analyzer_ok_def)
  have "analyzer_ok (update_pair l f st)"
    using assms Some e(1) unfolding analyzer_ok_def m e(2) by (auto split: if_splits)
  moreover have "has_error k (update_pair l f st) = has_error k st" for k
    using assms(2) Some by (simp add: has_error_def m)
  ultimately show ?thesis unfolding frame_def m e(2,3) using Some by auto
qed

lemma frame_set_error:
  assumes ok: "analyzer_ok st"
  shows "frame {l} st (set_error l e st)" "failed (set_error l e st)"
proof -
  show f: "failed (set_error l e st)" by (simp add: set_error_def update_pair_def split: option.splits)
  show "frame {l} st (set_error l e st)"
  proof (cases "map_of (invariants st) l")
    case None
    then have "set_error l e st = st\<lparr>failed := True\<rparr>" by (simp add: set_error_def update_pair_def)
    then show ?thesis using ok None by (simp add: frame_def analyzer_ok_def has_error_def domIff)
  next
    case (Some p)
    then have m: "invariants (set_error l e st) = bt_insert l (p\<lparr>inv_error := Some e\<rparr>) (invariants st)"
      and k: "skip (set_error l e st) = skip st"
      by (simp_all add: set_error_def update_pair_def)
    have "has_error k (set_error l e st) \<longleftrightarrow> k = l \<or> has_error k st" for k
      using ok by (auto simp: has_error_def m analyzer_ok_def)
    then show ?thesis using ok Some unfolding frame_def analyzer_ok_def m k by (auto simp: f)
  qed
qed

lemma frame_set_pre: "analyzer_ok st \<Longrightarrow> frame {l} st (set_pre l v st)"
  unfolding set_pre_def by (rule frame_update_pair) simp_all

text \<open>The checker and the transformer also leave the pre-states alone.\<close>

definition pframe :: "label \<Rightarrow> ('d, 'r, 'x) analyzer \<Rightarrow> ('d, 'r, 'x) analyzer \<Rightarrow> bool" where
  "pframe l st st' \<longleftrightarrow> frame {l} st st' \<and>
     (\<forall>k. map_option inv_pre (map_of (invariants st') k) = map_option inv_pre (map_of (invariants st) k))"

lemma pframe_refl: "analyzer_ok st \<Longrightarrow> pframe l st st"
  by (simp add: pframe_def frame_refl)

lemma pframe_chain: "pframe l st st1 \<Longrightarrow> (analyzer_ok st1 \<Longrightarrow> pframe l st1 st2) \<Longrightarrow> pframe l st st2"
  using frame_trans frame_ok unfolding pframe_def by metis

lemma pframe_ok: "pframe l st st' \<Longrightarrow> analyzer_ok st'"
  by (simp add: pframe_def frame_def)

lemma pframe_registry: "analyzer_ok st \<Longrightarrow> pframe l st (st\<lparr>registry := r\<rparr>)"
  by (simp add: pframe_def frame_registry)

lemma pframe_update_pair:
  assumes "analyzer_ok st" "\<forall>p. inv_error (f p) = inv_error p" "\<forall>p. inv_pre (f p) = inv_pre p"
  shows "pframe l st (update_pair l f st)"
  using assms(1,3) frame_update_pair [OF assms(1,2)]
  by (auto simp: pframe_def update_pair_def analyzer_ok_def split: option.splits)

lemma pframe_set_error: "analyzer_ok st \<Longrightarrow> pframe l st (set_error l e st)"
  using frame_set_error(1) [of st l e]
  by (auto simp: pframe_def set_error_def update_pair_def analyzer_ok_def split: option.splits)

lemma pframe_record_deps:
  assumes "analyzer_ok st" "record_deps E l ins pre st = Some st'"
  shows "pframe l st st'"
proof (cases "collect_deps E")
  case True
  then obtain x r where st': "st' = update_pair l (inv_deps_update (\<lambda>_. Some x)) (st\<lparr>registry := r\<rparr>)"
    using assms(2) by (auto simp: record_deps_def panic_simps)
  show ?thesis unfolding st'
    by (rule pframe_chain [OF pframe_registry [OF assms(1)]]) (rule pframe_update_pair, simp_all)
next
  case False
  then show ?thesis using assms by (simp add: record_deps_def pframe_refl)
qed

lemma pframe_transform_label:
  assumes "analyzer_ok st" "transform_label E l ins pre st = Some st'"
  shows "pframe l st st'"
proof -
  obtain res r where r: "st' = (case res of Inl e \<Rightarrow> set_error l (e\<lparr>ve_label := Some l\<rparr>) (st\<lparr>registry := r\<rparr>)
      | Inr post \<Rightarrow> update_pair l (inv_post_update (\<lambda>_. post)) (st\<lparr>registry := r\<rparr>))"
    using assms(2) by (auto simp: transform_label_def panic_simps Let_def)
  note f = pframe_registry [OF assms(1), of l r]
  show ?thesis
  proof (cases res)
    case (Inl e)
    then show ?thesis using r pframe_chain [OF f pframe_set_error] by simp
  next
    case (Inr post)
    then show ?thesis using r pframe_chain [OF f pframe_update_pair] by simp
  qed
qed

text \<open>The three ways through the checker and the transformer.\<close>

lemma transform_to_postE:
  assumes r: "transform_to_post E l pre st = Some st'" and ok: "analyzer_ok st"
  obtains (counter) ins st1 where "instruction_at (env_prog E) l = Some ins" "is_loop_counter ins"
      "pframe l st st1" "transform_label E l ins pre st1 = Some st'"
    | (erroneous) "pframe l st st'" "failed st'"
    | (checked) ins as st1 r where "instruction_at (env_prog E) l = Some ins" "\<not> is_loop_counter ins"
      "pframe l st st1" "assertions_at (env_prog E) l = Some as"
      "check_assertions (dom_ops E) pre l as (registry st1) = Some (None, r)"
      "transform_label E l ins pre (st1\<lparr>registry := r\<rparr>) = Some st'"
proof -
  obtain ins st1 where ins: "instruction_at (env_prog E) l = Some ins"
    and st1: "record_deps E l ins pre st = Some st1"
    and b: "(if is_loop_counter ins then transform_label E l ins pre st1
      else if has_error l st1 then Some st1
      else do { as \<leftarrow> assertions_at (env_prog E) l;
                (e, r) \<leftarrow> check_assertions (dom_ops E) pre l as (registry st1);
                let st2 = st1\<lparr>registry := r\<rparr>;
                (case e of Some e \<Rightarrow> Some (set_error l e st2) | None \<Rightarrow> transform_label E l ins pre st2) }) = Some st'"
    using r by (auto simp: transform_to_post_def panic_simps)
  note f1 = pframe_record_deps [OF ok st1]
  note ok1 = pframe_ok [OF f1]
  show thesis
  proof (cases "is_loop_counter ins")
    case True
    then show thesis using counter [OF ins] f1 b by simp
  next
    case nc: False
    show thesis
    proof (cases "has_error l st1")
      case True
      then have "failed st1" using ok1 by (auto simp: has_error_def analyzer_ok_def split: option.splits)
      then show thesis using erroneous f1 b nc True by simp
    next
      case False
      then obtain as e r where as: "assertions_at (env_prog E) l = Some as"
        and c: "check_assertions (dom_ops E) pre l as (registry st1) = Some (e, r)"
        and t: "(case e of Some e \<Rightarrow> Some (set_error l e (st1\<lparr>registry := r\<rparr>))
          | None \<Rightarrow> transform_label E l ins pre (st1\<lparr>registry := r\<rparr>)) = Some st'"
        using b nc by (auto simp: panic_simps Let_def)
      show thesis
      proof (cases e)
        case None
        then show thesis using checked [OF ins nc f1 as] c t by simp
      next
        case (Some x)
        then have st': "st' = set_error l x (st1\<lparr>registry := r\<rparr>)" using t by simp
        have okr: "analyzer_ok (st1\<lparr>registry := r\<rparr>)" by (rule pframe_ok [OF pframe_registry [OF ok1]])
        show thesis
          by (rule erroneous)
            (unfold st', rule pframe_chain [OF f1 pframe_chain [OF pframe_registry pframe_set_error]],
              simp_all add: frame_set_error(2) [OF okr])
      qed
    qed
  qed
qed

lemma pframe_transform_to_post:
  assumes ok: "analyzer_ok st" and r: "transform_to_post E l pre st = Some st'"
  shows "pframe l st st'"
  using r ok
proof (cases rule: transform_to_postE)
  case (counter ins st1)
  show ?thesis by (rule pframe_chain [OF counter(3) pframe_transform_label [OF _ counter(4)]])
next
  case (checked ins as st1 r)
  show ?thesis
    by (rule pframe_chain [OF checked(3) pframe_chain [OF pframe_registry pframe_transform_label [OF _ checked(6)]]])
qed

lemma frame_transform_to_post:
  "analyzer_ok st \<Longrightarrow> transform_to_post E l pre st = Some st' \<Longrightarrow> frame {l} st st'"
  by (drule (1) pframe_transform_to_post) (simp add: pframe_def)

lemma frame_join_all_prevs:
  assumes "analyzer_ok st" "join_all_prevs E l st = Some (d, st')"
  shows "frame {} st st'" "invariants st' = invariants st" "failed st' = failed st"
  using assms by (auto simp: join_all_prevs_def panic_simps intro: frame_refl frame_registry split: if_splits)

text \<open>The frame of a visit; \<open>frames C f\<close> says that \<open>f\<close> touches the nodes of \<open>C\<close> only.\<close>

definition frames :: "label set \<Rightarrow> (('d, 'r, 'x) analyzer \<Rightarrow> ('d, 'r, 'x) analyzer option) \<Rightarrow> bool" where
  "frames C f \<longleftrightarrow> (\<forall>st st'. f st = Some st' \<longrightarrow> analyzer_ok st \<longrightarrow> \<not> skip st \<longrightarrow> frame C st st')"

lemma framesD: "frames C f \<Longrightarrow> f st = Some st' \<Longrightarrow> analyzer_ok st \<Longrightarrow> \<not> skip st \<Longrightarrow> frame C st st'"
  by (simp add: frames_def)

lemma frame_skip: "frame C st st' \<Longrightarrow> \<not> skip st \<Longrightarrow> \<not> skip st'"
  by (simp add: frame_def)

lemma frames_process_node: "frames {l} (process_node E l)"
proof (unfold frames_def, intro allI impI)
  fix st st' :: "('a, 'b, 'c) analyzer"
  assume r: "process_node E l st = Some st'" and ok: "analyzer_ok st" "\<not> skip st"
  then obtain pre st2 where p: "join_all_prevs E l st = Some (pre, st2)"
    and t: "transform_to_post E l pre (set_pre l pre st2) = Some st'"
    by (auto simp: process_node_def panic_simps)
  have f1: "frame {l} st st2" by (rule frame_mono [OF frame_join_all_prevs(1) [OF ok(1) p]]) simp
  show "frame {l} st st'"
    by (rule frame_chain [OF frame_trans [OF f1 frame_set_pre [OF frame_ok [OF f1]]]])
      (rule frame_transform_to_post [OF _ t])
qed

lemma frames_visit_cycle_body:
  "\<forall>(c, f)\<in>set fs. c \<noteq> WtoLabel h \<longrightarrow> frames C f \<Longrightarrow> frames C (visit_cycle_body h fs)"
proof (induction fs)
  case Nil
  then show ?case by (simp add: frames_def frame_refl)
next
  case (Cons a fs)
  obtain c f where a: "a = (c, f)" by force
  note ih = Cons.IH [OF ballI, of]
  have F: "frames C (visit_cycle_body h fs)" using Cons by auto
  show ?case
  proof (cases "c = WtoLabel h")
    case True
    then show ?thesis using F a by (simp add: frames_def)
  next
    case False
    then have f: "frames C f" using Cons.prems a by auto
    show ?thesis unfolding frames_def
    proof (intro allI impI)
      fix st st' assume r: "visit_cycle_body h (a # fs) st = Some st'" "analyzer_ok st" "\<not> skip st"
      then obtain st1 where 1: "f st = Some st1" and 2: "visit_cycle_body h fs st1 = Some st'"
        using a False by (auto simp: panic_simps)
      note f1 = framesD [OF f 1 r(2,3)]
      show "frame C st st'"
        using f1 framesD [OF F 2 frame_ok [OF f1] frame_skip [OF f1 r(3)]] by (rule frame_trans)
    qed
  qed
qed

lemma frame_head_pass:
  assumes r: "head_pass E h body cur st = Some (d, st')" and b: "frames C body"
    and ok: "analyzer_ok st" "\<not> skip st"
  shows "frame (insert h C) st st'"
proof -
  obtain st1 st2 where 1: "transform_to_post E h cur st = Some st1" and 2: "body st1 = Some st2"
    and 3: "join_all_prevs E h st2 = Some (d, st')"
    using r by (auto simp: head_pass_def panic_simps)
  have f1: "frame (insert h C) st st1" by (rule frame_mono [OF frame_transform_to_post [OF ok(1) 1]]) simp
  have f2: "frame (insert h C) st1 st2"
    by (rule frame_mono [OF framesD [OF b 2 frame_ok [OF f1] frame_skip [OF f1 ok(2)]] subset_insertI])
  have f3: "frame (insert h C) st2 st'"
    by (rule frame_mono [OF frame_join_all_prevs(1) [OF frame_ok [OF f2] 3]]) simp
  show ?thesis by (rule frame_trans [OF frame_trans [OF f1 f2] f3])
qed

lemma frame_ascend:
  assumes "ascend E h body i cur st = Some (d, st')" "frames C body" "analyzer_ok st" "\<not> skip st"
  shows "frame (insert h C) st st'"
  using assms
proof (induction E h body i cur st rule: ascend.induct)
  case (1 E h body i cur st)
  have s: "frame (insert h C) st (set_pre h cur st)"
    by (rule frame_mono [OF frame_set_pre [OF 1(4)]]) simp
  obtain new st1 inc r where p: "head_pass E h body cur (set_pre h cur st) = Some (new, st1)"
    and i: "d_included (dom_ops E) new cur (registry st1) = Some (inc, r)" and lt: "\<not> i \<ge> 2 ^ 32 - 1"
    using 1(2) by (simp add: ascend.simps [of E h body i] split: if_splits option.splits prod.splits)
  have f1: "frame (insert h C) st st1"
    using frame_trans [OF s frame_head_pass [OF p 1(3) frame_ok [OF s] frame_skip [OF s 1(5)]]] .
  have f2: "frame (insert h C) st (st1\<lparr>registry := r\<rparr>)" for r
    by (rule frame_chain [OF f1 frame_registry])
  show ?case
  proof (cases inc)
    case True
    then have "st' = set_pre h new (st1\<lparr>registry := r\<rparr>)"
      using 1(2) p i lt by (auto simp: ascend.simps [of E h body i])
    then show ?thesis using frame_chain [OF f2 frame_mono [OF frame_set_pre]] by simp
  next
    case False
    then obtain cur' r' where e: "extrapolate (dom_ops E) cur new i r = Some (cur', r')"
      and rec: "ascend E h body (i + 1) cur' (st1\<lparr>registry := r'\<rparr>) = Some (d, st')"
      using 1(2) p i lt by (simp add: ascend.simps [of E h body i] split: option.splits prod.splits)
    have "frame (insert h C) (st1\<lparr>registry := r'\<rparr>) st'"
      using 1(1) [OF lt p refl i refl False e refl rec 1(3) frame_ok [OF f2] frame_skip [OF f2 1(5)]] .
    then show ?thesis by (rule frame_trans [OF f2])
  qed
qed

lemma frame_descend:
  assumes "descend E h body i cur st = Some st'" "frames C body" "analyzer_ok st" "\<not> skip st"
  shows "frame (insert h C) st st'"
  using assms
proof (induction E h body i cur st rule: descend.induct)
  case (1 E h body i cur st)
  obtain new st1 inc r where p: "head_pass E h body cur st = Some (new, st1)"
    and i: "d_included (dom_ops E) cur new (registry st1) = Some (inc, r)"
    using 1(2) by (simp add: descend.simps [of E h body i] split: option.splits prod.splits)
  note f1 = frame_head_pass [OF p 1(3-5)]
  have f2: "frame (insert h C) st (st1\<lparr>registry := r\<rparr>)" for r
    by (rule frame_chain [OF f1 frame_registry])
  show ?case
  proof (cases "inc \<or> i > DESCENDING_ITERATIONS")
    case True
    then have "st' = st1\<lparr>registry := r\<rparr>"
      using 1(2) p i by (simp add: descend.simps [of E h body i] split: if_splits)
    then show ?thesis using f2 by simp
  next
    case False
    then obtain new' fixed r' where e: "refine (dom_ops E) cur new i = Some new'"
      and x: "d_included (dom_ops E) cur new' r = Some (fixed, r')"
      and rec: "(if fixed then Some (set_pre h new' (st1\<lparr>registry := r'\<rparr>))
        else descend E h body (i + 1) new' (set_pre h new' (st1\<lparr>registry := r'\<rparr>))) = Some st'"
      using 1(2) p i by (simp add: descend.simps [of E h body i] Let_def split: option.splits prod.splits)
    have f3: "frame (insert h C) st (set_pre h new' (st1\<lparr>registry := r'\<rparr>))"
      by (rule frame_chain [OF f2 frame_mono [OF frame_set_pre]]) auto
    show ?thesis
    proof (cases fixed)
      case True
      then show ?thesis using rec f3 by simp
    next
      case nf: False
      have "frame (insert h C) (set_pre h new' (st1\<lparr>registry := r'\<rparr>)) st'"
        by (rule 1(1) [OF p refl i refl _ _ e x refl refl nf _ 1(3) frame_ok [OF f3] frame_skip [OF f3 1(5)]])
          (use False rec nf in simp_all)
      then show ?thesis by (rule frame_trans [OF f3])
    qed
  qed
qed

subsection \<open>Concrete executions\<close>

text \<open>\<open>step ins s\<close> is the set of states the instruction can lead to.  \<open>reach_in\<close> collects the states
  that reach the nodes of \<open>C\<close> from given inputs along the edges inside \<open>C\<close>.\<close>

definition post_states :: "(instruction \<Rightarrow> 's \<Rightarrow> 's set) \<Rightarrow> program \<Rightarrow> label \<Rightarrow> 's \<Rightarrow> 's set" where
  "post_states step P l s = (case instruction_at P l of None \<Rightarrow> {} | Some ins \<Rightarrow> step ins s)"

inductive reach_in ::
  "(label \<times> label) set \<Rightarrow> (label \<Rightarrow> 's \<Rightarrow> 's set) \<Rightarrow> label set \<Rightarrow> (label \<Rightarrow> 's set) \<Rightarrow> label \<Rightarrow> 's \<Rightarrow> bool"
  for edges post C inp where
  input: "n \<in> C \<Longrightarrow> s \<in> inp n \<Longrightarrow> reach_in edges post C inp n s"
| step: "reach_in edges post C inp p s \<Longrightarrow> t \<in> post p s \<Longrightarrow> (p, n) \<in> edges \<Longrightarrow> n \<in> C \<Longrightarrow>
    reach_in edges post C inp n t"

inductive_cases reach_inE: "reach_in edges post C inp n s"

definition asserted :: "(assertion \<Rightarrow> 's \<Rightarrow> bool) \<Rightarrow> program \<Rightarrow> label \<Rightarrow> 's \<Rightarrow> bool" where
  "asserted holds P l s \<longleftrightarrow>
     (\<forall>ins as. instruction_at P l = Some ins \<longrightarrow> \<not> is_loop_counter ins \<longrightarrow> assertions_at P l = Some as \<longrightarrow>
        (\<forall>a\<in>set as. holds a s))"

definition pre_set :: "('d \<Rightarrow> 's set) \<Rightarrow> ('d, 'r, 'x) analyzer \<Rightarrow> label \<Rightarrow> 's set" where
  "pre_set gamma st l = (case map_of (invariants st) l of None \<Rightarrow> {} | Some p \<Rightarrow> gamma (inv_pre p))"

definition post_set :: "('d \<Rightarrow> 's set) \<Rightarrow> ('d, 'r, 'x) analyzer \<Rightarrow> label \<Rightarrow> 's set" where
  "post_set gamma st l = (case map_of (invariants st) l of None \<Rightarrow> {} | Some p \<Rightarrow> gamma (inv_post p))"

lemma frame_sets:
  "frame C st st' \<Longrightarrow> l \<notin> C \<Longrightarrow> pre_set gamma st' l = pre_set gamma st l"
  "frame C st st' \<Longrightarrow> l \<notin> C \<Longrightarrow> post_set gamma st' l = post_set gamma st l"
  by (simp_all add: frame_def pre_set_def post_set_def)

text \<open>What the posts outside of \<open>C\<close> (or the entry state) send into a node.\<close>

definition inputs :: "('d \<Rightarrow> 's set) \<Rightarrow> cfg \<Rightarrow> label set \<Rightarrow> ('d, 'r, 'x) analyzer \<Rightarrow> label \<Rightarrow> 's set" where
  "inputs gamma g C st n =
     (if n = label_entry then pre_set gamma st n
      else (\<Union>p\<in>{p. (p, n) \<in> cfg_edges g \<and> p \<notin> C}. post_set gamma st p))"

lemma reach_in_node: "reach_in edges post C inp n s \<Longrightarrow> n \<in> C"
  by (induction rule: reach_in.induct)

lemma parents_of_edges:
  assumes "cfg_ok g" "parents_of g l = Some ps"
  shows "set ps = {p. (p, l) \<in> cfg_edges g}"
proof -
  have "cfg_edges g = cfg_back_edges g" using assms(1) by (simp add: cfg_ok_def)
  then show ?thesis using assms(2) by (auto simp: parents_of_def get_node_def cfg_back_edges_def)
qed

text \<open>A visit is sound on \<open>C\<close> when it covers, for every state that reaches a node of \<open>C\<close> from the
  inputs, the state itself, its successors and its assertions.\<close>

definition sound_at ::
  "('d \<Rightarrow> 's set) \<Rightarrow> (instruction \<Rightarrow> 's \<Rightarrow> 's set) \<Rightarrow> (assertion \<Rightarrow> 's \<Rightarrow> bool) \<Rightarrow> program \<Rightarrow>
    ('d, 'r, 'x) analyzer \<Rightarrow> label \<Rightarrow> 's \<Rightarrow> bool" where
  "sound_at gamma step holds P st n s \<longleftrightarrow>
     s \<in> pre_set gamma st n \<and> post_states step P n s \<subseteq> post_set gamma st n \<and> asserted holds P n s"

definition visit_sound ::
  "('d \<Rightarrow> 's set) \<Rightarrow> (instruction \<Rightarrow> 's \<Rightarrow> 's set) \<Rightarrow> (assertion \<Rightarrow> 's \<Rightarrow> bool) \<Rightarrow> program \<Rightarrow> label set \<Rightarrow>
    (('d, 'r, 'x) analyzer \<Rightarrow> ('d, 'r, 'x) analyzer option) \<Rightarrow> bool" where
  "visit_sound gamma step holds P C f \<longleftrightarrow> frames C f \<and>
     (\<forall>st st' n s. f st = Some st' \<longrightarrow> analyzer_ok st \<longrightarrow> \<not> skip st \<longrightarrow>
        dom (map_of (invariants st)) = dom (map_of (prog_cfg P)) \<longrightarrow> \<not> failed st' \<longrightarrow>
        reach_in (cfg_edges (prog_cfg P)) (post_states step P) C (inputs gamma (prog_cfg P) C st) n s \<longrightarrow>
        sound_at gamma step holds P st' n s)"

lemma visit_soundD:
  assumes "visit_sound gamma step holds P C f" "f st = Some st'" "analyzer_ok st" "\<not> skip st"
    "dom (map_of (invariants st)) = dom (map_of (prog_cfg P))" "\<not> failed st'"
    "reach_in (cfg_edges (prog_cfg P)) (post_states step P) C (inputs gamma (prog_cfg P) C st) n s"
  shows "sound_at gamma step holds P st' n s"
  using assms by (simp add: visit_sound_def)

lemma visit_sound_frames: "visit_sound gamma step holds P C f \<Longrightarrow> frames C f"
  by (simp add: visit_sound_def)

lemma sound_at_frame: "frame C st st' \<Longrightarrow> n \<notin> C \<Longrightarrow>
    sound_at gamma step holds P st' n s = sound_at gamma step holds P st n s"
  by (simp add: sound_at_def frame_sets)

text \<open>Visits one after the other.\<close>

fun visit_all :: "('s \<Rightarrow> 's option) list \<Rightarrow> 's \<Rightarrow> 's option" where
  "visit_all [] st = Some st"
| "visit_all (f # fs) st = do { st1 \<leftarrow> f st; visit_all fs st1 }"

lemma visit_all_append: "visit_all (fs @ gs) st = Option.bind (visit_all fs st) (visit_all gs)"
  by (induction fs st rule: visit_all.induct) (auto split: bind_splits)

lemma visit_all_single: "visit_all [f] = f"
  by (rule ext) (auto split: bind_splits)

lemma visit_cycle_body_all:
  "visit_cycle_body h fs = visit_all (map snd (filter (\<lambda>p. fst p \<noteq> WtoLabel h) fs))"
proof
  show "visit_cycle_body h fs st = visit_all (map snd (filter (\<lambda>p. fst p \<noteq> WtoLabel h) fs)) st" for st
    by (induction h fs st rule: visit_cycle_body.induct) (auto split: bind_splits)
qed

lemma visit_components_all: "visit_components E cs = visit_all (map (visit_component E) cs)"
proof
  show "visit_components E cs st = visit_all (map (visit_component E) cs) st" for st
    by (induction E cs st rule: visit_components.induct) (auto split: bind_splits)
qed

subsection \<open>Orderings the iteration can follow\<close>

text \<open>The conditions on a weak topological ordering: components are disjoint, an edge from a later
  component of a sequence never goes to an earlier one, and a plain node has no edge to itself.
  The lists are in the stored (reverse) order.\<close>

definition no_edges :: "cfg \<Rightarrow> label list \<Rightarrow> label list \<Rightarrow> bool" where
  "no_edges g as bs \<longleftrightarrow>
     list_all (\<lambda>a. case map_of g a of None \<Rightarrow> True
       | Some n \<Rightarrow> list_all (\<lambda>b. b \<notin> set (adj_children n)) bs) as"

lemma no_edges_iff: "no_edges g as bs \<longleftrightarrow> (\<forall>a\<in>set as. \<forall>b\<in>set bs. (a, b) \<notin> cfg_edges g)"
  by (auto simp: no_edges_def cfg_edges_def list_all_iff split: option.splits)

lemma size_butlast: "size_list size (butlast (cs :: component list)) \<le> size_list size cs"
  by (induction cs) auto

function component_ok :: "cfg \<Rightarrow> component \<Rightarrow> bool" and stored_ok :: "cfg \<Rightarrow> component list \<Rightarrow> bool" where
  "component_ok g (WtoLabel l) = no_edges g [l] [l]"
| "component_ok g (WtoCycle cs) =
     (case cycle_head cs of
        None \<Rightarrow> False
      | Some h \<Rightarrow> h \<notin> set (nodes_of (butlast cs)) \<and> stored_ok g (butlast cs))"
| "stored_ok g [] = True"
| "stored_ok g (c # cs) \<longleftrightarrow> component_ok g c \<and> stored_ok g cs \<and>
     list_all (\<lambda>l. l \<notin> set (nodes_of cs)) (component_nodes c) \<and> no_edges g (component_nodes c) (nodes_of cs)"
  by pat_completeness auto
termination
  by (relation "measure (case_sum (\<lambda>(g, c). size c) (\<lambda>(g, cs). size_list size cs))")
    (auto simp: le_imp_less_Suc size_butlast)

lemma stored_ok_component: "stored_ok g cs \<Longrightarrow> c \<in> set cs \<Longrightarrow> component_ok g c"
  by (induction cs) auto

lemma stored_ok_disjoint:
  "stored_ok g (bs @ cs) \<Longrightarrow> set (nodes_of bs) \<inter> set (nodes_of cs) = {}"
  by (induction bs) (auto simp: list_all_iff)

definition wto_ok :: "cfg \<Rightarrow> wto \<Rightarrow> bool" where
  "wto_ok g w \<longleftrightarrow> (let cs = wto_components w; ls = nodes_of cs in
     cs \<noteq> [] \<and> last cs = WtoLabel label_entry \<and> stored_ok g cs \<and>
     list_all (\<lambda>l. case map_of g l of None \<Rightarrow> False
       | Some n \<Rightarrow> list_all (\<lambda>k. k \<in> set ls) (adj_children n)) ls)"

lemma wto_ok_closed:
  assumes "wto_ok g w"
  shows "\<forall>l\<in>set (nodes_of (wto_components w)).
    \<exists>n. map_of g l = Some n \<and> set (adj_children n) \<subseteq> set (nodes_of (wto_components w))"
proof
  fix l
  let ?ls = "nodes_of (wto_components w)"
  assume l: "l \<in> set ?ls"
  have "list_all (\<lambda>l. case map_of g l of None \<Rightarrow> False
       | Some n \<Rightarrow> list_all (\<lambda>k. k \<in> set ?ls) (adj_children n)) ?ls"
    using assms unfolding wto_ok_def Let_def by blast
  then have "case map_of g l of None \<Rightarrow> False | Some n \<Rightarrow> list_all (\<lambda>k. k \<in> set ?ls) (adj_children n)"
    using l unfolding list_all_iff by blast
  then show "\<exists>n. map_of g l = Some n \<and> set (adj_children n) \<subseteq> set ?ls"
    by (cases "map_of g l") (simp_all add: list_all_iff subset_iff)
qed

subsection \<open>Sound domains\<close>

locale sound_domain =
  fixes D :: "('d, 'r, 'x) domain_ops"
    and gamma :: "'d \<Rightarrow> 's set"
    and step :: "instruction \<Rightarrow> 's \<Rightarrow> 's set"
    and holds :: "assertion \<Rightarrow> 's \<Rightarrow> bool"
  assumes is_bottom: "d_is_bottom D d \<Longrightarrow> gamma d = {}"
    and included: "d_included D a b r = Some (True, r') \<Longrightarrow> gamma a \<subseteq> gamma b"
    and join_assign: "d_join_assign D a b r = Some (c, r') \<Longrightarrow> gamma a \<union> gamma b \<subseteq> gamma c"
    and meet: "d_meet D a b = Some c \<Longrightarrow> gamma a \<inter> gamma b \<subseteq> gamma c"
    and narrow: "d_narrow D a b = Some c \<Longrightarrow> gamma a \<inter> gamma b \<subseteq> gamma c"
    and check: "d_check D d q l r = Some (None, r') \<Longrightarrow> s \<in> gamma d \<Longrightarrow> holds q s"
    and transform: "d_transform D d ins r = Some (Inr d', r') \<Longrightarrow> s \<in> gamma d \<Longrightarrow> step ins s \<subseteq> gamma d'"

context sound_domain
begin

lemma check_assertions_sound:
  "check_assertions D d l as r = Some (None, r') \<Longrightarrow> s \<in> gamma d \<Longrightarrow> \<forall>a\<in>set as. holds a s"
proof (induction as arbitrary: r)
  case (Cons a as)
  then obtain e r1 where 1: "d_check D d a l r = Some (e, r1)"
    and 2: "(case e of None \<Rightarrow> check_assertions D d l as r1 | Some e \<Rightarrow> Some (Some e, r1)) = Some (None, r')"
    by (auto simp: panic_simps)
  then show ?case using Cons check [OF _ Cons.prems(2)] by (cases e) auto
qed simp

lemma join_posts_sound:
  assumes "join_posts D m ps d r = Some (d', r')"
  shows "gamma d \<subseteq> gamma d' \<and> (\<forall>p\<in>set ps. \<forall>pair. map_of m p = Some pair \<longrightarrow> gamma (inv_post pair) \<subseteq> gamma d')"
  using assms
proof (induction ps arbitrary: d r)
  case (Cons p ps)
  show ?case
  proof (cases "map_of m p")
    case None
    then show ?thesis using Cons by auto
  next
    case (Some pair)
    then obtain d1 r1 where 1: "d_join_assign D d (inv_post pair) r = Some (d1, r1)"
      and 2: "join_posts D m ps d1 r1 = Some (d', r')"
      using Cons.prems by (auto simp: panic_simps)
    have "gamma d \<subseteq> gamma d'" "gamma (inv_post pair) \<subseteq> gamma d'"
      using join_assign [OF 1] Cons.IH [OF 2] by blast+
    then show ?thesis using Cons.IH [OF 2] Some by auto
  qed
qed simp

lemma join_all_prevs_sound:
  assumes g: "cfg_ok (env_cfg E)" and D: "dom_ops E = D"
    and r: "join_all_prevs E l st = Some (d, st')"
  shows "l = label_entry \<Longrightarrow> pre_set gamma st l \<subseteq> gamma d"
    and "l \<noteq> label_entry \<Longrightarrow> (p, l) \<in> cfg_edges (env_cfg E) \<Longrightarrow> post_set gamma st p \<subseteq> gamma d"
proof -
  show "pre_set gamma st l \<subseteq> gamma d" if "l = label_entry"
    using r that by (auto simp: join_all_prevs_def pre_set_def get_pre_def split: option.splits)
  assume l: "l \<noteq> label_entry" and e: "(p, l) \<in> cfg_edges (env_cfg E)"
  obtain ps r' where ps: "parents_of (env_cfg E) l = Some ps"
    and j: "join_posts D (invariants st) ps (d_bottom D) (registry st) = Some (d, r')"
    using r l D by (auto simp: join_all_prevs_def panic_simps)
  have "p \<in> set ps" using parents_of_edges [OF g ps] e by simp
  then show "post_set gamma st p \<subseteq> gamma d"
    using join_posts_sound [OF j] by (auto simp: post_set_def split: option.splits)
qed

lemma join_all_prevs_inputs:
  assumes "cfg_ok (env_cfg E)" "dom_ops E = D" "join_all_prevs E l st = Some (d, st')"
  shows "inputs gamma (env_cfg E) C st l \<subseteq> gamma d"
  using join_all_prevs_sound [OF assms] by (auto simp: inputs_def)

lemma transform_label_sound:
  assumes D: "dom_ops E = D" and ok: "analyzer_ok st" and l: "l \<in> dom (map_of (invariants st))"
    and r: "transform_label E l ins d st = Some st'" and nf: "\<not> failed st'" and s: "s \<in> gamma d"
  shows "step ins s \<subseteq> post_set gamma st' l"
proof -
  obtain res r1 where t: "d_transform D d ins (registry st) = Some (res, r1)"
    and e: "st' = (case res of Inl e \<Rightarrow> set_error l (e\<lparr>ve_label := Some l\<rparr>) (st\<lparr>registry := r1\<rparr>)
      | Inr post \<Rightarrow> update_pair l (inv_post_update (\<lambda>_. post)) (st\<lparr>registry := r1\<rparr>))"
    using r D by (auto simp: transform_label_def panic_simps Let_def)
  have okr: "analyzer_ok (st\<lparr>registry := r1\<rparr>)" using frame_ok [OF frame_registry [OF ok]] .
  show ?thesis
  proof (cases res)
    case (Inl x)
    then show ?thesis using e nf frame_set_error(2) [OF okr] by simp
  next
    case (Inr post)
    obtain p where p: "map_of (invariants st) l = Some p" using l by auto
    have "post_set gamma st' l = gamma post"
      using ok p by (simp add: e Inr update_pair_def post_set_def analyzer_ok_def)
    then show ?thesis using transform t s Inr by simp
  qed
qed

lemma pframe_pre_set: "pframe l st st' \<Longrightarrow> pre_set gamma st' k = pre_set gamma st k"
  unfolding pframe_def pre_set_def
  by (auto split: option.splits dest!: spec [of _ k])

lemma transform_to_post_sound:
  assumes D: "dom_ops E = D" and ok: "analyzer_ok st" and l: "l \<in> dom (map_of (invariants st))"
    and r: "transform_to_post E l d st = Some st'" and nf: "\<not> failed st'" and s: "s \<in> gamma d"
  shows "post_states step (env_prog E) l s \<subseteq> post_set gamma st' l \<and> asserted holds (env_prog E) l s"
  using r ok
proof (cases rule: transform_to_postE)
  case (counter ins st1)
  have "step ins s \<subseteq> post_set gamma st' l"
    using transform_label_sound [OF D pframe_ok [OF counter(3)] _ counter(4) nf s] l counter(3)
    by (simp add: pframe_def frame_def)
  then show ?thesis using counter by (simp add: post_states_def asserted_def)
next
  case erroneous
  then show ?thesis using nf by simp
next
  case (checked ins as st1 r1)
  have "step ins s \<subseteq> post_set gamma st' l"
    by (rule transform_label_sound [OF D pframe_ok [OF pframe_registry [OF pframe_ok [OF checked(3)]]] _ checked(6) nf s])
      (use l checked(3) in \<open>simp add: pframe_def frame_def\<close>)
  moreover have "\<forall>a\<in>set as. holds a s"
    using check_assertions_sound [OF checked(5) [unfolded D] s] .
  ultimately show ?thesis using checked by (simp add: post_states_def asserted_def)
qed

lemma visit_sound_node:
  assumes g: "cfg_ok (env_cfg E)" and D: "dom_ops E = D"
    and l: "l \<in> dom (map_of (env_cfg E))" and e: "(l, l) \<notin> cfg_edges (env_cfg E)"
  shows "visit_sound gamma step holds (env_prog E) {l} (process_node E l)"
  unfolding visit_sound_def
proof (intro conjI allI impI)
  show "frames {l} (process_node E l)" by (rule frames_process_node)
  fix st st' n s
  assume r: "process_node E l st = Some st'" and ok: "analyzer_ok st" "\<not> skip st"
    and dm: "dom (map_of (invariants st)) = dom (map_of (env_cfg E))" and nf: "\<not> failed st'"
    and s: "reach_in (cfg_edges (env_cfg E)) (post_states step (env_prog E)) {l} (inputs gamma (env_cfg E) {l} st) n s"
  obtain d st2 where p: "join_all_prevs E l st = Some (d, st2)"
    and t: "transform_to_post E l d (set_pre l d st2) = Some st'"
    using r ok by (auto simp: process_node_def panic_simps)
  have n: "n = l" using reach_in_node [OF s] by simp
  from s have "s \<in> inputs gamma (env_cfg E) {l} st n"
  proof (cases rule: reach_in.cases)
    case (step p s')
    then show ?thesis using reach_in_node [OF step(1)] e n by simp
  qed
  then have sd: "s \<in> gamma d" using join_all_prevs_inputs [OF g D p] n by blast
  have ok2: "analyzer_ok st2" "invariants st2 = invariants st"
    using frame_join_all_prevs [OF ok(1) p] frame_ok by blast+
  have ok3: "analyzer_ok (set_pre l d st2)" by (rule frame_ok [OF frame_set_pre [OF ok2(1)]])
  obtain q where q: "map_of (invariants st2) l = Some q" using dm l ok2(2) by auto
  have "pre_set gamma (set_pre l d st2) l = gamma d"
    using ok2(1) q by (simp add: set_pre_def update_pair_def pre_set_def analyzer_ok_def)
  then have "s \<in> pre_set gamma st' l"
    using pframe_pre_set [OF pframe_transform_to_post [OF ok3 t]] sd by blast
  moreover have "l \<in> dom (map_of (invariants (set_pre l d st2)))"
    using frame_set_pre [OF ok2(1)] q unfolding frame_def by blast
  ultimately show "sound_at gamma step holds (env_prog E) st' n s"
    using transform_to_post_sound [OF D ok3 _ t nf sd] n by (simp add: sound_at_def)
qed

text \<open>Visits in sequence, without edges from the later part to the earlier one.\<close>

lemma visit_sound_seq:
  assumes g: "cfg_ok (prog_cfg P)"
    and A: "visit_sound gamma step holds P A f" and B: "visit_sound gamma step holds P B f'"
    and dis: "A \<inter> B = {}" and nb: "\<forall>b\<in>B. \<forall>a\<in>A. (b, a) \<notin> cfg_edges (prog_cfg P)"
  shows "visit_sound gamma step holds P (A \<union> B) (\<lambda>st. Option.bind (f st) f')"
  unfolding visit_sound_def
proof (intro conjI allI impI)
  let ?e = "cfg_edges (prog_cfg P)" and ?post = "post_states step P"
  note fA = visit_sound_frames [OF A] and fB = visit_sound_frames [OF B]
  have fr: "frame A st st1 \<and> frame B st1 st'"
    if "f st = Some st1" "f' st1 = Some st'" "analyzer_ok st" "\<not> skip st" for st st1 st'
    using framesD [OF fA that(1,3,4)] framesD [OF fB that(2)] frame_ok frame_skip that(4) by blast
  show "frames (A \<union> B) (\<lambda>st. Option.bind (f st) f')"
    unfolding frames_def
  proof (intro allI impI)
    fix st st' assume r: "Option.bind (f st) f' = Some st'" "analyzer_ok st" "\<not> skip st"
    then obtain st1 where "f st = Some st1" "f' st1 = Some st'" by (auto simp: panic_simps)
    then show "frame (A \<union> B) st st'"
      using fr r(2,3) frame_mono [of A st st1 "A \<union> B"] frame_mono [of B st1 st' "A \<union> B"] frame_trans by blast
  qed
  fix st st' n s
  assume r: "Option.bind (f st) f' = Some st'" and ok: "analyzer_ok st" "\<not> skip st"
    and dm: "dom (map_of (invariants st)) = dom (map_of (prog_cfg P))" and nf: "\<not> failed st'"
    and s: "reach_in ?e ?post (A \<union> B) (inputs gamma (prog_cfg P) (A \<union> B) st) n s"
  obtain st1 where 1: "f st = Some st1" and 2: "f' st1 = Some st'" using r by (auto simp: panic_simps)
  have F: "frame A st st1" "frame B st1 st'" using fr [OF 1 2 ok] by blast+
  have ok1: "analyzer_ok st1" "\<not> skip st1" "\<not> failed st1"
    "dom (map_of (invariants st1)) = dom (map_of (prog_cfg P))"
    using F ok dm nf by (auto simp: frame_def)
  have sA: "sound_at gamma step holds P st' n s"
    if "reach_in ?e ?post A (inputs gamma (prog_cfg P) A st) n s" for n s
  proof -
    have "sound_at gamma step holds P st1 n s"
      by (rule visit_soundD [OF A 1 ok dm ok1(3) that])
    moreover have "n \<notin> B" using reach_in_node [OF that] dis by blast
    ultimately show ?thesis by (simp add: sound_at_frame [OF F(2)])
  qed
  have sB: "sound_at gamma step holds P st' n s"
    if "reach_in ?e ?post B (inputs gamma (prog_cfg P) B st1) n s" for n s
    by (rule visit_soundD [OF B 2 ok1(1,2,4) nf that])
  have in_A: "inputs gamma (prog_cfg P) (A \<union> B) st a \<subseteq> inputs gamma (prog_cfg P) A st a" for a
    by (auto simp: inputs_def)
  have in_B: "inputs gamma (prog_cfg P) (A \<union> B) st b \<subseteq> inputs gamma (prog_cfg P) B st1 b" if b: "b \<in> B" for b
  proof -
    have "b \<notin> A" using dis b by blast
    then have "pre_set gamma st1 b = pre_set gamma st b" by (rule frame_sets(1) [OF F(1)])
    moreover have "post_set gamma st p = post_set gamma st1 p" if "p \<notin> A" for p
      by (rule frame_sets(2) [OF F(1) that, symmetric])
    ultimately show ?thesis by (auto simp: inputs_def)
  qed
  have "(n \<in> A \<longrightarrow> reach_in ?e ?post A (inputs gamma (prog_cfg P) A st) n s) \<and>
      (n \<in> B \<longrightarrow> reach_in ?e ?post B (inputs gamma (prog_cfg P) B st1) n s)"
    using s
  proof (induction rule: reach_in.induct)
    case (input n s)
    then show ?case using in_A in_B by (blast intro: reach_in.input)
  next
    case (step p s t n)
    have pn: "p \<in> A \<union> B" by (rule reach_in_node [OF step.hyps(1)])
    have "reach_in ?e ?post A (inputs gamma (prog_cfg P) A st) n t" if "n \<in> A"
    proof -
      have "p \<in> A" using nb pn that step.hyps(3) by blast
      then show ?thesis using reach_in.step [where post = ?post, OF _ step.hyps(2,3) that] step.IH by blast
    qed
    moreover have "reach_in ?e ?post B (inputs gamma (prog_cfg P) B st1) n t" if n: "n \<in> B"
    proof (cases "p \<in> B")
      case True
      then show ?thesis using reach_in.step [where post = ?post, OF _ step.hyps(2,3) n] step.IH by blast
    next
      case False
      then have p: "p \<in> A" "p \<notin> B" using pn by auto
      have "sound_at gamma step holds P st' p s" using sA step.IH p(1) by blast
      then have "t \<in> post_set gamma st1 p"
        using step.hyps(2) frame_sets(2) [OF F(2) p(2), of gamma] by (auto simp: sound_at_def)
      moreover have "n \<noteq> label_entry" using g step.hyps(3) by (auto simp: cfg_ok_def)
      ultimately have "t \<in> inputs gamma (prog_cfg P) B st1 n" using step.hyps(3) p(2) by (auto simp: inputs_def)
      then show ?thesis by (rule reach_in.input [OF n])
    qed
    ultimately show ?case by blast
  qed
  then show "sound_at gamma step holds P st' n s" using reach_in_node [OF s] sA sB by blast
qed

text \<open>One pass over a cycle covers the states that reach it, when the value given to the head
  either contains the value that flows back, or contains the states that reach the head.\<close>

lemma head_pass_sound:
  fixes st0 :: "('d, 'r, 'x) analyzer"
  assumes g: "cfg_ok (env_cfg E)" and D: "dom_ops E = D"
    and body: "visit_sound gamma step holds (env_prog E) B body"
    and h: "h \<noteq> label_entry" "h \<notin> B" "h \<in> dom (map_of (env_cfg E))" "label_entry \<notin> B"
    and r: "head_pass E h body cur st = Some (d, st')"
    and ok: "analyzer_ok st" "\<not> skip st" "dom (map_of (invariants st)) = dom (map_of (env_cfg E))"
    and nf: "\<not> failed st'" and F: "frame (insert h B) st0 st"
    and H: "gamma d \<subseteq> gamma cur \<or> (\<forall>s. reach_in (cfg_edges (env_cfg E)) (post_states step (env_prog E))
      (insert h B) (inputs gamma (env_cfg E) (insert h B) st0) h s \<longrightarrow> s \<in> gamma cur)"
    and s: "reach_in (cfg_edges (env_cfg E)) (post_states step (env_prog E))
      (insert h B) (inputs gamma (env_cfg E) (insert h B) st0) n s"
  shows "(if n = h then s \<in> gamma cur \<and> s \<in> gamma d else s \<in> pre_set gamma st' n) \<and>
    post_states step (env_prog E) n s \<subseteq> post_set gamma st' n \<and> asserted holds (env_prog E) n s"
proof -
  let ?e = "cfg_edges (env_cfg E)" and ?post = "post_states step (env_prog E)"
  let ?I = "inputs gamma (env_cfg E) (insert h B) st0"
  let ?R = "reach_in ?e ?post (insert h B) ?I"
  obtain st1 st2 where t: "transform_to_post E h cur st = Some st1" and b: "body st1 = Some st2"
    and j: "join_all_prevs E h st2 = Some (d, st')"
    using r by (auto simp: head_pass_def panic_simps)
  have F1: "frame {h} st st1" by (rule frame_transform_to_post [OF ok(1) t])
  have ok1: "analyzer_ok st1" "\<not> skip st1" by (rule frame_ok [OF F1], rule frame_skip [OF F1 ok(2)])
  have F2: "frame B st1 st2" by (rule framesD [OF visit_sound_frames [OF body] b ok1])
  note J = frame_join_all_prevs [OF frame_ok [OF F2] j]
  have nf1: "\<not> failed st1" "\<not> failed st2" using nf J(3) F2 by (auto simp: frame_def)
  have dm1: "dom (map_of (invariants st1)) = dom (map_of (env_cfg E))" using F1 ok(3) by (simp add: frame_def)
  have same: "pre_set gamma st' k = pre_set gamma st2 k" "post_set gamma st' k = post_set gamma st2 k" for k
    using J(2) by (simp_all add: pre_set_def post_set_def)
  have head: "?post h s \<subseteq> post_set gamma st1 h \<and> asserted holds (env_prog E) h s" if "s \<in> gamma cur" for s
    by (rule transform_to_post_sound [OF D ok(1) _ t nf1(1) that]) (simp add: h(3) ok(3))
  have post_h: "post_set gamma st' h = post_set gamma st1 h"
    using same frame_sets(2) [OF F2 h(2), of gamma] by simp
  let ?Rh = "reach_in ?e ?post B (inputs gamma (env_cfg E) B st1)"
  have bodyS: "sound_at gamma step holds (env_prog E) st' n s" if "?Rh n s" for n s
    using visit_soundD [OF body b ok1 dm1 nf1(2) that] by (simp add: sound_at_def same)
  have par: "post_set gamma st' p \<subseteq> gamma d" if "(p, h) \<in> ?e" for p
    using join_all_prevs_sound(2) [OF g D j h(1) that] same by simp
  have out: "post_set gamma st1 p = post_set gamma st0 p" "post_set gamma st' p = post_set gamma st0 p"
    if "p \<notin> insert h B" for p
  proof -
    have p: "p \<notin> {h}" "p \<notin> B" using that by auto
    show "post_set gamma st1 p = post_set gamma st0 p"
      using frame_sets(2) [OF F that, of gamma] frame_sets(2) [OF F1 p(1), of gamma] by simp
    then show "post_set gamma st' p = post_set gamma st0 p"
      using same frame_sets(2) [OF F2 p(2), of gamma] by simp
  qed
  have key: "(n = h \<longrightarrow> s \<in> gamma cur \<and> s \<in> gamma d) \<and> (n \<noteq> h \<longrightarrow> ?Rh n s)"
    using s
  proof (induction rule: reach_in.induct)
    case (input n s)
    show ?case
    proof (cases "n = h")
      case True
      obtain p where "(p, h) \<in> ?e" "p \<notin> insert h B" "s \<in> post_set gamma st0 p"
        using input(2) h(1) True by (auto simp: inputs_def)
      then have "s \<in> gamma d" using par out(2) by blast
      moreover have "?R h s" using reach_in.input [where inp = ?I, OF input] True by simp
      ultimately show ?thesis using H True by blast
    next
      case False
      then have n: "n \<in> B" "n \<noteq> label_entry" using input(1) h(4) by auto
      obtain p where p: "(p, n) \<in> ?e" "p \<notin> insert h B" "s \<in> post_set gamma st0 p"
        using input(2) n(2) by (auto simp: inputs_def)
      then have "s \<in> inputs gamma (env_cfg E) B st1 n" using out(1) [OF p(2)] n(2) by (auto simp: inputs_def)
      then show ?thesis using reach_in.input [where inp = "inputs gamma (env_cfg E) B st1", OF n(1)] False by blast
    qed
  next
    case (step p s t n)
    have p: "p = h \<or> p \<in> B" "p \<noteq> h \<Longrightarrow> p \<in> B" using reach_in_node [OF step.hyps(1)] by auto
    have tp: "t \<in> post_set gamma st' p"
    proof (cases "p = h")
      case True
      then show ?thesis using step.IH step.hyps(2) head post_h by blast
    next
      case False
      then show ?thesis using step.IH step.hyps(2) bodyS unfolding sound_at_def by blast
    qed
    show ?case
    proof (cases "n = h")
      case True
      then have "t \<in> gamma d" using par tp step.hyps(3) by blast
      moreover have "?R h t" using reach_in.step [where post = ?post, OF step.hyps] True by simp
      ultimately show ?thesis using H True by blast
    next
      case False
      then have n: "n \<in> B" "n \<noteq> label_entry" using step.hyps(4) h(4) by auto
      have "?Rh n t"
      proof (cases "p = h")
        case True
        then have "t \<in> inputs gamma (env_cfg E) B st1 n"
          using tp post_h step.hyps(3) n(2) h(2) by (auto simp: inputs_def)
        then show ?thesis by (rule reach_in.input [where inp = "inputs gamma (env_cfg E) B st1", OF n(1)])
      next
        case False
        then show ?thesis using reach_in.step [where post = ?post, OF _ step.hyps(2,3) n(1)] step.IH by blast
      qed
      then show ?thesis using False by blast
    qed
  qed
  show ?thesis
  proof (cases "n = h")
    case True
    then show ?thesis using key head [of s] post_h by simp
  next
    case False
    then show ?thesis using bodyS [of n s] key by (simp add: sound_at_def)
  qed
qed

lemma head_pass_keeps_pre:
  assumes r: "head_pass E h body cur st = Some (d, st')" and b: "frames B body" and h: "h \<notin> B"
    and ok: "analyzer_ok st" "\<not> skip st"
  shows "pre_set gamma st' h = pre_set gamma st h"
proof -
  obtain st1 st2 where t: "transform_to_post E h cur st = Some st1" and b2: "body st1 = Some st2"
    and j: "join_all_prevs E h st2 = Some (d, st')"
    using r by (auto simp: head_pass_def panic_simps)
  have F1: "pframe h st st1" by (rule pframe_transform_to_post [OF ok(1) t])
  have F: "frame {h} st st1" using F1 by (simp add: pframe_def)
  have F2: "frame B st1 st2" by (rule framesD [OF b b2 frame_ok [OF F] frame_skip [OF F ok(2)]])
  have "pre_set gamma st' h = pre_set gamma st2 h"
    using frame_join_all_prevs(2) [OF frame_ok [OF F2] j] by (simp add: pre_set_def)
  then show ?thesis using frame_sets(1) [OF F2 h, of gamma] pframe_pre_set [OF F1, of h] by simp
qed

lemma set_pre_set:
  assumes "analyzer_ok st" "h \<in> dom (map_of (invariants st))"
  shows "pre_set gamma (set_pre h d st) h = gamma d"
  using assms by (auto simp: set_pre_def update_pair_def pre_set_def analyzer_ok_def)

lemma set_pre_post_set:
  assumes "analyzer_ok st"
  shows "post_set gamma (set_pre h d st) k = post_set gamma st k"
  using assms by (auto simp: set_pre_def update_pair_def post_set_def analyzer_ok_def split: option.splits)

lemma ascend_sound:
  fixes st0 :: "('d, 'r, 'x) analyzer"
  assumes g: "cfg_ok (env_cfg E)" and D: "dom_ops E = D"
    and body: "visit_sound gamma step holds (env_prog E) B body"
    and h: "h \<noteq> label_entry" "h \<notin> B" "h \<in> dom (map_of (env_cfg E))" "label_entry \<notin> B"
    and r: "ascend E h body i cur st = Some (cur', st')"
    and ok: "analyzer_ok st" "\<not> skip st" "dom (map_of (invariants st)) = dom (map_of (env_cfg E))"
    and nf: "\<not> failed st'" and F: "frame (insert h B) st0 st"
  shows "(\<forall>s. reach_in (cfg_edges (env_cfg E)) (post_states step (env_prog E))
      (insert h B) (inputs gamma (env_cfg E) (insert h B) st0) h s \<longrightarrow> s \<in> gamma cur') \<and>
    pre_set gamma st' h = gamma cur'"
  using g D body h r ok nf F
proof (induction E h body i cur st rule: ascend.induct)
  case (1 E h body i cur st)
  note G = 1(2) and D = 1(3) and body = 1(4) and h = 1(5-8) and r = 1(9) and ok = 1(10-12)
    and nf = 1(13) and F = 1(14)
  have fs: "frame (insert h B) st (set_pre h cur st)"
    by (rule frame_mono [OF frame_set_pre [OF ok(1)]]) simp
  have oks: "analyzer_ok (set_pre h cur st)" "\<not> skip (set_pre h cur st)"
    "dom (map_of (invariants (set_pre h cur st))) = dom (map_of (env_cfg E))"
    using fs ok by (auto simp: frame_def)
  obtain new st1 inc r1 where p: "head_pass E h body cur (set_pre h cur st) = Some (new, st1)"
    and i: "d_included (dom_ops E) new cur (registry st1) = Some (inc, r1)" and lt: "\<not> i \<ge> 2 ^ 32 - 1"
    using r by (simp add: ascend.simps [of E h body i] split: if_splits option.splits prod.splits)
  have f1: "frame (insert h B) st st1"
    using frame_trans [OF fs frame_head_pass [OF p visit_sound_frames [OF body] oks(1,2)]] .
  have ok1: "analyzer_ok (st1\<lparr>registry := r\<rparr>)" "\<not> skip (st1\<lparr>registry := r\<rparr>)"
    "dom (map_of (invariants (st1\<lparr>registry := r\<rparr>))) = dom (map_of (env_cfg E))" for r
    using frame_ok [OF frame_registry [OF frame_ok [OF f1]]] f1 ok by (auto simp: frame_def)
  show ?case
  proof (cases inc)
    case True
    then have e: "cur' = new" "st' = set_pre h new (st1\<lparr>registry := r1\<rparr>)"
      using r p i lt by (auto simp: ascend.simps [of E h body i])
    have nf1: "\<not> failed st1" using nf frame_set_pre [OF ok1(1) [of r1], of h new] by (simp add: e frame_def)
    have sub: "gamma new \<subseteq> gamma cur" using included i True D by simp
    have "s \<in> gamma new" if "reach_in (cfg_edges (env_cfg E)) (post_states step (env_prog E))
        (insert h B) (inputs gamma (env_cfg E) (insert h B) st0) h s" for s
      using head_pass_sound [OF G D body h p oks nf1 frame_trans [OF F fs] disjI1 [OF sub] that]
      by simp
    then show ?thesis using set_pre_set [OF ok1(1)] ok1(3) h(3) e by simp
  next
    case False
    then obtain cur1 r' where e: "extrapolate (dom_ops E) cur new i r1 = Some (cur1, r')"
      and rec: "ascend E h body (i + 1) cur1 (st1\<lparr>registry := r'\<rparr>) = Some (cur', st')"
      using r p i lt by (simp add: ascend.simps [of E h body i] split: option.splits prod.splits)
    have "frame (insert h B) st0 (st1\<lparr>registry := r'\<rparr>)"
      by (rule frame_trans [OF frame_trans [OF F f1] frame_registry [OF frame_ok [OF f1]]])
    then show ?thesis
      by (rule 1(1) [OF lt p refl i refl False e refl G D body h rec ok1 nf])
  qed
qed

lemma descend_sound:
  fixes st0 :: "('d, 'r, 'x) analyzer"
  assumes g: "cfg_ok (env_cfg E)" and D: "dom_ops E = D"
    and body: "visit_sound gamma step holds (env_prog E) B body"
    and h: "h \<noteq> label_entry" "h \<notin> B" "h \<in> dom (map_of (env_cfg E))" "label_entry \<notin> B"
    and r: "descend E h body i cur st = Some st'"
    and ok: "analyzer_ok st" "\<not> skip st" "dom (map_of (invariants st)) = dom (map_of (env_cfg E))"
    and nf: "\<not> failed st'" and F: "frame (insert h B) st0 st"
    and H: "\<forall>s. reach_in (cfg_edges (env_cfg E)) (post_states step (env_prog E))
      (insert h B) (inputs gamma (env_cfg E) (insert h B) st0) h s \<longrightarrow> s \<in> gamma cur"
    and pre: "pre_set gamma st h = gamma cur"
    and s: "reach_in (cfg_edges (env_cfg E)) (post_states step (env_prog E))
      (insert h B) (inputs gamma (env_cfg E) (insert h B) st0) n s"
  shows "sound_at gamma step holds (env_prog E) st' n s"
  using g D body h r ok nf F H pre s
proof (induction E h body i cur st rule: descend.induct)
  case (1 E h body i cur st)
  note G = 1(2) and D = 1(3) and body = 1(4) and h = 1(5-8) and r = 1(9) and ok = 1(10-12)
    and nf = 1(13) and F = 1(14) and H = 1(15) and pre = 1(16) and s = 1(17)
  let ?R = "reach_in (cfg_edges (env_cfg E)) (post_states step (env_prog E))
      (insert h B) (inputs gamma (env_cfg E) (insert h B) st0)"
  obtain new st1 inc r1 where p: "head_pass E h body cur st = Some (new, st1)"
    and i: "d_included (dom_ops E) cur new (registry st1) = Some (inc, r1)"
    using r by (simp add: descend.simps [of E h body i] split: option.splits prod.splits)
  note f1 = frame_head_pass [OF p visit_sound_frames [OF body] ok(1,2)]
  have ok1: "analyzer_ok (st1\<lparr>registry := r\<rparr>)" "\<not> skip (st1\<lparr>registry := r\<rparr>)"
    "dom (map_of (invariants (st1\<lparr>registry := r\<rparr>))) = dom (map_of (env_cfg E))" for r
    using frame_ok [OF frame_registry [OF frame_ok [OF f1]]] f1 ok by (auto simp: frame_def)
  have pass: "(if n = h then s \<in> gamma cur \<and> s \<in> gamma new else s \<in> pre_set gamma st1 n) \<and>
      post_states step (env_prog E) n s \<subseteq> post_set gamma st1 n \<and> asserted holds (env_prog E) n s"
    if "\<not> failed st1" "?R n s" for n s
    by (rule head_pass_sound [OF G D body h p ok that(1) F disjI2 [OF H] that(2)])
  have keep: "pre_set gamma st1 h = gamma cur"
    using head_pass_keeps_pre [OF p visit_sound_frames [OF body] h(2) ok(1,2)] pre by simp
  show ?case
  proof (cases "inc \<or> i > DESCENDING_ITERATIONS")
    case True
    then have e: "st' = st1\<lparr>registry := r1\<rparr>"
      using r p i by (simp add: descend.simps [of E h body i] split: if_splits)
    have "sound_at gamma step holds (env_prog E) st1 n s"
      using pass [OF _ s] nf e keep by (auto simp: sound_at_def split: if_splits)
    then show ?thesis by (simp add: e sound_at_def pre_set_def post_set_def)
  next
    case False
    then obtain new' fixed r' where e: "refine (dom_ops E) cur new i = Some new'"
      and x: "d_included (dom_ops E) cur new' r1 = Some (fixed, r')"
      and rec: "(if fixed then Some (set_pre h new' (st1\<lparr>registry := r'\<rparr>))
        else descend E h body (i + 1) new' (set_pre h new' (st1\<lparr>registry := r'\<rparr>))) = Some st'"
      using r p i by (simp add: descend.simps [of E h body i] Let_def split: option.splits prod.splits)
    let ?st = "set_pre h new' (st1\<lparr>registry := r'\<rparr>)"
    have f2: "frame {h} (st1\<lparr>registry := r'\<rparr>) ?st" by (rule frame_set_pre [OF ok1(1)])
    have ok2: "analyzer_ok ?st" "\<not> skip ?st" "dom (map_of (invariants ?st)) = dom (map_of (env_cfg E))"
      using f2 ok1 by (auto simp: frame_def)
    have pre2: "pre_set gamma ?st h = gamma new'"
      by (rule set_pre_set [OF ok1(1)]) (use ok1(3) h(3) in simp)
    have meets: "gamma cur \<inter> gamma new \<subseteq> gamma new'"
      using e D meet narrow unfolding refine_def by (metis (full_types))
    show ?thesis
    proof (cases fixed)
      case True
      then have st': "st' = ?st" using rec by simp
      have nf1: "\<not> failed st1" using nf f2 st' by (auto simp: frame_def)
      have "sound_at gamma step holds (env_prog E) ?st n s"
      proof (cases "n = h")
        case True
        have "post_set gamma ?st h = post_set gamma st1 h"
          using set_pre_post_set [OF ok1(1)] by (simp add: post_set_def)
        then show ?thesis using pass [OF nf1 s] True pre2 meets by (auto simp: sound_at_def)
      next
        case False
        then have "n \<notin> {h}" by simp
        then show ?thesis using pass [OF nf1 s] False frame_sets [OF f2, of n gamma]
          by (simp add: sound_at_def pre_set_def post_set_def)
      qed
      then show ?thesis by (simp add: st')
    next
      case nfx: False
      then have rec': "descend E h body (i + 1) new' ?st = Some st'" using rec by simp
      have "failed ?st \<longrightarrow> failed st'"
        using frame_descend [OF rec' visit_sound_frames [OF body] ok2(1,2)] by (simp add: frame_def)
      then have nf1: "\<not> failed st1" using nf f2 by (auto simp: frame_def)
      have H2: "\<forall>s. ?R h s \<longrightarrow> s \<in> gamma new'" using pass [OF nf1] meets by auto
      have F2: "frame (insert h B) st0 ?st"
        by (rule frame_trans [OF frame_trans [OF F f1]
              frame_trans [OF frame_registry [OF frame_ok [OF f1]] frame_mono [OF f2]]]) simp
      show ?thesis
        by (rule 1(1) [OF p refl i refl _ _ e x refl refl nfx G D body h rec' ok2 nf F2 H2 pre2 s])
          (use False in simp_all)
    qed
  qed
qed

lemma visit_sound_cycle:
  assumes g: "cfg_ok (env_cfg E)" and D: "dom_ops E = D"
    and body: "visit_sound gamma step holds (env_prog E) B (visit_cycle_body h (rev visits))"
    and h: "h \<noteq> label_entry" "h \<notin> B" "h \<in> dom (map_of (env_cfg E))" "label_entry \<notin> B"
    and cs: "cycle_head cs = Some h"
  shows "visit_sound gamma step holds (env_prog E) (insert h B) (process_cycle E cs visits)"
proof -
  let ?body = "visit_cycle_body h (rev visits)"
  have ex: "\<exists>cur st1 cur' st2. frame (insert h B) st st1 \<and> ascend E h ?body 1 cur st1 = Some (cur', st2) \<and>
      descend E h ?body 1 cur' st2 = Some st'"
    if r: "process_cycle E cs visits st = Some st'" and ok: "analyzer_ok st" "\<not> skip st" for st st'
  proof -
    obtain cur st1 cur' st2 where c: "cycle_entry E h False st = Some (cur, st1)"
      and a: "ascend E h ?body 1 cur st1 = Some (cur', st2)"
      and d: "descend E h ?body 1 cur' st2 = Some st'"
      using r ok(2) cs by (auto simp: process_cycle_def panic_simps Let_def)
    obtain r1 where "st1 = st\<lparr>registry := r1\<rparr>" using c by (auto simp: cycle_entry_def panic_simps)
    then show ?thesis using a d frame_registry [OF ok(1)] by blast
  qed
  have fr: "frame (insert h B) st st' \<and> frame (insert h B) st st2"
    if "frame (insert h B) st st1" "ascend E h ?body 1 cur st1 = Some (cur', st2)"
      "descend E h ?body 1 cur' st2 = Some st'" "analyzer_ok st" "\<not> skip st" for st st1 cur cur' st2 st'
  proof -
    note f1 = frame_ascend [OF that(2) visit_sound_frames [OF body] frame_ok [OF that(1)] frame_skip [OF that(1,5)]]
    note f2 = frame_descend [OF that(3) visit_sound_frames [OF body] frame_ok [OF f1]
        frame_skip [OF f1 frame_skip [OF that(1,5)]]]
    show ?thesis using frame_trans [OF that(1) f1] frame_trans [OF frame_trans [OF that(1) f1] f2] by blast
  qed
  show ?thesis unfolding visit_sound_def
  proof (intro conjI allI impI)
    show "frames (insert h B) (process_cycle E cs visits)"
      unfolding frames_def using ex fr by metis
    fix st st' n s
    assume r: "process_cycle E cs visits st = Some st'" and ok: "analyzer_ok st" "\<not> skip st"
      and dm: "dom (map_of (invariants st)) = dom (map_of (env_cfg E))" and nf: "\<not> failed st'"
      and s: "reach_in (cfg_edges (env_cfg E)) (post_states step (env_prog E)) (insert h B)
        (inputs gamma (env_cfg E) (insert h B) st) n s"
    obtain cur st1 cur' st2 where f: "frame (insert h B) st st1"
      and a: "ascend E h ?body 1 cur st1 = Some (cur', st2)"
      and d: "descend E h ?body 1 cur' st2 = Some st'"
      using ex [OF r ok] by blast
    have f2: "frame (insert h B) st st2" using fr [OF f a d ok] by blast
    have ok1: "analyzer_ok st1" "\<not> skip st1" "dom (map_of (invariants st1)) = dom (map_of (env_cfg E))"
      using f ok dm by (auto simp: frame_def)
    have ok2: "analyzer_ok st2" "\<not> skip st2" "dom (map_of (invariants st2)) = dom (map_of (env_cfg E))"
      using f2 ok dm by (auto simp: frame_def)
    have nf2: "\<not> failed st2"
      using frame_descend [OF d visit_sound_frames [OF body] ok2(1,2)] nf by (auto simp: frame_def)
    note A = ascend_sound [OF g D body h a ok1 nf2 f]
    show "sound_at gamma step holds (env_prog E) st' n s"
      by (rule descend_sound [OF g D body h d ok2 nf f2 conjunct1 [OF A] conjunct2 [OF A] s])
  qed
qed

lemma visit_sound_empty: "visit_sound gamma step holds P {} Some"
  by (auto simp: visit_sound_def frames_def frame_refl dest: reach_in_node)

lemma visit_sound_stored:
  assumes g: "cfg_ok (prog_cfg P)"
  shows "stored_ok (prog_cfg P) cs \<Longrightarrow>
    \<forall>c\<in>set cs. visit_sound gamma step holds P (set (component_nodes c)) (visit c) \<Longrightarrow>
    visit_sound gamma step holds P (set (nodes_of cs)) (visit_all (rev (map visit cs)))"
proof (induction cs)
  case Nil
  have "visit_all [] = (Some :: ('d, 'r, 'x) analyzer \<Rightarrow> _)" by (rule ext) simp
  then show ?case using visit_sound_empty by simp
next
  case (Cons c cs)
  let ?f = "visit_all (rev (map visit cs))"
  have A: "visit_sound gamma step holds P (set (nodes_of cs)) ?f" using Cons by simp
  have B: "visit_sound gamma step holds P (set (component_nodes c)) (visit c)" using Cons.prems by simp
  have "set (nodes_of cs) \<inter> set (component_nodes c) = {}"
    using Cons.prems(1) by (auto simp: list_all_iff)
  moreover have "\<forall>b\<in>set (component_nodes c). \<forall>a\<in>set (nodes_of cs). (b, a) \<notin> cfg_edges (prog_cfg P)"
    using Cons.prems(1) unfolding stored_ok.simps no_edges_iff by blast
  ultimately have "visit_sound gamma step holds P (set (nodes_of cs) \<union> set (component_nodes c))
      (\<lambda>st. Option.bind (?f st) (visit c))"
    by (rule visit_sound_seq [OF g A B])
  moreover have "(\<lambda>st. Option.bind (?f st) (visit c)) = visit_all (rev (map visit (c # cs)))"
    by (rule ext) (simp add: visit_all_append visit_all_single)
  ultimately show ?case by (simp add: Un_commute)
qed

lemma visit_component_sound:
  assumes g: "cfg_ok (env_cfg E)" and D: "dom_ops E = D"
  shows "component_ok (env_cfg E) c \<Longrightarrow> set (component_nodes c) \<subseteq> dom (map_of (env_cfg E)) \<Longrightarrow>
    label_entry \<notin> set (component_nodes c) \<or> c = WtoLabel label_entry \<Longrightarrow>
    visit_sound gamma step holds (env_prog E) (set (component_nodes c)) (visit_component E c)"
proof (induction c)
  case (WtoLabel l)
  have "visit_component E (WtoLabel l) = process_node E l" by (rule ext) simp
  then show ?case using visit_sound_node [OF g D] WtoLabel by (simp add: no_edges_iff)
next
  case (WtoCycle cs)
  obtain h where h: "cycle_head cs = Some h" "h \<notin> set (nodes_of (butlast cs))"
    "stored_ok (env_cfg E) (butlast cs)"
    using WtoCycle.prems(1) by (auto split: option.splits)
  then obtain bs where cs: "cs = bs @ [WtoLabel h]" by (auto simp: cycle_head_Some)
  let ?B = "set (nodes_of bs)" and ?v = "map (\<lambda>c. (c, visit_component E c))"
  have ok: "stored_ok (env_cfg E) bs" "h \<notin> ?B" using h(2,3) cs by simp_all
  have nodes: "set (component_nodes (WtoCycle cs)) = insert h ?B" using cs by simp
  have en: "label_entry \<noteq> h" "label_entry \<notin> ?B" "h \<in> dom (map_of (env_cfg E))" "?B \<subseteq> dom (map_of (env_cfg E))"
    using WtoCycle.prems(2,3) unfolding nodes by auto
  have each: "visit_sound gamma step holds (env_prog E) (set (component_nodes c)) (visit_component E c)"
    if c: "c \<in> set bs" for c
  proof (rule WtoCycle.IH)
    have "set (component_nodes c) \<subseteq> ?B" using c by auto
    then show "set (component_nodes c) \<subseteq> dom (map_of (env_cfg E))"
      "label_entry \<notin> set (component_nodes c) \<or> c = WtoLabel label_entry" using en by blast+
    show "c \<in> set cs" using c cs by simp
    show "component_ok (env_cfg E) c" by (rule stored_ok_component [OF ok(1) c])
  qed
  have "visit_sound gamma step holds (env_prog E) ?B (visit_all (rev (map (visit_component E) bs)))"
    using visit_sound_stored [OF g ok(1)] each by blast
  moreover have "filter (\<lambda>c. c \<noteq> WtoLabel h) (rev bs) = rev bs"
    by (rule filter_True) (use ok(2) in force)
  then have "visit_cycle_body h (rev (?v cs)) = visit_all (rev (map (visit_component E) bs))"
    by (simp add: visit_cycle_body_all cs rev_map filter_map comp_def)
  ultimately have body: "visit_sound gamma step holds (env_prog E) ?B (visit_cycle_body h (rev (?v cs)))" by simp
  have "visit_component E (WtoCycle cs) = process_cycle E cs (?v cs)" by (rule ext) simp
  then show ?case unfolding nodes
    using visit_sound_cycle [OF g D body en(1) [symmetric] ok(2) en(3,2) h(1)] by simp
qed

text \<open>A visit of the whole ordering, from the entry on.\<close>

lemma visit_wto_sound:
  assumes g: "cfg_ok (env_cfg E)" and D: "dom_ops E = D" and w: "wto_ok (env_cfg E) (env_wto E)"
    and r: "visit_components E (rev (wto_components (env_wto E))) st = Some st'"
    and ok: "analyzer_ok st" "skip st" "dom (map_of (invariants st)) = dom (map_of (env_cfg E))"
  shows "frame (set (nodes_of (wto_components (env_wto E)))) (st\<lparr>skip := False\<rparr>) st'"
    and "\<not> failed st' \<Longrightarrow> reach_in (cfg_edges (env_cfg E)) (post_states step (env_prog E))
      UNIV (\<lambda>n. if n = label_entry then pre_set gamma st label_entry else {}) n s \<Longrightarrow>
      sound_at gamma step holds (env_prog E) st' n s"
proof -
  let ?cs = "wto_components (env_wto E)" and ?e = "cfg_edges (env_cfg E)"
  let ?post = "post_states step (env_prog E)" and ?W = "set (nodes_of (wto_components (env_wto E)))"
  let ?st = "st\<lparr>skip := False\<rparr>"
  obtain bs where cs: "?cs = bs @ [WtoLabel label_entry]" and st: "stored_ok (env_cfg E) ?cs"
    and closed: "\<forall>l\<in>?W. \<exists>n. map_of (env_cfg E) l = Some n \<and> set (adj_children n) \<subseteq> ?W"
  proof -
    have "?cs = butlast ?cs @ [WtoLabel label_entry]"
      using w append_butlast_last_id [of ?cs] by (simp add: wto_ok_def Let_def)
    moreover have "stored_ok (env_cfg E) ?cs" using w by (simp add: wto_ok_def Let_def)
    ultimately show thesis using that wto_ok_closed [OF w] by blast
  qed
  have W: "?W \<subseteq> dom (map_of (env_cfg E))" using closed by fastforce
  have entry: "label_entry \<notin> set (component_nodes c)" if "c \<in> set bs" for c
    using stored_ok_disjoint [OF st [unfolded cs]] that by auto
  have each: "visit_sound gamma step holds (env_prog E) (set (component_nodes c)) (visit_component E c)"
    if c: "c \<in> set ?cs" for c
  proof (rule visit_component_sound [OF g D])
    show "component_ok (env_cfg E) c" by (rule stored_ok_component [OF st c])
    have "set (component_nodes c) \<subseteq> ?W" using c by auto
    then show "set (component_nodes c) \<subseteq> dom (map_of (env_cfg E))" using W by blast
    show "label_entry \<notin> set (component_nodes c) \<or> c = WtoLabel label_entry"
      using entry [of c] c unfolding cs by auto
  qed
  have all: "visit_sound gamma step holds (env_prog E) ?W (visit_components E (rev ?cs))"
    unfolding visit_components_all rev_map [symmetric] using visit_sound_stored [OF g st] each by blast
  have "visit_components E (rev ?cs) st = visit_components E (rev ?cs) ?st"
    using ok(2) by (simp add: cs process_node_def Let_def)
  then have r': "visit_components E (rev ?cs) ?st = Some st'" using r by simp
  have ok': "analyzer_ok ?st" "\<not> skip ?st" "dom (map_of (invariants ?st)) = dom (map_of (env_cfg E))"
    using ok by (simp_all add: analyzer_ok_def)
  show "frame ?W ?st st'" by (rule framesD [OF visit_sound_frames [OF all] r' ok'(1,2)])
  assume nf: "\<not> failed st'"
  assume "reach_in ?e ?post UNIV (\<lambda>n. if n = label_entry then pre_set gamma st label_entry else {}) n s"
  then have "reach_in ?e ?post ?W (inputs gamma (env_cfg E) ?W ?st) n s"
  proof (induction rule: reach_in.induct)
    case (input n s)
    have "n \<in> ?W" using input(2) by (auto simp: cs split: if_splits)
    moreover have "s \<in> inputs gamma (env_cfg E) ?W ?st n"
      using input(2) by (auto simp: inputs_def pre_set_def split: if_splits)
    ultimately show ?case by (rule reach_in.input)
  next
    case (step p s t n)
    have "p \<in> ?W" by (rule reach_in_node [OF step.IH])
    then have "n \<in> ?W" using closed step.hyps(3) by (fastforce simp: cfg_edges_def)
    then show ?case by (rule reach_in.step [OF step.IH step.hyps(2,3)])
  qed
  then show "sound_at gamma step holds (env_prog E) st' n s"
    by (rule visit_soundD [OF all r' ok' nf])
qed

end

end
