(* ===== verification/Wto_Correct.thy ===== *)
theory Wto_Correct
  imports Wto_Search Fwd_Soundness
begin

text \<open>
  The ordering the iterative builder in \<open>src/cfg/wto.rs\<close> returns is a weak topological ordering of the
  graph.  The components a visit adds, resolved through the table of cycles, are laid out the way the
  iteration needs them, and building the final structure succeeds.
\<close>

subsection \<open>Resolving the table of cycles\<close>

type_synonym cycle_table = "(builder_component list \<times> nat option) list"

inductive resolves :: "cycle_table \<Rightarrow> nat \<Rightarrow> builder_component \<Rightarrow> component \<Rightarrow> bool" for T where
  res_label: "resolves T n (BLabel l) (WtoLabel l)"
| res_cycle: "n \<le> k \<Longrightarrow> k < length T \<Longrightarrow> list_all2 (resolves T (Suc k)) (fst (T ! k)) cs \<Longrightarrow>
    resolves T n (BCycleIdx k) (WtoCycle cs)"

inductive_cases resolves_labelE: "resolves T n (BLabel l) d"
inductive_cases resolves_cycleE: "resolves T n (BCycleIdx k) d"

lemma resolves_mono:
  assumes "resolves T n c d" "\<And>k. n \<le> k \<Longrightarrow> k < length T \<Longrightarrow> k < length T' \<and> fst (T' ! k) = fst (T ! k)" "m \<le> n"
  shows "resolves T' m c d"
  using assms
proof (induction arbitrary: m rule: resolves.induct)
  case (res_cycle n k cs)
  have "list_all2 (resolves T' (Suc k)) (fst (T ! k)) cs"
    by (rule list.rel_mono_strong [OF res_cycle(3)]) (use res_cycle(1,4) in auto)
  moreover have "k < length T' \<and> fst (T' ! k) = fst (T ! k)" using res_cycle(1,2,4) by blast
  ultimately show ?case using res_cycle(1,5) by (intro resolves.res_cycle) auto
qed (rule res_label)

lemma list_all2_functional:
  "list_all2 P xs ys \<Longrightarrow> list_all2 Q xs zs \<Longrightarrow> (\<And>x y z. P x y \<Longrightarrow> Q x z \<Longrightarrow> z = y) \<Longrightarrow> zs = ys"
  by (induction arbitrary: zs rule: list_all2_induct) (auto simp: list_all2_Cons1)

lemma resolves_unique: "resolves T n c d \<Longrightarrow> resolves T m c d' \<Longrightarrow> d' = d"
proof (induction arbitrary: m d' rule: resolves.induct)
  case (res_cycle n k cs)
  obtain cs' where d': "d' = WtoCycle cs'" "list_all2 (resolves T (Suc k)) (fst (T ! k)) cs'"
    using res_cycle(4) by (auto elim: resolves_cycleE)
  have "cs' = cs"
    by (rule list_all2_functional [OF res_cycle(3) d'(2)]) blast
  then show ?case using d'(1) by simp
qed (auto elim: resolves_labelE)

lemma resolves_all_unique: "list_all2 (resolves T n) cs ds \<Longrightarrow> list_all2 (resolves T m) cs ds' \<Longrightarrow> ds' = ds"
  by (rule list_all2_functional) (assumption+, rule resolves_unique)

lemma resolves_index: "list_all2 (resolves T n) cs ds \<Longrightarrow> BCycleIdx k \<in> set cs \<Longrightarrow> n \<le> k \<and> k < length T"
  by (induction rule: list_all2_induct) (auto elim: resolves_cycleE)

text \<open>The conversion of the table.\<close>

definition built_from :: "cycle_table \<Rightarrow> nat \<Rightarrow> component list list \<Rightarrow> bool" where
  "built_from T i built \<longleftrightarrow> length built = length T - i \<and>
     (\<forall>k. i \<le> k \<and> k < length T \<longrightarrow> list_all2 (resolves T (Suc k)) (fst (T ! k)) (built ! (k - i)))"

lemma convert_spec:
  assumes "built_from T i built" "\<And>k. BCycleIdx k \<in> set cs \<Longrightarrow> i \<le> k \<and> k < length T"
  shows "\<exists>ds. convert_components i built cs = Some ds \<and> list_all2 (resolves T i) cs ds"
  using assms(2)
proof (induction cs)
  case (Cons c cs)
  then obtain ds where ds: "convert_components i built cs = Some ds" "list_all2 (resolves T i) cs ds" by auto
  show ?case
  proof (cases c)
    case (BLabel l)
    then show ?thesis using ds by (auto intro: res_label)
  next
    case (BCycleIdx k)
    then have k: "i \<le> k" "k < length T" using Cons.prems by auto
    then have "nth_opt built (k - i) = Some (built ! (k - i))" using assms(1) by (auto simp: built_from_def nth_opt_def)
    moreover have "resolves T i (BCycleIdx k) (WtoCycle (built ! (k - i)))"
      by (rule res_cycle) (use k assms(1) in \<open>auto simp: built_from_def\<close>)
    ultimately show ?thesis using ds k BCycleIdx by auto
  qed
qed simp

lemma build_cycles_spec:
  assumes "\<And>j k. j < length T \<Longrightarrow> BCycleIdx k \<in> set (fst (T ! j)) \<Longrightarrow> j < k \<and> k < length T" "i \<le> length T"
  shows "\<exists>built. build_cycles i (drop i T) = Some built \<and> built_from T i built"
  using assms(2)
proof (induction "length T - i" arbitrary: i)
  case 0
  then show ?case by (auto simp: built_from_def)
next
  case (Suc n)
  then have i: "i < length T" by simp
  obtain built where b: "build_cycles (Suc i) (drop (Suc i) T) = Some built" "built_from T (Suc i) built"
    using Suc.hyps(1) [of "Suc i"] Suc.hyps(2) i by (metis Suc_diff_Suc Suc_inject Suc_leI)
  obtain cs where cs: "convert_components (Suc i) built (fst (T ! i)) = Some cs"
    "list_all2 (resolves T (Suc i)) (fst (T ! i)) cs"
    using convert_spec [OF b(2), of "fst (T ! i)"] assms(1) [OF i] by fastforce
  have "drop i T = T ! i # drop (Suc i) T" using i by (simp add: Cons_nth_drop_Suc)
  then have "build_cycles i (drop i T) = Some (cs # built)" using b(1) cs(1) by (cases "T ! i") simp
  moreover have "built_from T i (cs # built)"
    using b(2) cs(2) i by (auto simp: built_from_def nth_Cons' Suc_le_eq)
  ultimately show ?case by blast
qed

subsection \<open>Laying out components\<close>

lemma stored_ok_append:
  assumes "stored_ok g xs" "stored_ok g ys" "set (nodes_of xs) \<inter> set (nodes_of ys) = {}"
    "\<And>a c. (a, c) \<in> cfg_edges g \<Longrightarrow> a \<in> set (nodes_of xs) \<Longrightarrow> c \<notin> set (nodes_of ys)"
  shows "stored_ok g (xs @ ys)"
  using assms
proof (induction xs)
  case (Cons x xs)
  have x: "component_ok g x" "stored_ok g xs" "\<forall>l\<in>set (component_nodes x). l \<notin> set (nodes_of xs)"
    "\<forall>a\<in>set (component_nodes x). \<forall>c\<in>set (nodes_of xs). (a, c) \<notin> cfg_edges g"
    using Cons.prems(1) by (simp_all add: list_all_iff no_edges_iff)
  have n: "set (nodes_of (x # xs)) = set (component_nodes x) \<union> set (nodes_of xs)" by simp
  have "stored_ok g (xs @ ys)"
    by (rule Cons.IH [OF x(2) Cons.prems(2)]) (use Cons.prems(3,4) n in blast)+
  moreover have nn: "set (nodes_of (xs @ ys)) = set (nodes_of xs) \<union> set (nodes_of ys)" by simp
  moreover have "\<forall>l\<in>set (component_nodes x). l \<notin> set (nodes_of (xs @ ys))"
    unfolding nn using x(3) Cons.prems(3) n by blast
  moreover have "\<forall>a\<in>set (component_nodes x). \<forall>c\<in>set (nodes_of (xs @ ys)). (a, c) \<notin> cfg_edges g"
    unfolding nn using x(4) Cons.prems(4) n by blast
  ultimately show ?case using x(1) unfolding append_Cons stored_ok.simps list_all_iff no_edges_iff by blast
qed simp

text \<open>A finished cycle of the table: it ends in its head, which is recorded as contained in it, the cycles
  in it come later in the table, and the cycle around it comes earlier.\<close>

definition cycle_closed :: "builder \<Rightarrow> label set \<Rightarrow> nat \<Rightarrow> bool" where
  "cycle_closed b N j \<longleftrightarrow>
     (\<exists>body h. fst (b_cycles b ! j) = body @ [BLabel h] \<and> h \<in> N \<and> map_of (b_containing b) h = Some j) \<and>
     (\<forall>k. BCycleIdx k \<in> set (fst (b_cycles b ! j)) \<longrightarrow> j < k \<and> k < length (b_cycles b)) \<and>
     (\<forall>p. snd (b_cycles b ! j) = Some p \<longrightarrow> p < j)"

definition contained_ok :: "builder \<Rightarrow> bool" where
  "contained_ok b \<longleftrightarrow> bt_ok (b_containing b) \<and>
     (\<forall>l i. map_of (b_containing b) l = Some i \<longrightarrow> i < length (b_cycles b))"

definition composed ::
  "cfg \<Rightarrow> builder \<Rightarrow> nat option \<Rightarrow> builder \<Rightarrow> label set \<Rightarrow> builder_component list \<Rightarrow> component list \<Rightarrow> bool" where
  "composed g b t b' N newb cs \<longleftrightarrow> length (b_cycles b) \<le> length (b_cycles b') \<and> contained_ok b' \<and>
     b_top b' = b_top b @ (if t = None then newb else []) \<and>
     (\<forall>j<length (b_cycles b). b_cycles b' ! j =
       (fst (b_cycles b ! j) @ (if t = Some j then newb else []), snd (b_cycles b ! j))) \<and>
     (\<forall>j. length (b_cycles b) \<le> j \<longrightarrow> j < length (b_cycles b') \<longrightarrow> cycle_closed b' N j) \<and>
     list_all2 (resolves (b_cycles b') (length (b_cycles b))) newb cs \<and> stored_ok g cs \<and> set (nodes_of cs) = N \<and>
     (\<forall>l. l \<notin> N \<longrightarrow> map_of (b_containing b') l = map_of (b_containing b) l)"

lemma composedD:
  assumes "composed g b t b' N newb cs"
  shows "length (b_cycles b) \<le> length (b_cycles b')" "contained_ok b'"
    "b_top b' = b_top b @ (if t = None then newb else [])"
    "\<And>j. j < length (b_cycles b) \<Longrightarrow> b_cycles b' ! j =
       (fst (b_cycles b ! j) @ (if t = Some j then newb else []), snd (b_cycles b ! j))"
    "\<And>j. length (b_cycles b) \<le> j \<Longrightarrow> j < length (b_cycles b') \<Longrightarrow> cycle_closed b' N j"
    "list_all2 (resolves (b_cycles b') (length (b_cycles b))) newb cs" "stored_ok g cs" "set (nodes_of cs) = N"
    "\<And>l. l \<notin> N \<Longrightarrow> map_of (b_containing b') l = map_of (b_containing b) l"
  using assms unfolding composed_def by blast+

lemma composed_none: "contained_ok b \<Longrightarrow> composed g b t b {} [] []"
  by (simp add: composed_def)

text \<open>Only the components, the table and the containing cycles matter.\<close>

lemma composed_cong:
  assumes "composed g b t b' N newb cs"
    and "b_cycles c = b_cycles b" "b_top c = b_top b" "b_containing c = b_containing b"
    and "b_cycles c' = b_cycles b'" "b_top c' = b_top b'" "b_containing c' = b_containing b'"
  shows "composed g c t c' N newb cs"
  using assms(1) unfolding composed_def cycle_closed_def contained_ok_def assms(2-7) .

definition target_ok :: "builder \<Rightarrow> nat option \<Rightarrow> bool" where
  "target_ok b t \<longleftrightarrow> (\<forall>i. t = Some i \<longrightarrow> i < length (b_cycles b))"

lemma cycle_closed_mono:
  assumes "cycle_closed b N j" "N \<subseteq> N'" "b_cycles b' ! j = b_cycles b ! j" "length (b_cycles b) \<le> length (b_cycles b')"
    "\<And>h. h \<in> N \<Longrightarrow> map_of (b_containing b') h = map_of (b_containing b) h"
  shows "cycle_closed b' N' j"
proof -
  obtain body h where h: "fst (b_cycles b ! j) = body @ [BLabel h]" "h \<in> N" "map_of (b_containing b) h = Some j"
    using assms(1) unfolding cycle_closed_def by blast
  then have "\<exists>body h. fst (b_cycles b' ! j) = body @ [BLabel h] \<and> h \<in> N' \<and> map_of (b_containing b') h = Some j"
    using assms(2) assms(5) [OF h(2)] unfolding assms(3) by (intro exI [of _ body] exI [of _ h] conjI) (assumption, blast, simp)
  moreover have "j < k \<and> k < length (b_cycles b')" if "BCycleIdx k \<in> set (fst (b_cycles b' ! j))" for k
    using assms(1,4) that unfolding cycle_closed_def assms(3) by fastforce
  moreover have "\<forall>p. snd (b_cycles b' ! j) = Some p \<longrightarrow> p < j"
    using assms(1) unfolding cycle_closed_def assms(3) by blast
  ultimately show ?thesis unfolding cycle_closed_def by blast
qed

lemma composed_append:
  assumes t: "target_ok b t" and 1: "composed g b t b1 N1 new1 cs1" and 2: "composed g b1 t b2 N2 new2 cs2"
    and dis: "N1 \<inter> N2 = {}" and e: "\<And>a c. (a, c) \<in> cfg_edges g \<Longrightarrow> a \<in> N1 \<Longrightarrow> c \<notin> N2"
  shows "composed g b t b2 (N1 \<union> N2) (new1 @ new2) (cs1 @ cs2)"
proof -
  note A = composedD [OF 1] and B = composedD [OF 2]
  let ?n = "length (b_cycles b)"
  have mid: "b_cycles b2 ! j = b_cycles b1 ! j" if "?n \<le> j" "j < length (b_cycles b1)" for j
    using B(4) [OF that(2)] t that(1) by (auto simp: target_ok_def)
  have r1: "list_all2 (resolves (b_cycles b2) ?n) new1 cs1"
  proof (rule list.rel_mono_strong [OF A(6)])
    fix c d assume "resolves (b_cycles b1) ?n c d"
    then show "resolves (b_cycles b2) ?n c d" by (rule resolves_mono) (use mid B(1) in auto)
  qed
  have r2: "list_all2 (resolves (b_cycles b2) ?n) new2 cs2"
  proof (rule list.rel_mono_strong [OF B(6)])
    fix c d assume "resolves (b_cycles b2) (length (b_cycles b1)) c d"
    then show "resolves (b_cycles b2) ?n c d" by (rule resolves_mono) (use A(1) in auto)
  qed
  show ?thesis
    unfolding composed_def
  proof (intro conjI allI impI)
    show "?n \<le> length (b_cycles b2)" "contained_ok b2" using A(1) B(1,2) by auto
    show "b_top b2 = b_top b @ (if t = None then new1 @ new2 else [])" using A(3) B(3) by simp
    show "b_cycles b2 ! j = (fst (b_cycles b ! j) @ (if t = Some j then new1 @ new2 else []), snd (b_cycles b ! j))"
      if "j < ?n" for j using A(4) [OF that] B(4) [of j] A(1) that by simp
    fix j assume j: "?n \<le> j" "j < length (b_cycles b2)"
    show "cycle_closed b2 (N1 \<union> N2) j"
    proof (cases "j < length (b_cycles b1)")
      case True
      show ?thesis
      proof (rule cycle_closed_mono [OF A(5) [OF j(1) True] _ mid [OF j(1) True] B(1)])
        show "map_of (b_containing b2) h = map_of (b_containing b1) h" if "h \<in> N1" for h
          using B(9) dis that by blast
      qed simp
    next
      case False
      then have "cycle_closed b2 N2 j" using B(5) [of j] j(2) by simp
      then show ?thesis by (rule cycle_closed_mono) auto
    qed
  next
    show "list_all2 (resolves (b_cycles b2) ?n) (new1 @ new2) (cs1 @ cs2)" using r1 r2 by (rule list_all2_appendI)
    show "stored_ok g (cs1 @ cs2)" by (rule stored_ok_append) (unfold A(8) B(8), rule A(7), rule B(7), rule dis, rule e)
    show "set (nodes_of (cs1 @ cs2)) = N1 \<union> N2" using A(8) B(8) by simp
    show "map_of (b_containing b2) l = map_of (b_containing b) l" if "l \<notin> N1 \<union> N2" for l
      using A(9) [of l] B(9) [of l] that by simp
  qed
qed

subsection \<open>One component\<close>

definition appended :: "nat option \<Rightarrow> builder_component \<Rightarrow> builder \<Rightarrow> builder" where
  "appended t c b = (case t of
      None \<Rightarrow> b\<lparr>b_top := b_top b @ [c]\<rparr>
    | Some i \<Rightarrow> b\<lparr>b_cycles := (b_cycles b)[i := (fst (b_cycles b ! i) @ [c], snd (b_cycles b ! i))]\<rparr>)"

lemma push_component_spec: "target_ok b t \<Longrightarrow> push_component t c b = Some (appended t c b)"
  by (auto simp: push_component_def appended_def target_ok_def nth_opt_def split: option.split prod.split)

lemma appended_fields [simp]:
  "b_data (appended t c b) = b_data b" "b_num (appended t c b) = b_num b" "b_stack (appended t c b) = b_stack b"
  "b_containing (appended t c b) = b_containing b" "length (b_cycles (appended t c b)) = length (b_cycles b)"
  "b_top (appended t c b) = b_top b @ (if t = None then [c] else [])"
  "j < length (b_cycles b) \<Longrightarrow> b_cycles (appended t c b) ! j =
     (fst (b_cycles b ! j) @ (if t = Some j then [c] else []), snd (b_cycles b ! j))"
  by (auto simp: appended_def nth_list_update split: option.split)

lemma composed_label:
  assumes "target_ok b t" "contained_ok b" "(v, v) \<notin> cfg_edges g"
    and b': "b_cycles b' = b_cycles (appended t (BLabel v) b)" "b_top b' = b_top (appended t (BLabel v) b)"
      "b_containing b' = (case t of None \<Rightarrow> b_containing b | Some i \<Rightarrow> bt_insert v i (b_containing b))"
  shows "composed g b t b' {v} [BLabel v] [WtoLabel v]"
proof -
  have m: "map_of (b_containing b') = (case t of None \<Rightarrow> map_of (b_containing b) | Some i \<Rightarrow> (map_of (b_containing b))(v \<mapsto> i))"
    using assms(2) b'(3) by (cases t) (auto simp: contained_ok_def)
  have c: "i < length (b_cycles b)" if "t = Some i" for i using assms(1) that by (simp add: target_ok_def)
  show ?thesis
    unfolding composed_def b'(1,2)
  proof (intro conjI allI impI)
    show "contained_ok b'" using assms(2) b'(1,3) c m by (cases t) (auto simp: contained_ok_def)
    show "list_all2 (resolves (b_cycles (appended t (BLabel v) b)) (length (b_cycles b))) [BLabel v] [WtoLabel v]"
      by (simp add: res_label)
    show "stored_ok g [WtoLabel v]" using assms(3) by (simp add: no_edges_iff)
    show "map_of (b_containing b') l = map_of (b_containing b) l" if "l \<notin> {v}" for l using that m by (cases t) auto
  qed (use m c in \<open>auto split: option.splits\<close>)
qed

text \<open>A cycle, after the body has been placed in the new entry \<open>idx\<close> of the table.\<close>

lemma composed_cycle:
  assumes t: "target_ok b t" and b4: "b_cycles b4 = b_cycles b @ [([], t)]" "b_top b4 = b_top b" "b_containing b4 = b_containing b"
    and body: "composed g b4 (Some (length (b_cycles b))) b5 N newb cs" and v: "v \<notin> N"
    and b': "b_cycles b' = b_cycles (appended t (BCycleIdx (length (b_cycles b))) (appended (Some (length (b_cycles b))) (BLabel v) b5))"
      "b_top b' = b_top (appended t (BCycleIdx (length (b_cycles b))) (appended (Some (length (b_cycles b))) (BLabel v) b5))"
      "b_containing b' = bt_insert v (length (b_cycles b)) (b_containing b5)"
  shows "composed g b t b' (insert v N) [BCycleIdx (length (b_cycles b))] [WtoCycle (cs @ [WtoLabel v])]"
proof -
  note D = composedD [OF body]
  let ?i = "length (b_cycles b)" and ?T = "b_cycles b'"
  have len4: "length (b_cycles b4) = Suc ?i" by (simp add: b4(1))
  have len: "length ?T = length (b_cycles b5)" "Suc ?i \<le> length (b_cycles b5)" using D(1) len4 by (simp_all add: b'(1))
  have ti: "j < ?i" if "t = Some j" for j using t that by (simp add: target_ok_def)
  have at: "?T ! j = (fst (b_cycles b5 ! j) @ (if j = ?i then [BLabel v] else if t = Some j then [BCycleIdx ?i] else []),
      snd (b_cycles b5 ! j))" if "j < length (b_cycles b5)" for j
    using that ti by (auto simp: b'(1))
  have cont: "map_of (b_containing b') = (map_of (b_containing b5))(v \<mapsto> ?i)"
    using D(2) b'(3) by (simp add: contained_ok_def)
  have old: "?T ! j = (fst (b_cycles b ! j) @ (if t = Some j then [BCycleIdx ?i] else []), snd (b_cycles b ! j))" if "j < ?i" for j
    using at [of j] D(4) [of j] that len4 len(2) b4(1) by (simp add: nth_append)
  have new: "?T ! ?i = (newb @ [BLabel v], t)"
    using at [of ?i] D(4) [of ?i] len4 len(2) b4(1) by simp
  have later: "?T ! j = b_cycles b5 ! j" if "Suc ?i \<le> j" "j < length (b_cycles b5)" for j
    using at [OF that(2)] that(1) ti [of j] by auto
  have r: "list_all2 (resolves ?T (Suc ?i)) (newb @ [BLabel v]) (cs @ [WtoLabel v])"
  proof (rule list_all2_appendI)
    show "list_all2 (resolves ?T (Suc ?i)) newb cs"
    proof (rule list.rel_mono_strong [OF D(6) [unfolded len4]])
      fix c d assume "resolves (b_cycles b5) (Suc ?i) c d"
      then show "resolves ?T (Suc ?i) c d" by (rule resolves_mono) (use later len(1) in auto)
    qed
  qed (simp add: res_label)
  show ?thesis
    unfolding composed_def
  proof (intro conjI allI impI)
    show "?i \<le> length ?T" using len by simp
    show "contained_ok b'" using D(2) len cont b'(3) by (auto simp: contained_ok_def)
    show "b_top b' = b_top b @ (if t = None then [BCycleIdx ?i] else [])" using D(3) b4(2) b'(2) by simp
    show "?T ! j = (fst (b_cycles b ! j) @ (if t = Some j then [BCycleIdx ?i] else []), snd (b_cycles b ! j))" if "j < ?i" for j
      by (rule old [OF that])
    fix j assume j: "?i \<le> j" "j < length ?T"
    show "cycle_closed b' (insert v N) j"
    proof (cases "j = ?i")
      case True
      have "?i < k \<and> k < length ?T" if "BCycleIdx k \<in> set (newb @ [BLabel v])" for k
        using resolves_index [OF r that] by simp
      then show ?thesis using True new ti cont by (auto simp: cycle_closed_def)
    next
      case False
      then have j': "Suc ?i \<le> j" "j < length (b_cycles b5)" using j len by auto
      show ?thesis
      proof (rule cycle_closed_mono [OF D(5) [unfolded len4, OF j'] _ later [OF j']])
        show "map_of (b_containing b') h = map_of (b_containing b5) h" if "h \<in> N" for h
          using cont v that by auto
      qed (use len in auto)
    qed
  next
    show "list_all2 (resolves ?T ?i) [BCycleIdx ?i] [WtoCycle (cs @ [WtoLabel v])]"
      using r new len by (auto intro!: res_cycle)
    show "stored_ok g [WtoCycle (cs @ [WtoLabel v])]"
      using D(7,8) v by (simp add: cycle_head_rev no_edges_iff list_all_iff)
    show "set (nodes_of [WtoCycle (cs @ [WtoLabel v])]) = insert v N" using D(8) by simp
    show "map_of (b_containing b') l = map_of (b_containing b) l" if "l \<notin> insert v N" for l
      using that cont D(9) [of l] b4(3) by simp
  qed
qed

subsection \<open>One visit\<close>

definition ready :: "cfg \<Rightarrow> builder \<Rightarrow> nat option \<Rightarrow> bool" where
  "ready g b t \<longleftrightarrow> search_ok g b \<and> contained_ok b \<and> target_ok b t \<and>
     b_num b + int (tri (card (white b))) < DFN_INF"

definition visits ::
  "cfg \<Rightarrow> builder \<Rightarrow> nat option \<Rightarrow> label list \<Rightarrow> builder \<Rightarrow> label set \<Rightarrow> label list \<Rightarrow>
   builder_component list \<Rightarrow> component list \<Rightarrow> bool" where
  "visits g b t ss b' N seg newb cs \<longleftrightarrow> runs g b (map (push_task t) ss) b' \<and> searched g b ss b' N seg \<and>
     composed g b t b' N newb cs"

lemma push_step:
  assumes g: "cfg_ok g" and b: "search_ok g b" and v: "v \<in> white b" and n: "b_num b + 1 < DFN_INF"
    and cs: "children_of g v = Some cs" "set cs \<subseteq> dom (map_of g)"
  shows "visit_step g (push_task t v) b vs =
    Some (pushed v b, (map (push_task t) (filter (\<lambda>s. dfn (pushed v b) s = 0) cs) @ [visit_task t v]) @ vs)"
proof -
  note P = pushed_spec [OF b v n]
  have vk: "v \<in> known b" "dfn b v = 0" "head_dfn b v = 0" using v search_okD(8) [OF b v] by (auto simp: white_def)
  have k: "known (pushed v b) = dom (map_of g)" by (rule search_okD(2) [OF P(1)])
  have known': "v \<in> known (b\<lparr>b_num := b_num b + 1\<rparr>)" "dfn (b\<lparr>b_num := b_num b + 1\<rparr>) v = 0" "head_dfn (b\<lparr>b_num := b_num b + 1\<rparr>) v = 0"
    using vk by (simp_all add: known_def dfn_def head_dfn_def)
  have n': "b_num b + 1 < 2 ^ 31" using n by (simp add: DFN_INF_def)
  have e: "enqueue_unvisited_succs g (pushed v b) v t t (visit_task t v # vs) =
      Some (map (push_task t) (filter (\<lambda>s. dfn (pushed v b) s = 0) cs) @ visit_task t v # vs)"
    by (rule enqueue_spec [OF cs(1)]) (use cs(2) k in simp)
  show ?thesis
    using e n' by (simp add: visit_step_def push_successors_def dfn_of_known [OF vk(1)] vk(2) Let_def
        set_vertex_known [OF known'(1)] known'(2,3) pushed_def)
qed

lemma skip_step:
  assumes "search_ok g b" "s \<in> dom (map_of g)" "s \<notin> white b"
  shows "visit_step g (push_task t s) b vs = Some (b, vs)"
proof -
  have k: "s \<in> known b" using assms search_okD(2) by blast
  then have "dfn b s \<noteq> 0" using assms(3) by (simp add: white_def)
  then show ?thesis by (simp add: visit_step_def push_successors_def dfn_of_known [OF k])
qed

lemma start_stays:
  assumes k: "v \<in> known b1" and cs: "children_of g v = Some cs" and m: "min_head b1 cs (dfn b1 v, False) = Some (h, lp)" "h \<noteq> dfn b1 v"
  shows "visit_step g (visit_task t v) b1 vs =
    Some (b1\<lparr>b_data := bt_insert v \<lparr>vd_dfn = dfn b1 v, vd_head_dfn = h\<rparr> (b_data b1)\<rparr>, [] @ vs)"
  using m by (simp add: visit_step_def start_visit_def dfn_of_known [OF k] cs set_vertex_known [OF k])

definition label_done :: "nat option \<Rightarrow> label \<Rightarrow> int \<Rightarrow> label list \<Rightarrow> builder \<Rightarrow> builder" where
  "label_done t v h st b1 =
     (let b2 = appended t (BLabel v) (b1\<lparr>b_stack := st\<rparr>)
      in b2\<lparr>b_data := bt_insert v \<lparr>vd_dfn = DFN_INF, vd_head_dfn = h\<rparr> (bt_insert v \<lparr>vd_dfn = DFN_INF, vd_head_dfn = head_dfn b1 v\<rparr> (b_data b1)),
            b_containing := (case t of None \<Rightarrow> b_containing b1 | Some i \<Rightarrow> bt_insert v i (b_containing b1))\<rparr>)"

lemma start_label:
  assumes k: "v \<in> known b1" "bt_ok (b_data b1)" and cs: "children_of g v = Some cs" and t: "target_ok b1 t"
    and m: "min_head b1 cs (dfn b1 v, False) = Some (dfn b1 v, False)" and st: "b_stack b1 = v # st"
  shows "visit_step g (visit_task t v) b1 vs = Some (label_done t v (dfn b1 v) st b1, [] @ vs)"
proof -
  let ?m1 = "bt_insert v \<lparr>vd_dfn = DFN_INF, vd_head_dfn = head_dfn b1 v\<rparr> (b_data b1)"
  let ?b1 = "b1\<lparr>b_data := ?m1\<rparr>"
  have 1: "set_vertex v (\<lambda>d. d\<lparr>vd_dfn := DFN_INF\<rparr>) b1 = Some ?b1" by (simp add: set_vertex_known [OF k(1)])
  have p: "push_component t (BLabel v) (?b1\<lparr>b_stack := st\<rparr>) = Some (appended t (BLabel v) (?b1\<lparr>b_stack := st\<rparr>))"
    by (rule push_component_spec) (use t in \<open>simp add: target_ok_def\<close>)
  let ?b3 = "case t of None \<Rightarrow> appended t (BLabel v) (?b1\<lparr>b_stack := st\<rparr>)
    | Some i \<Rightarrow> (appended t (BLabel v) (?b1\<lparr>b_stack := st\<rparr>))\<lparr>b_containing := bt_insert v i (b_containing (appended t (BLabel v) (?b1\<lparr>b_stack := st\<rparr>)))\<rparr>"
  have d3: "map_of (b_data ?b3) v = Some \<lparr>vd_dfn = DFN_INF, vd_head_dfn = head_dfn b1 v\<rparr>"
    using k(2) by (cases t) simp_all
  then have "set_vertex v (\<lambda>d. d\<lparr>vd_head_dfn := dfn b1 v\<rparr>) ?b3 =
      Some (?b3\<lparr>b_data := bt_insert v \<lparr>vd_dfn = DFN_INF, vd_head_dfn = dfn b1 v\<rparr> (b_data ?b3)\<rparr>)"
    by (simp add: set_vertex_def)
  moreover have "?b3\<lparr>b_data := bt_insert v \<lparr>vd_dfn = DFN_INF, vd_head_dfn = dfn b1 v\<rparr> (b_data ?b3)\<rparr> =
      label_done t v (dfn b1 v) st b1"
    by (cases t) (simp_all add: label_done_def Let_def appended_def)
  ultimately show ?thesis
    using m st p by (simp add: visit_step_def start_visit_def dfn_of_known [OF k(1)] cs 1)
qed

definition loop_opened :: "nat option \<Rightarrow> (label, vertex_data) btree \<Rightarrow> label list \<Rightarrow> builder \<Rightarrow> builder" where
  "loop_opened t m st b1 = b1\<lparr>b_data := m, b_stack := st, b_cycles := b_cycles b1 @ [([], t)]\<rparr>"

lemma start_loop:
  assumes v: "settled g v b ss b1 N1 seg1" and cs: "children_of g v = Some cs" "set cs \<subseteq> dom (map_of g)"
    and m: "min_head b1 cs (dfn b1 v, False) = Some (dfn b1 v, True)"
  shows "\<exists>d. reopened v (dfn b1 v) b b1 seg1 (loop_opened t d (b_stack b) b1) \<and>
    (\<forall>vs. visit_step g (visit_task t v) b1 vs = Some (loop_opened t d (b_stack b) b1,
      (map (push_task (Some (length (b_cycles b1)))) (filter (\<lambda>s. dfn (loop_opened t d (b_stack b) b1) s = 0) cs) @
       [\<lparr>task_type = ContinueVisit, task_vertex = v, target_cycle = t, task_containing = Some (length (b_cycles b1))\<rparr>]) @ vs))"
proof -
  note V = settledD [OF v] and F = settled_facts [OF v]
  note B1 = search_okD [OF searchedD(1) [OF V(4)]]
  have sk: "insert v (set seg1) \<subseteq> known b1" using F(2) B1(3) by auto
  then have k: "v \<in> known b1" by blast
  let ?m1 = "bt_insert v \<lparr>vd_dfn = DFN_INF, vd_head_dfn = head_dfn b1 v\<rparr> (b_data b1)"
  let ?b1 = "b1\<lparr>b_data := ?m1\<rparr>"
  have 1: "set_vertex v (\<lambda>d. d\<lparr>vd_dfn := DFN_INF\<rparr>) b1 = Some ?b1" by (simp add: set_vertex_known [OF k])
  have m1: "bt_ok ?m1" "map_of ?m1 = (map_of (b_data b1))(v \<mapsto> \<lparr>vd_dfn = DFN_INF, vd_head_dfn = head_dfn b1 v\<rparr>)"
    using B1(1) by simp_all
  obtain e es where e: "b_stack b1 = e # es" using F(2) by (cases "seg1 @ v # b_stack b") auto
  have "set seg1 \<subseteq> known ?b1" using sk m1 by (auto simp: known_def)
  then have "\<exists>m. pop_until v e es ?b1 = Some (?b1\<lparr>b_data := m, b_stack := b_stack b\<rparr>) \<and> bt_ok m \<and>
      map_of m = (\<lambda>l. if l \<in> set seg1 then Some \<lparr>vd_dfn = 0, vd_head_dfn = 0\<rparr> else map_of (b_data ?b1) l)"
    by (intro pop_until_spec) (use e F(2,12) m1(1) in simp_all)
  then obtain m2 where m2: "pop_until v e es ?b1 = Some (?b1\<lparr>b_data := m2, b_stack := b_stack b\<rparr>)" "bt_ok m2"
    "map_of m2 = (\<lambda>l. if l \<in> set seg1 then Some \<lparr>vd_dfn = 0, vd_head_dfn = 0\<rparr> else map_of (b_data ?b1) l)"
    by blast
  have m2': "map_of m2 = (\<lambda>l. if l \<in> set seg1 then Some \<lparr>vd_dfn = 0, vd_head_dfn = 0\<rparr> else map_of ?m1 l)"
    using m2(3) by (simp cong: if_cong)
  let ?b2 = "?b1\<lparr>b_data := m2, b_stack := b_stack b\<rparr>"
  define d where "d = bt_insert v \<lparr>vd_dfn = DFN_INF, vd_head_dfn = dfn b1 v\<rparr> m2"
  have "map_of m2 v = Some \<lparr>vd_dfn = DFN_INF, vd_head_dfn = head_dfn b1 v\<rparr>" using m2' F(12) m1(2) by simp
  then have 3: "set_vertex v (\<lambda>d. d\<lparr>vd_head_dfn := dfn b1 v\<rparr>) ?b2 = Some (?b2\<lparr>b_data := d\<rparr>)"
    by (simp add: set_vertex_def d_def)
  let ?b4 = "loop_opened t d (b_stack b) b1"
  have md: "map_of d = (map_of m2)(v \<mapsto> \<lparr>vd_dfn = DFN_INF, vd_head_dfn = dfn b1 v\<rparr>)" using m2(2) by (simp add: d_def)
  have r: "reopened v (dfn b1 v) b b1 seg1 ?b4"
    unfolding reopened_def using m2(2) m2' m1(2) md by (auto simp: loop_opened_def d_def)
  have "known ?b4 = dom (map_of g)" using reopened_spec(1) [OF v r] search_okD(2) by blast
  then have en: "enqueue_unvisited_succs g ?b4 v i i vs' = Some (map (push_task i) (filter (\<lambda>s. dfn ?b4 s = 0) cs) @ vs')" for i vs'
    using enqueue_spec [OF cs(1), of ?b4] cs(2) by simp
  have b4: "?b2\<lparr>b_data := d, b_cycles := b_cycles b1 @ [([], t)]\<rparr> = ?b4" by (simp add: loop_opened_def)
  have "visit_step g (visit_task t v) b1 vs = Some (?b4,
      (map (push_task (Some (length (b_cycles b1)))) (filter (\<lambda>s. dfn ?b4 s = 0) cs) @
       [\<lparr>task_type = ContinueVisit, task_vertex = v, target_cycle = t, task_containing = Some (length (b_cycles b1))\<rparr>]) @ vs)" for vs
    using m e m2(1) 3 en b4 by (simp add: visit_step_def start_visit_def dfn_of_known [OF k] cs(1) 1 Let_def)
  then show ?thesis using r by blast
qed

definition loop_closed :: "nat option \<Rightarrow> label \<Rightarrow> nat \<Rightarrow> builder \<Rightarrow> builder" where
  "loop_closed t v i b5 =
     (let b = appended t (BCycleIdx i) (appended (Some i) (BLabel v) b5) in b\<lparr>b_containing := bt_insert v i (b_containing b)\<rparr>)"

lemma continue_step:
  assumes "target_ok b5 t" "i < length (b_cycles b5)"
  shows "visit_step g \<lparr>task_type = ContinueVisit, task_vertex = v, target_cycle = t, task_containing = Some i\<rparr> b5 vs =
    Some (loop_closed t v i b5, [] @ vs)"
proof -
  have "push_component (Some i) (BLabel v) b5 = Some (appended (Some i) (BLabel v) b5)"
    by (rule push_component_spec) (use assms in \<open>simp add: target_ok_def\<close>)
  moreover have "push_component t (BCycleIdx i) (appended (Some i) (BLabel v) b5) =
      Some (appended t (BCycleIdx i) (appended (Some i) (BLabel v) b5))"
    by (rule push_component_spec) (use assms in \<open>simp add: target_ok_def\<close>)
  ultimately show ?thesis by (simp add: visit_step_def continue_visit_def loop_closed_def Let_def)
qed

subsection \<open>The visits by induction\<close>

text \<open>What decreases from a visit to the visits it starts.\<close>

definition rank :: "cfg \<Rightarrow> builder \<Rightarrow> nat" where
  "rank g b = card (dom (map_of g) - finished b) * Suc (card (dom (map_of g))) + card (white b)"

lemma rank_le: "finished b \<subseteq> finished b' \<Longrightarrow> white b' \<subseteq> white b \<Longrightarrow> rank g b' \<le> rank g b"
  unfolding rank_def by (intro add_mono mult_right_mono card_mono) (auto simp: finite_dom_map_of)

lemma rank_white: "finished b' = finished b \<Longrightarrow> white b' \<subset> white b \<Longrightarrow> rank g b' < rank g b"
  unfolding rank_def by (simp add: psubset_card_mono)

lemma rank_finished:
  assumes "search_ok g b" "search_ok g b'" "finished b \<subset> finished b'"
  shows "rank g b' < rank g b"
proof -
  let ?V = "dom (map_of g)"
  have sub: "finished b \<subseteq> ?V" "finished b' \<subseteq> ?V" "white b' \<subseteq> ?V"
    using search_okD(2) [OF assms(1)] search_okD(2) [OF assms(2)] by (auto simp: finished_def white_def)
  have fin: "finite ?V" by (rule finite_dom_map_of)
  have "card (?V - finished b') < card (?V - finished b)"
    using assms(3) sub(1,2) fin by (intro psubset_card_mono) auto
  then have "card (?V - finished b') * Suc (card ?V) + Suc (card ?V) \<le> card (?V - finished b) * Suc (card ?V)"
    by (metis Suc_leI add.commute mult_Suc mult_le_mono1)
  moreover have "card (white b') \<le> card ?V" by (rule card_mono [OF fin sub(3)])
  ultimately show ?thesis unfolding rank_def by linarith
qed

text \<open>How the components of a visit end.\<close>

definition ends_in :: "cfg \<Rightarrow> label \<Rightarrow> component list \<Rightarrow> bool" where
  "ends_in g v cs \<longleftrightarrow> (\<exists>cs0. cs = cs0 @ [WtoLabel v] \<or> (\<exists>body. cs = cs0 @ [WtoCycle body]) \<and> (\<exists>a. (a, v) \<in> cfg_edges g))"

lemma visits_child:
  assumes "cfg_ok g" "search_ok g b" "searched g b (filter (\<lambda>s. dfn b s = 0) cs) b' N seg" "set cs \<subseteq> dom (map_of g)" "c \<in> set cs"
  shows "c \<notin> white b'"
proof
  assume w: "c \<in> white b'"
  then have "c \<in> white b" using searchedD(5) [OF assms(3)] by blast
  then have "c \<in> set (filter (\<lambda>s. dfn b s = 0) cs)" using assms(5) by (simp add: white_def)
  then show False using searchedD(16) [OF assms(3)] w by blast
qed

lemma target_grows: "target_ok b t \<Longrightarrow> length (b_cycles b) \<le> length (b_cycles b') \<Longrightarrow> target_ok b' t"
  by (auto simp: target_ok_def)

lemma visit_one:
  assumes g: "cfg_ok g" and r: "ready g b t" and v: "v \<in> white b"
    and IH: "\<And>b' t ss. rank g b' < rank g b \<Longrightarrow> ready g b' t \<Longrightarrow> set ss \<subseteq> dom (map_of g) \<Longrightarrow>
      \<exists>b'' N seg newb cs. visits g b' t ss b'' N seg newb cs"
  shows "\<exists>b' N seg newb cs. visits g b t [v] b' N seg newb cs \<and> (v \<in> N \<longrightarrow> ends_in g v cs)"
proof -
  have R: "search_ok g b" "contained_ok b" "target_ok b t" "b_num b + int (tri (card (white b))) < DFN_INF"
    using r unfolding ready_def by blast+
  have cw: "card (white b) = Suc (card (white b - {v}))" by (rule card.remove [OF finite_white v])
  have n: "b_num b + 1 < DFN_INF" using R(4) cw by simp
  note P = pushed_spec [OF R(1) v n]
  have vV: "v \<in> dom (map_of g)" using v white_known search_okD(2) [OF R(1)] by blast
  obtain cs where cs: "children_of g v = Some cs" "set cs \<subseteq> dom (map_of g)" "\<And>c. (v, c) \<in> cfg_edges g \<longleftrightarrow> c \<in> set cs"
    using children_spec [OF g vV] by blast
  let ?ss = "filter (\<lambda>s. dfn (pushed v b) s = 0) cs"
  have rp: "ready g (pushed v b) t"
    using P(1,2) R cw by (simp add: ready_def pushed_def contained_ok_def target_ok_def)
  have less: "rank g (pushed v b) < rank g b" by (rule rank_white) (use P(2,3) v in auto)
  have ss: "set ?ss \<subseteq> dom (map_of g)" using cs(2) by (simp add: subset_iff)
  obtain b1 N1 seg1 new1 cs1 where 1: "visits g (pushed v b) t ?ss b1 N1 seg1 new1 cs1"
    using IH [OF less rp ss] by blast
  then have run1: "runs g (pushed v b) (map (push_task t) ?ss) b1" and s1: "searched g (pushed v b) ?ss b1 N1 seg1"
    and c1: "composed g b t b1 N1 new1 cs1"
    unfolding visits_def by (auto intro: composed_cong simp: pushed_def)
  have vis: "settled g v b ?ss b1 N1 seg1"
    unfolding settled_def using g R(1) v n s1 cs(3) visits_child [OF g P(1) s1 cs(2)] by auto
  note F = settled_facts [OF vis] and C = searchedD [OF s1] and A = composedD [OF c1]
  have run: "runs g b [push_task t v] b'" if "runs g b1 [visit_task t v] b'" for b'
    by (rule runs_step [OF push_step [OF g R(1) v n cs(1,2)] runs_append [OF run1 that]])
  have t1: "target_ok b1 t" by (rule target_grows [OF R(3) A(1)])
  have k1: "v \<in> known b1" using F(2) search_okD(3) [OF C(1)] by auto
  obtain h lp where m: "min_head b1 cs (dfn b1 v, False) = Some (h, lp)" "h \<le> dfn b1 v" "\<forall>s\<in>set cs. h \<le> low b1 s"
    "h = dfn b1 v \<or> (\<exists>s\<in>set cs. low b1 s = h)" "lp \<longleftrightarrow> (\<exists>s\<in>set cs. low b1 s \<le> dfn b1 v)"
    using min_head_spec [of cs b1 "dfn b1 v" False] cs(2) search_okD(2) [OF C(1)] by auto
  consider "h \<noteq> dfn b1 v" | "h = dfn b1 v" "\<not> lp" | "h = dfn b1 v" lp by blast
  then show ?thesis
  proof cases
    case 1
    let ?b' = "b1\<lparr>b_data := bt_insert v \<lparr>vd_dfn = dfn b1 v, vd_head_dfn = h\<rparr> (b_data b1)\<rparr>"
    obtain s where s: "s \<in> set cs" "low b1 s = h" using m(4) 1 by blast
    have "searched g b [v] ?b' N1 (seg1 @ [v])"
      by (rule visit_stays [OF vis _ _ _ s(2)]) (use 1 m(2,3) cs(3) s(1) search_okD(1) [OF C(1)] in auto)
    moreover have "runs g b1 [visit_task t v] ?b'" by (rule runs_step [OF start_stays [OF k1 cs(1) m(1) 1] runs_Nil])
    moreover have "composed g b t ?b' N1 new1 cs1" by (rule composed_cong [OF c1]) simp_all
    moreover have "v \<notin> N1" using F(12) by blast
    ultimately show ?thesis using run unfolding visits_def by fastforce
  next
    case 2
    have low: "dfn b1 v < low b1 c" if "(v, c) \<in> cfg_edges g" for c
      using 2 m(3,5) that cs(3) by fastforce
    have seg: "seg1 = []" by (rule visit_no_segment [OF vis low])
    let ?b' = "label_done t v (dfn b1 v) (b_stack b) b1"
    have st: "b_stack b1 = v # b_stack b" using F(2) seg by simp
    have data: "bt_ok (b_data ?b')" "map_of (b_data ?b') = (map_of (b_data b1))(v \<mapsto> \<lparr>vd_dfn = DFN_INF, vd_head_dfn = dfn b1 v\<rparr>)"
      "b_stack ?b' = b_stack b" "b_num ?b' = b_num b1"
      using search_okD(1) [OF C(1)] by (simp_all add: label_done_def Let_def)
    have s': "searched g b [v] ?b' (insert v N1) []" by (rule visit_done [OF vis low data])
    have "min_head b1 cs (dfn b1 v, False) = Some (dfn b1 v, False)" using m(1) 2 by simp
    from start_label [OF k1 search_okD(1) [OF C(1)] cs(1) t1 this st]
    have r': "runs g b1 [visit_task t v] ?b'" by (rule runs_step [OF _ runs_Nil])
    have "(v, v) \<notin> cfg_edges g" using low [of v] low_le_dfn [OF C(1), of v] F(2) by auto
    then have "composed g b1 t ?b' {v} [BLabel v] [WtoLabel v]"
      by (rule composed_label [OF t1 A(2)]) (simp_all add: label_done_def Let_def appended_def split: option.split)
    then have "composed g b t ?b' (N1 \<union> {v}) (new1 @ [BLabel v]) (cs1 @ [WtoLabel v])"
      by (rule composed_append [OF R(3) c1]) (use F(11,12) C(8) in auto)
    moreover have "ends_in g v (cs1 @ [WtoLabel v])" by (auto simp: ends_in_def)
    ultimately show ?thesis using run [OF r'] s' unfolding visits_def by fastforce
  next
    case 3
    have low: "dfn b1 v \<le> low b1 c" if "(v, c) \<in> cfg_edges g" for c
      using 3(1) m(3) that cs(3) by simp
    obtain s where s: "s \<in> set cs" "low b1 s \<le> dfn b1 v" using m(5) 3(2) by blast
    have into: "\<exists>a. (a, v) \<in> cfg_edges g" by (rule loop_edge [OF vis low iffD2 [OF cs(3) s(1)] s(2)])
    have "min_head b1 cs (dfn b1 v, False) = Some (dfn b1 v, True)" using m(1) 3 by simp
    from start_loop [OF vis cs(1,2) this] obtain d where d: "reopened v (dfn b1 v) b b1 seg1 (loop_opened t d (b_stack b) b1)"
      "\<And>vs. visit_step g (visit_task t v) b1 vs = Some (loop_opened t d (b_stack b) b1,
      (map (push_task (Some (length (b_cycles b1)))) (filter (\<lambda>s. dfn (loop_opened t d (b_stack b) b1) s = 0) cs) @
       [\<lparr>task_type = ContinueVisit, task_vertex = v, target_cycle = t, task_containing = Some (length (b_cycles b1))\<rparr>]) @ vs)"
      by blast
    let ?b4 = "loop_opened t d (b_stack b) b1" and ?i = "length (b_cycles b1)"
    let ?ss4 = "filter (\<lambda>s. dfn ?b4 s = 0) cs"
    note R4 = reopened_spec [OF vis d(1)]
    have f4: "b_cycles ?b4 = b_cycles b1 @ [([], t)]" "b_top ?b4 = b_top b1" "b_containing ?b4 = b_containing b1" "b_num ?b4 = b_num b1"
      by (simp_all add: loop_opened_def)
    have num: "b_num b1 + int (tri (card (white ?b4))) < DFN_INF"
    proof -
      have fin: "finite N1" "finite (white b)" using F(5) finite_subset [OF _ finite_white [of b]] by auto
      have w4: "white ?b4 = white b - {v} - N1" using R4(2) F(5,6) C(4) by blast
      have "card N1 + card (white ?b4) = card (white b - {v})"
        unfolding w4 using fin F(5) by (metis Diff_partition Un_subset_iff card_Diff_subset card_mono finite_Diff le_add_diff_inverse)
      moreover have "length seg1 \<le> card (white ?b4)"
        using card_mono [OF finite_white, of "set seg1" ?b4] R4(2) distinct_card [of seg1]
          search_ok_distinct [OF C(1)] F(2) by simp
      ultimately have "Suc (length seg1) + tri (card N1) + tri (card (white ?b4)) \<le> tri (card (white b))"
        using tri_add [of "card N1" "Suc (card (white ?b4))"] cw by simp
      then show ?thesis using C(15) R(4) by (simp add: pushed_def)
    qed
    have r4: "ready g ?b4 (Some ?i)"
      using R4(1) A(2) num f4 unfolding ready_def contained_ok_def target_ok_def by (auto simp: less_SucI)
    have less4: "rank g ?b4 < rank g b" by (rule rank_finished [OF R(1) R4(1)]) (use R4(3) F(7,11) in auto)
    have ss4: "set ?ss4 \<subseteq> dom (map_of g)" using cs(2) by (simp add: subset_iff)
    obtain b5 N5 seg5 new5 cs5 where b5: "visits g ?b4 (Some ?i) ?ss4 b5 N5 seg5 new5 cs5"
      using IH [OF less4 r4 ss4] by blast
    then have run5: "runs g ?b4 (map (push_task (Some ?i)) ?ss4) b5" and s5: "searched g ?b4 ?ss4 b5 N5 seg5"
      and c5: "composed g ?b4 (Some ?i) b5 N5 new5 cs5" unfolding visits_def by auto
    have all: "c \<notin> white b5" if "(v, c) \<in> cfg_edges g" for c
      using visits_child [OF g R4(1) s5 cs(2)] cs(3) that by blast
    have "seg5 = []" "N5 = set seg1"
      by (rule visit_loop_body [OF vis low d(1) s5 _ all]; use cs(3) in simp)+
    then have s5': "searched g ?b4 ?ss4 b5 (set seg1) []" and c5': "composed g ?b4 (Some ?i) b5 (set seg1) new5 cs5"
      using s5 c5 by simp_all
    let ?b' = "loop_closed t v ?i b5"
    have len5: "?i < length (b_cycles b5)" using composedD(1) [OF c5'] f4(1) by simp
    have t5: "target_ok b5 t" by (rule target_grows [OF t1]) (use len5 in simp)
    have "runs g b1 [visit_task t v] ?b'"
      by (rule runs_step [OF d(2)], rule runs_append [OF run5], rule runs_step [OF continue_step [OF t5 len5] runs_Nil])
    then have r': "runs g b [push_task t v] ?b'" by (rule run)
    have s': "searched g b [v] ?b' (insert v (N1 \<union> set seg1)) []"
      by (rule visit_loop_done [OF vis low d(1) s5']) (simp_all add: loop_closed_def Let_def)
    have vs: "v \<notin> set seg1" using F(12) by blast
    have "composed g b1 t ?b' (insert v (set seg1)) [BCycleIdx ?i] [WtoCycle (cs5 @ [WtoLabel v])]"
      by (rule composed_cycle [OF t1 f4(1-3) c5' vs]) (simp_all add: loop_closed_def Let_def)
    then have "composed g b t ?b' (N1 \<union> insert v (set seg1)) (new1 @ [BCycleIdx ?i]) (cs1 @ [WtoCycle (cs5 @ [WtoLabel v])])"
    proof (rule composed_append [OF R(3) c1])
      have dis: "finished b1 \<inter> insert v (set seg1) = {}" using F(2,11) search_okD(3) [OF C(1)] by auto
      show "N1 \<inter> insert v (set seg1) = {}" using F(12) C(4) by blast
      show "c \<notin> insert v (set seg1)" if "(a, c) \<in> cfg_edges g" "a \<in> N1" for a c using C(8) [OF that] dis by blast
    qed
    moreover have "ends_in g v (cs1 @ [WtoCycle (cs5 @ [WtoLabel v])])" using into by (auto simp: ends_in_def)
    moreover have "N1 \<union> insert v (set seg1) = insert v (N1 \<union> set seg1)" by blast
    ultimately show ?thesis using r' s' unfolding visits_def by fastforce
  qed
qed

lemma visits_ready:
  assumes r: "ready g b t" and v: "visits g b t ss b' N seg newb cs"
  shows "ready g b' t" "rank g b' \<le> rank g b"
proof -
  have R: "search_ok g b" "target_ok b t" "b_num b + int (tri (card (white b))) < DFN_INF"
    using r unfolding ready_def by blast+
  have s: "searched g b ss b' N seg" and c: "composed g b t b' N newb cs" using v unfolding visits_def by blast+
  note C = searchedD [OF s] and A = composedD [OF c]
  have fin: "finite N" using C(3) finite_subset [OF _ finite_white] by blast
  have "card (N \<union> set seg) = card N + length seg"
    using fin C(4) distinct_card [of seg] search_ok_distinct [OF C(1)] C(2) by (simp add: card_Un_disjoint)
  moreover have "card (white b') = card (white b) - card (N \<union> set seg)" "card (N \<union> set seg) \<le> card (white b)"
    unfolding C(5) using C(3) fin by (simp_all add: card_Diff_subset card_mono)
  ultimately have w: "card (white b) = card N + (length seg + card (white b'))" by simp
  have "length seg + tri (card N) + tri (card (white b')) \<le> tri (card (white b))"
    unfolding w using tri_add [of "card N" "length seg + card (white b')"] tri_add [of "length seg" "card (white b')"]
      tri_ge [of "length seg"] by linarith
  then have "b_num b' + int (tri (card (white b'))) < DFN_INF" using C(15) R(3) by linarith
  then show "ready g b' t" unfolding ready_def using C(1) A(2) target_grows [OF R(2) A(1)] by blast
  show "rank g b' \<le> rank g b" by (rule rank_le) (use finished_grows [OF s] C(5) in auto)
qed

lemma visits_append:
  assumes r: "ready g b t" and 1: "visits g b t ss1 b1 N1 seg1 new1 cs1" and 2: "visits g b1 t ss2 b2 N2 seg2 new2 cs2"
  shows "visits g b t (ss1 @ ss2) b2 (N1 \<union> N2) (seg2 @ seg1) (new1 @ new2) (cs1 @ cs2)"
proof -
  have s: "searched g b ss1 b1 N1 seg1" "searched g b1 ss2 b2 N2 seg2"
    and c: "composed g b t b1 N1 new1 cs1" "composed g b1 t b2 N2 new2 cs2"
    and u: "runs g b (map (push_task t) ss1) b1" "runs g b1 (map (push_task t) ss2) b2"
    using 1 2 unfolding visits_def by blast+
  have R: "search_ok g b" "target_ok b t" using r unfolding ready_def by blast+
  note C = searchedD [OF s(1)] and E = searchedD [OF s(2)]
  have w: "N2 \<inter> finished b1 = {}" using E(3) by (auto simp: white_def finished_def)
  have "composed g b t b2 (N1 \<union> N2) (new1 @ new2) (cs1 @ cs2)"
    by (rule composed_append [OF R(2) c]) (use C(6,8) w in blast)+
  moreover have "runs g b (map (push_task t) (ss1 @ ss2)) b2" using runs_append [OF u] by simp
  ultimately show ?thesis unfolding visits_def using searched_append [OF R(1) s] by blast
qed

lemma visits_skip:
  assumes r: "ready g b t" and s: "s \<in> dom (map_of g)" "s \<notin> white b"
  shows "visits g b t [s] b {} [] [] []"
proof -
  have R: "search_ok g b" "contained_ok b" using r unfolding ready_def by blast+
  have "runs g b [push_task t s] b"
    by (rule runs_step [OF _ runs_Nil]) (simp add: skip_step [OF R(1) s])
  moreover have "searched g b [s] b {} []" by (rule searched_none [OF R(1)]) (use s in simp)
  ultimately show ?thesis unfolding visits_def using composed_none [OF R(2)] by simp
qed

lemma visits_all:
  assumes g: "cfg_ok g" and "ready g b t" "set ss \<subseteq> dom (map_of g)"
  shows "\<exists>b' N seg newb cs. visits g b t ss b' N seg newb cs"
  using assms(2,3)
proof (induction "rank g b" arbitrary: b t ss rule: less_induct)
  case less
  have IH: "\<exists>b'' N seg newb cs. visits g b' t' ss' b'' N seg newb cs"
    if "rank g b' < rank g b" "ready g b' t'" "set ss' \<subseteq> dom (map_of g)" for b' t' ss'
    by (rule less.hyps [OF that])
  have "\<exists>b' N seg newb cs. visits g b0 t ss b' N seg newb cs" if "rank g b0 \<le> rank g b" "ready g b0 t" for b0
    using less.prems(2) that
  proof (induction ss arbitrary: b0)
    case Nil
    then have "search_ok g b0" "contained_ok b0" unfolding ready_def by blast+
    then have "visits g b0 t [] b0 {} [] [] []" unfolding visits_def by (simp add: composed_none searched_none)
    then show ?case by blast
  next
    case (Cons s ss)
    have "\<exists>b1 N seg newb cs. visits g b0 t [s] b1 N seg newb cs"
    proof (cases "s \<in> white b0")
      case True
      show ?thesis using visit_one [OF g Cons.prems(3) True] IH Cons.prems(2) by (meson less_le_trans)
    next
      case False
      then show ?thesis using visits_skip [OF Cons.prems(3)] Cons.prems(1) by (metis insert_subset list.simps(15))
    qed
    then obtain b1 N1 seg1 new1 cs1 where 1: "visits g b0 t [s] b1 N1 seg1 new1 cs1" by blast
    note R = visits_ready [OF Cons.prems(3) 1]
    have "set ss \<subseteq> dom (map_of g)" "rank g b1 \<le> rank g b" using Cons.prems(1,2) R(2) by auto
    then obtain b2 N2 seg2 new2 cs2 where 2: "visits g b1 t ss b2 N2 seg2 new2 cs2" using Cons.IH R(1) by blast
    show ?case using visits_append [OF Cons.prems(3) 1 2] unfolding append.simps by blast
  qed
  then show ?case using less.prems(1) by blast
qed

subsection \<open>The whole search\<close>

lemma builder_init_data:
  "map_of (b_data (builder_init g)) = (\<lambda>l. if l \<in> dom (map_of g) then Some \<lparr>vd_dfn = 0, vd_head_dfn = 0\<rparr> else None)"
proof -
  have "map_of (map (\<lambda>l. (l, x)) (map fst g)) = (\<lambda>l. if l \<in> dom (map_of g) then Some x else None)" for x :: vertex_data
    by (induction g) (auto simp: fun_eq_iff)
  then show ?thesis by (simp add: builder_init_def cfg_labels_def)
qed

lemma builder_init_ready:
  assumes g: "cfg_ok g" and n: "length g \<le> 65535"
  shows "ready g (builder_init g) None" "white (builder_init g) = dom (map_of g)" "finished (builder_init g) = {}"
proof -
  let ?b = "builder_init g"
  note D = builder_init_data [of g]
  have k: "known ?b = dom (map_of g)" by (auto simp: known_def D split: if_splits)
  have d: "dfn ?b l = 0" "head_dfn ?b l = 0" if "l \<in> known ?b" for l
    using that unfolding k by (simp_all add: dfn_def head_dfn_def D)
  show w: "white ?b = dom (map_of g)" using d k by (auto simp: white_def)
  show f: "finished ?b = {}" using d by (auto simp: finished_def)
  have "map fst (b_data ?b) = map fst g" by (simp add: builder_init_def cfg_labels_def comp_def)
  then have ok: "bt_ok (b_data ?b)" using g unfolding cfg_ok_def nodes_ok_def bt_ok_def by simp
  have st: "b_stack ?b = []" "b_num ?b = 0" "b_cycles ?b = []" "b_containing ?b = []" by (simp_all add: builder_init_def)
  have "card (dom (map_of g)) \<le> length g"
    using card_mono [of "fst ` set g" "dom (map_of g)"] card_image_le [of "set g" fst] card_length [of g]
    by (simp add: dom_map_of_conv_image_fst)
  then have "tri (card (dom (map_of g))) \<le> tri 65535" using n by (intro tri_mono) simp
  moreover have "int (tri 65535) < DFN_INF" by (simp add: tri_def DFN_INF_def)
  ultimately have t: "int (tri (card (dom (map_of g)))) < DFN_INF" by linarith
  have "search_ok g ?b" unfolding search_ok_def st using ok k w f d white_known [of ?b] by (auto simp: DFN_INF_def)
  then show "ready g ?b None" unfolding ready_def st contained_ok_def target_ok_def using t w by simp
qed

text \<open>Every visit ends, and its components are an ordering of what is reached from the entry.\<close>

lemma search_result:
  assumes g: "cfg_ok g" and n: "length g \<le> 65535"
  shows "\<exists>b' N newb cs. visit_loop g (builder_init g) [push_task None label_entry] = Some b' \<and>
    composed g (builder_init g) None b' N newb (cs @ [WtoLabel label_entry]) \<and> bt_ok (b_data b') \<and>
    (\<forall>a c. (a, c) \<in> cfg_edges g \<longrightarrow> a \<in> N \<longrightarrow> c \<in> N) \<and> N \<subseteq> dom (map_of g) \<and>
    N = {l. (label_entry, l) \<in> (cfg_edges g)\<^sup>*}"
proof -
  let ?b = "builder_init g"
  note I = builder_init_ready [OF g n]
  have e: "label_entry \<in> dom (map_of g)" "(a, label_entry) \<notin> cfg_edges g" for a using g by (auto simp: cfg_ok_def)
  have "\<exists>b' N seg newb cs. visits g ?b None [label_entry] b' N seg newb cs \<and> (label_entry \<in> N \<longrightarrow> ends_in g label_entry cs)"
    by (rule visit_one [OF g I(1)]) (use e I(2) visits_all [OF g] in blast)+
  then obtain b' N seg newb cs where v: "visits g ?b None [label_entry] b' N seg newb cs"
    and en: "label_entry \<in> N \<longrightarrow> ends_in g label_entry cs" by blast
  have s: "searched g ?b [label_entry] b' N seg" and c: "composed g ?b None b' N newb cs"
    and r: "runs g ?b [push_task None label_entry] b'" using v unfolding visits_def by simp_all
  note C = searchedD [OF s]
  have seg: "seg = []" using C(12) by (auto simp: builder_init_def)
  have "label_entry \<in> N" using C(5,16) seg I(2) e(1) by auto
  then obtain cs0 where cs: "cs = cs0 @ [WtoLabel label_entry]" using en e(2) unfolding ends_in_def by blast
  have f: "finished b' = N" using finished_grows [OF s] I(3) by simp
  have cl: "\<forall>a c. (a, c) \<in> cfg_edges g \<longrightarrow> a \<in> N \<longrightarrow> c \<in> N" using C(8) f by blast
  have sub: "N \<subseteq> dom (map_of g)" using C(3) I(2) by blast
  have to: "l \<in> N" if "(label_entry, l) \<in> (cfg_edges g)\<^sup>*" for l
    using that by (induction rule: rtrancl_induct) (use \<open>label_entry \<in> N\<close> cl in blast)+
  have reached: "(label_entry, l) \<in> (cfg_edges g)\<^sup>*" if "l \<in> N" for l
    using C(13) [of l] that rtrancl_mono [of "Restr (cfg_edges g) (N \<union> set seg)" "cfg_edges g"] by auto
  have "N = {l. (label_entry, l) \<in> (cfg_edges g)\<^sup>*}" using to reached by blast
  then show ?thesis using runs_result [OF r] c [unfolded cs] search_okD(1) [OF C(1)] cl sub by blast
qed

subsection \<open>The final structure\<close>

text \<open>The head of each cycle of the final structure, and the index of the cycle around it.\<close>

definition heads_of_table :: "wto \<Rightarrow> (nat \<Rightarrow> label) \<Rightarrow> bool" where
  "heads_of_table w head \<longleftrightarrow>
     (\<forall>i<length (wto_cycles w). cycle_head (fst (wto_cycles w ! i)) = Some (head i) \<and>
       map_of (containing_cycle w) (head i) = Some i \<and> (\<forall>p. snd (wto_cycles w ! i) = Some p \<longrightarrow> p < i)) \<and>
     (\<forall>l i. map_of (containing_cycle w) l = Some i \<longrightarrow> i < length (wto_cycles w))"

lemma wto_head_spec:
  assumes h: "heads_of_table w head"
  shows "\<exists>r. wto_head w l = Some r \<and>
    (\<forall>k. r = Some k \<longrightarrow> (\<exists>i<length (wto_cycles w). k = head i \<and> (\<forall>j<length (wto_cycles w). l = head j \<longrightarrow> i < j)))"
proof (cases "map_of (containing_cycle w) l")
  case None
  then show ?thesis by (simp add: wto_head_def)
next
  case (Some i)
  have i: "i < length (wto_cycles w)" using h Some unfolding heads_of_table_def by blast
  obtain cs par where e: "wto_cycles w ! i = (cs, par)" by (cases "wto_cycles w ! i")
  have H: "\<And>j. j < length (wto_cycles w) \<Longrightarrow> cycle_head (fst (wto_cycles w ! j)) = Some (head j)"
    "\<And>j. j < length (wto_cycles w) \<Longrightarrow> map_of (containing_cycle w) (head j) = Some j"
    "\<And>p. par = Some p \<Longrightarrow> p < i"
    using h i e unfolding heads_of_table_def by auto
  have first: "cycle_head cs = Some (head i)" using H(1) [OF i] e by simp
  have own: "j = i" if "j < length (wto_cycles w)" "l = head j" for j using H(2) [OF that(1)] that(2) Some by simp
  show ?thesis
  proof (cases "head i = l")
    case False
    then have "wto_head w l = Some (Some (head i))" using Some i e first by (simp add: wto_head_def nth_opt_def)
    then show ?thesis using i own False by blast
  next
    case True
    show ?thesis
    proof (cases par)
      case None
      then have "wto_head w l = Some None" using Some i e first True by (simp add: wto_head_def nth_opt_def)
      then show ?thesis by blast
    next
      case par: (Some p)
      have p: "p < i" "p < length (wto_cycles w)" using H(3) [OF par] i by simp_all
      obtain ps q where q: "wto_cycles w ! p = (ps, q)" by (cases "wto_cycles w ! p")
      have "cycle_head ps = Some (head p)" using H(1) [OF p(2)] q by simp
      then have "wto_head w l = Some (Some (head p))"
        using Some i e first True par p(2) q by (simp add: wto_head_def nth_opt_def)
      then show ?thesis using p own by blast
    qed
  qed
qed

lemma heads_loop_ends:
  assumes h: "heads_of_table w head" and "i < length (wto_cycles w)"
  shows "\<exists>hs. heads_loop w (Some (head i)) heads = Some hs"
  using assms(2)
proof (induction i arbitrary: heads rule: less_induct)
  case (less i)
  obtain r where r: "wto_head w (head i) = Some r"
    "\<forall>k. r = Some k \<longrightarrow> (\<exists>j<length (wto_cycles w). k = head j \<and> (\<forall>m<length (wto_cycles w). head i = head m \<longrightarrow> j < m))"
    using wto_head_spec [OF h] by blast
  have e: "heads_loop w (Some (head i)) heads = heads_loop w r (heads @ [head i])"
    using r(1) by (simp add: heads_loop.simps [of w "Some (head i)"])
  show ?case
  proof (cases r)
    case None
    then show ?thesis using e by (simp add: heads_loop.simps [of w None])
  next
    case (Some k)
    then obtain j where "j < i" "k = head j" using r(2) less.prems by blast
    then show ?thesis using e Some less.IH [of j "heads @ [head i]"] less.prems by simp
  qed
qed

lemma collect_heads_ends:
  assumes h: "heads_of_table w head"
  shows "\<exists>hs. collect_heads w l = Some hs"
proof -
  obtain r where r: "wto_head w l = Some r" "\<forall>k. r = Some k \<longrightarrow> (\<exists>i<length (wto_cycles w). k = head i)"
    using wto_head_spec [OF h] by blast
  show ?thesis
  proof (cases r)
    case None
    then show ?thesis using r(1) by (simp add: collect_heads_def heads_loop.simps [of w None])
  next
    case (Some k)
    then obtain i where "i < length (wto_cycles w)" "k = head i" using r(2) by blast
    then show ?thesis using r(1) Some heads_loop_ends [OF h] by (simp add: collect_heads_def)
  qed
qed

lemma collect_nestings_ends: "heads_of_table w head \<Longrightarrow> \<exists>ns. collect_nestings w ls = Some ns"
proof (induction ls)
  case (Cons l ls)
  then show ?case using collect_heads_ends [of w head l] by auto
qed simp

lemma finalize_ends:
  assumes c: "composed g (builder_init g) None b N newb cs"
  shows "\<exists>w. finalize b = Some w \<and> wto_components w = cs"
proof -
  note C = composedD [OF c]
  have init: "b_cycles (builder_init g) = []" "b_top (builder_init g) = []" by (simp_all add: builder_init_def)
  let ?T = "b_cycles b"
  have closed: "cycle_closed b N j" if "j < length ?T" for j using C(5) [OF _ that] init by simp
  have idx: "j < k \<and> k < length ?T" if "j < length ?T" "BCycleIdx k \<in> set (fst (?T ! j))" for j k
    using closed [OF that(1)] that(2) unfolding cycle_closed_def by blast
  have "\<exists>built. build_cycles 0 (drop 0 ?T) = Some built \<and> built_from ?T 0 built"
    by (rule build_cycles_spec [OF idx]) simp_all
  then obtain built where b: "build_cycles 0 ?T = Some built" "built_from ?T 0 built" unfolding drop_0 by blast
  have len: "length built = length ?T" using b(2) by (simp add: built_from_def)
  have top: "b_top b = newb" "list_all2 (resolves ?T 0) newb cs" using C(3,6) init by simp_all
  obtain ds where ds: "convert_components 0 built newb = Some ds" "list_all2 (resolves ?T 0) newb ds"
    using convert_spec [OF b(2), of newb] resolves_index [OF top(2)] by blast
  have "ds = cs" by (rule resolves_all_unique [OF top(2) ds(2)])
  have par: "\<forall>p\<in>set ?T. case snd p of None \<Rightarrow> True | Some j \<Rightarrow> j < length built"
  proof
    fix p assume "p \<in> set ?T"
    then obtain j where j: "j < length ?T" "p = ?T ! j" by (auto simp: in_set_conv_nth)
    then show "case snd p of None \<Rightarrow> True | Some j \<Rightarrow> j < length built"
      using closed [OF j(1)] len unfolding cycle_closed_def by (auto split: option.split)
  qed
  have cont: "bt_ok (b_containing b)" "\<And>l i. map_of (b_containing b) l = Some i \<Longrightarrow> i < length ?T"
    using C(2) unfolding contained_ok_def by blast+
  have con: "\<forall>p\<in>set (b_containing b). snd p < length built"
    using cont(2) len map_of_is_SomeI [OF bt_ok_distinct [OF cont(1)]] by (metis prod.collapse)
  let ?w = "\<lparr>wto_components = cs, wto_cycles = zip built (map snd ?T), containing_cycle = b_containing b, wto_nesting = []\<rparr>"
  have "\<exists>h. cycle_head (built ! i) = Some h \<and> map_of (b_containing b) h = Some i" if i: "i < length ?T" for i
  proof -
    obtain body h where h: "fst (?T ! i) = body @ [BLabel h]" "map_of (b_containing b) h = Some i"
      using closed [OF i] unfolding cycle_closed_def by blast
    have "list_all2 (resolves ?T (Suc i)) (body @ [BLabel h]) (built ! i)"
      using b(2) i h(1) unfolding built_from_def by fastforce
    then obtain ds d where "built ! i = ds @ [d]" "resolves ?T (Suc i) (BLabel h) d"
      by (auto simp: list_all2_append1 list_all2_Cons1)
    then show ?thesis using h(2) by (auto elim!: resolves_labelE simp: cycle_head_rev)
  qed
  then obtain head where head: "\<And>i. i < length ?T \<Longrightarrow> cycle_head (built ! i) = Some (head i) \<and> map_of (b_containing b) (head i) = Some i"
    by metis
  have "p < i" if "i < length ?T" "snd (?T ! i) = Some p" for i p
    using closed [OF that(1)] that(2) unfolding cycle_closed_def by blast
  then have "heads_of_table ?w head"
    unfolding heads_of_table_def using head len cont(2) by simp
  then obtain ns where "collect_nestings ?w (map fst (b_data b)) = Some ns" using collect_nestings_ends by blast
  then have "finalize b = Some (?w\<lparr>wto_nesting := ns\<rparr>)"
    using b(1) par con ds(1) top(1) \<open>ds = cs\<close> by (simp add: finalize_def)
  then show ?thesis by simp
qed

lemma wto_new_ordering:
  assumes g: "cfg_ok g" and n: "length (cfg_labels g) \<le> 65535"
  shows "\<exists>w. wto_new g = Some w \<and> wto_ok g w \<and>
    set (nodes_of (wto_components w)) = {l. (label_entry, l) \<in> (cfg_edges g)\<^sup>*}"
proof -
  obtain b N newb cs where b: "visit_loop g (builder_init g) [push_task None label_entry] = Some b"
    "composed g (builder_init g) None b N newb (cs @ [WtoLabel label_entry])"
    "\<forall>a c. (a, c) \<in> cfg_edges g \<longrightarrow> a \<in> N \<longrightarrow> c \<in> N" "N \<subseteq> dom (map_of g)"
    "N = {l. (label_entry, l) \<in> (cfg_edges g)\<^sup>*}"
    using search_result [OF g] n by (auto simp: cfg_labels_def)
  note C = composedD [OF b(2)]
  obtain w where w: "finalize b = Some w" "wto_components w = cs @ [WtoLabel label_entry]"
    using finalize_ends [OF b(2)] by blast
  have "wto_new g = Some w" using b(1) w(1) by (simp add: wto_new_def)
  moreover have "wto_ok g w"
    unfolding wto_ok_def Let_def w(2)
  proof (intro conjI)
    show "stored_ok g (cs @ [WtoLabel label_entry])" by (rule C(7))
    have "case map_of g l of None \<Rightarrow> False | Some n \<Rightarrow> \<forall>k\<in>set (adj_children n). k \<in> N" if l: "l \<in> N" for l
    proof -
      obtain m where m: "map_of g l = Some m" using b(4) l by blast
      then have "set (adj_children m) \<subseteq> N" using b(3) l by (auto simp: cfg_edges_def)
      then show ?thesis using m by auto
    qed
    then show "list_all (\<lambda>l. case map_of g l of None \<Rightarrow> False
        | Some n \<Rightarrow> list_all (\<lambda>k. k \<in> set (nodes_of (cs @ [WtoLabel label_entry]))) (adj_children n))
        (nodes_of (cs @ [WtoLabel label_entry]))"
      unfolding list_all_iff C(8) by blast
  qed simp_all
  moreover have "set (nodes_of (wto_components w)) = {l. (label_entry, l) \<in> (cfg_edges g)\<^sup>*}"
    unfolding w(2) C(8) by (rule b(5))
  ultimately show ?thesis by blast
qed

lemma wto_new_ok: "cfg_ok g \<Longrightarrow> length (cfg_labels g) \<le> 65535 \<Longrightarrow> wto_new g = Some w \<Longrightarrow> wto_ok g w"
  using wto_new_ordering by fastforce

subsection \<open>The builder is correct\<close>

text \<open>C0: The builder returns a weak topological ordering of exactly what the entry reaches.  Take a graph
  whose parent and child sets agree, that has the entry and the exit, and in which no edge enters the
  entry or leaves the exit; let it have at most 65535 labels, so that the 32-bit visit number cannot
  reach the value reserved for finished vertices.  Then the build ends without a panic, the vertices
  of its components are those reachable from the entry, each in one place, the entry comes first, a
  later component has no edge to an earlier one at any level of nesting except to the head of a cycle
  that contains it, a cycle has its head first, and a vertex outside every cycle at its level has no
  edge to itself.\<close>

theorem wto_builder_correct:
  assumes "cfg_ok g" and "length (cfg_labels g) \<le> 65535"
  shows "\<exists>w. wto_new g = Some w \<and> wto_ok g w \<and>
    set (nodes_of (wto_components w)) = {l. (label_entry, l) \<in> (cfg_edges g)\<^sup>*}"
  by (rule wto_new_ordering [OF assms])

text \<open>Two nested loops and a label that is never reached.\<close>

definition nested_adjacency :: "(label \<times> label list) list" where
  "nested_adjacency =
     [(label_entry, [label_new 0]), (label_new 0, [label_new 1]), (label_new 1, [label_new 2, label_exit]),
      (label_new 2, [label_new 1, label_new 2]), (label_new 3, [label_exit])]"

definition nested_graph :: cfg where
  "nested_graph = (case cfg_from_adjacency_list nested_adjacency of Some g \<Rightarrow> g | None \<Rightarrow> [])"

lemma nested_graph_ok: "cfg_ok nested_graph"
proof -
  have ends: "label_entry \<notin> set cs \<and> (l \<noteq> label_exit \<or> cs = [])" if "(l, cs) \<in> set nested_adjacency" for l cs
  proof -
    have "list_all (\<lambda>(l, cs). label_entry \<notin> set cs \<and> (l \<noteq> label_exit \<or> cs = [])) nested_adjacency" by code_simp
    then show ?thesis using that unfolding list_all_iff by blast
  qed
  have "\<exists>g. cfg_from_adjacency_list nested_adjacency = Some g \<and> cfg_ok g \<and>
      cfg_edges g = adjacency_edges nested_adjacency"
    by (rule adjacency_list_ok) (rule ends)
  then show ?thesis by (auto simp: nested_graph_def)
qed

theorem wto_builder_correct_witness:
  "\<exists>w. wto_new nested_graph = Some w \<and> wto_ok nested_graph w \<and>
    wto_components w = [WtoLabel label_exit, WtoCycle [WtoCycle [WtoLabel (label_new 2)], WtoLabel (label_new 1)],
      WtoLabel (label_new 0), WtoLabel label_entry] \<and>
    (label_entry, label_new 2) \<in> (cfg_edges nested_graph)\<^sup>* \<and> (label_entry, label_new 3) \<notin> (cfg_edges nested_graph)\<^sup>*"
proof -
  have "length (cfg_labels nested_graph) = 6" by code_simp
  then have "length (cfg_labels nested_graph) \<le> 65535" by simp
  from wto_builder_correct [OF nested_graph_ok this] obtain w where w: "wto_new nested_graph = Some w" "wto_ok nested_graph w"
    "set (nodes_of (wto_components w)) = {l. (label_entry, l) \<in> (cfg_edges nested_graph)\<^sup>*}" by blast
  have "map_option wto_components (wto_new nested_graph) =
      Some [WtoLabel label_exit, WtoCycle [WtoCycle [WtoLabel (label_new 2)], WtoLabel (label_new 1)],
        WtoLabel (label_new 0), WtoLabel label_entry]" by code_simp
  then have c: "wto_components w = [WtoLabel label_exit, WtoCycle [WtoCycle [WtoLabel (label_new 2)], WtoLabel (label_new 1)],
      WtoLabel (label_new 0), WtoLabel label_entry]" using w(1) by simp
  have "label_new 2 \<in> set (nodes_of (wto_components w))" "label_new 3 \<notin> set (nodes_of (wto_components w))"
    unfolding c by (simp_all add: label_new_def label_entry_def label_exit_def)
  then show ?thesis using w c by blast
qed

end
