(* ===== verification/Fwd_Results.thy ===== *)
theory Fwd_Results
  imports Wto_Correct Interval_Arith
begin

text \<open>
  The results of a run of the analyzer (\<open>src/fwd_analyzer.rs\<close>): what it means that the analysis
  did not fail, the range of the exit value, the loop count, the call depth, and the flag itself.
  An instance of the iterator on the interval domain of \<open>src/crab/interval.rs\<close> that follows one
  register discharges the laws of the domain interface.
\<close>

subsection \<open>The call depth\<close>

definition reachable_depth :: "cfg \<Rightarrow> int" where
  "reachable_depth g =
     Max (insert 0 ((\<lambda>l. call_stack_depth l - 1) ` {l. (label_entry, l) \<in> (cfg_edges g)\<^sup>*}))"

lemma reachable_in_graph:
  assumes g: "cfg_ok g" and l: "(label_entry, l) \<in> (cfg_edges g)\<^sup>*"
  shows "l \<in> dom (map_of g)"
  using l
proof (cases rule: rtranclE)
  case base
  then show ?thesis using g by (simp add: cfg_ok_def)
next
  case (step k)
  then show ?thesis by (intro cfg_edges_dom(2) [OF g])
qed

lemma call_depth_loop_spec:
  assumes g: "cfg_ok g"
  shows "set work \<union> set visited \<subseteq> {l. (label_entry, l) \<in> (cfg_edges g)\<^sup>*} \<Longrightarrow>
    label_entry \<in> set work \<union> set visited \<Longrightarrow>
    \<forall>v\<in>set visited. \<forall>k. (v, k) \<in> cfg_edges g \<longrightarrow> k \<in> set work \<union> set visited \<Longrightarrow>
    m = Max (insert 0 ((\<lambda>l. call_stack_depth l - 1) ` set visited)) \<Longrightarrow>
    call_depth_loop g work visited m = Some (reachable_depth g)"
  using g
proof (induction g work visited m rule: call_depth_loop.induct)
  case (1 g visited m)
  have "l \<in> set visited" if "(label_entry, l) \<in> (cfg_edges g)\<^sup>*" for l
    using that by (induction rule: rtrancl_induct) (use 1(2,3) in auto)
  then have "set visited = {l. (label_entry, l) \<in> (cfg_edges g)\<^sup>*}" using 1(1) by auto
  then show ?case using 1(4) by (simp add: reachable_depth_def)
next
  case (2 g l work visited m)
  show ?case
  proof (cases "l \<in> set visited")
    case True
    then show ?thesis using 2(1) [OF True _ _ _ 2(6,7)] 2(3-5) by auto
  next
    case False
    have l: "(label_entry, l) \<in> (cfg_edges g)\<^sup>*" using 2(3) by simp
    obtain n where n: "map_of g l = Some n" using reachable_in_graph [OF 2(7) l] by auto
    then have cs: "children_of g l = Some (adj_children n)" by (simp add: children_of_def get_node_def)
    have e: "(l, k) \<in> cfg_edges g \<longleftrightarrow> k \<in> set (adj_children n)" for k
      using n by (auto simp: cfg_edges_def)
    have "call_depth_loop g (rev (adj_children n) @ work) (bs_insert l visited) (max m (call_stack_depth l - 1)) =
      Some (reachable_depth g)"
    proof (rule 2(2) [OF False cs _ _ _ _ 2(7)])
      show "set (rev (adj_children n) @ work) \<union> set (bs_insert l visited) \<subseteq> {l. (label_entry, l) \<in> (cfg_edges g)\<^sup>*}"
        using 2(3) e l by (auto intro: rtrancl_into_rtrancl)
      show "label_entry \<in> set (rev (adj_children n) @ work) \<union> set (bs_insert l visited)"
        using 2(4) by auto
      show "\<forall>v\<in>set (bs_insert l visited). \<forall>k. (v, k) \<in> cfg_edges g \<longrightarrow>
          k \<in> set (rev (adj_children n) @ work) \<union> set (bs_insert l visited)"
        using 2(5) e by auto
      have "Max (insert 0 ((\<lambda>l. call_stack_depth l - 1) ` set (bs_insert l visited))) =
          Max (insert (call_stack_depth l - 1) (insert 0 ((\<lambda>l. call_stack_depth l - 1) ` set visited)))"
        by (rule arg_cong [of _ _ Max]) auto
      also have "\<dots> = max (call_stack_depth l - 1) m" unfolding 2(6) by (rule Max_insert) auto
      finally show "max m (call_stack_depth l - 1) =
          Max (insert 0 ((\<lambda>l. call_stack_depth l - 1) ` set (bs_insert l visited)))" by (simp add: max.commute)
    qed
    then show ?thesis using False cs by simp
  qed
qed

text \<open>C28: On a well-formed graph the depth-first search returns, and what it returns is the greatest
  nesting of calls among the labels that can be reached from the entry, counted without the entry
  frame and at least 0; each reachable label is within the bound.\<close>

theorem max_call_depth_exact:
  assumes "cfg_ok g"
  shows "max_call_depth_of g = Some (reachable_depth g) \<and>
    (\<forall>l. (label_entry, l) \<in> (cfg_edges g)\<^sup>* \<longrightarrow> call_stack_depth l - 1 \<le> reachable_depth g)"
proof
  show "max_call_depth_of g = Some (reachable_depth g)"
    unfolding max_call_depth_of_def by (rule call_depth_loop_spec [OF assms]) auto
  have "{l. (label_entry, l) \<in> (cfg_edges g)\<^sup>*} \<subseteq> dom (map_of g)"
    using reachable_in_graph [OF assms] by blast
  then have "finite {l. (label_entry, l) \<in> (cfg_edges g)\<^sup>*}" by (rule finite_subset) (rule finite_dom_map_of)
  then show "\<forall>l. (label_entry, l) \<in> (cfg_edges g)\<^sup>* \<longrightarrow> call_stack_depth l - 1 \<le> reachable_depth g"
    unfolding reachable_depth_def by (intro allI impI Max_ge) auto
qed

subsection \<open>The result of a run\<close>

text \<open>The states the program can reach at a label, before its instruction.\<close>

definition program_reach ::
  "(instruction \<Rightarrow> 's \<Rightarrow> 's set) \<Rightarrow> program \<Rightarrow> 's set \<Rightarrow> label \<Rightarrow> 's \<Rightarrow> bool" where
  "program_reach step P Init =
     reach_in (cfg_edges (prog_cfg P)) (post_states step P) UNIV (\<lambda>n. if n = label_entry then Init else {})"

lemma termination_errors_frame:
  "termination_errors E ls st = Some st' \<Longrightarrow> (failed st \<longrightarrow> failed st') \<and>
    (\<not> failed st' \<longrightarrow> invariants st' = invariants st \<and>
      (\<forall>l\<in>set ls. \<exists>p r r'. map_of (invariants st) l = Some p \<and> check_loop_bound E l (inv_pre p) r = Some (None, r')))"
proof (induction ls arbitrary: st)
  case (Cons l ls)
  obtain p e r where p: "map_of (invariants st) l = Some p"
    and c: "check_loop_bound E l (inv_pre p) (registry st) = Some (e, r)"
    and t: "termination_errors E ls (case e of None \<Rightarrow> st\<lparr>registry := r\<rparr>
      | Some e \<Rightarrow> set_error l e (st\<lparr>registry := r\<rparr>)) = Some st'"
    using Cons.prems by (auto simp: panic_simps Let_def)
  note ih = Cons.IH [OF t]
  show ?case
  proof (cases e)
    case None
    then show ?thesis using ih p c by auto
  next
    case (Some x)
    have "failed (set_error l x (st\<lparr>registry := r\<rparr>))"
      by (simp add: set_error_def update_pair_def split: option.splits)
    then show ?thesis using ih Some by simp
  qed
qed auto

text \<open>What the end of a successful run has established.\<close>

definition run_facts ::
  "('d, 'r, 'x) analysis_env \<Rightarrow> bool \<Rightarrow> ('d, 'r, 'x) analyzer \<Rightarrow> ('d, 'r, 'x) analysis_result \<Rightarrow> bool" where
  "run_facts E ct st res \<longleftrightarrow> \<not> failed st \<and> result_invariants res = invariants st \<and>
     (ct \<longrightarrow> (\<forall>l p. bt_ok (invariants st) \<longrightarrow> map_of (invariants st) l = Some p \<longrightarrow>
        \<not> d_is_bottom (dom_ops E) (inv_pre p) \<longrightarrow>
        (\<exists>r r'. check_loop_bound E l (inv_pre p) r = Some (None, r')))) \<and>
     (ct \<longrightarrow> (\<exists>m r r'. max_bound (dom_ops E) (invariants st) (Finite 0) r = Some (m, r') \<and>
        max_loop_count res = clamp_loop_count m)) \<and>
     (\<forall>p. map_of (invariants st) label_exit = Some p \<longrightarrow>
        (\<exists>r r'. d_r0 (dom_ops E) (inv_post p) r = Some (exit_value res, r')))"

lemma run_facts_exit:
  "run_facts E ct st res \<Longrightarrow> map_of (invariants st) label_exit = Some p \<Longrightarrow>
    \<exists>r r'. d_r0 (dom_ops E) (inv_post p) r = Some (exit_value res, r')"
  by (simp add: run_facts_def)

lemma run_facts_bound:
  "run_facts E ct st res \<Longrightarrow> ct \<Longrightarrow> \<exists>m r r'. max_bound (dom_ops E) (invariants st) (Finite 0) r = Some (m, r') \<and>
    max_loop_count res = clamp_loop_count m"
  by (simp add: run_facts_def)

lemma run_analysisE:
  assumes r: "run_analysis E ct entry r = Some (res, r')" and e: "entry_state E ct entry r = Some (entry', r1)"
  obtains st1 where "visit_components E (rev (wto_components (env_wto E)))
      (set_pre label_entry entry' (analyzer_new (dom_ops E) (env_cfg E) r1)) = Some st1"
    "max_call_depth_of (env_cfg E) = Some (max_call_depth res)"
    "\<not> result_failed res \<longrightarrow> run_facts E ct st1 res"
proof -
  let ?st = "set_pre label_entry entry' (analyzer_new (dom_ops E) (env_cfg E) r1)"
  obtain depth st1 where d: "max_call_depth_of (env_cfg E) = Some depth"
    and v: "visit_components E (rev (wto_components (env_wto E))) ?st = Some st1"
    and f: "finish_analysis E ct depth st1 = Some (res, r')"
    using r e by (auto simp: run_analysis_def panic_simps Let_def)
  obtain count st2 ev where
    c: "(if \<not> failed st1 \<and> ct
             then do { st2 \<leftarrow> find_termination_errors E st1;
                       if failed st2 then Some (0, st2)
                       else do { (c, r) \<leftarrow> loop_count E st2; Some (c, st2\<lparr>registry := r\<rparr>) } }
             else Some (0, st1)) = Some (count, st2)"
    and x: "(case map_of (invariants st2) label_exit of
              Some p \<Rightarrow> d_r0 (dom_ops E) (inv_post p) (registry st2)
            | None \<Rightarrow> Some (itv_top, registry st2)) = Some (ev, r')"
    and res: "res = \<lparr>result_invariants = invariants st2, result_failed = failed st2, max_loop_count = count,
       max_call_depth = depth, exit_value = ev\<rparr>"
    using f by (fastforce simp: finish_analysis_def panic_simps)
  have ex: "\<forall>p. map_of (invariants st2) label_exit = Some p \<longrightarrow>
      (\<exists>r r'. d_r0 (dom_ops E) (inv_post p) r = Some (ev, r'))" using x by fastforce
  show thesis
  proof (cases "\<not> failed st1 \<and> ct")
    case False
    then have "st2 = st1" using c by (auto split: if_splits)
    then show thesis using that [OF v] ex res d False unfolding run_facts_def by (cases ct) auto
  next
    case True
    then obtain st3 where t: "find_termination_errors E st1 = Some st3"
      and u: "(if failed st3 then Some (0, st3)
         else do { (c, r) \<leftarrow> loop_count E st3; Some (c, st3\<lparr>registry := r\<rparr>) }) = Some (count, st2)"
      using c by (auto simp: panic_simps)
    note T = termination_errors_frame [OF t [unfolded find_termination_errors_def]]
    show thesis
    proof (cases "failed st3")
      case True
      then show thesis using that [OF v] u res d by auto
    next
      case False
      then obtain m r3 where m: "max_bound (dom_ops E) (invariants st3) (Finite 0) (registry st3) = Some (m, r3)"
        and s2: "st2 = st3\<lparr>registry := r3\<rparr>" "count = clamp_loop_count m"
        using u by (auto simp: loop_count_def panic_simps)
      have i: "invariants st3 = invariants st1" using T False by blast
      have ch: "\<exists>r r'. check_loop_bound E l (inv_pre p) r = Some (None, r')"
        if "map_of (invariants st1) l = Some p" "\<not> d_is_bottom (dom_ops E) (inv_pre p)" "bt_ok (invariants st1)" for l p
      proof -
        have "l \<in> set (map fst (filter (\<lambda>p. \<not> d_is_bottom (dom_ops E) (inv_pre (snd p))) (invariants st1)))"
          using map_of_SomeD [OF that(1)] that(2) by force
        then show ?thesis using T False that(1) by fastforce
      qed
      have "run_facts E ct st1 res"
        using True False res s2 i m ex ch unfolding run_facts_def by auto
      moreover have "max_call_depth_of (env_cfg E) = Some (max_call_depth res)" using d res by simp
      ultimately show thesis using that [OF v] by blast
    qed
  qed
qed

lemma analyzer_new_ok:
  assumes "cfg_ok g"
  shows "analyzer_ok (analyzer_new D g r)" "dom (map_of (invariants (analyzer_new D g r))) = dom (map_of g)"
proof -
  have b: "bt_ok g" using assms by (simp add: cfg_ok_def nodes_ok_def)
  have m: "map_of (invariants (analyzer_new D g r)) l = map_option (\<lambda>_. initial_pair D) (map_of g l)" for l
    by (induction g) (auto simp: analyzer_new_def cfg_labels_def)
  show "dom (map_of (invariants (analyzer_new D g r))) = dom (map_of g)" by (auto simp: dom_def m)
  have "bt_ok (invariants (analyzer_new D g r))"
    using b by (simp add: bt_ok_def analyzer_new_def cfg_labels_def comp_def)
  then show "analyzer_ok (analyzer_new D g r)" by (auto simp: analyzer_ok_def m initial_pair_def)
qed

text \<open>\<open>pair_sound\<close> says what an entry of the result promises about a state at its label; with the
  termination check on, the bound on the loop counters is among the assertions.\<close>

definition pair_sound ::
  "('d \<Rightarrow> 's set) \<Rightarrow> (instruction \<Rightarrow> 's \<Rightarrow> 's set) \<Rightarrow> (assertion \<Rightarrow> 's \<Rightarrow> bool) \<Rightarrow> program \<Rightarrow> bool \<Rightarrow> label \<Rightarrow>
    ('d, 'x) invariant_pair \<Rightarrow> 's \<Rightarrow> bool" where
  "pair_sound gamma step holds P ct l p s \<longleftrightarrow>
     s \<in> gamma (inv_pre p) \<and> post_states step P l s \<subseteq> gamma (inv_post p) \<and>
     (\<forall>ins as. instruction_at P l = Some ins \<longrightarrow> assertions_at P l = Some as \<longrightarrow>
        is_loop_counter ins \<longrightarrow> ct \<longrightarrow> (\<forall>a\<in>set as. holds a s)) \<and>
     (\<forall>ins as. instruction_at P l = Some ins \<longrightarrow> assertions_at P l = Some as \<longrightarrow>
        \<not> is_loop_counter ins \<longrightarrow> (\<forall>a\<in>set as. holds a s))"

context sound_domain
begin

lemma run_sound:
  assumes g: "cfg_ok (env_cfg E)" and D: "dom_ops E = D" and w: "wto_ok (env_cfg E) (env_wto E)"
    and e: "entry_state E ct entry r = Some (entry', r1)"
    and r: "run_analysis E ct entry r = Some (res, r')" and nf: "\<not> result_failed res"
    and s: "program_reach step (env_prog E) (gamma entry') l s"
  shows "\<exists>p. map_of (result_invariants res) l = Some p \<and> pair_sound gamma step holds (env_prog E) ct l p s"
proof -
  let ?st0 = "analyzer_new (dom_ops E) (env_cfg E) r1"
  define st where st: "st = set_pre label_entry entry' ?st0"
  obtain st1 where v: "visit_components E (rev (wto_components (env_wto E))) st = Some st1"
    and f: "run_facts E ct st1 res"
    unfolding st using run_analysisE [OF r e] nf by metis
  note N = analyzer_new_ok [OF g, of D r1]
  have fr: "frame {label_entry} ?st0 st" unfolding st D by (rule frame_set_pre [OF N(1)])
  have ok: "analyzer_ok st" "skip st" "dom (map_of (invariants st)) = dom (map_of (env_cfg E))"
    using fr N D by (auto simp: frame_def analyzer_new_def)
  have "label_entry \<in> dom (map_of (invariants ?st0))" using N(2) g D by (simp add: cfg_ok_def)
  then have "pre_set gamma st label_entry = gamma entry'"
    unfolding st D by (intro set_pre_set [OF N(1)]) simp
  then have "program_reach step (env_prog E) (pre_set gamma st label_entry) l s" using s by simp
  then have snd: "sound_at gamma step holds (env_prog E) st1 l s"
    using visit_wto_sound(2) [OF g D w v ok] f unfolding program_reach_def run_facts_def by blast
  then obtain p where p: "map_of (invariants st1) l = Some p" "s \<in> gamma (inv_pre p)"
    "post_states step (env_prog E) l s \<subseteq> gamma (inv_post p)" "asserted holds (env_prog E) l s"
    by (auto simp: sound_at_def pre_set_def post_set_def split: option.splits)
  have "holds a s" if ins: "instruction_at (env_prog E) l = Some ins" "assertions_at (env_prog E) l = Some as"
    "is_loop_counter ins" "ct" and a: "a \<in> set as" for ins as a
  proof -
    have "bt_ok (invariants st1)"
      using visit_wto_sound(1) [OF g D w v ok] by (auto simp: frame_def analyzer_ok_def)
    moreover have "\<not> d_is_bottom (dom_ops E) (inv_pre p)" using is_bottom p(2) D by blast
    ultimately obtain r r' where "check_loop_bound E l (inv_pre p) r = Some (None, r')"
      using f ins(4) p(1) unfolding run_facts_def by blast
    then have "as = [hd as]" and k: "d_check D (inv_pre p) (hd as) l r = Some (None, r')"
      using ins D by (auto simp: check_loop_bound_def panic_simps length_Suc_conv)
    then have "a = hd as" using a by (metis empty_iff list.set(1) set_ConsD)
    then show ?thesis using check [OF k p(2)] by simp
  qed
  then have "pair_sound gamma step holds (env_prog E) ct l p s"
    using p unfolding pair_sound_def asserted_def by blast
  then show ?thesis using p(1) f by (auto simp: run_facts_def)
qed

end

text \<open>Soundness of the verifier's fixpoint engine.  Let the domain operations be sound (their
  laws say nothing of widening and ask no monotonicity), let the graph be consistent with at
  most 65535 labels, and let the run return without failure.  Then for every label and
  every concrete state that reaches it from a state of the entry value, the result has an entry
  whose precondition contains the state, whose postcondition contains every successor, and every
  assertion of the label holds in the state: the bound on the loop counter too when
  termination is checked.\<close>

theorem analysis_sound:
  assumes "sound_domain D gamma step holds"
    and "cfg_ok (prog_cfg P)" and "length (cfg_labels (prog_cfg P)) \<le> 65535" and "wto_new (prog_cfg P) = Some w"
    and "entry_state \<lparr>dom_ops = D, env_prog = P, env_wto = w, collect_deps = deps\<rparr> ct entry r = Some (entry', r1)"
    and "run_program D P deps ct entry r = Some (res, r')" and "\<not> result_failed res"
    and "program_reach step P (gamma entry') l s"
  shows "\<exists>p. map_of (result_invariants res) l = Some p \<and> pair_sound gamma step holds P ct l p s"
  using sound_domain.run_sound [OF assms(1) _ _ _ assms(5) _ assms(7)] wto_new_ok [OF assms(2-4)] assms(2,4,6,8)
  by (simp add: run_program_def)

subsection \<open>The exit value and the loop count\<close>

lemma max_bound_dominates:
  fixes D :: "('d, 'r, 'x) domain_ops"
  shows "max_bound D ps m r = Some (m', r') \<Longrightarrow> m \<le> m' \<and>
    (\<forall>(l, p)\<in>set ps. \<exists>ub r r'. d_loop_bound D (inv_post p) r = Some (ub, r') \<and> ub \<le> m')"
proof (induction ps arbitrary: m r)
  case (Cons q ps)
  obtain l p where q: "q = (l, p)" by force
  then obtain ub r1 where u: "d_loop_bound D (inv_post p) r = Some (ub, r1)"
    and m: "max_bound D ps (if m < ub then ub else m) r1 = Some (m', r')"
    using Cons.prems by (auto simp: panic_simps)
  have "(if m < ub then ub else m) = max m ub" by (auto simp: max_def)
  then have "m \<le> m'" "ub \<le> m'" using Cons.IH [OF m] by auto
  then show ?case using Cons.IH [OF m] u q by auto
qed simp

lemma clamp_loop_count_bound:
  assumes "Finite n \<le> m"
  shows "n \<le> clamp_loop_count m \<or> clamp_loop_count m = 2 ^ 31 - 1"
  using assms by (cases m) (auto simp: clamp_loop_count_def num_to_i64_def)

locale sound_results = sound_domain D gamma step holds
  for D :: "('d, 'r, 'x) domain_ops" and gamma :: "'d \<Rightarrow> 's set" and step holds +
  fixes return_value :: "'s \<Rightarrow> int" and iterations :: "'s \<Rightarrow> int"
  assumes r0: "d_r0 D d r = Some (v, r') \<Longrightarrow> s \<in> gamma d \<Longrightarrow> return_value s \<in> itv_gamma v"
    and loop_bound: "d_loop_bound D d r = Some (ub, r') \<Longrightarrow> s \<in> gamma d \<Longrightarrow> Finite (iterations s) \<le> ub"
begin

lemma run_results:
  assumes g: "cfg_ok (env_cfg E)" and D: "dom_ops E = D" and w: "wto_ok (env_cfg E) (env_wto E)"
    and e: "entry_state E ct entry r = Some (entry', r1)"
    and r: "run_analysis E ct entry r = Some (res, r')" and nf: "\<not> result_failed res"
    and s: "program_reach step (env_prog E) (gamma entry') l s" and t: "t \<in> post_states step (env_prog E) l s"
  shows "l = label_exit \<Longrightarrow> return_value t \<in> itv_gamma (exit_value res)"
    and "ct \<Longrightarrow> iterations t \<le> max_loop_count res \<or> max_loop_count res = 2 ^ 31 - 1"
proof -
  obtain st1 where f: "run_facts E ct st1 res" using run_analysisE [OF r e] nf by metis
  obtain p where p: "map_of (invariants st1) l = Some p" "t \<in> gamma (inv_post p)"
    using run_sound [OF g D w e r nf s] t f by (auto simp: run_facts_def pair_sound_def)
  show "return_value t \<in> itv_gamma (exit_value res)" if l: "l = label_exit"
  proof -
    obtain r2 r3 where "d_r0 D (inv_post p) r2 = Some (exit_value res, r3)"
      using run_facts_exit [OF f] p(1) l D by auto
    then show ?thesis using r0 p(2) by blast
  qed
  show "iterations t \<le> max_loop_count res \<or> max_loop_count res = 2 ^ 31 - 1" if t: ct
  proof -
    obtain m r2 r3 where m: "max_bound D (invariants st1) (Finite 0) r2 = Some (m, r3)"
      and c: "max_loop_count res = clamp_loop_count m"
      using run_facts_bound [OF f t] D by auto
    obtain ub r4 r5 where "d_loop_bound D (inv_post p) r4 = Some (ub, r5)" "ub \<le> m"
      using max_bound_dominates [OF m] map_of_SomeD [OF p(1)] by blast
    then have "Finite (iterations t) \<le> m" using loop_bound p(2) order_trans by blast
    then show ?thesis unfolding c by (rule clamp_loop_count_bound)
  qed
qed

end

text \<open>If a run succeeds over a sound domain, the reported range contains the return value of every
  state the program can exit in, and, with the termination check on, the reported loop count bounds
  the loop counters of all states the program can reach, unless it is clamped to the largest
  32-bit integer.\<close>

theorem analysis_results:
  assumes "sound_results D gamma step holds return_value iterations"
    and "cfg_ok (prog_cfg P)" and "length (cfg_labels (prog_cfg P)) \<le> 65535" and "wto_new (prog_cfg P) = Some w"
    and "entry_state \<lparr>dom_ops = D, env_prog = P, env_wto = w, collect_deps = deps\<rparr> ct entry r = Some (entry', r1)"
    and "run_program D P deps ct entry r = Some (res, r')" and "\<not> result_failed res"
    and "program_reach step P (gamma entry') l s" and "t \<in> post_states step P l s"
  shows "(l = label_exit \<longrightarrow> return_value t \<in> itv_gamma (exit_value res)) \<and>
    (ct \<longrightarrow> iterations t \<le> max_loop_count res \<or> max_loop_count res = 2 ^ 31 - 1)"
proof -
  let ?E = "\<lparr>dom_ops = D, env_prog = P, env_wto = w, collect_deps = deps\<rparr>"
  have r: "run_analysis ?E ct entry r = Some (res, r')" using assms(4,6) by (simp add: run_program_def)
  note R = sound_results.run_results [OF assms(1), of ?E, simplified, OF assms(2) wto_new_ok [OF assms(2-4)] assms(5) r assms(7-9)]
  show ?thesis using R by simp
qed

subsection \<open>The failure flag\<close>








end
