(* ===== verification/Register_Analysis.thy ===== *)
theory Register_Analysis
  imports Fwd_Results Interval_Bits
begin

text \<open>
  An instance of the analyzer of \<open>src/fwd_analyzer.rs\<close>: the interval domain of
  \<open>src/crab/interval.rs\<close> follows the return register through moves, additions and
  comparisons with constants, and forgets it at every other write.  Its operations satisfy the laws of the domain
  interface, and a small program with a loop is analysed with it.
\<close>

subsection \<open>The register and its abstract value\<close>

text \<open>The value of the register is a signed 64-bit number.\<close>

definition bin_step :: "bin_ins \<Rightarrow> int \<Rightarrow> int set" where
  "bin_step b s =
     (if bin_dst b \<noteq> R0_RETURN_VALUE then {s}
      else (case (bin_is64 b, bin_op b, bin_v b) of
          (True, MOV, Imm k) \<Rightarrow> {sint k}
        | (True, ADD, Imm k) \<Rightarrow> {signed_take_bit 63 (s + sint k)}
        | _ \<Rightarrow> UNIV))"

definition assume_range :: "condition \<Rightarrow> interval" where
  "assume_range c =
     (if cond_left c = R0_RETURN_VALUE \<and> cond_is64 c
      then (case (cond_op c, cond_right c) of
          (SLT_c, Imm k) \<Rightarrow> itv_new MinusInfinity (Finite (sint k - 1))
        | (SGE_c, Imm k) \<Rightarrow> itv_new (Finite (sint k)) PlusInfinity
        | _ \<Rightarrow> itv_top)
      else itv_top)"

fun register_step :: "instruction \<Rightarrow> int \<Rightarrow> int set" where
  "register_step (Bin b) s = bin_step b s"
| "register_step (Assume c imp) s = {s} \<inter> itv_gamma (assume_range c)"
| "register_step (Jmp c l) s = {s}"
| "register_step (Exit p) s = {s}"
| "register_step (IncrementLoopCounter l) s = {s}"
| "register_step (Undefined k) s = {s}"
| "register_step _ s = UNIV"

fun register_holds :: "assertion \<Rightarrow> int \<Rightarrow> bool" where
  "register_holds (ValidDivisor r _ _) s \<longleftrightarrow> r \<noteq> R0_RETURN_VALUE \<or> s \<noteq> 0"
| "register_holds _ s = True"

definition i64_range :: interval where
  "i64_range = itv_new (Finite (- (2 ^ 63))) (Finite (2 ^ 63 - 1))"

definition bin_transform :: "bin_ins \<Rightarrow> interval \<Rightarrow> interval option" where
  "bin_transform b d =
     (if bin_dst b \<noteq> R0_RETURN_VALUE then Some d
      else (case (bin_is64 b, bin_op b, bin_v b) of
          (True, MOV, Imm k) \<Rightarrow> Some (itv_from_number (sint k))
        | (True, ADD, Imm k) \<Rightarrow>
            do { s \<leftarrow> itv_add d (itv_from_number (sint k));
                 Some (if itv_is_included_in s i64_range then s else itv_top) }
        | _ \<Rightarrow> Some itv_top))"

fun register_transform :: "interval \<Rightarrow> instruction \<Rightarrow> interval option" where
  "register_transform d (Bin b) = bin_transform b d"
| "register_transform d (Assume c imp) = Some (itv_meet d (assume_range c))"
| "register_transform d (Jmp c l) = Some d"
| "register_transform d (Exit p) = Some d"
| "register_transform d (IncrementLoopCounter l) = Some d"
| "register_transform d (Undefined k) = Some d"
| "register_transform d _ = Some itv_top"

fun register_check :: "interval \<Rightarrow> assertion \<Rightarrow> label \<Rightarrow> verification_error option" where
  "register_check d (ValidDivisor r _ _) l =
     (if r = R0_RETURN_VALUE \<and> itv_contains d 0 then Some \<lparr>ve_message = ''division by zero'', ve_label = Some l\<rparr> else None)"
| "register_check d _ l = None"

definition register_ops :: "(interval, unit, unit) domain_ops" where
  "register_ops =
     \<lparr>d_bottom = itv_bottom, d_is_bottom = itv_is_bottom,
      d_included = (\<lambda>a b r. Some (itv_is_included_in a b, r)),
      d_join_assign = (\<lambda>a b r. Some (itv_join a b, r)), d_join = (\<lambda>a b r. Some (itv_join a b, r)),
      d_widen = (\<lambda>a b _ r. Some (itv_widen a b, r)), d_meet = (\<lambda>a b. Some (itv_meet a b)),
      d_narrow = (\<lambda>a b. Some (itv_narrow a b)),
      d_check = (\<lambda>d a l r. Some (register_check d a l, r)),
      d_transform = (\<lambda>d ins r. do { d' \<leftarrow> register_transform d ins; Some (Inr d', r) }),
      d_deps = (\<lambda>_ _ r. Some ((), r)), d_init_counter = (\<lambda>d _ r. Some (d, r)),
      d_loop_bound = (\<lambda>_ r. Some (Finite 0, r)), d_r0 = (\<lambda>d r. Some (d, r))\<rparr>"

lemma bin_transform_sound:
  assumes "bin_transform b d = Some d'" "s \<in> itv_gamma d"
  shows "bin_step b s \<subseteq> itv_gamma d'"
proof -
  have add: "signed_take_bit 63 (s + sint k) \<in> itv_gamma (if itv_is_included_in r i64_range then r else itv_top)"
    if "itv_add d (itv_from_number (sint k)) = Some r" for k :: "64 word" and r
  proof (cases "itv_is_included_in r i64_range")
    case True
    have r: "s + sint k \<in> itv_gamma r" using add_sound [OF assms(2) _ that] by simp
    then have "s + sint k \<in> itv_gamma i64_range" using gamma_included [OF True] by blast
    then have "signed_take_bit 63 (s + sint k) = s + sint k"
      by (intro signed_take_bit_int_eq_self) (auto simp: i64_range_def gamma_new)
    then show ?thesis using r True by simp
  qed simp
  show ?thesis
    using assms unfolding bin_transform_def bin_step_def
    by (auto simp: panic_simps split: if_splits bool.splits bin_op.splits operand.splits dest!: add)
qed

interpretation register: sound_results register_ops itv_gamma register_step register_holds "\<lambda>s. s" "\<lambda>_. 0"
proof
  fix d d' :: interval and ins r r' s
  assume t: "d_transform register_ops d ins r = Some (Inr d', r')" and s: "s \<in> itv_gamma d"
  have "register_transform d ins = Some d'" using t by (auto simp: register_ops_def panic_simps)
  then show "register_step ins s \<subseteq> itv_gamma d'"
    using s bin_transform_sound by (cases ins) (auto simp: gamma_meet)
next
  fix d :: interval and q l r r' s
  assume "d_check register_ops d q l r = Some (None, r')" "s \<in> itv_gamma d"
  then show "register_holds q s"
    by (cases q) (auto simp: register_ops_def gamma_contains split: if_splits)
qed (use gamma_included gamma_join gamma_narrow in \<open>auto simp: register_ops_def gamma_meet\<close>)

subsection \<open>A program with a loop\<close>

text \<open>\<open>r0 = 0; while (r0 < 10) r0 += 1; exit\<close>, with the assertion that the result is not zero.\<close>

definition count_adjacency :: "(label \<times> label list) list" where
  "count_adjacency =
     [(label_entry, [label_new 0]), (label_new 0, [label_new 1]),
      (label_new 1, [label_new_with_to 1 2, label_new_with_to 1 4]),
      (label_new_with_to 1 2, [label_new 2]), (label_new 2, [label_new 1]),
      (label_new_with_to 1 4, [label_exit])]"

definition r0_bin :: "bin_op \<Rightarrow> 64 word \<Rightarrow> instruction" where
  "r0_bin x k = Bin \<lparr>bin_op = x, bin_dst = R0_RETURN_VALUE, bin_v = Imm k, bin_is64 = True, bin_lddw = False\<rparr>"

definition r0_assume :: "condition_op \<Rightarrow> 64 word \<Rightarrow> instruction" where
  "r0_assume x k = Assume \<lparr>cond_op = x, cond_left = R0_RETURN_VALUE, cond_right = Imm k, cond_is64 = True\<rparr> True"

definition count_instructions :: "(label \<times> instruction) list" where
  "count_instructions =
     [(label_entry, Undefined 0), (label_new 0, r0_bin MOV 0),
      (label_new 1, Jmp None (label_new 1)),
      (label_new_with_to 1 2, r0_assume SLT_c 10), (label_new 2, r0_bin ADD 1),
      (label_new_with_to 1 4, r0_assume SGE_c 10), (label_exit, Exit [])]"

definition count_program :: program where
  "count_program =
     \<lparr>prog_cfg = (case cfg_from_adjacency_list count_adjacency of Some g \<Rightarrow> g | None \<Rightarrow> []),
      instruction_at = map_of count_instructions,
      assertions_at = (\<lambda>l. Some (if l = label_exit then [ValidDivisor R0_RETURN_VALUE False False] else []))\<rparr>"

definition count_graph :: cfg where
  "count_graph =
     [(label_entry, \<lparr>adj_parents = [], adj_children = [label_new 0]\<rparr>),
      (label_new 0, \<lparr>adj_parents = [label_entry], adj_children = [label_new 1]\<rparr>),
      (label_new 1, \<lparr>adj_parents = [label_new 0, label_new 2],
         adj_children = [label_new_with_to 1 2, label_new_with_to 1 4]\<rparr>),
      (label_new_with_to 1 2, \<lparr>adj_parents = [label_new 1], adj_children = [label_new 2]\<rparr>),
      (label_new_with_to 1 4, \<lparr>adj_parents = [label_new 1], adj_children = [label_exit]\<rparr>),
      (label_new 2, \<lparr>adj_parents = [label_new_with_to 1 2], adj_children = [label_new 1]\<rparr>),
      (label_exit, \<lparr>adj_parents = [label_new_with_to 1 4], adj_children = []\<rparr>)]"

lemma count_program_graph: "prog_cfg count_program = count_graph"
  by code_simp

definition count_wto :: wto where
  "count_wto = (let cyc = [WtoLabel (label_new 2), WtoLabel (label_new_with_to 1 2), WtoLabel (label_new 1)] in
    \<lparr>wto_components = [WtoLabel label_exit, WtoLabel (label_new_with_to 1 4), WtoCycle cyc, WtoLabel (label_new 0), WtoLabel label_entry],
     wto_cycles = [(cyc, None)],
     containing_cycle = [(label_new 1, 0), (label_new_with_to 1 2, 0), (label_new 2, 0)],
     wto_nesting = [(label_entry, []), (label_new 0, []), (label_new 1, []), (label_new_with_to 1 2, [label_new 1]),
       (label_new_with_to 1 4, []), (label_new 2, [label_new 1]), (label_exit, [])]\<rparr>)"

lemma count_wto_new: "wto_new count_graph = Some count_wto"
  by code_simp

lemma count_graph_ok: "cfg_ok count_graph" "cfg_edges count_graph = adjacency_edges count_adjacency"
proof -
  have ends: "label_entry \<notin> set cs \<and> (l \<noteq> label_exit \<or> cs = [])" if "(l, cs) \<in> set count_adjacency" for l cs
  proof -
    have "list_all (\<lambda>(l, cs). label_entry \<notin> set cs \<and> (l \<noteq> label_exit \<or> cs = [])) count_adjacency" by code_simp
    then show ?thesis using that unfolding list_all_iff by blast
  qed
  have "\<exists>g. cfg_from_adjacency_list count_adjacency = Some g \<and> cfg_ok g \<and>
      cfg_edges g = adjacency_edges count_adjacency"
    by (rule adjacency_list_ok) (rule ends)
  then obtain g where g: "cfg_from_adjacency_list count_adjacency = Some g" "cfg_ok g"
    "cfg_edges g = adjacency_edges count_adjacency" by (elim exE conjE)
  have "prog_cfg count_program = g" using g(1) by (simp add: count_program_def)
  then have "g = count_graph" using count_program_graph by simp
  then show "cfg_ok count_graph" "cfg_edges count_graph = adjacency_edges count_adjacency" using g(2,3) by simp_all
qed

lemma count_run:
  "\<exists>res. run_program register_ops count_program False True itv_top () = Some (res, ()) \<and> \<not> result_failed res \<and>
    exit_value res = itv_from_number 10"
proof -
  have "map_option (\<lambda>(res, _). (result_failed res, exit_value res))
      (run_program register_ops count_program False True itv_top ()) = Some (False, itv_from_number 10)"
    by code_simp
  then show ?thesis by (auto simp: map_option_eq_Some)
qed

lemma count_entry:
  "entry_state \<lparr>dom_ops = register_ops, env_prog = count_program, env_wto = count_wto, collect_deps = False\<rparr>
    True itv_top () = Some (itv_top, ())"
  by code_simp

subsection \<open>Executions of the program\<close>

lemma count_instruction:
  "instruction_at count_program label_entry = Some (Undefined 0)"
  "instruction_at count_program (label_new 0) = Some (r0_bin MOV 0)"
  "instruction_at count_program (label_new 1) = Some (Jmp None (label_new 1))"
  "instruction_at count_program (label_new_with_to 1 2) = Some (r0_assume SLT_c 10)"
  "instruction_at count_program (label_new 2) = Some (r0_bin ADD 1)"
  "instruction_at count_program (label_new_with_to 1 4) = Some (r0_assume SGE_c 10)"
  "instruction_at count_program label_exit = Some (Exit [])"
  by (simp_all add: count_program_def count_instructions_def label_new_def label_new_with_to_def label_entry_def
      label_exit_def)

lemma count_step:
  assumes "program_reach register_step count_program UNIV a s" "(a, b) \<in> adjacency_edges count_adjacency"
    "instruction_at count_program a = Some ins" "t \<in> register_step ins s"
  shows "program_reach register_step count_program UNIV b t"
proof -
  have "(a, b) \<in> cfg_edges (prog_cfg count_program)"
    using assms(2) unfolding count_program_graph count_graph_ok(2) .
  moreover have "t \<in> post_states register_step count_program a s" using assms(3,4) by (simp add: post_states_def)
  ultimately show ?thesis
    using reach_in.step [OF assms(1) [unfolded program_reach_def]] unfolding program_reach_def by blast
qed

lemma adjacency_edgesI: "(l, cs) \<in> set adj \<Longrightarrow> c \<in> set cs \<Longrightarrow> (l, c) \<in> adjacency_edges adj"
  by (auto simp: adjacency_edges_def)

lemma count_edge:
  "(label_entry, label_new 0) \<in> adjacency_edges count_adjacency"
  "(label_new 0, label_new 1) \<in> adjacency_edges count_adjacency"
  "(label_new 1, label_new_with_to 1 2) \<in> adjacency_edges count_adjacency"
  "(label_new 1, label_new_with_to 1 4) \<in> adjacency_edges count_adjacency"
  "(label_new_with_to 1 2, label_new 2) \<in> adjacency_edges count_adjacency"
  "(label_new 2, label_new 1) \<in> adjacency_edges count_adjacency"
  "(label_new_with_to 1 4, label_exit) \<in> adjacency_edges count_adjacency"
  by (rule adjacency_edgesI [of _ "[label_new 0]"], simp_all add: count_adjacency_def)
    (rule adjacency_edgesI [of _ "[label_new 1]"], simp, simp,
      rule adjacency_edgesI [of _ "[label_new_with_to 1 2, label_new_with_to 1 4]"], simp, simp,
      rule adjacency_edgesI [of _ "[label_new_with_to 1 2, label_new_with_to 1 4]"], simp, simp,
      rule adjacency_edgesI [of _ "[label_new 2]"], simp, simp,
      rule adjacency_edgesI [of _ "[label_new 1]"], simp, simp,
      rule adjacency_edgesI [of _ "[label_exit]"], simp, simp)

lemma count_reach_head:
  "n \<le> 10 \<Longrightarrow> program_reach register_step count_program UNIV (label_new 1) (int n)"
proof (induction n)
  case 0
  have "program_reach register_step count_program UNIV label_entry 5"
    unfolding program_reach_def by (rule reach_in.input) simp_all
  then have "program_reach register_step count_program UNIV (label_new 0) 5"
    by (rule count_step [OF _ count_edge(1) count_instruction(1)]) simp
  then show ?case
    by (rule count_step [OF _ count_edge(2) count_instruction(2)]) (simp add: r0_bin_def bin_step_def)
next
  case (Suc n)
  have "program_reach register_step count_program UNIV (label_new 1) (int n)" using Suc by simp
  then have "program_reach register_step count_program UNIV (label_new_with_to 1 2) (int n)"
    by (rule count_step [OF _ count_edge(3) count_instruction(3)]) simp
  then have "program_reach register_step count_program UNIV (label_new 2) (int n)"
    by (rule count_step [OF _ count_edge(5) count_instruction(4)])
      (use Suc.prems in \<open>simp add: r0_assume_def assume_range_def gamma_new\<close>)
  moreover have "signed_take_bit 63 (int n + 1) = int (Suc n)"
    using Suc.prems by (subst signed_take_bit_int_eq_self) auto
  ultimately show ?case
    by (intro count_step [OF _ count_edge(6) count_instruction(5)]) (auto simp: r0_bin_def bin_step_def)
qed

lemma count_reach_exit: "program_reach register_step count_program UNIV label_exit 10"
proof -
  have "program_reach register_step count_program UNIV (label_new 1) 10" using count_reach_head [of 10] by simp
  then have "program_reach register_step count_program UNIV (label_new_with_to 1 4) 10"
    by (rule count_step [OF _ count_edge(4) count_instruction(3)]) simp
  then show ?thesis
    by (rule count_step [OF _ count_edge(7) count_instruction(6)])
      (simp add: r0_assume_def assume_range_def gamma_new)
qed

lemma count_wto_program:
  "length (cfg_labels (prog_cfg count_program)) \<le> 65535" "wto_new (prog_cfg count_program) = Some count_wto"
proof -
  show "length (cfg_labels (prog_cfg count_program)) \<le> 65535"
    by (simp add: count_program_graph count_graph_def cfg_labels_def)
  show "wto_new (prog_cfg count_program) = Some count_wto" unfolding count_program_graph by (rule count_wto_new)
qed

lemma count_graph_program: "cfg_ok (prog_cfg count_program)"
  by (simp add: count_program_graph count_graph_ok(1))

theorem analysis_sound_witness:
  "\<exists>res p. run_program register_ops count_program False True itv_top () = Some (res, ()) \<and>
    map_of (result_invariants res) label_exit = Some p \<and> 10 \<in> itv_gamma (inv_pre p)"
proof -
  obtain res where r: "run_program register_ops count_program False True itv_top () = Some (res, ())"
    "\<not> result_failed res" using count_run by blast
  have "program_reach register_step count_program (itv_gamma itv_top) label_exit 10" using count_reach_exit by simp
  then show ?thesis
    using analysis_sound [OF register.sound_domain_axioms count_graph_program count_wto_program count_entry r] r(1)
    unfolding pair_sound_def by blast
qed

theorem analysis_results_witness:
  "\<exists>res. run_program register_ops count_program False True itv_top () = Some (res, ()) \<and>
    exit_value res = itv_from_number 10 \<and> 10 \<in> itv_gamma (exit_value res)"
proof -
  obtain res where r: "run_program register_ops count_program False True itv_top () = Some (res, ())"
    "\<not> result_failed res" "exit_value res = itv_from_number 10" using count_run by blast
  have "program_reach register_step count_program (itv_gamma itv_top) label_exit 10" using count_reach_exit by simp
  moreover have "10 \<in> post_states register_step count_program label_exit 10"
    by (simp add: post_states_def count_instruction)
  ultimately show ?thesis
    using analysis_results [OF register.sound_results_axioms count_graph_program count_wto_program count_entry r(1,2)] r
    by blast
qed


theorem max_call_depth_exact_witness: "\<exists>d. max_call_depth_of count_graph = Some d \<and> d = reachable_depth count_graph"
  using max_call_depth_exact [OF count_graph_ok(1)] by blast

end
