(* ===== verification/Assertions.thy ===== *)
theory Assertions
  imports Syntax Config
begin

text \<open>
  \<open>src/ir/assertions.rs\<close>: the explicit safety assertions (preconditions) of an instruction.  Of the
  program information only the privilege flag of the program type is read.  \<open>None\<close> is a panic: an
  instruction that must not reach the extraction, or a map key before its map.
\<close>

subsection \<open>Helpers\<close>

definition zero_offset_ctx :: "reg \<Rightarrow> bool \<Rightarrow> assertion list" where
  "zero_offset_ctx r or_null =
     [TypeConstraint r (if or_null then TG_CtxOrNum else TG_Ctx), ZeroCtxOffset r or_null]"

definition make_valid_access ::
  "label option \<Rightarrow> reg \<Rightarrow> int \<Rightarrow> operand \<Rightarrow> bool \<Rightarrow> access_type \<Rightarrow> assertion" where
  "make_valid_access l r offset width or_null access_type =
     ValidAccess (case l of Some l \<Rightarrow> call_stack_depth l | None \<Rightarrow> 1) r offset width or_null access_type"

definition make_valid_access_default :: "label option \<Rightarrow> reg \<Rightarrow> assertion" where
  "make_valid_access_default l r = make_valid_access l r 0 (Imm 0) False Compare"

subsection \<open>Calls\<close>

text \<open>One argument: its assertions and the map register that is known after it.\<close>

definition single_assertions ::
  "bool \<Rightarrow> label option \<Rightarrow> reg option \<Rightarrow> arg_single \<Rightarrow> (assertion list \<times> reg option) option" where
  "single_assertions privileged l map_fd arg =
     (let r = as_reg arg; typed = (\<lambda>g. TypeConstraint r g)
      in case as_kind arg of
          AS_Anything \<Rightarrow> Some (if privileged then [] else [typed TG_Number], map_fd)
        | AS_MapFdPrograms \<Rightarrow> Some ([typed TG_MapFdPrograms], map_fd)
        | AS_MapFd \<Rightarrow> Some ([typed TG_MapFd], Some r)
        | AS_PtrToMapKey \<Rightarrow>
            do { m \<leftarrow> map_fd; Some ([typed TG_Mem, ValidMapKeyValue r m True], map_fd) }
        | AS_PtrToMapValue \<Rightarrow>
            do { m \<leftarrow> map_fd; Some ([typed TG_Mem, ValidMapKeyValue r m False], map_fd) }
        | AS_PtrToStack \<Rightarrow> Some ([typed (if as_or_null arg then TG_StackOrNum else TG_Stack)], map_fd)
        | AS_PtrToCtx \<Rightarrow> Some (zero_offset_ctx r (as_or_null arg), map_fd)
        | AS_PtrToFunc \<Rightarrow> Some ([typed TG_Func, ValidCallbackTarget r], map_fd)
        | AS_PtrToSocket \<Rightarrow> Some ([typed TG_Socket], map_fd)
        | AS_PtrToBtfId \<Rightarrow> Some ([typed TG_BtfId], map_fd)
        | AS_PtrToAllocMem \<Rightarrow> Some ([typed TG_AllocMem], map_fd)
        | AS_PtrToSpinLock \<Rightarrow> Some ([typed TG_Mem], map_fd)
        | AS_PtrToTimer \<Rightarrow> Some ([typed TG_Mem], map_fd)
        | AS_ConstSizeOrZero \<Rightarrow> Some ([typed TG_Number, ValidSize r True], map_fd)
        | AS_PtrToWritableLong \<Rightarrow>
            Some ([typed TG_Mem, make_valid_access l r 0 (Imm 8) False Write], map_fd)
        | AS_PtrToWritableInt \<Rightarrow>
            Some ([typed TG_Mem, make_valid_access l r 0 (Imm 4) False Write], map_fd))"

fun singles_assertions ::
  "bool \<Rightarrow> label option \<Rightarrow> reg option \<Rightarrow> arg_single list \<Rightarrow> (assertion list \<times> reg option) option" where
  "singles_assertions privileged l map_fd [] = Some ([], map_fd)"
| "singles_assertions privileged l map_fd (a # as) =
     do { (res, map_fd1) \<leftarrow> single_assertions privileged l map_fd a;
          (rest, map_fd2) \<leftarrow> singles_assertions privileged l map_fd1 as;
          Some (res @ rest, map_fd2) }"

definition pair_assertions :: "label option \<Rightarrow> arg_pair \<Rightarrow> assertion list" where
  "pair_assertions l arg =
     [TypeConstraint (ap_size arg) TG_Number, ValidSize (ap_size arg) (ap_can_be_zero arg),
      TypeConstraint (ap_mem arg) (if ap_or_null arg then TG_MemOrNum else TG_Mem),
      make_valid_access l (ap_mem arg) 0 (Reg (ap_size arg)) (ap_or_null arg)
        (if ap_kind arg = AP_PtrToReadableMem then Read else Write)]"

definition zero_arg_assertions :: "8 word \<Rightarrow> assertion list" where
  "zero_arg_assertions m =
     concat (map (\<lambda>i. if m AND push_bit i 1 \<noteq> 0
       then [TypeConstraint (word_of_nat (i + 1)) TG_Number, ValidArgZero (word_of_nat (i + 1))] else [])
       [0..<5])"

definition map_type_assertions :: "call \<Rightarrow> reg option \<Rightarrow> assertion list" where
  "map_type_assertions c map_fd =
     (case map_fd of
        None \<Rightarrow> []
      | Some r \<Rightarrow>
        if allowed_map_types (contract c) \<noteq> 0
        then [ValidMapType r (allowed_map_types (contract c)) (call_name c)] else [])"

definition assertions_call :: "call \<Rightarrow> bool \<Rightarrow> label option \<Rightarrow> assertion list option" where
  "assertions_call c privileged l =
     do { (res, map_fd) \<leftarrow> singles_assertions privileged l None (singles (contract c));
          Some (res @ map_type_assertions c map_fd @ concat (map (pair_assertions l) (pairs (contract c))) @
            zero_arg_assertions (zero_args_mask (contract c))) }"

subsection \<open>The other instructions\<close>

definition assertions_load_pseudo :: "pseudo_address_kind \<Rightarrow> assertion list option" where
  "assertions_load_pseudo k = (if k = CodeAddr then Some [] else None)"

definition assertions_packet :: "assertion list" where
  "assertions_packet = zero_offset_ctx R6 False"

definition assertions_exit :: "string \<Rightarrow> label option \<Rightarrow> assertion list" where
  "assertions_exit prefix l =
     (if (case l of Some l \<Rightarrow> stack_frame_prefix l = [] | None \<Rightarrow> prefix = [])
      then [TypeConstraint R0_RETURN_VALUE TG_Number] else [])"

definition assertions_callx :: "reg \<Rightarrow> assertion list" where
  "assertions_callx func = [TypeConstraint func TG_Number, FuncConstraint func]"

definition allows_pointers :: "condition \<Rightarrow> bool" where
  "allows_pointers cond \<longleftrightarrow>
     cond_op cond \<in> {EQ_c, NE_c, SET_c, NSET_c, LT_c, LE_c, GT_c, GE_c} \<and> cond_is64 cond"

definition explicate :: "condition \<Rightarrow> bool \<Rightarrow> label option \<Rightarrow> assertion list" where
  "explicate cond privileged l =
     (if privileged then []
      else (case cond_right cond of
          Imm k \<Rightarrow>
            if k \<noteq> 0 then [TypeConstraint (cond_left cond) TG_Number]
            else (if allows_pointers cond then [] else [TypeConstraint (cond_left cond) TG_Number]) @
              [make_valid_access_default l (cond_left cond)]
        | Reg r \<Rightarrow>
            [make_valid_access_default l (cond_left cond), make_valid_access_default l r] @
            (if cond_op cond \<noteq> EQ_c \<and> cond_op cond \<noteq> NE_c
             then [TypeConstraint (cond_left cond) TG_PtrOrNum] else []) @
            [Comparable (cond_left cond) r False]))"

definition assertions_assume :: "condition \<Rightarrow> bool \<Rightarrow> bool \<Rightarrow> label option \<Rightarrow> assertion list" where
  "assertions_assume cond implicit privileged l = (if \<not> implicit then explicate cond privileged l else [])"

definition assertions_jmp :: "condition option \<Rightarrow> bool \<Rightarrow> label option \<Rightarrow> assertion list" where
  "assertions_jmp c privileged l = (case c of None \<Rightarrow> [] | Some cond \<Rightarrow> explicate cond privileged l)"

definition deref_access :: "label option \<Rightarrow> deref \<Rightarrow> access_type \<Rightarrow> assertion" where
  "deref_access l d t =
     make_valid_access l (deref_basereg d) (deref_offset d) (Imm (word_of_int (access_size_bytes (deref_width d)))) False t"

definition assertions_mem ::
  "mem_ins \<Rightarrow> bool \<Rightarrow> runtime_config \<Rightarrow> label option \<Rightarrow> assertion list option" where
  "assertions_mem ins privileged rt l =
     (let d = mem_access ins; width = access_size_bytes (deref_width d);
          access = deref_access l d (if mem_is_load ins then Read else Write)
      in if deref_basereg d = R10_STACK_POINTER
         then (if deref_offset d < - subprogram_stack_size rt then Some [access]
               else do { e \<leftarrow> chk_i32 (deref_offset d + width); Some (if e > 0 then [access] else []) })
         else Some ([TypeConstraint (deref_basereg d) TG_Dereferenceable, access] @
           (case mem_value ins of
              Reg r \<Rightarrow>
                if \<not> privileged \<and> \<not> mem_is_load ins
                then (if width \<noteq> 8 then [TypeConstraint r TG_Number] else [ValidStore (deref_basereg d) r])
                else []
            | Imm _ \<Rightarrow> [])))"

definition assertions_atomic :: "atomic_ins \<Rightarrow> label option \<Rightarrow> assertion list" where
  "assertions_atomic ins l =
     [TypeConstraint (at_valreg ins) TG_Number, TypeConstraint (deref_basereg (at_access ins)) TG_Dereferenceable,
      deref_access l (at_access ins) Write]"

definition assertions_un :: "reg \<Rightarrow> assertion list" where
  "assertions_un dst = [TypeConstraint dst TG_Number]"

definition assertions_bin :: "bin_ins \<Rightarrow> assertion list" where
  "assertions_bin b =
     (let dst = bin_dst b; num = (\<lambda>r. TypeConstraint r TG_Number); ptr = (\<lambda>r. TypeConstraint r TG_PtrOrNum)
      in case (bin_op b, bin_v b) of
          (MOV, Reg s) \<Rightarrow> if \<not> bin_is64 b then [num s] else []
        | (MOV, Imm _) \<Rightarrow> []
        | (MOVSX8, Reg s) \<Rightarrow> [num s]
        | (MOVSX8, Imm _) \<Rightarrow> []
        | (MOVSX16, Reg s) \<Rightarrow> [num s]
        | (MOVSX16, Imm _) \<Rightarrow> []
        | (MOVSX32, Reg s) \<Rightarrow> [num s]
        | (MOVSX32, Imm _) \<Rightarrow> []
        | (ADD, Reg s) \<Rightarrow> [ptr dst, ptr s, Addable s dst, Addable dst s]
        | (ADD, Imm _) \<Rightarrow> [ptr dst]
        | (SUB, Reg s) \<Rightarrow> [ptr dst, Comparable dst s True]
        | (SUB, Imm _) \<Rightarrow> [ptr dst]
        | (UDIV, Reg s) \<Rightarrow> [num dst, ValidDivisor s False (bin_is64 b)]
        | (UMOD, Reg s) \<Rightarrow> [num dst, ValidDivisor s False (bin_is64 b)]
        | (SDIV, Reg s) \<Rightarrow> [num dst, ValidDivisor s True (bin_is64 b)]
        | (SMOD, Reg s) \<Rightarrow> [num dst, ValidDivisor s True (bin_is64 b)]
        | (_, Reg s) \<Rightarrow> [num dst, num s]
        | (_, Imm _) \<Rightarrow> [num dst])"

subsection \<open>All instructions\<close>

fun get_assertions :: "instruction \<Rightarrow> bool \<Rightarrow> runtime_config \<Rightarrow> label option \<Rightarrow> assertion list option" where
  "get_assertions (Undefined _) privileged rt l = Some []"
| "get_assertions (Bin b) privileged rt l = Some (assertions_bin b)"
| "get_assertions (Unary _ dst _) privileged rt l = Some (assertions_un dst)"
| "get_assertions (LoadMapFd _ _) privileged rt l = Some []"
| "get_assertions (LoadMapAddress _ _ _) privileged rt l = Some []"
| "get_assertions (LoadPseudo _ k _ _) privileged rt l = assertions_load_pseudo k"
| "get_assertions (Call c) privileged rt l = assertions_call c privileged l"
| "get_assertions (CallLocal _ _) privileged rt l = Some []"
| "get_assertions (Callx func) privileged rt l = Some (assertions_callx func)"
| "get_assertions (CallBtf _ _) privileged rt l = None"
| "get_assertions (Exit prefix) privileged rt l = Some (assertions_exit prefix l)"
| "get_assertions (Jmp c _) privileged rt l = Some (assertions_jmp c privileged l)"
| "get_assertions (Mem m) privileged rt l = assertions_mem m privileged rt l"
| "get_assertions (Packet _) privileged rt l = Some assertions_packet"
| "get_assertions (Atomic a) privileged rt l = Some (assertions_atomic a l)"
| "get_assertions (Assume c implicit) privileged rt l = Some (assertions_assume c implicit privileged l)"
| "get_assertions (IncrementLoopCounter name) privileged rt l = Some [BoundedLoopCount name]"

subsection \<open>What is asserted\<close>

text \<open>The bytes of an access relative to the frame pointer lie in the frame of the subprogram.\<close>

definition in_frame :: "runtime_config \<Rightarrow> deref \<Rightarrow> bool" where
  "in_frame rt d \<longleftrightarrow> - subprogram_stack_size rt \<le> deref_offset d \<and>
     deref_offset d + access_size_bytes (deref_width d) \<le> 0"

definition frame_depth :: "label option \<Rightarrow> int" where
  "frame_depth l = (case l of Some l \<Rightarrow> call_stack_depth l | None \<Rightarrow> 1)"

definition width_of :: "deref \<Rightarrow> operand" where
  "width_of d = Imm (word_of_int (access_size_bytes (deref_width d)))"

lemma zero_arg_assertions_iff:
  "i < 5 \<Longrightarrow> bit m i \<Longrightarrow> ValidArgZero (word_of_nat (i + 1)) \<in> set (zero_arg_assertions m)"
  by (force simp: zero_arg_assertions_def and_exp_eq_0_iff_not_bit push_bit_eq_mult)

lemma assertions_call_parts:
  assumes "assertions_call c privileged l = Some as"
  shows "p \<in> set (pairs (contract c)) \<Longrightarrow> set (pair_assertions l p) \<subseteq> set as"
    "set (zero_arg_assertions (zero_args_mask (contract c))) \<subseteq> set as"
  using assms by (auto simp: assertions_call_def panic_simps)

text \<open>The map a key or a value argument belongs to: the last map descriptor before it.\<close>

definition map_args :: "arg_single list \<Rightarrow> arg_single list" where
  "map_args as = filter (\<lambda>b. as_kind b = AS_MapFd) as"

lemma single_assertions_map:
  "single_assertions privileged l m a = Some (res, m') \<Longrightarrow>
    m' = (if as_kind a = AS_MapFd then Some (as_reg a) else m)"
  by (auto simp: single_assertions_def Let_def bind_Some_conv split: arg_single_kind.splits)

lemma singles_assertions_map:
  "singles_assertions privileged l m as = Some (res, m') \<Longrightarrow>
    m' = (if map_args as = [] then m else Some (as_reg (last (map_args as))))"
proof (induction as arbitrary: m res)
  case (Cons a as)
  from Cons.prems obtain r1 m1 r2 where s: "single_assertions privileged l m a = Some (r1, m1)"
    "singles_assertions privileged l m1 as = Some (r2, m')" by (auto simp: bind_Some_conv)
  show ?case using single_assertions_map [OF s(1)] Cons.IH [OF s(2)] by (simp add: map_args_def)
qed (simp add: map_args_def)

lemma singles_assertions_split:
  assumes "singles_assertions privileged l m (pre @ a # post) = Some (res, m')"
  shows "\<exists>r1 m1 r2 m2. singles_assertions privileged l m pre = Some (r1, m1) \<and>
    single_assertions privileged l m1 a = Some (r2, m2) \<and> set r2 \<subseteq> set res"
  using assms by (induction pre arbitrary: m res) (fastforce simp: bind_Some_conv)+

text \<open>What a call asserts of one argument, by its kind.\<close>

lemma assertions_call_single:
  assumes "assertions_call c privileged l = Some as" "singles (contract c) = pre @ a # post"
  shows "as_kind a = AS_PtrToWritableLong \<Longrightarrow> make_valid_access l (as_reg a) 0 (Imm 8) False Write \<in> set as"
    "as_kind a = AS_PtrToWritableInt \<Longrightarrow> make_valid_access l (as_reg a) 0 (Imm 4) False Write \<in> set as"
    "as_kind a \<in> {AS_PtrToMapKey, AS_PtrToMapValue} \<Longrightarrow> map_args pre \<noteq> [] \<and>
      ValidMapKeyValue (as_reg a) (as_reg (last (map_args pre))) (as_kind a = AS_PtrToMapKey) \<in> set as"
    "as_kind a \<in> {AS_PtrToMapKey, AS_PtrToMapValue, AS_PtrToSpinLock, AS_PtrToTimer, AS_PtrToWritableLong,
      AS_PtrToWritableInt} \<Longrightarrow> TypeConstraint (as_reg a) TG_Mem \<in> set as"
    "as_kind a = AS_PtrToStack \<Longrightarrow>
      TypeConstraint (as_reg a) (if as_or_null a then TG_StackOrNum else TG_Stack) \<in> set as"
    "as_kind a = AS_ConstSizeOrZero \<Longrightarrow> ValidSize (as_reg a) True \<in> set as"
proof -
  obtain res m where r: "singles_assertions privileged l None (pre @ a # post) = Some (res, m)" "set res \<subseteq> set as"
    using assms by (auto simp: assertions_call_def bind_Some_conv)
  obtain r1 m1 r2 m2 where s: "singles_assertions privileged l None pre = Some (r1, m1)"
    "single_assertions privileged l m1 a = Some (r2, m2)" "set r2 \<subseteq> set res"
    using singles_assertions_split [OF r(1)] by blast
  have m1: "m1 = (if map_args pre = [] then None else Some (as_reg (last (map_args pre))))"
    by (rule singles_assertions_map [OF s(1)])
  note e = s(2) [unfolded single_assertions_def Let_def]
  have sub: "x \<in> set r2 \<Longrightarrow> x \<in> set as" for x using r(2) s(3) by blast
  show "as_kind a = AS_PtrToWritableLong \<Longrightarrow> make_valid_access l (as_reg a) 0 (Imm 8) False Write \<in> set as"
    "as_kind a = AS_PtrToWritableInt \<Longrightarrow> make_valid_access l (as_reg a) 0 (Imm 4) False Write \<in> set as"
    "as_kind a \<in> {AS_PtrToMapKey, AS_PtrToMapValue} \<Longrightarrow> map_args pre \<noteq> [] \<and>
      ValidMapKeyValue (as_reg a) (as_reg (last (map_args pre))) (as_kind a = AS_PtrToMapKey) \<in> set as"
    "as_kind a \<in> {AS_PtrToMapKey, AS_PtrToMapValue, AS_PtrToSpinLock, AS_PtrToTimer, AS_PtrToWritableLong,
      AS_PtrToWritableInt} \<Longrightarrow> TypeConstraint (as_reg a) TG_Mem \<in> set as"
    "as_kind a = AS_PtrToStack \<Longrightarrow>
      TypeConstraint (as_reg a) (if as_or_null a then TG_StackOrNum else TG_Stack) \<in> set as"
    "as_kind a = AS_ConstSizeOrZero \<Longrightarrow> ValidSize (as_reg a) True \<in> set as"
    using e by (auto simp: m1 bind_Some_conv intro!: sub split: if_splits)
qed

lemma assertions_mem_guard:
  assumes "assertions_mem m privileged rt l = Some as"
  shows "deref_basereg (mem_access m) = R10_STACK_POINTER \<and> in_frame rt (mem_access m) \<or>
    deref_access l (mem_access m) (if mem_is_load m then Read else Write) \<in> set as"
    "deref_basereg (mem_access m) \<noteq> R10_STACK_POINTER \<Longrightarrow>
      TypeConstraint (deref_basereg (mem_access m)) TG_Dereferenceable \<in> set as"
    "deref_basereg (mem_access m) \<noteq> R10_STACK_POINTER \<Longrightarrow> \<not> privileged \<Longrightarrow> \<not> mem_is_load m \<Longrightarrow>
      mem_value m = Reg r \<Longrightarrow> {TypeConstraint r TG_Number, ValidStore (deref_basereg (mem_access m)) r} \<inter> set as \<noteq> {}"
  using assms by (auto simp: assertions_mem_def Let_def in_frame_def panic_simps chk_i32_def not_less split: if_splits)

lemma assertions_bin_divisor:
  "bin_op b \<in> {UDIV, UMOD, SDIV, SMOD} \<Longrightarrow> bin_v b = Reg s \<Longrightarrow>
    ValidDivisor s (bin_op b \<in> {SDIV, SMOD}) (bin_is64 b) \<in> set (assertions_bin b)"
  by (auto simp: assertions_bin_def)

text \<open>C13: Every access an instruction makes is asserted.  A load or store either lies in the frame of the
  subprogram relative to the frame pointer, or the access is asserted with its base, offset, width,
  direction and frame, and its base must be dereferenceable; an unprivileged store of a register
  through another base is asserted to leak no pointer; an atomic operation is asserted as a write;
  and a division by a register asserts its divisor.  A call asserts, for a pair, the size and the
  access of that size; for a single argument, the write of 8 or 4 bytes through a pointer to a long
  or an int, the key or the value of the last map before it (there is one), the type of a pointer to
  map memory, a lock, a timer or the stack, and a size of its own; and the zero of every argument
  that must be zero.\<close>

theorem accesses_asserted:
  assumes "get_assertions ins privileged rt l = Some as"
  shows "(\<forall>m d. ins = Mem m \<and> d = mem_access m \<longrightarrow>
      (deref_basereg d = R10_STACK_POINTER \<and> in_frame rt d \<or>
        ValidAccess (frame_depth l) (deref_basereg d) (deref_offset d) (width_of d) False
          (if mem_is_load m then Read else Write) \<in> set as) \<and>
      (deref_basereg d \<noteq> R10_STACK_POINTER \<longrightarrow> TypeConstraint (deref_basereg d) TG_Dereferenceable \<in> set as \<and>
        (\<forall>r. \<not> privileged \<and> \<not> mem_is_load m \<and> mem_value m = Reg r \<longrightarrow>
          {TypeConstraint r TG_Number, ValidStore (deref_basereg d) r} \<inter> set as \<noteq> {}))) \<and>
    (\<forall>a d. ins = Atomic a \<and> d = at_access a \<longrightarrow>
      ValidAccess (frame_depth l) (deref_basereg d) (deref_offset d) (width_of d) False Write \<in> set as) \<and>
    (\<forall>b s. ins = Bin b \<and> bin_op b \<in> {UDIV, UMOD, SDIV, SMOD} \<and> bin_v b = Reg s \<longrightarrow>
      ValidDivisor s (bin_op b \<in> {SDIV, SMOD}) (bin_is64 b) \<in> set as) \<and>
    (\<forall>c. ins = Call c \<longrightarrow>
      (\<forall>p\<in>set (pairs (contract c)). ValidSize (ap_size p) (ap_can_be_zero p) \<in> set as \<and>
        ValidAccess (frame_depth l) (ap_mem p) 0 (Reg (ap_size p)) (ap_or_null p)
          (if ap_kind p = AP_PtrToReadableMem then Read else Write) \<in> set as) \<and>
      (\<forall>pre a post. singles (contract c) = pre @ a # post \<longrightarrow>
        (as_kind a = AS_PtrToWritableLong \<longrightarrow>
          ValidAccess (frame_depth l) (as_reg a) 0 (Imm 8) False Write \<in> set as) \<and>
        (as_kind a = AS_PtrToWritableInt \<longrightarrow>
          ValidAccess (frame_depth l) (as_reg a) 0 (Imm 4) False Write \<in> set as) \<and>
        (as_kind a \<in> {AS_PtrToMapKey, AS_PtrToMapValue} \<longrightarrow> map_args pre \<noteq> [] \<and>
          ValidMapKeyValue (as_reg a) (as_reg (last (map_args pre))) (as_kind a = AS_PtrToMapKey) \<in> set as) \<and>
        (as_kind a \<in> {AS_PtrToMapKey, AS_PtrToMapValue, AS_PtrToSpinLock, AS_PtrToTimer,
            AS_PtrToWritableLong, AS_PtrToWritableInt} \<longrightarrow> TypeConstraint (as_reg a) TG_Mem \<in> set as) \<and>
        (as_kind a = AS_PtrToStack \<longrightarrow>
          TypeConstraint (as_reg a) (if as_or_null a then TG_StackOrNum else TG_Stack) \<in> set as) \<and>
        (as_kind a = AS_ConstSizeOrZero \<longrightarrow> ValidSize (as_reg a) True \<in> set as)) \<and>
      (\<forall>i<5. bit (zero_args_mask (contract c)) i \<longrightarrow> ValidArgZero (word_of_nat (i + 1)) \<in> set as))"
proof (intro conjI allI impI)
  fix m d
  assume m: "ins = Mem m \<and> d = mem_access m"
  then have "assertions_mem m privileged rt l = Some as" using assms by simp
  note g = assertions_mem_guard [OF this]
  show "deref_basereg d = R10_STACK_POINTER \<and> in_frame rt d \<or>
        ValidAccess (frame_depth l) (deref_basereg d) (deref_offset d) (width_of d) False
          (if mem_is_load m then Read else Write) \<in> set as"
    using g(1) m by (simp add: deref_access_def make_valid_access_def frame_depth_def width_of_def)
  assume b: "deref_basereg d \<noteq> R10_STACK_POINTER"
  then show "TypeConstraint (deref_basereg d) TG_Dereferenceable \<in> set as" using g(2) m by simp
  fix r assume "\<not> privileged \<and> \<not> mem_is_load m \<and> mem_value m = Reg r"
  then show "{TypeConstraint r TG_Number, ValidStore (deref_basereg d) r} \<inter> set as \<noteq> {}"
    using g(3) b m by blast
next
  fix a d assume "ins = Atomic a \<and> d = at_access a"
  then show "ValidAccess (frame_depth l) (deref_basereg d) (deref_offset d) (width_of d) False Write \<in> set as"
    using assms by (auto simp: assertions_atomic_def deref_access_def make_valid_access_def frame_depth_def width_of_def)
next
  fix b s assume "ins = Bin b \<and> bin_op b \<in> {UDIV, UMOD, SDIV, SMOD} \<and> bin_v b = Reg s"
  then show "ValidDivisor s (bin_op b \<in> {SDIV, SMOD}) (bin_is64 b) \<in> set as"
    using assms assertions_bin_divisor [of b s] by simp
next
  fix c assume c: "ins = Call c"
  then have call: "assertions_call c privileged l = Some as" using assms by simp
  note parts = assertions_call_parts [OF this]
  show "\<forall>p\<in>set (pairs (contract c)). ValidSize (ap_size p) (ap_can_be_zero p) \<in> set as \<and>
        ValidAccess (frame_depth l) (ap_mem p) 0 (Reg (ap_size p)) (ap_or_null p)
          (if ap_kind p = AP_PtrToReadableMem then Read else Write) \<in> set as"
  proof
    fix p assume "p \<in> set (pairs (contract c))"
    from parts(1) [OF this] show "ValidSize (ap_size p) (ap_can_be_zero p) \<in> set as \<and>
        ValidAccess (frame_depth l) (ap_mem p) 0 (Reg (ap_size p)) (ap_or_null p)
          (if ap_kind p = AP_PtrToReadableMem then Read else Write) \<in> set as"
      by (simp add: pair_assertions_def make_valid_access_def frame_depth_def)
  qed
  note single = assertions_call_single [OF call, unfolded make_valid_access_def, folded frame_depth_def]
  fix pre a post assume a: "singles (contract c) = pre @ a # post"
  show "as_kind a = AS_PtrToWritableLong \<Longrightarrow> ValidAccess (frame_depth l) (as_reg a) 0 (Imm 8) False Write \<in> set as"
    by (rule single(1) [OF a])
  show "as_kind a = AS_PtrToWritableInt \<Longrightarrow> ValidAccess (frame_depth l) (as_reg a) 0 (Imm 4) False Write \<in> set as"
    by (rule single(2) [OF a])
  assume "as_kind a \<in> {AS_PtrToMapKey, AS_PtrToMapValue}"
  from single(3) [OF a this] show "map_args pre \<noteq> []"
    "ValidMapKeyValue (as_reg a) (as_reg (last (map_args pre))) (as_kind a = AS_PtrToMapKey) \<in> set as" by blast+
next
  fix c pre a post assume "ins = Call c" and a: "singles (contract c) = pre @ a # post"
  then have "assertions_call c privileged l = Some as" using assms by simp
  note single = assertions_call_single [OF this a]
  show "as_kind a \<in> {AS_PtrToMapKey, AS_PtrToMapValue, AS_PtrToSpinLock, AS_PtrToTimer,
      AS_PtrToWritableLong, AS_PtrToWritableInt} \<Longrightarrow> TypeConstraint (as_reg a) TG_Mem \<in> set as"
    by (rule single(4))
  show "as_kind a = AS_PtrToStack \<Longrightarrow>
      TypeConstraint (as_reg a) (if as_or_null a then TG_StackOrNum else TG_Stack) \<in> set as"
    by (rule single(5))
  show "as_kind a = AS_ConstSizeOrZero \<Longrightarrow> ValidSize (as_reg a) True \<in> set as"
    by (rule single(6))
next
  fix c assume c: "ins = Call c"
  then have "assertions_call c privileged l = Some as" using assms by simp
  note parts = assertions_call_parts [OF this]
  show "ValidArgZero (word_of_nat (i + 1)) \<in> set as" if "i < 5" "bit (zero_args_mask (contract c)) i" for i
    using zero_arg_assertions_iff [OF that] parts(2) by blast
qed

definition store_sample :: mem_ins where
  "store_sample = \<lparr>mem_access = \<lparr>deref_width = DWord, deref_basereg = 1, deref_offset = 16\<rparr>,
     mem_value = Reg 2, mem_is_load = False, mem_is_signed = False\<rparr>"

lemma accesses_asserted_witness:
  "{TypeConstraint 2 TG_Number, ValidStore 1 2} \<inter>
     set (the (get_assertions (Mem store_sample) False runtime_default None)) \<noteq> {}"
proof -
  have "\<exists>as. get_assertions (Mem store_sample) False runtime_default None = Some as"
    by (simp add: store_sample_def assertions_mem_def)
  then obtain as where *: "get_assertions (Mem store_sample) False runtime_default None = Some as" ..
  show ?thesis using accesses_asserted [OF *] * by (simp add: store_sample_def)
qed

end
