(* ===== verification/Program_Build.thy ===== *)
theory Program_Build
  imports Assertions Unmarshal Wto Fwd_Analyzer
begin

text \<open>
  \<open>src/ir/program.rs\<close>: the program that is analysed, built from a decoded instruction sequence by a
  chain of passes: support checks, call resolution, nodes, edges, inlining of local calls, tail-call
  depth, callback metadata, loop counters and assertions.  A result is \<open>None\<close> for a panic,
  \<open>Inl\<close> for the error \<open>InvalidControlFlow\<close> and \<open>Inr\<close> for a value.  The platform and the map
  descriptors are parameters.
\<close>

subsection \<open>Results\<close>

type_synonym 'a build = "(string + 'a) option"

definition reject :: "string \<Rightarrow> 'a build" where
  "reject msg = Some (Inl msg)"

definition accept :: "'a \<Rightarrow> 'a build" where
  "accept x = Some (Inr x)"

definition try_then :: "'a build \<Rightarrow> ('a \<Rightarrow> 'b build) \<Rightarrow> 'b build" where
  "try_then m f = (case m of None \<Rightarrow> None | Some (Inl e) \<Rightarrow> Some (Inl e) | Some (Inr x) \<Rightarrow> f x)"

definition lift_build :: "'a option \<Rightarrow> ('a \<Rightarrow> 'b build) \<Rightarrow> 'b build" where
  "lift_build m f = (case m of None \<Rightarrow> None | Some x \<Rightarrow> f x)"

subsection \<open>The program and its builder\<close>

record program_platform = platform +
  get_helper_prototype :: "32 word \<Rightarrow> helper_prototype option"
  resolve_kfunc_call :: "32 word \<Rightarrow> 16 word \<Rightarrow> string + call"

record build_info =
  supported_conformance_groups :: "32 word"
  is_privileged :: bool
  map_fds :: "32 word list"

record built_program =
  pr_instructions :: "(label, instruction) btree"
  pr_assertions :: "(label, assertion list) btree"
  pr_cfg :: cfg
  callback_target_labels :: "int bset"
  callback_targets_with_exit :: "int bset"

definition as_program :: "built_program \<Rightarrow> program" where
  "as_program p = \<lparr>prog_cfg = pr_cfg p, instruction_at = map_of (pr_instructions p),
     assertions_at = map_of (pr_assertions p)\<rparr>"

definition builder_new :: built_program where
  "builder_new =
     \<lparr>pr_instructions = bt_insert label_exit (Undefined 0) (bt_insert label_entry (Undefined 0) []),
      pr_assertions = bt_insert label_exit [] (bt_insert label_entry [] []),
      pr_cfg = cfg_new, callback_target_labels = [], callback_targets_with_exit = []\<rparr>"

definition builder_insert :: "label \<Rightarrow> instruction \<Rightarrow> built_program \<Rightarrow> built_program option" where
  "builder_insert l ins p =
     do { assert_that (\<not> cfg_contains (pr_cfg p) l);
          g \<leftarrow> cfg_insert l (pr_cfg p);
          Some (p\<lparr>pr_cfg := g, pr_instructions := bt_insert l ins (pr_instructions p)\<rparr>) }"

definition builder_insert_after :: "label \<Rightarrow> label \<Rightarrow> instruction \<Rightarrow> built_program \<Rightarrow> built_program option" where
  "builder_insert_after prev new ins p =
     do { assert_that (prev \<noteq> new);
          g \<leftarrow> insert_after prev new (pr_cfg p);
          Some (p\<lparr>pr_instructions := bt_insert new ins (pr_instructions p), pr_cfg := g\<rparr>) }"

definition builder_add_child :: "label \<Rightarrow> label \<Rightarrow> built_program \<Rightarrow> built_program option" where
  "builder_add_child a b p = do { g \<leftarrow> add_child a b (pr_cfg p); Some (p\<lparr>pr_cfg := g\<rparr>) }"

definition builder_remove_child :: "label \<Rightarrow> label \<Rightarrow> built_program \<Rightarrow> built_program option" where
  "builder_remove_child a b p = do { g \<leftarrow> remove_child a b (pr_cfg p); Some (p\<lparr>pr_cfg := g\<rparr>) }"

definition insert_jump :: "label \<Rightarrow> label \<Rightarrow> instruction \<Rightarrow> built_program \<Rightarrow> built_program option" where
  "insert_jump from t ins p =
     do { let j = label_make_jump from t;
          assert_that (\<not> cfg_contains (pr_cfg p) j);
          p1 \<leftarrow> builder_insert j ins p;
          p2 \<leftarrow> builder_add_child from j p1;
          builder_add_child j t p2 }"

definition set_assertions :: "label \<Rightarrow> assertion list \<Rightarrow> built_program \<Rightarrow> built_program option" where
  "set_assertions l as p =
     do { assert_that (cfg_contains (pr_cfg p) l);
          Some (p\<lparr>pr_assertions := bt_insert l as (pr_assertions p)\<rparr>) }"

subsection \<open>Conditions and fall-through\<close>

fun reverse_op :: "condition_op \<Rightarrow> condition_op" where
  "reverse_op EQ_c = NE_c"
| "reverse_op NE_c = EQ_c"
| "reverse_op GE_c = LT_c"
| "reverse_op LT_c = GE_c"
| "reverse_op SGE_c = SLT_c"
| "reverse_op SLT_c = SGE_c"
| "reverse_op LE_c = GT_c"
| "reverse_op GT_c = LE_c"
| "reverse_op SLE_c = SGT_c"
| "reverse_op SGT_c = SLE_c"
| "reverse_op SET_c = NSET_c"
| "reverse_op NSET_c = SET_c"

definition reverse_condition :: "condition \<Rightarrow> condition" where
  "reverse_condition c = \<lparr>cond_op = reverse_op (cond_op c), cond_left = cond_left c,
     cond_right = cond_right c, cond_is64 = cond_is64 c\<rparr>"

fun has_fall :: "instruction \<Rightarrow> bool" where
  "has_fall (Exit _) = False"
| "has_fall (Jmp c _) = (c \<noteq> None)"
| "has_fall _ = True"

fun is_undefined :: "instruction \<Rightarrow> bool" where
  "is_undefined (Undefined _) = True"
| "is_undefined _ = False"

fun is_exit_ins :: "instruction \<Rightarrow> bool" where
  "is_exit_ins (Exit _) = True"
| "is_exit_ins _ = False"

subsection \<open>Support of instructions\<close>

abbreviation BASE32 :: "32 word" where "BASE32 \<equiv> 0x01"
abbreviation BASE64 :: "32 word" where "BASE64 \<equiv> 0x02"
abbreviation ATOMIC32 :: "32 word" where "ATOMIC32 \<equiv> 0x04"
abbreviation ATOMIC64 :: "32 word" where "ATOMIC64 \<equiv> 0x08"
abbreviation DIVMUL32 :: "32 word" where "DIVMUL32 \<equiv> 0x10"
abbreviation DIVMUL64 :: "32 word" where "DIVMUL64 \<equiv> 0x20"
abbreviation PACKET :: "32 word" where "PACKET \<equiv> 0x40"
abbreviation CALLX :: "32 word" where "CALLX \<equiv> 0x80"

definition supports :: "32 word \<Rightarrow> 32 word \<Rightarrow> bool" where
  "supports groups grp \<longleftrightarrow> groups AND grp = grp"

definition un_requires_base64 :: "un_op \<Rightarrow> bool" where
  "un_requires_base64 u \<longleftrightarrow> u \<in> {BE64, LE64, SWAP64}"

definition requires_group :: "string \<Rightarrow> string" where
  "requires_group name = ''requires conformance group '' @ name"

text \<open>The detail of a rejection; the only rejection kind is a missing capability.\<close>

definition require_group_pair :: "32 word \<Rightarrow> bool \<Rightarrow> 32 word \<Rightarrow> string \<Rightarrow> 32 word \<Rightarrow> string \<Rightarrow> string option" where
  "require_group_pair groups need_64 group_64 name_64 group_32 name_32 =
     (let (grp, name) = if need_64 then (group_64, name_64) else (group_32, name_32)
      in if \<not> supports groups grp then Some (requires_group name) else None)"

definition require_base :: "32 word \<Rightarrow> bool \<Rightarrow> string option" where
  "require_base groups need_64 = require_group_pair groups need_64 BASE64 ''base64'' BASE32 ''base32''"

definition require_group :: "32 word \<Rightarrow> 32 word \<Rightarrow> string \<Rightarrow> string option" where
  "require_group groups grp name = (if \<not> supports groups grp then Some (requires_group name) else None)"

definition or_else :: "'a option \<Rightarrow> 'a option \<Rightarrow> 'a option" where
  "or_else a b = (case a of None \<Rightarrow> b | Some x \<Rightarrow> Some x)"

fun check_instruction_feature_support :: "instruction \<Rightarrow> 32 word \<Rightarrow> string option" where
  "check_instruction_feature_support (Call c) gs =
     (if \<not> is_supported c then Some (unsupported_reason c) else require_group gs BASE32 ''base32'')"
| "check_instruction_feature_support (Callx _) gs =
     or_else (require_group gs CALLX ''callx'') (require_group gs BASE32 ''base32'')"
| "check_instruction_feature_support (CallLocal _ _) gs = require_group gs BASE32 ''base32''"
| "check_instruction_feature_support (CallBtf _ _) gs = require_group gs BASE32 ''base32''"
| "check_instruction_feature_support (Exit _) gs = require_group gs BASE32 ''base32''"
| "check_instruction_feature_support (Bin b) gs =
     or_else (require_base gs (bin_is64 b))
       (if bin_op b \<in> {MUL, UDIV, UMOD, SDIV, SMOD}
        then require_group_pair gs (bin_is64 b) DIVMUL64 ''divmul64'' DIVMUL32 ''divmul32'' else None)"
| "check_instruction_feature_support (Unary u _ is64) gs = require_base gs (is64 \<or> un_requires_base64 u)"
| "check_instruction_feature_support (Jmp c _) gs =
     require_base gs (case c of None \<Rightarrow> False | Some c \<Rightarrow> cond_is64 c)"
| "check_instruction_feature_support (LoadPseudo _ _ _ _) gs = require_group gs BASE64 ''base64''"
| "check_instruction_feature_support (LoadMapFd _ _) gs = require_group gs BASE64 ''base64''"
| "check_instruction_feature_support (LoadMapAddress _ _ _) gs = require_group gs BASE64 ''base64''"
| "check_instruction_feature_support (Mem m) gs =
     or_else (require_base gs (access_size_bytes (deref_width (mem_access m)) = 8))
       (if mem_is_signed m then require_group gs BASE64 ''base64'' else None)"
| "check_instruction_feature_support (Packet _) gs = require_group gs PACKET ''packet''"
| "check_instruction_feature_support (Atomic a) gs =
     require_group_pair gs (access_size_bytes (deref_width (at_access a)) = 8)
       ATOMIC64 ''atomic64'' ATOMIC32 ''atomic32''"
| "check_instruction_feature_support _ gs = None"

fun pass_validate_instruction_support :: "instruction_seq \<Rightarrow> build_info \<Rightarrow> unit build" where
  "pass_validate_instruction_support [] info = accept ()"
| "pass_validate_instruction_support ((l, ins, _) # insts) info =
     (case check_instruction_feature_support ins (supported_conformance_groups info) of
        Some detail \<Rightarrow> reject (''rejected: '' @ detail @ '' (at '' @ label_string l @ '')'')
      | None \<Rightarrow> pass_validate_instruction_support insts info)"

subsection \<open>Resolution of kernel calls and pseudo loads\<close>

fun pass_resolve_kfunc_calls :: "instruction_seq \<Rightarrow> 'p program_platform_scheme \<Rightarrow> (label, call) btree \<Rightarrow> (label, call) btree build" where
  "pass_resolve_kfunc_calls [] pf resolved = accept resolved"
| "pass_resolve_kfunc_calls ((l, ins, _) # insts) pf resolved =
     (case ins of
        CallBtf btf_id md \<Rightarrow>
          (case resolve_kfunc_call pf btf_id md of
             Inl why_not \<Rightarrow> reject (''not implemented: '' @ why_not @ '' (at '' @ label_string l @ '')'')
           | Inr c \<Rightarrow> pass_resolve_kfunc_calls insts pf
               (bt_insert l (c\<lparr>call_func := btf_id, call_kind := Kfunc, call_module := md\<rparr>) resolved))
      | _ \<Rightarrow> pass_resolve_kfunc_calls insts pf resolved)"

definition merge_imm32_to_u64 :: "32 word \<Rightarrow> 32 word \<Rightarrow> 64 word" where
  "merge_imm32_to_u64 low high = ucast low OR push_bit 32 (ucast high)"

text \<open>Called for every kind but a code address.\<close>

definition resolve_pseudo_load ::
  "reg \<Rightarrow> pseudo_address_kind \<Rightarrow> 32 word \<Rightarrow> 32 word \<Rightarrow> build_info \<Rightarrow> instruction build" where
  "resolve_pseudo_load dst kind im next_im info =
     (if kind = VariableAddr
      then accept (Bin \<lparr>bin_op = MOV, bin_dst = dst, bin_v = Imm (merge_imm32_to_u64 im next_im),
        bin_is64 = True, bin_lddw = True\<rparr>)
      else if sint im < 0 \<or> length (map_fds info) \<le> unat im
      then reject (''invalid map index '' @ int_string (sint im) @ '' (have '' @ nat_string (length (map_fds info)) @ '' maps)'')
      else (let mapfd = map_fds info ! unat im
            in case kind of
                MapByIdx \<Rightarrow> accept (LoadMapFd dst mapfd)
              | MapValueByIdx \<Rightarrow> accept (LoadMapAddress dst mapfd next_im)
              | _ \<Rightarrow> None))"

fun pass_lower_pseudo_loads ::
  "instruction_seq \<Rightarrow> build_info \<Rightarrow> (label, instruction) btree \<Rightarrow> (label, instruction) btree build" where
  "pass_lower_pseudo_loads [] info lowered = accept lowered"
| "pass_lower_pseudo_loads ((l, ins, _) # insts) info lowered =
     (case ins of
        LoadPseudo dst kind im next_im \<Rightarrow>
          if kind \<noteq> CodeAddr
          then try_then (resolve_pseudo_load dst kind im next_im info)
                 (\<lambda>r. pass_lower_pseudo_loads insts info (bt_insert l r lowered))
          else pass_lower_pseudo_loads insts info lowered
      | _ \<Rightarrow> pass_lower_pseudo_loads insts info lowered)"

subsection \<open>Nodes and edges\<close>

definition populated ::
  "label \<Rightarrow> instruction \<Rightarrow> (label, call) btree \<Rightarrow> (label, instruction) btree \<Rightarrow> instruction option" where
  "populated l ins resolved lowered =
     (case ins of
        CallBtf _ _ \<Rightarrow> map_option Call (map_of resolved l)
      | _ \<Rightarrow> Some (case map_of lowered l of Some i \<Rightarrow> i | None \<Rightarrow> ins))"

fun pass_populate_nodes ::
  "instruction_seq \<Rightarrow> (label, call) btree \<Rightarrow> (label, instruction) btree \<Rightarrow> built_program \<Rightarrow> built_program option" where
  "pass_populate_nodes [] resolved lowered p = Some p"
| "pass_populate_nodes ((l, ins, _) # insts) resolved lowered p =
     (if is_undefined ins then pass_populate_nodes insts resolved lowered p
      else do { i \<leftarrow> populated l ins resolved lowered;
                p1 \<leftarrow> builder_insert l i p;
                pass_populate_nodes insts resolved lowered p1 })"

fun flow_target :: "instruction \<Rightarrow> label option" where
  "flow_target (Jmp _ t) = Some t"
| "flow_target (CallLocal t _) = Some t"
| "flow_target _ = None"

fun pass_validate_control_flow_targets :: "instruction_seq \<Rightarrow> built_program \<Rightarrow> unit build" where
  "pass_validate_control_flow_targets [] p = accept ()"
| "pass_validate_control_flow_targets ((l, ins, _) # insts) p =
     (case flow_target ins of
        None \<Rightarrow> pass_validate_control_flow_targets insts p
      | Some t \<Rightarrow>
        if \<not> cfg_contains (pr_cfg p) t
        then reject (''control-flow target '' @ label_string t @ '' at '' @ label_string l @ '' is not an instruction boundary'')
        else pass_validate_control_flow_targets insts p)"

definition fallthrough :: "instruction_seq \<Rightarrow> instruction \<Rightarrow> bool \<Rightarrow> label build" where
  "fallthrough rest ins must_exit =
     (case rest of
        (l, _, _) # _ \<Rightarrow> accept l
      | [] \<Rightarrow> if has_fall ins \<and> must_exit then reject ''fallthrough in last instruction'' else accept label_exit)"

definition connect_conditional :: "label \<Rightarrow> condition \<Rightarrow> label \<Rightarrow> label \<Rightarrow> built_program \<Rightarrow> built_program build" where
  "connect_conditional l c target fall p =
     (if target = fall then lift_build (builder_add_child l fall p) accept
      else if \<not> cfg_contains (pr_cfg p) target then reject (''jump to undefined label '' @ label_string target)
      else lift_build (insert_jump l target (Assume c True) p)
        (\<lambda>p1. lift_build (insert_jump l fall (Assume (reverse_condition c) True) p1) accept))"

definition connect_instruction :: "label \<Rightarrow> instruction \<Rightarrow> label \<Rightarrow> built_program \<Rightarrow> built_program build" where
  "connect_instruction l ins fall p =
     try_then
       (case ins of
          Jmp (Some c) target \<Rightarrow> connect_conditional l c target fall p
        | Jmp None target \<Rightarrow> lift_build (builder_add_child l target p) accept
        | _ \<Rightarrow> if has_fall ins then lift_build (builder_add_child l fall p) accept else accept p)
       (\<lambda>p1. if is_exit_ins ins then lift_build (builder_add_child l label_exit p1) accept else accept p1)"

fun connect_loop :: "instruction_seq \<Rightarrow> bool \<Rightarrow> built_program \<Rightarrow> built_program build" where
  "connect_loop [] must_exit p = accept p"
| "connect_loop ((l, ins, _) # rest) must_exit p =
     (if is_undefined ins then connect_loop rest must_exit p
      else try_then (fallthrough rest ins must_exit)
        (\<lambda>fall. try_then (connect_instruction l ins fall p) (connect_loop rest must_exit)))"

definition pass_connect_edges :: "instruction_seq \<Rightarrow> bool \<Rightarrow> built_program \<Rightarrow> built_program build" where
  "pass_connect_edges insts must_exit p =
     (case insts of
        [] \<Rightarrow> reject ''empty instruction sequence''
      | (first, ins, _) # _ \<Rightarrow>
        lift_build
          (do { assert_that (is_undefined ins \<or> cfg_contains (pr_cfg p) first);
                builder_add_child label_entry first p })
          (connect_loop insts must_exit))"

subsection \<open>Inlining of local calls\<close>

definition slashes :: "string \<Rightarrow> int" where
  "slashes s = int (length (filter (\<lambda>c. c = CHR ''/'') s))"

definition frame_label :: "string \<Rightarrow> label \<Rightarrow> label" where
  "frame_label pfx m = label_new_full (label_from m) (label_to m) pfx"

definition set_call_prefix :: "label \<Rightarrow> string \<Rightarrow> built_program \<Rightarrow> built_program option" where
  "set_call_prefix caller pfx p =
     do { ins \<leftarrow> map_of (pr_instructions p) caller;
          Some (case ins of
              CallLocal t _ \<Rightarrow> p\<lparr>pr_instructions := bt_insert caller (CallLocal t pfx) (pr_instructions p)\<rparr>
            | _ \<Rightarrow> p) }"

fun clone_instruction :: "string \<Rightarrow> instruction \<Rightarrow> instruction" where
  "clone_instruction pfx (Exit _) = Exit pfx"
| "clone_instruction pfx (Call c) = Call (c\<lparr>call_prefix := pfx\<rparr>)"
| "clone_instruction pfx ins = ins"

definition clone_node :: "string \<Rightarrow> label \<Rightarrow> bool \<Rightarrow> label \<Rightarrow> built_program \<Rightarrow> built_program option" where
  "clone_node pfx caller first m p =
     do { ins \<leftarrow> map_of (pr_instructions p) m;
          p1 \<leftarrow> builder_insert (frame_label pfx m) (clone_instruction pfx ins) p;
          if first then builder_add_child caller (frame_label pfx m) p1 else Some p1 }"

fun enqueue_macro :: "label list \<Rightarrow> label bset \<Rightarrow> label bset \<Rightarrow> label bset \<times> label bset" where
  "enqueue_macro [] ms seen = (ms, seen)"
| "enqueue_macro (c # cs) ms seen =
     (if c \<noteq> label_exit \<and> c \<notin> set seen then enqueue_macro cs (bs_insert c ms) (bs_insert c seen)
      else enqueue_macro cs ms seen)"

text \<open>The walk over the callee: the blocks to clone, those already met and the program.\<close>

partial_function (option) walk_macro ::
  "string \<Rightarrow> label \<Rightarrow> label bset \<Rightarrow> label bset \<Rightarrow> bool \<Rightarrow> built_program \<Rightarrow> (built_program \<times> label bset) build" where
  "walk_macro pfx caller ms seen first p =
     (case ms of
        [] \<Rightarrow> Some (Inr (p, seen))
      | m # ms' \<Rightarrow>
        if pfx = stack_frame_prefix m then Some (Inl (pfx @ '': illegal recursion''))
        else Option.bind (clone_node pfx caller first m p) (\<lambda>p1.
          Option.bind (children_of (pr_cfg p1) m) (\<lambda>cs.
            (let q = enqueue_macro cs ms' seen in walk_macro pfx caller (fst q) (snd q) False p1))))"

declare walk_macro.simps [code]

fun clone_edges :: "string \<Rightarrow> label \<Rightarrow> label \<Rightarrow> label list \<Rightarrow> built_program \<Rightarrow> built_program option" where
  "clone_edges pfx exit_to l [] p = Some p"
| "clone_edges pfx exit_to l (c # cs) p =
     do { p1 \<leftarrow> builder_add_child l (if c = label_exit then exit_to else frame_label pfx c) p;
          clone_edges pfx exit_to l cs p1 }"

fun clone_all_edges :: "string \<Rightarrow> label \<Rightarrow> label list \<Rightarrow> built_program \<Rightarrow> built_program option" where
  "clone_all_edges pfx exit_to [] p = Some p"
| "clone_all_edges pfx exit_to (m # ms) p =
     do { cs \<leftarrow> children_of (pr_cfg p) m;
          p1 \<leftarrow> clone_edges pfx exit_to (frame_label pfx m) cs p;
          clone_all_edges pfx exit_to ms p1 }"

definition inline_one :: "label \<Rightarrow> label \<Rightarrow> built_program \<Rightarrow> (built_program \<times> label bset) build" where
  "inline_one caller entry p =
     (let pfx = label_string caller
      in lift_build (out_degree (pr_cfg p) caller) (\<lambda>d.
        if d \<noteq> 1 then reject (''local call at '' @ pfx @ '' must have exactly one continuation'')
        else lift_build (get_child (pr_cfg p) caller) (\<lambda>exit_to.
          lift_build (set_call_prefix caller pfx p) (\<lambda>p1.
            try_then (walk_macro pfx caller [entry] [entry] True p1) (\<lambda>(p2, seen).
              lift_build (clone_all_edges pfx exit_to seen p2) (\<lambda>p3.
                lift_build (builder_remove_child caller exit_to p3) (\<lambda>p4. accept (p4, seen))))))))"

fun call_target_at :: "built_program \<Rightarrow> label \<Rightarrow> label option option" where
  "call_target_at p l =
     (if cfg_contains (pr_cfg p) l
      then do { ins \<leftarrow> map_of (pr_instructions p) l;
                Some (case ins of CallLocal t _ \<Rightarrow> Some t | _ \<Rightarrow> None) }
      else Some None)"

definition stack_frame_depth :: "label \<Rightarrow> int" where
  "stack_frame_depth caller = slashes (label_string caller) + 2"



lemma slashes_simps [simp]:
  "slashes [] = 0" "slashes (c # s) = (if c = CHR ''/'' then 1 else 0) + slashes s"
  "slashes (a @ b) = slashes a + slashes b" "0 \<le> slashes s"
  by (simp_all add: slashes_def)

lemma slashes_digit: "n < 10 \<Longrightarrow> slashes [digit_char n] = 0"
proof -
  assume "n < 10"
  then have "char_of (48 + n) \<noteq> CHR ''/''"
    using char_of_eq_iff [of "48 + n" "CHR ''/''"] by (auto simp: take_bit_nat_def)
  then show ?thesis using \<open>n < 10\<close> by (simp add: digit_char_def)
qed

lemma slashes_nat [simp]: "slashes (nat_string n) = 0"
proof (induction n rule: nat_string.induct)
  case (1 n)
  then show ?case
    by (subst nat_string.simps) (simp del: slashes_simps(2) add: slashes_digit)
qed

lemma slashes_int [simp]: "slashes (int_string k) = 0"
  by (simp add: int_string_def)

lemma frame_label_string:
  "slashes (label_string (frame_label pfx m)) = slashes pfx + (if pfx = [] then 0 else 1)"
  by (auto simp: label_string_def frame_label_def label_new_full_def label_entry_def label_exit_def)

lemma label_string_not_Nil [simp]: "label_string l \<noteq> []"
proof -
  have "nat_string n \<noteq> []" for n by (subst nat_string.simps) simp
  then show ?thesis by (simp add: label_string_def int_string_def)
qed

text \<open>The frame prefix of a nested call is the label of its caller, one separator longer, so the bound
  on call frames bounds the recursion.\<close>

function (sequential) add_cfg_nodes :: "built_program \<Rightarrow> label \<Rightarrow> label \<Rightarrow> int \<Rightarrow> built_program build"
  and add_nested :: "built_program \<Rightarrow> string \<Rightarrow> label list \<Rightarrow> int \<Rightarrow> built_program build" where
  "add_cfg_nodes p caller entry mx =
     (if stack_frame_depth caller > mx then reject ''too many call stack frames''
      else try_then (inline_one caller entry p)
        (\<lambda>q. add_nested (fst q) (label_string caller) (snd q) mx))"
| "add_nested p pfx [] mx = accept p"
| "add_nested p pfx (m # ms) mx =
     lift_build (call_target_at p (frame_label pfx m)) (\<lambda>t.
       (case t of
          None \<Rightarrow> add_nested p pfx ms mx
        | Some target \<Rightarrow>
          try_then (add_cfg_nodes p (frame_label pfx m) target mx) (\<lambda>p1. add_nested p1 pfx ms mx)))"
  by pat_completeness auto
termination
proof (relation "inv_image (less_than <*lex*> less_than) (\<lambda>x. case x of
      Inl (p, caller, entry, mx) \<Rightarrow> (nat (mx - slashes (label_string caller)), 0)
    | Inr (p, pfx, ms, mx) \<Rightarrow> (nat (mx - slashes (label_string (frame_label pfx label_entry))), 1 + length ms))")
qed (auto simp: stack_frame_depth_def frame_label_string)

declare add_cfg_nodes.simps [simp del]

fun inline_loop :: "instruction_seq \<Rightarrow> int \<Rightarrow> built_program \<Rightarrow> built_program build" where
  "inline_loop [] mx p = accept p"
| "inline_loop ((l, ins, _) # insts) mx p =
     (case ins of
        CallLocal t _ \<Rightarrow> try_then (add_cfg_nodes p l t mx) (inline_loop insts mx)
      | _ \<Rightarrow> inline_loop insts mx p)"

definition pass_inline_local_calls :: "instruction_seq \<Rightarrow> int \<Rightarrow> built_program \<Rightarrow> built_program build" where
  "pass_inline_local_calls insts mx p =
     lift_build
       (if insts = [] then Some ()
        else do { cs \<leftarrow> children_of (pr_cfg p) label_entry; assert_that (cs \<noteq> []) })
       (\<lambda>_. inline_loop insts mx p)"

subsection \<open>The depth of tail calls\<close>

definition is_tail_call_helper :: "call \<Rightarrow> 'p program_platform_scheme \<Rightarrow> bool option" where
  "is_tail_call_helper c pf =
     (if call_kind c \<noteq> Helper then Some False
      else if \<not> is_helper_usable pf (call_func c) then Some False
      else do { pr \<leftarrow> get_helper_prototype pf (call_func c);
                Some (proto_return_type pr = RT_IntegerOrNoReturnIfSucceed) })"

fun is_tail_call_site :: "instruction \<Rightarrow> 'p program_platform_scheme \<Rightarrow> bool option" where
  "is_tail_call_site (Call c) pf = is_tail_call_helper c pf"
| "is_tail_call_site (Callx _) pf = Some True"
| "is_tail_call_site _ pf = Some False"

text \<open>The work stack holds its top first.\<close>

function (sequential) collect_wto_labels :: "component list \<Rightarrow> label bset \<Rightarrow> label bset" where
  "collect_wto_labels [] ls = ls"
| "collect_wto_labels (WtoLabel l # stack) ls = collect_wto_labels stack (bs_insert l ls)"
| "collect_wto_labels (WtoCycle cs # stack) ls = collect_wto_labels (cs @ stack) ls"
  by pat_completeness auto
termination
  by (relation "measure (\<lambda>(st, ls). size_list size st)") auto

abbreviation TAIL_CALL_CHAIN_LIMIT :: int where "TAIL_CALL_CHAIN_LIMIT \<equiv> 33"
abbreviation UNINITIALIZED_DEPTH :: int where "UNINITIALIZED_DEPTH \<equiv> - (2 ^ 31)"

definition bt_update :: "'k::linorder \<Rightarrow> ('v \<Rightarrow> 'v) \<Rightarrow> ('k, 'v) btree \<Rightarrow> ('k, 'v) btree option" where
  "bt_update k f m = do { v \<leftarrow> map_of m k; Some (bt_insert k (f v) m) }"

definition scc_of :: "wto \<Rightarrow> label \<Rightarrow> label option" where
  "scc_of w l = do { n \<leftarrow> nesting w l; Some (case outermost_head n of Some h \<Rightarrow> h | None \<Rightarrow> l) }"

fun collect_sccs :: "wto \<Rightarrow> label list \<Rightarrow> (label, label) btree \<Rightarrow> label bset \<Rightarrow> ((label, label) btree \<times> label bset) option" where
  "collect_sccs w [] m ids = Some (m, ids)"
| "collect_sccs w (l # ls) m ids = do { s \<leftarrow> scc_of w l; collect_sccs w ls (bt_insert l s m) (bs_insert s ids) }"

record tail_data =
  tail_sites :: "(label, int) btree"
  tail_rep :: "(label, label option) btree"
  dag_succs :: "(label, label bset) btree"
  indegrees :: "(label, int) btree"

definition constant_tree :: "'v \<Rightarrow> label list \<Rightarrow> (label, 'v) btree" where
  "constant_tree v ids = map (\<lambda>l. (l, v)) ids"

definition tail_data_new :: "label bset \<Rightarrow> tail_data" where
  "tail_data_new ids = \<lparr>tail_sites = constant_tree 0 ids, tail_rep = constant_tree None ids,
     dag_succs = constant_tree [] ids, indegrees = constant_tree 0 ids\<rparr>"

definition record_site :: "label \<Rightarrow> label \<Rightarrow> tail_data \<Rightarrow> tail_data option" where
  "record_site scc l t =
     do { sites \<leftarrow> bt_update scc (\<lambda>n. n + 1) (tail_sites t);
          reps \<leftarrow> bt_update scc (\<lambda>r. if r = None then Some l else r) (tail_rep t);
          Some (t\<lparr>tail_sites := sites, tail_rep := reps\<rparr>) }"

fun link_children ::
  "(label, label) btree \<Rightarrow> label bset \<Rightarrow> label \<Rightarrow> label list \<Rightarrow> tail_data \<Rightarrow> tail_data option" where
  "link_children scc_map reachable src [] t = Some t"
| "link_children scc_map reachable src (c # cs) t =
     (if c \<notin> set reachable then link_children scc_map reachable src cs t
      else do { dst \<leftarrow> map_of scc_map c;
                if src = dst then link_children scc_map reachable src cs t
                else do { ss \<leftarrow> map_of (dag_succs t) src;
                          if dst \<in> set ss then link_children scc_map reachable src cs t
                          else do { deg \<leftarrow> bt_update dst (\<lambda>n. n + 1) (indegrees t);
                                    link_children scc_map reachable src cs
                                      (t\<lparr>dag_succs := bt_insert src (bs_insert dst ss) (dag_succs t),
                                         indegrees := deg\<rparr>) } } })"

fun collect_tail_data ::
  "built_program \<Rightarrow> 'p program_platform_scheme \<Rightarrow> (label, label) btree \<Rightarrow> label bset \<Rightarrow> label list \<Rightarrow>
   tail_data \<Rightarrow> tail_data option" where
  "collect_tail_data p pf scc_map reachable [] t = Some t"
| "collect_tail_data p pf scc_map reachable (l # ls) t =
     do { src \<leftarrow> map_of scc_map l;
          ins \<leftarrow> map_of (pr_instructions p) l;
          site \<leftarrow> is_tail_call_site ins pf;
          t1 \<leftarrow> (if site then record_site src l t else Some t);
          cs \<leftarrow> children_of (pr_cfg p) l;
          t2 \<leftarrow> link_children scc_map reachable src cs t1;
          collect_tail_data p pf scc_map reachable ls t2 }"

text \<open>Kahn's order: the labels still to be expanded follow those that are done.\<close>

fun drop_indegrees :: "label list \<Rightarrow> (label, int) btree \<Rightarrow> ((label, int) btree \<times> label list) option" where
  "drop_indegrees [] deg = Some (deg, [])"
| "drop_indegrees (s # ss) deg =
     do { d \<leftarrow> map_of deg s;
          (deg', new) \<leftarrow> drop_indegrees ss (bt_insert s (d - 1) deg);
          Some (deg', if d - 1 = 0 then s # new else new) }"

definition topo_step ::
  "(label, label bset) btree \<Rightarrow> (label, int) btree \<Rightarrow> label \<Rightarrow> ((label, int) btree \<times> label list) option" where
  "topo_step succs deg l = do { ss \<leftarrow> map_of succs l; drop_indegrees ss deg }"

partial_function (option) topo_loop ::
  "(label, label bset) btree \<Rightarrow> (label, int) btree \<Rightarrow> label list \<Rightarrow> label list \<Rightarrow> label list option" where
  "topo_loop succs deg todo visited =
     (case todo of
        [] \<Rightarrow> Some visited
      | l # todo' \<Rightarrow>
        Option.bind (topo_step succs deg l) (\<lambda>(deg', new). topo_loop succs deg' (todo' @ new) (visited @ [l])))"

declare topo_loop.simps [code]

record depth_data =
  max_tail_depth :: "(label, int) btree"
  depth_label :: "(label, label option) btree"

fun init_depths :: "tail_data \<Rightarrow> label list \<Rightarrow> depth_data \<Rightarrow> depth_data option" where
  "init_depths t [] d = Some d"
| "init_depths t (s # ss) d =
     do { deg \<leftarrow> map_of (indegrees t) s;
          if deg = 0
          then do { n \<leftarrow> map_of (tail_sites t) s;
                    r \<leftarrow> map_of (tail_rep t) s;
                    init_depths t ss (d\<lparr>max_tail_depth := bt_insert s n (max_tail_depth d),
                      depth_label := bt_insert s r (depth_label d)\<rparr>) }
          else init_depths t ss (d\<lparr>max_tail_depth := bt_insert s UNINITIALIZED_DEPTH (max_tail_depth d),
                 depth_label := bt_insert s None (depth_label d)\<rparr>) }"

fun push_depth :: "tail_data \<Rightarrow> label \<Rightarrow> int \<Rightarrow> label list \<Rightarrow> depth_data \<Rightarrow> depth_data option" where
  "push_depth t scc current [] d = Some d"
| "push_depth t scc current (s # ss) d =
     do { n \<leftarrow> map_of (tail_sites t) s;
          old \<leftarrow> map_of (max_tail_depth d) s;
          if current + n > old
          then do { r \<leftarrow> map_of (tail_rep t) s;
                    r' \<leftarrow> (if r \<noteq> None then Some r else map_of (depth_label d) scc);
                    push_depth t scc current ss
                      (d\<lparr>max_tail_depth := bt_insert s (current + n) (max_tail_depth d),
                         depth_label := bt_insert s r' (depth_label d)\<rparr>) }
          else push_depth t scc current ss d }"

fun check_depths :: "tail_data \<Rightarrow> label list \<Rightarrow> depth_data \<Rightarrow> unit build" where
  "check_depths t [] d = accept ()"
| "check_depths t (s # order) d =
     lift_build (map_of (max_tail_depth d) s) (\<lambda>current.
       if current = UNINITIALIZED_DEPTH then check_depths t order d
       else if current > TAIL_CALL_CHAIN_LIMIT
       then (let at = (case map_of (depth_label d) s of Some (Some l) \<Rightarrow> l | _ \<Rightarrow> s)
             in reject (''tail call chain depth exceeds 33 (at '' @ label_string at @ '')''))
       else lift_build (do { ss \<leftarrow> map_of (dag_succs t) s; push_depth t s current ss d }) (check_depths t order))"

definition validate_tail_call_chain_depth :: "built_program \<Rightarrow> wto \<Rightarrow> 'p program_platform_scheme \<Rightarrow> unit build" where
  "validate_tail_call_chain_depth p w pf =
     (let reachable = foldl (\<lambda>ls c. collect_wto_labels [c] ls) [] (rev (wto_components w))
      in lift_build
        (do { (scc_map, ids) \<leftarrow> collect_sccs w reachable [] [];
              t \<leftarrow> collect_tail_data p pf scc_map reachable reachable (tail_data_new ids);
              sources \<leftarrow> Some (filter (\<lambda>s. map_of (indegrees t) s = Some 0) ids);
              order \<leftarrow> topo_loop (dag_succs t) (indegrees t) sources [];
              Some (ids, t, order) })
        (\<lambda>(ids, t, order).
          if length order \<noteq> length ids then reject ''WTO-derived SCC graph must be acyclic''
          else lift_build (init_depths t ids \<lparr>max_tail_depth = [], depth_label = []\<rparr>) (check_depths t order)))"

subsection \<open>Callback metadata, loop counters and assertions\<close>

fun collect_callback_targets :: "built_program \<Rightarrow> label list \<Rightarrow> int bset \<Rightarrow> int bset option" where
  "collect_callback_targets p [] acc = Some acc"
| "collect_callback_targets p (l # ls) acc =
     (if l = label_entry \<or> l = label_exit \<or> label_isjump l \<or> stack_frame_prefix l \<noteq> []
      then collect_callback_targets p ls acc
      else do { ins \<leftarrow> map_of (pr_instructions p) l;
                collect_callback_targets p ls (if is_exit_ins ins then acc else bs_insert (label_from l) acc) })"

text \<open>The work list is a stack; a label met before is skipped.\<close>

partial_function (option) exit_reach_loop :: "built_program \<Rightarrow> label bset \<Rightarrow> label list \<Rightarrow> bool option" where
  "exit_reach_loop p seen worklist =
     (case worklist of
        [] \<Rightarrow> Some False
      | l # rest \<Rightarrow>
        if l \<in> set seen then exit_reach_loop p seen rest
        else if l = label_exit then Some True
        else Option.bind
          (if l \<noteq> label_entry \<and> cfg_contains (pr_cfg p) l
           then map_option (\<lambda>ins. is_exit_ins ins \<and> stack_frame_prefix l = []) (map_of (pr_instructions p) l)
           else Some False) (\<lambda>ex.
            if ex then Some True
            else Option.bind (children_of (pr_cfg p) l) (\<lambda>cs.
              exit_reach_loop p (bs_insert l seen) (rev cs @ rest))))"

declare exit_reach_loop.simps [code]

definition has_reachable_top_level_exit :: "label \<Rightarrow> built_program \<Rightarrow> bool option" where
  "has_reachable_top_level_exit start p = exit_reach_loop p [] [start]"

fun targets_with_exit :: "built_program \<Rightarrow> int list \<Rightarrow> int bset \<Rightarrow> int bset option" where
  "targets_with_exit p [] acc = Some acc"
| "targets_with_exit p (n # ns) acc =
     do { b \<leftarrow> has_reachable_top_level_exit (label_new n) p;
          targets_with_exit p ns (if b then bs_insert n acc else acc) }"

definition pass_compute_callback_metadata :: "built_program \<Rightarrow> built_program option" where
  "pass_compute_callback_metadata p =
     do { ts \<leftarrow> collect_callback_targets p (cfg_labels (pr_cfg p)) [];
          es \<leftarrow> targets_with_exit p ts [];
          Some (p\<lparr>callback_target_labels := ts, callback_targets_with_exit := es\<rparr>) }"

fun insert_counters :: "label list \<Rightarrow> built_program \<Rightarrow> built_program option" where
  "insert_counters [] p = Some p"
| "insert_counters (l # ls) p =
     do { p1 \<leftarrow> builder_insert_after l (label_make_increment_counter l) (IncrementLoopCounter l) p;
          insert_counters ls p1 }"

definition pass_insert_termination_counters :: "wto \<Rightarrow> built_program \<Rightarrow> built_program option" where
  "pass_insert_termination_counters w p = do { heads \<leftarrow> wto_loop_heads w; insert_counters heads p }"

fun extract_loop :: "label list \<Rightarrow> bool \<Rightarrow> runtime_config \<Rightarrow> built_program \<Rightarrow> built_program option" where
  "extract_loop [] privileged rt p = Some p"
| "extract_loop (l # ls) privileged rt p =
     do { ins \<leftarrow> map_of (pr_instructions p) l;
          as \<leftarrow> get_assertions ins privileged rt (Some l);
          p1 \<leftarrow> set_assertions l as p;
          extract_loop ls privileged rt p1 }"

definition pass_extract_assertions :: "build_info \<Rightarrow> runtime_config \<Rightarrow> built_program \<Rightarrow> built_program option" where
  "pass_extract_assertions info rt p = extract_loop (cfg_labels (pr_cfg p)) (is_privileged info) rt p"

subsection \<open>The whole construction\<close>

definition build_cfg ::
  "instruction_seq \<Rightarrow> build_info \<Rightarrow> 'p program_platform_scheme \<Rightarrow> verifier_options \<Rightarrow> built_program build" where
  "build_cfg insts info pf opts =
     try_then (pass_validate_instruction_support insts info) (\<lambda>_.
     try_then (pass_resolve_kfunc_calls insts pf []) (\<lambda>resolved.
     try_then (pass_lower_pseudo_loads insts info []) (\<lambda>lowered.
     lift_build (pass_populate_nodes insts resolved lowered builder_new) (\<lambda>p1.
     try_then (pass_validate_control_flow_targets insts p1) (\<lambda>_.
     try_then (pass_connect_edges insts (must_have_exit opts) p1) (\<lambda>p2.
     pass_inline_local_calls insts (max_call_stack_frames (runtime opts)) p2))))))"

definition finish_program ::
  "build_info \<Rightarrow> 'p program_platform_scheme \<Rightarrow> verifier_options \<Rightarrow> built_program \<Rightarrow> built_program build" where
  "finish_program info pf opts p =
     lift_build (wto_new (pr_cfg p)) (\<lambda>w.
     try_then (validate_tail_call_chain_depth p w pf) (\<lambda>_.
     lift_build
       (do { p1 \<leftarrow> pass_compute_callback_metadata p;
             p2 \<leftarrow> (if check_for_termination (runtime opts) then pass_insert_termination_counters w p1 else Some p1);
             pass_extract_assertions info (runtime opts) p2 }) accept))"

definition from_sequence ::
  "instruction_seq \<Rightarrow> build_info \<Rightarrow> 'p program_platform_scheme \<Rightarrow> verifier_options \<Rightarrow> built_program build" where
  "from_sequence insts info pf opts =
     (case options_validate opts of
        Inl message \<Rightarrow> reject message
      | Inr _ \<Rightarrow> try_then (build_cfg insts info pf opts) (finish_program info pf opts))"

end
