(* ===== verification/Program_Facts.thy ===== *)
theory Program_Facts
  imports Program_Build Fwd_Results
begin

text \<open>
  What the construction of \<open>src/ir/program.rs\<close> guarantees: the graph, the instructions and the
  assertions of an accepted program fit together, the call frames are bounded, and every execution of
  the instruction sequence is a path of the graph.
\<close>

subsection \<open>Inversion of results\<close>

named_theorems build_simps \<open>inversion of the result combinators\<close>

lemma build_Inr [build_simps]:
  "try_then m f = Some (Inr y) \<longleftrightarrow> (\<exists>x. m = Some (Inr x) \<and> f x = Some (Inr y))"
  "lift_build m' g = Some (Inr y) \<longleftrightarrow> (\<exists>x. m' = Some x \<and> g x = Some (Inr y))"
  "accept x = Some (Inr z) \<longleftrightarrow> z = x" "reject e \<noteq> Some (Inr y)"
  by (auto simp: try_then_def lift_build_def accept_def reject_def split: option.splits sum.splits)

subsection \<open>The invariant of the builder\<close>

definition nodes :: "built_program \<Rightarrow> label set" where
  "nodes p = dom (map_of (pr_cfg p))"

definition edges :: "built_program \<Rightarrow> (label \<times> label) set" where
  "edges p = cfg_edges (pr_cfg p)"

abbreviation ins_at :: "built_program \<Rightarrow> label \<Rightarrow> instruction option" where
  "ins_at p \<equiv> map_of (pr_instructions p)"

definition prog_ok :: "built_program \<Rightarrow> bool" where
  "prog_ok p \<longleftrightarrow> cfg_ok (pr_cfg p) \<and> bt_ok (pr_instructions p) \<and> bt_ok (pr_assertions p) \<and>
     dom (ins_at p) = nodes p"

lemma cfg_contains_nodes: "cfg_contains (pr_cfg p) l \<longleftrightarrow> l \<in> nodes p"
  by (auto simp: cfg_contains_def nodes_def)

lemma prog_ok_nodes: "prog_ok p \<Longrightarrow> l \<in> nodes p \<longleftrightarrow> ins_at p l \<noteq> None"
  unfolding prog_ok_def by blast

lemma builder_new_ok: "prog_ok builder_new" "nodes builder_new = {label_entry, label_exit}" "edges builder_new = {}"
  "ins_at builder_new label_entry = Some (Undefined 0)"
proof -
  have d: "dom (map_of cfg_new) = {label_entry, label_exit}" by (auto simp: cfg_new_def)
  then show "nodes builder_new = {label_entry, label_exit}" by (simp add: nodes_def builder_new_def)
  show "edges builder_new = {}" by (simp add: edges_def builder_new_def cfg_new_ok(2))
  show "prog_ok builder_new" using d
    by (auto simp: prog_ok_def nodes_def builder_new_def cfg_new_ok(1) simp del: bt_insert.simps)
  show "ins_at builder_new label_entry = Some (Undefined 0)" by (simp add: builder_new_def)
qed

lemma builder_insert_spec:
  assumes ok: "prog_ok p" and r: "builder_insert l ins p = Some q"
  shows "l \<notin> nodes p" "prog_ok q" "nodes q = insert l (nodes p)" "edges q = edges p"
    "ins_at q = (ins_at p)(l \<mapsto> ins)" "pr_assertions q = pr_assertions p"
proof -
  obtain g where g: "cfg_insert l (pr_cfg p) = Some g"
    and q: "q = p\<lparr>pr_cfg := g, pr_instructions := bt_insert l ins (pr_instructions p)\<rparr>"
    and n: "\<not> cfg_contains (pr_cfg p) l" using r by (auto simp: builder_insert_def panic_simps)
  have c: "cfg_ok (pr_cfg p)" using ok by (simp add: prog_ok_def)
  note s = cfg_insert_spec [OF c g]
  show "l \<notin> nodes p" using n by (simp add: cfg_contains_nodes)
  show n: "nodes q = insert l (nodes p)" using s(3) q by (simp add: nodes_def)
  show "edges q = edges p" using s(2) q by (simp add: edges_def)
  show i: "ins_at q = (ins_at p)(l \<mapsto> ins)" using ok q by (simp add: prog_ok_def)
  show "pr_assertions q = pr_assertions p" using q by simp
  show "prog_ok q" using s(1) ok q n i by (simp add: prog_ok_def)
qed

lemma set_cfg_ok: "prog_ok p \<Longrightarrow> cfg_ok g \<Longrightarrow> dom (map_of g) = nodes p \<Longrightarrow> prog_ok (p\<lparr>pr_cfg := g\<rparr>)"
  by (simp add: prog_ok_def nodes_def)

lemma builder_add_child_spec:
  assumes ok: "prog_ok p" and r: "builder_add_child a b p = Some q"
  shows "prog_ok q" "nodes q = nodes p" "edges q = insert (a, b) (edges p)" "ins_at q = ins_at p"
    "pr_assertions q = pr_assertions p"
proof -
  obtain g where g: "add_child a b (pr_cfg p) = Some g" and q: "q = p\<lparr>pr_cfg := g\<rparr>"
    using r by (auto simp: builder_add_child_def panic_simps)
  have c: "cfg_ok (pr_cfg p)" using ok by (simp add: prog_ok_def)
  note s = add_child_spec [OF c g]
  show "prog_ok q" unfolding q by (rule set_cfg_ok [OF ok s(1)]) (simp add: s(3) nodes_def)
  show "nodes q = nodes p" using s(3) q by (simp add: nodes_def)
  show "edges q = insert (a, b) (edges p)" using s(2) q by (simp add: edges_def)
  show "ins_at q = ins_at p" "pr_assertions q = pr_assertions p" using q by simp_all
qed

lemma builder_remove_child_spec:
  assumes ok: "prog_ok p" and r: "builder_remove_child a b p = Some q"
  shows "prog_ok q" "nodes q = nodes p"
proof -
  obtain g where g: "remove_child a b (pr_cfg p) = Some g" and q: "q = p\<lparr>pr_cfg := g\<rparr>"
    using r by (auto simp: builder_remove_child_def panic_simps)
  have c: "cfg_ok (pr_cfg p)" using ok by (simp add: prog_ok_def)
  note s = remove_child_spec [OF c g]
  show "prog_ok q" unfolding q by (rule set_cfg_ok [OF ok s(1)]) (simp add: s(3) nodes_def)
  show "nodes q = nodes p" using s(3) q by (simp add: nodes_def)
qed

text \<open>A pass that only adds nodes and edges keeps the instructions of the labels it finds.\<close>

definition grows :: "built_program \<Rightarrow> built_program \<Rightarrow> bool" where
  "grows p q \<longleftrightarrow> prog_ok q \<and> nodes p \<subseteq> nodes q \<and> edges p \<subseteq> edges q \<and> (\<forall>l\<in>nodes p. ins_at q l = ins_at p l)"

lemma grows_refl: "prog_ok p \<Longrightarrow> grows p p"
  by (simp add: grows_def)

lemma grows_trans: "grows p q \<Longrightarrow> grows q r \<Longrightarrow> grows p r"
  unfolding grows_def by (intro conjI) (blast, blast, blast, metis subsetD)

lemma growsD: "grows p q \<Longrightarrow> prog_ok q" "grows p q \<Longrightarrow> e \<in> edges p \<Longrightarrow> e \<in> edges q"
  "grows p q \<Longrightarrow> l \<in> nodes p \<Longrightarrow> l \<in> nodes q" "grows p q \<Longrightarrow> prog_ok p \<Longrightarrow> ins_at p l = Some i \<Longrightarrow> ins_at q l = Some i"
  by (auto simp: grows_def prog_ok_nodes)

lemma builder_insert_grows: "prog_ok p \<Longrightarrow> builder_insert l ins p = Some q \<Longrightarrow> grows p q"
  using builder_insert_spec [of p l ins q] by (auto simp: grows_def)

lemma builder_add_child_grows: "prog_ok p \<Longrightarrow> builder_add_child a b p = Some q \<Longrightarrow> grows p q"
  using builder_add_child_spec [of p a b q] by (auto simp: grows_def)

lemma insert_jump_spec:
  assumes ok: "prog_ok p" and r: "insert_jump a b ins p = Some q"
  shows "grows p q" "\<exists>j. (a, j) \<in> edges q \<and> (j, b) \<in> edges q \<and> ins_at q j = Some ins"
    "nodes q = insert (label_make_jump a b) (nodes p)"
proof -
  let ?j = "label_make_jump a b"
  obtain p1 p2 where p1: "builder_insert ?j ins p = Some p1" and p2: "builder_add_child a ?j p1 = Some p2"
    and p3: "builder_add_child ?j b p2 = Some q"
    using r by (auto simp: insert_jump_def Let_def panic_simps)
  note s1 = builder_insert_spec [OF ok p1]
  note s2 = builder_add_child_spec [OF s1(2) p2]
  note s3 = builder_add_child_spec [OF s2(1) p3]
  show "grows p q" using builder_insert_grows [OF ok p1] builder_add_child_grows [OF s1(2) p2]
      builder_add_child_grows [OF s2(1) p3] by (blast intro: grows_trans)
  show "\<exists>j. (a, j) \<in> edges q \<and> (j, b) \<in> edges q \<and> ins_at q j = Some ins"
    using s1(5) s2(3,4) s3(3,4) by (intro exI [of _ ?j]) simp
  show "nodes q = insert ?j (nodes p)" using s1(3) s2(2) s3(2) by simp
qed

subsection \<open>The nodes of the sequence\<close>

text \<open>The instruction that a position of the sequence stands for.\<close>

definition executed :: "build_info \<Rightarrow> 'p program_platform_scheme \<Rightarrow> instruction \<Rightarrow> instruction option" where
  "executed info pf ins =
     (case ins of
        CallBtf b m \<Rightarrow>
          (case resolve_kfunc_call pf b m of
             Inl _ \<Rightarrow> None
           | Inr c \<Rightarrow> Some (Call (c\<lparr>call_func := b, call_kind := Kfunc, call_module := m\<rparr>)))
      | LoadPseudo d k a b \<Rightarrow>
          if k = CodeAddr then Some ins
          else (case resolve_pseudo_load d k a b info of Some (Inr i) \<Rightarrow> Some i | _ \<Rightarrow> None)
      | _ \<Rightarrow> Some ins)"

definition is_lowered :: "instruction \<Rightarrow> bool" where
  "is_lowered ins \<longleftrightarrow> (case ins of LoadPseudo _ k _ _ \<Rightarrow> k \<noteq> CodeAddr | _ \<Rightarrow> False)"

definition is_btf_call :: "instruction \<Rightarrow> bool" where
  "is_btf_call ins \<longleftrightarrow> (case ins of CallBtf _ _ \<Rightarrow> True | _ \<Rightarrow> False)"

lemma pass_resolve_spec:
  assumes "pass_resolve_kfunc_calls insts pf m = Some (Inr r)" "bt_ok m" "distinct (map fst insts)"
  shows "bt_ok r \<and> (\<forall>l. l \<notin> fst ` set insts \<longrightarrow> map_of r l = map_of m l) \<and>
    (\<forall>(l, ins, li)\<in>set insts. is_btf_call ins \<longrightarrow> map_option Call (map_of r l) = executed info pf ins)"
  using assms
proof (induction insts arbitrary: m)
  case (Cons a insts)
  obtain l ins li where a: "a = (l, ins, li)" by (metis prod_cases3)
  have n: "l \<notin> fst ` set insts" using Cons(4) a by auto
  have *: "map_of r l = Some c \<Longrightarrow> P l ins (Some c) \<Longrightarrow> \<forall>(l, ins, li)\<in>set insts. P l ins (map_of r l) \<Longrightarrow>
    \<forall>(l, ins, li)\<in>set (a # insts). P l ins (map_of r l)" for c P using a by auto
  show ?case
  proof (cases "is_btf_call ins")
    case True
    then obtain b k where i: "ins = CallBtf b k" by (cases ins) (auto simp: is_btf_call_def)
    obtain c where c: "resolve_kfunc_call pf b k = Inr c"
      using Cons(2) i a by (cases "resolve_kfunc_call pf b k") (auto simp: build_simps)
    let ?c = "c\<lparr>call_func := b, call_kind := Kfunc, call_module := k\<rparr>"
    have r: "pass_resolve_kfunc_calls insts pf (bt_insert l ?c m) = Some (Inr r)" using Cons(2) i c a by simp
    have "bt_ok (bt_insert l ?c m)" "distinct (map fst insts)" using Cons(3,4) by simp_all
    note h = Cons(1) [OF r this]
    have l: "map_of r l = Some ?c" using h Cons(3) n by simp
    have e: "executed info pf ins = Some (Call ?c)" using i c by (simp add: executed_def)
    have o: "map_of r l' = map_of m l'" if "l' \<notin> fst ` set (a # insts)" for l' using h Cons(3) a that by simp
    show ?thesis using h o l e a by simp
  next
    case False
    have r: "pass_resolve_kfunc_calls insts pf m = Some (Inr r)"
      using Cons(2) False a by (cases ins) (auto simp: is_btf_call_def)
    have "distinct (map fst insts)" using Cons(4) by simp
    from Cons(1) [OF r Cons(3) this] show ?thesis using False a by simp
  qed
qed (auto simp: build_simps)

lemma pass_lower_spec:
  assumes "pass_lower_pseudo_loads insts info m = Some (Inr r)" "bt_ok m" "distinct (map fst insts)"
  shows "bt_ok r \<and> (\<forall>l. l \<notin> fst ` set insts \<longrightarrow> map_of r l = map_of m l) \<and>
    (\<forall>(l, ins, li)\<in>set insts.
      map_of r l = (if is_lowered ins then executed info pf ins else map_of m l) \<and> (is_lowered ins \<longrightarrow> map_of r l \<noteq> None))"
  using assms
proof (induction insts arbitrary: m)
  case (Cons a insts)
  obtain l ins li where a: "a = (l, ins, li)" by (metis prod_cases3)
  have n: "l \<notin> fst ` set insts" "distinct (map fst insts)" using Cons(4) a by auto
  show ?case
  proof (cases "is_lowered ins")
    case True
    then obtain d k x y where i: "ins = LoadPseudo d k x y" "k \<noteq> CodeAddr"
      by (cases ins) (auto simp: is_lowered_def)
    obtain e where e: "resolve_pseudo_load d k x y info = Some (Inr e)"
      and r: "pass_lower_pseudo_loads insts info (bt_insert l e m) = Some (Inr r)"
      using Cons(2) i a by (auto simp: build_simps)
    have "bt_ok (bt_insert l e m)" using Cons(3) by simp
    note h = Cons(1) [OF r this n(2)]
    have l: "map_of r l = Some e" using h Cons(3) n by simp
    have x: "executed info pf ins = Some e" using i e by (simp add: executed_def)
    have o: "map_of r l' = map_of m l'" if "l' \<notin> fst ` set (a # insts)" for l' using h Cons(3) a that by simp
    have "map_of (bt_insert l e m) l' = map_of m l'" if "(l', ins', li') \<in> set insts" for l' ins' li'
      using that n(1) Cons(3) by (force simp: image_iff)
    then have "\<forall>(l, ins, li)\<in>set insts.
      map_of r l = (if is_lowered ins then executed info pf ins else map_of m l) \<and> (is_lowered ins \<longrightarrow> map_of r l \<noteq> None)"
      using h by (fastforce split: prod.splits)
    then show ?thesis using h o l x a True by simp
  next
    case False
    have r: "pass_lower_pseudo_loads insts info m = Some (Inr r)"
      using Cons(2) False a by (cases ins) (auto simp: is_lowered_def)
    note h = Cons(1) [OF r Cons(3) n(2)]
    have "map_of r l = map_of m l" using h n by blast
    then show ?thesis using h False a by simp
  qed
qed (auto simp: build_simps)

lemma populated_executed:
  assumes "pass_resolve_kfunc_calls insts pf [] = Some (Inr resolved)"
    and "pass_lower_pseudo_loads insts info [] = Some (Inr lowered)"
    and "distinct (map fst insts)" and "(l, ins, li) \<in> set insts"
  shows "populated l ins resolved lowered = executed info pf ins"
proof -
  have r: "is_btf_call ins \<Longrightarrow> map_option Call (map_of resolved l) = executed info pf ins"
    using pass_resolve_spec [OF assms(1) _ assms(3), of info] assms(4) by auto
  have l: "map_of lowered l = (if is_lowered ins then executed info pf ins else None)"
    "is_lowered ins \<Longrightarrow> map_of lowered l \<noteq> None"
    using pass_lower_spec [OF assms(2) _ assms(3), of pf] assms(4) by auto
  show ?thesis
    using r l by (cases ins) (auto simp: populated_def executed_def is_btf_call_def is_lowered_def split: if_splits)
qed

lemma populate_spec:
  assumes "pass_populate_nodes insts resolved lowered p = Some q" "prog_ok p"
  shows "grows p q \<and> edges q = edges p \<and>
    nodes q = nodes p \<union> {l. \<exists>ins li. (l, ins, li) \<in> set insts \<and> \<not> is_undefined ins} \<and>
    (\<forall>(l, ins, li)\<in>set insts. \<not> is_undefined ins \<longrightarrow> ins_at q l = populated l ins resolved lowered \<and> ins_at q l \<noteq> None)"
  using assms
proof (induction insts arbitrary: p)
  case (Cons a insts)
  obtain l ins li where a: "a = (l, ins, li)" by (metis prod_cases3)
  show ?case
  proof (cases "is_undefined ins")
    case True
    then show ?thesis using Cons a by auto
  next
    case False
    obtain i p1 where i: "populated l ins resolved lowered = Some i" and p1: "builder_insert l i p = Some p1"
      and q: "pass_populate_nodes insts resolved lowered p1 = Some q"
      using Cons(2) False a by (auto simp: panic_simps)
    note s = builder_insert_spec [OF Cons(3) p1]
    note h = Cons(1) [OF q s(2)]
    have g: "grows p q" using builder_insert_grows [OF Cons(3) p1] h grows_trans by blast
    have l: "ins_at q l = Some i" using growsD(4) [of p1 q l i] h s by simp
    have n: "nodes q = nodes p \<union> {l. \<exists>ins li. (l, ins, li) \<in> set (a # insts) \<and> \<not> is_undefined ins}"
      using h s(3) False a by auto
    show ?thesis using h g n l i s(4) a by simp
  qed
qed (simp add: grows_refl)

subsection \<open>The edges of the sequence\<close>

definition fall_label :: "instruction_seq \<Rightarrow> label" where
  "fall_label rest = (case rest of [] \<Rightarrow> label_exit | (l, _, _) # _ \<Rightarrow> l)"

definition linked :: "built_program \<Rightarrow> label \<Rightarrow> instruction \<Rightarrow> label \<Rightarrow> bool" where
  "linked q l ins fall \<longleftrightarrow>
     (case ins of
        Jmp (Some c) t \<Rightarrow>
          if t = fall then (l, fall) \<in> edges q
          else (\<exists>j. (l, j) \<in> edges q \<and> (j, t) \<in> edges q \<and> ins_at q j = Some (Assume c True)) \<and>
            (\<exists>j. (l, j) \<in> edges q \<and> (j, fall) \<in> edges q \<and> ins_at q j = Some (Assume (reverse_condition c) True))
      | Jmp None t \<Rightarrow> (l, t) \<in> edges q
      | Exit _ \<Rightarrow> (l, label_exit) \<in> edges q
      | _ \<Rightarrow> (l, fall) \<in> edges q)"

fun all_linked :: "built_program \<Rightarrow> instruction_seq \<Rightarrow> bool" where
  "all_linked q [] = True"
| "all_linked q ((l, ins, _) # rest) \<longleftrightarrow>
     (is_undefined ins \<or> linked q l ins (fall_label rest)) \<and> all_linked q rest"

lemma edges_nodes: "prog_ok p \<Longrightarrow> (a, b) \<in> edges p \<Longrightarrow> a \<in> nodes p \<and> b \<in> nodes p"
  using cfg_edges_dom unfolding prog_ok_def edges_def nodes_def by blast

lemma linked_grows: "prog_ok p \<Longrightarrow> grows p q \<Longrightarrow> linked p l ins fall \<Longrightarrow> linked q l ins fall"
  unfolding linked_def
  by (cases ins) (auto split: option.splits if_splits dest: growsD(2) growsD(4))

lemma all_linked_grows: "prog_ok p \<Longrightarrow> grows p q \<Longrightarrow> all_linked p insts \<Longrightarrow> all_linked q insts"
  by (induction p insts rule: all_linked.induct) (auto intro: linked_grows)

lemma connect_conditional_spec:
  assumes "prog_ok p" "connect_conditional l c t fall p = Some (Inr q)"
  shows "grows p q" "linked q l (Jmp (Some c) t) fall"
proof -
  have "grows p q \<and> linked q l (Jmp (Some c) t) fall"
  proof (cases "t = fall")
    case True
    then have "builder_add_child l fall p = Some q"
      using assms(2) by (auto simp: connect_conditional_def build_simps)
    then show ?thesis
      using builder_add_child_spec [OF assms(1)] builder_add_child_grows [OF assms(1)] True by (auto simp: linked_def)
  next
    case False
    obtain p1 where p1: "insert_jump l t (Assume c True) p = Some p1"
      and q: "insert_jump l fall (Assume (reverse_condition c) True) p1 = Some q"
      using assms(2) False by (auto simp: connect_conditional_def build_simps split: if_splits)
    note s1 = insert_jump_spec [OF assms(1) p1]
    have ok: "prog_ok p1" using s1(1) by (rule growsD)
    note s2 = insert_jump_spec [OF ok q]
    have "\<exists>j. (l, j) \<in> edges q \<and> (j, t) \<in> edges q \<and> ins_at q j = Some (Assume c True)"
      using s1(2) growsD(2,4) [OF s2(1)] ok by blast
    then show ?thesis using s2(2) grows_trans [OF s1(1) s2(1)] False by (simp add: linked_def)
  qed
  then show "grows p q" "linked q l (Jmp (Some c) t) fall" by simp_all
qed

lemma connect_instruction_spec:
  assumes "prog_ok p" "connect_instruction l ins fall p = Some (Inr q)"
  shows "grows p q \<and> linked q l ins fall"
proof (cases "\<exists>c t. ins = Jmp (Some c) t")
  case True
  then obtain c t where i: "ins = Jmp (Some c) t" by blast
  then show ?thesis
    using assms connect_conditional_spec [OF assms(1), of l c t fall q] by (auto simp: connect_instruction_def build_simps)
next
  case False
  have "\<exists>b. builder_add_child l b p = Some q \<and> (case ins of Jmp _ t \<Rightarrow> b = t | Exit _ \<Rightarrow> b = label_exit | _ \<Rightarrow> b = fall)"
    using assms(2) False
    by (cases ins) (auto simp: connect_instruction_def build_simps split: option.splits)
  then obtain b where b: "builder_add_child l b p = Some q"
    "case ins of Jmp _ t \<Rightarrow> b = t | Exit _ \<Rightarrow> b = label_exit | _ \<Rightarrow> b = fall" by blast
  show ?thesis
    using builder_add_child_spec [OF assms(1) b(1)] builder_add_child_grows [OF assms(1) b(1)] b(2) False
    by (cases ins) (auto simp: linked_def split: option.splits)
qed

lemma connect_loop_spec:
  assumes "prog_ok p" "connect_loop insts must_exit p = Some (Inr q)"
  shows "grows p q \<and> all_linked q insts"
  using assms
proof (induction insts arbitrary: p)
  case Nil
  then show ?case by (simp add: build_simps grows_refl)
next
  case (Cons a rest)
  obtain l ins li where a: "a = (l, ins, li)" by (metis prod_cases3)
  show ?case
  proof (cases "is_undefined ins")
    case True
    then show ?thesis using Cons a by auto
  next
    case False
    obtain fall p1 where f: "fallthrough rest ins must_exit = Some (Inr fall)"
      and p1: "connect_instruction l ins fall p = Some (Inr p1)"
      and q: "connect_loop rest must_exit p1 = Some (Inr q)"
      using Cons(3) False a by (auto simp: build_simps)
    have fall: "fall = fall_label rest"
      using f by (auto simp: fallthrough_def fall_label_def build_simps split: list.splits if_splits)
    note s = connect_instruction_spec [OF Cons(2) p1]
    have ok: "prog_ok p1" using s growsD(1) by blast
    note h = Cons(1) [OF ok q]
    show ?thesis using h s fall linked_grows [OF ok] grows_trans a by auto
  qed
qed

lemma pass_connect_spec:
  assumes "prog_ok p" "pass_connect_edges insts must_exit p = Some (Inr q)"
  shows "grows p q \<and> all_linked q insts \<and> insts \<noteq> [] \<and> (label_entry, fst (hd insts)) \<in> edges q"
proof -
  obtain l ins li rest where i: "insts = (l, ins, li) # rest"
    using assms(2) by (cases insts) (auto simp: pass_connect_edges_def build_simps)
  obtain p1 where p1: "builder_add_child label_entry l p = Some p1" and q: "connect_loop insts must_exit p1 = Some (Inr q)"
    using assms(2) i by (auto simp: pass_connect_edges_def build_simps panic_simps)
  note s = builder_add_child_spec [OF assms(1) p1] builder_add_child_grows [OF assms(1) p1]
  note h = connect_loop_spec [OF s(1) q]
  have "(label_entry, l) \<in> edges q" using growsD(2) [of p1 q] h s(3) by blast
  then show ?thesis using h grows_trans [OF s(6)] i by simp
qed

subsection \<open>Inlining keeps the invariant and bounds the frames\<close>

definition frames_within :: "int \<Rightarrow> built_program \<Rightarrow> bool" where
  "frames_within mx p \<longleftrightarrow> (\<forall>l\<in>nodes p. call_stack_depth l \<le> mx)"

lemma call_stack_depth_slashes:
  "call_stack_depth l = (if stack_frame_prefix l = [] then 1 else 2 + slashes (stack_frame_prefix l))"
  by (simp add: call_stack_depth_def slashes_def)

lemma frame_label_depth: "call_stack_depth (frame_label (label_string caller) m) = stack_frame_depth caller"
  by (simp add: call_stack_depth_slashes frame_label_def label_new_full_def stack_frame_depth_def)

lemma set_call_prefix_ok: "prog_ok p \<Longrightarrow> set_call_prefix caller pfx p = Some q \<Longrightarrow> prog_ok q \<and> nodes q = nodes p"
proof -
  assume ok: "prog_ok p" and r: "set_call_prefix caller pfx p = Some q"
  obtain ins where i: "ins_at p caller = Some ins" using r by (auto simp: set_call_prefix_def panic_simps)
  have "caller \<in> nodes p" using ok i by (simp add: prog_ok_nodes)
  then have d: "dom ((ins_at p)(caller \<mapsto> k)) = nodes p" for k using ok by (simp add: prog_ok_def insert_absorb)
  have q: "q = p \<or> (\<exists>k. q = p\<lparr>pr_instructions := bt_insert caller k (pr_instructions p)\<rparr>)"
    using r i by (cases ins) (auto simp: set_call_prefix_def)
  have "nodes q = nodes p" using q by (auto simp: nodes_def)
  moreover have "ins_at q = ins_at p \<or> (\<exists>k. ins_at q = (ins_at p)(caller \<mapsto> k))"
    using q ok by (auto simp: prog_ok_def)
  then have "dom (ins_at q) = nodes p" using d ok unfolding prog_ok_def by metis
  ultimately show "prog_ok q \<and> nodes q = nodes p" using q ok by (auto simp: prog_ok_def simp del: domIff)
qed

definition clones_within :: "string \<Rightarrow> built_program \<Rightarrow> built_program \<Rightarrow> bool" where
  "clones_within pfx p q \<longleftrightarrow> prog_ok q \<and> nodes p \<subseteq> nodes q \<and> nodes q \<subseteq> nodes p \<union> range (frame_label pfx)"

lemma clones_refl: "prog_ok p \<Longrightarrow> clones_within pfx p p"
  by (simp add: clones_within_def)

lemma clones_trans: "clones_within pfx p q \<Longrightarrow> clones_within pfx q r \<Longrightarrow> clones_within pfx p r"
  unfolding clones_within_def by blast

lemma clones_same: "prog_ok q \<Longrightarrow> nodes q = nodes p \<Longrightarrow> clones_within pfx p q"
  by (simp add: clones_within_def)

lemma clone_node_spec:
  assumes "prog_ok p" "clone_node pfx caller first m p = Some q"
  shows "clones_within pfx p q"
proof -
  obtain ins p1 where p1: "builder_insert (frame_label pfx m) ins p = Some p1"
    and q: "(if first then builder_add_child caller (frame_label pfx m) p1 else Some p1) = Some q"
    using assms(2) by (auto simp: clone_node_def panic_simps)
  note s = builder_insert_spec [OF assms(1) p1]
  have "clones_within pfx p p1" using s(2,3) by (auto simp: clones_within_def)
  moreover have "clones_within pfx p1 q"
    using q builder_add_child_spec [OF s(2)] s(2) by (cases first) (auto intro: clones_same clones_refl)
  ultimately show ?thesis by (rule clones_trans)
qed

lemma walk_macro_spec:
  assumes "walk_macro pfx caller ms seen first p = Some r"
  shows "prog_ok p \<longrightarrow> (case r of Inl _ \<Rightarrow> True | Inr (q, _) \<Rightarrow> clones_within pfx p q)"
  using assms
proof (induction rule: walk_macro.raw_induct [rotated, consumes 1])
  case (1 walk pfx caller ms seen first p r)
  note IH = 1(1) and r = 1(2)
  show ?case
  proof (cases ms)
    case Nil
    then show ?thesis using r by (auto simp: clones_refl)
  next
    case (Cons m ms')
    show ?thesis
    proof (cases "pfx = stack_frame_prefix m")
      case True
      then show ?thesis using r Cons by auto
    next
      case False
      then obtain p1 cs where p1: "clone_node pfx caller first m p = Some p1"
        and w: "walk pfx caller (fst (enqueue_macro cs ms' seen)) (snd (enqueue_macro cs ms' seen)) False p1 = Some r"
        using r Cons by (auto simp: panic_simps Let_def)
      have "prog_ok p \<Longrightarrow> clones_within pfx p p1" using clone_node_spec p1 by blast
      then show ?thesis using IH [OF w] by (auto simp: clones_within_def split: sum.splits)
    qed
  qed
qed

lemma clone_edges_ok: "clone_edges pfx exit_to l cs p = Some q \<Longrightarrow> prog_ok p \<Longrightarrow> prog_ok q \<and> nodes q = nodes p"
proof (induction cs arbitrary: p)
  case (Cons c cs)
  then show ?case using builder_add_child_spec(1,2) by (auto simp: panic_simps)
qed simp

lemma clone_all_edges_ok: "clone_all_edges pfx exit_to ms p = Some q \<Longrightarrow> prog_ok p \<Longrightarrow> prog_ok q \<and> nodes q = nodes p"
proof (induction ms arbitrary: p)
  case (Cons m ms)
  then show ?case using clone_edges_ok by (auto simp: panic_simps)
qed simp

lemma inline_one_spec:
  assumes ok: "prog_ok p" and r: "inline_one caller entry p = Some (Inr (q, seen))"
  shows "clones_within (label_string caller) p q"
proof -
  let ?s = "label_string caller"
  obtain exit_to p1 p2 p3 where p1: "set_call_prefix caller ?s p = Some p1"
    and p2: "walk_macro ?s caller [entry] [entry] True p1 = Some (Inr (p2, seen))"
    and p3: "clone_all_edges ?s exit_to seen p2 = Some p3" and q: "builder_remove_child caller exit_to p3 = Some q"
    using r by (auto simp: inline_one_def Let_def build_simps split: if_splits)
  have 1: "prog_ok p1" "nodes p1 = nodes p" using set_call_prefix_ok [OF ok p1] by simp_all
  have 2: "clones_within ?s p1 p2" using walk_macro_spec [OF p2] 1 by simp
  have 3: "prog_ok p3" "nodes p3 = nodes p2"
    using clone_all_edges_ok [OF p3] 2 by (simp_all add: clones_within_def)
  show ?thesis using builder_remove_child_spec [OF 3(1) q] 1 2 3 by (simp add: clones_within_def)
qed

lemma clones_frames:
  assumes "clones_within (label_string caller) p q" "frames_within mx p" "stack_frame_depth caller \<le> mx"
  shows "prog_ok q" "frames_within mx q" "nodes p \<subseteq> nodes q"
proof -
  have "call_stack_depth l \<le> mx" if "l \<in> nodes q" for l
  proof (cases "l \<in> nodes p")
    case True
    then show ?thesis using assms(2) by (simp add: frames_within_def)
  next
    case False
    then obtain m where "l = frame_label (label_string caller) m" using assms(1) \<open>l \<in> nodes q\<close>
      unfolding clones_within_def by blast
    then show ?thesis using assms(3) by (simp add: frame_label_depth)
  qed
  then show "prog_ok q" "frames_within mx q" "nodes p \<subseteq> nodes q"
    using assms(1) by (simp_all add: frames_within_def clones_within_def)
qed

lemma add_cfg_nodes_spec:
  "add_cfg_nodes p caller entry mx = Some (Inr q) \<Longrightarrow> prog_ok p \<Longrightarrow> frames_within mx p \<Longrightarrow>
    prog_ok q \<and> frames_within mx q \<and> nodes p \<subseteq> nodes q"
  "add_nested p pfx ms mx = Some (Inr q) \<Longrightarrow> prog_ok p \<Longrightarrow> frames_within mx p \<Longrightarrow>
    prog_ok q \<and> frames_within mx q \<and> nodes p \<subseteq> nodes q"
proof (induction p caller entry mx and p pfx ms mx arbitrary: q and q rule: add_cfg_nodes_add_nested.induct)
  case (1 p caller entry mx)
  have d: "\<not> stack_frame_depth caller > mx" using 1(2) by (auto simp: add_cfg_nodes.simps build_simps)
  obtain p1 seen where p1: "inline_one caller entry p = Some (Inr (p1, seen))"
    and q: "add_nested p1 (label_string caller) seen mx = Some (Inr q)"
    using 1(2) d by (auto simp: add_cfg_nodes.simps build_simps)
  note c = clones_frames [OF inline_one_spec [OF 1(3) p1] 1(4)]
  show ?case using 1(1) [OF d, of "(p1, seen)"] c q d by auto
next
  case (2 p pfx mx)
  then show ?case by (simp add: add_cfg_nodes.simps build_simps)
next
  case (3 p pfx m ms mx)
  obtain t where t: "call_target_at p (frame_label pfx m) = Some t"
    and q: "(case t of None \<Rightarrow> add_nested p pfx ms mx
        | Some target \<Rightarrow> try_then (add_cfg_nodes p (frame_label pfx m) target mx) (\<lambda>p1. add_nested p1 pfx ms mx)) = Some (Inr q)"
    using 3(4) by (auto simp: add_nested.simps(2) build_simps simp del: call_target_at.simps)
  show ?case
  proof (cases t)
    case None
    then show ?thesis using 3(1) [of q] q 3(5,6) by simp
  next
    case (Some target)
    obtain p1 where p1: "add_cfg_nodes p (frame_label pfx m) target mx = Some (Inr p1)"
      and q1: "add_nested p1 pfx ms mx = Some (Inr q)" using q Some by (auto simp: build_simps)
    show ?thesis using 3(2) [OF p1 3(5,6)] 3(3) [OF q1] by blast
  qed
qed

lemma inline_loop_spec:
  "inline_loop insts mx p = Some (Inr q) \<Longrightarrow> prog_ok p \<Longrightarrow> frames_within mx p \<Longrightarrow>
    prog_ok q \<and> frames_within mx q \<and> nodes p \<subseteq> nodes q"
proof (induction insts arbitrary: p)
  case (Cons a insts)
  obtain l ins li where a: "a = (l, ins, li)" by (metis prod_cases3)
  show ?case
  proof (cases "\<exists>t s. ins = CallLocal t s")
    case True
    then obtain t s where i: "ins = CallLocal t s" by blast
    obtain p1 where p1: "add_cfg_nodes p l t mx = Some (Inr p1)" and q: "inline_loop insts mx p1 = Some (Inr q)"
      using Cons(2) a i by (auto simp: build_simps)
    show ?thesis using add_cfg_nodes_spec(1) [OF p1 Cons(3,4)] Cons(1) [OF q] by blast
  next
    case False
    then have "inline_loop insts mx p = Some (Inr q)" using Cons(2) a by (cases ins) auto
    then show ?thesis using Cons by blast
  qed
qed (simp add: build_simps)

lemma inline_loop_no_calls:
  assumes "\<forall>(l, ins, li)\<in>set insts. \<forall>t s. ins \<noteq> CallLocal t s" "inline_loop insts mx p = Some (Inr q)"
  shows "q = p"
  using assms
proof (induction insts)
  case (Cons a insts)
  then show ?case by (cases a, cases "fst (snd a)") (auto simp: build_simps)
qed (simp add: build_simps)

lemma frames_same_prefix: "stack_frame_prefix a = stack_frame_prefix b \<Longrightarrow> call_stack_depth a = call_stack_depth b"
  by (simp add: call_stack_depth_def)

lemma insert_jump_frames:
  assumes "prog_ok p" "insert_jump a t ins p = Some q" "frames_within mx p" "call_stack_depth t \<le> mx"
  shows "frames_within mx q"
proof -
  have p: "stack_frame_prefix (label_make_jump a t) = stack_frame_prefix t" by (simp add: label_make_jump_def)
  show ?thesis
    using assms(3,4) insert_jump_spec(3) [OF assms(1,2)] frames_same_prefix [OF p] by (simp add: frames_within_def)
qed

lemma frames_nodes: "frames_within mx p \<Longrightarrow> nodes q = nodes p \<Longrightarrow> frames_within mx q"
  by (simp add: frames_within_def)

lemma connect_conditional_frames:
  assumes "prog_ok p" "connect_conditional l c t fall p = Some (Inr q)" "frames_within mx p" "call_stack_depth fall \<le> mx"
  shows "frames_within mx q"
proof (cases "t = fall")
  case True
  then have "builder_add_child l fall p = Some q"
    using assms(2) by (auto simp: connect_conditional_def build_simps)
  then show ?thesis using builder_add_child_spec(2) [OF assms(1)] frames_nodes assms(3) by blast
next
  case False
  obtain p1 where t: "t \<in> nodes p" and p1: "insert_jump l t (Assume c True) p = Some p1"
    and q: "insert_jump l fall (Assume (reverse_condition c) True) p1 = Some q"
    using assms(2) False by (auto simp: connect_conditional_def build_simps cfg_contains_nodes split: if_splits)
  have ok: "prog_ok p1" using insert_jump_spec(1) [OF assms(1) p1] by (rule growsD)
  have "frames_within mx p1" using insert_jump_frames [OF assms(1) p1 assms(3)] t assms(3) by (simp add: frames_within_def)
  then show ?thesis using insert_jump_frames [OF ok q] assms(4) by blast
qed

lemma connect_instruction_frames:
  assumes "prog_ok p" "connect_instruction l ins fall p = Some (Inr q)" "frames_within mx p" "call_stack_depth fall \<le> mx"
  shows "frames_within mx q"
proof (cases "\<exists>c t. ins = Jmp (Some c) t")
  case True
  then obtain c t where i: "ins = Jmp (Some c) t" by blast
  then have "connect_conditional l c t fall p = Some (Inr q)"
    using assms(2) by (auto simp: connect_instruction_def build_simps)
  then show ?thesis using connect_conditional_frames [OF assms(1) _ assms(3,4)] by blast
next
  case False
  then have "\<exists>b. builder_add_child l b p = Some q"
    using assms(2) by (cases ins) (auto simp: connect_instruction_def build_simps split: option.splits)
  then show ?thesis using builder_add_child_spec(2) [OF assms(1)] frames_nodes assms(3) by blast
qed

definition plain_labels :: "instruction_seq \<Rightarrow> bool" where
  "plain_labels insts \<longleftrightarrow> (\<forall>(l, _)\<in>set insts. stack_frame_prefix l = [])"

lemma connect_loop_frames:
  assumes "prog_ok p" "connect_loop insts must_exit p = Some (Inr q)" "frames_within mx p" "plain_labels insts" "1 \<le> mx"
  shows "frames_within mx q"
  using assms
proof (induction insts arbitrary: p)
  case Nil
  then show ?case by (simp add: build_simps)
next
  case (Cons a rest)
  obtain l ins li where a: "a = (l, ins, li)" by (metis prod_cases3)
  have pl: "plain_labels rest" using Cons(5) by (simp add: plain_labels_def)
  show ?case
  proof (cases "is_undefined ins")
    case True
    then show ?thesis using Cons pl a by auto
  next
    case False
    obtain fall p1 where f: "fallthrough rest ins must_exit = Some (Inr fall)"
      and p1: "connect_instruction l ins fall p = Some (Inr p1)"
      and q: "connect_loop rest must_exit p1 = Some (Inr q)"
      using Cons(3) False a by (auto simp: build_simps)
    have "stack_frame_prefix fall = []"
      using f pl by (auto simp: fallthrough_def plain_labels_def label_exit_def build_simps split: list.splits if_splits)
    then have fall: "call_stack_depth fall \<le> mx" using Cons(6) by (simp add: call_stack_depth_def)
    have ok: "prog_ok p1" using connect_instruction_spec [OF Cons(2) p1] growsD(1) by blast
    show ?thesis using Cons(1) [OF ok q connect_instruction_frames [OF Cons(2) p1 Cons(4) fall] pl Cons(6)] .
  qed
qed

lemma build_cfg_frames:
  assumes r: "build_cfg insts info pf opts = Some (Inr p)" and l: "plain_labels insts"
    and mx: "1 \<le> max_call_stack_frames (runtime opts)"
  shows "prog_ok p \<and> frames_within (max_call_stack_frames (runtime opts)) p"
proof -
  let ?mx = "max_call_stack_frames (runtime opts)"
  obtain resolved lowered p1 p2 where p1: "pass_populate_nodes insts resolved lowered builder_new = Some p1"
    and p2: "pass_connect_edges insts (must_have_exit opts) p1 = Some (Inr p2)"
    and p: "inline_loop insts ?mx p2 = Some (Inr p)"
    using r by (auto simp: build_cfg_def pass_inline_local_calls_def build_simps)
  note s1 = populate_spec [OF p1 builder_new_ok(1)]
  have ok1: "prog_ok p1" using s1 growsD(1) by blast
  have "call_stack_depth n \<le> ?mx" if "n \<in> nodes p1" for n
  proof -
    have "nodes p1 = {label_entry, label_exit} \<union> {l. \<exists>ins li. (l, ins, li) \<in> set insts \<and> \<not> is_undefined ins}"
      using conjunct1 [OF conjunct2 [OF conjunct2 [OF s1]]] unfolding builder_new_ok(2) .
    with that have "n \<in> {label_entry, label_exit} \<union> {l. \<exists>ins li. (l, ins, li) \<in> set insts \<and> \<not> is_undefined ins}"
      by (simp only:)
    then have "stack_frame_prefix n = []"
    proof (elim UnE insertE CollectE exE conjE emptyE)
      fix ins li assume "(n, ins, li) \<in> set insts"
      then show ?thesis using l unfolding plain_labels_def by fastforce
    qed (simp_all add: label_entry_def label_exit_def)
    then show ?thesis using mx by (simp add: call_stack_depth_def)
  qed
  then have f1: "frames_within ?mx p1" by (simp add: frames_within_def)
  have "insts \<noteq> []" using p2 by (auto simp: pass_connect_edges_def build_simps)
  then obtain first ins li rest where i: "insts = (first, ins, li) # rest" by (metis list.exhaust prod_cases3)
  have "lift_build (do { assert_that (is_undefined ins \<or> cfg_contains (pr_cfg p1) first);
      builder_add_child label_entry first p1 }) (connect_loop insts (must_have_exit opts)) = Some (Inr p2)"
    using p2 unfolding i pass_connect_edges_def by (simp only: list.case prod.case)
  then obtain p1' where p1': "builder_add_child label_entry first p1 = Some p1'"
    and c: "connect_loop insts (must_have_exit opts) p1' = Some (Inr p2)"
    unfolding build_Inr panic_simps by blast
  note s = builder_add_child_spec [OF ok1 p1']
  have "frames_within ?mx p2" by (rule connect_loop_frames [OF s(1) c frames_nodes [OF f1 s(2)] l mx])
  moreover have "prog_ok p2" using connect_loop_spec [OF s(1) c] growsD(1) by blast
  ultimately show ?thesis using inline_loop_spec [OF p] by blast
qed

subsection \<open>Loop counters\<close>

lemma insert_after_fresh:
  assumes "cfg_ok g" "insert_after prev new g = Some g'"
  shows "new \<notin> dom (map_of g)"
proof -
  obtain cs g1 g2 where g1: "update_node prev (adj_children_update (\<lambda>_. [])) g = Some g1"
    and g2: "unlink_parents prev cs g1 = Some g2" and g3: "cfg_insert new g2 \<noteq> None"
    using assms(2) by (auto simp: insert_after_def panic_simps)
  have "nodes_ok g" using assms(1) by (simp add: cfg_ok_def)
  note u = update_children_edges [OF this g1 bs_ok_updates(3)]
  have "dom (map_of g2) = dom (map_of g)" using unlink_parents_spec [OF u(1) g2] u(2) by simp
  then show ?thesis using g3 by (auto simp: cfg_insert_def cfg_contains_def panic_simps)
qed

lemma insert_counter_spec:
  assumes ok: "prog_ok p" and r: "builder_insert_after l (label_make_increment_counter l) ins p = Some q"
  shows "prog_ok q" "nodes q = insert (label_make_increment_counter l) (nodes p)"
    "label_make_increment_counter l \<notin> nodes p"
    "edges q = {(a, b) \<in> edges p. a \<noteq> l} \<union> {(l, label_make_increment_counter l) | c. (l, c) \<in> edges p} \<union>
      {(label_make_increment_counter l, c) | c. (l, c) \<in> edges p}"
    "ins_at q = (ins_at p)(label_make_increment_counter l \<mapsto> ins)"
    "frames_within mx p \<Longrightarrow> frames_within mx q"
proof -
  let ?n = "label_make_increment_counter l"
  obtain g where g: "insert_after l ?n (pr_cfg p) = Some g"
    and q: "q = p\<lparr>pr_instructions := bt_insert ?n ins (pr_instructions p), pr_cfg := g\<rparr>"
    using r by (auto simp: builder_insert_after_def panic_simps)
  have c: "cfg_ok (pr_cfg p)" using ok by (simp add: prog_ok_def)
  note s = insert_after_spec [OF c g]
  show n: "nodes q = insert ?n (nodes p)" using s(2) q by (simp add: nodes_def)
  show "edges q = {(a, b) \<in> edges p. a \<noteq> l} \<union> {(l, ?n) | c. (l, c) \<in> edges p} \<union> {(?n, c) | c. (l, c) \<in> edges p}"
    using s(3) q by (simp add: edges_def)
  show i: "ins_at q = (ins_at p)(?n \<mapsto> ins)" using ok q by (simp add: prog_ok_def)
  show "prog_ok q" using s(1) ok q n i by (simp add: prog_ok_def)
  show "?n \<notin> nodes p" using insert_after_fresh [OF c g] by (simp add: nodes_def)
  have l: "l \<in> nodes p" using g by (auto simp: insert_after_def children_of_def get_node_def nodes_def panic_simps)
  have p: "stack_frame_prefix ?n = stack_frame_prefix l" by (simp add: label_make_increment_counter_def)
  show "frames_within mx q" if "frames_within mx p"
    using that l n frames_same_prefix [OF p] by (simp add: frames_within_def)
qed

text \<open>A path through loop counters only.\<close>

inductive counter_path :: "built_program \<Rightarrow> label \<Rightarrow> label \<Rightarrow> bool" for p where
  direct: "(a, b) \<in> edges p \<Longrightarrow> counter_path p a b"
| through: "(a, n) \<in> edges p \<Longrightarrow> ins_at p n = Some (IncrementLoopCounter m) \<Longrightarrow> counter_path p n b \<Longrightarrow> counter_path p a b"

lemma counter_path_trans:
  "counter_path p a n \<Longrightarrow> ins_at p n = Some (IncrementLoopCounter m) \<Longrightarrow> counter_path p n b \<Longrightarrow> counter_path p a b"
  by (induction rule: counter_path.induct) (blast intro: counter_path.through)+

lemma insert_counter_path:
  assumes ok: "prog_ok p"
    and r: "builder_insert_after l (label_make_increment_counter l) (IncrementLoopCounter m) p = Some q"
  shows "counter_path p a b \<Longrightarrow> counter_path q a b"
proof (induction rule: counter_path.induct)
  let ?n = "label_make_increment_counter l"
  note s = insert_counter_spec [OF ok r]
  have e: "counter_path q a b" if "(a, b) \<in> edges p" for a b
  proof (cases "a = l")
    case True
    then have "(l, ?n) \<in> edges q" "(?n, b) \<in> edges q" "ins_at q ?n = Some (IncrementLoopCounter m)"
      using s(4,5) that by auto
    then show ?thesis using True counter_path.intros by metis
  next
    case False
    then show ?thesis using s(4) that by (intro counter_path.direct) simp
  qed
  case (direct a b)
  then show ?case by (rule e)
  case (through a n m b)
  have "n \<in> nodes p" using edges_nodes [OF ok] through(1) by blast
  then have "ins_at q n = Some (IncrementLoopCounter m)" using s(3,5) through(2) by auto
  then show ?case using counter_path_trans [OF e [OF through(1)]] through(4) by blast
qed

lemma insert_counters_spec:
  "insert_counters ls p = Some q \<Longrightarrow> prog_ok p \<Longrightarrow>
    prog_ok q \<and> nodes p \<subseteq> nodes q \<and> (\<forall>l\<in>nodes p. ins_at q l = ins_at p l) \<and>
    (\<forall>a b. counter_path p a b \<longrightarrow> counter_path q a b) \<and> (frames_within mx p \<longrightarrow> frames_within mx q)"
proof (induction ls arbitrary: p)
  case (Cons l ls)
  obtain p1 where p1: "builder_insert_after l (label_make_increment_counter l) (IncrementLoopCounter l) p = Some p1"
    and q: "insert_counters ls p1 = Some q" using Cons(2) by (auto simp: panic_simps)
  note s = insert_counter_spec [OF Cons(3) p1]
  have "\<forall>l\<in>nodes p. ins_at p1 l = ins_at p l" using s(3,5) by auto
  then show ?case using Cons(1) [OF q s(1)] s(2,6) insert_counter_path [OF Cons(3) p1] by auto
qed simp

subsection \<open>Assertions and the accepted program\<close>

lemma extract_loop_spec:
  assumes "extract_loop ls privileged rt p = Some q" "bt_ok (pr_assertions p)"
  shows "pr_cfg q = pr_cfg p \<and> pr_instructions q = pr_instructions p \<and> bt_ok (pr_assertions q) \<and>
    (\<forall>l. l \<notin> set ls \<longrightarrow> map_of (pr_assertions q) l = map_of (pr_assertions p) l) \<and>
    (\<forall>l\<in>set ls. \<exists>ins as. ins_at p l = Some ins \<and> get_assertions ins privileged rt (Some l) = Some as \<and>
      map_of (pr_assertions q) l = Some as)"
  using assms
proof (induction ls arbitrary: p)
  case (Cons l ls)
  obtain ins as p1 where i: "ins_at p l = Some ins" and as: "get_assertions ins privileged rt (Some l) = Some as"
    and p1: "p1 = p\<lparr>pr_assertions := bt_insert l as (pr_assertions p)\<rparr>"
    and q: "extract_loop ls privileged rt p1 = Some q"
    using Cons(2) by (auto simp: set_assertions_def panic_simps)
  have ok: "bt_ok (pr_assertions p1)" using Cons(3) p1 by simp
  note h = Cons(1) [OF q ok]
  have l: "\<exists>ins as. ins_at p l = Some ins \<and> get_assertions ins privileged rt (Some l) = Some as \<and>
      map_of (pr_assertions q) l = Some as"
  proof (cases "l \<in> set ls")
    case True
    then show ?thesis using h p1 by auto
  next
    case False
    then have "map_of (pr_assertions q) l = Some as" using h p1 Cons(3) by simp
    then show ?thesis using i as by blast
  qed
  show ?case using h l p1 Cons(3) by auto
qed simp

lemma extract_spec:
  assumes "pass_extract_assertions info rt p = Some q" "prog_ok p"
  shows "prog_ok q" "nodes q = nodes p" "edges q = edges p" "ins_at q = ins_at p"
    "\<forall>l\<in>nodes q. \<exists>ins as. ins_at q l = Some ins \<and> get_assertions ins (is_privileged info) rt (Some l) = Some as \<and>
      map_of (pr_assertions q) l = Some as"
proof -
  have n: "set (cfg_labels (pr_cfg p)) = nodes p" by (simp add: cfg_labels_def nodes_def dom_map_of_conv_image_fst)
  have "bt_ok (pr_assertions p)" using assms(2) by (simp add: prog_ok_def)
  note h = extract_loop_spec [OF assms(1) [unfolded pass_extract_assertions_def] this]
  show q: "nodes q = nodes p" "edges q = edges p" "ins_at q = ins_at p" using h by (simp_all add: nodes_def edges_def)
  show "prog_ok q" using h q assms(2) by (simp add: prog_ok_def)
  show "\<forall>l\<in>nodes q. \<exists>ins as. ins_at q l = Some ins \<and> get_assertions ins (is_privileged info) rt (Some l) = Some as \<and>
      map_of (pr_assertions q) l = Some as" using h n q by simp
qed

lemma callback_pass_same:
  assumes "pass_compute_callback_metadata p = Some q"
  shows "pr_cfg q = pr_cfg p" "pr_instructions q = pr_instructions p" "pr_assertions q = pr_assertions p"
  using assms by (auto simp: pass_compute_callback_metadata_def panic_simps)

lemma finish_spec:
  assumes r: "finish_program info pf opts p = Some (Inr q)" and ok: "prog_ok p"
  shows "prog_ok q" "nodes p \<subseteq> nodes q" "\<forall>l\<in>nodes p. ins_at q l = ins_at p l"
    "counter_path p a b \<Longrightarrow> counter_path q a b" "frames_within mx p \<Longrightarrow> frames_within mx q"
    "\<forall>l\<in>nodes q. \<exists>ins as. ins_at q l = Some ins \<and>
      get_assertions ins (is_privileged info) (runtime opts) (Some l) = Some as \<and> map_of (pr_assertions q) l = Some as"
proof -
  obtain w p1 p2 where p1: "pass_compute_callback_metadata p = Some p1"
    and p2: "(if check_for_termination (runtime opts) then pass_insert_termination_counters w p1 else Some p1) = Some p2"
    and q: "pass_extract_assertions info (runtime opts) p2 = Some q"
    using r by (auto simp: finish_program_def build_simps panic_simps)
  have ok1: "prog_ok p1" and n1: "nodes p1 = nodes p" and e1: "edges p1 = edges p" and i1: "ins_at p1 = ins_at p"
    using callback_pass_same [OF p1] ok by (simp_all add: prog_ok_def nodes_def edges_def)
  have c1: "counter_path p1 a b" if "counter_path p a b" for a b
    using that by induction (use e1 i1 in \<open>metis counter_path.intros\<close>)+
  have s: "prog_ok p2 \<and> nodes p1 \<subseteq> nodes p2 \<and> (\<forall>l\<in>nodes p1. ins_at p2 l = ins_at p1 l) \<and>
    (\<forall>a b. counter_path p1 a b \<longrightarrow> counter_path p2 a b) \<and> (frames_within mx p1 \<longrightarrow> frames_within mx p2)" for mx
  proof (cases "check_for_termination (runtime opts)")
    case True
    then obtain heads where "insert_counters heads p1 = Some p2"
      using p2 by (auto simp: pass_insert_termination_counters_def panic_simps)
    then show ?thesis using insert_counters_spec ok1 by blast
  next
    case False
    then show ?thesis using p2 ok1 by simp
  qed
  have ok2: "prog_ok p2" using s by blast
  note x = extract_spec [OF q ok2]
  show "prog_ok q" by (rule x(1))
  show "nodes p \<subseteq> nodes q" using s x(2) n1 by blast
  show "\<forall>l\<in>nodes p. ins_at q l = ins_at p l" using s x(4) n1 i1 by simp
  show "counter_path q a b" if "counter_path p a b"
  proof -
    have "counter_path p2 a b" using s c1 [OF that] by blast
    then show ?thesis by induction (use x(3,4) in \<open>metis counter_path.intros\<close>)+
  qed
  show "frames_within mx q" if "frames_within mx p"
    using s frames_nodes [OF that n1] frames_nodes [of mx p2 q] x(2) by blast
  show "\<forall>l\<in>nodes q. \<exists>ins as. ins_at q l = Some ins \<and>
      get_assertions ins (is_privileged info) (runtime opts) (Some l) = Some as \<and> map_of (pr_assertions q) l = Some as"
    by (rule x(5))
qed

lemma from_sequenceE:
  assumes "from_sequence insts info pf opts = Some (Inr q)"
  obtains p where "build_cfg insts info pf opts = Some (Inr p)" "finish_program info pf opts p = Some (Inr q)"
    "1 \<le> max_call_stack_frames (runtime opts)"
proof -
  have v: "options_validate opts = Inr ()" "try_then (build_cfg insts info pf opts) (finish_program info pf opts) = Some (Inr q)"
    using assms by (auto simp: from_sequence_def build_simps split: sum.splits)
  then have "1 \<le> max_call_stack_frames (runtime opts)"
    by (auto simp: options_validate_def runtime_validate_def split: if_splits)
  then show thesis using v(2) that by (auto simp: build_simps)
qed

text \<open>C12: An accepted program is consistent: its graph keeps the graph invariant, every label of the
  graph has an instruction and exactly the assertions of that instruction at that label, so no lookup
  of the analysis panics, and no label is nested deeper than the configured number of call frames.\<close>

theorem accepted_program_consistent:
  assumes "from_sequence insts info pf opts = Some (Inr p)" and "plain_labels insts"
  shows "cfg_ok (pr_cfg p) \<and>
    (\<forall>l\<in>set (cfg_labels (pr_cfg p)). call_stack_depth l \<le> max_call_stack_frames (runtime opts) \<and>
      (\<exists>ins as. instruction_at (as_program p) l = Some ins \<and> assertions_at (as_program p) l = Some as \<and>
        get_assertions ins (is_privileged info) (runtime opts) (Some l) = Some as))"
proof -
  obtain q where q: "build_cfg insts info pf opts = Some (Inr q)" and f: "finish_program info pf opts q = Some (Inr p)"
    and mx: "1 \<le> max_call_stack_frames (runtime opts)" using from_sequenceE [OF assms(1)] by blast
  have ok: "prog_ok q" "frames_within (max_call_stack_frames (runtime opts)) q"
    using build_cfg_frames [OF q assms(2) mx] by simp_all
  note s = finish_spec(1) [OF f ok(1)] finish_spec(5) [OF f ok] finish_spec(6) [OF f ok(1)]
  have "set (cfg_labels (pr_cfg p)) = nodes p" by (simp add: cfg_labels_def nodes_def dom_map_of_conv_image_fst)
  then show ?thesis using s by (force simp: prog_ok_def frames_within_def as_program_def)
qed

subsection \<open>Callback metadata\<close>

definition top_level_exit :: "built_program \<Rightarrow> label \<Rightarrow> bool" where
  "top_level_exit p l \<longleftrightarrow> l = label_exit \<or>
     l \<noteq> label_entry \<and> stack_frame_prefix l = [] \<and> (\<exists>s. ins_at p l = Some (Exit s))"

lemma is_exit_ins_iff: "is_exit_ins ins \<longleftrightarrow> (\<exists>s. ins = Exit s)"
  by (cases ins) auto

lemma leave_closed:
  assumes "(x, y) \<in> E\<^sup>*" "x \<in> S" "y \<notin> S" "\<forall>a\<in>S. \<forall>b. (a, b) \<in> E \<longrightarrow> b \<in> S \<union> W"
  shows "\<exists>z\<in>W - S. (z, y) \<in> E\<^sup>*"
  using assms
proof (induction rule: converse_rtrancl_induct)
  case (step a b)
  then show ?case by (cases "b \<in> S") blast+
qed simp

lemma exit_reach_spec:
  assumes ok: "prog_ok p"
  shows "set seen \<subseteq> nodes p \<Longrightarrow> set wl \<subseteq> nodes p \<Longrightarrow> \<forall>x\<in>set seen. \<not> top_level_exit p x \<Longrightarrow>
    \<forall>a\<in>set seen. \<forall>b. (a, b) \<in> edges p \<longrightarrow> b \<in> set seen \<union> set wl \<Longrightarrow>
    \<exists>b. exit_reach_loop p seen wl = Some b \<and> (b \<longleftrightarrow> (\<exists>x\<in>set wl. \<exists>y. (x, y) \<in> (edges p)\<^sup>* \<and> top_level_exit p y))"
proof (induction "(card (nodes p - set seen), length wl)" arbitrary: seen wl
    rule: wf_induct_rule [OF wf_lex_prod [OF wf_less wf_less]])
  case (1 seen wl)
  note IH = 1(1) and seen = 1(2) and wl = 1(3) and ne = 1(4) and cl = 1(5)
  have fin: "finite (nodes p)" by (simp add: nodes_def finite_dom_map_of)
  show ?case
  proof (cases wl)
    case Nil
    then have "exit_reach_loop p seen wl = Some False" by (simp add: exit_reach_loop.simps)
    then show ?thesis using Nil by (intro exI [of _ False]) simp
  next
    case (Cons l rest)
    have l: "l \<in> nodes p" using wl Cons by simp
    consider (met) "l \<in> set seen" | (exit) "l \<notin> set seen" "top_level_exit p l" | (new) "l \<notin> set seen" "\<not> top_level_exit p l"
      by blast
    then show ?thesis
    proof cases
      case met
      have e: "exit_reach_loop p seen wl = exit_reach_loop p seen rest"
        unfolding Cons by (subst exit_reach_loop.simps) (simp add: met)
      have "\<exists>b. exit_reach_loop p seen rest = Some b \<and>
          (b \<longleftrightarrow> (\<exists>x\<in>set rest. \<exists>y. (x, y) \<in> (edges p)\<^sup>* \<and> top_level_exit p y))"
        by (rule IH) (use seen wl ne cl Cons met in auto)
      moreover have "\<exists>x\<in>set rest. (x, y) \<in> (edges p)\<^sup>*" if y: "(l, y) \<in> (edges p)\<^sup>*" "top_level_exit p y" for y
      proof -
        have "y \<notin> set seen" using ne y(2) by blast
        from leave_closed [OF y(1) met this cl] show ?thesis using Cons met by auto
      qed
      ultimately show ?thesis unfolding e by (auto simp: Cons)
    next
      case exit
      have "exit_reach_loop p seen wl = Some True"
      proof (cases "l = label_exit")
        case True
        then show ?thesis unfolding Cons using exit(1) by (subst exit_reach_loop.simps) simp
      next
        case False
        then obtain s where "l \<noteq> label_entry" "ins_at p l = Some (Exit s)" "stack_frame_prefix l = []"
          using exit(2) by (auto simp: top_level_exit_def)
        then show ?thesis unfolding Cons using exit(1) False l
          by (subst exit_reach_loop.simps) (simp add: cfg_contains_nodes)
      qed
      then show ?thesis using exit(2) Cons by auto
    next
      case new
      obtain n where n: "map_of (pr_cfg p) l = Some n" using l by (auto simp: nodes_def)
      let ?cs = "adj_children n"
      have cs: "b \<in> set ?cs \<longleftrightarrow> (l, b) \<in> edges p" for b using n by (auto simp: edges_def cfg_edges_def)
      obtain ins where ins: "ins_at p l = Some ins" using l prog_ok_nodes [OF ok] by blast
      have ln: "l \<noteq> label_exit" "l = label_entry \<or> \<not> (is_exit_ins ins \<and> stack_frame_prefix l = [])"
        using new(2) ins by (auto simp: top_level_exit_def is_exit_ins_iff)
      have e: "exit_reach_loop p seen wl = exit_reach_loop p (bs_insert l seen) (rev ?cs @ rest)"
        unfolding Cons using new(1) ln n ins l
        by (subst exit_reach_loop.simps) (auto simp: children_of_def get_node_def cfg_contains_nodes)
      have "card (nodes p - set (bs_insert l seen)) < card (nodes p - set seen)"
        using l new(1) fin by (intro psubset_card_mono) auto
      moreover have "set ?cs \<subseteq> nodes p" using cs edges_nodes [OF ok] by blast
      ultimately have "\<exists>b. exit_reach_loop p (bs_insert l seen) (rev ?cs @ rest) = Some b \<and>
          (b \<longleftrightarrow> (\<exists>x\<in>set (rev ?cs @ rest). \<exists>y. (x, y) \<in> (edges p)\<^sup>* \<and> top_level_exit p y))"
        by (intro IH) (use seen wl ne cl Cons new cs l in auto)
      moreover have "(\<exists>y. (l, y) \<in> (edges p)\<^sup>* \<and> top_level_exit p y) \<longleftrightarrow>
          (\<exists>x\<in>set ?cs. \<exists>y. (x, y) \<in> (edges p)\<^sup>* \<and> top_level_exit p y)"
        using new(2) cs by (metis converse_rtranclE converse_rtrancl_into_rtrancl)
      ultimately show ?thesis unfolding e by (auto simp: Cons)
    qed
  qed
qed

lemma has_exit_spec:
  assumes "prog_ok p" "l \<in> nodes p"
  shows "has_reachable_top_level_exit l p = Some (\<exists>y. (l, y) \<in> (edges p)\<^sup>* \<and> top_level_exit p y)"
  using exit_reach_spec [OF assms(1), of "[]" "[l]"] assms(2) by (auto simp: has_reachable_top_level_exit_def)

definition callback_target :: "built_program \<Rightarrow> label \<Rightarrow> bool" where
  "callback_target p l \<longleftrightarrow> l \<noteq> label_entry \<and> l \<noteq> label_exit \<and> \<not> label_isjump l \<and> stack_frame_prefix l = [] \<and>
     \<not> (\<exists>s. ins_at p l = Some (Exit s))"

lemma collect_targets_spec:
  assumes "prog_ok p"
  shows "set ls \<subseteq> nodes p \<Longrightarrow> \<exists>ts. collect_callback_targets p ls acc = Some ts \<and>
    set ts = set acc \<union> {label_from l | l. l \<in> set ls \<and> callback_target p l}"
proof (induction ls arbitrary: acc)
  case (Cons l ls)
  obtain ins where ins: "ins_at p l = Some ins" using Cons(2) prog_ok_nodes [OF assms] by auto
  have sub: "set ls \<subseteq> nodes p" using Cons(2) by simp
  show ?case
  proof (cases "l = label_entry \<or> l = label_exit \<or> label_isjump l \<or> stack_frame_prefix l \<noteq> []")
    case True
    then show ?thesis using Cons(1) [OF sub, of acc] by (auto simp: callback_target_def)
  next
    case False
    then have t: "callback_target p l \<longleftrightarrow> \<not> is_exit_ins ins" using ins by (auto simp: callback_target_def is_exit_ins_iff)
    have e: "collect_callback_targets p (l # ls) acc =
        collect_callback_targets p ls (if is_exit_ins ins then acc else bs_insert (label_from l) acc)"
      using False ins by simp
    obtain ts where "collect_callback_targets p ls (if is_exit_ins ins then acc else bs_insert (label_from l) acc) = Some ts"
      "set ts = set (if is_exit_ins ins then acc else bs_insert (label_from l) acc) \<union>
        {label_from l | l. l \<in> set ls \<and> callback_target p l}" using Cons(1) [OF sub] by blast
    then show ?thesis using e t by (intro exI [of _ ts]) (auto split: if_splits)
  qed
qed simp

lemma targets_with_exit_spec:
  assumes "prog_ok p"
  shows "\<forall>n\<in>set ns. label_new n \<in> nodes p \<Longrightarrow> \<exists>es. targets_with_exit p ns acc = Some es \<and>
    set es = set acc \<union> {n \<in> set ns. \<exists>y. (label_new n, y) \<in> (edges p)\<^sup>* \<and> top_level_exit p y}"
proof (induction ns arbitrary: acc)
  case (Cons n ns)
  let ?b = "\<exists>y. (label_new n, y) \<in> (edges p)\<^sup>* \<and> top_level_exit p y"
  have "targets_with_exit p (n # ns) acc = targets_with_exit p ns (if ?b then bs_insert n acc else acc)"
    using has_exit_spec [OF assms, of "label_new n"] Cons(2) by simp
  moreover obtain es where "targets_with_exit p ns (if ?b then bs_insert n acc else acc) = Some es"
    "set es = set (if ?b then bs_insert n acc else acc) \<union>
      {n \<in> set ns. \<exists>y. (label_new n, y) \<in> (edges p)\<^sup>* \<and> top_level_exit p y}" using Cons by (meson list.set_intros(2))
  ultimately show ?case by (intro exI [of _ es]) (auto split: if_splits)
qed simp

text \<open>C29: The callback metadata is computed for every well-formed program and is exact: the targets are
  the positions of the top-level instructions that are neither an exit nor a jump label, and a target is
  recorded as having an exit precisely when some path of the graph leads from it to a top-level exit.\<close>

theorem callback_metadata_exact:
  assumes "prog_ok p" and "\<forall>l\<in>nodes p. special_label l = []"
  shows "\<exists>q. pass_compute_callback_metadata p = Some q \<and>
    set (callback_target_labels q) = {label_from l | l. l \<in> nodes p \<and> callback_target p l} \<and>
    set (callback_targets_with_exit q) = {n \<in> set (callback_target_labels q).
      \<exists>y. (label_new n, y) \<in> (edges p)\<^sup>* \<and> top_level_exit p y}"
proof -
  have n: "set (cfg_labels (pr_cfg p)) = nodes p" by (simp add: cfg_labels_def nodes_def dom_map_of_conv_image_fst)
  obtain ts where ts: "collect_callback_targets p (cfg_labels (pr_cfg p)) [] = Some ts"
    "set ts = {label_from l | l. l \<in> nodes p \<and> callback_target p l}"
    using collect_targets_spec [OF assms(1), of "cfg_labels (pr_cfg p)" "[]"] n by auto
  have "label_new k \<in> nodes p" if "k \<in> set ts" for k
  proof -
    obtain l where l: "k = label_from l" "l \<in> nodes p" "callback_target p l" using ts(2) \<open>k \<in> set ts\<close> by blast
    then have "l = label_new k"
      using assms(2) by (cases l) (auto simp: callback_target_def label_isjump_def label_new_def)
    then show ?thesis using l(2) by simp
  qed
  then obtain es where "targets_with_exit p ts [] = Some es"
    "set es = {n \<in> set ts. \<exists>y. (label_new n, y) \<in> (edges p)\<^sup>* \<and> top_level_exit p y}"
    using targets_with_exit_spec [OF assms(1), of ts "[]"] by auto
  then show ?thesis using ts by (simp add: pass_compute_callback_metadata_def)
qed

end
