(* ===== verification/Condition_Semantics.thy ===== *)
theory Condition_Semantics
  imports Syntax
begin

text \<open>
  The meaning of the comparison operators of \<open>src/ir/syntax.rs\<close> on machine words, as the instruction
  set defines them: what executions and the constraints of the finite domain are compared with.
\<close>

unbundle bit_operations_syntax

fun compare_op :: "condition_op \<Rightarrow> 'a::len word \<Rightarrow> 'a word \<Rightarrow> bool" where
  "compare_op EQ_c a b \<longleftrightarrow> a = b"
| "compare_op NE_c a b \<longleftrightarrow> a \<noteq> b"
| "compare_op SET_c a b \<longleftrightarrow> a AND b \<noteq> 0"
| "compare_op NSET_c a b \<longleftrightarrow> a AND b = 0"
| "compare_op LT_c a b \<longleftrightarrow> a < b"
| "compare_op LE_c a b \<longleftrightarrow> a \<le> b"
| "compare_op GT_c a b \<longleftrightarrow> b < a"
| "compare_op GE_c a b \<longleftrightarrow> b \<le> a"
| "compare_op SLT_c a b \<longleftrightarrow> sint a < sint b"
| "compare_op SLE_c a b \<longleftrightarrow> sint a \<le> sint b"
| "compare_op SGT_c a b \<longleftrightarrow> sint b < sint a"
| "compare_op SGE_c a b \<longleftrightarrow> sint b \<le> sint a"

end
