(* ===== verification/Program_Execution.thy ===== *)
theory Program_Execution
  imports Program_Facts Condition_Semantics
begin

text \<open>
  Executions of the instruction sequence and of the program \<open>src/ir/program.rs\<close> builds from it:
  every state the sequence can reach is reached at the same label of the graph, so what the forward
  analysis of an accepted program proves holds of the sequence.
\<close>

subsection \<open>The meaning of conditions\<close>

definition cond_holds :: "condition \<Rightarrow> (reg \<Rightarrow> 64 word) \<Rightarrow> bool" where
  "cond_holds c regs \<longleftrightarrow>
     (let a = regs (cond_left c); b = (case cond_right c of Imm k \<Rightarrow> k | Reg r \<Rightarrow> regs r)
      in if cond_is64 c then compare_op (cond_op c) a b
         else compare_op (cond_op c) (ucast a :: 32 word) (ucast b))"

lemma compare_reverse: "compare_op (reverse_op x) a b \<longleftrightarrow> \<not> compare_op x a b"
  by (cases x) auto

lemma reverse_condition_negates: "cond_holds (reverse_condition c) regs \<longleftrightarrow> \<not> cond_holds c regs"
  by (simp add: cond_holds_def reverse_condition_def compare_reverse Let_def)

subsection \<open>Executions of the sequence\<close>

definition next_label :: "instruction_seq \<Rightarrow> nat \<Rightarrow> (reg \<Rightarrow> 64 word) \<Rightarrow> label" where
  "next_label insts i regs =
     (let fall = fall_label (drop (Suc i) insts)
      in case fst (snd (insts ! i)) of
          Jmp None t \<Rightarrow> t
        | Jmp (Some c) t \<Rightarrow> if cond_holds c regs then t else fall
        | Exit _ \<Rightarrow> label_exit
        | _ \<Rightarrow> fall)"

text \<open>An undefined instruction is stuck, and so is one that stands for nothing.\<close>

inductive seq_reach ::
  "instruction_seq \<Rightarrow> (instruction \<Rightarrow> instruction option) \<Rightarrow> (instruction \<Rightarrow> 'c \<Rightarrow> 'c set) \<Rightarrow> ('c \<Rightarrow> reg \<Rightarrow> 64 word) \<Rightarrow>
   'c set \<Rightarrow> label \<Rightarrow> 'c \<Rightarrow> bool"
  for insts exec step regs Init where
  start: "insts \<noteq> [] \<Longrightarrow> c \<in> Init \<Longrightarrow> seq_reach insts exec step regs Init (fst (hd insts)) c"
| step: "seq_reach insts exec step regs Init l c \<Longrightarrow> i < length insts \<Longrightarrow> insts ! i = (l, ins, li) \<Longrightarrow>
    \<not> is_undefined ins \<Longrightarrow> exec ins = Some e \<Longrightarrow> c' \<in> step e c \<Longrightarrow>
    seq_reach insts exec step regs Init (next_label insts i (regs c')) c'"

lemma all_linked_nth:
  "all_linked q insts \<Longrightarrow> i < length insts \<Longrightarrow> insts ! i = (l, ins, li) \<Longrightarrow> \<not> is_undefined ins \<Longrightarrow>
    linked q l ins (fall_label (drop (Suc i) insts))"
proof (induction q insts arbitrary: i rule: all_linked.induct)
  case (2 q k x y rest)
  then show ?case by (cases i) auto
qed simp

lemma build_cfg_no_calls:
  assumes r: "build_cfg insts info pf opts = Some (Inr p)"
    and nc: "\<forall>(l, ins, li)\<in>set insts. \<forall>t s. ins \<noteq> CallLocal t s" and d: "distinct (map fst insts)"
  shows "prog_ok p \<and> all_linked p insts \<and> insts \<noteq> [] \<and> (label_entry, fst (hd insts)) \<in> edges p \<and>
    ins_at p label_entry = Some (Undefined 0) \<and>
    (\<forall>(l, ins, li)\<in>set insts. \<not> is_undefined ins \<longrightarrow> ins_at p l = executed info pf ins \<and> l \<in> nodes p)"
proof -
  obtain resolved lowered p1 p2 where m: "pass_resolve_kfunc_calls insts pf [] = Some (Inr resolved)"
      "pass_lower_pseudo_loads insts info [] = Some (Inr lowered)"
    and p1: "pass_populate_nodes insts resolved lowered builder_new = Some p1"
    and p2: "pass_connect_edges insts (must_have_exit opts) p1 = Some (Inr p2)"
    and p: "inline_loop insts (max_call_stack_frames (runtime opts)) p2 = Some (Inr p)"
    using r by (auto simp: build_cfg_def pass_inline_local_calls_def build_simps)
  have eq: "p = p2" by (rule inline_loop_no_calls [OF nc p])
  note s1 = populate_spec [OF p1 builder_new_ok(1)]
  have ok1: "prog_ok p1" using s1 growsD(1) by blast
  note s2 = pass_connect_spec [OF ok1 p2]
  have g: "grows p1 p2" "grows builder_new p1" using s1 s2 by blast+
  have e: "ins_at p2 label_entry = Some (Undefined 0)"
    by (intro growsD(4) [OF g(1) ok1] growsD(4) [OF g(2) builder_new_ok(1)] builder_new_ok(4))
  have "ins_at p2 l = executed info pf ins \<and> l \<in> nodes p2"
    if i: "(l, ins, li) \<in> set insts" "\<not> is_undefined ins" for l ins li
  proof -
    have "ins_at p1 l = populated l ins resolved lowered" "ins_at p1 l \<noteq> None" using s1 i by fastforce+
    then obtain k where k: "ins_at p1 l = Some k" "executed info pf ins = Some k"
      using populated_executed [OF m d i(1)] by auto
    have "ins_at p2 l = Some k" by (rule growsD(4) [OF g(1) ok1 k(1)])
    then show ?thesis using k(2) prog_ok_nodes [OF growsD(1) [OF g(1)]] by simp
  qed
  then show ?thesis using s2 growsD(1) [OF g(1)] e unfolding eq by blast
qed

subsection \<open>Simulation\<close>

text \<open>What relates the states of the analysis to those of the sequence: every step is matched, and the
  instructions the construction adds do not change what they stand for.\<close>

locale step_simulation =
  fixes step :: "instruction \<Rightarrow> 's \<Rightarrow> 's set"
    and cstep :: "instruction \<Rightarrow> 'c \<Rightarrow> 'c set"
    and R :: "'s \<Rightarrow> 'c \<Rightarrow> bool"
    and regs :: "'c \<Rightarrow> reg \<Rightarrow> 64 word"
  assumes sim: "R s c \<Longrightarrow> c' \<in> cstep ins c \<Longrightarrow> \<exists>s'\<in>step ins s. R s' c'"
    and assume_pass: "R s c \<Longrightarrow> cond_holds k (regs c) \<Longrightarrow> \<exists>s'\<in>step (Assume k True) s. R s' c"
    and counter: "R s c \<Longrightarrow> \<exists>s'\<in>step (IncrementLoopCounter l) s. R s' c"
    and entry: "R s c \<Longrightarrow> \<exists>s'\<in>step (Undefined 0) s. R s' c"

context step_simulation
begin

lemma follow_path:
  assumes "counter_path p a b" "program_reach step (as_program p) Init a s" "ins_at p a = Some ins"
    "t \<in> step ins s" "R t c"
  shows "\<exists>t'. program_reach step (as_program p) Init b t' \<and> R t' c"
  using assms
proof (induction arbitrary: ins s t rule: counter_path.induct)
  have next_node: "program_reach step (as_program p) Init b t"
    if "(a, b) \<in> edges p" "program_reach step (as_program p) Init a s" "ins_at p a = Some ins" "t \<in> step ins s"
    for a b s ins t
  proof -
    have "t \<in> post_states step (as_program p) a s" using that(3,4) by (simp add: post_states_def as_program_def)
    moreover have "(a, b) \<in> cfg_edges (prog_cfg (as_program p))" using that(1) by (simp add: as_program_def edges_def)
    ultimately show ?thesis
      using reach_in.step [OF that(2) [unfolded program_reach_def]] unfolding program_reach_def by blast
  qed
  case (direct a b)
  then show ?case using next_node by blast
  case (through a n m b)
  have "program_reach step (as_program p) Init n t" by (rule next_node [OF through(1,5,6,7)])
  moreover obtain t' where "t' \<in> step (IncrementLoopCounter m) t" "R t' c" using counter [OF through(8)] by blast
  ultimately show ?case using through(4) [OF _ through(2)] by blast
qed

lemma sequence_simulated:
  assumes r: "from_sequence insts info pf opts = Some (Inr p)"
    and nc: "\<forall>(l, ins, li)\<in>set insts. \<forall>t s. ins \<noteq> CallLocal t s" and d: "distinct (map fst insts)"
    and init: "\<forall>c\<in>CInit. \<exists>s\<in>Init. R s c"
  shows "seq_reach insts (executed info pf) cstep regs CInit l c \<Longrightarrow>
    \<exists>s. program_reach step (as_program p) Init l s \<and> R s c"
proof (induction rule: seq_reach.induct)
  obtain q where q: "build_cfg insts info pf opts = Some (Inr q)" and f: "finish_program info pf opts q = Some (Inr p)"
    using from_sequenceE [OF r] by blast
  note b = build_cfg_no_calls [OF q nc d]
  have ok: "prog_ok q" using b by blast
  note fs = finish_spec(2-4) [OF f ok]
  have path: "counter_path p a b" if "(a, b) \<in> edges q" for a b by (intro fs(3) counter_path.direct that)
  have ins: "ins_at p a = Some i" if "ins_at q a = Some i" for a i using fs(2) that prog_ok_nodes [OF ok] by simp
  note advance = follow_path [OF path _ ins]
  {
    case (start c)
    then obtain s where s: "s \<in> Init" "R s c" using init by blast
    have "program_reach step (as_program p) Init label_entry s"
      unfolding program_reach_def using s(1) by (intro reach_in.input) simp_all
    moreover obtain t where "t \<in> step (Undefined 0) s" "R t c" using entry [OF s(2)] by blast
    ultimately show ?case using advance b by blast
  next
    case (step l c i ins li e c')
    obtain s where s: "program_reach step (as_program p) Init l s" "R s c" using step(7) by blast
    obtain t where t: "t \<in> step e s" "R t c'" using sim [OF s(2) step(6)] by blast
    have m: "(l, ins, li) \<in> set insts" using step(2,3) nth_mem by force
    have il: "ins_at q l = Some e" using b m step(4,5) by fastforce
    let ?fall = "fall_label (drop (Suc i) insts)"
    have lk: "linked q l ins ?fall" using all_linked_nth [OF _ step(2-4)] b by blast
    have fin: "\<exists>s. program_reach step (as_program p) Init n s \<and> R s c'" if "(l, n) \<in> edges q" for n
      by (rule advance [OF that s(1) il t])
    have via: "\<exists>s. program_reach step (as_program p) Init n s \<and> R s c'"
      if "(l, j) \<in> edges q" "(j, n) \<in> edges q" "ins_at q j = Some (Assume k True)" "cond_holds k (regs c')" for j n k
    proof -
      have "\<exists>u. program_reach step (as_program p) Init j u \<and> R u c'" by (rule fin) (rule that(1))
      then obtain u where u: "program_reach step (as_program p) Init j u" "R u c'" by blast
      have "\<exists>v\<in>step (Assume k True) u. R v c'" by (rule assume_pass) (rule u(2), rule that(4))
      then obtain v where "v \<in> step (Assume k True) u" "R v c'" by blast
      then show ?thesis by (rule advance [OF that(2) u(1) that(3)])
    qed
    have nl: "next_label insts i (regs c') = (case ins of Jmp None t \<Rightarrow> t
        | Jmp (Some c) t \<Rightarrow> if cond_holds c (regs c') then t else ?fall | Exit _ \<Rightarrow> label_exit | _ \<Rightarrow> ?fall)"
      using step(3) by (simp add: next_label_def Let_def)
    show ?case
    proof (cases "\<exists>k t. ins = Jmp (Some k) t")
      case True
      then obtain k n where i: "ins = Jmp (Some k) n" by blast
      show ?thesis
        using lk fin via reverse_condition_negates [of k "regs c'"] unfolding nl i linked_def
        by (auto split: if_splits)
    next
      case False
      then have "(l, next_label insts i (regs c')) \<in> edges q"
        using lk unfolding nl linked_def by (cases ins) (auto split: option.splits)
      then show ?thesis by (rule fin)
    qed
  }
qed

end

subsection \<open>The executions of the sequence in the graph\<close>

lemma step_simulation_self:
  assumes "\<forall>k c. cond_holds k (regs c) \<longrightarrow> c \<in> step (Assume k True) c"
    and "\<forall>l c. c \<in> step (IncrementLoopCounter l) c" and "\<forall>c. c \<in> step (Undefined 0) c"
  shows "step_simulation step step (=) regs"
  by unfold_locales (use assms in auto)

lemma sequence_assertions:
  assumes r: "from_sequence insts info pf opts = Some (Inr p)"
    and nc: "\<forall>(l, ins, li)\<in>set insts. \<forall>t s. ins \<noteq> CallLocal t s" and d: "distinct (map fst insts)"
    and m: "(l, ins, li) \<in> set insts" "\<not> is_undefined ins"
  shows "\<exists>e as. executed info pf ins = Some e \<and> instruction_at (as_program p) l = Some e \<and>
    get_assertions e (is_privileged info) (runtime opts) (Some l) = Some as \<and>
    assertions_at (as_program p) l = Some as"
proof -
  obtain q where q: "build_cfg insts info pf opts = Some (Inr q)" and f: "finish_program info pf opts q = Some (Inr p)"
    using from_sequenceE [OF r] by blast
  note b = build_cfg_no_calls [OF q nc d]
  have ok: "prog_ok q" using b by blast
  note fs = finish_spec(2,3) [OF f ok] finish_spec(6) [OF f ok]
  have l: "ins_at q l = executed info pf ins" "l \<in> nodes q" using b m by fastforce+
  have il: "ins_at p l = executed info pf ins" using l fs(2) by simp
  show ?thesis using fs(1,3) l(2) il by (force simp: as_program_def)
qed

text \<open>C1: The graph of an accepted program has every execution of its instruction sequence.  Take any
  meaning of the instructions for which the three instructions the construction adds let the state
  through: the entry, a loop counter, and an implicit assumption where its condition holds on the
  registers.  For a sequence with distinct labels and without local calls, every state the sequence
  can be in at a label is reached by a path of the graph at the same label; and the graph holds at
  the label of each defined instruction the instruction it stands for (a kernel function or a pseudo
  load is resolved), with exactly the assertions extracted from that instruction.\<close>

theorem sequence_runs_in_graph:
  assumes "from_sequence insts info pf opts = Some (Inr p)"
    and "\<forall>(l, ins, li)\<in>set insts. \<forall>t s. ins \<noteq> CallLocal t s" and "distinct (map fst insts)"
    and "\<forall>k c. cond_holds k (regs c) \<longrightarrow> c \<in> step (Assume k True) c"
    and "\<forall>l c. c \<in> step (IncrementLoopCounter l) c" and "\<forall>c. c \<in> step (Undefined 0) c"
  shows "(\<forall>l c. seq_reach insts (executed info pf) step regs Init l c \<longrightarrow> program_reach step (as_program p) Init l c) \<and>
    (\<forall>l ins li. (l, ins, li) \<in> set insts \<and> \<not> is_undefined ins \<longrightarrow>
      (\<exists>e as. executed info pf ins = Some e \<and> instruction_at (as_program p) l = Some e \<and>
        get_assertions e (is_privileged info) (runtime opts) (Some l) = Some as \<and>
        assertions_at (as_program p) l = Some as))"
  using step_simulation.sequence_simulated [OF step_simulation_self [OF assms(4-6)] assms(1-3), of Init Init]
    sequence_assertions [OF assms(1-3)] by auto

end
