(* ===== verification/Program_Safety.thy ===== *)
theory Program_Safety
  imports Program_Execution Register_Analysis
begin

text \<open>
  The composition of the decoder's output, \<open>src/ir/program.rs\<close>, \<open>src/ir/assertions.rs\<close> and
  \<open>src/fwd_analyzer.rs\<close>: when the analysis of the program built from an instruction sequence does not
  fail, every assertion of every instruction holds in every execution of the sequence.  A loop is
  analysed with the interval domain; two sequences show that inlining depends on the order of calls.
\<close>

text \<open>A verified program is safe.  If a sequence without local calls is accepted and the forward
  analysis of its program with a sound domain does not fail, then in every execution of the sequence,
  whenever an instruction is reached, all the assertions extracted for it hold in a state of the
  analysis that stands for the execution's state.\<close>

theorem verified_program_safe:
  assumes "sound_domain D gamma step holds" and "step_simulation step cstep R regs"
    and "from_sequence insts info pf opts = Some (Inr p)"
    and "\<forall>(l, ins, li)\<in>set insts. \<forall>t s. ins \<noteq> CallLocal t s" and "distinct (map fst insts)"
    and "length (cfg_labels (pr_cfg p)) \<le> 65535" and "wto_new (pr_cfg p) = Some w"
    and "entry_state \<lparr>dom_ops = D, env_prog = as_program p, env_wto = w, collect_deps = deps\<rparr> ct entry r = Some (entry', r1)"
    and "run_program D (as_program p) deps ct entry r = Some (res, r')" and "\<not> result_failed res"
    and "\<forall>c\<in>CInit. \<exists>s\<in>gamma entry'. R s c" and "seq_reach insts (executed info pf) cstep regs CInit l c"
    and "(l, ins, li) \<in> set insts" and "\<not> is_undefined ins" and "\<not> is_loop_counter ins"
  shows "\<exists>e as s. executed info pf ins = Some e \<and> get_assertions e (is_privileged info) (runtime opts) (Some l) = Some as \<and>
    R s c \<and> (\<forall>a\<in>set as. holds a s)"
proof -
  obtain q where q: "build_cfg insts info pf opts = Some (Inr q)" and f: "finish_program info pf opts q = Some (Inr p)"
    using from_sequenceE [OF assms(3)] by blast
  note b = build_cfg_no_calls [OF q assms(4,5)]
  have ok: "prog_ok q" using b by blast
  note fs = finish_spec(1-3) [OF f ok] finish_spec(6) [OF f ok]
  have l: "ins_at q l = executed info pf ins" "l \<in> nodes q" using b assms(13,14) by fastforce+
  have il: "ins_at p l = executed info pf ins" using l fs(3) by simp
  obtain e as where e: "executed info pf ins = Some e" and as: "map_of (pr_assertions p) l = Some as"
    and ga: "get_assertions e (is_privileged info) (runtime opts) (Some l) = Some as"
    using fs(2,4) l(2) il by force
  have nc: "\<not> is_loop_counter e"
    using e assms(15) by (auto simp: executed_def resolve_pseudo_load_def accept_def reject_def Let_def
        split: instruction.splits sum.splits if_splits pseudo_address_kind.splits)
  obtain s where s: "program_reach step (as_program p) (gamma entry') l s" "R s c"
    using step_simulation.sequence_simulated [OF assms(2-5,11,12)] by blast
  let ?E = "\<lparr>dom_ops = D, env_prog = as_program p, env_wto = w, collect_deps = deps\<rparr>"
  have g: "cfg_ok (env_cfg ?E)" using fs(1) by (simp add: prog_ok_def as_program_def)
  have wo: "wto_ok (env_cfg ?E) (env_wto ?E)" using wto_new_ok [of "pr_cfg p"] g assms(6,7) by (simp add: as_program_def)
  have r: "run_analysis ?E ct entry r = Some (res, r')"
    using assms(7,9) by (simp add: run_program_def as_program_def)
  have s': "program_reach step (env_prog ?E) (gamma entry') l s" using s(1) by simp
  have "\<exists>pr. map_of (result_invariants res) l = Some pr \<and> pair_sound gamma step holds (env_prog ?E) ct l pr s"
    by (rule sound_domain.run_sound [OF assms(1) g _ wo assms(8) r assms(10) s']) simp
  then obtain pr where "map_of (result_invariants res) l = Some pr" "pair_sound gamma step holds (as_program p) ct l pr s"
    by auto
  then have "\<forall>a\<in>set as. holds a s"
    using il e as nc by (auto simp: pair_sound_def as_program_def)
  then show ?thesis using e ga s(2) by blast
qed

subsection \<open>A loop that is analysed\<close>

text \<open>The return register counts to ten, then divides another register.\<close>

abbreviation plain_bin :: "bin_op \<Rightarrow> reg \<Rightarrow> operand \<Rightarrow> instruction" where
  "plain_bin x dst v \<equiv> Bin \<lparr>bin_op = x, bin_dst = dst, bin_v = v, bin_is64 = True, bin_lddw = False\<rparr>"

definition count_sequence :: instruction_seq where
  "count_sequence =
     [(label_new 0, plain_bin MOV R0_RETURN_VALUE (Imm 0), None),
      (label_new 1, Jmp (Some \<lparr>cond_op = SGE_c, cond_left = R0_RETURN_VALUE, cond_right = Imm 10, cond_is64 = True\<rparr>)
         (label_new 4), None),
      (label_new 2, plain_bin ADD R0_RETURN_VALUE (Imm 1), None),
      (label_new 3, Jmp None (label_new 1), None),
      (label_new 4, plain_bin UDIV R6 (Reg R0_RETURN_VALUE), None),
      (label_new 5, Exit [], None)]"

definition sample_platform :: program_platform where
  "sample_platform = \<lparr>get_builtin_call = (\<lambda>_. None), try_get_helper_prototype = (\<lambda>_. None),
     is_helper_usable = (\<lambda>_. False), get_helper_prototype = (\<lambda>_. None),
     resolve_kfunc_call = (\<lambda>_ _. Inl ''unavailable'')\<rparr>"

definition sample_info :: build_info where
  "sample_info = \<lparr>supported_conformance_groups = 0x3F, is_privileged = False, map_fds = []\<rparr>"

definition built :: "built_program build \<Rightarrow> built_program" where
  "built r = (case r of Some (Inr p) \<Rightarrow> p | _ \<Rightarrow> builder_new)"

definition is_accepted :: "'a build \<Rightarrow> bool" where
  "is_accepted r = (case r of Some (Inr _) \<Rightarrow> True | _ \<Rightarrow> False)"

lemma accepted_built: "is_accepted r \<Longrightarrow> r = Some (Inr (built r))"
  by (auto simp: is_accepted_def built_def split: option.splits sum.splits)

definition counted :: built_program where
  "counted = built (from_sequence count_sequence sample_info sample_platform options_default)"

lemma counted_built: "from_sequence count_sequence sample_info sample_platform options_default = Some (Inr counted)"
  unfolding counted_def by (rule accepted_built) code_simp

definition counted_wto :: wto where
  "counted_wto = (case wto_new (pr_cfg counted) of Some w \<Rightarrow> w | None \<Rightarrow> \<lparr>wto_components = [], wto_cycles = [],
     containing_cycle = [], wto_nesting = []\<rparr>)"

lemma counted_wto_ok: "length (cfg_labels (pr_cfg counted)) \<le> 65535" "wto_new (pr_cfg counted) = Some counted_wto"
proof -
  have "length (cfg_labels (pr_cfg counted)) < 20" by code_simp
  then show "length (cfg_labels (pr_cfg counted)) \<le> 65535" by simp
  have "wto_new (pr_cfg counted) \<noteq> None" by code_simp
  then show "wto_new (pr_cfg counted) = Some counted_wto" by (auto simp: counted_wto_def)
qed

lemma counted_run:
  "\<exists>res. run_program register_ops (as_program counted) False True itv_top () = Some (res, ()) \<and> \<not> result_failed res"
proof -
  have "map_option (\<lambda>(res, _). result_failed res)
      (run_program register_ops (as_program counted) False True itv_top ()) = Some False"
    by code_simp
  then show ?thesis by (auto simp: map_option_eq_Some)
qed

lemma counted_entry:
  "entry_state \<lparr>dom_ops = register_ops, env_prog = as_program counted, env_wto = counted_wto, collect_deps = False\<rparr>
    True itv_top () = Some (itv_top, ())"
  by code_simp

subsection \<open>The executions of the loop\<close>

text \<open>The register file; a register that is written by another instruction takes any value.\<close>

fun file_step :: "instruction \<Rightarrow> (reg \<Rightarrow> 64 word) \<Rightarrow> (reg \<Rightarrow> 64 word) set" where
  "file_step (Bin b) f =
     {f(bin_dst b := v) | v.
       bin_is64 b \<and> bin_op b = MOV \<longrightarrow> (\<forall>k. bin_v b = Imm k \<longrightarrow> v = k)} \<inter>
     {f(bin_dst b := v) | v.
       bin_is64 b \<and> bin_op b = ADD \<longrightarrow> (\<forall>k. bin_v b = Imm k \<longrightarrow> v = f (bin_dst b) + k)}"
| "file_step (Jmp c l) f = {f}"
| "file_step (Exit p) f = {f}"
| "file_step (Assume c imp) f = (if cond_holds c f then {f} else {})"
| "file_step (IncrementLoopCounter l) f = {f}"
| "file_step (Undefined k) f = {f}"
| "file_step _ f = UNIV"

definition file_relation :: "int \<Rightarrow> (reg \<Rightarrow> 64 word) \<Rightarrow> bool" where
  "file_relation s f \<longleftrightarrow> s = sint (f R0_RETURN_VALUE)"

lemma assume_range_sound: "cond_holds k f \<Longrightarrow> sint (f R0_RETURN_VALUE) \<in> itv_gamma (assume_range k)"
  by (auto simp: assume_range_def cond_holds_def gamma_new split: condition_op.splits operand.splits)

interpretation register_file: step_simulation register_step file_step file_relation "\<lambda>f. f"
proof
  fix s and f f' :: "reg \<Rightarrow> 64 word" and ins
  assume r: "file_relation s f" and f': "f' \<in> file_step ins f"
  have "sint (f' R0_RETURN_VALUE) \<in> register_step ins s"
  proof (cases ins)
    case (Bin b)
    obtain v where v: "f' = f(bin_dst b := v)" using f' Bin by auto
    have eq: "f(bin_dst b := v) = f(bin_dst b := u) \<longleftrightarrow> v = u" for u by (metis fun_upd_same)
    show ?thesis
      using f' r unfolding Bin v
      by (auto simp: eq bin_step_def file_relation_def sint_word_ariths(1)
          split: bool.splits bin_op.splits operand.splits)
  next
    case (Assume c imp)
    then show ?thesis using f' r assume_range_sound by (auto simp: file_relation_def split: if_splits)
  qed (use f' r in \<open>auto simp: file_relation_def\<close>)
  then show "\<exists>s'\<in>register_step ins s. file_relation s' f'" by (simp add: file_relation_def)
next
  fix s and f :: "reg \<Rightarrow> 64 word" and k
  assume "file_relation s f" "cond_holds k f"
  then show "\<exists>s'\<in>register_step (Assume k True) s. file_relation s' f"
    using assume_range_sound by (auto simp: file_relation_def)
qed (auto simp: file_relation_def)

abbreviation count_reach :: "label \<Rightarrow> (reg \<Rightarrow> 64 word) \<Rightarrow> bool" where
  "count_reach \<equiv> seq_reach count_sequence (executed sample_info sample_platform) file_step (\<lambda>f. f) UNIV"

lemma count_go:
  assumes "count_reach l f" "i < 6" "count_sequence ! i = (l, ins, None)" "\<not> is_undefined ins"
    "executed sample_info sample_platform ins = Some ins" "g \<in> file_step ins f" "next_label count_sequence i g = l'"
  shows "count_reach l' g"
proof -
  have "i < length count_sequence" using assms(2) by (simp add: count_sequence_def)
  from seq_reach.step [OF assms(1) this assms(3-6)] show ?thesis using assms(7) by simp
qed

lemmas count_simps = count_sequence_def next_label_def fall_label_def executed_def cond_holds_def

lemma count_reach_loop: "n \<le> 10 \<Longrightarrow> \<exists>f. count_reach (label_new 1) f \<and> f R0_RETURN_VALUE = of_nat n"
proof (induction n)
  case 0
  have "count_reach (label_new 0) (\<lambda>_. 0)"
    using seq_reach.start [of count_sequence "\<lambda>_. 0" UNIV "executed sample_info sample_platform" file_step "\<lambda>f. f"]
    by (simp add: count_sequence_def)
  then have "count_reach (label_new 1) (\<lambda>_. 0)"
    by (rule count_go [where i = 0]) (auto simp: count_simps fun_eq_iff)
  then show ?case by force
next
  case (Suc n)
  then obtain f where f: "count_reach (label_new 1) f" "f R0_RETURN_VALUE = of_nat n" by auto
  have "sint (of_nat n :: 64 word) = int n" using Suc(2) by (simp add: signed_of_nat signed_take_bit_int_eq_self)
  then have "count_reach (label_new 2) f"
    using Suc(2) f(2) by (intro count_go [OF f(1), where i = 1]) (auto simp: count_simps)
  then have "count_reach (label_new 3) (f(R0_RETURN_VALUE := of_nat n + 1))"
    by (rule count_go [where i = 2]) (use f(2) in \<open>auto simp: count_simps\<close>)
  then have g: "count_reach (label_new 1) (f(R0_RETURN_VALUE := of_nat n + 1))"
    by (rule count_go [where i = 3]) (auto simp: count_simps)
  show ?case by (rule exI [of _ "f(R0_RETURN_VALUE := of_nat n + 1)"], rule conjI [OF g], simp)
qed

lemma count_reach_division: "\<exists>f. count_reach (label_new 4) f \<and> f R0_RETURN_VALUE = 10"
proof -
  obtain f where f: "count_reach (label_new 1) f" "f R0_RETURN_VALUE = 10" using count_reach_loop [of 10] by auto
  have "count_reach (label_new 4) f" using f(2) by (intro count_go [OF f(1), where i = 1]) (auto simp: count_simps)
  then show ?thesis using f(2) by blast
qed

theorem verified_program_safe_witness:
  "\<exists>f :: reg \<Rightarrow> 64 word. f R0_RETURN_VALUE = 10 \<and> register_holds (ValidDivisor R0_RETURN_VALUE False True) (sint (f R0_RETURN_VALUE))"
proof -
  obtain f where f: "count_reach (label_new 4) f" "f R0_RETURN_VALUE = 10" using count_reach_division by blast
  obtain res where r: "run_program register_ops (as_program counted) False True itv_top () = Some (res, ())"
    "\<not> result_failed res" using counted_run by blast
  have nc: "\<forall>(l, ins, li)\<in>set count_sequence. \<forall>t s. ins \<noteq> CallLocal t s" by (simp add: count_sequence_def)
  have d: "distinct (map fst count_sequence)" by (simp add: count_sequence_def label_new_def)
  have init: "\<forall>c\<in>UNIV. \<exists>s\<in>itv_gamma itv_top. file_relation s c" by (simp add: file_relation_def)
  have m: "(label_new 4, plain_bin UDIV R6 (Reg R0_RETURN_VALUE), None) \<in> set count_sequence"
    by (simp add: count_sequence_def)
  have u: "\<not> is_undefined (plain_bin UDIV R6 (Reg R0_RETURN_VALUE))"
    "\<not> is_loop_counter (plain_bin UDIV R6 (Reg R0_RETURN_VALUE))" by simp_all
  from verified_program_safe [OF register.sound_domain_axioms register_file.step_simulation_axioms counted_built nc d
      counted_wto_ok counted_entry r init f(1) m u]
  obtain e as s where e: "executed sample_info sample_platform (plain_bin UDIV R6 (Reg R0_RETURN_VALUE)) = Some e"
    and as: "get_assertions e (is_privileged sample_info) (runtime options_default) (Some (label_new 4)) = Some as"
    and s: "file_relation s f" "\<forall>a\<in>set as. register_holds a s" by blast
  have "e = plain_bin UDIV R6 (Reg R0_RETURN_VALUE)" using e by (simp add: executed_def)
  then have "ValidDivisor R0_RETURN_VALUE False True \<in> set as" using as by (auto simp: assertions_bin_def)
  then have "register_holds (ValidDivisor R0_RETURN_VALUE False True) s" using s(2) by blast
  then have h: "register_holds (ValidDivisor R0_RETURN_VALUE False True) (sint (f R0_RETURN_VALUE))"
    using s(1) by (simp only: file_relation_def)
  show ?thesis by (intro exI [of _ f] conjI f(2) h)
qed

theorem sequence_runs_in_graph_witness:
  "\<exists>f :: reg \<Rightarrow> 64 word. f R0_RETURN_VALUE = 10 \<and> program_reach file_step (as_program counted) UNIV (label_new 4) f \<and>
    (\<exists>as. assertions_at (as_program counted) (label_new 4) = Some as \<and> ValidDivisor R0_RETURN_VALUE False True \<in> set as)"
proof -
  obtain f where f: "count_reach (label_new 4) f" "f R0_RETURN_VALUE = 10" using count_reach_division by blast
  have nc: "\<forall>(l, ins, li)\<in>set count_sequence. \<forall>t s. ins \<noteq> CallLocal t s" by (simp add: count_sequence_def)
  have d: "distinct (map fst count_sequence)" by (simp add: count_sequence_def label_new_def)
  have step: "\<forall>k c. cond_holds k c \<longrightarrow> c \<in> file_step (Assume k True) c"
    "\<forall>l c. c \<in> file_step (IncrementLoopCounter l) c" "\<forall>c. c \<in> file_step (Undefined 0) c" by simp_all
  note s = sequence_runs_in_graph [OF counted_built nc d step, where Init = UNIV]
  have p: "program_reach file_step (as_program counted) UNIV (label_new 4) f"
    by (rule mp [OF spec [OF spec [OF conjunct1 [OF s]]] f(1)])
  have m: "(label_new 4, plain_bin UDIV R6 (Reg R0_RETURN_VALUE), None) \<in> set count_sequence \<and>
      \<not> is_undefined (plain_bin UDIV R6 (Reg R0_RETURN_VALUE))" by (simp add: count_sequence_def)
  obtain e as where e: "executed sample_info sample_platform (plain_bin UDIV R6 (Reg R0_RETURN_VALUE)) = Some e"
    "get_assertions e (is_privileged sample_info) (runtime options_default) (Some (label_new 4)) = Some as"
    "assertions_at (as_program counted) (label_new 4) = Some as"
    using mp [OF spec [OF spec [OF spec [OF conjunct2 [OF s]]]] m] by (elim exE conjE)
  then have "ValidDivisor R0_RETURN_VALUE False True \<in> set as" by (auto simp: executed_def assertions_bin_def)
  then show ?thesis using f(2) p e(3) by blast
qed

theorem accepted_program_consistent_witness:
  "\<exists>ins as. instruction_at (as_program counted) (label_new_with_to 1 4) = Some ins \<and>
    assertions_at (as_program counted) (label_new_with_to 1 4) = Some as"
proof -
  have l: "label_new_with_to 1 4 \<in> set (cfg_labels (pr_cfg counted))" by code_simp
  have "plain_labels count_sequence" by (simp add: plain_labels_def count_sequence_def label_new_def)
  from accepted_program_consistent [OF counted_built this] l show ?thesis by blast
qed

subsection \<open>Callback metadata of the loop\<close>

definition count_nodes :: built_program where
  "count_nodes = built (build_cfg count_sequence sample_info sample_platform options_default)"

theorem callback_metadata_exact_witness:
  "\<exists>q. pass_compute_callback_metadata count_nodes = Some q \<and>
    set (callback_targets_with_exit q) \<subseteq> set (callback_target_labels q)"
proof -
  have r: "build_cfg count_sequence sample_info sample_platform options_default = Some (Inr count_nodes)"
    unfolding count_nodes_def by (rule accepted_built) code_simp
  have p: "plain_labels count_sequence" by (simp add: plain_labels_def count_sequence_def label_new_def)
  have "1 \<le> max_call_stack_frames (runtime options_default)" by code_simp
  then have ok: "prog_ok count_nodes" using build_cfg_frames [OF r p] by blast
  have "list_all (\<lambda>l. special_label l = []) (cfg_labels (pr_cfg count_nodes))" by code_simp
  moreover have "nodes count_nodes = set (cfg_labels (pr_cfg count_nodes))"
    by (simp only: cfg_labels_def nodes_def dom_map_of_conv_image_fst set_map)
  ultimately have "\<forall>l\<in>nodes count_nodes. special_label l = []" by (simp only: list_all_iff)
  from callback_metadata_exact [OF ok this]
  obtain q where q: "pass_compute_callback_metadata count_nodes = Some q"
    "set (callback_targets_with_exit q) = {n \<in> set (callback_target_labels q).
      \<exists>y. (label_new n, y) \<in> (edges count_nodes)\<^sup>* \<and> top_level_exit count_nodes y}" by (elim exE conjE)
  have "set (callback_targets_with_exit q) \<subseteq> set (callback_target_labels q)"
    unfolding q(2) by (rule Collect_restrict)
  with q(1) show ?thesis by (intro exI conjI)
qed

subsection \<open>The order of calls\<close>

text \<open>The main body calls a function placed before it, which itself calls another function.  The inner call
  of the callee has been inlined before the outer call is met, so the walk over the callee clones the
  inlined body as well, and the inner function runs twice in the frame of the outer call: once under its
  own frame, whose exit continues in the second copy, and once under the frame of the caller.\<close>

definition backward_calls :: instruction_seq where
  "backward_calls = map (\<lambda>(i, ins). (label_new i, ins, None))
     [(0, Jmp None (label_new 7)),
      (1, plain_bin MOV R0_RETURN_VALUE (Imm 1)), (2, CallLocal (label_new 5) []),
      (3, plain_bin MOV R0_RETURN_VALUE (Imm 3)), (4, Exit []),
      (5, plain_bin MOV R0_RETURN_VALUE (Imm 5)), (6, Exit []),
      (7, CallLocal (label_new 1) []), (8, Exit [])]"

lemma backward_callee_runs_twice:
  "let p = built (build_cfg backward_calls sample_info sample_platform options_default); frame = label_new_full in
   map_option adj_children (map_of (pr_cfg p) (frame 2 (- 1) ''7'')) = Some [frame 5 (- 1) ''7/2''] \<and>
   map_option adj_children (map_of (pr_cfg p) (frame 5 (- 1) ''7/2'')) = Some [frame 6 (- 1) ''7/2''] \<and>
   map_option adj_children (map_of (pr_cfg p) (frame 6 (- 1) ''7/2'')) = Some [frame 5 (- 1) ''7''] \<and>
   map_option adj_children (map_of (pr_cfg p) (frame 5 (- 1) ''7'')) = Some [frame 6 (- 1) ''7''] \<and>
   map_option adj_children (map_of (pr_cfg p) (frame 6 (- 1) ''7'')) = Some [frame 3 (- 1) ''7''] \<and>
   map_of (pr_instructions p) (frame 6 (- 1) ''7'') = Some (Exit ''7'')"
  by code_simp

text \<open>When the inner function is part of the callee's own body, the copies collide and the construction
  panics instead of rejecting the sequence.\<close>

lemma overlapping_callee_panics:
  "build_cfg (map (\<lambda>(i, ins). (label_new i, ins, None))
     [(0, Jmp None (label_new 5)),
      (1, CallLocal (label_new 3) []), (2, plain_bin MOV R0_RETURN_VALUE (Imm 1)),
      (3, plain_bin MOV R0_RETURN_VALUE (Imm 3)), (4, Exit []),
      (5, CallLocal (label_new 1) []), (6, Exit [])]) sample_info sample_platform options_default = None"
  by code_simp

end
