(* ===== verification/Arrays.thy ===== *)
theory Arrays
  imports Prelude
begin

text \<open>
  Indexing of a Rust \<open>Vec\<close> in the panic monad: reading or writing out of range panics; and
  the two loops of the imperative code: \<open>for\<close> over a list and \<open>while\<close>, which returns \<open>None\<close>
  when a round panics or when it never ends.  The rules of the loops prove an invariant and
  that the loop returns.
\<close>

definition vec_get :: "'a list \<Rightarrow> nat \<Rightarrow> 'a option" where
  "vec_get xs i = (if i < length xs then Some (xs ! i) else None)"

definition vec_set :: "nat \<Rightarrow> 'a \<Rightarrow> 'a list \<Rightarrow> 'a list option" where
  "vec_set i v xs = (if i < length xs then Some (xs[i := v]) else None)"

text \<open>\<open>Vec::resize\<close> to a size that is not smaller.\<close>

definition vec_resize :: "nat \<Rightarrow> 'a \<Rightarrow> 'a list \<Rightarrow> 'a list" where
  "vec_resize n v xs = take n xs @ replicate (n - length xs) v"

lemma vec_get_Some [panic_simps]: "vec_get xs i = Some v \<longleftrightarrow> i < length xs \<and> v = xs ! i"
  by (auto simp: vec_get_def)

lemma vec_set_Some [panic_simps]: "vec_set i v xs = Some ys \<longleftrightarrow> i < length xs \<and> ys = xs[i := v]"
  by (auto simp: vec_set_def)

lemma vec_get_in [simp]: "i < length xs \<Longrightarrow> vec_get xs i = Some (xs ! i)"
  by (simp add: vec_get_def)

lemma vec_set_in [simp]: "i < length xs \<Longrightarrow> vec_set i v xs = Some (xs[i := v])"
  by (simp add: vec_set_def)

lemma vec_get_None [simp]: "\<not> i < length xs \<Longrightarrow> vec_get xs i = None"
  by (simp add: vec_get_def)

lemma vec_resize_length [simp]: "length (vec_resize n v xs) = n"
  by (simp add: vec_resize_def)

lemma vec_resize_nth:
  "i < n \<Longrightarrow> vec_resize n v xs ! i = (if i < length xs then xs ! i else v)"
  by (auto simp: vec_resize_def nth_append min_def)

subsection \<open>Loops\<close>

fun for_each :: "('a \<Rightarrow> 's \<Rightarrow> 's option) \<Rightarrow> 'a list \<Rightarrow> 's \<Rightarrow> 's option" where
  "for_each f [] s = Some s"
| "for_each f (x # xs) s = do { s1 \<leftarrow> f x s; for_each f xs s1 }"

partial_function (option) while_opt :: "('s \<Rightarrow> bool) \<Rightarrow> ('s \<Rightarrow> 's option) \<Rightarrow> 's \<Rightarrow> 's option" where
  "while_opt c b s = (if c s then do { s1 \<leftarrow> b s; while_opt c b s1 } else Some s)"

text \<open>The invariant of a \<open>for\<close> loop may name the elements that are finished.\<close>

lemma for_each_total:
  assumes "P [] s"
    "\<And>pre x rest s. xs = pre @ x # rest \<Longrightarrow> P pre s \<Longrightarrow> \<exists>t. f x s = Some t \<and> P (pre @ [x]) t"
  shows "\<exists>t. for_each f xs s = Some t \<and> P xs t"
proof -
  have "\<exists>t. for_each f rest s = Some t \<and> P (pre @ rest) t" if "xs = pre @ rest" "P pre s" for pre rest s
    using that
  proof (induction rest arbitrary: pre s)
    case (Cons x rest)
    from assms(2) [OF Cons.prems] obtain t where "f x s = Some t" "P (pre @ [x]) t" by blast
    then show ?case using Cons.IH [of "pre @ [x]" t] Cons.prems(1) by simp
  qed simp
  from this [of "[]" xs s] show ?thesis using assms(1) by simp
qed

lemma for_each_inv:
  assumes "P s" "\<And>x s. x \<in> set xs \<Longrightarrow> P s \<Longrightarrow> \<exists>t. f x s = Some t \<and> P t"
  shows "\<exists>t. for_each f xs s = Some t \<and> P t"
  by (rule for_each_total [of "\<lambda>_. P", simplified]) (use assms in auto)

text \<open>A loop whose rounds return, keep the invariant and lower a measure returns.\<close>

lemma while_opt_total:
  assumes "P s" "\<And>s. P s \<Longrightarrow> c s \<Longrightarrow> \<exists>t. b s = Some t \<and> P t \<and> m t < (m s :: nat)"
  shows "\<exists>t. while_opt c b s = Some t \<and> P t \<and> \<not> c t"
  using assms(1)
proof (induction "m s" arbitrary: s rule: less_induct)
  case less
  show ?case
  proof (cases "c s")
    case True
    then obtain t where t: "b s = Some t" "P t" "m t < m s" using assms(2) less.prems by blast
    then show ?thesis using less.hyps [OF t(3,2)] True by (subst while_opt.simps) simp
  qed (use less.prems in \<open>simp add: while_opt.simps\<close>)
qed

end
