(* ===== verification/Dbm_Graph.thy ===== *)
theory Dbm_Graph
  imports Arrays Btree Number
begin

text \<open>
  \<open>src/crab/splitdbm/graph.rs\<close>: the sparse weighted graph of a difference-bound matrix.
  The successors and the predecessors of a vertex are two sorted maps to an index of one
  shared vector of weights; the index slots and the vertices of a removed edge or vertex
  are recycled.  A vertex id is a \<open>u16\<close>: a natural number here, cut to 16 bits where the
  code casts.  Counters of elements in memory (\<open>usize\<close>) do not overflow.  Proved here: the
  representation invariant, that no operation panics under it, and that the operations are
  those of a partial map from pairs of vertices to weights.
\<close>

subsection \<open>Sorted maps of neighbours\<close>

type_synonym tree_smap = "(nat, nat) btree"

definition smap_size :: "tree_smap \<Rightarrow> nat" where
  "smap_size m = length m"

definition smap_contains :: "tree_smap \<Rightarrow> nat \<Rightarrow> bool" where
  "smap_contains m k \<longleftrightarrow> map_of m k \<noteq> None"

definition smap_lookup :: "tree_smap \<Rightarrow> nat \<Rightarrow> nat option" where
  "smap_lookup m k = map_of m k"

definition smap_add :: "nat \<Rightarrow> nat \<Rightarrow> tree_smap \<Rightarrow> tree_smap" where
  "smap_add k v m = bt_insert k v m"

definition smap_remove :: "nat \<Rightarrow> tree_smap \<Rightarrow> tree_smap" where
  "smap_remove k m = bt_remove k m"

definition smap_keys :: "tree_smap \<Rightarrow> nat list" where
  "smap_keys m = map fst m"

subsection \<open>The graph\<close>

record graph =
  g_preds :: "tree_smap list"
  g_succs :: "tree_smap list"
  g_ws :: "number list"
  g_edge_count :: nat
  g_is_free :: "bool list"
  g_free_id :: "nat list"
  g_free_widx :: "nat list"

definition graph_new :: graph where
  "graph_new = \<lparr>g_preds = [], g_succs = [], g_ws = [], g_edge_count = 0, g_is_free = [],
     g_free_id = [], g_free_widx = []\<rparr>"

definition graph_size :: "graph \<Rightarrow> nat" where
  "graph_size g = length (g_succs g)"

text \<open>\<open>Vec::pop\<close>: the last element and the rest.\<close>

definition vec_pop :: "'a list \<Rightarrow> ('a \<times> 'a list) option" where
  "vec_pop xs = (if xs = [] then None else Some (last xs, butlast xs))"

definition new_vertex :: "graph \<Rightarrow> (nat \<times> graph) option" where
  "new_vertex g =
     (case vec_pop (g_free_id g) of
        Some (v, rest) \<Rightarrow>
          do { assert_that (v < length (g_succs g));
               fr \<leftarrow> vec_set v False (g_is_free g);
               Some (v, g\<lparr>g_is_free := fr, g_free_id := rest\<rparr>) }
      | None \<Rightarrow>
          do { assert_that (length (g_succs g) < 65535);
               Some (length (g_succs g) mod 2 ^ 16,
                 g\<lparr>g_is_free := g_is_free g @ [False], g_succs := g_succs g @ [[]],
                   g_preds := g_preds g @ [[]]\<rparr>) })"

text \<open>
  \<open>while self.size() < sz\<close>: a vertex is recycled without growing, so the number of rounds is
  the number of free vertices and of missing ones.
\<close>

function grow_to :: "nat \<Rightarrow> graph \<Rightarrow> graph option" where
  "grow_to sz g =
     (if graph_size g < sz then do { (v, g1) \<leftarrow> new_vertex g; grow_to sz g1 } else Some g)"
  by pat_completeness auto
termination
  by (relation "measure (\<lambda>(sz, g). length (g_free_id g) + (sz - length (g_succs g)))")
    (auto simp: graph_size_def new_vertex_def vec_pop_def vec_set_def assert_that_def
      simp flip: length_greater_0_conv split: if_splits option.splits elim!: bind_SomeE)

declare grow_to.simps [simp del]

text \<open>One of the two loops of \<open>forget\<close>: the slots of the entries are recycled, the vertex leaves the maps.\<close>

fun unlink_all :: "nat \<Rightarrow> (nat \<times> nat) list \<Rightarrow> tree_smap list \<Rightarrow> nat list \<Rightarrow> (tree_smap list \<times> nat list) option" where
  "unlink_all v [] tbl fw = Some (tbl, fw)"
| "unlink_all v ((k, widx) # es) tbl fw =
     do { m \<leftarrow> vec_get tbl k;
          tbl1 \<leftarrow> vec_set k (smap_remove v m) tbl;
          unlink_all v es tbl1 (fw @ [widx]) }"

definition sub_usize :: "nat \<Rightarrow> nat \<Rightarrow> nat option" where
  "sub_usize a b = (if b \<le> a then Some (a - b) else None)"

definition forget :: "nat \<Rightarrow> graph \<Rightarrow> graph option" where
  "forget v g =
     do { free \<leftarrow> vec_get (g_is_free g) v;
          if free then Some g
          else do {
            succ_entries \<leftarrow> vec_get (g_succs g) v;
            (preds, fw) \<leftarrow> unlink_all v succ_entries (g_preds g) (g_free_widx g);
            c \<leftarrow> sub_usize (g_edge_count g) (length succ_entries);
            succs \<leftarrow> vec_set v [] (g_succs g);
            pred_entries \<leftarrow> vec_get preds v;
            (succs, fw) \<leftarrow> unlink_all v pred_entries succs fw;
            c \<leftarrow> sub_usize c (length pred_entries);
            preds \<leftarrow> vec_set v [] preds;
            fr \<leftarrow> vec_set v True (g_is_free g);
            Some \<lparr>g_preds = preds, g_succs = succs, g_ws = g_ws g, g_edge_count = c, g_is_free = fr,
              g_free_id = g_free_id g @ [v], g_free_widx = fw\<rparr> } }"

definition graph_is_empty :: "graph \<Rightarrow> bool" where
  "graph_is_empty g \<longleftrightarrow> g_edge_count g = 0"

definition num_edges :: "graph \<Rightarrow> nat" where
  "num_edges g = g_edge_count g"

definition graph_elem :: "graph \<Rightarrow> nat \<Rightarrow> nat \<Rightarrow> bool option" where
  "graph_elem g s d = do { m \<leftarrow> vec_get (g_succs g) s; Some (smap_contains m d) }"

definition edge_val :: "graph \<Rightarrow> nat \<Rightarrow> nat \<Rightarrow> number option" where
  "edge_val g s d = do { m \<leftarrow> vec_get (g_succs g) s; i \<leftarrow> smap_lookup m d; vec_get (g_ws g) i }"

text \<open>\<open>lookup\<close>: the outer option is the panic, the inner one the absent edge.\<close>

definition graph_lookup :: "graph \<Rightarrow> nat \<Rightarrow> nat \<Rightarrow> number option option" where
  "graph_lookup g s d =
     do { m \<leftarrow> vec_get (g_succs g) s;
          (case smap_lookup m d of None \<Rightarrow> Some None | Some i \<Rightarrow> do { w \<leftarrow> vec_get (g_ws g) i; Some (Some w) }) }"

text \<open>A write through the reference that \<open>lookup_mut\<close> returns.\<close>

definition write_edge :: "nat \<Rightarrow> number \<Rightarrow> nat \<Rightarrow> graph \<Rightarrow> graph option" where
  "write_edge s w d g =
     do { m \<leftarrow> vec_get (g_succs g) s; i \<leftarrow> smap_lookup m d; ws \<leftarrow> vec_set i w (g_ws g); Some (g\<lparr>g_ws := ws\<rparr>) }"

definition add_edge :: "nat \<Rightarrow> number \<Rightarrow> nat \<Rightarrow> graph \<Rightarrow> graph option" where
  "add_edge s w d g =
     do { (idx, ws, fw) \<leftarrow>
            (case vec_pop (g_free_widx g) of
               Some (widx, rest) \<Rightarrow> do { ws \<leftarrow> vec_set widx w (g_ws g); Some (widx, ws, rest) }
             | None \<Rightarrow> Some (length (g_ws g), g_ws g @ [w], []));
          sm \<leftarrow> vec_get (g_succs g) s;
          succs \<leftarrow> vec_set s (smap_add d idx sm) (g_succs g);
          pm \<leftarrow> vec_get (g_preds g) d;
          preds \<leftarrow> vec_set d (smap_add s idx pm) (g_preds g);
          Some (g\<lparr>g_ws := ws, g_free_widx := fw, g_succs := succs, g_preds := preds,
            g_edge_count := g_edge_count g + 1\<rparr>) }"

definition update_edge :: "nat \<Rightarrow> number \<Rightarrow> nat \<Rightarrow> graph \<Rightarrow> graph option" where
  "update_edge s w d g =
     do { m \<leftarrow> vec_get (g_succs g) s;
          (case smap_lookup m d of
             Some i \<Rightarrow> do { old \<leftarrow> vec_get (g_ws g) i;
                            if w < old then do { ws \<leftarrow> vec_set i w (g_ws g); Some (g\<lparr>g_ws := ws\<rparr>) } else Some g }
           | None \<Rightarrow> add_edge s w d g) }"

definition set_edge :: "nat \<Rightarrow> number \<Rightarrow> nat \<Rightarrow> graph \<Rightarrow> graph option" where
  "set_edge s w d g =
     do { m \<leftarrow> vec_get (g_succs g) s;
          (case smap_lookup m d of
             Some i \<Rightarrow> do { ws \<leftarrow> vec_set i w (g_ws g); Some (g\<lparr>g_ws := ws\<rparr>) }
           | None \<Rightarrow> add_edge s w d g) }"

text \<open>The loop of \<open>clear_edges\<close> over the vertices.\<close>

fun clear_tables :: "bool list \<Rightarrow> nat \<Rightarrow> tree_smap list \<Rightarrow> tree_smap list \<Rightarrow> (tree_smap list \<times> tree_smap list) option" where
  "clear_tables [] v succs preds = Some (succs, preds)"
| "clear_tables (f # fs) v succs preds =
     (if f then clear_tables fs (v + 1) succs preds
      else do { s \<leftarrow> vec_set v [] succs; p \<leftarrow> vec_set v [] preds; clear_tables fs (v + 1) s p })"

definition clear_edges :: "graph \<Rightarrow> graph option" where
  "clear_edges g =
     do { (succs, preds) \<leftarrow> clear_tables (g_is_free g) 0 (g_succs g) (g_preds g);
          Some (g\<lparr>g_ws := [], g_free_widx := [], g_succs := succs, g_preds := preds, g_edge_count := 0\<rparr>) }"

definition graph_clear :: "graph \<Rightarrow> graph" where
  "graph_clear g = \<lparr>g_preds = [], g_succs = [], g_ws = [], g_edge_count = 0, g_is_free = [],
     g_free_id = [], g_free_widx = []\<rparr>"

subsection \<open>Iteration\<close>

fun live_from :: "nat \<Rightarrow> bool list \<Rightarrow> nat list" where
  "live_from v [] = []"
| "live_from v (f # fs) = (if f then live_from (v + 1) fs else v mod 2 ^ 16 # live_from (v + 1) fs)"

definition graph_verts :: "graph \<Rightarrow> nat list option" where
  "graph_verts g = do { assert_that (length (g_is_free g) \<le> 65535); Some (live_from 0 (g_is_free g)) }"

definition succs_of :: "graph \<Rightarrow> nat \<Rightarrow> nat list option" where
  "succs_of g v = do { m \<leftarrow> vec_get (g_succs g) v; Some (smap_keys m) }"

definition preds_of :: "graph \<Rightarrow> nat \<Rightarrow> nat list option" where
  "preds_of g v = do { m \<leftarrow> vec_get (g_preds g) v; Some (smap_keys m) }"

definition succs_len :: "graph \<Rightarrow> nat \<Rightarrow> nat option" where
  "succs_len g v = do { m \<leftarrow> vec_get (g_succs g) v; Some (smap_size m) }"

definition preds_len :: "graph \<Rightarrow> nat \<Rightarrow> nat option" where
  "preds_len g v = do { m \<leftarrow> vec_get (g_preds g) v; Some (smap_size m) }"

text \<open>The edge references of an entry list, weights read from the shared vector.\<close>

fun edge_refs :: "number list \<Rightarrow> (nat \<times> nat) list \<Rightarrow> (nat \<times> number) list option" where
  "edge_refs ws [] = Some []"
| "edge_refs ws ((v, i) # es) = do { w \<leftarrow> vec_get ws i; rest \<leftarrow> edge_refs ws es; Some ((v, w) # rest) }"

definition e_succs :: "graph \<Rightarrow> nat \<Rightarrow> (nat \<times> number) list option" where
  "e_succs g v = do { m \<leftarrow> vec_get (g_succs g) v; edge_refs (g_ws g) m }"

definition e_preds :: "graph \<Rightarrow> nat \<Rightarrow> (nat \<times> number) list option" where
  "e_preds g v = do { m \<leftarrow> vec_get (g_preds g) v; edge_refs (g_ws g) m }"

text \<open>\<open>copy_from\<close>: the edges out of every vertex of a list, added to a fresh graph.\<close>

definition copy_from :: "nat list \<Rightarrow> (nat \<Rightarrow> (nat \<times> number) list option) \<Rightarrow> nat \<Rightarrow> graph option" where
  "copy_from vs f sz =
     do { g \<leftarrow> grow_to sz graph_new;
          for_each (\<lambda>s g. do { es \<leftarrow> f s; for_each (\<lambda>(d, w) g. add_edge s w d g) es g }) vs g }"

subsection \<open>Tables of sorted maps\<close>

definition table_ok :: "tree_smap list \<Rightarrow> bool" where
  "table_ok t \<longleftrightarrow> (\<forall>m\<in>set t. bt_ok m)"

definition table_look :: "tree_smap list \<Rightarrow> nat \<Rightarrow> nat \<Rightarrow> nat option" where
  "table_look t s d = (if s < length t then map_of (t ! s) d else None)"

lemma table_ok_update: "table_ok t \<Longrightarrow> bt_ok m \<Longrightarrow> table_ok (t[s := m])"
  unfolding table_ok_def using set_update_subset_insert by fastforce

lemma table_ok_nth: "table_ok t \<Longrightarrow> s < length t \<Longrightarrow> bt_ok (t ! s)"
  by (simp add: table_ok_def)

lemma look_add:
  "table_ok t \<Longrightarrow> s < length t \<Longrightarrow>
   table_look (t[s := smap_add d i (t ! s)]) = (table_look t)(s := (table_look t s)(d \<mapsto> i))"
  by (auto simp: table_look_def fun_eq_iff smap_add_def table_ok_nth)

lemma look_remove:
  "s < length t \<Longrightarrow> table_look (t[s := smap_remove d (t ! s)]) = (table_look t)(s := (table_look t s)(d := None))"
  by (auto simp: table_look_def fun_eq_iff smap_remove_def)

lemma look_clear: "table_look (t[s := []]) = (table_look t)(s := Map.empty)"
  by (auto simp: table_look_def fun_eq_iff)

lemma look_grow: "table_look (t @ [[]]) = table_look t"
  by (auto simp: table_look_def fun_eq_iff nth_append)

lemma smap_add_ok: "bt_ok m \<Longrightarrow> bt_ok (smap_add d i m)"
  by (simp add: smap_add_def)

lemma smap_remove_ok: "bt_ok m \<Longrightarrow> bt_ok (smap_remove d m)"
  by (simp add: smap_remove_def)

lemma unlink_all_spec:
  assumes "\<forall>k\<in>fst ` set es. k < length t" "table_ok t"
  shows "\<exists>t'. unlink_all v es t fw = Some (t', fw @ map snd es) \<and> length t' = length t \<and> table_ok t' \<and>
    (\<forall>s d. table_look t' s d = (if d = v \<and> s \<in> fst ` set es then None else table_look t s d))"
  using assms
proof (induction es arbitrary: t fw)
  case (Cons e es)
  obtain k i where e: "e = (k, i)" by (cases e)
  let ?t = "t[k := smap_remove v (t ! k)]"
  have k: "k < length t" using Cons.prems e by auto
  have ok: "table_ok ?t" by (rule table_ok_update [OF Cons.prems(2) smap_remove_ok [OF table_ok_nth [OF Cons.prems(2) k]]])
  obtain t' where t': "unlink_all v es ?t (fw @ [i]) = Some (t', (fw @ [i]) @ map snd es)"
    "length t' = length ?t" "table_ok t'"
    "\<forall>s d. table_look t' s d = (if d = v \<and> s \<in> fst ` set es then None else table_look ?t s d)"
    using Cons.IH [of ?t "fw @ [i]"] Cons.prems(1) ok by auto
  then show ?case using k by (auto simp: e look_remove)
qed simp

subsection \<open>The representation invariant\<close>

definition live :: "graph \<Rightarrow> nat \<Rightarrow> bool" where
  "live g v \<longleftrightarrow> v < length (g_succs g) \<and> \<not> g_is_free g ! v"

definition edge_index :: "graph \<Rightarrow> nat \<Rightarrow> nat \<Rightarrow> nat option" where
  "edge_index g = table_look (g_succs g)"

text \<open>The partial map the graph stands for.\<close>

definition weight :: "graph \<Rightarrow> nat \<Rightarrow> nat \<Rightarrow> number option" where
  "weight g s d = map_option ((!) (g_ws g)) (edge_index g s d)"

definition edge_set :: "(nat \<Rightarrow> nat \<Rightarrow> 'a option) \<Rightarrow> (nat \<times> nat) set" where
  "edge_set w = {(s, d). w s d \<noteq> None}"

text \<open>
  The two tables name the same edges with the same slot, slots are not shared, freed slots
  and freed vertices are recorded once, and the edge counter is exact.
\<close>

definition graph_ok :: "graph \<Rightarrow> bool" where
  "graph_ok g \<longleftrightarrow>
     length (g_preds g) = length (g_succs g) \<and> length (g_is_free g) = length (g_succs g) \<and>
     length (g_succs g) \<le> 65535 \<and>
     table_ok (g_succs g) \<and> table_ok (g_preds g) \<and>
     (\<forall>s d. table_look (g_preds g) d s = edge_index g s d) \<and>
     (\<forall>s d i. edge_index g s d = Some i \<longrightarrow>
        live g s \<and> live g d \<and> i < length (g_ws g) \<and> i \<notin> set (g_free_widx g)) \<and>
     (\<forall>s d s' d' i. edge_index g s d = Some i \<longrightarrow> edge_index g s' d' = Some i \<longrightarrow> s = s' \<and> d = d') \<and>
     distinct (g_free_widx g) \<and> (\<forall>i\<in>set (g_free_widx g). i < length (g_ws g)) \<and>
     distinct (g_free_id g) \<and> (\<forall>v. v \<in> set (g_free_id g) \<longleftrightarrow> v < length (g_succs g) \<and> g_is_free g ! v) \<and>
     g_edge_count g = card (edge_set (edge_index g))"

lemma graph_okD:
  assumes "graph_ok g"
  shows "length (g_preds g) = length (g_succs g)" "length (g_is_free g) = length (g_succs g)"
    "length (g_succs g) \<le> 65535" "table_ok (g_succs g)" "table_ok (g_preds g)"
    "\<And>s d. table_look (g_preds g) d s = edge_index g s d"
    "\<And>s d i. edge_index g s d = Some i \<Longrightarrow> live g s \<and> live g d \<and> i < length (g_ws g) \<and> i \<notin> set (g_free_widx g)"
    "\<And>s d s' d' i. edge_index g s d = Some i \<Longrightarrow> edge_index g s' d' = Some i \<Longrightarrow> s = s' \<and> d = d'"
    "distinct (g_free_widx g)" "\<And>i. i \<in> set (g_free_widx g) \<Longrightarrow> i < length (g_ws g)"
    "distinct (g_free_id g)" "\<And>v. v \<in> set (g_free_id g) \<longleftrightarrow> v < length (g_succs g) \<and> g_is_free g ! v"
    "g_edge_count g = card (edge_set (edge_index g))"
  using assms unfolding graph_ok_def by blast+

lemma graph_okI:
  assumes "length (g_preds g) = length (g_succs g)" "length (g_is_free g) = length (g_succs g)"
    "length (g_succs g) \<le> 65535" "table_ok (g_succs g)" "table_ok (g_preds g)"
    "\<And>s d. table_look (g_preds g) d s = edge_index g s d"
    "\<And>s d i. edge_index g s d = Some i \<Longrightarrow> live g s \<and> live g d \<and> i < length (g_ws g) \<and> i \<notin> set (g_free_widx g)"
    "\<And>s d s' d' i. edge_index g s d = Some i \<Longrightarrow> edge_index g s' d' = Some i \<Longrightarrow> s = s' \<and> d = d'"
    "distinct (g_free_widx g)" "\<And>i. i \<in> set (g_free_widx g) \<Longrightarrow> i < length (g_ws g)"
    "distinct (g_free_id g)" "\<And>v. v \<in> set (g_free_id g) \<longleftrightarrow> v < length (g_succs g) \<and> g_is_free g ! v"
    "g_edge_count g = card (edge_set (edge_index g))"
  shows "graph_ok g"
  unfolding graph_ok_def using assms by (intro conjI allI impI ballI; blast)

lemma weight_live: "graph_ok g \<Longrightarrow> weight g s d = Some w \<Longrightarrow> live g s \<and> live g d"
  by (auto simp: weight_def dest: graph_okD(7))

lemma edge_set_weight: "edge_set (weight g) = edge_set (edge_index g)"
  by (auto simp: edge_set_def weight_def)

lemma edge_set_finite: "graph_ok g \<Longrightarrow> finite (edge_set (edge_index g))"
proof (rule finite_subset)
  show "graph_ok g \<Longrightarrow> edge_set (edge_index g) \<subseteq> {..<length (g_succs g)} \<times> {..<length (g_succs g)}"
    by (auto simp: edge_set_def live_def dest: graph_okD(7))
qed simp

lemma butlast_distinct:
  assumes "distinct xs" "xs \<noteq> []"
  shows "distinct (butlast xs)" "u \<in> set (butlast xs) \<longleftrightarrow> u \<in> set xs \<and> u \<noteq> last xs"
proof -
  have d: "distinct (butlast xs @ [last xs])" and u: "u \<in> set xs \<longleftrightarrow> u \<in> set (butlast xs @ [last xs])"
    using assms by simp_all
  show "distinct (butlast xs)" using d by simp
  show "u \<in> set (butlast xs) \<longleftrightarrow> u \<in> set xs \<and> u \<noteq> last xs"
    unfolding u using d by auto
qed

lemma graph_new_ok: "graph_ok graph_new" "weight graph_new = (\<lambda>_ _. None)" "live graph_new v = False"
  by (auto simp: graph_ok_def graph_new_def edge_index_def table_look_def table_ok_def live_def edge_set_def
      weight_def fun_eq_iff)

lemma table_get:
  "s < length t \<Longrightarrow> vec_get t s = Some (t ! s)"
  "s < length t \<Longrightarrow> smap_lookup (t ! s) d = table_look t s d"
  by (simp_all add: table_look_def smap_lookup_def)

subsection \<open>Vertices\<close>

lemma new_vertex_spec:
  assumes "graph_ok g" "length (g_succs g) < 65535 \<or> g_free_id g \<noteq> []"
  shows "\<exists>v g'. new_vertex g = Some (v, g') \<and> graph_ok g' \<and> weight g' = weight g \<and> \<not> live g v \<and>
    (\<forall>u. live g' u \<longleftrightarrow> u = v \<or> live g u) \<and>
    graph_size g' = max (graph_size g) (v + 1)"
proof (cases "g_free_id g = []")
  case False
  note ok = graph_okD [OF assms(1)]
  define v where "v = last (g_free_id g)"
  define g' where "g' = g\<lparr>g_is_free := (g_is_free g)[v := False], g_free_id := butlast (g_free_id g)\<rparr>"
  have v: "v < length (g_succs g)" "g_is_free g ! v" using ok(12) [of v] False by (auto simp: v_def)
  have run: "new_vertex g = Some (v, g')"
    using False v ok(2) by (simp add: new_vertex_def vec_pop_def v_def g'_def)
  have ei: "edge_index g' = edge_index g" by (simp add: edge_index_def g'_def)
  have lv: "live g' u \<longleftrightarrow> u = v \<or> live g u" for u
    using v ok(2) by (auto simp: live_def g'_def nth_list_update)
  have "u \<in> set (butlast (g_free_id g)) \<longleftrightarrow> u \<in> set (g_free_id g) \<and> u \<noteq> v" for u
    using butlast_distinct(2) [OF ok(11) False] by (simp add: v_def)
  then have fr: "u \<in> set (g_free_id g') \<longleftrightarrow> u < length (g_succs g') \<and> g_is_free g' ! u" for u
    using ok(2) ok(12) [of u] v by (auto simp: g'_def nth_list_update)
  have "graph_ok g'"
  proof (rule graph_okI; (unfold ei)?)
    show "v \<in> set (g_free_id g') \<longleftrightarrow> v < length (g_succs g') \<and> g_is_free g' ! v" for v using fr by blast
    show "edge_index g s d = Some i \<Longrightarrow> live g' s \<and> live g' d \<and> i < length (g_ws g') \<and> i \<notin> set (g_free_widx g')" for s d i
      using ok(7) lv by (simp add: g'_def)
    show "edge_index g s d = Some i \<Longrightarrow> edge_index g s' d' = Some i \<Longrightarrow> s = s' \<and> d = d'" for s d s' d' i
      using ok(8) by blast
  qed (use ok butlast_distinct(1) [OF ok(11) False] in \<open>simp_all add: g'_def\<close>)
  moreover have "weight g' = weight g" by (simp add: weight_def ei fun_eq_iff) (simp add: g'_def)
  moreover have "\<not> live g v" using v by (simp add: live_def)
  moreover have "graph_size g' = max (graph_size g) (v + 1)" using v by (simp add: graph_size_def g'_def)
  ultimately show ?thesis using run lv by blast
next
  case True
  note ok = graph_okD [OF assms(1)]
  define n where "n = length (g_succs g)"
  define g' where "g' = g\<lparr>g_is_free := g_is_free g @ [False], g_succs := g_succs g @ [[]], g_preds := g_preds g @ [[]]\<rparr>"
  have n: "n < 65535" using assms(2) True by (simp add: n_def)
  then have run: "new_vertex g = Some (n, g')"
    using True by (simp add: new_vertex_def vec_pop_def n_def g'_def)
  have ei: "edge_index g' = edge_index g" by (simp add: edge_index_def g'_def look_grow)
  have lv: "live g' u \<longleftrightarrow> u = n \<or> live g u" for u
    using ok(2) by (auto simp: live_def g'_def n_def nth_append)
  have all: "\<And>u. u < length (g_succs g) \<Longrightarrow> \<not> g_is_free g ! u" using True ok(12) by auto
  have fr: "u \<in> set (g_free_id g') \<longleftrightarrow> u < length (g_succs g') \<and> g_is_free g' ! u" for u
    using ok(2) True all by (auto simp: g'_def nth_append)
  have "graph_ok g'"
  proof (rule graph_okI; (unfold ei)?)
    show "table_ok (g_succs g')" "table_ok (g_preds g')" using ok(4,5) by (auto simp: g'_def table_ok_def)
    show "length (g_succs g') \<le> 65535" using n by (simp add: g'_def n_def)
    show "v \<in> set (g_free_id g') \<longleftrightarrow> v < length (g_succs g') \<and> g_is_free g' ! v" for v using fr by blast
    show "table_look (g_preds g') d s = edge_index g s d" for s d using ok(6) by (simp add: g'_def look_grow)
    show "edge_index g s d = Some i \<Longrightarrow> live g' s \<and> live g' d \<and> i < length (g_ws g') \<and> i \<notin> set (g_free_widx g')" for s d i
      using ok(7) lv by (simp add: g'_def)
    show "edge_index g s d = Some i \<Longrightarrow> edge_index g s' d' = Some i \<Longrightarrow> s = s' \<and> d = d'" for s d s' d' i
      using ok(8) by blast
  qed (use ok in \<open>simp_all add: g'_def\<close>)
  moreover have "\<not> live g n" by (simp add: live_def n_def)
  moreover have "weight g' = weight g" by (simp add: weight_def ei fun_eq_iff) (simp add: g'_def)
  moreover have "graph_size g' = max (graph_size g) (n + 1)" by (simp add: graph_size_def g'_def n_def)
  ultimately show ?thesis using run lv by blast
qed

lemma grow_to_spec:
  assumes "graph_ok g" "sz \<le> 65535"
  shows "\<exists>g'. grow_to sz g = Some g' \<and> graph_ok g' \<and> weight g' = weight g \<and> sz \<le> graph_size g' \<and>
    (\<forall>v. live g v \<longrightarrow> live g' v)"
  using assms
proof (induction sz g rule: grow_to.induct)
  case (1 sz g)
  show ?case
  proof (cases "graph_size g < sz")
    case True
    then obtain v g1 where g1: "new_vertex g = Some (v, g1)" "graph_ok g1" "weight g1 = weight g"
      "\<forall>u. live g1 u \<longleftrightarrow> u = v \<or> live g u"
      using new_vertex_spec [OF 1(2)] 1(3) by (auto simp: graph_size_def)
    show ?thesis using 1(1) [OF True g1(1) refl g1(2) 1(3)] g1 True
      by (subst grow_to.simps) auto
  qed (use 1 in \<open>auto simp: grow_to.simps\<close>)
qed

text \<open>On a fresh graph every vertex below the size is live.\<close>

lemma grow_fresh:
  assumes "sz \<le> 65535"
  shows "\<exists>g. grow_to sz graph_new = Some g \<and> graph_ok g \<and> weight g = (\<lambda>_ _. None) \<and> graph_size g = sz \<and>
    (\<forall>v. live g v \<longleftrightarrow> v < sz)"
proof -
  have "\<exists>g'. grow_to sz g = Some g' \<and> graph_ok g' \<and> weight g' = weight g \<and> graph_size g' = sz \<and>
      (\<forall>v. live g' v \<longleftrightarrow> v < sz)"
    if "graph_ok g" "graph_size g \<le> sz" "\<forall>v. live g v \<longleftrightarrow> v < graph_size g" for g
    using that
  proof (induction "sz - graph_size g" arbitrary: g)
    case 0
    then show ?case by (subst grow_to.simps) auto
  next
    case (Suc k)
    have "v \<notin> set (g_free_id g)" for v
      using graph_okD(12) [OF Suc.prems(1), of v] Suc.prems(3) by (auto simp: live_def graph_size_def)
    then have nf: "g_free_id g = []" using last_in_set by blast
    have lt: "length (g_succs g) < 65535" using Suc.hyps(2) assms by (simp add: graph_size_def)
    then obtain v g1 where g1: "new_vertex g = Some (v, g1)" "graph_ok g1" "weight g1 = weight g"
      "\<forall>u. live g1 u \<longleftrightarrow> u = v \<or> live g u" "graph_size g1 = max (graph_size g) (v + 1)"
      using new_vertex_spec [OF Suc.prems(1)] lt by blast
    have v: "v = graph_size g"
      using g1(1) nf Suc.hyps(2) assms
      by (auto simp: new_vertex_def vec_pop_def graph_size_def panic_simps assert_that_def split: if_splits)
    have "graph_size g1 = Suc (graph_size g)" using g1(5) v by simp
    moreover have "\<forall>u. live g1 u \<longleftrightarrow> u < Suc (graph_size g)" using g1(4) v Suc.prems(3) by auto
    ultimately have "\<exists>g'. grow_to sz g1 = Some g' \<and> graph_ok g' \<and> weight g' = weight g1 \<and> graph_size g' = sz \<and>
        (\<forall>v. live g' v \<longleftrightarrow> v < sz)"
      using Suc.hyps(2) by (intro Suc.hyps(1) g1(2)) auto
    then show ?case using Suc.hyps(2) g1(1,3) by (subst grow_to.simps) auto
  qed
  moreover have "graph_size graph_new = 0" by (simp add: graph_size_def graph_new_def)
  ultimately obtain g where "grow_to sz graph_new = Some g" "graph_ok g" "weight g = weight graph_new"
    "graph_size g = sz" "\<forall>v. live g v \<longleftrightarrow> v < sz"
    using graph_new_ok by (metis le0 less_zeroE)
  then show ?thesis using graph_new_ok(2) by auto
qed

subsection \<open>Edges\<close>

text \<open>The weight map with one edge set.\<close>

abbreviation with_edge :: "(nat \<Rightarrow> nat \<Rightarrow> number option) \<Rightarrow> nat \<Rightarrow> number \<Rightarrow> nat \<Rightarrow> nat \<Rightarrow> nat \<Rightarrow> number option" where
  "with_edge W s w d \<equiv> W(s := (W s)(d \<mapsto> w))"

lemma edge_indexE:
  assumes "graph_ok g" "edge_index g s d = Some i"
  shows "s < length (g_succs g)" "d < length (g_succs g)" "i < length (g_ws g)" "weight g s d = Some (g_ws g ! i)"
  using graph_okD(7) [OF assms] assms(2) by (auto simp: live_def weight_def)

lemma weight_None: "weight g s d = None \<longleftrightarrow> edge_index g s d = None"
  by (simp add: weight_def)

lemma weight_SomeE:
  assumes "weight g s d = Some w"
  obtains i where "edge_index g s d = Some i" "g_ws g ! i = w"
  using assms by (auto simp: weight_def)

lemma live_size: "graph_ok g \<Longrightarrow> live g v \<Longrightarrow> v < length (g_succs g) \<and> v < length (g_preds g)"
  by (simp add: live_def graph_okD(1))

lemma graph_elem_spec: "s < graph_size g \<Longrightarrow> graph_elem g s d = Some (weight g s d \<noteq> None)"
  by (simp add: graph_elem_def smap_contains_def weight_def edge_index_def table_look_def graph_size_def)

lemma graph_lookup_spec: "graph_ok g \<Longrightarrow> s < graph_size g \<Longrightarrow> graph_lookup g s d = Some (weight g s d)"
  using edge_indexE(3) [of g s d]
  by (auto simp: graph_lookup_def table_get weight_def edge_index_def graph_size_def split: option.splits)

lemma edge_val_spec: "graph_ok g \<Longrightarrow> weight g s d = Some w \<Longrightarrow> edge_val g s d = Some w"
  by (erule weight_SomeE, frule (1) edge_indexE(1), frule (1) edge_indexE(3))
    (simp add: edge_val_def table_get edge_index_def)

lemma set_slot_spec:
  fixes w :: number
  assumes "graph_ok g" "edge_index g s d = Some i"
  defines "g' \<equiv> g\<lparr>g_ws := (g_ws g)[i := w]\<rparr>"
  shows "graph_ok g'" "weight g' = with_edge (weight g) s w d" "live g' = live g" "graph_size g' = graph_size g"
proof -
  note ok = graph_okD [OF assms(1)]
  have ei: "edge_index g' = edge_index g" by (simp add: g'_def edge_index_def)
  show lv: "live g' = live g" by (simp add: g'_def live_def fun_eq_iff)
  show "graph_size g' = graph_size g" by (simp add: g'_def graph_size_def)
  show "graph_ok g'"
  proof (rule graph_okI; (unfold ei lv)?)
    show "edge_index g s d = Some i \<Longrightarrow> edge_index g s' d' = Some i \<Longrightarrow> s = s' \<and> d = d'" for s d s' d' i
      using ok(8) by blast
    show "edge_index g s d = Some i \<Longrightarrow> live g s \<and> live g d \<and> i < length (g_ws g') \<and> i \<notin> set (g_free_widx g')" for s d i
      using ok(7) by (simp add: g'_def)
  qed (use ok in \<open>simp_all add: g'_def\<close>)
  show "weight g' = with_edge (weight g) s w d"
  proof (intro ext)
    fix a b
    show "weight g' a b = with_edge (weight g) s w d a b"
    proof (cases "edge_index g a b")
      case None
      then show ?thesis using assms(2) by (auto simp: weight_def ei)
    next
      case (Some j)
      then have "j = i \<longleftrightarrow> a = s \<and> b = d" using ok(8) assms(2) by fastforce
      then show ?thesis using Some edge_indexE(3) [OF assms(1,2)]
        by (auto simp: weight_def ei) (auto simp: g'_def)
    qed
  qed
qed

lemma add_edge_spec:
  assumes "graph_ok g" "live g s" "live g d" "weight g s d = None"
  shows "\<exists>g'. add_edge s w d g = Some g' \<and> graph_ok g' \<and> weight g' = with_edge (weight g) s w d \<and>
    live g' = live g \<and> graph_size g' = graph_size g"
proof -
  note ok = graph_okD [OF assms(1)]
  have sd: "s < length (g_succs g)" "d < length (g_preds g)" using live_size assms(1-3) by auto
  have none: "edge_index g s d = None" using assms(4) by (simp add: weight_None)
  define free where "free = g_free_widx g"
  define idx where "idx = (if free = [] then length (g_ws g) else last free)"
  define ws where "ws = (if free = [] then g_ws g @ [w] else (g_ws g)[idx := w])"
  define g' where "g' = g\<lparr>g_ws := ws, g_free_widx := butlast free,
    g_succs := (g_succs g)[s := smap_add d idx (g_succs g ! s)],
    g_preds := (g_preds g)[d := smap_add s idx (g_preds g ! d)], g_edge_count := g_edge_count g + 1\<rparr>"
  have gs: "g_ws g' = ws" "g_free_widx g' = butlast free" "g_edge_count g' = g_edge_count g + 1"
    "graph_size g' = graph_size g" "length (g_preds g') = length (g_preds g)" "length (g_succs g') = length (g_succs g)"
    "g_is_free g' = g_is_free g" "g_free_id g' = g_free_id g"
    by (simp_all add: g'_def graph_size_def)
  have idx: "idx < length ws" "ws ! idx = w" "length (g_ws g) \<le> length ws"
    using ok(10) [of idx] by (auto simp: idx_def ws_def free_def)
  have run: "add_edge s w d g = Some g'"
    using sd ok(10) by (auto simp: add_edge_def vec_pop_def g'_def idx_def ws_def free_def)
  have unused: "edge_index g a b \<noteq> Some idx" for a b
    using ok(7) [of a b idx] by (auto simp: idx_def free_def split: if_splits)
  have ei: "edge_index g' = (edge_index g)(s := (edge_index g s)(d \<mapsto> idx))"
    using look_add [OF ok(4) sd(1)] by (simp add: edge_index_def g'_def)
  have pi: "table_look (g_preds g') = (table_look (g_preds g))(d := (table_look (g_preds g) d)(s \<mapsto> idx))"
    using look_add [OF ok(5) sd(2)] by (simp add: g'_def)
  have lv: "live g' = live g" by (simp add: g'_def live_def fun_eq_iff)
  have fr: "distinct (butlast free)" "idx \<notin> set (butlast free)" "set (butlast free) \<subseteq> set free"
  proof -
    show "distinct (butlast free)" "idx \<notin> set (butlast free)"
      using ok(9) butlast_distinct [of free] by (cases "free = []"; simp add: free_def idx_def)+
    show "set (butlast free) \<subseteq> set free" by (auto dest: in_set_butlastD)
  qed
  have old: "edge_index g a b = Some j \<Longrightarrow> ws ! j = g_ws g ! j" for a b j
    using ok(7) [of a b j] unused [of a b] by (auto simp: ws_def nth_append)
  have "graph_ok g'"
  proof (rule graph_okI)
    show "table_ok (g_succs g')" "table_ok (g_preds g')"
      using ok(4,5) sd by (auto simp: g'_def intro!: table_ok_update smap_add_ok intro: table_ok_nth)
    show "table_look (g_preds g') b a = edge_index g' a b" for a b
      using ok(6) by (simp add: ei pi)
    show "edge_index g' a b = Some i \<Longrightarrow> live g' a \<and> live g' b \<and> i < length (g_ws g') \<and> i \<notin> set (g_free_widx g')" for a b i
      using ok(7) [of a b i] assms(2,3) idx fr by (auto simp: ei lv gs free_def split: if_splits)
    show "edge_index g' a b = Some i \<Longrightarrow> edge_index g' a' b' = Some i \<Longrightarrow> a = a' \<and> b = b'" for a b a' b' i
      using ok(8) [of a b i a' b'] unused by (auto simp: ei split: if_splits)
    show "i \<in> set (g_free_widx g') \<Longrightarrow> i < length (g_ws g')" for i
      using ok(10) [of i] fr(3) idx(3) by (auto simp: gs free_def)
    show "g_edge_count g' = card (edge_set (edge_index g'))"
    proof -
      have "edge_set (edge_index g') = insert (s, d) (edge_set (edge_index g))"
        by (auto simp: edge_set_def ei split: if_splits)
      then show ?thesis using none edge_set_finite [OF assms(1)] ok(13) by (simp add: gs edge_set_def)
    qed
  qed (use ok fr in \<open>simp_all add: gs\<close>)
  moreover have "weight g' = with_edge (weight g) s w d"
  proof (intro ext)
    fix a b
    show "weight g' a b = with_edge (weight g) s w d a b"
      using old [of a b] idx(2)
      by (cases "a = s \<and> b = d"; cases "edge_index g a b") (auto simp: weight_def ei gs)
  qed
  ultimately show ?thesis using run lv gs(4) by blast
qed

lemma set_edge_spec:
  assumes "graph_ok g" "live g s" "live g d"
  shows "\<exists>g'. set_edge s w d g = Some g' \<and> graph_ok g' \<and> weight g' = with_edge (weight g) s w d \<and>
    live g' = live g \<and> graph_size g' = graph_size g"
proof (cases "edge_index g s d")
  case None
  then show ?thesis
    using add_edge_spec [OF assms, of w] live_size [OF assms(1,2)]
    by (simp add: set_edge_def table_get edge_index_def weight_def)
next
  case (Some i)
  then show ?thesis
    using set_slot_spec [OF assms(1) Some, of w] edge_indexE [OF assms(1) Some] live_size [OF assms(1,2)]
    by (simp add: set_edge_def table_get edge_index_def)
qed

definition tighter :: "number option \<Rightarrow> number \<Rightarrow> number" where
  "tighter old w = (case old of None \<Rightarrow> w | Some v \<Rightarrow> min v w)"

lemma update_edge_spec:
  assumes "graph_ok g" "live g s" "live g d"
  shows "\<exists>g'. update_edge s w d g = Some g' \<and> graph_ok g' \<and>
    weight g' = with_edge (weight g) s (tighter (weight g s d) w) d \<and>
    live g' = live g \<and> graph_size g' = graph_size g"
proof (cases "edge_index g s d")
  case None
  then show ?thesis
    using add_edge_spec [OF assms, of w] live_size [OF assms(1,2)]
    by (simp add: update_edge_def table_get edge_index_def weight_def tighter_def)
next
  case (Some i)
  note i = edge_indexE [OF assms(1) Some]
  show ?thesis
  proof (cases "w < g_ws g ! i")
    case True
    then show ?thesis
      using set_slot_spec [OF assms(1) Some, of w] i live_size [OF assms(1,2)] Some
      by (simp add: update_edge_def table_get edge_index_def tighter_def min_def)
  next
    case False
    then have "with_edge (weight g) s (tighter (weight g s d) w) d = weight g"
      using i(4) by (auto simp: fun_eq_iff tighter_def min_def)
    then show ?thesis
      using False i live_size [OF assms(1,2)] Some assms(1)
      by (simp add: update_edge_def table_get edge_index_def)
  qed
qed

lemma write_edge_spec:
  assumes "graph_ok g" "weight g s d = Some v"
  shows "\<exists>g'. write_edge s w d g = Some g' \<and> graph_ok g' \<and> weight g' = with_edge (weight g) s w d \<and>
    live g' = live g \<and> graph_size g' = graph_size g"
proof -
  obtain i where i: "edge_index g s d = Some i" using assms(2) by (auto simp: weight_def)
  then show ?thesis
    using set_slot_spec [OF assms(1) i, of w] edge_indexE [OF assms(1) i]
    by (simp add: write_edge_def table_get edge_index_def)
qed

subsection \<open>Forgetting a vertex\<close>

lemma table_entries:
  assumes "table_ok t" "s < length t"
  shows "(d, i) \<in> set (t ! s) \<longleftrightarrow> table_look t s d = Some i" "d \<in> fst ` set (t ! s) \<longleftrightarrow> table_look t s d \<noteq> None"
    "distinct (map fst (t ! s))" "length (t ! s) = card {d. table_look t s d \<noteq> None}"
proof -
  show dist: "distinct (map fst (t ! s))" by (rule bt_ok_distinct [OF table_ok_nth [OF assms]])
  show "(d, i) \<in> set (t ! s) \<longleftrightarrow> table_look t s d = Some i"
    using assms(2) dist by (simp add: table_look_def map_of_eq_Some_iff)
  have key: "d \<in> fst ` set (t ! s) \<longleftrightarrow> table_look t s d \<noteq> None" for d
    using assms(2) by (simp add: table_look_def map_of_eq_None_iff)
  then show "d \<in> fst ` set (t ! s) \<longleftrightarrow> table_look t s d \<noteq> None" .
  have "{d. table_look t s d \<noteq> None} = set (map fst (t ! s))" using key by auto
  then show "length (t ! s) = card {d. table_look t s d \<noteq> None}"
    using distinct_card [OF dist] by simp
qed

text \<open>The weight map without the edges of one vertex.\<close>

definition without :: "(nat \<Rightarrow> nat \<Rightarrow> 'a option) \<Rightarrow> nat \<Rightarrow> nat \<Rightarrow> nat \<Rightarrow> 'a option" where
  "without W v s d = (if s = v \<or> d = v then None else W s d)"

lemma forget_free: "graph_ok g \<Longrightarrow> v < graph_size g \<Longrightarrow> \<not> live g v \<Longrightarrow> forget v g = Some g"
  by (simp add: forget_def live_def graph_size_def graph_okD(2))

lemma forget_spec:
  assumes "graph_ok g" "live g v"
  shows "\<exists>g'. forget v g = Some g' \<and> graph_ok g' \<and> weight g' = without (weight g) v \<and>
    (\<forall>u. live g' u \<longleftrightarrow> live g u \<and> u \<noteq> v) \<and> graph_size g' = graph_size g"
proof -
  note ok = graph_okD [OF assms(1)]
  let ?n = "length (g_succs g)" and ?E = "edge_index g"
  have v: "v < ?n" "v < length (g_preds g)" "v < length (g_is_free g)" "\<not> g_is_free g ! v"
    using assms(2) ok(1,2) by (auto simp: live_def)
  define ses where "ses = g_succs g ! v"
  note out = table_entries [OF ok(4) v(1), folded ses_def edge_index_def]
  have keys: "\<forall>k\<in>fst ` set ses. k < length (g_preds g)"
  proof
    fix k assume "k \<in> fst ` set ses"
    then obtain i where "?E v k = Some i" using out(2) [of k] by auto
    then show "k < length (g_preds g)" using edge_indexE(2) [OF assms(1)] ok(1) by simp
  qed
  obtain preds1 where p1: "unlink_all v ses (g_preds g) (g_free_widx g) = Some (preds1, g_free_widx g @ map snd ses)"
    "length preds1 = length (g_preds g)" "table_ok preds1"
    "\<And>d s. table_look preds1 d s = (if s = v \<and> ?E v d \<noteq> None then None else ?E s d)"
    using unlink_all_spec [OF keys ok(5), of v "g_free_widx g"] ok(6) out(2) by auto
  have p1v: "table_look preds1 d s = (if s = v then None else ?E s d)" for s d
    using p1(4) by auto
  define pes where "pes = preds1 ! v"
  have vp: "v < length preds1" using p1(2) v by simp
  note inc = table_entries [OF p1(3) vp, folded pes_def]
  define succs1 where "succs1 = (g_succs g)[v := []]"
  have s1: "table_ok succs1" "length succs1 = ?n"
    "\<And>s d. table_look succs1 s d = (if s = v then None else ?E s d)"
    using table_ok_update [OF ok(4), of "[]" v] by (auto simp: succs1_def look_clear edge_index_def)
  have keys': "\<forall>k\<in>fst ` set pes. k < length succs1"
  proof
    fix k assume "k \<in> fst ` set pes"
    then obtain i where "?E k v = Some i" using inc(2) [of k] p1v by (auto split: if_splits)
    then show "k < length succs1" using edge_indexE(1) [OF assms(1)] s1(2) by simp
  qed
  define fw where "fw = (g_free_widx g @ map snd ses) @ map snd pes"
  obtain succs2 where s2: "unlink_all v pes succs1 (g_free_widx g @ map snd ses) = Some (succs2, fw)"
    "length succs2 = length succs1" "table_ok succs2"
    "\<And>s d. table_look succs2 s d = (if d = v \<and> s \<in> fst ` set pes then None else table_look succs1 s d)"
    using unlink_all_spec [OF keys' s1(1), of v "g_free_widx g @ map snd ses"] by (auto simp: fw_def)
  have s2v: "table_look succs2 s d = without ?E v s d" for s d
    using inc(2) [of s] p1v by (auto simp: s2(4) s1(3) without_def)
  define preds2 where "preds2 = preds1[v := []]"
  have p2: "table_ok preds2" "table_look preds2 d s = without ?E v s d" for s d
    using table_ok_update [OF p1(3), of "[]" v] p1v by (auto simp: preds2_def look_clear without_def)
  let ?O = "{d. ?E v d \<noteq> None}" and ?I = "{s. table_look preds1 v s \<noteq> None}"
  define c where "c = card (edge_set (without ?E v))"
  have count: "g_edge_count g = c + length ses + length pes"
  proof -
    have fin: "finite (edge_set ?E)" by (rule edge_set_finite [OF assms(1)])
    have split: "edge_set ?E = edge_set (without ?E v) \<union> (Pair v ` ?O \<union> (\<lambda>s. (s, v)) ` ?I)"
      by (auto simp: edge_set_def without_def p1v)
    have "finite (edge_set (without ?E v))" "finite (Pair v ` ?O)" "finite ((\<lambda>s. (s, v)) ` ?I)"
      using fin unfolding split by simp_all
    moreover have "card (Pair v ` ?O) = length ses" "card ((\<lambda>s. (s, v)) ` ?I) = length pes"
      using out(4) inc(4) by (simp_all add: card_image inj_on_def)
    moreover have "Pair v ` ?O \<inter> (\<lambda>s. (s, v)) ` ?I = {}" by (auto simp: p1v)
    moreover have "edge_set (without ?E v) \<inter> (Pair v ` ?O \<union> (\<lambda>s. (s, v)) ` ?I) = {}"
      by (auto simp: edge_set_def without_def)
    ultimately show ?thesis
      unfolding ok(13) c_def split by (simp add: card_Un_disjoint)
  qed
  define g' where "g' = \<lparr>g_preds = preds2, g_succs = succs2, g_ws = g_ws g, g_edge_count = c,
    g_is_free = (g_is_free g)[v := True], g_free_id = g_free_id g @ [v], g_free_widx = fw\<rparr>"
  have run: "forget v g = Some g'"
    using v p1(1) s2(1) count vp
    by (simp add: forget_def ses_def [symmetric] succs1_def [symmetric] pes_def [symmetric] sub_usize_def
        g'_def preds2_def)
  have ei: "edge_index g' = without ?E v" by (simp add: edge_index_def g'_def s2v fun_eq_iff)
  have lv: "live g' u \<longleftrightarrow> live g u \<and> u \<noteq> v" for u
    using v(3) s1(2) s2(2) by (auto simp: live_def g'_def nth_list_update)
  have fw: "distinct fw" "i \<in> set fw \<Longrightarrow> i < length (g_ws g)"
    "i \<in> set fw \<longleftrightarrow> i \<in> set (g_free_widx g) \<or> (\<exists>s d. ?E s d = Some i \<and> (s = v \<or> d = v))" for i
  proof -
    have ses: "i \<in> set (map snd ses) \<longleftrightarrow> (\<exists>d. ?E v d = Some i)" for i
      using out(1) by (force simp: image_iff)
    have pes: "i \<in> set (map snd pes) \<longleftrightarrow> (\<exists>s. s \<noteq> v \<and> ?E s v = Some i)" for i
    proof -
      have "i \<in> set (map snd pes) \<longleftrightarrow> (\<exists>s. (s, i) \<in> set pes)" by force
      then show ?thesis unfolding inc(1) p1v by auto
    qed
    show iff: "i \<in> set fw \<longleftrightarrow> i \<in> set (g_free_widx g) \<or> (\<exists>s d. ?E s d = Some i \<and> (s = v \<or> d = v))" for i
    proof -
      have "(\<exists>s d. ?E s d = Some i \<and> (s = v \<or> d = v)) \<longleftrightarrow>
          (\<exists>d. ?E v d = Some i) \<or> (\<exists>s. s \<noteq> v \<and> ?E s v = Some i)" by metis
      then show ?thesis unfolding fw_def set_append Un_iff ses pes by simp
    qed
    show "i \<in> set fw \<Longrightarrow> i < length (g_ws g)" for i
      unfolding iff using ok(7,10) by blast
    have "distinct (map snd ses)" "distinct (map snd pes)"
      using out(1,3) inc(1,3) ok(8) p1v
      by (auto simp: distinct_map inj_on_def split: if_splits)
    moreover have "set (map snd ses) \<inter> set (map snd pes) = {}" using ok(8) ses pes by blast
    moreover have "set (g_free_widx g) \<inter> (set (map snd ses) \<union> set (map snd pes)) = {}"
      using ok(7) ses pes by blast
    ultimately show "distinct fw" using ok(9) unfolding fw_def by auto
  qed
  have gs: "g_ws g' = g_ws g" "g_free_widx g' = fw" "g_edge_count g' = c" "length (g_succs g') = ?n"
    "length (g_preds g') = ?n" "g_is_free g' = (g_is_free g)[v := True]" "g_free_id g' = g_free_id g @ [v]"
    using s1(2) s2(2) p1(2) ok(1) by (simp_all add: g'_def preds2_def)
  have "graph_ok g'"
  proof (rule graph_okI)
    show "table_look (g_preds g') d s = edge_index g' s d" for s d by (simp add: ei p2) (simp add: g'_def p2)
    show "table_ok (g_succs g')" "table_ok (g_preds g')" using s2(3) p2(1) by (simp_all add: g'_def)
    show "edge_index g' s d = Some i \<Longrightarrow> live g' s \<and> live g' d \<and> i < length (g_ws g') \<and> i \<notin> set (g_free_widx g')" for s d i
    proof -
      assume "edge_index g' s d = Some i"
      then have e: "?E s d = Some i" "s \<noteq> v" "d \<noteq> v" by (simp_all add: ei without_def split: if_splits)
      then have "i \<notin> set fw" using ok(7) ok(8) unfolding fw(3) by blast
      then show ?thesis using ok(7) [OF e(1)] e(2,3) by (simp add: lv gs)
    qed
    show "edge_index g' s d = Some i \<Longrightarrow> edge_index g' s' d' = Some i \<Longrightarrow> s = s' \<and> d = d'" for s d s' d' i
      using ok(8) by (simp add: ei without_def split: if_splits)
    show "i \<in> set (g_free_widx g') \<Longrightarrow> i < length (g_ws g')" for i using fw(2) by (simp add: gs)
    show "u \<in> set (g_free_id g') \<longleftrightarrow> u < length (g_succs g') \<and> g_is_free g' ! u" for u
      using ok(2) ok(12) [of u] v(1) by (auto simp: gs(4,6,7) nth_list_update)
    show "distinct (g_free_id g')" using ok(11,12) v by (simp add: gs)
  qed (use ok fw(1) in \<open>simp_all add: gs ei c_def\<close>)
  moreover have "weight g' = without (weight g) v"
    by (intro ext) (simp add: weight_def ei gs without_def)
  ultimately show ?thesis using run lv gs(4) by (auto simp: graph_size_def)
qed

subsection \<open>Clearing\<close>

lemma clear_tables_spec:
  assumes "k + length fs \<le> length succs" "length preds = length succs" "table_ok succs" "table_ok preds"
  shows "\<exists>succs' preds'. clear_tables fs k succs preds = Some (succs', preds') \<and>
    length succs' = length succs \<and> length preds' = length succs \<and> table_ok succs' \<and> table_ok preds' \<and>
    (\<forall>s d. table_look succs' s d = (if k \<le> s \<and> s < k + length fs \<and> \<not> fs ! (s - k) then None else table_look succs s d)) \<and>
    (\<forall>s d. table_look preds' s d = (if k \<le> s \<and> s < k + length fs \<and> \<not> fs ! (s - k) then None else table_look preds s d))"
  using assms
proof (induction fs arbitrary: k succs preds)
  case (Cons f fs)
  have hd: "(k \<le> s \<and> s < k + length (f # fs) \<and> \<not> (f # fs) ! (s - k)) \<longleftrightarrow>
      s = k \<and> \<not> f \<or> k + 1 \<le> s \<and> s < (k + 1) + length fs \<and> \<not> fs ! (s - (k + 1))" for s
    by (cases s k rule: linorder_cases) (auto simp: nth_Cons')
  show ?case
  proof (cases f)
    case True
    obtain succs' preds' where "clear_tables fs (k + 1) succs preds = Some (succs', preds')"
      "length succs' = length succs" "length preds' = length succs" "table_ok succs'" "table_ok preds'"
      "\<And>s d. table_look succs' s d = (if k + 1 \<le> s \<and> s < (k + 1) + length fs \<and> \<not> fs ! (s - (k + 1)) then None else table_look succs s d)"
      "\<And>s d. table_look preds' s d = (if k + 1 \<le> s \<and> s < (k + 1) + length fs \<and> \<not> fs ! (s - (k + 1)) then None else table_look preds s d)"
      using Cons.IH [of "k + 1" succs preds] Cons.prems by auto
    then show ?thesis using True unfolding hd apply -
      apply (rule exI [of _ succs'])
      apply (rule exI [of _ preds'])
      apply simp
      done
  next
    case False
    obtain succs' preds' where t: "clear_tables fs (k + 1) (succs[k := []]) (preds[k := []]) = Some (succs', preds')"
      "length succs' = length succs" "length preds' = length succs" "table_ok succs'" "table_ok preds'"
      "\<And>s d. table_look succs' s d = (if k + 1 \<le> s \<and> s < (k + 1) + length fs \<and> \<not> fs ! (s - (k + 1)) then None
         else table_look (succs[k := []]) s d)"
      "\<And>s d. table_look preds' s d = (if k + 1 \<le> s \<and> s < (k + 1) + length fs \<and> \<not> fs ! (s - (k + 1)) then None
         else table_look (preds[k := []]) s d)"
      using Cons.IH [of "k + 1" "succs[k := []]" "preds[k := []]"] Cons.prems by (auto simp: table_ok_update)
    moreover have "clear_tables (f # fs) k succs preds = Some (succs', preds')"
      using False t(1) Cons.prems by simp
    ultimately show ?thesis
      using False unfolding hd apply -
      apply (rule exI [of _ succs'])
      apply (rule exI [of _ preds'])
      apply (auto simp: look_clear)
      done
  qed
qed auto

lemma clear_edges_spec:
  assumes "graph_ok g"
  shows "\<exists>g'. clear_edges g = Some g' \<and> graph_ok g' \<and> weight g' = (\<lambda>_ _. None) \<and> live g' = live g \<and>
    graph_size g' = graph_size g"
proof -
  note ok = graph_okD [OF assms]
  let ?E = "edge_index g"
  obtain succs preds where t: "clear_tables (g_is_free g) 0 (g_succs g) (g_preds g) = Some (succs, preds)"
    "length succs = length (g_succs g)" "length preds = length (g_succs g)" "table_ok succs" "table_ok preds"
    "\<And>s d. table_look succs s d = (if s < length (g_is_free g) \<and> \<not> g_is_free g ! s then None else table_look (g_succs g) s d)"
    "\<And>s d. table_look preds s d = (if s < length (g_is_free g) \<and> \<not> g_is_free g ! s then None else table_look (g_preds g) s d)"
    using clear_tables_spec [of 0 "g_is_free g" "g_succs g" "g_preds g"] ok by auto
  have none: "table_look succs s d = None" "table_look preds s d = None" for s d
  proof -
    have "?E s d = None" "?E d s = None" if "\<not> (s < length (g_succs g) \<and> \<not> g_is_free g ! s)"
      using ok(7) [of s d] ok(7) [of d s] that by (cases "?E s d"; cases "?E d s"; auto simp: live_def)+
    then show "table_look succs s d = None" "table_look preds s d = None"
      using ok(2,6) by (auto simp: t edge_index_def)
  qed
  define g' where "g' = g\<lparr>g_ws := [], g_free_widx := [], g_succs := succs, g_preds := preds, g_edge_count := 0\<rparr>"
  have ei: "edge_index g' = (\<lambda>_ _. None)" by (simp add: edge_index_def g'_def none fun_eq_iff)
  have lv: "live g' = live g" using t(2) by (simp add: live_def g'_def fun_eq_iff)
  have "graph_ok g'"
    by (rule graph_okI) (use ok t none in \<open>simp_all add: ei lv edge_set_def\<close>, simp_all add: g'_def)
  moreover have "weight g' = (\<lambda>_ _. None)" by (simp add: weight_def ei fun_eq_iff)
  moreover have "graph_size g' = graph_size g" using t(2) by (simp add: graph_size_def g'_def)
  moreover have "clear_edges g = Some g'" using t(1) by (simp add: clear_edges_def g'_def)
  ultimately show ?thesis using lv by blast
qed

subsection \<open>Iterators\<close>

lemma edge_refs_spec:
  "\<forall>(v, i)\<in>set es. i < length ws \<Longrightarrow> edge_refs ws es = Some (map (\<lambda>(v, i). (v, ws ! i)) es)"
  by (induction es) auto

text \<open>
  What an edge iterator returns for the edges \<open>f\<close> of a vertex: each edge once, in the order of
  the other end.
\<close>

definition lists_edges :: "(nat \<times> number) list \<Rightarrow> (nat \<Rightarrow> number option) \<Rightarrow> bool" where
  "lists_edges es f \<longleftrightarrow> distinct (map fst es) \<and> (\<forall>d w. (d, w) \<in> set es \<longleftrightarrow> f d = Some w)"

lemma lists_edges_map_of: "lists_edges es f \<Longrightarrow> map_of es = f"
  by (auto simp: lists_edges_def fun_eq_iff) (metis map_of_eq_Some_iff option.exhaust)

lemma table_refs:
  assumes "table_ok t" "s < length t" "\<And>d i. table_look t s d = Some i \<Longrightarrow> i < length ws"
  shows "\<exists>es. edge_refs ws (t ! s) = Some es \<and> map fst es = map fst (t ! s) \<and>
    lists_edges es (\<lambda>d. map_option ((!) ws) (table_look t s d))"
proof -
  note e = table_entries [OF assms(1,2)]
  have "edge_refs ws (t ! s) = Some (map (\<lambda>(v, i). (v, ws ! i)) (t ! s))"
    by (rule edge_refs_spec) (use e(1) assms(3) in auto)
  moreover have "map fst (map (\<lambda>(v, i). (v, ws ! i)) (t ! s)) = map fst (t ! s)" by (simp add: case_prod_beta comp_def)
  moreover have "(d, w) \<in> set (map (\<lambda>(v, i). (v, ws ! i)) (t ! s)) \<longleftrightarrow> map_option ((!) ws) (table_look t s d) = Some w" for d w
  proof -
    have "(d, w) \<in> set (map (\<lambda>(v, i). (v, ws ! i)) (t ! s)) \<longleftrightarrow> (\<exists>i. (d, i) \<in> set (t ! s) \<and> w = ws ! i)" by force
    then show ?thesis unfolding e(1) by auto
  qed
  ultimately show ?thesis using e(3) unfolding lists_edges_def by metis
qed

lemma e_succs_spec:
  assumes "graph_ok g" "s < graph_size g"
  shows "\<exists>es. e_succs g s = Some es \<and> succs_of g s = Some (map fst es) \<and> lists_edges es (weight g s)"
proof -
  note ok = graph_okD [OF assms(1)]
  have s: "s < length (g_succs g)" using assms(2) by (simp add: graph_size_def)
  obtain es where es: "edge_refs (g_ws g) (g_succs g ! s) = Some es" "map fst es = map fst (g_succs g ! s)"
    "lists_edges es (weight g s)"
    using table_refs [OF ok(4) s, of "g_ws g"] edge_indexE(3) [OF assms(1)]
    unfolding edge_index_def [symmetric] weight_def by blast
  have "e_succs g s = Some es" "succs_of g s = Some (map fst es)"
    using s es(1,2) by (simp_all add: e_succs_def succs_of_def smap_keys_def)
  then show ?thesis using es(3) by blast
qed

lemma e_preds_spec:
  assumes "graph_ok g" "d < graph_size g"
  shows "\<exists>es. e_preds g d = Some es \<and> preds_of g d = Some (map fst es) \<and> lists_edges es (\<lambda>s. weight g s d)"
proof -
  note ok = graph_okD [OF assms(1)]
  have d: "d < length (g_preds g)" using assms(2) ok(1) by (simp add: graph_size_def)
  have "table_look (g_preds g) d s = Some i \<Longrightarrow> i < length (g_ws g)" for s i
    using ok(6,7) by simp
  then obtain es where es: "edge_refs (g_ws g) (g_preds g ! d) = Some es" "map fst es = map fst (g_preds g ! d)"
    "lists_edges es (\<lambda>s. map_option ((!) (g_ws g)) (table_look (g_preds g) d s))"
    using table_refs [OF ok(5) d, of "g_ws g"] by blast
  have "e_preds g d = Some es" "preds_of g d = Some (map fst es)"
    using d es(1,2) by (simp_all add: e_preds_def preds_of_def smap_keys_def)
  moreover have "lists_edges es (\<lambda>s. weight g s d)" using es(3) unfolding ok(6) weight_def .
  ultimately show ?thesis by blast
qed

lemma live_from_spec:
  assumes "k + length fs \<le> 65536"
  shows "set (live_from k fs) = {v. k \<le> v \<and> v < k + length fs \<and> \<not> fs ! (v - k)}" "distinct (live_from k fs)"
proof -
  have both: "set (live_from k fs) = {v. k \<le> v \<and> v < k + length fs \<and> \<not> fs ! (v - k)} \<and> distinct (live_from k fs)"
    using assms
  proof (induction fs arbitrary: k)
    case (Cons f fs)
    have "{v. k \<le> v \<and> v < k + length (f # fs) \<and> \<not> (f # fs) ! (v - k)} =
        (if f then {} else {k}) \<union> {v. k + 1 \<le> v \<and> v < (k + 1) + length fs \<and> \<not> fs ! (v - (k + 1))}"
    proof (rule set_eqI)
      fix v
      show "v \<in> {v. k \<le> v \<and> v < k + length (f # fs) \<and> \<not> (f # fs) ! (v - k)} \<longleftrightarrow>
          v \<in> (if f then {} else {k}) \<union> {v. k + 1 \<le> v \<and> v < (k + 1) + length fs \<and> \<not> fs ! (v - (k + 1))}"
        by (cases v k rule: linorder_cases) (auto simp: nth_Cons')
    qed
    moreover have "k mod 2 ^ 16 = k" using Cons.prems by simp
    ultimately show ?case using Cons.IH [of "k + 1"] Cons.prems by auto
  qed auto
  then show "set (live_from k fs) = {v. k \<le> v \<and> v < k + length fs \<and> \<not> fs ! (v - k)}" "distinct (live_from k fs)"
    by auto
qed

lemma graph_verts_spec:
  assumes "graph_ok g"
  shows "\<exists>vs. graph_verts g = Some vs \<and> distinct vs \<and> (\<forall>v. v \<in> set vs \<longleftrightarrow> live g v)"
  using graph_okD(2,3) [OF assms] live_from_spec [of 0 "g_is_free g"]
  by (auto simp: graph_verts_def live_def)

subsection \<open>The graph is a partial map of weights\<close>

text \<open>C19: The sparse graph of \<open>graph.rs\<close> implements a partial map from pairs of vertices
  to weights.  On a graph that satisfies the representation invariant, none of the operations
  on live vertices panics and each keeps the invariant: setting an edge overwrites one entry
  of the map, updating one takes the minimum with the old weight, forgetting a vertex removes
  exactly the edges that touch it and makes it reusable, allocating a vertex returns one that
  was not live and changes no weight, looking up an edge reads the map, and the graph reports
  itself empty exactly when the map is.\<close>

theorem graph_refines_weights:
  assumes "graph_ok g"
  shows "(live g s \<and> live g d \<longrightarrow>
      (\<exists>g'. set_edge s w d g = Some g' \<and> graph_ok g' \<and> weight g' = with_edge (weight g) s w d) \<and>
      (\<exists>g'. update_edge s w d g = Some g' \<and> graph_ok g' \<and>
         weight g' = with_edge (weight g) s (tighter (weight g s d) w) d)) \<and>
    (live g s \<longrightarrow>
      (\<exists>g'. forget s g = Some g' \<and> graph_ok g' \<and> weight g' = without (weight g) s \<and>
         (\<forall>u. live g' u \<longleftrightarrow> live g u \<and> u \<noteq> s))) \<and>
    (graph_size g < 65535 \<longrightarrow>
      (\<exists>v g'. new_vertex g = Some (v, g') \<and> graph_ok g' \<and> weight g' = weight g \<and> \<not> live g v \<and>
         (\<forall>u. live g' u \<longleftrightarrow> u = v \<or> live g u))) \<and>
    (s < graph_size g \<longrightarrow> graph_lookup g s d = Some (weight g s d)) \<and>
    (graph_is_empty g \<longleftrightarrow> weight g = (\<lambda>_ _. None))"
proof (intro conjI impI)
  assume "live g s \<and> live g d"
  then show "\<exists>g'. set_edge s w d g = Some g' \<and> graph_ok g' \<and> weight g' = with_edge (weight g) s w d"
    "\<exists>g'. update_edge s w d g = Some g' \<and> graph_ok g' \<and>
         weight g' = with_edge (weight g) s (tighter (weight g s d) w) d"
    using set_edge_spec [OF assms] update_edge_spec [OF assms] by blast+
next
  show "\<exists>g'. forget s g = Some g' \<and> graph_ok g' \<and> weight g' = without (weight g) s \<and>
         (\<forall>u. live g' u \<longleftrightarrow> live g u \<and> u \<noteq> s)" if "live g s"
    using forget_spec [OF assms that] by blast
next
  show "\<exists>v g'. new_vertex g = Some (v, g') \<and> graph_ok g' \<and> weight g' = weight g \<and> \<not> live g v \<and>
         (\<forall>u. live g' u \<longleftrightarrow> u = v \<or> live g u)" if "graph_size g < 65535"
    using new_vertex_spec [OF assms] that by (auto simp: graph_size_def)
next
  show "graph_lookup g s d = Some (weight g s d)" if "s < graph_size g"
    by (rule graph_lookup_spec [OF assms that])
next
  show "graph_is_empty g \<longleftrightarrow> weight g = (\<lambda>_ _. None)"
  proof -
    have "g_edge_count g = card (edge_set (weight g))" "finite (edge_set (weight g))"
      using edge_set_finite [OF assms] graph_okD(13) [OF assms] by (simp_all add: edge_set_weight)
    then show ?thesis by (auto simp: graph_is_empty_def edge_set_def fun_eq_iff)
  qed
qed

text \<open>Two vertices and the edge from 0 to 1 of weight 7.\<close>

definition sample_graph :: graph where
  "sample_graph = \<lparr>g_preds = [[], [(0, 0)]], g_succs = [[(1, 0)], []], g_ws = [7], g_edge_count = 1,
     g_is_free = [False, False], g_free_id = [], g_free_widx = []\<rparr>"

lemma sample_graph_ok: "graph_ok sample_graph" "live sample_graph 0" "live sample_graph 1"
proof -
  obtain g where g: "grow_to 2 graph_new = Some g" "graph_ok g" "weight g = (\<lambda>_ _. None)" "\<forall>v. live g v \<longleftrightarrow> v < 2"
    using grow_fresh [of 2] by auto
  have "g = \<lparr>g_preds = [[], []], g_succs = [[], []], g_ws = [], g_edge_count = 0,
     g_is_free = [False, False], g_free_id = [], g_free_widx = []\<rparr>"
    using g(1) by (simp add: grow_to.simps graph_size_def graph_new_def new_vertex_def vec_pop_def)
  then have "add_edge 0 7 1 g = Some sample_graph"
    by (simp add: vec_pop_def add_edge_def smap_add_def sample_graph_def)
  then show "graph_ok sample_graph" using add_edge_spec [OF g(2), of 0 1 7] g(3,4) by auto
  show "live sample_graph 0" "live sample_graph 1" by (simp_all add: live_def sample_graph_def)
qed

theorem graph_refines_weights_witness:
  "(\<exists>g'. update_edge 0 5 1 sample_graph = Some g' \<and> graph_ok g' \<and> weight g' 0 1 = Some 5) \<and>
   (\<exists>g'. forget 0 sample_graph = Some g' \<and> graph_is_empty g')"
proof
  show "\<exists>g'. update_edge 0 5 1 sample_graph = Some g' \<and> graph_ok g' \<and> weight g' 0 1 = Some 5"
  proof -
    have "tighter (weight sample_graph 0 1) 5 = 5"
      by (simp add: tighter_def weight_def edge_index_def table_look_def sample_graph_def)
    then show ?thesis
      using graph_refines_weights [OF sample_graph_ok(1), of 0 1 5] sample_graph_ok(2,3) by auto
  qed
  show "\<exists>g'. forget 0 sample_graph = Some g' \<and> graph_is_empty g'"
    by (simp add: forget_def sample_graph_def sub_usize_def smap_remove_def bt_remove_def graph_is_empty_def)
qed

end
