(* ===== verification/Graph_Views.thy ===== *)
theory Graph_Views
  imports Dbm_Graph
begin

text \<open>
  \<open>src/crab/splitdbm/graph_views.rs\<close>: the trait \<open>ReadableGraph\<close> as a record of its methods,
  and the four ways to present a graph: as it is, under a permutation of the vertices, without
  one vertex, and with all edges reversed.  An iterator is the list it yields; it is built
  completely before it is used, so that a panic in the middle of one is a panic of the call.
  Proved here: every view lists exactly the edges of a partial map of weights, which is the
  contract the graph algorithms use.
\<close>

subsection \<open>The trait\<close>

record readable =
  rg_size :: nat
  rg_elem :: "nat \<Rightarrow> nat \<Rightarrow> bool option"
  rg_edge_val :: "nat \<Rightarrow> nat \<Rightarrow> number option"
  rg_lookup :: "nat \<Rightarrow> nat \<Rightarrow> number option option"
  rg_verts :: "nat list option"
  rg_succs :: "nat \<Rightarrow> nat list option"
  rg_preds :: "nat \<Rightarrow> nat list option"
  rg_e_succs :: "nat \<Rightarrow> (nat \<times> number) list option"
  rg_e_preds :: "nat \<Rightarrow> (nat \<times> number) list option"

definition adapt_view :: "graph \<Rightarrow> readable" where
  "adapt_view g = \<lparr>rg_size = graph_size g, rg_elem = graph_elem g, rg_edge_val = edge_val g,
     rg_lookup = graph_lookup g, rg_verts = graph_verts g, rg_succs = succs_of g, rg_preds = preds_of g,
     rg_e_succs = e_succs g, rg_e_preds = e_preds g\<rparr>"

subsection \<open>Permuted graphs\<close>

definition INVALID_VERT :: nat where
  "INVALID_VERT = 65535"

record graph_perm =
  gp_graph :: graph
  gp_perm :: "nat list"
  gp_inv :: "nat list"

fun invert_perm :: "nat \<Rightarrow> nat list \<Rightarrow> nat list \<Rightarrow> nat list option" where
  "invert_perm vi [] iv = Some iv"
| "invert_perm vi (pi # ps) iv =
     (if pi \<noteq> INVALID_VERT
      then do { old \<leftarrow> vec_get iv pi;
                assert_that (old = INVALID_VERT);
                iv1 \<leftarrow> vec_set pi (vi mod 2 ^ 16) iv;
                invert_perm (vi + 1) ps iv1 }
      else invert_perm (vi + 1) ps iv)"

definition graph_perm_new :: "nat list \<Rightarrow> graph \<Rightarrow> graph_perm option" where
  "graph_perm_new perm g =
     do { iv \<leftarrow> invert_perm 0 perm (replicate (graph_size g) INVALID_VERT);
          Some \<lparr>gp_graph = g, gp_perm = perm, gp_inv = iv\<rparr> }"

text \<open>\<open>perm_vert\<close>: the inner option is the vertex that has no image.\<close>

definition perm_vert :: "graph_perm \<Rightarrow> nat \<Rightarrow> nat option option" where
  "perm_vert p v = do { pv \<leftarrow> vec_get (gp_perm p) v; Some (if pv = INVALID_VERT then None else Some pv) }"

fun inv_verts :: "nat list \<Rightarrow> nat list \<Rightarrow> nat list option" where
  "inv_verts iv [] = Some []"
| "inv_verts iv (d # ds) =
     do { mapped \<leftarrow> vec_get iv d;
          rest \<leftarrow> inv_verts iv ds;
          Some (if mapped = INVALID_VERT then rest else mapped # rest) }"

definition map_verts :: "graph_perm \<Rightarrow> nat \<Rightarrow> (nat \<Rightarrow> nat list option) \<Rightarrow> nat list option" where
  "map_verts p v iter =
     do { pv \<leftarrow> perm_vert p v;
          (case pv of None \<Rightarrow> Some [] | Some pv \<Rightarrow> do { ds \<leftarrow> iter pv; inv_verts (gp_inv p) ds }) }"

fun inv_edges :: "nat list \<Rightarrow> (nat \<times> number) list \<Rightarrow> (nat \<times> number) list option" where
  "inv_edges iv [] = Some []"
| "inv_edges iv ((d, w) # es) =
     do { mapped \<leftarrow> vec_get iv d;
          rest \<leftarrow> inv_edges iv es;
          Some (if mapped = INVALID_VERT then rest else (mapped, w) # rest) }"

definition map_edges :: "graph_perm \<Rightarrow> nat \<Rightarrow> (nat \<Rightarrow> (nat \<times> number) list option) \<Rightarrow> (nat \<times> number) list option" where
  "map_edges p v iter =
     do { pv \<leftarrow> perm_vert p v;
          (case pv of None \<Rightarrow> Some [] | Some pv \<Rightarrow> do { es \<leftarrow> iter pv; inv_edges (gp_inv p) es }) }"

definition perm_elem :: "graph_perm \<Rightarrow> nat \<Rightarrow> nat \<Rightarrow> bool option" where
  "perm_elem p x y =
     do { px \<leftarrow> vec_get (gp_perm p) x;
          py \<leftarrow> vec_get (gp_perm p) y;
          let n = graph_size (gp_graph p) mod 2 ^ 16;
          if px \<ge> n \<or> py \<ge> n then Some False else graph_elem (gp_graph p) px py }"

definition perm_edge_val :: "graph_perm \<Rightarrow> nat \<Rightarrow> nat \<Rightarrow> number option" where
  "perm_edge_val p x y =
     do { px \<leftarrow> vec_get (gp_perm p) x; py \<leftarrow> vec_get (gp_perm p) y; edge_val (gp_graph p) px py }"

definition perm_lookup :: "graph_perm \<Rightarrow> nat \<Rightarrow> nat \<Rightarrow> number option option" where
  "perm_lookup p x y =
     do { px \<leftarrow> vec_get (gp_perm p) x;
          py \<leftarrow> vec_get (gp_perm p) y;
          let n = graph_size (gp_graph p) mod 2 ^ 16;
          if px \<ge> n \<or> py \<ge> n then Some None else graph_lookup (gp_graph p) px py }"

definition perm_view :: "graph_perm \<Rightarrow> readable" where
  "perm_view p = \<lparr>rg_size = length (gp_perm p), rg_elem = perm_elem p, rg_edge_val = perm_edge_val p,
     rg_lookup = perm_lookup p, rg_verts = Some [0..<length (gp_perm p) mod 2 ^ 16],
     rg_succs = (\<lambda>v. map_verts p v (succs_of (gp_graph p))),
     rg_preds = (\<lambda>v. map_verts p v (preds_of (gp_graph p))),
     rg_e_succs = (\<lambda>v. map_edges p v (e_succs (gp_graph p))),
     rg_e_preds = (\<lambda>v. map_edges p v (e_preds (gp_graph p)))\<rparr>"

subsection \<open>A graph without one vertex, and a graph reversed\<close>

definition sub_view :: "graph \<Rightarrow> nat \<Rightarrow> readable" where
  "sub_view g v_ex = \<lparr>rg_size = graph_size g,
     rg_elem = (\<lambda>x y. if x \<noteq> v_ex \<and> y \<noteq> v_ex then graph_elem g x y else Some False),
     rg_edge_val = edge_val g,
     rg_lookup = (\<lambda>x y. if x = v_ex \<or> y = v_ex then Some None else graph_lookup g x y),
     rg_verts = map_option (filter (\<lambda>v. v \<noteq> v_ex)) (graph_verts g),
     rg_succs = (\<lambda>v. map_option (filter (\<lambda>d. d \<noteq> v_ex)) (succs_of g v)),
     rg_preds = (\<lambda>v. map_option (filter (\<lambda>s. s \<noteq> v_ex)) (preds_of g v)),
     rg_e_succs = (\<lambda>v. map_option (filter (\<lambda>e. fst e \<noteq> v_ex)) (e_succs g v)),
     rg_e_preds = (\<lambda>v. map_option (filter (\<lambda>e. fst e \<noteq> v_ex)) (e_preds g v))\<rparr>"

definition rev_view :: "readable \<Rightarrow> readable" where
  "rev_view r = \<lparr>rg_size = rg_size r, rg_elem = (\<lambda>x y. rg_elem r y x), rg_edge_val = (\<lambda>x y. rg_edge_val r y x),
     rg_lookup = (\<lambda>x y. rg_lookup r y x), rg_verts = rg_verts r, rg_succs = rg_preds r, rg_preds = rg_succs r,
     rg_e_succs = rg_e_preds r, rg_e_preds = rg_e_succs r\<rparr>"

subsection \<open>The contract of a readable graph\<close>

text \<open>
  The record \<open>r\<close> presents the weights \<open>W\<close> on the vertices \<open>V\<close>.
\<close>

definition presents :: "readable \<Rightarrow> nat set \<Rightarrow> (nat \<Rightarrow> nat \<Rightarrow> number option) \<Rightarrow> bool" where
  "presents r V W \<longleftrightarrow>
     rg_size r \<le> 65535 \<and> (\<forall>v\<in>V. v < rg_size r) \<and>
     (\<exists>vs. rg_verts r = Some vs \<and> distinct vs \<and> set vs = V) \<and>
     (\<forall>s d w. W s d = Some w \<longrightarrow> s \<in> V \<and> d \<in> V \<and> rg_edge_val r s d = Some w) \<and>
     (\<forall>s\<in>V. \<forall>d\<in>V. rg_lookup r s d = Some (W s d) \<and> rg_elem r s d = Some (W s d \<noteq> None)) \<and>
     (\<forall>s\<in>V. \<exists>es. rg_e_succs r s = Some es \<and> rg_succs r s = Some (map fst es) \<and> lists_edges es (W s)) \<and>
     (\<forall>d\<in>V. \<exists>es. rg_e_preds r d = Some es \<and> rg_preds r d = Some (map fst es) \<and> lists_edges es (\<lambda>s. W s d))"

lemma presentsD:
  assumes "presents r V W"
  shows "rg_size r \<le> 65535" "\<And>v. v \<in> V \<Longrightarrow> v < rg_size r"
    "\<exists>vs. rg_verts r = Some vs \<and> distinct vs \<and> set vs = V"
    "\<And>s d w. W s d = Some w \<Longrightarrow> s \<in> V \<and> d \<in> V" "\<And>s d w. W s d = Some w \<Longrightarrow> rg_edge_val r s d = Some w"
    "\<And>s d. s \<in> V \<Longrightarrow> d \<in> V \<Longrightarrow> rg_lookup r s d = Some (W s d)"
    "\<And>s d. s \<in> V \<Longrightarrow> d \<in> V \<Longrightarrow> rg_elem r s d = Some (W s d \<noteq> None)"
    "\<And>s. s \<in> V \<Longrightarrow> \<exists>es. rg_e_succs r s = Some es \<and> rg_succs r s = Some (map fst es) \<and> lists_edges es (W s)"
    "\<And>d. d \<in> V \<Longrightarrow> \<exists>es. rg_e_preds r d = Some es \<and> rg_preds r d = Some (map fst es) \<and> lists_edges es (\<lambda>s. W s d)"
  using assms unfolding presents_def by blast+

lemma presents_adapt: "graph_ok g \<Longrightarrow> presents (adapt_view g) {v. live g v} (weight g)"
  using graph_verts_spec [of g] e_succs_spec [of g] e_preds_spec [of g] edge_val_spec [of g]
    graph_okD(3) [of g]
  unfolding presents_def adapt_view_def
  by (auto simp: live_def graph_size_def graph_lookup_spec graph_elem_spec dest: weight_live)

lemma presents_rev: "presents r V W \<Longrightarrow> presents (rev_view r) V (\<lambda>s d. W d s)"
  unfolding presents_def rev_view_def by auto

lemma lists_edges_filter:
  "lists_edges es f \<Longrightarrow> lists_edges (filter (\<lambda>e. fst e \<noteq> v) es) (\<lambda>d. if d = v then None else f d)"
  by (auto simp: lists_edges_def distinct_map inj_on_def)

lemma filter_keys: "filter (\<lambda>d. d \<noteq> v) (map fst es) = map fst (filter (\<lambda>e. fst e \<noteq> v) es)"
  by (induction es) auto

lemma live_graph_size: "live g v \<Longrightarrow> v < graph_size g"
  by (simp add: live_def graph_size_def)

lemma presents_sub:
  assumes "graph_ok g"
  shows "presents (sub_view g v) {u. live g u \<and> u \<noteq> v} (without (weight g) v)"
proof -
  have out: "\<exists>es. rg_e_succs (sub_view g v) s = Some es \<and> rg_succs (sub_view g v) s = Some (map fst es) \<and>
      lists_edges es (without (weight g) v s)" if "live g s" "s \<noteq> v" for s
  proof -
    have sz: "s < graph_size g" by (rule live_graph_size [OF that(1)])
    obtain es where "e_succs g s = Some es" "succs_of g s = Some (map fst es)" "lists_edges es (weight g s)"
      using e_succs_spec [OF assms sz] by blast
    moreover have "without (weight g) v s = (\<lambda>d. if d = v then None else weight g s d)"
      using that by (auto simp: without_def)
    ultimately show ?thesis by (simp add: sub_view_def filter_keys lists_edges_filter)
  qed
  have inc: "\<exists>es. rg_e_preds (sub_view g v) d = Some es \<and> rg_preds (sub_view g v) d = Some (map fst es) \<and>
      lists_edges es (\<lambda>s. without (weight g) v s d)" if "live g d" "d \<noteq> v" for d
  proof -
    have sz: "d < graph_size g" by (rule live_graph_size [OF that(1)])
    obtain es where "e_preds g d = Some es" "preds_of g d = Some (map fst es)" "lists_edges es (\<lambda>s. weight g s d)"
      using e_preds_spec [OF assms sz] by blast
    moreover have "(\<lambda>s. without (weight g) v s d) = (\<lambda>s. if s = v then None else weight g s d)"
      using that by (auto simp: without_def)
    ultimately show ?thesis by (simp add: sub_view_def filter_keys lists_edges_filter)
  qed
  obtain vs where vs: "graph_verts g = Some vs" "distinct vs" "\<And>u. u \<in> set vs \<longleftrightarrow> live g u"
    using graph_verts_spec [OF assms] by blast
  show ?thesis
    unfolding presents_def
  proof (intro conjI)
    show "rg_size (sub_view g v) \<le> 65535"
      using graph_okD(3) [OF assms] by (simp add: sub_view_def graph_size_def)
    show "\<forall>u\<in>{u. live g u \<and> u \<noteq> v}. u < rg_size (sub_view g v)"
      by (simp add: sub_view_def live_def graph_size_def)
    show "\<exists>vs. rg_verts (sub_view g v) = Some vs \<and> distinct vs \<and> set vs = {u. live g u \<and> u \<noteq> v}"
      using vs by (auto simp: sub_view_def)
    show "\<forall>s d w. without (weight g) v s d = Some w \<longrightarrow> s \<in> {u. live g u \<and> u \<noteq> v} \<and>
        d \<in> {u. live g u \<and> u \<noteq> v} \<and> rg_edge_val (sub_view g v) s d = Some w"
      using weight_live [OF assms] edge_val_spec [OF assms] by (auto simp: without_def sub_view_def split: if_splits)
    show "\<forall>s\<in>{u. live g u \<and> u \<noteq> v}. \<forall>d\<in>{u. live g u \<and> u \<noteq> v}.
        rg_lookup (sub_view g v) s d = Some (without (weight g) v s d) \<and>
        rg_elem (sub_view g v) s d = Some (without (weight g) v s d \<noteq> None)"
      using assms by (simp add: sub_view_def without_def live_def graph_size_def graph_lookup_spec graph_elem_spec)
  qed (use out inc in blast)+
qed

subsection \<open>The permuted view\<close>

definition perm_ok :: "graph_perm \<Rightarrow> bool" where
  "perm_ok p \<longleftrightarrow> graph_ok (gp_graph p) \<and> length (gp_perm p) \<le> 65535 \<and>
     length (gp_inv p) = graph_size (gp_graph p) \<and>
     (\<forall>x<length (gp_perm p). gp_perm p ! x \<noteq> INVALID_VERT \<longrightarrow>
        gp_perm p ! x < graph_size (gp_graph p) \<and> gp_inv p ! (gp_perm p ! x) = x) \<and>
     (\<forall>u<graph_size (gp_graph p). gp_inv p ! u \<noteq> INVALID_VERT \<longrightarrow>
        gp_inv p ! u < length (gp_perm p) \<and> gp_perm p ! (gp_inv p ! u) = u)"

definition perm_weight :: "graph_perm \<Rightarrow> nat \<Rightarrow> nat \<Rightarrow> number option" where
  "perm_weight p x y =
     (if x < length (gp_perm p) \<and> y < length (gp_perm p) \<and> gp_perm p ! x \<noteq> INVALID_VERT \<and> gp_perm p ! y \<noteq> INVALID_VERT
      then weight (gp_graph p) (gp_perm p ! x) (gp_perm p ! y) else None)"

lemma inv_edges_spec:
  assumes "\<forall>d\<in>fst ` set es. d < length iv"
  shows "\<exists>rs. inv_edges iv es = Some rs \<and> inv_verts iv (map fst es) = Some (map fst rs) \<and>
    (\<forall>x w. (x, w) \<in> set rs \<longleftrightarrow> (\<exists>d. (d, w) \<in> set es \<and> iv ! d = x \<and> x \<noteq> INVALID_VERT)) \<and>
    (distinct (map fst es) \<and> inj_on ((!) iv) {d. d < length iv \<and> iv ! d \<noteq> INVALID_VERT} \<longrightarrow> distinct (map fst rs))"
  using assms
proof (induction es)
  case (Cons e es)
  obtain d w where e: "e = (d, w)" by (cases e)
  obtain rs where rs: "inv_edges iv es = Some rs" "inv_verts iv (map fst es) = Some (map fst rs)"
    "\<forall>x w. (x, w) \<in> set rs \<longleftrightarrow> (\<exists>d. (d, w) \<in> set es \<and> iv ! d = x \<and> x \<noteq> INVALID_VERT)"
    "distinct (map fst es) \<and> inj_on ((!) iv) {d. d < length iv \<and> iv ! d \<noteq> INVALID_VERT} \<longrightarrow> distinct (map fst rs)"
    using Cons by auto
  have d: "d < length iv" using Cons.prems e by simp
  define rs' where "rs' = (if iv ! d = INVALID_VERT then rs else (iv ! d, w) # rs)"
  have "distinct (map fst rs')"
    if "distinct (map fst (e # es))" "inj_on ((!) iv) {d. d < length iv \<and> iv ! d \<noteq> INVALID_VERT}"
  proof -
    have "iv ! d \<notin> fst ` set rs" if "iv ! d \<noteq> INVALID_VERT"
    proof
      assume "iv ! d \<in> fst ` set rs"
      then obtain w' d' where "(d', w') \<in> set es" "iv ! d' = iv ! d" using rs(3) by fastforce
      moreover from this have "d' < length iv" using Cons.prems by force
      ultimately have "d' = d"
        using that d inj_onD [OF \<open>inj_on ((!) iv) {d. d < length iv \<and> iv ! d \<noteq> INVALID_VERT}\<close>, of d' d] by simp
      then show False using \<open>(d', w') \<in> set es\<close> \<open>distinct (map fst (e # es))\<close> e by force
    qed
    then show ?thesis using that rs(4) by (simp add: rs'_def)
  qed
  moreover have "inv_edges iv (e # es) = Some rs'" "inv_verts iv (map fst (e # es)) = Some (map fst rs')"
    using rs(1,2) d by (simp_all add: e rs'_def)
  moreover have "(x, v) \<in> set rs' \<longleftrightarrow> (\<exists>d. (d, v) \<in> set (e # es) \<and> iv ! d = x \<and> x \<noteq> INVALID_VERT)" for x v
    using rs(3) by (auto simp: e rs'_def)
  ultimately show ?case by blast
qed simp

lemma perm_edges:
  assumes "perm_ok p" "x < length (gp_perm p)"
    "\<And>u. u < graph_size (gp_graph p) \<Longrightarrow> \<exists>es. ie u = Some es \<and> iv u = Some (map fst es) \<and> lists_edges es (f u)"
    "\<And>u d w. f u d = Some w \<Longrightarrow> d < graph_size (gp_graph p)"
  shows "\<exists>es. map_edges p x ie = Some es \<and> map_verts p x iv = Some (map fst es) \<and>
    lists_edges es (\<lambda>y. if y < length (gp_perm p) \<and> gp_perm p ! x \<noteq> INVALID_VERT \<and> gp_perm p ! y \<noteq> INVALID_VERT
      then f (gp_perm p ! x) (gp_perm p ! y) else None)"
proof (cases "gp_perm p ! x = INVALID_VERT")
  case True
  then show ?thesis using assms(2) by (simp add: map_edges_def map_verts_def perm_vert_def lists_edges_def)
next
  case False
  let ?u = "gp_perm p ! x"
  have p: "length (gp_inv p) = graph_size (gp_graph p)"
    "\<And>x. x < length (gp_perm p) \<Longrightarrow> gp_perm p ! x \<noteq> INVALID_VERT \<Longrightarrow>
       gp_perm p ! x < graph_size (gp_graph p) \<and> gp_inv p ! (gp_perm p ! x) = x"
    "\<And>u. u < graph_size (gp_graph p) \<Longrightarrow> gp_inv p ! u \<noteq> INVALID_VERT \<Longrightarrow>
        gp_inv p ! u < length (gp_perm p) \<and> gp_perm p ! (gp_inv p ! u) = u"
    "length (gp_perm p) \<le> 65535" "graph_size (gp_graph p) \<le> 65535"
    using assms(1) graph_okD(3) by (auto simp: perm_ok_def graph_size_def)
  obtain es where es: "ie ?u = Some es" "iv ?u = Some (map fst es)" "lists_edges es (f ?u)"
    using assms(3) p(2) [OF assms(2) False] by blast
  have "\<forall>d\<in>fst ` set es. d < length (gp_inv p)"
    using es(3) assms(4) p(1) by (auto simp: lists_edges_def)
  from inv_edges_spec [OF this] obtain rs where rs: "inv_edges (gp_inv p) es = Some rs"
    "inv_verts (gp_inv p) (map fst es) = Some (map fst rs)"
    "\<And>x w. (x, w) \<in> set rs \<longleftrightarrow> (\<exists>d. (d, w) \<in> set es \<and> gp_inv p ! d = x \<and> x \<noteq> INVALID_VERT)"
    "distinct (map fst es) \<and> inj_on ((!) (gp_inv p)) {d. d < length (gp_inv p) \<and> gp_inv p ! d \<noteq> INVALID_VERT} \<longrightarrow>
      distinct (map fst rs)"
    by blast
  have "inj_on ((!) (gp_inv p)) {d. d < length (gp_inv p) \<and> gp_inv p ! d \<noteq> INVALID_VERT}"
    using p(3) unfolding inj_on_def p(1) by (metis (mono_tags, lifting) mem_Collect_eq)
  then have dist: "distinct (map fst rs)" using rs(4) es(3) by (simp add: lists_edges_def)
  have "(y, w) \<in> set rs \<longleftrightarrow> (if y < length (gp_perm p) \<and> gp_perm p ! x \<noteq> INVALID_VERT \<and> gp_perm p ! y \<noteq> INVALID_VERT
      then f ?u (gp_perm p ! y) else None) = Some w" for y w
  proof -
    have "(\<exists>d. f ?u d = Some w \<and> gp_inv p ! d = y \<and> y \<noteq> INVALID_VERT) \<longleftrightarrow>
        y < length (gp_perm p) \<and> gp_perm p ! y \<noteq> INVALID_VERT \<and> f ?u (gp_perm p ! y) = Some w" (is "?l \<longleftrightarrow> ?r")
    proof
      assume ?l
      then obtain d where d: "f ?u d = Some w" "gp_inv p ! d = y" "y \<noteq> INVALID_VERT" by blast
      then have "d < graph_size (gp_graph p)" using assms(4) by blast
      then show ?r using p(3) [of d] p(5) d by (auto simp: INVALID_VERT_def)
    next
      assume ?r
      then show ?l using p(2) [of y] p(4) by (intro exI [of _ "gp_perm p ! y"]) (auto simp: INVALID_VERT_def)
    qed
    then show ?thesis using es(3) False unfolding rs(3) by (auto simp: lists_edges_def)
  qed
  then show ?thesis
    using es(1,2) rs(1,2) dist False assms(2)
    by (simp add: map_edges_def map_verts_def perm_vert_def lists_edges_def)
qed

lemma presents_perm:
  assumes "perm_ok p"
  shows "presents (perm_view p) {..<length (gp_perm p)} (perm_weight p)"
proof -
  let ?g = "gp_graph p" and ?n = "length (gp_perm p)"
  have ok: "graph_ok ?g" "?n \<le> 65535" using assms by (auto simp: perm_ok_def)
  have img: "x < ?n \<Longrightarrow> gp_perm p ! x \<noteq> INVALID_VERT \<Longrightarrow> gp_perm p ! x < graph_size ?g" for x
    using assms by (simp add: perm_ok_def)
  then have img': "x < ?n \<Longrightarrow> gp_perm p ! x \<noteq> INVALID_VERT \<Longrightarrow> \<not> graph_size ?g \<le> gp_perm p ! x" for x
    by (simp add: not_le)
  have sz: "graph_size ?g mod 2 ^ 16 = graph_size ?g" "graph_size ?g \<le> INVALID_VERT"
    using graph_okD(3) [OF ok(1)] by (auto simp: graph_size_def INVALID_VERT_def)
  have lim: "weight ?g u d = Some w \<Longrightarrow> d < graph_size ?g" "weight ?g d u = Some w \<Longrightarrow> d < graph_size ?g" for u d w
    using weight_live [OF ok(1)] by (auto simp: live_def graph_size_def)
  show ?thesis
    unfolding presents_def
  proof (intro conjI)
    show "\<forall>s d w. perm_weight p s d = Some w \<longrightarrow>
        s \<in> {..<?n} \<and> d \<in> {..<?n} \<and> rg_edge_val (perm_view p) s d = Some w"
      using edge_val_spec [OF ok(1)] by (auto simp: perm_weight_def perm_view_def perm_edge_val_def split: if_splits)
    show "\<forall>s\<in>{..<?n}. \<forall>d\<in>{..<?n}. rg_lookup (perm_view p) s d = Some (perm_weight p s d) \<and>
        rg_elem (perm_view p) s d = Some (perm_weight p s d \<noteq> None)"
      using img sz by (auto simp: img' perm_view_def perm_lookup_def perm_elem_def perm_weight_def Let_def
          graph_lookup_spec [OF ok(1)] graph_elem_spec not_le)
    show "\<forall>s\<in>{..<?n}. \<exists>es. rg_e_succs (perm_view p) s = Some es \<and> rg_succs (perm_view p) s = Some (map fst es) \<and>
        lists_edges es (perm_weight p s)"
    proof
      fix s assume "s \<in> {..<?n}"
      then show "\<exists>es. rg_e_succs (perm_view p) s = Some es \<and> rg_succs (perm_view p) s = Some (map fst es) \<and>
          lists_edges es (perm_weight p s)"
        using perm_edges [OF assms, of s "e_succs ?g" "succs_of ?g" "weight ?g"] e_succs_spec [OF ok(1)] lim(1)
        by (auto simp: perm_view_def perm_weight_def [abs_def] cong: if_cong)
    qed
    show "\<forall>d\<in>{..<?n}. \<exists>es. rg_e_preds (perm_view p) d = Some es \<and> rg_preds (perm_view p) d = Some (map fst es) \<and>
        lists_edges es (\<lambda>s. perm_weight p s d)"
    proof
      fix d assume "d \<in> {..<?n}"
      then show "\<exists>es. rg_e_preds (perm_view p) d = Some es \<and> rg_preds (perm_view p) d = Some (map fst es) \<and>
          lists_edges es (\<lambda>s. perm_weight p s d)"
        using perm_edges [OF assms, of d "e_preds ?g" "preds_of ?g" "\<lambda>d s. weight ?g s d"] e_preds_spec [OF ok(1)] lim(2)
        by (auto simp: perm_view_def perm_weight_def [abs_def] conj_commute conj_left_commute cong: if_cong)
    qed
  qed (use ok(2) in \<open>auto simp: perm_view_def\<close>)
qed

text \<open>
  \<open>GraphPerm::new\<close> succeeds on an injective map into the vertices of the graph.
\<close>

lemma invert_perm_spec:
  assumes "vi + length ps \<le> 65535" "\<forall>u\<in>set ps. u \<noteq> INVALID_VERT \<longrightarrow> u < length iv \<and> iv ! u = INVALID_VERT"
    "distinct (filter (\<lambda>u. u \<noteq> INVALID_VERT) ps)"
  shows "\<exists>iv'. invert_perm vi ps iv = Some iv' \<and> length iv' = length iv \<and>
    (\<forall>x<length ps. ps ! x \<noteq> INVALID_VERT \<longrightarrow> iv' ! (ps ! x) = vi + x) \<and>
    (\<forall>u<length iv. u \<notin> set ps \<longrightarrow> iv' ! u = iv ! u)"
  using assms
proof (induction ps arbitrary: vi iv)
  case (Cons q ps)
  show ?case
  proof (cases "q = INVALID_VERT")
    case True
    then show ?thesis using Cons.IH [of "vi + 1" iv] Cons.prems
      by (auto simp: nth_Cons' gr0_conv_Suc)
  next
    case False
    let ?iv = "iv[q := vi mod 2 ^ 16]"
    have q: "q < length iv" "iv ! q = INVALID_VERT" "q \<notin> set ps" using Cons.prems False by auto
    have vi: "vi mod 2 ^ 16 = vi" using Cons.prems(1) by simp
    have side: "\<forall>u\<in>set ps. u \<noteq> INVALID_VERT \<longrightarrow> u < length ?iv \<and> ?iv ! u = INVALID_VERT"
      using Cons.prems(2) q(3) by (auto simp: nth_list_update)
    have dist: "distinct (filter (\<lambda>u. u \<noteq> INVALID_VERT) ps)" using Cons.prems(3) by (simp split: if_splits)
    obtain iv' where iv': "invert_perm (vi + 1) ps ?iv = Some iv'" "length iv' = length ?iv"
      "\<forall>x<length ps. ps ! x \<noteq> INVALID_VERT \<longrightarrow> iv' ! (ps ! x) = vi + 1 + x"
      "\<forall>u<length ?iv. u \<notin> set ps \<longrightarrow> iv' ! u = ?iv ! u"
      using Cons.IH [of "vi + 1" ?iv, OF _ side dist] Cons.prems(1) by auto
    have "iv' ! q = vi" using iv'(4) q vi by simp
    then have "\<forall>x<length (q # ps). (q # ps) ! x \<noteq> INVALID_VERT \<longrightarrow> iv' ! ((q # ps) ! x) = vi + x"
      using iv'(3) by (auto simp: nth_Cons' gr0_conv_Suc)
    moreover have "\<forall>u<length iv. u \<notin> set (q # ps) \<longrightarrow> iv' ! u = iv ! u" using iv'(4) by simp
    ultimately show ?thesis using iv'(1,2) q False by simp
  qed
qed simp

lemma graph_perm_new_spec:
  assumes "graph_ok g" "length perm \<le> 65535" "\<forall>u\<in>set perm. u \<noteq> INVALID_VERT \<longrightarrow> u < graph_size g"
    "distinct (filter (\<lambda>u. u \<noteq> INVALID_VERT) perm)"
  shows "\<exists>p. graph_perm_new perm g = Some p \<and> perm_ok p \<and> gp_graph p = g \<and> gp_perm p = perm"
proof -
  obtain iv where iv: "invert_perm 0 perm (replicate (graph_size g) INVALID_VERT) = Some iv" "length iv = graph_size g"
    "\<forall>x<length perm. perm ! x \<noteq> INVALID_VERT \<longrightarrow> iv ! (perm ! x) = x"
    "\<forall>u<graph_size g. u \<notin> set perm \<longrightarrow> iv ! u = INVALID_VERT"
    using invert_perm_spec [of 0 perm "replicate (graph_size g) INVALID_VERT"] assms by auto
  have "u < graph_size g \<Longrightarrow> iv ! u \<noteq> INVALID_VERT \<Longrightarrow> iv ! u < length perm \<and> perm ! (iv ! u) = u" for u
  proof -
    assume u: "u < graph_size g" "iv ! u \<noteq> INVALID_VERT"
    then obtain x where x: "x < length perm" "perm ! x = u" using iv(4) by (metis in_set_conv_nth)
    moreover have "u \<noteq> INVALID_VERT"
      using u(1) graph_okD(3) [OF assms(1)] by (auto simp: INVALID_VERT_def graph_size_def)
    ultimately have "iv ! u = x" using iv(3) by blast
    then show ?thesis using x by simp
  qed
  then show ?thesis
    using iv(1,2,3) assms(1-3) by (auto simp: graph_perm_new_def perm_ok_def)
qed

subsection \<open>The contract as a locale\<close>

text \<open>
  A way to present the values \<open>x\<close> that satisfy \<open>ok\<close> as readable graphs.  The laws are what the
  algorithms use of the trait.
\<close>

locale readable_graph =
  fixes view :: "'x \<Rightarrow> readable"
    and ok :: "'x \<Rightarrow> bool"
    and nodes :: "'x \<Rightarrow> nat set"
    and wt :: "'x \<Rightarrow> nat \<Rightarrow> nat \<Rightarrow> number option"
  assumes size_bound: "ok x \<Longrightarrow> rg_size (view x) \<le> 65535"
    and nodes_bound: "ok x \<Longrightarrow> v \<in> nodes x \<Longrightarrow> v < rg_size (view x)"
    and verts: "ok x \<Longrightarrow> \<exists>vs. rg_verts (view x) = Some vs \<and> distinct vs \<and> set vs = nodes x"
    and ends: "ok x \<Longrightarrow> wt x s d = Some w \<Longrightarrow> s \<in> nodes x \<and> d \<in> nodes x \<and> rg_edge_val (view x) s d = Some w"
    and look: "ok x \<Longrightarrow> s \<in> nodes x \<Longrightarrow> d \<in> nodes x \<Longrightarrow>
      rg_lookup (view x) s d = Some (wt x s d) \<and> rg_elem (view x) s d = Some (wt x s d \<noteq> None)"
    and out_edges: "ok x \<Longrightarrow> s \<in> nodes x \<Longrightarrow>
      \<exists>es. rg_e_succs (view x) s = Some es \<and> rg_succs (view x) s = Some (map fst es) \<and> lists_edges es (wt x s)"
    and in_edges: "ok x \<Longrightarrow> d \<in> nodes x \<Longrightarrow>
      \<exists>es. rg_e_preds (view x) d = Some es \<and> rg_preds (view x) d = Some (map fst es) \<and> lists_edges es (\<lambda>s. wt x s d)"
begin

lemma view_presents: "ok x \<Longrightarrow> presents (view x) (nodes x) (wt x)"
  unfolding presents_def using size_bound nodes_bound verts ends look out_edges in_edges by blast

text \<open>Both iterators of a vertex agree with lookup: an edge is listed at its two ends or not at all.\<close>

lemma listed_twice:
  assumes "ok x" "s \<in> nodes x" "d \<in> nodes x" "rg_e_succs (view x) s = Some es" "rg_e_preds (view x) d = Some ps"
  shows "(d, w) \<in> set es \<longleftrightarrow> (s, w) \<in> set ps" "(d, w) \<in> set es \<longleftrightarrow> rg_lookup (view x) s d = Some (Some w)"
proof -
  have es: "(d, w) \<in> set es \<longleftrightarrow> wt x s d = Some w"
    using out_edges [OF assms(1,2)] assms(4) by (auto simp: lists_edges_def)
  have ps: "(s, w) \<in> set ps \<longleftrightarrow> wt x s d = Some w"
    using in_edges [OF assms(1,3)] assms(5) by (auto simp: lists_edges_def)
  show "(d, w) \<in> set es \<longleftrightarrow> (s, w) \<in> set ps" using es ps by simp
  show "(d, w) \<in> set es \<longleftrightarrow> rg_lookup (view x) s d = Some (Some w)"
    using es look [OF assms(1-3)] by simp
qed

end

lemma presents_laws:
  assumes "\<And>x. ok x \<Longrightarrow> presents (view x) (nodes x) (wt x)"
  shows "readable_graph view ok nodes wt"
  by unfold_locales (use assms in \<open>unfold presents_def, blast+\<close>)

interpretation adapt: readable_graph adapt_view graph_ok "\<lambda>g. {v. live g v}" weight
  by (rule presents_laws) (rule presents_adapt)

interpretation sub: readable_graph "\<lambda>(g, v). sub_view g v" "\<lambda>(g, v). graph_ok g"
  "\<lambda>(g, v). {u. live g u \<and> u \<noteq> v}" "\<lambda>(g, v). without (weight g) v"
  by (rule presents_laws) (auto intro: presents_sub)

interpretation perm: readable_graph perm_view perm_ok "\<lambda>p. {..<length (gp_perm p)}" perm_weight
  by (rule presents_laws) (rule presents_perm)

interpretation rev: readable_graph "\<lambda>(r, V, W). rev_view r" "\<lambda>(r, V, W). presents r V W"
  "\<lambda>(r, V, W). V" "\<lambda>(r, V, W) s d. W d s"
  by (rule presents_laws) (auto intro: presents_rev)

end
