(* ===== verification/Weight_Heap.thy ===== *)
theory Weight_Heap
  imports Arrays Number
begin

text \<open>
  \<open>src/crab/splitdbm/heap.rs\<close>: the binary min-heap of vertex ids with a decrease-key
  operation.  The keys are not stored in the heap: they are read from the array of
  distances the caller owns and changes, so every operation here takes that array.  The
  \<open>indices\<close> array is the inverse of the heap array, with -1 for a vertex that is not queued.
  Proved here: under the heap invariant the operations do not panic, keep the invariant and
  are those of a priority queue with decrease-key, stated as a locale and interpreted on
  this heap.
\<close>

subsection \<open>The heap\<close>

record weight_heap =
  heap_array :: "nat list"
  heap_indices :: "int list"

definition heap_new :: weight_heap where
  "heap_new = \<lparr>heap_array = [], heap_indices = []\<rparr>"

definition heap_left :: "nat \<Rightarrow> nat" where
  "heap_left i = i * 2 + 1"

definition heap_right :: "nat \<Rightarrow> nat" where
  "heap_right i = (i + 1) * 2"

definition heap_parent :: "nat \<Rightarrow> nat" where
  "heap_parent i = (if i = 0 then 2 ^ 64 - 1 else i - 1) div 2"

text \<open>\<open>self.heap[i] = v; self.indices[v] = i\<close>.\<close>

definition heap_place :: "nat \<Rightarrow> nat \<Rightarrow> weight_heap \<Rightarrow> weight_heap option" where
  "heap_place i v h =
     do { a \<leftarrow> vec_set i v (heap_array h);
          ix \<leftarrow> vec_set v (int i) (heap_indices h);
          Some (h\<lparr>heap_array := a, heap_indices := ix\<rparr>) }"

function percolate_up_loop :: "number list \<Rightarrow> nat \<Rightarrow> nat \<Rightarrow> weight_heap \<Rightarrow> weight_heap option" where
  "percolate_up_loop dists x i h =
     (if i = 0 then heap_place i x h
      else do { dx \<leftarrow> vec_get dists x;
                v \<leftarrow> vec_get (heap_array h) (heap_parent i);
                dv \<leftarrow> vec_get dists v;
                if dx < dv
                then do { h1 \<leftarrow> heap_place i v h; percolate_up_loop dists x (heap_parent i) h1 }
                else heap_place i x h })"
  by pat_completeness auto
termination
  by (relation "measure (\<lambda>(_, _, i, _). i)") (auto simp: heap_parent_def)

definition percolate_up :: "number list \<Rightarrow> nat \<Rightarrow> weight_heap \<Rightarrow> weight_heap option" where
  "percolate_up dists i h =
     do { x \<leftarrow> vec_get (heap_array h) i; percolate_up_loop dists x i h }"

function percolate_down_loop :: "number list \<Rightarrow> nat \<Rightarrow> nat \<Rightarrow> nat \<Rightarrow> weight_heap \<Rightarrow> weight_heap option" where
  "percolate_down_loop dists x sz i h =
     (if heap_left i < sz
      then let ri = heap_right i; li = heap_left i in
           do { right_smaller \<leftarrow>
                  (if ri < sz
                   then do { r \<leftarrow> vec_get (heap_array h) ri; dr \<leftarrow> vec_get dists r;
                             l \<leftarrow> vec_get (heap_array h) li; dl \<leftarrow> vec_get dists l;
                             Some (dr < dl) }
                   else Some False);
                let child = (if right_smaller then ri else li);
                v \<leftarrow> vec_get (heap_array h) child;
                dv \<leftarrow> vec_get dists v;
                dx \<leftarrow> vec_get dists x;
                if dv \<ge> dx then heap_place i x h
                else do { h1 \<leftarrow> heap_place i v h; percolate_down_loop dists x sz child h1 } }
      else heap_place i x h)"
  by pat_completeness auto
termination
  by (relation "measure (\<lambda>(_, _, sz, i, _). sz - i)")
    (auto simp: heap_left_def heap_right_def split: if_splits)

definition percolate_down :: "number list \<Rightarrow> weight_heap \<Rightarrow> weight_heap option" where
  "percolate_down dists h =
     do { x \<leftarrow> vec_get (heap_array h) 0;
          percolate_down_loop dists x (length (heap_array h)) 0 h }"

definition heap_size :: "weight_heap \<Rightarrow> nat" where
  "heap_size h = length (heap_array h)"

definition heap_empty :: "weight_heap \<Rightarrow> bool" where
  "heap_empty h \<longleftrightarrow> heap_array h = []"

definition in_heap :: "nat \<Rightarrow> weight_heap \<Rightarrow> bool" where
  "in_heap n h \<longleftrightarrow> n < length (heap_indices h) \<and> heap_indices h ! n \<ge> 0"

definition heap_insert :: "number list \<Rightarrow> nat \<Rightarrow> weight_heap \<Rightarrow> weight_heap option" where
  "heap_insert dists n h =
     (let h1 = (if n \<ge> length (heap_indices h)
                then h\<lparr>heap_indices := vec_resize (n + 1) (- 1) (heap_indices h)\<rparr> else h)
      in do { assert_that (\<not> in_heap n h1);
              ix \<leftarrow> vec_set n (int (length (heap_array h1))) (heap_indices h1);
              i \<leftarrow> vec_get ix n;
              percolate_up dists (nat i) (h1\<lparr>heap_array := heap_array h1 @ [n], heap_indices := ix\<rparr>) })"

definition heap_remove_min :: "number list \<Rightarrow> weight_heap \<Rightarrow> (nat \<times> weight_heap) option" where
  "heap_remove_min dists h =
     do { x \<leftarrow> vec_get (heap_array h) 0;
          let z = last (heap_array h);
          a \<leftarrow> vec_set 0 z (heap_array h);
          ix \<leftarrow> vec_set z 0 (heap_indices h);
          ix \<leftarrow> vec_set x (- 1) ix;
          let h1 = h\<lparr>heap_array := butlast a, heap_indices := ix\<rparr>;
          h2 \<leftarrow> (if length (heap_array h1) > 1 then percolate_down dists h1 else Some h1);
          Some (x, h2) }"

definition heap_decrease :: "number list \<Rightarrow> nat \<Rightarrow> weight_heap \<Rightarrow> weight_heap option" where
  "heap_decrease dists n h =
     do { assert_that (in_heap n h);
          i \<leftarrow> vec_get (heap_indices h) n;
          percolate_up dists (nat i) h }"

declare percolate_up_loop.simps [simp del] percolate_down_loop.simps [simp del]

subsection \<open>The invariant\<close>

text \<open>
  The two arrays are inverse to each other, the queued vertices have a distance, and no
  vertex is nearer than its parent.
\<close>

definition heap_indexed :: "weight_heap \<Rightarrow> bool" where
  "heap_indexed h \<longleftrightarrow>
     (\<forall>p<length (heap_array h). heap_array h ! p < length (heap_indices h) \<and>
        heap_indices h ! (heap_array h ! p) = int p) \<and>
     (\<forall>n<length (heap_indices h). n \<notin> set (heap_array h) \<longrightarrow> heap_indices h ! n = - 1)"

definition heap_order :: "number list \<Rightarrow> nat list \<Rightarrow> bool" where
  "heap_order dists a \<longleftrightarrow>
     (\<forall>p<length a. 0 < p \<longrightarrow> dists ! (a ! heap_parent p) \<le> dists ! (a ! p))"

definition heap_ok :: "number list \<Rightarrow> weight_heap \<Rightarrow> bool" where
  "heap_ok dists h \<longleftrightarrow> heap_indexed h \<and> (\<forall>n\<in>set (heap_array h). n < length dists) \<and>
     heap_order dists (heap_array h)"

text \<open>The heap when the element held during a percolation is put into the hole.\<close>

definition heap_plug :: "nat \<Rightarrow> nat \<Rightarrow> weight_heap \<Rightarrow> weight_heap" where
  "heap_plug i x h = h\<lparr>heap_array := (heap_array h)[i := x], heap_indices := (heap_indices h)[x := int i]\<rparr>"

lemma heap_parent_less: "0 < p \<Longrightarrow> heap_parent p < p"
  by (auto simp: heap_parent_def)

lemma heap_parent_children: "0 < p \<Longrightarrow> heap_parent p = i \<longleftrightarrow> p = heap_left i \<or> p = heap_right i"
  by (auto simp: heap_parent_def heap_left_def heap_right_def; presburger)

lemma heap_place_plug:
  "i < length (heap_array h) \<Longrightarrow> x < length (heap_indices h) \<Longrightarrow> heap_place i x h = Some (heap_plug i x h)"
  by (simp add: heap_place_def heap_plug_def)

lemma heap_plug_simps [simp]:
  "heap_array (heap_plug i x h) = (heap_array h)[i := x]"
  "heap_indices (heap_plug i x h) = (heap_indices h)[x := int i]"
  by (simp_all add: heap_plug_def)

lemma heap_indexedD:
  assumes "heap_indexed h" "p < length (heap_array h)"
  shows "heap_array h ! p < length (heap_indices h)" "heap_indices h ! (heap_array h ! p) = int p"
  using assms by (auto simp: heap_indexed_def)

lemma heap_indexed_inj:
  "heap_indexed h \<Longrightarrow> p < length (heap_array h) \<Longrightarrow> q < length (heap_array h) \<Longrightarrow>
   heap_array h ! p = heap_array h ! q \<longleftrightarrow> p = q"
  by (metis heap_indexedD(2) nat_int)

lemma heap_indexed_distinct: "heap_indexed h \<Longrightarrow> distinct (heap_array h)"
  by (simp add: distinct_conv_nth heap_indexed_inj)

lemma in_heap_iff: "heap_indexed h \<Longrightarrow> in_heap n h \<longleftrightarrow> n \<in> set (heap_array h)"
  by (auto simp: in_heap_def heap_indexed_def in_set_conv_nth)

lemma heap_order_head:
  assumes "heap_order dists a" "p < length a"
  shows "dists ! (a ! 0) \<le> dists ! (a ! p)"
  using assms(2)
proof (induction p rule: less_induct)
  case (less p)
  show ?case
  proof (cases "p = 0")
    case False
    then have "dists ! (a ! 0) \<le> dists ! (a ! heap_parent p)"
      using less heap_parent_less [of p] by auto
    then show ?thesis using assms(1) less.prems False unfolding heap_order_def by fastforce
  qed simp
qed

subsection \<open>Percolation\<close>

text \<open>Moving the hole exchanges two elements of the plugged heap.\<close>

lemma plug_swap:
  assumes "heap_indexed (heap_plug i x h)" "i < length (heap_array h)" "j < length (heap_array h)" "i \<noteq> j"
    "v = heap_array h ! j"
  shows "heap_indexed (heap_plug j x (heap_plug i v h))" "v \<noteq> x" "v < length (heap_indices h)"
    "x < length (heap_indices h)"
    "heap_array (heap_plug j x (heap_plug i v h)) = (heap_array (heap_plug i x h))[i := v, j := x]"
    "set (heap_array (heap_plug j x (heap_plug i v h))) = set (heap_array (heap_plug i x h))"
proof -
  let ?H = "heap_plug i x h"
  have v: "heap_array ?H ! j = v" and x: "heap_array ?H ! i = x" using assms by auto
  show vx: "v \<noteq> x" using heap_indexed_inj [OF assms(1), of i j] assms(2-4) v x by auto
  show vl: "v < length (heap_indices h)" and xl: "x < length (heap_indices h)"
    using heap_indexedD(1) [OF assms(1), of i] heap_indexedD(1) [OF assms(1), of j] assms(2,3) v x by auto
  show eq: "heap_array (heap_plug j x (heap_plug i v h)) = (heap_array ?H)[i := v, j := x]" by simp
  have set: "set ((heap_array h)[i := v, j := x]) = set ((heap_array h)[i := x])"
    using set_swap [of i "heap_array ?H" j] assms(2,3) v x by (simp add: list_update_swap)
  then show "set (heap_array (heap_plug j x (heap_plug i v h))) = set (heap_array ?H)" by simp
  show "heap_indexed (heap_plug j x (heap_plug i v h))"
    unfolding heap_indexed_def
  proof (intro conjI allI impI)
    fix p assume p: "p < length (heap_array (heap_plug j x (heap_plug i v h)))"
    have "p \<noteq> i \<Longrightarrow> p \<noteq> j \<Longrightarrow> heap_array h ! p \<noteq> v \<and> heap_array h ! p \<noteq> x"
      using heap_indexed_inj [OF assms(1), of p i] heap_indexed_inj [OF assms(1), of p j] assms(2-4) p v x
      by auto
    then show "heap_array (heap_plug j x (heap_plug i v h)) ! p < length (heap_indices (heap_plug j x (heap_plug i v h)))"
      "heap_indices (heap_plug j x (heap_plug i v h)) ! (heap_array (heap_plug j x (heap_plug i v h)) ! p) = int p"
      using p assms(2-4) vl xl vx heap_indexedD [OF assms(1), of p]
      by (auto simp: nth_list_update split: if_splits)
  next
    fix n assume n: "n < length (heap_indices (heap_plug j x (heap_plug i v h)))"
      "n \<notin> set (heap_array (heap_plug j x (heap_plug i v h)))"
    then have "n \<notin> set (heap_array ?H)" using set by simp
    moreover have "n \<noteq> v" "n \<noteq> x"
      using \<open>n \<notin> set (heap_array ?H)\<close> assms(2,3) v x by (metis heap_plug_simps(1) length_list_update nth_mem)+
    ultimately show "heap_indices (heap_plug j x (heap_plug i v h)) ! n = - 1"
      using assms(1) n by (auto simp: heap_indexed_def)
  qed
qed

definition up_order :: "number list \<Rightarrow> nat list \<Rightarrow> nat \<Rightarrow> bool" where
  "up_order dists a i \<longleftrightarrow> (\<forall>p<length a. 0 < p \<longrightarrow>
     (p \<noteq> i \<longrightarrow> dists ! (a ! heap_parent p) \<le> dists ! (a ! p)) \<and>
     (heap_parent p = i \<longrightarrow> 0 < i \<longrightarrow> dists ! (a ! heap_parent i) \<le> dists ! (a ! p)))"

definition down_order :: "number list \<Rightarrow> nat list \<Rightarrow> nat \<Rightarrow> bool" where
  "down_order dists a i \<longleftrightarrow> (\<forall>p<length a. 0 < p \<longrightarrow>
     (heap_parent p \<noteq> i \<longrightarrow> dists ! (a ! heap_parent p) \<le> dists ! (a ! p)) \<and>
     (heap_parent p = i \<longrightarrow> 0 < i \<longrightarrow> dists ! (a ! heap_parent i) \<le> dists ! (a ! p)))"

lemma up_order_step:
  assumes "up_order dists a i" "0 < i" "i < length a" "dists ! (a ! i) < dists ! (a ! heap_parent i)"
  shows "up_order dists (a[i := a ! heap_parent i, heap_parent i := a ! i]) (heap_parent i)"
proof -
  let ?j = "heap_parent i"
  define b where "b = a[i := a ! heap_parent i, heap_parent i := a ! i]"
  have len: "length b = length a" by (simp add: b_def)
  have j: "?j < i" "?j < length a" using heap_parent_less [of i] assms(2,3) by auto
  have D: "\<And>p. p < length a \<Longrightarrow> 0 < p \<Longrightarrow> p \<noteq> i \<Longrightarrow> dists ! (a ! heap_parent p) \<le> dists ! (a ! p)"
    "\<And>p. p < length a \<Longrightarrow> 0 < p \<Longrightarrow> heap_parent p = i \<Longrightarrow> dists ! (a ! ?j) \<le> dists ! (a ! p)"
    using assms(1,2) unfolding up_order_def by auto
  have pj: "0 < ?j \<Longrightarrow> heap_parent ?j \<noteq> ?j \<and> heap_parent ?j \<noteq> i"
    using heap_parent_less [of ?j] j by auto
  have nth: "\<And>p. p < length a \<Longrightarrow> b ! p = (if p = ?j then a ! i else if p = i then a ! ?j else a ! p)"
    using j assms(3) by (auto simp: b_def nth_list_update)
  have par: "\<And>p. p < length a \<Longrightarrow> 0 < p \<Longrightarrow> heap_parent p < length a" using heap_parent_less by (meson order.strict_trans)
  have sib: "\<And>p. p < length a \<Longrightarrow> 0 < p \<Longrightarrow> heap_parent p = ?j \<Longrightarrow> dists ! (a ! i) < dists ! (a ! p) \<or> p = i"
    using D(1) assms(4) by fastforce
  show ?thesis
    unfolding up_order_def b_def [symmetric]
  proof (intro allI impI conjI)
    fix p assume p: "p < length b" "0 < p" "p \<noteq> ?j"
    then show "dists ! (b ! heap_parent p) \<le> dists ! (b ! p)"
      using D(1) [of p] D(2) [of p] sib [of p] assms(4) par [of p] heap_parent_less [of p]
      by (auto simp: nth len)
  next
    fix p assume p: "p < length b" "0 < p" "heap_parent p = ?j" "0 < ?j"
    then show "dists ! (b ! heap_parent ?j) \<le> dists ! (b ! p)"
      using D(1) [of ?j] D(1) [of p] j pj par [of ?j] heap_parent_less [of p] by (auto simp: nth len)
  qed
qed

lemma down_order_step:
  assumes "down_order dists a i" "c < length a" "0 < c" "heap_parent c = i"
    "dists ! (a ! c) < dists ! (a ! i)"
    "\<And>p. p < length a \<Longrightarrow> 0 < p \<Longrightarrow> heap_parent p = i \<Longrightarrow> dists ! (a ! c) \<le> dists ! (a ! p)"
  shows "down_order dists (a[i := a ! c, c := a ! i]) c"
proof -
  define b where "b = a[i := a ! c, c := a ! i]"
  have len: "length b = length a" by (simp add: b_def)
  have i: "i < c" "i < length a" using heap_parent_less [of c] assms(2-4) by auto
  have D: "\<And>p. p < length a \<Longrightarrow> 0 < p \<Longrightarrow> heap_parent p \<noteq> i \<Longrightarrow> dists ! (a ! heap_parent p) \<le> dists ! (a ! p)"
    "0 < i \<Longrightarrow> dists ! (a ! heap_parent i) \<le> dists ! (a ! c)"
    using assms(1-4) unfolding down_order_def by auto
  have nth: "\<And>p. p < length a \<Longrightarrow> b ! p = (if p = c then a ! i else if p = i then a ! c else a ! p)"
    using i assms(2) by (auto simp: b_def nth_list_update)
  have par: "\<And>p. p < length a \<Longrightarrow> 0 < p \<Longrightarrow> heap_parent p < length a" using heap_parent_less by (meson order.strict_trans)
  have pi: "0 < i \<Longrightarrow> heap_parent i \<noteq> i \<and> heap_parent i \<noteq> c"
    using heap_parent_less [of i] i by auto
  show ?thesis
    unfolding down_order_def b_def [symmetric]
  proof (intro allI impI conjI)
    fix p assume p: "p < length b" "0 < p" "heap_parent p \<noteq> c"
    show "dists ! (b ! heap_parent p) \<le> dists ! (b ! p)"
    proof (cases "heap_parent p = i")
      case True
      then show ?thesis using p assms(5,6) i heap_parent_less [of p] by (auto simp: nth len intro: order.strict_implies_order)
    next
      case False
      then have "p \<noteq> c" using assms(4) by auto
      then show ?thesis using False p D(1) [of p] D(2) par [of p] heap_parent_less [of p] pi by (auto simp: nth len)
    qed
  next
    fix p assume p: "p < length b" "0 < p" "heap_parent p = c" "0 < c"
    then show "dists ! (b ! heap_parent c) \<le> dists ! (b ! p)"
      using D(1) [of p] i assms(4) heap_parent_less [of p] by (auto simp: nth len)
  qed
qed

text \<open>What a percolation establishes, for a hole that is out of order in one direction.\<close>

definition percolated :: "number list \<Rightarrow> nat \<Rightarrow> nat \<Rightarrow> weight_heap \<Rightarrow> weight_heap option \<Rightarrow> bool" where
  "percolated dists i x h r \<longleftrightarrow>
     (\<exists>h'. r = Some h' \<and> heap_ok dists h' \<and> set (heap_array h') = set (heap_array (heap_plug i x h)))"

definition plug_ok :: "number list \<Rightarrow> nat \<Rightarrow> nat \<Rightarrow> weight_heap \<Rightarrow> bool" where
  "plug_ok dists i x h \<longleftrightarrow> i < length (heap_array h) \<and> heap_indexed (heap_plug i x h) \<and>
     (\<forall>n\<in>set (heap_array (heap_plug i x h)). n < length dists)"

lemma plug_okD:
  assumes "plug_ok dists i x h"
  shows "x < length (heap_indices h)" "x < length dists"
    "\<And>p. p < length (heap_array h) \<Longrightarrow> p \<noteq> i \<Longrightarrow> heap_array h ! p < length dists"
proof -
  let ?a = "heap_array (heap_plug i x h)"
  have i: "i < length ?a" "?a ! i = x" using assms by (auto simp: plug_ok_def)
  show "x < length (heap_indices h)"
    using assms heap_indexedD(1) [of "heap_plug i x h" i] i by (auto simp: plug_ok_def)
  show "x < length dists" using assms i nth_mem unfolding plug_ok_def by metis
  show "heap_array h ! p < length dists" if "p < length (heap_array h)" "p \<noteq> i" for p
  proof -
    have "?a ! p = heap_array h ! p" "p < length ?a" using that by auto
    then show ?thesis using assms nth_mem [of p ?a] unfolding plug_ok_def by metis
  qed
qed

lemma percolated_place:
  assumes "plug_ok dists i x h" "heap_order dists (heap_array (heap_plug i x h))"
  shows "percolated dists i x h (heap_place i x h)"
  using assms heap_place_plug [of i h x] plug_okD(1) [OF assms(1)]
  by (auto simp: percolated_def plug_ok_def heap_ok_def)

lemma plug_step:
  assumes "plug_ok dists i x h" "j < length (heap_array h)" "i \<noteq> j" "v = heap_array h ! j"
  shows "plug_ok dists j x (heap_plug i v h)" "heap_place i v h = Some (heap_plug i v h)"
    "set (heap_array (heap_plug j x (heap_plug i v h))) = set (heap_array (heap_plug i x h))"
proof -
  have sw: "heap_indexed (heap_plug j x (heap_plug i v h))" "v < length (heap_indices h)"
    "set (heap_array (heap_plug j x (heap_plug i v h))) = set (heap_array (heap_plug i x h))"
    using plug_swap [of i x h j v] assms unfolding plug_ok_def by blast+
  then show "plug_ok dists j x (heap_plug i v h)"
    "set (heap_array (heap_plug j x (heap_plug i v h))) = set (heap_array (heap_plug i x h))"
    using assms(1,2) unfolding plug_ok_def sw(3) by simp_all
  show "heap_place i v h = Some (heap_plug i v h)"
    using sw(2) assms(1) heap_place_plug unfolding plug_ok_def by simp
qed

lemma percolated_step:
  assumes "percolated dists j x (heap_plug i v h) r"
    "set (heap_array (heap_plug j x (heap_plug i v h))) = set (heap_array (heap_plug i x h))"
  shows "percolated dists i x h r"
  using assms unfolding percolated_def by simp

lemma percolate_up_loop_spec:
  assumes "plug_ok dists i x h" "up_order dists (heap_array (heap_plug i x h)) i"
  shows "percolated dists i x h (percolate_up_loop dists x i h)"
  using assms
proof (induction i arbitrary: h rule: less_induct)
  case (less i)
  let ?j = "heap_parent i"
  define a where "a = heap_array (heap_plug i x h)"
  have i: "i < length (heap_array h)" and len: "length a = length (heap_array h)"
    using less.prems by (simp_all add: plug_ok_def a_def)
  have stop: "percolated dists i x h (heap_place i x h)" if "0 < i \<Longrightarrow> dists ! (a ! ?j) \<le> dists ! x"
  proof (rule percolated_place [OF less.prems(1)])
    have "a ! i = x" using i by (simp add: a_def)
    then show "heap_order dists (heap_array (heap_plug i x h))"
      using less.prems(2) that unfolding a_def [symmetric] heap_order_def up_order_def by auto
  qed
  show ?case
  proof (cases "i = 0")
    case True then show ?thesis using stop by (simp add: percolate_up_loop.simps [of _ _ 0])
  next
    case False
    then have j: "?j < i" "?j < length (heap_array h)" using heap_parent_less i by (auto intro: order.strict_trans)
    define v where "v = heap_array h ! ?j"
    have dv: "v < length dists" and dx: "x < length dists"
      using plug_okD(2,3) [OF less.prems(1)] j by (auto simp: v_def)
    have at: "a ! ?j = v" "a ! i = x" using j i by (auto simp: v_def a_def)
    show ?thesis
    proof (cases "dists ! x < dists ! v")
      case False
      then show ?thesis using stop at dv dx j \<open>i \<noteq> 0\<close>
        by (subst percolate_up_loop.simps) (simp flip: v_def)
    next
      case True
      have ord: "up_order dists (heap_array (heap_plug ?j x (heap_plug i v h))) ?j"
        using up_order_step [of dists a i] less.prems(2) False i len True at by (simp add: a_def)
      have st: "plug_ok dists ?j x (heap_plug i v h)" "heap_place i v h = Some (heap_plug i v h)"
        "set (heap_array (heap_plug ?j x (heap_plug i v h))) = set (heap_array (heap_plug i x h))"
        using plug_step [OF less.prems(1) j(2) _ v_def] j(1) by simp_all
      have "percolated dists i x h (percolate_up_loop dists x ?j (heap_plug i v h))"
        by (rule percolated_step [OF less.IH [OF j(1) st(1) ord] st(3)])
      then show ?thesis using st(2) dv dx j False True
        by (subst percolate_up_loop.simps) (simp flip: v_def)
    qed
  qed
qed

lemma percolate_down_loop_spec:
  assumes "plug_ok dists i x h" "down_order dists (heap_array (heap_plug i x h)) i"
    "0 < i \<Longrightarrow> dists ! (heap_array h ! heap_parent i) \<le> dists ! x" "n = length (heap_array h)"
  shows "percolated dists i x h (percolate_down_loop dists x n i h)"
  using assms
proof (induction "n - i" arbitrary: i h rule: less_induct)
  case less
  let ?a = "heap_array (heap_plug i x h)"
  have i: "i < n" using less.prems by (simp add: plug_ok_def)
  note n = less.prems(4)
  have at: "?a ! p = (if p = i then x else heap_array h ! p)" if "p < n" for p
    using that n by simp
  have stop: "percolated dists i x h (heap_place i x h)"
    if c: "\<And>p. p < n \<Longrightarrow> 0 < p \<Longrightarrow> heap_parent p = i \<Longrightarrow> dists ! x \<le> dists ! (heap_array h ! p)"
  proof (rule percolated_place [OF less.prems(1)])
    show "heap_order dists ?a"
      unfolding heap_order_def
    proof (intro allI impI)
      fix p assume p: "p < length ?a" "0 < p"
      then show "dists ! (?a ! heap_parent p) \<le> dists ! (?a ! p)"
        using less.prems(2,3) c [of p] n heap_parent_less [of p]
        unfolding down_order_def by (cases "heap_parent p = i"; auto)
    qed
  qed
  have kids: "p = heap_left i \<or> p = heap_right i" if "0 < p" "heap_parent p = i" for p
    using that heap_parent_children by blast
  have par: "heap_parent (heap_left i) = i" "heap_parent (heap_right i) = i" "i < heap_left i" "heap_left i < heap_right i"
    by (auto simp: heap_parent_def heap_left_def heap_right_def)
  show ?case
  proof (cases "heap_left i < n")
    case False
    have "percolated dists i x h (heap_place i x h)"
    proof (rule stop)
      fix p assume p: "p < n" "0 < p" "heap_parent p = i"
      show "dists ! x \<le> dists ! (heap_array h ! p)"
        using kids [OF p(2,3)] p(1) False par(4) by linarith
    qed
    then show ?thesis using False by (subst percolate_down_loop.simps) simp
  next
    case left: True
    define rs where "rs \<longleftrightarrow> heap_right i < n \<and> dists ! (heap_array h ! heap_right i) < dists ! (heap_array h ! heap_left i)"
    define c where "c = (if rs then heap_right i else heap_left i)"
    define v where "v = heap_array h ! c"
    have c: "c < n" "i < c" "heap_parent c = i" using left par by (auto simp: c_def rs_def)
    have small: "dists ! v \<le> dists ! (heap_array h ! p)" if "p < n" "0 < p" "heap_parent p = i" for p
      using kids [OF that(2,3)] that(1) left by (auto simp: v_def c_def rs_def)
    have in_d: "heap_array h ! p < length dists" if "p < n" "i < p" for p
      using plug_okD(3) [OF less.prems(1)] that n by auto
    have dx: "x < length dists" using plug_okD(2) [OF less.prems(1)] .
    have unf: "percolate_down_loop dists x n i h =
      (if dists ! v \<ge> dists ! x then heap_place i x h
       else do { h1 \<leftarrow> heap_place i v h; percolate_down_loop dists x n c h1 })"
      using left in_d par c n dx
      by (subst percolate_down_loop.simps) (auto simp: rs_def v_def c_def Let_def)
    show ?thesis
    proof (cases "dists ! v \<ge> dists ! x")
      case True
      have "percolated dists i x h (heap_place i x h)"
        by (rule stop) (use small True in \<open>force intro: order.trans\<close>)
      then show ?thesis using unf True by simp
    next
      case False
      have ord: "down_order dists (heap_array (heap_plug c x (heap_plug i v h))) c"
        using down_order_step [of dists ?a i c] less.prems(2) False small at n i c by (auto simp: v_def)
      have "heap_array (heap_plug i v h) ! heap_parent c = v" using c i n by simp
      then have up: "dists ! (heap_array (heap_plug i v h) ! heap_parent c) \<le> dists ! x" using False by simp
      have st: "plug_ok dists c x (heap_plug i v h)" "heap_place i v h = Some (heap_plug i v h)"
        "set (heap_array (heap_plug c x (heap_plug i v h))) = set (heap_array (heap_plug i x h))"
        using plug_step [OF less.prems(1) _ _ v_def] c n by auto
      have "percolated dists c x (heap_plug i v h) (percolate_down_loop dists x n c (heap_plug i v h))"
        by (rule less.hyps [OF _ st(1) ord up]) (use c i n in auto)
      then show ?thesis using percolated_step [OF _ st(3)] st(2) unf False by simp
    qed
  qed
qed

subsection \<open>The operations\<close>

definition heap_elems :: "weight_heap \<Rightarrow> nat set" where
  "heap_elems h = set (heap_array h)"

lemma heap_plug_self:
  "heap_indexed h \<Longrightarrow> p < length (heap_array h) \<Longrightarrow> heap_plug p (heap_array h ! p) h = h"
  using heap_indexedD(2) [of h p] list_update_id [of "heap_indices h" "heap_array h ! p"]
  by (simp add: heap_plug_def)

lemma percolate_up_spec:
  assumes "heap_indexed h" "\<forall>n\<in>heap_elems h. n < length dists" "i < length (heap_array h)"
    "up_order dists (heap_array h) i"
  shows "\<exists>h'. percolate_up dists i h = Some h' \<and> heap_ok dists h' \<and> heap_elems h' = heap_elems h"
proof -
  have "plug_ok dists i (heap_array h ! i) h"
    using assms by (auto simp: plug_ok_def heap_plug_self heap_elems_def)
  from percolate_up_loop_spec [OF this] show ?thesis
    using assms by (auto simp: percolate_up_def percolated_def heap_plug_self heap_elems_def)
qed

lemma heap_order_up: "heap_order dists a \<Longrightarrow> up_order dists a i"
  unfolding heap_order_def up_order_def by (metis heap_parent_less order.strict_trans order.trans)

lemma heap_new_ok: "heap_ok dists heap_new" "heap_elems heap_new = {}"
  by (simp_all add: heap_new_def heap_ok_def heap_indexed_def heap_order_def heap_elems_def)

lemma heap_decrease_spec:
  assumes "heap_ok dists h" "n \<in> heap_elems h" "w \<le> dists ! n"
  shows "\<exists>h'. heap_decrease (dists[n := w]) n h = Some h' \<and> heap_ok (dists[n := w]) h' \<and>
    heap_elems h' = heap_elems h"
proof -
  let ?a = "heap_array h"
  have ix: "heap_indexed h" and ord: "heap_order dists ?a" and len: "\<forall>n\<in>heap_elems h. n < length dists"
    using assms(1) by (auto simp: heap_ok_def heap_elems_def)
  obtain i where i: "i < length ?a" "?a ! i = n"
    using assms(2) by (auto simp: heap_elems_def in_set_conv_nth)
  have at: "dists[n := w] ! (?a ! p) = (if p = i then w else dists ! (?a ! p))" if "p < length ?a" for p
    using heap_indexed_inj [OF ix that i(1)] i len assms(2) by (auto simp: nth_list_update)
  have par: "heap_parent p < length ?a" if "p < length ?a" "0 < p" for p
    using that heap_parent_less [of p] by simp
  have "up_order (dists[n := w]) ?a i"
    unfolding up_order_def
  proof (intro allI impI conjI)
    fix p assume p: "p < length ?a" "0 < p" "p \<noteq> i"
    then have "dists ! (?a ! heap_parent p) \<le> dists ! (?a ! p)" using ord by (simp add: heap_order_def)
    then show "dists[n := w] ! (?a ! heap_parent p) \<le> dists[n := w] ! (?a ! p)"
      using p assms(3) i(2) by (auto simp: at par)
  next
    fix p assume p: "p < length ?a" "0 < p" "heap_parent p = i" "0 < i"
    have "dists ! (?a ! heap_parent i) \<le> dists ! (?a ! i)" "dists ! (?a ! i) \<le> dists ! (?a ! p)"
      using ord p i by (auto simp: heap_order_def)
    then show "dists[n := w] ! (?a ! heap_parent i) \<le> dists[n := w] ! (?a ! p)"
      using p i heap_parent_less [of i] heap_parent_less [of p] by (auto simp: at par)
  qed
  moreover have "in_heap n h" "vec_get (heap_indices h) n = Some (int i)"
    using assms(2) i heap_indexedD [OF ix i(1)] in_heap_iff [OF ix] by (auto simp: heap_elems_def)
  ultimately show ?thesis
    using percolate_up_spec [OF ix _ i(1), of "dists[n := w]"] len by (simp add: heap_decrease_def)
qed

lemma heap_insert_spec:
  assumes "heap_ok dists h" "n \<notin> heap_elems h" "n < length dists"
  shows "\<exists>h'. heap_insert dists n h = Some h' \<and> heap_ok dists h' \<and> heap_elems h' = insert n (heap_elems h)"
proof -
  define ix where "ix = (if n \<ge> length (heap_indices h) then vec_resize (n + 1) (- 1) (heap_indices h)
    else heap_indices h)"
  define g where "g = h\<lparr>heap_indices := ix\<rparr>"
  define k where "k = h\<lparr>heap_array := heap_array h @ [n], heap_indices := ix[n := int (length (heap_array h))]\<rparr>"
  have hx: "heap_indexed h" and ord: "heap_order dists (heap_array h)"
    using assms(1) by (auto simp: heap_ok_def)
  have n: "n < length ix" "length (heap_indices h) \<le> length ix" by (auto simp: ix_def)
  have ext: "m < length ix \<Longrightarrow> ix ! m = (if m < length (heap_indices h) then heap_indices h ! m else - 1)" for m
    by (auto simp: ix_def vec_resize_nth)
  have g: "heap_indexed g"
    using hx n(2) unfolding heap_indexed_def g_def by (fastforce simp: ext)
  have notin: "\<not> in_heap n g" using in_heap_iff [OF g] assms(2) by (simp add: g_def heap_elems_def)
  have old: "p < length (heap_array h) \<Longrightarrow> heap_array h ! p \<noteq> n" for p
    using assms(2) by (auto simp: heap_elems_def)
  have k: "heap_indexed k"
    unfolding heap_indexed_def
  proof (intro conjI allI impI)
    fix p assume p: "p < length (heap_array k)"
    then show "heap_array k ! p < length (heap_indices k)" "heap_indices k ! (heap_array k ! p) = int p"
      using heap_indexedD [OF g, of p] old [of p] n by (auto simp: k_def g_def nth_append nth_list_update)
  next
    fix m assume "m < length (heap_indices k)" "m \<notin> set (heap_array k)"
    then show "heap_indices k ! m = - 1" using g by (auto simp: heap_indexed_def k_def g_def)
  qed
  have up: "up_order dists (heap_array k) (length (heap_array h))"
    unfolding up_order_def
  proof (intro allI impI conjI)
    fix p assume p: "p < length (heap_array k)" "0 < p" "p \<noteq> length (heap_array h)"
    then show "dists ! (heap_array k ! heap_parent p) \<le> dists ! (heap_array k ! p)"
      using ord heap_parent_less [of p] by (auto simp: heap_order_def k_def nth_append)
  next
    fix p assume p: "p < length (heap_array k)" "0 < p" "heap_parent p = length (heap_array h)"
    then have False using heap_parent_less [of p] by (simp add: k_def)
    then show "dists ! (heap_array k ! heap_parent (length (heap_array h))) \<le> dists ! (heap_array k ! p)" ..
  qed
  have el: "heap_elems k = insert n (heap_elems h)" by (simp add: k_def heap_elems_def)
  have "heap_insert dists n h = percolate_up dists (length (heap_array h)) k"
    using notin n by (simp add: heap_insert_def g_def k_def ix_def Let_def split: if_splits)
  moreover have "\<forall>m\<in>heap_elems k. m < length dists"
    using assms(1,3) el by (auto simp: heap_ok_def heap_elems_def)
  ultimately show ?thesis
    using percolate_up_spec [OF k _ _ up] el by (simp add: k_def)
qed

lemma heap_remove_min_spec:
  assumes "heap_ok dists h" "heap_elems h \<noteq> {}"
  shows "\<exists>x h'. heap_remove_min dists h = Some (x, h') \<and> heap_ok dists h' \<and> x \<in> heap_elems h \<and>
    heap_elems h' = heap_elems h - {x} \<and> (\<forall>y\<in>heap_elems h. dists ! x \<le> dists ! y)"
proof -
  let ?a = "heap_array h"
  have ix: "heap_indexed h" and ord: "heap_order dists ?a" and ne: "?a \<noteq> []"
    using assms by (auto simp: heap_ok_def heap_elems_def)
  define m where "m = length ?a - 1"
  have m: "m < length ?a" "length ?a = Suc m" using ne by (auto simp: m_def)
  define x where "x = ?a ! 0"
  define z where "z = ?a ! m"
  have z: "last ?a = z" using ne by (simp add: z_def m_def last_conv_nth)
  define k where "k = h\<lparr>heap_array := butlast (?a[0 := z]), heap_indices := (heap_indices h)[z := 0, x := - 1]\<rparr>"
  have xz: "x < length (heap_indices h)" "z < length (heap_indices h)"
    using heap_indexedD [OF ix] m ne by (auto simp: x_def z_def)
  have ka: "length (heap_array k) = m" "\<And>p. p < m \<Longrightarrow> heap_array k ! p = (if p = 0 then z else ?a ! p)"
    using m by (auto simp: k_def nth_butlast)
  have dist: "distinct ?a" by (rule heap_indexed_distinct [OF ix])
  have el: "heap_elems k = heap_elems h - {x}"
  proof -
    have "y \<in> set (heap_array k) \<longleftrightarrow> y \<in> set ?a \<and> y \<noteq> x" for y
    proof
      assume "y \<in> set (heap_array k)"
      then obtain p where p: "p < m" "y = heap_array k ! p" by (auto simp: in_set_conv_nth ka)
      show "y \<in> set ?a \<and> y \<noteq> x"
        using p ka(2) [OF p(1)] m heap_indexed_inj [OF ix, of _ 0] ne by (cases "p = 0") (auto simp: z_def x_def)
    next
      assume y: "y \<in> set ?a \<and> y \<noteq> x"
      then obtain p where p: "p < Suc m" "y = ?a ! p" "p \<noteq> 0" by (auto simp: in_set_conv_nth x_def m)
      show "y \<in> set (heap_array k)"
      proof (cases "p = m")
        case True
        then show ?thesis using p ka nth_mem [of 0 "heap_array k"] by (auto simp: z_def)
      next
        case False
        then show ?thesis using p ka nth_mem [of p "heap_array k"] by auto
      qed
    qed
    then show ?thesis by (auto simp: heap_elems_def)
  qed
  have kx: "heap_indexed k"
    unfolding heap_indexed_def
  proof (intro conjI allI impI)
    fix p assume p: "p < length (heap_array k)"
    have "heap_array k ! p \<noteq> x" using el p nth_mem [of p "heap_array k"] by (auto simp: heap_elems_def)
    moreover have "heap_array k ! p = z \<longleftrightarrow> p = 0"
      using p ka(2) [of p] heap_indexed_inj [OF ix, of p m] m by (auto simp: z_def ka(1))
    ultimately show "heap_array k ! p < length (heap_indices k)" "heap_indices k ! (heap_array k ! p) = int p"
      using p xz heap_indexedD [OF ix, of p] m ka(2) [of p] by (auto simp: k_def ka(1) nth_list_update)
  next
    fix n assume n: "n < length (heap_indices k)" "n \<notin> set (heap_array k)"
    then have "n = x \<or> n \<notin> set ?a" using el by (auto simp: heap_elems_def)
    moreover have "z \<in> set ?a" using m by (simp add: z_def)
    ultimately have "n = x \<or> n \<noteq> x \<and> n \<noteq> z \<and> heap_indices h ! n = - 1"
      using n ix by (auto simp: heap_indexed_def k_def)
    then show "heap_indices k ! n = - 1"
      using n xz by (auto simp: k_def)
  qed
  have down: "down_order dists (heap_array k) 0"
    unfolding down_order_def
  proof (intro allI impI conjI)
    fix p assume p: "p < length (heap_array k)" "0 < p" "heap_parent p \<noteq> 0"
    then show "dists ! (heap_array k ! heap_parent p) \<le> dists ! (heap_array k ! p)"
      using ord heap_parent_less [of p] m by (auto simp: heap_order_def ka)
  qed simp
  have in_d: "\<forall>n\<in>set (heap_array k). n < length dists"
    using el assms(1) by (auto simp: heap_ok_def heap_elems_def)
  obtain h' where h': "(if length (heap_array k) > 1 then percolate_down dists k else Some k) = Some h'"
    "heap_ok dists h'" "heap_elems h' = heap_elems k"
  proof (cases "1 < m")
    case True
    define y where "y = heap_array k ! 0"
    have self: "heap_plug 0 y k = k" using heap_plug_self [OF kx, of 0] True ka(1) by (simp add: y_def)
    have ok: "plug_ok dists 0 y k"
      using kx in_d True ka(1) by (simp only: plug_ok_def self) simp
    have "percolated dists 0 y k (percolate_down_loop dists y m 0 k)"
      by (rule percolate_down_loop_spec [OF ok]) (simp_all add: self down ka(1))
    then show thesis
      using that True ka(1) by (auto simp: percolated_def percolate_down_def self heap_elems_def y_def)
  next
    case False
    then have "heap_order dists (heap_array k)" using ka by (auto simp: heap_order_def)
    then show thesis using that [of k] False ka kx in_d by (auto simp: heap_ok_def)
  qed
  have "heap_remove_min dists h =
      Option.bind (if length (heap_array k) > 1 then percolate_down dists k else Some k) (\<lambda>h2. Some (x, h2))"
    using ne xz z unfolding heap_remove_min_def k_def x_def by (simp add: Let_def)
  then have "heap_remove_min dists h = Some (x, h')" using h'(1) by simp
  moreover have "x \<in> heap_elems h" "\<forall>y\<in>heap_elems h. dists ! x \<le> dists ! y"
    using ne heap_order_head [OF ord] by (auto simp: x_def heap_elems_def in_set_conv_nth)
  ultimately show ?thesis using h' el by auto
qed

lemma heap_frame: "heap_ok dists h \<Longrightarrow> n \<notin> heap_elems h \<Longrightarrow> heap_ok (dists[n := w]) h"
proof -
  assume h: "heap_ok dists h" "n \<notin> heap_elems h"
  have "dists[n := w] ! (heap_array h ! p) = dists ! (heap_array h ! p)" if "p < length (heap_array h)" for p
    using h(2) that by (metis heap_elems_def nth_list_update_neq nth_mem)
  then show ?thesis
    using h(1) heap_parent_less unfolding heap_ok_def heap_order_def
    by (metis length_list_update order.strict_trans)
qed

subsection \<open>The contract of a priority queue with decrease-key\<close>

text \<open>
  What the graph algorithms rely on.  The queue does not hold its keys: the caller may change
  the key of a vertex that is not queued, may lower the key of a queued one when it calls
  \<open>decrease\<close>, and \<open>remove_min\<close> then returns a queued vertex with the least key.
\<close>

locale decrease_key_queue =
  fixes ok :: "number list \<Rightarrow> 'q \<Rightarrow> bool"
    and elems :: "'q \<Rightarrow> nat set"
    and empty :: "'q"
    and is_empty :: "'q \<Rightarrow> bool"
    and member :: "nat \<Rightarrow> 'q \<Rightarrow> bool"
    and enqueue :: "number list \<Rightarrow> nat \<Rightarrow> 'q \<Rightarrow> 'q option"
    and remove_min :: "number list \<Rightarrow> 'q \<Rightarrow> (nat \<times> 'q) option"
    and decrease :: "number list \<Rightarrow> nat \<Rightarrow> 'q \<Rightarrow> 'q option"
  assumes empty_ok: "ok dists empty" "elems empty = {}"
    and is_empty_iff: "is_empty q \<longleftrightarrow> elems q = {}"
    and member_iff: "ok dists q \<Longrightarrow> member n q \<longleftrightarrow> n \<in> elems q"
    and in_range: "ok dists q \<Longrightarrow> n \<in> elems q \<Longrightarrow> n < length dists"
    and frame: "ok dists q \<Longrightarrow> n \<notin> elems q \<Longrightarrow> ok (dists[n := w]) q"
    and enqueue_ok: "ok dists q \<Longrightarrow> n \<notin> elems q \<Longrightarrow> n < length dists \<Longrightarrow>
      \<exists>q'. enqueue dists n q = Some q' \<and> ok dists q' \<and> elems q' = insert n (elems q)"
    and remove_min_ok: "ok dists q \<Longrightarrow> elems q \<noteq> {} \<Longrightarrow>
      \<exists>x q'. remove_min dists q = Some (x, q') \<and> ok dists q' \<and> x \<in> elems q \<and>
        elems q' = elems q - {x} \<and> (\<forall>y\<in>elems q. dists ! x \<le> dists ! y)"
    and decrease_ok: "ok dists q \<Longrightarrow> n \<in> elems q \<Longrightarrow> w \<le> dists ! n \<Longrightarrow>
      \<exists>q'. decrease (dists[n := w]) n q = Some q' \<and> ok (dists[n := w]) q' \<and> elems q' = elems q"
begin

text \<open>A vertex whose key was lowered, queued or not, is queued under its new key.\<close>

lemma requeue:
  assumes "ok dists q" "n < length dists" "n \<in> elems q \<Longrightarrow> w \<le> dists ! n"
  shows "\<exists>q'. (if member n q then decrease (dists[n := w]) n q else enqueue (dists[n := w]) n q) = Some q' \<and>
    ok (dists[n := w]) q' \<and> elems q' = insert n (elems q)"
proof (cases "n \<in> elems q")
  case True
  then show ?thesis using decrease_ok [OF assms(1) True assms(3)] member_iff [OF assms(1)] by auto
next
  case False
  then show ?thesis
    using enqueue_ok [OF frame [OF assms(1) False, of w] False] member_iff [OF assms(1)] assms(2) by auto
qed

text \<open>What is removed is never nearer than what was removed before it.\<close>

lemma remove_min_monotone:
  assumes "ok dists q" "remove_min dists q = Some (x, q')" "remove_min dists q' = Some (y, q'')"
    "elems q \<noteq> {}" "elems q' \<noteq> {}"
  shows "dists ! x \<le> dists ! y" "x \<noteq> y"
proof -
  have q': "ok dists q'" "elems q' = elems q - {x}" "\<forall>z\<in>elems q. dists ! x \<le> dists ! z"
    using remove_min_ok [OF assms(1,4)] assms(2) by auto
  have "y \<in> elems q'" using remove_min_ok [OF q'(1) assms(5)] assms(3) by auto
  then show "dists ! x \<le> dists ! y" "x \<noteq> y" using q'(2,3) by auto
qed

end

interpretation wh: decrease_key_queue heap_ok heap_elems heap_new heap_empty in_heap heap_insert
  heap_remove_min heap_decrease
proof
  fix dists :: "number list" and h :: weight_heap and n :: nat and w :: number
  show "heap_ok dists heap_new" "heap_elems heap_new = {}" by (rule heap_new_ok)+
  show "heap_empty h \<longleftrightarrow> heap_elems h = {}" by (simp add: heap_empty_def heap_elems_def)
  show "heap_ok dists h \<Longrightarrow> in_heap n h \<longleftrightarrow> n \<in> heap_elems h"
    by (simp add: heap_ok_def in_heap_iff heap_elems_def)
  show "heap_ok dists h \<Longrightarrow> n \<in> heap_elems h \<Longrightarrow> n < length dists"
    by (simp add: heap_ok_def heap_elems_def)
qed (blast intro: heap_frame heap_insert_spec heap_remove_min_spec heap_decrease_spec)+

text \<open>The heap of \<open>heap.rs\<close> is a priority queue with decrease-key.  From a heap whose
  invariant holds, none of the operations panics: inserting an absent vertex, lowering the
  key of a queued vertex and calling \<open>decrease\<close>, and removing the minimum each return a
  heap that satisfies the invariant again; the queued vertices change by exactly the vertex
  named, and the vertex removed has the least key of those that were queued.\<close>

theorem heap_operations:
  assumes "heap_ok dists h"
  shows "(n \<notin> heap_elems h \<and> n < length dists \<longrightarrow>
      (\<exists>h'. heap_insert dists n h = Some h' \<and> heap_ok dists h' \<and> heap_elems h' = insert n (heap_elems h))) \<and>
    (n \<in> heap_elems h \<and> w \<le> dists ! n \<longrightarrow>
      (\<exists>h'. heap_decrease (dists[n := w]) n h = Some h' \<and> heap_ok (dists[n := w]) h' \<and>
        heap_elems h' = heap_elems h)) \<and>
    (\<not> heap_empty h \<longrightarrow>
      (\<exists>x h'. heap_remove_min dists h = Some (x, h') \<and> heap_ok dists h' \<and> x \<in> heap_elems h \<and>
        heap_elems h' = heap_elems h - {x} \<and> (\<forall>y\<in>heap_elems h. dists ! x \<le> dists ! y)))"
  using wh.enqueue_ok [OF assms, of n] wh.decrease_ok [OF assms, of n w] wh.remove_min_ok [OF assms]
    wh.is_empty_iff [of h] by (intro conjI impI) (elim conjE; assumption | simp)+

text \<open>The heap of the keys 20, 5 and 30: vertex 1 leaves first, vertex 2 can be lowered to 1.\<close>

definition sample_heap :: weight_heap where
  "sample_heap = \<lparr>heap_array = [1, 0, 2], heap_indices = [1, 0, 2]\<rparr>"

lemma sample_heap_ok: "heap_ok [20, 5, 30] sample_heap"
  by (auto simp: heap_ok_def heap_indexed_def heap_order_def heap_parent_def sample_heap_def less_Suc_eq
      numeral_3_eq_3)

theorem heap_operations_witness:
  "heap_remove_min [20, 5, 30] sample_heap = Some (1, \<lparr>heap_array = [0, 2], heap_indices = [0, - 1, 1]\<rparr>) \<and>
   (\<exists>h'. heap_decrease [20, 5, 1] 2 sample_heap = Some h' \<and> heap_ok [20, 5, 1] h' \<and>
     heap_elems h' = {0, 1, 2})"
proof
  show "heap_remove_min [20, 5, 30] sample_heap = Some (1, \<lparr>heap_array = [0, 2], heap_indices = [0, - 1, 1]\<rparr>)"
    by code_simp
  have "2 \<in> heap_elems sample_heap \<and> (1::number) \<le> [20, 5, 30] ! 2"
    by (simp add: heap_elems_def sample_heap_def)
  then show "\<exists>h'. heap_decrease [20, 5, 1] 2 sample_heap = Some h' \<and> heap_ok [20, 5, 1] h' \<and>
     heap_elems h' = {0, 1, 2}"
    using heap_operations [OF sample_heap_ok, of 2 1]
    by (auto simp: heap_elems_def sample_heap_def)
qed

end
