(* ===== verification/Graph_Ops.thy ===== *)
theory Graph_Ops
  imports Graph_Views Weight_Heap
begin

text \<open>
  \<open>src/crab/splitdbm/graph_ops.rs\<close>, the operations on graphs of difference constraints that
  need no scratch space: the syntactic join, meet and widening, a batch of edge updates, and
  the closure over one edge.  An edge from \<open>s\<close> to \<open>d\<close> of weight \<open>w\<close> is the constraint
  \<open>d - s \<le> w\<close>.  Proved here: the syntactic operations are pointwise on the weight maps,
  and closing over an edge adds consequences only, so it keeps the set of solutions.
\<close>

subsection \<open>Syntactic operations\<close>

definition graph_join :: "readable \<Rightarrow> readable \<Rightarrow> graph option" where
  "graph_join l r =
     do { assert_that (rg_size l = rg_size r);
          g \<leftarrow> grow_to (rg_size l) graph_new;
          vs \<leftarrow> rg_verts l;
          for_each (\<lambda>s g. do {
            es \<leftarrow> rg_e_succs l s;
            for_each (\<lambda>(d, w) g. do {
              rw \<leftarrow> rg_lookup r s d;
              (case rw of Some rw \<Rightarrow> add_edge s (max w rw) d g | None \<Rightarrow> Some g) }) es g }) vs g }"

definition graph_meet :: "readable \<Rightarrow> readable \<Rightarrow> (graph \<times> bool) option" where
  "graph_meet l r =
     do { assert_that (rg_size l = rg_size r);
          vs \<leftarrow> rg_verts l;
          g \<leftarrow> copy_from vs (rg_e_succs l) (rg_size l);
          vs \<leftarrow> rg_verts r;
          g \<leftarrow> for_each (\<lambda>s g. do {
            es \<leftarrow> rg_e_succs r s;
            for_each (\<lambda>(d, w) g. do {
              pw \<leftarrow> graph_lookup g s d;
              (case pw of Some pw \<Rightarrow> if w < pw then write_edge s w d g else Some g
               | None \<Rightarrow> add_edge s w d g) }) es g }) vs g;
          Some (g, False) }"

text \<open>The search for a lost edge stops at the first one.\<close>

fun loses_edge :: "graph \<Rightarrow> nat \<Rightarrow> nat list \<Rightarrow> bool option" where
  "loses_edge g s [] = Some False"
| "loses_edge g s (d # ds) = do { e \<leftarrow> graph_elem g s d; if \<not> e then Some True else loses_edge g s ds }"

definition graph_widen :: "readable \<Rightarrow> readable \<Rightarrow> nat set \<Rightarrow> (graph \<times> nat set) option" where
  "graph_widen l r unstable =
     do { assert_that (rg_size l = rg_size r);
          g \<leftarrow> grow_to (rg_size l) graph_new;
          vs \<leftarrow> rg_verts r;
          for_each (\<lambda>s (g, unstable). do {
            es \<leftarrow> rg_e_succs r s;
            g \<leftarrow> for_each (\<lambda>(d, w) g. do {
              wl \<leftarrow> rg_lookup l s d;
              (case wl of Some wl \<Rightarrow> if w \<le> wl then add_edge s wl d g else Some g | None \<Rightarrow> Some g) }) es g;
            ds \<leftarrow> rg_succs l s;
            lost \<leftarrow> loses_edge g s ds;
            Some (g, if lost then insert s unstable else unstable) }) vs (g, unstable) }"

type_synonym edge_vector = "(nat \<times> nat \<times> number) list"

definition apply_delta :: "edge_vector \<Rightarrow> graph \<Rightarrow> graph option" where
  "apply_delta delta g = for_each (\<lambda>(s, d, w) g. set_edge s w d g) delta g"

subsection \<open>Closing over one edge\<close>

definition relax :: "nat \<Rightarrow> nat \<Rightarrow> number \<Rightarrow> graph \<Rightarrow> (bool \<times> graph) option" where
  "relax s d w g =
     do { pw \<leftarrow> graph_lookup g s d;
          (case pw of
             Some pw \<Rightarrow> if pw \<le> w then Some (False, g) else do { g1 \<leftarrow> write_edge s w d g; Some (True, g1) }
           | None \<Rightarrow> do { g1 \<leftarrow> add_edge s w d g; Some (True, g1) }) }"

definition close_over_edge :: "nat \<Rightarrow> nat \<Rightarrow> graph \<Rightarrow> graph option" where
  "close_over_edge ii jj g =
     do { assert_that (ii \<noteq> 0 \<and> jj \<noteq> 0);
          c \<leftarrow> edge_val g ii jj;
          preds \<leftarrow> e_preds g ii;
          let preds_ii = filter (\<lambda>e. fst e \<noteq> 0) preds;
          (g, src_dec) \<leftarrow> for_each (\<lambda>(se, se_val) (g, dec). do {
              wt_sij \<leftarrow> num_add se_val c;
              if se \<noteq> jj
              then do { (changed, g1) \<leftarrow> relax se jj wt_sij g;
                        Some (g1, if changed then dec @ [(se, se_val)] else dec) }
              else Some (g, dec) }) preds_ii (g, []);
          succs \<leftarrow> e_succs g jj;
          let succs_jj = filter (\<lambda>e. fst e \<noteq> 0) succs;
          (g, dest_dec) \<leftarrow> for_each (\<lambda>(de, de_val) (g, dec). do {
              wt_ijd \<leftarrow> num_add de_val c;
              if de \<noteq> ii
              then do { (changed, g1) \<leftarrow> relax ii de wt_ijd g;
                        Some (g1, if changed then dec @ [(de, de_val)] else dec) }
              else Some (g, dec) }) succs_jj (g, []);
          for_each (\<lambda>(se, p1) g. do {
            wt_sij \<leftarrow> num_add c p1;
            for_each (\<lambda>(de, p2) g. do {
              wt_sijd \<leftarrow> num_add wt_sij p2;
              (changed, g1) \<leftarrow> relax se de wt_sijd g;
              Some g1 }) dest_dec g }) src_dec g }"

subsection \<open>Solutions of a graph of constraints\<close>

definition solves :: "(nat \<Rightarrow> int) \<Rightarrow> (nat \<Rightarrow> nat \<Rightarrow> number option) \<Rightarrow> bool" where
  "solves \<sigma> W \<longleftrightarrow> (\<forall>s d w. W s d = Some w \<longrightarrow> \<sigma> d - \<sigma> s \<le> w)"

definition entails :: "(nat \<Rightarrow> nat \<Rightarrow> number option) \<Rightarrow> nat \<Rightarrow> nat \<Rightarrow> int \<Rightarrow> bool" where
  "entails W s d w \<longleftrightarrow> (\<forall>\<sigma>. solves \<sigma> W \<longrightarrow> \<sigma> d - \<sigma> s \<le> w)"

text \<open>The weights of \<open>W'\<close> are consequences of \<open>W\<close>, and no constraint of \<open>W\<close> got weaker.\<close>

definition tightens :: "(nat \<Rightarrow> nat \<Rightarrow> number option) \<Rightarrow> (nat \<Rightarrow> nat \<Rightarrow> number option) \<Rightarrow> bool" where
  "tightens W W' \<longleftrightarrow>
     (\<forall>s d w. W' s d = Some w \<longrightarrow> entails W s d w) \<and>
     (\<forall>s d w. W s d = Some w \<longrightarrow> (\<exists>w'. W' s d = Some w' \<and> w' \<le> w))"

lemma solves_edge: "solves \<sigma> W \<Longrightarrow> W s d = Some w \<Longrightarrow> \<sigma> d - \<sigma> s \<le> w"
  by (simp add: solves_def)

lemma entails_edge: "W s d = Some w \<Longrightarrow> entails W s d w"
  by (simp add: entails_def solves_def)

lemma entails_trans: "entails W s t w \<Longrightarrow> entails W t d v \<Longrightarrow> entails W s d (w + v)"
  unfolding entails_def by (smt (verit))

lemma tightens_solves: "tightens W W' \<Longrightarrow> solves \<sigma> W' \<longleftrightarrow> solves \<sigma> W"
  unfolding tightens_def solves_def entails_def by (meson order.trans)

lemma tightens_refl: "tightens W W"
  by (auto simp: tightens_def intro: entails_edge)

lemma tightens_trans: "tightens W W' \<Longrightarrow> tightens W' W'' \<Longrightarrow> tightens W W''"
proof -
  assume t: "tightens W W'" "tightens W' W''"
  then have "entails W' s d w \<Longrightarrow> entails W s d w" for s d w
    using tightens_solves [OF t(1)] by (simp add: entails_def)
  then show ?thesis using t unfolding tightens_def by (meson order.trans)
qed

lemma tightens_with_edge:
  assumes "entails W s d w" "\<And>v. W s d = Some v \<Longrightarrow> w \<le> v"
  shows "tightens W (with_edge W s w d)"
  using assms unfolding tightens_def by (auto intro: entails_edge)

lemma tightens_entails: "tightens W W' \<Longrightarrow> entails W s d w \<longleftrightarrow> entails W' s d w"
  by (simp add: entails_def tightens_solves)

lemma tightens_lower:
  "tightens W U \<Longrightarrow> \<exists>u. W s d = Some u \<and> u \<le> w \<Longrightarrow> \<exists>u. U s d = Some u \<and> u \<le> w"
  unfolding tightens_def by (meson order.trans)

lemma tightens_set:
  assumes "tightens W U" "entails W s d w" "\<And>v. W s d = Some v \<Longrightarrow> w \<le> v"
  shows "tightens W (with_edge U s w d)"
  unfolding tightens_def
proof (intro conjI allI impI)
  fix a b v assume "with_edge U s w d a b = Some v"
  then show "entails W a b v" using assms(1,2) by (cases "a = s \<and> b = d") (auto simp: tightens_def split: if_splits)
next
  fix a b v assume "W a b = Some v"
  then show "\<exists>w'. with_edge U s w d a b = Some w' \<and> w' \<le> v"
    using assms(1,3) by (cases "a = s \<and> b = d") (auto simp: tightens_def)
qed

lemma lists_edges_keys: "lists_edges es f \<Longrightarrow> set (map fst es) = {d. f d \<noteq> None}"
proof (rule set_eqI)
  fix d assume es: "lists_edges es f"
  have "d \<in> set (map fst es) \<longleftrightarrow> (\<exists>w. (d, w) \<in> set es)" by force
  also have "\<dots> \<longleftrightarrow> (\<exists>w. f d = Some w)" using es by (simp add: lists_edges_def)
  finally show "d \<in> set (map fst es) \<longleftrightarrow> d \<in> {d. f d \<noteq> None}" by auto
qed

subsection \<open>Updates of a working graph\<close>

text \<open>
  A working graph: the representation invariant holds, every vertex of \<open>V\<close> is live and the
  weights are \<open>W\<close>.
\<close>

definition holds_weights :: "graph \<Rightarrow> (nat \<Rightarrow> bool) \<Rightarrow> nat \<Rightarrow> (nat \<Rightarrow> nat \<Rightarrow> number option) \<Rightarrow> bool" where
  "holds_weights g L n W \<longleftrightarrow> graph_ok g \<and> live g = L \<and> graph_size g = n \<and> weight g = W"

lemma holdsD:
  assumes "holds_weights g L n W"
  shows "graph_ok g" "live g = L" "graph_size g = n" "weight g = W"
  using assms by (auto simp: holds_weights_def)

lemma holds_lookup: "holds_weights g L n W \<Longrightarrow> s < n \<Longrightarrow> graph_lookup g s d = Some (W s d)"
  by (auto simp: holds_weights_def graph_lookup_spec)

lemma holds_add:
  "holds_weights g L n W \<Longrightarrow> L s \<Longrightarrow> L d \<Longrightarrow> W s d = None \<Longrightarrow>
   \<exists>g'. add_edge s w d g = Some g' \<and> holds_weights g' L n (with_edge W s w d)"
  using add_edge_spec [of g s d w] by (auto simp: holds_weights_def)

lemma holds_write:
  "holds_weights g L n W \<Longrightarrow> W s d = Some v \<Longrightarrow>
   \<exists>g'. write_edge s w d g = Some g' \<and> holds_weights g' L n (with_edge W s w d)"
  using write_edge_spec [of g s d v w] by (auto simp: holds_weights_def)

lemma holds_set:
  "holds_weights g L n W \<Longrightarrow> L s \<Longrightarrow> L d \<Longrightarrow>
   \<exists>g'. set_edge s w d g = Some g' \<and> holds_weights g' L n (with_edge W s w d)"
  using set_edge_spec [of g s d w] by (auto simp: holds_weights_def)

lemma holds_update:
  "holds_weights g L n W \<Longrightarrow> L s \<Longrightarrow> L d \<Longrightarrow>
   \<exists>g'. update_edge s w d g = Some g' \<and> holds_weights g' L n (with_edge W s (tighter (W s d) w) d)"
  using update_edge_spec [of g s d w] by (auto simp: holds_weights_def)

lemma holds_fresh:
  "n \<le> 65535 \<Longrightarrow> \<exists>g. grow_to n graph_new = Some g \<and> holds_weights g (\<lambda>v. v < n) n (\<lambda>_ _. None)"
  using grow_fresh [of n] by (auto simp: holds_weights_def fun_eq_iff)

lemma holds_live: "holds_weights g L n W \<Longrightarrow> L v \<Longrightarrow> v < n"
  by (auto simp: holds_weights_def live_def graph_size_def)

lemma holds_elem: "holds_weights g L n W \<Longrightarrow> s < n \<Longrightarrow> graph_elem g s d = Some (W s d \<noteq> None)"
  by (auto simp: holds_weights_def graph_elem_spec)

subsection \<open>Visiting every edge of a readable graph\<close>

text \<open>
  The two nested loops of the syntactic operations visit every edge of a graph once.  If the
  step for the edge from \<open>s\<close> to \<open>d\<close> takes the weights \<open>U\<close> to \<open>F U\<close> at that pair only, then the loops
  take every pair that has an edge to its new weight and leave the others.
\<close>

definition visit_edges ::
  "(nat \<Rightarrow> (nat \<times> number) list option) \<Rightarrow> (nat \<Rightarrow> nat \<times> number \<Rightarrow> graph \<Rightarrow> graph option) \<Rightarrow> nat list \<Rightarrow> graph \<Rightarrow> graph option" where
  "visit_edges edges_of step vs g = for_each (\<lambda>s g. do { es \<leftarrow> edges_of s; for_each (step s) es g }) vs g"

lemma visit_row:
  assumes "holds_weights g L n U" "lists_edges es f"
    "\<And>d w g U. f d = Some w \<Longrightarrow> holds_weights g L n U \<Longrightarrow> U s d = U0 s d \<Longrightarrow>
       \<exists>g'. step (d, w) g = Some g' \<and> holds_weights g' L n (U(s := (U s)(d := F s d w)))"
    "U s = U0 s"
  shows "\<exists>g'. for_each step es g = Some g' \<and>
    holds_weights g' L n (U(s := (\<lambda>d. case f d of None \<Rightarrow> U s d | Some w \<Rightarrow> F s d w)))"
proof -
  let ?P = "\<lambda>pre g. holds_weights g L n (U(s := (\<lambda>d. if d \<in> fst ` set pre then F s d (the (f d)) else U s d)))"
  have "\<exists>t. for_each step es g = Some t \<and> ?P es t"
  proof (rule for_each_total)
    show "?P [] g" using assms(1) by simp
  next
    fix pre x rest g assume xs: "es = pre @ x # rest" and P: "?P pre g"
    obtain d w where x: "x = (d, w)" by (cases x)
    have fd: "f d = Some w" using assms(2) xs x by (auto simp: lists_edges_def)
    have nd: "d \<notin> fst ` set pre" using assms(2) xs x by (auto simp: lists_edges_def)
    obtain g' where g': "step (d, w) g = Some g'" and h: "holds_weights g' L n
        ((U(s := (\<lambda>d. if d \<in> fst ` set pre then F s d (the (f d)) else U s d)))(s :=
          ((U(s := (\<lambda>d. if d \<in> fst ` set pre then F s d (the (f d)) else U s d))) s)(d := F s d w)))"
      using assms(3) [OF fd P] nd assms(4) by auto
    have "(U(s := (\<lambda>d. if d \<in> fst ` set pre then F s d (the (f d)) else U s d)))(s :=
          ((U(s := (\<lambda>d. if d \<in> fst ` set pre then F s d (the (f d)) else U s d))) s)(d := F s d w)) =
        U(s := (\<lambda>d. if d \<in> fst ` set (pre @ [x]) then F s d (the (f d)) else U s d))"
      using fd by (auto simp: fun_eq_iff x)
    then show "\<exists>t. step x g = Some t \<and> ?P (pre @ [x]) t" using g' h x by simp
  qed
  moreover have "(\<lambda>d. if d \<in> fst ` set es then F s d (the (f d)) else U s d) =
      (\<lambda>d. case f d of None \<Rightarrow> U s d | Some w \<Rightarrow> F s d w)"
  proof
    fix d
    show "(if d \<in> fst ` set es then F s d (the (f d)) else U s d) = (case f d of None \<Rightarrow> U s d | Some w \<Rightarrow> F s d w)"
    proof (cases "f d")
      case None
      then have "d \<notin> fst ` set es" using assms(2) by (auto simp: lists_edges_def)
      then show ?thesis using None by simp
    next
      case (Some w)
      then have "(d, w) \<in> set es" using assms(2) by (auto simp: lists_edges_def)
      then have "d \<in> fst ` set es" by force
      then show ?thesis using Some by simp
    qed
  qed
  ultimately show ?thesis by simp
qed

lemma visit_edges_spec:
  assumes "presents r V W" "rg_verts r = Some vs" "holds_weights g L n U0"
    "\<And>s d w g U. W s d = Some w \<Longrightarrow> holds_weights g L n U \<Longrightarrow> U s d = U0 s d \<Longrightarrow>
       \<exists>g'. step s (d, w) g = Some g' \<and> holds_weights g' L n (U(s := (U s)(d := F s d w)))"
  shows "\<exists>g'. visit_edges (rg_e_succs r) step vs g = Some g' \<and>
    holds_weights g' L n (\<lambda>s d. case W s d of None \<Rightarrow> U0 s d | Some w \<Rightarrow> F s d w)"
proof -
  have vs: "distinct vs" "set vs = V" using presentsD(3) [OF assms(1)] assms(2) by auto
  let ?row = "\<lambda>s d. case W s d of None \<Rightarrow> U0 s d | Some w \<Rightarrow> F s d w"
  let ?P = "\<lambda>pre g. holds_weights g L n (\<lambda>s. if s \<in> set pre then ?row s else U0 s)"
  have "\<exists>t. visit_edges (rg_e_succs r) step vs g = Some t \<and> ?P vs t"
    unfolding visit_edges_def
  proof (rule for_each_total)
    show "?P [] g" using assms(3) by simp
  next
    fix pre s rest g assume xs: "vs = pre @ s # rest" and P: "?P pre g"
    have s: "s \<in> V" "s \<notin> set pre" using xs vs by auto
    obtain es where es: "rg_e_succs r s = Some es" "lists_edges es (W s)"
      using presentsD(8) [OF assms(1) s(1)] by blast
    have U: "(\<lambda>s. if s \<in> set pre then ?row s else U0 s) s = U0 s" using s(2) by simp
    obtain g' where g': "for_each (step s) es g = Some g'" and h: "holds_weights g' L n
        ((\<lambda>s. if s \<in> set pre then ?row s else U0 s)(s := (\<lambda>d. case W s d of None \<Rightarrow> (\<lambda>s. if s \<in> set pre then ?row s else U0 s) s d | Some w \<Rightarrow> F s d w)))"
      using visit_row [OF P es(2), where step = "step s" and F = F and ?U0.0 = U0, OF assms(4) U] by blast
    have "(\<lambda>s. if s \<in> set pre then ?row s else U0 s)(s := (\<lambda>d. case W s d of None \<Rightarrow> (\<lambda>s. if s \<in> set pre then ?row s else U0 s) s d | Some w \<Rightarrow> F s d w)) =
        (\<lambda>s'. if s' \<in> set (pre @ [s]) then ?row s' else U0 s')"
      using s(2) by (auto simp: fun_eq_iff)
    then show "\<exists>t. (do { es \<leftarrow> rg_e_succs r s; for_each (step s) es g }) = Some t \<and> ?P (pre @ [s]) t"
      using g' h es(1) by simp
  qed
  moreover have "(\<lambda>s. if s \<in> set vs then ?row s else U0 s) = ?row"
  proof
    fix s
    show "(if s \<in> set vs then ?row s else U0 s) = ?row s"
    proof (cases "s \<in> V")
      case False
      then have "\<And>d. W s d = None" using presentsD(4) [OF assms(1)] by (meson option.exhaust)
      then show ?thesis using vs(2) False by (auto simp: fun_eq_iff)
    qed (simp add: vs(2))
  qed
  ultimately show ?thesis by simp
qed

text \<open>The weights of the three syntactic operations.\<close>

definition join_weight :: "number option \<Rightarrow> number option \<Rightarrow> number option" where
  "join_weight a b = (case (a, b) of (Some v, Some w) \<Rightarrow> Some (max v w) | _ \<Rightarrow> None)"

definition meet_weight :: "number option \<Rightarrow> number option \<Rightarrow> number option" where
  "meet_weight a b = (case (a, b) of (Some v, Some w) \<Rightarrow> Some (min v w) | (Some v, None) \<Rightarrow> Some v | (None, b) \<Rightarrow> b)"

definition widen_weight :: "number option \<Rightarrow> number option \<Rightarrow> number option" where
  "widen_weight a b = (case (a, b) of (Some v, Some w) \<Rightarrow> if w \<le> v then Some v else None | _ \<Rightarrow> None)"

text \<open>Two readable graphs on the same vertices, as the views of an aligned pair are.\<close>

definition aligned :: "readable \<Rightarrow> readable \<Rightarrow> nat \<Rightarrow>
  (nat \<Rightarrow> nat \<Rightarrow> number option) \<Rightarrow> (nat \<Rightarrow> nat \<Rightarrow> number option) \<Rightarrow> bool" where
  "aligned l r n Wl Wr \<longleftrightarrow> presents l {..<n} Wl \<and> presents r {..<n} Wr \<and> rg_size l = n \<and> rg_size r = n"

lemma alignedD:
  assumes "aligned l r n Wl Wr"
  shows "presents l {..<n} Wl" "presents r {..<n} Wr" "rg_size l = n" "rg_size r = n" "n \<le> 65535"
  using assms presentsD(1) unfolding aligned_def by blast+

lemma graph_join_spec:
  assumes "aligned l r n Wl Wr"
  shows "\<exists>g. graph_join l r = Some g \<and> holds_weights g (\<lambda>v. v < n) n (\<lambda>s d. join_weight (Wl s d) (Wr s d))"
proof -
  note al = alignedD [OF assms]
  obtain g where g: "grow_to n graph_new = Some g" "holds_weights g (\<lambda>v. v < n) n (\<lambda>_ _. None)"
    using holds_fresh [OF al(5)] by blast
  obtain vs where vs: "rg_verts l = Some vs" using presentsD(3) [OF al(1)] by blast
  define step where "step = (\<lambda>s (d, w) g. do {
      rw \<leftarrow> rg_lookup r s d;
      (case rw of Some rw \<Rightarrow> add_edge s (max w rw) d g | None \<Rightarrow> Some g) })"
  obtain g' where g': "visit_edges (rg_e_succs l) step vs g = Some g'"
    "holds_weights g' (\<lambda>v. v < n) n
      (\<lambda>s d. case Wl s d of None \<Rightarrow> None | Some w \<Rightarrow> map_option (max w) (Wr s d))"
  proof (rule exE [OF visit_edges_spec [OF al(1) vs g(2), of step "\<lambda>s d w. map_option (max w) (Wr s d)"]])
    fix s d w g U
    assume W: "Wl s d = Some w" and h: "holds_weights g (\<lambda>v. v < n) n U" "U s d = None"
    have sd: "s < n" "d < n" using presentsD(4) [OF al(1) W] by auto
    show "\<exists>g'. step s (d, w) g = Some g' \<and>
        holds_weights g' (\<lambda>v. v < n) n (U(s := (U s)(d := map_option (max w) (Wr s d))))"
    proof (cases "Wr s d")
      case None
      have "U(s := (U s)(d := None)) = U" using h(2) by (metis fun_upd_triv)
      then show ?thesis using None h presentsD(6) [OF al(2), of s d] sd by (simp add: step_def)
    next
      case (Some v)
      then show ?thesis
        using holds_add [OF h(1) _ _ h(2), of "max w v"] presentsD(6) [OF al(2), of s d] sd by (simp add: step_def)
    qed
  qed auto
  moreover have "(\<lambda>s d. case Wl s d of None \<Rightarrow> None | Some w \<Rightarrow> map_option (max w) (Wr s d)) =
      (\<lambda>s d. join_weight (Wl s d) (Wr s d))"
    by (auto simp: join_weight_def fun_eq_iff split: option.splits)
  ultimately show ?thesis
    using g(1) vs al(3,4) by (simp add: graph_join_def visit_edges_def step_def)
qed

lemma graph_meet_spec:
  assumes "aligned l r n Wl Wr"
  shows "\<exists>g. graph_meet l r = Some (g, False) \<and>
    holds_weights g (\<lambda>v. v < n) n (\<lambda>s d. meet_weight (Wl s d) (Wr s d))"
proof -
  note al = alignedD [OF assms]
  obtain g where g: "grow_to n graph_new = Some g" "holds_weights g (\<lambda>v. v < n) n (\<lambda>_ _. None)"
    using holds_fresh [OF al(5)] by blast
  obtain ls where ls: "rg_verts l = Some ls" using presentsD(3) [OF al(1)] by blast
  obtain rs where rs: "rg_verts r = Some rs" using presentsD(3) [OF al(2)] by blast
  obtain g1 where g1: "visit_edges (rg_e_succs l) (\<lambda>s (d, w) g. add_edge s w d g) ls g = Some g1"
    "holds_weights g1 (\<lambda>v. v < n) n (\<lambda>s d. case Wl s d of None \<Rightarrow> None | Some w \<Rightarrow> Some w)"
  proof (rule exE [OF visit_edges_spec [OF al(1) ls g(2), of "\<lambda>s (d, w) g. add_edge s w d g" "\<lambda>s d w. Some w"]])
    fix s d w g U
    assume W: "Wl s d = Some w" and h: "holds_weights g (\<lambda>v. v < n) n U" "U s d = None"
    have sd: "s < n" "d < n" using presentsD(4) [OF al(1) W] by auto
    show "\<exists>g'. (case (d, w) of (d, w) \<Rightarrow> \<lambda>g. add_edge s w d g) g = Some g' \<and>
        holds_weights g' (\<lambda>v. v < n) n (U(s := (U s)(d := Some w)))"
      using holds_add [OF h(1) _ _ h(2), of w] sd by simp
  qed auto
  define step where "step = (\<lambda>s (d, w) g. do {
      pw \<leftarrow> graph_lookup g s d;
      (case pw of Some pw \<Rightarrow> if w < pw then write_edge s w d g else Some g
       | None \<Rightarrow> add_edge s w d g) })"
  have W1: "(\<lambda>s d. case Wl s d of None \<Rightarrow> None | Some w \<Rightarrow> Some w) = Wl"
    by (auto simp: fun_eq_iff split: option.splits)
  obtain g2 where g2: "visit_edges (rg_e_succs r) step rs g1 = Some g2"
    "holds_weights g2 (\<lambda>v. v < n) n (\<lambda>s d. case Wr s d of None \<Rightarrow> Wl s d | Some w \<Rightarrow> Some (tighter (Wl s d) w))"
  proof (rule exE [OF visit_edges_spec [OF al(2) rs g1(2)[unfolded W1], of step "\<lambda>s d w. Some (tighter (Wl s d) w)"]])
    fix s d w g U
    assume W: "Wr s d = Some w" and h: "holds_weights g (\<lambda>v. v < n) n U" "U s d = Wl s d"
    have sd: "s < n" "d < n" using presentsD(4) [OF al(2) W] by auto
    show "\<exists>g'. step s (d, w) g = Some g' \<and>
        holds_weights g' (\<lambda>v. v < n) n (U(s := (U s)(d := Some (tighter (Wl s d) w))))"
    proof (cases "Wl s d")
      case None
      then show ?thesis using holds_add [OF h(1), of s d w] holds_lookup [OF h(1) sd(1), of d] h(2) sd
        by (simp add: step_def tighter_def)
    next
      case (Some v)
      have same: "U(s := (U s)(d := Some v)) = U" using h(2) Some by (metis fun_upd_triv)
      show ?thesis
        using holds_write [OF h(1), of s d v w] holds_lookup [OF h(1) sd(1), of d] h Some same
        by (simp add: step_def tighter_def min_def)
    qed
  qed auto
  moreover have "(\<lambda>s d. case Wr s d of None \<Rightarrow> Wl s d | Some w \<Rightarrow> Some (tighter (Wl s d) w)) =
      (\<lambda>s d. meet_weight (Wl s d) (Wr s d))"
    by (auto simp: meet_weight_def tighter_def fun_eq_iff split: option.splits)
  ultimately show ?thesis
    using g(1) g1(1) ls rs al(3,4)
    by (simp add: graph_meet_def copy_from_def visit_edges_def step_def)
qed

lemma loses_edge_spec:
  assumes "holds_weights g L n U" "s < n"
  shows "loses_edge g s ds = Some (\<exists>d\<in>set ds. U s d = None)"
  by (induction ds) (auto simp: holds_elem [OF assms])

lemma graph_widen_spec:
  assumes "aligned l r n Wl Wr"
  shows "\<exists>g. graph_widen l r unstable = Some (g, unstable \<union>
      {s. \<exists>d. Wl s d \<noteq> None \<and> widen_weight (Wl s d) (Wr s d) = None}) \<and>
    holds_weights g (\<lambda>v. v < n) n (\<lambda>s d. widen_weight (Wl s d) (Wr s d))"
proof -
  note al = alignedD [OF assms]
  let ?U = "\<lambda>s d. widen_weight (Wl s d) (Wr s d)"
  let ?lost = "\<lambda>s. \<exists>d. Wl s d \<noteq> None \<and> ?U s d = None"
  obtain g where g: "grow_to n graph_new = Some g" "holds_weights g (\<lambda>v. v < n) n (\<lambda>_ _. None)"
    using holds_fresh [OF al(5)] by blast
  obtain vs where vs: "rg_verts r = Some vs" "distinct vs" "set vs = {..<n}" using presentsD(3) [OF al(2)] by blast
  let ?P = "\<lambda>pre (g, u). holds_weights g (\<lambda>v. v < n) n (\<lambda>s d. if s \<in> set pre then ?U s d else None) \<and>
      u = unstable \<union> {s \<in> set pre. ?lost s}"
  let ?body = "\<lambda>s (g, unstable). do {
            es \<leftarrow> rg_e_succs r s;
            g \<leftarrow> for_each (\<lambda>(d, w) g. do {
              wl \<leftarrow> rg_lookup l s d;
              (case wl of Some wl \<Rightarrow> if w \<le> wl then add_edge s wl d g else Some g | None \<Rightarrow> Some g) }) es g;
            ds \<leftarrow> rg_succs l s;
            lost \<leftarrow> loses_edge g s ds;
            Some (g, if lost then insert s unstable else unstable) }"
  have "\<exists>t. for_each ?body vs (g, unstable) = Some t \<and> ?P vs t"
  proof (rule for_each_total)
    show "?P [] (g, unstable)" using g(2) by simp
  next
    fix pre s rest gu assume xs: "vs = pre @ s # rest" and P: "?P pre gu"
    obtain g u where gu: "gu = (g, u)" by (cases gu)
    have s: "s < n" "s \<notin> set pre" using xs vs by auto
    have h: "holds_weights g (\<lambda>v. v < n) n (\<lambda>s d. if s \<in> set pre then ?U s d else None)" using P gu by simp
    obtain es where es: "rg_e_succs r s = Some es" "lists_edges es (Wr s)"
      using presentsD(8) [OF al(2), of s] s by auto
    obtain ls where ls: "rg_succs l s = Some (map fst ls)" "lists_edges ls (Wl s)"
      using presentsD(8) [OF al(1), of s] s by auto
    define step where "step = (\<lambda>(d, w) g. do {
              wl \<leftarrow> rg_lookup l s d;
              (case wl of Some wl \<Rightarrow> if w \<le> wl then add_edge s wl d g else Some g | None \<Rightarrow> Some g) })"
    have row: "\<exists>g'. for_each step es g = Some g' \<and> holds_weights g' (\<lambda>v. v < n) n
        ((\<lambda>s d. if s \<in> set pre then ?U s d else None)(s := (\<lambda>d. case Wr s d of None \<Rightarrow> None | Some w \<Rightarrow> widen_weight (Wl s d) (Some w))))"
    proof (rule exE [OF visit_row [OF h es(2), where step = step and s = s and ?U0.0 = "\<lambda>_ _. None"
          and F = "\<lambda>s d w. widen_weight (Wl s d) (Some w)"]])
      fix d w g U
      assume W: "Wr s d = Some w" and h: "holds_weights g (\<lambda>v. v < n) n U" "U s d = None"
      have d: "d < n" using presentsD(4) [OF al(2) W] by auto
      have same: "U(s := (U s)(d := None)) = U" using h(2) by (metis fun_upd_triv)
      show "\<exists>g'. step (d, w) g = Some g' \<and>
          holds_weights g' (\<lambda>v. v < n) n (U(s := (U s)(d := widen_weight (Wl s d) (Some w))))"
        using holds_add [OF h(1) s(1) d h(2)] presentsD(6) [OF al(1), of s d] s(1) d h(1) same
        by (auto simp: step_def widen_weight_def split: option.splits)
    qed (use s(2) in \<open>auto simp: fun_eq_iff cong: option.case_cong\<close>)
    have eq: "(\<lambda>s d. if s \<in> set pre then ?U s d else None)(s := (\<lambda>d. case Wr s d of None \<Rightarrow> None | Some w \<Rightarrow> widen_weight (Wl s d) (Some w))) =
        (\<lambda>s' d. if s' \<in> set (pre @ [s]) then ?U s' d else None)"
      by (auto simp: fun_eq_iff widen_weight_def split: option.splits)
    obtain g' where g': "for_each step es g = Some g'"
      "holds_weights g' (\<lambda>v. v < n) n (\<lambda>s' d. if s' \<in> set (pre @ [s]) then ?U s' d else None)"
      using row unfolding eq by blast
    have "(\<exists>d\<in>set (map fst ls). (if s \<in> set (pre @ [s]) then ?U s d else None) = None) \<longleftrightarrow> ?lost s"
      unfolding lists_edges_keys [OF ls(2)] by auto
    then have "loses_edge g' s (map fst ls) = Some (?lost s)"
      using loses_edge_spec [OF g'(2) s(1), of "map fst ls"] by simp
    then have run: "?body s gu = Some (g', if ?lost s then insert s u else u)"
      using es(1) g'(1) ls(1) by (simp add: gu step_def)
    have "(if b then insert s (unstable \<union> {s' \<in> set pre. Q s'}) else unstable \<union> {s' \<in> set pre. Q s'}) =
        unstable \<union> {s' \<in> set (pre @ [s]). Q s'}" if "b \<longleftrightarrow> Q s" for b Q
      using that by auto
    note collect = this
    have u: "u = unstable \<union> {s \<in> set pre. ?lost s}" using P gu by simp
    have "(if ?lost s then insert s u else u) = unstable \<union> {s' \<in> set (pre @ [s]). ?lost s'}"
      unfolding u by (rule collect [of _ ?lost, OF refl])
    then show "\<exists>t. ?body s gu = Some t \<and> ?P (pre @ [s]) t" using run g'(2) by auto
  qed
  then obtain g' u where g': "for_each ?body vs (g, unstable) = Some (g', u)" "?P vs (g', u)" by auto
  have none: "\<not> s < n \<Longrightarrow> Wl s d = None" for s d
    using presentsD(4) [OF al(1), of s d] by (cases "Wl s d") auto
  have "(\<lambda>s d. if s \<in> set vs then ?U s d else None) = ?U"
    using none by (auto simp: fun_eq_iff vs(3) widen_weight_def)
  moreover have "{s \<in> set vs. ?lost s} = {s. ?lost s}" using none vs(3) by auto
  ultimately show ?thesis
    using g' g(1) vs(1) al(3,4) by (auto simp: graph_widen_def)
qed

text \<open>C20: The syntactic lattice operations on two aligned graphs always return, and they are
  pointwise on the weights: the join keeps an edge that both graphs have, with the larger
  weight; the meet keeps an edge of either, with the smaller weight; the widening keeps the
  left edge where the right graph has one that is no larger, and records exactly the vertices
  that lose an edge.  So every solution of either graph solves the join and the widening, and
  the solutions of the meet are the common solutions.\<close>

theorem syntactic_operations:
  assumes "aligned l r n Wl Wr"
  shows "\<exists>j m w.
    graph_join l r = Some j \<and> graph_meet l r = Some (m, False) \<and>
    graph_widen l r unstable =
      Some (w, unstable \<union> {s. \<exists>d. Wl s d \<noteq> None \<and> widen_weight (Wl s d) (Wr s d) = None}) \<and>
    graph_ok j \<and> graph_ok m \<and> graph_ok w \<and>
    weight j = (\<lambda>s d. join_weight (Wl s d) (Wr s d)) \<and>
    weight m = (\<lambda>s d. meet_weight (Wl s d) (Wr s d)) \<and>
    weight w = (\<lambda>s d. widen_weight (Wl s d) (Wr s d)) \<and>
    (\<forall>\<sigma>. (solves \<sigma> Wl \<or> solves \<sigma> Wr \<longrightarrow> solves \<sigma> (weight j) \<and> solves \<sigma> (weight w)) \<and>
      (solves \<sigma> (weight m) \<longleftrightarrow> solves \<sigma> Wl \<and> solves \<sigma> Wr))"
proof -
  obtain j where j: "graph_join l r = Some j" "holds_weights j (\<lambda>v. v < n) n (\<lambda>s d. join_weight (Wl s d) (Wr s d))"
    using graph_join_spec [OF assms] by blast
  obtain m where m: "graph_meet l r = Some (m, False)" "holds_weights m (\<lambda>v. v < n) n (\<lambda>s d. meet_weight (Wl s d) (Wr s d))"
    using graph_meet_spec [OF assms] by blast
  obtain w where w: "graph_widen l r unstable = Some (w, unstable \<union>
      {s. \<exists>d. Wl s d \<noteq> None \<and> widen_weight (Wl s d) (Wr s d) = None})"
    "holds_weights w (\<lambda>v. v < n) n (\<lambda>s d. widen_weight (Wl s d) (Wr s d))"
    using graph_widen_spec [OF assms] by blast
  have up: "solves \<sigma> (\<lambda>s d. join_weight (Wl s d) (Wr s d))" "solves \<sigma> (\<lambda>s d. widen_weight (Wl s d) (Wr s d))"
    if "solves \<sigma> Wl \<or> solves \<sigma> Wr" for \<sigma>
    using that by (fastforce simp: solves_def join_weight_def widen_weight_def split: option.splits if_splits)+
  have meet: "solves \<sigma> (\<lambda>s d. meet_weight (Wl s d) (Wr s d)) \<longleftrightarrow> solves \<sigma> Wl \<and> solves \<sigma> Wr" for \<sigma>
  proof -
    have "(\<forall>w. meet_weight a b = Some w \<longrightarrow> x \<le> w) \<longleftrightarrow>
        (\<forall>w. a = Some w \<longrightarrow> x \<le> w) \<and> (\<forall>w. b = Some w \<longrightarrow> x \<le> w)" for a b x
      by (cases a; cases b) (auto simp: meet_weight_def)
    then show ?thesis by (simp only: solves_def) blast
  qed
  show ?thesis
  proof (rule exI [of _ j], rule exI [of _ m], rule exI [of _ w], intro conjI allI impI)
    show "solves \<sigma> (weight j)" "solves \<sigma> (weight w)" if "solves \<sigma> Wl \<or> solves \<sigma> Wr" for \<sigma>
      using up [OF that] holdsD(4) [OF j(2)] holdsD(4) [OF w(2)] by simp_all
    show "solves \<sigma> (weight m) \<longleftrightarrow> solves \<sigma> Wl \<and> solves \<sigma> Wr" for \<sigma>
      unfolding holdsD(4) [OF m(2)] by (rule meet)
  qed (fact j(1) m(1) w(1) holdsD(1,4) [OF j(2)] holdsD(1,4) [OF m(2)] holdsD(1,4) [OF w(2)])+
qed

text \<open>A graph joined with itself.\<close>

theorem syntactic_operations_witness:
  "\<exists>j. graph_join (adapt_view sample_graph) (adapt_view sample_graph) = Some j \<and> graph_ok j \<and>
     weight j 0 1 = Some 7"
proof -
  have nodes: "{v. live sample_graph v} = {..<2}"
    by (auto simp: live_def sample_graph_def less_Suc_eq numeral_2_eq_2)
  then have al: "aligned (adapt_view sample_graph) (adapt_view sample_graph) 2 (weight sample_graph) (weight sample_graph)"
    using presents_adapt [OF sample_graph_ok(1)]
    by (simp add: aligned_def) (simp add: adapt_view_def graph_size_def sample_graph_def)
  have "join_weight (weight sample_graph 0 1) (weight sample_graph 0 1) = Some 7"
    by (simp add: join_weight_def weight_def edge_index_def table_look_def sample_graph_def)
  then show ?thesis using syntactic_operations [OF al, of "{}"] by auto
qed

subsection \<open>Batches of updates\<close>

text \<open>A batch whose edges are consequences and no weaker than the edges they replace.\<close>

definition delta_ok :: "(nat \<Rightarrow> bool) \<Rightarrow> (nat \<Rightarrow> nat \<Rightarrow> number option) \<Rightarrow> edge_vector \<Rightarrow> bool" where
  "delta_ok L W delta \<longleftrightarrow> (\<forall>(s, d, w)\<in>set delta. L s \<and> L d \<and> entails W s d w \<and> (\<forall>v. W s d = Some v \<longrightarrow> w \<le> v))"

lemma apply_delta_spec:
  assumes "holds_weights g L n W" "delta_ok L W delta"
  shows "\<exists>g' W'. apply_delta delta g = Some g' \<and> holds_weights g' L n W' \<and> tightens W W'"
proof -
  have "\<exists>t. for_each (\<lambda>(s, d, w) g. set_edge s w d g) delta g = Some t \<and>
      (\<exists>U. holds_weights t L n U \<and> tightens W U)"
  proof (rule for_each_inv)
    show "\<exists>U. holds_weights g L n U \<and> tightens W U" using assms(1) tightens_refl by blast
  next
    fix x g assume x: "x \<in> set delta" "\<exists>U. holds_weights g L n U \<and> tightens W U"
    obtain s d w where sdw: "x = (s, d, w)" by (cases x)
    obtain U where U: "holds_weights g L n U" "tightens W U" using x(2) by blast
    have e: "L s" "L d" "entails W s d w" "\<And>v. W s d = Some v \<Longrightarrow> w \<le> v"
      using assms(2) x(1) unfolding delta_ok_def sdw by blast+
    obtain g' where "set_edge s w d g = Some g'" "holds_weights g' L n (with_edge U s w d)"
      using holds_set [OF U(1) e(1,2)] by blast
    moreover have "tightens W (with_edge U s w d)"
      using tightens_set [OF U(2) e(3)] e(4) by blast
    ultimately show "\<exists>t. (case x of (s, d, w) \<Rightarrow> set_edge s w d) g = Some t \<and> (\<exists>U. holds_weights t L n U \<and> tightens W U)"
      using sdw by auto
  qed
  then show ?thesis by (auto simp: apply_delta_def)
qed

subsection \<open>Closing over an edge keeps the solutions\<close>

definition weights_within :: "int \<Rightarrow> (nat \<Rightarrow> nat \<Rightarrow> number option) \<Rightarrow> bool" where
  "weights_within b W \<longleftrightarrow> (\<forall>s d w. W s d = Some w \<longrightarrow> \<bar>w\<bar> \<le> b)"

lemma weights_withinD: "weights_within b W \<Longrightarrow> W s d = Some w \<Longrightarrow> \<bar>w\<bar> \<le> b"
  by (simp add: weights_within_def)

lemma num_add_small: "\<bar>a\<bar> \<le> b \<Longrightarrow> \<bar>c\<bar> \<le> 2 ^ 126 - b \<Longrightarrow> num_add a c = Some (a + c)"
  unfolding num_add_def by (rule chk_i128_ok, rule in_i128_small) (simp_all add: abs_le_iff)

lemma num_sub_small: "\<bar>a\<bar> \<le> b \<Longrightarrow> \<bar>c\<bar> \<le> 2 ^ 126 - b \<Longrightarrow> num_sub a c = Some (a - c)"
  unfolding num_sub_def by (rule chk_i128_ok, rule in_i128_small) (simp_all add: abs_le_iff)

lemma relax_spec:
  assumes "holds_weights g L n U" "L s" "L d"
  shows "\<exists>b g'. relax s d w g = Some (b, g') \<and>
    (if b then holds_weights g' L n (with_edge U s w d) \<and> (\<forall>v. U s d = Some v \<longrightarrow> w < v)
     else g' = g \<and> (\<exists>v. U s d = Some v \<and> v \<le> w))"
proof -
  have look: "graph_lookup g s d = Some (U s d)" by (rule holds_lookup [OF assms(1) holds_live [OF assms(1,2)]])
  show ?thesis
  proof (cases "U s d")
    case None
    obtain g' where "add_edge s w d g = Some g'" "holds_weights g' L n (with_edge U s w d)"
      using holds_add [OF assms None, of w] by blast
    then show ?thesis using look None by (intro exI [of _ True] exI [of _ g']) (simp add: relax_def)
  next
    case (Some v)
    show ?thesis
    proof (cases "v \<le> w")
      case False
      obtain g' where "write_edge s w d g = Some g'" "holds_weights g' L n (with_edge U s w d)"
        using holds_write [OF assms(1) Some, of w] by blast
      then show ?thesis using look Some False by (intro exI [of _ True] exI [of _ g']) (simp add: relax_def)
    next
      case True
      then show ?thesis using look Some by (intro exI [of _ False] exI [of _ g]) (simp add: relax_def)
    qed
  qed
qed

text \<open>Relaxing an edge to a weight that is a consequence tightens the graph.\<close>

lemma relax_tightens:
  assumes "holds_weights g L n U" "tightens W U" "L s" "L d" "entails W s d w"
  shows "\<exists>b g' U'. relax s d w g = Some (b, g') \<and> holds_weights g' L n U' \<and> tightens W U'"
proof -
  obtain b g' where r: "relax s d w g = Some (b, g')"
    "if b then holds_weights g' L n (with_edge U s w d) \<and> (\<forall>v. U s d = Some v \<longrightarrow> w < v)
     else g' = g \<and> (\<exists>v. U s d = Some v \<and> v \<le> w)"
    using relax_spec [OF assms(1,3,4), of w] by blast
  show ?thesis
  proof (cases b)
    case True
    have "tightens U (with_edge U s w d)"
      using assms(5) r(2) True tightens_entails [OF assms(2)] by (intro tightens_with_edge) auto
    then show ?thesis using r True tightens_trans [OF assms(2)] by auto
  qed (use r assms(1,2) in auto)
qed

lemma holds_edge_live: "holds_weights g L n W \<Longrightarrow> W s d = Some w \<Longrightarrow> L s \<and> L d"
  using weight_live by (auto simp: holds_weights_def)

lemma holds_e_succs:
  "holds_weights g L n W \<Longrightarrow> s < n \<Longrightarrow> \<exists>es. e_succs g s = Some es \<and> lists_edges es (W s)"
  using e_succs_spec by (fastforce simp: holds_weights_def)

lemma holds_e_preds:
  "holds_weights g L n W \<Longrightarrow> d < n \<Longrightarrow> \<exists>es. e_preds g d = Some es \<and> lists_edges es (\<lambda>s. W s d)"
  using e_preds_spec by (fastforce simp: holds_weights_def)

lemma relax_tighten:
  assumes "holds_weights g L n U" "L s" "L d" "entails U s d w"
  shows "\<exists>c g' U'. relax s d w g = Some (c, g') \<and> holds_weights g' L n U' \<and> tightens U U' \<and>
    (\<forall>t. t \<noteq> s \<longrightarrow> U' t = U t) \<and> (\<exists>u. U' s d = Some u \<and> u \<le> w) \<and>
    (weights_within b U \<longrightarrow> \<bar>w\<bar> \<le> b \<longrightarrow> weights_within b U')"
proof -
  obtain c g' where r: "relax s d w g = Some (c, g')"
    "if c then holds_weights g' L n (with_edge U s w d) \<and> (\<forall>v. U s d = Some v \<longrightarrow> w < v)
     else g' = g \<and> (\<exists>v. U s d = Some v \<and> v \<le> w)"
    using relax_spec [OF assms(1-3), of w] by blast
  show ?thesis
  proof (cases c)
    case True
    then have "tightens U (with_edge U s w d)"
      using assms(4) r(2) by (intro tightens_with_edge) auto
    moreover have "weights_within b U \<longrightarrow> \<bar>w\<bar> \<le> b \<longrightarrow> weights_within b (with_edge U s w d)"
      by (auto simp: weights_within_def)
    ultimately show ?thesis using r True by (intro exI [of _ c] exI [of _ g'] exI [of _ "with_edge U s w d"]) simp
  next
    case False
    then show ?thesis
      using r assms(1) tightens_refl by (intro exI [of _ c] exI [of _ g'] exI [of _ U]) auto
  qed
qed

text \<open>
  The first two loops of \<open>close_over_edge\<close>: the edge from \<open>a v\<close> to \<open>z v\<close> is relaxed for every
  element \<open>v\<close> of a list but one, and the elements that changed an edge are collected.
\<close>

lemma relax_all:
  fixes E :: "(nat \<times> number) list"
  assumes "holds_weights g L n W" "\<bar>c\<bar> \<le> b" "b \<le> 2 ^ 124"
    "\<And>v p. (v, p) \<in> set E \<Longrightarrow> \<bar>p\<bar> \<le> b \<and> L (a v) \<and> L (z v) \<and> entails W (a v) (z v) (p + c)"
    and within: "weights_within (2 * b) W"
  shows "\<exists>g' dec U. for_each (\<lambda>(v, p) (g, dec). do {
              wt \<leftarrow> num_add p c;
              if v \<noteq> x
              then do { (changed, g1) \<leftarrow> relax (a v) (z v) wt g;
                        Some (g1, if changed then dec @ [(v, p)] else dec) }
              else Some (g, dec) }) E (g, []) = Some (g', dec) \<and>
    holds_weights g' L n U \<and> tightens W U \<and> set dec \<subseteq> set E \<and>
    (\<forall>t. (\<forall>v. v \<noteq> x \<longrightarrow> a v \<noteq> t) \<longrightarrow> U t = W t) \<and>
    (\<forall>(v, p)\<in>set E. v \<noteq> x \<longrightarrow> (\<exists>u. U (a v) (z v) = Some u \<and> u \<le> p + c)) \<and> weights_within (2 * b) U"
    (is "\<exists>g' dec U. for_each ?body E (g, []) = Some (g', dec) \<and> _")
proof -
  let ?P = "\<lambda>pre (g', dec). \<exists>U. holds_weights g' L n U \<and> tightens W U \<and> set dec \<subseteq> set pre \<and>
    (\<forall>t. (\<forall>v. v \<noteq> x \<longrightarrow> a v \<noteq> t) \<longrightarrow> U t = W t) \<and>
    (\<forall>(v, p)\<in>set pre. v \<noteq> x \<longrightarrow> (\<exists>u. U (a v) (z v) = Some u \<and> u \<le> p + c)) \<and> weights_within (2 * b) U"
  have "\<exists>t. for_each ?body E (g, []) = Some t \<and> ?P E t"
  proof (rule for_each_total)
    show "?P [] (g, [])" using assms(1) tightens_refl within by auto
  next
    fix pre y rest st assume xs: "E = pre @ y # rest" and P: "?P pre st"
    obtain v p where y: "y = (v, p)" by (cases y)
    obtain g dec where st: "st = (g, dec)" by (cases st)
    obtain U where U: "holds_weights g L n U" "tightens W U" "set dec \<subseteq> set pre"
      "\<forall>t. (\<forall>v. v \<noteq> x \<longrightarrow> a v \<noteq> t) \<longrightarrow> U t = W t"
      "\<forall>(v, p)\<in>set pre. v \<noteq> x \<longrightarrow> (\<exists>u. U (a v) (z v) = Some u \<and> u \<le> p + c)" "weights_within (2 * b) U"
      using P st by auto
    have e: "\<bar>p\<bar> \<le> b" "L (a v)" "L (z v)" "entails U (a v) (z v) (p + c)"
      using assms(4) [of v p] xs y tightens_entails [OF U(2)] by auto
    have add: "num_add p c = Some (p + c)" using num_add_small [OF e(1)] assms(2,3) by simp
    show "\<exists>t. ?body y st = Some t \<and> ?P (pre @ [y]) t"
    proof (cases "v = x")
      case True
      then have "?body y st = Some (g, dec)" using add by (simp add: y st)
      moreover have "?P (pre @ [y]) (g, dec)" using U True y by (auto intro!: exI [of _ U])
      ultimately show ?thesis by blast
    next
      case False
      obtain ch g' U' where r: "relax (a v) (z v) (p + c) g = Some (ch, g')" "holds_weights g' L n U'" "tightens U U'"
        "\<forall>t. t \<noteq> a v \<longrightarrow> U' t = U t" "\<exists>u. U' (a v) (z v) = Some u \<and> u \<le> p + c"
        "weights_within (2 * b) U \<longrightarrow> \<bar>p + c\<bar> \<le> 2 * b \<longrightarrow> weights_within (2 * b) U'"
        using relax_tighten [OF U(1) e(2-4)] by blast
      have "\<bar>p + c\<bar> \<le> 2 * b" using e(1) assms(2) by linarith
      then have within': "weights_within (2 * b) U'" using r(6) U(6) by blast
      have "\<forall>(v, p)\<in>set (pre @ [y]). v \<noteq> x \<longrightarrow> (\<exists>u. U' (a v) (z v) = Some u \<and> u \<le> p + c)"
      proof
        fix q assume q: "q \<in> set (pre @ [y])"
        obtain v' p' where q': "q = (v', p')" by (cases q)
        show "case q of (v, p) \<Rightarrow> v \<noteq> x \<longrightarrow> (\<exists>u. U' (a v) (z v) = Some u \<and> u \<le> p + c)"
        proof (cases "q = y")
          case False
          then have "v' \<noteq> x \<longrightarrow> (\<exists>u. U (a v') (z v') = Some u \<and> u \<le> p' + c)" using q q' U(5) by auto
          then show ?thesis using tightens_lower [OF r(3)] q' by simp
        qed (use r(5) y in auto)
      qed
      moreover have "\<forall>t. (\<forall>v. v \<noteq> x \<longrightarrow> a v \<noteq> t) \<longrightarrow> U' t = W t" using r(4) False U(4) by metis
      moreover have "set (if ch then dec @ [(v, p)] else dec) \<subseteq> set (pre @ [y])" using U(3) y by auto
      ultimately have P': "?P (pre @ [y]) (g', if ch then dec @ [(v, p)] else dec)"
        using r(2) tightens_trans [OF U(2) r(3)] within'
        unfolding case_prod_conv by (intro exI [of _ U'] conjI)
      have "?body y st = Some (g', if ch then dec @ [(v, p)] else dec)"
        using False add r(1) by (simp add: y st)
      then show ?thesis using P' by blast
    qed
  qed
  then obtain t where t: "for_each ?body E (g, []) = Some t" "?P E t" by blast
  obtain g' dec where "t = (g', dec)" by (cases t)
  then show ?thesis using t by auto
qed

lemma close_over_edge_spec:
  assumes "holds_weights g L n W" "W ii jj = Some c" "ii \<noteq> 0" "jj \<noteq> 0" "weights_within b W" "b \<le> 2 ^ 120"
  shows "\<exists>g' U. close_over_edge ii jj g = Some g' \<and> holds_weights g' L n U \<and> tightens W U \<and>
    (\<forall>s p. W s ii = Some p \<and> s \<noteq> 0 \<and> s \<noteq> jj \<longrightarrow> (\<exists>u. U s jj = Some u \<and> u \<le> p + c)) \<and>
    (\<forall>d p. W jj d = Some p \<and> d \<noteq> 0 \<and> d \<noteq> ii \<longrightarrow> (\<exists>u. U ii d = Some u \<and> u \<le> p + c)) \<and>
    weights_within (3 * b) U"
proof -
  have ends: "L ii" "L jj" using holds_edge_live [OF assms(1,2)] by auto
  then have lim: "ii < n" "jj < n" using holds_live [OF assms(1)] by auto
  have c: "\<bar>c\<bar> \<le> b" "edge_val g ii jj = Some c"
    using weights_withinD [OF assms(5,2)] edge_val_spec [OF holdsD(1) [OF assms(1)], of ii jj c] assms(2) holdsD(4) [OF assms(1)]
    by auto
  have b: "b \<le> 2 ^ 124" "weights_within (2 * b) W"
    using assms(5,6) c(1) by (force simp: weights_within_def)+
  have ij: "entails W ii jj c" by (rule entails_edge [of W, OF assms(2)])
  obtain ps where ps: "e_preds g ii = Some ps" "lists_edges ps (\<lambda>s. W s ii)"
    using holds_e_preds [OF assms(1) lim(1)] by blast
  define E1 where "E1 = filter (\<lambda>e. fst e \<noteq> 0) ps"
  have E1: "(v, p) \<in> set E1 \<longleftrightarrow> W v ii = Some p \<and> v \<noteq> 0" for v p
    using ps(2) by (auto simp: E1_def lists_edges_def)
  have pre1: "\<bar>p\<bar> \<le> b \<and> L v \<and> L jj \<and> entails W v jj (p + c)" if "(v, p) \<in> set E1" for v p
  proof -
    have W: "W v ii = Some p" using that E1 by simp
    show ?thesis
      using weights_withinD [OF assms(5) W] holds_edge_live [OF assms(1) W] ends
        entails_trans [of W v ii p jj c, OF entails_edge [of W, OF W] ij] by blast
  qed
  obtain g1 src U1 where l1: "for_each (\<lambda>(v, p) (g, dec). do {
              wt \<leftarrow> num_add p c;
              if v \<noteq> jj
              then do { (changed, g1) \<leftarrow> relax v jj wt g;
                        Some (g1, if changed then dec @ [(v, p)] else dec) }
              else Some (g, dec) }) E1 (g, []) = Some (g1, src)"
    "holds_weights g1 L n U1" "tightens W U1" "set src \<subseteq> set E1"
    "\<forall>t. (\<forall>v. v \<noteq> jj \<longrightarrow> v \<noteq> t) \<longrightarrow> U1 t = W t"
    "\<forall>(v, p)\<in>set E1. v \<noteq> jj \<longrightarrow> (\<exists>u. U1 v jj = Some u \<and> u \<le> p + c)" "weights_within (2 * b) U1"
    using relax_all [OF assms(1) c(1) b(1) _ b(2), of E1 "\<lambda>v. v" "\<lambda>_. jj" jj] pre1 by fastforce
  have row: "U1 jj = W jj" using l1(5) by blast
  obtain ss where ss: "e_succs g1 jj = Some ss" "lists_edges ss (W jj)"
    using holds_e_succs [OF l1(2) lim(2)] row by auto
  define E2 where "E2 = filter (\<lambda>e. fst e \<noteq> 0) ss"
  have E2: "(v, p) \<in> set E2 \<longleftrightarrow> W jj v = Some p \<and> v \<noteq> 0" for v p
    using ss(2) by (auto simp: E2_def lists_edges_def)
  have pre2: "\<bar>p\<bar> \<le> b \<and> L ii \<and> L v \<and> entails U1 ii v (p + c)" if "(v, p) \<in> set E2" for v p
  proof -
    have W: "W jj v = Some p" using that E2 by simp
    have "entails W ii v (p + c)" using entails_trans [of W ii jj c v p, OF ij entails_edge [of W, OF W]] by (simp add: add.commute)
    then show ?thesis
      using weights_withinD [OF assms(5) W] holds_edge_live [OF assms(1) W] ends tightens_entails [OF l1(3)] by blast
  qed
  obtain g2 dst U2 where l2: "for_each (\<lambda>(v, p) (g, dec). do {
              wt \<leftarrow> num_add p c;
              if v \<noteq> ii
              then do { (changed, g1) \<leftarrow> relax ii v wt g;
                        Some (g1, if changed then dec @ [(v, p)] else dec) }
              else Some (g, dec) }) E2 (g1, []) = Some (g2, dst)"
    "holds_weights g2 L n U2" "tightens U1 U2" "set dst \<subseteq> set E2"
    "\<forall>(v, p)\<in>set E2. v \<noteq> ii \<longrightarrow> (\<exists>u. U2 ii v = Some u \<and> u \<le> p + c)" "weights_within (2 * b) U2"
    using relax_all [OF l1(2) c(1) b(1) _ l1(7), of E2 "\<lambda>_. ii" "\<lambda>v. v" ii] pre2 by fastforce
  have b3: "weights_within (3 * b) U2" using l2(6) c(1) by (force simp: weights_within_def)
  let ?inner = "\<lambda>se wt g. for_each (\<lambda>(de, p2) g. do {
              wt' \<leftarrow> num_add wt p2;
              (changed, g1) \<leftarrow> relax se de wt' g;
              Some g1 }) dst g"
  have l3: "\<exists>g3. for_each (\<lambda>(se, p1) g. do { wt \<leftarrow> num_add c p1; ?inner se wt g }) src g2 = Some g3 \<and>
      (\<exists>U. holds_weights g3 L n U \<and> tightens U2 U \<and> weights_within (3 * b) U)"
  proof (rule for_each_inv)
    show "\<exists>U. holds_weights g2 L n U \<and> tightens U2 U \<and> weights_within (3 * b) U" using l2(2) tightens_refl b3 by blast
  next
    fix x g assume x: "x \<in> set src" and inv1: "\<exists>U. holds_weights g L n U \<and> tightens U2 U \<and> weights_within (3 * b) U"
    obtain se p1 where sp: "x = (se, p1)" by (cases x)
    have W1: "W se ii = Some p1" using x l1(4) E1 sp by auto
    have p1: "\<bar>p1\<bar> \<le> b" "L se" "entails W se ii p1"
      using weights_withinD [OF assms(5) W1] holds_edge_live [OF assms(1) W1] entails_edge [of W, OF W1] by auto
    have a1: "num_add c p1 = Some (c + p1)" using num_add_small [OF c(1)] p1(1) assms(6) by simp
    have "\<exists>g3. ?inner se (c + p1) g = Some g3 \<and> (\<exists>U. holds_weights g3 L n U \<and> tightens U2 U \<and> weights_within (3 * b) U)"
    proof (rule for_each_inv)
      show "\<exists>U. holds_weights g L n U \<and> tightens U2 U \<and> weights_within (3 * b) U" by (rule inv1)
    next
      fix y g assume y: "y \<in> set dst" and "\<exists>U. holds_weights g L n U \<and> tightens U2 U \<and> weights_within (3 * b) U"
      then obtain U where U: "holds_weights g L n U" "tightens U2 U" "weights_within (3 * b) U" by blast
      obtain de p2 where dp: "y = (de, p2)" by (cases y)
      have W2: "W jj de = Some p2" using y l2(4) E2 dp by auto
      have p2: "\<bar>p2\<bar> \<le> b" "L de"
        using weights_withinD [OF assms(5) W2] holds_edge_live [OF assms(1) W2] by auto
      have a2: "num_add (c + p1) p2 = Some (c + p1 + p2)"
        using num_add_small [of "c + p1" "2 * b" p2] c(1) p1(1) p2(1) assms(6) by simp
      have "entails W se de (p1 + (c + p2))"
        using entails_trans [of W se ii p1 de "c + p2", OF p1(3) entails_trans [of W ii jj c de p2, OF ij entails_edge [of W, OF W2]]] .
      then have "entails U se de (c + p1 + p2)"
        using tightens_entails [OF tightens_trans [OF tightens_trans [OF l1(3) l2(3)] U(2)]] by (simp add: ac_simps)
      from relax_tighten [OF U(1) p1(2) p2(2) this, of "3 * b"] obtain ch g' U' where
        "relax se de (c + p1 + p2) g = Some (ch, g')" "holds_weights g' L n U'" "tightens U U'"
        "weights_within (3 * b) U \<longrightarrow> \<bar>c + p1 + p2\<bar> \<le> 3 * b \<longrightarrow> weights_within (3 * b) U'" by blast
      moreover have "\<bar>c + p1 + p2\<bar> \<le> 3 * b" using c(1) p1(1) p2(1) by linarith
      ultimately show "\<exists>t. (case y of (de, p2) \<Rightarrow> \<lambda>g. do { wt' \<leftarrow> num_add (c + p1) p2; (changed, g1) \<leftarrow> relax se de wt' g; Some g1 }) g = Some t \<and>
          (\<exists>U. holds_weights t L n U \<and> tightens U2 U \<and> weights_within (3 * b) U)"
        using a2 tightens_trans [OF U(2)] U(3) by (auto simp: dp)
    qed
    then show "\<exists>t. (case x of (se, p1) \<Rightarrow> \<lambda>g. do { wt \<leftarrow> num_add c p1; ?inner se wt g }) g = Some t \<and>
        (\<exists>U. holds_weights t L n U \<and> tightens U2 U \<and> weights_within (3 * b) U)"
      using a1 by (simp add: sp)
  qed
  then obtain g3 U3 where g3: "for_each (\<lambda>(se, p1) g. do { wt \<leftarrow> num_add c p1; ?inner se wt g }) src g2 = Some g3"
    "holds_weights g3 L n U3" "tightens U2 U3" "weights_within (3 * b) U3" by blast
  have run: "close_over_edge ii jj g = Some g3"
    using assms(3,4) c(2) ps(1) ss(1) l1(1) l2(1) g3(1)
    by (simp add: close_over_edge_def E1_def E2_def)
  have "\<exists>u. U3 s jj = Some u \<and> u \<le> p + c" if "W s ii = Some p" "s \<noteq> 0" "s \<noteq> jj" for s p
  proof -
    have "(s, p) \<in> set E1" using E1 that by simp
    then have "\<exists>u. U1 s jj = Some u \<and> u \<le> p + c" using l1(6) that(3) by auto
    then show ?thesis using tightens_lower [OF tightens_trans [OF l2(3) g3(3)]] by blast
  qed
  moreover have "\<exists>u. U3 ii d = Some u \<and> u \<le> p + c" if "W jj d = Some p" "d \<noteq> 0" "d \<noteq> ii" for d p
  proof -
    have "(d, p) \<in> set E2" using E2 that by simp
    then have "\<exists>u. U2 ii d = Some u \<and> u \<le> p + c" using l2(5) that(3) by auto
    then show ?thesis using tightens_lower [OF g3(3)] by blast
  qed
  ultimately show ?thesis
    using run g3(2,4) tightens_trans [OF tightens_trans [OF l1(3) l2(3)] g3(3)] by blast
qed

end
