(* ===== verification/Graph_Paths.thy ===== *)
theory Graph_Paths
  imports Graph_Ops
begin

text \<open>
  \<open>src/crab/splitdbm/graph_ops.rs\<close>, the algorithms that use scratch space: Tarjan's strongly
  connected components and Bellman-Ford for a first potential, the repair of a potential after
  one edge was added, and the closures after a meet, a widening and an assignment, three
  variants of Dijkstra's algorithm on reduced costs.  A potential function that may index out
  of range returns an option.  The scratch arrays keep what earlier calls left in them.
\<close>

subsection \<open>Scratch space\<close>

record scratch_space =
  sc_edge_marks :: "nat list"
  sc_dual_queue :: "nat list"
  sc_vert_marks :: "int list"
  sc_stability :: "nat list"
  sc_sz :: nat
  sc_dists :: "number list"
  sc_dists_alt :: "number list"
  sc_dist_ts :: "nat list"
  sc_ts :: nat
  sc_ts_idx :: nat

definition scratch_new :: scratch_space where
  "scratch_new = \<lparr>sc_edge_marks = [], sc_dual_queue = [], sc_vert_marks = [], sc_stability = [], sc_sz = 0,
     sc_dists = [], sc_dists_alt = [], sc_dist_ts = [], sc_ts = 0, sc_ts_idx = 0\<rparr>"

text \<open>\<open>while new_sz < sz { new_sz *= 2 }\<close>, which starts at 10 or at an earlier size.\<close>

function double_until :: "nat \<Rightarrow> nat \<Rightarrow> nat" where
  "double_until new_sz sz = (if 0 < new_sz \<and> new_sz < sz then double_until (new_sz * 2) sz else new_sz)"
  by pat_completeness auto
termination
  by (relation "measure (\<lambda>(new_sz, sz). sz - new_sz)") auto

declare double_until.simps [simp del]

definition scratch_grow :: "nat \<Rightarrow> scratch_space \<Rightarrow> scratch_space" where
  "scratch_grow sz sc =
     (if sz \<le> sc_sz sc then sc
      else let n = double_until (if sc_sz sc = 0 then 10 else sc_sz sc) sz
           in sc\<lparr>sc_edge_marks := vec_resize (n * n) 0 (sc_edge_marks sc),
                sc_dual_queue := vec_resize (2 * n) 0 (sc_dual_queue sc),
                sc_vert_marks := vec_resize n 0 (sc_vert_marks sc),
                sc_stability := vec_resize n 0 (sc_stability sc),
                sc_sz := n,
                sc_dists := vec_resize n 0 (sc_dists sc),
                sc_dists_alt := vec_resize n 0 (sc_dists_alt sc),
                sc_dist_ts := vec_resize n ((sc_ts sc + 2 ^ 32 - 1) mod 2 ^ 32) (sc_dist_ts sc)\<rparr>)"

definition set_mark :: "nat \<Rightarrow> int \<Rightarrow> scratch_space \<Rightarrow> scratch_space option" where
  "set_mark v m sc = do { ms \<leftarrow> vec_set v m (sc_vert_marks sc); Some (sc\<lparr>sc_vert_marks := ms\<rparr>) }"

definition set_dist :: "nat \<Rightarrow> number \<Rightarrow> scratch_space \<Rightarrow> scratch_space option" where
  "set_dist v x sc = do { ds \<leftarrow> vec_set v x (sc_dists sc); Some (sc\<lparr>sc_dists := ds\<rparr>) }"

definition set_queue :: "nat \<Rightarrow> nat \<Rightarrow> scratch_space \<Rightarrow> scratch_space option" where
  "set_queue i v sc = do { q \<leftarrow> vec_set i v (sc_dual_queue sc); Some (sc\<lparr>sc_dual_queue := q\<rparr>) }"

definition E_LEFT :: nat where "E_LEFT = 1"
definition E_RIGHT :: nat where "E_RIGHT = 2"
definition V_UNSTABLE :: int where "V_UNSTABLE = 0"
definition V_STABLE :: int where "V_STABLE = 1"
definition BF_NONE :: int where "BF_NONE = 0"
definition BF_SCC :: int where "BF_SCC = 1"
definition BF_QUEUED :: int where "BF_QUEUED = 2"

text \<open>\<open>if heap.in_heap(v) { heap.decrease(v) } else { heap.insert(v) }\<close>.\<close>

definition requeue :: "number list \<Rightarrow> nat \<Rightarrow> weight_heap \<Rightarrow> weight_heap option" where
  "requeue dists v h = (if in_heap v h then heap_decrease dists v h else heap_insert dists v h)"

subsection \<open>Repairing a potential\<close>

text \<open>The state of the loop: the distances, the new potential and the heap.\<close>

type_synonym repair_state = "number list \<times> number list \<times> weight_heap"

definition repair_edge :: "number list \<Rightarrow> nat \<Rightarrow> nat \<times> number \<Rightarrow> repair_state \<Rightarrow> repair_state option" where
  "repair_edge p es = (\<lambda>(v, w) (dists, alt, h). do {
     av \<leftarrow> vec_get alt v;
     pv \<leftarrow> vec_get p v;
     if av = pv
     then do { ae \<leftarrow> vec_get alt es;
               x \<leftarrow> num_add ae w;
               gnext_ed \<leftarrow> num_sub x av;
               old \<leftarrow> vec_get dists v;
               if gnext_ed < old
               then do { dists1 \<leftarrow> vec_set v gnext_ed dists;
                         h1 \<leftarrow> requeue dists1 v h;
                         Some (dists1, alt, h1) }
               else Some (dists, alt, h) }
     else Some (dists, alt, h) })"

definition repair_step :: "readable \<Rightarrow> number list \<Rightarrow> repair_state \<Rightarrow> repair_state option" where
  "repair_step g p = (\<lambda>(dists, alt, h). do {
     (es, h) \<leftarrow> heap_remove_min dists h;
     pe \<leftarrow> vec_get p es;
     de \<leftarrow> vec_get dists es;
     x \<leftarrow> num_add pe de;
     alt \<leftarrow> vec_set es x alt;
     edges \<leftarrow> rg_e_succs g (es mod 2 ^ 16);
     for_each (repair_edge p es) edges (dists, alt, h) })"

definition repair_potential ::
  "scratch_space \<Rightarrow> readable \<Rightarrow> number list \<Rightarrow> nat \<Rightarrow> nat \<Rightarrow> (bool \<times> number list \<times> scratch_space) option" where
  "repair_potential sc g p ii jj =
     do { let sc = scratch_grow (rg_size g) sc;
          verts \<leftarrow> rg_verts g;
          (dists, alt) \<leftarrow> for_each (\<lambda>v (dists, alt). do {
              dists \<leftarrow> vec_set v 0 dists;
              pv \<leftarrow> vec_get p v;
              alt \<leftarrow> vec_set v pv alt;
              Some (dists, alt) }) verts (sc_dists sc, sc_dists_alt sc);
          pi \<leftarrow> vec_get p ii;
          w \<leftarrow> rg_edge_val g ii jj;
          x \<leftarrow> num_add pi w;
          pj \<leftarrow> vec_get p jj;
          x \<leftarrow> num_sub x pj;
          dists \<leftarrow> vec_set jj x dists;
          if x \<ge> 0 then Some (True, p, sc\<lparr>sc_dists := dists, sc_dists_alt := alt\<rparr>)
          else do {
            h \<leftarrow> heap_insert dists jj heap_new;
            (dists, alt, h) \<leftarrow> while_opt (\<lambda>(_, _, h). \<not> heap_empty h) (repair_step g p) (dists, alt, h);
            let sc = sc\<lparr>sc_dists := dists, sc_dists_alt := alt\<rparr>;
            di \<leftarrow> vec_get dists ii;
            if di < 0 then Some (False, p, sc)
            else do {
              p \<leftarrow> for_each (\<lambda>v p. do { av \<leftarrow> vec_get alt v; vec_set v av p }) verts p;
              Some (True, p, sc) } } }"

subsection \<open>Dijkstra's algorithm on reduced costs\<close>

type_synonym potential = "nat \<Rightarrow> number option"

definition pot_func :: "number list \<Rightarrow> potential" where
  "pot_func p = vec_get p"

definition stamp :: "nat \<Rightarrow> scratch_space \<Rightarrow> scratch_space option" where
  "stamp v sc = do { ts \<leftarrow> vec_set v (sc_ts sc) (sc_dist_ts sc); Some (sc\<lparr>sc_dist_ts := ts\<rparr>) }"

definition dijkstra_init ::
  "readable \<Rightarrow> potential \<Rightarrow> nat \<Rightarrow> scratch_space \<Rightarrow> ((nat \<times> number) list \<times> scratch_space) option" where
  "dijkstra_init g p src sc =
     do { let sc = scratch_grow (rg_size g) sc;
          ts \<leftarrow> vec_set (sc_ts_idx sc) (sc_ts sc) (sc_dist_ts sc);
          assert_that (sc_ts sc + 1 < 2 ^ 32);
          assert_that (length (sc_dists sc) \<noteq> 0);
          let sc = sc\<lparr>sc_dist_ts := ts, sc_ts := sc_ts sc + 1,
                     sc_ts_idx := (sc_ts_idx sc + 1) mod length (sc_dists sc)\<rparr>;
          sc \<leftarrow> set_dist src 0 sc;
          sc \<leftarrow> stamp src sc;
          init_succs \<leftarrow> rg_e_succs g src;
          sc \<leftarrow> for_each (\<lambda>(dest, eval) sc. do {
              ps \<leftarrow> p src;
              x \<leftarrow> num_add ps eval;
              pd \<leftarrow> p dest;
              x \<leftarrow> num_sub x pd;
              sc \<leftarrow> set_dist dest x sc;
              stamp dest sc }) init_succs sc;
          Some (init_succs, sc) }"

definition dijkstra_build_heap :: "number list \<Rightarrow> (nat \<times> number) list \<Rightarrow> weight_heap option" where
  "dijkstra_build_heap dists init_succs = for_each (\<lambda>(dest, _) h. heap_insert dists dest h) init_succs heap_new"

text \<open>
  What both variants do with a successor of the vertex just removed: a shorter distance is
  recorded with its mark and queued, an equal one adds its mark.  The mark is read where it is
  used.
\<close>

definition relax_dist ::
  "nat \<Rightarrow> number \<Rightarrow> int option \<Rightarrow> scratch_space \<times> weight_heap \<Rightarrow> (scratch_space \<times> weight_heap) option" where
  "relax_dist v x mark = (\<lambda>(sc, h). do {
     t \<leftarrow> vec_get (sc_dist_ts sc) v;
     closer \<leftarrow> (if t \<noteq> sc_ts sc then Some True else do { old \<leftarrow> vec_get (sc_dists sc) v; Some (x < old) });
     if closer
     then do { sc \<leftarrow> set_dist v x sc; sc \<leftarrow> stamp v sc; m \<leftarrow> mark; sc \<leftarrow> set_mark v m sc;
               h \<leftarrow> requeue (sc_dists sc) v h; Some (sc, h) }
     else do { old \<leftarrow> vec_get (sc_dists sc) v;
               if x = old
               then do { k \<leftarrow> vec_get (sc_vert_marks sc) v; m \<leftarrow> mark; sc \<leftarrow> set_mark v (k OR m) sc; Some (sc, h) }
               else Some (sc, h) } })"

text \<open>The edge to a vertex just removed is output when it improves on the graph.\<close>

definition improves :: "readable \<Rightarrow> nat \<Rightarrow> nat \<Rightarrow> number \<Rightarrow> bool option" where
  "improves g src es x = do { w \<leftarrow> rg_lookup g src es; Some (case w of None \<Rightarrow> True | Some w \<Rightarrow> w > x) }"

definition chromatic_step ::
  "readable \<Rightarrow> potential \<Rightarrow> nat list list \<Rightarrow> nat \<Rightarrow> scratch_space \<times> weight_heap \<times> (nat \<times> number) list \<Rightarrow>
    (scratch_space \<times> weight_heap \<times> (nat \<times> number) list) option" where
  "chromatic_step g p colour_succs src = (\<lambda>(sc, h, out). do {
     (es, h) \<leftarrow> heap_remove_min (sc_dists sc) h;
     d \<leftarrow> vec_get (sc_dists sc) es;
     pe \<leftarrow> p (es mod 2 ^ 16);
     es_cost \<leftarrow> num_add d pe;
     ps \<leftarrow> p src;
     es_val \<leftarrow> num_sub es_cost ps;
     better \<leftarrow> improves g src (es mod 2 ^ 16) es_val;
     let out = (if better then out @ [(es mod 2 ^ 16, es_val)] else out);
     k \<leftarrow> vec_get (sc_vert_marks sc) es;
     if k = int (E_LEFT OR E_RIGHT) then Some (sc, h, out)
     else do {
       es_succs \<leftarrow> vec_get colour_succs (if k = int E_LEFT then 2 * es + 1 else 2 * es);
       (sc, h) \<leftarrow> for_each (\<lambda>ed (sc, h). do {
           w \<leftarrow> rg_edge_val g (es mod 2 ^ 16) ed;
           x \<leftarrow> num_add es_cost w;
           pd \<leftarrow> p ed;
           x \<leftarrow> num_sub x pd;
           relax_dist ed x (map_option int (vec_get (sc_edge_marks sc) (rg_size g * es + ed))) (sc, h) }) es_succs (sc, h);
       Some (sc, h, out) } })"

definition chromatic_dijkstra ::
  "readable \<Rightarrow> potential \<Rightarrow> nat list list \<Rightarrow> nat \<Rightarrow> scratch_space \<times> (nat \<times> number) list \<Rightarrow>
    (scratch_space \<times> (nat \<times> number) list) option" where
  "chromatic_dijkstra g p colour_succs src = (\<lambda>(sc, out).
     if rg_size g = 0 then Some (sc, out)
     else do {
       (init_succs, sc) \<leftarrow> dijkstra_init g p src sc;
       sc \<leftarrow> for_each (\<lambda>(dest, _) sc. do {
           m \<leftarrow> vec_get (sc_edge_marks sc) (rg_size g * src + dest);
           set_mark dest (int m) sc }) init_succs sc;
       h \<leftarrow> dijkstra_build_heap (sc_dists sc) init_succs;
       (sc, h, out) \<leftarrow> while_opt (\<lambda>(_, h, _). \<not> heap_empty h) (chromatic_step g p colour_succs src) (sc, h, out);
       Some (sc, out) })"

definition recover_step ::
  "readable \<Rightarrow> potential \<Rightarrow> nat list \<Rightarrow> nat \<Rightarrow> scratch_space \<times> weight_heap \<times> edge_vector \<Rightarrow>
    (scratch_space \<times> weight_heap \<times> edge_vector) option" where
  "recover_step g p is_stable src = (\<lambda>(sc, h, delta). do {
     (es, h) \<leftarrow> heap_remove_min (sc_dists sc) h;
     d \<leftarrow> vec_get (sc_dists sc) es;
     pe \<leftarrow> p (es mod 2 ^ 16);
     es_cost \<leftarrow> num_add d pe;
     ps \<leftarrow> p src;
     es_val \<leftarrow> num_sub es_cost ps;
     better \<leftarrow> improves g src (es mod 2 ^ 16) es_val;
     let delta = (if better then delta @ [(src, es mod 2 ^ 16, es_val)] else delta);
     k \<leftarrow> vec_get (sc_vert_marks sc) es;
     if k = V_STABLE then Some (sc, h, delta)
     else do {
       st \<leftarrow> vec_get is_stable es;
       let es_mark = (if st \<noteq> 0 then V_STABLE else V_UNSTABLE);
       edges \<leftarrow> rg_e_succs g (es mod 2 ^ 16);
       (sc, h) \<leftarrow> for_each (\<lambda>(v, w) (sc, h). do {
           x \<leftarrow> num_add es_cost w;
           pd \<leftarrow> p v;
           x \<leftarrow> num_sub x pd;
           relax_dist v x (Some es_mark) (sc, h) }) edges (sc, h);
       Some (sc, h, delta) } })"

definition dijkstra_recover ::
  "readable \<Rightarrow> potential \<Rightarrow> nat list \<Rightarrow> nat \<Rightarrow> scratch_space \<times> edge_vector \<Rightarrow> (scratch_space \<times> edge_vector) option" where
  "dijkstra_recover g p is_stable src = (\<lambda>(sc, delta).
     if rg_size g = 0 then Some (sc, delta)
     else do {
       st \<leftarrow> vec_get is_stable src;
       if st \<noteq> 0 then Some (sc, delta)
       else do {
         (init_succs, sc) \<leftarrow> dijkstra_init g p src sc;
         sc \<leftarrow> for_each (\<lambda>(dest, _) sc. set_mark dest V_UNSTABLE sc) init_succs sc;
         h \<leftarrow> dijkstra_build_heap (sc_dists sc) init_succs;
         (sc, h, delta) \<leftarrow> while_opt (\<lambda>(_, h, _). \<not> heap_empty h) (recover_step g p is_stable src) (sc, h, delta);
         Some (sc, delta) } })"

subsection \<open>Closure after an assignment\<close>

text \<open>\<open>sort_by\<close> on the slack; the keys of a vector of at most one element are not computed.\<close>

fun slacks :: "number list \<Rightarrow> potential \<Rightarrow> nat list \<Rightarrow> (number \<times> nat) list option" where
  "slacks dists p [] = Some []"
| "slacks dists p (v # vs) =
     do { d \<leftarrow> vec_get dists v; pv \<leftarrow> p v; s \<leftarrow> num_sub d pv; rest \<leftarrow> slacks dists p vs; Some ((s, v) # rest) }"

definition sort_by_slack :: "number list \<Rightarrow> potential \<Rightarrow> nat list \<Rightarrow> nat list option" where
  "sort_by_slack dists p vs =
     (if length vs \<le> 1 then Some vs else do { ks \<leftarrow> slacks dists p vs; Some (map snd (sort_key fst ks)) })"

text \<open>An edge out of a vertex of the queue whose distance is \<open>d_wt\<close>.\<close>

definition fwd_edge :: "number \<Rightarrow> nat \<times> number \<Rightarrow> scratch_space \<times> nat list \<Rightarrow> (scratch_space \<times> nat list) option" where
  "fwd_edge d_wt = (\<lambda>(u, w) (sc, reach). do {
     e_wt \<leftarrow> num_add d_wt w;
     m \<leftarrow> vec_get (sc_vert_marks sc) u;
     if m = 0
     then do { sc \<leftarrow> set_dist u e_wt sc; sc \<leftarrow> set_mark u BF_QUEUED sc; Some (sc, reach @ [u]) }
     else do { old \<leftarrow> vec_get (sc_dists sc) u;
               if e_wt < old then do { sc \<leftarrow> set_dist u e_wt sc; Some (sc, reach) }
               else Some (sc, reach) } })"

definition close_after_assign_fwd ::
  "scratch_space \<Rightarrow> readable \<Rightarrow> potential \<Rightarrow> nat \<Rightarrow> (scratch_space \<times> (nat \<times> number) list) option" where
  "close_after_assign_fwd sc g p v =
     do { verts \<leftarrow> rg_verts g;
          sc \<leftarrow> for_each (\<lambda>u sc. set_mark u 0 sc) verts sc;
          sc \<leftarrow> set_mark v BF_QUEUED sc;
          sc \<leftarrow> set_dist v 0 sc;
          edges \<leftarrow> rg_e_succs g v;
          (sc, queue) \<leftarrow> for_each (\<lambda>(d, w) (sc, queue). do {
              sc \<leftarrow> set_mark d BF_QUEUED sc;
              sc \<leftarrow> set_dist d w sc;
              Some (sc, queue @ [d]) }) edges (sc, []);
          queue \<leftarrow> sort_by_slack (sc_dists sc) p queue;
          (sc, reach) \<leftarrow> for_each (\<lambda>d (sc, reach). do {
              d_wt \<leftarrow> vec_get (sc_dists sc) d;
              edges \<leftarrow> rg_e_succs g d;
              for_each (fwd_edge d_wt) edges (sc, reach) }) queue (sc, []);
          (sc, aux) \<leftarrow> for_each (\<lambda>d (sc, aux). do {
              x \<leftarrow> vec_get (sc_dists sc) d;
              sc \<leftarrow> set_mark d 0 sc;
              Some (sc, aux @ [(d, x)]) }) (queue @ reach) (sc, []);
          Some (sc, aux) }"

definition close_after_assign ::
  "scratch_space \<Rightarrow> readable \<Rightarrow> potential \<Rightarrow> nat \<Rightarrow> (scratch_space \<times> edge_vector) option" where
  "close_after_assign sc g p v =
     do { let sc = scratch_grow (rg_size g) sc;
          (sc, fwd) \<leftarrow> close_after_assign_fwd sc g p v;
          (sc, bwd) \<leftarrow> close_after_assign_fwd sc (rev_view g) (\<lambda>u. Option.bind (p u) num_neg) v;
          Some (sc, map (\<lambda>(u, w). (v, u, w)) fwd @ map (\<lambda>(u, w). (u, v, w)) bwd) }"

subsection \<open>Closure after a meet and after a widening\<close>

text \<open>The colour of an edge of the meet: the sides that have it with the same weight.\<close>

definition edge_colour :: "readable \<Rightarrow> readable \<Rightarrow> nat \<Rightarrow> nat \<Rightarrow> number \<Rightarrow> nat option" where
  "edge_colour l r s d w =
     do { lw \<leftarrow> rg_lookup l s d;
          rw \<leftarrow> rg_lookup r s d;
          let mark = (if lw = Some w then E_LEFT else 0) OR (if rw = Some w then E_RIGHT else 0);
          assert_that (mark \<noteq> 0);
          Some mark }"

definition close_after_meet ::
  "scratch_space \<Rightarrow> readable \<Rightarrow> potential \<Rightarrow> readable \<Rightarrow> readable \<Rightarrow> (scratch_space \<times> edge_vector) option" where
  "close_after_meet sc g pots l r =
     do { assert_that (rg_size l = rg_size r);
          let sz = rg_size l;
          let sc = scratch_grow sz sc;
          verts \<leftarrow> rg_verts g;
          (sc, colour_succs) \<leftarrow> for_each (\<lambda>s (sc, cs). do {
              edges \<leftarrow> rg_e_succs g s;
              for_each (\<lambda>(d, w) (sc, cs). do {
                mark \<leftarrow> edge_colour l r s d w;
                cs \<leftarrow> (if mark = E_LEFT then do { ds \<leftarrow> vec_get cs (2 * s); vec_set (2 * s) (ds @ [d]) cs }
                       else if mark = E_RIGHT then do { ds \<leftarrow> vec_get cs (2 * s + 1); vec_set (2 * s + 1) (ds @ [d]) cs }
                       else Some cs);
                ms \<leftarrow> vec_set (sz * s + d) mark (sc_edge_marks sc);
                Some (sc\<lparr>sc_edge_marks := ms\<rparr>, cs) }) edges (sc, cs) }) verts (sc, replicate (2 * sz) []);
          for_each (\<lambda>v (sc, delta). do {
            (sc, adjs) \<leftarrow> chromatic_dijkstra g pots colour_succs v (sc, []);
            Some (sc, delta @ map (\<lambda>(d, w). (v, d, w)) adjs) }) verts (sc, []) }"

definition close_after_widen ::
  "scratch_space \<Rightarrow> readable \<Rightarrow> potential \<Rightarrow> nat set \<Rightarrow> (scratch_space \<times> edge_vector) option" where
  "close_after_widen sc g p unstable =
     do { let sz = rg_size g;
          let sc = scratch_grow sz sc;
          verts \<leftarrow> rg_verts g;
          sc \<leftarrow> for_each (\<lambda>v sc. do {
              st \<leftarrow> vec_set v (if v \<in> unstable then nat V_UNSTABLE else nat V_STABLE) (sc_stability sc);
              Some (sc\<lparr>sc_stability := st\<rparr>) }) verts sc;
          assert_that (sz \<le> length (sc_stability sc));
          let stability = take sz (sc_stability sc);
          for_each (\<lambda>v (sc, delta). do {
            st \<leftarrow> vec_get stability v;
            if st = 0 then dijkstra_recover g p stability v (sc, delta) else Some (sc, delta) }) verts (sc, []) }"

subsection \<open>Strongly connected components\<close>

text \<open>
  Tarjan's algorithm: the scratch space (marks hold twice the index plus one while the vertex is
  on the stack, the queue holds the low links), the stack, the next index and the components
  found.  The recursion is unbounded in the code; here it may not return.
\<close>

record tarjan =
  tj_scratch :: scratch_space
  tj_stack :: "nat list"
  tj_index :: int
  tj_sccs :: "nat list list"

lemma for_each_mono [partial_function_mono]:
  assumes "\<And>x s. mono_option (\<lambda>f. B f x s)"
  shows "mono_option (\<lambda>f. for_each (B f) xs s)"
proof (induction xs arbitrary: s)
  case Nil
  then show ?case by (simp add: partial_function_mono)
next
  case (Cons x xs)
  show ?case unfolding for_each.simps by (rule bind_mono [OF assms Cons])
qed

text \<open>Popping the component of its root.\<close>

function pop_scc :: "nat \<Rightarrow> nat list \<Rightarrow> scratch_space \<Rightarrow> nat list \<Rightarrow> (nat list \<times> scratch_space \<times> nat list) option" where
  "pop_scc v stack sc scc =
     (case vec_pop stack of
        None \<Rightarrow> None
      | Some (w, rest) \<Rightarrow>
          do { m \<leftarrow> vec_get (sc_vert_marks sc) w;
               sc \<leftarrow> set_mark w (m AND NOT 1) sc;
               if w = v then Some (rest, sc, scc @ [w]) else pop_scc v rest sc (scc @ [w]) })"
  by pat_completeness auto
termination
  by (relation "measure (\<lambda>(_, stack, _, _). length stack)")
    (auto simp: vec_pop_def simp flip: length_greater_0_conv split: if_splits)

declare pop_scc.simps [simp del]

definition low_link :: "nat \<Rightarrow> nat \<Rightarrow> scratch_space \<Rightarrow> scratch_space option" where
  "low_link v x sc = do { old \<leftarrow> vec_get (sc_dual_queue sc) v; set_queue v (min old x) sc }"

partial_function (option) strong_connect :: "readable \<Rightarrow> nat \<Rightarrow> tarjan \<Rightarrow> tarjan option" where
  "strong_connect g v st =
     do { sc \<leftarrow> set_mark v (push_bit 1 (tj_index st) OR 1) (tj_scratch st);
          sc \<leftarrow> set_queue v (nat (tj_index st) mod 2 ^ 16) sc;
          let st = st\<lparr>tj_scratch := sc, tj_index := tj_index st + 1, tj_stack := tj_stack st @ [v]\<rparr>;
          succs \<leftarrow> rg_succs g v;
          st \<leftarrow> for_each (\<lambda>w st. do {
              m \<leftarrow> vec_get (sc_vert_marks (tj_scratch st)) w;
              if m = 0
              then do { st \<leftarrow> strong_connect g w st;
                        x \<leftarrow> vec_get (sc_dual_queue (tj_scratch st)) w;
                        sc \<leftarrow> low_link v x (tj_scratch st);
                        Some (st\<lparr>tj_scratch := sc\<rparr>) }
              else if m AND 1 \<noteq> 0
              then do { sc \<leftarrow> low_link v (nat (drop_bit 1 m) mod 2 ^ 16) (tj_scratch st);
                        Some (st\<lparr>tj_scratch := sc\<rparr>) }
              else Some st }) succs st;
          q \<leftarrow> vec_get (sc_dual_queue (tj_scratch st)) v;
          m \<leftarrow> vec_get (sc_vert_marks (tj_scratch st)) v;
          if q = nat (drop_bit 1 m) mod 2 ^ 16
          then do { (stack, sc, scc) \<leftarrow> pop_scc v (tj_stack st) (tj_scratch st) [];
                    Some (st\<lparr>tj_scratch := sc, tj_stack := stack, tj_sccs := tj_sccs st @ [scc]\<rparr>) }
          else Some st }"

definition compute_sccs :: "readable \<Rightarrow> scratch_space \<Rightarrow> (scratch_space \<times> nat list list) option" where
  "compute_sccs g sc =
     do { let sc = scratch_grow (rg_size g) sc;
          verts \<leftarrow> rg_verts g;
          sc \<leftarrow> for_each (\<lambda>v sc. set_mark v 0 sc) verts sc;
          (sc, out) \<leftarrow> for_each (\<lambda>v (sc, out). do {
              m \<leftarrow> vec_get (sc_vert_marks sc) v;
              if m = 0
              then do { st \<leftarrow> strong_connect g v \<lparr>tj_scratch = sc, tj_stack = [], tj_index = 1, tj_sccs = out\<rparr>;
                        Some (tj_scratch st, tj_sccs st) }
              else Some (sc, out) }) verts (sc, []);
          sc \<leftarrow> for_each (\<lambda>v sc. set_mark v 0 sc) verts sc;
          Some (sc, out) }"

subsection \<open>Selecting potentials\<close>

text \<open>
  One component of the Bellman-Ford algorithm.  The queue array holds the current queue from
  \<open>q_start\<close> to \<open>q_end\<close> and the next one from its own start to \<open>next_end\<close>.
\<close>

definition relax_potential ::
  "number \<Rightarrow> nat \<times> number \<Rightarrow> scratch_space \<times> number list \<times> nat \<Rightarrow> (scratch_space \<times> number list \<times> nat) option" where
  "relax_potential s_pot = (\<lambda>(d, w) (sc, pots, next_end). do {
     sd_pot \<leftarrow> num_add s_pot w;
     old \<leftarrow> vec_get pots d;
     if sd_pot < old
     then do { pots \<leftarrow> vec_set d sd_pot pots;
               m \<leftarrow> vec_get (sc_vert_marks sc) d;
               if m = BF_SCC
               then do { sc \<leftarrow> set_queue next_end d sc;
                         sc \<leftarrow> set_mark d (BF_SCC OR BF_QUEUED) sc;
                         Some (sc, pots, next_end + 1) }
               else Some (sc, pots, next_end) }
     else Some (sc, pots, next_end) })"

definition drain_queue ::
  "readable \<Rightarrow> nat \<Rightarrow> scratch_space \<times> number list \<times> nat \<times> nat \<Rightarrow> (scratch_space \<times> number list \<times> nat \<times> nat) option" where
  "drain_queue g q_start = while_opt (\<lambda>(_, _, q_end, _). q_end \<noteq> q_start) (\<lambda>(sc, pots, q_end, next_end). do {
     q_end \<leftarrow> sub_usize q_end 1;
     s \<leftarrow> vec_get (sc_dual_queue sc) q_end;
     sc \<leftarrow> set_mark s BF_SCC sc;
     s_pot \<leftarrow> vec_get pots s;
     edges \<leftarrow> rg_e_succs g s;
     (sc, pots, next_end) \<leftarrow> for_each (relax_potential s_pot) edges (sc, pots, next_end);
     Some (sc, pots, q_end, next_end) })"

text \<open>The rounds of one component, at most as many as it has vertices; the queues are swapped after each.\<close>

fun bf_rounds ::
  "readable \<Rightarrow> nat \<Rightarrow> nat list \<Rightarrow> scratch_space \<Rightarrow> number list \<Rightarrow> nat \<Rightarrow> nat \<Rightarrow> nat \<Rightarrow> nat \<Rightarrow>
    (scratch_space \<times> number list \<times> nat \<times> nat) option" where
  "bf_rounds g sz [] sc pots q_start q_end next_start next_end = Some (sc, pots, q_start, q_end)"
| "bf_rounds g sz (_ # rest) sc pots q_start q_end next_start next_end =
     do { (sc, pots, q_end, next_end) \<leftarrow> drain_queue g q_start (sc, pots, q_end, next_end);
          let (q_start, q_end) = (next_start, next_end);
          let next_start = (if next_start = sz then 0 else sz);
          if q_start = q_end then Some (sc, pots, q_start, q_end)
          else bf_rounds g sz rest sc pots q_start q_end next_start next_start }"

text \<open>The feasibility check: whether an edge out of a queued vertex still improves.\<close>

fun improvable :: "number list \<Rightarrow> number \<Rightarrow> (nat \<times> number) list \<Rightarrow> bool option" where
  "improvable pots s_pot [] = Some False"
| "improvable pots s_pot ((d, w) # es) =
     do { x \<leftarrow> num_add s_pot w; old \<leftarrow> vec_get pots d; if x < old then Some True else improvable pots s_pot es }"

fun queue_improvable :: "readable \<Rightarrow> number list \<Rightarrow> nat list \<Rightarrow> bool option" where
  "queue_improvable g pots [] = Some False"
| "queue_improvable g pots (s # ss) =
     do { s_pot \<leftarrow> vec_get pots s;
          edges \<leftarrow> rg_e_succs g s;
          b \<leftarrow> improvable pots s_pot edges;
          if b then Some True else queue_improvable g pots ss }"

text \<open>The components, sources first; the outcome is \<open>None\<close> of the inner option for a negative cycle.\<close>

fun select_loop ::
  "readable \<Rightarrow> nat \<Rightarrow> nat list list \<Rightarrow> scratch_space \<Rightarrow> number list \<Rightarrow> (bool \<times> scratch_space \<times> number list) option" where
  "select_loop g sz [] sc pots = Some (True, sc, pots)"
| "select_loop g sz (scc # sccs) sc pots =
     do { (sc, q_end) \<leftarrow> for_each (\<lambda>v (sc, q_end). do {
              sc \<leftarrow> set_queue q_end v sc;
              sc \<leftarrow> set_mark v (BF_SCC OR BF_QUEUED) sc;
              Some (sc, q_end + 1) }) scc (sc, 0);
          (sc, pots, q_start, q_end) \<leftarrow> bf_rounds g sz scc sc pots 0 q_end sz sz;
          assert_that (q_start \<le> q_end \<and> q_end \<le> length (sc_dual_queue sc));
          cycle \<leftarrow> queue_improvable g pots (rev (take (q_end - q_start) (drop q_start (sc_dual_queue sc))));
          if cycle
          then do { verts \<leftarrow> rg_verts g;
                    sc \<leftarrow> for_each (\<lambda>v sc. set_mark v BF_NONE sc) verts sc;
                    Some (False, sc, pots) }
          else do { sc \<leftarrow> for_each (\<lambda>v sc. set_mark v BF_NONE sc) scc sc;
                    select_loop g sz sccs sc pots } }"

definition select_potentials ::
  "scratch_space \<Rightarrow> readable \<Rightarrow> number list \<Rightarrow> (bool \<times> scratch_space \<times> number list) option" where
  "select_potentials sc g pots =
     do { assert_that (length pots \<ge> rg_size g);
          let sc = scratch_grow (rg_size g) sc;
          (sc, sccs) \<leftarrow> compute_sccs g sc;
          select_loop g (rg_size g) (rev sccs) sc pots }"

end
