(* ===== verification/Split_Dbm.thy ===== *)
theory Split_Dbm
  imports Graph_Paths Extended_Number
begin

text \<open>
  \<open>src/crab/splitdbm/split_dbm.rs\<close>: the difference-bound domain over vertices.  An edge from \<open>s\<close> to
  \<open>d\<close> with weight \<open>w\<close> is the constraint that \<open>d\<close> minus \<open>s\<close> is at most \<open>w\<close>; vertex 0 stands for zero.
  The potential is a solution of the constraints.
\<close>

subsection \<open>The state\<close>

datatype side = Left | Right

record split_dbm =
  dbm_g :: graph
  dbm_potential :: "number list"
  dbm_unstable :: "nat set"

definition dbm_new :: "split_dbm option" where
  "dbm_new = do { g \<leftarrow> grow_to 1 graph_new; Some \<lparr>dbm_g = g, dbm_potential = [0], dbm_unstable = {}\<rparr> }"

definition dbm_is_top :: "split_dbm \<Rightarrow> bool" where
  "dbm_is_top d = graph_is_empty (dbm_g d)"

subsection \<open>Bounds\<close>

definition get_bound :: "split_dbm \<Rightarrow> nat \<Rightarrow> side \<Rightarrow> extended_number option" where
  "get_bound d v sd =
     (case sd of
        Left \<Rightarrow> do { e \<leftarrow> graph_elem (dbm_g d) v 0;
                     if e then do { w \<leftarrow> edge_val (dbm_g d) v 0; n \<leftarrow> num_neg w; Some (Finite n) }
                     else Some MinusInfinity }
      | Right \<Rightarrow> do { e \<leftarrow> graph_elem (dbm_g d) 0 v;
                      if e then do { w \<leftarrow> edge_val (dbm_g d) 0 v; Some (Finite w) }
                      else Some PlusInfinity })"

definition set_bound :: "split_dbm \<Rightarrow> nat \<Rightarrow> side \<Rightarrow> number \<Rightarrow> split_dbm option" where
  "set_bound d v sd bound_value =
     do { g \<leftarrow> (case sd of
            Left \<Rightarrow> do { n \<leftarrow> num_neg bound_value; set_edge v n 0 (dbm_g d) }
          | Right \<Rightarrow> set_edge 0 bound_value v (dbm_g d));
          p0 \<leftarrow> vec_get (dbm_potential d) 0;
          x \<leftarrow> num_add p0 bound_value;
          p \<leftarrow> vec_set v x (dbm_potential d);
          Some (d\<lparr>dbm_g := g, dbm_potential := p\<rparr>) }"

subsection \<open>Vertices\<close>

definition dbm_new_vertex :: "split_dbm \<Rightarrow> (nat \<times> split_dbm) option" where
  "dbm_new_vertex d =
     do { (vert, g) \<leftarrow> new_vertex (dbm_g d);
          p \<leftarrow> (if vert \<ge> length (dbm_potential d) then Some (dbm_potential d @ [0])
                else vec_set vert 0 (dbm_potential d));
          Some (vert, d\<lparr>dbm_g := g, dbm_potential := p\<rparr>) }"

definition dbm_forget :: "nat \<Rightarrow> split_dbm \<Rightarrow> split_dbm option" where
  "dbm_forget v d = do { g \<leftarrow> forget v (dbm_g d); Some (d\<lparr>dbm_g := g\<rparr>) }"

definition potential_at :: "split_dbm \<Rightarrow> nat \<Rightarrow> number option" where
  "potential_at d v = vec_get (dbm_potential d) v"

definition potential_at_zero :: "split_dbm \<Rightarrow> number option" where
  "potential_at_zero d = vec_get (dbm_potential d) 0"

definition dbm_graph_size :: "split_dbm \<Rightarrow> nat" where
  "dbm_graph_size d = graph_size (dbm_g d)"

definition dbm_num_edges :: "split_dbm \<Rightarrow> nat" where
  "dbm_num_edges d = num_edges (dbm_g d)"

definition vertex_has_edges :: "split_dbm \<Rightarrow> nat \<Rightarrow> bool option" where
  "vertex_has_edges d v =
     do { s \<leftarrow> succs_len (dbm_g d) v;
          if s > 0 then Some True else do { p \<leftarrow> preds_len (dbm_g d) v; Some (p > 0) } }"

fun disconnected :: "split_dbm \<Rightarrow> nat list \<Rightarrow> nat list option" where
  "disconnected d [] = Some []"
| "disconnected d (v # vs) =
     do { keep \<leftarrow> (if v = 0 then Some False else map_option Not (vertex_has_edges d v));
          rest \<leftarrow> disconnected d vs;
          Some (if keep then v # rest else rest) }"

definition get_disconnected_vertices :: "split_dbm \<Rightarrow> nat list option" where
  "get_disconnected_vertices d = do { vs \<leftarrow> graph_verts (dbm_g d); disconnected d vs }"

subsection \<open>Adding constraints\<close>

definition repair_with :: "scratch_space \<Rightarrow> nat \<Rightarrow> nat \<Rightarrow> split_dbm \<Rightarrow> (bool \<times> split_dbm \<times> scratch_space) option" where
  "repair_with sc src dest d =
     do { (b, p, sc) \<leftarrow> repair_potential sc (adapt_view (dbm_g d)) (dbm_potential d) src dest;
          Some (b, d\<lparr>dbm_potential := p\<rparr>, sc) }"

definition dbm_repair_potential :: "nat \<Rightarrow> nat \<Rightarrow> split_dbm \<Rightarrow> (bool \<times> split_dbm) option" where
  "dbm_repair_potential src dest d = do { (b, d, sc) \<leftarrow> repair_with scratch_new src dest d; Some (b, d) }"

definition update_bound_if_tighter :: "nat \<Rightarrow> side \<Rightarrow> number \<Rightarrow> split_dbm \<Rightarrow> (bool \<times> split_dbm) option" where
  "update_bound_if_tighter v sd new_bound d =
     (case sd of
        Left \<Rightarrow> do {
          w \<leftarrow> graph_lookup (dbm_g d) v 0;
          n \<leftarrow> num_neg new_bound;
          if (case w of Some w \<Rightarrow> w \<le> n | None \<Rightarrow> False) then Some (True, d)
          else do { g \<leftarrow> set_edge v n 0 (dbm_g d); dbm_repair_potential v 0 (d\<lparr>dbm_g := g\<rparr>) } }
      | Right \<Rightarrow> do {
          w \<leftarrow> graph_lookup (dbm_g d) 0 v;
          if (case w of Some w \<Rightarrow> w \<le> new_bound | None \<Rightarrow> False) then Some (True, d)
          else do { g \<leftarrow> set_edge 0 new_bound v (dbm_g d); dbm_repair_potential 0 v (d\<lparr>dbm_g := g\<rparr>) } })"

definition add_difference_constraint :: "nat \<Rightarrow> nat \<Rightarrow> number \<Rightarrow> split_dbm \<Rightarrow> (bool \<times> split_dbm) option" where
  "add_difference_constraint src dest k d =
     do { g \<leftarrow> update_edge src k dest (dbm_g d);
          (b, d) \<leftarrow> dbm_repair_potential src dest (d\<lparr>dbm_g := g\<rparr>);
          if \<not> b then Some (False, d)
          else do { g \<leftarrow> close_over_edge src dest (dbm_g d); Some (True, d\<lparr>dbm_g := g\<rparr>) } }"

definition dbm_apply_delta :: "edge_vector \<Rightarrow> split_dbm \<Rightarrow> split_dbm option" where
  "dbm_apply_delta delta d = do { g \<leftarrow> apply_delta delta (dbm_g d); Some (d\<lparr>dbm_g := g\<rparr>) }"

definition close_after_bound_updates :: "split_dbm \<Rightarrow> split_dbm option" where
  "close_after_bound_updates d =
     do { (sc, delta) \<leftarrow> close_after_assign scratch_new (adapt_view (dbm_g d)) (pot_func (dbm_potential d)) 0;
          dbm_apply_delta delta d }"

definition close_after_assign_vertex :: "nat \<Rightarrow> split_dbm \<Rightarrow> split_dbm option" where
  "close_after_assign_vertex v d =
     do { (sc, delta) \<leftarrow> close_after_assign scratch_new (sub_view (dbm_g d) 0) (pot_func (dbm_potential d)) v;
          dbm_apply_delta delta d }"

definition assign_vertex ::
  "number \<Rightarrow> (nat \<times> number) list \<Rightarrow> (nat \<times> number) list \<Rightarrow> number option \<Rightarrow> number option \<Rightarrow> split_dbm \<Rightarrow>
    (nat \<times> split_dbm) option" where
  "assign_vertex potential_value diffs_from diffs_to lb_edge ub_edge d =
     do { (vert, d) \<leftarrow> dbm_new_vertex d;
          p \<leftarrow> vec_set vert potential_value (dbm_potential d);
          let d = d\<lparr>dbm_potential := p\<rparr>;
          let delta = map (\<lambda>(dest, w). (vert, dest, w)) diffs_from @ map (\<lambda>(src, w). (src, vert, w)) diffs_to;
          d \<leftarrow> dbm_apply_delta delta d;
          d \<leftarrow> close_after_assign_vertex vert d;
          g \<leftarrow> (case lb_edge of Some lb \<Rightarrow> update_edge vert lb 0 (dbm_g d) | None \<Rightarrow> Some (dbm_g d));
          g \<leftarrow> (case ub_edge of Some ub \<Rightarrow> update_edge 0 ub vert g | None \<Rightarrow> Some g);
          Some (vert, d\<lparr>dbm_g := g\<rparr>) }"

text \<open>
  The propagation of \<open>strengthen_bound\<close> to one neighbour: the edge between the neighbour and zero is
  tightened and the potential repaired; the loop stops with \<open>false\<close> at the first failure.
\<close>

fun propagate ::
  "(nat \<Rightarrow> nat) \<Rightarrow> (nat \<Rightarrow> nat) \<Rightarrow> number \<Rightarrow> (nat \<times> number) list \<Rightarrow> scratch_space \<Rightarrow> split_dbm \<Rightarrow> (bool \<times> split_dbm) option" where
  "propagate from to bound [] sc d = Some (True, d)"
| "propagate from to bound ((u, w) # es) sc d =
     do { x \<leftarrow> num_add w bound;
          g \<leftarrow> update_edge (from u) x (to u) (dbm_g d);
          (b, d, sc) \<leftarrow> repair_with sc (from u) (to u) (d\<lparr>dbm_g := g\<rparr>);
          if \<not> b then Some (False, d) else propagate from to bound es sc d }"

definition strengthen_bound :: "nat \<Rightarrow> side \<Rightarrow> number \<Rightarrow> split_dbm \<Rightarrow> (bool \<times> split_dbm) option" where
  "strengthen_bound v sd bound_value d =
     (case sd of
        Left \<Rightarrow> do {
          edge_weight \<leftarrow> num_neg bound_value;
          w \<leftarrow> graph_lookup (dbm_g d) v 0;
          if (case w of None \<Rightarrow> True | Some w \<Rightarrow> edge_weight \<ge> w) then Some (True, d)
          else do {
            g \<leftarrow> set_edge v edge_weight 0 (dbm_g d);
            (b, d, sc) \<leftarrow> repair_with scratch_new v 0 (d\<lparr>dbm_g := g\<rparr>);
            if \<not> b then Some (False, d)
            else do { preds \<leftarrow> e_preds (dbm_g d) v;
                      propagate (\<lambda>u. u) (\<lambda>u. 0) edge_weight (filter (\<lambda>e. fst e \<noteq> 0) preds) sc d } } }
      | Right \<Rightarrow> do {
          w \<leftarrow> graph_lookup (dbm_g d) 0 v;
          if (case w of None \<Rightarrow> True | Some w \<Rightarrow> bound_value \<ge> w) then Some (True, d)
          else do {
            g \<leftarrow> set_edge 0 bound_value v (dbm_g d);
            (b, d, sc) \<leftarrow> repair_with scratch_new 0 v (d\<lparr>dbm_g := g\<rparr>);
            if \<not> b then Some (False, d)
            else do { succs \<leftarrow> e_succs (dbm_g d) v;
                      propagate (\<lambda>u. 0) (\<lambda>u. u) bound_value (filter (\<lambda>e. fst e \<noteq> 0) succs) sc d } } })"

definition normalize :: "split_dbm \<Rightarrow> split_dbm option" where
  "normalize d =
     (if dbm_unstable d = {} then Some d
      else do {
        (sc, delta_widen) \<leftarrow> close_after_widen scratch_new (sub_view (dbm_g d) 0) (pot_func (dbm_potential d)) (dbm_unstable d);
        d \<leftarrow> dbm_apply_delta delta_widen d;
        (sc, delta_assign) \<leftarrow> close_after_assign sc (adapt_view (dbm_g d)) (pot_func (dbm_potential d)) 0;
        d \<leftarrow> dbm_apply_delta delta_assign d;
        Some (d\<lparr>dbm_unstable := {}\<rparr>) })"

definition from_parts :: "graph \<Rightarrow> number list \<Rightarrow> nat set \<Rightarrow> split_dbm option" where
  "from_parts g p u = normalize \<lparr>dbm_g = g, dbm_potential = p, dbm_unstable = u\<rparr>"

subsection \<open>Inclusion\<close>

fun subsumed_edges :: "graph \<Rightarrow> nat list \<Rightarrow> nat \<Rightarrow> (nat \<times> number) list \<Rightarrow> bool option" where
  "subsumed_edges g perm x [] = Some True"
| "subsumed_edges g perm x ((oy, ow) # es) =
     do { y \<leftarrow> vec_get perm oy;
          w \<leftarrow> graph_lookup g x y;
          if (case w of Some w \<Rightarrow> w \<le> ow | None \<Rightarrow> False) then subsumed_edges g perm x es
          else do {
            wx \<leftarrow> graph_lookup g x 0;
            (case wx of
               None \<Rightarrow> Some False
             | Some wx \<Rightarrow> do {
                 wy \<leftarrow> graph_lookup g 0 y;
                 (case wy of
                    None \<Rightarrow> Some False
                  | Some wy \<Rightarrow> do { t \<leftarrow> num_add wx wy;
                                    if t \<le> ow then subsumed_edges g perm x es else Some False }) }) } }"

fun subsumed_verts :: "graph \<Rightarrow> graph \<Rightarrow> nat list \<Rightarrow> nat list \<Rightarrow> bool option" where
  "subsumed_verts g og perm [] = Some True"
| "subsumed_verts g og perm (ox # vs) =
     do { n \<leftarrow> succs_len og ox;
          if n = 0 then subsumed_verts g og perm vs
          else do { x \<leftarrow> vec_get perm ox;
                    es \<leftarrow> e_succs og ox;
                    b \<leftarrow> subsumed_edges g perm x es;
                    if b then subsumed_verts g og perm vs else Some False } }"

definition is_subsumed_by :: "split_dbm \<Rightarrow> split_dbm \<Rightarrow> nat list \<Rightarrow> bool option" where
  "is_subsumed_by left right perm =
     do { vs \<leftarrow> graph_verts (dbm_g right); subsumed_verts (dbm_g left) (dbm_g right) perm vs }"

subsection \<open>Aligned pairs\<close>

record aligned_pair =
  al_left :: split_dbm
  al_right :: split_dbm
  left_perm :: "nat list"
  right_perm :: "nat list"
  initial_potentials :: "number list"

definition aligned_size :: "aligned_pair \<Rightarrow> nat" where
  "aligned_size a = length (left_perm a)"

definition compute_deferred :: "readable \<Rightarrow> readable \<Rightarrow> nat \<Rightarrow> graph option" where
  "compute_deferred g_bounds g_rel sz =
     do { g_deferred \<leftarrow> grow_to sz graph_new;
          vs \<leftarrow> rg_verts g_rel;
          for_each (\<lambda>s g.
            if s = 0 then Some g
            else do {
              ds \<leftarrow> rg_succs g_rel s;
              for_each (\<lambda>d g.
                if d = 0 then Some g
                else do {
                  ws \<leftarrow> rg_lookup g_bounds s 0;
                  (case ws of
                     None \<Rightarrow> Some g
                   | Some ws \<Rightarrow> do {
                       wd \<leftarrow> rg_lookup g_bounds 0 d;
                       (case wd of
                          None \<Rightarrow> Some g
                        | Some wd \<Rightarrow> do { w \<leftarrow> num_add ws wd; add_edge s w d g }) }) }) ds g }) vs g_deferred }"

definition close_deferred ::
  "scratch_space \<Rightarrow> readable \<Rightarrow> graph \<Rightarrow> number list \<Rightarrow> (graph \<times> scratch_space) option" where
  "close_deferred sc g_base g_deferred pot =
     do { (g_closed, is_closed) \<leftarrow> graph_meet g_base (adapt_view g_deferred);
          if is_closed then Some (g_closed, sc)
          else do {
            (sc, delta) \<leftarrow> close_after_meet sc (sub_view g_closed 0) (pot_func pot) g_base (adapt_view g_deferred);
            g \<leftarrow> apply_delta delta g_closed;
            Some (g, sc) } }"

text \<open>The potentials of one side relative to its zero, with zero at 0.\<close>

fun relative_potentials :: "number list \<Rightarrow> nat list \<Rightarrow> number list option" where
  "relative_potentials pot [] = Some []"
| "relative_potentials pot (v # vs) =
     do { pv \<leftarrow> vec_get pot v; p0 \<leftarrow> vec_get pot 0; x \<leftarrow> num_sub pv p0;
          xs \<leftarrow> relative_potentials pot vs; Some (x # xs) }"

text \<open>The vertices whose bounds one side has tighter: lower up, lower down, upper up, upper down.\<close>

record bound_moves =
  lb_up :: "nat list"
  lb_down :: "nat list"
  ub_up :: "nat list"
  ub_down :: "nat list"

definition bound_move :: "readable \<Rightarrow> readable \<Rightarrow> nat \<Rightarrow> bound_moves \<Rightarrow> bound_moves option" where
  "bound_move gx gy v m =
     (if v = 0 then Some m
      else do {
        wx \<leftarrow> rg_lookup gx 0 v;
        wy \<leftarrow> rg_lookup gy 0 v;
        let m = (case (wx, wy) of
            (Some wx, Some wy) \<Rightarrow>
              (let m = (if wx < wy then m\<lparr>ub_up := ub_up m @ [v]\<rparr> else m)
               in if wy < wx then m\<lparr>ub_down := ub_down m @ [v]\<rparr> else m)
          | _ \<Rightarrow> m);
        wx \<leftarrow> rg_lookup gx v 0;
        wy \<leftarrow> rg_lookup gy v 0;
        Some (case (wx, wy) of
            (Some wx, Some wy) \<Rightarrow>
              (let m = (if wx < wy then m\<lparr>lb_down := lb_down m @ [v]\<rparr> else m)
               in if wy < wx then m\<lparr>lb_up := lb_up m @ [v]\<rparr> else m)
          | _ \<Rightarrow> m) })"

definition apply_lb_ub :: "readable \<Rightarrow> readable \<Rightarrow> nat list \<Rightarrow> nat list \<Rightarrow> graph \<Rightarrow> graph option" where
  "apply_lb_ub gx gy sources dests = for_each (\<lambda>s g. do {
     left_lb \<leftarrow> rg_edge_val gx s 0;
     right_lb \<leftarrow> rg_edge_val gy s 0;
     for_each (\<lambda>d g.
       if s \<noteq> d
       then do { lu \<leftarrow> rg_edge_val gx 0 d;
                 left_val \<leftarrow> num_add left_lb lu;
                 ru \<leftarrow> rg_edge_val gy 0 d;
                 right_val \<leftarrow> num_add right_lb ru;
                 update_edge s (max left_val right_val) d g }
       else Some g) dests g }) sources"

definition dbm_join :: "aligned_pair \<Rightarrow> split_dbm option" where
  "dbm_join a =
     do { let sz = aligned_size a;
          pot_left \<leftarrow> relative_potentials (dbm_potential (al_left a)) (take sz (left_perm a));
          pot_right \<leftarrow> relative_potentials (dbm_potential (al_right a)) (take sz (right_perm a));
          assert_that (sz \<le> length (right_perm a));
          pot_left \<leftarrow> vec_set 0 0 pot_left;
          pot_right \<leftarrow> vec_set 0 0 pot_right;
          px \<leftarrow> graph_perm_new (left_perm a) (dbm_g (al_left a));
          py \<leftarrow> graph_perm_new (right_perm a) (dbm_g (al_right a));
          let gx = perm_view px;
          let gy = perm_view py;
          g_deferred_right \<leftarrow> compute_deferred gx gy sz;
          (g_closed_left, sc) \<leftarrow> close_deferred scratch_new gx g_deferred_right pot_left;
          g_deferred_left \<leftarrow> compute_deferred gy gx sz;
          (g_closed_right, sc) \<leftarrow> close_deferred sc gy g_deferred_left pot_right;
          g \<leftarrow> graph_join (adapt_view g_closed_left) (adapt_view g_closed_right);
          vs \<leftarrow> rg_verts gx;
          m \<leftarrow> for_each (bound_move gx gy) vs \<lparr>lb_up = [], lb_down = [], ub_up = [], ub_down = []\<rparr>;
          g \<leftarrow> apply_lb_ub gx gy (lb_up m) (ub_up m) g;
          g \<leftarrow> apply_lb_ub gx gy (lb_down m) (ub_down m) g;
          Some \<lparr>dbm_g = g, dbm_potential = pot_left, dbm_unstable = {}\<rparr> }"

definition dbm_widen :: "aligned_pair \<Rightarrow> split_dbm option" where
  "dbm_widen a =
     do { let sz = aligned_size a;
          pot \<leftarrow> relative_potentials (dbm_potential (al_left a)) (take sz (left_perm a));
          pot \<leftarrow> vec_set 0 0 pot;
          px \<leftarrow> graph_perm_new (left_perm a) (dbm_g (al_left a));
          py \<leftarrow> graph_perm_new (right_perm a) (dbm_g (al_right a));
          (g, unstable) \<leftarrow> graph_widen (perm_view px) (perm_view py) (dbm_unstable (al_left a));
          from_parts g pot unstable }"

text \<open>
  The meet is \<open>None\<close> of the inner option when there is no solution.  The potentials of the pair are
  taken by the result; when there is none they are left in the state the search left them in.
\<close>

definition dbm_meet :: "aligned_pair \<Rightarrow> (split_dbm option \<times> aligned_pair) option" where
  "dbm_meet a =
     do { px \<leftarrow> graph_perm_new (left_perm a) (dbm_g (al_left a));
          py \<leftarrow> graph_perm_new (right_perm a) (dbm_g (al_right a));
          let gx = perm_view px;
          let gy = perm_view py;
          (g, is_closed) \<leftarrow> graph_meet gx gy;
          (feasible, sc, pot) \<leftarrow> select_potentials scratch_new (adapt_view g) (initial_potentials a);
          let a = a\<lparr>initial_potentials := pot\<rparr>;
          if \<not> feasible then Some (None, a)
          else do {
            g \<leftarrow> (if is_closed then Some g
                  else do {
                    (sc, delta_meet) \<leftarrow> close_after_meet sc (sub_view g 0) (pot_func pot) gx gy;
                    g \<leftarrow> apply_delta delta_meet g;
                    (sc, delta_assign) \<leftarrow> close_after_assign sc (adapt_view g) (pot_func pot) 0;
                    apply_delta delta_assign g });
            Some (Some \<lparr>dbm_g = g, dbm_potential = pot, dbm_unstable = {}\<rparr>, a\<lparr>initial_potentials := []\<rparr>) } }"

end
