(* ===== verification/Var_Registry.thy ===== *)
theory Var_Registry
  imports Type_Encoding Number
begin

text \<open>
  \<open>src/crab/var_registry.rs\<close>: the factory that interns variable names.  A variable is the position
  of its name; next to the names are their metadata and the index from names to positions.
\<close>

subsection \<open>The state\<close>

type_synonym var_id = nat

record var_metadata =
  vm_kind :: "data_kind option"
  vm_is_stack_cell :: bool
  vm_is_loop_counter :: bool
  vm_is_min_only :: bool

definition metadata_default :: var_metadata where
  "metadata_default =
     \<lparr>vm_kind = None, vm_is_stack_cell = False, vm_is_loop_counter = False, vm_is_min_only = False\<rparr>"

record variable_registry =
  vr_names :: "string list"
  vr_metadata :: "var_metadata list"
  vr_index :: "string \<Rightarrow> nat option"

definition DEFAULT_REG_KINDS :: "data_kind list" where
  "DEFAULT_REG_KINDS =
     [Svalues, Uvalues, CtxOffsets, MapFds, MapFdPrograms_kind, PacketOffsets, SharedOffsets, StackOffsets, Types,
      SharedRegionSizes, StackNumericSizes, SocketOffsets, BtfIdOffsets, AllocMemOffsets, AllocMemSizes]"

definition is_size_kind :: "data_kind \<Rightarrow> bool" where
  "is_size_kind kind \<longleftrightarrow> kind = StackNumericSizes \<or> kind = SharedRegionSizes"

definition meta_for_kind :: "data_kind \<Rightarrow> bool \<Rightarrow> var_metadata" where
  "meta_for_kind kind is_stack_cell =
     \<lparr>vm_kind = Some kind, vm_is_stack_cell = is_stack_cell, vm_is_loop_counter = False,
      vm_is_min_only = is_size_kind kind\<rparr>"

text \<open>The name of register \<open>i\<close>; \<open>i\<close> is an \<open>i32\<close>, printed in decimal.\<close>

definition reg_name :: "int \<Rightarrow> data_kind \<Rightarrow> string" where
  "reg_name i kind = ''r'' @ int_string i @ ''.'' @ name_of kind"

definition SPECIALS :: "(string \<times> var_metadata) list" where
  "SPECIALS = [(''data_size'', metadata_default), (''meta_size'', metadata_default), (''meta_offset'', metadata_default),
     (''packet_size'', metadata_default\<lparr>vm_is_min_only := True\<rparr>)]"

definition default_variables :: "(string \<times> var_metadata) list" where
  "default_variables =
     concat (map (\<lambda>i. map (\<lambda>kind. (reg_name (int i) kind, meta_for_kind kind False)) DEFAULT_REG_KINDS) [0..<12]) @ SPECIALS"

fun index_from :: "nat \<Rightarrow> string list \<Rightarrow> string \<Rightarrow> nat option" where
  "index_from i [] = (\<lambda>_. None)"
| "index_from i (n # ns) = (\<lambda>s. case index_from (i + 1) ns s of Some j \<Rightarrow> Some j | None \<Rightarrow> if s = n then Some i else None)"

definition registry_new :: variable_registry where
  "registry_new =
     (let vs = default_variables
      in \<lparr>vr_names = map fst vs, vr_metadata = map snd vs, vr_index = index_from 0 (map fst vs)\<rparr>)"

subsection \<open>Interning\<close>

definition register :: "string \<Rightarrow> var_metadata \<Rightarrow> variable_registry \<Rightarrow> var_id \<times> variable_registry" where
  "register n m reg =
     (case vr_index reg n of
        Some i \<Rightarrow> (i, reg)
      | None \<Rightarrow>
          let i = length (vr_names reg)
          in (i, reg\<lparr>vr_names := vr_names reg @ [n], vr_metadata := vr_metadata reg @ [m],
                vr_index := (vr_index reg)(n \<mapsto> i)\<rparr>))"

definition make_variable :: "string \<Rightarrow> variable_registry \<Rightarrow> var_id \<times> variable_registry" where
  "make_variable n = register n metadata_default"

text \<open>\<open>None\<close> is the panic: a position that is not there, or a name that was never registered.\<close>

definition variable_name :: "variable_registry \<Rightarrow> var_id \<Rightarrow> string option" where
  "variable_name reg v = (if v < length (vr_names reg) then Some (vr_names reg ! v) else None)"

definition registry_get :: "variable_registry \<Rightarrow> string \<Rightarrow> var_id option" where
  "registry_get reg n = vr_index reg n"

definition reg_ref :: "variable_registry \<Rightarrow> data_kind \<Rightarrow> int \<Rightarrow> var_id option" where
  "reg_ref reg kind i = registry_get reg (reg_name i kind)"

definition reg_variable :: "data_kind \<Rightarrow> int \<Rightarrow> variable_registry \<Rightarrow> var_id \<times> variable_registry" where
  "reg_variable kind i = register (reg_name i kind) (meta_for_kind kind False)"

definition type_reg :: "int \<Rightarrow> variable_registry \<Rightarrow> var_id \<times> variable_registry" where
  "type_reg i = reg_variable Types i"

definition stack_frame_var :: "data_kind \<Rightarrow> int \<Rightarrow> string \<Rightarrow> variable_registry \<Rightarrow> var_id \<times> variable_registry" where
  "stack_frame_var kind i pre = register (pre @ ''/'' @ reg_name i kind) (meta_for_kind kind False)"

definition cell_var :: "data_kind \<Rightarrow> number \<Rightarrow> number \<Rightarrow> variable_registry \<Rightarrow> (var_id \<times> variable_registry) option" where
  "cell_var array offset sz reg =
     do { o' \<leftarrow> num_cast_to_unsigned_width offset 64;
          name \<leftarrow> (if sz \<noteq> 1
             then do { s \<leftarrow> num_add o' sz; end' \<leftarrow> num_sub s 1;
                       Some (''s['' @ int_string o' @ ''...'' @ int_string end' @ ''].'' @ name_of array) }
             else Some (''s['' @ int_string o' @ ''].'' @ name_of array));
          Some (register name (meta_for_kind array True) reg) }"

text \<open>The offset is an \<open>u64\<close> and is read as an \<open>i64\<close>, the size an \<open>u32\<close>.\<close>

definition cell_var_int :: "data_kind \<Rightarrow> 64 word \<Rightarrow> 32 word \<Rightarrow> variable_registry \<Rightarrow> (var_id \<times> variable_registry) option" where
  "cell_var_int kind offset sz = cell_var kind (sint offset) (uint sz)"

definition map_fd_programs_reg :: "int \<Rightarrow> variable_registry \<Rightarrow> var_id \<times> variable_registry" where
  "map_fd_programs_reg i = reg_variable MapFdPrograms_kind i"

text \<open>The part of a name before its last dot.\<close>

definition before_last_dot :: "string \<Rightarrow> string option" where
  "before_last_dot s =
     (if CHR ''.'' \<in> set s then Some (rev (tl (dropWhile (\<lambda>c. c \<noteq> CHR ''.'') (rev s)))) else None)"

definition kind_var :: "data_kind \<Rightarrow> var_id \<Rightarrow> variable_registry \<Rightarrow> (var_id \<times> variable_registry) option" where
  "kind_var kind type_variable reg =
     do { is_stack \<leftarrow> (if type_variable < length (vr_metadata reg)
                       then Some (vm_is_stack_cell (vr_metadata reg ! type_variable)) else None);
          var_name \<leftarrow> variable_name reg type_variable;
          stem \<leftarrow> before_last_dot var_name;
          Some (register (stem @ ''.'' @ name_of kind) (meta_for_kind kind is_stack) reg) }"

definition meta_offset_var :: "variable_registry \<Rightarrow> var_id \<times> variable_registry" where
  "meta_offset_var = make_variable ''meta_offset''"

definition packet_size_var :: "variable_registry \<Rightarrow> var_id \<times> variable_registry" where
  "packet_size_var = register ''packet_size'' (metadata_default\<lparr>vm_is_min_only := True\<rparr>)"

definition loop_counter :: "string \<Rightarrow> variable_registry \<Rightarrow> var_id \<times> variable_registry" where
  "loop_counter label = register (''pc['' @ label @ '']'') (metadata_default\<lparr>vm_is_loop_counter := True\<rparr>)"

subsection \<open>Queries\<close>

definition metadata_of :: "variable_registry \<Rightarrow> var_id \<Rightarrow> var_metadata option" where
  "metadata_of reg v = (if v < length (vr_metadata reg) then Some (vr_metadata reg ! v) else None)"

definition is_type_var :: "variable_registry \<Rightarrow> var_id \<Rightarrow> bool option" where
  "is_type_var reg v = map_option (\<lambda>m. vm_kind m = Some Types) (metadata_of reg v)"

definition is_unsigned_var :: "variable_registry \<Rightarrow> var_id \<Rightarrow> bool option" where
  "is_unsigned_var reg v = map_option (\<lambda>m. vm_kind m = Some Uvalues) (metadata_of reg v)"

definition is_in_stack :: "variable_registry \<Rightarrow> var_id \<Rightarrow> bool option" where
  "is_in_stack reg v = map_option vm_is_stack_cell (metadata_of reg v)"

definition is_min_only :: "variable_registry \<Rightarrow> var_id \<Rightarrow> bool option" where
  "is_min_only reg v = map_option vm_is_min_only (metadata_of reg v)"

definition positions :: "(var_metadata \<Rightarrow> bool) \<Rightarrow> variable_registry \<Rightarrow> var_id list" where
  "positions P reg = map fst (filter (\<lambda>(i, m). P m) (zip [0..<length (vr_metadata reg)] (vr_metadata reg)))"

definition get_type_variables :: "variable_registry \<Rightarrow> var_id list" where
  "get_type_variables = positions (\<lambda>m. vm_kind m = Some Types)"

definition get_loop_counters :: "variable_registry \<Rightarrow> var_id list" where
  "get_loop_counters = positions vm_is_loop_counter"

subsection \<open>The invariant\<close>

definition registry_ok :: "variable_registry \<Rightarrow> bool" where
  "registry_ok reg \<longleftrightarrow> distinct (vr_names reg) \<and> length (vr_metadata reg) = length (vr_names reg) \<and>
     (\<forall>s i. vr_index reg s = Some i \<longleftrightarrow> i < length (vr_names reg) \<and> vr_names reg ! i = s)"

lemma registry_okD:
  assumes "registry_ok reg"
  shows "distinct (vr_names reg)" "length (vr_metadata reg) = length (vr_names reg)"
    "\<And>s i. vr_index reg s = Some i \<longleftrightarrow> i < length (vr_names reg) \<and> vr_names reg ! i = s"
  using assms by (auto simp: registry_ok_def)

lemma index_from_absent: "index_from k ns s = None \<longleftrightarrow> s \<notin> set ns"
proof (induction ns arbitrary: k)
  case (Cons n ns)
  show ?case using Cons [of "k + 1"] by (cases "index_from (k + 1) ns s") auto
qed simp

lemma index_from_nth: "distinct ns \<Longrightarrow> j < length ns \<Longrightarrow> index_from k ns (ns ! j) = Some (k + j)"
proof (induction ns arbitrary: k j)
  case (Cons n ns)
  show ?case
  proof (cases j)
    case 0
    then have "index_from (k + 1) ns n = None" using Cons.prems index_from_absent by simp
    then show ?thesis using 0 by simp
  next
    case (Suc i)
    then show ?thesis using Cons.IH [of i "k + 1"] Cons.prems by simp
  qed
qed simp

lemma index_from_spec:
  assumes "distinct ns"
  shows "index_from k ns s = Some i \<longleftrightarrow> (\<exists>j<length ns. i = k + j \<and> ns ! j = s)"
proof
  assume "index_from k ns s = Some i"
  moreover from this have "s \<in> set ns" using index_from_absent [of k ns s] by (cases "s \<in> set ns") auto
  then obtain j where "j < length ns" "ns ! j = s" by (auto simp: in_set_conv_nth)
  ultimately show "\<exists>j<length ns. i = k + j \<and> ns ! j = s" using index_from_nth [OF assms] by fastforce
qed (use index_from_nth [OF assms] in auto)

lemma name_of_no_dot: "CHR ''.'' \<notin> set (name_of k)"
  by (cases k) simp_all

lemma name_of_inj: "name_of j = name_of k \<longleftrightarrow> j = k"
  by (cases j; cases k; simp)

lemma before_last_dot_name: "CHR ''.'' \<notin> set n \<Longrightarrow> before_last_dot (s @ ''.'' @ n) = Some s"
proof -
  assume n: "CHR ''.'' \<notin> set n"
  have "dropWhile (\<lambda>c. c \<noteq> CHR ''.'') (rev n @ CHR ''.'' # rev s) = CHR ''.'' # rev s"
    using n by (induction n rule: rev_induct) auto
  then show ?thesis by (simp add: before_last_dot_def)
qed

lemma reg_name_stem: "before_last_dot (reg_name i k) = Some (''r'' @ int_string i)"
  unfolding reg_name_def using before_last_dot_name [OF name_of_no_dot, of "''r'' @ int_string i" k] by simp

lemma int_string_small:
  assumes "i < 12" "j < 12"
  shows "int_string (int i) = int_string (int j) \<longleftrightarrow> i = j"
proof -
  have t: "map (\<lambda>i. int_string (int i)) [0..<12] =
      [''0'', ''1'', ''2'', ''3'', ''4'', ''5'', ''6'', ''7'', ''8'', ''9'', ''10'', ''11'']" by code_simp
  have "distinct (map (\<lambda>i. int_string (int i)) [0..<12])" unfolding t by simp
  then have "inj_on (\<lambda>i. int_string (int i)) {0..<12}" by (simp add: distinct_map)
  then show ?thesis using assms by (auto dest: inj_onD)
qed

lemma reg_name_inj:
  assumes "i < 12" "j < 12"
  shows "reg_name (int i) k = reg_name (int j) l \<longleftrightarrow> i = j \<and> k = l"
proof
  assume e: "reg_name (int i) k = reg_name (int j) l"
  then have s: "int_string (int i) = int_string (int j)"
    using reg_name_stem [of "int i" k] reg_name_stem [of "int j" l] by simp
  then show "i = j \<and> k = l" using e int_string_small [OF assms] name_of_inj by (simp add: reg_name_def)
qed simp

definition reg_table :: "(nat \<times> data_kind) list" where
  "reg_table = List.product [0..<12] DEFAULT_REG_KINDS"

lemma default_variables_table:
  "default_variables = map (\<lambda>(i, k). (reg_name (int i) k, meta_for_kind k False)) reg_table @ SPECIALS"
  unfolding default_variables_def reg_table_def product_concat_map map_concat by (simp add: comp_def)

lemma reg_table_facts: "length reg_table = 180" "distinct reg_table" "set reg_table = {..<12} \<times> set DEFAULT_REG_KINDS"
  by (simp add: reg_table_def DEFAULT_REG_KINDS_def)
    (auto simp: reg_table_def DEFAULT_REG_KINDS_def intro!: distinct_product)

lemma DEFAULT_REG_KINDS_all: "k \<in> set DEFAULT_REG_KINDS"
  by (cases k) (simp_all add: DEFAULT_REG_KINDS_def)

lemma default_names_distinct: "distinct (map fst default_variables)"
proof -
  have "inj_on (\<lambda>(i, k). reg_name (int i) k) (set reg_table)"
    using reg_name_inj by (auto simp: inj_on_def reg_table_facts)
  then have "distinct (map (\<lambda>(i, k). reg_name (int i) k) reg_table)" by (simp add: distinct_map reg_table_facts)
  moreover have "map fst (map (\<lambda>(i, k). (reg_name (int i) k, meta_for_kind k False)) reg_table) =
      map (\<lambda>(i, k). reg_name (int i) k) reg_table" by (induction reg_table) auto
  moreover have "distinct (map fst SPECIALS)" by (simp add: SPECIALS_def)
  moreover have "set (map (\<lambda>(i, k). reg_name (int i) k) reg_table) \<inter> set (map fst SPECIALS) = {}"
  proof -
    have "CHR ''.'' \<notin> set s" if "s \<in> set (map fst SPECIALS)" for s
      using that by (auto simp: SPECIALS_def)
    moreover have "CHR ''.'' \<in> set s" if "s \<in> set (map (\<lambda>(i, k). reg_name (int i) k) reg_table)" for s
      using that by (auto simp: reg_name_def)
    ultimately show ?thesis by blast
  qed
  ultimately show ?thesis
    unfolding default_variables_table map_append distinct_append by (simp only: simp_thms)
qed

lemma registry_new_ok: "registry_ok registry_new"
  using default_names_distinct index_from_spec [OF default_names_distinct, of 0]
  by (auto simp: registry_ok_def registry_new_def Let_def)

text \<open>The states that grow from one another by interning.\<close>

definition extends :: "variable_registry \<Rightarrow> variable_registry \<Rightarrow> bool" where
  "extends reg reg' \<longleftrightarrow> (\<exists>ns ms. vr_names reg' = vr_names reg @ ns \<and> vr_metadata reg' = vr_metadata reg @ ms)"

lemma register_spec:
  assumes ok: "registry_ok reg" and r: "register n m reg = (v, reg')"
  shows "registry_ok reg' \<and> extends reg reg' \<and> variable_name reg' v = Some n \<and>
    (vr_index reg n = None \<longrightarrow> metadata_of reg' v = Some m) \<and> (vr_index reg n \<noteq> None \<longrightarrow> reg' = reg)"
proof (cases "vr_index reg n")
  case None
  note R = registry_okD [OF ok]
  let ?i = "length (vr_names reg)"
  have new: "n \<notin> set (vr_names reg)" using None R(3) by (metis in_set_conv_nth option.distinct(1))
  have r': "v = ?i" "reg' = reg\<lparr>vr_names := vr_names reg @ [n], vr_metadata := vr_metadata reg @ [m],
      vr_index := (vr_index reg)(n \<mapsto> ?i)\<rparr>"
    using r None by (auto simp: register_def Let_def)
  have "((vr_index reg)(n \<mapsto> ?i)) s = Some i \<longleftrightarrow> i < Suc ?i \<and> (vr_names reg @ [n]) ! i = s" for s i
    using R(3) [of s i] new by (auto simp: nth_append less_Suc_eq)
  then have "registry_ok reg'" using R(1,2) new by (simp add: registry_ok_def r')
  then show ?thesis using R(2) None by (simp add: r' extends_def variable_name_def metadata_of_def nth_append)
next
  case (Some i)
  then show ?thesis
    using r ok registry_okD(3) [OF ok, of n i] by (auto simp: register_def extends_def variable_name_def)
qed

lemma extends_keeps:
  assumes "registry_ok reg" "extends reg reg'" "v < length (vr_names reg)"
  shows "variable_name reg' v = variable_name reg v" "metadata_of reg' v = metadata_of reg v"
  using assms by (auto simp: extends_def variable_name_def metadata_of_def registry_okD(2) nth_append)

lemma variable_name_inj:
  "registry_ok reg \<Longrightarrow> variable_name reg v = Some s \<Longrightarrow> variable_name reg w = Some s \<Longrightarrow> v = w"
  using nth_eq_iff_index_eq [of "vr_names reg"] by (auto simp: variable_name_def registry_okD(1) split: if_splits)

lemma registry_get_spec: "registry_ok reg \<Longrightarrow> registry_get reg s = Some v \<longleftrightarrow> variable_name reg v = Some s"
  by (auto simp: registry_get_def registry_okD(3) variable_name_def)

lemma reg_ref_new:
  assumes "i < 12"
  shows "\<exists>v. reg_ref registry_new k (int i) = Some v \<and> v < 180 \<and> metadata_of registry_new v = Some (meta_for_kind k False)"
proof -
  have "(i, k) \<in> set reg_table" using assms DEFAULT_REG_KINDS_all by (simp add: reg_table_facts)
  then obtain v where v: "v < 180" "reg_table ! v = (i, k)"
    unfolding in_set_conv_nth reg_table_facts(1) by blast
  have "length default_variables = 184" by (simp add: default_variables_table reg_table_facts SPECIALS_def)
  moreover have "default_variables ! v = (reg_name (int i) k, meta_for_kind k False)"
    using v by (simp add: default_variables_table nth_append reg_table_facts)
  ultimately have "variable_name registry_new v = Some (reg_name (int i) k)"
    "metadata_of registry_new v = Some (meta_for_kind k False)"
    using v(1) by (simp_all add: variable_name_def metadata_of_def registry_new_def Let_def)
  then show ?thesis using v(1) registry_get_spec [OF registry_new_ok] by (auto simp: reg_ref_def)
qed

text \<open>C36: The registry interns names.  In a registry whose names, metadata and index agree, which the new
  one is, registering a name gives a variable with that name, keeps the agreement and keeps the name and
  the metadata of every variable there; a name that is there is not registered again, so two variables
  are equal exactly when their names are.  The variable of another kind derived from a register's
  variable is the one of the same register.  The new registry has a variable, with the metadata of its
  kind, for every kind of every register r0 to r11.\<close>

theorem registry_interns:
  assumes ok: "registry_ok reg"
  shows "registry_ok registry_new \<and>
    (let (v, reg') = register n m reg
     in registry_ok reg' \<and> variable_name reg' v = Some n \<and> (vr_index reg n \<noteq> None \<longrightarrow> reg' = reg) \<and>
        (\<forall>u<length (vr_names reg). variable_name reg' u = variable_name reg u \<and> metadata_of reg' u = metadata_of reg u) \<and>
        (\<forall>u w s. variable_name reg' u = Some s \<longrightarrow> variable_name reg' w = Some s \<longrightarrow> u = w)) \<and>
    (\<forall>u i k l. variable_name reg u = Some (reg_name i k) \<longrightarrow>
        (\<exists>w reg'. kind_var l u reg = Some (w, reg') \<and> variable_name reg' w = Some (reg_name i l))) \<and>
    (\<forall>i<12. \<forall>k. \<exists>v. reg_ref registry_new k (int i) = Some v \<and> metadata_of registry_new v = Some (meta_for_kind k False))"
proof (intro conjI allI impI)
  show "registry_ok registry_new" by (rule registry_new_ok)
  obtain v reg' where r: "register n m reg = (v, reg')" by (cases "register n m reg")
  have s: "registry_ok reg'" "extends reg reg'" using register_spec [OF ok r] by simp_all
  show "let (v, reg') = register n m reg
     in registry_ok reg' \<and> variable_name reg' v = Some n \<and> (vr_index reg n \<noteq> None \<longrightarrow> reg' = reg) \<and>
        (\<forall>u<length (vr_names reg). variable_name reg' u = variable_name reg u \<and> metadata_of reg' u = metadata_of reg u) \<and>
        (\<forall>u w s. variable_name reg' u = Some s \<longrightarrow> variable_name reg' w = Some s \<longrightarrow> u = w)"
    using register_spec [OF ok r] extends_keeps [OF ok s(2)] variable_name_inj [OF s(1)] by (simp add: r)
next
  fix u i k l assume u: "variable_name reg u = Some (reg_name i k)"
  let ?m = "meta_for_kind l (vm_is_stack_cell (vr_metadata reg ! u))"
  obtain w reg' where r: "register (reg_name i l) ?m reg = (w, reg')" by (cases "register (reg_name i l) ?m reg")
  have "u < length (vr_metadata reg)" using u registry_okD(2) [OF ok] by (simp add: variable_name_def split: if_splits)
  then have "kind_var l u reg = Some (w, reg')"
    using u r by (simp add: kind_var_def reg_name_stem) (simp add: reg_name_def)
  then show "\<exists>w reg'. kind_var l u reg = Some (w, reg') \<and> variable_name reg' w = Some (reg_name i l)"
    using register_spec [OF ok r] by blast
next
  fix i :: nat and k assume "i < 12"
  then show "\<exists>v. reg_ref registry_new k (int i) = Some v \<and> metadata_of registry_new v = Some (meta_for_kind k False)"
    using reg_ref_new by blast
qed

theorem registry_interns_witness:
  "let (v, reg) = register ''x'' metadata_default registry_new in variable_name reg v = Some ''x''"
  using registry_interns [OF registry_new_ok, of "''x''" metadata_default] by (auto simp: Let_def split: prod.splits)

end
