(* ===== verification/Zone_Domain.thy ===== *)
theory Zone_Domain
  imports Split_Dbm Linear Interval Var_Registry
begin

text \<open>
  \<open>src/crab/zone_domain.rs\<close>: the zone domain, a split DBM with a map between variables and
  vertices.  Tracing and rendering (\<open>dump_constraint_trace\<close>, \<open>to_set\<close>, \<open>Display\<close>) are left out.
\<close>

subsection \<open>The state\<close>

record zone_domain =
  z_core :: split_dbm
  z_vert_map :: "(variable, nat) btree"
  z_rev_map :: "variable option list"

definition zone_new :: "zone_domain option" where
  "zone_new = do { core \<leftarrow> dbm_new; Some \<lparr>z_core = core, z_vert_map = [], z_rev_map = [None]\<rparr> }"

definition zone_from_parts :: "(variable, nat) btree \<Rightarrow> variable option list \<Rightarrow> split_dbm \<Rightarrow> zone_domain option" where
  "zone_from_parts vert_map rev_map core =
     do { core \<leftarrow> normalize core; Some \<lparr>z_core = core, z_vert_map = vert_map, z_rev_map = rev_map\<rparr> }"

definition zone_set_to_top :: "zone_domain \<Rightarrow> zone_domain option" where
  "zone_set_to_top z =
     do { core \<leftarrow> dbm_new; Some (z\<lparr>z_core := core, z_vert_map := [], z_rev_map := [None]\<rparr>) }"

definition zone_top :: "zone_domain option" where
  "zone_top = zone_new"

definition zone_is_top :: "zone_domain \<Rightarrow> bool" where
  "zone_is_top z = dbm_is_top (z_core z)"

definition zone_size :: "zone_domain \<Rightarrow> nat \<times> nat" where
  "zone_size z = (dbm_graph_size (z_core z), dbm_num_edges (z_core z))"

definition zone_normalize :: "zone_domain \<Rightarrow> zone_domain option" where
  "zone_normalize z = do { core \<leftarrow> normalize (z_core z); Some (z\<lparr>z_core := core\<rparr>) }"

subsection \<open>Vertices\<close>

definition get_vertid :: "zone_domain \<Rightarrow> variable \<Rightarrow> nat option" where
  "get_vertid z x = map_of (z_vert_map z) x"

definition get_vert :: "variable \<Rightarrow> zone_domain \<Rightarrow> (nat \<times> zone_domain) option" where
  "get_vert v z =
     (case map_of (z_vert_map z) v of
        Some vert \<Rightarrow> Some (vert, z)
      | None \<Rightarrow> do {
          (vert, core) \<leftarrow> dbm_new_vertex (z_core z);
          rev_map \<leftarrow> (if vert < length (z_rev_map z) then vec_set vert (Some v) (z_rev_map z)
                      else do { assert_that (vert = length (z_rev_map z)); Some (z_rev_map z @ [Some v]) });
          assert_that (vert \<noteq> 0);
          Some (vert, z\<lparr>z_core := core, z_vert_map := bt_insert v vert (z_vert_map z), z_rev_map := rev_map\<rparr>) })"

subsection \<open>Bounds\<close>

definition get_lb_vert :: "zone_domain \<Rightarrow> nat option \<Rightarrow> bound option" where
  "get_lb_vert z v = (case v of Some vid \<Rightarrow> get_bound (z_core z) vid side.Left | None \<Rightarrow> Some MinusInfinity)"

definition get_ub_vert :: "zone_domain \<Rightarrow> nat option \<Rightarrow> bound option" where
  "get_ub_vert z v = (case v of Some vid \<Rightarrow> get_bound (z_core z) vid side.Right | None \<Rightarrow> Some PlusInfinity)"

definition get_lb :: "zone_domain \<Rightarrow> variable \<Rightarrow> bound option" where
  "get_lb z x = get_lb_vert z (get_vertid z x)"

definition get_ub :: "zone_domain \<Rightarrow> variable_registry \<Rightarrow> variable \<Rightarrow> bound option" where
  "get_ub z reg x = do { m \<leftarrow> is_min_only reg x; if m then Some PlusInfinity else get_ub_vert z (get_vertid z x) }"

definition get_interval :: "zone_domain \<Rightarrow> variable_registry \<Rightarrow> variable \<Rightarrow> interval option" where
  "get_interval z reg x = do { l \<leftarrow> get_lb z x; u \<leftarrow> get_ub z reg x; Some (itv_new l u) }"

fun eval_interval_loop :: "zone_domain \<Rightarrow> variable_registry \<Rightarrow> (variable \<times> number) list \<Rightarrow> interval \<Rightarrow> interval option" where
  "eval_interval_loop z reg [] r = Some r"
| "eval_interval_loop z reg ((v, c) # ts) r =
     do { i \<leftarrow> get_interval z reg v; p \<leftarrow> itv_mul (itv_from_number c) i; r \<leftarrow> itv_add r p;
          eval_interval_loop z reg ts r }"

definition zone_eval_interval :: "zone_domain \<Rightarrow> variable_registry \<Rightarrow> linear_expression \<Rightarrow> interval option" where
  "zone_eval_interval z reg e = eval_interval_loop z reg (variable_terms e) (itv_from_number (constant_term e))"

definition eval_interval_var :: "zone_domain \<Rightarrow> variable_registry \<Rightarrow> variable \<Rightarrow> interval option" where
  "eval_interval_var z reg v = get_interval z reg v"

subsection \<open>Potentials\<close>

definition pot_value :: "zone_domain \<Rightarrow> variable \<Rightarrow> number option" where
  "pot_value z v = (case get_vertid z v of Some y \<Rightarrow> potential_at (z_core z) y | None \<Rightarrow> Some 0)"

fun eval_potentials :: "zone_domain \<Rightarrow> (variable \<times> number) list \<Rightarrow> number \<Rightarrow> number option" where
  "eval_potentials z [] res = Some res"
| "eval_potentials z ((v, c) # ts) res =
     do { pv \<leftarrow> pot_value z v; p0 \<leftarrow> potential_at_zero (z_core z); d \<leftarrow> num_sub pv p0; m \<leftarrow> num_mul d c;
          res \<leftarrow> num_add res m; eval_potentials z ts res }"

definition eval_expression :: "zone_domain \<Rightarrow> linear_expression \<Rightarrow> number option" where
  "eval_expression z e = eval_potentials z (variable_terms e) (constant_term e)"

fun residual_loop ::
  "zone_domain \<Rightarrow> variable_registry \<Rightarrow> variable \<Rightarrow> (variable \<times> number) list \<Rightarrow> interval \<Rightarrow> interval option" where
  "residual_loop z reg pivot [] residual = Some residual"
| "residual_loop z reg pivot ((v, c) # ts) residual =
     do { residual \<leftarrow> (if v \<noteq> pivot
            then do { i \<leftarrow> get_interval z reg v; p \<leftarrow> itv_mul (itv_from_number c) i; itv_sub residual p }
            else Some residual);
          residual_loop z reg pivot ts residual }"

definition compute_residual :: "zone_domain \<Rightarrow> variable_registry \<Rightarrow> linear_expression \<Rightarrow> variable \<Rightarrow> interval option" where
  "compute_residual z reg e pivot =
     do { c \<leftarrow> num_neg (constant_term e);
          residual_loop z reg pivot (variable_terms e) (itv_from_number c) }"

subsection \<open>Difference constraints of an assignment\<close>

text \<open>
  The loop of \<open>diffcsts_of_assign\<close>: the inner \<open>None\<close> is the early return that leaves the list as it
  is.  The state is the unbounded variable, the bounded terms and the residual.
\<close>

fun assign_terms ::
  "bool \<Rightarrow> zone_domain \<Rightarrow> variable_registry \<Rightarrow> (variable \<times> number) list \<Rightarrow>
    variable option \<times> (variable \<times> number) list \<times> number \<Rightarrow>
    (variable option \<times> (variable \<times> number) list \<times> number) option option" where
  "assign_terms up z reg [] st = Some (Some st)"
| "assign_terms up z reg ((y, coeff) # ts) (unbounded, terms, residual) =
     (if coeff < 0
      then do {
        y_val \<leftarrow> (if up then get_lb z y else get_ub z reg y);
        (case ext_number y_val of
           None \<Rightarrow> Some None
         | Some y_bound \<Rightarrow> do {
             p \<leftarrow> num_mul y_bound coeff;
             residual \<leftarrow> num_add residual p;
             assign_terms up z reg ts (unbounded, terms, residual) }) }
      else do {
        y_val \<leftarrow> (if up then get_ub z reg y else get_lb z y);
        (case ext_number y_val of
           None \<Rightarrow>
             if unbounded \<noteq> None \<or> coeff \<noteq> 1 then Some None
             else assign_terms up z reg ts (Some y, terms, residual)
         | Some ymax \<Rightarrow> do {
             p \<leftarrow> num_mul ymax coeff;
             residual \<leftarrow> num_add residual p;
             assign_terms up z reg ts (unbounded, terms @ [(y, ymax)], residual) }) })"

definition diffcsts_of_assign ::
  "zone_domain \<Rightarrow> variable_registry \<Rightarrow> linear_expression \<Rightarrow> bool \<Rightarrow> (variable \<times> number) list option" where
  "diffcsts_of_assign z reg e extract_upper_bounds =
     do { r \<leftarrow> assign_terms extract_upper_bounds z reg (variable_terms e) (None, [], constant_term e);
          (case r of
             None \<Rightarrow> Some []
           | Some (Some uv, terms, residual) \<Rightarrow> Some [(uv, residual)]
           | Some (None, terms, residual) \<Rightarrow>
               those (map (\<lambda>(v, n). map_option (Pair v) (num_sub residual n)) terms)) }"

definition diffcsts_of_assign_both ::
  "zone_domain \<Rightarrow> variable_registry \<Rightarrow> linear_expression \<Rightarrow>
    ((variable \<times> number) list \<times> (variable \<times> number) list) option" where
  "diffcsts_of_assign_both z reg e =
     do { ub \<leftarrow> diffcsts_of_assign z reg e True; lb \<leftarrow> diffcsts_of_assign z reg e False; Some (lb, ub) }"

subsection \<open>Difference constraints of an inequality\<close>

record leq_state =
  ls_exp_ub :: number
  ls_lbvar :: "variable option"
  ls_lbcoeff :: number
  ls_ubvar :: "variable option"
  ls_ubcoeff :: number
  ls_pos :: "((number \<times> variable) \<times> number) list"
  ls_neg :: "((number \<times> variable) \<times> number) list"

fun leq_terms ::
  "zone_domain \<Rightarrow> variable_registry \<Rightarrow> (variable \<times> number) list \<Rightarrow> leq_state \<Rightarrow> leq_state option option" where
  "leq_terms z reg [] st = Some (Some st)"
| "leq_terms z reg ((y, coeff) # ts) st =
     (if num_is_zero coeff then leq_terms z reg ts st
      else if coeff > 0
      then do {
        y_lb \<leftarrow> get_lb z y;
        (case ext_number y_lb of
           None \<Rightarrow> if ls_lbvar st \<noteq> None then Some None
                   else leq_terms z reg ts (st\<lparr>ls_lbvar := Some y, ls_lbcoeff := coeff\<rparr>)
         | Some ymin \<Rightarrow> do {
             p \<leftarrow> num_mul ymin coeff;
             x \<leftarrow> num_sub (ls_exp_ub st) p;
             leq_terms z reg ts (st\<lparr>ls_exp_ub := x, ls_pos := ls_pos st @ [((coeff, y), ymin)]\<rparr>) }) }
      else do {
        i \<leftarrow> get_interval z reg y;
        (case ext_number (itv_ub i) of
           None \<Rightarrow> if ls_ubvar st \<noteq> None then Some None
                   else do { c \<leftarrow> num_neg coeff; leq_terms z reg ts (st\<lparr>ls_ubvar := Some y, ls_ubcoeff := c\<rparr>) }
         | Some ymax \<Rightarrow> do {
             p \<leftarrow> num_mul ymax coeff;
             x \<leftarrow> num_sub (ls_exp_ub st) p;
             c \<leftarrow> num_neg coeff;
             leq_terms z reg ts (st\<lparr>ls_exp_ub := x, ls_neg := ls_neg st @ [((c, y), ymax)]\<rparr>) }) })"

text \<open>The constraints \<open>x - y \<le> k\<close>, the lower bounds and the upper bounds that follow.\<close>

type_synonym diff_cst = "(variable \<times> variable) \<times> number"
type_synonym leq_consequences = "diff_cst list \<times> (variable \<times> number) list \<times> (variable \<times> number) list"

definition leq_lbvar_only :: "leq_state \<Rightarrow> variable \<Rightarrow> leq_consequences option" where
  "leq_lbvar_only st x =
     do { csts \<leftarrow> (if ls_lbcoeff st = 1
            then those (map (\<lambda>((c, y), k). map_option (Pair (x, y)) (num_sub (ls_exp_ub st) k)) (ls_neg st))
            else Some []);
          u \<leftarrow> num_div (ls_exp_ub st) (ls_lbcoeff st);
          Some (csts, [], [(x, u)]) }"

definition leq_ubvar_only :: "leq_state \<Rightarrow> variable \<Rightarrow> leq_consequences option" where
  "leq_ubvar_only st y =
     do { csts \<leftarrow> (if ls_ubcoeff st = 1
            then those (map (\<lambda>((c, x), k). map_option (Pair (x, y)) (num_add (ls_exp_ub st) k)) (ls_pos st))
            else Some []);
          n \<leftarrow> num_neg (ls_exp_ub st);
          l \<leftarrow> num_div n (ls_ubcoeff st);
          Some (csts, [(y, l)], []) }"

definition leq_bounded :: "leq_state \<Rightarrow> leq_consequences option" where
  "leq_bounded st =
     do { csts \<leftarrow> those (concat (map (\<lambda>((nc, ny), nk). map (\<lambda>((pc, py), pk).
              do { d \<leftarrow> num_sub (ls_exp_ub st) nk; w \<leftarrow> num_add d pk; Some ((py, ny), w) }) (ls_pos st)) (ls_neg st)));
          lbs \<leftarrow> those (map (\<lambda>((nc, ny), nk).
              do { n \<leftarrow> num_neg (ls_exp_ub st); q \<leftarrow> num_div n nc; l \<leftarrow> num_add q nk; Some (ny, l) }) (ls_neg st));
          ubs \<leftarrow> those (map (\<lambda>((pc, py), pk).
              do { q \<leftarrow> num_div (ls_exp_ub st) pc; u \<leftarrow> num_add q pk; Some (py, u) }) (ls_pos st));
          Some (csts, lbs, ubs) }"

definition diffcsts_of_lin_leq :: "zone_domain \<Rightarrow> variable_registry \<Rightarrow> linear_expression \<Rightarrow> leq_consequences option" where
  "diffcsts_of_lin_leq z reg e =
     do { x \<leftarrow> num_neg (constant_term e);
          r \<leftarrow> leq_terms z reg (variable_terms e)
            \<lparr>ls_exp_ub = x, ls_lbvar = None, ls_lbcoeff = 0, ls_ubvar = None, ls_ubcoeff = 0, ls_pos = [], ls_neg = []\<rparr>;
          (case r of
             None \<Rightarrow> Some ([], [], [])
           | Some st \<Rightarrow>
               (case (ls_lbvar st, ls_ubvar st) of
                  (Some x, Some uv) \<Rightarrow>
                    Some (if ls_lbcoeff st = 1 \<and> ls_ubcoeff st = 1 then [((x, uv), ls_exp_ub st)] else [], [], [])
                | (Some x, None) \<Rightarrow> leq_lbvar_only st x
                | (None, Some y) \<Rightarrow> leq_ubvar_only st y
                | (None, None) \<Rightarrow> leq_bounded st)) }"

subsection \<open>Adding constraints\<close>

text \<open>The three loops of \<open>add_linear_leq\<close>; \<open>false\<close> stops at the constraint that has no solution.\<close>

fun tighten_lbs :: "(variable \<times> number) list \<Rightarrow> zone_domain \<Rightarrow> (bool \<times> zone_domain) option" where
  "tighten_lbs [] z = Some (True, z)"
| "tighten_lbs ((var, n) # lbs) z =
     do { (vert, z) \<leftarrow> get_vert var z;
          (b, core) \<leftarrow> update_bound_if_tighter vert side.Left n (z_core z);
          let z = z\<lparr>z_core := core\<rparr>;
          if \<not> b then Some (False, z) else tighten_lbs lbs z }"

fun tighten_ubs :: "variable_registry \<Rightarrow> (variable \<times> number) list \<Rightarrow> zone_domain \<Rightarrow> (bool \<times> zone_domain) option" where
  "tighten_ubs reg [] z = Some (True, z)"
| "tighten_ubs reg ((var, n) # ubs) z =
     do { m \<leftarrow> is_min_only reg var;
          if m then tighten_ubs reg ubs z
          else do {
            (vert, z) \<leftarrow> get_vert var z;
            (b, core) \<leftarrow> update_bound_if_tighter vert side.Right n (z_core z);
            let z = z\<lparr>z_core := core\<rparr>;
            if \<not> b then Some (False, z) else tighten_ubs reg ubs z } }"

fun add_differences :: "diff_cst list \<Rightarrow> zone_domain \<Rightarrow> (bool \<times> zone_domain) option" where
  "add_differences [] z = Some (True, z)"
| "add_differences (((src_var, dst_var), k) # csts) z =
     do { (src, z) \<leftarrow> get_vert dst_var z;
          (dest, z) \<leftarrow> get_vert src_var z;
          (b, core) \<leftarrow> add_difference_constraint src dest k (z_core z);
          let z = z\<lparr>z_core := core\<rparr>;
          if \<not> b then Some (False, z) else add_differences csts z }"

definition add_linear_leq :: "linear_expression \<Rightarrow> variable_registry \<Rightarrow> zone_domain \<Rightarrow> (bool \<times> zone_domain) option" where
  "add_linear_leq e reg z =
     do { (csts, lbs, ubs) \<leftarrow> diffcsts_of_lin_leq z reg e;
          (b, z) \<leftarrow> tighten_lbs lbs z;
          if \<not> b then Some (False, z)
          else do {
            (b, z) \<leftarrow> tighten_ubs reg ubs z;
            if \<not> b then Some (False, z)
            else do {
              (b, z) \<leftarrow> add_differences csts z;
              if \<not> b then Some (False, z)
              else do {
                core \<leftarrow> close_after_bound_updates (z_core z);
                z \<leftarrow> zone_normalize (z\<lparr>z_core := core\<rparr>);
                Some (True, z) } } } }"

definition trim_interval :: "interval \<Rightarrow> number \<Rightarrow> interval option" where
  "trim_interval i n =
     (if itv_lb i = Finite n then do { m \<leftarrow> num_add n 1; Some (itv_new (Finite m) (itv_ub i)) }
      else if itv_ub i = Finite n then do { m \<leftarrow> num_sub n 1; Some (itv_new (itv_lb i) (Finite m)) }
      else if itv_is_top i \<and> num_is_zero n then Some (itv_new (Finite 1) (Finite (2 ^ 64 - 1)))
      else Some i)"

definition add_univar_disequation ::
  "variable \<Rightarrow> number \<Rightarrow> variable_registry \<Rightarrow> zone_domain \<Rightarrow> (bool \<times> zone_domain) option" where
  "add_univar_disequation x n reg z =
     do { i \<leftarrow> get_interval z reg x;
          new_i \<leftarrow> trim_interval i n;
          if itv_is_bottom new_i then Some (False, z)
          else if itv_is_top new_i \<or> \<not> itv_is_included_in new_i i then Some (True, z)
          else do {
            (v, z) \<leftarrow> get_vert x z;
            (b, z) \<leftarrow> (case itv_lb new_i of
               Finite l \<Rightarrow> do { (b, core) \<leftarrow> strengthen_bound v side.Left l (z_core z); Some (b, z\<lparr>z_core := core\<rparr>) }
             | _ \<Rightarrow> Some (True, z));
            if \<not> b then Some (False, z)
            else do {
              (b, z) \<leftarrow> (case itv_ub new_i of
                 Finite u \<Rightarrow> do {
                   m \<leftarrow> is_min_only reg x;
                   if m then Some (True, z)
                   else do { (b, core) \<leftarrow> strengthen_bound v side.Right u (z_core z); Some (b, z\<lparr>z_core := core\<rparr>) } }
               | _ \<Rightarrow> Some (True, z));
              if \<not> b then Some (False, z)
              else do { z \<leftarrow> zone_normalize z; Some (True, z) } } } }"

fun disequation_loop ::
  "linear_expression \<Rightarrow> variable_registry \<Rightarrow> (variable \<times> number) list \<Rightarrow> zone_domain \<Rightarrow> (bool \<times> zone_domain) option" where
  "disequation_loop e reg [] z = Some (True, z)"
| "disequation_loop e reg ((v, c) # ts) z =
     do { r \<leftarrow> compute_residual z reg e v;
          i \<leftarrow> itv_div r (itv_from_number c);
          (b, z) \<leftarrow> (case itv_singleton i of
             Some k \<Rightarrow> add_univar_disequation v k reg z
           | None \<Rightarrow> Some (True, z));
          if \<not> b then Some (False, z) else disequation_loop e reg ts z }"

definition zone_add_constraint ::
  "linear_constraint \<Rightarrow> variable_registry \<Rightarrow> zone_domain \<Rightarrow> (bool \<times> zone_domain) option" where
  "zone_add_constraint cst reg z =
     (if lc_is_tautology cst then Some (True, z)
      else if lc_is_contradiction cst then Some (False, z)
      else case lc_kind cst of
          LessThanOrEqualsZero \<Rightarrow> add_linear_leq (lc_expression cst) reg z
        | LessThanZero \<Rightarrow> do { nc \<leftarrow> lin_plus_constant (lc_expression cst) 1; add_linear_leq nc reg z }
        | EqualsZero \<Rightarrow> do {
            (b, z) \<leftarrow> add_linear_leq (lc_expression cst) reg z;
            if \<not> b then Some (False, z)
            else do { n \<leftarrow> lin_negate (lc_expression cst); add_linear_leq n reg z } }
        | NotZero \<Rightarrow> disequation_loop (lc_expression cst) reg (variable_terms (lc_expression cst)) z)"

subsection \<open>Lattice operations\<close>

text \<open>The loop over the map of the right side; the inner \<open>None\<close> is the early \<open>false\<close>.\<close>

fun build_perm :: "zone_domain \<Rightarrow> zone_domain \<Rightarrow> (variable \<times> nat) list \<Rightarrow> nat list \<Rightarrow> nat list option option" where
  "build_perm z other [] perm = Some (Some perm)"
| "build_perm z other ((v, n) # vs) perm =
     do { has \<leftarrow> vertex_has_edges (z_core other) n;
          if \<not> has then build_perm z other vs perm
          else case map_of (z_vert_map z) v of
              Some y \<Rightarrow> do { perm \<leftarrow> vec_set n y perm; build_perm z other vs perm }
            | None \<Rightarrow> Some None }"

definition zone_is_included_in :: "zone_domain \<Rightarrow> zone_domain \<Rightarrow> bool option" where
  "zone_is_included_in z other =
     (if zone_is_top other then Some True
      else if zone_is_top z then Some False
      else if length (z_vert_map z) < length (z_vert_map other) then Some False
      else do {
        perm \<leftarrow> vec_set 0 0 (replicate (dbm_graph_size (z_core other)) INVALID_VERT);
        r \<leftarrow> build_perm z other (z_vert_map other) perm;
        (case r of None \<Rightarrow> Some False | Some perm \<Rightarrow> is_subsumed_by (z_core z) (z_core other) perm) })"

definition make_intersection_alignment :: "zone_domain \<Rightarrow> zone_domain \<Rightarrow> aligned_pair \<times> variable option list" where
  "make_intersection_alignment left right =
     (let both = filter (\<lambda>(v, l). map_of (z_vert_map right) v \<noteq> None) (z_vert_map left)
      in (\<lparr>al_left = z_core left, al_right = z_core right,
           left_perm = 0 # map snd both,
           right_perm = 0 # map (\<lambda>(v, l). the (map_of (z_vert_map right) v)) both,
           initial_potentials = []\<rparr>,
          None # map (\<lambda>(v, l). Some v) both))"

text \<open>The pair under construction: the two permutations, the variables and the potentials.\<close>

record union_state =
  us_left :: "nat list"
  us_right :: "nat list"
  us_vars :: "variable option list"
  us_potentials :: "number list"
  us_index :: "(variable, nat) btree"

fun union_left :: "split_dbm \<Rightarrow> (variable \<times> nat) list \<Rightarrow> union_state \<Rightarrow> union_state option" where
  "union_left core [] st = Some st"
| "union_left core ((v, vert) # vs) st =
     do { pv \<leftarrow> potential_at core vert; p0 \<leftarrow> potential_at_zero core; p \<leftarrow> num_sub pv p0;
          union_left core vs
            \<lparr>us_left = us_left st @ [vert], us_right = us_right st @ [INVALID_VERT], us_vars = us_vars st @ [Some v],
             us_potentials = us_potentials st @ [p], us_index = bt_insert v (length (us_left st)) (us_index st)\<rparr> }"

fun union_right :: "split_dbm \<Rightarrow> (variable \<times> nat) list \<Rightarrow> union_state \<Rightarrow> union_state option" where
  "union_right core [] st = Some st"
| "union_right core ((v, vert) # vs) st =
     (case map_of (us_index st) v of
        Some idx \<Rightarrow> do { r \<leftarrow> vec_set idx vert (us_right st); union_right core vs (st\<lparr>us_right := r\<rparr>) }
      | None \<Rightarrow> do {
          pv \<leftarrow> potential_at core vert; p0 \<leftarrow> potential_at_zero core; p \<leftarrow> num_sub pv p0;
          union_right core vs
            (st\<lparr>us_left := us_left st @ [INVALID_VERT], us_right := us_right st @ [vert], us_vars := us_vars st @ [Some v],
                us_potentials := us_potentials st @ [p]\<rparr>) })"

definition make_union_alignment :: "zone_domain \<Rightarrow> zone_domain \<Rightarrow> (aligned_pair \<times> variable option list) option" where
  "make_union_alignment left right =
     do { st \<leftarrow> union_left (z_core left) (z_vert_map left)
            \<lparr>us_left = [0], us_right = [0], us_vars = [None], us_potentials = [0], us_index = []\<rparr>;
          st \<leftarrow> union_right (z_core right) (z_vert_map right) st;
          Some (\<lparr>al_left = z_core left, al_right = z_core right, left_perm = us_left st, right_perm = us_right st,
                 initial_potentials = us_potentials st\<rparr>, us_vars st) }"

fun result_map :: "nat \<Rightarrow> variable option list \<Rightarrow> (variable, nat) btree \<Rightarrow> (variable, nat) btree" where
  "result_map i [] m = m"
| "result_map i (x # xs) m =
     result_map (i + 1) xs (case x of Some v \<Rightarrow> bt_insert v (i mod 2 ^ 16) m | None \<Rightarrow> m)"

definition result_mappings :: "variable option list \<Rightarrow> (variable, nat) btree \<times> variable option list" where
  "result_mappings aligned_vars = (result_map 1 (drop 1 aligned_vars) [], aligned_vars)"

text \<open>The vertices of the join without edges leave the maps.\<close>

fun drop_disconnected ::
  "nat list \<Rightarrow> (variable, nat) btree \<times> variable option list \<Rightarrow> ((variable, nat) btree \<times> variable option list) option" where
  "drop_disconnected [] st = Some st"
| "drop_disconnected (v # vs) (vmap, revmap) =
     do { x \<leftarrow> vec_get revmap v;
          revmap \<leftarrow> vec_set v None revmap;
          drop_disconnected vs (case x of Some var \<Rightarrow> bt_remove var vmap | None \<Rightarrow> vmap, revmap) }"

definition zone_join :: "zone_domain \<Rightarrow> zone_domain \<Rightarrow> zone_domain option" where
  "zone_join z right =
     (if zone_is_top right then Some right
      else if zone_is_top z then Some z
      else do {
        let (pair, vars) = make_intersection_alignment z right;
        joined \<leftarrow> dbm_join pair;
        vs \<leftarrow> get_disconnected_vertices joined;
        (vmap, revmap) \<leftarrow> drop_disconnected vs (result_mappings vars);
        zone_from_parts vmap revmap joined })"

definition zone_join_assign :: "zone_domain \<Rightarrow> zone_domain \<Rightarrow> zone_domain option" where
  "zone_join_assign right z = zone_join z right"

definition zone_widen :: "zone_domain \<Rightarrow> zone_domain \<Rightarrow> zone_domain option" where
  "zone_widen z other =
     do { let (pair, vars) = make_intersection_alignment z other;
          result_core \<leftarrow> dbm_widen pair;
          let (vmap, revmap) = result_mappings vars;
          zone_from_parts vmap revmap result_core }"

definition zone_meet :: "zone_domain \<Rightarrow> zone_domain \<Rightarrow> zone_domain option option" where
  "zone_meet z other =
     (if zone_is_top z then Some (Some other)
      else if zone_is_top other then Some (Some z)
      else do {
        (pair, vars) \<leftarrow> make_union_alignment z other;
        (r, pair) \<leftarrow> dbm_meet pair;
        (case r of
           None \<Rightarrow> Some None
         | Some core \<Rightarrow> do {
             let (vmap, revmap) = result_mappings vars;
             z \<leftarrow> zone_from_parts vmap revmap core;
             Some (Some z) }) })"

definition zone_narrow_op :: "zone_domain \<Rightarrow> zone_domain \<Rightarrow> zone_domain" where
  "zone_narrow_op z other = (if zone_is_top z then other else z)"

subsection \<open>Assignment and havoc\<close>

definition zone_havoc :: "variable \<Rightarrow> zone_domain \<Rightarrow> zone_domain option" where
  "zone_havoc v z =
     (case get_vertid z v of
        None \<Rightarrow> Some z
      | Some y \<Rightarrow> do {
          core \<leftarrow> dbm_forget y (z_core z);
          rev_map \<leftarrow> vec_set y None (z_rev_map z);
          zone_normalize (z\<lparr>z_core := core, z_rev_map := rev_map, z_vert_map := bt_remove v (z_vert_map z)\<rparr>) })"

definition zone_set :: "variable \<Rightarrow> interval \<Rightarrow> variable_registry \<Rightarrow> zone_domain \<Rightarrow> zone_domain option" where
  "zone_set x intv reg z =
     do { assert_that (\<not> itv_is_bottom intv);
          z \<leftarrow> zone_havoc x z;
          if itv_is_top intv then Some z
          else do {
            (v, z) \<leftarrow> get_vert x z;
            z \<leftarrow> (case itv_ub intv of
               Finite u \<Rightarrow> do {
                 m \<leftarrow> is_min_only reg x;
                 if m then Some z else do { core \<leftarrow> set_bound (z_core z) v side.Right u; Some (z\<lparr>z_core := core\<rparr>) } }
             | _ \<Rightarrow> Some z);
            z \<leftarrow> (case itv_lb intv of
               Finite l \<Rightarrow> do { core \<leftarrow> set_bound (z_core z) v side.Left l; Some (z\<lparr>z_core := core\<rparr>) }
             | _ \<Rightarrow> Some z);
            zone_normalize z } }"

text \<open>The vertices of the variables of a list of differences, with the differences in turn.\<close>

fun diff_verts :: "(number \<Rightarrow> number option) \<Rightarrow> (variable \<times> number) list \<Rightarrow> zone_domain \<Rightarrow> ((nat \<times> number) list \<times> zone_domain) option" where
  "diff_verts f [] z = Some ([], z)"
| "diff_verts f ((var, n) # ds) z =
     do { (vert, z) \<leftarrow> get_vert var z; w \<leftarrow> f n; (rest, z) \<leftarrow> diff_verts f ds z; Some ((vert, w) # rest, z) }"

definition zone_assign :: "variable \<Rightarrow> linear_expression \<Rightarrow> variable_registry \<Rightarrow> zone_domain \<Rightarrow> zone_domain option" where
  "zone_assign lhs e reg z =
     do { value_interval \<leftarrow> zone_eval_interval z reg e;
          lb_w \<leftarrow> (case ext_number (itv_lb value_interval) of
             Some n \<Rightarrow> do { m \<leftarrow> num_neg n; Some (Some m) } | None \<Rightarrow> Some None);
          let ub_w = ext_number (itv_ub value_interval);
          if itv_is_singleton value_interval
          then do { z \<leftarrow> zone_set lhs value_interval reg z; zone_normalize z }
          else do {
            (diffs_lb, diffs_ub) \<leftarrow> diffcsts_of_assign_both z reg e;
            if diffs_lb = [] \<and> diffs_ub = []
            then do { z \<leftarrow> zone_set lhs value_interval reg z; zone_normalize z }
            else do {
              e_val \<leftarrow> eval_expression z e;
              (diffs_from, z) \<leftarrow> diff_verts num_neg diffs_lb z;
              (diffs_to, z) \<leftarrow> diff_verts Some diffs_ub z;
              effective_ub \<leftarrow> (case ub_w of
                 None \<Rightarrow> Some None
               | Some u \<Rightarrow> do { m \<leftarrow> is_min_only reg lhs; Some (if m then None else Some u) });
              p0 \<leftarrow> potential_at_zero (z_core z);
              pot_val \<leftarrow> num_add p0 e_val;
              (vert, core) \<leftarrow> assign_vertex pot_val diffs_from diffs_to lb_w effective_ub (z_core z);
              rev_map \<leftarrow> (if vert = length (z_rev_map z) then Some (z_rev_map z @ [Some lhs])
                          else vec_set vert (Some lhs) (z_rev_map z));
              z \<leftarrow> zone_havoc lhs (z\<lparr>z_core := core, z_rev_map := rev_map\<rparr>);
              zone_normalize (z\<lparr>z_vert_map := bt_insert lhs vert (z_vert_map z)\<rparr>) } } }"

definition zone_assign_variable :: "variable \<Rightarrow> variable \<Rightarrow> variable_registry \<Rightarrow> zone_domain \<Rightarrow> zone_domain option" where
  "zone_assign_variable x v reg z = zone_assign x (lin_from_variable v) reg z"

definition zone_assign_number :: "variable \<Rightarrow> 64 word \<Rightarrow> variable_registry \<Rightarrow> zone_domain \<Rightarrow> zone_domain option" where
  "zone_assign_number x n reg z = zone_assign x (lin_from_number (sint n)) reg z"

fun forget_loop :: "variable list \<Rightarrow> zone_domain \<Rightarrow> zone_domain option" where
  "forget_loop [] z = Some z"
| "forget_loop (v # vs) z =
     (if map_of (z_vert_map z) v \<noteq> None then do { z \<leftarrow> zone_havoc v z; forget_loop vs z } else forget_loop vs z)"

definition zone_forget :: "variable list \<Rightarrow> zone_domain \<Rightarrow> zone_domain option" where
  "zone_forget variables z =
     (if zone_is_top z then Some z else do { z \<leftarrow> forget_loop variables z; zone_normalize z })"

text \<open>The flag of the loop says whether the vertex of a destination was forgotten.\<close>

fun rename_loop :: "(variable \<times> variable) list \<Rightarrow> bool \<Rightarrow> zone_domain \<Rightarrow> (bool \<times> zone_domain) option" where
  "rename_loop [] forgot z = Some (forgot, z)"
| "rename_loop ((from, to) # rs) forgot z =
     (case map_of (z_vert_map z) from of
        None \<Rightarrow> rename_loop rs forgot z
      | Some vert \<Rightarrow> do {
          let z = z\<lparr>z_vert_map := bt_remove from (z_vert_map z)\<rparr>;
          (forgot, z) \<leftarrow> (case map_of (z_vert_map z) to of
             None \<Rightarrow> Some (forgot, z)
           | Some dest \<Rightarrow> do {
               let z = z\<lparr>z_vert_map := bt_remove to (z_vert_map z)\<rparr>;
               core \<leftarrow> dbm_forget dest (z_core z);
               rev_map \<leftarrow> vec_set dest None (z_rev_map z);
               Some (True, z\<lparr>z_core := core, z_rev_map := rev_map\<rparr>) });
          rev_map \<leftarrow> vec_set vert (Some to) (z_rev_map z);
          rename_loop rs forgot
            (z\<lparr>z_vert_map := bt_insert to vert (z_vert_map z), z_rev_map := rev_map\<rparr>) })"

definition zone_rename :: "(variable \<times> variable) list \<Rightarrow> zone_domain \<Rightarrow> zone_domain option" where
  "zone_rename renaming z =
     do { (forgot, z) \<leftarrow> rename_loop renaming False z; if forgot then zone_normalize z else Some z }"

subsection \<open>Queries\<close>

definition zone_intersect :: "linear_constraint \<Rightarrow> variable_registry \<Rightarrow> zone_domain \<Rightarrow> bool option" where
  "zone_intersect cst reg z =
     (if lc_is_contradiction cst then Some False
      else if zone_is_top z \<or> lc_is_tautology cst then Some True
      else map_option fst (zone_add_constraint cst reg z))"

definition entail_aux :: "linear_constraint \<Rightarrow> variable_registry \<Rightarrow> zone_domain \<Rightarrow> bool option" where
  "entail_aux cst reg z =
     do { n \<leftarrow> lc_negate cst; (b, z') \<leftarrow> zone_add_constraint n reg z; Some (\<not> b) }"

definition entailed_by_interval :: "constraint_kind \<Rightarrow> interval \<Rightarrow> bool" where
  "entailed_by_interval k i =
     (case k of
        EqualsZero \<Rightarrow> itv_singleton i = Some 0
      | LessThanOrEqualsZero \<Rightarrow> itv_ub i \<le> Finite 0
      | LessThanZero \<Rightarrow> itv_ub i < Finite 0
      | NotZero \<Rightarrow> itv_ub i < Finite 0 \<or> itv_lb i > Finite 0)"

definition zone_entail :: "linear_constraint \<Rightarrow> variable_registry \<Rightarrow> zone_domain \<Rightarrow> bool option" where
  "zone_entail rhs reg z =
     (if lc_is_tautology rhs then Some True
      else if lc_is_contradiction rhs then Some False
      else do {
        i \<leftarrow> zone_eval_interval z reg (lc_expression rhs);
        if entailed_by_interval (lc_kind rhs) i then Some True
        else if lc_kind rhs = EqualsZero
        then do {
          b \<leftarrow> entail_aux (lc_new (lc_expression rhs) LessThanOrEqualsZero) reg z;
          if \<not> b then Some False
          else do { n \<leftarrow> lin_negate (lc_expression rhs);
                    entail_aux (lc_new n LessThanOrEqualsZero) reg z } }
        else entail_aux rhs reg z })"

definition zone_implies ::
  "linear_constraint \<Rightarrow> linear_constraint \<Rightarrow> variable_registry \<Rightarrow> zone_domain \<Rightarrow> bool option" where
  "zone_implies premise conclusion reg z =
     do { (b, z) \<leftarrow> zone_add_constraint premise reg z; if \<not> b then Some True else zone_entail conclusion reg z }"

end
