(* ===== verification/Potential_Repair.thy ===== *)
theory Potential_Repair
  imports Graph_Paths
begin

text \<open>
  The repair of a potential after one edge was added (\<open>repair_potential\<close> of graph_ops.rs).  A
  potential is an assignment that solves the constraints of the graph.  When it fails for one
  new edge only, the algorithm runs Dijkstra's algorithm from the end of that edge on the
  amounts by which the vertices have to move down.  Proved here: it always returns, and it
  returns \<open>true\<close> exactly when the constraints have a solution; the potential it then leaves
  is one.
\<close>

subsection \<open>Scratch arrays are long enough\<close>

definition scratch_ok :: "scratch_space \<Rightarrow> bool" where
  "scratch_ok sc \<longleftrightarrow> length (sc_edge_marks sc) = sc_sz sc * sc_sz sc \<and> length (sc_dual_queue sc) = 2 * sc_sz sc \<and>
     length (sc_vert_marks sc) = sc_sz sc \<and> length (sc_stability sc) = sc_sz sc \<and>
     length (sc_dists sc) = sc_sz sc \<and> length (sc_dists_alt sc) = sc_sz sc \<and> length (sc_dist_ts sc) = sc_sz sc"

lemma scratch_new_ok: "scratch_ok scratch_new"
  by (simp add: scratch_ok_def scratch_new_def)

lemma double_until_ge: "0 < k \<Longrightarrow> n \<le> double_until k n"
proof (induction k n rule: double_until.induct)
  case (1 k n)
  then show ?case by (cases "k < n") (simp_all add: double_until.simps [of k n])
qed

lemma scratch_grow_ok:
  assumes "scratch_ok sc"
  shows "scratch_ok (scratch_grow n sc)" "n \<le> sc_sz (scratch_grow n sc)"
  using assms double_until_ge [of "if sc_sz sc = 0 then 10 else sc_sz sc" n]
  by (auto simp: scratch_ok_def scratch_grow_def Let_def)

subsection \<open>The invariant of the loop\<close>

text \<open>
  The vertices that have moved are those whose new potential differs.  They moved down by their
  distance; no vertex left is nearer than a moved one; the edges out of a moved vertex, but for
  the pending ones, hold between the distances; and each distance is a consequence of the new
  edge and the graph.
\<close>

definition moved :: "number list \<Rightarrow> nat set \<Rightarrow> number list \<Rightarrow> nat set" where
  "moved p V alt = {v \<in> V. alt ! v \<noteq> p ! v}"

definition repair_inv ::
  "number list \<Rightarrow> nat set \<Rightarrow> (nat \<Rightarrow> nat \<Rightarrow> number option) \<Rightarrow> nat \<Rightarrow> nat \<Rightarrow> int \<Rightarrow> nat \<Rightarrow> (nat \<times> nat) set \<Rightarrow>
    repair_state \<Rightarrow> bool" where
  "repair_inv p V W ii jj \<delta> N X = (\<lambda>(dists, alt, h).
     length dists = N \<and> length alt = N \<and> heap_ok dists h \<and> heap_elems h \<subseteq> V \<and>
     (\<forall>v\<in>moved p V alt. alt ! v = p ! v + dists ! v \<and> dists ! v < 0) \<and>
     (\<forall>v\<in>heap_elems h. v \<notin> moved p V alt \<and> dists ! v < 0) \<and>
     (\<forall>v\<in>V. v \<notin> moved p V alt \<longrightarrow> v \<notin> heap_elems h \<longrightarrow> dists ! v = 0) \<and>
     (\<forall>u\<in>moved p V alt. \<forall>v\<in>V. v \<notin> moved p V alt \<longrightarrow> dists ! u \<le> dists ! v) \<and>
     (\<forall>u\<in>moved p V alt. \<forall>v w. W u v = Some w \<longrightarrow> (u, v) \<noteq> (ii, jj) \<longrightarrow> (u, v) \<notin> X \<longrightarrow>
        dists ! v \<le> dists ! u + p ! u + w - p ! v) \<and>
     (jj \<in> moved p V alt \<or> moved p V alt = {} \<and> heap_elems h = {jj}) \<and>
     (\<forall>v\<in>moved p V alt \<union> heap_elems h. entails W ii v (dists ! v + p ! v - p ! ii)) \<and>
     (\<forall>v\<in>V. \<delta> \<le> dists ! v) \<and> dists ! jj = \<delta>)"

lemma repair_invD:
  assumes "repair_inv p V W ii jj \<delta> N X (dists, alt, h)"
  shows "length dists = N" "length alt = N" "heap_ok dists h" "heap_elems h \<subseteq> V"
    "\<And>v. v \<in> moved p V alt \<Longrightarrow> alt ! v = p ! v + dists ! v \<and> dists ! v < 0"
    "\<And>v. v \<in> heap_elems h \<Longrightarrow> v \<notin> moved p V alt \<and> dists ! v < 0"
    "\<And>v. v \<in> V \<Longrightarrow> v \<notin> moved p V alt \<Longrightarrow> v \<notin> heap_elems h \<Longrightarrow> dists ! v = 0"
    "\<And>u v. u \<in> moved p V alt \<Longrightarrow> v \<in> V \<Longrightarrow> v \<notin> moved p V alt \<Longrightarrow> dists ! u \<le> dists ! v"
    "\<And>u v w. u \<in> moved p V alt \<Longrightarrow> W u v = Some w \<Longrightarrow> (u, v) \<noteq> (ii, jj) \<Longrightarrow> (u, v) \<notin> X \<Longrightarrow>
        dists ! v \<le> dists ! u + p ! u + w - p ! v"
    "jj \<in> moved p V alt \<or> moved p V alt = {} \<and> heap_elems h = {jj}"
    "\<And>v. v \<in> moved p V alt \<union> heap_elems h \<Longrightarrow> entails W ii v (dists ! v + p ! v - p ! ii)"
    "\<And>v. v \<in> V \<Longrightarrow> \<delta> \<le> dists ! v" "dists ! jj = \<delta>"
  using assms unfolding repair_inv_def by blast+

text \<open>What is fixed during one call.\<close>

definition repair_setup ::
  "readable \<Rightarrow> number list \<Rightarrow> nat set \<Rightarrow> (nat \<Rightarrow> nat \<Rightarrow> number option) \<Rightarrow> nat \<Rightarrow> nat \<Rightarrow> int \<Rightarrow> nat \<Rightarrow> bool" where
  "repair_setup g p V W ii jj \<delta> N \<longleftrightarrow> presents g V W \<and> rg_size g \<le> N \<and> ii \<in> V \<and> jj \<in> V \<and>
     (\<forall>v\<in>V. v < length p \<and> \<bar>p ! v\<bar> \<le> 2 ^ 120) \<and> weights_within (2 ^ 120) W \<and>
     (\<forall>s d w. W s d = Some w \<longrightarrow> (s, d) \<noteq> (ii, jj) \<longrightarrow> p ! d - p ! s \<le> w) \<and> - (2 ^ 122) \<le> \<delta> \<and> \<delta> < 0"

lemma repair_setupD:
  assumes "repair_setup g p V W ii jj \<delta> N"
  shows "presents g V W" "rg_size g \<le> N" "ii \<in> V" "jj \<in> V"
    "\<And>v. v \<in> V \<Longrightarrow> v < length p" "\<And>v. v \<in> V \<Longrightarrow> \<bar>p ! v\<bar> \<le> 2 ^ 120" "weights_within (2 ^ 120) W"
    "\<And>s d w. W s d = Some w \<Longrightarrow> (s, d) \<noteq> (ii, jj) \<Longrightarrow> p ! d - p ! s \<le> w" "- (2 ^ 122) \<le> \<delta>" "\<delta> < 0"
    "\<And>v. v \<in> V \<Longrightarrow> v < rg_size g" "\<And>v. v \<in> V \<Longrightarrow> v < N" "rg_size g \<le> 65535"
  using assms presentsD(1,2) [of g V W] unfolding repair_setup_def by fastforce+

lemma repair_edge_spec:
  assumes fixed: "repair_setup g p V W ii jj \<delta> N"
    and ri: "repair_inv p V W ii jj \<delta> N X (dists, alt, h)"
    and es: "es \<in> moved p V alt" "\<forall>u\<in>moved p V alt. dists ! u \<le> dists ! es"
    and e: "W es v = Some w"
  shows "\<exists>dists' h'. repair_edge p es (v, w) (dists, alt, h) = Some (dists', alt, h') \<and>
    repair_inv p V W ii jj \<delta> N (X - {(es, v)}) (dists', alt, h') \<and>
    (\<forall>u\<in>moved p V alt. dists' ! u = dists ! u)"
proof -
  note S = repair_setupD [OF fixed] and I = repair_invD [OF ri]
  let ?D = "moved p V alt"
  have v: "v \<in> V" "es \<in> V" using presentsD(4) [OF S(1) e] by auto
  have ae: "alt ! es = p ! es + dists ! es" "dists ! es < 0" using I(5) [OF es(1)] by auto
  have jjD: "jj \<in> ?D" using I(10) es(1) by auto
  have get: "vec_get alt v = Some (alt ! v)" "vec_get p v = Some (p ! v)" "vec_get alt es = Some (alt ! es)"
    "vec_get dists v = Some (dists ! v)"
    using S(5,12) [OF v(1)] S(12) [OF v(2)] I(1,2) by simp_all
  show ?thesis
  proof (cases "alt ! v = p ! v")
    case False
    then have vD: "v \<in> ?D" using v(1) by (simp add: moved_def)
    have "repair_edge p es (v, w) (dists, alt, h) = Some (dists, alt, h)"
      using False get by (simp add: repair_edge_def)
    moreover have "dists ! v \<le> dists ! es + p ! es + w - p ! v" if "(es, v) \<noteq> (ii, jj)"
      using es(2) vD S(8) [OF e that] by fastforce
    then have "repair_inv p V W ii jj \<delta> N (X - {(es, v)}) (dists, alt, h)"
      using ri e unfolding repair_inv_def by auto
    ultimately show ?thesis by blast
  next
    case True
    then have vD: "v \<notin> ?D" by (simp add: moved_def)
    have vj: "(es, v) \<noteq> (ii, jj)" using vD jjD by auto
    have rc: "p ! v - p ! es \<le> w" by (rule S(8) [OF e vj])
    define x where "x = alt ! es + w - p ! v"
    have bounds: "\<bar>alt ! es\<bar> \<le> 2 ^ 123" "\<bar>w\<bar> \<le> 2 ^ 120" "\<bar>p ! v\<bar> \<le> 2 ^ 120" "\<bar>p ! es\<bar> \<le> 2 ^ 120"
      using S(6) [OF v(1)] S(6) [OF v(2)] weights_withinD [OF S(7) e] I(12) [OF v(2)] S(9) ae by auto
    have a1: "num_add (alt ! es) w = Some (alt ! es + w)"
      by (rule num_add_small [of _ "2 ^ 123"]) (use bounds in auto)
    have a2: "num_sub (alt ! es + w) (alt ! v) = Some x"
      unfolding x_def True by (rule num_sub_small [of _ "2 ^ 124"]) (use bounds in auto)
    have lower: "dists ! es \<le> x" using rc ae by (simp add: x_def)
    show ?thesis
    proof (cases "x < dists ! v")
      case False
      then have "repair_edge p es (v, w) (dists, alt, h) = Some (dists, alt, h)"
        using True get a1 a2 by (simp add: repair_edge_def)
      moreover have "dists ! v \<le> dists ! es + p ! es + w - p ! v" using False ae by (simp add: x_def)
      then have "repair_inv p V W ii jj \<delta> N (X - {(es, v)}) (dists, alt, h)"
        using ri e unfolding repair_inv_def by auto
      ultimately show ?thesis by blast
    next
      case x: True
      let ?d = "dists[v := x]"
      have vN: "v < length dists" using S(12) [OF v(1)] I(1) by simp
      obtain h' where h': "requeue ?d v h = Some h'" "heap_ok ?d h'" "heap_elems h' = insert v (heap_elems h)"
        using wh.requeue [OF I(3) vN, of x] x by (auto simp: requeue_def)
      have run: "repair_edge p es (v, w) (dists, alt, h) = Some (?d, alt, h')"
        using True get a1 a2 x vN h'(1) by (simp add: repair_edge_def)
      have at: "?d ! u = (if u = v then x else dists ! u)" for u using vN by simp
      have old0: "dists ! v \<le> 0" using I(6) [of v] I(7) [OF v(1) vD] by (cases "v \<in> heap_elems h") auto
      have low: "?d ! u \<le> dists ! u" for u using x at by auto
      have ent: "entails W ii v (x + p ! v - p ! ii)"
        using entails_trans [of W ii es _ v w, OF I(11) [of es] entails_edge [of W, OF e]] es(1) ae
        by (simp add: x_def algebra_simps)
      have "repair_inv p V W ii jj \<delta> N (X - {(es, v)}) (?d, alt, h')"
        unfolding repair_inv_def case_prod_conv
      proof (intro conjI ballI allI impI)
        show "heap_elems h' \<subseteq> V" using h'(3) I(4) v(1) by simp
        show "u \<notin> ?D" "?d ! u < 0" if "u \<in> heap_elems h'" for u
          using that h'(3) I(6) vD x old0 at by auto
        show "?d ! u = 0" if "u \<in> V" "u \<notin> ?D" "u \<notin> heap_elems h'" for u
          using that h'(3) I(7) at by auto
        show "?d ! u \<le> ?d ! t" if "u \<in> ?D" "t \<in> V" "t \<notin> ?D" for u t
          using that I(8) at vD es(2) lower by (metis order.trans)
        show "?d ! t \<le> ?d ! u + p ! u + c - p ! t"
          if u: "u \<in> ?D" and "W u t = Some c" "(u, t) \<noteq> (ii, jj)" "(u, t) \<notin> X - {(es, v)}" for u t c
        proof (cases "(u, t) = (es, v)")
          case True
          then have "c = w" using e that(2) by simp
          then show ?thesis using True at ae vD es(1) by (auto simp: x_def)
        next
          case False
          then have "dists ! t \<le> dists ! u + p ! u + c - p ! t" using I(9) that by auto
          then show ?thesis using low [of t] at [of u] u vD by (cases "u = v") auto
        qed
        show "entails W ii u (?d ! u + p ! u - p ! ii)" if "u \<in> ?D \<union> heap_elems h'" for u
          using that h'(3) I(11) [of u] ent at [of u] by (cases "u = v") auto
        show "\<delta> \<le> ?d ! u" if "u \<in> V" for u
          using I(12) that at lower I(12) [OF v(2)] by (cases "u = v") auto
        show "?d ! jj = \<delta>" using I(13) at jjD vD by auto
      qed (use I(1,2,5) h'(2) jjD at vD in auto)
      moreover have "\<forall>u\<in>?D. ?d ! u = dists ! u" using at vD by auto
      ultimately show ?thesis using run by blast
    qed
  qed
qed

lemma repair_step_spec:
  assumes fixed: "repair_setup g p V W ii jj \<delta> N"
    and ri: "repair_inv p V W ii jj \<delta> N {} (dists, alt, h)" and ne: "\<not> heap_empty h"
  shows "\<exists>dists' alt' h'. repair_step g p (dists, alt, h) = Some (dists', alt', h') \<and>
    repair_inv p V W ii jj \<delta> N {} (dists', alt', h') \<and> moved p V alt \<subset> moved p V alt'"
proof -
  note S = repair_setupD [OF fixed] and I = repair_invD [OF ri]
  obtain es h1 where pop: "heap_remove_min dists h = Some (es, h1)" "heap_ok dists h1" "es \<in> heap_elems h"
    "heap_elems h1 = heap_elems h - {es}" "\<forall>y\<in>heap_elems h. dists ! es \<le> dists ! y"
    using wh.remove_min_ok [OF I(3)] ne wh.is_empty_iff by blast
  have esV: "es \<in> V" "es \<notin> moved p V alt" "dists ! es < 0" using pop(3) I(4,6) by auto
  have lim: "es < N" "es < length p" "es < rg_size g" using S(5,11,12) [OF esV(1)] by auto
  define alt1 where "alt1 = alt[es := p ! es + dists ! es]"
  have add: "num_add (p ! es) (dists ! es) = Some (p ! es + dists ! es)"
    by (rule num_add_small [of _ "2 ^ 120"]) (use S(6) [OF esV(1)] I(12) [OF esV(1)] S(9) esV(3) in auto)
  have at1: "alt1 ! u = (if u = es then p ! es + dists ! es else alt ! u)" for u
    using lim(1) I(2) by (simp add: alt1_def)
  have D1: "moved p V alt1 = insert es (moved p V alt)"
    using esV by (auto simp: moved_def at1)
  obtain edges where edges: "rg_e_succs g es = Some edges" "lists_edges edges (W es)"
    using presentsD(8) [OF S(1) esV(1)] by blast
  let ?X = "\<lambda>pre. {(es, v) |v. v \<in> V} - Pair es ` fst ` set pre"
  have inv1: "repair_inv p V W ii jj \<delta> N (?X []) (dists, alt1, h1)"
    unfolding repair_inv_def case_prod_conv D1
  proof (intro conjI ballI allI impI)
    show "alt1 ! v = p ! v + dists ! v" "dists ! v < 0" if "v \<in> insert es (moved p V alt)" for v
      using that I(5) [of v] esV at1 by auto
    show "v \<notin> insert es (moved p V alt)" "dists ! v < 0" if "v \<in> heap_elems h1" for v
      using that pop(4) I(6) by auto
    show "dists ! v = 0" if "v \<in> V" "v \<notin> insert es (moved p V alt)" "v \<notin> heap_elems h1" for v
      using that pop(4) I(7) by auto
    show "dists ! u \<le> dists ! v"
      if "u \<in> insert es (moved p V alt)" "v \<in> V" "v \<notin> insert es (moved p V alt)" for u v
      using that I(7) [of v] I(8) [of u v] pop(5) esV(3) by (cases "v \<in> heap_elems h") auto
    show "dists ! v \<le> dists ! u + p ! u + w - p ! v"
      if "u \<in> insert es (moved p V alt)" "W u v = Some w" "(u, v) \<noteq> (ii, jj)" "(u, v) \<notin> ?X []" for u v w
      using that I(9) presentsD(4) [OF S(1) that(2)] by auto
    show "jj \<in> insert es (moved p V alt) \<or> insert es (moved p V alt) = {} \<and> heap_elems h1 = {jj}"
      using I(10) pop(3) by auto
    show "entails W ii v (dists ! v + p ! v - p ! ii)" if "v \<in> insert es (moved p V alt) \<union> heap_elems h1" for v
      using that I(11) pop(3,4) by auto
  qed (use I pop(2,4) in \<open>auto simp: alt1_def\<close>)
  have near: "\<forall>u\<in>moved p V alt1. dists ! u \<le> dists ! es"
    using I(8) esV D1 by auto
  let ?P = "\<lambda>pre (d, a, h). a = alt1 \<and> repair_inv p V W ii jj \<delta> N (?X pre) (d, a, h) \<and>
    (\<forall>u\<in>moved p V alt1. d ! u = dists ! u)"
  have "\<exists>t. for_each (repair_edge p es) edges (dists, alt1, h1) = Some t \<and> ?P edges t"
  proof (rule for_each_total)
    show "?P [] (dists, alt1, h1)" using inv1 by simp
  next
    fix pre x rest st assume xs: "edges = pre @ x # rest" and P: "?P pre st"
    obtain v w where x: "x = (v, w)" by (cases x)
    obtain d h' where st: "st = (d, alt1, h')" using P by (cases st) auto
    have e: "W es v = Some w" using edges(2) xs x by (auto simp: lists_edges_def)
    have mem: "es \<in> moved p V alt1" using D1 by simp
    then have near': "\<forall>u\<in>moved p V alt1. d ! u \<le> d ! es" using near P st by auto
    have ri': "repair_inv p V W ii jj \<delta> N (?X pre) (d, alt1, h')" using P st by simp
    obtain d' h'' where r: "repair_edge p es (v, w) (d, alt1, h') = Some (d', alt1, h'')"
      "repair_inv p V W ii jj \<delta> N (?X pre - {(es, v)}) (d', alt1, h'')"
      "\<forall>u\<in>moved p V alt1. d' ! u = d ! u"
      using repair_edge_spec [OF fixed ri' mem near' e] by blast
    have "?X pre - {(es, v)} = ?X (pre @ [x])" using x by auto
    then show "\<exists>t. repair_edge p es x st = Some t \<and> ?P (pre @ [x]) t"
      using r P by (auto simp: x st)
  qed
  then obtain d' h' where fin: "for_each (repair_edge p es) edges (dists, alt1, h1) = Some (d', alt1, h')"
    "repair_inv p V W ii jj \<delta> N (?X edges) (d', alt1, h')" by auto
  have cover: "W u v = Some w \<Longrightarrow> (u, v) \<notin> ?X edges" for u v w
    using edges(2) by (force simp: lists_edges_def)
  have "repair_inv p V W ii jj \<delta> N {} (d', alt1, h')"
    using fin(2) cover unfolding repair_inv_def by auto
  moreover have "repair_step g p (dists, alt, h) = Some (d', alt1, h')"
    using pop(1) lim S(13) I(1,2) add edges(1) fin(1) by (simp add: repair_step_def alt1_def)
  moreover have "moved p V alt \<subset> moved p V alt1" using D1 esV(2) by auto
  ultimately show ?thesis by blast
qed

text \<open>When the heap is empty the distances decide, and the new potential is a solution.\<close>

lemma repair_end:
  assumes fixed: "repair_setup g p V W ii jj \<delta> N" and e: "W ii jj = Some c" "\<delta> = p ! ii + c - p ! jj"
    and ri: "repair_inv p V W ii jj \<delta> N {} (dists, alt, h)" and empty: "heap_empty h"
  shows "dists ! ii < 0 \<Longrightarrow> \<nexists>\<sigma>. solves \<sigma> W"
    and "\<not> dists ! ii < 0 \<Longrightarrow> solves (\<lambda>v. alt ! v) W"
proof -
  note S = repair_setupD [OF fixed] and I = repair_invD [OF ri]
  let ?D = "moved p V alt"
  have noheap: "heap_elems h = {}" using empty wh.is_empty_iff by blast
  have jjD: "jj \<in> ?D" using I(10) noheap by auto
  have alt: "alt ! v = p ! v + dists ! v" "dists ! v \<le> 0" if "v \<in> V" for v
  proof -
    have "alt ! v = p ! v + dists ! v \<and> dists ! v \<le> 0"
    proof (cases "v \<in> ?D")
      case False
      then have "alt ! v = p ! v" "dists ! v = 0" using I(7) [OF that] noheap that by (simp_all add: moved_def)
      then show ?thesis by simp
    qed (use I(5) in force)
    then show "alt ! v = p ! v + dists ! v" "dists ! v \<le> 0" by auto
  qed
  show "\<nexists>\<sigma>. solves \<sigma> W" if neg: "dists ! ii < 0"
  proof
    assume "\<exists>\<sigma>. solves \<sigma> W"
    then obtain \<sigma> where \<sigma>: "solves \<sigma> W" ..
    have "ii \<in> ?D" using I(7) [OF S(3)] noheap neg by auto
    then have "entails W ii ii (dists ! ii + p ! ii - p ! ii)" using I(11) by blast
    then have "\<sigma> ii - \<sigma> ii \<le> dists ! ii + p ! ii - p ! ii" using \<sigma> unfolding entails_def by blast
    then show False using neg by simp
  qed
  show "solves (\<lambda>v. alt ! v) W" if pos: "\<not> dists ! ii < 0"
    unfolding solves_def
  proof (intro allI impI)
    fix s d w assume W: "W s d = Some w"
    have sd: "s \<in> V" "d \<in> V" using presentsD(4) [OF S(1) W] by auto
    have ii: "ii \<notin> ?D" using I(5) pos by auto
    then have ii0: "dists ! ii = 0" using I(7) [OF S(3)] noheap by auto
    show "alt ! d - alt ! s \<le> w"
    proof (cases "(s, d) = (ii, jj)")
      case True
      then show ?thesis using W e alt [OF S(3)] alt [OF S(4)] I(13) ii0 by auto
    next
      case False
      show ?thesis
      proof (cases "s \<in> ?D")
        case True
        then show ?thesis using I(9) [OF True W False] alt [OF sd(1)] alt [OF sd(2)] by simp
      next
        case sD: False
        then have "dists ! s = 0" using I(7) [OF sd(1)] noheap by auto
        then show ?thesis using S(8) [OF W False] alt [OF sd(1)] alt [OF sd(2)] by simp
      qed
    qed
  qed
qed

subsection \<open>The call\<close>

lemma init_spec:
  assumes "\<And>v. v \<in> set vs \<Longrightarrow> v < length d \<and> v < length a \<and> v < length p"
  shows "\<exists>d' a'. for_each (\<lambda>v (dists, alt). do {
              dists \<leftarrow> vec_set v 0 dists;
              pv \<leftarrow> vec_get p v;
              alt \<leftarrow> vec_set v pv alt;
              Some (dists, alt) }) vs (d, a) = Some (d', a') \<and>
    length d' = length d \<and> length a' = length a \<and> (\<forall>v\<in>set vs. d' ! v = (0 :: number) \<and> a' ! v = p ! v)"
    (is "\<exists>d' a'. for_each ?f vs (d, a) = Some (d', a') \<and> _")
proof -
  have "\<exists>t. for_each ?f vs (d, a) = Some t \<and> (\<lambda>pre (d', a'). length d' = length d \<and> length a' = length a \<and>
      (\<forall>v\<in>set pre. d' ! v = 0 \<and> a' ! v = p ! v)) vs t"
    by (rule for_each_total) (use assms in \<open>auto simp: nth_list_update\<close>)
  then show ?thesis by auto
qed

lemma copy_back_spec:
  assumes "\<And>v. v \<in> set vs \<Longrightarrow> v < length a \<and> v < length p"
  shows "\<exists>p'. for_each (\<lambda>v p. do { av \<leftarrow> vec_get a v; vec_set v av p }) vs p = Some p' \<and>
    length p' = length p \<and> (\<forall>v\<in>set vs. p' ! v = (a ! v :: number)) \<and> (\<forall>v. v \<notin> set vs \<longrightarrow> p' ! v = p ! v)"
proof -
  have "\<exists>t. for_each (\<lambda>v p. do { av \<leftarrow> vec_get a v; vec_set v av p }) vs p = Some t \<and>
      (\<lambda>pre p'. length p' = length p \<and> (\<forall>v\<in>set pre. p' ! v = a ! v) \<and> (\<forall>v. v \<notin> set pre \<longrightarrow> p' ! v = p ! v)) vs t"
    by (rule for_each_total) (use assms in \<open>auto simp: nth_list_update\<close>)
  then show ?thesis by auto
qed

text \<open>
  The precondition of a call: the potential solves every constraint but that of the edge that
  was just set, and the numbers are far from the end of the range of \<open>i128\<close>.
\<close>

definition repairable ::
  "readable \<Rightarrow> number list \<Rightarrow> nat set \<Rightarrow> (nat \<Rightarrow> nat \<Rightarrow> number option) \<Rightarrow> nat \<Rightarrow> nat \<Rightarrow> bool" where
  "repairable g p V W ii jj \<longleftrightarrow> presents g V W \<and> (\<forall>v\<in>V. v < length p \<and> \<bar>p ! v\<bar> \<le> 2 ^ 120) \<and>
     weights_within (2 ^ 120) W \<and> W ii jj \<noteq> None \<and>
     (\<forall>s d w. W s d = Some w \<longrightarrow> (s, d) \<noteq> (ii, jj) \<longrightarrow> p ! d - p ! s \<le> w)"

lemma repair_potential_spec:
  assumes "repairable g p V W ii jj" "scratch_ok sc"
  shows "\<exists>b p' sc'. repair_potential sc g p ii jj = Some (b, p', sc') \<and> scratch_ok sc' \<and>
    length p' = length p \<and> (\<forall>v. v \<notin> V \<longrightarrow> p' ! v = p ! v) \<and>
    (b \<longleftrightarrow> (\<exists>\<sigma>. solves \<sigma> W)) \<and> (b \<longrightarrow> solves (\<lambda>v. p' ! v) W) \<and>
    (\<forall>v\<in>V. p ! v + min 0 (p ! ii + the (W ii jj) - p ! jj) \<le> p' ! v \<and> p' ! v \<le> p ! v)"
proof -
  have pres: "presents g V W" and pv: "\<And>v. v \<in> V \<Longrightarrow> v < length p \<and> \<bar>p ! v\<bar> \<le> 2 ^ 120"
    and wb: "weights_within (2 ^ 120) W"
    and others: "\<And>s d w. W s d = Some w \<Longrightarrow> (s, d) \<noteq> (ii, jj) \<Longrightarrow> p ! d - p ! s \<le> w"
    using assms(1) unfolding repairable_def by blast+
  obtain c where c: "W ii jj = Some c" using assms(1) unfolding repairable_def by blast
  define sc1 where "sc1 = scratch_grow (rg_size g) sc"
  have sc1: "scratch_ok sc1" "rg_size g \<le> sc_sz sc1" using scratch_grow_ok [OF assms(2)] by (auto simp: sc1_def)
  let ?N = "sc_sz sc1"
  have ij: "ii \<in> V" "jj \<in> V" "rg_edge_val g ii jj = Some c" using presentsD(4,5) [OF pres c] by auto
  have lim: "v \<in> V \<Longrightarrow> v < ?N" for v using presentsD(2) [OF pres, of v] sc1(2) by simp
  have lens: "length (sc_dists sc1) = ?N" "length (sc_dists_alt sc1) = ?N" using sc1(1) by (auto simp: scratch_ok_def)
  obtain vs where vs: "rg_verts g = Some vs" "set vs = V" using presentsD(3) [OF pres] by blast
  obtain d0 a0 where init: "for_each (\<lambda>v (dists, alt). do {
              dists \<leftarrow> vec_set v 0 dists;
              pv \<leftarrow> vec_get p v;
              alt \<leftarrow> vec_set v pv alt;
              Some (dists, alt) }) vs (sc_dists sc1, sc_dists_alt sc1) = Some (d0, a0)"
    "length d0 = ?N" "length a0 = ?N" "\<forall>v\<in>V. d0 ! v = 0 \<and> a0 ! v = p ! v"
    using init_spec [of vs "sc_dists sc1" "sc_dists_alt sc1" p] vs(2) lim pv lens by auto
  define \<delta> where "\<delta> = p ! ii + c - p ! jj"
  have small: "\<bar>p ! ii\<bar> \<le> 2 ^ 120" "\<bar>c\<bar> \<le> 2 ^ 120" "\<bar>p ! jj\<bar> \<le> 2 ^ 120"
    using pv [OF ij(1)] pv [OF ij(2)] weights_withinD [OF wb c] by auto
  have a1: "num_add (p ! ii) c = Some (p ! ii + c)" by (rule num_add_small [OF small(1)]) (use small in auto)
  have a2: "num_sub (p ! ii + c) (p ! jj) = Some \<delta>"
    unfolding \<delta>_def by (rule num_sub_small [of _ "2 ^ 121"]) (use small in auto)
  define d1 where "d1 = d0[jj := \<delta>]"
  have ok': "scratch_ok (sc1\<lparr>sc_dists := d, sc_dists_alt := a\<rparr>)" if "length d = ?N" "length a = ?N" for d a
    using sc1(1) that by (simp add: scratch_ok_def)
  have start: "repair_potential sc g p ii jj =
      (if \<delta> \<ge> 0 then Some (True, p, sc1\<lparr>sc_dists := d1, sc_dists_alt := a0\<rparr>)
       else do {
         h \<leftarrow> heap_insert d1 jj heap_new;
         (dists, alt, h) \<leftarrow> while_opt (\<lambda>(_, _, h). \<not> heap_empty h) (repair_step g p) (d1, a0, h);
         di \<leftarrow> vec_get dists ii;
         if di < 0 then Some (False, p, sc1\<lparr>sc_dists := dists, sc_dists_alt := alt\<rparr>)
         else do {
           p \<leftarrow> for_each (\<lambda>v p. do { av \<leftarrow> vec_get alt v; vec_set v av p }) vs p;
           Some (True, p, sc1\<lparr>sc_dists := dists, sc_dists_alt := alt\<rparr>) } })"
    using vs(1) init(1,2) ij lim pv a1 a2
    by (simp add: repair_potential_def sc1_def [symmetric] d1_def Let_def)
  show ?thesis
  proof (cases "\<delta> \<ge> 0")
    case True
    have "solves (\<lambda>v. p ! v) W"
      using others c True unfolding solves_def \<delta>_def by (smt (verit) option.inject prod.inject)
    then show ?thesis using start True ok' [of d1 a0] init(2,3) by (auto simp: d1_def min_def)
  next
    case False
    have setup_ok: "repair_setup g p V W ii jj \<delta> ?N"
    proof -
      have "- (2 ^ 122) \<le> \<delta>" using small unfolding \<delta>_def abs_le_iff by simp
      then show ?thesis
        using pres sc1(2) ij(1,2) pv wb others False unfolding repair_setup_def by (intro conjI) (blast | simp)+
    qed
    have jN: "jj < length d1" using lim [OF ij(2)] init(2) by (simp add: d1_def)
    obtain h where h: "heap_insert d1 jj heap_new = Some h" "heap_ok d1 h" "heap_elems h = {jj}"
      using wh.enqueue_ok [OF wh.empty_ok(1), of jj d1] jN wh.empty_ok(2) by auto
    have m0: "moved p V a0 = {}" using init(4) by (auto simp: moved_def)
    have at: "d1 ! v = (if v = jj then \<delta> else d0 ! v)" for v using jN by (auto simp: d1_def)
    have inv0: "repair_inv p V W ii jj \<delta> ?N {} (d1, a0, h)"
      unfolding repair_inv_def case_prod_conv m0
    proof (intro conjI ballI allI impI)
      show "entails W ii v (d1 ! v + p ! v - p ! ii)" if "v \<in> {} \<union> heap_elems h" for v
        using that h(3) at entails_edge [of W, OF c] by (simp add: \<delta>_def)
    qed (use init h at ij False in \<open>auto simp: d1_def [symmetric]\<close>, simp add: d1_def)
    obtain st where st: "while_opt (\<lambda>(_, _, h). \<not> heap_empty h) (repair_step g p) (d1, a0, h) = Some st"
      "repair_inv p V W ii jj \<delta> ?N {} st" "\<not> (\<lambda>(_, _, h). \<not> heap_empty h) st"
    proof -
      have fin: "finite V" using vs(2) by auto
      have "\<exists>t. while_opt (\<lambda>(_, _, h). \<not> heap_empty h) (repair_step g p) (d1, a0, h) = Some t \<and>
          repair_inv p V W ii jj \<delta> ?N {} t \<and> \<not> (\<lambda>(_, _, h). \<not> heap_empty h) t"
      proof (rule while_opt_total [where m = "\<lambda>(_, alt, _). card (V - moved p V alt)"])
        fix s assume s: "repair_inv p V W ii jj \<delta> ?N {} s" "(\<lambda>(_, _, h). \<not> heap_empty h) s"
        obtain d a h where s': "s = (d, a, h)" by (cases s)
        have cur: "repair_inv p V W ii jj \<delta> ?N {} (d, a, h)" "\<not> heap_empty h" using s s' by simp_all
        obtain d' a' h' where step: "repair_step g p (d, a, h) = Some (d', a', h')"
          "repair_inv p V W ii jj \<delta> ?N {} (d', a', h')" "moved p V a \<subset> moved p V a'"
          using repair_step_spec [OF setup_ok cur] by blast
        have "card (V - moved p V a') < card (V - moved p V a)"
          using step(3) fin by (intro psubset_card_mono) (auto simp: moved_def)
        then show "\<exists>t. repair_step g p s = Some t \<and> repair_inv p V W ii jj \<delta> ?N {} t \<and>
            (\<lambda>(_, alt, _). card (V - moved p V alt)) t < (\<lambda>(_, alt, _). card (V - moved p V alt)) s"
          using step s' by auto
      qed (rule inv0)
      then show thesis using that by blast
    qed
    obtain d a h' where dah: "st = (d, a, h')" by (cases st)
    have ri: "repair_inv p V W ii jj \<delta> ?N {} (d, a, h')" "heap_empty h'" using st(2,3) dah by auto
    note I = repair_invD [OF ri(1)]
    note fin = repair_end [OF setup_ok c \<delta>_def ri]
    have get: "vec_get d ii = Some (d ! ii)" using I(1) lim [OF ij(1)] by simp
    show ?thesis
    proof (cases "d ! ii < 0")
      case True
      then have "repair_potential sc g p ii jj = Some (False, p, sc1\<lparr>sc_dists := d, sc_dists_alt := a\<rparr>)"
        using start False h(1) st(1) dah get by simp
      then show ?thesis using fin(1) [OF True] ok' I(1,2) by (auto simp: min_def)
    next
      case pos: False
      obtain p' where p': "for_each (\<lambda>v p. do { av \<leftarrow> vec_get a v; vec_set v av p }) vs p = Some p'"
        "length p' = length p" "\<forall>v\<in>V. p' ! v = a ! v" "\<forall>v. v \<notin> V \<longrightarrow> p' ! v = p ! v"
        using copy_back_spec [of vs a p] vs(2) lim pv I(2) by auto
      have "repair_potential sc g p ii jj = Some (True, p', sc1\<lparr>sc_dists := d, sc_dists_alt := a\<rparr>)"
        using start False h(1) st(1) dah get pos p'(1) by simp
      moreover have "solves (\<lambda>v. p' ! v) W"
        using fin(2) [OF pos] p'(3) presentsD(4) [OF pres] unfolding solves_def by metis
      moreover have "p ! v + \<delta> \<le> p' ! v \<and> p' ! v \<le> p ! v" if v: "v \<in> V" for v
      proof (cases "v \<in> moved p V a")
        case True
        then show ?thesis using I(5) [OF True] I(12) [OF v] p'(3) v by simp
      next
        case False': False
        then show ?thesis using False p'(3) v by (simp add: moved_def)
      qed
      ultimately show ?thesis using ok' I(1,2) p'(2,4) False c by (simp add: \<delta>_def min_def) blast
    qed
  qed
qed

text \<open>C11: Repairing a potential is correct and always returns.  Let the potential solve every
  difference constraint of the graph except possibly the one of the edge that was just set,
  with potentials and weights of at most 120 bits.  Then \<open>repair_potential\<close> returns without a
  panic; it returns \<open>true\<close> exactly when the constraints have a solution, and then the
  potential it leaves solves all of them, the potentials outside the graph being unchanged.\<close>

theorem repair_potential_correct:
  assumes "repairable g p V W ii jj" "scratch_ok sc"
  shows "\<exists>b p' sc'. repair_potential sc g p ii jj = Some (b, p', sc') \<and>
    length p' = length p \<and> (\<forall>v. v \<notin> V \<longrightarrow> p' ! v = p ! v) \<and>
    (b \<longleftrightarrow> (\<exists>\<sigma>. solves \<sigma> W)) \<and> (b \<longrightarrow> solves (\<lambda>v. p' ! v) W)"
  using repair_potential_spec [OF assms] by blast

text \<open>The potential 0, 10 breaks the edge from 0 to 1 of weight 7.\<close>

theorem repair_potential_correct_witness:
  "\<exists>b p' sc'. repair_potential scratch_new (adapt_view sample_graph) [0, 10] 0 1 = Some (b, p', sc') \<and>
     b \<and> p' ! 1 - p' ! 0 \<le> 7"
proof -
  have W: "weight sample_graph s d = (if s = 0 \<and> d = 1 then Some 7 else None)" for s d
    by (auto simp: weight_def edge_index_def table_look_def sample_graph_def less_Suc_eq numeral_2_eq_2)
  have nodes: "{v. live sample_graph v} = {0, 1}"
    by (auto simp: live_def sample_graph_def less_Suc_eq numeral_2_eq_2)
  have pres: "presents (adapt_view sample_graph) {0, 1} (weight sample_graph)"
    using presents_adapt [OF sample_graph_ok(1)] by (simp add: nodes)
  have within: "weights_within (2 ^ 120) (weight sample_graph)"
    by (simp add: weights_within_def W)
  have bounds: "\<forall>v\<in>{0, 1}. v < length [0, 10 :: int] \<and> \<bar>[0, 10 :: int] ! v\<bar> \<le> 2 ^ 120"
    by simp
  have rest: "\<forall>s d w. weight sample_graph s d = Some w \<longrightarrow> (s, d) \<noteq> (0, 1) \<longrightarrow> [0, 10 :: int] ! d - [0, 10] ! s \<le> w"
    by (simp add: W)
  have edge: "weight sample_graph 0 1 \<noteq> None"
    by (simp add: W)
  have r: "repairable (adapt_view sample_graph) [0, 10] {0, 1} (weight sample_graph) 0 1"
    unfolding repairable_def by (intro conjI pres bounds within edge rest)
  have s: "\<exists>\<sigma>. solves \<sigma> (weight sample_graph)"
    by (rule exI [of _ "\<lambda>_. 0"]) (simp add: solves_def W)
  obtain b p' sc' where run: "repair_potential scratch_new (adapt_view sample_graph) [0, 10] 0 1 = Some (b, p', sc')"
    and b: "b = (\<exists>\<sigma>. solves \<sigma> (weight sample_graph))" and sol: "b \<longrightarrow> solves (\<lambda>v. p' ! v) (weight sample_graph)"
    using repair_potential_correct [OF r scratch_new_ok] by blast
  have "p' ! 1 - p' ! 0 \<le> 7" using sol s b by (simp add: solves_def W)
  then show ?thesis using run s b by blast
qed

end
