(* ===== verification/Closure_Assign.thy ===== *)
theory Closure_Assign
  imports Potential_Repair "HOL-Library.Multiset"
begin

text \<open>
  The closure after an assignment (\<open>close_after_assign\<close> of graph_ops.rs): the edges into and
  out of one vertex over paths of at most two edges.  Proved here: it returns, and every edge it
  lists is a consequence of the graph and no weaker than the edge it replaces.
\<close>

lemma set_mark_in: "v < length (sc_vert_marks sc) \<Longrightarrow> set_mark v m sc = Some (sc\<lparr>sc_vert_marks := (sc_vert_marks sc)[v := m]\<rparr>)"
  by (simp add: set_mark_def)

lemma set_dist_in: "v < length (sc_dists sc) \<Longrightarrow> set_dist v x sc = Some (sc\<lparr>sc_dists := (sc_dists sc)[v := x]\<rparr>)"
  by (simp add: set_dist_def)

lemma scratch_okD:
  assumes "scratch_ok sc"
  shows "length (sc_vert_marks sc) = sc_sz sc" "length (sc_dists sc) = sc_sz sc" "length (sc_dist_ts sc) = sc_sz sc"
    "length (sc_stability sc) = sc_sz sc" "length (sc_edge_marks sc) = sc_sz sc * sc_sz sc"
  using assms by (auto simp: scratch_ok_def)

lemma scratch_ok_update:
  "scratch_ok sc \<Longrightarrow> scratch_ok (sc\<lparr>sc_vert_marks := (sc_vert_marks sc)[v := m]\<rparr>)"
  "scratch_ok sc \<Longrightarrow> scratch_ok (sc\<lparr>sc_dists := (sc_dists sc)[v := x]\<rparr>)"
  by (auto simp: scratch_ok_def)

text \<open>The weights, and the potential, are of at most 100 bits: the bound of all the closures.\<close>

definition closable :: "readable \<Rightarrow> nat set \<Rightarrow> (nat \<Rightarrow> nat \<Rightarrow> number option) \<Rightarrow> potential \<Rightarrow> bool" where
  "closable g V W p \<longleftrightarrow> presents g V W \<and> weights_within (2 ^ 100) W \<and>
     (\<forall>v\<in>V. \<exists>x. p v = Some x \<and> \<bar>x\<bar> \<le> 2 ^ 100)"

lemma closable_rev:
  assumes "closable g V W p"
  shows "closable (rev_view g) V (\<lambda>s d. W d s) (\<lambda>u. Option.bind (p u) num_neg)"
proof -
  have "num_neg x = Some (- x)" if "\<bar>x\<bar> \<le> 2 ^ 100" for x
    using that unfolding num_neg_def by (intro chk_i128_ok in_i128_small) auto
  then show ?thesis
    using assms presents_rev [of g V W] by (fastforce simp: closable_def weights_within_def)
qed

text \<open>
  The distances of the marked vertices are consequences, those of the successors are no longer
  than their edges, and after \<open>k\<close> vertices of the queue they are at most \<open>k + 1\<close> edges long.
\<close>

definition fwd_ok ::
  "nat set \<Rightarrow> (nat \<Rightarrow> nat \<Rightarrow> number option) \<Rightarrow> nat \<Rightarrow> nat \<Rightarrow> nat \<Rightarrow> scratch_space \<Rightarrow> bool" where
  "fwd_ok V W v N k sc \<longleftrightarrow> scratch_ok sc \<and> sc_sz sc = N \<and>
     (\<forall>u\<in>V. sc_vert_marks sc ! u \<noteq> 0 \<longrightarrow>
        entails W v u (sc_dists sc ! u) \<and> \<bar>sc_dists sc ! u\<bar> \<le> 2 ^ 100 * (int k + 1)) \<and>
     (\<forall>u w. W v u = Some w \<longrightarrow> sc_vert_marks sc ! u \<noteq> 0 \<and> sc_dists sc ! u \<le> w)"

lemma entails_self: "0 \<le> x \<Longrightarrow> entails W v v x"
  by (simp add: entails_def)

lemma slacks_spec:
  assumes "\<forall>v\<in>set vs. v < length d \<and> \<bar>d ! v\<bar> \<le> 2 ^ 120 \<and> (\<exists>x. p v = Some x \<and> \<bar>x\<bar> \<le> 2 ^ 100)"
  shows "\<exists>ks. slacks d p vs = Some ks \<and> map snd ks = vs"
  using assms
proof (induction vs)
  case (Cons v vs)
  obtain ks where ks: "slacks d p vs = Some ks" "map snd ks = vs" using Cons by auto
  obtain x where x: "p v = Some x" "\<bar>x\<bar> \<le> 2 ^ 100" using Cons.prems by auto
  have "num_sub (d ! v) x = Some (d ! v - x)"
    by (rule num_sub_small [of _ "2 ^ 120"]) (use Cons.prems x in auto)
  then show ?case using ks x Cons.prems by simp
qed simp

lemma sort_by_slack_spec:
  assumes "\<forall>v\<in>set vs. v < length d \<and> \<bar>d ! v\<bar> \<le> 2 ^ 120 \<and> (\<exists>x. p v = Some x \<and> \<bar>x\<bar> \<le> 2 ^ 100)"
  shows "\<exists>ws. sort_by_slack d p vs = Some ws \<and> mset ws = mset vs"
proof -
  obtain ks where ks: "slacks d p vs = Some ks" "map snd ks = vs" using slacks_spec [OF assms] by blast
  have "mset (map snd (sort_key fst ks)) = mset (map snd ks)" by (simp only: mset_map mset_sort)
  then show ?thesis using ks by (auto simp: sort_by_slack_def)
qed

lemma fwd_init:
  assumes g: "closable g V W p" and sc: "scratch_ok sc" "rg_size g \<le> sc_sz sc" and v: "v \<in> V"
    and vs: "rg_verts g = Some vs" and es: "lists_edges es (W v)"
  shows "\<exists>sc1 sc2 queue.
    for_each (\<lambda>u sc. set_mark u 0 sc) vs sc = Some sc1 \<and>
    for_each (\<lambda>(d, w) (sc, queue). do {
              sc \<leftarrow> set_mark d BF_QUEUED sc;
              sc \<leftarrow> set_dist d w sc;
              Some (sc, queue @ [d]) }) es
      (sc1\<lparr>sc_vert_marks := (sc_vert_marks sc1)[v := BF_QUEUED], sc_dists := (sc_dists sc1)[v := 0]\<rparr>, []) =
      Some (sc2, queue) \<and>
    v < length (sc_vert_marks sc1) \<and> v < length (sc_dists sc1) \<and>
    queue = map fst es \<and> fwd_ok V W v (sc_sz sc) 0 sc2 \<and>
    (\<forall>u\<in>V. sc_vert_marks sc2 ! u \<noteq> 0 \<longrightarrow> u = v \<or> u \<in> set queue)"
proof -
  have pres: "presents g V W" and wb: "weights_within (2 ^ 100) W" using g by (auto simp: closable_def)
  have V: "set vs = V" using presentsD(3) [OF pres] vs by auto
  have lim: "u \<in> V \<Longrightarrow> u < sc_sz sc" for u using presentsD(2) [OF pres, of u] sc(2) by simp
  have "\<exists>sc1. for_each (\<lambda>u sc. set_mark u 0 sc) vs sc = Some sc1 \<and>
      (\<lambda>pre sc1. scratch_ok sc1 \<and> sc_sz sc1 = sc_sz sc \<and> (\<forall>u\<in>set pre. sc_vert_marks sc1 ! u = 0)) vs sc1"
  proof (rule for_each_total)
    fix pre u rest s assume "vs = pre @ u # rest" and s: "scratch_ok s \<and> sc_sz s = sc_sz sc \<and> (\<forall>u\<in>set pre. sc_vert_marks s ! u = 0)"
    then have "u < length (sc_vert_marks s)" using lim V scratch_okD(1) [of s] by auto
    then show "\<exists>t. set_mark u 0 s = Some t \<and> scratch_ok t \<and> sc_sz t = sc_sz sc \<and> (\<forall>x\<in>set (pre @ [u]). sc_vert_marks t ! x = 0)"
      using s by (auto simp: set_mark_in scratch_ok_update nth_list_update)
  qed (use sc in auto)
  then obtain sc1 where sc1: "for_each (\<lambda>u sc. set_mark u 0 sc) vs sc = Some sc1" "scratch_ok sc1" "sc_sz sc1 = sc_sz sc"
    "\<And>u. u \<in> V \<Longrightarrow> sc_vert_marks sc1 ! u = 0" using V by auto
  let ?N = "sc_sz sc"
  define sc0 where "sc0 = sc1\<lparr>sc_vert_marks := (sc_vert_marks sc1)[v := BF_QUEUED], sc_dists := (sc_dists sc1)[v := 0]\<rparr>"
  have len: "v < length (sc_vert_marks sc1)" "v < length (sc_dists sc1)" using lim [OF v] scratch_okD [OF sc1(2)] sc1(3) by auto
  let ?f = "\<lambda>(d, w) (sc, queue). do {
              sc \<leftarrow> set_mark d BF_QUEUED sc;
              sc \<leftarrow> set_dist d w sc;
              Some (sc, queue @ [d]) }"
  let ?P = "\<lambda>pre (sc, queue). queue = map fst pre \<and> scratch_ok sc \<and> sc_sz sc = ?N \<and>
     (\<forall>u\<in>V. sc_vert_marks sc ! u \<noteq> 0 \<longrightarrow> entails W v u (sc_dists sc ! u) \<and> \<bar>sc_dists sc ! u\<bar> \<le> 2 ^ 100) \<and>
     (\<forall>u\<in>V. sc_vert_marks sc ! u \<noteq> 0 \<longrightarrow> u = v \<or> u \<in> fst ` set pre) \<and>
     (\<forall>u\<in>fst ` set pre. sc_vert_marks sc ! u \<noteq> 0 \<and> W v u = Some (sc_dists sc ! u))"
  have "\<exists>t. for_each ?f es (sc0, []) = Some t \<and> ?P es t"
  proof (rule for_each_total)
    have "scratch_ok sc0" "sc_sz sc0 = ?N" using sc1(2,3) by (auto simp: sc0_def scratch_ok_def)
    moreover have "sc_vert_marks sc0 ! u \<noteq> 0 \<Longrightarrow> u \<in> V \<Longrightarrow> u = v \<and> sc_dists sc0 ! u = 0" for u
      using sc1(4) len by (cases "u = v") (auto simp: sc0_def)
    ultimately show "?P [] (sc0, [])" by (auto intro: entails_self)
  next
    fix pre x rest st assume xs: "es = pre @ x # rest" and P: "?P pre st"
    obtain d w where x: "x = (d, w)" by (cases x)
    obtain s q where st: "st = (s, q)" by (cases st)
    have W: "W v d = Some w" using es xs x by (auto simp: lists_edges_def)
    have d: "d \<in> V" using presentsD(4) [OF pres W] by blast
    have dl: "d < length (sc_vert_marks s)" "d < length (sc_dists s)" using lim [OF d] P st scratch_okD [of s] by auto
    let ?t = "s\<lparr>sc_vert_marks := (sc_vert_marks s)[d := BF_QUEUED], sc_dists := (sc_dists s)[d := w]\<rparr>"
    have "?f x st = Some (?t, q @ [d])" using dl by (simp add: x st set_mark_in set_dist_in)
    moreover have "?P (pre @ [x]) (?t, q @ [d])"
      using P dl entails_edge [of W, OF W] weights_withinD [OF wb W] W
      by (auto simp: st x scratch_ok_def nth_list_update BF_QUEUED_def)
    ultimately show "\<exists>t. ?f x st = Some t \<and> ?P (pre @ [x]) t" by blast
  qed
  then obtain sc2 queue where t: "for_each ?f es (sc0, []) = Some (sc2, queue)" "?P es (sc2, queue)" by auto
  have "fwd_ok V W v ?N 0 sc2"
    unfolding fwd_ok_def
  proof (intro conjI allI impI ballI)
    fix u w assume "W v u = Some w"
    then have "u \<in> fst ` set es" using es by (force simp: lists_edges_def)
    then show "sc_vert_marks sc2 ! u \<noteq> 0" "sc_dists sc2 ! u \<le> w" using t(2) \<open>W v u = Some w\<close> by auto
  qed (use t(2) in auto)
  moreover have "\<forall>u\<in>V. sc_vert_marks sc2 ! u \<noteq> 0 \<longrightarrow> u = v \<or> u \<in> set queue" using t(2) by auto
  ultimately show ?thesis using sc1(1) t len by (auto simp: sc0_def)
qed

text \<open>Scanning loses no mark and only lowers the distances of the marked vertices.\<close>

definition fwd_le :: "scratch_space \<Rightarrow> scratch_space \<Rightarrow> bool" where
  "fwd_le sc sc' \<longleftrightarrow> (\<forall>u. sc_vert_marks sc ! u \<noteq> 0 \<longrightarrow> sc_vert_marks sc' ! u \<noteq> 0 \<and> sc_dists sc' ! u \<le> sc_dists sc ! u)"

lemma fwd_le_refl [simp]: "fwd_le sc sc"
  by (simp add: fwd_le_def)

lemma fwd_le_trans: "fwd_le a b \<Longrightarrow> fwd_le b c \<Longrightarrow> fwd_le a c"
  by (fastforce simp: fwd_le_def)

text \<open>The marked vertices are the source, the queue and the vertices reached.\<close>

definition fwd_inv ::
  "nat set \<Rightarrow> (nat \<Rightarrow> nat \<Rightarrow> number option) \<Rightarrow> nat \<Rightarrow> nat \<Rightarrow> nat set \<Rightarrow> nat \<Rightarrow> scratch_space \<times> nat list \<Rightarrow> bool" where
  "fwd_inv V W v N Q k = (\<lambda>(sc, reach). fwd_ok V W v N k sc \<and> set reach \<subseteq> V \<and>
     (\<forall>u\<in>set reach \<union> Q. sc_vert_marks sc ! u \<noteq> 0) \<and>
     (\<forall>u\<in>V. sc_vert_marks sc ! u \<noteq> 0 \<longrightarrow> u = v \<or> u \<in> Q \<or> u \<in> set reach))"

lemma fwd_edge_spec:
  assumes g: "closable g V W p" and k: "k < 65536" and N: "rg_size g \<le> N"
    and d: "d \<in> V" "entails W v d d_wt" "\<bar>d_wt\<bar> \<le> 2 ^ 100 * (int k + 1)" and W: "W d u = Some w"
    and inv: "fwd_inv V W v N Q (Suc k) (s, rc)"
  shows "\<exists>s' rc'. fwd_edge d_wt (u, w) (s, rc) = Some (s', rc') \<and> fwd_inv V W v N Q (Suc k) (s', rc') \<and>
    fwd_le s s' \<and> sc_vert_marks s' ! u \<noteq> 0 \<and> sc_dists s' ! u \<le> d_wt + w"
proof -
  have pres: "presents g V W" and wb: "weights_within (2 ^ 100) W" using g by (auto simp: closable_def)
  have u: "u \<in> V" using presentsD(4) [OF pres W] by blast
  have s: "fwd_ok V W v N (Suc k) s" using inv by (simp add: fwd_inv_def)
  have so: "scratch_ok s" "sc_sz s = N" using s by (auto simp: fwd_ok_def)
  have "u < N" using presentsD(2) [OF pres u] N by simp
  then have len: "u < length (sc_vert_marks s)" "u < length (sc_dists s)" using so scratch_okD [of s] by auto
  have bk: "2 ^ 100 * (int k + 1) \<le> 2 ^ 117" using k by simp
  have add: "num_add d_wt w = Some (d_wt + w)"
    by (rule num_add_small [OF d(3)]) (use weights_withinD [OF wb W] bk in auto)
  have ent: "entails W v u (d_wt + w)" by (rule entails_trans [of W v d d_wt u w, OF d(2) entails_edge [of W, OF W]])
  have size: "\<bar>d_wt + w\<bar> \<le> 2 ^ 100 * (int (Suc k) + 1)"
    using weights_withinD [OF wb W] d(3) by simp
  show ?thesis
  proof (cases "sc_vert_marks s ! u = 0")
    case True
    let ?t = "s\<lparr>sc_dists := (sc_dists s)[u := d_wt + w], sc_vert_marks := (sc_vert_marks s)[u := BF_QUEUED]\<rparr>"
    have "W v u = None" using s True unfolding fwd_ok_def by (metis option.exhaust)
    then have "fwd_ok V W v N (Suc k) ?t"
      using s ent size len unfolding fwd_ok_def
      by (auto simp: scratch_ok_def nth_list_update BF_QUEUED_def)
    then have "fwd_inv V W v N Q (Suc k) (?t, rc @ [u])"
      using inv u len by (auto simp: fwd_inv_def nth_list_update BF_QUEUED_def)
    moreover have "fwd_edge d_wt (u, w) (s, rc) = Some (?t, rc @ [u])"
      using True add len by (simp add: fwd_edge_def set_mark_in set_dist_in)
    moreover have "fwd_le s ?t" using True len by (auto simp: fwd_le_def nth_list_update)
    ultimately show ?thesis using len by (auto simp: BF_QUEUED_def)
  next
    case False
    show ?thesis
    proof (cases "d_wt + w < sc_dists s ! u")
      case True
      let ?t = "s\<lparr>sc_dists := (sc_dists s)[u := d_wt + w]\<rparr>"
      have "d_wt + w \<le> wa" if "W v u = Some wa" for wa
        using s that True unfolding fwd_ok_def by fastforce
      then have "fwd_ok V W v N (Suc k) ?t"
        using s ent size len True unfolding fwd_ok_def
        by (auto simp: scratch_ok_def nth_list_update)
      then have "fwd_inv V W v N Q (Suc k) (?t, rc)" using inv by (auto simp: fwd_inv_def)
      moreover have "fwd_edge d_wt (u, w) (s, rc) = Some (?t, rc)"
        using True False add len by (simp add: fwd_edge_def set_dist_in)
      moreover have "fwd_le s ?t" using True len by (auto simp: fwd_le_def nth_list_update)
      ultimately show ?thesis using len False by auto
    next
      case F2: False
      then have "fwd_edge d_wt (u, w) (s, rc) = Some (s, rc)" using False add len by (simp add: fwd_edge_def)
      then show ?thesis using inv False F2 by auto
    qed
  qed
qed

lemma fwd_inv_Suc: "fwd_inv V W v N Q k st \<Longrightarrow> fwd_inv V W v N Q (Suc k) st"
  by (fastforce simp: fwd_inv_def fwd_ok_def)

lemma fwd_relax:
  assumes g: "closable g V W p" and k: "k < 65536" and inv: "fwd_inv V W v N Q k (sc, reach)" and N: "rg_size g \<le> N"
    and d: "d \<in> V" "entails W v d d_wt" "\<bar>d_wt\<bar> \<le> 2 ^ 100 * (int k + 1)" and es: "lists_edges es (W d)"
  shows "\<exists>sc' reach'. for_each (fwd_edge d_wt) es (sc, reach) = Some (sc', reach') \<and>
    fwd_inv V W v N Q (Suc k) (sc', reach') \<and> fwd_le sc sc' \<and>
    (\<forall>u w. W d u = Some w \<longrightarrow> sc_vert_marks sc' ! u \<noteq> 0 \<and> sc_dists sc' ! u \<le> d_wt + w)"
proof -
  let ?P = "\<lambda>pre (s, rc). fwd_inv V W v N Q (Suc k) (s, rc) \<and> fwd_le sc s \<and>
     (\<forall>(u, w)\<in>set pre. sc_vert_marks s ! u \<noteq> 0 \<and> sc_dists s ! u \<le> d_wt + w)"
  have "\<exists>t. for_each (fwd_edge d_wt) es (sc, reach) = Some t \<and> ?P es t"
  proof (rule for_each_total)
    show "?P [] (sc, reach)" using fwd_inv_Suc [OF inv] by simp
  next
    fix pre x rest st assume xs: "es = pre @ x # rest" and P: "?P pre st"
    obtain u w where x: "x = (u, w)" by (cases x)
    obtain s rc where st: "st = (s, rc)" by (cases st)
    have W: "W d u = Some w" using es xs x by (auto simp: lists_edges_def)
    obtain s' rc' where r: "fwd_edge d_wt (u, w) (s, rc) = Some (s', rc')" "fwd_inv V W v N Q (Suc k) (s', rc')"
      "fwd_le s s'" "sc_vert_marks s' ! u \<noteq> 0" "sc_dists s' ! u \<le> d_wt + w"
      using fwd_edge_spec [OF g k N d W, of Q s rc] P st by auto
    have "\<forall>(u, w)\<in>set (pre @ [x]). sc_vert_marks s' ! u \<noteq> 0 \<and> sc_dists s' ! u \<le> d_wt + w"
      using P st r(3-5) x unfolding fwd_le_def by fastforce
    moreover have "fwd_le sc s'" using P st fwd_le_trans [OF _ r(3)] by auto
    ultimately show "\<exists>t. fwd_edge d_wt x st = Some t \<and> ?P (pre @ [x]) t"
      using r(1,2) x st by (intro exI [of _ "(s', rc')"]) auto
  qed
  then show ?thesis using es by (fastforce simp: lists_edges_def)
qed

text \<open>
  One pass lists the vertices reached by paths of one or two edges: with a weight that is a
  consequence, that is no larger than the edge replaced and no larger than any such path.
\<close>

definition fwd_closed :: "nat set \<Rightarrow> (nat \<Rightarrow> nat \<Rightarrow> number option) \<Rightarrow> nat \<Rightarrow> (nat \<times> number) list \<Rightarrow> bool" where
  "fwd_closed V W v aux \<longleftrightarrow>
     (\<forall>(u, x)\<in>set aux. u \<in> V \<and> entails W v u x \<and> \<bar>x\<bar> \<le> 2 ^ 117 \<and> (\<forall>w. W v u = Some w \<longrightarrow> x \<le> w)) \<and>
     (\<forall>d u a b. W v d = Some a \<longrightarrow> W d u = Some b \<longrightarrow> u \<noteq> v \<longrightarrow> (\<exists>x. (u, x) \<in> set aux \<and> x \<le> a + b))"

lemma fwd_scan:
  assumes g: "closable g V W p" and inv: "fwd_inv V W v N (set queue) 0 (sc, [])" and N: "rg_size g \<le> N"
    and q: "distinct queue" "\<forall>d. d \<in> set queue \<longleftrightarrow> W v d \<noteq> None"
  shows "\<exists>sc' reach. for_each (\<lambda>d (sc, reach). do {
              d_wt \<leftarrow> vec_get (sc_dists sc) d;
              edges \<leftarrow> rg_e_succs g d;
              for_each (fwd_edge d_wt) edges (sc, reach) }) queue (sc, []) = Some (sc', reach) \<and>
    fwd_inv V W v N (set queue) (length queue) (sc', reach) \<and>
    (\<forall>d u a b. W v d = Some a \<longrightarrow> W d u = Some b \<longrightarrow> sc_vert_marks sc' ! u \<noteq> 0 \<and> sc_dists sc' ! u \<le> a + b)"
proof -
  let ?f = "\<lambda>d (sc, reach). do {
              d_wt \<leftarrow> vec_get (sc_dists sc) d;
              edges \<leftarrow> rg_e_succs g d;
              for_each (fwd_edge d_wt) edges (sc, reach) }"
  let ?P = "\<lambda>pre (s, rc). fwd_inv V W v N (set queue) (length pre) (s, rc) \<and>
     (\<forall>d u a b. d \<in> set pre \<longrightarrow> W v d = Some a \<longrightarrow> W d u = Some b \<longrightarrow> sc_vert_marks s ! u \<noteq> 0 \<and> sc_dists s ! u \<le> a + b)"
  have pres: "presents g V W" using g by (auto simp: closable_def)
  have qV: "set queue \<subseteq> V" using q(2) presentsD(4) [OF pres] by blast
  have short: "length queue \<le> 65535"
  proof -
    have "set queue \<subseteq> {..<65535}" using qV presentsD(1,2) [OF pres] by fastforce
    then have "card (set queue) \<le> card {..<65535 :: nat}" by (rule card_mono [OF finite_lessThan])
    then show ?thesis using distinct_card [OF q(1)] by simp
  qed
  have "\<exists>t. for_each ?f queue (sc, []) = Some t \<and> ?P queue t"
  proof (rule for_each_total [where P = ?P])
    show "?P [] (sc, [])" using inv by simp
  next
    fix pre d rest st assume xs: "queue = pre @ d # rest" and P: "?P pre st"
    obtain s rc where st: "st = (s, rc)" by (cases st)
    have i: "fwd_inv V W v N (set queue) (length pre) (s, rc)" using P st by simp
    then have ok: "fwd_ok V W v N (length pre) s" and m: "sc_vert_marks s ! d \<noteq> 0" using xs by (auto simp: fwd_inv_def)
    have d: "d \<in> V" using qV xs by auto
    have "d < N" using presentsD(2) [OF pres d] N by simp
    then have get: "vec_get (sc_dists s) d = Some (sc_dists s ! d)" using ok scratch_okD [of s] by (auto simp: fwd_ok_def)
    have dist: "entails W v d (sc_dists s ! d)" "\<bar>sc_dists s ! d\<bar> \<le> 2 ^ 100 * (int (length pre) + 1)"
      "\<And>a. W v d = Some a \<Longrightarrow> sc_dists s ! d \<le> a" using ok m d by (auto simp: fwd_ok_def)
    obtain es where es: "rg_e_succs g d = Some es" "lists_edges es (W d)" using presentsD(8) [OF pres d] by blast
    have k: "length pre < 65536" using short xs by simp
    obtain s' rc' where r: "for_each (fwd_edge (sc_dists s ! d)) es (s, rc) = Some (s', rc')"
      "fwd_inv V W v N (set queue) (Suc (length pre)) (s', rc')" "fwd_le s s'"
      "\<And>u w. W d u = Some w \<Longrightarrow> sc_vert_marks s' ! u \<noteq> 0 \<and> sc_dists s' ! u \<le> sc_dists s ! d + w"
      using fwd_relax [OF g k i N d dist(1,2) es(2)] by blast
    have "sc_vert_marks s' ! u \<noteq> 0 \<and> sc_dists s' ! u \<le> a + b"
      if "e \<in> set (pre @ [d])" "W v e = Some a" "W e u = Some b" for e u a b
    proof (cases "e = d")
      case True
      then show ?thesis using r(4) [of u b] dist(3) [of a] that by fastforce
    next
      case False
      then have "sc_vert_marks s ! u \<noteq> 0 \<and> sc_dists s ! u \<le> a + b" using P st that by fastforce
      then show ?thesis using r(3) unfolding fwd_le_def by fastforce
    qed
    then show "\<exists>t. ?f d st = Some t \<and> ?P (pre @ [d]) t"
      using get es(1) r(1,2) st by (intro exI [of _ "(s', rc')"]) auto
  qed
  then show ?thesis using q(2) by fastforce
qed

lemma fwd_collect:
  assumes "fwd_ok V W v N k sc" "\<forall>u\<in>set us. u < N"
  shows "\<exists>sc'. for_each (\<lambda>d (sc, aux). do {
              x \<leftarrow> vec_get (sc_dists sc) d;
              sc \<leftarrow> set_mark d 0 sc;
              Some (sc, aux @ [(d, x)]) }) us (sc, []) = Some (sc', map (\<lambda>u. (u, sc_dists sc ! u)) us) \<and>
    scratch_ok sc' \<and> sc_sz sc' = N"
proof -
  let ?f = "\<lambda>d (sc, aux). do {
              x \<leftarrow> vec_get (sc_dists sc) d;
              sc \<leftarrow> set_mark d 0 sc;
              Some (sc, aux @ [(d, x)]) }"
  let ?P = "\<lambda>pre (s, aux). scratch_ok s \<and> sc_sz s = N \<and> sc_dists s = sc_dists sc \<and> aux = map (\<lambda>u. (u, sc_dists sc ! u)) pre"
  have "\<exists>t. for_each ?f us (sc, []) = Some t \<and> ?P us t"
  proof (rule for_each_total)
    show "?P [] (sc, [])" using assms(1) by (simp add: fwd_ok_def)
  next
    fix pre u rest st assume "us = pre @ u # rest" "?P pre st"
    moreover obtain s aux where "st = (s, aux)" by (cases st)
    ultimately show "\<exists>t. ?f u st = Some t \<and> ?P (pre @ [u]) t"
      using assms(2) scratch_okD [of s] by (auto simp: set_mark_in scratch_ok_update)
  qed
  then show ?thesis by auto
qed

lemma close_after_assign_fwd_spec:
  assumes g: "closable g V W p" and sc: "scratch_ok sc" "rg_size g \<le> sc_sz sc" and v: "v \<in> V"
  shows "\<exists>sc' aux. close_after_assign_fwd sc g p v = Some (sc', aux) \<and> scratch_ok sc' \<and> sc_sz sc' = sc_sz sc \<and>
    fwd_closed V W v aux"
proof -
  let ?N = "sc_sz sc"
  have pres: "presents g V W" using g by (auto simp: closable_def)
  obtain vs where vs: "rg_verts g = Some vs" using presentsD(3) [OF pres] by blast
  obtain es where es: "rg_e_succs g v = Some es" "lists_edges es (W v)" using presentsD(8) [OF pres v] by blast
  obtain sc1 sc2 queue where init: "for_each (\<lambda>u sc. set_mark u 0 sc) vs sc = Some sc1"
    "for_each (\<lambda>(d, w) (sc, queue). do {
              sc \<leftarrow> set_mark d BF_QUEUED sc;
              sc \<leftarrow> set_dist d w sc;
              Some (sc, queue @ [d]) }) es
      (sc1\<lparr>sc_vert_marks := (sc_vert_marks sc1)[v := BF_QUEUED], sc_dists := (sc_dists sc1)[v := 0]\<rparr>, []) =
      Some (sc2, queue)" "v < length (sc_vert_marks sc1)" "v < length (sc_dists sc1)"
    "queue = map fst es" "fwd_ok V W v ?N 0 sc2" "\<forall>u\<in>V. sc_vert_marks sc2 ! u \<noteq> 0 \<longrightarrow> u = v \<or> u \<in> set queue"
    using fwd_init [OF g sc v vs es(2)] by blast
  have q: "distinct queue" "\<And>d. d \<in> set queue \<longleftrightarrow> W v d \<noteq> None"
    using es(2) init(5) by (force simp: lists_edges_def)+
  have qV: "u \<in> V" if "u \<in> set queue" for u using q(2) that presentsD(4) [OF pres] by blast
  have lim: "u \<in> V \<Longrightarrow> u < ?N" for u using presentsD(2) [OF pres, of u] sc(2) by simp
  have marked: "sc_vert_marks sc2 ! d \<noteq> 0" if "d \<in> set queue" for d
    using that init(6) q(2) by (auto simp: fwd_ok_def)
  have "\<forall>d\<in>set queue. d < length (sc_dists sc2) \<and> \<bar>sc_dists sc2 ! d\<bar> \<le> 2 ^ 120 \<and> (\<exists>x. p d = Some x \<and> \<bar>x\<bar> \<le> 2 ^ 100)"
  proof
    fix d assume d: "d \<in> set queue"
    have "\<bar>sc_dists sc2 ! d\<bar> \<le> 2 ^ 100" using init(6) marked [OF d] qV [OF d] by (fastforce simp: fwd_ok_def)
    moreover have "length (sc_dists sc2) = ?N" using init(6) scratch_okD [of sc2] by (auto simp: fwd_ok_def)
    ultimately show "d < length (sc_dists sc2) \<and> \<bar>sc_dists sc2 ! d\<bar> \<le> 2 ^ 120 \<and> (\<exists>x. p d = Some x \<and> \<bar>x\<bar> \<le> 2 ^ 100)"
      using g qV [OF d] lim by (auto simp: closable_def)
  qed
  then obtain ws where ws: "sort_by_slack (sc_dists sc2) p queue = Some ws" "mset ws = mset queue"
    using sort_by_slack_spec by blast
  have wsq: "distinct ws" "set ws = set queue"
    using ws(2) q(1) mset_eq_imp_distinct_iff mset_eq_setD by blast+
  have inv: "fwd_inv V W v ?N (set ws) 0 (sc2, [])"
    using init(6,7) marked wsq by (auto simp: fwd_inv_def)
  obtain sc3 reach where scan: "for_each (\<lambda>d (sc, reach). do {
              d_wt \<leftarrow> vec_get (sc_dists sc) d;
              edges \<leftarrow> rg_e_succs g d;
              for_each (fwd_edge d_wt) edges (sc, reach) }) ws (sc2, []) = Some (sc3, reach)"
    "fwd_inv V W v ?N (set ws) (length ws) (sc3, reach)"
    "\<And>d u a b. W v d = Some a \<Longrightarrow> W d u = Some b \<Longrightarrow> sc_vert_marks sc3 ! u \<noteq> 0 \<and> sc_dists sc3 ! u \<le> a + b"
    using fwd_scan [OF g inv sc(2) wsq(1)] q(2) wsq(2) by blast
  have ok3: "fwd_ok V W v ?N (length ws) sc3" using scan(2) by (simp add: fwd_inv_def)
  have all: "\<forall>u\<in>set (ws @ reach). u \<in> V \<and> sc_vert_marks sc3 ! u \<noteq> 0"
    using scan(2) wsq(2) qV by (auto simp: fwd_inv_def)
  obtain sc4 where coll: "for_each (\<lambda>d (sc, aux). do {
              x \<leftarrow> vec_get (sc_dists sc) d;
              sc \<leftarrow> set_mark d 0 sc;
              Some (sc, aux @ [(d, x)]) }) (ws @ reach) (sc3, []) = Some (sc4, map (\<lambda>u. (u, sc_dists sc3 ! u)) (ws @ reach))"
    "scratch_ok sc4" "sc_sz sc4 = ?N"
    using fwd_collect [OF ok3, of "ws @ reach"] all lim by blast
  have "length ws \<le> 65535"
  proof -
    have "set ws \<subseteq> {..<65535}" using all presentsD(1,2) [OF pres] by fastforce
    then have "card (set ws) \<le> card {..<65535 :: nat}" by (rule card_mono [OF finite_lessThan])
    then show ?thesis using distinct_card [OF wsq(1)] by simp
  qed
  then have big: "2 ^ 100 * (int (length ws) + 1) \<le> 2 ^ 117" by simp
  have "fwd_closed V W v (map (\<lambda>u. (u, sc_dists sc3 ! u)) (ws @ reach))"
    unfolding fwd_closed_def
  proof (intro conjI allI impI ballI)
    fix y assume "y \<in> set (map (\<lambda>u. (u, sc_dists sc3 ! u)) (ws @ reach))"
    then obtain u where u: "y = (u, sc_dists sc3 ! u)" "u \<in> set (ws @ reach)" by auto
    have "entails W v u (sc_dists sc3 ! u)" "\<bar>sc_dists sc3 ! u\<bar> \<le> 2 ^ 117"
      using ok3 all u(2) big unfolding fwd_ok_def by fastforce+
    moreover have "\<forall>w. W v u = Some w \<longrightarrow> sc_dists sc3 ! u \<le> w" using ok3 by (simp add: fwd_ok_def)
    ultimately show "case y of (u, x) \<Rightarrow> u \<in> V \<and> entails W v u x \<and> \<bar>x\<bar> \<le> 2 ^ 117 \<and> (\<forall>w. W v u = Some w \<longrightarrow> x \<le> w)"
      using u all by simp
  next
    fix d u a b assume path: "W v d = Some a" "W d u = Some b" and "u \<noteq> v"
    have m: "sc_vert_marks sc3 ! u \<noteq> 0" "sc_dists sc3 ! u \<le> a + b" using scan(3) [OF path] by auto
    have "u \<in> V" using presentsD(4) [OF pres path(2)] by blast
    then have "u \<in> set (ws @ reach)" using scan(2) m(1) \<open>u \<noteq> v\<close> by (auto simp: fwd_inv_def)
    then show "\<exists>x. (u, x) \<in> set (map (\<lambda>u. (u, sc_dists sc3 ! u)) (ws @ reach)) \<and> x \<le> a + b"
      using m(2) by (intro exI [of _ "sc_dists sc3 ! u"]) auto
  qed
  then show ?thesis
    using vs es(1) init(1-4) ws(1) scan(1) coll
    by (intro exI [of _ sc4] exI [of _ "map (\<lambda>u. (u, sc_dists sc3 ! u)) (ws @ reach)"])
      (simp add: close_after_assign_fwd_def set_mark_in set_dist_in)
qed

lemma entails_transpose: "entails (\<lambda>s d. W d s) v u x \<longleftrightarrow> entails W u v x"
proof -
  have t: "solves \<sigma> W \<longleftrightarrow> solves (\<lambda>v. - \<sigma> v) (\<lambda>s d. W d s)" for \<sigma> and W :: "nat \<Rightarrow> nat \<Rightarrow> number option"
    by (fastforce simp: solves_def)
  show ?thesis
    unfolding entails_def
  proof (intro iffI allI impI)
    fix \<sigma> assume h: "\<forall>\<sigma>. solves \<sigma> (\<lambda>s d. W d s) \<longrightarrow> \<sigma> u - \<sigma> v \<le> x" "solves \<sigma> W"
    then have "- \<sigma> u - - \<sigma> v \<le> x" using t [of \<sigma> W] by blast
    then show "\<sigma> v - \<sigma> u \<le> x" by simp
  next
    fix \<sigma> assume h: "\<forall>\<sigma>. solves \<sigma> W \<longrightarrow> \<sigma> v - \<sigma> u \<le> x" "solves \<sigma> (\<lambda>s d. W d s)"
    then have "- \<sigma> v - - \<sigma> u \<le> x" using t [of \<sigma> "\<lambda>s d. W d s"] by blast
    then show "\<sigma> u - \<sigma> v \<le> x" by simp
  qed
qed

text \<open>Both passes: the edges out of the vertex and, on the reversed graph, those into it.\<close>

lemma close_after_assign_spec:
  assumes g: "closable g V W p" and sc: "scratch_ok sc" and v: "v \<in> V"
  shows "\<exists>sc' delta. close_after_assign sc g p v = Some (sc', delta) \<and> scratch_ok sc' \<and>
    delta_ok (\<lambda>u. u \<in> V) W delta \<and> (\<forall>(s, d, w)\<in>set delta. \<bar>w\<bar> \<le> 2 ^ 117) \<and>
    (\<forall>d u a b. W v d = Some a \<longrightarrow> W d u = Some b \<longrightarrow> u \<noteq> v \<longrightarrow> (\<exists>x. (v, u, x) \<in> set delta \<and> x \<le> a + b)) \<and>
    (\<forall>d u a b. W d v = Some a \<longrightarrow> W u d = Some b \<longrightarrow> u \<noteq> v \<longrightarrow> (\<exists>x. (u, v, x) \<in> set delta \<and> x \<le> a + b))"
proof -
  let ?R = "\<lambda>s d. W d s"
  let ?q = "\<lambda>u. Option.bind (p u) num_neg"
  let ?sc = "scratch_grow (rg_size g) sc"
  have grow: "scratch_ok ?sc" "rg_size g \<le> sc_sz ?sc" using scratch_grow_ok [OF sc] by auto
  obtain sc1 fwd where f: "close_after_assign_fwd ?sc g p v = Some (sc1, fwd)" "scratch_ok sc1" "sc_sz sc1 = sc_sz ?sc"
    "fwd_closed V W v fwd"
    using close_after_assign_fwd_spec [OF g grow v] by blast
  have "rg_size (rev_view g) \<le> sc_sz sc1" using grow(2) f(3) by (simp add: rev_view_def)
  then obtain sc2 bwd where b: "close_after_assign_fwd sc1 (rev_view g) ?q v = Some (sc2, bwd)" "scratch_ok sc2"
    "fwd_closed V ?R v bwd"
    using close_after_assign_fwd_spec [OF closable_rev [OF g] f(2) _ v] by blast
  let ?delta = "map (\<lambda>(u, w). (v, u, w)) fwd @ map (\<lambda>(u, w). (u, v, w)) bwd"
  have run: "close_after_assign sc g p v = Some (sc2, ?delta)" using f(1) b(1) by (simp add: close_after_assign_def Let_def)
  have F: "\<And>u x. (u, x) \<in> set fwd \<Longrightarrow> u \<in> V \<and> entails W v u x \<and> \<bar>x\<bar> \<le> 2 ^ 117 \<and> (\<forall>w. W v u = Some w \<longrightarrow> x \<le> w)"
    "\<And>d u a b. W v d = Some a \<Longrightarrow> W d u = Some b \<Longrightarrow> u \<noteq> v \<Longrightarrow> \<exists>x. (u, x) \<in> set fwd \<and> x \<le> a + b"
    using f(4) unfolding fwd_closed_def by fast+
  have B: "\<And>u x. (u, x) \<in> set bwd \<Longrightarrow> u \<in> V \<and> entails W u v x \<and> \<bar>x\<bar> \<le> 2 ^ 117 \<and> (\<forall>w. W u v = Some w \<longrightarrow> x \<le> w)"
    "\<And>d u a b. W d v = Some a \<Longrightarrow> W u d = Some b \<Longrightarrow> u \<noteq> v \<Longrightarrow> \<exists>x. (u, x) \<in> set bwd \<and> x \<le> a + b"
    using b(3) entails_transpose [of W] unfolding fwd_closed_def by fast+
  have "delta_ok (\<lambda>u. u \<in> V) W ?delta" using F(1) B(1) v by (auto simp: delta_ok_def)
  moreover have "\<forall>(s, d, w)\<in>set ?delta. \<bar>w\<bar> \<le> 2 ^ 117" using F(1) B(1) by auto
  moreover have "\<exists>x. (v, u, x) \<in> set ?delta \<and> x \<le> a + b" if "W v d = Some a" "W d u = Some b" "u \<noteq> v" for d u a b
    using F(2) [OF that] by auto
  moreover have "\<exists>x. (u, v, x) \<in> set ?delta \<and> x \<le> a + b" if "W d v = Some a" "W u d = Some b" "u \<noteq> v" for d u a b
    using B(2) [OF that] by auto
  ultimately show ?thesis using run b(2) by blast
qed

end
