(* ===== verification/Dijkstra_Closure.thy ===== *)
theory Dijkstra_Closure
  imports Closure_Assign
begin

text \<open>
  The closures after a meet and after a widening (\<open>close_after_meet\<close>, \<open>close_after_widen\<close> of
  graph_ops.rs).  Both run Dijkstra's algorithm on reduced costs from every vertex, and stop at
  vertices that need no recovery.  Proved here: when the potential solves the graph they return,
  and every edge they list is a consequence of the graph and no weaker than the edge it replaces.
\<close>

subsection \<open>Time stamps\<close>

text \<open>
  No entry of the time stamps carries a stamp of the future: an entry is at most the last
  stamp, or the value before the first one.
\<close>

definition stamps_ok :: "nat \<Rightarrow> scratch_space \<Rightarrow> bool" where
  "stamps_ok k sc \<longleftrightarrow> scratch_ok sc \<and> (sc_ts_idx sc < sc_sz sc \<or> sc_ts_idx sc = 0) \<and> sc_ts sc \<le> k \<and>
     (\<forall>x\<in>set (sc_dist_ts sc). x \<le> sc_ts sc \<or> x = 2 ^ 32 - 1)"

lemma stamps_okD: "stamps_ok k sc \<Longrightarrow> scratch_ok sc"
  by (simp add: stamps_ok_def)

lemma stamps_new: "stamps_ok 0 scratch_new"
  by (simp add: stamps_ok_def scratch_ok_def scratch_new_def)

lemma set_vec_resize: "set (vec_resize n x xs) \<subseteq> insert x (set xs)"
  by (auto simp: vec_resize_def dest: in_set_takeD split: if_splits)

lemma stamps_grow:
  assumes "stamps_ok k sc"
  shows "stamps_ok k (scratch_grow n sc)"
proof (cases "n \<le> sc_sz sc")
  case False
  let ?g = "scratch_grow n sc"
  have sc: "scratch_ok sc" "sc_ts_idx sc < sc_sz sc \<or> sc_ts_idx sc = 0" "sc_ts sc \<le> k"
    "\<forall>x\<in>set (sc_dist_ts sc). x \<le> sc_ts sc \<or> x = 2 ^ 32 - 1"
    using assms by (auto simp: stamps_ok_def)
  have same: "sc_ts_idx ?g = sc_ts_idx sc" "sc_ts ?g = sc_ts sc"
    by (simp_all add: scratch_grow_def Let_def)
  have wrap: "(t + 2 ^ 32 - 1) mod 2 ^ 32 \<le> t \<or> (t + 2 ^ 32 - 1) mod 2 ^ 32 = (2 ^ 32 - 1 :: nat)" for t :: nat
  proof (cases t)
    case (Suc u)
    then have "(t + 2 ^ 32 - 1) mod 2 ^ 32 = u mod 2 ^ 32" by simp
    also have "\<dots> \<le> t" unfolding Suc by (rule le_SucI [OF mod_less_eq_dividend])
    finally show ?thesis ..
  qed simp
  have "set (sc_dist_ts ?g) \<subseteq> insert ((sc_ts sc + 2 ^ 32 - 1) mod 2 ^ 32) (set (sc_dist_ts sc))"
    using False by (simp add: scratch_grow_def Let_def set_vec_resize)
  then have "\<forall>x\<in>set (sc_dist_ts ?g). x \<le> sc_ts sc \<or> x = 2 ^ 32 - 1" using sc(4) wrap [of "sc_ts sc"] by blast
  moreover have "n \<le> sc_sz ?g" using scratch_grow_ok [OF sc(1)] by simp
  ultimately show ?thesis
    using sc(2,3) scratch_grow_ok(1) [OF sc(1), of n] False same unfolding stamps_ok_def by auto
qed (use assms in \<open>simp add: scratch_grow_def\<close>)

subsection \<open>The queue of reached vertices\<close>

text \<open>What is fixed during one run: the potential solves the graph, weights and potential within bounds.\<close>

definition dij_setup ::
  "readable \<Rightarrow> nat set \<Rightarrow> (nat \<Rightarrow> nat \<Rightarrow> number option) \<Rightarrow> potential \<Rightarrow> (nat \<Rightarrow> int) \<Rightarrow> bool" where
  "dij_setup g V W p \<pi> \<longleftrightarrow> presents g V W \<and> weights_within (2 ^ 78) W \<and> solves \<pi> W \<and>
     (\<forall>v\<in>V. p v = Some (\<pi> v) \<and> \<bar>\<pi> v\<bar> \<le> 2 ^ 78)"

lemma dij_setupD:
  assumes "dij_setup g V W p \<pi>"
  shows "presents g V W" "weights_within (2 ^ 78) W" "solves \<pi> W" "\<And>v. v \<in> V \<Longrightarrow> p v = Some (\<pi> v)"
    "\<And>v. v \<in> V \<Longrightarrow> \<bar>\<pi> v\<bar> \<le> 2 ^ 78"
  using assms by (auto simp: dij_setup_def)

text \<open>
  The vertices reached are the settled ones \<open>S\<close> and those in the queue.  A distance is the
  reduced cost of a consequence; no settled vertex is farther than \<open>d0\<close>, no queued one nearer.
\<close>

definition dij_inv ::
  "nat set \<Rightarrow> (nat \<Rightarrow> nat \<Rightarrow> number option) \<Rightarrow> (nat \<Rightarrow> int) \<Rightarrow> nat \<Rightarrow> scratch_space \<Rightarrow> nat set \<Rightarrow> int \<Rightarrow> int \<Rightarrow>
    scratch_space \<times> weight_heap \<Rightarrow> bool" where
  "dij_inv V W \<pi> src sc0 S d0 b = (\<lambda>(sc, h).
     scratch_ok sc \<and> sc_sz sc = sc_sz sc0 \<and> sc_ts sc = sc_ts sc0 \<and> sc_ts_idx sc = sc_ts_idx sc0 \<and>
     sc_edge_marks sc = sc_edge_marks sc0 \<and> sc_stability sc = sc_stability sc0 \<and>
     set (sc_dist_ts sc) \<subseteq> insert (sc_ts sc0) (set (sc_dist_ts sc0)) \<and>
     heap_ok (sc_dists sc) h \<and> S \<union> heap_elems h \<subseteq> V \<and> S \<inter> heap_elems h = {} \<and>
     (\<forall>v\<in>V. sc_dist_ts sc ! v = sc_ts sc0 \<longleftrightarrow> v \<in> S \<union> heap_elems h) \<and>
     (\<forall>v\<in>S \<union> heap_elems h. entails W src v (sc_dists sc ! v + \<pi> v - \<pi> src) \<and> 0 \<le> sc_dists sc ! v \<and> sc_dists sc ! v \<le> b) \<and>
     (\<forall>v\<in>S. sc_dists sc ! v \<le> d0) \<and> (\<forall>v\<in>heap_elems h. d0 \<le> sc_dists sc ! v))"

lemma dij_invD:
  assumes "dij_inv V W \<pi> src sc0 S d0 b (sc, h)"
  shows "scratch_ok sc" "sc_sz sc = sc_sz sc0" "sc_ts sc = sc_ts sc0" "sc_edge_marks sc = sc_edge_marks sc0"
    "heap_ok (sc_dists sc) h" "S \<subseteq> V" "heap_elems h \<subseteq> V" "S \<inter> heap_elems h = {}"
    "\<And>v. v \<in> V \<Longrightarrow> sc_dist_ts sc ! v = sc_ts sc0 \<longleftrightarrow> v \<in> S \<union> heap_elems h"
    "\<And>v. v \<in> S \<union> heap_elems h \<Longrightarrow> entails W src v (sc_dists sc ! v + \<pi> v - \<pi> src) \<and> 0 \<le> sc_dists sc ! v \<and> sc_dists sc ! v \<le> b"
    "\<And>v. v \<in> S \<Longrightarrow> sc_dists sc ! v \<le> d0" "\<And>v. v \<in> heap_elems h \<Longrightarrow> d0 \<le> sc_dists sc ! v"
  using assms by (auto simp: dij_inv_def)

lemma set_list_update_ts: "set xs \<subseteq> insert t A \<Longrightarrow> set (xs[i := t]) \<subseteq> insert t A"
  using set_update_subset_insert by fastforce

lemma relax_dist_spec:
  assumes inv: "dij_inv V W \<pi> src sc0 S d0 b (sc, h)" and v: "v \<in> V" "v < sc_sz sc0"
    and x: "entails W src v (x + \<pi> v - \<pi> src)" "0 \<le> d0" "d0 \<le> x" "x \<le> b"
  shows "\<exists>sc' h'. relax_dist v x (Some m) (sc, h) = Some (sc', h') \<and> dij_inv V W \<pi> src sc0 S d0 b (sc', h')"
proof -
  note I = dij_invD [OF inv]
  have len: "v < length (sc_dists sc)" "v < length (sc_dist_ts sc)" "v < length (sc_vert_marks sc)"
    using I(1,2) v(2) scratch_okD [of sc] by auto
  show ?thesis
  proof (cases "sc_dist_ts sc ! v \<noteq> sc_ts sc \<or> x < sc_dists sc ! v")
    case True
    have vS: "v \<notin> S" using True I(3) I(9) [OF v(1)] I(11) [of v] x(3) by auto
    let ?sc = "sc\<lparr>sc_dists := (sc_dists sc)[v := x], sc_dist_ts := (sc_dist_ts sc)[v := sc_ts sc],
      sc_vert_marks := (sc_vert_marks sc)[v := m]\<rparr>"
    have low: "v \<in> heap_elems h \<Longrightarrow> x \<le> sc_dists sc ! v" using True I(3) I(9) [OF v(1)] by auto
    obtain h' where h': "requeue ((sc_dists sc)[v := x]) v h = Some h'" "heap_ok ((sc_dists sc)[v := x]) h'"
      "heap_elems h' = insert v (heap_elems h)"
      using wh.requeue [OF I(5) len(1) low] by (auto simp: requeue_def)
    have run: "relax_dist v x (Some m) (sc, h) = Some (?sc, h')"
    proof (cases "sc_dist_ts sc ! v = sc_ts sc")
      case eq: True
      then show ?thesis using True len h'(1) by (simp add: relax_dist_def set_dist_in stamp_def set_mark_in)
    next
      case False
      then show ?thesis using len h'(1) by (simp add: relax_dist_def set_dist_in stamp_def set_mark_in)
    qed
    have at: "sc_dists ?sc ! u = (if u = v then x else sc_dists sc ! u)"
      "sc_dist_ts ?sc ! u = (if u = v then sc_ts sc else sc_dist_ts sc ! u)" for u
      using len by (simp_all add: nth_list_update)
    have "dij_inv V W \<pi> src sc0 S d0 b (?sc, h')"
      unfolding dij_inv_def prod.case
    proof (intro conjI)
      show "scratch_ok ?sc" using I(1) by (auto simp: scratch_ok_def)
      show "set (sc_dist_ts ?sc) \<subseteq> insert (sc_ts sc0) (set (sc_dist_ts sc0))"
        using set_list_update_ts [of "sc_dist_ts sc" "sc_ts sc0" "set (sc_dist_ts sc0)" v] I(3) inv by (simp add: dij_inv_def)
      show "\<forall>u\<in>V. sc_dist_ts ?sc ! u = sc_ts sc0 \<longleftrightarrow> u \<in> S \<union> heap_elems h'"
        unfolding at h'(3) using I(3,9) by simp
      show "\<forall>u\<in>S \<union> heap_elems h'. entails W src u (sc_dists ?sc ! u + \<pi> u - \<pi> src) \<and> 0 \<le> sc_dists ?sc ! u \<and> sc_dists ?sc ! u \<le> b"
        unfolding at h'(3) using I(10) x by auto
      show "\<forall>u\<in>S. sc_dists ?sc ! u \<le> d0" unfolding at using I(11) vS by auto
      show "\<forall>u\<in>heap_elems h'. d0 \<le> sc_dists ?sc ! u" unfolding at h'(3) using I(12) x(3) by auto
    qed (use inv h' v vS in \<open>auto simp: dij_inv_def\<close>)
    then show ?thesis using run by blast
  next
    case False
    show ?thesis
    proof (cases "x = sc_dists sc ! v")
      case True
      let ?sc = "sc\<lparr>sc_vert_marks := (sc_vert_marks sc)[v := sc_vert_marks sc ! v OR m]\<rparr>"
      have "relax_dist v x (Some m) (sc, h) = Some (?sc, h)"
        using False True len by (simp add: relax_dist_def set_mark_in)
      moreover have "dij_inv V W \<pi> src sc0 S d0 b (?sc, h)"
        using inv unfolding dij_inv_def by (auto simp: scratch_ok_def)
      ultimately show ?thesis by blast
    next
      case ne: False
      then have "relax_dist v x (Some m) (sc, h) = Some (sc, h)"
        using False len by (simp add: relax_dist_def)
      then show ?thesis using inv by blast
    qed
  qed
qed

lemma dij_pop:
  assumes inv: "dij_inv V W \<pi> src sc0 S d0 b (sc, h)" and ne: "\<not> heap_empty h"
  shows "\<exists>es h'. heap_remove_min (sc_dists sc) h = Some (es, h') \<and> es \<in> V - S \<and> es \<in> heap_elems h \<and>
    dij_inv V W \<pi> src sc0 (insert es S) (sc_dists sc ! es) b (sc, h')"
proof -
  note I = dij_invD [OF inv]
  obtain es h' where pop: "heap_remove_min (sc_dists sc) h = Some (es, h')" "heap_ok (sc_dists sc) h'"
    "es \<in> heap_elems h" "heap_elems h' = heap_elems h - {es}" "\<And>y. y \<in> heap_elems h \<Longrightarrow> sc_dists sc ! es \<le> sc_dists sc ! y"
    using heap_remove_min_spec [OF I(5)] ne wh.is_empty_iff by metis
  have "S \<union> heap_elems h = insert es S \<union> heap_elems h'" using pop(3,4) by auto
  moreover have "\<forall>v\<in>insert es S. sc_dists sc ! v \<le> sc_dists sc ! es" using I(11) I(12) [OF pop(3)] by force
  moreover have "es \<in> V" "es \<notin> S" using pop(3) I(7,8) by auto
  ultimately have "dij_inv V W \<pi> src sc0 (insert es S) (sc_dists sc ! es) b (sc, h')"
    using inv pop(2,4,5) unfolding dij_inv_def by auto
  then show ?thesis using pop(1,3) \<open>es \<in> V\<close> \<open>es \<notin> S\<close> by blast
qed

lemma dij_weaken: "dij_inv V W \<pi> src sc0 S d0 b st \<Longrightarrow> b \<le> b' \<Longrightarrow> dij_inv V W \<pi> src sc0 S d0 b' st"
proof (cases st)
  case (Pair sc h)
  assume inv: "dij_inv V W \<pi> src sc0 S d0 b st" and b: "b \<le> b'"
  then have "\<forall>v\<in>S \<union> heap_elems h. entails W src v (sc_dists sc ! v + \<pi> v - \<pi> src) \<and> 0 \<le> sc_dists sc ! v \<and> sc_dists sc ! v \<le> b'"
    using dij_invD(10) [of V W \<pi> src sc0 S d0 b sc h] Pair by fastforce
  then show ?thesis using inv Pair by (simp add: dij_inv_def)
qed

text \<open>The edges out of the vertex just settled, each relaxed with a mark that can be read.\<close>

lemma dij_edges:
  assumes fixed: "dij_setup g V W p \<pi>" and inv: "dij_inv V W \<pi> src sc0 S d0 b (sc, h)"
    and es: "es \<in> V" "entails W src es (d0 + \<pi> es - \<pi> src)" "0 \<le> d0" "d0 \<le> b" "b \<le> 2 ^ 98"
    and N: "rg_size g \<le> sc_sz sc0"
    and step: "\<And>y sc h. y \<in> set ys \<Longrightarrow> dij_inv V W \<pi> src sc0 S d0 (b + 2 ^ 80) (sc, h) \<Longrightarrow> \<exists>v w m. W es v = Some w \<and>
      f y (sc, h) = do { x \<leftarrow> num_add (d0 + \<pi> es) w; pd \<leftarrow> p v; x \<leftarrow> num_sub x pd; relax_dist v x (Some m) (sc, h) }"
  shows "\<exists>sc' h'. for_each f ys (sc, h) = Some (sc', h') \<and> dij_inv V W \<pi> src sc0 S d0 (b + 2 ^ 80) (sc', h')"
proof -
  note F = dij_setupD [OF fixed]
  have "\<exists>t. for_each f ys (sc, h) = Some t \<and> dij_inv V W \<pi> src sc0 S d0 (b + 2 ^ 80) t"
  proof (rule for_each_inv)
    show "dij_inv V W \<pi> src sc0 S d0 (b + 2 ^ 80) (sc, h)" using dij_weaken [OF inv] by simp
  next
    fix y st assume y: "y \<in> set ys" and P: "dij_inv V W \<pi> src sc0 S d0 (b + 2 ^ 80) st"
    obtain s k where st: "st = (s, k)" by (cases st)
    obtain v w m where vw: "W es v = Some w"
      "f y (s, k) = do { x \<leftarrow> num_add (d0 + \<pi> es) w; pd \<leftarrow> p v; x \<leftarrow> num_sub x pd; relax_dist v x (Some m) (s, k) }"
      using step [OF y] P st by blast
    have v: "v \<in> V" using presentsD(4) [OF F(1) vw(1)] by blast
    have vN: "v < sc_sz sc0" using presentsD(2) [OF F(1) v] N by simp
    have w: "\<bar>w\<bar> \<le> 2 ^ 78" by (rule weights_withinD [OF F(2) vw(1)])
    have a: "num_add (d0 + \<pi> es) w = Some (d0 + \<pi> es + w)"
      by (rule num_add_small [of _ "2 ^ 99"]) (use w es F(5) [OF es(1)] in auto)
    have s: "num_sub (d0 + \<pi> es + w) (\<pi> v) = Some (d0 + \<pi> es + w - \<pi> v)"
      by (rule num_sub_small [of _ "2 ^ 100"]) (use w es F(5) [OF es(1)] F(5) [OF v] in auto)
    have rc: "\<pi> v \<le> \<pi> es + w" using F(3) vw(1) unfolding solves_def by fastforce
    have "entails W src v (d0 + \<pi> es - \<pi> src + w)" by (rule entails_trans [of W src es _ v w, OF es(2) entails_edge [of W, OF vw(1)]])
    then have ent: "entails W src v (d0 + \<pi> es + w - \<pi> v + \<pi> v - \<pi> src)" by (simp add: algebra_simps)
    have "\<exists>sc' h'. relax_dist v (d0 + \<pi> es + w - \<pi> v) (Some m) (s, k) = Some (sc', h') \<and>
        dij_inv V W \<pi> src sc0 S d0 (b + 2 ^ 80) (sc', h')"
      by (rule relax_dist_spec [OF _ v vN ent]) (use P st rc es w F(5) [OF es(1)] F(5) [OF v] in auto)
    then show "\<exists>t. f y st = Some t \<and> dij_inv V W \<pi> src sc0 S d0 (b + 2 ^ 80) t"
      using vw(2) a s F(4) [OF v] st by auto
  qed
  then show ?thesis by auto
qed

subsection \<open>Starting a run\<close>

definition dij_started ::
  "nat set \<Rightarrow> (nat \<Rightarrow> nat \<Rightarrow> number option) \<Rightarrow> (nat \<Rightarrow> int) \<Rightarrow> nat \<Rightarrow> scratch_space \<Rightarrow> scratch_space \<Rightarrow> bool" where
  "dij_started V W \<pi> src sc sc1 \<longleftrightarrow>
     (\<forall>v\<in>V. sc_dist_ts sc1 ! v = sc_ts sc1 \<longleftrightarrow> v = src \<or> W src v \<noteq> None) \<and>
     (\<forall>v w. W src v = Some w \<longrightarrow> sc_dists sc1 ! v = \<pi> src + w - \<pi> v) \<and>
     (W src src = None \<longrightarrow> sc_dists sc1 ! src = 0) \<and>
     sc_sz sc1 = sc_sz sc \<and> sc_edge_marks sc1 = sc_edge_marks sc \<and> sc_stability sc1 = sc_stability sc"

lemma stamps_set_dist: "stamps_ok k sc \<Longrightarrow> stamps_ok k (sc\<lparr>sc_dists := (sc_dists sc)[v := x]\<rparr>)"
  by (auto simp: stamps_ok_def scratch_ok_def)

lemma stamps_stamp: "stamps_ok k sc \<Longrightarrow> stamps_ok k (sc\<lparr>sc_dist_ts := (sc_dist_ts sc)[v := sc_ts sc]\<rparr>)"
  by (fastforce simp: stamps_ok_def scratch_ok_def dest: subsetD [OF set_update_subset_insert])

lemma dijkstra_init_spec:
  assumes fixed: "dij_setup g V W p \<pi>" and sc: "stamps_ok k sc" "k < 2 ^ 31" "rg_size g \<le> sc_sz sc" and src: "src \<in> V"
  shows "\<exists>es sc1. dijkstra_init g p src sc = Some (es, sc1) \<and> lists_edges es (W src) \<and>
    stamps_ok (Suc k) sc1 \<and> dij_started V W \<pi> src sc sc1"
proof -
  note F = dij_setupD [OF fixed]
  obtain es where es: "rg_e_succs g src = Some es" "lists_edges es (W src)" using presentsD(8) [OF F(1) src] by blast
  have lim: "v \<in> V \<Longrightarrow> v < sc_sz sc" for v using presentsD(2) [OF F(1), of v] sc(3) by simp
  have pos: "0 < sc_sz sc" using lim [OF src] by simp
  have ok: "scratch_ok sc" "sc_ts_idx sc < sc_sz sc" "sc_ts sc \<le> k" "\<forall>x\<in>set (sc_dist_ts sc). x \<le> sc_ts sc \<or> x = 2 ^ 32 - 1"
    using sc(1) pos by (auto simp: stamps_ok_def)
  note L = scratch_okD [OF ok(1)]
  define t where "t = Suc (sc_ts sc)"
  define sa where "sa = sc\<lparr>sc_dist_ts := (sc_dist_ts sc)[sc_ts_idx sc := sc_ts sc], sc_ts := t,
    sc_ts_idx := (sc_ts_idx sc + 1) mod length (sc_dists sc)\<rparr>"
  have stale: "\<forall>x\<in>set (sc_dist_ts sa). x < t \<or> x = 2 ^ 32 - 1"
    using ok(4) subsetD [OF set_update_subset_insert [of "sc_dist_ts sc" "sc_ts_idx sc" "sc_ts sc"]]
    by (fastforce simp: sa_def t_def)
  have sa_ok: "stamps_ok (Suc k) sa"
    using stale ok(1,3) pos L unfolding stamps_ok_def by (auto simp: sa_def scratch_ok_def t_def)
  have t: "t < 2 ^ 32 - 1" using ok(3) sc(2) by (simp add: t_def)
  define sb where "sb = sa\<lparr>sc_dists := (sc_dists sa)[src := 0], sc_dist_ts := (sc_dist_ts sa)[src := t]\<rparr>"
  have ts_a: "sc_ts sa = t" by (simp add: sa_def)
  have la: "length (sc_dists sa) = sc_sz sc" "length (sc_dist_ts sa) = sc_sz sc" using L by (simp_all add: sa_def)
  have sb_ok: "stamps_ok (Suc k) sb"
    using stamps_stamp [OF stamps_set_dist [OF sa_ok, of src 0], of src] by (simp add: sb_def ts_a)
  let ?f = "\<lambda>(dest, eval) sc. do {
              ps \<leftarrow> p src;
              x \<leftarrow> num_add ps eval;
              pd \<leftarrow> p dest;
              x \<leftarrow> num_sub x pd;
              sc \<leftarrow> set_dist dest x sc;
              stamp dest sc }"
  let ?P = "\<lambda>pre s. stamps_ok (Suc k) s \<and> sc_ts s = t \<and> sc_sz s = sc_sz sc \<and> sc_edge_marks s = sc_edge_marks sc \<and>
     sc_stability s = sc_stability sc \<and>
     (\<forall>v\<in>V. sc_dist_ts s ! v = t \<longleftrightarrow> v = src \<or> v \<in> fst ` set pre) \<and>
     (\<forall>(v, w)\<in>set pre. sc_dists s ! v = \<pi> src + w - \<pi> v) \<and> (src \<notin> fst ` set pre \<longrightarrow> sc_dists s ! src = 0)"
  have "\<exists>s. for_each ?f es sb = Some s \<and> ?P es s"
  proof (rule for_each_total [where P = ?P])
    have "sc_dist_ts sb ! v = t \<longleftrightarrow> v = src" if "v \<in> V" for v
    proof (cases "v = src")
      case False
      have "sc_dist_ts sa ! v \<in> set (sc_dist_ts sa)" using lim [OF that] la(2) by simp
      then show ?thesis using stale t False by (auto simp: sb_def)
    qed (use lim [OF src] la in \<open>simp add: sb_def\<close>)
    then show "?P [] sb" using sb_ok lim [OF src] la by (simp add: sb_def sa_def)
  next
    fix pre y rest s assume ys: "es = pre @ y # rest" and P: "?P pre s"
    obtain v w where y: "y = (v, w)" by (cases y)
    have W: "W src v = Some w" using es(2) ys y by (auto simp: lists_edges_def)
    have v: "v \<in> V" using presentsD(4) [OF F(1) W] by blast
    have fresh: "v \<notin> fst ` set pre" using es(2) ys y by (auto simp: lists_edges_def)
    have w: "\<bar>w\<bar> \<le> 2 ^ 78" by (rule weights_withinD [OF F(2) W])
    have a: "num_add (\<pi> src) w = Some (\<pi> src + w)"
      by (rule num_add_small [of _ "2 ^ 78"]) (use w F(5) [OF src] in auto)
    have b: "num_sub (\<pi> src + w) (\<pi> v) = Some (\<pi> src + w - \<pi> v)"
      by (rule num_sub_small [of _ "2 ^ 79"]) (use w F(5) [OF src] F(5) [OF v] in auto)
    have len: "v < length (sc_dists s)" "v < length (sc_dist_ts s)"
      using P lim [OF v] scratch_okD [of s] by (auto simp: stamps_ok_def)
    let ?x = "\<pi> src + w - \<pi> v"
    let ?s = "s\<lparr>sc_dists := (sc_dists s)[v := ?x], sc_dist_ts := (sc_dist_ts s)[v := sc_ts s]\<rparr>"
    have run: "?f y s = Some ?s" using y a b F(4) [OF v] F(4) [OF src] len by (simp add: set_dist_in stamp_def)
    have "stamps_ok (Suc k) ?s" using stamps_stamp [OF stamps_set_dist] P by fastforce
    moreover have "\<forall>u\<in>V. sc_dist_ts ?s ! u = t \<longleftrightarrow> u = src \<or> u \<in> fst ` set (pre @ [y])"
      using P len y by (simp add: nth_list_update)
    moreover have "\<forall>(u, w)\<in>set (pre @ [y]). sc_dists ?s ! u = \<pi> src + w - \<pi> u"
    proof
      fix z assume z: "z \<in> set (pre @ [y])"
      obtain u c where uc: "z = (u, c)" by (cases z)
      show "case z of (u, w) \<Rightarrow> sc_dists ?s ! u = \<pi> src + w - \<pi> u"
      proof (cases "z = y")
        case False
        then have "z \<in> set pre" using z by simp
        then have "u \<noteq> v" "sc_dists s ! u = \<pi> src + c - \<pi> u" using fresh P uc by force+
        then show ?thesis using uc by simp
      qed (use y len in simp)
    qed
    moreover have "src \<notin> fst ` set (pre @ [y]) \<longrightarrow> sc_dists ?s ! src = 0" using P len y by (simp add: nth_list_update)
    ultimately have "?P (pre @ [y]) ?s" using P by simp
    then show "\<exists>s'. ?f y s = Some s' \<and> ?P (pre @ [y]) s'" using run by blast
  qed
  then obtain s where s: "for_each ?f es sb = Some s" "?P es s" by blast
  have "dij_started V W \<pi> src sc s"
    unfolding dij_started_def
  proof (intro conjI allI impI)
    have mem: "v \<in> fst ` set es \<longleftrightarrow> W src v \<noteq> None" for v using es(2) by (force simp: lists_edges_def)
    show "\<forall>v\<in>V. sc_dist_ts s ! v = sc_ts s \<longleftrightarrow> v = src \<or> W src v \<noteq> None" using s(2) mem by simp
    show "sc_dists s ! src = 0" if "W src src = None" using s(2) mem that by simp
    show "sc_dists s ! v = \<pi> src + w - \<pi> v" if "W src v = Some w" for v w
    proof -
      have "(v, w) \<in> set es" using es(2) that by (simp add: lists_edges_def)
      then show ?thesis using s(2) by fastforce
    qed
  qed (use s(2) in auto)
  moreover have "sc_dists sc \<noteq> []" using L(2) pos by auto
  then have "dijkstra_init g p src sc = Some (es, s)"
    using s(1) es(1) ok(2) L lim [OF src] pos t sc(3)
    by (simp add: dijkstra_init_def Let_def scratch_grow_def set_dist_in stamp_def t_def sa_def sb_def)
  ultimately show ?thesis using s(2) es(2) by blast
qed

lemma build_heap_spec:
  assumes "distinct (map fst ys)" "\<forall>y\<in>set ys. fst y < length dists"
  shows "\<exists>h. dijkstra_build_heap dists ys = Some h \<and> heap_ok dists h \<and> heap_elems h = fst ` set ys"
proof -
  let ?P = "\<lambda>pre h. heap_ok dists h \<and> heap_elems h = fst ` set pre"
  have "\<exists>h. for_each (\<lambda>(dest, _) h. heap_insert dists dest h) ys heap_new = Some h \<and> ?P ys h"
  proof (rule for_each_total [where P = ?P])
    show "?P [] heap_new" using heap_new_ok by simp
  next
    fix pre y rest h assume ys: "ys = pre @ y # rest" and P: "?P pre h"
    have "fst y \<notin> heap_elems h" "fst y < length dists" using assms ys P by auto
    then show "\<exists>t. (case y of (dest, _) \<Rightarrow> heap_insert dists dest) h = Some t \<and> ?P (pre @ [y]) t"
      using heap_insert_spec [of dists h "fst y"] P by (auto split: prod.splits)
  qed
  then show ?thesis by (simp add: dijkstra_build_heap_def)
qed

lemma dij_start:
  assumes fixed: "dij_setup g V W p \<pi>" and st: "dij_started V W \<pi> src sc sc1" "stamps_ok k sc1"
    and src: "src \<in> V" and N: "rg_size g \<le> sc_sz sc" and es: "lists_edges es (W src)"
    and ms: "length ms = sc_sz sc1"
  shows "\<exists>h S. dijkstra_build_heap (sc_dists sc1) es = Some h \<and> S \<subseteq> {src} \<and>
    dij_inv V W \<pi> src sc1 S 0 (2 ^ 80) (sc1\<lparr>sc_vert_marks := ms\<rparr>, h)"
proof -
  note F = dij_setupD [OF fixed]
  have ok: "scratch_ok sc1" using st(2) by (rule stamps_okD)
  have sz: "sc_sz sc1 = sc_sz sc" using st(1) by (simp add: dij_started_def)
  have W: "(d, w) \<in> set es \<longleftrightarrow> W src d = Some w" for d w using es by (simp add: lists_edges_def)
  have mem: "v \<in> fst ` set es \<longleftrightarrow> W src v \<noteq> None" for v using W by force
  have esV: "fst ` set es \<subseteq> V" using mem presentsD(4) [OF F(1)] by blast
  have lim: "\<forall>y\<in>set es. fst y < length (sc_dists sc1)"
  proof
    fix y assume "y \<in> set es"
    then have "fst y \<in> V" using esV by blast
    then show "fst y < length (sc_dists sc1)" using presentsD(2) [OF F(1)] N sz scratch_okD(2) [OF ok] by fastforce
  qed
  obtain h where h: "dijkstra_build_heap (sc_dists sc1) es = Some h" "heap_ok (sc_dists sc1) h" "heap_elems h = fst ` set es"
    using build_heap_spec [of es "sc_dists sc1"] es lim by (auto simp: lists_edges_def)
  define S where "S = (if W src src = None then {src} else {})"
  have dist: "entails W src v (sc_dists sc1 ! v + \<pi> v - \<pi> src) \<and> 0 \<le> sc_dists sc1 ! v \<and> sc_dists sc1 ! v \<le> 2 ^ 80"
    if v: "W src v = Some w" for v w
  proof -
    have "sc_dists sc1 ! v = \<pi> src + w - \<pi> v" using st(1) v by (simp add: dij_started_def)
    moreover have "\<pi> v - \<pi> src \<le> w" using F(3) v by (simp add: solves_def)
    moreover have "entails W src v w" by (rule entails_edge [of W, OF v])
    moreover have "\<bar>w\<bar> \<le> 2 ^ 78" by (rule weights_withinD [OF F(2) v])
    moreover have "\<bar>\<pi> v\<bar> \<le> 2 ^ 78" "\<bar>\<pi> src\<bar> \<le> 2 ^ 78" using presentsD(4) [OF F(1) v] F(5) by blast+
    ultimately show ?thesis by auto
  qed
  have self: "v \<in> S \<Longrightarrow> v = src \<and> sc_dists sc1 ! v = 0" for v
    using st(1) by (auto simp: S_def dij_started_def split: if_splits)
  have "dij_inv V W \<pi> src sc1 S 0 (2 ^ 80) (sc1\<lparr>sc_vert_marks := ms\<rparr>, h)"
    unfolding dij_inv_def prod.case
  proof (intro conjI)
    show "scratch_ok (sc1\<lparr>sc_vert_marks := ms\<rparr>)" using ok ms by (simp add: scratch_ok_def)
    show "\<forall>v\<in>V. sc_dist_ts (sc1\<lparr>sc_vert_marks := ms\<rparr>) ! v = sc_ts sc1 \<longleftrightarrow> v \<in> S \<union> heap_elems h"
      using st(1) mem h(3) by (auto simp: dij_started_def S_def)
    show "S \<union> heap_elems h \<subseteq> V" using src esV h(3) by (auto simp: S_def)
    show "S \<inter> heap_elems h = {}" using mem h(3) by (auto simp: S_def)
    show "\<forall>v\<in>S \<union> heap_elems h. entails W src v (sc_dists (sc1\<lparr>sc_vert_marks := ms\<rparr>) ! v + \<pi> v - \<pi> src) \<and>
      0 \<le> sc_dists (sc1\<lparr>sc_vert_marks := ms\<rparr>) ! v \<and> sc_dists (sc1\<lparr>sc_vert_marks := ms\<rparr>) ! v \<le> 2 ^ 80"
    proof
      fix v assume "v \<in> S \<union> heap_elems h"
      then consider "v \<in> S" | w where "W src v = Some w" using mem h(3) by auto
      then show "entails W src v (sc_dists (sc1\<lparr>sc_vert_marks := ms\<rparr>) ! v + \<pi> v - \<pi> src) \<and>
        0 \<le> sc_dists (sc1\<lparr>sc_vert_marks := ms\<rparr>) ! v \<and> sc_dists (sc1\<lparr>sc_vert_marks := ms\<rparr>) ! v \<le> 2 ^ 80"
      proof cases
        case 1
        then have "v = src" "sc_dists sc1 ! src = 0" using self by auto
        then show ?thesis using entails_self [of 0 W src] by simp
      qed (use dist in simp)
    qed
    show "\<forall>v\<in>S. sc_dists (sc1\<lparr>sc_vert_marks := ms\<rparr>) ! v \<le> 0" using self by simp
    show "\<forall>v\<in>heap_elems h. 0 \<le> sc_dists (sc1\<lparr>sc_vert_marks := ms\<rparr>) ! v"
    proof
      fix v assume "v \<in> heap_elems h"
      then obtain w where "W src v = Some w" using mem h(3) by auto
      then show "0 \<le> sc_dists (sc1\<lparr>sc_vert_marks := ms\<rparr>) ! v" using dist by simp
    qed
  qed (use h in auto)
  moreover have "S \<subseteq> {src}" by (simp add: S_def)
  ultimately show ?thesis using h(1) by blast
qed

subsection \<open>Running to the end\<close>

text \<open>What is listed so far: consequences that improve on the graph.\<close>

definition listed ::
  "nat set \<Rightarrow> (nat \<Rightarrow> nat \<Rightarrow> number option) \<Rightarrow> nat \<Rightarrow> (nat \<times> number) list \<Rightarrow> bool" where
  "listed V W src out \<longleftrightarrow> (\<forall>(v, x)\<in>set out. v \<in> V \<and> entails W src v x \<and> \<bar>x\<bar> \<le> 2 ^ 99 \<and> (\<forall>w. W src v = Some w \<longrightarrow> x \<le> w))"

definition dij_loop ::
  "nat set \<Rightarrow> (nat \<Rightarrow> nat \<Rightarrow> number option) \<Rightarrow> (nat \<Rightarrow> int) \<Rightarrow> nat \<Rightarrow> scratch_space \<Rightarrow> nat set \<Rightarrow> int \<Rightarrow>
    scratch_space \<times> weight_heap \<Rightarrow> bool" where
  "dij_loop V W \<pi> src sc0 S d0 st \<longleftrightarrow> 0 \<le> d0 \<and> dij_inv V W \<pi> src sc0 S d0 (2 ^ 80 * (int (card S) + 1)) st"

text \<open>The vertices not settled yet, read off the state.\<close>

definition unsettled :: "nat set \<Rightarrow> scratch_space \<times> weight_heap \<Rightarrow> nat" where
  "unsettled V = (\<lambda>(sc, h). card {v \<in> V. \<not> (sc_dist_ts sc ! v = sc_ts sc \<and> v \<notin> heap_elems h)})"

lemma unsettled_eq:
  assumes "dij_inv V W \<pi> src sc0 S d0 b (sc, h)"
  shows "unsettled V (sc, h) = card (V - S)"
proof -
  note I = dij_invD [OF assms]
  have "{v \<in> V. \<not> (sc_dist_ts sc ! v = sc_ts sc \<and> v \<notin> heap_elems h)} = V - S"
    using I(3,6,8,9) by auto
  then show ?thesis by (simp add: unsettled_def)
qed

lemma presents_finite: "presents g V W \<Longrightarrow> finite V \<and> card V \<le> 65535"
proof -
  assume "presents g V W"
  then have "V \<subseteq> {..<65535}" using presentsD(1,2) [of g V W] by fastforce
  then show ?thesis using card_mono [OF finite_lessThan, of V "65535 :: nat"] finite_subset by auto
qed

text \<open>Taking the nearest vertex: its cost can be computed, and its edge listed when it improves.\<close>

lemma dij_take:
  assumes fixed: "dij_setup g V W p \<pi>" and src: "src \<in> V" and N: "rg_size g \<le> sc_sz sc0"
    and inv: "dij_loop V W \<pi> src sc0 S d0 (sc, h)" and ne: "\<not> heap_empty h"
  shows "\<exists>es h'. heap_remove_min (sc_dists sc) h = Some (es, h') \<and> es \<in> V \<and> es < rg_size g \<and> es mod 2 ^ 16 = es \<and>
    vec_get (sc_dists sc) es = Some (sc_dists sc ! es) \<and> p es = Some (\<pi> es) \<and>
    num_add (sc_dists sc ! es) (\<pi> es) = Some (sc_dists sc ! es + \<pi> es) \<and>
    num_sub (sc_dists sc ! es + \<pi> es) (\<pi> src) = Some (sc_dists sc ! es + \<pi> es - \<pi> src) \<and>
    rg_lookup g src es = Some (W src es) \<and> vec_get (sc_vert_marks sc) es = Some (sc_vert_marks sc ! es) \<and>
    listed V W src (if case W src es of None \<Rightarrow> True | Some w \<Rightarrow> w > sc_dists sc ! es + \<pi> es - \<pi> src
      then [(es, sc_dists sc ! es + \<pi> es - \<pi> src)] else []) \<and>
    dij_inv V W \<pi> src sc0 (insert es S) (sc_dists sc ! es) (2 ^ 80 * (int (card S) + 1)) (sc, h') \<and>
    entails W src es (sc_dists sc ! es + \<pi> es - \<pi> src) \<and> 0 \<le> sc_dists sc ! es \<and>
    sc_dists sc ! es \<le> 2 ^ 80 * (int (card S) + 1) \<and> card (insert es S) = Suc (card S) \<and> card S < 65535 \<and>
    card (V - insert es S) < unsettled V (sc, h)"
proof -
  note F = dij_setupD [OF fixed]
  have i: "dij_inv V W \<pi> src sc0 S d0 (2 ^ 80 * (int (card S) + 1)) (sc, h)" using inv by (simp add: dij_loop_def)
  note I = dij_invD [OF i]
  obtain es h' where pop: "heap_remove_min (sc_dists sc) h = Some (es, h')" "es \<in> V - S" "es \<in> heap_elems h"
    "dij_inv V W \<pi> src sc0 (insert es S) (sc_dists sc ! es) (2 ^ 80 * (int (card S) + 1)) (sc, h')"
    using dij_pop [OF i ne] by blast
  let ?d = "sc_dists sc ! es"
  have V: "finite V" "card V \<le> 65535" using presents_finite [OF F(1)] by auto
  have S: "finite S" "insert es S \<subseteq> V" using I(6) V(1) pop(2) finite_subset by auto
  have cS: "card (insert es S) = Suc (card S)" using S(1) pop(2) by simp
  then have less: "card S < 65535" using card_mono [OF V(1) S(2)] V(2) by simp
  have esV: "es \<in> V" using pop(2) by simp
  have lim: "es < rg_size g" by (rule presentsD(2) [OF F(1) esV])
  have small: "es mod 2 ^ 16 = es" using lim presentsD(1) [OF F(1)] by simp
  have d: "entails W src es (?d + \<pi> es - \<pi> src)" "0 \<le> ?d" "?d \<le> 2 ^ 80 * (int (card S) + 1)"
    using I(10) [of es] pop(3) by auto
  have "2 ^ 80 * (int (card S) + 1) \<le> (2 ^ 96 :: int)" using less by simp
  then have dm: "\<bar>?d\<bar> \<le> 2 ^ 96" using d(2,3) by linarith
  have a: "num_add ?d (\<pi> es) = Some (?d + \<pi> es)"
    by (rule num_add_small [OF dm]) (use F(5) [OF esV] in auto)
  have b: "num_sub (?d + \<pi> es) (\<pi> src) = Some (?d + \<pi> es - \<pi> src)"
    by (rule num_sub_small [of _ "2 ^ 97"]) (use dm F(5) [OF esV] F(5) [OF src] in auto)
  have m: "\<bar>?d + \<pi> es - \<pi> src\<bar> \<le> 2 ^ 99" using dm F(5) [OF esV] F(5) [OF src] by auto
  have len: "es < length (sc_dists sc)" "es < length (sc_vert_marks sc)"
    using lim N I(1,2) scratch_okD [of sc] by auto
  have "V - insert es S \<subset> V - S" using pop(2) by blast
  then have "card (V - insert es S) < card (V - S)" using V(1) by (intro psubset_card_mono) auto
  then have dec: "card (V - insert es S) < unsettled V (sc, h)" by (simp add: unsettled_eq [OF i])
  have look: "rg_lookup g src es = Some (W src es)" by (rule presentsD(6) [OF F(1) src esV])
  have lst: "listed V W src (if case W src es of None \<Rightarrow> True | Some w \<Rightarrow> w > ?d + \<pi> es - \<pi> src
      then [(es, ?d + \<pi> es - \<pi> src)] else [])"
    using esV d(1) m by (auto simp: listed_def split: option.splits)
  have reads: "vec_get (sc_dists sc) es = Some ?d" "vec_get (sc_vert_marks sc) es = Some (sc_vert_marks sc ! es)"
    using len by simp_all
  show ?thesis
    by (intro exI [of _ es] exI [of _ h'] conjI pop(1) esV lim small F(4) [OF esV] a b look lst pop(4) d cS less dec reads)
qed

lemma listed_append: "listed V W src (xs @ ys) \<longleftrightarrow> listed V W src xs \<and> listed V W src ys"
  by (auto simp: listed_def)

lemma dij_settle:
  assumes "dij_inv V W \<pi> src sc0 (insert es S) d0 (2 ^ 80 * (int (card S) + 1)) st" "card (insert es S) = Suc (card S)" "0 \<le> d0"
  shows "dij_loop V W \<pi> src sc0 (insert es S) d0 st"
  using dij_weaken [OF assms(1), of "2 ^ 80 * (int (card (insert es S)) + 1)"] assms(2,3) by (simp add: dij_loop_def)

lemma dij_settle_more:
  assumes "dij_inv V W \<pi> src sc0 (insert es S) d0 (2 ^ 80 * (int (card S) + 1) + 2 ^ 80) st"
    "card (insert es S) = Suc (card S)" "0 \<le> d0"
  shows "dij_loop V W \<pi> src sc0 (insert es S) d0 st"
proof -
  have "2 ^ 80 * (int (card S) + 1) + 2 ^ 80 = (2 ^ 80 * (int (card (insert es S)) + 1) :: int)"
    using assms(2) by (simp add: algebra_simps)
  then have "dij_inv V W \<pi> src sc0 (insert es S) d0 (2 ^ 80 * (int (card (insert es S)) + 1)) st"
    using assms(1) by (simp only:)
  then show ?thesis using assms(3) unfolding dij_loop_def by blast
qed

text \<open>One round of the closure after a meet.\<close>

definition colours_ok :: "readable \<Rightarrow> (nat \<Rightarrow> nat \<Rightarrow> number option) \<Rightarrow> nat list list \<Rightarrow> bool" where
  "colours_ok g W cs \<longleftrightarrow> length cs = 2 * rg_size g \<and>
     (\<forall>s<rg_size g. \<forall>d\<in>set (cs ! (2 * s)) \<union> set (cs ! (2 * s + 1)). W s d \<noteq> None)"

lemma chromatic_step_spec:
  assumes fixed: "dij_setup g V W p \<pi>" and src: "src \<in> V" and N: "rg_size g \<le> sc_sz sc0" and cs: "colours_ok g W cs"
    and inv: "dij_loop V W \<pi> src sc0 S d0 (sc, h)" and ne: "\<not> heap_empty h" and out: "listed V W src out"
  shows "\<exists>sc' h' out' S' d'. chromatic_step g p cs src (sc, h, out) = Some (sc', h', out') \<and>
    dij_loop V W \<pi> src sc0 S' d' (sc', h') \<and> listed V W src out' \<and> unsettled V (sc', h') < unsettled V (sc, h)"
proof -
  note F = dij_setupD [OF fixed]
  obtain es h1 where T: "heap_remove_min (sc_dists sc) h = Some (es, h1)" "es \<in> V" "es < rg_size g" "es mod 2 ^ 16 = es"
    "vec_get (sc_dists sc) es = Some (sc_dists sc ! es)" "p es = Some (\<pi> es)"
    "num_add (sc_dists sc ! es) (\<pi> es) = Some (sc_dists sc ! es + \<pi> es)"
    "num_sub (sc_dists sc ! es + \<pi> es) (\<pi> src) = Some (sc_dists sc ! es + \<pi> es - \<pi> src)"
    "rg_lookup g src es = Some (W src es)" "vec_get (sc_vert_marks sc) es = Some (sc_vert_marks sc ! es)"
    "listed V W src (if case W src es of None \<Rightarrow> True | Some w \<Rightarrow> w > sc_dists sc ! es + \<pi> es - \<pi> src
      then [(es, sc_dists sc ! es + \<pi> es - \<pi> src)] else [])"
    "dij_inv V W \<pi> src sc0 (insert es S) (sc_dists sc ! es) (2 ^ 80 * (int (card S) + 1)) (sc, h1)"
    "entails W src es (sc_dists sc ! es + \<pi> es - \<pi> src)" "0 \<le> sc_dists sc ! es"
    "sc_dists sc ! es \<le> 2 ^ 80 * (int (card S) + 1)" "card (insert es S) = Suc (card S)" "card S < 65535"
    "card (V - insert es S) < unsettled V (sc, h)"
    using dij_take [OF fixed src N inv ne] by blast
  let ?d = "sc_dists sc ! es"
  let ?new = "if case W src es of None \<Rightarrow> True | Some w \<Rightarrow> w > ?d + \<pi> es - \<pi> src then [(es, ?d + \<pi> es - \<pi> src)] else []"
  have out': "listed V W src (out @ ?new)" using out T(11) by (simp only: listed_append simp_thms)
  have imp: "improves g src es (?d + \<pi> es - \<pi> src) = Some (case W src es of None \<Rightarrow> True | Some w \<Rightarrow> w > ?d + \<pi> es - \<pi> src)"
    using T(9) by (simp add: improves_def)
  have rows: "(if case W src es of None \<Rightarrow> True | Some w \<Rightarrow> w > ?d + \<pi> es - \<pi> src
      then out @ [(es, ?d + \<pi> es - \<pi> src)] else out) = out @ ?new" by simp
  let ?k = "sc_vert_marks sc ! es"
  let ?i = "if ?k = int E_LEFT then 2 * es + 1 else 2 * es"
  let ?f = "\<lambda>ed (sc, h). do {
           w \<leftarrow> rg_edge_val g es ed;
           x \<leftarrow> num_add (?d + \<pi> es) w;
           pd \<leftarrow> p ed;
           x \<leftarrow> num_sub x pd;
           relax_dist ed x (map_option int (vec_get (sc_edge_marks sc) (rg_size g * es + ed))) (sc, h) }"
  show ?thesis
  proof (cases "?k = int (E_LEFT OR E_RIGHT)")
    case True
    have "chromatic_step g p cs src (sc, h, out) = Some (sc, h1, out @ ?new)"
      using T(1-10) F(4) [OF src] imp True by (simp add: chromatic_step_def Let_def)
    moreover have "unsettled V (sc, h1) < unsettled V (sc, h)" using T(18) unsettled_eq [OF T(12)] by simp
    ultimately show ?thesis using dij_settle [OF T(12,16,14)] out' by blast
  next
    case False
    have i: "?i < length cs" using cs T(3) by (auto simp: colours_ok_def)
    have succs: "W es d \<noteq> None" if "d \<in> set (cs ! ?i)" for d using cs T(3) that unfolding colours_ok_def by (auto split: if_splits)
    have b: "2 ^ 80 * (int (card S) + 1) \<le> (2 ^ 98 :: int)" using T(17) by simp
    obtain sc' h' where run: "for_each ?f (cs ! ?i) (sc, h1) = Some (sc', h')"
      "dij_inv V W \<pi> src sc0 (insert es S) ?d (2 ^ 80 * (int (card S) + 1) + 2 ^ 80) (sc', h')"
    proof -
      have "\<exists>sc' h'. for_each ?f (cs ! ?i) (sc, h1) = Some (sc', h') \<and>
          dij_inv V W \<pi> src sc0 (insert es S) ?d (2 ^ 80 * (int (card S) + 1) + 2 ^ 80) (sc', h')"
      proof (rule dij_edges [OF fixed T(12,2,13,14,15) b N])
        fix y s k assume y: "y \<in> set (cs ! ?i)"
          and P: "dij_inv V W \<pi> src sc0 (insert es S) ?d (2 ^ 80 * (int (card S) + 1) + 2 ^ 80) (s, k)"
        obtain w where w: "W es y = Some w" using succs [OF y] by blast
        have yV: "y \<in> V" using presentsD(4) [OF F(1) w] by blast
        have "rg_size g * es + y < rg_size g * (es + 1)" using presentsD(2) [OF F(1) yV] by simp
        also have "\<dots> \<le> rg_size g * rg_size g" using T(3) by (intro mult_le_mono) auto
        also have "\<dots> \<le> sc_sz sc0 * sc_sz sc0" by (intro mult_le_mono N)
        finally have "rg_size g * es + y < length (sc_edge_marks s)"
          using dij_invD(1,2) [OF P] scratch_okD(5) [of s] by simp
        then show "\<exists>v w m. W es v = Some w \<and> ?f y (s, k) =
            do { x \<leftarrow> num_add (?d + \<pi> es) w; pd \<leftarrow> p v; x \<leftarrow> num_sub x pd; relax_dist v x (Some m) (s, k) }"
          using w presentsD(5) [OF F(1) w] by auto
      qed
      then show thesis using that by blast
    qed
    have "chromatic_step g p cs src (sc, h, out) = Some (sc', h', out @ ?new)"
      using T(1-10) F(4) [OF src] imp False i run(1) rows
      by (simp add: chromatic_step_def Let_def split del: if_split cong del: if_weak_cong)
    moreover have "unsettled V (sc', h') < unsettled V (sc, h)" using T(18) unsettled_eq [OF run(2)] by simp
    ultimately show ?thesis using dij_settle_more [OF run(2) T(16,14)] out' by blast
  qed
qed

text \<open>One round of the recovery after a widening.\<close>

lemma recover_step_spec:
  assumes fixed: "dij_setup g V W p \<pi>" and src: "src \<in> V" and N: "rg_size g \<le> sc_sz sc0" and st: "\<forall>v\<in>V. v < length is_stable"
    and inv: "dij_loop V W \<pi> src sc0 S d0 (sc, h)" and ne: "\<not> heap_empty h" and out: "listed V W src out"
  shows "\<exists>sc' h' out' S' d'. recover_step g p is_stable src (sc, h, pre @ map (\<lambda>(d, w). (src, d, w)) out) =
      Some (sc', h', pre @ map (\<lambda>(d, w). (src, d, w)) out') \<and>
    dij_loop V W \<pi> src sc0 S' d' (sc', h') \<and> listed V W src out' \<and> unsettled V (sc', h') < unsettled V (sc, h)"
proof -
  note F = dij_setupD [OF fixed]
  obtain es h1 where T: "heap_remove_min (sc_dists sc) h = Some (es, h1)" "es \<in> V" "es < rg_size g" "es mod 2 ^ 16 = es"
    "vec_get (sc_dists sc) es = Some (sc_dists sc ! es)" "p es = Some (\<pi> es)"
    "num_add (sc_dists sc ! es) (\<pi> es) = Some (sc_dists sc ! es + \<pi> es)"
    "num_sub (sc_dists sc ! es + \<pi> es) (\<pi> src) = Some (sc_dists sc ! es + \<pi> es - \<pi> src)"
    "rg_lookup g src es = Some (W src es)" "vec_get (sc_vert_marks sc) es = Some (sc_vert_marks sc ! es)"
    "listed V W src (if case W src es of None \<Rightarrow> True | Some w \<Rightarrow> w > sc_dists sc ! es + \<pi> es - \<pi> src
      then [(es, sc_dists sc ! es + \<pi> es - \<pi> src)] else [])"
    "dij_inv V W \<pi> src sc0 (insert es S) (sc_dists sc ! es) (2 ^ 80 * (int (card S) + 1)) (sc, h1)"
    "entails W src es (sc_dists sc ! es + \<pi> es - \<pi> src)" "0 \<le> sc_dists sc ! es"
    "sc_dists sc ! es \<le> 2 ^ 80 * (int (card S) + 1)" "card (insert es S) = Suc (card S)" "card S < 65535"
    "card (V - insert es S) < unsettled V (sc, h)"
    using dij_take [OF fixed src N inv ne] by blast
  let ?d = "sc_dists sc ! es"
  let ?new = "if case W src es of None \<Rightarrow> True | Some w \<Rightarrow> w > ?d + \<pi> es - \<pi> src then [(es, ?d + \<pi> es - \<pi> src)] else []"
  let ?row = "map (\<lambda>(d, w). (src, d, w))"
  have out': "listed V W src (out @ ?new)" using out T(11) by (simp only: listed_append simp_thms)
  have imp: "improves g src es (?d + \<pi> es - \<pi> src) = Some (case W src es of None \<Rightarrow> True | Some w \<Rightarrow> w > ?d + \<pi> es - \<pi> src)"
    using T(9) by (simp add: improves_def)
  have rows: "(if case W src es of None \<Rightarrow> True | Some w \<Rightarrow> w > ?d + \<pi> es - \<pi> src
      then (pre @ ?row out) @ [(src, es, ?d + \<pi> es - \<pi> src)] else pre @ ?row out) = pre @ ?row (out @ ?new)"
    by simp
  let ?k = "sc_vert_marks sc ! es"
  let ?m = "if is_stable ! es \<noteq> 0 then V_STABLE else V_UNSTABLE"
  let ?f = "\<lambda>(v, w) (sc, h). do {
           x \<leftarrow> num_add (?d + \<pi> es) w;
           pd \<leftarrow> p v;
           x \<leftarrow> num_sub x pd;
           relax_dist v x (Some ?m) (sc, h) }"
  show ?thesis
  proof (cases "?k = V_STABLE")
    case True
    have "recover_step g p is_stable src (sc, h, pre @ ?row out) = Some (sc, h1, pre @ ?row (out @ ?new))"
      using T(1-10) F(4) [OF src] imp True rows by (simp add: recover_step_def Let_def)
    moreover have "unsettled V (sc, h1) < unsettled V (sc, h)" using T(18) unsettled_eq [OF T(12)] by simp
    ultimately show ?thesis using dij_settle [OF T(12,16,14)] out' by blast
  next
    case False
    obtain edges where edges: "rg_e_succs g es = Some edges" "lists_edges edges (W es)"
      using presentsD(8) [OF F(1) T(2)] by blast
    have b: "2 ^ 80 * (int (card S) + 1) \<le> (2 ^ 98 :: int)" using T(17) by simp
    have "\<exists>sc' h'. for_each ?f edges (sc, h1) = Some (sc', h') \<and>
        dij_inv V W \<pi> src sc0 (insert es S) ?d (2 ^ 80 * (int (card S) + 1) + 2 ^ 80) (sc', h')"
    proof (rule dij_edges [OF fixed T(12,2,13,14,15) b N])
      fix y s k assume y: "y \<in> set edges"
      obtain v w where "y = (v, w)" by (rule prod.exhaust)
      with y show "\<exists>v w m. W es v = Some w \<and> ?f y (s, k) =
          do { x \<leftarrow> num_add (?d + \<pi> es) w; pd \<leftarrow> p v; x \<leftarrow> num_sub x pd; relax_dist v x (Some m) (s, k) }"
        using edges(2) by (intro exI [of _ v] exI [of _ w] exI [of _ ?m]) (simp add: lists_edges_def)
    qed
    then obtain sc' h' where run: "for_each ?f edges (sc, h1) = Some (sc', h')"
      "dij_inv V W \<pi> src sc0 (insert es S) ?d (2 ^ 80 * (int (card S) + 1) + 2 ^ 80) (sc', h')" by blast
    have "recover_step g p is_stable src (sc, h, pre @ ?row out) = Some (sc', h', pre @ ?row (out @ ?new))"
      using T(1-10) F(4) [OF src] imp False edges(1) run(1) rows st
      by (simp add: recover_step_def Let_def split del: if_split cong del: if_weak_cong)
    moreover have "unsettled V (sc', h') < unsettled V (sc, h)" using T(18) unsettled_eq [OF run(2)] by simp
    ultimately show ?thesis using dij_settle_more [OF run(2) T(16,14)] out' by blast
  qed
qed

lemma dij_stamps:
  assumes "dij_inv V W \<pi> src sc1 S d b (sc, h)" "stamps_ok k sc1"
  shows "stamps_ok k sc"
  using assms unfolding dij_inv_def stamps_ok_def by auto

lemma dij_loop_start:
  assumes "dij_inv V W \<pi> src sc1 S 0 (2 ^ 80) st"
  shows "dij_loop V W \<pi> src sc1 S 0 st"
  using dij_weaken [OF assms, of "2 ^ 80 * (int (card S) + 1)"] by (simp add: dij_loop_def)

lemma marks_spec:
  assumes "\<And>y s. y \<in> set ys \<Longrightarrow> \<exists>ms. s = sc\<lparr>sc_vert_marks := ms\<rparr> \<and> length ms = n \<Longrightarrow>
      \<exists>v m. v < n \<and> f y s = set_mark v m s" "length (sc_vert_marks sc) = n"
  shows "\<exists>ms. for_each f ys sc = Some (sc\<lparr>sc_vert_marks := ms\<rparr>) \<and> length ms = n"
proof -
  let ?P = "\<lambda>s. \<exists>ms. s = sc\<lparr>sc_vert_marks := ms\<rparr> \<and> length ms = n"
  have "\<exists>t. for_each f ys sc = Some t \<and> ?P t"
  proof (rule for_each_inv)
    show "?P sc" using assms(2) by (intro exI [of _ "sc_vert_marks sc"]) simp
  next
    fix y s assume y: "y \<in> set ys" and P: "?P s"
    obtain v m where v: "v < n" "f y s = set_mark v m s" using assms(1) [OF y P] by blast
    obtain ms where ms: "s = sc\<lparr>sc_vert_marks := ms\<rparr>" "length ms = n" using P by blast
    have "f y s = Some (sc\<lparr>sc_vert_marks := ms[v := m]\<rparr>)" using v ms by (simp add: set_mark_in)
    moreover have "?P (sc\<lparr>sc_vert_marks := ms[v := m]\<rparr>)" using ms(2) by (intro exI [of _ "ms[v := m]"]) simp
    ultimately show "\<exists>t. f y s = Some t \<and> ?P t" by blast
  qed
  then show ?thesis by blast
qed

lemma chromatic_dijkstra_spec:
  assumes fixed: "dij_setup g V W p \<pi>" and src: "src \<in> V" and sc: "stamps_ok k sc" "k < 2 ^ 31" "rg_size g \<le> sc_sz sc"
    and cs: "colours_ok g W cs"
  shows "\<exists>sc' out. chromatic_dijkstra g p cs src (sc, []) = Some (sc', out) \<and> listed V W src out \<and>
    stamps_ok (Suc k) sc' \<and> sc_sz sc' = sc_sz sc"
proof -
  note F = dij_setupD [OF fixed]
  obtain es sc1 where init: "dijkstra_init g p src sc = Some (es, sc1)" "lists_edges es (W src)"
    "stamps_ok (Suc k) sc1" "dij_started V W \<pi> src sc sc1"
    using dijkstra_init_spec [OF fixed sc src] by blast
  have sz: "sc_sz sc1 = sc_sz sc" using init(4) by (simp add: dij_started_def)
  note L = scratch_okD [OF stamps_okD [OF init(3)]]
  let ?f = "\<lambda>(dest, _) sc. do { m \<leftarrow> vec_get (sc_edge_marks sc) (rg_size g * src + dest); set_mark dest (int m) sc }"
  have "\<exists>ms. for_each ?f es sc1 = Some (sc1\<lparr>sc_vert_marks := ms\<rparr>) \<and> length ms = sc_sz sc1"
  proof (rule marks_spec)
    fix y s assume y: "y \<in> set es" and s: "\<exists>ms. s = sc1\<lparr>sc_vert_marks := ms\<rparr> \<and> length ms = sc_sz sc1"
    obtain d w where dw: "y = (d, w)" by (cases y)
    then have "W src d = Some w" using y init(2) by (simp add: lists_edges_def)
    then have d: "d < rg_size g" "src < rg_size g" using presentsD(2) [OF F(1)] presentsD(4) [OF F(1)] by blast+
    have "rg_size g * src + d < rg_size g * (src + 1)" using d(1) by simp
    also have "\<dots> \<le> rg_size g * rg_size g" using d(2) by (intro mult_le_mono) auto
    also have "\<dots> \<le> sc_sz sc1 * sc_sz sc1" using sc(3) sz by (intro mult_le_mono) auto
    finally have "rg_size g * src + d < length (sc_edge_marks s)" using s L(5) by auto
    then show "\<exists>v m. v < sc_sz sc1 \<and> ?f y s = set_mark v m s"
      using d(1) sc(3) sz dw by (intro exI [of _ d] exI) simp
  qed (rule L(1))
  then obtain ms where ms: "for_each ?f es sc1 = Some (sc1\<lparr>sc_vert_marks := ms\<rparr>)" "length ms = sc_sz sc1" by blast
  obtain h S where start: "dijkstra_build_heap (sc_dists sc1) es = Some h"
    "dij_inv V W \<pi> src sc1 S 0 (2 ^ 80) (sc1\<lparr>sc_vert_marks := ms\<rparr>, h)"
    using dij_start [OF fixed init(4,3) src sc(3) init(2) ms(2)] by blast
  let ?sc2 = "sc1\<lparr>sc_vert_marks := ms\<rparr>"
  let ?P = "\<lambda>(sc, h, out). \<exists>S d. dij_loop V W \<pi> src sc1 S d (sc, h) \<and> listed V W src out"
  have N: "rg_size g \<le> sc_sz sc1" using sc(3) sz by simp
  have "\<exists>t. while_opt (\<lambda>(_, h, _). \<not> heap_empty h) (chromatic_step g p cs src) (?sc2, h, []) = Some t \<and> ?P t \<and>
      \<not> (\<lambda>(_, h, _). \<not> heap_empty h) t"
  proof (rule while_opt_total [where m = "\<lambda>(sc, h, _). unsettled V (sc, h)"])
    show "?P (?sc2, h, [])" using dij_loop_start [OF start(2)] by (auto simp: listed_def)
  next
    fix s assume P: "?P s" and c: "(\<lambda>(_, h, _). \<not> heap_empty h) s"
    obtain sc h out where s: "s = (sc, h, out)" by (cases s)
    obtain S d where inv: "dij_loop V W \<pi> src sc1 S d (sc, h)" "listed V W src out" using P s by blast
    have ne: "\<not> heap_empty h" using c s by simp
    obtain sc' h' out' S' d' where "chromatic_step g p cs src (sc, h, out) = Some (sc', h', out')"
      "dij_loop V W \<pi> src sc1 S' d' (sc', h')" "listed V W src out'" "unsettled V (sc', h') < unsettled V (sc, h)"
      using chromatic_step_spec [OF fixed src N cs inv(1) ne inv(2)] by blast
    then show "\<exists>t. chromatic_step g p cs src s = Some t \<and> ?P t \<and>
        (\<lambda>(sc, h, _). unsettled V (sc, h)) t < (\<lambda>(sc, h, _). unsettled V (sc, h)) s"
      unfolding s by (intro exI [of _ "(sc', h', out')"]) auto
  qed
  then obtain sc' h' out where fin: "while_opt (\<lambda>(_, h, _). \<not> heap_empty h) (chromatic_step g p cs src) (?sc2, h, []) = Some (sc', h', out)"
    "?P (sc', h', out)" by (metis (lifting) prod_cases3)
  then obtain S' d' where last: "dij_loop V W \<pi> src sc1 S' d' (sc', h')" "listed V W src out" by blast
  have "sc_sz sc' = sc_sz sc" using last(1) dij_invD(2) sz by (fastforce simp: dij_loop_def)
  moreover have "stamps_ok (Suc k) sc'" using last(1) dij_stamps init(3) by (auto simp: dij_loop_def)
  moreover have "rg_size g \<noteq> 0" using presentsD(2) [OF F(1) src] by simp
  then have "chromatic_dijkstra g p cs src (sc, []) = Some (sc', out)"
    using init(1) ms(1) start(1) fin(1) by (simp add: chromatic_dijkstra_def)
  ultimately show ?thesis using last(2) by blast
qed

lemma dijkstra_recover_spec:
  assumes fixed: "dij_setup g V W p \<pi>" and src: "src \<in> V" and sc: "stamps_ok k sc" "k < 2 ^ 31" "rg_size g \<le> sc_sz sc"
    and st: "\<forall>v\<in>V. v < length is_stable"
  shows "\<exists>sc' out. dijkstra_recover g p is_stable src (sc, delta) = Some (sc', delta @ map (\<lambda>(d, w). (src, d, w)) out) \<and>
    listed V W src out \<and> stamps_ok (Suc k) sc' \<and> sc_sz sc' = sc_sz sc"
proof (cases "is_stable ! src = 0")
  case False
  then have "dijkstra_recover g p is_stable src (sc, delta) = Some (sc, delta @ map (\<lambda>(d, w). (src, d, w)) [])"
    using st src presentsD(2) [OF dij_setupD(1) [OF fixed] src] by (simp add: dijkstra_recover_def)
  moreover have "stamps_ok (Suc k) sc" using sc(1) by (auto simp: stamps_ok_def)
  ultimately show ?thesis by (intro exI [of _ sc] exI [of _ "[]"]) (simp add: listed_def)
next
  case True
  note F = dij_setupD [OF fixed]
  obtain es sc1 where init: "dijkstra_init g p src sc = Some (es, sc1)" "lists_edges es (W src)"
    "stamps_ok (Suc k) sc1" "dij_started V W \<pi> src sc sc1"
    using dijkstra_init_spec [OF fixed sc src] by blast
  have sz: "sc_sz sc1 = sc_sz sc" using init(4) by (simp add: dij_started_def)
  note L = scratch_okD [OF stamps_okD [OF init(3)]]
  let ?f = "\<lambda>(dest, _) sc. set_mark dest V_UNSTABLE sc"
  have "\<exists>ms. for_each ?f es sc1 = Some (sc1\<lparr>sc_vert_marks := ms\<rparr>) \<and> length ms = sc_sz sc1"
  proof (rule marks_spec)
    fix y s assume y: "y \<in> set es"
    obtain d w where dw: "y = (d, w)" by (cases y)
    then have "W src d = Some w" using y init(2) by (simp add: lists_edges_def)
    then have "d < sc_sz sc1" using presentsD(2) [OF F(1)] presentsD(4) [OF F(1)] sc(3) sz by fastforce
    then show "\<exists>v m. v < sc_sz sc1 \<and> ?f y s = set_mark v m s" using dw by (intro exI [of _ d] exI) simp
  qed (rule L(1))
  then obtain ms where ms: "for_each ?f es sc1 = Some (sc1\<lparr>sc_vert_marks := ms\<rparr>)" "length ms = sc_sz sc1" by blast
  obtain h S where start: "dijkstra_build_heap (sc_dists sc1) es = Some h"
    "dij_inv V W \<pi> src sc1 S 0 (2 ^ 80) (sc1\<lparr>sc_vert_marks := ms\<rparr>, h)"
    using dij_start [OF fixed init(4,3) src sc(3) init(2) ms(2)] by blast
  let ?sc2 = "sc1\<lparr>sc_vert_marks := ms\<rparr>"
  let ?row = "map (\<lambda>(d, w). (src, d, w))"
  let ?P = "\<lambda>(sc, h, dl). \<exists>S d out. dl = delta @ ?row out \<and> dij_loop V W \<pi> src sc1 S d (sc, h) \<and> listed V W src out"
  have N: "rg_size g \<le> sc_sz sc1" using sc(3) sz by simp
  have "\<exists>t. while_opt (\<lambda>(_, h, _). \<not> heap_empty h) (recover_step g p is_stable src) (?sc2, h, delta) = Some t \<and> ?P t \<and>
      \<not> (\<lambda>(_, h, _). \<not> heap_empty h) t"
  proof (rule while_opt_total [where m = "\<lambda>(sc, h, _). unsettled V (sc, h)"])
    have "delta = delta @ ?row [] \<and> dij_loop V W \<pi> src sc1 S 0 (?sc2, h) \<and> listed V W src []"
      using dij_loop_start [OF start(2)] by (simp add: listed_def)
    then show "?P (?sc2, h, delta)" by blast
  next
    fix s assume P: "?P s" and c: "(\<lambda>(_, h, _). \<not> heap_empty h) s"
    obtain sc h dl where s: "s = (sc, h, dl)" by (cases s)
    obtain S d out where inv: "dl = delta @ ?row out" "dij_loop V W \<pi> src sc1 S d (sc, h)" "listed V W src out"
      using P s by blast
    have ne: "\<not> heap_empty h" using c s by simp
    obtain sc' h' out' S' d' where step: "recover_step g p is_stable src (sc, h, dl) = Some (sc', h', delta @ ?row out')"
      "dij_loop V W \<pi> src sc1 S' d' (sc', h')" "listed V W src out'" "unsettled V (sc', h') < unsettled V (sc, h)"
      using recover_step_spec [OF fixed src N st inv(2) ne inv(3), of delta] inv(1) by blast
    have "?P (sc', h', delta @ ?row out')" using step(2,3) by blast
    then show "\<exists>t. recover_step g p is_stable src s = Some t \<and> ?P t \<and>
        (\<lambda>(sc, h, _). unsettled V (sc, h)) t < (\<lambda>(sc, h, _). unsettled V (sc, h)) s"
      unfolding s using step(1,4) by (intro exI [of _ "(sc', h', delta @ ?row out')"]) simp
  qed
  then obtain sc' h' dl where fin: "while_opt (\<lambda>(_, h, _). \<not> heap_empty h) (recover_step g p is_stable src) (?sc2, h, delta) = Some (sc', h', dl)"
    "?P (sc', h', dl)" by (metis (lifting) prod_cases3)
  then obtain S' d' out where last: "dl = delta @ ?row out" "dij_loop V W \<pi> src sc1 S' d' (sc', h')" "listed V W src out" by blast
  have "sc_sz sc' = sc_sz sc" using last(2) dij_invD(2) sz by (fastforce simp: dij_loop_def)
  moreover have "stamps_ok (Suc k) sc'" using last(2) dij_stamps init(3) by (auto simp: dij_loop_def)
  moreover have "rg_size g \<noteq> 0" using presentsD(2) [OF F(1) src] by simp
  then have "dijkstra_recover g p is_stable src (sc, delta) = Some (sc', delta @ ?row out)"
    using init(1) ms(1) start(1) fin(1) True st src last(1) by (simp add: dijkstra_recover_def)
  ultimately show ?thesis using last(3) by blast
qed

subsection \<open>The closures\<close>

definition row_ok :: "nat set \<Rightarrow> (nat \<Rightarrow> nat \<Rightarrow> number option) \<Rightarrow> edge_vector \<Rightarrow> bool" where
  "row_ok V W delta \<longleftrightarrow> delta_ok (\<lambda>v. v \<in> V) W delta \<and> (\<forall>(s, d, w)\<in>set delta. \<bar>w\<bar> \<le> 2 ^ 99)"

lemma row_ok_Nil [simp]: "row_ok V W []"
  by (simp add: row_ok_def delta_ok_def)

lemma row_ok_append: "row_ok V W delta \<Longrightarrow> v \<in> V \<Longrightarrow> listed V W v out \<Longrightarrow> row_ok V W (delta @ map (\<lambda>(d, w). (v, d, w)) out)"
  by (auto simp: row_ok_def delta_ok_def listed_def)

lemma edge_slot:
  assumes "s < n" "d < n" "n \<le> N"
  shows "n * s + d < N * (N :: nat)"
proof -
  have "n * s + d < n * (s + 1)" using assms(2) by simp
  also have "\<dots> \<le> n * n" using assms(1) by (intro mult_le_mono) auto
  also have "\<dots> \<le> N * N" using assms(3) by (intro mult_le_mono) auto
  finally show ?thesis .
qed

lemma colour_push:
  assumes "colours_ok g W cs" "k < length cs" "k div 2 = s" "s < rg_size g" "W s d \<noteq> None"
  shows "colours_ok g W (cs[k := cs ! k @ [d]])"
proof -
  have at: "cs[k := cs ! k @ [d]] ! j = (if j = k then cs ! k @ [d] else cs ! j)" for j using assms(2) by simp
  have mem: "\<And>t e. t < rg_size g \<Longrightarrow> e \<in> set (cs ! (2 * t)) \<union> set (cs ! (2 * t + 1)) \<Longrightarrow> W t e \<noteq> None"
    using assms(1) unfolding colours_ok_def by blast
  have "W t e \<noteq> None" if t: "t < rg_size g"
    and e: "e \<in> set (cs[k := cs ! k @ [d]] ! (2 * t)) \<union> set (cs[k := cs ! k @ [d]] ! (2 * t + 1))" for t e
  proof (cases "e \<in> set (cs ! (2 * t)) \<union> set (cs ! (2 * t + 1))")
    case False
    then have "e = d" "2 * t = k \<or> 2 * t + 1 = k" using e unfolding at by (auto split: if_splits)
    then show ?thesis using assms(3,5) by auto
  qed (use mem t in blast)
  then show ?thesis using assms(1) by (auto simp: colours_ok_def)
qed

text \<open>Both sides see every edge of the meet.\<close>

definition meet_sides ::
  "readable \<Rightarrow> nat set \<Rightarrow> (nat \<Rightarrow> nat \<Rightarrow> number option) \<Rightarrow> readable \<Rightarrow> readable \<Rightarrow> bool" where
  "meet_sides g V W l r \<longleftrightarrow> rg_size l = rg_size g \<and> rg_size r = rg_size g \<and>
     (\<forall>s d w. W s d = Some w \<longrightarrow> (\<exists>lw rw. rg_lookup l s d = Some lw \<and> rg_lookup r s d = Some rw \<and> (lw = Some w \<or> rw = Some w)))"

definition colour_edge ::
  "readable \<Rightarrow> readable \<Rightarrow> nat \<Rightarrow> nat \<times> number \<Rightarrow> scratch_space \<times> nat list list \<Rightarrow> (scratch_space \<times> nat list list) option" where
  "colour_edge l r s = (\<lambda>(d, w) (sc, cs). do {
     mark \<leftarrow> edge_colour l r s d w;
     cs \<leftarrow> (if mark = E_LEFT then do { ds \<leftarrow> vec_get cs (2 * s); vec_set (2 * s) (ds @ [d]) cs }
            else if mark = E_RIGHT then do { ds \<leftarrow> vec_get cs (2 * s + 1); vec_set (2 * s + 1) (ds @ [d]) cs }
            else Some cs);
     ms \<leftarrow> vec_set (rg_size l * s + d) mark (sc_edge_marks sc);
     Some (sc\<lparr>sc_edge_marks := ms\<rparr>, cs) })"

definition coloured :: "readable \<Rightarrow> (nat \<Rightarrow> nat \<Rightarrow> number option) \<Rightarrow> nat \<Rightarrow> scratch_space \<times> nat list list \<Rightarrow> bool" where
  "coloured g W k = (\<lambda>(sc, cs). stamps_ok k sc \<and> rg_size g \<le> sc_sz sc \<and> colours_ok g W cs)"

lemma colour_edge_spec:
  assumes pres: "presents g V W" and lr: "meet_sides g V W l r" and W: "W s d = Some w" and st: "coloured g W k st"
  shows "\<exists>st'. colour_edge l r s (d, w) st = Some st' \<and> coloured g W k st'"
proof -
  obtain sc cs where cs: "st = (sc, cs)" by (cases st)
  have sd: "s < rg_size g" "d < rg_size g" using presentsD(2,4) [OF pres] W by blast+
  obtain lw rw where look: "rg_lookup l s d = Some lw" "rg_lookup r s d = Some rw" "lw = Some w \<or> rw = Some w"
    using lr W unfolding meet_sides_def by blast
  define mark where "mark = ((if lw = Some w then E_LEFT else 0) OR (if rw = Some w then E_RIGHT else 0))"
  have mark0: "mark \<noteq> 0" using look(3) by (auto simp: mark_def E_LEFT_def E_RIGHT_def)
  have col: "edge_colour l r s d w = Some mark"
    using look(1,2) mark0 by (simp add: edge_colour_def mark_def Let_def)
  have len: "length cs = 2 * rg_size g" using st cs by (simp add: coloured_def colours_ok_def)
  have ok: "scratch_ok sc" "rg_size g \<le> sc_sz sc" "colours_ok g W cs" using st cs by (auto simp: coloured_def dest: stamps_okD)
  have slot: "rg_size l * s + d < length (sc_edge_marks sc)"
    using edge_slot [OF sd ok(2)] lr scratch_okD(5) [OF ok(1)] by (simp add: meet_sides_def)
  have Wsd: "W s d \<noteq> None" using W by simp
  obtain cs' where cs': "(if mark = E_LEFT then do { ds \<leftarrow> vec_get cs (2 * s); vec_set (2 * s) (ds @ [d]) cs }
            else if mark = E_RIGHT then do { ds \<leftarrow> vec_get cs (2 * s + 1); vec_set (2 * s + 1) (ds @ [d]) cs }
            else Some cs) = Some cs'" "colours_ok g W cs'"
  proof -
    consider "mark = E_LEFT" | "mark \<noteq> E_LEFT" "mark = E_RIGHT" | "mark \<noteq> E_LEFT" "mark \<noteq> E_RIGHT" by blast
    then show thesis
    proof cases
      case 1
      then show thesis using that [of "cs[2 * s := cs ! (2 * s) @ [d]]"] colour_push [OF ok(3) _ _ sd(1) Wsd, of "2 * s"] sd(1) len by simp
    next
      case 2
      then show thesis
        using that [of "cs[2 * s + 1 := cs ! (2 * s + 1) @ [d]]"] colour_push [OF ok(3) _ _ sd(1) Wsd, of "2 * s + 1"] sd(1) len by simp
    next
      case 3
      then show thesis using that [of cs] ok(3) by simp
    qed
  qed
  let ?sc = "sc\<lparr>sc_edge_marks := (sc_edge_marks sc)[rg_size l * s + d := mark]\<rparr>"
  have "colour_edge l r s (d, w) st = Some (?sc, cs')"
    using col cs'(1) slot by (simp add: colour_edge_def cs)
  moreover have "stamps_ok k ?sc" using st cs unfolding coloured_def stamps_ok_def by (auto simp: scratch_ok_def)
  then have "coloured g W k (?sc, cs')" using cs'(2) ok(2) by (simp add: coloured_def)
  ultimately show ?thesis by blast
qed

lemma colours_new: "colours_ok g W (replicate (2 * rg_size g) [])"
  by (simp add: colours_ok_def)

lemma close_after_meet_spec:
  assumes fixed: "dij_setup g V W p \<pi>" and lr: "meet_sides g V W l r" and sc: "stamps_ok k sc" "k < 2 ^ 30"
  shows "\<exists>sc' delta. close_after_meet sc g p l r = Some (sc', delta) \<and> stamps_ok (k + card V) sc' \<and> row_ok V W delta"
proof -
  note F = dij_setupD [OF fixed]
  obtain vs where vs: "rg_verts g = Some vs" "distinct vs" "set vs = V" using presentsD(3) [OF F(1)] by blast
  have card: "length vs = card V" "card V \<le> 65535" using vs(3) distinct_card [OF vs(2)] presents_finite [OF F(1)] by auto
  let ?sc = "scratch_grow (rg_size l) sc"
  have sz: "rg_size l = rg_size g" using lr by (simp add: meet_sides_def)
  have st0: "coloured g W k (?sc, replicate (2 * rg_size l) [])"
    using stamps_grow [OF sc(1)] scratch_grow_ok(2) [OF stamps_okD [OF sc(1)]] colours_new sz by (simp add: coloured_def)
  let ?colour = "\<lambda>s (sc, cs). do { edges \<leftarrow> rg_e_succs g s; for_each (colour_edge l r s) edges (sc, cs) }"
  have "\<exists>st. for_each ?colour vs (?sc, replicate (2 * rg_size l) []) = Some st \<and> coloured g W k st"
  proof (rule for_each_inv)
    show "coloured g W k (?sc, replicate (2 * rg_size l) [])" by (rule st0)
  next
    fix s st assume s: "s \<in> set vs" and st: "coloured g W k st"
    obtain es where es: "rg_e_succs g s = Some es" "lists_edges es (W s)" using presentsD(8) [OF F(1)] s vs(3) by blast
    have "\<exists>st'. for_each (colour_edge l r s) es st = Some st' \<and> coloured g W k st'"
    proof (rule for_each_inv)
      fix y st assume y: "y \<in> set es" and st: "coloured g W k st"
      obtain d w where dw: "y = (d, w)" by (rule prod.exhaust)
      then have "W s d = Some w" using y es(2) by (simp add: lists_edges_def)
      then show "\<exists>t. colour_edge l r s y st = Some t \<and> coloured g W k t"
        using colour_edge_spec [OF F(1) lr _ st] unfolding dw by blast
    qed (rule st)
    then show "\<exists>t. ?colour s st = Some t \<and> coloured g W k t" using es(1) by (auto split: prod.splits)
  qed
  then obtain sc1 cs where col: "for_each ?colour vs (?sc, replicate (2 * rg_size l) []) = Some (sc1, cs)"
    "coloured g W k (sc1, cs)" by auto
  have ok1: "stamps_ok k sc1" "rg_size g \<le> sc_sz sc1" "colours_ok g W cs" using col(2) by (auto simp: coloured_def)
  let ?run = "\<lambda>v (sc, delta). do {
            (sc, adjs) \<leftarrow> chromatic_dijkstra g p cs v (sc, []);
            Some (sc, delta @ map (\<lambda>(d, w). (v, d, w)) adjs) }"
  let ?P = "\<lambda>pre (sc, delta). stamps_ok (k + length pre) sc \<and> sc_sz sc = sc_sz sc1 \<and> row_ok V W delta"
  have "\<exists>st. for_each ?run vs (sc1, []) = Some st \<and> ?P vs st"
  proof (rule for_each_total [where P = ?P])
    show "?P [] (sc1, [])" using ok1 by simp
  next
    fix pre v rest st assume split: "vs = pre @ v # rest" and P: "?P pre st"
    obtain s delta where st: "st = (s, delta)" by (cases st)
    have v: "v \<in> V" using split vs(3) by auto
    have small: "k + length pre < 2 ^ 31" using sc(2) card split by simp
    have N: "rg_size g \<le> sc_sz s" using P st ok1(2) by simp
    have pre: "stamps_ok (k + length pre) s" "row_ok V W delta" using P st by auto
    obtain s' out where "chromatic_dijkstra g p cs v (s, []) = Some (s', out)" "listed V W v out"
      "stamps_ok (Suc (k + length pre)) s'" "sc_sz s' = sc_sz s"
      using chromatic_dijkstra_spec [OF fixed v pre(1) small N ok1(3)] by blast
    then show "\<exists>t. ?run v st = Some t \<and> ?P (pre @ [v]) t"
      using row_ok_append [OF pre(2) v] P st by (intro exI [of _ "(s', delta @ map (\<lambda>(d, w). (v, d, w)) out)"]) simp
  qed
  then obtain sc2 delta where run: "for_each ?run vs (sc1, []) = Some (sc2, delta)" "?P vs (sc2, delta)" by auto
  have "close_after_meet sc g p l r = Some (sc2, delta)"
    using vs(1) col(1) run(1) lr
    by (simp add: close_after_meet_def Let_def meet_sides_def colour_edge_def [abs_def] case_prod_unfold)
  then show ?thesis using run(2) card(1) by auto
qed

lemma close_after_widen_spec:
  assumes fixed: "dij_setup g V W p \<pi>" and sc: "stamps_ok k sc" "k < 2 ^ 30"
  shows "\<exists>sc' delta. close_after_widen sc g p unstable = Some (sc', delta) \<and> stamps_ok (k + card V) sc' \<and> row_ok V W delta"
proof -
  note F = dij_setupD [OF fixed]
  obtain vs where vs: "rg_verts g = Some vs" "distinct vs" "set vs = V" using presentsD(3) [OF F(1)] by blast
  have card: "length vs = card V" "card V \<le> 65535" using vs(3) distinct_card [OF vs(2)] presents_finite [OF F(1)] by auto
  let ?sc = "scratch_grow (rg_size g) sc"
  have grow: "stamps_ok k ?sc" "rg_size g \<le> sc_sz ?sc"
    using stamps_grow [OF sc(1)] scratch_grow_ok(2) [OF stamps_okD [OF sc(1)]] by auto
  let ?mark = "\<lambda>v sc. do {
              st \<leftarrow> vec_set v (if v \<in> unstable then nat V_UNSTABLE else nat V_STABLE) (sc_stability sc);
              Some (sc\<lparr>sc_stability := st\<rparr>) }"
  have "\<exists>s. for_each ?mark vs ?sc = Some s \<and> stamps_ok k s \<and> rg_size g \<le> sc_sz s"
  proof (rule for_each_inv)
    show "stamps_ok k ?sc \<and> rg_size g \<le> sc_sz ?sc" using grow by simp
  next
    fix v s assume v: "v \<in> set vs" and s: "stamps_ok k s \<and> rg_size g \<le> sc_sz s"
    have "v < length (sc_stability s)"
      using presentsD(2) [OF F(1), of v] v vs(3) s scratch_okD(4) [OF stamps_okD] by fastforce
    then show "\<exists>t. ?mark v s = Some t \<and> stamps_ok k t \<and> rg_size g \<le> sc_sz t"
      using s by (auto simp: stamps_ok_def scratch_ok_def)
  qed
  then obtain sc1 where m: "for_each ?mark vs ?sc = Some sc1" "stamps_ok k sc1" "rg_size g \<le> sc_sz sc1" by blast
  have long: "rg_size g \<le> length (sc_stability sc1)" using m(2,3) scratch_okD(4) [OF stamps_okD [OF m(2)]] by simp
  let ?st = "take (rg_size g) (sc_stability sc1)"
  have stl: "\<forall>v\<in>V. v < length ?st" using presentsD(2) [OF F(1)] long by auto
  let ?run = "\<lambda>v (sc, delta). do {
            st \<leftarrow> vec_get ?st v;
            if st = 0 then dijkstra_recover g p ?st v (sc, delta) else Some (sc, delta) }"
  let ?P = "\<lambda>pre (sc, delta). stamps_ok (k + length pre) sc \<and> sc_sz sc = sc_sz sc1 \<and> row_ok V W delta"
  have "\<exists>st. for_each ?run vs (sc1, []) = Some st \<and> ?P vs st"
  proof (rule for_each_total [where P = ?P])
    show "?P [] (sc1, [])" using m(2) by simp
  next
    fix pre v rest st assume split: "vs = pre @ v # rest" and P: "?P pre st"
    obtain s delta where st: "st = (s, delta)" by (cases st)
    have v: "v \<in> V" using split vs(3) by auto
    have small: "k + length pre < 2 ^ 31" using sc(2) card split by simp
    have N: "rg_size g \<le> sc_sz s" using P st m(3) by simp
    have pre: "stamps_ok (k + length pre) s" "row_ok V W delta" using P st by auto
    have get: "vec_get ?st v = Some (?st ! v)" using stl v by simp
    show "\<exists>t. ?run v st = Some t \<and> ?P (pre @ [v]) t"
    proof (cases "?st ! v = 0")
      case True
      obtain s' out where "dijkstra_recover g p ?st v (s, delta) = Some (s', delta @ map (\<lambda>(d, w). (v, d, w)) out)"
        "listed V W v out" "stamps_ok (Suc (k + length pre)) s'" "sc_sz s' = sc_sz s"
        using dijkstra_recover_spec [OF fixed v pre(1) small N stl] by blast
      then show ?thesis
        using row_ok_append [OF pre(2) v] P st get True
        by (intro exI [of _ "(s', delta @ map (\<lambda>(d, w). (v, d, w)) out)"]) simp
    next
      case False
      have "stamps_ok (Suc (k + length pre)) s" using pre(1) by (auto simp: stamps_ok_def)
      then show ?thesis using P st get False by (intro exI [of _ "(s, delta)"]) simp
    qed
  qed
  then obtain sc2 delta where run: "for_each ?run vs (sc1, []) = Some (sc2, delta)" "?P vs (sc2, delta)" by auto
  have "close_after_widen sc g p unstable = Some (sc2, delta)"
    using vs(1) m(1) run(1) long by (simp add: close_after_widen_def Let_def)
  then show ?thesis using run(2) card(1) by auto
qed

end
