(* ===== verification/Dbm_Soundness.thy ===== *)
theory Dbm_Soundness
  imports Split_Dbm Dijkstra_Closure
begin

text \<open>
  The split DBM of \<open>src/crab/splitdbm/split_dbm.rs\<close> as a set of solutions: a vertex is an integer,
  an edge from \<open>s\<close> to \<open>d\<close> of weight \<open>w\<close> is the constraint \<open>d - s \<le> w\<close>, and vertex 0 stands for
  zero.  The invariant is that the potential is itself a solution; every operation keeps it, and
  changes the solutions as its contract says.
\<close>

subsection \<open>The invariant\<close>

definition dbm_ok :: "split_dbm \<Rightarrow> bool" where
  "dbm_ok d \<longleftrightarrow> graph_ok (dbm_g d) \<and> live (dbm_g d) 0 \<and>
     graph_size (dbm_g d) \<le> length (dbm_potential d) \<and>
     solves (\<lambda>v. dbm_potential d ! v) (weight (dbm_g d))"

definition dbm_within :: "int \<Rightarrow> split_dbm \<Rightarrow> bool" where
  "dbm_within b d \<longleftrightarrow> weights_within b (weight (dbm_g d)) \<and>
     (\<forall>v. live (dbm_g d) v \<longrightarrow> \<bar>dbm_potential d ! v\<bar> \<le> b)"

definition dbm_holds :: "(nat \<Rightarrow> int) \<Rightarrow> split_dbm \<Rightarrow> bool" where
  "dbm_holds \<sigma> d \<longleftrightarrow> solves \<sigma> (weight (dbm_g d))"

text \<open>Two states over the same vertices.\<close>

definition same_shape :: "split_dbm \<Rightarrow> split_dbm \<Rightarrow> bool" where
  "same_shape d d' \<longleftrightarrow> live (dbm_g d') = live (dbm_g d) \<and> graph_size (dbm_g d') = graph_size (dbm_g d) \<and>
     length (dbm_potential d') = length (dbm_potential d) \<and> dbm_unstable d' = dbm_unstable d"

lemma same_shape_refl [simp]: "same_shape d d"
  by (simp add: same_shape_def)

lemma same_shape_trans: "same_shape a b \<Longrightarrow> same_shape b c \<Longrightarrow> same_shape a c"
  by (simp add: same_shape_def)

lemma dbm_okD:
  assumes "dbm_ok d"
  shows "graph_ok (dbm_g d)" "live (dbm_g d) 0" "\<And>v. live (dbm_g d) v \<Longrightarrow> v < length (dbm_potential d)"
    "solves (\<lambda>v. dbm_potential d ! v) (weight (dbm_g d))" "graph_size (dbm_g d) \<le> length (dbm_potential d)"
  using assms live_graph_size [of "dbm_g d"] by (fastforce simp: dbm_ok_def)+

lemma dbm_withinD:
  assumes "dbm_within b d"
  shows "weights_within b (weight (dbm_g d))" "\<And>v. live (dbm_g d) v \<Longrightarrow> \<bar>dbm_potential d ! v\<bar> \<le> b"
  using assms by (auto simp: dbm_within_def)

lemma weights_within_mono: "weights_within a W \<Longrightarrow> a \<le> b \<Longrightarrow> weights_within b W"
  unfolding weights_within_def by force

lemma dbm_within_mono: "dbm_within a d \<Longrightarrow> a \<le> b \<Longrightarrow> dbm_within b d"
  using weights_within_mono unfolding dbm_within_def by force

lemma solves_with_edge:
  "solves \<sigma> (with_edge W s w d) \<longleftrightarrow> (\<forall>a b v. (a, b) \<noteq> (s, d) \<longrightarrow> W a b = Some v \<longrightarrow> \<sigma> b - \<sigma> a \<le> v) \<and> \<sigma> d - \<sigma> s \<le> w"
  by (auto simp: solves_def)

lemma solves_tighter:
  "solves \<sigma> (with_edge W s (tighter (W s d) w) d) \<longleftrightarrow> solves \<sigma> W \<and> \<sigma> d - \<sigma> s \<le> w"
proof -
  have "solves \<sigma> W \<longleftrightarrow> (\<forall>a b v. (a, b) \<noteq> (s, d) \<longrightarrow> W a b = Some v \<longrightarrow> \<sigma> b - \<sigma> a \<le> v) \<and>
      (\<forall>v. W s d = Some v \<longrightarrow> \<sigma> d - \<sigma> s \<le> v)"
    unfolding solves_def by (metis prod.inject)
  then show ?thesis by (auto simp: solves_with_edge tighter_def split: option.splits)
qed

lemma solves_set_tighter:
  assumes "\<And>v. W s d = Some v \<Longrightarrow> w \<le> v"
  shows "solves \<sigma> (with_edge W s w d) \<longleftrightarrow> solves \<sigma> W \<and> \<sigma> d - \<sigma> s \<le> w"
proof -
  have "tighter (W s d) w = w" using assms by (auto simp: tighter_def split: option.split)
  then show ?thesis using solves_tighter [of \<sigma> W s d w] by simp
qed

subsection \<open>The start\<close>

lemma dbm_new_spec:
  "\<exists>d. dbm_new = Some d \<and> dbm_ok d \<and> dbm_within 0 d \<and> (\<forall>\<sigma>. dbm_holds \<sigma> d) \<and> (\<forall>v. live (dbm_g d) v \<longleftrightarrow> v = 0) \<and>
    graph_size (dbm_g d) = 1 \<and> dbm_potential d = [0] \<and> weight (dbm_g d) = (\<lambda>_ _. None)"
proof -
  obtain g where g: "grow_to 1 graph_new = Some g" "holds_weights g (\<lambda>v. v < 1) 1 (\<lambda>_ _. None)"
    using holds_fresh [of 1] by auto
  have "live g = (\<lambda>v. v < 1)" "weight g = (\<lambda>_ _. None)" "graph_ok g" using g(2) by (auto simp: holds_weights_def)
  moreover have "graph_size g = 1" using g(2) by (simp add: holds_weights_def)
  ultimately show ?thesis
    using g(1) by (auto simp: dbm_new_def dbm_ok_def dbm_within_def dbm_holds_def solves_def weights_within_def)
qed

lemma unstable_irrelevant [simp]:
  "dbm_ok (d\<lparr>dbm_unstable := u\<rparr>) = dbm_ok d" "dbm_holds \<sigma> (d\<lparr>dbm_unstable := u\<rparr>) = dbm_holds \<sigma> d"
  "dbm_within b (d\<lparr>dbm_unstable := u\<rparr>) = dbm_within b d"
  by (simp_all add: dbm_ok_def dbm_holds_def dbm_within_def)

subsection \<open>Setting one edge and repairing the potential\<close>

text \<open>
  Repairing after the edge from \<open>src\<close> to \<open>dest\<close> was set to \<open>w\<close>, no weaker than before: \<open>true\<close>
  exactly when the constraints have a solution, and then the invariant holds again.
\<close>

lemma repair_after_set:
  assumes ok: "dbm_ok d" and within: "dbm_within b d" "b \<le> 2 ^ 120" "\<bar>w\<bar> \<le> b"
    and g: "holds_weights g (live (dbm_g d)) (graph_size (dbm_g d)) (with_edge (weight (dbm_g d)) src w dest)"
    and ends: "live (dbm_g d) src" "live (dbm_g d) dest"
    and tight: "\<And>v. weight (dbm_g d) src dest = Some v \<Longrightarrow> w \<le> v" and sc: "scratch_ok sc"
  shows "\<exists>r d' sc'. repair_with sc src dest (d\<lparr>dbm_g := g\<rparr>) = Some (r, d', sc') \<and> scratch_ok sc' \<and> dbm_g d' = g \<and> same_shape d d' \<and>
    (r \<longleftrightarrow> (\<exists>\<sigma>. dbm_holds \<sigma> d \<and> \<sigma> dest - \<sigma> src \<le> w)) \<and>
    (\<forall>\<sigma>. dbm_holds \<sigma> d' \<longleftrightarrow> dbm_holds \<sigma> d \<and> \<sigma> dest - \<sigma> src \<le> w) \<and>
    (r \<longrightarrow> dbm_ok d' \<and> dbm_within (4 * b) d') \<and>
    (dbm_potential d ! dest - dbm_potential d ! src \<le> w \<longrightarrow> dbm_potential d' = dbm_potential d)"
proof -
  let ?W = "weight (dbm_g d)" and ?p = "dbm_potential d"
  let ?U = "with_edge ?W src w dest"
  note D = dbm_okD [OF ok] and G = holdsD [OF g] and B = dbm_withinD [OF within(1)]
  have b0: "0 \<le> b" using within(3) by linarith
  have pres: "presents (adapt_view g) {v. live g v} ?U"
    using presents_adapt [OF G(1)] G(4) by simp
  have wU: "weights_within b ?U" using B(1) within(3) by (auto simp: weights_within_def)
  have "repairable (adapt_view g) ?p {v. live g v} ?U src dest"
    unfolding repairable_def
  proof (intro conjI ballI allI impI)
    show "?p ! t - ?p ! s \<le> v" if "?U s t = Some v" "(s, t) \<noteq> (src, dest)" for s t v
      using solves_edge [OF D(4)] that by (auto split: if_splits)
    show "weights_within (2 ^ 120) ?U" by (rule weights_within_mono [OF wU within(2)])
  qed (use pres D(3) B(2) within(2) G(2) in fastforce)+
  then obtain r p' sc' where r: "repair_potential sc (adapt_view g) ?p src dest = Some (r, p', sc')" "scratch_ok sc'"
    "length p' = length ?p" "r \<longleftrightarrow> (\<exists>\<sigma>. solves \<sigma> ?U)" "r \<longrightarrow> solves (\<lambda>v. p' ! v) ?U"
    "\<forall>v. live g v \<longrightarrow> ?p ! v + min 0 (?p ! src + the (?U src dest) - ?p ! dest) \<le> p' ! v \<and> p' ! v \<le> ?p ! v"
    "\<forall>v. \<not> live g v \<longrightarrow> p' ! v = ?p ! v"
    using repair_potential_spec [OF _ sc, of "adapt_view g" ?p "{v. live g v}" ?U src dest] by auto
  let ?d = "d\<lparr>dbm_g := g, dbm_potential := p'\<rparr>"
  have run: "repair_with sc src dest (d\<lparr>dbm_g := g\<rparr>) = Some (r, ?d, sc')"
    using r(1) by (simp add: repair_with_def)
  have sol: "dbm_holds \<sigma> ?d \<longleftrightarrow> dbm_holds \<sigma> d \<and> \<sigma> dest - \<sigma> src \<le> w" for \<sigma>
    using G(4) solves_set_tighter [of ?W src dest w \<sigma>] tight by (simp add: dbm_holds_def)
  have "\<bar>p' ! v\<bar> \<le> 4 * b" if "live g v" for v
  proof -
    have "?p ! v + min 0 (?p ! src + w - ?p ! dest) \<le> p' ! v" "p' ! v \<le> ?p ! v"
      using r(6) that by auto
    then show ?thesis
      using B(2) [of v] B(2) [OF ends(1)] B(2) [OF ends(2)] within(3) G(2) that by (simp add: min_def split: if_splits)
  qed
  then have "r \<longrightarrow> dbm_ok ?d \<and> dbm_within (4 * b) ?d"
    using D r G weights_within_mono [OF wU, of "4 * b"] b0 by (auto simp: dbm_ok_def dbm_within_def)
  moreover have "r \<longleftrightarrow> (\<exists>\<sigma>. dbm_holds \<sigma> d \<and> \<sigma> dest - \<sigma> src \<le> w)"
    using r(4) sol G(4) by (simp add: dbm_holds_def)
  moreover have "p' = ?p" if still: "?p ! dest - ?p ! src \<le> w"
  proof (rule nth_equalityI [OF r(3)])
    fix v assume "v < length p'"
    show "p' ! v = ?p ! v"
      using r(6,7) still by (cases "live g v") (auto simp: min_def dest!: spec [of _ v])
  qed
  moreover have "same_shape d ?d" using G(2,3) r(3) by (simp add: same_shape_def)
  ultimately show ?thesis using run r(2) sol by (intro exI [of _ r] exI [of _ ?d] exI [of _ sc']) simp
qed

lemma dbm_holds_weights: "dbm_ok d \<Longrightarrow> holds_weights (dbm_g d) (live (dbm_g d)) (graph_size (dbm_g d)) (weight (dbm_g d))"
  by (simp add: holds_weights_def dbm_okD)

text \<open>The contract of an operation that adds the constraint \<open>dest - src \<le> k\<close>.\<close>

definition adds_constraint :: "int \<Rightarrow> split_dbm \<Rightarrow> nat \<Rightarrow> nat \<Rightarrow> int \<Rightarrow> (bool \<times> split_dbm) option \<Rightarrow> bool" where
  "adds_constraint b d src dest k res \<longleftrightarrow> (\<exists>r d'. res = Some (r, d') \<and>
     (r \<longleftrightarrow> (\<exists>\<sigma>. dbm_holds \<sigma> d \<and> \<sigma> dest - \<sigma> src \<le> k)) \<and>
     (r \<longrightarrow> dbm_ok d' \<and> same_shape d d' \<and> dbm_within b d' \<and>
        (\<forall>\<sigma>. dbm_holds \<sigma> d' \<longleftrightarrow> dbm_holds \<sigma> d \<and> \<sigma> dest - \<sigma> src \<le> k)))"

lemma adds_constraint_entailed:
  assumes "dbm_ok d" "dbm_within b d" "\<And>\<sigma>. dbm_holds \<sigma> d \<Longrightarrow> \<sigma> dest - \<sigma> src \<le> k"
  shows "adds_constraint b d src dest k (Some (True, d))"
  using assms dbm_okD(4) [OF assms(1)] same_shape_refl unfolding adds_constraint_def dbm_holds_def by blast

lemma repair_after_set_new:
  assumes "dbm_ok d" "dbm_within b d" "b \<le> 2 ^ 120" "\<bar>w\<bar> \<le> b"
    "holds_weights g (live (dbm_g d)) (graph_size (dbm_g d)) (with_edge (weight (dbm_g d)) src w dest)"
    "live (dbm_g d) src" "live (dbm_g d) dest"
    "\<And>v. weight (dbm_g d) src dest = Some v \<Longrightarrow> w \<le> v"
  shows "\<exists>r d'. dbm_repair_potential src dest (d\<lparr>dbm_g := g\<rparr>) = Some (r, d') \<and> dbm_g d' = g \<and> same_shape d d' \<and>
    (r \<longleftrightarrow> (\<exists>\<sigma>. dbm_holds \<sigma> d \<and> \<sigma> dest - \<sigma> src \<le> w)) \<and>
    (\<forall>\<sigma>. dbm_holds \<sigma> d' \<longleftrightarrow> dbm_holds \<sigma> d \<and> \<sigma> dest - \<sigma> src \<le> w) \<and>
    (r \<longrightarrow> dbm_ok d' \<and> dbm_within (4 * b) d')"
  using repair_after_set [OF assms scratch_new_ok] by (auto simp: dbm_repair_potential_def)

lemma set_edge_repair:
  assumes ok: "dbm_ok d" "dbm_within b d" "b \<le> 2 ^ 120" "\<bar>w\<bar> \<le> b" and ends: "live (dbm_g d) src" "live (dbm_g d) dest"
    and tight: "\<And>v. weight (dbm_g d) src dest = Some v \<Longrightarrow> w \<le> v"
  shows "adds_constraint (4 * b) d src dest w
    (do { g \<leftarrow> set_edge src w dest (dbm_g d); dbm_repair_potential src dest (d\<lparr>dbm_g := g\<rparr>) })"
proof -
  obtain g where g: "set_edge src w dest (dbm_g d) = Some g"
    "holds_weights g (live (dbm_g d)) (graph_size (dbm_g d)) (with_edge (weight (dbm_g d)) src w dest)"
    using holds_set [OF dbm_holds_weights [OF ok(1)] ends] by blast
  from repair_after_set_new [OF ok g(2) ends tight] show ?thesis
    using g(1) by (auto simp: adds_constraint_def)
qed

lemma num_neg_small: "\<bar>x\<bar> \<le> 2 ^ 120 \<Longrightarrow> num_neg x = Some (- x)"
  unfolding num_neg_def by (intro chk_i128_ok in_i128_small) (auto simp: abs_le_iff)

definition bound_constraint :: "nat \<Rightarrow> side \<Rightarrow> int \<Rightarrow> nat \<times> nat \<times> int" where
  "bound_constraint v sd b = (case sd of Left \<Rightarrow> (v, 0, - b) | Right \<Rightarrow> (0, v, b))"

lemma dbm_lookup:
  assumes "dbm_ok d" "live (dbm_g d) s"
  shows "graph_lookup (dbm_g d) s t = Some (weight (dbm_g d) s t)"
  using holds_lookup [OF dbm_holds_weights [OF assms(1)]] live_graph_size [OF assms(2)] by blast

lemma update_bound_if_tighter_spec:
  assumes ok: "dbm_ok d" "dbm_within b d" "b \<le> 2 ^ 120" "\<bar>x\<bar> \<le> b" and v: "live (dbm_g d) v"
    and c: "bound_constraint v sd x = (src, dest, k)"
  shows "adds_constraint (4 * b) d src dest k (update_bound_if_tighter v sd x d)"
proof -
  have z: "live (dbm_g d) 0" by (rule dbm_okD(2) [OF ok(1)])
  have ends: "live (dbm_g d) src" "live (dbm_g d) dest" and k: "\<bar>k\<bar> \<le> b"
    using c v z ok(4) by (auto simp: bound_constraint_def split: side.splits)
  have n: "num_neg x = Some (- x)" using num_neg_small ok(3,4) by force
  have run: "update_bound_if_tighter v sd x d =
      (if (case weight (dbm_g d) src dest of Some w \<Rightarrow> w \<le> k | None \<Rightarrow> False) then Some (True, d)
       else do { g \<leftarrow> set_edge src k dest (dbm_g d); dbm_repair_potential src dest (d\<lparr>dbm_g := g\<rparr>) })"
    using c n dbm_lookup [OF ok(1) z] dbm_lookup [OF ok(1) v]
    by (auto simp: update_bound_if_tighter_def bound_constraint_def split: side.splits)
  show ?thesis
  proof (cases "case weight (dbm_g d) src dest of Some w \<Rightarrow> w \<le> k | None \<Rightarrow> False")
    case True
    then obtain w where w: "weight (dbm_g d) src dest = Some w" "w \<le> k" by (auto split: option.splits)
    have "\<sigma> dest - \<sigma> src \<le> k" if "dbm_holds \<sigma> d" for \<sigma>
      using solves_edge [of \<sigma> "weight (dbm_g d)" src dest w] w that by (force simp: dbm_holds_def)
    moreover have "dbm_within (4 * b) d" by (rule dbm_within_mono [OF ok(2)]) (use ok(4) in linarith)
    ultimately show ?thesis using adds_constraint_entailed [OF ok(1)] unfolding run if_P [OF True] by blast
  next
    case False
    have "k \<le> w" if "weight (dbm_g d) src dest = Some w" for w using False that by simp
    then show ?thesis unfolding run if_not_P [OF False] using set_edge_repair [OF ok(1-3) k ends] by blast
  qed
qed

lemma add_difference_constraint_spec:
  assumes ok: "dbm_ok d" "dbm_within b d" "b \<le> 2 ^ 118" "\<bar>k\<bar> \<le> b" and ends: "live (dbm_g d) src" "live (dbm_g d) dest"
    and nz: "src \<noteq> 0" "dest \<noteq> 0"
  shows "adds_constraint (12 * b) d src dest k (add_difference_constraint src dest k d)"
proof -
  let ?W = "weight (dbm_g d)"
  let ?w = "tighter (?W src dest) k"
  obtain g where g: "update_edge src k dest (dbm_g d) = Some g"
    "holds_weights g (live (dbm_g d)) (graph_size (dbm_g d)) (with_edge ?W src ?w dest)"
    using holds_update [OF dbm_holds_weights [OF ok(1)] ends] by blast
  have w: "\<bar>?w\<bar> \<le> b" "\<And>v. ?W src dest = Some v \<Longrightarrow> ?w \<le> v"
    using ok(4) weights_withinD [OF dbm_withinD(1) [OF ok(2)], of src dest]
    by (auto simp: tighter_def min_def split: option.splits)
  have sem: "dbm_holds \<sigma> d \<and> \<sigma> dest - \<sigma> src \<le> ?w \<longleftrightarrow> dbm_holds \<sigma> d \<and> \<sigma> dest - \<sigma> src \<le> k" for \<sigma>
    using solves_tighter [of \<sigma> ?W src dest k] solves_set_tighter [of ?W src dest ?w \<sigma>] w(2) by (simp add: dbm_holds_def)
  have b: "b \<le> 2 ^ 120" using ok(3) by simp
  obtain r d' where r: "dbm_repair_potential src dest (d\<lparr>dbm_g := g\<rparr>) = Some (r, d')" "dbm_g d' = g"
    "r \<longleftrightarrow> (\<exists>\<sigma>. dbm_holds \<sigma> d \<and> \<sigma> dest - \<sigma> src \<le> k)"
    "\<And>\<sigma>. dbm_holds \<sigma> d' \<longleftrightarrow> dbm_holds \<sigma> d \<and> \<sigma> dest - \<sigma> src \<le> k"
    "r \<longrightarrow> dbm_ok d' \<and> dbm_within (4 * b) d'" "same_shape d d'"
    using repair_after_set_new [OF ok(1,2) b w(1) g(2) ends w(2)] unfolding sem by blast
  show ?thesis
  proof (cases r)
    case False
    then have "add_difference_constraint src dest k d = Some (False, d')"
      using g(1) r(1) by (simp add: add_difference_constraint_def)
    then show ?thesis using r(3) False unfolding adds_constraint_def by blast
  next
    case True
    have ok': "dbm_ok d'" "dbm_within (4 * b) d'" using r(5) True by auto
    have edge: "weight (dbm_g d') src dest = Some ?w" using holdsD(4) [OF g(2)] r(2) by simp
    have b4: "4 * b \<le> 2 ^ 120" using ok(3) by simp
    obtain g' U where c: "close_over_edge src dest (dbm_g d') = Some g'"
      "holds_weights g' (live (dbm_g d')) (graph_size (dbm_g d')) U" "tightens (weight (dbm_g d')) U"
      "weights_within (3 * (4 * b)) U"
      using close_over_edge_spec [OF dbm_holds_weights [OF ok'(1)] edge nz dbm_withinD(1) [OF ok'(2)] b4] by blast
    let ?d = "d'\<lparr>dbm_g := g'\<rparr>"
    have run: "add_difference_constraint src dest k d = Some (True, ?d)"
      using g(1) r(1) True c(1) by (simp add: add_difference_constraint_def)
    have hold: "dbm_holds \<sigma> ?d \<longleftrightarrow> dbm_holds \<sigma> d'" for \<sigma>
      using tightens_solves [OF c(3)] holdsD(4) [OF c(2)] by (simp add: dbm_holds_def)
    have "dbm_ok ?d"
      using dbm_okD [OF ok'(1)] holdsD [OF c(2)] tightens_solves [OF c(3)] by (auto simp: dbm_ok_def)
    moreover have "same_shape d ?d"
      using same_shape_trans [OF r(6), of ?d] holdsD(2,3) [OF c(2)] by (simp add: same_shape_def)
    moreover have "dbm_within (12 * b) ?d"
      using c(4) holdsD [OF c(2)] dbm_withinD(2) [OF ok'(2)] ok(4) by (fastforce simp: dbm_within_def)
    ultimately show ?thesis using run hold r(3,4) True unfolding adds_constraint_def by blast
  qed
qed

subsection \<open>Strengthening a bound\<close>

text \<open>
  \<open>strengthen_bound\<close> only tightens a bound that is there.  Its propagation adds consequences, so
  it cannot fail and does not move the potential.
\<close>

lemma propagate_spec:
  assumes "dbm_ok d" "dbm_within b d" "b \<le> 2 ^ 116" "scratch_ok sc" "\<bar>bound\<bar> \<le> b"
    and "\<And>u w. (u, w) \<in> set es \<Longrightarrow> \<bar>w\<bar> \<le> b \<and> live (dbm_g d) (from u) \<and> live (dbm_g d) (to u) \<and>
      (\<forall>\<sigma>. dbm_holds \<sigma> d \<longrightarrow> \<sigma> (to u) - \<sigma> (from u) \<le> w + bound)"
  shows "\<exists>d'. propagate from to bound es sc d = Some (True, d') \<and> dbm_ok d' \<and> same_shape d d' \<and> dbm_within (2 * b) d' \<and>
    (\<forall>\<sigma>. dbm_holds \<sigma> d' \<longleftrightarrow> dbm_holds \<sigma> d)"
proof -
  have "\<exists>d'. propagate from to bound es sc e = Some (True, d') \<and> dbm_ok d' \<and> same_shape d d' \<and> dbm_within (2 * b) d' \<and>
    (\<forall>\<sigma>. dbm_holds \<sigma> d' \<longleftrightarrow> dbm_holds \<sigma> d)"
    if "dbm_ok e" "dbm_potential e = dbm_potential d" "same_shape d e" "scratch_ok sc"
      "weights_within (2 * b) (weight (dbm_g e))" "\<forall>\<sigma>. dbm_holds \<sigma> e \<longleftrightarrow> dbm_holds \<sigma> d" for e
    using that assms(6)
  proof (induction es arbitrary: e sc)
    case (Cons x es)
    obtain u w where x: "x = (u, w)" by (cases x)
    note P = Cons.prems
    have e: "\<bar>w\<bar> \<le> b" "live (dbm_g d) (from u)" "live (dbm_g d) (to u)"
      "\<And>\<sigma>. dbm_holds \<sigma> d \<Longrightarrow> \<sigma> (to u) - \<sigma> (from u) \<le> w + bound"
      using P(7) [of u w] x by auto
    have lve: "live (dbm_g e) = live (dbm_g d)" using P(3) by (simp add: same_shape_def)
    have b: "\<bar>w + bound\<bar> \<le> 2 * b" using e(1) assms(5) by linarith
    have add: "num_add w bound = Some (w + bound)" by (rule num_add_small [OF e(1)]) (use assms(3,5) in simp)
    let ?W = "weight (dbm_g e)" let ?s = "from u" and ?t = "to u"
    let ?w = "tighter (?W ?s ?t) (w + bound)"
    have ends: "live (dbm_g e) ?s" "live (dbm_g e) ?t" using e(2,3) lve by auto
    obtain g where g: "update_edge ?s (w + bound) ?t (dbm_g e) = Some g"
      "holds_weights g (live (dbm_g e)) (graph_size (dbm_g e)) (with_edge ?W ?s ?w ?t)"
      using holds_update [OF dbm_holds_weights [OF P(1)] ends] by blast
    have w: "\<bar>?w\<bar> \<le> 2 * b" "\<And>v. ?W ?s ?t = Some v \<Longrightarrow> ?w \<le> v"
      using b weights_withinD [OF P(5), of ?s ?t] by (auto simp: tighter_def min_def split: option.splits)
    have sem: "dbm_holds \<sigma> e \<and> \<sigma> ?t - \<sigma> ?s \<le> ?w \<longleftrightarrow> dbm_holds \<sigma> d" for \<sigma>
      using solves_tighter [of \<sigma> ?W ?s ?t "w + bound"] solves_set_tighter [of ?W ?s ?t ?w \<sigma>] w(2) e(4) P(6)
      by (auto simp: dbm_holds_def)
    have within: "dbm_within (2 * b) e" "2 * b \<le> 2 ^ 120"
      using P(2,5) lve dbm_withinD(2) [OF assms(2)] assms(3,5) by (fastforce simp: dbm_within_def)+
    obtain r d' sc' where r: "repair_with sc ?s ?t (e\<lparr>dbm_g := g\<rparr>) = Some (r, d', sc')" "scratch_ok sc'" "dbm_g d' = g"
      "same_shape e d'"
      "r \<longleftrightarrow> (\<exists>\<sigma>. dbm_holds \<sigma> d)" "\<And>\<sigma>. dbm_holds \<sigma> d' \<longleftrightarrow> dbm_holds \<sigma> d" "r \<longrightarrow> dbm_ok d'"
      "dbm_potential e ! ?t - dbm_potential e ! ?s \<le> ?w \<longrightarrow> dbm_potential d' = dbm_potential e"
      using repair_after_set [OF P(1) within w(1) g(2) ends w(2) P(4)] unfolding sem by blast
    have r': r using r(5) dbm_okD(4) [OF assms(1)] by (auto simp: dbm_holds_def)
    have "dbm_potential d ! ?t - dbm_potential d ! ?s \<le> ?w"
      using sem [of "\<lambda>v. dbm_potential d ! v"] dbm_okD(4) [OF assms(1)] by (simp add: dbm_holds_def)
    then have pot: "dbm_potential d' = dbm_potential d" using r(8) P(2) by simp
    have wd: "weights_within (2 * b) (weight (dbm_g d'))"
      using P(5) w(1) holdsD(4) [OF g(2)] r(3) by (auto simp: weights_within_def)
    have lv: "same_shape d d'" by (rule same_shape_trans [OF P(3) r(4)])
    have "\<exists>d''. propagate from to bound es sc' d' = Some (True, d'') \<and> dbm_ok d'' \<and> same_shape d d'' \<and> dbm_within (2 * b) d'' \<and>
        (\<forall>\<sigma>. dbm_holds \<sigma> d'' \<longleftrightarrow> dbm_holds \<sigma> d)"
      by (rule Cons.IH) (use r r' pot wd lv P(7) in auto)
    then show ?case using x add g(1) r(1) r' by simp
  next
    case Nil
    then show ?case using dbm_withinD(2) [OF assms(2)] assms(5) by (fastforce simp: dbm_within_def same_shape_def)
  qed
  then show ?thesis using assms dbm_withinD(1) [OF assms(2)] weights_within_mono [of b _ "2 * b"] by force
qed

definition strengthens :: "int \<Rightarrow> split_dbm \<Rightarrow> nat \<Rightarrow> nat \<Rightarrow> int \<Rightarrow> (bool \<times> split_dbm) option \<Rightarrow> bool" where
  "strengthens b d src dest k res \<longleftrightarrow>
     (if weight (dbm_g d) src dest = None then res = Some (True, d) else adds_constraint b d src dest k res)"

text \<open>The neighbours of \<open>v\<close> whose bound follows from that of \<open>v\<close>: predecessors for a lower bound, successors for an upper.\<close>

lemma strengthen_bound_spec:
  assumes ok: "dbm_ok d" "dbm_within b d" "b \<le> 2 ^ 114" "\<bar>x\<bar> \<le> b" and v: "live (dbm_g d) v"
    and c: "bound_constraint v sd x = (src, dest, k)"
  shows "strengthens (8 * b) d src dest k (strengthen_bound v sd x d)"
proof -
  have z: "live (dbm_g d) 0" by (rule dbm_okD(2) [OF ok(1)])
  have ends: "live (dbm_g d) src" "live (dbm_g d) dest" and k: "\<bar>k\<bar> \<le> b"
    using c v z ok(4) by (auto simp: bound_constraint_def split: side.splits)
  have n: "num_neg x = Some (- x)" using num_neg_small [of x] ok(3,4) by force
  let ?W = "weight (dbm_g d)"
  let ?rest = "\<lambda>sc d. (case sd of
      Left \<Rightarrow> do { preds \<leftarrow> e_preds (dbm_g d) v;
                   propagate (\<lambda>u. u) (\<lambda>u. 0) (- x) (filter (\<lambda>e. fst e \<noteq> 0) preds) sc d }
    | Right \<Rightarrow> do { succs \<leftarrow> e_succs (dbm_g d) v;
                    propagate (\<lambda>u. 0) (\<lambda>u. u) x (filter (\<lambda>e. fst e \<noteq> 0) succs) sc d })"
  have run: "strengthen_bound v sd x d =
      (if (case ?W src dest of None \<Rightarrow> True | Some w \<Rightarrow> k \<ge> w) then Some (True, d)
       else do {
         g \<leftarrow> set_edge src k dest (dbm_g d);
         (r, d, sc) \<leftarrow> repair_with scratch_new src dest (d\<lparr>dbm_g := g\<rparr>);
         if \<not> r then Some (False, d) else ?rest sc d })"
    using c n dbm_lookup [OF ok(1) z] dbm_lookup [OF ok(1) v]
    by (cases sd) (auto simp: strengthen_bound_def bound_constraint_def cong del: if_weak_cong)
  show ?thesis
  proof (cases "case ?W src dest of None \<Rightarrow> True | Some w \<Rightarrow> k \<ge> w")
    case True
    have "\<sigma> dest - \<sigma> src \<le> k" if "dbm_holds \<sigma> d" "?W src dest \<noteq> None" for \<sigma>
      using solves_edge [of \<sigma> ?W src dest] that True by (auto simp: dbm_holds_def)
    then show ?thesis
      using adds_constraint_entailed [OF ok(1) dbm_within_mono [OF ok(2)], of "8 * b"] ok(4) unfolding run if_P [OF True] strengthens_def by auto
  next
    case False
    then obtain w where w: "?W src dest = Some w" "k < w" by (auto split: option.splits)
    obtain g where g: "set_edge src k dest (dbm_g d) = Some g"
      "holds_weights g (live (dbm_g d)) (graph_size (dbm_g d)) (with_edge ?W src k dest)"
      using holds_set [OF dbm_holds_weights [OF ok(1)] ends] by blast
    have tight: "k \<le> u" if "?W src dest = Some u" for u using w that by simp
    have b: "b \<le> 2 ^ 120" using ok(3) by simp
    obtain r d' sc where r: "repair_with scratch_new src dest (d\<lparr>dbm_g := g\<rparr>) = Some (r, d', sc)" "scratch_ok sc"
      "dbm_g d' = g" "r \<longleftrightarrow> (\<exists>\<sigma>. dbm_holds \<sigma> d \<and> \<sigma> dest - \<sigma> src \<le> k)"
      "\<And>\<sigma>. dbm_holds \<sigma> d' \<longleftrightarrow> dbm_holds \<sigma> d \<and> \<sigma> dest - \<sigma> src \<le> k" "r \<longrightarrow> dbm_ok d' \<and> dbm_within (4 * b) d'" "same_shape d d'"
      using repair_after_set [OF ok(1,2) b k g(2) ends tight scratch_new_ok] by blast
    show ?thesis
    proof (cases r)
      case no: False
      then have "strengthen_bound v sd x d = Some (False, d')" unfolding run if_not_P [OF False] using g(1) r(1) by simp
      then show ?thesis using r(4) no w(1) unfolding strengthens_def adds_constraint_def by auto
    next
      case True
      have ok': "dbm_ok d'" "dbm_within (4 * b) d'" using r(6) True by auto
      have lv: "live (dbm_g d') = live (dbm_g d)" using holdsD(2) [OF g(2)] r(3) by simp
      have vn: "v < graph_size (dbm_g d')" using live_graph_size [of "dbm_g d'" v] v lv by simp
      have edge: "\<bar>u\<bar> \<le> 4 * b \<and> live (dbm_g d) s \<and> live (dbm_g d) t \<and> (\<forall>\<sigma>. dbm_holds \<sigma> d' \<longrightarrow> \<sigma> t - \<sigma> s \<le> u)"
        if "weight (dbm_g d') s t = Some u" for s t u
        using weights_withinD [OF dbm_withinD(1) [OF ok'(2)] that] weight_live [OF dbm_okD(1) [OF ok'(1)] that] lv
          solves_edge [of _ "weight (dbm_g d')", OF _ that] by (auto simp: dbm_holds_def)
      have bound: "\<sigma> dest - \<sigma> src \<le> k" if "dbm_holds \<sigma> d'" for \<sigma> using r(5) that by blast
      have fin: "\<exists>e. ?rest sc d' = Some (True, e) \<and> dbm_ok e \<and> same_shape d' e \<and> dbm_within (2 * (4 * b)) e \<and>
          (\<forall>\<sigma>. dbm_holds \<sigma> e \<longleftrightarrow> dbm_holds \<sigma> d')"
      proof (cases sd)
        case Left
        obtain ps where ps: "e_preds (dbm_g d') v = Some ps" "lists_edges ps (\<lambda>s. weight (dbm_g d') s v)"
          using holds_e_preds [OF dbm_holds_weights [OF ok'(1)] vn] by blast
        have "\<bar>u\<bar> \<le> 4 * b \<and> live (dbm_g d') s \<and> live (dbm_g d') 0 \<and>
            (\<forall>\<sigma>. dbm_holds \<sigma> d' \<longrightarrow> \<sigma> 0 - \<sigma> s \<le> u + - x)" if "(s, u) \<in> set (filter (\<lambda>e. fst e \<noteq> 0) ps)" for s u
        proof -
          have "weight (dbm_g d') s v = Some u" using that ps(2) by (simp add: lists_edges_def)
          then show ?thesis using edge [of s v u] bound c Left z lv by (force simp: bound_constraint_def)
        qed
        then have "\<exists>e. propagate (\<lambda>u. u) (\<lambda>u. 0) (- x) (filter (\<lambda>e. fst e \<noteq> 0) ps) sc d' = Some (True, e) \<and> dbm_ok e \<and>
            same_shape d' e \<and> dbm_within (2 * (4 * b)) e \<and> (\<forall>\<sigma>. dbm_holds \<sigma> e \<longleftrightarrow> dbm_holds \<sigma> d')"
          by (intro propagate_spec [OF ok' _ r(2)]) (use ok(3,4) in auto)
        then show ?thesis using Left ps(1) by simp
      next
        case Right
        obtain es where es: "e_succs (dbm_g d') v = Some es" "lists_edges es (weight (dbm_g d') v)"
          using holds_e_succs [OF dbm_holds_weights [OF ok'(1)] vn] by blast
        have "\<bar>u\<bar> \<le> 4 * b \<and> live (dbm_g d') 0 \<and> live (dbm_g d') t \<and>
            (\<forall>\<sigma>. dbm_holds \<sigma> d' \<longrightarrow> \<sigma> t - \<sigma> 0 \<le> u + x)" if "(t, u) \<in> set (filter (\<lambda>e. fst e \<noteq> 0) es)" for t u
        proof -
          have "weight (dbm_g d') v t = Some u" using that es(2) by (simp add: lists_edges_def)
          then show ?thesis using edge [of v t u] bound c Right z lv by (force simp: bound_constraint_def)
        qed
        then have "\<exists>e. propagate (\<lambda>u. 0) (\<lambda>u. u) x (filter (\<lambda>e. fst e \<noteq> 0) es) sc d' = Some (True, e) \<and> dbm_ok e \<and>
            same_shape d' e \<and> dbm_within (2 * (4 * b)) e \<and> (\<forall>\<sigma>. dbm_holds \<sigma> e \<longleftrightarrow> dbm_holds \<sigma> d')"
          by (intro propagate_spec [OF ok' _ r(2)]) (use ok(3,4) in auto)
        then show ?thesis using Right es(1) by simp
      qed
      then obtain e where e: "?rest sc d' = Some (True, e)" "dbm_ok e" "same_shape d e" "dbm_within (8 * b) e"
        "\<And>\<sigma>. dbm_holds \<sigma> e \<longleftrightarrow> dbm_holds \<sigma> d'" using same_shape_trans [OF r(7)] by fastforce
      have "strengthen_bound v sd x d = Some (True, e)" unfolding run if_not_P [OF False] using g(1) r(1) True e(1) by simp
      then show ?thesis using e(2-5) r(4,5) True w(1) unfolding strengthens_def adds_constraint_def by auto
    qed
  qed
qed

subsection \<open>Closures\<close>

text \<open>An operation that keeps the solutions and the invariant.\<close>

definition keeps_solutions :: "split_dbm \<Rightarrow> split_dbm \<Rightarrow> bool" where
  "keeps_solutions d d' \<longleftrightarrow> dbm_ok d' \<and> live (dbm_g d') = live (dbm_g d) \<and> graph_size (dbm_g d') = graph_size (dbm_g d) \<and>
     dbm_potential d' = dbm_potential d \<and>
     (\<forall>\<sigma>. dbm_holds \<sigma> d' \<longleftrightarrow> dbm_holds \<sigma> d)"

lemma keeps_solutions_refl: "dbm_ok d \<Longrightarrow> keeps_solutions d d"
  by (simp add: keeps_solutions_def)

lemma keeps_solutions_trans: "keeps_solutions a b \<Longrightarrow> keeps_solutions b c \<Longrightarrow> keeps_solutions a c"
  by (simp add: keeps_solutions_def)

lemma apply_delta_within:
  assumes "holds_weights g L n W" "weights_within b W" "\<forall>(s, d, w)\<in>set delta. L s \<and> L d \<and> \<bar>w\<bar> \<le> b"
  shows "\<exists>g' W'. apply_delta delta g = Some g' \<and> holds_weights g' L n W' \<and> weights_within b W'"
proof -
  have "\<exists>t. for_each (\<lambda>(s, d, w) g. set_edge s w d g) delta g = Some t \<and>
      (\<exists>U. holds_weights t L n U \<and> weights_within b U)"
  proof (rule for_each_inv)
    fix x g assume x: "x \<in> set delta" "\<exists>U. holds_weights g L n U \<and> weights_within b U"
    obtain s d w where sdw: "x = (s, d, w)" by (cases x)
    obtain U where U: "holds_weights g L n U" "weights_within b U" using x(2) by blast
    have e: "L s" "L d" "\<bar>w\<bar> \<le> b" using assms(3) x(1) sdw by auto
    obtain g' where "set_edge s w d g = Some g'" "holds_weights g' L n (with_edge U s w d)"
      using holds_set [OF U(1) e(1,2)] by blast
    moreover have "weights_within b (with_edge U s w d)" using U(2) e(3) by (auto simp: weights_within_def)
    ultimately show "\<exists>t. (case x of (s, d, w) \<Rightarrow> set_edge s w d) g = Some t \<and> (\<exists>U. holds_weights t L n U \<and> weights_within b U)"
      using sdw by auto
  qed (use assms(1,2) in blast)
  then show ?thesis by (auto simp: apply_delta_def)
qed

lemma dbm_apply_delta_spec:
  assumes ok: "dbm_ok d" and delta: "delta_ok (live (dbm_g d)) (weight (dbm_g d)) delta"
  shows "\<exists>d'. dbm_apply_delta delta d = Some d' \<and> keeps_solutions d d' \<and> dbm_unstable d' = dbm_unstable d \<and>
    (\<forall>b. dbm_within b d \<longrightarrow> (\<forall>(s, t, w)\<in>set delta. \<bar>w\<bar> \<le> b) \<longrightarrow> dbm_within b d')"
proof -
  obtain g W where g: "apply_delta delta (dbm_g d) = Some g" "holds_weights g (live (dbm_g d)) (graph_size (dbm_g d)) W"
    "tightens (weight (dbm_g d)) W"
    using apply_delta_spec [OF dbm_holds_weights [OF ok] delta] by blast
  let ?d = "d\<lparr>dbm_g := g\<rparr>"
  have "dbm_within b ?d" if b: "dbm_within b d" "\<forall>(s, t, w)\<in>set delta. \<bar>w\<bar> \<le> b" for b
  proof -
    have "\<forall>(s, t, w)\<in>set delta. live (dbm_g d) s \<and> live (dbm_g d) t \<and> \<bar>w\<bar> \<le> b"
      using b(2) delta unfolding delta_ok_def by fast
    from apply_delta_within [OF dbm_holds_weights [OF ok] dbm_withinD(1) [OF b(1)] this]
    obtain U where "holds_weights g (live (dbm_g d)) (graph_size (dbm_g d)) U" "weights_within b U" using g(1) by auto
    then show ?thesis using b(1) by (simp add: dbm_within_def holds_weights_def)
  qed
  moreover have "keeps_solutions d ?d"
    using ok holdsD [OF g(2)] tightens_solves [OF g(3)] by (simp add: keeps_solutions_def dbm_ok_def dbm_holds_def)
  ultimately show ?thesis using g(1) by (simp add: dbm_apply_delta_def)
qed

lemma dbm_closable:
  assumes "dbm_ok d" "dbm_within (2 ^ 100) d"
  shows "closable (adapt_view (dbm_g d)) {v. live (dbm_g d) v} (weight (dbm_g d)) (pot_func (dbm_potential d))"
  using presents_adapt [OF dbm_okD(1) [OF assms(1)]] dbm_okD(3) [OF assms(1)] dbm_withinD [OF assms(2)]
  by (auto simp: closable_def pot_func_def)

lemma weights_within_without: "weights_within b W \<Longrightarrow> weights_within b (without W v)"
  by (auto simp: weights_within_def without_def)

lemma solves_without: "solves \<sigma> W \<Longrightarrow> solves \<sigma> (without W v)"
  by (auto simp: solves_def without_def)

lemma dbm_closable_sub:
  assumes "dbm_ok d" "dbm_within (2 ^ 100) d"
  shows "closable (sub_view (dbm_g d) v) {u. live (dbm_g d) u \<and> u \<noteq> v} (without (weight (dbm_g d)) v) (pot_func (dbm_potential d))"
  using presents_sub [OF dbm_okD(1) [OF assms(1)]] dbm_okD(3) [OF assms(1)] dbm_withinD [OF assms(2)]
  by (auto simp: closable_def pot_func_def weights_within_without)

lemma dbm_dij_setup:
  assumes "dbm_ok d" "dbm_within (2 ^ 78) d"
  shows "dij_setup (sub_view (dbm_g d) v) {u. live (dbm_g d) u \<and> u \<noteq> v} (without (weight (dbm_g d)) v)
    (pot_func (dbm_potential d)) (\<lambda>u. dbm_potential d ! u)"
  using presents_sub [OF dbm_okD(1) [OF assms(1)]] dbm_okD(3,4) [OF assms(1)] dbm_withinD [OF assms(2)]
  by (auto simp: dij_setup_def pot_func_def weights_within_without solves_without)

text \<open>A batch that is sound for the graph without a vertex is sound for the whole graph.\<close>

lemma delta_ok_without:
  assumes "delta_ok (\<lambda>u. u \<in> {u. L u \<and> u \<noteq> v}) (without W v) delta"
  shows "delta_ok L W delta"
proof -
  have "entails W s d w" if "entails (without W v) s d w" for s d w
    using that solves_without unfolding entails_def by blast
  moreover have "without W v s d = W s d" if "s \<noteq> v" "d \<noteq> v" for s d using that by (simp add: without_def)
  ultimately show ?thesis using assms unfolding delta_ok_def by fastforce
qed

lemma bound_delta:
  assumes "dbm_ok d" "dbm_within (2 ^ 100) d" "scratch_ok sc"
  shows "\<exists>sc' delta. close_after_assign sc (adapt_view (dbm_g d)) (pot_func (dbm_potential d)) 0 = Some (sc', delta) \<and>
    delta_ok (live (dbm_g d)) (weight (dbm_g d)) delta \<and> (\<forall>(s, t, w)\<in>set delta. \<bar>w\<bar> \<le> 2 ^ 117)"
proof -
  have z: "0 \<in> {v. live (dbm_g d) v}" using dbm_okD(2) [OF assms(1)] by simp
  obtain sc' delta where "close_after_assign sc (adapt_view (dbm_g d)) (pot_func (dbm_potential d)) 0 = Some (sc', delta)"
    "delta_ok (\<lambda>u. u \<in> {v. live (dbm_g d) v}) (weight (dbm_g d)) delta" "\<forall>(s, t, w)\<in>set delta. \<bar>w\<bar> \<le> 2 ^ 117"
    using close_after_assign_spec [OF dbm_closable [OF assms(1,2)] assms(3) z] by blast
  then show ?thesis by (simp only: mem_Collect_eq) blast
qed

lemma close_after_bound_updates_spec:
  assumes "dbm_ok d" "dbm_within (2 ^ 100) d"
  shows "\<exists>d'. close_after_bound_updates d = Some d' \<and> keeps_solutions d d' \<and> dbm_unstable d' = dbm_unstable d \<and>
    dbm_within (2 ^ 117) d'"
proof -
  obtain sc delta where c: "close_after_assign scratch_new (adapt_view (dbm_g d)) (pot_func (dbm_potential d)) 0 = Some (sc, delta)"
    "delta_ok (live (dbm_g d)) (weight (dbm_g d)) delta" "\<forall>(s, t, w)\<in>set delta. \<bar>w\<bar> \<le> 2 ^ 117"
    using bound_delta [OF assms scratch_new_ok] by blast
  obtain d' where d': "dbm_apply_delta delta d = Some d'" "keeps_solutions d d'" "dbm_unstable d' = dbm_unstable d"
    "\<forall>b. dbm_within b d \<longrightarrow> (\<forall>(s, t, w)\<in>set delta. \<bar>w\<bar> \<le> b) \<longrightarrow> dbm_within b d'"
    using dbm_apply_delta_spec [OF assms(1) c(2)] by blast
  have "dbm_within (2 ^ 117) d'"
    using d'(4) c(3) dbm_within_mono [OF assms(2), of "2 ^ 117"] by simp
  then show ?thesis using c(1) d'(1-3) by (simp add: close_after_bound_updates_def)
qed

lemma close_after_assign_vertex_spec:
  assumes "dbm_ok d" "dbm_within (2 ^ 100) d" "live (dbm_g d) v" "v \<noteq> 0"
  shows "\<exists>d'. close_after_assign_vertex v d = Some d' \<and> keeps_solutions d d' \<and> dbm_unstable d' = dbm_unstable d"
proof -
  let ?V = "{u. live (dbm_g d) u \<and> u \<noteq> 0}"
  have v: "v \<in> ?V" using assms(3,4) by simp
  obtain sc delta where c: "close_after_assign scratch_new (sub_view (dbm_g d) 0) (pot_func (dbm_potential d)) v = Some (sc, delta)"
    "delta_ok (\<lambda>u. u \<in> ?V) (without (weight (dbm_g d)) 0) delta"
    using close_after_assign_spec [OF dbm_closable_sub [OF assms(1,2)] scratch_new_ok v] by blast
  show ?thesis
    using dbm_apply_delta_spec [OF assms(1) delta_ok_without [OF c(2)]] c(1)
    by (auto simp: close_after_assign_vertex_def)
qed

lemma card_live: "graph_ok g \<Longrightarrow> card {u. live g u \<and> u \<noteq> v} \<le> 65535"
  using presentsD(1,2) [OF presents_adapt, of g] card_mono [of "{..<65535}" "{u. live g u \<and> u \<noteq> v}"]
  by (fastforce simp: adapt_view_def)

lemma normalize_spec:
  assumes ok: "dbm_ok d" and within: "dbm_within (2 ^ 78) d"
  shows "\<exists>d'. normalize d = Some d' \<and> keeps_solutions d d' \<and> dbm_unstable d' = {}"
proof (cases "dbm_unstable d = {}")
  case True
  then show ?thesis using keeps_solutions_refl [OF ok] by (simp add: normalize_def)
next
  case False
  let ?V = "{u. live (dbm_g d) u \<and> u \<noteq> 0}"
  obtain sc delta where w: "close_after_widen scratch_new (sub_view (dbm_g d) 0) (pot_func (dbm_potential d)) (dbm_unstable d) = Some (sc, delta)"
    "stamps_ok (0 + card ?V) sc" "row_ok ?V (without (weight (dbm_g d)) 0) delta"
    using close_after_widen_spec [OF dbm_dij_setup [OF ok within] stamps_new] by fastforce
  have delta: "delta_ok (live (dbm_g d)) (weight (dbm_g d)) delta" "\<forall>(s, t, w)\<in>set delta. \<bar>w\<bar> \<le> 2 ^ 100"
    using w(3) delta_ok_without [of "live (dbm_g d)" 0] by (auto simp: row_ok_def)
  obtain d1 where d1: "dbm_apply_delta delta d = Some d1" "keeps_solutions d d1" "dbm_within (2 ^ 100) d1"
    using dbm_apply_delta_spec [OF ok delta(1)] delta(2) dbm_within_mono [OF within, of "2 ^ 100"] by auto
  have ok1: "dbm_ok d1" using d1(2) by (simp add: keeps_solutions_def)
  obtain sc' delta' where c: "close_after_assign sc (adapt_view (dbm_g d1)) (pot_func (dbm_potential d1)) 0 = Some (sc', delta')"
    "delta_ok (live (dbm_g d1)) (weight (dbm_g d1)) delta'"
    using bound_delta [OF ok1 d1(3) stamps_okD [OF w(2)]] by blast
  obtain d2 where d2: "dbm_apply_delta delta' d1 = Some d2" "keeps_solutions d1 d2"
    using dbm_apply_delta_spec [OF ok1 c(2)] by blast
  have "keeps_solutions d (d2\<lparr>dbm_unstable := {}\<rparr>)"
    using keeps_solutions_trans [OF d1(2) d2(2)] by (simp add: keeps_solutions_def)
  then show ?thesis using False w(1) d1(1) c(1) d2(1) by (simp add: normalize_def)
qed

subsection \<open>Vertices\<close>

lemma dbm_forget_spec:
  assumes "dbm_ok d" "live (dbm_g d) v" "v \<noteq> 0"
  shows "\<exists>d'. dbm_forget v d = Some d' \<and> dbm_ok d' \<and> dbm_potential d' = dbm_potential d \<and>
    (\<forall>u. live (dbm_g d') u \<longleftrightarrow> live (dbm_g d) u \<and> u \<noteq> v) \<and> weight (dbm_g d') = without (weight (dbm_g d)) v \<and>
    graph_size (dbm_g d') = graph_size (dbm_g d) \<and> dbm_unstable d' = dbm_unstable d"
proof -
  obtain g where g: "forget v (dbm_g d) = Some g" "graph_ok g" "weight g = without (weight (dbm_g d)) v"
    "\<forall>u. live g u \<longleftrightarrow> live (dbm_g d) u \<and> u \<noteq> v" "graph_size g = graph_size (dbm_g d)"
    using forget_spec [OF dbm_okD(1) [OF assms(1)] assms(2)] by blast
  then show ?thesis
    using dbm_okD [OF assms(1)] assms(3) solves_without
    by (intro exI [of _ "d\<lparr>dbm_g := g\<rparr>"]) (auto simp: dbm_forget_def dbm_ok_def)
qed

lemma new_vertex_index:
  assumes "graph_ok g" "new_vertex g = Some (v, g')"
  shows "v \<le> graph_size g"
proof (cases "g_free_id g = []")
  case True
  then show ?thesis using assms(2) by (auto simp: new_vertex_def vec_pop_def graph_size_def assert_that_Some bind_Some_conv)
next
  case False
  then have "v = last (g_free_id g)"
    using assms(2) by (auto simp: new_vertex_def vec_pop_def bind_Some_conv)
  then show ?thesis using graph_okD(12) [OF assms(1), of v] False by (simp add: graph_size_def)
qed

lemma dbm_new_vertex_spec:
  assumes "dbm_ok d" "graph_size (dbm_g d) < 65535 \<or> g_free_id (dbm_g d) \<noteq> []"
    "graph_size (dbm_g d) = length (dbm_potential d)"
  shows "\<exists>v d'. dbm_new_vertex d = Some (v, d') \<and> dbm_ok d' \<and> v \<noteq> 0 \<and> \<not> live (dbm_g d) v \<and>
    (\<forall>u. live (dbm_g d') u \<longleftrightarrow> u = v \<or> live (dbm_g d) u) \<and> weight (dbm_g d') = weight (dbm_g d) \<and>
    dbm_potential d' ! v = 0 \<and> (\<forall>u. live (dbm_g d) u \<longrightarrow> dbm_potential d' ! u = dbm_potential d ! u) \<and>
    graph_size (dbm_g d') = length (dbm_potential d') \<and> dbm_unstable d' = dbm_unstable d \<and>
    graph_size (dbm_g d') = max (graph_size (dbm_g d)) (v + 1) \<and> v \<le> graph_size (dbm_g d)"
proof -
  let ?p = "dbm_potential d"
  have size: "length (g_succs (dbm_g d)) < 65535 \<or> g_free_id (dbm_g d) \<noteq> []"
    using assms(2) by (simp add: graph_size_def graph_okD(1) [OF dbm_okD(1) [OF assms(1)]])
  obtain v g where g: "new_vertex (dbm_g d) = Some (v, g)" "graph_ok g" "weight g = weight (dbm_g d)"
    "\<not> live (dbm_g d) v" "\<forall>u. live g u \<longleftrightarrow> u = v \<or> live (dbm_g d) u" "graph_size g = max (graph_size (dbm_g d)) (v + 1)"
    using new_vertex_spec [OF dbm_okD(1) [OF assms(1)] size] by blast
  have v0: "v \<noteq> 0" using g(4) dbm_okD(2) [OF assms(1)] by metis
  have lim: "v \<le> graph_size (dbm_g d)" by (rule new_vertex_index [OF dbm_okD(1) [OF assms(1)] g(1)])
  define p where "p = (if v \<ge> length ?p then ?p @ [0] else ?p[v := 0])"
  have p: "length p = graph_size g" "p ! v = 0" "\<And>u. u \<noteq> v \<Longrightarrow> u < length ?p \<Longrightarrow> p ! u = ?p ! u"
    using lim assms(3) g(6) by (auto simp: p_def nth_append)
  have at: "p ! u = ?p ! u" if "live (dbm_g d) u" for u
    using p(3) [of u] dbm_okD(3) [OF assms(1) that] g(4) that by metis
  have run: "dbm_new_vertex d = Some (v, d\<lparr>dbm_g := g, dbm_potential := p\<rparr>)"
    using g(1) by (simp add: dbm_new_vertex_def p_def vec_set_def)
  have "solves (\<lambda>v. p ! v) (weight (dbm_g d))"
    using dbm_okD(4) [OF assms(1)] weight_live [OF dbm_okD(1) [OF assms(1)]] at unfolding solves_def by metis
  then have "dbm_ok (d\<lparr>dbm_g := g, dbm_potential := p\<rparr>)"
    using g dbm_okD(2) [OF assms(1)] p(1) by (simp add: dbm_ok_def)
  then show ?thesis using run v0 g p at lim by (intro exI [of _ v] exI [of _ "d\<lparr>dbm_g := g, dbm_potential := p\<rparr>"]) simp
qed

subsection \<open>The constraints of a split DBM\<close>

text \<open>C7: The operations of the split DBM on constraints are exact.  On a DBM whose potential is a
  solution, with numbers of at most 78 bits, tightening a bound, adding a difference constraint and
  strengthening a bound that is there return without a panic; the answer is \<open>true\<close> exactly when
  the old constraints and the new one have a common solution, and then the new DBM has exactly those
  solutions and its potential is one of them.  Normalising and closing keep the solutions.\<close>

theorem dbm_constraints_exact:
  assumes "dbm_ok d" "dbm_within (2 ^ 78) d" "\<bar>x\<bar> \<le> 2 ^ 78" "live (dbm_g d) v"
  shows "adds_constraint (2 ^ 80) d 0 v x (update_bound_if_tighter v Right x d) \<and>
    adds_constraint (2 ^ 80) d v 0 (- x) (update_bound_if_tighter v Left x d) \<and>
    (\<forall>u. live (dbm_g d) u \<longrightarrow> u \<noteq> 0 \<longrightarrow> v \<noteq> 0 \<longrightarrow> adds_constraint (12 * 2 ^ 78) d u v x (add_difference_constraint u v x d)) \<and>
    strengthens (2 ^ 81) d 0 v x (strengthen_bound v Right x d) \<and> strengthens (2 ^ 81) d v 0 (- x) (strengthen_bound v Left x d) \<and>
    (\<exists>e. normalize d = Some e \<and> keeps_solutions d e) \<and> (\<exists>e. close_after_bound_updates d = Some e \<and> keeps_solutions d e)"
proof (intro conjI allI impI)
  have b: "(2 :: int) ^ 78 \<le> 2 ^ 114" "(2 :: int) ^ 78 \<le> 2 ^ 118" "(2 :: int) ^ 78 \<le> 2 ^ 120"
    "(2 :: int) ^ 80 = 4 * 2 ^ 78" "(2 :: int) ^ 81 = 8 * 2 ^ 78" by simp_all
  show "adds_constraint (2 ^ 80) d 0 v x (update_bound_if_tighter v Right x d)"
    unfolding b(4) by (rule update_bound_if_tighter_spec [OF assms(1,2) b(3) assms(3,4)]) (simp add: bound_constraint_def)
  show "adds_constraint (2 ^ 80) d v 0 (- x) (update_bound_if_tighter v Left x d)"
    unfolding b(4) by (rule update_bound_if_tighter_spec [OF assms(1,2) b(3) assms(3,4)]) (simp add: bound_constraint_def)
  show "strengthens (2 ^ 81) d 0 v x (strengthen_bound v Right x d)"
    unfolding b(5) by (rule strengthen_bound_spec [OF assms(1,2) b(1) assms(3,4)]) (simp add: bound_constraint_def)
  show "strengthens (2 ^ 81) d v 0 (- x) (strengthen_bound v Left x d)"
    unfolding b(5) by (rule strengthen_bound_spec [OF assms(1,2) b(1) assms(3,4)]) (simp add: bound_constraint_def)
  show "adds_constraint (12 * 2 ^ 78) d u v x (add_difference_constraint u v x d)" if "live (dbm_g d) u" "u \<noteq> 0" "v \<noteq> 0" for u
    by (rule add_difference_constraint_spec [OF assms(1,2) b(2) assms(3) that(1) assms(4) that(2,3)])
  show "\<exists>e. normalize d = Some e \<and> keeps_solutions d e" using normalize_spec [OF assms(1,2)] by blast
  have "dbm_within (2 ^ 100) d" by (rule dbm_within_mono [OF assms(2)]) simp
  then show "\<exists>e. close_after_bound_updates d = Some e \<and> keeps_solutions d e"
    using close_after_bound_updates_spec [OF assms(1)] by blast
qed

text \<open>A new DBM, a new vertex, and an upper bound for it.\<close>

theorem dbm_constraints_exact_witness:
  "\<exists>d v e f. dbm_new = Some d \<and> dbm_new_vertex d = Some (v, e) \<and>
     update_bound_if_tighter v Right 5 e = Some (True, f) \<and> (\<forall>\<sigma>. dbm_holds \<sigma> f \<longleftrightarrow> \<sigma> v - \<sigma> 0 \<le> 5)"
proof -
  obtain d where d: "dbm_new = Some d" "dbm_ok d" "\<And>\<sigma>. dbm_holds \<sigma> d" "\<And>v. live (dbm_g d) v \<longleftrightarrow> v = 0"
    "graph_size (dbm_g d) = 1" "dbm_potential d = [0]" "weight (dbm_g d) = (\<lambda>_ _. None)"
    using dbm_new_spec by blast
  obtain v e where e: "dbm_new_vertex d = Some (v, e)" "dbm_ok e" "v \<noteq> 0" "\<And>u. live (dbm_g e) u \<longleftrightarrow> u = v \<or> live (dbm_g d) u"
    "weight (dbm_g e) = weight (dbm_g d)" "dbm_potential e ! v = 0"
    "\<And>u. live (dbm_g d) u \<Longrightarrow> dbm_potential e ! u = dbm_potential d ! u"
    using dbm_new_vertex_spec [OF d(2)] d(5,6) by auto
  have pot: "dbm_potential e ! u = 0" if "live (dbm_g e) u" for u
    using e(4,6) e(7) [of u] d(4,6) that by (cases "u = v") auto
  have "dbm_within (2 ^ 78) e" using e(5) d(7) pot by (simp add: dbm_within_def weights_within_def)
  from dbm_constraints_exact [OF e(2) this, of 5 v]
  have "adds_constraint (2 ^ 80) e 0 v 5 (update_bound_if_tighter v Right 5 e)" using e(4) by simp
  then obtain r f where f: "update_bound_if_tighter v Right 5 e = Some (r, f)"
    "r \<longleftrightarrow> (\<exists>\<sigma>. dbm_holds \<sigma> e \<and> \<sigma> v - \<sigma> 0 \<le> 5)"
    "r \<longrightarrow> (\<forall>\<sigma>. dbm_holds \<sigma> f \<longleftrightarrow> dbm_holds \<sigma> e \<and> \<sigma> v - \<sigma> 0 \<le> 5)"
    unfolding adds_constraint_def by blast
  have all: "dbm_holds \<sigma> e" for \<sigma> using e(5) d(7) by (simp add: dbm_holds_def solves_def)
  then have "\<exists>\<sigma>. dbm_holds \<sigma> e \<and> \<sigma> v - \<sigma> 0 \<le> 5" by (intro exI [of _ "\<lambda>_. 0"]) simp
  then have "r" "\<forall>\<sigma>. dbm_holds \<sigma> f \<longleftrightarrow> \<sigma> v - \<sigma> 0 \<le> 5" using f(2,3) all by auto
  then show ?thesis
    using d(1) e(1) f(1) by (intro exI [of _ d] exI [of _ v] exI [of _ e] exI [of _ f]) simp
qed

end
