(* ===== verification/Dbm_Lattice.thy ===== *)
theory Dbm_Lattice
  imports Dbm_Soundness
begin

text \<open>
  The lattice operations of \<open>src/crab/splitdbm/split_dbm.rs\<close> over-approximate: inclusion is sound,
  and the join and the widening of an aligned pair hold wherever one of the two sides holds.
\<close>

subsection \<open>Inclusion\<close>

lemma subsumed_edges_spec:
  assumes ok: "dbm_ok l" "dbm_within (2 ^ 120) l" and x: "live (dbm_g l) x"
    and es: "\<forall>oy w. (oy, w) \<in> set es \<longrightarrow> oy < length perm \<and> live (dbm_g l) (perm ! oy)"
  shows "\<exists>b. subsumed_edges (dbm_g l) perm x es = Some b \<and>
    (b \<longrightarrow> (\<forall>\<sigma> oy w. dbm_holds \<sigma> l \<longrightarrow> (oy, w) \<in> set es \<longrightarrow> \<sigma> (perm ! oy) - \<sigma> x \<le> w))"
  using es
proof (induction es)
  case (Cons e es)
  obtain oy ow where e: "e = (oy, ow)" by (cases e)
  let ?W = "weight (dbm_g l)" and ?y = "perm ! oy"
  have y: "oy < length perm" "live (dbm_g l) ?y" using Cons.prems e by auto
  obtain b where b: "subsumed_edges (dbm_g l) perm x es = Some b"
    "b \<longrightarrow> (\<forall>\<sigma> oy w. dbm_holds \<sigma> l \<longrightarrow> (oy, w) \<in> set es \<longrightarrow> \<sigma> (perm ! oy) - \<sigma> x \<le> w)"
    using Cons.IH Cons.prems by auto
  have edge: "\<sigma> t - \<sigma> s \<le> u" if "dbm_holds \<sigma> l" "?W s t = Some u" for \<sigma> s t u
    using that by (simp add: dbm_holds_def solves_def)
  have look: "graph_lookup (dbm_g l) x t = Some (?W x t)" "graph_lookup (dbm_g l) 0 t = Some (?W 0 t)" for t
    using dbm_lookup [OF ok(1)] x dbm_okD(2) [OF ok(1)] by auto
  have val: "\<bar>u\<bar> \<le> 2 ^ 120" if "?W s t = Some u" for s t u by (rule weights_withinD [OF dbm_withinD(1) [OF ok(2)] that])
  have sum: "num_add u v = Some (u + v)" if "?W s t = Some u" "?W s' t' = Some v" for s t u s' t' v
    using num_add_small [OF val [OF that(1)], of v] val [OF that(2)] by simp
  have next_ok: ?case if "subsumed_edges (dbm_g l) perm x (e # es) = Some b" "\<And>\<sigma>. dbm_holds \<sigma> l \<Longrightarrow> \<sigma> ?y - \<sigma> x \<le> ow"
    using that b(2) e by (intro exI [of _ b]) auto
  consider (tight) w where "?W x ?y = Some w" "w \<le> ow"
    | (through) u v where "\<not> (case ?W x ?y of Some w \<Rightarrow> w \<le> ow | None \<Rightarrow> False)" "?W x 0 = Some u" "?W 0 ?y = Some v" "u + v \<le> ow"
    | (no) "\<not> (case ?W x ?y of Some w \<Rightarrow> w \<le> ow | None \<Rightarrow> False)"
        "\<And>u v. ?W x 0 = Some u \<Longrightarrow> ?W 0 ?y = Some v \<Longrightarrow> \<not> u + v \<le> ow"
    by (metis option.case_eq_if option.exhaust_sel option.sel)
  then show ?case
  proof cases
    case tight
    have "\<sigma> ?y - \<sigma> x \<le> ow" if "dbm_holds \<sigma> l" for \<sigma> using edge [OF that tight(1)] tight(2) by simp
    then show ?thesis using next_ok y(1) look tight b(1) e by simp
  next
    case through
    have "\<sigma> ?y - \<sigma> x \<le> ow" if "dbm_holds \<sigma> l" for \<sigma>
      using edge [OF that through(2)] edge [OF that through(3)] through(4) by simp
    then show ?thesis using next_ok y(1) look through b(1) e sum [OF through(2,3)] by simp
  next
    case no
    have "subsumed_edges (dbm_g l) perm x (e # es) = Some False"
      using no y(1) look e sum by (cases "?W x 0"; cases "?W 0 ?y") auto
    then show ?thesis by (intro exI [of _ False]) simp
  qed
qed (intro exI [of _ True], simp)

definition perm_covers :: "split_dbm \<Rightarrow> split_dbm \<Rightarrow> nat list \<Rightarrow> bool" where
  "perm_covers l r perm \<longleftrightarrow> (\<forall>s d w. weight (dbm_g r) s d = Some w \<longrightarrow>
     s < length perm \<and> d < length perm \<and> live (dbm_g l) (perm ! s) \<and> live (dbm_g l) (perm ! d))"

lemma edge_refs_length: "edge_refs ws m = Some es \<Longrightarrow> length es = length m"
  by (induction ws m arbitrary: es rule: edge_refs.induct) (auto simp: bind_Some_conv)

lemma succs_len_spec: "e_succs g s = Some es \<Longrightarrow> succs_len g s = Some (length es)"
  by (auto simp: e_succs_def succs_len_def smap_size_def bind_Some_conv edge_refs_length)

lemma is_subsumed_by_spec:
  assumes l: "dbm_ok l" "dbm_within (2 ^ 120) l" and r: "dbm_ok r" and perm: "perm_covers l r perm"
  shows "\<exists>b. is_subsumed_by l r perm = Some b \<and>
    (b \<longrightarrow> (\<forall>\<sigma>. dbm_holds \<sigma> l \<longrightarrow> dbm_holds (\<lambda>v. \<sigma> (perm ! v)) r))"
proof -
  obtain vs where vs: "graph_verts (dbm_g r) = Some vs" "set vs = {v. live (dbm_g r) v}"
    using presentsD(3) [OF presents_adapt [OF dbm_okD(1) [OF r]]] by (auto simp: adapt_view_def)
  have "\<exists>b. subsumed_verts (dbm_g l) (dbm_g r) perm us = Some b \<and>
      (b \<longrightarrow> (\<forall>\<sigma> s d w. dbm_holds \<sigma> l \<longrightarrow> s \<in> set us \<longrightarrow> weight (dbm_g r) s d = Some w \<longrightarrow> \<sigma> (perm ! d) - \<sigma> (perm ! s) \<le> w))"
    if "set us \<subseteq> {v. live (dbm_g r) v}" for us
    using that
  proof (induction us)
    case (Cons s us)
    have s: "live (dbm_g r) s" using Cons.prems by simp
    obtain es where es: "e_succs (dbm_g r) s = Some es" "lists_edges es (weight (dbm_g r) s)"
      using holds_e_succs [OF dbm_holds_weights [OF r]] live_graph_size [OF s] by blast
    obtain b where b: "subsumed_verts (dbm_g l) (dbm_g r) perm us = Some b"
      "b \<longrightarrow> (\<forall>\<sigma> s d w. dbm_holds \<sigma> l \<longrightarrow> s \<in> set us \<longrightarrow> weight (dbm_g r) s d = Some w \<longrightarrow> \<sigma> (perm ! d) - \<sigma> (perm ! s) \<le> w)"
      using Cons by auto
    have mem: "(d, w) \<in> set es \<longleftrightarrow> weight (dbm_g r) s d = Some w" for d w using es(2) by (simp add: lists_edges_def)
    show ?case
    proof (cases "es = []")
      case True
      then have "weight (dbm_g r) s d = None" for d using mem by (cases "weight (dbm_g r) s d") auto
      then show ?thesis using b True succs_len_spec [OF es(1)] by auto
    next
      case False
      then obtain d0 w0 where "(d0, w0) \<in> set es" by (cases es) auto
      then have x: "s < length perm" "live (dbm_g l) (perm ! s)" using mem perm unfolding perm_covers_def by blast+
      have "\<forall>oy w. (oy, w) \<in> set es \<longrightarrow> oy < length perm \<and> live (dbm_g l) (perm ! oy)"
        using mem perm unfolding perm_covers_def by blast
      from subsumed_edges_spec [OF l x(2) this] obtain c where c: "subsumed_edges (dbm_g l) perm (perm ! s) es = Some c"
        "c \<longrightarrow> (\<forall>\<sigma> oy w. dbm_holds \<sigma> l \<longrightarrow> (oy, w) \<in> set es \<longrightarrow> \<sigma> (perm ! oy) - \<sigma> (perm ! s) \<le> w)" by blast
      have "subsumed_verts (dbm_g l) (dbm_g r) perm (s # us) = (if c then Some b else Some False)"
        using succs_len_spec [OF es(1)] False es(1) x(1) c(1) b(1) by simp
      then show ?thesis using b(2) c(2) mem by auto
    qed
  qed (intro exI [of _ True], simp)
  then obtain b where b: "subsumed_verts (dbm_g l) (dbm_g r) perm vs = Some b"
    "b \<longrightarrow> (\<forall>\<sigma> s d w. dbm_holds \<sigma> l \<longrightarrow> s \<in> set vs \<longrightarrow> weight (dbm_g r) s d = Some w \<longrightarrow> \<sigma> (perm ! d) - \<sigma> (perm ! s) \<le> w)"
    using vs(2) by blast
  have "dbm_holds (\<lambda>v. \<sigma> (perm ! v)) r" if "b" "dbm_holds \<sigma> l" for \<sigma>
    using b(2) that vs(2) weight_live [OF dbm_okD(1) [OF r]] unfolding dbm_holds_def solves_def by blast
  then show ?thesis using b(1) vs(1) by (auto simp: is_subsumed_by_def)
qed

subsection \<open>Aligned pairs\<close>

text \<open>The constraints of a DBM on the vertices of an alignment.\<close>

definition pulled :: "nat list \<Rightarrow> split_dbm \<Rightarrow> nat \<Rightarrow> nat \<Rightarrow> number option" where
  "pulled perm d x y =
     (if x < length perm \<and> y < length perm then weight (dbm_g d) (perm ! x) (perm ! y) else None)"

definition alignment :: "split_dbm \<Rightarrow> nat list \<Rightarrow> bool" where
  "alignment d perm \<longleftrightarrow> dbm_ok d \<and> dbm_within (2 ^ 76) d \<and> distinct perm \<and> (\<forall>u\<in>set perm. live (dbm_g d) u) \<and>
     perm \<noteq> [] \<and> perm ! 0 = 0"

lemma alignmentD:
  assumes "alignment d perm"
  shows "dbm_ok d" "dbm_within (2 ^ 76) d" "distinct perm" "\<And>x. x < length perm \<Longrightarrow> live (dbm_g d) (perm ! x)"
    "0 < length perm" "perm ! 0 = 0"
  using assms by (auto simp: alignment_def)

lemma live_small: "graph_ok g \<Longrightarrow> live g v \<Longrightarrow> v < 65535"
  using graph_okD(3) [of g] by (simp add: live_def)

lemma alignment_view:
  assumes "alignment d perm"
  shows "\<exists>p. graph_perm_new perm (dbm_g d) = Some p \<and> presents (perm_view p) {..<length perm} (pulled perm d) \<and>
    rg_size (perm_view p) = length perm"
proof -
  note A = alignmentD [OF assms]
  have g: "graph_ok (dbm_g d)" by (rule dbm_okD(1) [OF A(1)])
  have small: "u < 65535" "u < graph_size (dbm_g d)" if "u \<in> set perm" for u
    using that A(4) live_small [OF g] live_graph_size by (auto simp: in_set_conv_nth)
  have "set perm \<subseteq> {..<65535}" using small by auto
  then have "length perm \<le> 65535" using card_mono [of "{..<65535}" "set perm"] distinct_card [OF A(3)] by simp
  moreover have "filter (\<lambda>u. u \<noteq> INVALID_VERT) perm = perm" using small(1) by (force simp: filter_id_conv INVALID_VERT_def)
  ultimately obtain p where p: "graph_perm_new perm (dbm_g d) = Some p" "perm_ok p" "gp_graph p = dbm_g d" "gp_perm p = perm"
    using graph_perm_new_spec [OF g, of perm] small(2) A(3) by auto
  have inv: "perm ! x \<noteq> INVALID_VERT" if "x < length perm" for x
    using small(1) [OF nth_mem [OF that]] by (simp add: INVALID_VERT_def)
  have "perm_weight p x y = pulled perm d x y" for x y
    using inv p(3,4) by (simp add: perm_weight_def pulled_def)
  then have "perm_weight p = pulled perm d" by blast
  then show ?thesis using presents_perm [OF p(2)] p(1,4) by (simp add: perm_view_def)
qed

lemma pulled_within: "dbm_within b d \<Longrightarrow> weights_within b (pulled perm d)"
  by (auto simp: dbm_within_def weights_within_def pulled_def)

lemma pulled_holds: "dbm_holds \<sigma> d \<Longrightarrow> solves (\<lambda>x. \<sigma> (perm ! x)) (pulled perm d)"
  by (auto simp: dbm_holds_def solves_def pulled_def)

lemma relative_potentials_spec:
  assumes ok: "dbm_ok d" "dbm_within (2 ^ 76) d" and us: "\<forall>u\<in>set us. live (dbm_g d) u"
  shows "relative_potentials (dbm_potential d) us = Some (map (\<lambda>u. dbm_potential d ! u - dbm_potential d ! 0) us)"
  using us
proof (induction us)
  case (Cons u us)
  let ?p = "dbm_potential d"
  have l: "live (dbm_g d) u" "live (dbm_g d) 0" using Cons.prems dbm_okD(2) [OF ok(1)] by auto
  have "num_sub (?p ! u) (?p ! 0) = Some (?p ! u - ?p ! 0)"
    by (rule num_sub_small [of _ "2 ^ 76"]) (use dbm_withinD(2) [OF ok(2)] l in fastforce)+
  then show ?case using Cons dbm_okD(3) [OF ok(1) l(1)] dbm_okD(3) [OF ok(1) l(2)] by simp
qed simp

text \<open>The potential of a side, moved to the alignment.\<close>

lemma alignment_potential:
  assumes "alignment d perm"
  shows "\<exists>p. relative_potentials (dbm_potential d) (take (length perm) perm) = Some p \<and> vec_set 0 0 p = Some p \<and>
    length p = length perm \<and> solves (\<lambda>x. p ! x) (pulled perm d) \<and> (\<forall>x<length perm. \<bar>p ! x\<bar> \<le> 2 ^ 77)"
proof -
  note A = alignmentD [OF assms]
  let ?q = "dbm_potential d"
  let ?p = "map (\<lambda>u. ?q ! u - ?q ! 0) perm"
  have run: "relative_potentials ?q (take (length perm) perm) = Some ?p"
    using relative_potentials_spec [OF A(1,2), of perm] assms by (simp add: alignment_def)
  have "?p ! 0 = 0" using A(5,6) by simp
  then have set0: "vec_set 0 0 ?p = Some ?p" using A(5) by (simp add: vec_set_def list_update_same_conv)
  have "solves (\<lambda>x. ?p ! x) (pulled perm d)"
    using dbm_okD(4) [OF A(1)] unfolding solves_def pulled_def by (auto split: if_splits)
  moreover have "\<bar>?p ! x\<bar> \<le> 2 ^ 77" if "x < length perm" for x
    using dbm_withinD(2) [OF A(2) A(4) [OF that]] dbm_withinD(2) [OF A(2) dbm_okD(2) [OF A(1)]] that by (simp add: abs_le_iff)
  ultimately show ?thesis using run set0 by auto
qed

subsection \<open>Constraints through zero\<close>

lemma for_each_cong: "(\<And>x s. x \<in> set xs \<Longrightarrow> f x s = g x s) \<Longrightarrow> for_each f xs s = for_each g xs s"
  by (induction xs arbitrary: s) (auto cong: Option.bind_cong)

lemma for_each_map: "for_each f (map h xs) s = for_each (\<lambda>x. f (h x)) xs s"
  by (induction xs arbitrary: s) (auto cong: Option.bind_cong)

lemma for_each_skip: "(\<And>x s. x \<in> set xs \<Longrightarrow> f x s = Some s) \<Longrightarrow> for_each f xs s = Some s"
  by (induction xs) auto

text \<open>The pairs related on one side, with the constraint that the bounds of the other imply for them.\<close>

definition deferred :: "(nat \<Rightarrow> nat \<Rightarrow> number option) \<Rightarrow> (nat \<Rightarrow> nat \<Rightarrow> number option) \<Rightarrow> nat \<Rightarrow> nat \<Rightarrow> number option" where
  "deferred B R s d =
     (if s = 0 \<or> d = 0 \<or> R s d = None then None
      else case (B s 0, B 0 d) of (Some a, Some b) \<Rightarrow> Some (a + b) | _ \<Rightarrow> None)"

lemma deferred_Some:
  assumes "deferred B R s d = Some w"
  obtains a b where "B s 0 = Some a" "B 0 d = Some b" "w = a + b"
  using assms by (auto simp: deferred_def split: if_splits option.splits)

lemma deferred_within: "weights_within (2 ^ 76) B \<Longrightarrow> weights_within (2 ^ 77) (deferred B R)"
  unfolding weights_within_def by (auto elim!: deferred_Some) (smt (verit))

lemma deferred_solves: "solves \<sigma> B \<Longrightarrow> solves \<sigma> (deferred B R)"
  unfolding solves_def by (auto elim!: deferred_Some) (smt (verit))

lemma compute_deferred_spec:
  assumes al: "aligned b r n B R" and n: "0 < n" and within: "weights_within (2 ^ 76) B"
  shows "\<exists>g. compute_deferred b r n = Some g \<and> holds_weights g (\<lambda>v. v < n) n (deferred B R)"
proof -
  note A = alignedD [OF al]
  obtain g where g: "grow_to n graph_new = Some g" "holds_weights g (\<lambda>v. v < n) n (\<lambda>_ _. None)"
    using holds_fresh [OF A(5)] by blast
  obtain vs where vs: "rg_verts r = Some vs" "set vs = {..<n}" using presentsD(3) [OF A(2)] by blast
  define step where "step = (\<lambda>s d g. if d = 0 then Some g
     else do { ws \<leftarrow> rg_lookup b s 0;
               (case ws of
                  None \<Rightarrow> Some g
                | Some ws \<Rightarrow> do {
                    wd \<leftarrow> rg_lookup b 0 d;
                    (case wd of
                       None \<Rightarrow> Some g
                     | Some wd \<Rightarrow> do { w \<leftarrow> num_add ws wd; add_edge s w d g }) }) })"
  define visit where "visit = (\<lambda>s (d, w :: int) g. if s = 0 then Some g else step s d g)"
  let ?F = "\<lambda>s d (w :: int). deferred B R s d"
  have "\<exists>g'. visit_edges (rg_e_succs r) visit vs g = Some g' \<and>
      holds_weights g' (\<lambda>v. v < n) n (\<lambda>s d. case R s d of None \<Rightarrow> None | Some w \<Rightarrow> ?F s d w)"
  proof (rule visit_edges_spec [OF A(2) vs(1) g(2), of visit ?F])
    fix s d w g U
    assume R: "R s d = Some w" and h: "holds_weights g (\<lambda>v. v < n) n U" "U s d = None"
    have sd: "s \<in> {..<n}" "d \<in> {..<n}" "0 \<in> {..<n}" using presentsD(4) [OF A(2) R] n by auto
    have skip: "U(s := (U s)(d := None)) = U" using h(2) by (metis fun_upd_triv)
    show "\<exists>g'. visit s (d, w) g = Some g' \<and> holds_weights g' (\<lambda>v. v < n) n (U(s := (U s)(d := deferred B R s d)))"
    proof (cases "deferred B R s d")
      case None
      then have "visit s (d, w) g = Some g"
        using presentsD(6) [OF A(1) sd(1,3)] presentsD(6) [OF A(1) sd(3,2)] R
        by (auto simp: visit_def step_def deferred_def split: option.splits)
      then show ?thesis using None skip h(1) by simp
    next
      case (Some v)
      then have nz: "s \<noteq> 0" "d \<noteq> 0" by (auto simp: deferred_def split: if_splits)
      obtain x y where xy: "B s 0 = Some x" "B 0 d = Some y" "v = x + y" by (rule deferred_Some [OF Some])
      have "num_add x y = Some (x + y)"
        using num_add_small [OF weights_withinD [OF within xy(1)], of y] weights_withinD [OF within xy(2)] by simp
      then have "visit s (d, w) g = add_edge s v d g"
        using presentsD(6) [OF A(1) sd(1,3)] presentsD(6) [OF A(1) sd(3,2)] nz xy
        by (simp add: visit_def step_def)
      then show ?thesis using holds_add [OF h(1) _ _ h(2), of v] sd Some by simp
    qed
  qed
  then obtain g' where g': "visit_edges (rg_e_succs r) visit vs g = Some g'"
    "holds_weights g' (\<lambda>v. v < n) n (\<lambda>s d. case R s d of None \<Rightarrow> None | Some w \<Rightarrow> ?F s d w)" by blast
  have "(\<lambda>s d. case R s d of None \<Rightarrow> None | Some w \<Rightarrow> ?F s d w) = deferred B R"
    by (auto simp: fun_eq_iff deferred_def split: option.split)
  moreover have "compute_deferred b r n = visit_edges (rg_e_succs r) visit vs g"
  proof -
    have "(if s = 0 then Some h else do { ds \<leftarrow> rg_succs r s; for_each (step s) ds h }) =
        do { es \<leftarrow> rg_e_succs r s; for_each (visit s) es h }" if s: "s \<in> set vs" for s h
    proof -
      obtain es where es: "rg_e_succs r s = Some es" "rg_succs r s = Some (map fst es)"
        using presentsD(8) [OF A(2), of s] s vs(2) by blast
      show ?thesis
      proof (cases "s = 0")
        case True
        then show ?thesis using es for_each_skip [of es "visit s" h] by (auto simp: visit_def)
      next
        case False
        then have "for_each (visit s) es h = for_each (\<lambda>x. step s (fst x)) es h"
          by (intro for_each_cong) (auto simp: visit_def)
        then show ?thesis using es False by (simp add: for_each_map)
      qed
    qed
    then have "for_each (\<lambda>s h. if s = 0 then Some h else do { ds \<leftarrow> rg_succs r s; for_each (step s) ds h }) vs g =
        visit_edges (rg_e_succs r) visit vs g"
      unfolding visit_edges_def by (rule for_each_cong)
    moreover have "compute_deferred b r n =
        for_each (\<lambda>s h. if s = 0 then Some h else do { ds \<leftarrow> rg_succs r s; for_each (step s) ds h }) vs g"
      unfolding compute_deferred_def step_def g(1) vs(1) bind.bind_lunit by (rule refl)
    ultimately show ?thesis by simp
  qed
  ultimately show ?thesis using g' by simp
qed

lemma close_deferred_spec:
  assumes b: "presents b {..<n} B" "rg_size b = n" and within: "weights_within (2 ^ 76) B" and n: "0 < n"
    and d: "holds_weights g (\<lambda>v. v < n) n (deferred B R)"
    and pot: "length p = n" "solves (\<lambda>x. p ! x) B" "\<forall>x<n. \<bar>p ! x\<bar> \<le> 2 ^ 77" and sc: "stamps_ok k sc" "k < 2 ^ 30"
  shows "\<exists>g' sc' W. close_deferred sc b g p = Some (g', sc') \<and> holds_weights g' (\<lambda>v. v < n) n W \<and>
    (\<forall>\<sigma>. solves \<sigma> W \<longleftrightarrow> solves \<sigma> B) \<and> (\<forall>s d w. B s d = Some w \<longrightarrow> (\<exists>v\<le>w. W s d = Some v)) \<and>
    stamps_ok (k + n) sc'"
proof -
  note G = holdsD [OF d]
  have nodes: "{v. live g v} = {..<n}" using G(2) by auto
  have pd: "presents (adapt_view g) {..<n} (deferred B R)" "rg_size (adapt_view g) = n"
    using presents_adapt [OF G(1)] G(3,4) nodes by (simp_all add: adapt_view_def)
  let ?M = "\<lambda>s d. meet_weight (B s d) (deferred B R s d)"
  have al: "aligned b (adapt_view g) n B (deferred B R)" using b pd by (simp add: aligned_def)
  obtain m where m: "graph_meet b (adapt_view g) = Some (m, False)" "holds_weights m (\<lambda>v. v < n) n ?M"
    using graph_meet_spec [OF al] by blast
  note M = holdsD [OF m(2)]
  let ?V = "{u. live m u \<and> u \<noteq> 0}"
  have MI: "B s d = Some w \<or> deferred B R s d = Some w" if "?M s d = Some w" for s d w
    using that by (auto simp: meet_weight_def min_def split: option.splits if_splits)
  have sM: "solves \<sigma> ?M \<longleftrightarrow> solves \<sigma> B" for \<sigma>
  proof
    assume "solves \<sigma> B"
    then show "solves \<sigma> ?M" using deferred_solves [of \<sigma> B R] MI unfolding solves_def by blast
  next
    assume M: "solves \<sigma> ?M"
    have "\<exists>v\<le>w. ?M s d = Some v" if "B s d = Some w" for s d w
      using that by (auto simp: meet_weight_def split: option.split)
    then show "solves \<sigma> B" using M unfolding solves_def by (meson order.trans)
  qed
  have wM: "weights_within (2 ^ 78) ?M"
    using MI weights_within_mono [OF within, of "2 ^ 78"] weights_within_mono [OF deferred_within [OF within], of "2 ^ 78"]
    unfolding weights_within_def by (simp, blast)
  have dij: "dij_setup (sub_view m 0) ?V (without ?M 0) (pot_func p) (\<lambda>x. p ! x)"
    unfolding dij_setup_def
  proof (intro conjI ballI)
    show "presents (sub_view m 0) ?V (without ?M 0)" using presents_sub [OF M(1), of 0] M(4) by simp
    show "weights_within (2 ^ 78) (without ?M 0)" using weights_within_without [OF wM] .
    show "solves (\<lambda>x. p ! x) (without ?M 0)" using solves_without sM pot(2) by blast
  qed (use pot M(2) in \<open>force simp: pot_func_def\<close>)+
  have sides: "meet_sides (sub_view m 0) ?V (without ?M 0) b (adapt_view g)"
    unfolding meet_sides_def
  proof (intro conjI allI impI)
    fix s d w assume "without ?M 0 s d = Some w"
    then have W: "?M s d = Some w" by (auto simp: without_def split: if_splits)
    then have "s \<in> {..<n}" "d \<in> {..<n}" using MI presentsD(4) [OF b(1)] presentsD(4) [OF pd(1)] by blast+
    then show "\<exists>lw rw. rg_lookup b s d = Some lw \<and> rg_lookup (adapt_view g) s d = Some rw \<and> (lw = Some w \<or> rw = Some w)"
      using presentsD(6) [OF b(1)] presentsD(6) [OF pd(1)] MI [OF W] by blast
  qed (use M(3) b(2) pd(2) in \<open>simp_all add: sub_view_def\<close>)
  obtain sc' delta where c: "close_after_meet sc (sub_view m 0) (pot_func p) b (adapt_view g) = Some (sc', delta)"
    "stamps_ok (k + card ?V) sc'" "row_ok ?V (without ?M 0) delta"
    using close_after_meet_spec [OF dij sides sc] by blast
  have "delta_ok (\<lambda>v. v < n) ?M delta"
    using c(3) delta_ok_without [of "live m" 0 ?M delta] M(2) by (simp add: row_ok_def)
  then obtain g' W where g': "apply_delta delta m = Some g'" "holds_weights g' (\<lambda>v. v < n) n W" "tightens ?M W"
    using apply_delta_spec [OF m(2)] by blast
  have "\<exists>v\<le>w. W s d = Some v" if w: "B s d = Some w" for s d w
  proof -
    obtain u where "?M s d = Some u" "u \<le> w"
      using w by (cases "deferred B R s d") (auto simp: meet_weight_def)
    then show ?thesis using g'(3) unfolding tightens_def by fastforce
  qed
  moreover have "stamps_ok (k + n) sc'"
  proof -
    have "card ?V \<le> n" using M(2) card_mono [of "{..<n}" ?V] by auto
    then show ?thesis using c(2) by (auto simp: stamps_ok_def)
  qed
  ultimately show ?thesis
    using m(1) c(1) g'(1,2) tightens_solves [OF g'(3)] sM by (auto simp: close_deferred_def)
qed

subsection \<open>The bounds that both sides have\<close>

definition two_sided :: "nat \<Rightarrow> (nat \<Rightarrow> nat \<Rightarrow> number option) \<Rightarrow> (nat \<Rightarrow> nat \<Rightarrow> number option) \<Rightarrow> nat set \<Rightarrow> nat set \<Rightarrow> bool" where
  "two_sided n L R lows ups \<longleftrightarrow>
     (\<forall>v\<in>lows. v < n \<and> L v 0 \<noteq> None \<and> R v 0 \<noteq> None) \<and> (\<forall>v\<in>ups. v < n \<and> L 0 v \<noteq> None \<and> R 0 v \<noteq> None)"

definition moves_ok :: "nat \<Rightarrow> (nat \<Rightarrow> nat \<Rightarrow> number option) \<Rightarrow> (nat \<Rightarrow> nat \<Rightarrow> number option) \<Rightarrow> bound_moves \<Rightarrow> bool" where
  "moves_ok n L R m \<longleftrightarrow> two_sided n L R (set (lb_up m) \<union> set (lb_down m)) (set (ub_up m) \<union> set (ub_down m))"

lemma bound_move_spec:
  assumes al: "aligned gx gy n L R" and v: "v < n" and m: "moves_ok n L R m"
  shows "\<exists>m'. bound_move gx gy v m = Some m' \<and> moves_ok n L R m'"
proof -
  note A = alignedD [OF al]
  have "v \<in> {..<n}" "0 \<in> {..<n}" using v by auto
  note look = presentsD(6) [OF A(1) this] presentsD(6) [OF A(2) this] presentsD(6) [OF A(1) this(2,1)] presentsD(6) [OF A(2) this(2,1)]
  show ?thesis
    using m v unfolding bound_move_def look
    by (cases "L 0 v"; cases "R 0 v"; cases "L v 0"; cases "R v 0") (auto simp: moves_ok_def two_sided_def Let_def)
qed

text \<open>The constraints that hold wherever a side holds, and are at least those of \<open>U\<close>.\<close>

definition joined :: "(nat \<Rightarrow> nat \<Rightarrow> number option) \<Rightarrow> (nat \<Rightarrow> nat \<Rightarrow> number option) \<Rightarrow> (nat \<Rightarrow> nat \<Rightarrow> number option) \<Rightarrow> (nat \<Rightarrow> nat \<Rightarrow> number option) \<Rightarrow> bool" where
  "joined L R U J \<longleftrightarrow> (\<forall>\<sigma>. solves \<sigma> L \<or> solves \<sigma> R \<longrightarrow> solves \<sigma> J) \<and> (\<forall>s d w. U s d = Some w \<longrightarrow> (\<exists>v\<le>w. J s d = Some v))"

lemma joined_edge:
  assumes J: "joined L R U J" and e: "entails L s d x" "entails R s d y" and w: "x \<le> w" "y \<le> w"
  shows "joined L R U (with_edge J s (tighter (J s d) w) d)"
proof -
  have "\<sigma> d - \<sigma> s \<le> w" if "solves \<sigma> L \<or> solves \<sigma> R" for \<sigma>
    using that e w unfolding entails_def by (meson order.trans)
  then have "solves \<sigma> (with_edge J s (tighter (J s d) w) d)" if "solves \<sigma> L \<or> solves \<sigma> R" for \<sigma>
    using that J unfolding joined_def solves_tighter by blast
  moreover have "\<exists>v\<le>u. with_edge J s (tighter (J s d) w) d a b = Some v" if u: "U a b = Some u" for a b u
  proof -
    obtain v where "v \<le> u" "J a b = Some v" using J u unfolding joined_def by blast
    then show ?thesis by (auto simp: tighter_def)
  qed
  ultimately show ?thesis unfolding joined_def by blast
qed

lemma apply_lb_ub_spec:
  assumes al: "aligned gx gy n L R" and within: "weights_within (2 ^ 76) L" "weights_within (2 ^ 76) R"
    and lists: "two_sided n L R (set ss) (set ds)" and g: "holds_weights g (\<lambda>v. v < n) n J" "joined L R U J"
  shows "\<exists>g' J'. apply_lb_ub gx gy ss ds g = Some g' \<and> holds_weights g' (\<lambda>v. v < n) n J' \<and> joined L R U J'"
proof -
  note A = alignedD [OF al]
  let ?P = "\<lambda>g. \<exists>J. holds_weights g (\<lambda>v. v < n) n J \<and> joined L R U J"
  note val = presentsD(5) [OF A(1)] presentsD(5) [OF A(2)]
  have "\<exists>g'. apply_lb_ub gx gy ss ds g = Some g' \<and> ?P g'"
    unfolding apply_lb_ub_def
  proof (rule for_each_inv)
    show "?P g" using g by blast
  next
    fix s g assume s: "s \<in> set ss" and g: "?P g"
    obtain a b where ab: "L s 0 = Some a" "R s 0 = Some b" "s < n" using lists s unfolding two_sided_def by blast
    have "\<exists>g'. for_each (\<lambda>d g.
       if s \<noteq> d
       then do { lu \<leftarrow> rg_edge_val gx 0 d;
                 left_val \<leftarrow> num_add a lu;
                 ru \<leftarrow> rg_edge_val gy 0 d;
                 right_val \<leftarrow> num_add b ru;
                 update_edge s (max left_val right_val) d g }
       else Some g) ds g = Some g' \<and> ?P g'"
    proof (rule for_each_inv)
      show "?P g" by (rule g)
    next
      fix d g assume d: "d \<in> set ds" and "?P g"
      then obtain J where J: "holds_weights g (\<lambda>v. v < n) n J" "joined L R U J" by blast
      obtain x y where xy: "L 0 d = Some x" "R 0 d = Some y" "d < n" using lists d unfolding two_sided_def by blast
      have sums: "num_add a x = Some (a + x)" "num_add b y = Some (b + y)"
        using num_add_small [OF weights_withinD [OF within(1) ab(1)], of x] weights_withinD [OF within(1) xy(1)]
          num_add_small [OF weights_withinD [OF within(2) ab(2)], of y] weights_withinD [OF within(2) xy(2)] by simp_all
      obtain g' where g': "update_edge s (max (a + x) (b + y)) d g = Some g'"
        "holds_weights g' (\<lambda>v. v < n) n (with_edge J s (tighter (J s d) (max (a + x) (b + y))) d)"
        using holds_update [OF J(1) ab(3) xy(3)] by blast
      have "entails L s d (a + x)" "entails R s d (b + y)"
        using entails_trans entails_edge ab(1,2) xy(1,2) by blast+
      from joined_edge [OF J(2) this, of "max (a + x) (b + y)"] g' J sums val(1) [OF xy(1)] val(2) [OF xy(2)]
      show "\<exists>g'. (if s \<noteq> d
         then do { lu \<leftarrow> rg_edge_val gx 0 d;
                   left_val \<leftarrow> num_add a lu;
                   ru \<leftarrow> rg_edge_val gy 0 d;
                   right_val \<leftarrow> num_add b ru;
                   update_edge s (max left_val right_val) d g }
         else Some g) = Some g' \<and> ?P g'"
        by (cases "s = d") auto
    qed
    then show "\<exists>g'. do { left_lb \<leftarrow> rg_edge_val gx s 0;
       right_lb \<leftarrow> rg_edge_val gy s 0;
       for_each (\<lambda>d g.
       if s \<noteq> d
       then do { lu \<leftarrow> rg_edge_val gx 0 d;
                 left_val \<leftarrow> num_add left_lb lu;
                 ru \<leftarrow> rg_edge_val gy 0 d;
                 right_val \<leftarrow> num_add right_lb ru;
                 update_edge s (max left_val right_val) d g }
       else Some g) ds g } = Some g' \<and> ?P g'"
      using val(1) [OF ab(1)] val(2) [OF ab(2)] by simp
  qed
  then show ?thesis by blast
qed

subsection \<open>Join and widening\<close>

definition pair_ok :: "aligned_pair \<Rightarrow> bool" where
  "pair_ok a \<longleftrightarrow> alignment (al_left a) (left_perm a) \<and> alignment (al_right a) (right_perm a) \<and>
     length (left_perm a) = length (right_perm a)"

text \<open>The contract of an operation that over-approximates both sides: the DBM that it returns holds
  wherever one of them holds, and its constraints are at least \<open>F\<close> of the two.\<close>

definition over_approximates ::
  "aligned_pair \<Rightarrow> (number option \<Rightarrow> number option \<Rightarrow> number option) \<Rightarrow> split_dbm option \<Rightarrow> bool" where
  "over_approximates a F res \<longleftrightarrow> (\<exists>j. res = Some j \<and> dbm_ok j \<and>
     (\<forall>v. live (dbm_g j) v \<longleftrightarrow> v < length (left_perm a)) \<and> graph_size (dbm_g j) = length (left_perm a) \<and>
     length (dbm_potential j) = length (left_perm a) \<and> dbm_unstable j = {} \<and>
     (\<forall>\<sigma>. dbm_holds \<sigma> (al_left a) \<longrightarrow> dbm_holds (\<lambda>v. \<sigma> (left_perm a ! v)) j) \<and>
     (\<forall>\<sigma>. dbm_holds \<sigma> (al_right a) \<longrightarrow> dbm_holds (\<lambda>v. \<sigma> (right_perm a ! v)) j) \<and>
     (\<forall>s d w. F (pulled (left_perm a) (al_left a) s d) (pulled (right_perm a) (al_right a) s d) = Some w \<longrightarrow>
        (\<forall>\<sigma>. dbm_holds \<sigma> j \<longrightarrow> \<sigma> d - \<sigma> s \<le> w)))"

lemma over_approximatesI:
  assumes "res = Some j" "dbm_ok j" "\<And>v. live (dbm_g j) v \<longleftrightarrow> v < length (left_perm a)"
    "graph_size (dbm_g j) = length (left_perm a)" "length (dbm_potential j) = length (left_perm a)" "dbm_unstable j = {}"
    and sol: "\<And>\<sigma>. dbm_holds \<sigma> j \<longleftrightarrow> solves \<sigma> J"
    and up: "\<And>\<sigma>. solves \<sigma> (pulled (left_perm a) (al_left a)) \<or> solves \<sigma> (pulled (right_perm a) (al_right a)) \<Longrightarrow> solves \<sigma> J"
    and low: "\<And>s d w. F (pulled (left_perm a) (al_left a) s d) (pulled (right_perm a) (al_right a) s d) = Some w \<Longrightarrow> entails J s d w"
  shows "over_approximates a F res"
  unfolding over_approximates_def
proof (intro exI conjI allI impI)
  show "dbm_holds (\<lambda>v. \<sigma> (left_perm a ! v)) j" if "dbm_holds \<sigma> (al_left a)" for \<sigma>
    unfolding sol by (rule up, rule disjI1, rule pulled_holds [OF that])
  show "dbm_holds (\<lambda>v. \<sigma> (right_perm a ! v)) j" if "dbm_holds \<sigma> (al_right a)" for \<sigma>
    unfolding sol by (rule up, rule disjI2, rule pulled_holds [OF that])
  show "\<sigma> d - \<sigma> s \<le> w"
    if "F (pulled (left_perm a) (al_left a) s d) (pulled (right_perm a) (al_right a) s d) = Some w" "dbm_holds \<sigma> j" for s d w \<sigma>
    using low [OF that(1)] that(2) unfolding sol entails_def by blast
qed (rule assms(1-6))+

lemma pair_views:
  assumes "pair_ok a"
  obtains px py where "graph_perm_new (left_perm a) (dbm_g (al_left a)) = Some px"
    "graph_perm_new (right_perm a) (dbm_g (al_right a)) = Some py"
    "aligned (perm_view px) (perm_view py) (length (left_perm a)) (pulled (left_perm a) (al_left a)) (pulled (right_perm a) (al_right a))"
  using assms alignment_view [of "al_left a" "left_perm a"] alignment_view [of "al_right a" "right_perm a"]
  by (auto simp: pair_ok_def aligned_def)

lemma join_solves:
  assumes "solves \<sigma> L \<or> solves \<sigma> R"
  shows "solves \<sigma> (\<lambda>s d. join_weight (L s d) (R s d))"
  unfolding solves_def
proof (intro allI impI)
  fix s d w assume "join_weight (L s d) (R s d) = Some w"
  then obtain x y where "L s d = Some x" "R s d = Some y" "x \<le> w" "y \<le> w"
    by (auto simp: join_weight_def split: option.splits)
  then show "\<sigma> d - \<sigma> s \<le> w" using assms solves_edge by (metis order.trans)
qed

lemma dbm_join_spec:
  assumes a: "pair_ok a"
  shows "over_approximates a join_weight (dbm_join a)"
proof -
  let ?n = "length (left_perm a)" and ?L = "pulled (left_perm a) (al_left a)" and ?R = "pulled (right_perm a) (al_right a)"
  have al: "alignment (al_left a) (left_perm a)" "alignment (al_right a) (right_perm a)" "length (right_perm a) = ?n"
    using a by (simp_all add: pair_ok_def)
  have n: "0 < ?n" by (rule alignmentD(5) [OF al(1)])
  obtain px py where v: "graph_perm_new (left_perm a) (dbm_g (al_left a)) = Some px"
    "graph_perm_new (right_perm a) (dbm_g (al_right a)) = Some py" "aligned (perm_view px) (perm_view py) ?n ?L ?R"
    by (rule pair_views [OF a])
  note V = alignedD [OF v(3)]
  have v': "aligned (perm_view py) (perm_view px) ?n ?R ?L" using v(3) by (simp add: aligned_def)
  have w: "weights_within (2 ^ 76) ?L" "weights_within (2 ^ 76) ?R" using pulled_within alignmentD(2) al by blast+
  obtain pl where pl: "relative_potentials (dbm_potential (al_left a)) (take ?n (left_perm a)) = Some pl" "vec_set 0 0 pl = Some pl"
    "length pl = ?n" "solves (\<lambda>x. pl ! x) ?L" "\<forall>x<?n. \<bar>pl ! x\<bar> \<le> 2 ^ 77" using alignment_potential [OF al(1)] by blast
  obtain pr where pr: "relative_potentials (dbm_potential (al_right a)) (take ?n (right_perm a)) = Some pr" "vec_set 0 0 pr = Some pr"
    "length pr = ?n" "solves (\<lambda>x. pr ! x) ?R" "\<forall>x<?n. \<bar>pr ! x\<bar> \<le> 2 ^ 77"
    using alignment_potential [OF al(2)] unfolding al(3) by blast
  obtain dr where dr: "compute_deferred (perm_view px) (perm_view py) ?n = Some dr" "holds_weights dr (\<lambda>v. v < ?n) ?n (deferred ?L ?R)"
    using compute_deferred_spec [OF v(3) n w(1)] by blast
  have k: "0 < (2 ^ 30 :: nat)" "0 + ?n < 2 ^ 30" using V(5) by simp_all
  obtain gl sc WL where gl: "close_deferred scratch_new (perm_view px) dr pl = Some (gl, sc)" "holds_weights gl (\<lambda>v. v < ?n) ?n WL"
    "\<forall>\<sigma>. solves \<sigma> WL \<longleftrightarrow> solves \<sigma> ?L" "\<forall>s d w. ?L s d = Some w \<longrightarrow> (\<exists>v\<le>w. WL s d = Some v)" "stamps_ok (0 + ?n) sc"
    using close_deferred_spec [OF V(1,3) w(1) n dr(2) pl(3-5) stamps_new k(1)] by blast
  obtain dl where dl: "compute_deferred (perm_view py) (perm_view px) ?n = Some dl" "holds_weights dl (\<lambda>v. v < ?n) ?n (deferred ?R ?L)"
    using compute_deferred_spec [OF v' n w(2)] by blast
  obtain gr sc2 WR where gr: "close_deferred sc (perm_view py) dl pr = Some (gr, sc2)" "holds_weights gr (\<lambda>v. v < ?n) ?n WR"
    "\<forall>\<sigma>. solves \<sigma> WR \<longleftrightarrow> solves \<sigma> ?R" "\<forall>s d w. ?R s d = Some w \<longrightarrow> (\<exists>v\<le>w. WR s d = Some v)"
    using close_deferred_spec [OF V(2,4) w(2) n dl(2) pr(3-5) gl(5) k(2)] by blast
  note GL = holdsD [OF gl(2)] and GR = holdsD [OF gr(2)]
  have nodes: "{v. live gl v} = {..<?n}" "{v. live gr v} = {..<?n}" using GL(2) GR(2) by auto
  have "aligned (adapt_view gl) (adapt_view gr) ?n WL WR"
    using presents_adapt [OF GL(1)] presents_adapt [OF GR(1)] GL(3,4) GR(3,4) nodes by (simp add: aligned_def) (simp add: adapt_view_def)
  then obtain g where g: "graph_join (adapt_view gl) (adapt_view gr) = Some g"
    "holds_weights g (\<lambda>v. v < ?n) ?n (\<lambda>s d. join_weight (WL s d) (WR s d))" using graph_join_spec by blast
  let ?J0 = "\<lambda>s d. join_weight (?L s d) (?R s d)"
  have J: "joined ?L ?R ?J0 (\<lambda>s d. join_weight (WL s d) (WR s d))"
    unfolding joined_def
  proof (intro conjI allI impI)
    fix \<sigma> assume "solves \<sigma> ?L \<or> solves \<sigma> ?R"
    then have "solves \<sigma> WL \<or> solves \<sigma> WR" using gl(3) gr(3) by blast
    then show "solves \<sigma> (\<lambda>s d. join_weight (WL s d) (WR s d))" by (rule join_solves)
  next
    fix s d w assume "?J0 s d = Some w"
    then obtain x y where xy: "?L s d = Some x" "?R s d = Some y" "w = max x y"
      by (auto simp: join_weight_def split: option.splits)
    then obtain x' y' where "x' \<le> x" "WL s d = Some x'" "y' \<le> y" "WR s d = Some y'" using gl(4) gr(4) by blast
    then show "\<exists>v\<le>w. join_weight (WL s d) (WR s d) = Some v" using xy(3) by (auto simp: join_weight_def)
  qed
  obtain vs where vs: "rg_verts (perm_view px) = Some vs" "set vs = {..<?n}" using presentsD(3) [OF V(1)] by blast
  let ?m0 = "\<lparr>lb_up = [], lb_down = [], ub_up = [], ub_down = []\<rparr> :: bound_moves"
  have "\<exists>m. for_each (bound_move (perm_view px) (perm_view py)) vs ?m0 = Some m \<and> moves_ok ?n ?L ?R m"
    by (rule for_each_inv) (use bound_move_spec [OF v(3)] vs(2) in \<open>auto simp: moves_ok_def two_sided_def\<close>)
  then obtain m where m: "for_each (bound_move (perm_view px) (perm_view py)) vs ?m0 = Some m" "moves_ok ?n ?L ?R m" by blast
  have m2: "two_sided ?n ?L ?R (set (lb_up m)) (set (ub_up m))" "two_sided ?n ?L ?R (set (lb_down m)) (set (ub_down m))"
    using m(2) by (auto simp: moves_ok_def two_sided_def)
  obtain g1 J1 where g1: "apply_lb_ub (perm_view px) (perm_view py) (lb_up m) (ub_up m) g = Some g1"
    "holds_weights g1 (\<lambda>v. v < ?n) ?n J1" "joined ?L ?R ?J0 J1"
    using apply_lb_ub_spec [OF v(3) w m2(1) g(2) J] by blast
  obtain g2 J2 where g2: "apply_lb_ub (perm_view px) (perm_view py) (lb_down m) (ub_down m) g1 = Some g2"
    "holds_weights g2 (\<lambda>v. v < ?n) ?n J2" "joined ?L ?R ?J0 J2"
    using apply_lb_ub_spec [OF v(3) w m2(2) g1(2,3)] by blast
  let ?j = "\<lparr>dbm_g = g2, dbm_potential = pl, dbm_unstable = {}\<rparr>"
  have "dbm_join a = Some ?j"
    using al(3) pl(1,2) pr(1,2) v(1,2) dr(1) gl(1) dl(1) gr(1) g(1) vs(1) m(1) g1(1) g2(1)
    by (simp add: dbm_join_def aligned_size_def)
  moreover have "entails J2 s d w" if "?J0 s d = Some w" for s d w
    using g2(3) that unfolding joined_def entails_def solves_def by (meson order.trans)
  moreover have "dbm_ok ?j" "live (dbm_g ?j) v \<longleftrightarrow> v < ?n" "dbm_holds \<sigma> ?j \<longleftrightarrow> solves \<sigma> J2"
    "graph_size (dbm_g ?j) = ?n" "length (dbm_potential ?j) = ?n" "dbm_unstable ?j = {}" for v \<sigma>
    using holdsD [OF g2(2)] g2(3) pl(3,4) n by (auto simp: dbm_ok_def dbm_holds_def joined_def)
  moreover have "solves \<sigma> J2" if "solves \<sigma> ?L \<or> solves \<sigma> ?R" for \<sigma> using g2(3) that unfolding joined_def by blast
  ultimately show ?thesis by (intro over_approximatesI)
qed

lemma dbm_widen_spec:
  assumes a: "pair_ok a"
  shows "over_approximates a widen_weight (dbm_widen a)"
proof -
  let ?n = "length (left_perm a)" and ?L = "pulled (left_perm a) (al_left a)" and ?R = "pulled (right_perm a) (al_right a)"
  let ?W = "\<lambda>s d. widen_weight (?L s d) (?R s d)"
  have al: "alignment (al_left a) (left_perm a)" using a by (simp add: pair_ok_def)
  obtain px py where v: "graph_perm_new (left_perm a) (dbm_g (al_left a)) = Some px"
    "graph_perm_new (right_perm a) (dbm_g (al_right a)) = Some py" "aligned (perm_view px) (perm_view py) ?n ?L ?R"
    by (rule pair_views [OF a])
  obtain p where p: "relative_potentials (dbm_potential (al_left a)) (take ?n (left_perm a)) = Some p" "vec_set 0 0 p = Some p"
    "length p = ?n" "solves (\<lambda>x. p ! x) ?L" "\<forall>x<?n. \<bar>p ! x\<bar> \<le> 2 ^ 77" using alignment_potential [OF al] by blast
  obtain g u where g: "graph_widen (perm_view px) (perm_view py) (dbm_unstable (al_left a)) = Some (g, u)"
    "holds_weights g (\<lambda>v. v < ?n) ?n ?W" using graph_widen_spec [OF v(3)] by blast
  note G = holdsD [OF g(2)]
  have W: "?W s d = Some w \<Longrightarrow> ?L s d = Some w \<and> (\<exists>x\<le>w. ?R s d = Some x)" for s d w
    by (auto simp: widen_weight_def split: option.splits if_splits)
  have sW: "solves \<sigma> ?W" if "solves \<sigma> ?L \<or> solves \<sigma> ?R" for \<sigma>
    using that W unfolding solves_def by (meson order.trans)
  let ?d = "\<lparr>dbm_g = g, dbm_potential = p, dbm_unstable = u\<rparr>"
  have "dbm_ok ?d" using G p sW [of "\<lambda>x. p ! x"] alignmentD(5) [OF al] by (simp add: dbm_ok_def)
  moreover have "dbm_within (2 ^ 78) ?d"
  proof -
    have "weights_within (2 ^ 76) ?L" using pulled_within alignmentD(2) [OF al] by blast
    then have "weights_within (2 ^ 78) ?W" using W unfolding weights_within_def by fastforce
    then show ?thesis using p(5) G by (force simp: dbm_within_def)
  qed
  ultimately obtain j where j: "normalize ?d = Some j" "keeps_solutions ?d j" "dbm_unstable j = {}" using normalize_spec by blast
  have run: "dbm_widen a = Some j"
    using p(1,2) v(1,2) g(1) j(1) by (simp add: dbm_widen_def aligned_size_def from_parts_def)
  have sol: "dbm_holds \<sigma> j \<longleftrightarrow> solves \<sigma> ?W" for \<sigma> using j(2) G(4) by (simp add: keeps_solutions_def dbm_holds_def)
  have "live (dbm_g j) v \<longleftrightarrow> v < ?n" for v using j(2) G(2) by (simp add: keeps_solutions_def)
  moreover have "dbm_ok j" "graph_size (dbm_g j) = ?n" "length (dbm_potential j) = ?n"
    using j(2) G(3) p(3) by (simp_all add: keeps_solutions_def)
  moreover have "entails ?W s d w" if "?W s d = Some w" for s d w
    using that by (simp add: entails_def solves_def)
  ultimately show ?thesis using run sol sW j(3) by (intro over_approximatesI)
qed

subsection \<open>The properties\<close>

text \<open>A DBM over zero and one variable with the constraint that the variable is at most 7.\<close>

definition sample_dbm :: split_dbm where
  "sample_dbm = \<lparr>dbm_g = sample_graph, dbm_potential = [0, 0], dbm_unstable = {}\<rparr>"

lemma sample_weight: "weight sample_graph s d = (if s = 0 \<and> d = 1 then Some 7 else None)"
  by (auto simp: weight_def edge_index_def table_look_def sample_graph_def nth_Cons')

lemma sample_live: "live sample_graph v \<longleftrightarrow> v < 2"
  by (auto simp: live_def sample_graph_def nth_Cons' less_2_cases_iff)

lemma sample_dbm_ok: "dbm_ok sample_dbm" "dbm_within (2 ^ 76) sample_dbm"
  using sample_graph_ok(1)
  by (auto simp: dbm_ok_def dbm_within_def sample_dbm_def sample_live sample_weight solves_def weights_within_def
      nth_Cons' less_2_cases_iff split: if_splits) (simp add: graph_size_def sample_graph_def)

text \<open>C37: Inclusion of split DBMs is sound.  When \<open>is_subsumed_by\<close> answers \<open>true\<close> for a renaming of
  the vertices of the right DBM into the left one, then every solution of the left DBM, renamed, is a
  solution of the right one; on DBMs with numbers of at most 120 bits it never panics.\<close>

theorem dbm_inclusion_sound:
  assumes "dbm_ok l" "dbm_within (2 ^ 120) l" "dbm_ok r" "perm_covers l r perm"
  shows "\<exists>b. is_subsumed_by l r perm = Some b \<and>
    (b \<longrightarrow> (\<forall>\<sigma>. dbm_holds \<sigma> l \<longrightarrow> dbm_holds (\<lambda>v. \<sigma> (perm ! v)) r))"
  by (rule is_subsumed_by_spec [OF assms])

theorem dbm_inclusion_sound_witness:
  "is_subsumed_by sample_dbm sample_dbm [0, 1] = Some True \<and>
     {\<sigma>. dbm_holds \<sigma> sample_dbm} \<subseteq> {\<sigma>. dbm_holds (\<lambda>v. \<sigma> ([0, 1] ! v)) sample_dbm}"
proof -
  have "dbm_within (2 ^ 120) sample_dbm" by (rule dbm_within_mono [OF sample_dbm_ok(2)]) simp
  moreover have "perm_covers sample_dbm sample_dbm [0, 1]"
    by (auto simp: perm_covers_def sample_dbm_def sample_weight sample_live split: if_splits)
  moreover have "is_subsumed_by sample_dbm sample_dbm [0, 1] = Some True"
    by (simp add: is_subsumed_by_def sample_dbm_def sample_graph_def graph_verts_def succs_len_def e_succs_def
        smap_size_def graph_lookup_def smap_lookup_def)
  ultimately show ?thesis using dbm_inclusion_sound [OF sample_dbm_ok(1) _ sample_dbm_ok(1), of "[0, 1]"] by auto
qed

text \<open>C8: The join and the widening of two split DBMs over-approximate both.  For an aligned pair whose
  potentials are solutions and whose numbers have at most 76 bits, both return without a panic a DBM
  over the vertices of the alignment whose potential is a solution.  Every solution of the left DBM and
  every solution of the right DBM, moved to the alignment, is a solution of the result.  The result is
  precise at least edge by edge: an edge of both sides bounds the result of the join by the weaker of
  its two weights, and an edge of the left side that the right side keeps bounds the widening.\<close>

theorem dbm_join_widen_sound:
  assumes "pair_ok a"
  shows "over_approximates a join_weight (dbm_join a) \<and> over_approximates a widen_weight (dbm_widen a)"
  using dbm_join_spec [OF assms] dbm_widen_spec [OF assms] by blast

theorem dbm_join_widen_sound_witness:
  "\<exists>j. dbm_join \<lparr>al_left = sample_dbm, al_right = sample_dbm, left_perm = [0, 1], right_perm = [0, 1],
       initial_potentials = []\<rparr> = Some j \<and> dbm_ok j \<and> {\<sigma>. dbm_holds \<sigma> j} \<subseteq> {\<sigma>. \<sigma> 1 - \<sigma> 0 \<le> 7}"
proof -
  let ?a = "\<lparr>al_left = sample_dbm, al_right = sample_dbm, left_perm = [0, 1], right_perm = [0, 1],
       initial_potentials = []\<rparr>"
  have "alignment sample_dbm [0, 1]"
    using sample_dbm_ok by (simp add: alignment_def) (simp add: sample_dbm_def sample_live)
  then have "pair_ok ?a" by (simp add: pair_ok_def)
  from dbm_join_widen_sound [OF this] have "over_approximates ?a join_weight (dbm_join ?a)" by blast
  moreover have "join_weight (pulled [0, 1] sample_dbm 0 1) (pulled [0, 1] sample_dbm 0 1) = Some 7"
    by (simp add: join_weight_def pulled_def sample_dbm_def sample_weight)
  ultimately show ?thesis unfolding over_approximates_def by (elim exE conjE) (intro exI conjI, auto)
qed

end
