(* ===== verification/Dbm_Assign.thy ===== *)
theory Dbm_Assign
  imports Dbm_Lattice
begin

text \<open>
  Reading and setting bounds, and defining a vertex: the operations of
  \<open>src/crab/splitdbm/split_dbm.rs\<close> with which the zone domain assigns variables.
\<close>

subsection \<open>Bounds\<close>

lemma get_bound_spec:
  assumes ok: "dbm_ok d" "dbm_within b d" "b \<le> 2 ^ 120" and v: "live (dbm_g d) v"
  shows "get_bound d v side.Left = Some (case weight (dbm_g d) v 0 of Some w \<Rightarrow> Finite (- w) | None \<Rightarrow> MinusInfinity)"
    "get_bound d v side.Right = Some (case weight (dbm_g d) 0 v of Some w \<Rightarrow> Finite w | None \<Rightarrow> PlusInfinity)"
proof -
  note D = dbm_okD [OF ok(1)]
  have e: "graph_elem (dbm_g d) s t = Some (weight (dbm_g d) s t \<noteq> None)" if "live (dbm_g d) s" for s t
    using graph_elem_spec [OF live_graph_size [OF that]] .
  have n: "num_neg w = Some (- w)" if "weight (dbm_g d) s t = Some w" for s t w
    using num_neg_small weights_withinD [OF dbm_withinD(1) [OF ok(2)] that] ok(3) by force
  show "get_bound d v side.Left = Some (case weight (dbm_g d) v 0 of Some w \<Rightarrow> Finite (- w) | None \<Rightarrow> MinusInfinity)"
    using e [OF v, of 0] n [of v 0] edge_val_spec [OF D(1), of v 0] by (cases "weight (dbm_g d) v 0") (auto simp: get_bound_def)
  show "get_bound d v side.Right = Some (case weight (dbm_g d) 0 v of Some w \<Rightarrow> Finite w | None \<Rightarrow> PlusInfinity)"
    using e [OF D(2), of v] edge_val_spec [OF D(1), of 0 v] by (cases "weight (dbm_g d) 0 v") (auto simp: get_bound_def)
qed

text \<open>
  Setting a bound moves the potential of the vertex there, so the vertex has to be free but for a
  bound on the other side that agrees.
\<close>

definition bound_only :: "split_dbm \<Rightarrow> nat \<Rightarrow> int \<Rightarrow> bool" where
  "bound_only d v x \<longleftrightarrow>
     (\<forall>s w. weight (dbm_g d) s v = Some w \<longrightarrow> s = 0 \<and> x \<le> w) \<and> (\<forall>t w. weight (dbm_g d) v t = Some w \<longrightarrow> t = 0 \<and> - w \<le> x)"

lemma set_bound_spec:
  assumes ok: "dbm_ok d" "dbm_within b d" "b \<le> 2 ^ 120" "\<bar>x\<bar> \<le> b" and v: "live (dbm_g d) v" "v \<noteq> 0"
    and free: "bound_only d v x" and c: "bound_constraint v sd x = (src, dest, k)"
    and none: "weight (dbm_g d) src dest = None"
  shows "\<exists>d'. set_bound d v sd x = Some d' \<and> dbm_ok d' \<and> same_shape d d' \<and> dbm_within (2 * b) d' \<and>
    weight (dbm_g d') = with_edge (weight (dbm_g d)) src k dest \<and>
    (\<forall>\<sigma>. dbm_holds \<sigma> d' \<longleftrightarrow> dbm_holds \<sigma> d \<and> \<sigma> dest - \<sigma> src \<le> k)"
proof -
  note D = dbm_okD [OF ok(1)]
  let ?W = "weight (dbm_g d)" and ?p = "dbm_potential d"
  have ends: "live (dbm_g d) src" "live (dbm_g d) dest" "\<bar>k\<bar> \<le> b"
    using c v(1) D(2) ok(4) by (auto simp: bound_constraint_def split: side.splits)
  have n: "num_neg x = Some (- x)" using num_neg_small [of x] ok(3,4) by force
  obtain g where g: "set_edge src k dest (dbm_g d) = Some g"
    "holds_weights g (live (dbm_g d)) (graph_size (dbm_g d)) (with_edge ?W src k dest)"
    using holds_set [OF dbm_holds_weights [OF ok(1)] ends(1,2)] by blast
  note G = holdsD [OF g(2)]
  have p0: "\<bar>?p ! 0\<bar> \<le> b" by (rule dbm_withinD(2) [OF ok(2) D(2)])
  have add: "num_add (?p ! 0) x = Some (?p ! 0 + x)" using num_add_small [OF p0, of x] ok(3,4) by simp
  have len: "0 < length ?p" "v < length ?p" using D(3) D(2) v(1) by auto
  let ?d = "d\<lparr>dbm_g := g, dbm_potential := ?p[v := ?p ! 0 + x]\<rparr>"
  have run: "set_bound d v sd x = Some ?d"
    using g(1) c n add len by (auto simp: set_bound_def bound_constraint_def vec_set_def split: side.splits)
  have edge: "(?p[v := ?p ! 0 + x]) ! t - (?p[v := ?p ! 0 + x]) ! s \<le> w" if "with_edge ?W src k dest s t = Some w" for s t w
  proof (cases "s = src \<and> t = dest")
    case True
    then show ?thesis using that c v(2) len by (auto simp: bound_constraint_def split: side.splits)
  next
    case False
    then have W: "?W s t = Some w" using that by (auto split: if_splits)
    consider "s = v" | "t = v" "s \<noteq> v" | "s \<noteq> v" "t \<noteq> v" by blast
    then show ?thesis
    proof cases
      case 1
      then have "t = 0" "- w \<le> x" using free W unfolding bound_only_def by blast+
      then show ?thesis using 1 v(2) len by simp
    next
      case 2
      then have "s = 0" "x \<le> w" using free W unfolding bound_only_def by blast+
      then show ?thesis using 2 v(2) len by simp
    qed (use solves_edge [OF D(4) W] in simp)
  qed
  then have sol: "solves (\<lambda>u. (?p[v := ?p ! 0 + x]) ! u) (with_edge ?W src k dest)" unfolding solves_def by blast
  then have "dbm_ok ?d" using D(2,5) G by (simp add: dbm_ok_def)
  moreover have "dbm_within (2 * b) ?d"
  proof -
    have "\<bar>(?p[v := ?p ! 0 + x]) ! u\<bar> \<le> 2 * b" if "live (dbm_g d) u" for u
      using dbm_withinD(2) [OF ok(2) that] p0 ok(4) len(2) by (cases "u = v") auto
    moreover have "weights_within (2 * b) (with_edge ?W src k dest)"
      using dbm_withinD(1) [OF ok(2)] ends(3) p0 by (auto simp: weights_within_def) fastforce+
    ultimately show ?thesis using G by (simp add: dbm_within_def)
  qed
  moreover have "dbm_holds \<sigma> ?d \<longleftrightarrow> dbm_holds \<sigma> d \<and> \<sigma> dest - \<sigma> src \<le> k" for \<sigma>
    using solves_set_tighter [of ?W src dest k \<sigma>] none G(4) by (simp add: dbm_holds_def)
  moreover have "same_shape d ?d" using G by (simp add: same_shape_def)
  ultimately show ?thesis using run G(4) by (intro exI [of _ ?d]) simp
qed

subsection \<open>Edges written in a batch\<close>

lemma apply_delta_sub:
  assumes "holds_weights g L n W" "\<forall>(s, d, w)\<in>set delta. L s \<and> L d"
  shows "\<exists>g' W'. apply_delta delta g = Some g' \<and> holds_weights g' L n W' \<and>
    (\<forall>s d w. W' s d = Some w \<longrightarrow> W s d = Some w \<or> (s, d, w) \<in> set delta)"
proof -
  let ?P = "\<lambda>g. \<exists>U. holds_weights g L n U \<and> (\<forall>s d w. U s d = Some w \<longrightarrow> W s d = Some w \<or> (s, d, w) \<in> set delta)"
  have "\<exists>t. for_each (\<lambda>(s, d, w) g. set_edge s w d g) delta g = Some t \<and> ?P t"
  proof (rule for_each_inv)
    show "?P g" using assms(1) by blast
  next
    fix x g assume x: "x \<in> set delta" "?P g"
    obtain s d w where sdw: "x = (s, d, w)" by (cases x)
    obtain U where U: "holds_weights g L n U" "\<forall>s d w. U s d = Some w \<longrightarrow> W s d = Some w \<or> (s, d, w) \<in> set delta"
      using x(2) by blast
    have e: "L s" "L d" using assms(2) x(1) sdw by auto
    obtain g' where "set_edge s w d g = Some g'" "holds_weights g' L n (with_edge U s w d)"
      using holds_set [OF U(1) e] by blast
    moreover have "\<forall>a b v. with_edge U s w d a b = Some v \<longrightarrow> W a b = Some v \<or> (a, b, v) \<in> set delta"
      using U(2) x(1) sdw by auto
    ultimately have "(case x of (s, d, w) \<Rightarrow> set_edge s w d) g = Some g'" "?P g'" using sdw by (simp, blast)
    then show "\<exists>t. (case x of (s, d, w) \<Rightarrow> set_edge s w d) g = Some t \<and> ?P t" by blast
  qed
  then show ?thesis by (auto simp: apply_delta_def)
qed

subsection \<open>A vertex with its constraints\<close>

text \<open>The constraints of \<open>assign_vertex\<close> between the value of the new vertex and the others.\<close>

definition vertex_fits ::
  "(nat \<times> number) list \<Rightarrow> (nat \<times> number) list \<Rightarrow> number option \<Rightarrow> number option \<Rightarrow> (nat \<Rightarrow> int) \<Rightarrow> int \<Rightarrow> bool" where
  "vertex_fits diffs_from diffs_to lb ub \<sigma> x \<longleftrightarrow>
     (\<forall>(t, w)\<in>set diffs_from. \<sigma> t - x \<le> w) \<and> (\<forall>(s, w)\<in>set diffs_to. x - \<sigma> s \<le> w) \<and>
     (\<forall>w. lb = Some w \<longrightarrow> \<sigma> 0 - x \<le> w) \<and> (\<forall>w. ub = Some w \<longrightarrow> x - \<sigma> 0 \<le> w)"

lemma new_vertex_within:
  assumes "dbm_new_vertex d = Some (v, d')" "weight (dbm_g d') = weight (dbm_g d)"
    "\<forall>u. live (dbm_g d') u \<longleftrightarrow> u = v \<or> live (dbm_g d) u" "dbm_potential d' ! v = 0"
    "\<forall>u. live (dbm_g d) u \<longrightarrow> dbm_potential d' ! u = dbm_potential d ! u" "dbm_within b d" "0 \<le> b"
  shows "dbm_within b d'"
  using assms by (auto simp: dbm_within_def)

lemma tighten_to_zero:
  assumes ok: "dbm_ok d" and e: "live (dbm_g d) s" "live (dbm_g d) t" and fits: "dbm_potential d ! t - dbm_potential d ! s \<le> w"
  shows "\<exists>g. update_edge s w t (dbm_g d) = Some g \<and> dbm_ok (d\<lparr>dbm_g := g\<rparr>) \<and> live g = live (dbm_g d) \<and>
    graph_size g = graph_size (dbm_g d) \<and>
    (\<forall>\<sigma>. dbm_holds \<sigma> (d\<lparr>dbm_g := g\<rparr>) \<longleftrightarrow> dbm_holds \<sigma> d \<and> \<sigma> t - \<sigma> s \<le> w)"
proof -
  obtain g where g: "update_edge s w t (dbm_g d) = Some g"
    "holds_weights g (live (dbm_g d)) (graph_size (dbm_g d)) (with_edge (weight (dbm_g d)) s (tighter (weight (dbm_g d) s t) w) t)"
    using holds_update [OF dbm_holds_weights [OF ok] e] by blast
  then show ?thesis
    using dbm_okD [OF ok] holdsD [OF g(2)] solves_tighter [of _ "weight (dbm_g d)" s t w] fits
    by (intro exI [of _ g]) (simp add: dbm_ok_def dbm_holds_def)
qed

lemma assign_vertex_spec:
  assumes ok: "dbm_ok d" "dbm_within b d" "b \<le> 2 ^ 100" "0 \<le> b"
    and room: "graph_size (dbm_g d) < 65535 \<or> g_free_id (dbm_g d) \<noteq> []" "graph_size (dbm_g d) = length (dbm_potential d)"
    and ends: "\<forall>(t, w)\<in>set df \<union> set dt. live (dbm_g d) t \<and> \<bar>w\<bar> \<le> b" and pv: "\<bar>pv\<bar> \<le> b"
    and fits: "vertex_fits df dt lb ub (\<lambda>u. dbm_potential d ! u) pv"
  shows "\<exists>v d'. assign_vertex pv df dt lb ub d = Some (v, d') \<and> dbm_ok d' \<and> v \<noteq> 0 \<and> \<not> live (dbm_g d) v \<and>
    (\<forall>u. live (dbm_g d') u \<longleftrightarrow> u = v \<or> live (dbm_g d) u) \<and> graph_size (dbm_g d') = length (dbm_potential d') \<and>
    graph_size (dbm_g d') = max (graph_size (dbm_g d)) (v + 1) \<and> v \<le> graph_size (dbm_g d) \<and> dbm_unstable d' = dbm_unstable d \<and>
    (\<forall>\<sigma>. dbm_holds \<sigma> d \<longrightarrow> vertex_fits df dt lb ub \<sigma> (\<sigma> v) \<longrightarrow> dbm_holds \<sigma> d')"
proof -
  obtain v d1 where d1: "dbm_new_vertex d = Some (v, d1)" "dbm_ok d1" "v \<noteq> 0" "\<not> live (dbm_g d) v"
    "\<forall>u. live (dbm_g d1) u \<longleftrightarrow> u = v \<or> live (dbm_g d) u" "weight (dbm_g d1) = weight (dbm_g d)" "dbm_potential d1 ! v = 0"
    "\<forall>u. live (dbm_g d) u \<longrightarrow> dbm_potential d1 ! u = dbm_potential d ! u" "graph_size (dbm_g d1) = length (dbm_potential d1)"
    "dbm_unstable d1 = dbm_unstable d" "graph_size (dbm_g d1) = max (graph_size (dbm_g d)) (v + 1)" "v \<le> graph_size (dbm_g d)"
    using dbm_new_vertex_spec [OF ok(1) room] by blast
  let ?W = "weight (dbm_g d)"
  let ?p = "(dbm_potential d1)[v := pv]"
  have v: "v < length (dbm_potential d1)" using dbm_okD(3) [OF d1(2), of v] d1(5) by blast
  have p: "?p ! v = pv" "?p ! u = dbm_potential d ! u" if "live (dbm_g d) u" for u
    using v d1(4,8) that by (cases "u = v"; simp)+
  have pu: "?p ! u = dbm_potential d ! u" if "live (dbm_g d) u" for u using p(2) [OF that] .
  have pvv: "?p ! v = pv" using v by simp
  have z: "live (dbm_g d) 0" by (rule dbm_okD(2) [OF ok(1)])
  let ?delta = "map (\<lambda>(dest, w). (v, dest, w)) df @ map (\<lambda>(src, w). (src, v, w)) dt"
  have "\<forall>(s, t, w)\<in>set ?delta. live (dbm_g d1) s \<and> live (dbm_g d1) t" using ends d1(5) by auto
  from apply_delta_sub [OF dbm_holds_weights [OF d1(2)] this]
  obtain g W where g: "apply_delta ?delta (dbm_g d1) = Some g" "holds_weights g (live (dbm_g d1)) (graph_size (dbm_g d1)) W"
    "\<forall>s t w. W s t = Some w \<longrightarrow> ?W s t = Some w \<or> (s, t, w) \<in> set ?delta"
    unfolding d1(6) by blast
  note G = holdsD [OF g(2)]
  let ?d2 = "d1\<lparr>dbm_potential := ?p, dbm_g := g\<rparr>"
  have W: "?W s t = Some w \<and> live (dbm_g d) s \<and> live (dbm_g d) t \<or> s = v \<and> (t, w) \<in> set df \<or> t = v \<and> (s, w) \<in> set dt"
    if "W s t = Some w" for s t w
    using g(3) that weight_live [OF dbm_okD(1) [OF ok(1)]] by fastforce
  have sol: "solves \<sigma> W" if "dbm_holds \<sigma> d" "vertex_fits df dt None None \<sigma> (\<sigma> v)" for \<sigma>
    unfolding solves_def
  proof (intro allI impI)
    fix s t w assume "W s t = Some w"
    from W [OF this] show "\<sigma> t - \<sigma> s \<le> w"
      using that solves_edge [of \<sigma> ?W s t w] unfolding vertex_fits_def dbm_holds_def by blast
  qed
  have eq: "vertex_fits df dt l u (\<lambda>u. ?p ! u) pv" if "vertex_fits df dt l u (\<lambda>u. dbm_potential d ! u) pv" for l u
  proof -
    have same: "?p ! t = dbm_potential d ! t" if "(t, w) \<in> set df \<union> set dt" for t w using ends pu that by blast
    have "?p ! t - pv \<le> w" if "(t, w) \<in> set df" for t w
      using \<open>vertex_fits df dt l u (\<lambda>u. dbm_potential d ! u) pv\<close> that same [of t w] unfolding vertex_fits_def by fastforce
    moreover have "pv - ?p ! s \<le> w" if "(s, w) \<in> set dt" for s w
      using \<open>vertex_fits df dt l u (\<lambda>u. dbm_potential d ! u) pv\<close> that same [of s w] unfolding vertex_fits_def by fastforce
    ultimately show ?thesis using that pu [OF z] unfolding vertex_fits_def by auto
  qed
  have "solves (\<lambda>u. ?p ! u) ?W"
    using dbm_okD(4) [OF ok(1)] weight_live [OF dbm_okD(1) [OF ok(1)]] pu unfolding solves_def by metis
  then have "solves (\<lambda>u. ?p ! u) W"
    using sol [of "\<lambda>u. ?p ! u"] eq [of None None] fits pvv by (simp add: dbm_holds_def vertex_fits_def)
  then have ok2: "dbm_ok ?d2" using G dbm_okD(2) [OF d1(2)] d1(9) by (simp add: dbm_ok_def)
  have within2: "dbm_within (2 ^ 100) ?d2"
  proof -
    have "\<bar>?p ! u\<bar> \<le> 2 ^ 100" if "live (dbm_g d1) u" for u
      using that d1(5) pu pvv pv dbm_withinD(2) [OF ok(2)] ok(3) by fastforce
    moreover have "\<bar>w\<bar> \<le> 2 ^ 100" if "W s t = Some w" for s t w
    proof -
      have "\<bar>w\<bar> \<le> b" using W [OF that]
      proof (elim disjE conjE)
        assume "?W s t = Some w"
        then show ?thesis using weights_withinD [OF dbm_withinD(1) [OF ok(2)]] by blast
      qed (use ends in blast)+
      then show ?thesis using ok(3) by simp
    qed
    ultimately show ?thesis using G by (simp add: dbm_within_def weights_within_def)
  qed
  have lv2: "live (dbm_g ?d2) v" using G(2) d1(5) by simp
  obtain d3 where d3: "close_after_assign_vertex v ?d2 = Some d3" "keeps_solutions ?d2 d3" "dbm_unstable d3 = dbm_unstable ?d2"
    using close_after_assign_vertex_spec [OF ok2 within2 lv2 d1(3)] by blast
  have ok3: "dbm_ok d3" and lv3: "live (dbm_g d3) = live (dbm_g d1)" and sz3: "graph_size (dbm_g d3) = graph_size (dbm_g d1)"
    and pot3: "dbm_potential d3 = ?p" and sol3: "\<And>\<sigma>. dbm_holds \<sigma> d3 \<longleftrightarrow> solves \<sigma> W"
    using d3(2) G by (simp_all add: keeps_solutions_def dbm_holds_def)
  have e3: "live (dbm_g d3) v" "live (dbm_g d3) 0" using lv3 d1(5) z by auto
  have "\<exists>g4. (case lb of Some l \<Rightarrow> update_edge v l 0 (dbm_g d3) | None \<Rightarrow> Some (dbm_g d3)) = Some g4 \<and>
      dbm_ok (d3\<lparr>dbm_g := g4\<rparr>) \<and> live g4 = live (dbm_g d3) \<and> graph_size g4 = graph_size (dbm_g d3) \<and>
      (\<forall>\<sigma>. dbm_holds \<sigma> (d3\<lparr>dbm_g := g4\<rparr>) \<longleftrightarrow> dbm_holds \<sigma> d3 \<and> (\<forall>w. lb = Some w \<longrightarrow> \<sigma> 0 - \<sigma> v \<le> w))"
  proof (cases lb)
    case (Some l)
    have "dbm_potential d3 ! 0 - dbm_potential d3 ! v \<le> l" using fits Some pot3 pu [OF z] pvv by (simp add: vertex_fits_def)
    then show ?thesis using tighten_to_zero [OF ok3 e3] Some by auto
  qed (use ok3 in simp)
  then obtain g4 where g4: "(case lb of Some l \<Rightarrow> update_edge v l 0 (dbm_g d3) | None \<Rightarrow> Some (dbm_g d3)) = Some g4"
    "dbm_ok (d3\<lparr>dbm_g := g4\<rparr>)" "live g4 = live (dbm_g d3)" "graph_size g4 = graph_size (dbm_g d3)"
    "\<And>\<sigma>. dbm_holds \<sigma> (d3\<lparr>dbm_g := g4\<rparr>) \<longleftrightarrow> dbm_holds \<sigma> d3 \<and> (\<forall>w. lb = Some w \<longrightarrow> \<sigma> 0 - \<sigma> v \<le> w)" by blast
  let ?d4 = "d3\<lparr>dbm_g := g4\<rparr>"
  have e4: "live (dbm_g ?d4) 0" "live (dbm_g ?d4) v" using e3 g4(3) by auto
  have "\<exists>g5. (case ub of Some u \<Rightarrow> update_edge 0 u v g4 | None \<Rightarrow> Some g4) = Some g5 \<and>
      dbm_ok (?d4\<lparr>dbm_g := g5\<rparr>) \<and> live g5 = live g4 \<and> graph_size g5 = graph_size g4 \<and>
      (\<forall>\<sigma>. dbm_holds \<sigma> (?d4\<lparr>dbm_g := g5\<rparr>) \<longleftrightarrow> dbm_holds \<sigma> ?d4 \<and> (\<forall>w. ub = Some w \<longrightarrow> \<sigma> v - \<sigma> 0 \<le> w))"
  proof (cases ub)
    case (Some u)
    have "dbm_potential ?d4 ! v - dbm_potential ?d4 ! 0 \<le> u" using fits Some pot3 pu [OF z] pvv by (simp add: vertex_fits_def)
    then show ?thesis using tighten_to_zero [OF g4(2) e4] Some by auto
  qed (use g4(2) in simp)
  then obtain g5 where g5: "(case ub of Some u \<Rightarrow> update_edge 0 u v g4 | None \<Rightarrow> Some g4) = Some g5"
    "dbm_ok (?d4\<lparr>dbm_g := g5\<rparr>)" "live g5 = live g4" "graph_size g5 = graph_size g4"
    "\<And>\<sigma>. dbm_holds \<sigma> (?d4\<lparr>dbm_g := g5\<rparr>) \<longleftrightarrow> dbm_holds \<sigma> ?d4 \<and> (\<forall>w. ub = Some w \<longrightarrow> \<sigma> v - \<sigma> 0 \<le> w)" by blast
  let ?d5 = "d3\<lparr>dbm_g := g5\<rparr>"
  have run: "assign_vertex pv df dt lb ub d = Some (v, ?d5)"
    using d1(1) v g(1) d3(1) g4(1) g5(1) by (simp add: assign_vertex_def vec_set_def dbm_apply_delta_def)
  have "dbm_holds \<sigma> ?d5" if "dbm_holds \<sigma> d" "vertex_fits df dt lb ub \<sigma> (\<sigma> v)" for \<sigma>
  proof -
    have "solves \<sigma> W" using sol that by (simp add: vertex_fits_def)
    then show ?thesis using g5(5) g4(5) sol3 that(2) by (simp add: vertex_fits_def)
  qed
  moreover have "graph_size (dbm_g ?d5) = length (dbm_potential ?d5)" "graph_size (dbm_g ?d5) = max (graph_size (dbm_g d)) (v + 1)"
    using g5(4) g4(4) sz3 pot3 d1(9,11) by simp_all
  moreover have "dbm_unstable ?d5 = dbm_unstable d" using d3(3) d1(10) by simp
  moreover have "live (dbm_g ?d5) u \<longleftrightarrow> u = v \<or> live (dbm_g d) u" for u using g5(3) g4(3) lv3 d1(5) by simp
  ultimately show ?thesis using run g5(2) d1(3,4,12) by (intro exI [of _ v] exI [of _ ?d5]) simp
qed

end
