(* ===== verification/Zone_Soundness.thy ===== *)
theory Zone_Soundness
  imports Zone_Domain Dbm_Assign
begin

text \<open>
  The zone domain as a set of valuations: a valuation \<open>\<rho>\<close> of the variables is in a zone when its split
  DBM has a solution that is zero at vertex 0 and agrees with \<open>\<rho>\<close> at the vertices of the variables.
\<close>

subsection \<open>The invariant\<close>

definition zone_ok :: "zone_domain \<Rightarrow> bool" where
  "zone_ok z \<longleftrightarrow> dbm_ok (z_core z) \<and> bt_ok (z_vert_map z) \<and> dbm_unstable (z_core z) = {} \<and>
     graph_size (dbm_g (z_core z)) = length (dbm_potential (z_core z)) \<and>
     length (z_rev_map z) = graph_size (dbm_g (z_core z)) \<and>
     (\<forall>x v. map_of (z_vert_map z) x = Some v \<longrightarrow>
        v \<noteq> 0 \<and> live (dbm_g (z_core z)) v \<and> z_rev_map z ! v = Some x)"

definition zone_within :: "int \<Rightarrow> zone_domain \<Rightarrow> bool" where
  "zone_within b z \<longleftrightarrow> dbm_within b (z_core z)"

definition zone_model :: "(nat \<Rightarrow> int) \<Rightarrow> (variable \<Rightarrow> int) \<Rightarrow> zone_domain \<Rightarrow> bool" where
  "zone_model \<sigma> \<rho> z \<longleftrightarrow> \<sigma> 0 = 0 \<and> dbm_holds \<sigma> (z_core z) \<and> (\<forall>x v. map_of (z_vert_map z) x = Some v \<longrightarrow> \<sigma> v = \<rho> x)"

definition zone_holds :: "(variable \<Rightarrow> int) \<Rightarrow> zone_domain \<Rightarrow> bool" where
  "zone_holds \<rho> z \<longleftrightarrow> (\<exists>\<sigma>. zone_model \<sigma> \<rho> z)"

text \<open>Room for more vertices; a vertex is a 16-bit number.\<close>

definition zone_room :: "nat \<Rightarrow> zone_domain \<Rightarrow> bool" where
  "zone_room k z \<longleftrightarrow> graph_size (dbm_g (z_core z)) + k \<le> 65535"

lemma zone_okD:
  assumes "zone_ok z"
  shows "dbm_ok (z_core z)" "bt_ok (z_vert_map z)" "dbm_unstable (z_core z) = {}"
    "graph_size (dbm_g (z_core z)) = length (dbm_potential (z_core z))"
    "length (z_rev_map z) = graph_size (dbm_g (z_core z))"
    "\<And>x v. map_of (z_vert_map z) x = Some v \<Longrightarrow> v \<noteq> 0 \<and> live (dbm_g (z_core z)) v \<and> z_rev_map z ! v = Some x"
  using assms unfolding zone_ok_def by blast+

lemma zone_within_mono: "zone_within a z \<Longrightarrow> a \<le> b \<Longrightarrow> zone_within b z"
  unfolding zone_within_def by (rule dbm_within_mono)

lemma vert_map_inj:
  assumes "zone_ok z" "map_of (z_vert_map z) x = Some v" "map_of (z_vert_map z) y = Some v"
  shows "x = y"
  using zone_okD(6) [OF assms(1,2)] zone_okD(6) [OF assms(1,3)] by simp

lemma edge_live: "dbm_ok d \<Longrightarrow> weight (dbm_g d) s t = Some w \<Longrightarrow> live (dbm_g d) s \<and> live (dbm_g d) t"
  using weight_live [OF dbm_okD(1)] by blast

lemma dbm_holds_local:
  assumes "dbm_ok d" "\<And>u. live (dbm_g d) u \<Longrightarrow> \<tau> u = \<sigma> u"
  shows "dbm_holds \<tau> d \<longleftrightarrow> dbm_holds \<sigma> d"
  unfolding dbm_holds_def solves_def using edge_live [OF assms(1)] assms(2) by metis

text \<open>The states that only gain vertices.\<close>

definition zone_grows :: "zone_domain \<Rightarrow> zone_domain \<Rightarrow> bool" where
  "zone_grows z z' \<longleftrightarrow> (\<forall>x v. map_of (z_vert_map z) x = Some v \<longrightarrow> map_of (z_vert_map z') x = Some v)"

lemma zone_grows_refl: "zone_grows z z"
  by (simp add: zone_grows_def)

lemma zone_grows_trans: "zone_grows a b \<Longrightarrow> zone_grows b c \<Longrightarrow> zone_grows a c"
  by (simp add: zone_grows_def)

lemma get_vert_spec:
  assumes ok: "zone_ok z" and room: "zone_room (Suc k) z" and b: "zone_within b z" "0 \<le> b"
  shows "\<exists>v z'. get_vert x z = Some (v, z') \<and> zone_ok z' \<and> zone_room k z' \<and> zone_within b z' \<and> zone_grows z z' \<and>
    map_of (z_vert_map z') x = Some v \<and> (\<forall>\<rho>. zone_holds \<rho> z' \<longleftrightarrow> zone_holds \<rho> z) \<and>
    (map_of (z_vert_map z) x = None \<longrightarrow> \<not> live (dbm_g (z_core z)) v) \<and> weight (dbm_g (z_core z')) = weight (dbm_g (z_core z)) \<and>
    (\<forall>y. pot_value z' y = pot_value z y) \<and> potential_at_zero (z_core z') = potential_at_zero (z_core z)"
proof (cases "map_of (z_vert_map z) x")
  case (Some v)
  then show ?thesis
    using assms by (intro exI [of _ v] exI [of _ z]) (simp add: get_vert_def zone_grows_refl zone_room_def)
next
  case None
  note Z = zone_okD [OF ok]
  let ?d = "z_core z"
  have "graph_size (dbm_g ?d) < 65535" using room by (simp add: zone_room_def)
  then obtain v d' where d': "dbm_new_vertex ?d = Some (v, d')" "dbm_ok d'" "v \<noteq> 0" "\<not> live (dbm_g ?d) v"
    "\<forall>u. live (dbm_g d') u \<longleftrightarrow> u = v \<or> live (dbm_g ?d) u" "weight (dbm_g d') = weight (dbm_g ?d)"
    "dbm_potential d' ! v = 0" "\<forall>u. live (dbm_g ?d) u \<longrightarrow> dbm_potential d' ! u = dbm_potential ?d ! u"
    "graph_size (dbm_g d') = length (dbm_potential d')" "dbm_unstable d' = dbm_unstable ?d"
    "graph_size (dbm_g d') = max (graph_size (dbm_g ?d)) (v + 1)" "v \<le> graph_size (dbm_g ?d)"
    using dbm_new_vertex_spec [OF Z(1) _ Z(4)] by blast
  define r where "r = (if v < length (z_rev_map z) then (z_rev_map z)[v := Some x] else z_rev_map z @ [Some x])"
  let ?z = "z\<lparr>z_core := d', z_vert_map := bt_insert x v (z_vert_map z), z_rev_map := r\<rparr>"
  have run: "get_vert x z = Some (v, ?z)"
    using None d'(1,3,12) Z(5) by (simp add: get_vert_def vec_set_def r_def)
  have rev: "length r = graph_size (dbm_g d')" "r ! v = Some x" using Z(5) d'(11,12) by (auto simp: nth_append r_def)
  have old: "u \<noteq> v \<and> r ! u = z_rev_map z ! u" if "live (dbm_g ?d) u" for u
    using that d'(4) live_graph_size [OF that] Z(5) by (cases "u = v") (auto simp: nth_append r_def)
  have other: "u \<noteq> v" if "map_of (z_vert_map z) y = Some u" for y u using Z(6) [OF that] d'(4) by auto
  have "w \<noteq> 0 \<and> live (dbm_g d') w \<and> r ! w = Some y" if "map_of (bt_insert x v (z_vert_map z)) y = Some w" for y w
  proof (cases "y = x")
    case False
    then have "map_of (z_vert_map z) y = Some w" using that Z(2) by simp
    then show ?thesis using Z(6) old d'(5) by simp
  qed (use that Z(2) d'(3,5) rev(2) in simp)
  then have ok': "zone_ok ?z" using d'(2,9,10) Z(2,3) rev(1) by (simp add: zone_ok_def)
  have "dbm_within b d'" using new_vertex_within [OF d'(1,6,5,7,8)] b by (simp add: zone_within_def)
  then have within: "zone_within b ?z" by (simp add: zone_within_def)
  have "zone_holds \<rho> ?z \<longleftrightarrow> zone_holds \<rho> z" for \<rho>
  proof
    assume "zone_holds \<rho> z"
    then obtain \<sigma> where s: "zone_model \<sigma> \<rho> z" unfolding zone_holds_def by blast
    have "(\<sigma>(v := \<rho> x)) u = \<sigma> u" if "live (dbm_g ?d) u" for u using that d'(4) by auto
    then have "dbm_holds (\<sigma>(v := \<rho> x)) ?d = dbm_holds \<sigma> ?d" by (rule dbm_holds_local [OF Z(1)])
    then have "dbm_holds (\<sigma>(v := \<rho> x)) ?d" using s by (simp only: zone_model_def)
    then have "zone_model (\<sigma>(v := \<rho> x)) \<rho> ?z"
      using s d'(3,6) other Z(2) by (auto simp: zone_model_def dbm_holds_def)
    then show "zone_holds \<rho> ?z" unfolding zone_holds_def by blast
  next
    assume "zone_holds \<rho> ?z"
    then obtain \<sigma> where s: "zone_model \<sigma> \<rho> ?z" unfolding zone_holds_def by blast
    have "\<sigma> u = \<rho> y" if "map_of (z_vert_map z) y = Some u" for y u
    proof -
      have "y \<noteq> x" using that None by auto
      then have "map_of (z_vert_map ?z) y = Some u" using that Z(2) by simp
      then show ?thesis using s unfolding zone_model_def by blast
    qed
    then have "zone_model \<sigma> \<rho> z" using s d'(6) by (simp add: zone_model_def dbm_holds_def)
    then show "zone_holds \<rho> z" unfolding zone_holds_def by blast
  qed
  moreover have "zone_grows z ?z" using None Z(2) by (auto simp: zone_grows_def)
  moreover have "zone_room k ?z" using room d'(11,12) by (simp add: zone_room_def)
  moreover have same: "vec_get (dbm_potential d') u = vec_get (dbm_potential ?d) u" if "live (dbm_g ?d) u" for u
    using that d'(8) dbm_okD(3) [OF Z(1) that] dbm_okD(3) [OF d'(2), of u] d'(5) by (simp add: vec_get_def)
  have new: "vec_get (dbm_potential d') v = Some 0" using d'(5,7) dbm_okD(3) [OF d'(2), of v] by (simp add: vec_get_def)
  have "pot_value ?z y = pot_value z y" for y
  proof (cases "y = x")
    case False
    then show ?thesis using Z(2) same Z(6) [of y] by (auto simp: pot_value_def get_vertid_def potential_at_def split: option.split)
  qed (use Z(2) None new in \<open>simp add: pot_value_def get_vertid_def potential_at_def\<close>)
  moreover have "potential_at_zero d' = potential_at_zero ?d" using same [OF dbm_okD(2) [OF Z(1)]] by (simp add: potential_at_zero_def)
  ultimately show ?thesis using run ok' within Z(2) d'(4,6) by (intro exI [of _ v] exI [of _ ?z]) simp
qed

subsection \<open>Constraints on vertices\<close>

text \<open>
  The contract of a step that adds the condition \<open>P\<close>: it answers \<open>False\<close> only when no valuation of
  the zone satisfies it, and otherwise the zone that it returns is exactly the part that does.
\<close>

definition zone_adds :: "int \<Rightarrow> nat \<Rightarrow> zone_domain \<Rightarrow> ((variable \<Rightarrow> int) \<Rightarrow> bool) \<Rightarrow> (bool \<times> zone_domain) option \<Rightarrow> bool" where
  "zone_adds b k z P res \<longleftrightarrow> (\<exists>r z'. res = Some (r, z') \<and> (\<not> r \<longrightarrow> (\<forall>\<rho>. zone_holds \<rho> z \<longrightarrow> \<not> P \<rho>)) \<and>
     (r \<longrightarrow> zone_ok z' \<and> zone_room k z' \<and> zone_within b z' \<and> (\<forall>\<rho>. zone_holds \<rho> z' \<longleftrightarrow> zone_holds \<rho> z \<and> P \<rho>)))"

lemma zone_adds_then:
  assumes "zone_adds b k z P m"
    "\<And>z'. zone_ok z' \<Longrightarrow> zone_room k z' \<Longrightarrow> zone_within b z' \<Longrightarrow> zone_adds c l z' Q (f z')"
  shows "zone_adds c l z (\<lambda>\<rho>. P \<rho> \<and> Q \<rho>) (do { (r, z') \<leftarrow> m; if \<not> r then Some (False, z') else f z' })"
proof -
  obtain r z' where m: "m = Some (r, z')" "\<not> r \<longrightarrow> (\<forall>\<rho>. zone_holds \<rho> z \<longrightarrow> \<not> P \<rho>)"
    "r \<longrightarrow> zone_ok z' \<and> zone_room k z' \<and> zone_within b z' \<and> (\<forall>\<rho>. zone_holds \<rho> z' \<longleftrightarrow> zone_holds \<rho> z \<and> P \<rho>)"
    using assms(1) unfolding zone_adds_def by blast
  show ?thesis
  proof (cases r)
    case True
    then have "zone_adds c l z' Q (f z')" using assms(2) m(3) by blast
    then show ?thesis using True m(1,3) unfolding zone_adds_def by auto
  qed (use m in \<open>auto simp: zone_adds_def\<close>)
qed

lemma zone_adds_get_vert:
  assumes "zone_ok z" "zone_room (Suc k) z" "zone_within b z" "0 \<le> b"
    "\<And>v z'. zone_ok z' \<Longrightarrow> zone_room k z' \<Longrightarrow> zone_within b z' \<Longrightarrow> zone_grows z z' \<Longrightarrow>
      map_of (z_vert_map z') x = Some v \<Longrightarrow> zone_adds c l z' P (f v z')"
  shows "zone_adds c l z P (do { (v, z') \<leftarrow> get_vert x z; f v z' })"
proof -
  obtain v z' where v: "get_vert x z = Some (v, z')" "zone_ok z'" "zone_room k z'" "zone_within b z'" "zone_grows z z'"
    "map_of (z_vert_map z') x = Some v" "\<forall>\<rho>. zone_holds \<rho> z' \<longleftrightarrow> zone_holds \<rho> z"
    using get_vert_spec [OF assms(1-4)] by blast
  from assms(5) [OF v(2-6)] v(1,7) show ?thesis by (simp add: zone_adds_def)
qed

text \<open>What a vertex stands for.\<close>

definition vert_value :: "zone_domain \<Rightarrow> nat \<Rightarrow> ((variable \<Rightarrow> int) \<Rightarrow> int) \<Rightarrow> bool" where
  "vert_value z v f \<longleftrightarrow> v = 0 \<and> f = (\<lambda>_. 0) \<or> (\<exists>x. map_of (z_vert_map z) x = Some v \<and> f = (\<lambda>\<rho>. \<rho> x))"

lemma vert_value_model: "vert_value z v f \<Longrightarrow> zone_model \<sigma> \<rho> z \<Longrightarrow> \<sigma> v = f \<rho>"
  by (auto simp: vert_value_def zone_model_def)

lemma vert_value_live: "zone_ok z \<Longrightarrow> vert_value z v f \<Longrightarrow> live (dbm_g (z_core z)) v"
  using zone_okD(6) [of z] dbm_okD(2) [OF zone_okD(1)] by (auto simp: vert_value_def)

lemma zone_core_ok:
  assumes "zone_ok z" "dbm_ok d" "same_shape (z_core z) d"
  shows "zone_ok (z\<lparr>z_core := d\<rparr>)"
  using assms by (simp add: zone_ok_def same_shape_def)

lemma zone_adds_core:
  assumes ok: "zone_ok z" "zone_room k z" and add: "adds_constraint b (z_core z) src dest w res"
    and ends: "vert_value z src f" "vert_value z dest g" and P: "\<And>\<rho>. P \<rho> \<longleftrightarrow> g \<rho> - f \<rho> \<le> w"
  shows "zone_adds b k z P (do { (r, core) \<leftarrow> res; Some (r, z\<lparr>z_core := core\<rparr>) })"
proof -
  obtain r d where r: "res = Some (r, d)" "r \<longleftrightarrow> (\<exists>\<sigma>. dbm_holds \<sigma> (z_core z) \<and> \<sigma> dest - \<sigma> src \<le> w)"
    "r \<longrightarrow> dbm_ok d \<and> same_shape (z_core z) d \<and> dbm_within b d \<and>
        (\<forall>\<sigma>. dbm_holds \<sigma> d \<longleftrightarrow> dbm_holds \<sigma> (z_core z) \<and> \<sigma> dest - \<sigma> src \<le> w)"
    using add unfolding adds_constraint_def by blast
  have val: "\<sigma> dest - \<sigma> src \<le> w \<longleftrightarrow> P \<rho>" if "zone_model \<sigma> \<rho> z" for \<sigma> \<rho>
    using vert_value_model [OF ends(1) that] vert_value_model [OF ends(2) that] P by simp
  have "\<not> P \<rho>" if "\<not> r" "zone_holds \<rho> z" for \<rho>
    using that r(2) val by (auto simp: zone_holds_def zone_model_def)
  moreover have "zone_ok (z\<lparr>z_core := d\<rparr>)" "zone_room k (z\<lparr>z_core := d\<rparr>)" "zone_within b (z\<lparr>z_core := d\<rparr>)" if r
    using r(3) that zone_core_ok [OF ok(1)] ok(2) by (simp_all add: zone_within_def zone_room_def same_shape_def)
  moreover have "zone_holds \<rho> (z\<lparr>z_core := d\<rparr>) \<longleftrightarrow> zone_holds \<rho> z \<and> P \<rho>" if r for \<rho>
  proof -
    have "zone_model \<sigma> \<rho> (z\<lparr>z_core := d\<rparr>) \<longleftrightarrow> zone_model \<sigma> \<rho> z \<and> P \<rho>" for \<sigma>
      using r(3) that val [of \<sigma> \<rho>] by (auto simp: zone_model_def)
    then show ?thesis by (simp add: zone_holds_def)
  qed
  ultimately show ?thesis using r(1) unfolding zone_adds_def by auto
qed

lemma zone_adds_mono: "zone_adds b k z P res \<Longrightarrow> b \<le> c \<Longrightarrow> l \<le> k \<Longrightarrow> (\<And>\<rho>. P \<rho> \<longleftrightarrow> Q \<rho>) \<Longrightarrow> zone_adds c l z Q res"
  unfolding zone_adds_def using zone_within_mono [of b] by (fastforce simp: zone_room_def)

lemma zone_adds_nothing: "zone_ok z \<Longrightarrow> zone_room k z \<Longrightarrow> zone_within b z \<Longrightarrow> zone_adds b k z (\<lambda>_. True) (Some (True, z))"
  unfolding zone_adds_def by (intro exI [of _ True] exI [of _ z]) simp

lemma zone_adds_bound:
  assumes "zone_ok z" "zone_room k z" "zone_within b z" "b \<le> 2 ^ 120" "\<bar>n\<bar> \<le> b" "map_of (z_vert_map z) x = Some v"
  shows "zone_adds (4 * b) k z (\<lambda>\<rho>. case sd of side.Left \<Rightarrow> n \<le> \<rho> x | side.Right \<Rightarrow> \<rho> x \<le> n)
    (do { (r, core) \<leftarrow> update_bound_if_tighter v sd n (z_core z); Some (r, z\<lparr>z_core := core\<rparr>) })"
proof -
  obtain src dest w where c: "bound_constraint v sd n = (src, dest, w)" by (cases "bound_constraint v sd n")
  have ends: "vert_value z v (\<lambda>\<rho>. \<rho> x)" "vert_value z 0 (\<lambda>_. 0)" using assms(6) by (auto simp: vert_value_def)
  have "adds_constraint (4 * b) (z_core z) src dest w (update_bound_if_tighter v sd n (z_core z))"
    using update_bound_if_tighter_spec [OF zone_okD(1) [OF assms(1)] _ assms(4,5) _ c] assms(3) vert_value_live [OF assms(1) ends(1)]
    by (simp add: zone_within_def)
  then show ?thesis
    using c ends by (cases sd) (auto simp: bound_constraint_def intro!: zone_adds_core [OF assms(1,2)])
qed

subsection \<open>The loops of an inequality\<close>

lemma core_then:
  "do { (r, core) \<leftarrow> m; let z = z\<lparr>z_core := core\<rparr>; if \<not> r then Some (False, z) else f z } =
   do { (r, z') \<leftarrow> do { (r, core) \<leftarrow> m; Some (r, z\<lparr>z_core := core\<rparr>) }; if \<not> r then Some (False, z') else f z' }"
  by (cases m) auto

lemma grow_step:
  assumes "(b :: int) * c ^ Suc n \<le> m" "0 \<le> b" "1 \<le> c"
  shows "c * b * c ^ n = b * c ^ Suc n" "b \<le> m" "c * b * c ^ n \<le> m" "0 \<le> c * b" "b \<le> c * b"
proof -
  have "1 \<le> c ^ Suc n" using assms(3) one_le_power by blast
  then have "b * 1 \<le> b * c ^ Suc n" using assms(2) by (rule mult_left_mono)
  then show "b \<le> m" using assms(1) by simp
  show "c * b * c ^ n = b * c ^ Suc n" by simp
  then show "c * b * c ^ n \<le> m" using assms(1) by linarith
  show "0 \<le> c * b" using assms(2,3) by simp
  show "b \<le> c * b" using assms(2,3) mult_right_mono [of 1 c b] by simp
qed

lemma tighten_lbs_spec:
  assumes "zone_ok z" "zone_room (length lbs + k) z" "zone_within b z" "0 \<le> b" "b * 4 ^ length lbs \<le> 2 ^ 120"
    "\<forall>(x, n)\<in>set lbs. \<bar>n\<bar> \<le> b"
  shows "zone_adds (b * 4 ^ length lbs) k z (\<lambda>\<rho>. \<forall>(x, n)\<in>set lbs. n \<le> \<rho> x) (tighten_lbs lbs z)"
  using assms
proof (induction lbs arbitrary: z b)
  case Nil
  then show ?case using zone_adds_nothing by simp
next
  case (Cons p lbs)
  obtain x n where p: "p = (x, n)" by (cases p)
  have g: "b * 4 ^ Suc (length lbs) \<le> 2 ^ 120" using Cons.prems(5) by simp
  note G = grow_step [OF g Cons.prems(4) one_le_numeral]
  have n: "\<bar>n\<bar> \<le> b" "\<forall>(x, n)\<in>set lbs. \<bar>n\<bar> \<le> 4 * b" using Cons.prems(6) G(5) p by auto
  have "zone_adds (b * 4 ^ Suc (length lbs)) k z (\<lambda>\<rho>. n \<le> \<rho> x \<and> (\<forall>(x, n)\<in>set lbs. n \<le> \<rho> x))
      (do { (vert, z) \<leftarrow> get_vert x z; (r, core) \<leftarrow> update_bound_if_tighter vert side.Left n (z_core z);
            let z = z\<lparr>z_core := core\<rparr>; if \<not> r then Some (False, z) else tighten_lbs lbs z })"
  proof (rule zone_adds_get_vert [OF Cons.prems(1) _ Cons.prems(3,4)])
    show "zone_room (Suc (length lbs + k)) z" using Cons.prems(2) by simp
    fix v z' assume z': "zone_ok z'" "zone_room (length lbs + k) z'" "zone_within b z'" "map_of (z_vert_map z') x = Some v"
    have first: "zone_adds (4 * b) (length lbs + k) z' (\<lambda>\<rho>. n \<le> \<rho> x)
        (do { (r, core) \<leftarrow> update_bound_if_tighter v side.Left n (z_core z'); Some (r, z'\<lparr>z_core := core\<rparr>) })"
      using zone_adds_bound [OF z'(1-3) G(2) n(1) z'(4), of side.Left] by simp
    show "zone_adds (b * 4 ^ Suc (length lbs)) k z' (\<lambda>\<rho>. n \<le> \<rho> x \<and> (\<forall>(x, n)\<in>set lbs. n \<le> \<rho> x))
        (do { (r, core) \<leftarrow> update_bound_if_tighter v side.Left n (z_core z');
              let z = z'\<lparr>z_core := core\<rparr>; if \<not> r then Some (False, z) else tighten_lbs lbs z })"
      unfolding core_then
    proof (rule zone_adds_then [OF first])
      fix z'' assume "zone_ok z''" "zone_room (length lbs + k) z''" "zone_within (4 * b) z''"
      from Cons.IH [OF this G(4,3) n(2)] G(1)
      show "zone_adds (b * 4 ^ Suc (length lbs)) k z'' (\<lambda>\<rho>. \<forall>(x, n)\<in>set lbs. n \<le> \<rho> x) (tighten_lbs lbs z'')" by simp
    qed
  qed
  then show ?case using p by simp
qed

definition holds_ubs :: "variable_registry \<Rightarrow> (variable \<times> number) list \<Rightarrow> (variable \<Rightarrow> int) \<Rightarrow> bool" where
  "holds_ubs reg ubs \<rho> \<longleftrightarrow> (\<forall>(x, n)\<in>set ubs. is_min_only reg x = Some False \<longrightarrow> \<rho> x \<le> n)"

lemma tighten_ubs_spec:
  assumes "zone_ok z" "zone_room (length ubs + k) z" "zone_within b z" "0 \<le> b" "b * 4 ^ length ubs \<le> 2 ^ 120"
    "\<forall>(x, n)\<in>set ubs. \<bar>n\<bar> \<le> b \<and> is_min_only reg x \<noteq> None"
  shows "zone_adds (b * 4 ^ length ubs) k z (holds_ubs reg ubs) (tighten_ubs reg ubs z)"
  using assms
proof (induction ubs arbitrary: z b)
  case Nil
  then show ?case using zone_adds_mono [OF zone_adds_nothing] by (simp add: holds_ubs_def)
next
  case (Cons p ubs)
  obtain x n where p: "p = (x, n)" by (cases p)
  obtain m where m: "is_min_only reg x = Some m" using Cons.prems(6) p by auto
  have g: "b * 4 ^ Suc (length ubs) \<le> 2 ^ 120" using Cons.prems(5) by simp
  note G = grow_step [OF g Cons.prems(4) one_le_numeral]
  have n: "\<bar>n\<bar> \<le> b" "\<forall>(x, n)\<in>set ubs. \<bar>n\<bar> \<le> 4 * b \<and> is_min_only reg x \<noteq> None"
    using Cons.prems(6) G(5) p by fastforce+
  have ubs: "holds_ubs reg (p # ubs) \<rho> \<longleftrightarrow> (\<not> m \<longrightarrow> \<rho> x \<le> n) \<and> holds_ubs reg ubs \<rho>" for \<rho>
    using p m by (simp add: holds_ubs_def)
  have rest: "zone_adds (b * 4 ^ Suc (length ubs)) k z'' (holds_ubs reg ubs) (tighten_ubs reg ubs z'')"
    if "zone_ok z''" "zone_room (length ubs + k) z''" "zone_within (4 * b) z''" for z''
    using Cons.IH [OF that G(4,3) n(2)] G(1) by simp
  show ?case
  proof (cases m)
    case True
    have "zone_room (length ubs + k) z" "zone_within (4 * b) z"
      using Cons.prems(2) zone_within_mono [OF Cons.prems(3) G(5)] by (simp_all add: zone_room_def)
    from rest [OF Cons.prems(1) this] show ?thesis
      using p m True ubs zone_adds_mono [of _ k z "holds_ubs reg ubs" _ _ k "holds_ubs reg (p # ubs)"] by simp
  next
    case False
    have "zone_adds (b * 4 ^ Suc (length ubs)) k z (\<lambda>\<rho>. \<rho> x \<le> n \<and> holds_ubs reg ubs \<rho>)
        (do { (vert, z) \<leftarrow> get_vert x z; (r, core) \<leftarrow> update_bound_if_tighter vert side.Right n (z_core z);
              let z = z\<lparr>z_core := core\<rparr>; if \<not> r then Some (False, z) else tighten_ubs reg ubs z })"
    proof (rule zone_adds_get_vert [OF Cons.prems(1) _ Cons.prems(3,4)])
      show "zone_room (Suc (length ubs + k)) z" using Cons.prems(2) by simp
      fix v z' assume z': "zone_ok z'" "zone_room (length ubs + k) z'" "zone_within b z'" "map_of (z_vert_map z') x = Some v"
      have first: "zone_adds (4 * b) (length ubs + k) z' (\<lambda>\<rho>. \<rho> x \<le> n)
          (do { (r, core) \<leftarrow> update_bound_if_tighter v side.Right n (z_core z'); Some (r, z'\<lparr>z_core := core\<rparr>) })"
        using zone_adds_bound [OF z'(1-3) G(2) n(1) z'(4), of side.Right] by simp
      show "zone_adds (b * 4 ^ Suc (length ubs)) k z' (\<lambda>\<rho>. \<rho> x \<le> n \<and> holds_ubs reg ubs \<rho>)
          (do { (r, core) \<leftarrow> update_bound_if_tighter v side.Right n (z_core z');
                let z = z'\<lparr>z_core := core\<rparr>; if \<not> r then Some (False, z) else tighten_ubs reg ubs z })"
        unfolding core_then by (rule zone_adds_then [OF first rest])
    qed
    then show ?thesis using p m False ubs by (simp cong: if_cong)
  qed
qed

definition holds_csts :: "diff_cst list \<Rightarrow> (variable \<Rightarrow> int) \<Rightarrow> bool" where
  "holds_csts csts \<rho> \<longleftrightarrow> (\<forall>((x, y), n)\<in>set csts. \<rho> x - \<rho> y \<le> n)"

lemma zone_adds_difference:
  assumes z: "zone_ok z" "zone_room k z" "zone_within b z" "b \<le> 2 ^ 118" "\<bar>n\<bar> \<le> b"
    and v: "map_of (z_vert_map z) y = Some src" "map_of (z_vert_map z) x = Some dest"
  shows "zone_adds (12 * b) k z (\<lambda>\<rho>. \<rho> x - \<rho> y \<le> n)
    (do { (r, core) \<leftarrow> add_difference_constraint src dest n (z_core z); Some (r, z\<lparr>z_core := core\<rparr>) })"
proof (rule zone_adds_core [OF z(1,2)])
  note e = zone_okD(6) [OF z(1) v(1)] zone_okD(6) [OF z(1) v(2)]
  show "adds_constraint (12 * b) (z_core z) src dest n (add_difference_constraint src dest n (z_core z))"
    using add_difference_constraint_spec [OF zone_okD(1) [OF z(1)] _ z(4,5)] e z(3) by (simp add: zone_within_def)
  show "vert_value z src (\<lambda>\<rho>. \<rho> y)" "vert_value z dest (\<lambda>\<rho>. \<rho> x)" using v by (auto simp: vert_value_def)
qed simp

lemma add_differences_spec:
  assumes "zone_ok z" "zone_room (2 * length csts + k) z" "zone_within b z" "0 \<le> b" "b * 12 ^ length csts \<le> 2 ^ 118"
    "\<forall>(_, n)\<in>set csts. \<bar>n\<bar> \<le> b"
  shows "zone_adds (b * 12 ^ length csts) k z (holds_csts csts) (add_differences csts z)"
  using assms
proof (induction csts arbitrary: z b)
  case Nil
  then show ?case using zone_adds_mono [OF zone_adds_nothing] by (simp add: holds_csts_def)
next
  case (Cons p csts)
  obtain x y n where p: "p = ((x, y), n)" by (metis surj_pair)
  have g: "b * 12 ^ Suc (length csts) \<le> 2 ^ 118" using Cons.prems(5) by simp
  note G = grow_step [OF g Cons.prems(4) one_le_numeral]
  have n: "\<bar>n\<bar> \<le> b" "\<forall>(_, n)\<in>set csts. \<bar>n\<bar> \<le> 12 * b" using Cons.prems(6) G(5) p by fastforce+
  let ?k = "2 * length csts + k"
  have "zone_adds (b * 12 ^ Suc (length csts)) k z (\<lambda>\<rho>. \<rho> x - \<rho> y \<le> n \<and> holds_csts csts \<rho>)
      (do { (src, z) \<leftarrow> get_vert y z; (dest, z) \<leftarrow> get_vert x z; (r, core) \<leftarrow> add_difference_constraint src dest n (z_core z);
            let z = z\<lparr>z_core := core\<rparr>; if \<not> r then Some (False, z) else add_differences csts z })"
  proof (rule zone_adds_get_vert [OF Cons.prems(1) _ Cons.prems(3,4)])
    show "zone_room (Suc (Suc ?k)) z" using Cons.prems(2) by simp
    fix src z' assume z': "zone_ok z'" "zone_room (Suc ?k) z'" "zone_within b z'" "map_of (z_vert_map z') y = Some src"
    show "zone_adds (b * 12 ^ Suc (length csts)) k z' (\<lambda>\<rho>. \<rho> x - \<rho> y \<le> n \<and> holds_csts csts \<rho>)
        (do { (dest, z) \<leftarrow> get_vert x z'; (r, core) \<leftarrow> add_difference_constraint src dest n (z_core z);
              let z = z\<lparr>z_core := core\<rparr>; if \<not> r then Some (False, z) else add_differences csts z })"
    proof (rule zone_adds_get_vert [OF z'(1-3) Cons.prems(4)])
      fix dest z2 assume z2: "zone_ok z2" "zone_room ?k z2" "zone_within b z2" "zone_grows z' z2" "map_of (z_vert_map z2) x = Some dest"
      have "map_of (z_vert_map z2) y = Some src" using z2(4) z'(4) by (simp add: zone_grows_def)
      note first = zone_adds_difference [OF z2(1-3) G(2) n(1) this z2(5)]
      show "zone_adds (b * 12 ^ Suc (length csts)) k z2 (\<lambda>\<rho>. \<rho> x - \<rho> y \<le> n \<and> holds_csts csts \<rho>)
          (do { (r, core) \<leftarrow> add_difference_constraint src dest n (z_core z2);
                let z = z2\<lparr>z_core := core\<rparr>; if \<not> r then Some (False, z) else add_differences csts z })"
        unfolding core_then
      proof (rule zone_adds_then [OF first])
        fix z3 assume "zone_ok z3" "zone_room ?k z3" "zone_within (12 * b) z3"
        from Cons.IH [OF this G(4,3) n(2)] G(1)
        show "zone_adds (b * 12 ^ Suc (length csts)) k z3 (holds_csts csts) (add_differences csts z3)" by simp
      qed
    qed
  qed
  then show ?case using p by (simp add: holds_csts_def cong: if_cong)
qed

end
