(* ===== verification/Zone_Constraints.thy ===== *)
theory Zone_Constraints
  imports Zone_Soundness Interval_Arith
begin

text \<open>
  Adding a linear constraint to a zone: the difference constraints that \<open>diffcsts_of_lin_leq\<close> extracts
  follow from the inequality and the bounds of the zone, so adding them loses no valuation.
\<close>

subsection \<open>Bounds\<close>

definition lb_fits :: "int \<Rightarrow> zone_domain \<Rightarrow> variable \<Rightarrow> bound \<Rightarrow> bool" where
  "lb_fits b z x l \<longleftrightarrow> l \<noteq> PlusInfinity \<and> (\<forall>n. l = Finite n \<longrightarrow> \<bar>n\<bar> \<le> b) \<and> (\<forall>\<rho>. zone_holds \<rho> z \<longrightarrow> l \<le> Finite (\<rho> x))"

definition ub_fits :: "int \<Rightarrow> zone_domain \<Rightarrow> variable \<Rightarrow> bound \<Rightarrow> bool" where
  "ub_fits b z x u \<longleftrightarrow> u \<noteq> MinusInfinity \<and> (\<forall>n. u = Finite n \<longrightarrow> \<bar>n\<bar> \<le> b) \<and> (\<forall>\<rho>. zone_holds \<rho> z \<longrightarrow> Finite (\<rho> x) \<le> u)"

lemma zone_edge:
  assumes "zone_model \<sigma> \<rho> z" "weight (dbm_g (z_core z)) s t = Some w"
  shows "\<sigma> t - \<sigma> s \<le> w"
  using assms solves_edge [of \<sigma> "weight (dbm_g (z_core z))" s t w] unfolding zone_model_def dbm_holds_def by blast

lemma get_lb_spec:
  assumes "zone_ok z" "zone_within b z" "b \<le> 2 ^ 120"
  shows "\<exists>l. get_lb z x = Some l \<and> lb_fits b z x l"
proof (cases "map_of (z_vert_map z) x")
  case None
  then show ?thesis by (simp add: get_lb_def get_vertid_def get_lb_vert_def lb_fits_def)
next
  case (Some v)
  let ?W = "weight (dbm_g (z_core z))"
  have within: "dbm_within b (z_core z)" using assms(2) by (simp add: zone_within_def)
  have g: "get_lb z x = Some (case ?W v 0 of Some w \<Rightarrow> Finite (- w) | None \<Rightarrow> MinusInfinity)"
    using get_bound_spec(1) [OF zone_okD(1) [OF assms(1)] within assms(3)] zone_okD(6) [OF assms(1) Some] Some
    by (simp add: get_lb_def get_vertid_def get_lb_vert_def)
  have "- w \<le> \<rho> x" if w: "?W v 0 = Some w" and h: "zone_holds \<rho> z" for w \<rho>
  proof -
    obtain \<sigma> where s: "zone_model \<sigma> \<rho> z" using h unfolding zone_holds_def by blast
    then have "\<sigma> 0 = 0" "\<sigma> v = \<rho> x" using Some by (auto simp: zone_model_def)
    then show ?thesis using zone_edge [OF s w] by simp
  qed
  then show ?thesis
    using g weights_withinD [OF dbm_withinD(1) [OF within], of v 0] by (auto simp: lb_fits_def split: option.split)
qed

lemma get_ub_vert_spec:
  assumes "zone_ok z" "zone_within b z" "b \<le> 2 ^ 120"
  shows "\<exists>u. get_ub_vert z (get_vertid z x) = Some u \<and> ub_fits b z x u"
proof (cases "map_of (z_vert_map z) x")
  case None
  then show ?thesis by (simp add: get_vertid_def get_ub_vert_def ub_fits_def)
next
  case (Some v)
  let ?W = "weight (dbm_g (z_core z))"
  have within: "dbm_within b (z_core z)" using assms(2) by (simp add: zone_within_def)
  have g: "get_ub_vert z (get_vertid z x) = Some (case ?W 0 v of Some w \<Rightarrow> Finite w | None \<Rightarrow> PlusInfinity)"
    using get_bound_spec(2) [OF zone_okD(1) [OF assms(1)] within assms(3)] zone_okD(6) [OF assms(1) Some] Some
    by (simp add: get_vertid_def get_ub_vert_def)
  have "\<rho> x \<le> w" if w: "?W 0 v = Some w" and h: "zone_holds \<rho> z" for w \<rho>
  proof -
    obtain \<sigma> where s: "zone_model \<sigma> \<rho> z" using h unfolding zone_holds_def by blast
    then have "\<sigma> 0 = 0" "\<sigma> v = \<rho> x" using Some by (auto simp: zone_model_def)
    then show ?thesis using zone_edge [OF s w] by simp
  qed
  then show ?thesis
    using g weights_withinD [OF dbm_withinD(1) [OF within], of 0 v] by (auto simp: ub_fits_def split: option.split)
qed

lemma get_ub_spec:
  assumes "zone_ok z" "zone_within b z" "b \<le> 2 ^ 120" "is_min_only reg x \<noteq> None"
  shows "\<exists>u. get_ub z reg x = Some u \<and> ub_fits b z x u"
proof -
  obtain m where "is_min_only reg x = Some m" using assms(4) by blast
  then show ?thesis using get_ub_vert_spec [OF assms(1-3), of x] by (cases m) (auto simp: get_ub_def ub_fits_def)
qed

text \<open>A zone that keeps the invariant has a valuation: that of its potential.\<close>

definition potential_model :: "zone_domain \<Rightarrow> nat \<Rightarrow> int" where
  "potential_model z v = dbm_potential (z_core z) ! v - dbm_potential (z_core z) ! 0"

lemma potential_model_holds:
  assumes "zone_ok z" "\<forall>x v. map_of (z_vert_map z) x = Some v \<longrightarrow> \<rho> x = potential_model z v"
  shows "zone_model (potential_model z) \<rho> z"
  using assms dbm_okD(4) [OF zone_okD(1) [OF assms(1)]]
  by (auto simp: zone_model_def dbm_holds_def solves_def potential_model_def)

lemma zone_inhabited: "zone_ok z \<Longrightarrow> \<exists>\<rho>. zone_holds \<rho> z"
  using potential_model_holds [of z "\<lambda>x. potential_model z (the (map_of (z_vert_map z) x))"]
  unfolding zone_holds_def by auto

lemma get_interval_spec:
  assumes "zone_ok z" "zone_within b z" "b \<le> 2 ^ 120" "is_min_only reg x \<noteq> None"
  shows "\<exists>i. get_interval z reg x = Some i \<and> lb_fits b z x (itv_lb i) \<and> ub_fits b z x (itv_ub i) \<and>
    (\<forall>\<rho>. zone_holds \<rho> z \<longrightarrow> \<rho> x \<in> itv_gamma i)"
proof -
  obtain l u where lu: "get_lb z x = Some l" "lb_fits b z x l" "get_ub z reg x = Some u" "ub_fits b z x u"
    using get_lb_spec [OF assms(1-3)] get_ub_spec [OF assms] by blast
  obtain \<rho> where "zone_holds \<rho> z" using zone_inhabited [OF assms(1)] by blast
  then have "l \<le> u" using lu(2,4) order_trans [of l "Finite (\<rho> x)" u] by (simp add: lb_fits_def ub_fits_def)
  then have "itv_new l u = \<lparr>itv_lb = l, itv_ub = u\<rparr>" by (simp add: itv_new_def)
  then show ?thesis using lu gamma_new [of _ l u] by (auto simp: get_interval_def lb_fits_def ub_fits_def)
qed

subsection \<open>The terms of an inequality\<close>

text \<open>What the state of the loop has taken from the expression.\<close>

definition slack_of :: "(variable \<Rightarrow> int) \<Rightarrow> leq_state \<Rightarrow> int" where
  "slack_of \<rho> st = (\<Sum>((c, y), k)\<leftarrow>ls_pos st. c * (\<rho> y - k)) + (\<Sum>((c, y), k)\<leftarrow>ls_neg st. c * (k - \<rho> y))"

definition unbounded_of :: "(variable \<Rightarrow> int) \<Rightarrow> leq_state \<Rightarrow> int" where
  "unbounded_of \<rho> st = (case ls_lbvar st of Some x \<Rightarrow> ls_lbcoeff st * \<rho> x | None \<Rightarrow> 0) -
     (case ls_ubvar st of Some y \<Rightarrow> ls_ubcoeff st * \<rho> y | None \<Rightarrow> 0)"

definition leq_balance :: "(variable \<Rightarrow> int) \<Rightarrow> leq_state \<Rightarrow> int" where
  "leq_balance \<rho> st = slack_of \<rho> st + unbounded_of \<rho> st - ls_exp_ub st"

definition leq_true :: "(variable \<Rightarrow> int) \<Rightarrow> leq_state \<Rightarrow> bool" where
  "leq_true \<rho> st \<longleftrightarrow> (\<forall>((c, y), k)\<in>set (ls_pos st). k \<le> \<rho> y) \<and> (\<forall>((c, y), k)\<in>set (ls_neg st). \<rho> y \<le> k)"

definition leq_size :: "leq_state \<Rightarrow> nat" where
  "leq_size st = length (ls_pos st) + length (ls_neg st) + (if ls_lbvar st = None then 0 else 1) +
     (if ls_ubvar st = None then 0 else 1)"

definition leq_ok :: "int \<Rightarrow> variable_registry \<Rightarrow> leq_state \<Rightarrow> bool" where
  "leq_ok b reg st \<longleftrightarrow>
     (\<forall>((c, y), k)\<in>set (ls_pos st) \<union> set (ls_neg st). 1 \<le> c \<and> \<bar>k\<bar> \<le> b \<and> is_min_only reg y \<noteq> None) \<and>
     (\<forall>x. ls_lbvar st = Some x \<longrightarrow> 1 \<le> ls_lbcoeff st \<and> is_min_only reg x \<noteq> None) \<and>
     (\<forall>y. ls_ubvar st = Some y \<longrightarrow> 1 \<le> ls_ubcoeff st \<and> is_min_only reg y \<noteq> None)"

lemma num_mul_small: "\<bar>a * c\<bar> \<le> 2 ^ 126 \<Longrightarrow> num_mul a c = Some (a * c)"
  unfolding num_mul_def by (rule chk_i128_ok, rule in_i128_small) (simp_all add: abs_le_iff)

lemma abs_mult_le: "\<bar>a :: int\<bar> \<le> b \<Longrightarrow> \<bar>c\<bar> \<le> n \<Longrightarrow> \<bar>a * c\<bar> \<le> n * b"
  by (simp add: abs_mult mult.commute [of n]) (rule mult_mono; simp)

text \<open>The result of the loop and the contract of its steps.\<close>

definition leq_step ::
  "int \<Rightarrow> variable_registry \<Rightarrow> zone_domain \<Rightarrow> int \<Rightarrow> nat \<Rightarrow> leq_state \<Rightarrow> ((variable \<Rightarrow> int) \<Rightarrow> int) \<Rightarrow> leq_state option option \<Rightarrow> bool" where
  "leq_step b reg z m l st f res \<longleftrightarrow> (\<exists>r. res = Some r \<and> (\<forall>st'. r = Some st' \<longrightarrow>
     leq_ok b reg st' \<and> \<bar>ls_exp_ub st'\<bar> \<le> m \<and> leq_size st' \<le> l \<and>
     (\<forall>\<rho>. zone_holds \<rho> z \<longrightarrow> leq_true \<rho> st \<longrightarrow> leq_true \<rho> st' \<and> leq_balance \<rho> st' = leq_balance \<rho> st + f \<rho>)))"

lemma leq_step_trans:
  assumes "leq_step b reg z m l st' g res"
    "\<And>\<rho>. zone_holds \<rho> z \<Longrightarrow> leq_true \<rho> st \<Longrightarrow> leq_true \<rho> st' \<and> leq_balance \<rho> st' = leq_balance \<rho> st + f \<rho>"
    "\<And>\<rho>. h \<rho> = f \<rho> + g \<rho>"
  shows "leq_step b reg z m l st h res"
  using assms unfolding leq_step_def by fastforce

lemma leq_terms_spec:
  assumes z: "zone_ok z" "zone_within b z" "b \<le> 2 ^ 100" "0 < b" "0 \<le> n"
    and "\<forall>(y, c)\<in>set ts. \<bar>c\<bar> \<le> n \<and> is_min_only reg y \<noteq> None" "leq_ok b reg st" "\<bar>ls_exp_ub st\<bar> \<le> m"
    "m + int (length ts) * (n * b) \<le> 2 ^ 110" "leq_size st + length ts \<le> l"
  shows "leq_step b reg z (m + int (length ts) * (n * b)) l st (\<lambda>\<rho>. eval_terms \<rho> ts) (leq_terms z reg ts st)"
  using assms(6-)
proof (induction ts arbitrary: st m)
  case Nil
  then show ?case by (simp add: leq_step_def)
next
  case (Cons p ts)
  obtain y c where p: "p = (y, c)" by (cases p)
  have y: "\<bar>c\<bar> \<le> n" "is_min_only reg y \<noteq> None" and ts: "\<forall>(y, c)\<in>set ts. \<bar>c\<bar> \<le> n \<and> is_min_only reg y \<noteq> None"
    using Cons.prems(1) p by auto
  have nb: "0 \<le> n * b" using z(4,5) by simp
  have m: "m + int (length (p # ts)) * (n * b) = m + n * b + int (length ts) * (n * b)" by (simp add: algebra_simps)
  then have m': "m + n * b + int (length ts) * (n * b) \<le> 2 ^ 110" using Cons.prems(4) by simp
  have small: "m + n * b \<le> 2 ^ 110" using m' nb mult_nonneg_nonneg [of "int (length ts)" "n * b"] by linarith
  have mpos: "0 \<le> m" using Cons.prems(3) by linarith
  have b120: "b \<le> 2 ^ 120" using z(3) by simp
  have step: "leq_step b reg z (m + int (length (p # ts)) * (n * b)) l st (\<lambda>\<rho>. eval_terms \<rho> (p # ts)) (leq_terms z reg ts st')"
    if "leq_ok b reg st'" "\<bar>ls_exp_ub st'\<bar> \<le> m + n * b" "leq_size st' \<le> Suc (leq_size st)"
      "\<And>\<rho>. zone_holds \<rho> z \<Longrightarrow> leq_true \<rho> st \<Longrightarrow> leq_true \<rho> st' \<and> leq_balance \<rho> st' = leq_balance \<rho> st + c * \<rho> y" for st'
  proof (rule leq_step_trans [OF _ that(4)])
    show "leq_step b reg z (m + int (length (p # ts)) * (n * b)) l st' (\<lambda>\<rho>. eval_terms \<rho> ts) (leq_terms z reg ts st')"
      unfolding m using Cons.IH [OF ts that(1,2) m'] that(3) Cons.prems(5) by simp
  qed (use p in auto)
  have num: "num_mul k c = Some (k * c)" "num_sub (ls_exp_ub st) (k * c) = Some (ls_exp_ub st - k * c)"
    "\<bar>ls_exp_ub st - k * c\<bar> \<le> m + n * b" if "\<bar>k\<bar> \<le> b" for k
  proof -
    have kc: "\<bar>k * c\<bar> \<le> n * b" by (rule abs_mult_le [OF that y(1)])
    have "\<bar>k * c\<bar> \<le> 2 ^ 126" using kc small mpos by (rule_tac order_trans [OF kc]) simp
    then show "num_mul k c = Some (k * c)" by (rule num_mul_small)
    show "num_sub (ls_exp_ub st) (k * c) = Some (ls_exp_ub st - k * c)"
      using num_sub_small [OF Cons.prems(3), of "k * c"] kc small by simp
    show "\<bar>ls_exp_ub st - k * c\<bar> \<le> m + n * b" using kc Cons.prems(3) by linarith
  qed
  have c126: "num_neg c = Some (- c)"
  proof -
    have "n * 1 \<le> n * b" using z(4,5) by (intro mult_left_mono) auto
    then show ?thesis using y(1) small mpos by (intro num_neg_small) simp
  qed
  note ok = Cons.prems(2)
  consider "c = 0" | "c > 0" | "c < 0" by linarith
  then show ?case
  proof cases
    case 1
    then show ?thesis using step [OF ok] Cons.prems(3) nb p by (simp add: num_is_zero_def)
  next
    case 2
    obtain lb where lb: "get_lb z y = Some lb" "lb_fits b z y lb" using get_lb_spec [OF z(1,2) b120] by blast
    show ?thesis
    proof (cases lb)
      case (Finite k)
      then have k: "\<bar>k\<bar> \<le> b" "\<And>\<rho>. zone_holds \<rho> z \<Longrightarrow> k \<le> \<rho> y" using lb(2) by (auto simp: lb_fits_def)
      let ?st = "st\<lparr>ls_exp_ub := ls_exp_ub st - k * c, ls_pos := ls_pos st @ [((c, y), k)]\<rparr>"
      have "leq_ok b reg ?st" using ok 2 k(1) y(2) by (auto simp: leq_ok_def)
      moreover have "leq_true \<rho> ?st \<and> leq_balance \<rho> ?st = leq_balance \<rho> st + c * \<rho> y" if "zone_holds \<rho> z" "leq_true \<rho> st" for \<rho>
        using that k(2) by (auto simp: leq_true_def leq_balance_def slack_of_def unbounded_of_def algebra_simps split: option.split)
      ultimately show ?thesis using step [of ?st] num [OF k(1)] lb(1) 2 p Finite
        by (simp add: num_is_zero_def ext_number_def leq_size_def)
    next
      case MinusInfinity
      let ?st = "st\<lparr>ls_lbvar := Some y, ls_lbcoeff := c\<rparr>"
      have "leq_ok b reg ?st" using ok 2 y(2) by (auto simp: leq_ok_def)
      moreover have "leq_true \<rho> ?st \<and> leq_balance \<rho> ?st = leq_balance \<rho> st + c * \<rho> y"
        if "ls_lbvar st = None" "leq_true \<rho> st" for \<rho>
        using that by (auto simp: leq_true_def leq_balance_def slack_of_def unbounded_of_def split: option.split)
      ultimately show ?thesis using step [of ?st] lb(1) 2 p MinusInfinity Cons.prems(3) nb
        by (auto simp: num_is_zero_def ext_number_def leq_size_def leq_step_def [of _ _ _ _ _ _ _ "Some None"])
    qed (use lb(2) in \<open>simp add: lb_fits_def\<close>)
  next
    case 3
    obtain i where i: "get_interval z reg y = Some i" "ub_fits b z y (itv_ub i)"
      using get_interval_spec [OF z(1,2) b120 y(2)] by blast
    show ?thesis
    proof (cases "itv_ub i")
      case (Finite k)
      then have k: "\<bar>k\<bar> \<le> b" "\<And>\<rho>. zone_holds \<rho> z \<Longrightarrow> \<rho> y \<le> k" using i(2) by (auto simp: ub_fits_def)
      let ?st = "st\<lparr>ls_exp_ub := ls_exp_ub st - k * c, ls_neg := ls_neg st @ [((- c, y), k)]\<rparr>"
      have "leq_ok b reg ?st" using ok 3 k(1) y(2) by (auto simp: leq_ok_def)
      moreover have "leq_true \<rho> ?st \<and> leq_balance \<rho> ?st = leq_balance \<rho> st + c * \<rho> y" if "zone_holds \<rho> z" "leq_true \<rho> st" for \<rho>
        using that k(2) by (auto simp: leq_true_def leq_balance_def slack_of_def unbounded_of_def algebra_simps split: option.split)
      ultimately show ?thesis using step [of ?st] num [OF k(1)] c126 i(1) 3 p Finite
        by (simp add: num_is_zero_def ext_number_def leq_size_def)
    next
      case PlusInfinity
      let ?st = "st\<lparr>ls_ubvar := Some y, ls_ubcoeff := - c\<rparr>"
      have "leq_ok b reg ?st" using ok 3 y(2) by (auto simp: leq_ok_def)
      moreover have "leq_true \<rho> ?st \<and> leq_balance \<rho> ?st = leq_balance \<rho> st + c * \<rho> y"
        if "ls_ubvar st = None" "leq_true \<rho> st" for \<rho>
        using that by (auto simp: leq_true_def leq_balance_def slack_of_def unbounded_of_def split: option.split)
      ultimately show ?thesis using step [of ?st] c126 i(1) 3 p PlusInfinity Cons.prems(3) nb
        by (auto simp: num_is_zero_def ext_number_def leq_size_def leq_step_def [of _ _ _ _ _ _ _ "Some None"])
    qed (use i(2) in \<open>simp add: ub_fits_def\<close>)
  qed
qed

subsection \<open>The constraints that follow\<close>

lemma sdiv_cancel: "(0 :: int) < c \<Longrightarrow> (c * v) sdiv c = v"
  by (simp add: signed_divide_int_def sgn_mult abs_mult sgn_mult_abs)

lemma sdiv_upper: "(0 :: int) < c \<Longrightarrow> c * v \<le> x \<Longrightarrow> v \<le> x sdiv c"
  using sdiv_mono [of "c * v" x c] sdiv_cancel [of c v] by simp

lemma sdiv_lower: "(0 :: int) < c \<Longrightarrow> x \<le> c * v \<Longrightarrow> x sdiv c \<le> v"
  using sdiv_mono [of x "c * v" c] sdiv_cancel [of c v] by simp

lemma abs_sdiv: "(0 :: int) < c \<Longrightarrow> \<bar>x sdiv c\<bar> \<le> \<bar>x\<bar>"
  using zdiv_mono2 [of "\<bar>x\<bar>" 1 c] pos_imp_zdiv_nonneg_iff [of c "\<bar>x\<bar>"]
  by (cases "x = 0") (simp_all add: signed_divide_int_def abs_mult)

lemma num_div_small: "\<bar>x\<bar> \<le> 2 ^ 126 \<Longrightarrow> 0 < c \<Longrightarrow> num_div x c = Some (x sdiv c)"
  using abs_sdiv [of c x] unfolding num_div_def by (auto intro!: chk_i128_ok in_i128_small simp: abs_le_iff)

lemma member_le_sum: "(\<And>x. x \<in> set xs \<Longrightarrow> 0 \<le> f x) \<Longrightarrow> x \<in> set xs \<Longrightarrow> (f x :: int) \<le> sum_list (map f xs)"
proof (induction xs)
  case (Cons a xs)
  have nn: "0 \<le> sum_list (map f xs)" "0 \<le> f a" using Cons.prems(1) by (auto intro!: sum_list_nonneg)
  have "f x \<le> sum_list (map f xs)" if "x \<noteq> a" using Cons that by simp
  then show ?case using nn by (cases "x = a") (simp, fastforce)
qed simp

lemma leq_okD: "leq_ok b reg st \<Longrightarrow> ((c, y), k) \<in> set (ls_pos st) \<union> set (ls_neg st) \<Longrightarrow> 1 \<le> c \<and> \<bar>k\<bar> \<le> b \<and> is_min_only reg y \<noteq> None"
  unfolding leq_ok_def by blast

lemma leq_trueD:
  "leq_true \<rho> st \<Longrightarrow> ((c, y), k) \<in> set (ls_pos st) \<Longrightarrow> k \<le> \<rho> y"
  "leq_true \<rho> st \<Longrightarrow> ((c, y), k) \<in> set (ls_neg st) \<Longrightarrow> \<rho> y \<le> k"
  unfolding leq_true_def by blast+

text \<open>Each bounded term alone takes at most the slack.\<close>

lemma slack_parts:
  assumes "leq_ok b reg st" "leq_true \<rho> st"
  shows "0 \<le> slack_of \<rho> st"
    "\<And>c y k. ((c, y), k) \<in> set (ls_pos st) \<Longrightarrow> \<rho> y - k \<le> c * (\<rho> y - k) \<and> c * (\<rho> y - k) \<le> slack_of \<rho> st"
    "\<And>c y k. ((c, y), k) \<in> set (ls_neg st) \<Longrightarrow> k - \<rho> y \<le> c * (k - \<rho> y) \<and> c * (k - \<rho> y) \<le> slack_of \<rho> st"
    "\<And>c y k c' y' k'. ((c, y), k) \<in> set (ls_pos st) \<Longrightarrow> ((c', y'), k') \<in> set (ls_neg st) \<Longrightarrow>
      (\<rho> y - k) + (k' - \<rho> y') \<le> slack_of \<rho> st"
proof -
  let ?f = "\<lambda>((c, y), k). c * (\<rho> y - k)" and ?g = "\<lambda>((c, y), k). c * (k - \<rho> y)"
  have pos: "\<rho> y - k \<le> c * (\<rho> y - k)" "0 \<le> c * (\<rho> y - k)" if "((c, y), k) \<in> set (ls_pos st)" for c y k
    using leq_okD [OF assms(1), of c y k] leq_trueD(1) [OF assms(2) that] that mult_right_mono [of 1 c "\<rho> y - k"] by auto
  have neg: "k - \<rho> y \<le> c * (k - \<rho> y)" "0 \<le> c * (k - \<rho> y)" if "((c, y), k) \<in> set (ls_neg st)" for c y k
    using leq_okD [OF assms(1), of c y k] leq_trueD(2) [OF assms(2) that] that mult_right_mono [of 1 c "k - \<rho> y"] by auto
  have f: "0 \<le> ?f p" if "p \<in> set (ls_pos st)" for p
    using pos(2) [of "fst (fst p)" "snd (fst p)" "snd p"] that by (simp add: split_def)
  have g: "0 \<le> ?g p" if "p \<in> set (ls_neg st)" for p
    using neg(2) [of "fst (fst p)" "snd (fst p)" "snd p"] that by (simp add: split_def)
  have F: "?f p \<le> sum_list (map ?f (ls_pos st))" if "p \<in> set (ls_pos st)" for p using member_le_sum [OF f that] .
  have G: "?g p \<le> sum_list (map ?g (ls_neg st))" if "p \<in> set (ls_neg st)" for p using member_le_sum [OF g that] .
  have S: "slack_of \<rho> st = sum_list (map ?f (ls_pos st)) + sum_list (map ?g (ls_neg st))" by (simp add: slack_of_def)
  have nn: "0 \<le> sum_list (map ?f (ls_pos st))" "0 \<le> sum_list (map ?g (ls_neg st))"
    using f g by (auto intro!: sum_list_nonneg)
  then show "0 \<le> slack_of \<rho> st" using S by simp
  show "\<rho> y - k \<le> c * (\<rho> y - k) \<and> c * (\<rho> y - k) \<le> slack_of \<rho> st" if "((c, y), k) \<in> set (ls_pos st)" for c y k
    using pos(1) [OF that] F [OF that] S nn by simp
  show "k - \<rho> y \<le> c * (k - \<rho> y) \<and> c * (k - \<rho> y) \<le> slack_of \<rho> st" if "((c, y), k) \<in> set (ls_neg st)" for c y k
    using neg(1) [OF that] G [OF that] S nn by simp
  show "(\<rho> y - k) + (k' - \<rho> y') \<le> slack_of \<rho> st"
    if "((c, y), k) \<in> set (ls_pos st)" "((c', y'), k') \<in> set (ls_neg st)" for c y k c' y' k'
    using pos(1) [OF that(1)] F [OF that(1)] neg(1) [OF that(2)] G [OF that(2)] S by simp
qed

text \<open>The consequences as facts of a valuation, with the numbers in a range.\<close>

definition leq_follows :: "int \<Rightarrow> variable_registry \<Rightarrow> (variable \<Rightarrow> int) set \<Rightarrow> leq_consequences option \<Rightarrow> bool" where
  "leq_follows b reg R res \<longleftrightarrow> (\<exists>csts lbs ubs. res = Some (csts, lbs, ubs) \<and>
     (\<forall>(p, n)\<in>set csts. \<bar>n\<bar> \<le> b) \<and> (\<forall>(x, n)\<in>set lbs. \<bar>n\<bar> \<le> b) \<and>
     (\<forall>(x, n)\<in>set ubs. \<bar>n\<bar> \<le> b \<and> is_min_only reg x \<noteq> None) \<and>
     length lbs + length ubs \<le> 3 \<and> length csts \<le> 2 \<and>
     (\<forall>\<rho>\<in>R. holds_csts csts \<rho> \<and> (\<forall>(x, n)\<in>set lbs. n \<le> \<rho> x) \<and> (\<forall>(x, n)\<in>set ubs. \<rho> x \<le> n)))"

definition leq_region :: "leq_state \<Rightarrow> (variable \<Rightarrow> int) set" where
  "leq_region st = {\<rho>. leq_true \<rho> st \<and> leq_balance \<rho> st \<le> 0}"

lemma those_all: "(\<And>x. x \<in> set xs \<Longrightarrow> f x = Some (g x)) \<Longrightarrow> those (map f xs) = Some (map g xs)"
  by (induction xs) auto

lemma leq_small:
  assumes "leq_ok b reg st" "\<bar>ls_exp_ub st\<bar> \<le> e" "e + 2 * b \<le> 2 ^ 120" "0 \<le> b" "((c, y), k) \<in> set (ls_pos st) \<union> set (ls_neg st)"
  shows "num_sub (ls_exp_ub st) k = Some (ls_exp_ub st - k)" "num_add (ls_exp_ub st) k = Some (ls_exp_ub st + k)"
    "\<bar>ls_exp_ub st - k\<bar> \<le> e + b" "\<bar>ls_exp_ub st + k\<bar> \<le> e + b" "\<bar>k\<bar> \<le> b" "0 < c" "is_min_only reg y \<noteq> None"
proof -
  have k: "\<bar>k\<bar> \<le> b" "1 \<le> c" "is_min_only reg y \<noteq> None" using leq_okD [OF assms(1,5)] by auto
  then show "num_sub (ls_exp_ub st) k = Some (ls_exp_ub st - k)" "num_add (ls_exp_ub st) k = Some (ls_exp_ub st + k)"
    "\<bar>ls_exp_ub st - k\<bar> \<le> e + b" "\<bar>ls_exp_ub st + k\<bar> \<le> e + b" "\<bar>k\<bar> \<le> b" "0 < c" "is_min_only reg y \<noteq> None"
    using assms(2-4) num_sub_small [OF assms(2), of k] num_add_small [OF assms(2), of k] by auto
qed

lemma leq_lbvar_only_spec:
  assumes ok: "leq_ok b reg st" "\<bar>ls_exp_ub st\<bar> \<le> e" "e + 2 * b \<le> 2 ^ 120" "0 \<le> b" and x: "ls_lbvar st = Some x" "ls_ubvar st = None"
    and size: "leq_size st \<le> 3"
  shows "leq_follows (e + 2 * b) reg (leq_region st) (leq_lbvar_only st x)"
proof -
  have c: "1 \<le> ls_lbcoeff st" "is_min_only reg x \<noteq> None" using ok(1) x unfolding leq_ok_def by auto
  let ?e = "ls_exp_ub st"
  let ?u = "?e sdiv ls_lbcoeff st"
  have div: "num_div ?e (ls_lbcoeff st) = Some ?u" "\<bar>?u\<bar> \<le> e"
    using num_div_small [of ?e "ls_lbcoeff st"] abs_sdiv [of "ls_lbcoeff st" ?e] ok(2-4) c(1) by auto
  have "those (map (\<lambda>((c, y), k). map_option (Pair (x, y)) (num_sub ?e k)) (ls_neg st)) =
      Some (map (\<lambda>((c, y), k). ((x, y), ?e - k)) (ls_neg st))"
    using leq_small [OF ok(1-4)] by (intro those_all) auto
  then have run: "leq_lbvar_only st x =
      Some (if ls_lbcoeff st = 1 then map (\<lambda>((c, y), k). ((x, y), ?e - k)) (ls_neg st) else [], [], [(x, ?u)])"
    using div(1) by (simp add: leq_lbvar_only_def)
  have bal: "ls_lbcoeff st * \<rho> x + slack_of \<rho> st \<le> ?e" if "\<rho> \<in> leq_region st" for \<rho>
    using that x by (simp add: leq_region_def leq_balance_def unbounded_of_def)
  have "\<rho> x - \<rho> y \<le> ?e - k" if r: "\<rho> \<in> leq_region st" "((c, y), k) \<in> set (ls_neg st)" "ls_lbcoeff st = 1" for \<rho> c y k
    using bal [OF r(1)] slack_parts(3) [OF ok(1), of \<rho> c y k] r by (simp add: leq_region_def)
  moreover have "\<rho> x \<le> ?u" if r: "\<rho> \<in> leq_region st" for \<rho>
    using bal [OF r] slack_parts(1) [OF ok(1), of \<rho>] r c(1) by (intro sdiv_upper) (auto simp: leq_region_def)
  moreover have "\<forall>(p, n)\<in>set (map (\<lambda>((c, y), k). ((x, y), ?e - k)) (ls_neg st)). \<bar>n\<bar> \<le> e + 2 * b"
    using leq_small(3) [OF ok(1-4)] ok(4) by fastforce
  moreover have "length (ls_neg st) \<le> 2" using size x by (simp add: leq_size_def)
  ultimately show ?thesis using run div(2) c(2) ok(4) unfolding leq_follows_def holds_csts_def by (auto simp: split_def)
qed

lemma leq_ubvar_only_spec:
  assumes ok: "leq_ok b reg st" "\<bar>ls_exp_ub st\<bar> \<le> e" "e + 2 * b \<le> 2 ^ 120" "0 \<le> b" and y: "ls_lbvar st = None" "ls_ubvar st = Some y"
    and size: "leq_size st \<le> 3"
  shows "leq_follows (e + 2 * b) reg (leq_region st) (leq_ubvar_only st y)"
proof -
  have c: "1 \<le> ls_ubcoeff st" using ok(1) y unfolding leq_ok_def by auto
  let ?e = "ls_exp_ub st"
  let ?l = "(- ?e) sdiv ls_ubcoeff st"
  have "\<bar>- ?e\<bar> \<le> 2 ^ 120" using ok(2-4) by simp
  then have div: "num_neg ?e = Some (- ?e)" "num_div (- ?e) (ls_ubcoeff st) = Some ?l" "\<bar>?l\<bar> \<le> e"
    using num_neg_small [of ?e] num_div_small [of "- ?e" "ls_ubcoeff st"] abs_sdiv [of "ls_ubcoeff st" "- ?e"] ok(2) c by auto
  have "those (map (\<lambda>((c, x), k). map_option (Pair (x, y)) (num_add ?e k)) (ls_pos st)) =
      Some (map (\<lambda>((c, x), k). ((x, y), ?e + k)) (ls_pos st))"
    using leq_small(2) [OF ok(1-4)] by (intro those_all) fastforce
  then have run: "leq_ubvar_only st y =
      Some (if ls_ubcoeff st = 1 then map (\<lambda>((c, x), k). ((x, y), ?e + k)) (ls_pos st) else [], [(y, ?l)], [])"
    using div(1,2) by (simp add: leq_ubvar_only_def)
  have bal: "slack_of \<rho> st - ls_ubcoeff st * \<rho> y \<le> ?e" if "\<rho> \<in> leq_region st" for \<rho>
    using that y by (simp add: leq_region_def leq_balance_def unbounded_of_def)
  have "\<rho> x - \<rho> y \<le> ?e + k" if r: "\<rho> \<in> leq_region st" "((c, x), k) \<in> set (ls_pos st)" "ls_ubcoeff st = 1" for \<rho> c x k
    using bal [OF r(1)] slack_parts(2) [OF ok(1), of \<rho> c x k] r by (simp add: leq_region_def)
  moreover have "?l \<le> \<rho> y" if r: "\<rho> \<in> leq_region st" for \<rho>
    using bal [OF r] slack_parts(1) [OF ok(1), of \<rho>] r c by (intro sdiv_lower) (auto simp: leq_region_def)
  moreover have "\<forall>(p, n)\<in>set (map (\<lambda>((c, x), k). ((x, y), ?e + k)) (ls_pos st)). \<bar>n\<bar> \<le> e + 2 * b"
    using leq_small(4) [OF ok(1-4)] ok(4) by fastforce
  moreover have "length (ls_pos st) \<le> 2" using size y by (simp add: leq_size_def)
  ultimately show ?thesis using run div(3) ok(4) unfolding leq_follows_def holds_csts_def by (auto simp: split_def)
qed

lemma product_small: "(m :: nat) + n \<le> 3 \<Longrightarrow> m * n \<le> 2"
proof -
  assume "m + n \<le> 3"
  then have "m = 0 \<or> m = 1 \<or> m = 2 \<or> m = 3" "n \<le> 3 - m" by arith+
  then show ?thesis by auto
qed

lemma leq_bounded_spec:
  assumes ok: "leq_ok b reg st" "\<bar>ls_exp_ub st\<bar> \<le> e" "e + 2 * b \<le> 2 ^ 120" "0 \<le> b" and u: "ls_lbvar st = None" "ls_ubvar st = None"
    and size: "leq_size st \<le> 3"
  shows "leq_follows (e + 2 * b) reg (leq_region st) (leq_bounded st)"
proof -
  let ?e = "ls_exp_ub st"
  let ?csts = "concat (map (\<lambda>((nc, ny), nk). map (\<lambda>((pc, py), pk). ((py, ny), ?e - nk + pk)) (ls_pos st)) (ls_neg st))"
  let ?lbs = "map (\<lambda>((nc, ny), nk). (ny, (- ?e) sdiv nc + nk)) (ls_neg st)"
  let ?ubs = "map (\<lambda>((pc, py), pk). (py, ?e sdiv pc + pk)) (ls_pos st)"
  have small: "\<bar>?e\<bar> \<le> 2 ^ 120" using ok(2-4) by simp
  have add: "num_add x k = Some (x + k)" if "\<bar>x\<bar> \<le> e + b" "\<bar>k\<bar> \<le> b" for x k
    using num_add_small [OF that(1), of k] that(2) ok(3,4) by simp
  have neg: "num_neg ?e = Some (- ?e)" using num_neg_small small by blast
  have div: "num_div ?e c = Some (?e sdiv c)" "num_div (- ?e) c = Some ((- ?e) sdiv c)" "\<bar>?e sdiv c\<bar> \<le> e" "\<bar>(- ?e) sdiv c\<bar> \<le> e" if "0 < c" for c
    using num_div_small [of ?e c] num_div_small [of "- ?e" c] abs_sdiv [OF that, of ?e] abs_sdiv [OF that, of "- ?e"] that small ok(2) by auto
  note L = leq_small [OF ok(1-4)]
  let ?F = "\<lambda>((nc, ny), nk). map (\<lambda>((pc, py), pk).
      do { d \<leftarrow> num_sub ?e nk; w \<leftarrow> num_add d pk; Some ((py, ny), w) }) (ls_pos st)"
  let ?G = "\<lambda>((nc :: number, ny), nk). map (\<lambda>((pc, py), pk). ((py, ny), ?e - nk + pk)) (ls_pos st)"
  have "?F p = map Some (?G p)" if "p \<in> set (ls_neg st)" for p
  proof -
    obtain nc ny nk where n: "p = ((nc, ny), nk)" by (metis surj_pair)
    have N: "num_sub ?e nk = Some (?e - nk)" "\<bar>?e - nk\<bar> \<le> e + b" using L(1,3) [of nc ny nk] that n by auto
    have P: "num_add (?e - nk) pk = Some (?e - nk + pk)" if "((pc, py), pk) \<in> set (ls_pos st)" for pc py pk
      using add [OF N(2)] L(5) [of pc py pk] that by simp
    show ?thesis unfolding n using N(1) P by auto
  qed
  then have same: "map ?F (ls_neg st) = map (\<lambda>p. map Some (?G p)) (ls_neg st)" by (intro map_cong refl)
  have flat: "concat (map (\<lambda>p. map Some (?G p)) (ls_neg st)) = map Some ?csts" by (simp add: map_concat comp_def)
  have "those (map Some ?csts) = Some ?csts" using those_all [of ?csts Some id] by simp
  then have csts: "those (concat (map ?F (ls_neg st))) = Some ?csts" by (simp only: same flat)
  have q: "num_div (- ?e) c = Some ((- ?e) sdiv c) \<and> num_add ((- ?e) sdiv c) k = Some ((- ?e) sdiv c + k)"
    if "((c, y), k) \<in> set (ls_neg st)" for c y k
    using add [of "(- ?e) sdiv c" k] div(2,4) [of c] L(5,6) [of c y k] that ok(4) by simp
  then have lbs: "those (map (\<lambda>((nc, ny), nk). do { n \<leftarrow> num_neg ?e; q \<leftarrow> num_div n nc; l \<leftarrow> num_add q nk; Some (ny, l) }) (ls_neg st)) = Some ?lbs"
    using neg by (intro those_all) fastforce
  have "num_div ?e c = Some (?e sdiv c) \<and> num_add (?e sdiv c) k = Some (?e sdiv c + k)"
    if "((c, y), k) \<in> set (ls_pos st)" for c y k
    using add [of "?e sdiv c" k] div(1,3) [of c] L(5,6) [of c y k] that ok(4) by simp
  then have ubs: "those (map (\<lambda>((pc, py), pk). do { q \<leftarrow> num_div ?e pc; u \<leftarrow> num_add q pk; Some (py, u) }) (ls_pos st)) = Some ?ubs"
    by (intro those_all) fastforce
  have run: "leq_bounded st = Some (?csts, ?lbs, ?ubs)" using csts lbs ubs by (simp add: leq_bounded_def)
  have bal: "slack_of \<rho> st \<le> ?e" "leq_true \<rho> st" if "\<rho> \<in> leq_region st" for \<rho>
    using that u by (simp_all add: leq_region_def leq_balance_def unbounded_of_def)
  have P: "\<bar>?e sdiv c + k\<bar> \<le> e + 2 * b" "is_min_only reg y \<noteq> None" if "((c, y), k) \<in> set (ls_pos st)" for c y k
    using L(5-7) [of c y k] div(3) [of c] that ok(4) by auto
  have N: "\<bar>(- ?e) sdiv c + k\<bar> \<le> e + 2 * b" if "((c, y), k) \<in> set (ls_neg st)" for c y k
    using L(5-7) [of c y k] div(4) [of c] that ok(4) by auto
  have PN: "\<bar>?e - nk + pk\<bar> \<le> e + 2 * b" if "((nc, ny), nk) \<in> set (ls_neg st)" "((pc, py), pk) \<in> set (ls_pos st)" for nc ny nk pc py pk
    using L(3) [of nc ny nk] L(5) [of pc py pk] that by auto
  have up: "\<rho> y \<le> ?e sdiv c + k" if "\<rho> \<in> leq_region st" "((c, y), k) \<in> set (ls_pos st)" for \<rho> c y k
    using sdiv_upper [of c "\<rho> y - k" ?e] slack_parts(2) [OF ok(1) bal(2) [OF that(1)] that(2)] bal(1) [OF that(1)] L(6) [of c y k] that(2) by auto
  have down: "(- ?e) sdiv c + k \<le> \<rho> y" if "\<rho> \<in> leq_region st" "((c, y), k) \<in> set (ls_neg st)" for \<rho> c y k
    using sdiv_lower [of c "- ?e" "\<rho> y - k"] slack_parts(3) [OF ok(1) bal(2) [OF that(1)] that(2)] bal(1) [OF that(1)] L(6) [of c y k] that(2)
    by (auto simp: algebra_simps)
  have diff: "\<rho> py - \<rho> ny \<le> ?e - nk + pk" if "\<rho> \<in> leq_region st" "((nc, ny), nk) \<in> set (ls_neg st)" "((pc, py), pk) \<in> set (ls_pos st)" for \<rho> nc ny nk pc py pk
    using slack_parts(4) [OF ok(1) bal(2) [OF that(1)] that(3,2)] bal(1) [OF that(1)] by simp
  have "length ?csts = length (ls_neg st) * length (ls_pos st)"
    by (simp add: length_concat comp_def split_def sum_list_triv)
  moreover have "length (ls_pos st) + length (ls_neg st) \<le> 3" using size u by (simp add: leq_size_def)
  ultimately have len: "length ?csts \<le> 2" "length ?lbs + length ?ubs \<le> 3" using product_small [of "length (ls_neg st)" "length (ls_pos st)"] by auto
  have "\<forall>(p, n)\<in>set ?csts. \<bar>n\<bar> \<le> e + 2 * b" "\<forall>(x, n)\<in>set ?lbs. \<bar>n\<bar> \<le> e + 2 * b"
    "\<forall>(x, n)\<in>set ?ubs. \<bar>n\<bar> \<le> e + 2 * b \<and> is_min_only reg x \<noteq> None"
    using P N PN by fastforce+
  moreover have "holds_csts ?csts \<rho>" "\<forall>(x, n)\<in>set ?lbs. n \<le> \<rho> x" "\<forall>(x, n)\<in>set ?ubs. \<rho> x \<le> n" if "\<rho> \<in> leq_region st" for \<rho>
    using up [OF that] down [OF that] diff [OF that] unfolding holds_csts_def by fastforce+
  ultimately show ?thesis using run len unfolding leq_follows_def by (intro exI [of _ ?csts] exI [of _ ?lbs] exI [of _ ?ubs]) blast
qed

end
