(* ===== verification/Zone_Queries.thy ===== *)
theory Zone_Queries
  imports Zone_Constraints Interval_Bits
begin

text \<open>
  Adding a constraint to a zone and asking what it entails: \<open>add_constraint\<close>, \<open>eval_interval\<close> and
  \<open>entail\<close> of \<open>src/crab/zone_domain.rs\<close>.
\<close>

subsection \<open>Inequalities\<close>

text \<open>An expression with three terms at most, over registered variables.\<close>

definition lin_within :: "int \<Rightarrow> int \<Rightarrow> variable_registry \<Rightarrow> linear_expression \<Rightarrow> bool" where
  "lin_within m n reg e \<longleftrightarrow> \<bar>constant_term e\<bar> \<le> m \<and> length (variable_terms e) \<le> 3 \<and>
     (\<forall>(y, c)\<in>set (variable_terms e). \<bar>c\<bar> \<le> n \<and> is_min_only reg y \<noteq> None)"

definition leq_solutions :: "zone_domain \<Rightarrow> linear_expression \<Rightarrow> (variable \<Rightarrow> int) set" where
  "leq_solutions z e = {\<rho>. zone_holds \<rho> z \<and> lin_eval \<rho> e \<le> 0}"

lemma leq_follows_mono: "leq_follows b reg R res \<Longrightarrow> S \<subseteq> R \<Longrightarrow> b \<le> c \<Longrightarrow> leq_follows c reg S res"
  unfolding leq_follows_def by (elim exE conjE, intro exI conjI) (assumption | fastforce)+

lemma diffcsts_of_lin_leq_spec:
  assumes z: "zone_ok z" "zone_within b z" "b \<le> 2 ^ 100" "0 < b" "0 \<le> n" and e: "lin_within m n reg e"
    and small: "m + 3 * (n * b) + 2 * b \<le> 2 ^ 110"
  shows "leq_follows (m + 3 * (n * b) + 2 * b) reg (leq_solutions z e) (diffcsts_of_lin_leq z reg e)"
proof -
  let ?st = "\<lparr>ls_exp_ub = - constant_term e, ls_lbvar = None, ls_lbcoeff = 0, ls_ubvar = None, ls_ubcoeff = 0, ls_pos = [], ls_neg = []\<rparr>"
  let ?e = "m + 3 * (n * b)"
  have nb: "0 \<le> n * b" using z(4,5) by simp
  have e': "\<bar>constant_term e\<bar> \<le> m" "\<forall>(y, c)\<in>set (variable_terms e). \<bar>c\<bar> \<le> n \<and> is_min_only reg y \<noteq> None"
    "length (variable_terms e) \<le> 3" using e by (simp_all add: lin_within_def)
  have "int (length (variable_terms e)) * (n * b) \<le> 3 * (n * b)" using e'(3) nb by (intro mult_right_mono) auto
  then have len: "m + int (length (variable_terms e)) * (n * b) \<le> ?e" by simp
  have "leq_step b reg z (m + int (length (variable_terms e)) * (n * b)) 3 ?st (\<lambda>\<rho>. eval_terms \<rho> (variable_terms e))
      (leq_terms z reg (variable_terms e) ?st)"
    using e' len small z(4) by (intro leq_terms_spec [OF z(1-5)]) (auto simp: leq_ok_def leq_size_def)
  then obtain r where r: "leq_terms z reg (variable_terms e) ?st = Some r"
    "\<And>st'. r = Some st' \<Longrightarrow> leq_ok b reg st' \<and> \<bar>ls_exp_ub st'\<bar> \<le> m + int (length (variable_terms e)) * (n * b) \<and> leq_size st' \<le> 3 \<and>
     (\<forall>\<rho>. zone_holds \<rho> z \<longrightarrow> leq_true \<rho> ?st \<longrightarrow>
        leq_true \<rho> st' \<and> leq_balance \<rho> st' = leq_balance \<rho> ?st + eval_terms \<rho> (variable_terms e))"
    unfolding leq_step_def by blast
  have neg: "num_neg (constant_term e) = Some (- constant_term e)"
    using e'(1) small nb z(4) by (intro num_neg_small) simp
  show ?thesis
  proof (cases r)
    case None
    then show ?thesis using neg r(1) small nb z(4) e'(1) by (simp add: diffcsts_of_lin_leq_def leq_follows_def holds_csts_def)
  next
    case (Some st)
    have start: "leq_true \<rho> ?st" "leq_balance \<rho> ?st = constant_term e" for \<rho>
      by (simp_all add: leq_true_def leq_balance_def slack_of_def unbounded_of_def)
    have st: "leq_ok b reg st" "\<bar>ls_exp_ub st\<bar> \<le> ?e" "leq_size st \<le> 3" using r(2) [OF Some] len by auto
    have region: "leq_solutions z e \<subseteq> leq_region st"
      using r(2) [OF Some] start by (auto simp: leq_solutions_def leq_region_def lin_eval_def)
    have room: "?e + 2 * b \<le> 2 ^ 120" "0 \<le> b" using small z(4) by simp_all
    have D: "diffcsts_of_lin_leq z reg e =
        (case (ls_lbvar st, ls_ubvar st) of
           (Some x, Some uv) \<Rightarrow>
             Some (if ls_lbcoeff st = 1 \<and> ls_ubcoeff st = 1 then [((x, uv), ls_exp_ub st)] else [], [], [])
         | (Some x, None) \<Rightarrow> leq_lbvar_only st x
         | (None, Some y) \<Rightarrow> leq_ubvar_only st y
         | (None, None) \<Rightarrow> leq_bounded st)"
      using neg r(1) Some by (simp add: diffcsts_of_lin_leq_def)
    have "leq_follows (?e + 2 * b) reg (leq_region st) (diffcsts_of_lin_leq z reg e)"
    proof (cases "ls_lbvar st"; cases "ls_ubvar st")
      fix x y assume xy: "ls_lbvar st = Some x" "ls_ubvar st = Some y"
      have "\<rho> x - \<rho> y \<le> ls_exp_ub st" if "\<rho> \<in> leq_region st" "ls_lbcoeff st = 1" "ls_ubcoeff st = 1" for \<rho>
        using that xy slack_parts(1) [OF st(1), of \<rho>] by (simp add: leq_region_def leq_balance_def unbounded_of_def)
      then show ?thesis unfolding D using xy st(2) room(2) by (simp add: leq_follows_def holds_csts_def)
    qed (use D leq_lbvar_only_spec [OF st(1,2) room _ _ st(3)] leq_ubvar_only_spec [OF st(1,2) room _ _ st(3)]
        leq_bounded_spec [OF st(1,2) room _ _ st(3)] in simp_all)
    then show ?thesis by (rule leq_follows_mono [OF _ region]) simp
  qed
qed

text \<open>
  The contract of a sound refinement: the operation returns, what it keeps is part of the zone, and
  every valuation of the zone in \<open>R\<close> is kept; in particular it answers \<open>False\<close> only if there is none.
\<close>

definition zone_refines :: "zone_domain \<Rightarrow> (variable \<Rightarrow> int) set \<Rightarrow> (bool \<times> zone_domain) option \<Rightarrow> bool" where
  "zone_refines z R res \<longleftrightarrow> (\<exists>r z'. res = Some (r, z') \<and> (r \<longrightarrow> zone_ok z' \<and> (\<forall>\<rho>. zone_holds \<rho> z' \<longrightarrow> zone_holds \<rho> z)) \<and>
     (\<forall>\<rho>\<in>R. r \<and> zone_holds \<rho> z'))"

lemma zone_close_spec:
  assumes z: "zone_ok z" "zone_room 0 z" "zone_within (2 ^ 100) z"
  shows "zone_adds (2 ^ 117) 0 z (\<lambda>_. True)
    (do { core \<leftarrow> close_after_bound_updates (z_core z); z \<leftarrow> zone_normalize (z\<lparr>z_core := core\<rparr>); Some (True, z) })"
proof -
  note Z = zone_okD [OF z(1)]
  obtain d where d: "close_after_bound_updates (z_core z) = Some d" "keeps_solutions (z_core z) d"
    "dbm_unstable d = dbm_unstable (z_core z)" "dbm_within (2 ^ 117) d"
    using close_after_bound_updates_spec [OF Z(1)] z(3) unfolding zone_within_def by blast
  have run: "zone_normalize (z\<lparr>z_core := d\<rparr>) = Some (z\<lparr>z_core := d\<rparr>)"
    using d(3) Z(3) by (simp add: zone_normalize_def normalize_def)
  have "same_shape (z_core z) d" "dbm_ok d" using d(2,3) by (simp_all add: keeps_solutions_def same_shape_def)
  then have "zone_ok (z\<lparr>z_core := d\<rparr>)" by (intro zone_core_ok [OF z(1)])
  moreover have "zone_holds \<rho> (z\<lparr>z_core := d\<rparr>) = zone_holds \<rho> z" for \<rho>
    using d(2) by (simp add: zone_holds_def zone_model_def keeps_solutions_def)
  moreover have "zone_room 0 (z\<lparr>z_core := d\<rparr>)" using z(2) d(2) by (simp add: zone_room_def keeps_solutions_def)
  ultimately show ?thesis
    using d(1,4) run unfolding zone_adds_def zone_within_def by (intro exI [of _ True] exI [of _ "z\<lparr>z_core := d\<rparr>"]) simp
qed

lemma add_linear_leq_spec:
  assumes z: "zone_ok z" "zone_within b z" "b \<le> 2 ^ 100" "0 < b" "0 \<le> n" and e: "lin_within m n reg e"
    and small: "m + 3 * (n * b) + 2 * b \<le> 2 ^ 86" and room: "zone_room 7 z"
  shows "zone_refines z (leq_solutions z e) (add_linear_leq e reg z)"
proof -
  let ?b = "m + 3 * (n * b) + 2 * b"
  have s: "?b \<le> 2 ^ 110" using small by simp
  obtain csts lbs ubs where D: "diffcsts_of_lin_leq z reg e = Some (csts, lbs, ubs)"
    "\<forall>(p, k)\<in>set csts. \<bar>k\<bar> \<le> ?b" "\<forall>(x, k)\<in>set lbs. \<bar>k\<bar> \<le> ?b"
    "\<forall>(x, k)\<in>set ubs. \<bar>k\<bar> \<le> ?b \<and> is_min_only reg x \<noteq> None" "length lbs + length ubs \<le> 3" "length csts \<le> 2"
    "\<forall>\<rho>\<in>leq_solutions z e. holds_csts csts \<rho> \<and> (\<forall>(x, k)\<in>set lbs. k \<le> \<rho> x) \<and> (\<forall>(x, k)\<in>set ubs. \<rho> x \<le> k)"
    using diffcsts_of_lin_leq_spec [OF z e s] unfolding leq_follows_def by blast
  have m: "0 \<le> m" using e by (auto simp: lin_within_def)
  have b: "0 \<le> ?b" "b \<le> ?b" using m z(4,5) by simp_all
  define b1 where "b1 = ?b * 4 ^ length lbs"
  define b2 where "b2 = b1 * 4 ^ length ubs"
  define b3 where "b3 = b2 * 12 ^ length csts"
  have "(4 :: int) ^ (length lbs + length ubs) \<le> 4 ^ 3" using D(5) by (intro power_increasing) auto
  then have "?b * 4 ^ (length lbs + length ubs) \<le> 2 ^ 86 * 4 ^ 3" using b(1) small by (intro mult_mono) auto
  then have b2: "b2 \<le> 2 ^ 92" "0 \<le> b2" using b(1) by (simp_all add: b1_def b2_def power_add)
  have "(12 :: int) ^ length csts \<le> 12 ^ 2" using D(6) by (intro power_increasing) auto
  then have "b3 \<le> 2 ^ 92 * 12 ^ 2" unfolding b3_def using b2 by (intro mult_mono) auto
  then have b3: "b3 \<le> 2 ^ 100" by simp
  have b1: "0 \<le> b1" "b1 \<le> b2" "?b \<le> b1" using b(1) mult_left_mono [OF one_le_power [of "4 :: int" "length ubs"], of b1]
      mult_left_mono [OF one_le_power [of "4 :: int" "length lbs"], of ?b] by (simp_all add: b1_def b2_def)
  have room': "zone_room (length lbs + (length ubs + (2 * length csts + 0))) z"
    using room D(5,6) by (simp add: zone_room_def)
  have A: "zone_adds b1 (length ubs + (2 * length csts + 0)) z (\<lambda>\<rho>. \<forall>(x, k)\<in>set lbs. k \<le> \<rho> x) (tighten_lbs lbs z)"
    unfolding b1_def using b1 b2 by (intro tighten_lbs_spec [OF z(1) room' zone_within_mono [OF z(2) b(2)] b(1) _ D(3)]) (simp add: b1_def)
  have B: "zone_adds b2 (2 * length csts + 0) z' (holds_ubs reg ubs) (tighten_ubs reg ubs z')"
    if "zone_ok z'" "zone_room (length ubs + (2 * length csts + 0)) z'" "zone_within b1 z'" for z'
    unfolding b2_def using b1 b2 D(4) by (intro tighten_ubs_spec [OF that b1(1)]) (auto simp: b2_def)
  have C: "zone_adds b3 0 z' (holds_csts csts) (add_differences csts z')"
    if "zone_ok z'" "zone_room (2 * length csts + 0) z'" "zone_within b2 z'" for z'
    unfolding b3_def using b1 b3 D(2) by (intro add_differences_spec [OF that b2(2)]) (auto simp: b3_def)
  have E: "zone_adds (2 ^ 117) 0 z' (\<lambda>_. True)
      (do { core \<leftarrow> close_after_bound_updates (z_core z'); z \<leftarrow> zone_normalize (z'\<lparr>z_core := core\<rparr>); Some (True, z) })"
    if z': "zone_ok z'" "zone_room 0 z'" "zone_within b3 z'" for z'
    by (rule zone_close_spec [OF z'(1,2) zone_within_mono [OF z'(3) b3]])
  have "zone_adds (2 ^ 117) 0 z (\<lambda>\<rho>. (\<forall>(x, k)\<in>set lbs. k \<le> \<rho> x) \<and> holds_ubs reg ubs \<rho> \<and> holds_csts csts \<rho> \<and> True) (add_linear_leq e reg z)"
    unfolding add_linear_leq_def D(1) Option.bind.simps prod.case
    by (intro zone_adds_then [OF A] zone_adds_then [OF B] zone_adds_then [OF C] E)
  then obtain r z' where r: "add_linear_leq e reg z = Some (r, z')"
    "\<And>\<rho>. \<not> r \<Longrightarrow> zone_holds \<rho> z \<Longrightarrow> \<not> ((\<forall>(x, k)\<in>set lbs. k \<le> \<rho> x) \<and> holds_ubs reg ubs \<rho> \<and> holds_csts csts \<rho>)"
    "r \<Longrightarrow> zone_ok z'" "\<And>\<rho>. r \<Longrightarrow> zone_holds \<rho> z' \<longleftrightarrow>
       zone_holds \<rho> z \<and> (\<forall>(x, k)\<in>set lbs. k \<le> \<rho> x) \<and> holds_ubs reg ubs \<rho> \<and> holds_csts csts \<rho>"
    unfolding zone_adds_def by auto
  have "(\<forall>(x, k)\<in>set lbs. k \<le> \<rho> x) \<and> holds_ubs reg ubs \<rho> \<and> holds_csts csts \<rho>" "zone_holds \<rho> z" if "\<rho> \<in> leq_solutions z e" for \<rho>
    using D(7) that by (auto simp: holds_ubs_def leq_solutions_def)
  then show ?thesis using r unfolding zone_refines_def by blast
qed

subsection \<open>The interval of an expression\<close>

lemma within_new:
  assumes "p \<le> Finite k" "Finite k \<le> q" "\<And>n. p = Finite n \<Longrightarrow> \<bar>n\<bar> \<le> b" "\<And>n. q = Finite n \<Longrightarrow> \<bar>n\<bar> \<le> b"
  shows "itv_within b (itv_new p q)"
proof -
  have "p \<le> q" using order_trans [OF assms(1,2)] .
  then have new: "itv_new p q = \<lparr>itv_lb = p, itv_ub = q\<rparr>" by (simp add: itv_new_def not_less)
  have "p \<noteq> PlusInfinity" "q \<noteq> MinusInfinity" using assms(1,2) by auto
  then show ?thesis
    unfolding new using assms(3,4) by (cases p; cases q) (simp_all add: itv_within_def itv_regular_def abs_le_iff minus_le_iff)
qed

lemma withinD:
  assumes "itv_within b i"
  shows "itv_lb i = Finite n \<Longrightarrow> \<bar>n\<bar> \<le> b" "itv_ub i = Finite n \<Longrightarrow> \<bar>n\<bar> \<le> b"
    "itv_lb i \<noteq> PlusInfinity" "itv_ub i \<noteq> MinusInfinity"
  using assms by (auto simp: itv_within_def itv_regular_def abs_le_iff)

lemma gammaD: "k \<in> itv_gamma i \<Longrightarrow> itv_lb i \<le> Finite k \<and> Finite k \<le> itv_ub i"
  by (simp add: itv_gamma_def)

lemma add_within:
  assumes "itv_within b i" "itv_within c j" "x \<in> itv_gamma i" "y \<in> itv_gamma j" "b + c \<le> 2 ^ 126"
  shows "\<exists>r. itv_add i j = Some r \<and> itv_within (b + c) r \<and> x + y \<in> itv_gamma r"
proof -
  note I = withinD [OF assms(1)] and J = withinD [OF assms(2)]
  have pos: "0 \<le> b" "0 \<le> c" if "itv_lb i = Finite m \<or> itv_ub i = Finite m" "itv_lb j = Finite n \<or> itv_ub j = Finite n" for m n
    using I(1,2) [of m] J(1,2) [of n] that by fastforce+
  have add: "ext_add (Finite m) (Finite n) = Some (Finite (m + n))" if "\<bar>m\<bar> \<le> b" "\<bar>n\<bar> \<le> c" for m n
    using num_add_small [OF that(1), of n] that(2) assms(5) by simp
  have "\<exists>l. ext_add (itv_lb i) (itv_lb j) = Some l \<and> (\<forall>n. l = Finite n \<longrightarrow> \<bar>n\<bar> \<le> b + c)"
    using I(1,3) J(1,3) add by (cases "itv_lb i"; cases "itv_lb j") force+
  moreover have "\<exists>u. ext_add (itv_ub i) (itv_ub j) = Some u \<and> (\<forall>n. u = Finite n \<longrightarrow> \<bar>n\<bar> \<le> b + c)"
    using I(2,4) J(2,4) add by (cases "itv_ub i"; cases "itv_ub j") force+
  ultimately obtain l u where lu: "ext_add (itv_lb i) (itv_lb j) = Some l" "\<forall>n. l = Finite n \<longrightarrow> \<bar>n\<bar> \<le> b + c"
    "ext_add (itv_ub i) (itv_ub j) = Some u" "\<forall>n. u = Finite n \<longrightarrow> \<bar>n\<bar> \<le> b + c" by blast
  have "l \<le> Finite (x + y)" "Finite (x + y) \<le> u"
    using ext_add_le [OF lu(1)] ext_add_ge [OF lu(3)] gammaD [OF assms(3)] gammaD [OF assms(4)] by auto
  then have "itv_within (b + c) (itv_new l u)" using lu(2,4) by (intro within_new) auto
  moreover have run: "itv_add i j = Some (itv_new l u)"
    using lu(1,3) gamma_nonempty [OF assms(3)] gamma_nonempty [OF assms(4)] by (simp add: itv_add_def)
  ultimately show ?thesis using add_sound [OF assms(3,4) run] by blast
qed

lemma scale_within:
  assumes "itv_within b i" "x \<in> itv_gamma i" "\<bar>c\<bar> \<le> n" "n * b \<le> 2 ^ 126" "0 \<le> b"
  shows "\<exists>r. itv_mul (itv_from_number c) i = Some r \<and> itv_within (n * b) r \<and> c * x \<in> itv_gamma r"
proof -
  note I = withinD [OF assms(1)]
  have nb: "0 \<le> n * b" using assms(3,5) by simp
  have mul: "\<exists>z. ext_mul (Finite c) p = Some z \<and> (\<forall>k. z = Finite k \<longrightarrow> \<bar>k\<bar> \<le> n * b)" if "p \<in> {itv_lb i, itv_ub i}" for p
  proof (cases p)
    case (Finite k)
    then have "\<bar>k\<bar> \<le> b" using that I(1,2) by auto
    then have "\<bar>c * k\<bar> \<le> n * b" using abs_mult_le [of k b c n] assms(3) by (simp add: mult.commute [of c])
    then show ?thesis using Finite num_mul_small [of c k] assms(4) by (auto simp: ext_mul_def)
  next
    case PlusInfinity
    then show ?thesis using nb by (cases "c = 0") (simp_all add: ext_mul_def)
  next
    case MinusInfinity
    then show ?thesis using nb by (cases "c = 0") (simp_all add: ext_mul_def)
  qed
  have ends: "itv_lb i \<in> {itv_lb i, itv_ub i}" "itv_ub i \<in> {itv_lb i, itv_ub i}" by simp_all
  obtain l where l: "ext_mul (Finite c) (itv_lb i) = Some l" "\<forall>k. l = Finite k \<longrightarrow> \<bar>k\<bar> \<le> n * b"
    using mul [OF ends(1)] by (elim exE conjE)
  obtain u where u: "ext_mul (Finite c) (itv_ub i) = Some u" "\<forall>k. u = Finite k \<longrightarrow> \<bar>k\<bar> \<le> n * b"
    using mul [OF ends(2)] by (elim exE conjE)
  note lu = l u
  let ?r = "itv_new (min l u) (max l u)"
  have b: "itv_lb (itv_from_number c) = Finite c" "itv_ub (itv_from_number c) = Finite c" by (simp_all add: itv_from_number_def Let_def)
  have it: "iter_min [l, u, l, u] = Some (min l u)" "iter_max [l, u, l, u] = Some (max l u)" by (simp_all add: ac_simps)
  have "\<not> itv_is_bottom i" "\<not> itv_is_bottom (itv_from_number c)"
    using gamma_nonempty [OF assms(2)] gamma_nonempty [of c "itv_from_number c"] by simp_all
  then have run: "itv_mul (itv_from_number c) i = Some ?r"
    by (simp only: itv_mul_def itv_corners_def b lu(1,3) it Option.bind.simps simp_thms if_False)
  have g: "c * x \<in> itv_gamma ?r" using mul_sound [OF _ assms(2) run] by simp
  then have "min l u \<le> Finite (c * x)" "Finite (c * x) \<le> max l u" by (simp_all only: gamma_new)
  then have "itv_within (n * b) ?r" using lu(2,4) by (intro within_new) (auto simp: min_def max_def split: if_splits)
  then show ?thesis using run g by blast
qed

lemma interval_within: "lb_fits b z x (itv_lb i) \<Longrightarrow> ub_fits b z x (itv_ub i) \<Longrightarrow> itv_within b i"
  unfolding itv_within_def itv_regular_def lb_fits_def ub_fits_def
  by (cases "itv_lb i"; cases "itv_ub i") (simp_all add: abs_le_iff minus_le_iff)

lemma eval_interval_loop_spec:
  assumes z: "zone_ok z" "zone_within b z" "b \<le> 2 ^ 120" "0 \<le> b" and "0 \<le> n"
    and "\<forall>(y, c)\<in>set ts. \<bar>c\<bar> \<le> n \<and> is_min_only reg y \<noteq> None" "itv_within m r" "\<forall>\<rho>. zone_holds \<rho> z \<longrightarrow> f \<rho> \<in> itv_gamma r"
    "0 \<le> m" "m + int (length ts) * (n * b) \<le> 2 ^ 126"
  shows "\<exists>i. eval_interval_loop z reg ts r = Some i \<and> itv_within (m + int (length ts) * (n * b)) i \<and>
    (\<forall>\<rho>. zone_holds \<rho> z \<longrightarrow> f \<rho> + eval_terms \<rho> ts \<in> itv_gamma i)"
  using assms(6-)
proof (induction ts arbitrary: r m f)
  case Nil
  then show ?case by simp
next
  case (Cons p ts)
  obtain y c where p: "p = (y, c)" by (cases p)
  have y: "\<bar>c\<bar> \<le> n" "is_min_only reg y \<noteq> None" and ts: "\<forall>(y, c)\<in>set ts. \<bar>c\<bar> \<le> n \<and> is_min_only reg y \<noteq> None"
    using Cons.prems(1) p by auto
  have nb: "0 \<le> n * b" "0 \<le> int (length ts) * (n * b)" using z(4) assms(5) by simp_all
  have m: "m + int (length (p # ts)) * (n * b) = m + n * b + int (length ts) * (n * b)" by (simp add: algebra_simps)
  obtain i where i: "get_interval z reg y = Some i" "itv_within b i" "\<And>\<rho>. zone_holds \<rho> z \<Longrightarrow> \<rho> y \<in> itv_gamma i"
    using get_interval_spec [OF z(1-3) y(2)] interval_within by blast
  obtain \<rho>0 where w: "zone_holds \<rho>0 z" using zone_inhabited [OF z(1)] by blast
  have small: "n * b \<le> 2 ^ 126" "m + n * b \<le> 2 ^ 126" using Cons.prems(4,5) nb m by linarith+
  obtain q where q: "itv_mul (itv_from_number c) i = Some q" "itv_within (n * b) q" "c * \<rho>0 y \<in> itv_gamma q"
    using scale_within [OF i(2) i(3) [OF w] y(1) small(1) z(4)] by blast
  have mul: "c * \<rho> y \<in> itv_gamma q" if "zone_holds \<rho> z" for \<rho> using mul_sound [OF _ i(3) [OF that] q(1), of c] by simp
  have f0: "f \<rho>0 \<in> itv_gamma r" using Cons.prems(3) w by blast
  obtain s where s: "itv_add r q = Some s" "itv_within (m + n * b) s"
    using add_within [OF Cons.prems(2) q(2) f0 q(3) small(2)] by blast
  have "\<forall>\<rho>. zone_holds \<rho> z \<longrightarrow> f \<rho> + c * \<rho> y \<in> itv_gamma s" using add_sound [OF _ mul s(1)] Cons.prems(3) by blast
  from Cons.IH [OF ts s(2) this] Cons.prems(4,5) nb m show ?case
    using i(1) q(1) s(1) p by (auto simp: algebra_simps)
qed

lemma zone_eval_interval_spec:
  assumes z: "zone_ok z" "zone_within b z" "b \<le> 2 ^ 120" "0 \<le> b" "0 \<le> n" and e: "lin_within m n reg e"
    and small: "m + 3 * (n * b) \<le> 2 ^ 126"
  shows "\<exists>i. zone_eval_interval z reg e = Some i \<and> itv_within (m + 3 * (n * b)) i \<and> (\<forall>\<rho>. zone_holds \<rho> z \<longrightarrow> lin_eval \<rho> e \<in> itv_gamma i)"
proof -
  have e': "\<bar>constant_term e\<bar> \<le> m" "\<forall>(y, c)\<in>set (variable_terms e). \<bar>c\<bar> \<le> n \<and> is_min_only reg y \<noteq> None"
    "length (variable_terms e) \<le> 3" using e by (simp_all add: lin_within_def)
  have nb: "0 \<le> n * b" using z(4,5) by simp
  have len: "m + int (length (variable_terms e)) * (n * b) \<le> m + 3 * (n * b)" using e'(3) nb by (intro add_left_mono mult_right_mono) auto
  have c: "itv_within m (itv_from_number (constant_term e))"
    using e'(1) by (simp add: itv_within_def itv_regular_def itv_from_number_def Let_def abs_le_iff minus_le_iff)
  have "\<exists>i. eval_interval_loop z reg (variable_terms e) (itv_from_number (constant_term e)) = Some i \<and>
      itv_within (m + int (length (variable_terms e)) * (n * b)) i \<and>
      (\<forall>\<rho>. zone_holds \<rho> z \<longrightarrow> constant_term e + eval_terms \<rho> (variable_terms e) \<in> itv_gamma i)"
    using e'(1) len small by (intro eval_interval_loop_spec [OF z(1-5) e'(2) c]) auto
  moreover have "itv_within (m + 3 * (n * b)) i" if "itv_within (m + int (length (variable_terms e)) * (n * b)) i" for i
    using that len by (auto simp: itv_within_def split: extended_number.splits)
  ultimately show ?thesis by (auto simp: zone_eval_interval_def lin_eval_def)
qed

subsection \<open>Constraints\<close>

lemma scale_minus:
  assumes "\<forall>(y, c)\<in>set ts. \<bar>c\<bar> \<le> n \<and> is_min_only reg y \<noteq> None" "n \<le> 2 ^ 120"
  shows "scale_terms (- 1) ts = Some (map (\<lambda>(y, c). (y, - c)) ts)"
  using assms
proof (induction ts)
  case (Cons p ts)
  obtain y c where p: "p = (y, c)" by (cases p)
  have "num_mul c (- 1) = Some (- c)" using num_mul_small [of c "- 1"] Cons.prems p by simp
  then show ?case using Cons p by simp
qed simp

lemma lin_negate_within:
  assumes "lin_within m n reg e" "m \<le> 2 ^ 120" "n \<le> 2 ^ 120" "lin_wf e"
  shows "\<exists>e'. lin_negate e = Some e' \<and> lin_within m n reg e' \<and> lin_wf e' \<and> (\<forall>\<rho>. lin_eval \<rho> e' = - lin_eval \<rho> e)"
proof -
  have e: "\<bar>constant_term e\<bar> \<le> m" "\<forall>(y, c)\<in>set (variable_terms e). \<bar>c\<bar> \<le> n \<and> is_min_only reg y \<noteq> None"
    using assms(1) by (simp_all add: lin_within_def)
  let ?e = "\<lparr>constant_term = - constant_term e, variable_terms = map (\<lambda>(y, c). (y, - c)) (variable_terms e)\<rparr>"
  have "num_mul (constant_term e) (- 1) = Some (- constant_term e)"
    using num_mul_small [of "constant_term e" "- 1"] e(1) assms(2) by simp
  then have run: "lin_negate e = Some ?e"
    using scale_minus [OF e(2) assms(3)] by (simp add: lin_negate_def lin_multiply_def)
  moreover have "lin_within m n reg ?e" using assms(1) by (auto simp: lin_within_def)
  ultimately show ?thesis using lin_multiply_eval [of e "- 1" ?e] assms(4) by (auto simp: lin_negate_def)
qed

text \<open>A constraint whose numbers the 128-bit arithmetic of the zone carries.\<close>

definition constraint_ok :: "variable_registry \<Rightarrow> linear_constraint \<Rightarrow> bool" where
  "constraint_ok reg c \<longleftrightarrow> lin_wf (lc_expression c) \<and> lin_within (2 ^ 68) 32 reg (lc_expression c)"

definition constraint_solutions :: "zone_domain \<Rightarrow> linear_constraint \<Rightarrow> (variable \<Rightarrow> int) set" where
  "constraint_solutions z c = {\<rho>. zone_holds \<rho> z \<and> lc_holds \<rho> c}"

lemma add_leq_within:
  assumes "zone_ok z" "zone_within (2 ^ 66) z" "zone_room 7 z" "lin_within (2 ^ 69) 32 reg e"
  shows "zone_refines z (leq_solutions z e) (add_linear_leq e reg z)"
  by (rule add_linear_leq_spec [OF assms(1,2) _ _ _ assms(4) _ assms(3)]) simp_all

lemma zone_refines_trivial:
  "zone_ok z \<Longrightarrow> (\<And>\<rho>. \<rho> \<in> R \<Longrightarrow> zone_holds \<rho> z) \<Longrightarrow> zone_refines z R (Some (True, z))"
  "R = {} \<Longrightarrow> zone_refines z R (Some (False, z))"
  by (auto simp: zone_refines_def)

lemma lin_within_mono: "lin_within m n reg e \<Longrightarrow> m \<le> k \<Longrightarrow> lin_within k n reg e"
  by (auto simp: lin_within_def)

lemma plus_constant_within:
  assumes "lin_within m n reg e" "m + 1 \<le> 2 ^ 120"
  shows "\<exists>e'. lin_plus_constant e 1 = Some e' \<and> lin_within (m + 1) n reg e' \<and> (\<forall>\<rho>. lin_eval \<rho> e' = lin_eval \<rho> e + 1)"
proof -
  have c: "\<bar>constant_term e\<bar> \<le> m" using assms(1) by (simp add: lin_within_def)
  then have "num_add (constant_term e) 1 = Some (constant_term e + 1)" using num_add_small [OF c, of 1] assms(2) by simp
  then show ?thesis using assms(1) by (auto simp: lin_plus_constant_def lin_within_def lin_eval_def)
qed

lemma zone_add_constraint_spec:
  assumes z: "zone_ok z" "zone_within (2 ^ 66) z" "zone_room 7 z" and c: "constraint_ok reg c" and "lc_kind c \<noteq> NotZero"
    and second: "\<And>z'. lc_kind c = EqualsZero \<Longrightarrow> add_linear_leq (lc_expression c) reg z = Some (True, z') \<Longrightarrow>
      zone_within (2 ^ 66) z' \<and> zone_room 7 z'"
  shows "zone_refines z (constraint_solutions z c) (zone_add_constraint c reg z)"
proof -
  let ?e = "lc_expression c"
  have e: "lin_wf ?e" "lin_within (2 ^ 68) 32 reg ?e" using c by (simp_all add: constraint_ok_def)
  have e69: "lin_within (2 ^ 69) 32 reg ?e" by (rule lin_within_mono [OF e(2)]) simp
  have leq: "zone_refines z (leq_solutions z ?e) (add_linear_leq ?e reg z)" by (rule add_leq_within [OF z e69])
  have mean: "lc_is_tautology c \<Longrightarrow> lc_holds \<rho> c" "lc_is_contradiction c \<Longrightarrow> \<not> lc_holds \<rho> c" for \<rho>
    using linear_constraint_meaning [OF e(1) e(1) e(1), of undefined \<rho>] by blast+
  consider "lc_is_tautology c" | "\<not> lc_is_tautology c" "lc_is_contradiction c" | "\<not> lc_is_tautology c" "\<not> lc_is_contradiction c" by blast
  then show ?thesis
  proof cases
    case 1
    then show ?thesis
      using zone_refines_trivial(1) [OF z(1), of "constraint_solutions z c"] by (simp add: zone_add_constraint_def constraint_solutions_def)
  next
    case 2
    then show ?thesis using zone_refines_trivial(2) mean by (auto simp: zone_add_constraint_def constraint_solutions_def)
  next
    case 3
    show ?thesis
    proof (cases "lc_kind c")
      case LessThanOrEqualsZero
      then have "constraint_solutions z c = leq_solutions z ?e" by (auto simp: constraint_solutions_def leq_solutions_def lc_holds_def)
      then show ?thesis using leq 3 LessThanOrEqualsZero by (simp add: zone_add_constraint_def)
    next
      case LessThanZero
      obtain e' where e': "lin_plus_constant ?e 1 = Some e'" "lin_within (2 ^ 68 + 1) 32 reg e'" "\<forall>\<rho>. lin_eval \<rho> e' = lin_eval \<rho> ?e + 1"
        using plus_constant_within [OF e(2)] by auto
      have "zone_refines z (leq_solutions z e') (add_linear_leq e' reg z)"
        by (rule add_leq_within [OF z lin_within_mono [OF e'(2)]]) simp
      moreover have "constraint_solutions z c = leq_solutions z e'"
        using LessThanZero e'(3) by (auto simp: constraint_solutions_def leq_solutions_def lc_holds_def)
      ultimately show ?thesis using e'(1) 3 LessThanZero by (simp add: zone_add_constraint_def)
    next
      case EqualsZero
      obtain e' where e': "lin_negate ?e = Some e'" "lin_within (2 ^ 69) 32 reg e'" "\<forall>\<rho>. lin_eval \<rho> e' = - lin_eval \<rho> ?e"
        using lin_negate_within [OF e69 _ _ e(1)] by auto
      obtain r z' where r: "add_linear_leq ?e reg z = Some (r, z')" "r \<Longrightarrow> zone_ok z'" "\<And>\<rho>. r \<Longrightarrow> zone_holds \<rho> z' \<Longrightarrow> zone_holds \<rho> z"
        "\<And>\<rho>. \<rho> \<in> leq_solutions z ?e \<Longrightarrow> r \<and> zone_holds \<rho> z'" using leq unfolding zone_refines_def by blast
      have first: "r \<and> zone_holds \<rho> z'" if "\<rho> \<in> constraint_solutions z c" for \<rho>
        using r(4) [of \<rho>] that EqualsZero by (auto simp: constraint_solutions_def leq_solutions_def lc_holds_def)
      show ?thesis
      proof (cases r)
        case True
        have "zone_refines z' (leq_solutions z' e') (add_linear_leq e' reg z')"
          using second [OF EqualsZero] r(1) True by (intro add_leq_within [OF r(2) _ _ e'(2)]) auto
        then obtain q y where q: "add_linear_leq e' reg z' = Some (q, y)" "q \<Longrightarrow> zone_ok y" "\<And>\<rho>. q \<Longrightarrow> zone_holds \<rho> y \<Longrightarrow> zone_holds \<rho> z'"
          "\<And>\<rho>. \<rho> \<in> leq_solutions z' e' \<Longrightarrow> q \<and> zone_holds \<rho> y" unfolding zone_refines_def by blast
        have "q \<and> zone_holds \<rho> y" if "\<rho> \<in> constraint_solutions z c" for \<rho>
          using q(4) [of \<rho>] first [OF that] that e'(3) EqualsZero by (auto simp: constraint_solutions_def leq_solutions_def lc_holds_def)
        then show ?thesis
          using r(1,3) q(1-3) True e'(1) 3 EqualsZero unfolding zone_refines_def by (auto simp: zone_add_constraint_def)
      next
        case False
        then show ?thesis using r(1) first 3 EqualsZero unfolding zone_refines_def by (auto simp: zone_add_constraint_def)
      qed
    qed (use assms(5) in simp)
  qed
qed

lemma lc_negate_ok:
  assumes "constraint_ok reg c"
  shows "\<exists>d. lc_negate c = Some d \<and> constraint_ok reg d \<and> (\<forall>\<rho>. lc_holds \<rho> d \<longleftrightarrow> \<not> lc_holds \<rho> c) \<and>
    (lc_kind c \<in> {LessThanZero, LessThanOrEqualsZero} \<longrightarrow> lc_kind d \<in> {LessThanZero, LessThanOrEqualsZero})"
proof -
  have e: "lin_wf (lc_expression c)" "lin_within (2 ^ 68) 32 reg (lc_expression c)" using assms by (simp_all add: constraint_ok_def)
  obtain e' where e': "lin_negate (lc_expression c) = Some e'" "lin_within (2 ^ 68) 32 reg e'" "lin_wf e'"
    using lin_negate_within [OF e(2) _ _ e(1)] by auto
  have "\<exists>d. lc_negate c = Some d \<and> constraint_ok reg d \<and>
      (lc_kind c \<in> {LessThanZero, LessThanOrEqualsZero} \<longrightarrow> lc_kind d \<in> {LessThanZero, LessThanOrEqualsZero})"
    using e e' by (cases "lc_kind c") (simp_all add: lc_negate_def constraint_ok_def lc_new_def)
  then show ?thesis using linear_constraint_meaning [OF e(1) e(1) e(1)] by blast
qed

lemma entail_aux_spec:
  assumes z: "zone_ok z" "zone_within (2 ^ 66) z" "zone_room 7 z" and c: "constraint_ok reg c"
    and kind: "lc_kind c \<in> {LessThanZero, LessThanOrEqualsZero}"
  shows "\<exists>b. entail_aux c reg z = Some b \<and> (b \<longrightarrow> (\<forall>\<rho>. zone_holds \<rho> z \<longrightarrow> lc_holds \<rho> c))"
proof -
  obtain d where d: "lc_negate c = Some d" "constraint_ok reg d" "\<forall>\<rho>. lc_holds \<rho> d \<longleftrightarrow> \<not> lc_holds \<rho> c"
    "lc_kind d \<in> {LessThanZero, LessThanOrEqualsZero}" using lc_negate_ok [OF c] kind by blast
  have "zone_refines z (constraint_solutions z d) (zone_add_constraint d reg z)"
    using d(4) by (intro zone_add_constraint_spec [OF z d(2)]) auto
  then obtain r z' where r: "zone_add_constraint d reg z = Some (r, z')" "\<forall>\<rho>\<in>constraint_solutions z d. r"
    unfolding zone_refines_def by blast
  then have "lc_holds \<rho> c" if "\<not> r" "zone_holds \<rho> z" for \<rho> using that d(3) unfolding constraint_solutions_def by blast
  then show ?thesis using d(1) r(1) by (simp add: entail_aux_def)
qed

lemma entailed_by_interval_sound:
  assumes "entailed_by_interval k i" "x \<in> itv_gamma i"
  shows "zero_holds k x"
proof -
  have x: "itv_lb i \<le> Finite x" "Finite x \<le> itv_ub i" using gammaD [OF assms(2)] by blast+
  show ?thesis
  proof (cases k)
    case EqualsZero
    then show ?thesis using assms gamma_singleton [of i 0] by (auto simp: entailed_by_interval_def)
  next
    case LessThanOrEqualsZero
    then show ?thesis using assms(1) order_trans [OF x(2), of "Finite 0"] by (simp add: entailed_by_interval_def)
  next
    case LessThanZero
    then show ?thesis using assms(1) le_less_trans [OF x(2), of "Finite 0"] by (simp add: entailed_by_interval_def)
  next
    case NotZero
    then show ?thesis
      using assms(1) le_less_trans [OF x(2), of "Finite 0"] less_le_trans [OF _ x(1), of "Finite 0"]
      by (auto simp: entailed_by_interval_def)
  qed
qed

lemma zone_entail_spec:
  assumes z: "zone_ok z" "zone_within (2 ^ 66) z" "zone_room 7 z" and c: "constraint_ok reg c" and kind: "lc_kind c \<noteq> NotZero"
  shows "\<exists>b. zone_entail c reg z = Some b \<and> (b \<longrightarrow> (\<forall>\<rho>. zone_holds \<rho> z \<longrightarrow> lc_holds \<rho> c))"
proof -
  let ?e = "lc_expression c"
  have e: "lin_wf ?e" "lin_within (2 ^ 68) 32 reg ?e" using c by (simp_all add: constraint_ok_def)
  have mean: "lc_is_tautology c \<Longrightarrow> lc_holds \<rho> c" for \<rho>
    using linear_constraint_meaning [OF e(1) e(1) e(1), of undefined \<rho>] by blast
  obtain i where i: "zone_eval_interval z reg ?e = Some i" "\<forall>\<rho>. zone_holds \<rho> z \<longrightarrow> lin_eval \<rho> ?e \<in> itv_gamma i"
    using zone_eval_interval_spec [OF z(1,2) _ _ _ e(2)] by auto
  have int: "lc_holds \<rho> c" if "entailed_by_interval (lc_kind c) i" "zone_holds \<rho> z" for \<rho>
    using entailed_by_interval_sound [OF that(1)] i(2) that(2) by (simp add: lc_holds_def)
  obtain e' where e': "lin_negate ?e = Some e'" "lin_within (2 ^ 68) 32 reg e'" "lin_wf e'" "\<forall>\<rho>. lin_eval \<rho> e' = - lin_eval \<rho> ?e"
    using lin_negate_within [OF e(2) _ _ e(1)] by auto
  show ?thesis
  proof (cases "lc_is_tautology c \<or> lc_is_contradiction c \<or> entailed_by_interval (lc_kind c) i")
    case True
    then show ?thesis using mean int i(1) by (auto simp: zone_entail_def)
  next
    case rest: False
    show ?thesis
    proof (cases "lc_kind c = EqualsZero")
      case True
      have ok: "constraint_ok reg (lc_new ?e LessThanOrEqualsZero)" "constraint_ok reg (lc_new e' LessThanOrEqualsZero)"
        using e e' by (simp_all add: constraint_ok_def lc_new_def)
      obtain b1 where b1: "entail_aux (lc_new ?e LessThanOrEqualsZero) reg z = Some b1"
        "b1 \<longrightarrow> (\<forall>\<rho>. zone_holds \<rho> z \<longrightarrow> lin_eval \<rho> ?e \<le> 0)"
        using entail_aux_spec [OF z ok(1)] by (auto simp: lc_new_def lc_holds_def)
      obtain b2 where b2: "entail_aux (lc_new e' LessThanOrEqualsZero) reg z = Some b2"
        "b2 \<longrightarrow> (\<forall>\<rho>. zone_holds \<rho> z \<longrightarrow> - lin_eval \<rho> ?e \<le> 0)"
        using entail_aux_spec [OF z ok(2)] e'(4) by (auto simp: lc_new_def lc_holds_def)
      have "lin_eval \<rho> ?e = 0" if "b1" "b2" "zone_holds \<rho> z" for \<rho>
        using b1(2) b2(2) that order_antisym [of "lin_eval \<rho> ?e" 0] by simp
      then show ?thesis using True rest i(1) e'(1) b1(1) b2(1) by (cases b1) (auto simp: zone_entail_def lc_holds_def)
    next
      case False
      then have "lc_kind c \<in> {LessThanZero, LessThanOrEqualsZero}" using kind by (cases "lc_kind c") auto
      from entail_aux_spec [OF z c this] show ?thesis using rest False i(1) by (auto simp: zone_entail_def)
    qed
  qed
qed

subsection \<open>The start\<close>

lemma zone_new_spec:
  "\<exists>z. zone_new = Some z \<and> zone_ok z \<and> zone_within 0 z \<and> zone_room 65534 z \<and> (\<forall>\<rho>. zone_holds \<rho> z)"
proof -
  obtain d where d: "dbm_new = Some d" "dbm_ok d" "dbm_within 0 d" "\<And>\<sigma>. dbm_holds \<sigma> d" "graph_size (dbm_g d) = 1" "dbm_potential d = [0]"
    using dbm_new_spec by blast
  let ?z = "\<lparr>z_core = d, z_vert_map = [], z_rev_map = [None]\<rparr>"
  have "dbm_unstable d = {}" using d(1) by (auto simp: dbm_new_def bind_Some_conv)
  then have "zone_ok ?z" using d by (simp add: zone_ok_def)
  moreover have "zone_holds \<rho> ?z" for \<rho> using d(4) unfolding zone_holds_def by (intro exI [of _ "\<lambda>_. 0"]) (simp add: zone_model_def)
  moreover have "zone_new = Some ?z" unfolding zone_new_def d(1) by simp
  ultimately show ?thesis using d(3,5) by (intro exI [of _ ?z]) (simp add: zone_within_def zone_room_def)
qed

lemma registered: "\<exists>v w. v \<noteq> w \<and> is_min_only registry_new v = Some False \<and> is_min_only registry_new w = Some False"
proof -
  obtain v w where vw: "reg_ref registry_new Svalues (int 0) = Some v" "metadata_of registry_new v = Some (meta_for_kind Svalues False)"
    "reg_ref registry_new Uvalues (int 0) = Some w" "metadata_of registry_new w = Some (meta_for_kind Uvalues False)"
    using reg_ref_new [of 0 Svalues] reg_ref_new [of 0 Uvalues] by auto
  then have "v \<noteq> w" by (auto simp: meta_for_kind_def)
  then show ?thesis
    using vw by (intro exI [of _ v] exI [of _ w]) (simp add: is_min_only_def meta_for_kind_def is_size_kind_def)
qed

text \<open>C4: Adding a linear constraint to a zone loses no valuation.  For a zone that keeps its invariant,
  whose numbers have at most 66 bits and that has room for seven vertices, and a constraint other than
  \<open>\<noteq>\<close> with at most three terms over registered variables, coefficients up to 32 and a constant of at most
  68 bits, \<open>add_constraint\<close> returns without a panic.  It answers \<open>false\<close> only if no valuation of the zone
  satisfies the constraint; otherwise the invariant holds again, no valuation is added, and every
  valuation of the zone that satisfies the constraint is still there.  An equality is added as two
  inequalities, and the second one has to find the numbers in range again.\<close>

theorem zone_add_constraint_sound:
  assumes "zone_ok z" "zone_within (2 ^ 66) z" "zone_room 7 z" "constraint_ok reg c" "lc_kind c \<noteq> NotZero"
    "\<And>z'. lc_kind c = EqualsZero \<Longrightarrow> add_linear_leq (lc_expression c) reg z = Some (True, z') \<Longrightarrow>
      zone_within (2 ^ 66) z' \<and> zone_room 7 z'"
  shows "\<exists>r z'. zone_add_constraint c reg z = Some (r, z') \<and>
    (r \<longrightarrow> zone_ok z' \<and> (\<forall>\<rho>. zone_holds \<rho> z' \<longrightarrow> zone_holds \<rho> z)) \<and>
    (\<forall>\<rho>. zone_holds \<rho> z \<and> lc_holds \<rho> c \<longrightarrow> r \<and> zone_holds \<rho> z')"
  using zone_add_constraint_spec [OF assms] unfolding zone_refines_def constraint_solutions_def by simp

text \<open>The constraint \<open>v - w + 5 \<le> 0\<close> on the zone without constraints.\<close>

theorem zone_add_constraint_sound_witness:
  "\<exists>z v w z'. zone_new = Some z \<and>
     zone_add_constraint (lc_new \<lparr>constant_term = 5, variable_terms = bt_insert v 1 [(w, - 1)]\<rparr> LessThanOrEqualsZero) registry_new z =
       Some (True, z') \<and> zone_holds (\<lambda>x. if x = w then 9 else 3) z'"
proof -
  obtain z where z: "zone_new = Some z" "zone_ok z" "zone_within 0 z" "zone_room 65534 z" "\<And>\<rho>. zone_holds \<rho> z"
    using zone_new_spec by blast
  have zw: "zone_within (2 ^ 66) z" "zone_room 7 z" using zone_within_mono [OF z(3)] z(4) by (simp_all add: zone_room_def)
  obtain v w where vw: "v \<noteq> w" "is_min_only registry_new v = Some False" "is_min_only registry_new w = Some False"
    using registered by blast
  let ?e = "\<lparr>constant_term = 5, variable_terms = bt_insert v 1 [(w, - 1)]\<rparr>"
  let ?c = "lc_new ?e LessThanOrEqualsZero"
  have "constraint_ok registry_new ?c" using vw by (simp add: constraint_ok_def lin_wf_def lin_within_def lc_new_def) blast
  from zone_add_constraint_sound [OF z(2) zw this] obtain r z' where r: "zone_add_constraint ?c registry_new z = Some (r, z')"
    "\<forall>\<rho>. zone_holds \<rho> z \<and> lc_holds \<rho> ?c \<longrightarrow> r \<and> zone_holds \<rho> z'" by (auto simp: lc_new_def)
  moreover have "lc_holds (\<lambda>x. if x = w then 9 else 3) ?c" using vw(1) by (simp add: lc_holds_def lc_new_def lin_eval_def)
  ultimately have "r" "zone_holds (\<lambda>x. if x = w then 9 else 3) z'" using z(5) by blast+
  then show ?thesis using z(1) r(1) by (intro exI [of _ z] exI [of _ v] exI [of _ w] exI [of _ z']) simp
qed

text \<open>C5: Entailment is sound and always answers.  For a zone and a constraint \<open>= 0\<close>, \<open>\<le> 0\<close> or \<open>< 0\<close> within
  the same bounds, \<open>entail\<close> returns without a panic, and when it answers \<open>true\<close>, every valuation of the
  zone satisfies the constraint.  The answer comes from the interval of the expression, which holds its
  value at every valuation of the zone, or from the failure to add the negated constraint.\<close>

theorem zone_entail_sound:
  assumes "zone_ok z" "zone_within (2 ^ 66) z" "zone_room 7 z" "constraint_ok reg c" "lc_kind c \<noteq> NotZero"
  shows "(\<exists>b. zone_entail c reg z = Some b \<and> (b \<longrightarrow> (\<forall>\<rho>. zone_holds \<rho> z \<longrightarrow> lc_holds \<rho> c))) \<and>
    (\<exists>i. zone_eval_interval z reg (lc_expression c) = Some i \<and> (\<forall>\<rho>. zone_holds \<rho> z \<longrightarrow> lin_eval \<rho> (lc_expression c) \<in> itv_gamma i))"
proof
  show "\<exists>b. zone_entail c reg z = Some b \<and> (b \<longrightarrow> (\<forall>\<rho>. zone_holds \<rho> z \<longrightarrow> lc_holds \<rho> c))"
    by (rule zone_entail_spec [OF assms])
  have e: "lin_within (2 ^ 68) 32 reg (lc_expression c)" using assms(4) by (simp add: constraint_ok_def)
  show "\<exists>i. zone_eval_interval z reg (lc_expression c) = Some i \<and> (\<forall>\<rho>. zone_holds \<rho> z \<longrightarrow> lin_eval \<rho> (lc_expression c) \<in> itv_gamma i)"
    using zone_eval_interval_spec [OF assms(1,2) _ _ _ e] by auto
qed

theorem zone_entail_sound_witness:
  "\<exists>z v b. zone_new = Some z \<and> zone_entail (lc_new \<lparr>constant_term = - 5, variable_terms = [(v, 1)]\<rparr> LessThanZero) registry_new z = Some b \<and> \<not> b"
proof -
  obtain z where z: "zone_new = Some z" "zone_ok z" "zone_within 0 z" "zone_room 65534 z" "\<And>\<rho>. zone_holds \<rho> z"
    using zone_new_spec by blast
  have zw: "zone_within (2 ^ 66) z" "zone_room 7 z" using zone_within_mono [OF z(3)] z(4) by (simp_all add: zone_room_def)
  obtain v where v: "is_min_only registry_new v = Some False" using registered by blast
  let ?c = "lc_new \<lparr>constant_term = - 5, variable_terms = [(v, 1)]\<rparr> LessThanZero"
  have "constraint_ok registry_new ?c" using v by (simp add: constraint_ok_def lin_wf_def lin_within_def lc_new_def) blast
  from zone_entail_sound [OF z(2) zw this] obtain b where b: "zone_entail ?c registry_new z = Some b"
    "b \<longrightarrow> (\<forall>\<rho>. zone_holds \<rho> z \<longrightarrow> lc_holds \<rho> ?c)" by (auto simp: lc_new_def)
  have "\<not> lc_holds (\<lambda>_. 7) ?c" by (simp add: lc_holds_def lc_new_def lin_eval_def)
  then show ?thesis using b z(1,5) by blast
qed


subsection \<open>Disequations on an interval\<close>

lemma trim_interval_sound:
  assumes "\<bar>n\<bar> \<le> 2 ^ 120" "itv_is_top i \<longrightarrow> n \<noteq> 0"
  shows "\<exists>j. trim_interval i n = Some j \<and> itv_gamma i - {n} \<subseteq> itv_gamma j"
proof -
  have "num_add n 1 = Some (n + 1)" "num_sub n 1 = Some (n - 1)"
    using num_add_small [OF assms(1), of 1] num_sub_small [OF assms(1), of 1] by simp_all
  then show ?thesis
    using assms(2) by (cases "itv_lb i"; cases "itv_ub i")
      (auto simp: trim_interval_def itv_gamma_def itv_new_def num_is_zero_def split: if_splits)
qed

text \<open>The exception of the premise is one of the code: \<open>x \<noteq> 0\<close> on an unconstrained variable drops the negative values.\<close>

lemma trim_interval_top_drops:
  "\<exists>j. trim_interval itv_top 0 = Some j \<and> - 1 \<in> itv_gamma itv_top - {0} \<and> - 1 \<notin> itv_gamma j"
  by (simp add: trim_interval_def itv_top_def itv_gamma_def itv_new_def itv_is_top_def num_is_zero_def)

end
