(* ===== verification/Zone_Lattice.thy ===== *)
theory Zone_Lattice
  imports Zone_Queries
begin

text \<open>
  The lattice operations of \<open>src/crab/zone_domain.rs\<close>: the join and the widening of two zones, through
  the alignment of their variables, hold every valuation of both.
\<close>

subsection \<open>Zones without constraints\<close>

lemma top_weights: "graph_ok g \<Longrightarrow> graph_is_empty g \<Longrightarrow> weight g s d = None"
proof -
  assume g: "graph_ok g" "graph_is_empty g"
  then have "edge_set (weight g) = {}"
    using edge_set_finite [OF g(1)] graph_okD(13) [OF g(1)] by (simp add: graph_is_empty_def edge_set_weight)
  then show ?thesis by (simp add: edge_set_def)
qed

lemma zone_top_holds:
  assumes "zone_ok z" "zone_is_top z"
  shows "zone_holds \<rho> z"
proof -
  define \<sigma> where "\<sigma> v = (if v = 0 then 0 else case z_rev_map z ! v of Some x \<Rightarrow> \<rho> x | None \<Rightarrow> 0)" for v
  have "weight (dbm_g (z_core z)) s d = None" for s d
    using top_weights [OF dbm_okD(1) [OF zone_okD(1) [OF assms(1)]]] assms(2) by (simp add: zone_is_top_def dbm_is_top_def)
  then have "zone_model \<sigma> \<rho> z"
    using zone_okD(6) [OF assms(1)] by (auto simp: zone_model_def dbm_holds_def solves_def \<sigma>_def)
  then show ?thesis unfolding zone_holds_def by blast
qed

text \<open>The variables a zone has vertices for.\<close>

definition zone_vars :: "zone_domain \<Rightarrow> variable set" where
  "zone_vars z = dom (map_of (z_vert_map z))"

subsection \<open>The alignment of the variables of both\<close>

definition shared :: "zone_domain \<Rightarrow> zone_domain \<Rightarrow> (variable \<times> nat) list" where
  "shared l r = filter (\<lambda>(v, _). map_of (z_vert_map r) v \<noteq> None) (z_vert_map l)"

definition shared_pair :: "zone_domain \<Rightarrow> zone_domain \<Rightarrow> aligned_pair" where
  "shared_pair l r = \<lparr>al_left = z_core l, al_right = z_core r, left_perm = 0 # map snd (shared l r),
     right_perm = 0 # map (\<lambda>(v, _). the (map_of (z_vert_map r) v)) (shared l r), initial_potentials = []\<rparr>"

lemma make_intersection_alignment_shared:
  "make_intersection_alignment l r = (shared_pair l r, None # map (\<lambda>(v, _). Some v) (shared l r))"
  by (simp add: make_intersection_alignment_def shared_pair_def shared_def Let_def split_def)

lemma shared_entry:
  assumes "zone_ok l" "(v, u) \<in> set (shared l r)"
  shows "map_of (z_vert_map l) v = Some u" "\<exists>w. map_of (z_vert_map r) v = Some w"
  using assms(2) map_of_eq_Some_iff [OF bt_ok_distinct [OF zone_okD(2) [OF assms(1)]]] by (auto simp: shared_def)

lemma shared_distinct: "zone_ok l \<Longrightarrow> distinct (map fst (shared l r))"
  using bt_ok_distinct [OF zone_okD(2)] by (simp add: shared_def distinct_map_filter)

lemma aligned_perm:
  assumes "zone_ok z" "distinct (map fst xs)" "\<forall>(v, u)\<in>set xs. map_of (z_vert_map z) v = Some u"
    "zone_within (2 ^ 76) z"
  shows "alignment (z_core z) (0 # map snd xs)"
proof -
  note Z = zone_okD [OF assms(1)]
  have e: "snd p \<noteq> 0 \<and> live (dbm_g (z_core z)) (snd p) \<and> z_rev_map z ! snd p = Some (fst p)" if "p \<in> set xs" for p
    using Z(6) [of "fst p" "snd p"] assms(3) that by (cases p) auto
  have "inj_on snd (set xs)"
  proof (rule inj_onI)
    fix p q assume "p \<in> set xs" "q \<in> set xs" "snd p = snd q"
    then show "p = q" using e [of p] e [of q] by (auto simp: prod_eq_iff)
  qed
  then have "distinct (map snd xs)" using assms(2) by (simp add: distinct_map)
  moreover have "0 \<notin> set (map snd xs)" using e by force
  ultimately show ?thesis
    using e assms(4) Z(1) dbm_okD(2) [OF Z(1)] by (auto simp: alignment_def zone_within_def)
qed

lemma shared_pair_ok:
  assumes "zone_ok l" "zone_within (2 ^ 76) l" "zone_ok r" "zone_within (2 ^ 76) r"
  shows "pair_ok (shared_pair l r)"
proof -
  have "alignment (z_core l) (0 # map snd (shared l r))"
    using shared_entry [OF assms(1)] by (intro aligned_perm [OF assms(1) shared_distinct [OF assms(1)] _ assms(2)]) auto
  moreover let ?xs = "map (\<lambda>(v, u). (v, the (map_of (z_vert_map r) v))) (shared l r)"
  have "map fst ?xs = map fst (shared l r)" by (simp add: comp_def split_def)
  then have "distinct (map fst ?xs)" using shared_distinct [OF assms(1)] by (simp only:)
  moreover have "\<forall>(v, u)\<in>set ?xs. map_of (z_vert_map r) v = Some u" using shared_entry(2) [OF assms(1)] by fastforce
  ultimately have "alignment (z_core l) (0 # map snd (shared l r))" "alignment (z_core r) (0 # map snd ?xs)"
    using aligned_perm [OF assms(3) _ _ assms(4)] by blast+
  then show ?thesis by (simp add: pair_ok_def shared_pair_def comp_def split_def)
qed

subsection \<open>The maps of the result\<close>

text \<open>Maps that agree with each other, the way the invariant asks for it.\<close>

definition maps_agree :: "(variable, nat) btree \<Rightarrow> variable option list \<Rightarrow> bool" where
  "maps_agree vmap revmap \<longleftrightarrow> bt_ok vmap \<and>
     (\<forall>x v. map_of vmap x = Some v \<longrightarrow> 0 < v \<and> v < length revmap \<and> revmap ! v = Some x)"

lemma result_map_spec:
  assumes "bt_ok m" "i + length xs \<le> 2 ^ 16"
  shows "bt_ok (result_map i xs m) \<and> (\<forall>x v. map_of (result_map i xs m) x = Some v \<longrightarrow>
    map_of m x = Some v \<or> (i \<le> v \<and> v < i + length xs \<and> xs ! (v - i) = Some x))"
  using assms
proof (induction i xs m rule: result_map.induct)
  case (2 i x xs m)
  let ?m = "case x of Some v \<Rightarrow> bt_insert v (i mod 2 ^ 16) m | None \<Rightarrow> m"
  have i: "i mod 2 ^ 16 = i" using "2.prems"(2) by simp
  have ok: "bt_ok ?m" using "2.prems"(1) by (cases x) auto
  have IH: "bt_ok (result_map (i + 1) xs ?m)" "\<And>y v. map_of (result_map (i + 1) xs ?m) y = Some v \<Longrightarrow>
      map_of ?m y = Some v \<or> i + 1 \<le> v \<and> v < i + 1 + length xs \<and> xs ! (v - (i + 1)) = Some y"
    using "2.IH" [OF ok] "2.prems"(2) by simp_all
  have "map_of m y = Some v \<or> i \<le> v \<and> v < i + length (x # xs) \<and> (x # xs) ! (v - i) = Some y"
    if "map_of (result_map i (x # xs) m) y = Some v" for y v
  proof -
    from that have "map_of ?m y = Some v \<or> i + 1 \<le> v \<and> v < i + 1 + length xs \<and> xs ! (v - (i + 1)) = Some y"
      using IH(2) by simp
    then show ?thesis
    proof
      assume "map_of ?m y = Some v"
      then show ?thesis using "2.prems"(1) i by (cases x) (auto split: if_splits)
    next
      assume a: "i + 1 \<le> v \<and> v < i + 1 + length xs \<and> xs ! (v - (i + 1)) = Some y"
      then obtain k where "v = Suc (i + k)" using less_eqE [of "i + 1" v] by auto
      then show ?thesis using a by simp
    qed
  qed
  then show ?case using IH(1) by simp
qed simp

lemma result_mappings_spec:
  assumes "length xs < 65536"
  shows "\<exists>vmap. result_mappings (None # xs) = (vmap, None # xs) \<and> maps_agree vmap (None # xs)"
  using result_map_spec [of "[]" 1 xs] assms by (fastforce simp: result_mappings_def maps_agree_def nth_Cons')

lemma drop_disconnected_spec:
  assumes "maps_agree vmap revmap" "\<forall>v\<in>set vs. v < length revmap"
  shows "\<exists>vmap' revmap'. drop_disconnected vs (vmap, revmap) = Some (vmap', revmap') \<and> maps_agree vmap' revmap' \<and>
    length revmap' = length revmap \<and> (\<forall>x v. map_of vmap' x = Some v \<longrightarrow> map_of vmap x = Some v)"
  using assms
proof (induction vs arbitrary: vmap revmap)
  case (Cons v vs)
  let ?r = "revmap[v := None]"
  define m where "m = (case revmap ! v of Some var \<Rightarrow> bt_remove var vmap | None \<Rightarrow> vmap)"
  have v: "v < length revmap" using Cons.prems(2) by simp
  have agree: "0 < u \<and> u < length revmap \<and> revmap ! u = Some x" if "map_of vmap x = Some u" for x u
    using Cons.prems(1) that unfolding maps_agree_def by blast
  have sub: "map_of vmap x = Some u \<and> u \<noteq> v" if "map_of m x = Some u" for x u
  proof (cases "revmap ! v")
    case None
    then show ?thesis using that agree [of x u] by (auto simp: m_def)
  next
    case (Some y)
    then show ?thesis using that agree [of x u] by (auto simp: m_def split: if_splits)
  qed
  have "bt_ok m" using Cons.prems(1) by (auto simp: maps_agree_def m_def split: option.split)
  moreover have "0 < u \<and> u < length ?r \<and> ?r ! u = Some x" if "map_of m x = Some u" for x u
    using agree [of x u] sub [OF that] by simp
  ultimately have "maps_agree m ?r" unfolding maps_agree_def by blast
  from Cons.IH [OF this] Cons.prems(2) obtain vmap' revmap' where "drop_disconnected vs (m, ?r) = Some (vmap', revmap')"
    "maps_agree vmap' revmap'" "length revmap' = length revmap" "\<And>x u. map_of vmap' x = Some u \<Longrightarrow> map_of m x = Some u" by auto
  then show ?case using v sub by (simp add: vec_get_def vec_set_def m_def [symmetric])
qed simp

lemma disconnected_spec:
  assumes "graph_ok (dbm_g d)" "\<forall>v\<in>set vs. live (dbm_g d) v"
  shows "\<exists>us. disconnected d vs = Some us \<and> set us \<subseteq> set vs"
  using assms(2)
proof (induction vs)
  case (Cons v vs)
  have v: "v < graph_size (dbm_g d)" using live_graph_size Cons.prems by simp
  obtain es ps where "e_succs (dbm_g d) v = Some es" "e_preds (dbm_g d) v = Some ps"
    using e_succs_spec [OF assms(1) v] e_preds_spec [OF assms(1) v] by blast
  then have "\<exists>b. vertex_has_edges d v = Some b"
    using succs_len_spec by (auto simp: vertex_has_edges_def preds_len_def e_preds_def bind_Some_conv)
  then show ?case using Cons by auto
qed simp

lemma get_disconnected_spec:
  assumes "dbm_ok d"
  shows "\<exists>us. get_disconnected_vertices d = Some us \<and> (\<forall>v\<in>set us. live (dbm_g d) v)"
proof -
  obtain vs where vs: "graph_verts (dbm_g d) = Some vs" "set vs = {v. live (dbm_g d) v}"
    using presentsD(3) [OF presents_adapt [OF dbm_okD(1) [OF assms]]] by (auto simp: adapt_view_def)
  then show ?thesis using disconnected_spec [OF dbm_okD(1) [OF assms], of vs] by (auto simp: get_disconnected_vertices_def)
qed

subsection \<open>Join and widening\<close>

lemma length_shared:
  assumes "zone_ok l" "zone_within (2 ^ 76) l"
  shows "length (shared l r) < 65536"
proof -
  have a: "alignment (z_core l) (0 # map snd (shared l r))"
    using shared_entry [OF assms(1)] by (intro aligned_perm [OF assms(1) shared_distinct [OF assms(1)] _ assms(2)]) auto
  have "set (0 # map snd (shared l r)) \<subseteq> {..<65535}"
    using alignmentD(1,4) [OF a] live_small [OF dbm_okD(1)] a by (auto simp: alignment_def)
  then have "card (set (0 # map snd (shared l r))) \<le> 65535" using card_mono [of "{..<65535 :: nat}"] by simp
  moreover have "card (set (0 # map snd (shared l r))) = Suc (length (shared l r))"
    using distinct_card [OF alignmentD(3) [OF a]] by simp
  ultimately show ?thesis by linarith
qed

text \<open>The zone over an aligned result, for maps that name some of its vertices.\<close>

lemma aligned_zone:
  assumes z: "zone_ok l" "zone_ok r" and j: "over_approximates (shared_pair l r) F (Some j)"
    and agree: "maps_agree vmap revmap" "length revmap = Suc (length (shared l r))"
    and vars: "\<And>x v. map_of vmap x = Some v \<Longrightarrow> (None # map (\<lambda>(y, _). Some y) (shared l r)) ! v = Some x"
  shows "\<exists>z'. zone_from_parts vmap revmap j = Some z' \<and> zone_ok z' \<and>
    (\<forall>\<rho>. zone_holds \<rho> l \<or> zone_holds \<rho> r \<longrightarrow> zone_holds \<rho> z') \<and>
    zone_vars z' \<subseteq> zone_vars l \<inter> zone_vars r"
proof -
  let ?a = "shared_pair l r" and ?z = "\<lparr>z_core = j, z_vert_map = vmap, z_rev_map = revmap\<rparr>"
  have len: "length (left_perm ?a) = Suc (length (shared l r))" by (simp add: shared_pair_def)
  have J: "dbm_ok j" "\<forall>v. live (dbm_g j) v \<longleftrightarrow> v < length (left_perm ?a)" "graph_size (dbm_g j) = length (left_perm ?a)"
    "length (dbm_potential j) = length (left_perm ?a)" "dbm_unstable j = {}"
    "\<And>\<sigma>. dbm_holds \<sigma> (z_core l) \<Longrightarrow> dbm_holds (\<lambda>v. \<sigma> (left_perm ?a ! v)) j"
    "\<And>\<sigma>. dbm_holds \<sigma> (z_core r) \<Longrightarrow> dbm_holds (\<lambda>v. \<sigma> (right_perm ?a ! v)) j"
    using j unfolding over_approximates_def by (auto simp: shared_pair_def)
  have entry: "\<exists>k p. v = Suc k \<and> k < length (shared l r) \<and> shared l r ! k = p \<and> fst p = x"
    if "map_of vmap x = Some v" for x v
  proof -
    have "0 < v \<and> v < Suc (length (shared l r))" using agree that unfolding maps_agree_def by fastforce
    then obtain k where k: "v = Suc k" "k < length (shared l r)" by (cases v) auto
    then show ?thesis using vars [OF that] by (simp add: split_def)
  qed
  have run: "zone_from_parts vmap revmap j = Some ?z" using J(5) by (simp add: zone_from_parts_def normalize_def)
  have "zone_ok ?z"
    using J(1-5) len agree unfolding zone_ok_def maps_agree_def by (simp add: Ball_def)
  moreover have "zone_holds \<rho> ?z" if h: "zone_holds \<rho> l" for \<rho>
  proof -
    obtain \<sigma> where s: "zone_model \<sigma> \<rho> l" using h unfolding zone_holds_def by blast
    have "\<sigma> (left_perm ?a ! v) = \<rho> x" if xv: "map_of vmap x = Some v" for x v
    proof -
      obtain k p where k: "v = Suc k" "k < length (shared l r)" "shared l r ! k = p" "fst p = x" using entry [OF xv] by blast
      then have "(x, snd p) \<in> set (shared l r)" using nth_mem [OF k(2)] by (cases p) auto
      then show ?thesis using shared_entry(1) [OF z(1)] s k by (auto simp: shared_pair_def zone_model_def)
    qed
    then have "zone_model (\<lambda>v. \<sigma> (left_perm ?a ! v)) \<rho> ?z"
      using s J(6) by (auto simp: zone_model_def shared_pair_def)
    then show ?thesis unfolding zone_holds_def by blast
  qed
  moreover have "zone_holds \<rho> ?z" if h: "zone_holds \<rho> r" for \<rho>
  proof -
    obtain \<sigma> where s: "zone_model \<sigma> \<rho> r" using h unfolding zone_holds_def by blast
    have "\<sigma> (right_perm ?a ! v) = \<rho> x" if xv: "map_of vmap x = Some v" for x v
    proof -
      obtain k p where k: "v = Suc k" "k < length (shared l r)" "shared l r ! k = p" "fst p = x" using entry [OF xv] by blast
      then have "(x, snd p) \<in> set (shared l r)" using nth_mem [OF k(2)] by (cases p) auto
      then obtain w where "map_of (z_vert_map r) x = Some w" using shared_entry(2) [OF z(1)] by blast
      then show ?thesis using s k by (auto simp: shared_pair_def zone_model_def split_def)
    qed
    then have "zone_model (\<lambda>v. \<sigma> (right_perm ?a ! v)) \<rho> ?z"
      using s J(7) by (auto simp: zone_model_def shared_pair_def)
    then show ?thesis unfolding zone_holds_def by blast
  qed
  moreover have "zone_vars ?z \<subseteq> zone_vars l \<inter> zone_vars r"
  proof
    fix x assume "x \<in> zone_vars ?z"
    then obtain v where xv: "map_of vmap x = Some v" by (auto simp: zone_vars_def)
    obtain k p where k: "v = Suc k" "k < length (shared l r)" "shared l r ! k = p" "fst p = x" using entry [OF xv] by blast
    then have "(x, snd p) \<in> set (shared l r)" using nth_mem [OF k(2)] by (cases p) auto
    from shared_entry [OF z(1) this] show "x \<in> zone_vars l \<inter> zone_vars r" by (auto simp: zone_vars_def)
  qed
  ultimately show ?thesis using run by blast
qed

text \<open>The contract of an upper bound of two zones.\<close>

definition zone_covers :: "zone_domain \<Rightarrow> zone_domain \<Rightarrow> zone_domain option \<Rightarrow> bool" where
  "zone_covers l r res \<longleftrightarrow> (\<exists>z. res = Some z \<and> zone_ok z \<and> (\<forall>\<rho>. zone_holds \<rho> l \<or> zone_holds \<rho> r \<longrightarrow> zone_holds \<rho> z))"

definition only_shared :: "zone_domain \<Rightarrow> zone_domain \<Rightarrow> zone_domain option \<Rightarrow> bool" where
  "only_shared l r res \<longleftrightarrow> (\<forall>z. res = Some z \<longrightarrow> zone_vars z \<subseteq> zone_vars l \<inter> zone_vars r)"

lemma zone_widen_spec:
  assumes z: "zone_ok l" "zone_within (2 ^ 76) l" "zone_ok r" "zone_within (2 ^ 76) r"
  shows "zone_covers l r (zone_widen l r) \<and> only_shared l r (zone_widen l r)"
proof -
  obtain j where j: "dbm_widen (shared_pair l r) = Some j" "over_approximates (shared_pair l r) widen_weight (Some j)"
    using dbm_widen_spec [OF shared_pair_ok [OF z]] unfolding over_approximates_def by auto
  obtain vmap where m: "result_mappings (None # map (\<lambda>(v, _). Some v) (shared l r)) = (vmap, None # map (\<lambda>(v, _). Some v) (shared l r))"
    "maps_agree vmap (None # map (\<lambda>(v, _). Some v) (shared l r))"
    using result_mappings_spec [of "map (\<lambda>(v, _). Some v) (shared l r)"] length_shared [OF z(1,2)] by auto
  have "(None # map (\<lambda>(v, _). Some v) (shared l r)) ! v = Some x" if "map_of vmap x = Some v" for x v
    using m(2) that unfolding maps_agree_def by blast
  from aligned_zone [OF z(1,3) j(2) m(2) _ this] show ?thesis
    using j(1) m(1) by (auto simp: zone_covers_def only_shared_def zone_widen_def make_intersection_alignment_shared)
qed

lemma zone_join_spec:
  assumes z: "zone_ok l" "zone_within (2 ^ 76) l" "zone_ok r" "zone_within (2 ^ 76) r"
  shows "zone_covers l r (zone_join l r) \<and>
    (\<not> zone_is_top l \<and> \<not> zone_is_top r \<longrightarrow> only_shared l r (zone_join l r))"
proof -
  consider "zone_is_top r" | "\<not> zone_is_top r" "zone_is_top l" | "\<not> zone_is_top r" "\<not> zone_is_top l" by blast
  then show ?thesis
  proof cases
    case 3
    let ?vars = "None # map (\<lambda>(v, _). Some v) (shared l r)"
    obtain j where j: "dbm_join (shared_pair l r) = Some j" "over_approximates (shared_pair l r) join_weight (Some j)"
      using dbm_join_spec [OF shared_pair_ok [OF z]] unfolding over_approximates_def by auto
    obtain vmap where m: "result_mappings ?vars = (vmap, ?vars)" "maps_agree vmap ?vars"
      using result_mappings_spec [of "map (\<lambda>(v, _). Some v) (shared l r)"] length_shared [OF z(1,2)] by auto
    have J: "dbm_ok j" "\<And>v. live (dbm_g j) v \<longleftrightarrow> v < Suc (length (shared l r))"
      using j(2) by (auto simp: over_approximates_def shared_pair_def)
    obtain us where us: "get_disconnected_vertices j = Some us" "\<forall>v\<in>set us. v < length ?vars"
      using get_disconnected_spec [OF J(1)] J(2) by auto
    obtain vmap' revmap' where d: "drop_disconnected us (vmap, ?vars) = Some (vmap', revmap')" "maps_agree vmap' revmap'"
      "length revmap' = length ?vars" "\<And>x v. map_of vmap' x = Some v \<Longrightarrow> map_of vmap x = Some v"
      using drop_disconnected_spec [OF m(2) us(2)] by blast
    have "?vars ! v = Some x" if "map_of vmap' x = Some v" for x v
      using m(2) d(4) [OF that] unfolding maps_agree_def by blast
    from aligned_zone [OF z(1,3) j(2) d(2) _ this] d(3) show ?thesis
      using 3 j(1) m(1) us(1) d(1) by (auto simp: zone_covers_def only_shared_def zone_join_def make_intersection_alignment_shared)
  qed (use z zone_top_holds in \<open>auto simp: zone_covers_def zone_join_def\<close>)
qed

text \<open>C6: The join and the widening of two zones hold every valuation of both.  For two zones that keep
  their invariant and whose numbers have at most 76 bits, \<open>join\<close> and \<open>widen\<close> return without a panic a zone
  that keeps the invariant, and a valuation of the variables that one of the two zones allows is allowed
  by the result.  The widening, and the join of two zones neither of which is top, have vertices only for
  variables that both zones have vertices for; the join with a zone that is top returns that zone.\<close>

theorem zone_join_widen_sound:
  assumes "zone_ok l" "zone_within (2 ^ 76) l" "zone_ok r" "zone_within (2 ^ 76) r"
  shows "zone_covers l r (zone_join l r) \<and> zone_covers l r (zone_widen l r) \<and>
    only_shared l r (zone_widen l r) \<and>
    (\<not> zone_is_top l \<and> \<not> zone_is_top r \<longrightarrow> only_shared l r (zone_join l r)) \<and>
    (zone_is_top r \<longrightarrow> zone_join l r = Some r) \<and>
    (zone_is_top l \<and> \<not> zone_is_top r \<longrightarrow> zone_join l r = Some l)"
  using zone_join_spec [OF assms] zone_widen_spec [OF assms] by (simp add: zone_join_def)

end
