(* ===== verification/Zone_Assign.thy ===== *)
theory Zone_Assign
  imports Zone_Lattice
begin

text \<open>
  Forgetting, setting and assigning a variable of a zone: \<open>havoc\<close>, \<open>set\<close> and \<open>assign\<close> of
  \<open>src/crab/zone_domain.rs\<close>.
\<close>

subsection \<open>Havoc\<close>

lemma without_le: "without W v s d = Some w \<Longrightarrow> W s d = Some w"
  by (auto simp: without_def split: if_splits)

lemma zone_havoc_spec:
  assumes ok: "zone_ok z"
  shows "\<exists>z'. zone_havoc v z = Some z' \<and> zone_ok z' \<and> map_of (z_vert_map z') = (map_of (z_vert_map z))(v := None) \<and>
    (\<forall>k. zone_room k z \<longrightarrow> zone_room k z') \<and> (\<forall>b. zone_within b z \<longrightarrow> zone_within b z') \<and>
    (\<forall>u. live (dbm_g (z_core z)) u \<longrightarrow> map_of (z_vert_map z) v \<noteq> Some u \<longrightarrow>
       live (dbm_g (z_core z')) u \<and> z_rev_map z' ! u = z_rev_map z ! u) \<and>
    (\<forall>\<sigma> \<rho> a. zone_model \<sigma> \<rho> z \<longrightarrow> zone_model \<sigma> (\<rho>(v := a)) z')"
proof (cases "map_of (z_vert_map z) v")
  case None
  have "zone_model \<sigma> (\<rho>(v := a)) z" if "zone_model \<sigma> \<rho> z" for \<sigma> \<rho> a
    using that None by (auto simp: zone_model_def)
  moreover have "map_of (z_vert_map z) = (map_of (z_vert_map z))(v := None)" using None by (simp add: fun_upd_idem)
  ultimately show ?thesis using None ok by (intro exI [of _ z]) (auto simp: zone_havoc_def get_vertid_def)
next
  case (Some y)
  note Z = zone_okD [OF ok]
  have y: "y \<noteq> 0" "live (dbm_g (z_core z)) y" using Z(6) [OF Some] by auto
  obtain d where d: "dbm_forget y (z_core z) = Some d" "dbm_ok d" "dbm_potential d = dbm_potential (z_core z)"
    "\<forall>u. live (dbm_g d) u \<longleftrightarrow> live (dbm_g (z_core z)) u \<and> u \<noteq> y" "weight (dbm_g d) = without (weight (dbm_g (z_core z))) y"
    "graph_size (dbm_g d) = graph_size (dbm_g (z_core z))" "dbm_unstable d = dbm_unstable (z_core z)"
    using dbm_forget_spec [OF Z(1) y(2,1)] by blast
  have len: "y < length (z_rev_map z)" using live_graph_size [OF y(2)] Z(5) by simp
  let ?z = "z\<lparr>z_core := d, z_rev_map := (z_rev_map z)[y := None], z_vert_map := bt_remove v (z_vert_map z)\<rparr>"
  have run: "zone_havoc v z = Some ?z"
    using Some d(1,7) Z(3) len by (simp add: zone_havoc_def get_vertid_def vec_set_def zone_normalize_def normalize_def)
  have keep: "u \<noteq> y" if "map_of (bt_remove v (z_vert_map z)) x = Some u" for x u
    using that Some vert_map_inj [OF ok, of x u v] by (auto split: if_splits)
  have "x \<noteq> v \<and> map_of (z_vert_map z) x = Some u" if "map_of (bt_remove v (z_vert_map z)) x = Some u" for x u
    using that by (auto split: if_splits)
  then have entry: "u \<noteq> 0 \<and> live (dbm_g d) u \<and> (z_rev_map z)[y := None] ! u = Some x"
    if "map_of (bt_remove v (z_vert_map z)) x = Some u" for x u
    using keep [OF that] Z(6) [of x u] d(4) that by auto
  have "zone_ok ?z" using d(2,3,6,7) Z(2-5) entry by (simp add: zone_ok_def)
  moreover have "zone_within b ?z" if "zone_within b z" for b
    using that d(3-5) unfolding zone_within_def dbm_within_def weights_within_def by (auto dest: without_le)
  moreover have "zone_model \<sigma> (\<rho>(v := a)) ?z" if "zone_model \<sigma> \<rho> z" for \<sigma> \<rho> a
    using that d(5) solves_without [of \<sigma> "weight (dbm_g (z_core z))" y] by (auto simp: zone_model_def dbm_holds_def)
  ultimately show ?thesis
    using run d(4,6) Some by (intro exI [of _ ?z]) (auto simp: zone_room_def)
qed

subsection \<open>Setting an interval\<close>

lemma zone_set_bound:
  assumes z: "zone_ok z" "zone_within b z" "b \<le> 2 ^ 120" "\<bar>n\<bar> \<le> b" and v: "map_of (z_vert_map z) x = Some v"
    and free: "bound_only (z_core z) v n" and c: "bound_constraint v sd n = (src, dest, k)"
    and none: "weight (dbm_g (z_core z)) src dest = None"
  shows "\<exists>d. set_bound (z_core z) v sd n = Some d \<and> zone_ok (z\<lparr>z_core := d\<rparr>) \<and> zone_within (2 * b) (z\<lparr>z_core := d\<rparr>) \<and>
    weight (dbm_g d) = with_edge (weight (dbm_g (z_core z))) src k dest \<and>
    (\<forall>\<rho>. zone_holds \<rho> (z\<lparr>z_core := d\<rparr>) \<longleftrightarrow> zone_holds \<rho> z \<and> (case sd of side.Left \<Rightarrow> n \<le> \<rho> x | side.Right \<Rightarrow> \<rho> x \<le> n))"
proof -
  have e: "v \<noteq> 0" "live (dbm_g (z_core z)) v" using zone_okD(6) [OF z(1) v] by auto
  obtain d where d: "set_bound (z_core z) v sd n = Some d" "dbm_ok d" "same_shape (z_core z) d" "dbm_within (2 * b) d"
    "weight (dbm_g d) = with_edge (weight (dbm_g (z_core z))) src k dest"
    "\<And>\<sigma>. dbm_holds \<sigma> d \<longleftrightarrow> dbm_holds \<sigma> (z_core z) \<and> \<sigma> dest - \<sigma> src \<le> k"
    using set_bound_spec [OF zone_okD(1) [OF z(1)] _ z(3,4) e(2,1) free c none] z(2) unfolding zone_within_def by blast
  have "zone_model \<sigma> \<rho> (z\<lparr>z_core := d\<rparr>) \<longleftrightarrow> zone_model \<sigma> \<rho> z \<and> (case sd of side.Left \<Rightarrow> n \<le> \<rho> x | side.Right \<Rightarrow> \<rho> x \<le> n)" for \<sigma> \<rho>
    using d(6) c v by (cases sd) (auto simp: zone_model_def bound_constraint_def)
  then show ?thesis using d(1-5) zone_core_ok [OF z(1)] by (simp add: zone_holds_def zone_within_def)
qed

text \<open>The two bounds of an interval that is not empty, at a vertex without edges.\<close>

lemma zone_set_ends:
  assumes z: "zone_ok z" "zone_within b z" "b \<le> 2 ^ 110" and v: "map_of (z_vert_map z) x = Some v"
    and bare: "\<And>s. weight (dbm_g (z_core z)) s v = None" "\<And>t. weight (dbm_g (z_core z)) v t = None"
    and i: "itv_within b i" "a \<in> itv_gamma i" and m: "is_min_only reg x \<noteq> None"
  shows "\<exists>z'. (do { z \<leftarrow> (case itv_ub i of
               Finite u \<Rightarrow> do {
                 m \<leftarrow> is_min_only reg x;
                 if m then Some z else do { core \<leftarrow> set_bound (z_core z) v side.Right u; Some (z\<lparr>z_core := core\<rparr>) } }
             | _ \<Rightarrow> Some z);
            z \<leftarrow> (case itv_lb i of
               Finite l \<Rightarrow> do { core \<leftarrow> set_bound (z_core z) v side.Left l; Some (z\<lparr>z_core := core\<rparr>) }
             | _ \<Rightarrow> Some z);
            zone_normalize z }) = Some z' \<and> zone_ok z' \<and> zone_within (4 * b) z' \<and>
    (\<forall>\<rho>. zone_holds \<rho> z \<and> \<rho> x \<in> itv_gamma i \<longrightarrow> zone_holds \<rho> z')"
proof -
  obtain mo where mo: "is_min_only reg x = Some mo" using m by blast
  have ends: "itv_lb i \<le> Finite a" "Finite a \<le> itv_ub i" using gammaD [OF i(2)] by auto
  have b0: "0 \<le> b" using dbm_withinD(2) [of b "z_core z" 0] z(2) dbm_okD(2) [OF zone_okD(1) [OF z(1)]]
    abs_ge_zero order_trans unfolding zone_within_def by blast
  let ?up = "case itv_ub i of
               Finite u \<Rightarrow> do {
                 m \<leftarrow> is_min_only reg x;
                 if m then Some z else do { core \<leftarrow> set_bound (z_core z) v side.Right u; Some (z\<lparr>z_core := core\<rparr>) } }
             | _ \<Rightarrow> Some z"
  have "\<exists>z1. ?up = Some z1 \<and> zone_ok z1 \<and> zone_within (2 * b) z1 \<and> z_vert_map z1 = z_vert_map z \<and>
      (\<forall>s w. weight (dbm_g (z_core z1)) s v = Some w \<longrightarrow> s = 0 \<and> itv_ub i = Finite w) \<and> (\<forall>t. weight (dbm_g (z_core z1)) v t = None) \<and>
      (\<forall>\<rho>. zone_holds \<rho> z \<and> \<rho> x \<in> itv_gamma i \<longrightarrow> zone_holds \<rho> z1)"
  proof (cases "\<exists>u. itv_ub i = Finite u \<and> \<not> mo")
    case False
    then have "?up = Some z" using mo by (cases "itv_ub i") auto
    then show ?thesis using z bare b0 zone_within_mono [OF z(2), of "2 * b"] by auto
  next
    case True
    then obtain u where u: "itv_ub i = Finite u" "\<not> mo" by blast
    have n: "\<bar>u\<bar> \<le> b" using withinD(2) [OF i(1) u(1)] .
    have "v \<noteq> 0" using zone_okD(6) [OF z(1) v] by blast
    have "bound_only (z_core z) v u" using bare by (simp add: bound_only_def)
    moreover note bare(1) [of 0]
    moreover have "bound_constraint v side.Right u = (0, v, u)" by (simp add: bound_constraint_def)
    ultimately obtain d where d: "set_bound (z_core z) v side.Right u = Some d" "zone_ok (z\<lparr>z_core := d\<rparr>)"
      "zone_within (2 * b) (z\<lparr>z_core := d\<rparr>)" "weight (dbm_g d) = with_edge (weight (dbm_g (z_core z))) 0 u v"
      "\<And>\<rho>. zone_holds \<rho> (z\<lparr>z_core := d\<rparr>) \<longleftrightarrow> zone_holds \<rho> z \<and> \<rho> x \<le> u"
      using zone_set_bound [OF z(1,2) _ n v, of side.Right 0 v u] z(3) by auto
    have "?up = Some (z\<lparr>z_core := d\<rparr>)" using u mo d(1) by simp
    then show ?thesis
      using d(2-5) u bare \<open>v \<noteq> 0\<close> by (intro exI [of _ "z\<lparr>z_core := d\<rparr>"]) (auto simp: itv_gamma_def split: if_splits)
  qed
  then obtain z1 where z1: "?up = Some z1" "zone_ok z1" "zone_within (2 * b) z1" "z_vert_map z1 = z_vert_map z"
    "\<forall>s w. weight (dbm_g (z_core z1)) s v = Some w \<longrightarrow> s = 0 \<and> itv_ub i = Finite w" "\<forall>t. weight (dbm_g (z_core z1)) v t = None"
    "\<forall>\<rho>. zone_holds \<rho> z \<and> \<rho> x \<in> itv_gamma i \<longrightarrow> zone_holds \<rho> z1" by (elim exE conjE)
  have norm: "zone_normalize y = Some y" if "zone_ok y" for y
    using zone_okD(3) [OF that] by (simp add: zone_normalize_def normalize_def)
  show ?thesis
  proof (cases "\<exists>l. itv_lb i = Finite l")
    case False
    then have "(case itv_lb i of
               Finite l \<Rightarrow> do { core \<leftarrow> set_bound (z_core z1) v side.Left l; Some (z1\<lparr>z_core := core\<rparr>) } | _ \<Rightarrow> Some z1) = Some z1"
      by (cases "itv_lb i") auto
    then show ?thesis using z1 norm b0 zone_within_mono [OF z1(3), of "4 * b"] by (intro exI [of _ z1]) simp
  next
    case True
    then obtain l where l: "itv_lb i = Finite l" by blast
    have n: "\<bar>l\<bar> \<le> 2 * b" using withinD(1) [OF i(1) l] b0 by simp
    have "l \<le> w" if "itv_ub i = Finite w" for w using ends l that by simp
    then have "bound_only (z_core z1) v l" using z1(5,6) by (fastforce simp: bound_only_def)
    moreover have "weight (dbm_g (z_core z1)) v 0 = None" using z1(6) by blast
    moreover have "bound_constraint v side.Left l = (v, 0, - l)" by (simp add: bound_constraint_def)
    moreover have "map_of (z_vert_map z1) x = Some v" using v z1(4) by simp
    ultimately obtain d where d: "set_bound (z_core z1) v side.Left l = Some d" "zone_ok (z1\<lparr>z_core := d\<rparr>)"
      "zone_within (2 * (2 * b)) (z1\<lparr>z_core := d\<rparr>)" "\<And>\<rho>. zone_holds \<rho> (z1\<lparr>z_core := d\<rparr>) \<longleftrightarrow> zone_holds \<rho> z1 \<and> l \<le> \<rho> x"
      using zone_set_bound [OF z1(2,3) _ n, of x v side.Left v 0 "- l"] z(3) by auto
    then show ?thesis
      using z1(1,7) l norm by (intro exI [of _ "z1\<lparr>z_core := d\<rparr>"]) (auto simp: itv_gamma_def)
  qed
qed

lemma zone_set_spec:
  assumes z: "zone_ok z" "zone_within b z" "b \<le> 2 ^ 110" "zone_room (Suc k) z"
    and i: "itv_within b i" "a \<in> itv_gamma i" and m: "is_min_only reg x \<noteq> None"
  shows "\<exists>z'. zone_set x i reg z = Some z' \<and> zone_ok z' \<and> zone_within (4 * b) z' \<and>
    (\<forall>\<rho> n. zone_holds \<rho> z \<and> n \<in> itv_gamma i \<longrightarrow> zone_holds (\<rho>(x := n)) z')"
proof -
  have b0: "0 \<le> b" using dbm_withinD(2) [of b "z_core z" 0] z(2) dbm_okD(2) [OF zone_okD(1) [OF z(1)]]
    abs_ge_zero order_trans unfolding zone_within_def by blast
  obtain z1 where z1: "zone_havoc x z = Some z1" "zone_ok z1" "map_of (z_vert_map z1) = (map_of (z_vert_map z))(x := None)"
    "zone_room (Suc k) z1" "zone_within b z1" "\<And>\<sigma> \<rho> n. zone_model \<sigma> \<rho> z \<Longrightarrow> zone_model \<sigma> (\<rho>(x := n)) z1"
    using zone_havoc_spec [OF z(1), of x] z(2,4) by blast
  have h1: "zone_holds (\<rho>(x := n)) z1" if "zone_holds \<rho> z" for \<rho> n using that z1(6) unfolding zone_holds_def by blast
  have nb: "\<not> itv_is_bottom i" by (rule gamma_nonempty [OF i(2)])
  show ?thesis
  proof (cases "itv_is_top i")
    case True
    then show ?thesis using nb z1 h1 zone_within_mono [OF z1(5), of "4 * b"] b0 by (auto simp: zone_set_def)
  next
    case False
    obtain v z2 where v: "get_vert x z1 = Some (v, z2)" "zone_ok z2" "zone_within b z2" "map_of (z_vert_map z2) x = Some v"
      "\<And>\<rho>. zone_holds \<rho> z2 \<longleftrightarrow> zone_holds \<rho> z1" "\<not> live (dbm_g (z_core z1)) v" "weight (dbm_g (z_core z2)) = weight (dbm_g (z_core z1))"
      using get_vert_spec [OF z1(2,4,5) b0, of x] z1(3) by auto
    have bare: "weight (dbm_g (z_core z2)) s v = None" "weight (dbm_g (z_core z2)) v s = None" for s
    proof -
      have "\<not> (\<exists>w. weight (dbm_g (z_core z1)) s v = Some w)" "\<not> (\<exists>w. weight (dbm_g (z_core z1)) v s = Some w)"
        using edge_live [OF zone_okD(1) [OF z1(2)]] v(6) by blast+
      then show "weight (dbm_g (z_core z2)) s v = None" "weight (dbm_g (z_core z2)) v s = None" using v(7) by simp_all
    qed
    from zone_set_ends [OF v(2,3) z(3) v(4) bare i m] show ?thesis
      using nb False z1(1) v(1,5) h1 by (auto simp: zone_set_def)
  qed
qed

subsection \<open>The valuation of the potential\<close>

definition pot_valuation :: "zone_domain \<Rightarrow> variable \<Rightarrow> int" where
  "pot_valuation z x = (case map_of (z_vert_map z) x of Some v \<Rightarrow> potential_model z v | None \<Rightarrow> - (dbm_potential (z_core z) ! 0))"

lemma pot_valuation_holds: "zone_ok z \<Longrightarrow> zone_holds (pot_valuation z) z"
  using potential_model_holds [of z "pot_valuation z"] unfolding zone_holds_def by (auto simp: pot_valuation_def)

lemma pot_value_spec:
  assumes "zone_ok z" "zone_within b z"
  shows "potential_at_zero (z_core z) = Some (dbm_potential (z_core z) ! 0)" "\<bar>dbm_potential (z_core z) ! 0\<bar> \<le> b"
    "pot_value z y = Some (pot_valuation z y + dbm_potential (z_core z) ! 0)"
    "\<bar>pot_valuation z y + dbm_potential (z_core z) ! 0\<bar> \<le> b"
proof -
  note Z = zone_okD [OF assms(1)]
  let ?p = "dbm_potential (z_core z)"
  have w: "\<bar>?p ! v\<bar> \<le> b" if "live (dbm_g (z_core z)) v" for v
    using dbm_withinD(2) [of b "z_core z" v] assms(2) that by (simp add: zone_within_def)
  have get: "vec_get ?p v = Some (?p ! v)" if "live (dbm_g (z_core z)) v" for v
    using dbm_okD(3) [OF Z(1) that] by (simp add: vec_get_def)
  note z = dbm_okD(2) [OF Z(1)]
  show "potential_at_zero (z_core z) = Some (?p ! 0)" using get [OF z] by (simp add: potential_at_zero_def)
  show "\<bar>?p ! 0\<bar> \<le> b" using w [OF z] .
  show "pot_value z y = Some (pot_valuation z y + ?p ! 0)" "\<bar>pot_valuation z y + ?p ! 0\<bar> \<le> b"
    using Z(6) [of y] get w w [OF z]
    by (auto simp: pot_value_def get_vertid_def potential_at_def pot_valuation_def potential_model_def split: option.split)
qed

lemma eval_potentials_spec:
  assumes z: "zone_ok z" "zone_within b z" "0 \<le> b" "b \<le> 2 ^ 120" "0 \<le> n"
    and "\<forall>(y, c)\<in>set ts. \<bar>c\<bar> \<le> n" "\<bar>r\<bar> \<le> m" "m + int (length ts) * (n * (2 * b)) \<le> 2 ^ 120"
  shows "eval_potentials z ts r = Some (r + eval_terms (pot_valuation z) ts) \<and>
    \<bar>r + eval_terms (pot_valuation z) ts\<bar> \<le> m + int (length ts) * (n * (2 * b))"
  using assms(6-)
proof (induction ts arbitrary: r m)
  case (Cons p ts)
  obtain y c where p: "p = (y, c)" by (cases p)
  note P = pot_value_spec [OF z(1,2)]
  let ?x = "pot_valuation z y" and ?p0 = "dbm_potential (z_core z) ! 0"
  have nb: "0 \<le> n * (2 * b)" "0 \<le> int (length ts) * (n * (2 * b))" using z(3,5) by simp_all
  have m: "m + int (length (p # ts)) * (n * (2 * b)) = m + n * (2 * b) + int (length ts) * (n * (2 * b))" by (simp add: algebra_simps)
  have mpos: "0 \<le> m" using Cons.prems(2) by linarith
  have sub: "num_sub (?x + ?p0) ?p0 = Some ?x" using num_sub_small [OF P(4) [of y], of ?p0] P(2) z(4) by simp
  have x: "\<bar>?x\<bar> \<le> 2 * b" using P(2) P(4) [of y] by linarith
  have xc: "\<bar>?x * c\<bar> \<le> n * (2 * b)" using abs_mult_le [OF x, of c n] Cons.prems(1) p by simp
  have small: "m + n * (2 * b) \<le> 2 ^ 120" using Cons.prems(3) nb m by linarith
  have mul: "num_mul ?x c = Some (?x * c)" using xc small mpos by (intro num_mul_small) simp
  have add: "num_add r (?x * c) = Some (r + ?x * c)" using num_add_small [OF Cons.prems(2), of "?x * c"] xc small by simp
  have "\<bar>r + ?x * c\<bar> \<le> m + n * (2 * b)" using Cons.prems(2) xc by linarith
  from Cons.IH [OF _ this] Cons.prems(1,3) m p show ?case
    using P(1,3) sub mul add by (simp add: algebra_simps)
qed simp

subsection \<open>The differences of an assignment\<close>

definition direction :: "bool \<Rightarrow> int" where
  "direction up = (if up then 1 else - 1)"

text \<open>The bounds read by the loop, on the side where the term is small and where it is large.\<close>

lemma assign_bounds:
  assumes z: "zone_ok z" "zone_within b z" "b \<le> 2 ^ 120" and y: "is_min_only reg y \<noteq> None"
  shows "\<exists>q. (if up then get_lb z y else get_ub z reg y) = Some q \<and> (\<forall>B. ext_number q = Some B \<longrightarrow>
      \<bar>B\<bar> \<le> b \<and> (\<forall>\<rho>. zone_holds \<rho> z \<longrightarrow> 0 \<le> direction up * (\<rho> y - B)))"
    "\<exists>q. (if up then get_ub z reg y else get_lb z y) = Some q \<and> (\<forall>B. ext_number q = Some B \<longrightarrow>
      \<bar>B\<bar> \<le> b \<and> (\<forall>\<rho>. zone_holds \<rho> z \<longrightarrow> 0 \<le> direction up * (B - \<rho> y)))"
  using get_lb_spec [OF z, of y] get_ub_spec [OF z y]
  by (cases up; auto simp: lb_fits_def ub_fits_def ext_number_Some direction_def)+

definition unbounded_part :: "variable option \<Rightarrow> (variable \<Rightarrow> int) \<Rightarrow> int" where
  "unbounded_part u \<rho> = (case u of Some y \<Rightarrow> \<rho> y | None \<Rightarrow> 0)"

definition assign_inv ::
  "int \<Rightarrow> int \<Rightarrow> int \<Rightarrow> nat \<Rightarrow> zone_domain \<Rightarrow> ((variable \<Rightarrow> int) \<Rightarrow> int) \<Rightarrow> variable option \<times> (variable \<times> number) list \<times> number \<Rightarrow> bool" where
  "assign_inv s b m l z f st \<longleftrightarrow> (case st of (u, ts, r) \<Rightarrow> \<bar>r\<bar> \<le> m \<and> length ts \<le> l \<and> (\<forall>(v, n)\<in>set ts. \<bar>n\<bar> \<le> b) \<and>
     (\<forall>\<rho>. zone_holds \<rho> z \<longrightarrow> (\<forall>(v, n)\<in>set ts. 0 \<le> s * (n - \<rho> v)) \<and>
        f \<rho> + (\<Sum>(v, n)\<leftarrow>ts. s * (n - \<rho> v)) \<le> s * r + s * unbounded_part u \<rho>))"

lemma assign_terms_spec:
  assumes z: "zone_ok z" "zone_within b z" "0 \<le> b" "b \<le> 2 ^ 120" "0 \<le> n"
    and "\<forall>(y, c)\<in>set ts. \<bar>c\<bar> \<le> n \<and> c \<noteq> 0 \<and> is_min_only reg y \<noteq> None" "assign_inv (direction up) b m l z f st"
    "0 \<le> m" "m + int (length ts) * (n * b) \<le> 2 ^ 120"
  shows "\<exists>r. assign_terms up z reg ts st = Some r \<and> (\<forall>st'. r = Some st' \<longrightarrow>
    assign_inv (direction up) b (m + int (length ts) * (n * b)) (l + length ts) z (\<lambda>\<rho>. f \<rho> + direction up * eval_terms \<rho> ts) st')"
  using assms(6-)
proof (induction ts arbitrary: st m l f)
  case Nil
  then show ?case by (cases st) auto
next
  case (Cons p ts)
  obtain y c where p: "p = (y, c)" by (cases p)
  obtain u bs r where st: "st = (u, bs, r)" by (cases st) auto
  let ?s = "direction up"
  have y: "\<bar>c\<bar> \<le> n" "c \<noteq> 0" "is_min_only reg y \<noteq> None"
    and ts: "\<forall>(y, c)\<in>set ts. \<bar>c\<bar> \<le> n \<and> c \<noteq> 0 \<and> is_min_only reg y \<noteq> None" using Cons.prems(1) p by auto
  have inv: "\<bar>r\<bar> \<le> m" "length bs \<le> l" "\<forall>(v, n)\<in>set bs. \<bar>n\<bar> \<le> b"
    "\<And>\<rho>. zone_holds \<rho> z \<Longrightarrow> \<forall>(v, n)\<in>set bs. 0 \<le> ?s * (n - \<rho> v)"
    "\<And>\<rho>. zone_holds \<rho> z \<Longrightarrow> f \<rho> + (\<Sum>(v, n)\<leftarrow>bs. ?s * (n - \<rho> v)) \<le> ?s * r + ?s * unbounded_part u \<rho>"
    using Cons.prems(2) st by (simp_all add: assign_inv_def)
  have nb: "0 \<le> n * b" "0 \<le> int (length ts) * (n * b)" using z(3,5) by simp_all
  have m: "m + int (length (p # ts)) * (n * b) = m + n * b + int (length ts) * (n * b)" by (simp add: algebra_simps)
  then have m': "m + n * b + int (length ts) * (n * b) \<le> 2 ^ 120" using Cons.prems(4) by simp
  have small: "m + n * b \<le> 2 ^ 120" "0 \<le> m + n * b" using m' nb Cons.prems(3) by linarith+
  have step: "\<exists>q. assign_terms up z reg ts st' = Some q \<and> (\<forall>st''. q = Some st'' \<longrightarrow>
      assign_inv ?s b (m + int (length (p # ts)) * (n * b)) (l + length (p # ts)) z (\<lambda>\<rho>. f \<rho> + ?s * eval_terms \<rho> (p # ts)) st'')"
    if "assign_inv ?s b (m + n * b) (Suc l) z (\<lambda>\<rho>. f \<rho> + ?s * (c * \<rho> y)) st'" for st'
    using Cons.IH [OF ts that small(2) m'] p m by (simp add: algebra_simps)
  have num: "num_mul k c = Some (k * c)" "num_add r (k * c) = Some (r + k * c)" "\<bar>r + k * c\<bar> \<le> m + n * b" if "\<bar>k\<bar> \<le> b" for k
  proof -
    have kc: "\<bar>k * c\<bar> \<le> n * b" by (rule abs_mult_le [OF that y(1)])
    show "num_mul k c = Some (k * c)" using kc small Cons.prems(3) by (intro num_mul_small) simp
    show "num_add r (k * c) = Some (r + k * c)" using num_add_small [OF inv(1), of "k * c"] kc small by simp
    show "\<bar>r + k * c\<bar> \<le> m + n * b" using kc inv(1) by linarith
  qed
  obtain q1 where q1: "(if up then get_lb z y else get_ub z reg y) = Some q1"
    "\<forall>B. ext_number q1 = Some B \<longrightarrow> \<bar>B\<bar> \<le> b \<and> (\<forall>\<rho>. zone_holds \<rho> z \<longrightarrow> 0 \<le> ?s * (\<rho> y - B))"
    using assign_bounds(1) [OF z(1,2,4) y(3), of up] by blast
  obtain q2 where q2: "(if up then get_ub z reg y else get_lb z y) = Some q2"
    "\<forall>B. ext_number q2 = Some B \<longrightarrow> \<bar>B\<bar> \<le> b \<and> (\<forall>\<rho>. zone_holds \<rho> z \<longrightarrow> 0 \<le> ?s * (B - \<rho> y))"
    using assign_bounds(2) [OF z(1,2,4) y(3), of up] by blast
  show ?case
  proof (cases "c < 0")
    case True
    show ?thesis
    proof (cases "ext_number q1")
      case None
      then show ?thesis using True p st q1(1) by simp
    next
      case (Some B)
      have B: "\<bar>B\<bar> \<le> b" "\<And>\<rho>. zone_holds \<rho> z \<Longrightarrow> 0 \<le> ?s * (\<rho> y - B)" using q1(2) Some by auto
      have "?s * (c * \<rho> y) \<le> ?s * (B * c)" if "zone_holds \<rho> z" for \<rho>
        using mult_nonneg_nonneg [OF B(2) [OF that], of "- c"] True by (simp add: algebra_simps)
      then have "assign_inv ?s b (m + n * b) (Suc l) z (\<lambda>\<rho>. f \<rho> + ?s * (c * \<rho> y)) (u, bs, r + B * c)"
        using inv num(3) [OF B(1)] unfolding assign_inv_def by (fastforce simp: algebra_simps)
      from step [OF this] show ?thesis using True p st q1(1) Some num(1,2) [OF B(1)] by simp
    qed
  next
    case False
    then have c: "1 \<le> c" using y(2) by simp
    show ?thesis
    proof (cases "ext_number q2")
      case None
      show ?thesis
      proof (cases "u \<noteq> None \<or> c \<noteq> 1")
        case True
        then show ?thesis using False None p st q2(1) by simp
      next
        case keep: False
        then have "assign_inv ?s b (m + n * b) (Suc l) z (\<lambda>\<rho>. f \<rho> + ?s * (c * \<rho> y)) (Some y, bs, r)"
          using inv nb(1) unfolding assign_inv_def by (fastforce simp: unbounded_part_def)
        from step [OF this] show ?thesis using keep False None p st q2(1) by simp
      qed
    next
      case (Some B)
      have B: "\<bar>B\<bar> \<le> b" "\<And>\<rho>. zone_holds \<rho> z \<Longrightarrow> 0 \<le> ?s * (B - \<rho> y)" using q2(2) Some by auto
      have "?s * (c * \<rho> y) + ?s * (B - \<rho> y) \<le> ?s * (B * c)" if "zone_holds \<rho> z" for \<rho>
        using mult_nonneg_nonneg [OF B(2) [OF that], of "c - 1"] c by (simp add: algebra_simps)
      then have "assign_inv ?s b (m + n * b) (Suc l) z (\<lambda>\<rho>. f \<rho> + ?s * (c * \<rho> y)) (u, bs @ [(y, B)], r + B * c)"
        using inv num(3) [OF B(1)] B unfolding assign_inv_def by (fastforce simp: algebra_simps)
      from step [OF this] show ?thesis using False p st q2(1) Some num(1,2) [OF B(1)] by simp
    qed
  qed
qed

text \<open>The differences between the assigned value and other variables that the loop leaves.\<close>

definition diffs_follow :: "bool \<Rightarrow> int \<Rightarrow> zone_domain \<Rightarrow> linear_expression \<Rightarrow> (variable \<times> number) list \<Rightarrow> bool" where
  "diffs_follow up b z e ds \<longleftrightarrow> length ds \<le> 3 \<and> (\<forall>(x, n)\<in>set ds. \<bar>n\<bar> \<le> b \<and>
     (\<forall>\<rho>. zone_holds \<rho> z \<longrightarrow> direction up * (lin_eval \<rho> e - \<rho> x) \<le> direction up * n))"

lemma diffcsts_of_assign_spec:
  assumes z: "zone_ok z" "zone_within b z" "0 \<le> b" "b \<le> 2 ^ 110" "0 \<le> n" and e: "lin_within m n reg e" "lin_no_zero e"
    and small: "m + 3 * (n * b) \<le> 2 ^ 110"
  shows "\<exists>ds. diffcsts_of_assign z reg e up = Some ds \<and> diffs_follow up (m + 3 * (n * b) + b) z e ds"
proof -
  let ?s = "direction up" and ?ts = "variable_terms e" and ?m = "m + 3 * (n * b)"
  have e': "\<bar>constant_term e\<bar> \<le> m" "\<forall>(y, c)\<in>set ?ts. \<bar>c\<bar> \<le> n \<and> c \<noteq> 0 \<and> is_min_only reg y \<noteq> None" "length ?ts \<le> 3"
    using e by (auto simp: lin_within_def lin_no_zero_def)
  have nb: "0 \<le> n * b" using z(3,5) by simp
  have "int (length ?ts) * (n * b) \<le> 3 * (n * b)" using e'(3) nb by (intro mult_right_mono) auto
  then have len: "m + int (length ?ts) * (n * b) \<le> ?m" by simp
  have start: "assign_inv ?s b m 0 z (\<lambda>_. ?s * constant_term e) (None, [], constant_term e)"
    using e'(1) by (simp add: assign_inv_def unbounded_part_def)
  have b120: "b \<le> 2 ^ 120" "m + int (length ?ts) * (n * b) \<le> 2 ^ 120" "0 \<le> m"
    using order_trans [OF z(4)] order_trans [OF order_trans [OF len small]] e'(1) by simp_all
  obtain r where r: "assign_terms up z reg ?ts (None, [], constant_term e) = Some r"
    "\<And>st. r = Some st \<Longrightarrow> assign_inv ?s b (m + int (length ?ts) * (n * b)) (0 + length ?ts) z (\<lambda>\<rho>. ?s * constant_term e + ?s * eval_terms \<rho> ?ts) st"
    using assign_terms_spec [OF z(1-3) b120(1) z(5) e'(2) start b120(3,2)] by blast
  show ?thesis
  proof (cases r)
    case None
    then show ?thesis using r(1) by (simp add: diffcsts_of_assign_def diffs_follow_def)
  next
    case (Some st)
    obtain u ts q where st: "st = (u, ts, q)" by (cases st) auto
    have inv: "\<bar>q\<bar> \<le> ?m" "length ts \<le> 3" "\<forall>(v, k)\<in>set ts. \<bar>k\<bar> \<le> b"
      using r(2) [OF Some] st len e'(3) by (auto simp: assign_inv_def)
    have nn: "\<forall>p\<in>set ts. 0 \<le> (case p of (v, k) \<Rightarrow> ?s * (k - \<rho> v))" if "zone_holds \<rho> z" for \<rho>
      using r(2) [OF Some] st that by (fastforce simp: assign_inv_def)
    have up: "?s * lin_eval \<rho> e + (\<Sum>(v, k)\<leftarrow>ts. ?s * (k - \<rho> v)) \<le> ?s * q + ?s * unbounded_part u \<rho>" if "zone_holds \<rho> z" for \<rho>
      using r(2) [OF Some] st that by (simp add: assign_inv_def lin_eval_def distrib_left)
    show ?thesis
    proof (cases u)
      case (Some uv)
      have "?s * (lin_eval \<rho> e - \<rho> uv) \<le> ?s * q" if h: "zone_holds \<rho> z" for \<rho>
      proof -
        have "0 \<le> (\<Sum>(v, k)\<leftarrow>ts. ?s * (k - \<rho> v))" by (rule sum_list_nonneg) (use nn [OF h] in auto)
        moreover have part: "unbounded_part u \<rho> = \<rho> uv" using Some by (simp add: unbounded_part_def)
        ultimately show ?thesis using up [OF h] unfolding part right_diff_distrib by linarith
      qed
      then show ?thesis using r(1) \<open>r = Some st\<close> st Some inv(1) z(3) by (simp add: diffcsts_of_assign_def diffs_follow_def)
    next
      case None
      have k: "num_sub q k = Some (q - k)" "\<bar>q - k\<bar> \<le> ?m + b" if "(v, k) \<in> set ts" for v k
        using num_sub_small [OF inv(1), of k] inv(1,3) that small z(4) by fastforce+
      have "?s * (lin_eval \<rho> e - \<rho> v) \<le> ?s * (q - k)" if h: "zone_holds \<rho> z" and mem: "(v, k) \<in> set ts" for \<rho> v k
        using up [OF h] member_le_sum [of ts "\<lambda>(v, k). ?s * (k - \<rho> v)", OF _ mem] nn [OF h] None
        by (auto simp: unbounded_part_def algebra_simps)
      then have "diffs_follow up (?m + b) z e (map (\<lambda>(v, k). (v, q - k)) ts)"
        using inv(2) k(2) by (auto simp: diffs_follow_def)
      moreover have "those (map (\<lambda>(v, k). map_option (Pair v) (num_sub q k)) ts) = Some (map (\<lambda>(v, k). (v, q - k)) ts)"
        using k(1) by (intro those_all) auto
      ultimately show ?thesis using r(1) \<open>r = Some st\<close> st None by (simp add: diffcsts_of_assign_def)
    qed
  qed
qed

subsection \<open>The vertices of the differences\<close>

text \<open>A zone with more vertices and the same valuations and potential.\<close>

definition zone_extends :: "int \<Rightarrow> nat \<Rightarrow> zone_domain \<Rightarrow> zone_domain \<Rightarrow> bool" where
  "zone_extends b k z z' \<longleftrightarrow> zone_ok z' \<and> zone_room k z' \<and> zone_within b z' \<and> zone_grows z z' \<and>
     (\<forall>\<rho>. zone_holds \<rho> z' \<longleftrightarrow> zone_holds \<rho> z) \<and> (\<forall>y. pot_value z' y = pot_value z y) \<and>
     potential_at_zero (z_core z') = potential_at_zero (z_core z)"

lemma zone_extends_trans: "zone_extends b k x y \<Longrightarrow> zone_extends b l y z \<Longrightarrow> zone_extends b l x z"
  unfolding zone_extends_def zone_grows_def by simp

lemma diff_verts_spec:
  assumes "zone_ok z" "zone_room (length ds + k) z" "zone_within b z" "0 \<le> b" "\<forall>(x, n)\<in>set ds. f n = Some (g n)"
  shows "\<exists>vs z'. diff_verts f ds z = Some (vs, z') \<and> zone_extends b k z z' \<and>
    (\<forall>(v, w)\<in>set vs. \<exists>x n. (x, n) \<in> set ds \<and> w = g n \<and> map_of (z_vert_map z') x = Some v)"
  using assms
proof (induction ds arbitrary: z)
  case Nil
  then show ?case by (simp add: zone_extends_def zone_grows_refl)
next
  case (Cons p ds)
  obtain x n where p: "p = (x, n)" by (cases p)
  have room: "zone_room (Suc (length ds + k)) z" using Cons.prems(2) by simp
  obtain v z1 where v: "get_vert x z = Some (v, z1)" "map_of (z_vert_map z1) x = Some v" "zone_extends b (length ds + k) z z1"
    using get_vert_spec [OF Cons.prems(1) room Cons.prems(3,4), of x] unfolding zone_extends_def by blast
  then have z1: "zone_ok z1" "zone_room (length ds + k) z1" "zone_within b z1" by (simp_all add: zone_extends_def)
  obtain vs z2 where r: "diff_verts f ds z1 = Some (vs, z2)" "zone_extends b k z1 z2"
    "\<forall>(v, w)\<in>set vs. \<exists>x n. (x, n) \<in> set ds \<and> w = g n \<and> map_of (z_vert_map z2) x = Some v"
    using Cons.IH [OF z1 Cons.prems(4)] Cons.prems(5) by auto
  have "map_of (z_vert_map z2) x = Some v" using r(2) v(2) by (simp add: zone_extends_def zone_grows_def)
  moreover have "diff_verts f (p # ds) z = Some ((v, g n) # vs, z2)" using v(1) r(1) Cons.prems(5) p by simp
  ultimately show ?case using zone_extends_trans [OF v(3) r(2)] r(3) p by fastforce
qed

subsection \<open>Assignment\<close>

text \<open>The end of \<open>assign\<close>: the new vertex replaces that of the variable.\<close>

lemma replace_vertex:
  assumes z: "zone_ok z" and v: "\<not> live (dbm_g (z_core z)) v" "v \<noteq> 0" "v \<le> graph_size (dbm_g (z_core z))"
    and d: "dbm_ok d" "\<forall>u. live (dbm_g d) u \<longleftrightarrow> u = v \<or> live (dbm_g (z_core z)) u" "graph_size (dbm_g d) = length (dbm_potential d)"
    "graph_size (dbm_g d) = max (graph_size (dbm_g (z_core z))) (v + 1)" "dbm_unstable d = dbm_unstable (z_core z)"
  shows "\<exists>z'. (do { rev_map \<leftarrow> (if v = length (z_rev_map z) then Some (z_rev_map z @ [Some x]) else vec_set v (Some x) (z_rev_map z));
      z \<leftarrow> zone_havoc x (z\<lparr>z_core := d, z_rev_map := rev_map\<rparr>);
      zone_normalize (z\<lparr>z_vert_map := bt_insert x v (z_vert_map z)\<rparr>) }) = Some z' \<and> zone_ok z' \<and>
    (\<forall>\<sigma> \<rho> a. zone_model \<sigma> \<rho> z \<and> dbm_holds (\<sigma>(v := a)) d \<longrightarrow> zone_holds (\<rho>(x := a)) z')"
proof -
  note Z = zone_okD [OF z]
  define r where "r = (if v = length (z_rev_map z) then z_rev_map z @ [Some x] else (z_rev_map z)[v := Some x])"
  have run1: "(if v = length (z_rev_map z) then Some (z_rev_map z @ [Some x]) else vec_set v (Some x) (z_rev_map z)) = Some r"
    using v(3) Z(5) by (auto simp: r_def vec_set_def)
  let ?z = "z\<lparr>z_core := d, z_rev_map := r\<rparr>"
  have rev: "length r = graph_size (dbm_g d)" "r ! v = Some x" using v(3) Z(5) d(4) by (auto simp: r_def nth_append)
  have old: "u \<noteq> v \<and> r ! u = z_rev_map z ! u" if "live (dbm_g (z_core z)) u" for u
    using that v(1) live_graph_size [OF that] Z(5) by (cases "u = v") (auto simp: r_def nth_append)
  have unmapped: "u \<noteq> v" if "map_of (z_vert_map z) y = Some u" for y u using Z(6) [OF that] v(1) by auto
  have entry: "u \<noteq> 0 \<and> live (dbm_g d) u \<and> r ! u = Some y" if "map_of (z_vert_map z) y = Some u" for y u
    using Z(6) [OF that] old [of u] d(2) by simp
  have ok: "zone_ok ?z" using d(1,3,5) Z(2,3) rev(1) entry by (simp add: zone_ok_def)
  obtain z1 where z1: "zone_havoc x ?z = Some z1" "zone_ok z1" "map_of (z_vert_map z1) = (map_of (z_vert_map z))(x := None)"
    "\<forall>u. live (dbm_g d) u \<longrightarrow> map_of (z_vert_map z) x \<noteq> Some u \<longrightarrow> live (dbm_g (z_core z1)) u \<and> z_rev_map z1 ! u = r ! u"
    "\<And>\<sigma> \<rho> a. zone_model \<sigma> \<rho> ?z \<Longrightarrow> zone_model \<sigma> (\<rho>(x := a)) z1"
    using zone_havoc_spec [OF ok, of x] by auto
  note Y = zone_okD [OF z1(2)]
  let ?y = "z1\<lparr>z_vert_map := bt_insert x v (z_vert_map z1)\<rparr>"
  have new: "live (dbm_g (z_core z1)) v" "z_rev_map z1 ! v = Some x" using z1(4) d(2) unmapped [of x v] rev(2) by auto
  have ok': "zone_ok ?y"
    using Y(1-5) Y(6) new v(2) unfolding zone_ok_def by (auto split: if_splits)
  have holds: "zone_holds (\<rho>(x := a)) ?y" if "zone_model \<sigma> \<rho> z" "dbm_holds (\<sigma>(v := a)) d" for \<sigma> \<rho> a
  proof -
    have "zone_model (\<sigma>(v := a)) \<rho> ?z" using that v(2) unmapped by (auto simp: zone_model_def)
    then have "zone_model (\<sigma>(v := a)) (\<rho>(x := a)) z1" by (rule z1(5))
    then have "zone_model (\<sigma>(v := a)) (\<rho>(x := a)) ?y" using Y(2) by (auto simp: zone_model_def)
    then show ?thesis unfolding zone_holds_def by blast
  qed
  have "zone_normalize ?y = Some ?y" using Y(3) by (simp add: zone_normalize_def normalize_def)
  then show ?thesis unfolding run1 using z1(1) ok' holds by (intro exI [of _ ?y]) (simp del: fun_upd_apply, blast)
qed

text \<open>The interval of the value, as the two bounds that go into the graph.\<close>

definition bound_weights :: "interval \<Rightarrow> number option \<Rightarrow> number option \<Rightarrow> bool" where
  "bound_weights i lb ub \<longleftrightarrow> (\<forall>w. lb = Some w \<longrightarrow> itv_lb i = Finite (- w)) \<and> (\<forall>w. ub = Some w \<longrightarrow> itv_ub i = Finite w)"

lemma follows_fit:
  assumes "diffs_follow False b z e dl" "diffs_follow True b z e du" "zone_holds \<rho> z" "lin_eval \<rho> e \<in> itv_gamma i"
    and df: "\<forall>(t, w)\<in>set df. \<exists>x n. (x, n) \<in> set dl \<and> w = - n \<and> \<sigma> t = \<rho> x + c"
    and dt: "\<forall>(s, w)\<in>set dt. \<exists>x n. (x, n) \<in> set du \<and> w = n \<and> \<sigma> s = \<rho> x + c"
    and bounds: "bound_weights i lb ub" "\<sigma> 0 = c" and a: "a = lin_eval \<rho> e + c"
  shows "vertex_fits df dt lb ub \<sigma> a"
  unfolding vertex_fits_def
proof (intro conjI)
  have dl: "n \<le> lin_eval \<rho> e - \<rho> x" if "(x, n) \<in> set dl" for x n
    using assms(1,3) that unfolding diffs_follow_def direction_def by fastforce
  have du: "lin_eval \<rho> e - \<rho> x \<le> n" if "(x, n) \<in> set du" for x n
    using assms(2,3) that unfolding diffs_follow_def direction_def by fastforce
  show "\<forall>(t, w)\<in>set df. \<sigma> t - a \<le> w" using df dl a by fastforce
  show "\<forall>(s, w)\<in>set dt. a - \<sigma> s \<le> w" using dt du a by fastforce
  show "\<forall>w. lb = Some w \<longrightarrow> \<sigma> 0 - a \<le> w" "\<forall>w. ub = Some w \<longrightarrow> a - \<sigma> 0 \<le> w"
    using gammaD [OF assms(4)] bounds a by (auto simp: bound_weights_def)
qed

lemma itv_within_mono: "itv_within a i \<Longrightarrow> a \<le> b \<Longrightarrow> itv_within b i"
  unfolding itv_within_def by (fastforce split: extended_number.splits)

lemma zone_room_mono: "zone_room k z \<Longrightarrow> l \<le> k \<Longrightarrow> zone_room l z"
  by (simp add: zone_room_def)

text \<open>The vertices of both lists of differences, and their values at a solution.\<close>

lemma both_diff_verts:
  assumes z: "zone_ok z" "zone_within b z" "zone_room 7 z" "0 \<le> b" "b \<le> 2 ^ 100"
    and dl: "diffs_follow False b z e dl" and du: "diffs_follow True b z e du"
  shows "\<exists>df z1 dt z2. diff_verts num_neg dl z = Some (df, z1) \<and> diff_verts Some du z1 = Some (dt, z2) \<and> zone_extends b 1 z z2 \<and>
    (\<forall>(t, w)\<in>set df. \<exists>x n. (x, n) \<in> set dl \<and> w = - n \<and> map_of (z_vert_map z2) x = Some t) \<and>
    (\<forall>(s, w)\<in>set dt. \<exists>x n. (x, n) \<in> set du \<and> w = n \<and> map_of (z_vert_map z2) x = Some s)"
proof -
  have len: "length dl \<le> 3" "length du \<le> 3" using dl du by (simp_all add: diffs_follow_def)
  have neg: "\<forall>(x, n)\<in>set dl. num_neg n = Some (- n)"
  proof clarify
    fix x n assume "(x, n) \<in> set dl"
    then have "\<bar>n\<bar> \<le> b" using dl unfolding diffs_follow_def by blast
    then show "num_neg n = Some (- n)" using z(5) by (intro num_neg_small) simp
  qed
  have "zone_room (length dl + 4) z" using zone_room_mono [OF z(3)] len(1) by simp
  then obtain df z1 where df: "diff_verts num_neg dl z = Some (df, z1)" "zone_extends b 4 z z1"
    "\<forall>(t, w)\<in>set df. \<exists>x n. (x, n) \<in> set dl \<and> w = - n \<and> map_of (z_vert_map z1) x = Some t"
    using diff_verts_spec [OF z(1) _ z(2,4) neg] by blast
  have z1: "zone_ok z1" "zone_within b z1" "zone_room 4 z1" using df(2) by (simp_all add: zone_extends_def)
  have "zone_room (length du + 1) z1" using zone_room_mono [OF z1(3)] len(2) by simp
  then obtain dt z2 where dt: "diff_verts Some du z1 = Some (dt, z2)" "zone_extends b 1 z1 z2"
    "\<forall>(s, w)\<in>set dt. \<exists>x n. (x, n) \<in> set du \<and> w = n \<and> map_of (z_vert_map z2) x = Some s"
    using diff_verts_spec [OF z1(1) _ z1(2) z(4), of du 1 Some "\<lambda>n. n"] by auto
  have "\<exists>x n. (x, n) \<in> set dl \<and> w = - n \<and> map_of (z_vert_map z2) x = Some t" if "(t, w) \<in> set df" for t w
    using df(3) that dt(2) unfolding zone_extends_def zone_grows_def by blast
  then show ?thesis using df(1) dt(1,3) zone_extends_trans [OF df(2) dt(2)] by blast
qed

lemma diff_ends:
  assumes z: "zone_ok z" and "\<forall>(t, w)\<in>set df. \<exists>x n. (x, n) \<in> set ds \<and> w = g n \<and> map_of (z_vert_map z) x = Some t"
    and "\<forall>(x, n)\<in>set ds. \<bar>g n\<bar> \<le> b" and tw: "(t, w) \<in> set df"
  shows "live (dbm_g (z_core z)) t \<and> \<bar>w\<bar> \<le> b"
proof -
  obtain x n where x: "(x, n) \<in> set ds" "w = g n" "map_of (z_vert_map z) x = Some t" using assms(2) tw by fast
  show ?thesis using zone_okD(6) [OF z x(3)] assms(3) x(1,2) by auto
qed

lemma diff_values:
  assumes "\<forall>(t, w)\<in>set df. \<exists>x n. (x, n) \<in> set ds \<and> w = g n \<and> map_of (z_vert_map z) x = Some t"
    and "\<forall>x t. map_of (z_vert_map z) x = Some t \<longrightarrow> \<sigma> t = \<rho> x + c"
  shows "\<forall>(t, w)\<in>set df. \<exists>x n. (x, n) \<in> set ds \<and> w = g n \<and> \<sigma> t = \<rho> x + c"
  using assms by blast

lemma value_weights:
  assumes i: "itv_within b i" "b \<le> 2 ^ 120" and m: "is_min_only reg x \<noteq> None"
  shows "\<exists>lb ub. (case ext_number (itv_lb i) of Some n \<Rightarrow> do { m \<leftarrow> num_neg n; Some (Some m) } | None \<Rightarrow> Some None) = Some lb \<and>
    (case ext_number (itv_ub i) of None \<Rightarrow> Some None | Some u \<Rightarrow> do { m \<leftarrow> is_min_only reg x; Some (if m then None else Some u) }) = Some ub \<and>
    bound_weights i lb ub"
proof -
  have neg: "num_neg n = Some (- n)" if "ext_number (itv_lb i) = Some n" for n
    using that withinD(1) [OF i(1), of n] i(2) by (intro num_neg_small) (simp add: ext_number_Some)
  obtain mo where mo: "is_min_only reg x = Some mo" using m by blast
  show ?thesis
    using neg mo by (cases "ext_number (itv_lb i)"; cases "ext_number (itv_ub i)") (auto simp: bound_weights_def ext_number_Some)
qed

lemma zone_assign_spec:
  assumes z: "zone_ok z" "zone_within (2 ^ 66) z" "zone_room 7 z"
    and e: "lin_within (2 ^ 68) 32 reg e" "lin_no_zero e" and x: "is_min_only reg lhs \<noteq> None"
  shows "\<exists>z'. zone_assign lhs e reg z = Some z' \<and> zone_ok z' \<and> (\<forall>\<rho>. zone_holds \<rho> z \<longrightarrow> zone_holds (\<rho>(lhs := lin_eval \<rho> e)) z')"
proof -
  let ?b = "2 ^ 80 :: int" and ?p0 = "dbm_potential (z_core z) ! 0"
  have zb: "zone_within ?b z" by (rule zone_within_mono [OF z(2)]) simp
  obtain i where i: "zone_eval_interval z reg e = Some i" "itv_within (2 ^ 68 + 3 * (32 * 2 ^ 66)) i"
    "\<And>\<rho>. zone_holds \<rho> z \<Longrightarrow> lin_eval \<rho> e \<in> itv_gamma i"
    using zone_eval_interval_spec [OF z(1,2) _ _ _ e(1)] by auto
  have ib: "itv_within ?b i" using i(2) by (rule itv_within_mono) simp
  obtain lb ub where w: "(case ext_number (itv_lb i) of Some n \<Rightarrow> do { m \<leftarrow> num_neg n; Some (Some m) } | None \<Rightarrow> Some None) = Some lb"
    "(case ext_number (itv_ub i) of None \<Rightarrow> Some None | Some u \<Rightarrow> do { m \<leftarrow> is_min_only reg lhs; Some (if m then None else Some u) }) = Some ub"
    "bound_weights i lb ub"
    using value_weights [OF ib _ x] by auto
  have pot: "zone_holds (pot_valuation z) z" by (rule pot_valuation_holds [OF z(1)])
  have norm: "zone_normalize y = Some y" if "zone_ok y" for y
    using zone_okD(3) [OF that] by (simp add: zone_normalize_def normalize_def)
  obtain zs where zs: "zone_set lhs i reg z = Some zs" "zone_ok zs"
    "\<And>\<rho> n. zone_holds \<rho> z \<Longrightarrow> n \<in> itv_gamma i \<Longrightarrow> zone_holds (\<rho>(lhs := n)) zs"
    using zone_set_spec [OF z(1) zb _ _ ib i(3) [OF pot] x, of 6] z(3) by (auto simp: numeral_eq_Suc)
  obtain du where du: "diffcsts_of_assign z reg e True = Some du" "diffs_follow True (2 ^ 68 + 3 * (32 * 2 ^ 66) + 2 ^ 66) z e du"
    using diffcsts_of_assign_spec [OF z(1,2) _ _ _ e, of True] by auto
  obtain dl where dl: "diffcsts_of_assign z reg e False = Some dl" "diffs_follow False (2 ^ 68 + 3 * (32 * 2 ^ 66) + 2 ^ 66) z e dl"
    using diffcsts_of_assign_spec [OF z(1,2) _ _ _ e, of False] by auto
  show ?thesis
  proof (cases "itv_is_singleton i \<or> dl = [] \<and> du = []")
    case True
    then have "zone_assign lhs e reg z = Some zs"
      using i(1) w(1) zs(1) du(1) dl(1) norm [OF zs(2)] by (auto simp: zone_assign_def diffcsts_of_assign_both_def)
    then show ?thesis using zs(2,3) i(3) by blast
  next
    case False
    have ev: "eval_expression z e = Some (lin_eval (pot_valuation z) e)" "\<bar>lin_eval (pot_valuation z) e\<bar> \<le> 2 ^ 75"
    proof -
      have e': "\<forall>(y, c)\<in>set (variable_terms e). \<bar>c\<bar> \<le> 32" "\<bar>constant_term e\<bar> \<le> 2 ^ 68" "int (length (variable_terms e)) \<le> 3"
        using e(1) by (auto simp: lin_within_def)
      then have "2 ^ 68 + int (length (variable_terms e)) * (32 * (2 * 2 ^ 66)) \<le> (2 ^ 75 :: int)" by simp
      then show "eval_expression z e = Some (lin_eval (pot_valuation z) e)" "\<bar>lin_eval (pot_valuation z) e\<bar> \<le> 2 ^ 75"
        using eval_potentials_spec [OF z(1,2) _ _ _ e'(1,2)] by (simp_all add: eval_expression_def lin_eval_def)
    qed
    let ?a = "lin_eval (pot_valuation z) e + ?p0"
    have P: "potential_at_zero (z_core z) = Some ?p0" "\<bar>?p0\<bar> \<le> 2 ^ 66" by (rule pot_value_spec [OF z(1,2)])+
    have small: "\<bar>?a\<bar> \<le> 2 ^ 80" "num_add ?p0 (lin_eval (pot_valuation z) e) = Some (?p0 + lin_eval (pot_valuation z) e)"
      using ev(2) P(2) num_add_small [OF P(2), of "lin_eval (pot_valuation z) e"] by simp_all
    have dl': "diffs_follow False ?b z e dl" and du': "diffs_follow True ?b z e du"
      using dl(2) du(2) by (auto simp: diffs_follow_def)
    obtain df z1 dt z2 where dv: "diff_verts num_neg dl z = Some (df, z1)" "diff_verts Some du z1 = Some (dt, z2)" "zone_extends ?b 1 z z2"
      "\<forall>(t, w)\<in>set df. \<exists>x n. (x, n) \<in> set dl \<and> w = - n \<and> map_of (z_vert_map z2) x = Some t"
      "\<forall>(s, w)\<in>set dt. \<exists>x n. (x, n) \<in> set du \<and> w = n \<and> map_of (z_vert_map z2) x = Some s"
      using both_diff_verts [OF z(1) zb z(3) _ _ dl' du'] by auto
    have z2: "zone_ok z2" "zone_room 1 z2" "zone_within ?b z2" "\<And>\<rho>. zone_holds \<rho> z2 \<longleftrightarrow> zone_holds \<rho> z"
      "\<And>y. pot_value z2 y = pot_value z y" "potential_at_zero (z_core z2) = Some ?p0"
      using dv(3) P(1) by (simp_all add: zone_extends_def)
    note Y = zone_okD [OF z2(1)]
    have p0: "dbm_potential (z_core z2) ! 0 = ?p0" using pot_value_spec(1) [OF z2(1,3)] z2(6) by simp
    have pv: "\<forall>y t. map_of (z_vert_map z2) y = Some t \<longrightarrow> dbm_potential (z_core z2) ! t = pot_valuation z y + ?p0"
    proof (intro allI impI)
      fix y t assume that: "map_of (z_vert_map z2) y = Some t"
      have "pot_value z2 y = Some (dbm_potential (z_core z2) ! t)"
        using that dbm_okD(3) [OF Y(1), of t] Y(6) [OF that] by (simp add: pot_value_def get_vertid_def potential_at_def vec_get_def)
      then show "dbm_potential (z_core z2) ! t = pot_valuation z y + ?p0" using z2(5) [of y] pot_value_spec(3) [OF z(1,2), of y] by simp
    qed
    have "\<forall>(x, n)\<in>set dl. \<bar>- n\<bar> \<le> ?b" using dl' by (auto simp: diffs_follow_def)
    note ends_f = diff_ends [OF z2(1) dv(4) this]
    have "\<forall>(x, n)\<in>set du. \<bar>n\<bar> \<le> ?b" using du' by (auto simp: diffs_follow_def)
    note ends_t = diff_ends [OF z2(1) dv(5) this]
    have "\<forall>(t, w)\<in>set df \<union> set dt. live (dbm_g (z_core z2)) t \<and> \<bar>w\<bar> \<le> ?b"
      using ends_f ends_t by blast
    moreover have "vertex_fits df dt lb ub (\<lambda>u. dbm_potential (z_core z2) ! u) ?a"
      using follows_fit [where \<sigma> = "\<lambda>u. dbm_potential (z_core z2) ! u",
        OF dl(2) du(2) pot i(3) [OF pot] diff_values [OF dv(4) pv] diff_values [OF dv(5) pv] w(3) p0 refl] .
    ultimately obtain v d where v: "assign_vertex ?a df dt lb ub (z_core z2) = Some (v, d)" "dbm_ok d" "v \<noteq> 0"
      "\<not> live (dbm_g (z_core z2)) v" "\<forall>u. live (dbm_g d) u \<longleftrightarrow> u = v \<or> live (dbm_g (z_core z2)) u"
      "graph_size (dbm_g d) = length (dbm_potential d)" "graph_size (dbm_g d) = max (graph_size (dbm_g (z_core z2))) (v + 1)"
      "v \<le> graph_size (dbm_g (z_core z2))" "dbm_unstable d = dbm_unstable (z_core z2)"
      "\<And>\<sigma>. dbm_holds \<sigma> (z_core z2) \<Longrightarrow> vertex_fits df dt lb ub \<sigma> (\<sigma> v) \<Longrightarrow> dbm_holds \<sigma> d"
      using assign_vertex_spec [OF Y(1), of "2 ^ 80" df dt ?a lb ub] z2(2,3) Y(4) small(1)
      by (auto simp: zone_within_def zone_room_def)
    obtain z' where z': "(do { rev_map \<leftarrow> (if v = length (z_rev_map z2) then Some (z_rev_map z2 @ [Some lhs]) else vec_set v (Some lhs) (z_rev_map z2));
        z \<leftarrow> zone_havoc lhs (z2\<lparr>z_core := d, z_rev_map := rev_map\<rparr>);
        zone_normalize (z\<lparr>z_vert_map := bt_insert lhs v (z_vert_map z)\<rparr>) }) = Some z'" "zone_ok z'"
      "\<And>\<sigma> \<rho> a. zone_model \<sigma> \<rho> z2 \<Longrightarrow> dbm_holds (\<sigma>(v := a)) d \<Longrightarrow> zone_holds (\<rho>(lhs := a)) z'"
      using replace_vertex [OF z2(1) v(4,3,8,2,5-7,9)] by blast
    have run: "zone_assign lhs e reg z = Some z'"
      using False i(1) w(1,2) du(1) dl(1) ev(1) dv(1,2) small(2) z2(6) v(1) z'(1)
      by (simp add: zone_assign_def diffcsts_of_assign_both_def add.commute) blast
    have "zone_holds (\<rho>(lhs := lin_eval \<rho> e)) z'" if h: "zone_holds \<rho> z" for \<rho>
    proof -
      obtain \<sigma> where s: "zone_model \<sigma> \<rho> z2" using h z2(4) unfolding zone_holds_def by blast
      have s0: "\<sigma> 0 = 0" "dbm_holds \<sigma> (z_core z2)" using s unfolding zone_model_def by blast+
      let ?\<tau> = "\<sigma>(v := lin_eval \<rho> e)"
      have eq: "?\<tau> u = \<sigma> u" if "live (dbm_g (z_core z2)) u" for u using that v(4) by auto
      have "\<forall>y t. map_of (z_vert_map z2) y = Some t \<longrightarrow> ?\<tau> t = \<rho> y + 0"
      proof (intro allI impI)
        fix y t assume t: "map_of (z_vert_map z2) y = Some t"
        have "\<sigma> t = \<rho> y" using s t unfolding zone_model_def by blast
        then show "?\<tau> t = \<rho> y + 0" using eq [of t] Y(6) [OF t] by simp
      qed
      note at = this
      have t0: "?\<tau> 0 = 0" using s0(1) not_sym [OF v(3)] by (simp only: fun_upd_apply if_False)
      have tv: "?\<tau> v = lin_eval \<rho> e + 0" by simp
      have fits: "vertex_fits df dt lb ub ?\<tau> (?\<tau> v)"
        by (rule follows_fit [where \<sigma> = ?\<tau> and c = 0 and a = "?\<tau> v",
          OF dl(2) du(2) h i(3) [OF h] diff_values [OF dv(4) at] diff_values [OF dv(5) at] w(3) t0 tv])
      have "dbm_holds ?\<tau> (z_core z2) = dbm_holds \<sigma> (z_core z2)" by (rule dbm_holds_local [OF Y(1)]) (rule eq)
      then have "dbm_holds ?\<tau> (z_core z2)" using s0(2) by (simp only:)
      then show ?thesis by (rule z'(3) [OF s v(10) [OF _ fits]])
    qed
    then show ?thesis using run z'(2) by blast
  qed
qed


text \<open>C3: Assigning a linear expression to a variable of a zone returns a zone, and for every valuation
  of the old zone the new one holds the valuation that gives the variable the value of the
  expression. The zone keeps its invariant. The bounds of the premises are those of 64-bit programs: the
  weights below \<open>2 ^ 66\<close>, three terms with small coefficients that are not zero, room for seven vertices.\<close>

theorem zone_assign_sound:
  assumes "zone_ok z" "zone_within (2 ^ 66) z" "zone_room 7 z" "lin_within (2 ^ 68) 32 reg e" "lin_no_zero e"
    "is_min_only reg lhs \<noteq> None"
  shows "\<exists>z'. zone_assign lhs e reg z = Some z' \<and> zone_ok z' \<and>
    (\<forall>\<rho>. zone_holds \<rho> z \<longrightarrow> zone_holds (\<rho>(lhs := lin_eval \<rho> e)) z')"
  by (rule zone_assign_spec [OF assms])

text \<open>The assignment \<open>v := w + 5\<close> in the zone without constraints.\<close>

theorem zone_assign_sound_witness:
  "\<exists>z v w z'. zone_new = Some z \<and> zone_assign v \<lparr>constant_term = 5, variable_terms = [(w, 1)]\<rparr> registry_new z = Some z' \<and>
     zone_holds ((\<lambda>_. 3)(v := 8)) z'"
proof -
  obtain z where z: "zone_new = Some z" "zone_ok z" "zone_within 0 z" "zone_room 65534 z" "\<And>\<rho>. zone_holds \<rho> z"
    using zone_new_spec by blast
  have zw: "zone_within (2 ^ 66) z" "zone_room 7 z" using zone_within_mono [OF z(3)] z(4) by (simp_all add: zone_room_def)
  obtain v w where vw: "v \<noteq> w" "is_min_only registry_new v = Some False" "is_min_only registry_new w = Some False"
    using registered by blast
  let ?e = "\<lparr>constant_term = 5, variable_terms = [(w, 1)]\<rparr>"
  have "lin_within (2 ^ 68) 32 registry_new ?e" "lin_no_zero ?e" using vw by (simp_all add: lin_within_def lin_no_zero_def) blast
  then obtain z' where z': "zone_assign v ?e registry_new z = Some z'"
    "zone_holds ((\<lambda>_. 3)(v := lin_eval (\<lambda>_. 3) ?e)) z'"
    using zone_assign_sound [OF z(2) zw, of registry_new ?e v] vw z(5) by auto
  then have "zone_holds ((\<lambda>_. 3)(v := 8)) z'" by (simp add: lin_eval_def)
  then show ?thesis using z(1) z'(1) by blast
qed

text \<open>The join and the widening of a zone that sets a variable to 1 and one that sets it to 2.\<close>

theorem zone_join_widen_sound_witness:
  "\<exists>z v l r j w. zone_new = Some z \<and> zone_set v \<lparr>itv_lb = Finite 1, itv_ub = Finite 1\<rparr> registry_new z = Some l \<and>
     zone_set v \<lparr>itv_lb = Finite 2, itv_ub = Finite 2\<rparr> registry_new z = Some r \<and>
     zone_join l r = Some j \<and> zone_widen l r = Some w \<and>
     zone_holds ((\<lambda>_. 0)(v := 1)) j \<and> zone_holds ((\<lambda>_. 0)(v := 2)) j \<and>
     zone_holds ((\<lambda>_. 0)(v := 1)) w \<and> zone_holds ((\<lambda>_. 0)(v := 2)) w"
proof -
  obtain z where z: "zone_new = Some z" "zone_ok z" "zone_within 0 z" "zone_room 65534 z" "\<And>\<rho>. zone_holds \<rho> z"
    using zone_new_spec by blast
  have zw: "zone_within 2 z" "zone_room (Suc 0) z" using zone_within_mono [OF z(3)] z(4) by (simp_all add: zone_room_def)
  obtain v where v: "is_min_only registry_new v \<noteq> None" using registered by fastforce
  have set: "\<exists>l. zone_set v \<lparr>itv_lb = Finite n, itv_ub = Finite n\<rparr> registry_new z = Some l \<and> zone_ok l \<and>
      zone_within (2 ^ 76) l \<and> zone_holds ((\<lambda>_. 0)(v := n)) l" if n: "n \<in> {1, 2}" for n :: int
  proof -
    let ?i = "\<lparr>itv_lb = Finite n, itv_ub = Finite n\<rparr>"
    have i: "itv_within 2 ?i" "n \<in> itv_gamma ?i" using n by (auto simp: itv_within_def itv_gamma_def itv_regular_def)
    obtain l where l: "zone_set v ?i registry_new z = Some l" "zone_ok l" "zone_within (4 * 2) l"
      "\<forall>\<rho> m. zone_holds \<rho> z \<and> m \<in> itv_gamma ?i \<longrightarrow> zone_holds (\<rho>(v := m)) l"
      using zone_set_spec [OF z(2) zw(1) _ zw(2) i v] by auto
    have "zone_within (2 ^ 76) l" by (rule zone_within_mono [OF l(3)]) simp
    then show ?thesis using l z(5) i(2) by blast
  qed
  obtain l where l: "zone_set v \<lparr>itv_lb = Finite 1, itv_ub = Finite 1\<rparr> registry_new z = Some l" "zone_ok l"
    "zone_within (2 ^ 76) l" "zone_holds ((\<lambda>_. 0)(v := 1)) l" using set [of 1] by blast
  obtain r where r: "zone_set v \<lparr>itv_lb = Finite 2, itv_ub = Finite 2\<rparr> registry_new z = Some r" "zone_ok r"
    "zone_within (2 ^ 76) r" "zone_holds ((\<lambda>_. 0)(v := 2)) r" using set [of 2] by blast
  obtain j w where "zone_join l r = Some j" "zone_widen l r = Some w"
    "zone_holds ((\<lambda>_. 0)(v := 1)) j" "zone_holds ((\<lambda>_. 0)(v := 2)) j"
    "zone_holds ((\<lambda>_. 0)(v := 1)) w" "zone_holds ((\<lambda>_. 0)(v := 2)) w"
    using zone_join_widen_sound [OF l(2,3) r(2,3)] l(4) r(4) unfolding zone_covers_def by blast
  then show ?thesis using z(1) l(1) r(1) by blast
qed

end
