(* ===== verification/Linux_Descriptors.thy ===== *)
theory Linux_Descriptors
  imports Prelude
begin

text \<open>
  \<open>src/linux/spec_type_descriptors.rs\<close> and the descriptor types of \<open>src/spec/ebpf_base.rs\<close> and
  \<open>src/spec/type_descriptors.rs\<close>: programs, maps, the layout of the context of every program type
  and the fields of a socket that a program may read.  A missing field has the offset -1.
\<close>

record ctx_descriptor =
  ctx_size :: int
  ctx_data :: int
  ctx_end :: int
  ctx_meta :: int

datatype field_permission = ReadOnly | ReadWrite

record struct_field_descriptor =
  sf_offset :: int
  sf_span :: int
  sf_permission :: field_permission
  sf_max_access_width :: int
  sf_allow_narrow_access :: bool
  sf_extra_read_width_at_start :: int

record struct_descriptor =
  sd_size :: int
  sd_fields :: "struct_field_descriptor list"

record program_type =
  pt_name :: string
  pt_ctx_descriptor :: "ctx_descriptor option"
  pt_platform_specific_data :: "64 word"
  pt_section_prefixes :: "string list"
  pt_is_privileged :: bool
  pt_is_sleepable :: bool

datatype map_value_type = VT_Any | VT_Map | VT_Program

record map_type =
  mt_platform_specific_type :: "32 word"
  mt_name :: string
  mt_is_array :: bool
  mt_value_type :: map_value_type

record map_descriptor =
  md_original_fd :: "32 word"
  md_map_type :: "32 word"
  md_key_size :: "32 word"
  md_value_size :: "32 word"
  md_max_entries :: "32 word"
  md_inner_map_fd :: "32 word"
  md_name :: string
  md_is_inner_map_template :: bool

record equivalence_key =
  ek_value_type :: map_value_type
  ek_key_size :: "32 word"
  ek_value_size :: "32 word"
  ek_max_entries :: "32 word"

subsection \<open>Sizes and offsets\<close>

definition NMAPS :: int where "NMAPS = 64"
definition NONMAPS :: int where "NONMAPS = 5"
definition ALL_TYPES :: int where "ALL_TYPES = NMAPS + NONMAPS"
definition PERF_MAX_TRACE_SIZE :: int where "PERF_MAX_TRACE_SIZE = 2048"
definition PTREGS_SIZE :: int where "PTREGS_SIZE = (3 + 63 + 8 + 2) * 8"
definition CGROUP_DEV_REGIONS :: int where "CGROUP_DEV_REGIONS = 12"
definition KPROBE_REGIONS :: int where "KPROBE_REGIONS = PTREGS_SIZE"
definition TRACEPOINT_REGIONS :: int where "TRACEPOINT_REGIONS = PERF_MAX_TRACE_SIZE"
definition PERF_EVENT_REGIONS :: int where "PERF_EVENT_REGIONS = 3 * 8 + PTREGS_SIZE"
definition SK_SKB_REGIONS :: int where "SK_SKB_REGIONS = 192"
definition XDP_REGIONS :: int where "XDP_REGIONS = 24"
definition CGROUP_SOCK_REGIONS :: int where "CGROUP_SOCK_REGIONS = 80"
definition SOCK_OPS_REGIONS :: int where "SOCK_OPS_REGIONS = 224"
definition SOCK_ADDR_REGIONS :: int where "SOCK_ADDR_REGIONS = 72"
definition SOCKOPT_REGIONS :: int where "SOCKOPT_REGIONS = 40"
definition SK_LOOKUP_REGIONS :: int where "SK_LOOKUP_REGIONS = 72"
definition SK_REUSEPORT_REGIONS :: int where "SK_REUSEPORT_REGIONS = 56"
definition CGROUP_SYSCTL_REGIONS :: int where "CGROUP_SYSCTL_REGIONS = 8"
definition TRACING_REGIONS :: int where "TRACING_REGIONS = 12 * 8"
definition LIRC_MODE2_REGIONS :: int where "LIRC_MODE2_REGIONS = 4"
definition NETFILTER_REGIONS :: int where "NETFILTER_REGIONS = 2 * 8"
definition SYSCALL_REGIONS :: int where "SYSCALL_REGIONS = 65535"
definition BPF_SOCK_BOUND_DEV_IF_OFFSET :: int where "BPF_SOCK_BOUND_DEV_IF_OFFSET = 0"
definition BPF_SOCK_FAMILY_OFFSET :: int where "BPF_SOCK_FAMILY_OFFSET = 4"
definition BPF_SOCK_SRC_IP4_OFFSET :: int where "BPF_SOCK_SRC_IP4_OFFSET = 24"
definition BPF_SOCK_SRC_IP6_OFFSET :: int where "BPF_SOCK_SRC_IP6_OFFSET = 28"
definition BPF_SOCK_SRC_IP6_END :: int where "BPF_SOCK_SRC_IP6_END = 44"
definition BPF_SOCK_SRC_PORT_OFFSET :: int where "BPF_SOCK_SRC_PORT_OFFSET = 44"
definition BPF_SOCK_DST_PORT_OFFSET :: int where "BPF_SOCK_DST_PORT_OFFSET = 48"
definition BPF_SOCK_DST_PORT_END :: int where "BPF_SOCK_DST_PORT_END = 50"
definition BPF_SOCK_DST_IP4_OFFSET :: int where "BPF_SOCK_DST_IP4_OFFSET = 52"
definition BPF_SOCK_DST_IP6_OFFSET :: int where "BPF_SOCK_DST_IP6_OFFSET = 56"
definition BPF_SOCK_DST_IP6_END :: int where "BPF_SOCK_DST_IP6_END = 72"
definition BPF_SOCK_STATE_OFFSET :: int where "BPF_SOCK_STATE_OFFSET = 72"
definition BPF_SOCK_RX_QUEUE_MAPPING_OFFSET :: int where "BPF_SOCK_RX_QUEUE_MAPPING_OFFSET = 76"
definition BPF_SOCK_U32_FIELD_SIZE :: int where "BPF_SOCK_U32_FIELD_SIZE = 4"

subsection \<open>Sockets\<close>

definition readonly_bpf_sock_u32_field :: "int \<Rightarrow> struct_field_descriptor" where
  "readonly_bpf_sock_u32_field offset =
     \<lparr>sf_offset = offset, sf_span = BPF_SOCK_U32_FIELD_SIZE, sf_permission = ReadOnly,
      sf_max_access_width = BPF_SOCK_U32_FIELD_SIZE, sf_allow_narrow_access = True,
      sf_extra_read_width_at_start = 0\<rparr>"

definition BPF_SOCK_COMMON_FIELDS :: "struct_field_descriptor list" where
  "BPF_SOCK_COMMON_FIELDS = [
     \<lparr>sf_offset = BPF_SOCK_BOUND_DEV_IF_OFFSET, sf_span = BPF_SOCK_U32_FIELD_SIZE,
      sf_permission = ReadOnly, sf_max_access_width = BPF_SOCK_U32_FIELD_SIZE,
      sf_allow_narrow_access = False, sf_extra_read_width_at_start = 0\<rparr>,
     readonly_bpf_sock_u32_field BPF_SOCK_FAMILY_OFFSET,
     readonly_bpf_sock_u32_field BPF_SOCK_SRC_IP4_OFFSET,
     \<lparr>sf_offset = BPF_SOCK_SRC_IP6_OFFSET, sf_span = BPF_SOCK_SRC_IP6_END - BPF_SOCK_SRC_IP6_OFFSET,
      sf_permission = ReadOnly, sf_max_access_width = BPF_SOCK_U32_FIELD_SIZE,
      sf_allow_narrow_access = True, sf_extra_read_width_at_start = 0\<rparr>,
     readonly_bpf_sock_u32_field BPF_SOCK_SRC_PORT_OFFSET,
     \<lparr>sf_offset = BPF_SOCK_DST_PORT_OFFSET, sf_span = BPF_SOCK_DST_PORT_END - BPF_SOCK_DST_PORT_OFFSET,
      sf_permission = ReadOnly, sf_max_access_width = BPF_SOCK_DST_PORT_END - BPF_SOCK_DST_PORT_OFFSET,
      sf_allow_narrow_access = True, sf_extra_read_width_at_start = BPF_SOCK_U32_FIELD_SIZE\<rparr>,
     readonly_bpf_sock_u32_field BPF_SOCK_DST_IP4_OFFSET,
     \<lparr>sf_offset = BPF_SOCK_DST_IP6_OFFSET, sf_span = BPF_SOCK_DST_IP6_END - BPF_SOCK_DST_IP6_OFFSET,
      sf_permission = ReadOnly, sf_max_access_width = BPF_SOCK_U32_FIELD_SIZE,
      sf_allow_narrow_access = True, sf_extra_read_width_at_start = 0\<rparr>,
     readonly_bpf_sock_u32_field BPF_SOCK_STATE_OFFSET,
     readonly_bpf_sock_u32_field BPF_SOCK_RX_QUEUE_MAPPING_OFFSET]"

definition BPF_SOCK_COMMON_LAYOUT :: struct_descriptor where
  "BPF_SOCK_COMMON_LAYOUT = \<lparr>sd_size = CGROUP_SOCK_REGIONS, sd_fields = BPF_SOCK_COMMON_FIELDS\<rparr>"

subsection \<open>Contexts\<close>

definition SK_BUFF :: ctx_descriptor where
  "SK_BUFF = \<lparr>ctx_size = SK_SKB_REGIONS, ctx_data = 76, ctx_end = 80, ctx_meta = 140\<rparr>"

definition XDP_MD :: ctx_descriptor where
  "XDP_MD = \<lparr>ctx_size = XDP_REGIONS, ctx_data = 0, ctx_end = 4, ctx_meta = 8\<rparr>"

definition SK_MSG_MD :: ctx_descriptor where
  "SK_MSG_MD = \<lparr>ctx_size = 80, ctx_data = 0, ctx_end = 8, ctx_meta = -1\<rparr>"

definition UNSPEC_DESCR :: ctx_descriptor where
  "UNSPEC_DESCR = \<lparr>ctx_size = 0, ctx_data = -1, ctx_end = -1, ctx_meta = -1\<rparr>"

definition TRACING_DESCR :: ctx_descriptor where
  "TRACING_DESCR = \<lparr>ctx_size = TRACING_REGIONS, ctx_data = -1, ctx_end = -1, ctx_meta = -1\<rparr>"

definition LIRC_MODE2_DESCR :: ctx_descriptor where
  "LIRC_MODE2_DESCR = \<lparr>ctx_size = LIRC_MODE2_REGIONS, ctx_data = -1, ctx_end = -1, ctx_meta = -1\<rparr>"

definition NETFILTER_DESCR :: ctx_descriptor where
  "NETFILTER_DESCR = \<lparr>ctx_size = NETFILTER_REGIONS, ctx_data = -1, ctx_end = -1, ctx_meta = -1\<rparr>"

definition SYSCALL_DESCR :: ctx_descriptor where
  "SYSCALL_DESCR = \<lparr>ctx_size = SYSCALL_REGIONS, ctx_data = -1, ctx_end = -1, ctx_meta = -1\<rparr>"

definition CGROUP_DEV_DESCR :: ctx_descriptor where
  "CGROUP_DEV_DESCR = \<lparr>ctx_size = CGROUP_DEV_REGIONS, ctx_data = -1, ctx_end = -1, ctx_meta = -1\<rparr>"

definition KPROBE_DESCR :: ctx_descriptor where
  "KPROBE_DESCR = \<lparr>ctx_size = KPROBE_REGIONS, ctx_data = -1, ctx_end = -1, ctx_meta = -1\<rparr>"

definition TRACEPOINT_DESCR :: ctx_descriptor where
  "TRACEPOINT_DESCR = \<lparr>ctx_size = TRACEPOINT_REGIONS, ctx_data = -1, ctx_end = -1, ctx_meta = -1\<rparr>"

definition PERF_EVENT_DESCR :: ctx_descriptor where
  "PERF_EVENT_DESCR = \<lparr>ctx_size = PERF_EVENT_REGIONS, ctx_data = -1, ctx_end = -1, ctx_meta = -1\<rparr>"

definition CGROUP_SOCK_DESCR :: ctx_descriptor where
  "CGROUP_SOCK_DESCR = \<lparr>ctx_size = CGROUP_SOCK_REGIONS, ctx_data = -1, ctx_end = -1, ctx_meta = -1\<rparr>"

definition SOCK_OPS_DESCR :: ctx_descriptor where
  "SOCK_OPS_DESCR = \<lparr>ctx_size = SOCK_OPS_REGIONS, ctx_data = -1, ctx_end = -1, ctx_meta = -1\<rparr>"

definition SOCK_ADDR_DESCR :: ctx_descriptor where
  "SOCK_ADDR_DESCR = \<lparr>ctx_size = SOCK_ADDR_REGIONS, ctx_data = -1, ctx_end = -1, ctx_meta = -1\<rparr>"

definition SOCKOPT_DESCR :: ctx_descriptor where
  "SOCKOPT_DESCR = \<lparr>ctx_size = SOCKOPT_REGIONS, ctx_data = -1, ctx_end = -1, ctx_meta = -1\<rparr>"

definition SK_LOOKUP_DESCR :: ctx_descriptor where
  "SK_LOOKUP_DESCR = \<lparr>ctx_size = SK_LOOKUP_REGIONS, ctx_data = -1, ctx_end = -1, ctx_meta = -1\<rparr>"

definition SK_REUSEPORT_DESCR :: ctx_descriptor where
  "SK_REUSEPORT_DESCR = \<lparr>ctx_size = SK_REUSEPORT_REGIONS, ctx_data = 0, ctx_end = 8, ctx_meta = -1\<rparr>"

definition CGROUP_SYSCTL_DESCR :: ctx_descriptor where
  "CGROUP_SYSCTL_DESCR = \<lparr>ctx_size = CGROUP_SYSCTL_REGIONS, ctx_data = -1, ctx_end = -1, ctx_meta = -1\<rparr>"

definition FLOW_DISSECTOR_DESCR :: ctx_descriptor where
  "FLOW_DISSECTOR_DESCR = \<lparr>ctx_size = SK_SKB_REGIONS, ctx_data = 76, ctx_end = 80, ctx_meta = -1\<rparr>"

definition SOCKET_FILTER_DESCR :: ctx_descriptor where "SOCKET_FILTER_DESCR = SK_BUFF"

definition SCHED_DESCR :: ctx_descriptor where "SCHED_DESCR = SK_BUFF"

definition LWT_XMIT_DESCR :: ctx_descriptor where "LWT_XMIT_DESCR = SK_BUFF"

definition LWT_INOUT_DESCR :: ctx_descriptor where "LWT_INOUT_DESCR = SK_BUFF"

definition SK_SKB_DESCR :: ctx_descriptor where "SK_SKB_DESCR = SK_BUFF"

definition XDP_DESCR :: ctx_descriptor where "XDP_DESCR = XDP_MD"

end
