(* ===== verification/Linux_Helpers.thy ===== *)
theory Linux_Helpers
  imports Linux_Descriptors Call_Proto
begin

text \<open>
  \<open>src/linux/spec_prototypes.rs\<close>: the prototypes of the Linux helper functions, their lookup by
  number and by name, and which of them a program may use.  A helper number is an \<open>i32\<close>, here an
  integer.  The context descriptors are compared by value: a reference equal to another points to
  an equal value.
\<close>

unbundle bit_operations_syntax

subsection \<open>Prototypes\<close>

record linux_prototype = helper_prototype +
  lp_ctx_descriptor :: "ctx_descriptor option"
  lp_unsupported :: bool
  lp_might_sleep :: bool

definition map_type_bit :: "nat \<Rightarrow> 64 word" where
  "map_type_bit map_type = (if map_type < 64 then push_bit map_type 1 else 0)"

definition with_allowed_map_types :: "64 word \<Rightarrow> linux_prototype \<Rightarrow> linux_prototype" where
  "with_allowed_map_types m p = p\<lparr>proto_allowed_map_types := m\<rparr>"

text \<open>The macro \<open>proto!\<close>: its form without arguments, and its general form, which pads the arguments to five.\<close>

definition proto_plain :: "string \<Rightarrow> ebpf_return_type \<Rightarrow> linux_prototype" where
  "proto_plain name ret =
     \<lparr>proto_name = name, proto_return_type = ret, proto_argument_type = replicate 5 DontCare,
      proto_reallocate_packet = False, proto_zero_args_mask = 0, proto_allowed_map_types = 0,
      lp_ctx_descriptor = None, lp_unsupported = False, lp_might_sleep = False\<rparr>"

definition pad_args :: "ebpf_argument_type list \<Rightarrow> ebpf_argument_type list" where
  "pad_args args = map (\<lambda>k. if k < length args then args ! k else DontCare) [0, 1, 2, 3, 4]"

definition proto ::
  "string \<Rightarrow> ebpf_return_type \<Rightarrow> ebpf_argument_type list \<Rightarrow> bool \<Rightarrow> ctx_descriptor option \<Rightarrow> bool \<Rightarrow> bool \<Rightarrow> 8 word \<Rightarrow> linux_prototype" where
  "proto name ret args realloc ctx unsup might_sleep zero_mask =
     \<lparr>proto_name = name, proto_return_type = ret, proto_argument_type = pad_args args,
      proto_reallocate_packet = realloc, proto_zero_args_mask = zero_mask, proto_allowed_map_types = 0,
      lp_ctx_descriptor = ctx, lp_unsupported = unsup, lp_might_sleep = might_sleep\<rparr>"

subsection \<open>Map types\<close>

definition MT_PERCPU_HASH :: "64 word" where "MT_PERCPU_HASH = map_type_bit 5"
definition MT_PERCPU_ARRAY :: "64 word" where "MT_PERCPU_ARRAY = map_type_bit 6"
definition MT_PERF_EVENT_ARRAY :: "64 word" where "MT_PERF_EVENT_ARRAY = map_type_bit 4"
definition MT_STACK_TRACE :: "64 word" where "MT_STACK_TRACE = map_type_bit 7"
definition MT_CGROUP_ARRAY :: "64 word" where "MT_CGROUP_ARRAY = map_type_bit 8"
definition MT_LRU_PERCPU_HASH :: "64 word" where "MT_LRU_PERCPU_HASH = map_type_bit 10"
definition MT_DEVMAP :: "64 word" where "MT_DEVMAP = map_type_bit 14"
definition MT_SOCKMAP :: "64 word" where "MT_SOCKMAP = map_type_bit 15"
definition MT_CPUMAP :: "64 word" where "MT_CPUMAP = map_type_bit 16"
definition MT_XSKMAP :: "64 word" where "MT_XSKMAP = map_type_bit 17"
definition MT_SOCKHASH :: "64 word" where "MT_SOCKHASH = map_type_bit 18"
definition MT_CGROUP_STORAGE :: "64 word" where "MT_CGROUP_STORAGE = map_type_bit 19"
definition MT_REUSEPORT_SOCKARRAY :: "64 word" where "MT_REUSEPORT_SOCKARRAY = map_type_bit 20"
definition MT_PERCPU_CGROUP_STORAGE :: "64 word" where "MT_PERCPU_CGROUP_STORAGE = map_type_bit 21"
definition MT_QUEUE :: "64 word" where "MT_QUEUE = map_type_bit 22"
definition MT_STACK :: "64 word" where "MT_STACK = map_type_bit 23"
definition MT_SK_STORAGE :: "64 word" where "MT_SK_STORAGE = map_type_bit 24"
definition MT_DEVMAP_HASH :: "64 word" where "MT_DEVMAP_HASH = map_type_bit 25"
definition MT_RINGBUF :: "64 word" where "MT_RINGBUF = map_type_bit 27"
definition MT_INODE_STORAGE :: "64 word" where "MT_INODE_STORAGE = map_type_bit 28"
definition MT_TASK_STORAGE :: "64 word" where "MT_TASK_STORAGE = map_type_bit 29"
definition MT_BLOOM_FILTER :: "64 word" where "MT_BLOOM_FILTER = map_type_bit 30"
definition MT_USER_RINGBUF :: "64 word" where "MT_USER_RINGBUF = map_type_bit 31"
definition MT_CGRP_STORAGE :: "64 word" where "MT_CGRP_STORAGE = map_type_bit 32"

subsection \<open>The table\<close>

text \<open>Helpers 0 to 28.\<close>

definition PROTOTYPES_0 :: "linux_prototype list" where
  "PROTOTYPES_0 = [
     proto_plain ''unspec'' RT_Unsupported,
     proto ''map_lookup_elem'' RT_PtrToMapValueOrNull [PtrToMap, PtrToMapKey, DontCare, DontCare, DontCare] False None False False 0,
     proto ''map_update_elem'' RT_Integer [PtrToMap, PtrToMapKey, PtrToMapValue, Anything, DontCare] False None False False 0,
     proto ''map_delete_elem'' RT_Integer [PtrToMap, PtrToMapKey, DontCare, DontCare, DontCare] False None False False 0,
     proto ''probe_read'' RT_Integer [PtrToWritableMem, ConstSizeOrZero, Anything] False None False False 0,
     proto_plain ''ktime_get_ns'' RT_Integer,
     proto ''trace_printk'' RT_Integer [PtrToReadableMem, ConstSize] False None False False 0,
     proto_plain ''get_prandom_u32'' RT_Integer,
     proto_plain ''get_smp_processor_id'' RT_Integer,
     proto ''skb_store_bytes'' RT_Integer [PtrToCtx, Anything, PtrToReadableMem, ConstSize, Anything] True (Some SK_BUFF) False False 0,
     proto ''l3_csum_replace'' RT_Integer [PtrToCtx, Anything, Anything, Anything, Anything] True (Some SK_BUFF) False False 0,
     proto ''l4_csum_replace'' RT_Integer [PtrToCtx, Anything, Anything, Anything, Anything] True (Some SK_BUFF) False False 0,
     proto ''tail_call'' RT_IntegerOrNoReturnIfSucceed [PtrToCtx, PtrToMapOfPrograms, Anything] False None False False 0,
     proto ''clone_redirect'' RT_Integer [PtrToCtx, Anything, Anything] True (Some SK_BUFF) False False 0,
     proto_plain ''get_current_pid_tgid'' RT_Integer,
     proto_plain ''get_current_uid_gid'' RT_Integer,
     proto ''get_current_comm'' RT_Integer [PtrToWritableMem, ConstSize] False None False False 0,
     proto ''get_cgroup_classid'' RT_Integer [PtrToCtx] False (Some SK_BUFF) False False 0,
     proto ''skb_vlan_push'' RT_Integer [PtrToCtx, Anything, Anything] True (Some SK_BUFF) False False 0,
     proto ''skb_vlan_pop'' RT_Integer [PtrToCtx] True (Some SK_BUFF) False False 0,
     proto ''skb_get_tunnel_key'' RT_Integer [PtrToCtx, PtrToWritableMem, ConstSize, Anything] False (Some SK_BUFF) False False 0,
     proto ''skb_set_tunnel_key'' RT_Integer [PtrToCtx, PtrToReadableMem, ConstSize, Anything] False (Some SK_BUFF) False False 0,
     with_allowed_map_types (MT_PERF_EVENT_ARRAY) (proto ''perf_event_read'' RT_Integer [PtrToMap, Anything] False None False False 0),
     proto ''redirect'' RT_Integer [Anything, Anything] False None False False 0,
     proto ''get_route_realm'' RT_Integer [PtrToCtx] False (Some SK_BUFF) False False 0,
     with_allowed_map_types (MT_PERF_EVENT_ARRAY) (proto ''perf_event_output'' RT_Integer [PtrToCtx, PtrToMap, Anything, PtrToReadableMem, ConstSizeOrZero] False None False False 0),
     proto ''skb_load_bytes'' RT_Integer [PtrToCtx, Anything, PtrToWritableMem, ConstSize] False (Some SK_BUFF) False False 0,
     with_allowed_map_types (MT_STACK_TRACE) (proto ''get_stackid'' RT_Integer [PtrToCtx, PtrToMap, Anything] False None False False 0),
     proto ''csum_diff'' RT_Integer [PtrToReadableMemOrNull, ConstSizeOrZero, PtrToReadableMemOrNull, ConstSizeOrZero, Anything] False None False False 0]"

text \<open>Helpers 29 to 55.\<close>

definition PROTOTYPES_29 :: "linux_prototype list" where
  "PROTOTYPES_29 = [
     proto ''skb_get_tunnel_opt'' RT_Integer [PtrToCtx, PtrToWritableMem, ConstSize] False (Some SK_BUFF) False False 0,
     proto ''skb_set_tunnel_opt'' RT_Integer [PtrToCtx, PtrToReadableMem, ConstSize] False (Some SK_BUFF) False False 0,
     proto ''skb_change_proto'' RT_Integer [PtrToCtx, Anything, Anything] True (Some SK_BUFF) False False 0,
     proto ''skb_change_type'' RT_Integer [PtrToCtx, Anything] False (Some SK_BUFF) False False 0,
     with_allowed_map_types (MT_CGROUP_ARRAY) (proto ''skb_under_cgroup'' RT_Integer [PtrToCtx, PtrToMap, Anything] False (Some SK_BUFF) False False 0),
     proto ''get_hash_recalc'' RT_Integer [PtrToCtx] False (Some SK_BUFF) False False 0,
     proto_plain ''get_current_task'' RT_Integer,
     proto ''probe_write_user'' RT_Integer [Anything, PtrToReadableMem, ConstSize] False None False False 0,
     with_allowed_map_types (MT_CGROUP_ARRAY) (proto ''current_task_under_cgroup'' RT_Integer [PtrToMap, Anything] False None False False 0),
     proto ''skb_change_tail'' RT_Integer [PtrToCtx, Anything, Anything] True (Some SK_BUFF) False False 0,
     proto ''skb_pull_data'' RT_Integer [PtrToCtx, Anything] True (Some SK_BUFF) False False 0,
     proto ''csum_update'' RT_Integer [PtrToCtx, Anything] False (Some SK_BUFF) False False 0,
     proto ''set_hash_invalid'' RT_Integer [PtrToCtx] False (Some SK_BUFF) False False 0,
     proto_plain ''get_numa_node_id'' RT_Integer,
     proto ''skb_change_head'' RT_Integer [PtrToCtx, Anything, Anything] True (Some SK_BUFF) False False 0,
     proto ''xdp_adjust_head'' RT_Integer [PtrToCtx, Anything] True (Some XDP_MD) False False 0,
     proto ''probe_read_str'' RT_Integer [PtrToWritableMem, ConstSizeOrZero, Anything] False None False False 0,
     proto ''get_socket_cookie'' RT_Integer [PtrToCtx] False None False False 0,
     proto ''get_socket_uid'' RT_Integer [PtrToCtx] False (Some SK_BUFF) False False 0,
     proto ''set_hash'' RT_Integer [PtrToCtx, Anything] False (Some SK_BUFF) False False 0,
     proto ''setsockopt'' RT_Integer [PtrToCtx, Anything, Anything, PtrToReadableMem, ConstSize] False None False False 0,
     proto ''skb_adjust_room'' RT_Integer [PtrToCtx, Anything, Anything, Anything] True (Some SK_BUFF) False False 0,
     with_allowed_map_types (MT_DEVMAP OR MT_DEVMAP_HASH OR MT_CPUMAP OR MT_XSKMAP) (proto ''redirect_map'' RT_Integer [PtrToMap, Anything, Anything] False None False False 0),
     with_allowed_map_types (MT_SOCKMAP) (proto ''sk_redirect_map'' RT_Integer [PtrToCtx, PtrToMap, Anything, Anything] False (Some SK_BUFF) False False 0),
     with_allowed_map_types (MT_SOCKMAP) (proto ''sock_map_update'' RT_Integer [PtrToCtx, PtrToMap, PtrToMapKey, Anything, DontCare] False (Some SOCK_OPS_DESCR) False False 0),
     proto ''xdp_adjust_meta'' RT_Integer [PtrToCtx, Anything] True (Some XDP_MD) False False 0,
     with_allowed_map_types (MT_PERF_EVENT_ARRAY) (proto ''perf_event_read_value'' RT_Integer [PtrToMap, Anything, PtrToWritableMem, ConstSize] False None False False 0)]"

text \<open>Helpers 56 to 77.\<close>

definition PROTOTYPES_56 :: "linux_prototype list" where
  "PROTOTYPES_56 = [
     proto ''perf_prog_read_value'' RT_Integer [PtrToCtx, PtrToWritableMem, ConstSize] False (Some PERF_EVENT_DESCR) False False 0,
     proto ''getsockopt'' RT_Integer [PtrToCtx, Anything, Anything, PtrToWritableMem, ConstSize] False None False False 0,
     proto ''override_return'' RT_Integer [PtrToCtx, Anything] False None False False 0,
     proto ''sock_ops_cb_flags_set'' RT_Integer [PtrToCtx, Anything] False (Some SOCK_OPS_DESCR) False False 0,
     with_allowed_map_types (MT_SOCKMAP) (proto ''msg_redirect_map'' RT_Integer [PtrToCtx, PtrToMap, Anything, Anything] False (Some SK_MSG_MD) False False 0),
     proto ''msg_apply_bytes'' RT_Integer [PtrToCtx, Anything] False (Some SK_MSG_MD) False False 0,
     proto ''msg_cork_bytes'' RT_Integer [PtrToCtx, Anything] False (Some SK_MSG_MD) False False 0,
     proto ''msg_pull_data'' RT_Integer [PtrToCtx, Anything, Anything, Anything] True (Some SK_MSG_MD) False False 0,
     proto ''bind'' RT_Integer [PtrToCtx, PtrToReadableMem, ConstSize] False None False False 0,
     proto ''xdp_adjust_tail'' RT_Integer [PtrToCtx, Anything] True (Some XDP_MD) False False 0,
     proto ''skb_get_xfrm_state'' RT_Integer [PtrToCtx, Anything, PtrToWritableMem, ConstSize, Anything] False (Some SK_BUFF) False False 0,
     proto ''get_stack'' RT_Integer [PtrToCtx, PtrToWritableMem, ConstSizeOrZero, Anything] False None False False 0,
     proto ''skb_load_bytes_relative'' RT_Integer [PtrToCtx, Anything, PtrToWritableMem, ConstSize, Anything] False (Some SK_BUFF) False False 0,
     proto ''fib_lookup'' RT_Integer [PtrToCtx, PtrToReadableMem, ConstSize, Anything] False None False False 0,
     with_allowed_map_types (MT_SOCKHASH) (proto ''sock_hash_update'' RT_Integer [PtrToCtx, PtrToMap, PtrToMapKey, Anything, DontCare] False (Some SOCK_OPS_DESCR) False False 0),
     with_allowed_map_types (MT_SOCKHASH) (proto ''msg_redirect_hash'' RT_Integer [PtrToCtx, PtrToMap, PtrToMapKey, Anything] False (Some SK_MSG_MD) False False 0),
     with_allowed_map_types (MT_SOCKHASH) (proto ''sk_redirect_hash'' RT_Integer [PtrToCtx, PtrToMap, PtrToMapKey, Anything] False (Some SK_BUFF) False False 0),
     proto ''lwt_push_encap'' RT_Integer [PtrToCtx, Anything, PtrToReadableMem, ConstSize] True (Some SK_BUFF) False False 0,
     proto ''lwt_seg6_store_bytes'' RT_Integer [PtrToCtx, Anything, PtrToReadableMem, ConstSize] True (Some SK_BUFF) False False 0,
     proto ''lwt_seg6_adjust_srh'' RT_Integer [PtrToCtx, Anything, Anything] True (Some SK_BUFF) False False 0,
     proto ''lwt_seg6_action'' RT_Integer [PtrToCtx, Anything, PtrToReadableMem, ConstSize] True (Some SK_BUFF) False False 0,
     proto ''rc_repeat'' RT_Integer [PtrToCtx] False None False False 0]"

text \<open>Helpers 78 to 104.\<close>

definition PROTOTYPES_78 :: "linux_prototype list" where
  "PROTOTYPES_78 = [
     proto ''rc_keydown'' RT_Integer [PtrToCtx, Anything, Anything, Anything] False None False False 0,
     proto ''skb_cgroup_id'' RT_Integer [PtrToCtx] False (Some SK_BUFF) False False 0,
     proto_plain ''get_current_cgroup_id'' RT_Integer,
     with_allowed_map_types (MT_CGROUP_STORAGE OR MT_PERCPU_CGROUP_STORAGE) (proto ''get_local_storage'' RT_PtrToMapValueOrNull [PtrToMap, Anything] False None False False (push_bit 1 1)),
     with_allowed_map_types (MT_REUSEPORT_SOCKARRAY OR MT_SOCKMAP OR MT_SOCKHASH) (proto ''sk_select_reuseport'' RT_Integer [PtrToCtx, PtrToMap, PtrToMapKey, Anything] False None False False 0),
     proto ''skb_ancestor_cgroup_id'' RT_Integer [PtrToCtx, Anything] False (Some SK_BUFF) False False 0,
     proto ''sk_lookup_tcp'' RT_PtrToSockCommonOrNull [PtrToCtx, PtrToReadableMem, ConstSize, Anything, Anything] False None False False 0,
     proto ''sk_lookup_udp'' RT_PtrToSocketOrNull [PtrToCtx, PtrToReadableMem, ConstSize, Anything, Anything] False None False False 0,
     proto ''sk_release'' RT_Integer [PtrToBtfIdSockCommon] False None False False 0,
     with_allowed_map_types (MT_QUEUE OR MT_STACK OR MT_BLOOM_FILTER) (proto ''map_push_elem'' RT_Integer [PtrToMap, PtrToMapValue, Anything] False None False False 0),
     with_allowed_map_types (MT_QUEUE OR MT_STACK) (proto ''map_pop_elem'' RT_Integer [PtrToMap, PtrToMapValue] False None False False 0),
     with_allowed_map_types (MT_QUEUE OR MT_STACK OR MT_BLOOM_FILTER) (proto ''map_peek_elem'' RT_Integer [PtrToMap, PtrToMapValue] False None False False 0),
     proto ''msg_push_data'' RT_Integer [PtrToCtx, Anything, Anything, Anything] True (Some SK_MSG_MD) False False 0,
     proto ''msg_pop_data'' RT_Integer [PtrToCtx, Anything, Anything, Anything] True (Some SK_MSG_MD) False False 0,
     proto ''rc_pointer_rel'' RT_Integer [PtrToCtx, Anything, Anything] False None False False 0,
     proto ''spin_lock'' RT_Integer [PtrToSpinLock] False None False False 0,
     proto ''spin_unlock'' RT_Integer [PtrToSpinLock] False None False False 0,
     proto ''sk_fullsock'' RT_PtrToSocketOrNull [PtrToSockCommon] False None False False 0,
     proto ''tcp_sock'' RT_PtrToTcpSocketOrNull [PtrToSockCommon] False None False False 0,
     proto ''skb_ecn_set_ce'' RT_Integer [PtrToCtx] False None False False 0,
     proto ''get_listener_sock'' RT_PtrToTcpSocketOrNull [PtrToSockCommon] False None False False 0,
     proto ''skc_lookup_tcp'' RT_PtrToSockCommonOrNull [PtrToCtx, PtrToReadableMem, ConstSize, Anything, Anything] False None False False 0,
     proto ''tcp_check_syncookie'' RT_Integer [PtrToBtfIdSockCommon, PtrToReadableMem, ConstSize, PtrToReadableMem, ConstSize] False None False False 0,
     proto ''sysctl_get_name'' RT_Integer [PtrToCtx, PtrToReadableMem, ConstSize, Anything] False None False False 0,
     proto ''sysctl_get_current_value'' RT_Integer [PtrToCtx, PtrToWritableMem, ConstSize] False None False False 0,
     proto ''sysctl_get_new_value'' RT_Integer [PtrToCtx, PtrToWritableMem, ConstSize] False None False False 0,
     proto ''sysctl_set_new_value'' RT_Integer [PtrToCtx, PtrToReadableMem, ConstSize] False None False False 0]"

text \<open>Helpers 105 to 126.\<close>

definition PROTOTYPES_105 :: "linux_prototype list" where
  "PROTOTYPES_105 = [
     proto ''strtol'' RT_Integer [PtrToReadableMem, ConstSize, Anything, PtrToLong] False None False False 0,
     proto ''strtoul'' RT_Integer [PtrToReadableMem, ConstSize, Anything, PtrToLong] False None False False 0,
     with_allowed_map_types (MT_SK_STORAGE) (proto ''sk_storage_get'' RT_PtrToMapValueOrNull [PtrToMap, PtrToBtfIdSockCommon, PtrToMapValue, Anything] False None False False 0),
     with_allowed_map_types (MT_SK_STORAGE) (proto ''sk_storage_delete'' RT_Integer [PtrToMap, PtrToBtfIdSockCommon] False None False False 0),
     proto ''send_signal'' RT_Integer [Anything] False None False False 0,
     proto ''tcp_gen_syncookie'' RT_Integer [PtrToBtfIdSockCommon, PtrToReadableMem, ConstSize, PtrToReadableMem, ConstSize] False None False False 0,
     with_allowed_map_types (MT_PERF_EVENT_ARRAY) (proto ''skb_event_output'' RT_Integer [PtrToBtfId, PtrToMap, Anything, PtrToReadableMem, ConstSizeOrZero] False None False False 0),
     proto ''probe_read_user'' RT_Integer [PtrToWritableMem, ConstSizeOrZero, Anything] False None False False 0,
     proto ''probe_read_kernel'' RT_Integer [PtrToWritableMem, ConstSizeOrZero, Anything] False None False False 0,
     proto ''probe_read_user_str'' RT_Integer [PtrToWritableMem, ConstSizeOrZero, Anything] False None False False 0,
     proto ''probe_read_kernel_str'' RT_Integer [PtrToWritableMem, ConstSizeOrZero, Anything] False None False False 0,
     proto ''tcp_send_ack'' RT_Integer [PtrToBtfId, Anything] False None False False 0,
     proto ''send_signal_thread'' RT_Integer [Anything] False None False False 0,
     proto_plain ''jiffies64'' RT_Integer,
     proto ''read_branch_records'' RT_Integer [PtrToCtx, PtrToReadableMemOrNull, ConstSizeOrZero, Anything] False None False False 0,
     proto ''get_ns_current_pid_tgid'' RT_Integer [Anything, Anything, PtrToWritableMemOrNull, ConstSize] False None False False 0,
     with_allowed_map_types (MT_PERF_EVENT_ARRAY) (proto ''xdp_event_output'' RT_Integer [PtrToBtfId, PtrToMap, Anything, PtrToReadableMem, ConstSizeOrZero] False None False False 0),
     proto ''get_netns_cookie'' RT_Integer [PtrToCtxOrNull] False None False False 0,
     proto ''get_current_ancestor_cgroup_id'' RT_Integer [Anything] False None False False 0,
     proto ''sk_assign'' RT_Integer [PtrToCtx, PtrToBtfIdSockCommon, Anything] False None False False 0,
     proto_plain ''ktime_get_boot_ns'' RT_Integer,
     proto ''seq_printf'' RT_Integer [PtrToBtfId, PtrToReadableMem, ConstSize, PtrToReadableMemOrNull, ConstSizeOrZero] False None False False 0]"

text \<open>Helpers 127 to 151.\<close>

definition PROTOTYPES_127 :: "linux_prototype list" where
  "PROTOTYPES_127 = [
     proto ''seq_write'' RT_Integer [PtrToBtfId, PtrToReadableMem, ConstSizeOrZero] False None False False 0,
     proto ''sk_cgroup_id'' RT_Integer [PtrToBtfIdSockCommon] False None False False 0,
     proto ''sk_ancestor_cgroup_id'' RT_Integer [PtrToBtfIdSockCommon, Anything] False None False False 0,
     with_allowed_map_types (MT_RINGBUF) (proto ''ringbuf_output'' RT_Integer [PtrToMap, PtrToReadableMem, ConstSizeOrZero, Anything] False None False False 0),
     with_allowed_map_types (MT_RINGBUF) (proto ''ringbuf_reserve'' RT_PtrToAllocMemOrNull [PtrToMap, ConstAllocSizeOrZero, Anything] False None False False 0),
     proto ''ringbuf_submit'' RT_Integer [PtrToAllocMem, Anything] False None False False 0,
     proto ''ringbuf_discard'' RT_Integer [PtrToAllocMem, Anything] False None False False 0,
     with_allowed_map_types (MT_RINGBUF) (proto ''ringbuf_query'' RT_Integer [PtrToMap, Anything] False None False False 0),
     proto ''csum_level'' RT_Integer [PtrToCtx, Anything] False None False False 0,
     proto ''skc_to_tcp6_sock'' RT_PtrToBtfIdOrNull [PtrToBtfIdSockCommon] False None False False 0,
     proto ''skc_to_tcp_sock'' RT_PtrToBtfIdOrNull [PtrToBtfIdSockCommon] False None False False 0,
     proto ''skc_to_tcp_timewait_sock'' RT_PtrToBtfIdOrNull [PtrToBtfIdSockCommon] False None False False 0,
     proto ''skc_to_tcp_request_sock'' RT_PtrToBtfIdOrNull [PtrToBtfIdSockCommon] False None False False 0,
     proto ''skc_to_udp6_sock'' RT_PtrToBtfIdOrNull [PtrToBtfIdSockCommon] False None False False 0,
     proto ''get_task_stack'' RT_Integer [PtrToBtfId, PtrToWritableMem, ConstSizeOrZero, Anything] False None False False 0,
     proto ''load_hdr_opt'' RT_Integer [PtrToCtx, PtrToWritableMem, ConstSize, Anything] False (Some SOCK_OPS_DESCR) False False 0,
     proto ''store_hdr_opt'' RT_Integer [PtrToCtx, PtrToReadableMem, ConstSize, Anything] True (Some SOCK_OPS_DESCR) False False 0,
     proto ''reserve_hdr_opt'' RT_Integer [PtrToCtx, Anything, Anything] False (Some SOCK_OPS_DESCR) False False 0,
     with_allowed_map_types (MT_INODE_STORAGE) (proto ''inode_storage_get'' RT_PtrToMapValueOrNull [PtrToMap, PtrToBtfId, PtrToMapValue, Anything] False None False False 0),
     with_allowed_map_types (MT_INODE_STORAGE) (proto ''inode_storage_delete'' RT_Integer [PtrToMap, PtrToBtfId] False None False False 0),
     proto ''d_path'' RT_Integer [PtrToBtfId, PtrToReadableMem, ConstSizeOrZero] False None False True 0,
     proto ''copy_from_user'' RT_Integer [PtrToWritableMem, ConstSizeOrZero, Anything] False None False True 0,
     proto ''snprintf_btf'' RT_Integer [PtrToReadableMem, ConstSize, PtrToReadableMem, ConstSize, Anything] False None False False 0,
     proto ''seq_printf_btf'' RT_Integer [PtrToBtfId, PtrToReadableMem, ConstSizeOrZero, Anything] False None False False 0,
     proto ''skb_cgroup_classid'' RT_Integer [PtrToCtx] False None False False 0]"

text \<open>Helpers 152 to 181.\<close>

definition PROTOTYPES_152 :: "linux_prototype list" where
  "PROTOTYPES_152 = [
     proto ''redirect_neigh'' RT_Integer [Anything, PtrToReadableMemOrNull, ConstSizeOrZero, Anything] False None False False 0,
     proto ''per_cpu_ptr'' RT_PtrToMemOrBtfIdOrNull [PtrToPercpuBtfId, Anything] False None False False 0,
     proto ''this_cpu_ptr'' RT_PtrToMemOrBtfId [PtrToPercpuBtfId] False None False False 0,
     proto ''redirect_peer'' RT_Integer [Anything, Anything] False None False False 0,
     with_allowed_map_types (MT_TASK_STORAGE) (proto ''task_storage_get'' RT_PtrToMapValueOrNull [PtrToMap, PtrToBtfId, PtrToMapValue, Anything] False None False False 0),
     with_allowed_map_types (MT_TASK_STORAGE) (proto ''task_storage_delete'' RT_Integer [PtrToMap, PtrToBtfId] False None False False 0),
     proto_plain ''get_current_task_btf'' RT_PtrToBtfId,
     proto ''bprm_opts_set'' RT_Integer [PtrToBtfId, Anything] False None False False 0,
     proto_plain ''ktime_get_coarse_ns'' RT_Integer,
     proto ''ima_inode_hash'' RT_Integer [PtrToBtfId, PtrToWritableMem, ConstSize] False None False True 0,
     proto ''sock_from_file'' RT_PtrToBtfIdOrNull [PtrToBtfId] False None False False 0,
     proto ''check_mtu'' RT_Integer [PtrToCtx, Anything, PtrToInt, Anything, Anything] False None False False 0,
     proto ''for_each_map_elem'' RT_Integer [PtrToMap, PtrToFunc, PtrToStackOrNull, Anything] False None False False 0,
     proto ''snprintf'' RT_Integer [PtrToReadableMemOrNull, ConstSizeOrZero, Unsupported, PtrToReadableMemOrNull, ConstSizeOrZero] False None False False 0,
     proto ''sys_bpf'' RT_Integer [Anything, PtrToReadableMem, ConstSize] False None False False 0,
     proto ''btf_find_by_name_kind'' RT_Integer [PtrToReadableMem, ConstSize, Anything, Anything] False None False False 0,
     proto ''sys_close'' RT_Integer [Anything] False None False False 0,
     proto ''timer_init'' RT_Integer [PtrToTimer, PtrToMap, Anything] False None False False 0,
     proto ''timer_set_callback'' RT_Integer [PtrToTimer, PtrToFunc] False None False False 0,
     proto ''timer_start'' RT_Integer [PtrToTimer, Anything, Anything] False None False False 0,
     proto ''timer_cancel'' RT_Integer [PtrToTimer] False None False False 0,
     proto ''get_func_ip'' RT_Integer [PtrToCtx] False None False False 0,
     proto ''get_attach_cookie'' RT_Integer [PtrToCtx] False None False False 0,
     proto ''task_pt_regs'' RT_PtrToBtfId [PtrToBtfId] False None False False 0,
     proto ''get_branch_snapshot'' RT_Integer [PtrToWritableMem, ConstSizeOrZero] False None False False 0,
     proto ''trace_vprintk'' RT_Integer [PtrToReadableMem, ConstSize, PtrToReadableMemOrNull, ConstSizeOrZero] False None False False 0,
     proto ''skc_to_unix_sock'' RT_PtrToBtfIdOrNull [PtrToBtfIdSockCommon] False None False False 0,
     proto ''kallsyms_lookup_name'' RT_Integer [PtrToReadableMem, ConstSizeOrZero, Anything, PtrToLong] False None False False 0,
     proto ''find_vma'' RT_Integer [PtrToBtfId, Anything, PtrToFunc, PtrToStackOrNull, Anything] False None False False 0,
     proto ''loop'' RT_Integer [Anything, PtrToFunc, PtrToStackOrNull, Anything] False None False False 0]"

text \<open>Helpers 182 to 203.\<close>

definition PROTOTYPES_182 :: "linux_prototype list" where
  "PROTOTYPES_182 = [
     proto ''strncmp'' RT_Integer [PtrToReadableMem, ConstSize, Unsupported] False None False False 0,
     proto ''get_func_arg'' RT_Integer [PtrToCtx, Anything, PtrToLong] False None False False 0,
     proto ''get_func_ret'' RT_Integer [PtrToCtx, PtrToLong] False None False False 0,
     proto ''get_func_arg_cnt'' RT_Integer [PtrToCtx] False None False False 0,
     proto_plain ''get_retval'' RT_Integer,
     proto ''set_retval'' RT_Integer [Anything] False None False False 0,
     proto ''xdp_get_buff_len'' RT_Integer [PtrToCtx] False (Some XDP_MD) False False 0,
     proto ''xdp_load_bytes'' RT_Integer [PtrToCtx, Anything, PtrToWritableMem, ConstSize] False (Some XDP_MD) False False 0,
     proto ''xdp_store_bytes'' RT_Integer [PtrToCtx, Anything, PtrToReadableMem, ConstSize] False (Some XDP_MD) False False 0,
     proto ''copy_from_user_task'' RT_Integer [PtrToWritableMem, ConstSizeOrZero, Anything, PtrToBtfId, Anything] False None False True 0,
     proto ''skb_set_tstamp'' RT_Integer [PtrToCtx, Anything, Anything] False (Some SK_BUFF) False False 0,
     proto ''ima_file_hash'' RT_Integer [PtrToBtfId, PtrToWritableMem, ConstSize] False None False True 0,
     proto ''kptr_xchg'' RT_PtrToBtfIdOrNull [PtrToMapValue, PtrToBtfId] False None False False 0,
     with_allowed_map_types (MT_PERCPU_ARRAY OR MT_PERCPU_HASH OR MT_LRU_PERCPU_HASH) (proto ''map_lookup_percpu_elem'' RT_PtrToMapValueOrNull [PtrToMap, PtrToMapKey, Anything, DontCare, DontCare] False None False False 0),
     proto ''skc_to_mptcp_sock'' RT_PtrToBtfIdOrNull [PtrToBtfIdSockCommon] False None False False 0,
     proto ''dynptr_from_mem'' RT_Integer [PtrToMapValue, Anything, Anything, PtrToWritableMem] False None True False 0,
     with_allowed_map_types (MT_RINGBUF) (proto ''ringbuf_reserve_dynptr'' RT_PtrToAllocMemOrNull [PtrToMap, Anything, Anything, Anything] False None True False 0),
     proto ''ringbuf_submit_dynptr'' RT_Integer [Anything, Anything] False None True False 0,
     proto ''ringbuf_discard_dynptr'' RT_Integer [Anything, Anything] False None True False 0,
     proto ''dynptr_read'' RT_Integer [PtrToWritableMem, ConstSize, PtrToReadableMem, Anything, Anything] False None True False 0,
     proto ''dynptr_write'' RT_Integer [PtrToWritableMem, Anything, PtrToReadableMem, ConstSize, Anything] False None True False 0,
     proto ''dynptr_data'' RT_PtrToMemOrBtfIdOrNull [PtrToReadableMem, Anything, Anything] False None True False 0]"

text \<open>Helpers 204 to 211.\<close>

definition PROTOTYPES_204 :: "linux_prototype list" where
  "PROTOTYPES_204 = [
     proto ''tcp_raw_gen_syncookie_ipv4'' RT_Integer [PtrToReadableMem, PtrToReadableMem, Anything] False None False False 0,
     proto ''tcp_raw_gen_syncookie_ipv6'' RT_Integer [PtrToReadableMem, PtrToReadableMem, Anything] False None False False 0,
     proto ''tcp_raw_check_syncookie_ipv4'' RT_Integer [PtrToReadableMem, PtrToReadableMem] False None False False 0,
     proto ''tcp_raw_check_syncookie_ipv6'' RT_Integer [PtrToReadableMem, PtrToReadableMem] False None False False 0,
     proto_plain ''ktime_get_tai_ns'' RT_Integer,
     with_allowed_map_types (MT_USER_RINGBUF) (proto ''user_ringbuf_drain'' RT_Integer [PtrToMap, PtrToFunc, PtrToStackOrNull, Anything] False None True False 0),
     with_allowed_map_types (MT_CGRP_STORAGE) (proto ''cgrp_storage_get'' RT_PtrToMapValueOrNull [PtrToMap, PtrToBtfId, PtrToMapValue, Anything] False None False False 0),
     with_allowed_map_types (MT_CGRP_STORAGE) (proto ''cgrp_storage_delete'' RT_Integer [PtrToMap, PtrToBtfId] False None False False 0)]"

definition PROTOTYPES :: "linux_prototype list" where
  "PROTOTYPES = PROTOTYPES_0 @ PROTOTYPES_29 @ PROTOTYPES_56 @ PROTOTYPES_78 @ PROTOTYPES_105 @ PROTOTYPES_127 @ PROTOTYPES_152 @ PROTOTYPES_182 @ PROTOTYPES_204"

subsection \<open>Lookup\<close>

definition linux_get_helper_prototype :: "int \<Rightarrow> linux_prototype option" where
  "linux_get_helper_prototype n =
     do { assert_that (0 \<le> n \<and> n < int (length PROTOTYPES)); Some (PROTOTYPES ! nat n) }"

definition linux_try_get_helper_prototype :: "int \<Rightarrow> linux_prototype option" where
  "linux_try_get_helper_prototype n =
     (if 0 \<le> n \<and> n < int (length PROTOTYPES) then Some (PROTOTYPES ! nat n) else None)"

definition strip_prefix :: "string \<Rightarrow> string \<Rightarrow> string option" where
  "strip_prefix pre s = (if take (length pre) s = pre then Some (drop (length pre) s) else None)"

fun helper_index :: "string \<Rightarrow> int \<Rightarrow> linux_prototype list \<Rightarrow> int option" where
  "helper_index candidate i [] = None"
| "helper_index candidate i (p # ps) =
     (if candidate = proto_name p then Some i else helper_index candidate (i + 1) ps)"

definition resolve_helper_id :: "string \<Rightarrow> int option" where
  "resolve_helper_id name =
     (let candidate = (case strip_prefix ''bpf_'' name of
            Some rest \<Rightarrow> rest
          | None \<Rightarrow> (case strip_prefix ''ebpf_'' name of Some rest \<Rightarrow> rest | None \<Rightarrow> name))
      in helper_index candidate 0 PROTOTYPES)"

definition linux_is_helper_usable :: "int \<Rightarrow> ctx_descriptor option \<Rightarrow> string option \<Rightarrow> bool \<Rightarrow> bool" where
  "linux_is_helper_usable n program_context program_type_name is_sleepable =
     (if n < 0 \<or> n \<ge> int (length PROTOTYPES) then False
      else
        let p = PROTOTYPES ! nat n
        in if lp_unsupported p then False
           else if lp_might_sleep p \<and> \<not> is_sleepable then False
           else if n = 46 \<and> program_type_name \<notin> Some ` {''socket_filter'', ''sched_act'', ''sched_cls'', ''sk_skb'',
               ''cgroup_skb'', ''cgroup_sock'', ''cgroup_sock_addr'', ''sock_ops'', ''sk_reuseport'', ''tracing''}
           then False
           else case (lp_ctx_descriptor p, program_context) of
               (Some required_ctx, Some prog_ctx) \<Rightarrow> required_ctx = prog_ctx
             | (Some _, None) \<Rightarrow> False
             | (None, _) \<Rightarrow> True)"

end
