(* ===== verification/Linux_Kfunc.thy ===== *)
theory Linux_Kfunc
  imports Linux_Helpers
begin

text \<open>
  \<open>src/linux/kfunc.rs\<close>: the prototypes of the kernel functions, keyed by BTF identifier and module,
  and their resolution to calls.  An error is the message of the source.
\<close>

unbundle bit_operations_syntax

subsection \<open>Prototypes\<close>

definition KFUNC_FLAG_NONE :: "32 word" where "KFUNC_FLAG_NONE = 0"
definition KFUNC_FLAG_ACQUIRE :: "32 word" where "KFUNC_FLAG_ACQUIRE = push_bit 0 1"
definition KFUNC_FLAG_RELEASE :: "32 word" where "KFUNC_FLAG_RELEASE = push_bit 1 1"
definition KFUNC_FLAG_DESTRUCTIVE :: "32 word" where "KFUNC_FLAG_DESTRUCTIVE = push_bit 2 1"
definition KFUNC_FLAG_TRUSTED_ARGS :: "32 word" where "KFUNC_FLAG_TRUSTED_ARGS = push_bit 3 1"
definition KFUNC_FLAG_SLEEPABLE :: "32 word" where "KFUNC_FLAG_SLEEPABLE = push_bit 4 1"

record kfunc_entry =
  kf_btf_id :: int
  kf_module :: int
  kf_proto :: linux_prototype
  kf_flags :: "32 word"
  kf_required_program_type :: string
  kf_requires_privileged :: bool

definition kfunc_new :: "int \<Rightarrow> string \<Rightarrow> ebpf_return_type \<Rightarrow> kfunc_entry" where
  "kfunc_new btf_id name return_type =
     \<lparr>kf_btf_id = btf_id, kf_module = 0,
      kf_proto = \<lparr>proto_name = name, proto_return_type = return_type,
        proto_argument_type = replicate 5 DontCare, proto_reallocate_packet = False,
        proto_zero_args_mask = 0, proto_allowed_map_types = 0, lp_ctx_descriptor = None,
        lp_unsupported = False, lp_might_sleep = False\<rparr>,
      kf_flags = KFUNC_FLAG_NONE, kf_required_program_type = [], kf_requires_privileged = False\<rparr>"

definition with_args :: "ebpf_argument_type list \<Rightarrow> kfunc_entry \<Rightarrow> kfunc_entry" where
  "with_args args e =
     e\<lparr>kf_proto := (kf_proto e)\<lparr>proto_argument_type :=
         take 5 args @ drop (length args) (proto_argument_type (kf_proto e))\<rparr>\<rparr>"

definition with_flags :: "32 word \<Rightarrow> kfunc_entry \<Rightarrow> kfunc_entry" where
  "with_flags flags e = e\<lparr>kf_flags := flags\<rparr>"

definition with_program :: "string \<Rightarrow> kfunc_entry \<Rightarrow> kfunc_entry" where
  "with_program program e = e\<lparr>kf_required_program_type := program\<rparr>"

definition kfunc_privileged :: "kfunc_entry \<Rightarrow> kfunc_entry" where
  "kfunc_privileged e = e\<lparr>kf_requires_privileged := True\<rparr>"

definition in_module :: "int \<Rightarrow> kfunc_entry \<Rightarrow> kfunc_entry" where
  "in_module module e = e\<lparr>kf_module := module\<rparr>"

definition KFUNC_PROTOTYPES :: "kfunc_entry list" where
  "KFUNC_PROTOTYPES =
    [kfunc_new 12 ''kfunc_test_id_overlap_tail_call'' RT_Integer,
     kfunc_new 1000 ''kfunc_test_ret_int'' RT_Integer,
     in_module 1 (kfunc_new 1000 ''kfunc_test_ret_int_other_module'' RT_Integer),
     with_args [PtrToCtx] (kfunc_new 1001 ''kfunc_test_ctx_arg'' RT_Integer),
     with_flags KFUNC_FLAG_ACQUIRE (kfunc_new 1002 ''kfunc_test_acquire_flag'' RT_Integer),
     with_program ''xdp'' (kfunc_new 1003 ''kfunc_test_xdp_only'' RT_Integer),
     kfunc_privileged (kfunc_new 1004 ''kfunc_test_privileged_only'' RT_Integer),
     kfunc_new 1005 ''kfunc_test_ret_map_value_or_null'' RT_PtrToMapValueOrNull,
     with_args [PtrToReadableMemOrNull, ConstSizeOrZero]
       (kfunc_new 1006 ''kfunc_test_readable_mem_or_null_size'' RT_Integer),
     with_args [PtrToWritableMem, ConstSize]
       (kfunc_new 1007 ''kfunc_test_writable_mem_size'' RT_Integer),
     with_flags KFUNC_FLAG_RELEASE (kfunc_new 1008 ''kfunc_test_release_flag'' RT_Integer),
     with_flags KFUNC_FLAG_ACQUIRE (kfunc_new 1009 ''bpf_cpumask_create'' RT_Integer),
     kfunc_new 1010 ''bpf_cpumask_release'' RT_Integer]"

text \<open>The compile-time check of the table.\<close>

fun kfunc_sorted_by_key :: "kfunc_entry list \<Rightarrow> bool" where
  "kfunc_sorted_by_key (a # b # es) =
     (if kf_btf_id a > kf_btf_id b then False
      else if kf_btf_id a = kf_btf_id b \<and> kf_module a \<ge> kf_module b then False
      else kfunc_sorted_by_key (b # es))"
| "kfunc_sorted_by_key es = True"

definition kfunc_prototypes_are_sorted_by_key :: bool where
  "kfunc_prototypes_are_sorted_by_key = kfunc_sorted_by_key KFUNC_PROTOTYPES"

subsection \<open>Lookup\<close>

text \<open>\<open>slice::partition_point\<close> of the standard library: the binary search for the first element
  that fails the predicate, by halving the range from \<open>base\<close> of length \<open>n\<close>.\<close>

function partition_search :: "('a \<Rightarrow> bool) \<Rightarrow> 'a list \<Rightarrow> nat \<Rightarrow> nat \<Rightarrow> nat" where
  "partition_search P es base n =
     (if n = 0 then base
      else
        let half = n div 2
        in if P (es ! (base + half)) then partition_search P es (base + half + 1) (n - half - 1)
           else partition_search P es base half)"
  by pat_completeness auto
termination by (relation "measure (\<lambda>(P, es, base, n). n)") auto

declare partition_search.simps [simp del]

definition partition_point :: "('a \<Rightarrow> bool) \<Rightarrow> 'a list \<Rightarrow> nat" where
  "partition_point P es = partition_search P es 0 (length es)"

definition lookup_in :: "kfunc_entry list \<Rightarrow> int \<Rightarrow> int \<Rightarrow> kfunc_entry option" where
  "lookup_in es btf_id module =
     (let start = partition_point (\<lambda>e. kf_btf_id e < btf_id) es
      in find (\<lambda>e. kf_module e = module) (takeWhile (\<lambda>e. kf_btf_id e = btf_id) (drop start es)))"

definition lookup_kfunc_prototype :: "int \<Rightarrow> int \<Rightarrow> kfunc_entry option" where
  "lookup_kfunc_prototype btf_id module = lookup_in KFUNC_PROTOTYPES btf_id module"

subsection \<open>Resolution\<close>

function kfunc_args :: "string \<Rightarrow> ebpf_argument_type list \<Rightarrow> nat \<Rightarrow> call \<Rightarrow> string + call" where
  "kfunc_args name args i res =
     (if i < length args - 1
      then case process_arg (contract res) args i of
          (Single, c) \<Rightarrow> kfunc_args name args (i + 1) (res\<lparr>contract := c\<rparr>)
        | (Pair, c) \<Rightarrow> kfunc_args name args (i + 2) (res\<lparr>contract := c\<rparr>)
        | (Stop, c) \<Rightarrow> Inr (res\<lparr>contract := c\<rparr>)
        | (Unavailable, c) \<Rightarrow> Inl (''kfunc argument type is unsupported on this platform: '' @ name)
        | (MismatchedSize, c) \<Rightarrow>
            Inl (''mismatched kfunc EBPF_ARGUMENT_TYPE_PTR_TO* and EBPF_ARGUMENT_TYPE_CONST_SIZE: '' @ name)
      else Inr res)"
  by pat_completeness auto
termination
  by (relation "measure (\<lambda>(name, args, i, res). length args - i)") auto

declare kfunc_args.simps [simp del]

text \<open>Of the program information only the program type is used.\<close>

definition program_error :: "kfunc_entry \<Rightarrow> program_type option \<Rightarrow> string option" where
  "program_error entry info =
     (case info of
        None \<Rightarrow> None
      | Some pt \<Rightarrow>
          if kf_required_program_type entry \<noteq> [] \<and> pt_name pt \<noteq> kf_required_program_type entry
          then Some (''kfunc is unavailable for program type '' @ pt_name pt @ '': '' @
                     proto_name (kf_proto entry))
          else if kf_requires_privileged entry \<and> \<not> pt_is_privileged pt
          then Some (''kfunc requires privileged program type: '' @ proto_name (kf_proto entry))
          else None)"

definition entry_call :: "32 word \<Rightarrow> 16 word \<Rightarrow> kfunc_entry \<Rightarrow> string + call" where
  "entry_call btf_id module entry =
     (let p = kf_proto entry;
          res = \<lparr>call_func = btf_id, call_kind = Kfunc, call_module = module,
            call_name = proto_name p, is_supported = True, unsupported_reason = [],
            contract = contract_default
              \<lparr>is_map_lookup := (proto_return_type p = RT_PtrToMapValueOrNull),
               reallocate_packet := proto_reallocate_packet p,
               zero_args_mask := proto_zero_args_mask p,
               allowed_map_types := proto_allowed_map_types p\<rparr>,
            call_prefix = []\<rparr>
      in case apply_return_type (contract res) (proto_return_type p) of
           (RT_Unavailable, c) \<Rightarrow>
             Inl (''kfunc return type is unsupported on this platform: '' @ proto_name p)
         | (RT_Ok, c) \<Rightarrow>
             kfunc_args (proto_name p) (padded_args (proto_argument_type p)) 1 (res\<lparr>contract := c\<rparr>))"

definition accepted_flags :: "32 word" where
  "accepted_flags = KFUNC_FLAG_ACQUIRE OR KFUNC_FLAG_DESTRUCTIVE OR KFUNC_FLAG_TRUSTED_ARGS OR
     KFUNC_FLAG_SLEEPABLE"

definition make_kfunc_call_result ::
  "32 word \<Rightarrow> 16 word \<Rightarrow> program_type option \<Rightarrow> string + call" where
  "make_kfunc_call_result btf_id module info =
     (case lookup_kfunc_prototype (sint btf_id) (sint module) of
        None \<Rightarrow>
          Inl (if module \<noteq> 0
               then ''kfunc prototype lookup failed for BTF id '' @ int_string (sint btf_id) @
                    '' in module '' @ int_string (sint module)
               else ''kfunc prototype lookup failed for BTF id '' @ int_string (sint btf_id))
      | Some entry \<Rightarrow>
          let p = kf_proto entry
          in if kf_flags entry AND NOT accepted_flags \<noteq> KFUNC_FLAG_NONE
             then Inl (''kfunc has unsupported flags (release requires lifecycle tracking): '' @ proto_name p)
             else case program_error entry info of
                 Some e \<Rightarrow> Inl e
               | None \<Rightarrow>
                   if lp_unsupported p \<or> proto_return_type p = RT_Unsupported
                   then Inl (''kfunc prototype is unavailable on this platform: '' @ proto_name p)
                   else entry_call btf_id module entry)"

subsection \<open>The lookup finds exactly the entries of a sorted table\<close>

definition key_less :: "kfunc_entry \<Rightarrow> kfunc_entry \<Rightarrow> bool" where
  "key_less a b \<longleftrightarrow> kf_btf_id a < kf_btf_id b \<or> kf_btf_id a = kf_btf_id b \<and> kf_module a < kf_module b"

lemma key_less_trans: "transp key_less"
  by (auto simp: transp_def key_less_def)

lemma sorted_by_key_wrt: "kfunc_sorted_by_key es \<longleftrightarrow> sorted_wrt key_less es"
proof (induction es rule: kfunc_sorted_by_key.induct)
  case (1 a b es)
  show ?case
  proof (cases "key_less a b")
    case True
    then have "kfunc_sorted_by_key (a # b # es) \<longleftrightarrow> kfunc_sorted_by_key (b # es)"
      by (auto simp: key_less_def)
    moreover have "kfunc_sorted_by_key (b # es) \<longleftrightarrow> sorted_wrt key_less (b # es)"
      by (rule "1.IH") (use True in \<open>auto simp: key_less_def\<close>)
    ultimately show ?thesis using True sorted_wrt2 [OF key_less_trans, of a b es] by blast
  next
    case False
    then show ?thesis by (auto simp: key_less_def)
  qed
qed auto

lemma partition_search_step:
  "n \<noteq> 0 \<Longrightarrow> partition_search P es base n =
     (if P (es ! (base + n div 2)) then partition_search P es (base + n div 2 + 1) (n - n div 2 - 1)
      else partition_search P es base (n div 2))"
  by (subst partition_search.simps) (simp add: Let_def)

lemma partition_search_spec:
  assumes "\<And>i j. \<lbrakk>i \<le> j; j < length es; P (es ! j)\<rbrakk> \<Longrightarrow> P (es ! i)"
    and "base + n \<le> length es" "\<And>i. i < base \<Longrightarrow> P (es ! i)"
    and "\<And>i. \<lbrakk>base + n \<le> i; i < length es\<rbrakk> \<Longrightarrow> \<not> P (es ! i)"
  shows "partition_search P es base n \<le> length es \<and>
    (\<forall>i < length es. P (es ! i) \<longleftrightarrow> i < partition_search P es base n)"
  using assms(2-)
proof (induction n arbitrary: base rule: less_induct)
  case (less n)
  show ?case
  proof (cases "n = 0")
    case True
    have "P (es ! i) \<longleftrightarrow> i < base" if "i < length es" for i
      using less.prems(2) [of i] less.prems(3) [of i] True that by (cases "i < base") auto
    then show ?thesis using less.prems(1) True by (simp add: partition_search.simps [of P es base 0])
  next
    case False
    let ?h = "n div 2"
    have h: "?h < n" "base + ?h < length es" using False less.prems(1) by auto
    show ?thesis
    proof (cases "P (es ! (base + ?h))")
      case True
      have "P (es ! i)" if "i < base + ?h + 1" for i
        by (rule assms(1) [of i "base + ?h"]) (use h True that in auto)
      then have "partition_search P es (base + ?h + 1) (n - ?h - 1) \<le> length es \<and>
          (\<forall>i < length es. P (es ! i) \<longleftrightarrow> i < partition_search P es (base + ?h + 1) (n - ?h - 1))"
        using h less.prems(1,3) by (intro less.IH) auto
      then show ?thesis using partition_search_step [OF False, of P es base] True by simp
    next
      case f: False
      have "\<not> P (es ! i)" if "base + ?h \<le> i" "i < length es" for i
        using assms(1) [of "base + ?h" i] f that by auto
      then have "partition_search P es base ?h \<le> length es \<and>
          (\<forall>i < length es. P (es ! i) \<longleftrightarrow> i < partition_search P es base ?h)"
        using h less.prems(1,2) by (intro less.IH) auto
      then show ?thesis using partition_search_step [OF False, of P es base] f by simp
    qed
  qed
qed

lemma partition_point_spec:
  assumes "\<And>i j. \<lbrakk>i \<le> j; j < length es; P (es ! j)\<rbrakk> \<Longrightarrow> P (es ! i)"
  shows "partition_point P es \<le> length es"
    "i < length es \<Longrightarrow> P (es ! i) \<longleftrightarrow> i < partition_point P es"
  using partition_search_spec [of es P 0 "length es"] assms by (auto simp: partition_point_def)

lemma partition_point_split:
  assumes "\<And>i j. \<lbrakk>i \<le> j; j < length es; P (es ! j)\<rbrakk> \<Longrightarrow> P (es ! i)"
  shows "filter (\<lambda>e. \<not> P e) es = drop (partition_point P es) es"
proof -
  let ?p = "partition_point P es"
  have 1: "\<forall>e\<in>set (take ?p es). P e" "\<forall>e\<in>set (drop ?p es). \<not> P e"
    using partition_point_spec [of es P] assms by (auto simp: in_set_conv_nth)
  have "filter (\<lambda>e. \<not> P e) (take ?p es @ drop ?p es) = drop ?p es"
    using 1 unfolding filter_append by simp
  then show ?thesis by simp
qed

lemma takeWhile_sorted:
  assumes "sorted_wrt key_less es" "\<And>e. e \<in> set es \<Longrightarrow> b \<le> kf_btf_id e"
  shows "takeWhile (\<lambda>e. kf_btf_id e = b) es = filter (\<lambda>e. kf_btf_id e = b) es"
  using assms
proof (induction es)
  case (Cons a es)
  show ?case
  proof (cases "kf_btf_id a = b")
    case False
    then have "kf_btf_id e \<noteq> b" if "e \<in> set es" for e
      using Cons.prems that by (force simp: key_less_def)
    then have "filter (\<lambda>e. kf_btf_id e = b) es = []" by (simp add: filter_empty_conv)
    then show ?thesis using False by simp
  qed (use Cons in auto)
qed simp

lemma find_unique:
  assumes "\<And>x y. \<lbrakk>x \<in> set xs; y \<in> set xs; Q x; Q y\<rbrakk> \<Longrightarrow> x = y"
  shows "find Q xs = Some e \<longleftrightarrow> e \<in> set xs \<and> Q e"
  using assms by (induction xs) (auto split: if_splits)

lemma sorted_key_unique:
  assumes "sorted_wrt key_less es" "x \<in> set es" "y \<in> set es" "kf_btf_id x = kf_btf_id y"
    "kf_module x = kf_module y"
  shows "x = y"
proof -
  obtain i j where ij: "i < length es" "x = es ! i" "j < length es" "y = es ! j"
    using assms(2,3) by (auto simp: in_set_conv_nth)
  have "\<not> key_less x y" "\<not> key_less y x" using assms(4,5) by (auto simp: key_less_def)
  then have "\<not> i < j" "\<not> j < i" using assms(1) ij by (auto simp: sorted_wrt_iff_nth_less)
  then show ?thesis using ij by simp
qed

lemma lookup_in_exact:
  assumes "kfunc_sorted_by_key es"
  shows "lookup_in es b m = Some e \<longleftrightarrow> e \<in> set es \<and> kf_btf_id e = b \<and> kf_module e = m"
proof -
  let ?P = "\<lambda>e. kf_btf_id e < b"
  have s: "sorted_wrt key_less es" using assms by (simp add: sorted_by_key_wrt)
  have mono: "?P (es ! i)" if "i \<le> j" "j < length es" "?P (es ! j)" for i j
  proof (cases "i = j")
    case False
    then have "key_less (es ! i) (es ! j)" using s that by (simp add: sorted_wrt_iff_nth_less)
    then show ?thesis using that by (auto simp: key_less_def)
  qed (use that in auto)
  have d: "drop (partition_point ?P es) es = filter (\<lambda>e. b \<le> kf_btf_id e) es"
    using partition_point_split [of es ?P] mono by (simp add: not_less)
  have "takeWhile (\<lambda>e. kf_btf_id e = b) (filter (\<lambda>e. b \<le> kf_btf_id e) es) =
      filter (\<lambda>e. kf_btf_id e = b) (filter (\<lambda>e. b \<le> kf_btf_id e) es)"
    by (rule takeWhile_sorted) (use s in \<open>auto intro: sorted_wrt_filter\<close>)
  then show ?thesis
    unfolding lookup_in_def Let_def d
    using find_unique [of "filter (\<lambda>e. kf_btf_id e = b) (filter (\<lambda>e. b \<le> kf_btf_id e) es)"
        "\<lambda>e. kf_module e = m" e] sorted_key_unique [OF s] by auto
qed

lemmas kfunc_table_defs = KFUNC_PROTOTYPES_def kfunc_new_def with_args_def with_flags_def
  with_program_def kfunc_privileged_def in_module_def

lemma kfunc_table_sorted: "kfunc_sorted_by_key KFUNC_PROTOTYPES"
  by (simp add: kfunc_table_defs)

lemma lookup_kfunc_exact:
  "lookup_kfunc_prototype b m = Some e \<longleftrightarrow> e \<in> set KFUNC_PROTOTYPES \<and> kf_btf_id e = b \<and> kf_module e = m"
  by (simp add: lookup_kfunc_prototype_def lookup_in_exact kfunc_table_sorted)

subsection \<open>Resolution\<close>

lemma process_arg_stop:
  "process_arg c args i = (r, c') \<Longrightarrow> r \<in> {Single, Pair} \<Longrightarrow> args ! i \<noteq> DontCare"
  "process_arg c args i = (Stop, c') \<Longrightarrow> args ! i = DontCare"
  by (cases "args ! i"; auto simp: process_arg_def Let_def split: if_splits)+

text \<open>The arguments from \<open>i\<close> on are consumed up to the first one that is not used.\<close>

definition consumed_from :: "ebpf_argument_type list \<Rightarrow> nat \<Rightarrow> nat \<Rightarrow> bool" where
  "consumed_from args i j \<longleftrightarrow> i \<le> j \<and> j \<le> 6 \<and> args ! j = DontCare \<and> (\<forall>n. i \<le> n \<and> n < j \<longrightarrow> args ! n \<noteq> DontCare)"

lemma consumed_from_step:
  assumes "consumed_from args (Suc i) j" "args ! i \<noteq> DontCare"
  shows "consumed_from args i j"
  unfolding consumed_from_def
proof (intro conjI allI impI)
  fix n assume "i \<le> n \<and> n < j"
  then show "args ! n \<noteq> DontCare" using assms by (cases "n = i") (auto simp: consumed_from_def)
qed (use assms in \<open>auto simp: consumed_from_def\<close>)

lemma kfunc_args_upto:
  assumes "contract_upto i (contract res)" "1 \<le> i" "i \<le> 6" "length args = 7" "args ! 6 = DontCare"
    and "kfunc_args name args i res = Inr c"
  shows "(\<exists>j. contract_upto j (contract c) \<and> consumed_from args i j) \<and> call_func c = call_func res \<and>
    call_module c = call_module res \<and> call_kind c = call_kind res \<and> call_name c = call_name res \<and>
    is_supported c = is_supported res"
  using assms
proof (induction name args i res rule: kfunc_args.induct)
  case (1 name args i res)
  show ?case
  proof (cases "i < 6")
    case False
    then have "i = 6" using "1.prems"(3) by simp
    moreover from this have "c = res" using "1.prems"(4,6) by (simp add: kfunc_args.simps [of name args 6 res])
    ultimately show ?thesis using "1.prems"(1,5) by (auto simp: consumed_from_def intro!: exI [of _ 6])
  next
    case True
    obtain r c' where pa: "process_arg (contract res) args i = (r, c')" by (rule prod.exhaust)
    note pc = process_arg_cases [OF pa]
    have cond: "i < length args - 1" using True "1.prems"(4) by simp
    show ?thesis
    proof (cases r)
      case Single
      then have "contract_upto (i + 1) c'"
        using pc push_single_upto [OF "1.prems"(1,2)] True by auto
      moreover have "args ! i \<noteq> DontCare" using process_arg_stop(1) [OF pa] Single by simp
      ultimately show ?thesis
        using "1.IH"(1) [OF cond pa [symmetric] Single] "1.prems" True cond pa Single consumed_from_step [of args i]
        by (auto simp: kfunc_args.simps [of name args i res])
    next
      case Pair
      then have p: "args ! (i + 1) \<noteq> DontCare" using pc by auto
      then have i5: "i \<le> 4" using True "1.prems"(5) by (cases "i = 5") auto
      then have "contract_upto (i + 2) c'" using Pair pc push_pair_upto [OF "1.prems"(1,2)] by auto
      moreover have "consumed_from args i j" if "consumed_from args (i + 2) j" for j
        using consumed_from_step [of args "Suc i" j] consumed_from_step [of args i j] that p
          process_arg_stop(1) [OF pa] Pair by simp
      ultimately show ?thesis
        using "1.IH"(2) [OF cond pa [symmetric] Pair] "1.prems" True cond pa Pair i5
        by (auto simp: kfunc_args.simps [of name args i res])
    next
      case Stop
      then have "c = res"
        using pc "1.prems"(6) cond pa by (simp add: kfunc_args.simps [of name args i res])
      then show ?thesis using "1.prems"(1,3) process_arg_stop(2) pa Stop
        by (auto simp: consumed_from_def intro!: exI [of _ i])
    qed (use "1.prems" cond pa in \<open>simp_all add: kfunc_args.simps [of name args i res]\<close>)
  qed
qed

lemma process_arg_outcome: "fst (process_arg c args i) = fst (process_arg c' args i)"
  by (simp add: process_arg_def Let_def)

text \<open>Whether the arguments resolve does not depend on the call they are added to.\<close>

lemma kfunc_args_outcome: "isl (kfunc_args name args i res) = isl (kfunc_args name args i res')"
proof (induction name args i res arbitrary: res' rule: kfunc_args.induct)
  case (1 name args i res)
  obtain r c where pa: "process_arg (contract res) args i = (r, c)" by (rule prod.exhaust)
  obtain c' where pa': "process_arg (contract res') args i = (r, c')"
    using process_arg_outcome [of "contract res'" args i "contract res"] pa by (metis fst_conv prod.exhaust)
  show ?case
  proof (cases "i < length args - 1")
    case False
    then show ?thesis by (simp add: kfunc_args.simps [of name args i])
  next
    case True
    then have u: "kfunc_args name args i x = (case process_arg (contract x) args i of
          (Single, c) \<Rightarrow> kfunc_args name args (i + 1) (x\<lparr>contract := c\<rparr>)
        | (Pair, c) \<Rightarrow> kfunc_args name args (i + 2) (x\<lparr>contract := c\<rparr>)
        | (Stop, c) \<Rightarrow> Inr (x\<lparr>contract := c\<rparr>)
        | (Unavailable, c) \<Rightarrow> Inl (''kfunc argument type is unsupported on this platform: '' @ name)
        | (MismatchedSize, c) \<Rightarrow>
            Inl (''mismatched kfunc EBPF_ARGUMENT_TYPE_PTR_TO* and EBPF_ARGUMENT_TYPE_CONST_SIZE: '' @ name))" for x
      by (subst kfunc_args.simps) (rule if_P)
    show ?thesis
      unfolding u pa pa' using "1.IH"(1) [OF True pa [symmetric]] "1.IH"(2) [OF True pa [symmetric]]
      by (cases r) simp_all
  qed
qed

lemma entry_call_outcome: "isl (entry_call b m e) = isl (entry_call 0 0 e)"
proof -
  define base where "base = contract_default
      \<lparr>is_map_lookup := (proto_return_type (kf_proto e) = RT_PtrToMapValueOrNull),
       reallocate_packet := proto_reallocate_packet (kf_proto e),
       zero_args_mask := proto_zero_args_mask (kf_proto e),
       allowed_map_types := proto_allowed_map_types (kf_proto e)\<rparr>"
  obtain out c0 where "apply_return_type base (proto_return_type (kf_proto e)) = (out, c0)" by fastforce
  then show ?thesis
    by (cases out) (auto simp: entry_call_def base_def Let_def intro!: kfunc_args_outcome)
qed

lemma kfunc_entries_resolve:
  assumes "e \<in> set KFUNC_PROTOTYPES"
  shows "\<exists>c. entry_call b m e = Inr c"
proof -
  have "list_all (\<lambda>e. \<not> isl (entry_call 0 0 e)) KFUNC_PROTOTYPES" by code_simp
  then have "\<not> isl (entry_call b m e)"
    using assms entry_call_outcome [of b m e] by (auto simp: list_all_iff)
  then show ?thesis by (cases "entry_call b m e") auto
qed

lemma kfunc_entries_plain:
  assumes "e \<in> set KFUNC_PROTOTYPES"
  shows "length (proto_argument_type (kf_proto e)) = 5" "\<not> lp_unsupported (kf_proto e)"
    "proto_return_type (kf_proto e) \<noteq> RT_Unsupported"
    "kf_flags e AND NOT accepted_flags \<noteq> KFUNC_FLAG_NONE \<longleftrightarrow> kf_flags e = KFUNC_FLAG_RELEASE"
  using assms by (auto simp: kfunc_table_defs accepted_flags_def KFUNC_FLAG_NONE_def KFUNC_FLAG_ACQUIRE_def
      KFUNC_FLAG_RELEASE_def KFUNC_FLAG_DESTRUCTIVE_def KFUNC_FLAG_TRUSTED_ARGS_def KFUNC_FLAG_SLEEPABLE_def)

text \<open>The arguments a table entry declares before its first unused one.\<close>

definition used_args :: "kfunc_entry \<Rightarrow> nat" where
  "used_args e = length (takeWhile (\<lambda>a. a \<noteq> DontCare) (proto_argument_type (kf_proto e)))"

lemma consumed_used_args:
  assumes "consumed_from (padded_args (proto_argument_type (kf_proto e))) 1 j"
    "length (proto_argument_type (kf_proto e)) = 5"
  shows "j = Suc (used_args e)"
proof -
  let ?xs = "proto_argument_type (kf_proto e)"
  obtain n where n: "j = Suc n" "n \<le> 5" using assms(1) by (cases j) (auto simp: consumed_from_def)
  have nth: "padded_args ?xs ! Suc i = (if i < 5 then ?xs ! i else DontCare)" if "i \<le> 5" for i
    using that assms(2) by (auto simp: padded_args_def nth_append)
  have "takeWhile (\<lambda>a. a \<noteq> DontCare) ?xs = take n ?xs"
  proof (rule takeWhile_eq_take_P_nth)
    fix i assume "i < n" "i < length ?xs"
    then show "?xs ! i \<noteq> DontCare" using assms n nth [of i] by (auto simp: consumed_from_def)
  next
    assume "n < length ?xs"
    then show "\<not> ?xs ! n \<noteq> DontCare" using assms n nth [of n] by (auto simp: consumed_from_def)
  qed
  then show ?thesis using n assms(2) by (simp add: used_args_def)
qed

lemma entry_call_spec:
  assumes "entry_call b m e = Inr c" "length (proto_argument_type (kf_proto e)) = 5"
  shows "contract_upto (Suc (used_args e)) (contract c) \<and> call_func c = b \<and> call_module c = m \<and>
    call_kind c = Kfunc \<and> call_name c = proto_name (kf_proto e) \<and> is_supported c"
proof -
  define base where "base = contract_default
      \<lparr>is_map_lookup := (proto_return_type (kf_proto e) = RT_PtrToMapValueOrNull),
       reallocate_packet := proto_reallocate_packet (kf_proto e),
       zero_args_mask := proto_zero_args_mask (kf_proto e),
       allowed_map_types := proto_allowed_map_types (kf_proto e)\<rparr>"
  obtain out c0 where rt: "apply_return_type base (proto_return_type (kf_proto e)) = (out, c0)" by fastforce
  have "singles c0 = [] \<and> pairs c0 = [] \<and> alloc_size_reg c0 = None"
    using rt by (auto simp: apply_return_type_def base_def contract_default_def set_return_def split: if_splits)
  then have up: "contract_upto 1 c0" by (simp add: contract_upto_def contract_regs_def pair_regs_def)
  have len: "length (padded_args (proto_argument_type (kf_proto e))) = 7"
    "padded_args (proto_argument_type (kf_proto e)) ! 6 = DontCare"
    using assms(2) by (simp_all add: padded_args_def nth_append)
  show ?thesis
  proof (cases out)
    case RT_Ok
    then have "kfunc_args (proto_name (kf_proto e)) (padded_args (proto_argument_type (kf_proto e))) 1
        \<lparr>call_func = b, call_kind = Kfunc, call_module = m, call_name = proto_name (kf_proto e),
         is_supported = True, unsupported_reason = [], contract = c0, call_prefix = []\<rparr> = Inr c"
      using assms(1) rt by (simp add: entry_call_def base_def Let_def)
    from kfunc_args_upto [OF _ _ _ len this] up consumed_used_args [OF _ assms(2)] show ?thesis by auto
  next
    case RT_Unavailable
    then show ?thesis using assms(1) rt by (simp add: entry_call_def base_def Let_def)
  qed
qed

lemma kfunc_resolution_facts:
  "(\<exists>c. make_kfunc_call_result b m info = Inr c) \<longleftrightarrow>
     (\<exists>e\<in>set KFUNC_PROTOTYPES. kf_btf_id e = sint b \<and> kf_module e = sint m \<and>
        kf_flags e \<noteq> KFUNC_FLAG_RELEASE \<and> program_error e info = None)"
  "make_kfunc_call_result b m info = Inr c \<Longrightarrow>
     (\<exists>e\<in>set KFUNC_PROTOTYPES. kf_btf_id e = sint b \<and> kf_module e = sint m \<and>
        call_name c = proto_name (kf_proto e) \<and>
        distinct (contract_regs (contract c)) \<and>
        set (contract_regs (contract c)) = word_of_nat ` {1..used_args e} \<and>
        (\<forall>p\<in>set (pairs (contract c)). ap_size p = ap_mem p + 1)) \<and>
     call_func c = b \<and> call_module c = m \<and> call_kind c = Kfunc \<and> is_supported c"
proof -
  have entry: "(make_kfunc_call_result b m info = Inr c) \<longleftrightarrow>
      (\<exists>e\<in>set KFUNC_PROTOTYPES. kf_btf_id e = sint b \<and> kf_module e = sint m \<and>
        kf_flags e \<noteq> KFUNC_FLAG_RELEASE \<and> program_error e info = None \<and> entry_call b m e = Inr c)" for c
  proof (cases "lookup_kfunc_prototype (sint b) (sint m)")
    case None
    then have "\<not> (e \<in> set KFUNC_PROTOTYPES \<and> kf_btf_id e = sint b \<and> kf_module e = sint m)" for e
      using lookup_kfunc_exact [of "sint b" "sint m" e] by simp
    then show ?thesis using None by (auto simp: make_kfunc_call_result_def)
  next
    case (Some e)
    have iff: "e' \<in> set KFUNC_PROTOTYPES \<and> kf_btf_id e' = sint b \<and> kf_module e' = sint m \<longleftrightarrow> e' = e" for e'
      using lookup_kfunc_exact [of "sint b" "sint m" e'] Some by auto
    then have e: "e \<in> set KFUNC_PROTOTYPES" by blast
    have "(make_kfunc_call_result b m info = Inr c) \<longleftrightarrow>
        kf_flags e \<noteq> KFUNC_FLAG_RELEASE \<and> program_error e info = None \<and> entry_call b m e = Inr c"
      using kfunc_entries_plain [OF e] Some
      by (auto simp: make_kfunc_call_result_def Let_def split: option.splits)
    moreover have "e \<in> set KFUNC_PROTOTYPES" "kf_btf_id e = sint b" "kf_module e = sint m" using iff [of e] by auto
    moreover have "e' = e" if "e' \<in> set KFUNC_PROTOTYPES" "kf_btf_id e' = sint b" "kf_module e' = sint m" for e'
      using iff [of e'] that by simp
    ultimately show ?thesis by blast
  qed
  then show "(\<exists>c. make_kfunc_call_result b m info = Inr c) \<longleftrightarrow>
     (\<exists>e\<in>set KFUNC_PROTOTYPES. kf_btf_id e = sint b \<and> kf_module e = sint m \<and>
        kf_flags e \<noteq> KFUNC_FLAG_RELEASE \<and> program_error e info = None)"
    using kfunc_entries_resolve by metis
  assume "make_kfunc_call_result b m info = Inr c"
  then obtain e where e: "e \<in> set KFUNC_PROTOTYPES" "kf_btf_id e = sint b" "kf_module e = sint m"
    "entry_call b m e = Inr c" using entry by blast
  have "contract_upto (Suc (used_args e)) (contract c)"
    using entry_call_spec [OF e(4) kfunc_entries_plain(1) [OF e(1)]] by blast
  moreover have "{1..<Suc (used_args e)} = {1..used_args e}" by auto
  ultimately have "distinct (contract_regs (contract c)) \<and>
        set (contract_regs (contract c)) = word_of_nat ` {1..used_args e} \<and>
        (\<forall>p\<in>set (pairs (contract c)). ap_size p = ap_mem p + 1)"
    by (simp add: contract_upto_def)
  then show "(\<exists>e\<in>set KFUNC_PROTOTYPES. kf_btf_id e = sint b \<and> kf_module e = sint m \<and>
        call_name c = proto_name (kf_proto e) \<and>
        distinct (contract_regs (contract c)) \<and>
        set (contract_regs (contract c)) = word_of_nat ` {1..used_args e} \<and>
        (\<forall>p\<in>set (pairs (contract c)). ap_size p = ap_mem p + 1)) \<and>
     call_func c = b \<and> call_module c = m \<and> call_kind c = Kfunc \<and> is_supported c"
    using e entry_call_spec [OF e(4) kfunc_entries_plain(1) [OF e(1)]] by blast
qed

lemma program_error_None:
  "program_error e info = None \<longleftrightarrow>
    (\<forall>pt. info = Some pt \<longrightarrow>
      (kf_required_program_type e = [] \<or> pt_name pt = kf_required_program_type e) \<and>
      (kf_requires_privileged e \<longrightarrow> pt_is_privileged pt))"
  by (auto simp: program_error_def split: option.split)

text \<open>C10: A kernel function resolves to a call exactly when the table has an entry with its BTF
  identifier and its module that is not a release function and that the program may use: when
  program information is given, the program type has the name the entry asks for (if it asks for
  one), and is privileged if the entry asks for that; without program information neither is
  checked.  The call then carries the identifier and the module and the name of that entry, and its
  contract names each of the argument registers r1..rk once, where k is the number of arguments the
  entry declares before its first unused one, with the pairs in adjacent registers.\<close>

theorem kfunc_resolution:
  "((\<exists>c. make_kfunc_call_result b m info = Inr c) \<longleftrightarrow>
      (\<exists>e\<in>set KFUNC_PROTOTYPES. kf_btf_id e = sint b \<and> kf_module e = sint m \<and>
         kf_flags e \<noteq> KFUNC_FLAG_RELEASE \<and>
         (\<forall>pt. info = Some pt \<longrightarrow>
           (kf_required_program_type e = [] \<or> pt_name pt = kf_required_program_type e) \<and>
           (kf_requires_privileged e \<longrightarrow> pt_is_privileged pt)))) \<and>
   (\<forall>c. make_kfunc_call_result b m info = Inr c \<longrightarrow>
      (\<exists>e\<in>set KFUNC_PROTOTYPES. kf_btf_id e = sint b \<and> kf_module e = sint m \<and>
         call_name c = proto_name (kf_proto e) \<and>
         distinct (contract_regs (contract c)) \<and>
         set (contract_regs (contract c)) =
           word_of_nat ` {1..length (takeWhile (\<lambda>a. a \<noteq> DontCare) (proto_argument_type (kf_proto e)))} \<and>
         (\<forall>p\<in>set (pairs (contract c)). ap_size p = ap_mem p + 1)) \<and>
      call_func c = b \<and> call_module c = m \<and> call_kind c = Kfunc \<and> is_supported c)"
  by (rule conjI [OF kfunc_resolution_facts(1) allI [OF impI [OF kfunc_resolution_facts(2)]],
        unfolded program_error_None used_args_def])

text \<open>The same identifier in two modules resolves to two functions.\<close>

theorem kfunc_resolution_witness:
  "\<exists>c. make_kfunc_call_result 1000 1 None = Inr c \<and> call_module c = 1 \<and> is_supported c"
proof -
  have "\<exists>c. make_kfunc_call_result 1000 1 None = Inr c"
    unfolding kfunc_resolution [THEN conjunct1] by (simp add: kfunc_table_defs KFUNC_FLAG_NONE_def
        KFUNC_FLAG_RELEASE_def KFUNC_FLAG_ACQUIRE_def)
  then show ?thesis using kfunc_resolution by blast
qed

end
