(* ===== verification/Linux_Platform.thy ===== *)
theory Linux_Platform
  imports Linux_Kfunc Program_Build Config Arrays
begin

text \<open>
  \<open>src/linux/linux_platform.rs\<close>: the tables of program types and map types, the maps of an object
  file, the builtin calls, and the assembled platform of the decoder and of program construction.
  Creating a map in the kernel (\<open>sys_bpf.rs\<close>) is a parameter.  Integers in a file are in the byte
  order of the host, here little-endian.
\<close>

unbundle bit_operations_syntax

subsection \<open>Constants\<close>

definition PT_UNSPEC :: "64 word" where "PT_UNSPEC = 0"
definition PT_SOCKET_FILTER :: "64 word" where "PT_SOCKET_FILTER = 1"
definition PT_KPROBE :: "64 word" where "PT_KPROBE = 2"
definition PT_SCHED_CLS :: "64 word" where "PT_SCHED_CLS = 3"
definition PT_SCHED_ACT :: "64 word" where "PT_SCHED_ACT = 4"
definition PT_TRACEPOINT :: "64 word" where "PT_TRACEPOINT = 5"
definition PT_XDP :: "64 word" where "PT_XDP = 6"
definition PT_PERF_EVENT :: "64 word" where "PT_PERF_EVENT = 7"
definition PT_CGROUP_SKB :: "64 word" where "PT_CGROUP_SKB = 8"
definition PT_CGROUP_SOCK :: "64 word" where "PT_CGROUP_SOCK = 9"
definition PT_LWT_IN :: "64 word" where "PT_LWT_IN = 10"
definition PT_LWT_OUT :: "64 word" where "PT_LWT_OUT = 11"
definition PT_LWT_XMIT :: "64 word" where "PT_LWT_XMIT = 12"
definition PT_SOCK_OPS :: "64 word" where "PT_SOCK_OPS = 13"
definition PT_SK_SKB :: "64 word" where "PT_SK_SKB = 14"
definition PT_CGROUP_DEVICE :: "64 word" where "PT_CGROUP_DEVICE = 15"
definition PT_SK_MSG :: "64 word" where "PT_SK_MSG = 16"
definition PT_RAW_TRACEPOINT :: "64 word" where "PT_RAW_TRACEPOINT = 17"
definition PT_CGROUP_SOCK_ADDR :: "64 word" where "PT_CGROUP_SOCK_ADDR = 18"
definition PT_LWT_SEG6LOCAL :: "64 word" where "PT_LWT_SEG6LOCAL = 19"
definition PT_LIRC_MODE2 :: "64 word" where "PT_LIRC_MODE2 = 20"
definition PT_SK_REUSEPORT :: "64 word" where "PT_SK_REUSEPORT = 21"
definition PT_FLOW_DISSECTOR :: "64 word" where "PT_FLOW_DISSECTOR = 22"
definition PT_CGROUP_SYSCTL :: "64 word" where "PT_CGROUP_SYSCTL = 23"
definition PT_RAW_TRACEPOINT_WRITABLE :: "64 word" where "PT_RAW_TRACEPOINT_WRITABLE = 24"
definition PT_CGROUP_SOCKOPT :: "64 word" where "PT_CGROUP_SOCKOPT = 25"
definition PT_TRACING :: "64 word" where "PT_TRACING = 26"
definition PT_STRUCT_OPS :: "64 word" where "PT_STRUCT_OPS = 27"
definition PT_EXT :: "64 word" where "PT_EXT = 28"
definition PT_LSM :: "64 word" where "PT_LSM = 29"
definition PT_SK_LOOKUP :: "64 word" where "PT_SK_LOOKUP = 30"
definition PT_SYSCALL :: "64 word" where "PT_SYSCALL = 31"
definition PT_NETFILTER :: "64 word" where "PT_NETFILTER = 32"

definition MAP_UNSPEC :: "32 word" where "MAP_UNSPEC = 0"
definition MAP_HASH :: "32 word" where "MAP_HASH = 1"
definition MAP_ARRAY :: "32 word" where "MAP_ARRAY = 2"
definition MAP_PROG_ARRAY :: "32 word" where "MAP_PROG_ARRAY = 3"
definition MAP_PERF_EVENT_ARRAY :: "32 word" where "MAP_PERF_EVENT_ARRAY = 4"
definition MAP_PERCPU_HASH :: "32 word" where "MAP_PERCPU_HASH = 5"
definition MAP_PERCPU_ARRAY :: "32 word" where "MAP_PERCPU_ARRAY = 6"
definition MAP_STACK_TRACE :: "32 word" where "MAP_STACK_TRACE = 7"
definition MAP_CGROUP_ARRAY :: "32 word" where "MAP_CGROUP_ARRAY = 8"
definition MAP_LRU_HASH :: "32 word" where "MAP_LRU_HASH = 9"
definition MAP_LRU_PERCPU_HASH :: "32 word" where "MAP_LRU_PERCPU_HASH = 10"
definition MAP_LPM_TRIE :: "32 word" where "MAP_LPM_TRIE = 11"
definition MAP_ARRAY_OF_MAPS :: "32 word" where "MAP_ARRAY_OF_MAPS = 12"
definition MAP_HASH_OF_MAPS :: "32 word" where "MAP_HASH_OF_MAPS = 13"
definition MAP_DEVMAP :: "32 word" where "MAP_DEVMAP = 14"
definition MAP_SOCKMAP :: "32 word" where "MAP_SOCKMAP = 15"
definition MAP_CPUMAP :: "32 word" where "MAP_CPUMAP = 16"
definition MAP_XSKMAP :: "32 word" where "MAP_XSKMAP = 17"
definition MAP_SOCKHASH :: "32 word" where "MAP_SOCKHASH = 18"
definition MAP_CGROUP_STORAGE :: "32 word" where "MAP_CGROUP_STORAGE = 19"
definition MAP_REUSEPORT_SOCKARRAY :: "32 word" where "MAP_REUSEPORT_SOCKARRAY = 20"
definition MAP_PERCPU_CGROUP_STORAGE :: "32 word" where "MAP_PERCPU_CGROUP_STORAGE = 21"
definition MAP_QUEUE :: "32 word" where "MAP_QUEUE = 22"
definition MAP_STACK :: "32 word" where "MAP_STACK = 23"
definition MAP_SK_STORAGE :: "32 word" where "MAP_SK_STORAGE = 24"
definition MAP_DEVMAP_HASH :: "32 word" where "MAP_DEVMAP_HASH = 25"
definition MAP_STRUCT_OPS :: "32 word" where "MAP_STRUCT_OPS = 26"
definition MAP_RINGBUF :: "32 word" where "MAP_RINGBUF = 27"
definition MAP_INODE_STORAGE :: "32 word" where "MAP_INODE_STORAGE = 28"
definition MAP_TASK_STORAGE :: "32 word" where "MAP_TASK_STORAGE = 29"
definition MAP_BLOOM_FILTER :: "32 word" where "MAP_BLOOM_FILTER = 30"
definition MAP_USER_RINGBUF :: "32 word" where "MAP_USER_RINGBUF = 31"
definition MAP_CGRP_STORAGE :: "32 word" where "MAP_CGRP_STORAGE = 32"
definition MAP_ARENA :: "32 word" where "MAP_ARENA = 33"

definition CG_BASE32 :: "32 word" where "CG_BASE32 = 0x01"
definition CG_BASE64 :: "32 word" where "CG_BASE64 = 0x02"
definition CG_ATOMIC32 :: "32 word" where "CG_ATOMIC32 = 0x04"
definition CG_ATOMIC64 :: "32 word" where "CG_ATOMIC64 = 0x08"
definition CG_DIVMUL32 :: "32 word" where "CG_DIVMUL32 = 0x10"
definition CG_DIVMUL64 :: "32 word" where "CG_DIVMUL64 = 0x20"
definition CG_PACKET :: "32 word" where "CG_PACKET = 0x40"
definition CG_CALLX :: "32 word" where "CG_CALLX = 0x80"

definition DEFAULT_GROUPS :: "32 word" where
  "DEFAULT_GROUPS = CG_BASE32 OR CG_BASE64 OR CG_ATOMIC32 OR CG_ATOMIC64 OR CG_DIVMUL32 OR CG_DIVMUL64"

definition GROUPS :: "(string \<times> 32 word) list" where
  "GROUPS =
    [(''atomic32'', CG_ATOMIC32), (''atomic64'', CG_ATOMIC64), (''base32'', CG_BASE32),
     (''base64'', CG_BASE64), (''callx'', CG_CALLX), (''divmul32'', CG_DIVMUL32),
     (''divmul64'', CG_DIVMUL64), (''packet'', CG_PACKET)]"

definition group_by_name :: "string \<Rightarrow> 32 word option" where
  "group_by_name name = map_option snd (find (\<lambda>(n, _). n = name) GROUPS)"

subsection \<open>Program types\<close>

definition ptype_with_privilege ::
  "string \<Rightarrow> ctx_descriptor option \<Rightarrow> 64 word \<Rightarrow> string list \<Rightarrow> bool \<Rightarrow> program_type" where
  "ptype_with_privilege name descr native_type prefs privileged =
     \<lparr>pt_name = name, pt_ctx_descriptor = descr, pt_platform_specific_data = native_type,
      pt_section_prefixes = prefs, pt_is_privileged = privileged, pt_is_sleepable = False\<rparr>"

definition ptype :: "string \<Rightarrow> ctx_descriptor option \<Rightarrow> 64 word \<Rightarrow> string list \<Rightarrow> program_type" where
  "ptype name descr native_type prefs = ptype_with_privilege name descr native_type prefs False"

definition ptype_privileged ::
  "string \<Rightarrow> ctx_descriptor option \<Rightarrow> 64 word \<Rightarrow> string list \<Rightarrow> program_type" where
  "ptype_privileged name descr native_type prefs =
     ptype_with_privilege name descr native_type prefs True"

definition linux_socket_filter_program_type :: program_type where
  "linux_socket_filter_program_type =
     ptype ''socket_filter'' (Some SOCKET_FILTER_DESCR) PT_SOCKET_FILTER [''socket'']"

definition linux_xdp_program_type :: program_type where
  "linux_xdp_program_type = ptype ''xdp'' (Some XDP_DESCR) PT_XDP [''xdp'']"

definition cilium_lxc_program_type :: program_type where
  "cilium_lxc_program_type = ptype ''lxc'' (Some SCHED_DESCR) PT_SOCKET_FILTER []"

definition linux_program_types :: "program_type list" where
  "linux_program_types =
    [
     ptype ''unspec'' (Some UNSPEC_DESCR) PT_UNSPEC [],
     linux_socket_filter_program_type,
     linux_xdp_program_type,
     ptype ''cgroup_device'' (Some CGROUP_DEV_DESCR) PT_CGROUP_DEVICE [''cgroup/dev''],
     ptype ''cgroup_skb'' (Some SOCKET_FILTER_DESCR) PT_CGROUP_SKB [''cgroup/skb''],
     ptype ''cgroup_sock'' (Some CGROUP_SOCK_DESCR) PT_CGROUP_SOCK [''cgroup/sock''],
     ptype_privileged ''kprobe'' (Some KPROBE_DESCR) PT_KPROBE [''kprobe/'', ''kretprobe/''],
     ptype ''lwt_in'' (Some LWT_INOUT_DESCR) PT_LWT_IN [''lwt_in''],
     ptype ''lwt_out'' (Some LWT_INOUT_DESCR) PT_LWT_OUT [''lwt_out''],
     ptype ''lwt_xmit'' (Some LWT_XMIT_DESCR) PT_LWT_XMIT [''lwt_xmit''],
     ptype ''perf_event'' (Some PERF_EVENT_DESCR) PT_PERF_EVENT [''perf_section'', ''perf_event''],
     ptype ''sched_act'' (Some SCHED_DESCR) PT_SCHED_ACT [''action''],
     ptype ''sched_cls'' (Some SCHED_DESCR) PT_SCHED_CLS [''classifier''],
     ptype ''sk_skb'' (Some SK_SKB_DESCR) PT_SK_SKB [''sk_skb''],
     ptype ''sock_ops'' (Some SOCK_OPS_DESCR) PT_SOCK_OPS [''sockops''],
     ptype ''tracepoint'' (Some TRACEPOINT_DESCR) PT_TRACEPOINT [''tracepoint/''],
     ptype ''cgroup_sockopt'' (Some SOCKOPT_DESCR) PT_CGROUP_SOCKOPT [''cgroup/getsockopt'', ''cgroup/setsockopt''],
     ptype ''sk_msg'' (Some SK_MSG_MD) PT_SK_MSG [''sk_msg''],
     ptype_privileged ''raw_tracepoint'' (Some TRACEPOINT_DESCR) PT_RAW_TRACEPOINT [''raw_tracepoint/'', ''raw_tp/''],
     ptype_privileged ''raw_tracepoint_writable'' (Some TRACEPOINT_DESCR) PT_RAW_TRACEPOINT_WRITABLE [''raw_tracepoint.w/'', ''raw_tp.w/''],
     ptype ''cgroup_sock_addr'' (Some SOCK_ADDR_DESCR) PT_CGROUP_SOCK_ADDR [''cgroup/bind'', ''cgroup/post_bind'', ''cgroup/connect'', ''cgroup/sendmsg'', ''cgroup/recvmsg'', ''cgroup/getpeername'', ''cgroup/getsockname''],
     ptype ''lwt_seg6local'' (Some LWT_XMIT_DESCR) PT_LWT_SEG6LOCAL [''lwt_seg6local''],
     ptype ''lirc_mode2'' (Some LIRC_MODE2_DESCR) PT_LIRC_MODE2 [''lirc_mode2''],
     ptype ''sk_reuseport'' (Some SK_REUSEPORT_DESCR) PT_SK_REUSEPORT [''sk_reuseport/''],
     ptype ''flow_dissector'' (Some FLOW_DISSECTOR_DESCR) PT_FLOW_DISSECTOR [''flow_dissector''],
     ptype ''cgroup_sysctl'' (Some CGROUP_SYSCTL_DESCR) PT_CGROUP_SYSCTL [''cgroup/sysctl''],
     ptype ''ext'' (Some UNSPEC_DESCR) PT_EXT [''freplace/''],
     ptype ''tracing'' (Some TRACING_DESCR) PT_TRACING [''fentry/'', ''fentry.s/'', ''fexit/'', ''fexit.s/'', ''fmod_ret/'', ''fmod_ret.s/'', ''iter/'', ''iter.s/'', ''tp_btf/'', ''tp_btf.s/''],
     ptype ''struct_ops'' (Some TRACING_DESCR) PT_STRUCT_OPS [''struct_ops/'', ''struct_ops.s/''],
     ptype ''lsm'' (Some TRACING_DESCR) PT_LSM [''lsm/'', ''lsm.s/''],
     ptype ''sk_lookup'' (Some SK_LOOKUP_DESCR) PT_SK_LOOKUP [''sk_lookup/''],
     ptype ''syscall'' (Some SYSCALL_DESCR) PT_SYSCALL [''syscall''],
     ptype ''netfilter'' (Some NETFILTER_DESCR) PT_NETFILTER [''netfilter/'']]"

definition starts_with :: "string \<Rightarrow> string \<Rightarrow> bool" where
  "starts_with pre s \<longleftrightarrow> take (length pre) s = pre"

fun contains_str :: "string \<Rightarrow> string \<Rightarrow> bool" where
  "contains_str pat [] = (pat = [])"
| "contains_str pat (c # s) = (starts_with pat (c # s) \<or> contains_str pat s)"

definition matched_type :: "program_type \<Rightarrow> string \<Rightarrow> program_type" where
  "matched_type t pre = t\<lparr>pt_is_sleepable := contains_str ''.s/'' pre \<or> pt_name t = ''syscall''\<rparr>"

fun type_by_section :: "string \<Rightarrow> program_type list \<Rightarrow> program_type option" where
  "type_by_section section [] = None"
| "type_by_section section (t # ts) =
     (case find (\<lambda>pre. starts_with pre section) (pt_section_prefixes t) of
        Some pre \<Rightarrow> Some (matched_type t pre)
      | None \<Rightarrow> type_by_section section ts)"

definition get_program_type_linux :: "string \<Rightarrow> string \<Rightarrow> program_type" where
  "get_program_type_linux section path =
     (if contains_str ''cilium'' path \<and> contains_str ''xdp'' path then linux_xdp_program_type
      else if contains_str ''cilium'' path \<and> contains_str ''lxc'' path then cilium_lxc_program_type
      else case type_by_section section linux_program_types of
          Some t \<Rightarrow> t
        | None \<Rightarrow> linux_socket_filter_program_type)"

subsection \<open>Map types\<close>

definition map_type_entry :: "32 word \<Rightarrow> string \<Rightarrow> map_type" where
  "map_type_entry t name = \<lparr>mt_platform_specific_type = t, mt_name = name, mt_is_array = False, mt_value_type = VT_Any\<rparr>"

definition map_type_array :: "32 word \<Rightarrow> string \<Rightarrow> map_type" where
  "map_type_array t name = \<lparr>mt_platform_specific_type = t, mt_name = name, mt_is_array = True, mt_value_type = VT_Any\<rparr>"

definition map_type_array_vt :: "32 word \<Rightarrow> string \<Rightarrow> map_value_type \<Rightarrow> map_type" where
  "map_type_array_vt t name vt = \<lparr>mt_platform_specific_type = t, mt_name = name, mt_is_array = True, mt_value_type = vt\<rparr>"

definition map_type_vt :: "32 word \<Rightarrow> string \<Rightarrow> map_value_type \<Rightarrow> map_type" where
  "map_type_vt t name vt = \<lparr>mt_platform_specific_type = t, mt_name = name, mt_is_array = False, mt_value_type = vt\<rparr>"

definition linux_map_types :: "map_type list" where
  "linux_map_types =
    [
     map_type_entry MAP_UNSPEC ''UNSPEC'',
     map_type_entry MAP_HASH ''HASH'',
     map_type_array MAP_ARRAY ''ARRAY'',
     map_type_array_vt MAP_PROG_ARRAY ''PROG_ARRAY'' VT_Program,
     map_type_array MAP_PERF_EVENT_ARRAY ''PERF_EVENT_ARRAY'',
     map_type_entry MAP_PERCPU_HASH ''PERCPU_HASH'',
     map_type_array MAP_PERCPU_ARRAY ''PERCPU_ARRAY'',
     map_type_entry MAP_STACK_TRACE ''STACK_TRACE'',
     map_type_array MAP_CGROUP_ARRAY ''CGROUP_ARRAY'',
     map_type_entry MAP_LRU_HASH ''LRU_HASH'',
     map_type_entry MAP_LRU_PERCPU_HASH ''LRU_PERCPU_HASH'',
     map_type_entry MAP_LPM_TRIE ''LPM_TRIE'',
     map_type_array_vt MAP_ARRAY_OF_MAPS ''ARRAY_OF_MAPS'' VT_Map,
     map_type_vt MAP_HASH_OF_MAPS ''HASH_OF_MAPS'' VT_Map,
     map_type_entry MAP_DEVMAP ''DEVMAP'',
     map_type_entry MAP_SOCKMAP ''SOCKMAP'',
     map_type_entry MAP_CPUMAP ''CPUMAP'',
     map_type_entry MAP_XSKMAP ''XSKMAP'',
     map_type_entry MAP_SOCKHASH ''SOCKHASH'',
     map_type_entry MAP_CGROUP_STORAGE ''CGROUP_STORAGE'',
     map_type_entry MAP_REUSEPORT_SOCKARRAY ''REUSEPORT_SOCKARRAY'',
     map_type_entry MAP_PERCPU_CGROUP_STORAGE ''PERCPU_CGROUP_STORAGE'',
     map_type_entry MAP_QUEUE ''QUEUE'',
     map_type_entry MAP_STACK ''STACK'',
     map_type_entry MAP_SK_STORAGE ''SK_STORAGE'',
     map_type_entry MAP_DEVMAP_HASH ''DEVMAP_HASH'',
     map_type_entry MAP_STRUCT_OPS ''STRUCT_OPS'',
     map_type_entry MAP_RINGBUF ''RINGBUF'',
     map_type_entry MAP_INODE_STORAGE ''INODE_STORAGE'',
     map_type_entry MAP_TASK_STORAGE ''TASK_STORAGE'',
     map_type_entry MAP_BLOOM_FILTER ''BLOOM_FILTER'',
     map_type_entry MAP_USER_RINGBUF ''USER_RINGBUF'',
     map_type_entry MAP_CGRP_STORAGE ''CGRP_STORAGE'',
     map_type_entry MAP_ARENA ''ARENA'']"

definition get_map_type_linux :: "32 word \<Rightarrow> map_type" where
  "get_map_type_linux t =
     (let index = unat t
      in if index = 0 \<or> index \<ge> length linux_map_types then linux_map_types ! 0
         else (linux_map_types ! index)\<lparr>mt_platform_specific_type := t\<rparr>)"

subsection \<open>Maps\<close>

definition key_of_type :: "map_type \<Rightarrow> 32 word \<Rightarrow> 32 word \<Rightarrow> 32 word \<Rightarrow> equivalence_key" where
  "key_of_type t key_size value_size max_entries =
     \<lparr>ek_value_type = mt_value_type t, ek_key_size = key_size, ek_value_size = value_size,
      ek_max_entries = (if mt_is_array t then max_entries else 0)\<rparr>"

definition key_of_descriptor :: "map_descriptor \<Rightarrow> equivalence_key" where
  "key_of_descriptor d =
     (let desc_type = get_map_type_linux (md_map_type d)
      in \<lparr>ek_value_type = mt_value_type desc_type, ek_key_size = md_key_size d, ek_value_size = md_value_size d,
          ek_max_entries = (if mt_is_array desc_type then md_max_entries d else 0)\<rparr>)"

text \<open>The number of a new descriptor is an \<open>i32\<close>: \<open>None\<close> is the overflow of \<open>len() as i32 + 1\<close>.\<close>

definition allocate_mock_map_fd ::
  "map_descriptor list \<Rightarrow> map_type \<Rightarrow> 32 word \<Rightarrow> 32 word \<Rightarrow> 32 word \<Rightarrow> 32 word option" where
  "allocate_mock_map_fd map_descriptors t key_size value_size max_entries =
     (let equiv = key_of_type t key_size value_size max_entries
      in case find (\<lambda>d. key_of_descriptor d = equiv) map_descriptors of
           Some d \<Rightarrow> Some (md_original_fd d)
         | None \<Rightarrow>
             let n = (word_of_nat (length map_descriptors) :: 32 word)
             in if sint n = 2 ^ 31 - 1 then None else Some (n + 1))"

fun position :: "('a \<Rightarrow> bool) \<Rightarrow> 'a list \<Rightarrow> nat option" where
  "position P [] = None"
| "position P (x # xs) = (if P x then Some 0 else map_option Suc (position P xs))"

definition find_map_descriptor :: "map_descriptor list \<Rightarrow> 32 word \<Rightarrow> nat option" where
  "find_map_descriptor map_descriptors map_fd = position (\<lambda>m. md_original_fd m = map_fd) map_descriptors"

record load_map_def =
  lm_map_type :: "32 word"
  lm_key_size :: "32 word"
  lm_value_size :: "32 word"
  lm_max_entries :: "32 word"
  lm_map_flags :: "32 word"
  lm_inner_map_idx :: "32 word"
  lm_numa_node :: "32 word"

definition MAP_DEF_SIZE :: nat where "MAP_DEF_SIZE = 28"

definition u32_at :: "8 word list \<Rightarrow> nat \<Rightarrow> 32 word" where
  "u32_at bytes k =
     ucast (bytes ! k) OR push_bit 8 (ucast (bytes ! (k + 1))) OR push_bit 16 (ucast (bytes ! (k + 2))) OR
     push_bit 24 (ucast (bytes ! (k + 3)))"

definition parse_map_def_record :: "8 word list \<Rightarrow> nat \<Rightarrow> load_map_def" where
  "parse_map_def_record rec record_size =
     (let copy_len = min (min record_size MAP_DEF_SIZE) (length rec);
          padded = take copy_len rec @ replicate (MAP_DEF_SIZE - copy_len) 0
      in \<lparr>lm_map_type = u32_at padded 0, lm_key_size = u32_at padded 4, lm_value_size = u32_at padded 8,
          lm_max_entries = u32_at padded 12, lm_map_flags = u32_at padded 16,
          lm_inner_map_idx = u32_at padded 20, lm_numa_node = u32_at padded 24\<rparr>)"

text \<open>The first loop: slicing past the end of the data panics.\<close>

fun parse_map_defs :: "8 word list \<Rightarrow> nat \<Rightarrow> nat list \<Rightarrow> load_map_def list option" where
  "parse_map_defs bytes record_size [] = Some []"
| "parse_map_defs bytes record_size (i # is) =
     do { assert_that (i * record_size \<le> length bytes);
          rest \<leftarrow> parse_map_defs bytes record_size is;
          Some (parse_map_def_record (drop (i * record_size) bytes) record_size # rest) }"

text \<open>Creating a map in the kernel, with the map type, key size, value size and number of entries; \<open>None\<close> ends
  the process.\<close>

type_synonym create_map = "32 word \<Rightarrow> 32 word \<Rightarrow> 32 word \<Rightarrow> 32 word \<Rightarrow> 32 word option"

definition push_map_def ::
  "create_map \<Rightarrow> bool \<Rightarrow> load_map_def \<Rightarrow> map_descriptor list \<Rightarrow> map_descriptor list option" where
  "push_map_def create_map_linux mock s map_descriptors =
     do { original_fd \<leftarrow>
            (if mock
             then allocate_mock_map_fd map_descriptors (get_map_type_linux (lm_map_type s)) (lm_key_size s)
                    (lm_value_size s) (lm_max_entries s)
             else create_map_linux (lm_map_type s) (lm_key_size s) (lm_value_size s) (lm_max_entries s));
          Some (map_descriptors @
            [\<lparr>md_original_fd = original_fd, md_map_type = lm_map_type s, md_key_size = lm_key_size s,
              md_value_size = lm_value_size s, md_max_entries = lm_max_entries s,
              md_inner_map_fd = lm_inner_map_idx s, md_name = [], md_is_inner_map_template = False\<rparr>]) }"

definition parse_maps_section_linux ::
  "create_map \<Rightarrow> map_descriptor list \<Rightarrow> 8 word list \<Rightarrow> nat \<Rightarrow> nat \<Rightarrow> verifier_options \<Rightarrow> map_descriptor list option" where
  "parse_maps_section_linux create_map_linux map_descriptors bytes record_size count opts =
     do { mapdefs \<leftarrow> parse_map_defs bytes record_size [0..<count];
          for_each (push_map_def create_map_linux (mock_map_fds opts)) mapdefs map_descriptors }"

text \<open>On an error the descriptors before it have been changed.\<close>

fun resolve_inner_loop :: "nat list \<Rightarrow> map_descriptor list \<Rightarrow> string option \<times> map_descriptor list" where
  "resolve_inner_loop [] ds = (None, ds)"
| "resolve_inner_loop (i # is) ds =
     (let inner = sint (md_inner_map_fd (ds ! i))
      in if inner < 0 \<or> nat inner \<ge> length ds
         then (Some (''bad inner map index '' @ int_string inner @ '' for map '' @ nat_string i), ds)
         else resolve_inner_loop is (ds[i := (ds ! i)\<lparr>md_inner_map_fd := md_original_fd (ds ! nat inner)\<rparr>]))"

definition resolve_inner_map_references_linux ::
  "map_descriptor list \<Rightarrow> string option \<times> map_descriptor list" where
  "resolve_inner_map_references_linux ds = resolve_inner_loop [0..<length ds] ds"

definition get_map_descriptor_linux :: "map_descriptor list \<Rightarrow> 32 word \<Rightarrow> string + map_descriptor" where
  "get_map_descriptor_linux ds map_fd =
     (case find_map_descriptor ds map_fd of
        Some idx \<Rightarrow> Inr (ds ! idx)
      | None \<Rightarrow> Inl (''map_fd '' @ int_string (sint map_fd) @ '' not found''))"

subsection \<open>Builtin calls and kernel symbols\<close>

definition LINUX_BUILTIN_CALL_MEMSET :: "32 word" where "LINUX_BUILTIN_CALL_MEMSET = -11"
definition LINUX_BUILTIN_CALL_MEMCPY :: "32 word" where "LINUX_BUILTIN_CALL_MEMCPY = -12"
definition LINUX_BUILTIN_CALL_MEMMOVE :: "32 word" where "LINUX_BUILTIN_CALL_MEMMOVE = -13"
definition LINUX_BUILTIN_CALL_MEMCMP :: "32 word" where "LINUX_BUILTIN_CALL_MEMCMP = -14"
definition LINUX_BUILTIN_CALL_EXTERN_UNSPEC :: "32 word" where "LINUX_BUILTIN_CALL_EXTERN_UNSPEC = -100"

definition builtin_call :: "string \<Rightarrow> 32 word \<Rightarrow> arg_single list \<Rightarrow> arg_pair list \<Rightarrow> call" where
  "builtin_call name i ss ps =
     \<lparr>call_func = i, call_kind = Builtin, call_module = 0, call_name = name, is_supported = True,
      unsupported_reason = [], contract = contract_default\<lparr>singles := ss, pairs := ps\<rparr>, call_prefix = []\<rparr>"

definition builtin_pair :: "arg_pair_kind \<Rightarrow> reg \<Rightarrow> reg \<Rightarrow> arg_pair" where
  "builtin_pair k m s = \<lparr>ap_kind = k, ap_or_null = False, ap_mem = m, ap_size = s, ap_can_be_zero = False\<rparr>"

definition anything_arg :: "reg \<Rightarrow> arg_single" where
  "anything_arg r = \<lparr>as_kind = AS_Anything, as_or_null = False, as_reg = r\<rparr>"

definition linux_get_builtin_call :: "32 word \<Rightarrow> call option" where
  "linux_get_builtin_call i =
     (if i = LINUX_BUILTIN_CALL_MEMSET
      then Some (builtin_call ''memset'' i [anything_arg 2] [builtin_pair AP_PtrToWritableMem 1 3])
      else if i = LINUX_BUILTIN_CALL_MEMCPY \<or> i = LINUX_BUILTIN_CALL_MEMMOVE
      then Some (builtin_call (if i = LINUX_BUILTIN_CALL_MEMCPY then ''memcpy'' else ''memmove'') i []
             [builtin_pair AP_PtrToWritableMem 1 3, builtin_pair AP_PtrToReadableMem 2 3])
      else if i = LINUX_BUILTIN_CALL_MEMCMP
      then Some (builtin_call ''memcmp'' i []
             [builtin_pair AP_PtrToReadableMem 1 3, builtin_pair AP_PtrToReadableMem 2 3])
      else if i = LINUX_BUILTIN_CALL_EXTERN_UNSPEC
      then Some \<lparr>call_func = i, call_kind = Builtin, call_module = 0, call_name = ''extern_unspecified'',
             is_supported = True, unsupported_reason = [],
             contract = contract_default\<lparr>singles := map anything_arg [1, 2, 3, 4, 5], reallocate_packet := True\<rparr>,
             call_prefix = []\<rparr>
      else None)"

definition resolve_builtin_call :: "string \<Rightarrow> 32 word option" where
  "resolve_builtin_call name =
     (if name = ''memset'' then Some LINUX_BUILTIN_CALL_MEMSET
      else if name = ''memcpy'' then Some LINUX_BUILTIN_CALL_MEMCPY
      else if name = ''memmove'' then Some LINUX_BUILTIN_CALL_MEMMOVE
      else if name = ''memcmp'' then Some LINUX_BUILTIN_CALL_MEMCMP
      else case resolve_helper_id name of
          Some helper_id \<Rightarrow> Some (word_of_int helper_id)
        | None \<Rightarrow> if name \<noteq> [] then Some LINUX_BUILTIN_CALL_EXTERN_UNSPEC else None)"

record ksym_btf_id =
  ksym_id :: "32 word"
  ksym_module :: "16 word"

definition KSYMS :: "(string \<times> ksym_btf_id) list" where
  "KSYMS = map (\<lambda>(name, i, m). (name, \<lparr>ksym_id = i, ksym_module = m\<rparr>))
     [(''bpf_skb_ct_lookup'', 20001, 0), (''bpf_ct_release'', 20002, 0), (''bpf_fentry_test1'', 20003, 0),
      (''bpf_cpumask_create'', 1009, 0), (''bpf_cpumask_release'', 1010, 0),
      (''bpf_kfunc_call_test_mem_len_pass1'', 20007, 0), (''tcp_cong_avoid_ai'', 20008, 0),
      (''tcp_reno_cong_avoid'', 20009, 0), (''tcp_reno_undo_cwnd'', 20010, 0), (''tcp_slow_start'', 20011, 0),
      (''bpf_map_sum_elem_count'', 20012, 0), (''bpf_testmod_test_mod_kfunc'', 21000, 1)]"

definition resolve_ksym_btf_id :: "string \<Rightarrow> ksym_btf_id option" where
  "resolve_ksym_btf_id name = map_of KSYMS name"

subsection \<open>The platform\<close>

record linux_platform =
  lx_map_descriptors :: "map_descriptor list"
  lx_conformance_groups :: "32 word"
  lx_ctx_descriptor :: "ctx_descriptor option"
  lx_program_type_name :: "string option"
  lx_is_sleepable :: bool

definition linux_new :: linux_platform where
  "linux_new =
     \<lparr>lx_map_descriptors = [], lx_conformance_groups = DEFAULT_GROUPS OR CG_PACKET, lx_ctx_descriptor = None,
      lx_program_type_name = None, lx_is_sleepable = False\<rparr>"

definition set_program_type :: "program_type \<Rightarrow> linux_platform \<Rightarrow> linux_platform" where
  "set_program_type t p =
     p\<lparr>lx_ctx_descriptor := pt_ctx_descriptor t, lx_program_type_name := Some (pt_name t),
       lx_is_sleepable := pt_is_sleepable t\<rparr>"

definition as_helper_prototype :: "linux_prototype \<Rightarrow> helper_prototype" where
  "as_helper_prototype p = helper_prototype.truncate p"

text \<open>The operations the decoder and program construction call, for a program of type \<open>t\<close>.\<close>

definition linux_ops :: "linux_platform \<Rightarrow> program_type \<Rightarrow> program_platform" where
  "linux_ops p t =
     \<lparr>get_builtin_call = linux_get_builtin_call,
      try_get_helper_prototype = (\<lambda>n. map_option as_helper_prototype (linux_try_get_helper_prototype (sint n))),
      is_helper_usable = (\<lambda>n. linux_is_helper_usable (sint n) (lx_ctx_descriptor p) (lx_program_type_name p)
         (lx_is_sleepable p)),
      get_helper_prototype = (\<lambda>n. map_option as_helper_prototype (linux_get_helper_prototype (sint n))),
      resolve_kfunc_call = (\<lambda>b m. make_kfunc_call_result b m (Some t))\<rparr>"

definition linux_get_map_descriptor :: "linux_platform \<Rightarrow> 32 word \<Rightarrow> map_descriptor option" where
  "linux_get_map_descriptor p map_fd =
     (case get_map_descriptor_linux (lx_map_descriptors p) map_fd of Inr d \<Rightarrow> Some d | Inl _ \<Rightarrow> None)"

definition sock_common_layout :: struct_descriptor where
  "sock_common_layout = BPF_SOCK_COMMON_LAYOUT"

end
