(* ===== verification/Linux_Facts.thy ===== *)
theory Linux_Facts
  imports Linux_Platform Unmarshal_Lemmas
begin

text \<open>
  What the Linux platform promises to its clients: its helpers, builtin calls and kernel functions
  resolve to well-formed calls, so the decoder never panics on it; helpers are found by their name;
  the synthetic descriptors of maps identify them up to equivalence; inner maps are resolved.
\<close>

subsection \<open>The table of helpers\<close>

lemma proto_selectors [simp]:
  "proto_name (proto n ret args realloc ctx unsup ms z) = n"
  "length (proto_argument_type (proto n ret args realloc ctx unsup ms z)) = 5"
  "proto_name (proto_plain n ret) = n"
  "length (proto_argument_type (proto_plain n ret)) = 5"
  "proto_name (with_allowed_map_types m p) = proto_name p"
  "proto_argument_type (with_allowed_map_types m p) = proto_argument_type p"
  by (simp_all add: proto_def proto_plain_def with_allowed_map_types_def pad_args_def)

text \<open>A hash that is different on all the names.\<close>

definition name_hash :: "string \<Rightarrow> nat" where
  "name_hash s = foldl (\<lambda>h c. (h * 15 + of_char c) mod 4096) 0 s"

lemma hashes_0: "map (\<lambda>p. name_hash (proto_name p)) PROTOTYPES_0 =
    [4068, 433, 2242, 1520, 2645, 2005, 3784, 1231, 1498, 2344, 3221, 3940, 3245, 2366, 3153, 1556, 1835,
     921, 2289, 1418, 3894, 234, 1745, 3564, 2592, 812, 3607, 3610, 156]"
  by (simp add: PROTOTYPES_0_def name_hash_def)

lemma hashes_29: "map (\<lambda>p. name_hash (proto_name p)) PROTOTYPES_29 =
    [858, 1294, 734, 644, 1304, 2352, 2900, 266, 3431, 3338, 3935, 1296, 3123, 1021, 474, 3365, 983, 503, 13,
     3659, 4061, 2582, 1353, 1472, 327, 42, 2739]"
  by (simp add: PROTOTYPES_29_def name_hash_def)

lemma hashes_56: "map (\<lambda>p. name_hash (proto_name p)) PROTOTYPES_56 =
    [3351, 2345, 675, 2146, 2887, 908, 3951, 822, 3869, 2133, 841, 1647, 2308, 3034, 2447, 2003, 1258, 2154,
     741, 321, 942, 233]"
  by (simp add: PROTOTYPES_56_def name_hash_def)

lemma hashes_78: "map (\<lambda>p. name_hash (proto_name p)) PROTOTYPES_78 =
    [2755, 3801, 607, 2686, 1913, 279, 1843, 2083, 3984, 1921, 2576, 1712, 97, 470, 3929, 3000, 33, 3242,
     4002, 643, 982, 688, 3447, 133, 801, 3368, 3124]"
  by (simp add: PROTOTYPES_78_def name_hash_def)

lemma hashes_105: "map (\<lambda>p. name_hash (proto_name p)) PROTOTYPES_105 =
    [3264, 51, 1307, 646, 223, 3039, 4011, 709, 3511, 71, 2745, 3552, 874, 950, 2446, 3609, 1985, 1690, 241,
     2198, 594, 2697]"
  by (simp add: PROTOTYPES_105_def name_hash_def)

lemma hashes_127: "map (\<lambda>p. name_hash (proto_name p)) PROTOTYPES_127 =
    [2367, 2951, 3657, 1341, 3232, 3540, 3970, 1052, 221, 1982, 4066, 3891, 2994, 3758, 2519, 2017, 1676,
     2823, 4062, 851, 2688, 2438, 2937, 14, 2949]"
  by (simp add: PROTOTYPES_127_def name_hash_def)

lemma hashes_152: "map (\<lambda>p. name_hash (proto_name p)) PROTOTYPES_152 =
    [4080, 1701, 1190, 2597, 1000, 809, 25, 1369, 3557, 3652, 3350, 311, 570, 3764, 1254, 891, 3638, 3546,
     2044, 440, 1348, 1673, 117, 2160, 2968, 1642, 2811, 1827, 1668, 2132]"
  by (simp add: PROTOTYPES_152_def name_hash_def)

lemma hashes_182: "map (\<lambda>p. name_hash (proto_name p)) PROTOTYPES_182 =
    [1561, 2948, 2495, 1246, 3817, 1437, 1053, 2797, 2482, 3246, 1841, 1567, 3526, 3633, 2357, 938, 2580,
     2976, 18, 2048, 2181, 3332]"
  by (simp add: PROTOTYPES_182_def name_hash_def)

lemma hashes_204: "map (\<lambda>p. name_hash (proto_name p)) PROTOTYPES_204 =
    [3948, 3950, 3956, 3958, 392, 1480, 3397, 1084]"
  by (simp add: PROTOTYPES_204_def name_hash_def)

lemmas prototype_chunks = PROTOTYPES_0_def PROTOTYPES_29_def PROTOTYPES_56_def PROTOTYPES_78_def
  PROTOTYPES_105_def PROTOTYPES_127_def PROTOTYPES_152_def PROTOTYPES_182_def PROTOTYPES_204_def

lemma chunk_five_args:
  "list_all (\<lambda>p. length (proto_argument_type p) = 5) PROTOTYPES"
  by (simp add: PROTOTYPES_def prototype_chunks)

lemma prototypes_five_args: "p \<in> set PROTOTYPES \<Longrightarrow> length (proto_argument_type p) = 5"
  using chunk_five_args by (auto simp: list_all_iff)

lemma prototypes_length: "length PROTOTYPES = 212"
  by (simp add: PROTOTYPES_def prototype_chunks)

lemma name_hashes_distinct: "distinct (map (\<lambda>p. name_hash (proto_name p)) PROTOTYPES)"
  unfolding PROTOTYPES_def map_append hashes_0 hashes_29 hashes_56 hashes_78 hashes_105 hashes_127 hashes_152 hashes_182 hashes_204
  by simp

lemma helper_names_distinct: "distinct (map proto_name PROTOTYPES)"
  using name_hashes_distinct by (auto simp: distinct_map inj_on_def)

lemma helper_names_unprefixed:
  "list_all (\<lambda>p. strip_prefix ''bpf_'' (proto_name p) = None \<and> strip_prefix ''ebpf_'' (proto_name p) = None) PROTOTYPES"
  by (simp add: PROTOTYPES_def prototype_chunks strip_prefix_def)

lemma helper_index_nth:
  "distinct (map proto_name ps) \<Longrightarrow> j < length ps \<Longrightarrow>
   helper_index (proto_name (ps ! j)) k ps = Some (k + int j)"
proof (induction ps arbitrary: j k)
  case (Cons p ps)
  show ?case
  proof (cases j)
    case (Suc i)
    then have "ps ! i \<in> set ps" using Cons.prems by simp
    moreover have "proto_name p \<notin> proto_name ` set ps" using Cons.prems(1) by simp
    ultimately have "proto_name (ps ! i) \<noteq> proto_name p" by (metis imageI)
    then show ?thesis using Suc Cons by simp
  qed simp
qed simp

lemma helper_index_sound:
  "helper_index name k ps = Some i \<Longrightarrow> k \<le> i \<and> nat (i - k) < length ps \<and> proto_name (ps ! nat (i - k)) = name"
proof (induction ps arbitrary: k)
  case (Cons p ps)
  show ?case
  proof (cases "name = proto_name p")
    case False
    then have "k + 1 \<le> i \<and> nat (i - (k + 1)) < length ps \<and> proto_name (ps ! nat (i - (k + 1))) = name"
      using Cons.IH [of "k + 1"] Cons.prems by simp
    moreover from this have "nat (i - k) = Suc (nat (i - (k + 1)))" by (simp add: nat_eq_iff algebra_simps)
    ultimately show ?thesis by simp
  qed (use Cons.prems in simp)
qed simp

lemma strip_own_prefix: "strip_prefix pre (pre @ s) = Some s"
  by (simp add: strip_prefix_def)

lemma strip_ebpf: "strip_prefix ''bpf_'' (''ebpf_'' @ s) = None"
  by (simp add: strip_prefix_def)

lemma helper_names_facts:
  "\<forall>i \<in> {0..<212}. \<exists>p. linux_get_helper_prototype i = Some p \<and>
     resolve_helper_id (proto_name p) = Some i \<and> resolve_helper_id (''bpf_'' @ proto_name p) = Some i \<and>
     resolve_helper_id (''ebpf_'' @ proto_name p) = Some i"
  "resolve_helper_id name = Some i \<Longrightarrow> \<exists>p. linux_get_helper_prototype i = Some p \<and>
     (name = proto_name p \<or> name = ''bpf_'' @ proto_name p \<or> name = ''ebpf_'' @ proto_name p)"
proof -
  have len: "int (length PROTOTYPES) = 212" by (simp add: prototypes_length)
  show "\<forall>i \<in> {0..<212}. \<exists>p. linux_get_helper_prototype i = Some p \<and>
     resolve_helper_id (proto_name p) = Some i \<and> resolve_helper_id (''bpf_'' @ proto_name p) = Some i \<and>
     resolve_helper_id (''ebpf_'' @ proto_name p) = Some i"
  proof
    fix i :: int assume i: "i \<in> {0..<212}"
    let ?p = "PROTOTYPES ! nat i"
    have b: "nat i < length PROTOTYPES" using i by (simp add: prototypes_length nat_less_iff)
    have "helper_index (proto_name ?p) 0 PROTOTYPES = Some i"
      using helper_index_nth [OF helper_names_distinct b, of 0] i by simp
    moreover have "strip_prefix ''bpf_'' (proto_name ?p) = None" "strip_prefix ''ebpf_'' (proto_name ?p) = None"
      using helper_names_unprefixed b
      by (auto simp: list_all_iff)
    moreover have "linux_get_helper_prototype i = Some ?p"
      using i len by (simp add: linux_get_helper_prototype_def assert_that_simps)
    ultimately show "\<exists>p. linux_get_helper_prototype i = Some p \<and>
       resolve_helper_id (proto_name p) = Some i \<and> resolve_helper_id (''bpf_'' @ proto_name p) = Some i \<and>
       resolve_helper_id (''ebpf_'' @ proto_name p) = Some i"
      unfolding resolve_helper_id_def strip_own_prefix strip_ebpf Let_def by simp
  qed
  assume r: "resolve_helper_id name = Some i"
  define c where "c = (case strip_prefix ''bpf_'' name of
      Some rest \<Rightarrow> rest | None \<Rightarrow> (case strip_prefix ''ebpf_'' name of Some rest \<Rightarrow> rest | None \<Rightarrow> name))"
  have "helper_index c 0 PROTOTYPES = Some i" using r by (simp add: resolve_helper_id_def c_def)
  from helper_index_sound [OF this] have i: "0 \<le> i" "nat i < length PROTOTYPES" "proto_name (PROTOTYPES ! nat i) = c"
    by auto
  have pre: "name = pre @ rest" if "strip_prefix pre name = Some rest" for pre rest
    using that append_take_drop_id [of "length pre" name] unfolding strip_prefix_def
    by (metis option.distinct(1) option.inject)
  have "name = c \<or> name = ''bpf_'' @ c \<or> name = ''ebpf_'' @ c"
    using pre [of "''bpf_''"] pre [of "''ebpf_''"] by (auto simp: c_def split: option.split)
  moreover have "linux_get_helper_prototype i = Some (PROTOTYPES ! nat i)"
    using i by (simp add: linux_get_helper_prototype_def assert_that_simps nat_less_iff)
  ultimately show "\<exists>p. linux_get_helper_prototype i = Some p \<and>
     (name = proto_name p \<or> name = ''bpf_'' @ proto_name p \<or> name = ''ebpf_'' @ proto_name p)"
    using i(3) by blast
qed

text \<open>C27: Helper functions are found by name: every number of the table is resolved from the name of
  its prototype, also with the prefix \<open>bpf_\<close> or \<open>ebpf_\<close>, and a name only resolves to a number
  whose prototype has that name.\<close>

theorem helper_names_roundtrip:
  "(\<forall>i \<in> {0..<212}. \<exists>p. linux_get_helper_prototype i = Some p \<and>
      resolve_helper_id (proto_name p) = Some i \<and> resolve_helper_id (''bpf_'' @ proto_name p) = Some i \<and>
      resolve_helper_id (''ebpf_'' @ proto_name p) = Some i) \<and>
   (\<forall>name i. resolve_helper_id name = Some i \<longrightarrow> (\<exists>p. linux_get_helper_prototype i = Some p \<and>
      (name = proto_name p \<or> name = ''bpf_'' @ proto_name p \<or> name = ''ebpf_'' @ proto_name p)))"
  using helper_names_facts by blast

theorem helper_names_roundtrip_witness:
  "\<exists>p. linux_get_helper_prototype 1 = Some p \<and>
     (''bpf_map_lookup_elem'' = proto_name p \<or> ''bpf_map_lookup_elem'' = ''bpf_'' @ proto_name p \<or>
      ''bpf_map_lookup_elem'' = ''ebpf_'' @ proto_name p)"
proof -
  have r: "resolve_helper_id ''bpf_map_lookup_elem'' = Some 1"
    by (simp add: resolve_helper_id_def strip_prefix_def PROTOTYPES_def PROTOTYPES_0_def)
  show ?thesis using helper_names_roundtrip r by blast
qed

subsection \<open>Calls\<close>

definition call_ok :: "32 word \<Rightarrow> call \<Rightarrow> bool" where
  "call_ok i c \<longleftrightarrow> call_func c = i \<and> set (contract_regs (contract c)) \<subseteq> word_of_nat ` {1..5} \<and>
     (\<forall>r. alloc_size_reg (contract c) = Some r \<longrightarrow> r \<in> set (contract_regs (contract c)))"

lemma helper_call_ok:
  assumes "try_get i = Some p" "length (proto_argument_type p) = 5"
  shows "\<exists>c. make_call_result i try_get = Inr c \<and> call_ok i c"
proof -
  have "\<exists>c j. make_call_result i try_get = Inr c \<and> j \<le> 6 \<and> call_func c = i \<and> contract_upto j (contract c)"
    by (rule make_call_result_upto) (use assms in auto)
  then obtain c j where c: "make_call_result i try_get = Inr c" "j \<le> 6" "call_func c = i"
    "contract_upto j (contract c)" by blast
  have "{1..<j} \<subseteq> {1..5}" using c(2) by auto
  then have "call_ok i c" using c(3,4) by (auto simp: call_ok_def contract_upto_def contract_regs_def)
  then show ?thesis using c(1) by blast
qed

lemma linux_try_get_cases:
  "linux_try_get_helper_prototype n = Some p \<Longrightarrow> p \<in> set PROTOTYPES"
  by (auto simp: linux_try_get_helper_prototype_def nat_less_iff split: if_splits)

lemma linux_usable_has_prototype:
  "linux_is_helper_usable n ctx name sl \<Longrightarrow> \<exists>p. linux_try_get_helper_prototype n = Some p"
  by (auto simp: linux_is_helper_usable_def linux_try_get_helper_prototype_def split: if_splits)

lemma argument_registers: "(word_of_nat ` {1..5} :: reg set) = {1, 2, 3, 4, 5}"
proof -
  have "{1..5::nat} = {1, 2, 3, 4, 5}" by auto
  then show ?thesis by simp
qed

lemma builtin_call_ok: "linux_get_builtin_call i = Some c \<Longrightarrow> call_ok i c \<and> call_kind c = Builtin"
  by (auto simp: linux_get_builtin_call_def call_ok_def builtin_call_def builtin_pair_def anything_arg_def
      contract_regs_def pair_regs_def contract_default_def argument_registers [simplified] split: if_splits)

lemma linux_coherent: "platform_coherent (platform.truncate (linux_ops p t))"
  using linux_usable_has_prototype
  by (auto simp: platform_coherent_def platform.truncate_def linux_ops_def)

text \<open>C9: Every call the Linux platform gives is well formed: a usable helper function has a
  prototype and resolves to a call, and the calls of helpers and builtins carry their number and
  name argument registers among r1 to r5 only, the allocation size register being one of them.
  So the decoder never panics on this platform.\<close>

theorem linux_calls_well_formed:
  assumes "plat = platform.truncate (linux_ops p t)"
  shows "(\<forall>i. is_helper_usable plat i \<longrightarrow>
      (\<exists>c. make_call_result i (try_get_helper_prototype plat) = Inr c \<and> call_ok i c)) \<and>
    (\<forall>i c. get_builtin_call plat i = Some c \<longrightarrow> call_ok i c \<and> call_kind c = Builtin) \<and>
    (env_platform env = plat \<longrightarrow> fst (unmarshal env ns) \<noteq> Panic)"
proof -
  have "\<exists>c. make_call_result i (try_get_helper_prototype plat) = Inr c \<and> call_ok i c"
    if use: "is_helper_usable plat i" for i
  proof -
    have "linux_is_helper_usable (sint i) (lx_ctx_descriptor p) (lx_program_type_name p) (lx_is_sleepable p)"
      using use assms by (simp add: platform.truncate_def linux_ops_def)
    then obtain q where "linux_try_get_helper_prototype (sint i) = Some q"
      using linux_usable_has_prototype by blast
    then show ?thesis
      using prototypes_five_args [OF linux_try_get_cases] assms
      by (intro helper_call_ok [of _ _ "as_helper_prototype q"])
        (auto simp: platform.truncate_def linux_ops_def as_helper_prototype_def helper_prototype.truncate_def)
  qed
  moreover have "fst (unmarshal env ns) \<noteq> Panic" if "env_platform env = plat"
    using unmarshal_loop_no_panic [of env] linux_coherent [of p t] that assms
    by (auto simp: unmarshal_def panics_def split: sum.split)
  ultimately show ?thesis
    using builtin_call_ok assms by (auto simp: platform.truncate_def linux_ops_def)
qed

theorem linux_calls_well_formed_witness:
  "\<exists>c. make_call_result 1 (try_get_helper_prototype (platform.truncate (linux_ops linux_new linux_xdp_program_type))) =
     Inr c \<and> call_ok 1 c"
proof -
  have "is_helper_usable (platform.truncate (linux_ops linux_new linux_xdp_program_type)) 1"
    by (simp add: platform.truncate_def linux_ops_def linux_is_helper_usable_def linux_new_def prototypes_length)
      (simp add: PROTOTYPES_def PROTOTYPES_0_def proto_def)
  then show ?thesis using linux_calls_well_formed [OF refl, of linux_new linux_xdp_program_type] by blast
qed

subsection \<open>Maps\<close>

text \<open>Synthetic descriptors number the classes of equivalent maps.\<close>

definition same_map :: "map_descriptor \<Rightarrow> map_descriptor \<Rightarrow> bool" where
  "same_map d e \<longleftrightarrow>
     mt_value_type (get_map_type_linux (md_map_type d)) = mt_value_type (get_map_type_linux (md_map_type e)) \<and>
     md_key_size d = md_key_size e \<and> md_value_size d = md_value_size e \<and>
     (if mt_is_array (get_map_type_linux (md_map_type d)) then md_max_entries d else 0) =
     (if mt_is_array (get_map_type_linux (md_map_type e)) then md_max_entries e else 0)"

lemma same_map_key: "key_of_descriptor d = key_of_descriptor e \<longleftrightarrow> same_map d e"
  by (simp add: key_of_descriptor_def same_map_def Let_def)

text \<open>A descriptor has the fields of the record it was made from.\<close>

definition made_from :: "load_map_def \<Rightarrow> map_descriptor \<Rightarrow> bool" where
  "made_from s d \<longleftrightarrow> md_map_type d = lm_map_type s \<and> md_key_size d = lm_key_size s \<and>
     md_value_size d = lm_value_size s \<and> md_max_entries d = lm_max_entries s"

definition mock_ok :: "map_descriptor list \<Rightarrow> bool" where
  "mock_ok ds \<longleftrightarrow>
     (\<forall>d\<in>set ds. unat (md_original_fd d) \<le> length ds) \<and>
     (\<forall>d\<in>set ds. \<forall>e\<in>set ds. md_original_fd d = md_original_fd e \<longleftrightarrow> key_of_descriptor d = key_of_descriptor e)"

lemma small_fd:
  assumes "n < 2 ^ 31 - 1"
  shows "sint (word_of_nat n :: 32 word) \<noteq> 2 ^ 31 - 1" "unat (word_of_nat n + 1 :: 32 word) = n + 1"
proof -
  have "(word_of_nat n + 1 :: 32 word) = word_of_nat (n + 1)" by simp
  then show "unat (word_of_nat n + 1 :: 32 word) = n + 1"
    using assms by (simp only: unat_of_nat) simp
  have "sint (word_of_nat n :: 32 word) = int n"
    using assms by (simp add: signed_of_nat signed_take_bit_int_eq_self)
  then show "sint (word_of_nat n :: 32 word) \<noteq> 2 ^ 31 - 1" using assms by simp
qed

lemma push_mock:
  assumes "mock_ok ds" "length ds < 2 ^ 31 - 1"
  shows "\<exists>d. push_map_def create True s ds = Some (ds @ [d]) \<and> mock_ok (ds @ [d]) \<and> made_from s d"
proof -
  let ?k = "key_of_type (get_map_type_linux (lm_map_type s)) (lm_key_size s) (lm_value_size s) (lm_max_entries s)"
  define mk where "mk = (\<lambda>fd. \<lparr>md_original_fd = fd, md_map_type = lm_map_type s, md_key_size = lm_key_size s,
      md_value_size = lm_value_size s, md_max_entries = lm_max_entries s,
      md_inner_map_fd = lm_inner_map_idx s, md_name = [], md_is_inner_map_template = False\<rparr>)"
  have key: "key_of_descriptor (mk fd) = ?k" "md_original_fd (mk fd) = fd" for fd
    by (simp_all add: key_of_descriptor_def key_of_type_def mk_def Let_def)
  have fields: "made_from s (mk fd)" for fd by (simp add: made_from_def mk_def)
  show ?thesis
  proof (cases "find (\<lambda>d. key_of_descriptor d = ?k) ds")
    case None
    then have new: "key_of_descriptor d \<noteq> ?k" if "d \<in> set ds" for d using that by (auto simp: find_None_iff)
    let ?fd = "word_of_nat (length ds) + 1 :: 32 word"
    have fresh: "md_original_fd d \<noteq> ?fd" if "d \<in> set ds" for d
      using assms(1) small_fd(2) [OF assms(2)] that by (auto simp: mock_ok_def dest!: bspec)
    have "push_map_def create True s ds = Some (ds @ [mk ?fd])"
      using None small_fd(1) [OF assms(2)]
      by (simp add: push_map_def_def allocate_mock_map_fd_def mk_def Let_def)
    moreover have "mock_ok (ds @ [mk ?fd])"
      using assms new fresh small_fd(2) [OF assms(2)] unfolding mock_ok_def
      by (auto simp: key eq_commute [of ?fd] eq_commute [of ?k] le_SucI)
    ultimately show ?thesis using fields by blast
  next
    case (Some e)
    then have e: "e \<in> set ds" "key_of_descriptor e = ?k" by (auto simp: find_Some_iff in_set_conv_nth)
    let ?fd = "md_original_fd e"
    have "push_map_def create True s ds = Some (ds @ [mk ?fd])"
      using Some by (simp add: push_map_def_def allocate_mock_map_fd_def mk_def Let_def)
    moreover have "mock_ok (ds @ [mk ?fd])"
      using assms(1) e unfolding mock_ok_def by (auto simp: key le_SucI)
    ultimately show ?thesis using fields by blast
  qed
qed

lemma push_mocks:
  assumes "mock_ok ds" "length ds + length ss < 2 ^ 31"
  shows "\<exists>es. for_each (push_map_def create True) ss ds = Some (ds @ es) \<and> mock_ok (ds @ es) \<and>
    list_all2 made_from ss es"
  using assms
proof (induction ss arbitrary: ds)
  case (Cons s ss)
  then obtain d where d: "push_map_def create True s ds = Some (ds @ [d])" "mock_ok (ds @ [d])" "made_from s d"
    using push_mock [OF Cons.prems(1)] by fastforce
  from Cons.IH [OF d(2)] Cons.prems(2) obtain es where "for_each (push_map_def create True) ss (ds @ [d]) = Some (ds @ d # es)"
    "mock_ok (ds @ d # es)" "list_all2 made_from ss es" by auto
  then show ?case using d by (intro exI [of _ "d # es"]) simp
qed simp

lemma parse_map_defs_returns:
  "\<forall>i\<in>set is. i * record_size \<le> length bytes \<Longrightarrow>
   parse_map_defs bytes record_size is =
     Some (map (\<lambda>i. parse_map_def_record (drop (i * record_size) bytes) record_size) is)"
  by (induction "is") (auto simp: assert_that_simps)

lemma position_first:
  "x \<in> set xs \<Longrightarrow> P x \<Longrightarrow> \<exists>i. position P xs = Some i \<and> i < length xs \<and> P (xs ! i)"
  by (induction xs) auto

text \<open>C25: With synthetic descriptors, for a section of fewer than 2^31 records that all start within
  it, parsing returns one descriptor per record, with the map type, key size, value size and number of
  entries of the record. Two maps have the same descriptor number exactly when their types have the
  same value type, their key sizes and their value sizes agree, and their numbers of entries agree,
  where the number of entries of a map that is not an array counts as 0. Looking a number up finds
  a map of the section that is the same in this sense.\<close>

theorem mock_map_fds_exact:
  assumes "mock_map_fds opts" "\<forall>i<count. i * record_size \<le> length bytes" "count < 2 ^ 31"
  shows "\<exists>ds. parse_maps_section_linux create [] bytes record_size count opts = Some ds \<and> length ds = count \<and>
    (\<forall>i<count. made_from (parse_map_def_record (drop (i * record_size) bytes) record_size) (ds ! i)) \<and>
    (\<forall>d\<in>set ds. \<forall>e\<in>set ds. md_original_fd d = md_original_fd e \<longleftrightarrow> same_map d e) \<and>
    (\<forall>d\<in>set ds. \<exists>e. get_map_descriptor_linux ds (md_original_fd d) = Inr e \<and> e \<in> set ds \<and> same_map e d)"
proof -
  define ms where "ms = map (\<lambda>i. parse_map_def_record (drop (i * record_size) bytes) record_size) [0..<count]"
  have ms: "parse_map_defs bytes record_size [0..<count] = Some ms" "length ms = count"
    using parse_map_defs_returns [of "[0..<count]" record_size bytes] assms(2) by (auto simp: ms_def)
  obtain ds where ds: "for_each (push_map_def create True) ms [] = Some ds" "mock_ok ds" "list_all2 made_from ms ds"
    using push_mocks [of "[]" ms create] ms(2) assms(3) by (auto simp: mock_ok_def)
  have "\<exists>e. get_map_descriptor_linux ds (md_original_fd d) = Inr e \<and> e \<in> set ds \<and> same_map e d"
    if "d \<in> set ds" for d
    using position_first [OF that, of "\<lambda>m. md_original_fd m = md_original_fd d"] ds(2) that
    by (auto simp: get_map_descriptor_linux_def find_map_descriptor_def mock_ok_def same_map_key)
  moreover have "length ds = count" using ds(3) ms(2) by (simp add: list_all2_lengthD [symmetric])
  moreover have "made_from (parse_map_def_record (drop (i * record_size) bytes) record_size) (ds ! i)" if "i < count" for i
    using list_all2_nthD [OF ds(3), of i] that by (simp add: ms_def)
  ultimately show ?thesis
    using ms ds assms(1) by (auto simp: parse_maps_section_linux_def mock_ok_def same_map_key)
qed

text \<open>A record of a hash map with keys and values of four bytes.\<close>

definition hash_record :: "8 word list" where
  "hash_record = [1, 0, 0, 0, 4, 0, 0, 0, 4, 0, 0, 0, 1, 0, 0, 0]"

theorem mock_map_fds_exact_witness:
  "\<exists>ds. parse_maps_section_linux (\<lambda>_ _ _ _. None) [] (hash_record @ hash_record) 16 2
     (options_default\<lparr>mock_map_fds := True\<rparr>) = Some ds \<and> length ds = 2"
proof -
  have "\<forall>i<2. i * 16 \<le> length (hash_record @ hash_record)" by (simp add: hash_record_def)
  from mock_map_fds_exact [OF _ this, of "options_default\<lparr>mock_map_fds := True\<rparr>" "\<lambda>_ _ _ _. None"]
  show ?thesis by auto
qed

definition inner_ok :: "map_descriptor list \<Rightarrow> map_descriptor \<Rightarrow> bool" where
  "inner_ok ds d \<longleftrightarrow> 0 \<le> sint (md_inner_map_fd d) \<and> nat (sint (md_inner_map_fd d)) < length ds"

definition with_inner :: "map_descriptor list \<Rightarrow> map_descriptor \<Rightarrow> map_descriptor" where
  "with_inner ds d = d\<lparr>md_inner_map_fd := md_original_fd (ds ! nat (sint (md_inner_map_fd d)))\<rparr>"

lemma resolve_inner_loop_spec:
  assumes "k \<le> length ds" "\<forall>d\<in>set (take k ds). inner_ok ds d"
  shows "resolve_inner_loop [k..<length ds] (map (with_inner ds) (take k ds) @ drop k ds) =
     (None, map (with_inner ds) ds) \<and> (\<forall>d\<in>set ds. inner_ok ds d) \<or>
   (\<exists>m es. resolve_inner_loop [k..<length ds] (map (with_inner ds) (take k ds) @ drop k ds) = (Some m, es) \<and>
     \<not> (\<forall>d\<in>set ds. inner_ok ds d))"
  using assms
proof (induction "length ds - k" arbitrary: k)
  case 0
  then show ?case by simp
next
  case (Suc n)
  let ?cur = "map (with_inner ds) (take k ds) @ drop k ds"
  let ?j = "nat (sint (md_inner_map_fd (ds ! k)))"
  have k: "k < length ds" using Suc.hyps(2) by simp
  have u: "[k..<length ds] = k # [Suc k..<length ds]" using k by (simp add: upt_conv_Cons)
  have at: "?cur ! k = ds ! k" "length ?cur = length ds" using k by (simp_all add: nth_append)
  have fd: "md_original_fd (?cur ! j) = md_original_fd (ds ! j)" if "j < length ds" for j
    using that k by (simp add: nth_append with_inner_def)
  show ?case
  proof (cases "inner_ok ds (ds ! k)")
    case False
    then have "\<exists>m es. resolve_inner_loop [k..<length ds] ?cur = (Some m, es)"
      unfolding u by (auto simp: at Let_def inner_ok_def)
    then show ?thesis using False k nth_mem by blast
  next
    case True
    have step: "?cur[k := (?cur ! k)\<lparr>md_inner_map_fd := md_original_fd (?cur ! ?j)\<rparr>] =
        map (with_inner ds) (take (Suc k) ds) @ drop (Suc k) ds"
      using k True fd [of ?j] by (intro nth_equalityI)
        (auto simp: nth_append nth_list_update with_inner_def inner_ok_def less_Suc_eq)
    have "resolve_inner_loop [k..<length ds] ?cur =
        resolve_inner_loop [Suc k..<length ds] (map (with_inner ds) (take (Suc k) ds) @ drop (Suc k) ds)"
      using True unfolding u step [symmetric]
      by (simp only: resolve_inner_loop.simps at Let_def inner_ok_def not_less not_le
          simp_thms if_False HOL.conj_commute) simp
    moreover have "\<forall>d\<in>set (take (Suc k) ds). inner_ok ds d"
      using Suc.prems(2) True k by (auto simp: take_Suc_conv_app_nth)
    ultimately show ?thesis using Suc.hyps(1) [of "Suc k"] Suc.hyps(2) k by simp
  qed
qed

text \<open>C26: Inner map references are resolved exactly: when every map names the index of a map, its
  reference becomes the descriptor of that map and nothing else changes; otherwise an error is
  returned.\<close>

theorem inner_maps_exact:
  "(if list_all (inner_ok ds) ds
    then resolve_inner_map_references_linux ds = (None, map (with_inner ds) ds)
    else \<exists>m es. resolve_inner_map_references_linux ds = (Some m, es))"
  using resolve_inner_loop_spec [of 0 ds]
  by (auto simp: resolve_inner_map_references_linux_def list_all_iff)

end
