(* ===== verification/Spec2Isabelle.thy ===== *)
theory Spec2Isabelle
  imports Interval_Soundness Linear Decoder Union_Find Register_Analysis Assertions Program_Safety Zone_Assign Linux_Facts
begin

text \<open>
  A verification development for the eBPF verifier in \<open>src/\<close>: a static analyser that decodes an
  eBPF program, builds its control-flow graph with explicit safety assertions, computes abstract
  states at every node with a fixpoint iteration, and accepts the program when every assertion
  holds in the abstract state at its node.

  The pipeline and where it is modelled.

  \<^item> Decoding (\<open>spec/vm_isa.rs\<close>, \<open>ir/syntax.rs\<close>, \<open>ir/unmarshal.rs\<close>, \<open>ir/marshal.rs\<close>,
    \<open>ir/call_proto.rs\<close>, \<open>ir/arg_kind.rs\<close>): theories Isa, Syntax, Call_Proto, Marshal, Unmarshal.
    Unmarshal_Lemmas and Decoder show that the decoder returns on every byte-level instruction
    sequence (an error or a program, never a panic under the stated coherence of the platform),
    that decoded programs are well formed, that jump targets are exact, and that ALU operations
    survive an encode and decode round trip.
  \<^item> Options (\<open>spec/config.rs\<close>): theory Config.
  \<^item> The control-flow graph (\<open>cfg/graph.rs\<close>, \<open>cfg/label.rs\<close>, \<open>cfg/wto.rs\<close>): theories Label_Order,
    Cfg, Wto.  The graph operations keep the two adjacency maps inverse to each other.
  \<^item> Program construction (\<open>ir/program.rs\<close>, \<open>ir/assertions.rs\<close>): theories Assertions, Program_Build,
    Program_Facts.  Program_Execution gives the instruction sequence and the built program their
    executions.
  \<^item> The fixpoint iteration (\<open>fwd_analyzer.rs\<close>, the verdict of \<open>result.rs\<close>): theories Fwd_Analyzer,
    Fwd_Soundness, Fwd_Results, over a record of domain operations whose laws are named in
    Fwd_Soundness.  Register_Analysis is a concrete instance with the interval domain.
    Program_Safety composes decoding, construction, assertions and iteration: a verified program
    runs without violating an assertion.
  \<^item> Arithmetic (\<open>arith/\<close>): theories Number (128-bit numbers with checked arithmetic),
    Extended_Number, Linear.
  \<^item> The interval domain (\<open>crab/interval.rs\<close>): theories Interval, Interval_Arith, Interval_Rem,
    Interval_Bits, Interval_Soundness, against the concretisation \<open>itv_gamma\<close>.
  \<^item> Types (\<open>crab/type_encoding.rs\<close>) and must-equality (\<open>crab/dsu.rs\<close>): theories Type_Encoding and
    Union_Find.
  \<^item> Difference-bound matrices (\<open>crab/splitdbm/\<close>): theories Weight_Heap (\<open>heap.rs\<close>), Dbm_Graph
    (\<open>graph.rs\<close>), Graph_Views (\<open>graph_views.rs\<close>), Graph_Ops and Graph_Paths (\<open>graph_ops.rs\<close>), with
    Potential_Repair, Closure_Assign and Dijkstra_Closure proving the repair of a potential and the
    closures.  Split_Dbm models \<open>split_dbm.rs\<close>; Dbm_Soundness shows that adding constraints keeps
    exactly the solutions that satisfy them, Dbm_Lattice that join and widening keep the solutions of
    both operands and that inclusion is sound, Dbm_Assign treats new, forgotten and assigned vertices.
    The weights and potentials of the operands are bounded (by \<open>2 ^ 66\<close> up to \<open>2 ^ 120\<close>, as each
    lemma states), so that no 128-bit operation overflows.
  \<^item> The registry of variables (\<open>crab/var_registry.rs\<close>): theory Var_Registry.
  \<^item> The zone domain (\<open>crab/zone_domain.rs\<close>): theory Zone_Domain models its operations.
    Zone_Soundness reads a zone as the set of valuations of its variables and states the invariant,
    Zone_Constraints treats the translation of an inequality to differences, Zone_Queries adding a
    constraint and entailment, Zone_Lattice join and widening, Zone_Assign forgetting, setting and
    assigning.  The bounds are those of 64-bit programs: weights below \<open>2 ^ 66\<close>, linear expressions
    with at most three terms, constants below \<open>2 ^ 68\<close> and coefficients below \<open>32\<close>, and room for the
    vertices that an operation may add below the limit of 16-bit vertex numbers.
  \<^item> The Linux platform (\<open>linux/\<close>): theories Linux_Descriptors (context and map descriptors),
    Linux_Helpers (the table of helper prototypes), Linux_Kfunc, Linux_Platform (map sections and the
    callbacks of the decoder) and Linux_Facts, which shows that the platform satisfies what the
    decoder and the builder assume of it.

  Shared theories: Prelude (the panic monad and generic lemmas), Formatting (number formats of
  \<open>format!\<close>), Btree and Bset (ordered maps and sets of the standard library as sorted lists),
  Arrays (indexed vectors and loops), Abstract_Domain (the interface of the abstract domains).

  Conventions.  A panic (overflow, an index out of range, an \<open>unwrap\<close> of nothing, a failed
  \<open>assert!\<close> or \<open>debug_assert!\<close>) is \<open>None\<close> of the panic monad, a rejection with an error message is
  the left side of a sum.  Machine integers are words where the code computes with their bits, and
  integers with the range checked where it relies on overflow checks; \<open>usize\<close> counters that are
  bounded by the length of a vector are natural numbers.  A structure is a record, an enumeration
  a datatype with the constructors of the source.  An iterator is the list it yields.  Loops that
  are structural are recursive functions; \<open>while\<close> loops are partial functions in the panic monad
  (\<open>while_opt\<close>), where not returning is \<open>None\<close>, and each is shown to return under its invariant.

  Fuel.  No definition takes fuel: recursion is structural, or has a measure on the data, or is
  \<open>while_opt\<close> with a proof that it returns.

  Not modelled, and why.
  \<^item> Parsing of ELF and BTF files, the command line, test formats and printing: input and output.
  \<^item> The domains above the zones (\<open>finite_domain.rs\<close>, \<open>type_domain.rs\<close>, \<open>array_domain.rs\<close>,
    \<open>ebpf_domain.rs\<close>) and their transformer and checker (\<open>ebpf_transformer.rs\<close>,
    \<open>ebpf_checker.rs\<close>): the analyzer takes the domain as a parameter.
  \<^item> The \<open>bpf\<close> system call that creates maps: a parameter of the parser of map sections.
  \<^item> Of the zone domain, \<open>meet\<close> and disequations are modelled and not shown sound; a disequation with
    zero on an unconstrained variable is not (\<open>trim_interval_top_drops\<close>).
  \<^item> Third-party crates and the operating system.
\<close>

end
